(* ===== verification/Prelude.thy ===== *)
theory Prelude
  imports Main "HOL-Library.Word" "HOL-Library.Monad_Syntax"
begin

text \<open>
  Shared vocabulary of the development: the machine types of the C code, the
  arithmetic of \<open>size_t\<close>, the result-and-state functions every parser and builder
  is written with, the big-endian reading of byte strings, and the generic
  facts on lists and words the component theories use.
\<close>

unbundle bit_operations_syntax

section \<open>Machine types\<close>

type_synonym u8 = "8 word"
type_synonym u16 = "16 word"
type_synonym u32 = "32 word"
type_synonym u64 = "64 word"

text \<open>\<open>crypto_word_t\<close> on a 64-bit build (\<open>crypto/internal.h\<close>).\<close>

type_synonym crypto_word = "64 word"

text \<open>
  Sizes and indices (\<open>size_t\<close>, 64 bits) are kept as \<open>nat\<close>; where the code adds
  or multiplies without a bound the wrap-around is written out with
  \<open>size_add\<close> and \<open>size_mul\<close>.
\<close>

abbreviation size_modulus :: nat where
  "size_modulus \<equiv> 2 ^ 64"

definition size_add :: "nat \<Rightarrow> nat \<Rightarrow> nat" where
  "size_add a b = (a + b) mod size_modulus"

definition size_mul :: "nat \<Rightarrow> nat \<Rightarrow> nat" where
  "size_mul a b = (a * b) mod size_modulus"

abbreviation int_max :: nat where
  "int_max \<equiv> 2 ^ 31 - 1"

named_theorems size_simps \<open>wrapping size arithmetic below the modulus\<close>
named_theorems reader_simps \<open>unfolding of reader and builder steps\<close>
named_theorems reader_dest \<open>what a successful read says of its input\<close>

lemma size_add_exact [size_simps]: "a + b < size_modulus \<Longrightarrow> size_add a b = a + b"
  by (simp add: size_add_def)

lemma size_mul_exact [size_simps]: "a * b < size_modulus \<Longrightarrow> size_mul a b = a * b"
  by (simp add: size_mul_def)

lemma size_add_less: "size_add a b < size_modulus"
  by (simp add: size_add_def)

lemma size_mul_less: "size_mul a b < size_modulus"
  by (simp add: size_mul_def)

text \<open>The C idiom \<open>a + b < a\<close> detects exactly the wrap-around.\<close>

lemma size_add_wraps_iff:
  assumes "a < size_modulus" and "b < size_modulus"
  shows "size_add a b < a \<longleftrightarrow> size_modulus \<le> a + b"
proof (cases "a + b < size_modulus")
  case True
  then show ?thesis by (simp add: size_simps)
next
  case False
  with assms have "size_add a b = a + b - size_modulus"
    by (simp add: size_add_def mod_if)
  with False assms show ?thesis by arith
qed

lemma size_add_no_wrap:
  assumes "a < size_modulus" and "b < size_modulus" and "\<not> size_add a b < a"
  shows "size_add a b = a + b" and "a + b < size_modulus"
  using assms size_add_wraps_iff [of a b] by (auto simp: size_add_def)

text \<open>The C idiom \<open>(k * n) / k != n\<close> detects the wrap-around of a product.\<close>

lemma size_mul_div_exact:
  assumes "0 < k" and "size_mul k n div k = n"
  shows "size_mul k n = k * n"
proof -
  have "k * (size_mul k n div k) \<le> size_mul k n"
    by simp
  with assms have "k * n \<le> size_mul k n"
    by simp
  moreover have "size_mul k n \<le> k * n"
    by (simp add: size_mul_def)
  ultimately show ?thesis by simp
qed

section \<open>Functions that return a result and pass the state on\<close>

text \<open>
  A C function that reports success through its return value and changes an object
  in place is a function from the object's state to an optional result and the state
  it leaves. \<open>None\<close> is the return value 0; the state it leaves is still given,
  since several of the functions have advanced it by then.
\<close>

type_synonym ('s, 'a) op = "'s \<Rightarrow> 'a option \<times> 's"

definition pret :: "'a \<Rightarrow> ('s, 'a) op" where
  "pret x s = (Some x, s)"

definition pfail :: "('s, 'a) op" where
  "pfail s = (None, s)"

definition pbind :: "('s, 'a) op \<Rightarrow> ('a \<Rightarrow> ('s, 'b) op) \<Rightarrow> ('s, 'b) op" where
  "pbind m f s = (case m s of (None, s') \<Rightarrow> (None, s') | (Some x, s') \<Rightarrow> f x s')"

definition pguard :: "bool \<Rightarrow> ('s, unit) op" where
  "pguard b s = (if b then Some () else None, s)"

definition pmap :: "('a \<Rightarrow> 'b) \<Rightarrow> ('s, 'a) op \<Rightarrow> ('s, 'b) op" where
  "pmap f m s = (case m s of (r, s') \<Rightarrow> (map_option f r, s'))"

lemma pret_simps [simp]: "pret x s = (Some x, s)"
  by (simp add: pret_def)

lemma pfail_simps [simp]: "pfail s = (None, s)"
  by (simp add: pfail_def)

lemma pguard_simps [simp]: "pguard True s = (Some (), s)" "pguard False s = (None, s)"
  by (simp_all add: pguard_def)

lemma pbind_step [simp]:
  "m s = (Some x, s') \<Longrightarrow> pbind m f s = f x s'"
  "m s = (None, s') \<Longrightarrow> pbind m f s = (None, s')"
  by (simp_all add: pbind_def)

lemma pbind_pret [simp]: "pbind (pret x) f = f x"
  by (rule ext) (simp add: pbind_def)

lemma pbind_assoc: "pbind (pbind m f) g = pbind m (\<lambda>x. pbind (f x) g)"
  by (rule ext) (simp add: pbind_def split: prod.splits option.splits)

lemma pbind_Some_iff:
  "pbind m f s = (Some y, t) \<longleftrightarrow> (\<exists>x s'. m s = (Some x, s') \<and> f x s' = (Some y, t))"
  by (simp add: pbind_def split: prod.splits option.splits)

lemma pbind_SomeE:
  assumes "pbind m f s = (Some y, t)"
  obtains x s' where "m s = (Some x, s')" and "f x s' = (Some y, t)"
  using assms by (auto simp: pbind_Some_iff)

lemma pguard_Some_iff [simp]: "pguard b s = (Some x, t) \<longleftrightarrow> b \<and> s = t"
  by (auto simp: pguard_def)

lemma pmap_Some_iff [simp]:
  "pmap f m s = (Some y, t) \<longleftrightarrow> (\<exists>x. m s = (Some x, t) \<and> y = f x)"
  by (auto simp: pmap_def split: prod.splits)

lemma pmap_step [simp]:
  "m s = (Some x, s') \<Longrightarrow> pmap f m s = (Some (f x), s')"
  "m s = (None, s') \<Longrightarrow> pmap f m s = (None, s')"
  by (simp_all add: pmap_def)

section \<open>Words\<close>

lemma unat_u8_less [simp]: "unat (b :: u8) < 256"
  using unsigned_less [of b] by simp

lemma unat_u16_less: "unat (b :: u16) < 2 ^ 16"
  using unsigned_less [of b] by simp

lemma unat_u32_less: "unat (b :: u32) < 2 ^ 32"
  using unsigned_less [of b] by simp

lemma unat_u64_less: "unat (b :: u64) < 2 ^ 64"
  using unsigned_less [of b] by simp

lemma unat_u8_of_nat [simp]: "unat (word_of_nat n :: u8) = n mod 256"
  by (simp add: unat_of_nat)

lemma u8_256_eq_0 [simp]: "(256 :: u8) = 0"
  by (simp add: word_unat_eq_iff)

lemma unat_u32_of_nat: "n < 2 ^ 32 \<Longrightarrow> unat (word_of_nat n :: u32) = n"
  by (simp add: unat_of_nat)

lemma unat_u64_of_nat: "n < 2 ^ 64 \<Longrightarrow> unat (word_of_nat n :: u64) = n"
  by (simp add: unat_of_nat)

lemma unat_ucast_up:
  "LENGTH('a) \<le> LENGTH('b) \<Longrightarrow> unat (ucast (w :: 'a::len word) :: 'b::len word) = unat w"
proof -
  assume len: "LENGTH('a) \<le> LENGTH('b)"
  have "unat w < 2 ^ LENGTH('a)"
    by (rule unsigned_less)
  also have "\<dots> \<le> 2 ^ LENGTH('b)"
    using len by (intro power_increasing) auto
  finally have "take_bit LENGTH('b) (unat w) = unat w"
    by (simp add: take_bit_eq_mod)
  then show ?thesis by (simp only: unsigned_ucast_eq)
qed

lemma word_of_nat_unat: "word_of_nat (unat w) = (w :: 'a::len word)"
  by simp

lemma u8_of_nat_unat [simp]: "word_of_nat (unat b) = (b :: u8)"
  by simp

text \<open>A shift by eight bits followed by an OR of a byte appends a base-256 digit.\<close>

lemma push_bit_or_byte: "push_bit 8 r OR ucast (b :: u8) = r * 256 + (ucast b :: 'a::len word)"
proof -
  have "push_bit 8 r + ucast b = push_bit 8 r OR (ucast b :: 'a word)"
    by (rule disjunctive_add_eq_or, rule bit_word_eqI) (auto simp: bit_simps dest: bit_imp_le_length)
  then show ?thesis by (simp add: push_bit_eq_mult mult.commute)
qed

lemma u8_and_low7: "unat (b AND 0x7f) = unat b mod 128" for b :: u8
proof -
  have "b AND 0x7f = take_bit 7 b" by (simp add: take_bit_eq_mask mask_eq_exp_minus_1)
  then have "unat (b AND 0x7f) = take_bit 7 (unat b)" by (simp only: unsigned_take_bit_eq)
  then show ?thesis by (simp add: take_bit_eq_mod)
qed
lemma u8_and_high_bit: "b AND 0x80 = 0 \<longleftrightarrow> unat b < 128" for b :: u8
proof -
  have "b AND 2 ^ 7 = 0 \<longleftrightarrow> \<not> bit b 7"
    by (rule and_exp_eq_0_iff_not_bit)
  moreover have "bit b 7 \<longleftrightarrow> 128 \<le> unat b"
  proof -
    have "bit (unat b) 7 \<longleftrightarrow> odd (unat b div 2 ^ 7)" by (simp add: bit_iff_odd)
    moreover have "unat b div 2 ^ 7 < 2" using unat_u8_less [of b] by (simp add: less_mult_imp_div_less)
    ultimately show ?thesis by (auto simp: bit_unsigned_iff less_2_cases_iff div_eq_0_iff elim: oddE)
  qed
  ultimately show ?thesis by (simp add: not_le)
qed
lemma drop_bit_eq_0_iff_less: "drop_bit k v = 0 \<longleftrightarrow> unat v < 2 ^ k" for v :: "'a::len word"
proof -
  have "drop_bit k v = 0 \<longleftrightarrow> drop_bit k (unat v) = 0"
    by (simp only: word_unat_eq_iff unat_drop_bit_eq unsigned_0)
  then show ?thesis by (simp add: drop_bit_eq_div div_eq_0_iff)
qed
text \<open>Shifting left and filling in the low bits is a multiplication and an addition.\<close>

lemma unat_push_bit_or:
  fixes v w :: "'a::len word"
  assumes "unat v * 2 ^ k + unat w < 2 ^ LENGTH('a)" and "unat w < 2 ^ k"
  shows "unat (push_bit k v OR w) = unat v * 2 ^ k + unat w"
proof -
  have "take_bit k (unat w) = unat w"
    using assms by (simp add: take_bit_eq_mod)
  then have "take_bit k w = w"
    by (simp only: word_unat_eq_iff unsigned_take_bit_eq)
  then have below: "bit w n \<Longrightarrow> n < k" for n
    by (metis bit_take_bit_iff)
  have "push_bit k v AND w = 0"
    by (rule bit_word_eqI) (auto simp: bit_simps dest: below)
  then have "push_bit k v OR w = push_bit k v + w"
    by (simp add: disjunctive_add_eq_or)
  moreover have "unat (push_bit k v) = unat v * 2 ^ k"
  proof -
    have "unat (push_bit k v) = take_bit LENGTH('a) (push_bit k (unat v))"
      by (rule unsigned_push_bit_eq)
    then show ?thesis
      using assms by (simp add: push_bit_eq_mult [of k "unat v"] take_bit_eq_mod)
  qed
  ultimately show ?thesis
    using assms by (simp add: unat_word_ariths)
qed

section \<open>Byte strings as big-endian numbers\<close>

fun be_nat :: "u8 list \<Rightarrow> nat" where
  "be_nat [] = 0"
| "be_nat (b # bs) = unat b * 256 ^ length bs + be_nat bs"

fun be_bytes :: "nat \<Rightarrow> nat \<Rightarrow> u8 list" where
  "be_bytes 0 v = []"
| "be_bytes (Suc n) v = be_bytes n (v div 256) @ [word_of_nat v]"

lemma length_be_bytes [simp]: "length (be_bytes n v) = n"
  by (induction n arbitrary: v) auto

lemma be_bytes_numeral:
  "be_bytes (numeral k) v = be_bytes (pred_numeral k) (v div 256) @ [word_of_nat v]"
  by (simp only: numeral_eq_Suc [of k] be_bytes.simps)

lemma be_bytes_eq_Nil_iff [simp]: "be_bytes n v = [] \<longleftrightarrow> n = 0" "[] = be_bytes n v \<longleftrightarrow> n = 0"
  by (cases n; simp)+

lemma be_nat_append: "be_nat (xs @ ys) = be_nat xs * 256 ^ length ys + be_nat ys"
  by (induction xs) (auto simp: algebra_simps power_add)

lemma be_nat_less: "be_nat bs < 256 ^ length bs"
proof (induction bs)
  case Nil
  then show ?case by simp
next
  case (Cons b bs)
  have "unat b * 256 ^ length bs + be_nat bs < Suc (unat b) * 256 ^ length bs"
    using Cons by simp
  also have "\<dots> \<le> 256 * 256 ^ length bs"
    by (rule mult_right_mono) (use unat_u8_less [of b] in arith, simp)
  finally show ?case by simp
qed

lemma be_nat_be_bytes [simp]: "be_nat (be_bytes n v) = v mod 256 ^ n"
proof (induction n arbitrary: v)
  case 0
  then show ?case by simp
next
  case (Suc n)
  have "v mod 256 ^ Suc n = 256 * (v div 256 mod 256 ^ n) + v mod 256"
    by (simp add: mod_mult2_eq)
  with Suc show ?case
    by (simp add: be_nat_append)
qed

lemma be_bytes_be_nat [simp]: "be_bytes (length bs) (be_nat bs) = bs"
proof (induction bs rule: rev_induct)
  case Nil
  then show ?case by simp
next
  case (snoc b bs)
  have "(be_nat bs * 256 + unat b) div 256 = be_nat bs"
    using unat_u8_less [of b] by simp
  moreover have "word_of_nat (be_nat bs * 256 + unat b) = b"
    by simp
  ultimately show ?case
    using snoc by (simp add: be_nat_append)
qed

lemma be_bytes_split:
  "be_bytes (m + n) v = be_bytes m (v div 256 ^ n) @ be_bytes n v"
proof (induction n arbitrary: v)
  case 0
  then show ?case by simp
next
  case (Suc n)
  then show ?case by (simp add: div_mult2_eq)
qed

lemma be_nat_inject:
  assumes "length xs = length ys" and "be_nat xs = be_nat ys"
  shows "xs = ys"
  using assms by (metis be_bytes_be_nat)

lemma be_bytes_mod: "be_bytes n (v mod 256 ^ n) = be_bytes n v"
  by (rule be_nat_inject) simp_all

end
