(* ===== verification/Const_Time.thy ===== *)
theory Const_Time
  imports Prelude
begin

text \<open>
  The constant-time selection functions of \<open>crypto/internal.h\<close>. The code computes
  comparisons without branches, as masks of all ones or all zeros; here each of
  them is translated bit by bit and proved to be the mask of the comparison it
  stands for. \<open>value_barrier_w\<close> is the identity (an empty assembly statement).
\<close>

section \<open>Masks\<close>

definition value_barrier_w :: "crypto_word \<Rightarrow> crypto_word" where
  "value_barrier_w a = a"

definition constant_time_msb_w :: "crypto_word \<Rightarrow> crypto_word" where
  "constant_time_msb_w a = 0 - drop_bit 63 a"

definition constant_time_lt_w :: "crypto_word \<Rightarrow> crypto_word \<Rightarrow> crypto_word" where
  "constant_time_lt_w a b = constant_time_msb_w (a XOR ((a XOR b) OR ((a - b) XOR a)))"

definition constant_time_lt_8 :: "crypto_word \<Rightarrow> crypto_word \<Rightarrow> u8" where
  "constant_time_lt_8 a b = ucast (constant_time_lt_w a b)"

definition constant_time_ge_w :: "crypto_word \<Rightarrow> crypto_word \<Rightarrow> crypto_word" where
  "constant_time_ge_w a b = NOT (constant_time_lt_w a b)"

definition constant_time_ge_8 :: "crypto_word \<Rightarrow> crypto_word \<Rightarrow> u8" where
  "constant_time_ge_8 a b = ucast (constant_time_ge_w a b)"

definition constant_time_is_zero_w :: "crypto_word \<Rightarrow> crypto_word" where
  "constant_time_is_zero_w a = constant_time_msb_w (NOT a AND (a - 1))"

definition constant_time_is_zero_8 :: "crypto_word \<Rightarrow> u8" where
  "constant_time_is_zero_8 a = ucast (constant_time_is_zero_w a)"

definition constant_time_eq_w :: "crypto_word \<Rightarrow> crypto_word \<Rightarrow> crypto_word" where
  "constant_time_eq_w a b = constant_time_is_zero_w (a XOR b)"

definition constant_time_eq_8 :: "crypto_word \<Rightarrow> crypto_word \<Rightarrow> u8" where
  "constant_time_eq_8 a b = ucast (constant_time_eq_w a b)"

text \<open>An \<open>int\<close> is a 32-bit word read as signed; the cast to a machine word sign-extends.\<close>

definition constant_time_eq_int :: "32 word \<Rightarrow> 32 word \<Rightarrow> crypto_word" where
  "constant_time_eq_int a b = constant_time_eq_w (scast a) (scast b)"

definition constant_time_eq_int_8 :: "32 word \<Rightarrow> 32 word \<Rightarrow> u8" where
  "constant_time_eq_int_8 a b = constant_time_eq_8 (scast a) (scast b)"

definition constant_time_select_w :: "crypto_word \<Rightarrow> crypto_word \<Rightarrow> crypto_word \<Rightarrow> crypto_word" where
  "constant_time_select_w m a b =
     (value_barrier_w m AND a) OR (value_barrier_w (NOT m) AND b)"

definition constant_time_select_8 :: "u8 \<Rightarrow> u8 \<Rightarrow> u8 \<Rightarrow> u8" where
  "constant_time_select_8 m a b = ucast (constant_time_select_w (ucast m) (ucast a) (ucast b))"

definition constant_time_select_int :: "crypto_word \<Rightarrow> 32 word \<Rightarrow> 32 word \<Rightarrow> 32 word" where
  "constant_time_select_int m a b = ucast (constant_time_select_w m (scast a) (scast b))"

section \<open>The masks are the comparisons\<close>

text \<open>The mask of a truth value, at any width.\<close>

abbreviation mask_of :: "bool \<Rightarrow> 'a::len word" where
  "mask_of b \<equiv> (if b then - 1 else 0)"

named_theorems const_time \<open>the comparison each constant-time function computes\<close>

lemma bit_63_iff: "bit (a :: crypto_word) 63 \<longleftrightarrow> 2 ^ 63 \<le> unat a"
proof -
  have "drop_bit 63 (unat a) = unat a div 2 ^ 63"
    by (simp add: drop_bit_eq_div)
  moreover have "unat a div 2 ^ 63 < 2"
    using unat_u64_less [of a] by (simp add: less_mult_imp_div_less)
  ultimately have "bit (unat a) 63 \<longleftrightarrow> unat a div 2 ^ 63 = 1"
    by (auto simp: bit_iff_odd elim: oddE)
  then show ?thesis
    using \<open>unat a div 2 ^ 63 < 2\<close>
    by (auto simp: bit_unsigned_iff div_eq_0_iff less_2_cases_iff not_less [symmetric])
qed

lemma constant_time_msb_w_eq: "constant_time_msb_w a = mask_of (bit a 63)"
proof -
  have "drop_bit 63 a = of_bool (bit a 63)"
  proof (rule bit_word_eqI)
    fix n assume "n < LENGTH(64)"
    then show "bit (drop_bit 63 a) n = bit (of_bool (bit a 63) :: crypto_word) n"
      by (cases "n = 0") (auto simp: bit_simps bit_of_bool_iff dest: bit_imp_le_length)
  qed
  then show ?thesis by (simp add: constant_time_msb_w_def)
qed

lemma constant_time_lt_w_eq [const_time]: "constant_time_lt_w a b = mask_of (a < b)"
proof -
  have "bit (a XOR ((a XOR b) OR ((a - b) XOR a))) 63 \<longleftrightarrow>
      (bit a 63 \<noteq> (bit a 63 \<noteq> bit b 63 \<or> bit (a - b) 63 \<noteq> bit a 63))"
    by (simp add: bit_xor_iff bit_or_iff)
  also have "\<dots> \<longleftrightarrow> unat a < unat b"
    using unat_u64_less [of a] unat_u64_less [of b]
    unfolding bit_63_iff unat_sub_if' by simp arith
  also have "\<dots> \<longleftrightarrow> a < b"
    by (simp add: word_less_nat_alt)
  finally have "bit (a XOR ((a XOR b) OR ((a - b) XOR a))) 63 \<longleftrightarrow> a < b" .
  then show ?thesis
    by (simp add: constant_time_lt_w_def constant_time_msb_w_eq)
qed

lemma constant_time_ge_w_eq [const_time]: "constant_time_ge_w a b = mask_of (b \<le> a)"
  by (simp add: constant_time_ge_w_def const_time not_less [symmetric])

lemma constant_time_is_zero_w_eq [const_time]: "constant_time_is_zero_w a = mask_of (a = 0)"
proof -
  have "bit (NOT a AND (a - 1)) 63 \<longleftrightarrow> a = 0"
  proof (cases "a = 0")
    case True
    then show ?thesis by (simp add: bit_simps)
  next
    case False
    then have "unat (a - 1) = unat a - 1"
      by (simp add: unat_minus_one)
    moreover have "bit (NOT a AND (a - 1)) 63 \<longleftrightarrow> \<not> bit a 63 \<and> bit (a - 1) 63"
      by (simp add: bit_and_iff bit_not_iff)
    ultimately show ?thesis
      using False by (auto simp: bit_63_iff)
  qed
  then show ?thesis
    by (simp add: constant_time_is_zero_w_def constant_time_msb_w_eq)
qed

lemma constant_time_eq_w_eq [const_time]: "constant_time_eq_w a b = mask_of (a = b)"
proof -
  have "a XOR b = 0 \<longleftrightarrow> a = b"
  proof
    assume "a XOR b = 0"
    then have "a XOR (b XOR b) = b"
      by (simp only: xor.assoc [symmetric]) simp
    then show "a = b" by simp
  qed simp
  then show ?thesis
    by (simp add: constant_time_eq_w_def const_time)
qed

lemma ucast_mask_of [simp]: "(ucast (mask_of b :: crypto_word) :: u8) = mask_of b"
proof -
  have "(ucast (- 1 :: crypto_word) :: u8) = - 1"
    by (rule bit_word_eqI) (auto simp: bit_simps)
  then show ?thesis by simp
qed

lemma constant_time_8_eq [const_time]:
  "constant_time_lt_8 a b = mask_of (a < b)"
  "constant_time_ge_8 a b = mask_of (b \<le> a)"
  "constant_time_is_zero_8 a = mask_of (a = 0)"
  "constant_time_eq_8 a b = mask_of (a = b)"
  unfolding constant_time_lt_8_def constant_time_ge_8_def constant_time_is_zero_8_def
    constant_time_eq_8_def const_time by simp_all

lemma scast_up_inject: "(scast (a :: 32 word) :: crypto_word) = scast b \<longleftrightarrow> a = b"
proof -
  have "(scast (scast x :: crypto_word) :: 32 word) = x" for x :: "32 word"
    by (rule bit_word_eqI) (auto simp: bit_simps)
  then show ?thesis by metis
qed

lemma constant_time_eq_int_eq [const_time]:
  "constant_time_eq_int a b = mask_of (a = b)"
  "constant_time_eq_int_8 a b = mask_of (a = b)"
  by (simp_all add: constant_time_eq_int_def constant_time_eq_int_8_def const_time scast_up_inject)

lemma constant_time_select_w_eq [const_time]:
  "constant_time_select_w (mask_of c) a b = (if c then a else b)"
  by (simp add: constant_time_select_w_def value_barrier_w_def)

lemma constant_time_select_8_eq [const_time]:
  "constant_time_select_8 (mask_of c) a b = (if c then a else b)"
proof -
  have "constant_time_select_8 m a b = (m AND a) OR (NOT m AND b)" for m
    by (rule bit_word_eqI)
      (auto simp: constant_time_select_8_def constant_time_select_w_def value_barrier_w_def bit_simps)
  then show ?thesis by simp
qed

lemma constant_time_select_int_eq [const_time]:
  "constant_time_select_int (mask_of c) a b = (if c then a else b)"
proof -
  have "(ucast (scast x :: crypto_word) :: 32 word) = x" for x :: "32 word"
    by (rule bit_word_eqI) (auto simp: bit_simps)
  then show ?thesis
    by (simp add: constant_time_select_int_def const_time)
qed

section \<open>Properties\<close>

text \<open>
  Every constant-time comparison yields exactly the all-ones or the all-zero mask, so a
  selection by it is the branch it replaces, for words, bytes and ints alike.
\<close>

lemma constant_time_selections:
  "(constant_time_select_w (constant_time_lt_w a b) x y = (if a < b then x else y)) \<and>
    (constant_time_select_w (constant_time_ge_w a b) x y = (if b \<le> a then x else y)) \<and>
    (constant_time_select_w (constant_time_is_zero_w a) x y = (if a = 0 then x else y)) \<and>
    (constant_time_select_w (constant_time_eq_w a b) x y = (if a = b then x else y)) \<and>
    (constant_time_select_8 (constant_time_lt_8 a b) u v = (if a < b then u else v)) \<and>
    (constant_time_select_8 (constant_time_eq_int_8 i j) u v = (if i = j then u else v)) \<and>
    (constant_time_select_int (constant_time_eq_int i j) k l = (if i = j then k else l))"
  by (simp_all add: const_time)

end
