(* ===== verification/Mem.thy ===== *)
theory Mem
  imports Prelude
begin

text \<open>
  \<open>crypto/mem.c\<close> and the byte-order helpers of \<open>crypto/internal.h\<close>: allocation with
  its size prefix, the constant-time comparison, the FNV-1a hash, the bounded
  string functions, byte swaps, loads and stores, and rotations.

  The C library's \<open>malloc\<close> is the parameter \<open>sys\<close>: whether a request of that many
  bytes succeeds. A block of memory is the list of its bytes; a C string is the
  memory it points to, with the terminating zero byte in it.
\<close>

section \<open>Allocation\<close>

definition OPENSSL_MALLOC_PREFIX :: nat where
  "OPENSSL_MALLOC_PREFIX = 8"

definition OPENSSL_malloc :: "(nat \<Rightarrow> bool) \<Rightarrow> nat \<Rightarrow> bool" where
  "OPENSSL_malloc sys sz =
     (if size_add sz OPENSSL_MALLOC_PREFIX < sz then False
      else sys (size_add sz OPENSSL_MALLOC_PREFIX))"

text \<open>The bytes of the new block that are defined: the copied prefix of the old one.\<close>

definition OPENSSL_realloc :: "(nat \<Rightarrow> bool) \<Rightarrow> u8 list option \<Rightarrow> nat \<Rightarrow> u8 list option" where
  "OPENSSL_realloc sys orig new_size =
     (case orig of
        None \<Rightarrow> (if OPENSSL_malloc sys new_size then Some [] else None)
      | Some old \<Rightarrow>
          (let old_size = length old in
           if \<not> OPENSSL_malloc sys new_size then None
           else let to_copy = (if old_size < new_size then old_size else new_size)
                in Some (take to_copy old)))"

definition OPENSSL_cleanse :: "u8 list \<Rightarrow> nat \<Rightarrow> u8 list" where
  "OPENSSL_cleanse p len = replicate (min len (length p)) 0 @ drop len p"

definition OPENSSL_memdup :: "(nat \<Rightarrow> bool) \<Rightarrow> u8 list \<Rightarrow> nat \<Rightarrow> u8 list option" where
  "OPENSSL_memdup sys data sz =
     (if sz = 0 then None
      else if OPENSSL_malloc sys sz then Some (take sz data) else None)"

lemma OPENSSL_malloc_mono_sys: "OPENSSL_malloc (\<lambda>_. True) n \<longleftrightarrow> \<not> size_add n 8 < n"
  by (simp add: OPENSSL_malloc_def OPENSSL_MALLOC_PREFIX_def)

lemma OPENSSL_malloc_small [simp]: "n < 2 ^ 63 \<Longrightarrow> OPENSSL_malloc (\<lambda>_. True) n"
  by (simp add: OPENSSL_malloc_mono_sys size_simps)

section \<open>Comparison and hashing\<close>

fun CRYPTO_memcmp_loop :: "u8 \<Rightarrow> u8 list \<Rightarrow> u8 list \<Rightarrow> nat \<Rightarrow> u8" where
  "CRYPTO_memcmp_loop x (a # as) (b # bs) (Suc n) = CRYPTO_memcmp_loop (x OR (a XOR b)) as bs n"
| "CRYPTO_memcmp_loop x _ _ _ = x"

definition CRYPTO_memcmp :: "u8 list \<Rightarrow> u8 list \<Rightarrow> nat \<Rightarrow> int" where
  "CRYPTO_memcmp a b n = uint (CRYPTO_memcmp_loop 0 a b n)"

text \<open>The C library's comparison, by the first byte that differs.\<close>

fun OPENSSL_memcmp :: "u8 list \<Rightarrow> u8 list \<Rightarrow> nat \<Rightarrow> int" where
  "OPENSSL_memcmp (a # as) (b # bs) (Suc n) =
     (if a = b then OPENSSL_memcmp as bs n else uint a - uint b)"
| "OPENSSL_memcmp _ _ _ = 0"

fun OPENSSL_hash32_loop :: "u32 \<Rightarrow> u8 list \<Rightarrow> u32" where
  "OPENSSL_hash32_loop h [] = h"
| "OPENSSL_hash32_loop h (b # bs) = OPENSSL_hash32_loop ((h XOR ucast b) * 16777619) bs"

definition OPENSSL_hash32 :: "u8 list \<Rightarrow> nat \<Rightarrow> u32" where
  "OPENSSL_hash32 p len = OPENSSL_hash32_loop 2166136261 (take len p)"

definition strlen :: "u8 list \<Rightarrow> nat" where
  "strlen s = length (takeWhile (\<lambda>c. c \<noteq> 0) s)"

definition OPENSSL_strhash :: "u8 list \<Rightarrow> u32" where
  "OPENSSL_strhash s = OPENSSL_hash32 s (strlen s)"

lemma u8_or_eq_0_iff: "(a :: u8) OR b = 0 \<longleftrightarrow> a = 0 \<and> b = 0"
  by (auto simp: or_eq_0_iff)

lemma u8_xor_eq_0_iff: "(a :: u8) XOR b = 0 \<longleftrightarrow> a = b"
proof
  assume "a XOR b = 0"
  then have "a XOR (b XOR b) = b"
    by (simp only: xor.assoc [symmetric]) simp
  then show "a = b" by simp
qed simp

lemma CRYPTO_memcmp_loop_0:
  "n \<le> length a \<Longrightarrow> n \<le> length b \<Longrightarrow>
   CRYPTO_memcmp_loop x a b n = 0 \<longleftrightarrow> x = 0 \<and> take n a = take n b"
  by (induction x a b n rule: CRYPTO_memcmp_loop.induct)
    (auto simp: u8_or_eq_0_iff u8_xor_eq_0_iff)

lemma CRYPTO_memcmp_eq_0:
  "n \<le> length a \<Longrightarrow> n \<le> length b \<Longrightarrow> CRYPTO_memcmp a b n = 0 \<longleftrightarrow> take n a = take n b"
  by (simp add: CRYPTO_memcmp_def CRYPTO_memcmp_loop_0 uint_0_iff)

lemma OPENSSL_memcmp_eq_0:
  "n \<le> length a \<Longrightarrow> n \<le> length b \<Longrightarrow> OPENSSL_memcmp a b n = 0 \<longleftrightarrow> take n a = take n b"
  by (induction a b n rule: OPENSSL_memcmp.induct) (auto simp: word_uint_eq_iff)

section \<open>Bounded strings\<close>

fun OPENSSL_strnlen :: "u8 list \<Rightarrow> nat \<Rightarrow> nat" where
  "OPENSSL_strnlen (c # s) (Suc len) = (if c = 0 then 0 else Suc (OPENSSL_strnlen s len))"
| "OPENSSL_strnlen _ len = 0"

definition OPENSSL_strdup :: "(nat \<Rightarrow> bool) \<Rightarrow> u8 list option \<Rightarrow> u8 list option" where
  "OPENSSL_strdup sys s =
     (case s of None \<Rightarrow> None
      | Some s \<Rightarrow> (let len = strlen s + 1 in
          if OPENSSL_malloc sys len then Some (take len s) else None))"

definition OPENSSL_tolower :: "int \<Rightarrow> int" where
  "OPENSSL_tolower c = (if c \<ge> 65 \<and> c \<le> 90 then c + (97 - 65) else c)"

text \<open>The loop body shared by the two comparisons; \<open>char\<close> is signed.\<close>

definition tolower_compare :: "u8 \<Rightarrow> u8 \<Rightarrow> int option" where
  "tolower_compare a b =
     (let aa = OPENSSL_tolower (sint a); bb = OPENSSL_tolower (sint b) in
      if aa < bb then Some (- 1) else if aa > bb then Some 1
      else if aa = 0 then Some 0 else None)"

fun OPENSSL_strcasecmp :: "u8 list \<Rightarrow> u8 list \<Rightarrow> int" where
  "OPENSSL_strcasecmp (a # as) (b # bs) =
     (case tolower_compare a b of Some r \<Rightarrow> r | None \<Rightarrow> OPENSSL_strcasecmp as bs)"
| "OPENSSL_strcasecmp _ _ = 0"

fun OPENSSL_strncasecmp :: "u8 list \<Rightarrow> u8 list \<Rightarrow> nat \<Rightarrow> int" where
  "OPENSSL_strncasecmp (a # as) (b # bs) (Suc n) =
     (case tolower_compare a b of Some r \<Rightarrow> r | None \<Rightarrow> OPENSSL_strncasecmp as bs n)"
| "OPENSSL_strncasecmp _ _ _ = 0"

definition OPENSSL_strndup :: "(nat \<Rightarrow> bool) \<Rightarrow> u8 list \<Rightarrow> nat \<Rightarrow> u8 list option" where
  "OPENSSL_strndup sys str maxlen =
     (let sz = OPENSSL_strnlen str maxlen; alloc_size = size_add sz 1 in
      if alloc_size < sz then None
      else if \<not> OPENSSL_malloc sys alloc_size then None
      else Some (take sz str @ [0]))"

text \<open>The copying loop: what it has written, what is left of the source, what is left of the room.\<close>

fun OPENSSL_strlcpy_loop :: "u8 list \<Rightarrow> nat \<Rightarrow> u8 list \<times> u8 list \<times> nat" where
  "OPENSSL_strlcpy_loop (c # src) dst_size =
     (if dst_size > 1 \<and> c \<noteq> 0 then
        (case OPENSSL_strlcpy_loop src (dst_size - 1) of (w, src', n) \<Rightarrow> (c # w, src', n))
      else ([], c # src, dst_size))"
| "OPENSSL_strlcpy_loop [] dst_size = ([], [], dst_size)"

definition OPENSSL_strlcpy :: "u8 list \<Rightarrow> u8 list \<Rightarrow> nat \<Rightarrow> nat \<times> u8 list" where
  "OPENSSL_strlcpy dst src dst_size =
     (case OPENSSL_strlcpy_loop src dst_size of (w, src', n) \<Rightarrow>
        (let out = (if n \<noteq> 0 then w @ [0] else w)
         in (length w + strlen src', out @ drop (length out) dst)))"

definition OPENSSL_strlcat :: "u8 list \<Rightarrow> u8 list \<Rightarrow> nat \<Rightarrow> nat \<times> u8 list" where
  "OPENSSL_strlcat dst src dst_size =
     (let l = OPENSSL_strnlen dst dst_size in
      case OPENSSL_strlcpy (drop l dst) src (dst_size - l) of (r, dst') \<Rightarrow>
        (l + r, take l dst @ dst'))"

lemma OPENSSL_strnlen_eq: "OPENSSL_strnlen s n = min n (strlen s)" if "n \<le> length s \<or> 0 \<in> set s"
  using that
  by (induction s n rule: OPENSSL_strnlen.induct) (auto simp: strlen_def)

lemma OPENSSL_strlcpy_loop_eq:
  "0 \<in> set src \<Longrightarrow> OPENSSL_strlcpy_loop src n =
     (let k = min (strlen src) (n - 1) in (take k src, drop k src, n - k))"
proof (induction src n rule: OPENSSL_strlcpy_loop.induct)
  case (1 c src n)
  show ?case
  proof (cases "n > 1 \<and> c \<noteq> 0")
    case True
    with 1 have "0 \<in> set src" by auto
    obtain m where m: "n = Suc (Suc m)"
      using True by (metis One_nat_def Suc_lessE less_imp_Suc_add add_Suc_right)
    show ?thesis
      using True 1 \<open>0 \<in> set src\<close> by (auto simp: m strlen_def Let_def min_def)
  next
    case False
    then show ?thesis by (auto simp: strlen_def Let_def)
  qed
qed auto

lemma strlen_drop: "k \<le> strlen s \<Longrightarrow> strlen (drop k s) = strlen s - k"
proof (induction k arbitrary: s)
  case (Suc k)
  then show ?case by (cases s) (auto simp: strlen_def split: if_splits)
qed simp

text \<open>\<open>strlcpy\<close> returns the source's length and leaves a terminated prefix of it.\<close>

lemma OPENSSL_strlcpy_spec:
  assumes "0 \<in> set src" and "0 < n"
  shows "OPENSSL_strlcpy dst src n =
    (strlen src, (let k = min (strlen src) (n - 1) in take k src @ 0 # drop (Suc k) dst))"
proof -
  define k where "k = min (strlen src) (n - 1)"
  have k: "k \<le> length src" "k \<le> strlen src" "n - k \<noteq> 0"
    using assms length_takeWhile_le [of "\<lambda>c. c \<noteq> 0" src] by (auto simp: k_def strlen_def)
  have "OPENSSL_strlcpy_loop src n = (take k src, drop k src, n - k)"
    using assms by (simp add: OPENSSL_strlcpy_loop_eq k_def Let_def)
  with k have "OPENSSL_strlcpy dst src n = (strlen src, take k src @ 0 # drop (Suc k) dst)"
    by (simp add: OPENSSL_strlcpy_def strlen_drop min_absorb2 Let_def)
  then show ?thesis by (simp add: k_def Let_def)
qed

section \<open>Byte order\<close>

definition CRYPTO_bswap2 :: "u16 \<Rightarrow> u16" where
  "CRYPTO_bswap2 x = drop_bit 8 x OR push_bit 8 x"

definition CRYPTO_bswap4 :: "u32 \<Rightarrow> u32" where
  "CRYPTO_bswap4 x =
     (let x = drop_bit 16 x OR push_bit 16 x
      in drop_bit 8 (x AND 0xff00ff00) OR push_bit 8 (x AND 0x00ff00ff))"

definition CRYPTO_bswap8 :: "u64 \<Rightarrow> u64" where
  "CRYPTO_bswap8 x =
     ucast (CRYPTO_bswap4 (ucast (drop_bit 32 x))) OR push_bit 32 (ucast (CRYPTO_bswap4 (ucast x)))"

text \<open>A little-endian machine: \<open>memcpy\<close> between a word and its bytes.\<close>

definition u32_bytes :: "u32 \<Rightarrow> u8 list" where
  "u32_bytes v = [ucast v, ucast (drop_bit 8 v), ucast (drop_bit 16 v), ucast (drop_bit 24 v)]"

fun u32_of_bytes :: "u8 list \<Rightarrow> u32" where
  "u32_of_bytes [a, b, c, d] =
     ucast a OR push_bit 8 (ucast b) OR push_bit 16 (ucast c) OR push_bit 24 (ucast d)"
| "u32_of_bytes _ = 0"

definition CRYPTO_load_u32_le :: "u8 list \<Rightarrow> u32" where
  "CRYPTO_load_u32_le p = u32_of_bytes (take 4 p)"

definition CRYPTO_store_u32_le :: "u32 \<Rightarrow> u8 list" where
  "CRYPTO_store_u32_le v = u32_bytes v"

definition CRYPTO_load_u32_be :: "u8 list \<Rightarrow> u32" where
  "CRYPTO_load_u32_be p = CRYPTO_bswap4 (u32_of_bytes (take 4 p))"

definition CRYPTO_store_u32_be :: "u32 \<Rightarrow> u8 list" where
  "CRYPTO_store_u32_be v = u32_bytes (CRYPTO_bswap4 v)"

text \<open>The same for 64-bit words; \<open>crypto_word_t\<close> has 64 bits.\<close>

definition u64_bytes :: "u64 \<Rightarrow> u8 list" where
  "u64_bytes v = u32_bytes (ucast v) @ u32_bytes (ucast (drop_bit 32 v))"

definition u64_of_bytes :: "u8 list \<Rightarrow> u64" where
  "u64_of_bytes p = ucast (u32_of_bytes (take 4 p)) OR push_bit 32 (ucast (u32_of_bytes (take 4 (drop 4 p))))"

definition CRYPTO_load_u64_be :: "u8 list \<Rightarrow> u64" where
  "CRYPTO_load_u64_be p = CRYPTO_bswap8 (u64_of_bytes (take 8 p))"

definition CRYPTO_store_u64_be :: "u64 \<Rightarrow> u8 list" where
  "CRYPTO_store_u64_be v = u64_bytes (CRYPTO_bswap8 v)"

definition CRYPTO_load_word_le :: "u8 list \<Rightarrow> crypto_word" where
  "CRYPTO_load_word_le p = u64_of_bytes (take 8 p)"

definition CRYPTO_store_word_le :: "crypto_word \<Rightarrow> u8 list" where
  "CRYPTO_store_word_le v = u64_bytes v"

text \<open>Rotations; the shift is an \<open>int\<close> between 0 and the width.\<close>

definition CRYPTO_rotl_u32 :: "u32 \<Rightarrow> nat \<Rightarrow> u32" where
  "CRYPTO_rotl_u32 v n = push_bit n v OR drop_bit (nat (- int n mod 32)) v"

definition CRYPTO_rotr_u32 :: "u32 \<Rightarrow> nat \<Rightarrow> u32" where
  "CRYPTO_rotr_u32 v n = drop_bit n v OR push_bit (nat (- int n mod 32)) v"

definition CRYPTO_rotl_u64 :: "u64 \<Rightarrow> nat \<Rightarrow> u64" where
  "CRYPTO_rotl_u64 v n = push_bit n v OR drop_bit (nat (- int n mod 64)) v"

definition CRYPTO_rotr_u64 :: "u64 \<Rightarrow> nat \<Rightarrow> u64" where
  "CRYPTO_rotr_u64 v n = drop_bit n v OR push_bit (nat (- int n mod 64)) v"

lemma CRYPTO_rotl_rotr_u32: "n < 32 \<Longrightarrow> CRYPTO_rotr_u32 (CRYPTO_rotl_u32 v n) n = v"
proof -
  assume n: "n < 32"
  show ?thesis
  proof (cases "n = 0")
    case True
    then show ?thesis by (simp add: CRYPTO_rotl_u32_def CRYPTO_rotr_u32_def)
  next
    case False
    with n have m: "nat (- int n mod 32) = 32 - n"
      by (simp add: zmod_zminus1_eq_if nat_diff_distrib)
    show ?thesis
    proof (rule bit_word_eqI)
      fix i assume i: "i < LENGTH(32)"
      have "bit (CRYPTO_rotr_u32 (CRYPTO_rotl_u32 v n) n) i \<longleftrightarrow>
        (if n + i < 32 then bit v i else bit v (32 - n + (i - (32 - n))))"
        using n i False unfolding CRYPTO_rotl_u32_def CRYPTO_rotr_u32_def m
        by (auto simp: bit_simps dest: bit_imp_le_length)
      also have "\<dots> \<longleftrightarrow> bit v i"
        using n by (simp add: not_less)
      finally show "bit (CRYPTO_rotr_u32 (CRYPTO_rotl_u32 v n) n) i = bit v i" .
    qed
  qed
qed

lemma u32_of_bytes_xor:
  assumes "length p = 4" and "length q = 4"
  shows "u32_of_bytes p XOR u32_of_bytes q = u32_of_bytes (map2 (XOR) p q)"
proof -
  obtain a b c d where p: "p = [a, b, c, d]"
    using assms by (auto simp: numeral_eq_Suc length_Suc_conv)
  obtain a' b' c' d' where q: "q = [a', b', c', d']"
    using assms by (auto simp: numeral_eq_Suc length_Suc_conv)
  show ?thesis
    unfolding p q by (rule bit_word_eqI) (auto simp: bit_simps dest: bit_imp_le_length)
qed

lemma u32_bytes_of_bytes:
  assumes "length p = 4"
  shows "u32_bytes (u32_of_bytes p) = p"
proof -
  obtain a b c d where p: "p = [a, b, c, d]"
    using assms by (auto simp: numeral_eq_Suc length_Suc_conv)
  let ?v = "ucast a OR push_bit 8 (ucast b) OR push_bit 16 (ucast c) OR push_bit 24 (ucast d) :: u32"
  have "ucast ?v = a" "ucast (drop_bit 8 ?v) = b" "ucast (drop_bit 16 ?v) = c" "ucast (drop_bit 24 ?v) = d"
    by (rule bit_word_eqI, auto simp: bit_simps dest: bit_imp_le_length)+
  then show ?thesis by (simp only: p u32_bytes_def u32_of_bytes.simps)
qed

lemma less_8_cases:
  "n < LENGTH(8) \<Longrightarrow> n = 0 \<or> n = 1 \<or> n = 2 \<or> n = 3 \<or> n = 4 \<or> n = 5 \<or> n = 6 \<or> n = 7"
  by auto

lemma store_u32_be_rev: "CRYPTO_store_u32_be w = rev (u32_bytes w)"
proof -
  have "CRYPTO_store_u32_be w = [ucast (drop_bit 24 w), ucast (drop_bit 16 w), ucast (drop_bit 8 w), ucast w]"
    unfolding CRYPTO_store_u32_be_def u32_bytes_def CRYPTO_bswap4_def Let_def list.inject
    by (intro conjI bit_word_eqI refl; drule less_8_cases) (elim disjE; auto simp: bit_simps dest: bit_imp_le_length)+
  then show ?thesis by (simp add: u32_bytes_def)
qed

lemma u32_of_bytes_bytes: "u32_of_bytes (u32_bytes w) = w"
  unfolding u32_bytes_def u32_of_bytes.simps
proof (rule bit_word_eqI)
  fix n assume "n < LENGTH(32)"
  then consider "n < 8" | "8 \<le> n" "n < 16" | "16 \<le> n" "n < 24" | "24 \<le> n" "n < 32" by fastforce
  then show "bit (ucast (ucast w :: u8) OR push_bit 8 (ucast (ucast (drop_bit 8 w) :: u8)) OR
      push_bit 16 (ucast (ucast (drop_bit 16 w) :: u8)) OR push_bit 24 (ucast (ucast (drop_bit 24 w) :: u8)) :: u32) n = bit w n"
    by cases (auto simp: bit_simps)
qed

lemma CRYPTO_bswap4_twice: "CRYPTO_bswap4 (CRYPTO_bswap4 w) = w"
  using store_u32_be_rev [of w] store_u32_be_rev [of "CRYPTO_bswap4 w"]
  by (simp add: CRYPTO_store_u32_be_def) (metis u32_of_bytes_bytes)

lemma store_u32_be: "CRYPTO_store_u32_be w = be_bytes 4 (unat w)"
proof -
  have part: "ucast (drop_bit k w) = (word_of_nat (unat w div 2 ^ k) :: u8)" for k
    by (simp add: word_unat_eq_iff unsigned_ucast_eq unat_drop_bit_eq unat_of_nat take_bit_eq_mod flip: drop_bit_eq_div)
  from part [of 24] part [of 16] part [of 8] part [of 0] show ?thesis
    by (simp add: store_u32_be_rev u32_bytes_def be_bytes_numeral div_mult2_eq [symmetric])
qed

lemma length_store_u32_be [simp]: "length (CRYPTO_store_u32_be w) = 4"
  by (simp add: store_u32_be)

lemma unat_load_u32_be:
  assumes "length p = 4"
  shows "unat (CRYPTO_load_u32_be p) = be_nat p"
proof -
  have "CRYPTO_store_u32_be (CRYPTO_load_u32_be p) = p"
    using assms by (simp add: CRYPTO_store_u32_be_def CRYPTO_load_u32_be_def CRYPTO_bswap4_twice u32_bytes_of_bytes)
  then have "be_nat p = unat (CRYPTO_load_u32_be p) mod 256 ^ 4"
    by (metis be_nat_be_bytes store_u32_be)
  with unat_u32_less [of "CRYPTO_load_u32_be p"] show ?thesis by simp
qed

lemma length_u32_bytes [simp]: "length (u32_bytes v) = 4"
  by (simp add: u32_bytes_def)

lemma length_CRYPTO_store_word_le [simp]: "length (CRYPTO_store_word_le v) = 8"
  by (simp add: CRYPTO_store_word_le_def u64_bytes_def)

lemma load_word_halves:
  assumes "8 \<le> length p"
  shows "ucast (CRYPTO_load_word_le p) = u32_of_bytes (take 4 p)"
    and "ucast (drop_bit 32 (CRYPTO_load_word_le p)) = u32_of_bytes (take 4 (drop 4 p))"
  using assms unfolding CRYPTO_load_word_le_def u64_of_bytes_def
  by (simp_all add: drop_take min_def) (rule bit_word_eqI, auto simp: bit_simps dest: bit_imp_le_length)+

text \<open>The exclusive or of two words is the exclusive or of their bytes, the byte order does not matter.\<close>

lemma store_xor_words:
  assumes "8 \<le> length p" and "8 \<le> length q"
  shows "CRYPTO_store_word_le (CRYPTO_load_word_le p XOR CRYPTO_load_word_le q) = map2 (XOR) (take 8 p) (take 8 q)"
proof -
  let ?v = "CRYPTO_load_word_le p" and ?w = "CRYPTO_load_word_le q"
  have split: "take 8 xs = take 4 xs @ take 4 (drop 4 xs)" for xs :: "u8 list"
    by (metis add.commute numeral_Bit0 take_add)
  have "ucast (?v XOR ?w) = (ucast ?v XOR ucast ?w :: u32)"
    "ucast (drop_bit 32 (?v XOR ?w)) = (ucast (drop_bit 32 ?v) XOR ucast (drop_bit 32 ?w) :: u32)"
    by (rule bit_word_eqI, auto simp: bit_simps)+
  with assms have "CRYPTO_store_word_le (?v XOR ?w) = u32_bytes (u32_of_bytes (map2 (XOR) (take 4 p) (take 4 q))) @
      u32_bytes (u32_of_bytes (map2 (XOR) (take 4 (drop 4 p)) (take 4 (drop 4 q))))"
    by (simp add: CRYPTO_store_word_le_def u64_bytes_def load_word_halves u32_of_bytes_xor)
  also have "\<dots> = map2 (XOR) (take 8 p) (take 8 q)"
    using assms by (simp add: u32_bytes_of_bytes split)
  finally show ?thesis .
qed

lemma store_load_word: "8 \<le> length p \<Longrightarrow> CRYPTO_store_word_le (CRYPTO_load_word_le p) = take 8 p"
proof -
  assume len: "8 \<le> length p"
  have split: "take 8 xs = take 4 xs @ take 4 (drop 4 xs)" for xs :: "u8 list"
    by (metis add.commute numeral_Bit0 take_add)
  from len show ?thesis
    by (simp add: CRYPTO_store_word_le_def u64_bytes_def load_word_halves u32_bytes_of_bytes split)
qed

section \<open>Properties\<close>

text \<open>
  \<open>CRYPTO_memcmp\<close>, which looks at every byte whatever it has seen, returns zero
  exactly when the two buffers hold the same bytes.
\<close>

lemma CRYPTO_memcmp_correct:
  assumes "n \<le> length a" and "n \<le> length b"
  shows "CRYPTO_memcmp a b n = 0 \<longleftrightarrow> take n a = take n b"
  using assms by (rule CRYPTO_memcmp_eq_0)

lemma CRYPTO_memcmp_correct_witness: "CRYPTO_memcmp [1, 2, 3] [1, 2, 4] 3 \<noteq> 0"
  using CRYPTO_memcmp_correct [of 3 "[1, 2, 3]" "[1, 2, 4]"] by simp

text \<open>
  \<open>OPENSSL_strlcpy\<close> never writes past the buffer, leaves a terminated string that is the
  longest prefix of the source that fits, and returns the length of the source.
\<close>

lemma OPENSSL_strlcpy_correct:
  assumes "0 \<in> set src" and "0 < n" and "n \<le> length dst" and "OPENSSL_strlcpy dst src n = (r, dst')"
  shows "(r = strlen src) \<and>
    (length dst' = length dst) \<and>
    (drop n dst' = drop n dst) \<and>
    (strlen dst' = min (strlen src) (n - 1)) \<and>
    (take (strlen dst') dst' = take (strlen dst') src)"
proof (intro conjI)
  define k where "k = min (strlen src) (n - 1)"
  have k: "k < n" "k \<le> strlen src" "strlen src \<le> length src"
    using assms(2) by (auto simp: k_def strlen_def length_takeWhile_le)
  have res: "r = strlen src" "dst' = take k src @ 0 # drop (Suc k) dst"
    using OPENSSL_strlcpy_spec [OF assms(1,2), of dst] assms(4) by (simp_all add: k_def Let_def)
  have len: "length (take k src) = k"
    using k by simp
  have "take (strlen src) src = takeWhile (\<lambda>c. c \<noteq> 0) src"
    unfolding strlen_def by (rule takeWhile_eq_take [symmetric])
  with k have "take k src = take k (takeWhile (\<lambda>c. c \<noteq> 0) src)"
    by (metis take_take min_absorb1)
  then have "c \<noteq> 0" if "c \<in> set (take k src)" for c
    using that by (auto dest: in_set_takeD set_takeWhileD)
  then have strlen: "strlen dst' = k"
    unfolding res strlen_def using len by (simp add: takeWhile_append2)
  show "r = strlen src" by (rule res)
  show "strlen dst' = min (strlen src) (n - 1)" using strlen by (simp add: k_def)
  show "take (strlen dst') dst' = take (strlen dst') src" unfolding strlen using le_trans [OF k(2,3)] by (simp add: res)
  show "length dst' = length dst" using k(1) len assms(3) by (simp add: res)
  show "drop n dst' = drop n dst"
  proof -
    obtain j where "n = Suc k + j" using k(1) less_iff_Suc_add by auto
    then show ?thesis using len by (simp add: res add.commute)
  qed
qed

lemma OPENSSL_strlcpy_correct_witness:
  "strlen (snd (OPENSSL_strlcpy [9, 9, 9, 9] [1, 2, 3, 4, 0] 3)) = 2"
proof -
  obtain r d where "OPENSSL_strlcpy [9, 9, 9, 9] [1, 2, 3, 4, 0] 3 = (r, d)" by fastforce
  from OPENSSL_strlcpy_correct [OF _ _ _ this] this show ?thesis by (simp add: strlen_def)
qed

text \<open>
  The allocator never passes on a size that has wrapped around: when it hands out a block, the
  size asked for and the hidden prefix together fit in a \<open>size_t\<close>, and that is what \<open>malloc\<close> was given.
\<close>

lemma OPENSSL_malloc_no_overflow:
  assumes "n < size_modulus" and "OPENSSL_malloc sys n"
  shows "n + OPENSSL_MALLOC_PREFIX < size_modulus \<and> sys (n + OPENSSL_MALLOC_PREFIX)"
proof -
  have "\<not> size_add n OPENSSL_MALLOC_PREFIX < n" and "sys (size_add n OPENSSL_MALLOC_PREFIX)"
    using assms(2) by (auto simp: OPENSSL_malloc_def split: if_splits)
  with size_add_no_wrap [OF assms(1), of OPENSSL_MALLOC_PREFIX] show ?thesis
    by (simp add: OPENSSL_MALLOC_PREFIX_def)
qed

lemma OPENSSL_malloc_no_overflow_witness: "100 + OPENSSL_MALLOC_PREFIX < size_modulus"
  using OPENSSL_malloc_no_overflow [of 100 "\<lambda>n. n < 1000"]
  by (simp add: OPENSSL_malloc_def OPENSSL_MALLOC_PREFIX_def size_add_def)

end
