(* ===== verification/Cbs.thy ===== *)
theory Cbs
  imports Mem
begin

text \<open>
  \<open>crypto/bytestring/cbs.c\<close>: the parser the library reads every wire format with. A
  \<open>CBS\<close> is a view (\<open>data\<close>, \<open>len\<close>) of a buffer nobody writes to, so it is the list of
  the bytes in view; reading advances it in place. Each function is the source's,
  with the view it leaves behind also when it fails. What a failing call has
  stored through its out-parameters is not part of the model.

  OID text conversion, which needs a builder, is in theory \<open>Oid\<close>.
\<close>

type_synonym cbs = "u8 list"

section \<open>Raw reads\<close>

fun OPENSSL_memchr :: "u8 list \<Rightarrow> u8 \<Rightarrow> nat \<Rightarrow> nat option" where
  "OPENSSL_memchr (b # s) c (Suc n) =
     (if b = c then Some 0 else map_option Suc (OPENSSL_memchr s c n))"
| "OPENSSL_memchr _ c n = None"

definition CBS_init :: "u8 list \<Rightarrow> nat \<Rightarrow> cbs" where
  "CBS_init data len = take len data"

definition cbs_get :: "nat \<Rightarrow> (cbs, u8 list) op" where
  "cbs_get n s = (if length s < n then (None, s) else (Some (take n s), drop n s))"

definition CBS_skip :: "nat \<Rightarrow> (cbs, unit) op" where
  "CBS_skip len = pmap (\<lambda>_. ()) (cbs_get len)"

definition CBS_data :: "cbs \<Rightarrow> u8 list" where
  "CBS_data s = s"

definition CBS_len :: "cbs \<Rightarrow> nat" where
  "CBS_len s = length s"

text \<open>\<open>None\<close> is failure; on success the block (or NULL) and its length.\<close>

definition CBS_stow :: "(nat \<Rightarrow> bool) \<Rightarrow> cbs \<Rightarrow> (u8 list option \<times> nat) option" where
  "CBS_stow sys s =
     (if CBS_len s = 0 then Some (None, 0)
      else case OPENSSL_memdup sys (CBS_data s) (CBS_len s) of
          None \<Rightarrow> None
        | Some p \<Rightarrow> Some (Some p, CBS_len s))"

definition CBS_strdup :: "(nat \<Rightarrow> bool) \<Rightarrow> cbs \<Rightarrow> u8 list option" where
  "CBS_strdup sys s = OPENSSL_strndup sys (CBS_data s) (CBS_len s)"

definition CBS_contains_zero_byte :: "cbs \<Rightarrow> bool" where
  "CBS_contains_zero_byte s = (OPENSSL_memchr (CBS_data s) 0 (CBS_len s) \<noteq> None)"

definition CBS_mem_equal :: "cbs \<Rightarrow> u8 list \<Rightarrow> nat \<Rightarrow> bool" where
  "CBS_mem_equal s data len =
     (if len \<noteq> CBS_len s then False else CRYPTO_memcmp (CBS_data s) data len = 0)"

section \<open>Integers\<close>

definition cbs_get_u_step :: "u64 \<Rightarrow> u8 \<Rightarrow> u64" where
  "cbs_get_u_step result b = push_bit 8 result OR ucast b"

definition cbs_get_u :: "nat \<Rightarrow> (cbs, u64) op" where
  "cbs_get_u len = pmap (foldl cbs_get_u_step 0) (cbs_get len)"

definition CBS_get_u8 :: "(cbs, u8) op" where
  "CBS_get_u8 = pmap hd (cbs_get 1)"

definition CBS_get_u16 :: "(cbs, u16) op" where
  "CBS_get_u16 = pmap ucast (cbs_get_u 2)"

definition CBS_get_u16le :: "(cbs, u16) op" where
  "CBS_get_u16le = pmap CRYPTO_bswap2 CBS_get_u16"

definition CBS_get_u24 :: "(cbs, u32) op" where
  "CBS_get_u24 = pmap ucast (cbs_get_u 3)"

definition CBS_get_u32 :: "(cbs, u32) op" where
  "CBS_get_u32 = pmap ucast (cbs_get_u 4)"

definition CBS_get_u32le :: "(cbs, u32) op" where
  "CBS_get_u32le = pmap CRYPTO_bswap4 CBS_get_u32"

definition CBS_get_u64 :: "(cbs, u64) op" where
  "CBS_get_u64 = cbs_get_u 8"

definition CBS_get_u64le :: "(cbs, u64) op" where
  "CBS_get_u64le = pmap CRYPTO_bswap8 (cbs_get_u 8)"

definition CBS_get_last_u8 :: "(cbs, u8) op" where
  "CBS_get_last_u8 s =
     (if CBS_len s = 0 then (None, s) else (Some (s ! (length s - 1)), take (length s - 1) s))"

definition CBS_get_bytes :: "nat \<Rightarrow> (cbs, cbs) op" where
  "CBS_get_bytes len = pmap (\<lambda>v. CBS_init v len) (cbs_get len)"

definition CBS_copy_bytes :: "nat \<Rightarrow> (cbs, u8 list) op" where
  "CBS_copy_bytes len = cbs_get len"

definition cbs_get_length_prefixed :: "nat \<Rightarrow> (cbs, cbs) op" where
  "cbs_get_length_prefixed len_len =
     pbind (cbs_get_u len_len) (\<lambda>len. CBS_get_bytes (unat len))"

definition CBS_get_u8_length_prefixed :: "(cbs, cbs) op" where
  "CBS_get_u8_length_prefixed = cbs_get_length_prefixed 1"

definition CBS_get_u16_length_prefixed :: "(cbs, cbs) op" where
  "CBS_get_u16_length_prefixed = cbs_get_length_prefixed 2"

definition CBS_get_u24_length_prefixed :: "(cbs, cbs) op" where
  "CBS_get_u24_length_prefixed = cbs_get_length_prefixed 3"

definition CBS_get_until_first :: "u8 \<Rightarrow> (cbs, cbs) op" where
  "CBS_get_until_first c s =
     (case OPENSSL_memchr (CBS_data s) c (CBS_len s) of
        None \<Rightarrow> (None, s)
      | Some split \<Rightarrow> CBS_get_bytes split s)"

section \<open>ASN.1 tags and elements\<close>

definition CBS_ASN1_TAG_SHIFT :: nat where "CBS_ASN1_TAG_SHIFT = 24"
definition CBS_ASN1_CONSTRUCTED :: u32 where "CBS_ASN1_CONSTRUCTED = push_bit CBS_ASN1_TAG_SHIFT 0x20"
definition CBS_ASN1_TAG_NUMBER_MASK :: u32 where
  "CBS_ASN1_TAG_NUMBER_MASK = push_bit (5 + CBS_ASN1_TAG_SHIFT) 1 - 1"
definition CBS_ASN1_BOOLEAN :: u32 where "CBS_ASN1_BOOLEAN = 0x1"
definition CBS_ASN1_INTEGER :: u32 where "CBS_ASN1_INTEGER = 0x2"
definition CBS_ASN1_OCTETSTRING :: u32 where "CBS_ASN1_OCTETSTRING = 0x4"

text \<open>The do-while loop of \<open>parse_base128_integer\<close>, one byte per round.\<close>

fun parse_base128_loop :: "u64 \<Rightarrow> (cbs, u64) op" where
  "parse_base128_loop v [] = (None, [])"
| "parse_base128_loop v (b # s) =
     (if drop_bit (64 - 7) v \<noteq> 0 then (None, s)
      else if v = 0 \<and> b = 0x80 then (None, s)
      else let v = push_bit 7 v OR ucast (b AND 0x7f)
           in if b AND 0x80 \<noteq> 0 then parse_base128_loop v s else (Some v, s))"

definition parse_base128_integer :: "(cbs, u64) op" where
  "parse_base128_integer = parse_base128_loop 0"

definition parse_asn1_tag :: "(cbs, u32) op" where
  "parse_asn1_tag =
     pbind CBS_get_u8 (\<lambda>tag_byte.
       let tag = push_bit CBS_ASN1_TAG_SHIFT (ucast tag_byte AND 0xe0);
           tag_number = ucast (tag_byte AND 0x1f) :: u32 in
       if tag_number = 0x1f then
         pbind parse_base128_integer (\<lambda>v.
           if v > ucast CBS_ASN1_TAG_NUMBER_MASK \<or> v < 0x1f then pfail
           else pret (tag OR ucast v))
       else pret (tag OR tag_number))"

record asn1_element =
  el_out :: cbs
  el_tag :: u32
  el_header_len :: nat
  el_ber_found :: bool

text \<open>
  Parsing works on the copy \<open>header\<close>; the caller's view moves only when the whole
  element is read, so every failure leaves it as it was.
\<close>

definition cbs_get_any_asn1_element :: "bool \<Rightarrow> (cbs, asn1_element) op" where
  "cbs_get_any_asn1_element ber_ok s =
     (case parse_asn1_tag s of
        (None, _) \<Rightarrow> (None, s)
      | (Some tag, header) \<Rightarrow>
     (case CBS_get_u8 header of
        (None, _) \<Rightarrow> (None, s)
      | (Some length_byte, header) \<Rightarrow>
       (let header_len = CBS_len s - CBS_len header in
        if length_byte AND 0x80 = 0 then
          pmap (\<lambda>out. \<lparr>el_out = out, el_tag = tag, el_header_len = header_len, el_ber_found = False\<rparr>)
            (CBS_get_bytes (unat length_byte + header_len)) s
        else
         (let num_bytes = unat (length_byte AND 0x7f) in
          if ber_ok \<and> tag AND CBS_ASN1_CONSTRUCTED \<noteq> 0 \<and> num_bytes = 0 then
            pmap (\<lambda>out. \<lparr>el_out = out, el_tag = tag, el_header_len = header_len, el_ber_found = True\<rparr>)
              (CBS_get_bytes header_len) s
          else if num_bytes = 0 \<or> num_bytes > 4 then (None, s)
          else
           (case cbs_get_u num_bytes header of
              (None, _) \<Rightarrow> (None, s)
            | (Some len64, header) \<Rightarrow>
             (let long_form = (len64 < 128);
                  padded = (drop_bit ((num_bytes - 1) * 8) len64 = 0);
                  len = unat len64;
                  total = size_add (size_add len header_len) num_bytes in
              if long_form \<and> \<not> ber_ok then (None, s)
              else if padded \<and> \<not> ber_ok then (None, s)
              else if total < len then (None, s)
              else
                pmap (\<lambda>out. \<lparr>el_out = out, el_tag = tag, el_header_len = header_len + num_bytes,
                              el_ber_found = long_form \<or> padded\<rparr>)
                  (CBS_get_bytes total) s))))))"

definition CBS_get_any_asn1_element :: "(cbs, asn1_element) op" where
  "CBS_get_any_asn1_element = cbs_get_any_asn1_element False"

definition CBS_get_any_ber_asn1_element :: "(cbs, asn1_element) op" where
  "CBS_get_any_ber_asn1_element = cbs_get_any_asn1_element True"

text \<open>\<open>CBS_skip\<close> of the header within the element just read.\<close>

definition skip_header :: "asn1_element \<Rightarrow> (cbs, cbs) op" where
  "skip_header el s =
     (case CBS_skip (el_header_len el) (el_out el) of
        (None, _) \<Rightarrow> (None, s)
      | (Some _, contents) \<Rightarrow> (Some contents, s))"

definition CBS_get_any_asn1 :: "(cbs, cbs \<times> u32) op" where
  "CBS_get_any_asn1 =
     pbind CBS_get_any_asn1_element (\<lambda>el. pmap (\<lambda>c. (c, el_tag el)) (skip_header el))"

definition cbs_get_asn1 :: "u32 \<Rightarrow> bool \<Rightarrow> (cbs, cbs) op" where
  "cbs_get_asn1 tag_value skip =
     pbind CBS_get_any_asn1_element (\<lambda>el.
       if el_tag el \<noteq> tag_value then pfail
       else if skip then skip_header el
       else pret (el_out el))"

definition CBS_get_asn1 :: "u32 \<Rightarrow> (cbs, cbs) op" where
  "CBS_get_asn1 tag_value = cbs_get_asn1 tag_value True"

definition CBS_get_asn1_element :: "u32 \<Rightarrow> (cbs, cbs) op" where
  "CBS_get_asn1_element tag_value = cbs_get_asn1 tag_value False"

definition CBS_peek_asn1_tag :: "cbs \<Rightarrow> u32 \<Rightarrow> bool" where
  "CBS_peek_asn1_tag s tag_value =
     (if CBS_len s < 1 then False
      else case parse_asn1_tag s of (None, _) \<Rightarrow> False | (Some actual, _) \<Rightarrow> tag_value = actual)"

section \<open>Contents of the basic types\<close>

text \<open>The result is also the sign: \<open>None\<close> for an invalid integer.\<close>

definition CBS_is_valid_asn1_integer :: "cbs \<Rightarrow> bool option" where
  "CBS_is_valid_asn1_integer s =
     (case CBS_get_u8 s of
        (None, _) \<Rightarrow> None
      | (Some first_byte, copy) \<Rightarrow>
         (let is_negative = (first_byte AND 0x80 \<noteq> 0) in
          case CBS_get_u8 copy of
            (None, _) \<Rightarrow> Some is_negative
          | (Some second_byte, _) \<Rightarrow>
              if (first_byte = 0x00 \<and> second_byte AND 0x80 = 0) \<or>
                 (first_byte = 0xff \<and> second_byte AND 0x80 \<noteq> 0)
              then None else Some is_negative))"

definition CBS_is_unsigned_asn1_integer :: "cbs \<Rightarrow> bool" where
  "CBS_is_unsigned_asn1_integer s = (CBS_is_valid_asn1_integer s = Some False)"

fun asn1_uint64_loop :: "u64 \<Rightarrow> u8 list \<Rightarrow> u64 option" where
  "asn1_uint64_loop out [] = Some out"
| "asn1_uint64_loop out (b # data) =
     (if drop_bit 56 out \<noteq> 0 then None
      else asn1_uint64_loop (push_bit 8 out OR ucast b) data)"

definition CBS_get_asn1_uint64 :: "(cbs, u64) op" where
  "CBS_get_asn1_uint64 =
     pbind (CBS_get_asn1 CBS_ASN1_INTEGER) (\<lambda>bytes.
       if \<not> CBS_is_unsigned_asn1_integer bytes then pfail
       else case asn1_uint64_loop 0 (CBS_data bytes) of None \<Rightarrow> pfail | Some v \<Rightarrow> pret v)"

text \<open>
  The union of \<open>CBS_get_asn1_int64\<close>: eight bytes, least significant first. The result
  is the 64-bit word whose signed reading is the \<open>int64_t\<close>.
\<close>

definition int64_union :: "u8 list \<Rightarrow> u64" where
  "int64_union bytes = word_of_nat (be_nat (rev bytes))"

definition CBS_get_asn1_int64 :: "(cbs, u64) op" where
  "CBS_get_asn1_int64 =
     pbind (CBS_get_asn1 CBS_ASN1_INTEGER) (\<lambda>bytes.
       case CBS_is_valid_asn1_integer bytes of
         None \<Rightarrow> pfail
       | Some is_negative \<Rightarrow>
          (let data = CBS_data bytes; len = CBS_len bytes in
           if len > 8 then pfail
           else pret (int64_union (rev data @ replicate (8 - len) (if is_negative then 0xff else 0)))))"

definition CBS_get_asn1_bool :: "(cbs, bool) op" where
  "CBS_get_asn1_bool =
     pbind (CBS_get_asn1 CBS_ASN1_BOOLEAN) (\<lambda>bytes.
       if CBS_len bytes \<noteq> 1 then pfail
       else let val = CBS_data bytes ! 0 in
         if val \<noteq> 0 \<and> val \<noteq> 0xff then pfail else pret (val \<noteq> 0))"

definition CBS_get_optional_asn1 :: "u32 \<Rightarrow> (cbs, cbs option) op" where
  "CBS_get_optional_asn1 tag s =
     (if CBS_peek_asn1_tag s tag then pmap Some (CBS_get_asn1 tag) s else (Some None, s))"

definition CBS_get_optional_asn1_octet_string :: "u32 \<Rightarrow> (cbs, cbs \<times> bool) op" where
  "CBS_get_optional_asn1_octet_string tag =
     pbind (CBS_get_optional_asn1 tag) (\<lambda>r.
       case r of
         None \<Rightarrow> pret ([], False)
       | Some child \<Rightarrow>
          (case CBS_get_asn1 CBS_ASN1_OCTETSTRING child of
             (None, _) \<Rightarrow> pfail
           | (Some out, child) \<Rightarrow> if CBS_len child \<noteq> 0 then pfail else pret (out, True)))"

definition CBS_get_optional_asn1_uint64 :: "u32 \<Rightarrow> u64 \<Rightarrow> (cbs, u64) op" where
  "CBS_get_optional_asn1_uint64 tag default_value =
     pbind (CBS_get_optional_asn1 tag) (\<lambda>r.
       case r of
         None \<Rightarrow> pret default_value
       | Some child \<Rightarrow>
          (case CBS_get_asn1_uint64 child of
             (None, _) \<Rightarrow> pfail
           | (Some out, child) \<Rightarrow> if CBS_len child \<noteq> 0 then pfail else pret out))"

definition CBS_get_optional_asn1_bool :: "u32 \<Rightarrow> int \<Rightarrow> (cbs, int) op" where
  "CBS_get_optional_asn1_bool tag default_value =
     pbind (CBS_get_optional_asn1 tag) (\<lambda>r.
       case r of
         None \<Rightarrow> pret default_value
       | Some child \<Rightarrow>
          (case CBS_get_asn1 CBS_ASN1_BOOLEAN child of
             (None, _) \<Rightarrow> pfail
           | (Some child2, child) \<Rightarrow>
              if CBS_len child2 \<noteq> 1 \<or> CBS_len child \<noteq> 0 then pfail
              else let boolean = CBS_data child2 ! 0 in
                if boolean = 0 then pret 0 else if boolean = 0xff then pret 1 else pfail))"

definition CBS_is_valid_asn1_bitstring :: "cbs \<Rightarrow> bool" where
  "CBS_is_valid_asn1_bitstring s =
     (case CBS_get_u8 s of
        (None, _) \<Rightarrow> False
      | (Some num_unused_bits, s') \<Rightarrow>
          if num_unused_bits > 7 then False
          else if num_unused_bits = 0 then True
          else case CBS_get_last_u8 s' of
              (None, _) \<Rightarrow> False
            | (Some last_byte, _) \<Rightarrow> last_byte AND (push_bit (unat num_unused_bits) 1 - 1) = 0)"

definition CBS_asn1_bitstring_has_bit :: "cbs \<Rightarrow> u32 \<Rightarrow> bool" where
  "CBS_asn1_bitstring_has_bit s bit_index =
     (if \<not> CBS_is_valid_asn1_bitstring s then False
      else let byte_num = unat (drop_bit 3 bit_index + 1);
               bit_num = unat (7 - (bit_index AND 7))
           in byte_num < CBS_len s \<and> (CBS_data s ! byte_num) AND push_bit bit_num 1 \<noteq> 0)"

section \<open>What the raw reads do\<close>

lemma cbs_get_Some_iff [simp]:
  "cbs_get n s = (Some x, t) \<longleftrightarrow> length x = n \<and> s = x @ t"
  by (auto simp: cbs_get_def)

lemma cbs_get_None_iff [simp]: "cbs_get n s = (None, t) \<longleftrightarrow> length s < n \<and> s = t"
  by (auto simp: cbs_get_def)

lemma cbs_get_append [simp]: "length x = n \<Longrightarrow> cbs_get n (x @ t) = (Some x, t)"
  by (simp add: cbs_get_def)

lemma CBS_get_u8_simps [simp]:
  "CBS_get_u8 [] = (None, [])"
  "CBS_get_u8 (b # s) = (Some b, s)"
  by (simp_all add: CBS_get_u8_def pmap_def cbs_get_def)

lemma CBS_get_u8_Some_iff [simp]: "CBS_get_u8 s = (Some b, t) \<longleftrightarrow> s = b # t"
  by (cases s) auto

lemma CBS_get_u8_None_iff [simp]: "CBS_get_u8 s = (None, t) \<longleftrightarrow> s = [] \<and> t = []"
  by (cases s) auto

lemma CBS_get_bytes_Some_iff [simp]:
  "CBS_get_bytes n s = (Some x, t) \<longleftrightarrow> length x = n \<and> s = x @ t"
  by (auto simp: CBS_get_bytes_def CBS_init_def)

lemma CBS_get_bytes_None_iff [simp]: "CBS_get_bytes n s = (None, t) \<longleftrightarrow> length s < n \<and> s = t"
  by (auto simp: CBS_get_bytes_def pmap_def cbs_get_def split: if_splits)

lemma CBS_get_bytes_append [simp]: "length x = n \<Longrightarrow> CBS_get_bytes n (x @ t) = (Some x, t)"
  by simp

lemma CBS_skip_Some_iff [simp]:
  "CBS_skip n s = (Some u, t) \<longleftrightarrow> n \<le> length s \<and> t = drop n s"
  by (auto simp: CBS_skip_def pmap_def cbs_get_def)

lemma CBS_skip_None_iff [simp]: "CBS_skip n s = (None, t) \<longleftrightarrow> length s < n \<and> t = s"
  by (auto simp: CBS_skip_def pmap_def cbs_get_def)

lemma foldl_cbs_get_u_step:
  "foldl cbs_get_u_step r xs = r * 256 ^ length xs + word_of_nat (be_nat xs)"
proof (induction xs arbitrary: r)
  case Nil
  then show ?case by simp
next
  case (Cons x xs)
  have step: "cbs_get_u_step r x = r * 256 + word_of_nat (unat x)"
    unfolding cbs_get_u_step_def push_bit_or_byte by (simp add: unsigned_ucast_eq)
  have "foldl cbs_get_u_step r (x # xs) =
      (r * 256 + word_of_nat (unat x)) * 256 ^ length xs + word_of_nat (be_nat xs)"
    by (simp only: foldl_Cons Cons.IH step)
  also have "\<dots> = r * 256 ^ length (x # xs) + word_of_nat (be_nat (x # xs))"
    by (simp only: length_Cons power_Suc distrib_right mult.assoc add.assoc be_nat.simps
        of_nat_add of_nat_mult of_nat_power of_nat_numeral)
  finally show ?case .
qed

lemma cbs_get_u_Some_iff [simp]:
  "cbs_get_u n s = (Some v, t) \<longleftrightarrow> (\<exists>x. length x = n \<and> v = word_of_nat (be_nat x) \<and> s = x @ t)"
  by (auto simp: cbs_get_u_def foldl_cbs_get_u_step)

lemma cbs_get_u_None_iff [simp]: "cbs_get_u n s = (None, t) \<longleftrightarrow> length s < n \<and> s = t"
  by (auto simp: cbs_get_u_def pmap_def cbs_get_def)

lemma cbs_get_u_append [simp]:
  "length x = n \<Longrightarrow> cbs_get_u n (x @ t) = (Some (word_of_nat (be_nat x)), t)"
  by auto

text \<open>Up to eight bytes nothing is lost.\<close>

lemma unat_be_nat: "length x \<le> 8 \<Longrightarrow> unat (word_of_nat (be_nat x) :: u64) = be_nat x"
proof -
  assume "length x \<le> 8"
  then have "(256 :: nat) ^ length x \<le> 256 ^ 8"
    by (intro power_increasing) auto
  with be_nat_less [of x] have "be_nat x < 2 ^ 64"
    by simp
  then show ?thesis by (simp add: unat_of_nat)
qed

lemma cbs_get_length_prefixed_Some_iff:
  assumes "n \<le> 8"
  shows "cbs_get_length_prefixed n s = (Some x, t) \<longleftrightarrow>
     (\<exists>h. length h = n \<and> be_nat h = length x \<and> s = h @ x @ t)"
proof -
  have "unat (word_of_nat (be_nat h) :: u64) = be_nat h" if "length h = n" for h
    using that assms by (intro unat_be_nat) simp
  then show ?thesis
    unfolding cbs_get_length_prefixed_def pbind_Some_iff cbs_get_u_Some_iff CBS_get_bytes_Some_iff
    by metis
qed

lemma OPENSSL_memchr_eq:
  "OPENSSL_memchr s c (length s) =
     (if c \<in> set s then Some (length (takeWhile (\<lambda>b. b \<noteq> c) s)) else None)"
  by (induction s) auto

lemma CBS_contains_zero_byte_iff: "CBS_contains_zero_byte s \<longleftrightarrow> 0 \<in> set s"
  by (simp add: CBS_contains_zero_byte_def CBS_data_def CBS_len_def OPENSSL_memchr_eq)

lemma CBS_mem_equal_iff: "n \<le> length data \<Longrightarrow> CBS_mem_equal s data n \<longleftrightarrow> s = take n data"
  by (auto simp: CBS_mem_equal_def CBS_len_def CBS_data_def CRYPTO_memcmp_eq_0)

lemma CBS_get_until_first_Some:
  assumes "CBS_get_until_first c s = (Some x, t)"
  shows "s = x @ t \<and> c \<notin> set x \<and> (\<exists>u. t = c # u)"
proof -
  let ?w = "takeWhile (\<lambda>b. b \<noteq> c) s"
  from assms have "c \<in> set s" and "s = x @ t" and len: "length x = length ?w"
    by (auto simp: CBS_get_until_first_def CBS_data_def CBS_len_def OPENSSL_memchr_eq split: if_splits)
  moreover have "s = ?w @ dropWhile (\<lambda>b. b \<noteq> c) s"
    by simp
  ultimately have "x = ?w \<and> t = dropWhile (\<lambda>b. b \<noteq> c) s"
    by (metis append_eq_append_conv len)
  then have x: "x = ?w" and t: "t = dropWhile (\<lambda>b. b \<noteq> c) s"
    by simp_all
  have "t \<noteq> []"
    using \<open>c \<in> set s\<close> unfolding t by auto
  then have "hd t = c"
    unfolding t using hd_dropWhile [of "\<lambda>b. b \<noteq> c" s] by simp
  with \<open>t \<noteq> []\<close> have "\<exists>u. t = c # u"
    by (cases t) auto
  moreover have "c \<notin> set x"
    unfolding x by (auto dest: set_takeWhileD)
  ultimately show ?thesis using \<open>s = x @ t\<close> by simp
qed

section \<open>Readers\<close>

text \<open>
  The contract of a read: it only moves the view forward. A reader of items also
  makes progress when it succeeds, so a loop that reads items until the view is empty
  ends; \<open>read_all\<close> is that loop, with the number of rounds as fuel.
\<close>

fun read_all :: "nat \<Rightarrow> (cbs, 'a) op \<Rightarrow> cbs \<Rightarrow> 'a list option" where
  "read_all n get [] = Some []"
| "read_all 0 get s = None"
| "read_all (Suc n) get s =
     (case get s of
        (None, _) \<Rightarrow> None
      | (Some x, t) \<Rightarrow> map_option ((#) x) (read_all n get t))"

locale cbs_reader =
  fixes get :: "u8 list \<Rightarrow> 'a option \<times> u8 list"
  assumes reads_prefix: "get s = (r, t) \<Longrightarrow> \<exists>p. s = p @ t"
begin

lemma length_le: "get s = (r, t) \<Longrightarrow> length t \<le> length s"
  using reads_prefix [of s r t] by auto

lemma set_subset: "get s = (r, t) \<Longrightarrow> set t \<subseteq> set s"
  using reads_prefix [of s r t] by auto

end

locale cbs_item_reader = cbs_reader +
  assumes progress: "get s = (Some x, t) \<Longrightarrow> t \<noteq> s"
begin

lemma length_less: "get s = (Some x, t) \<Longrightarrow> length t < length s"
  using reads_prefix [of s "Some x" t] progress [of s x t] by auto

text \<open>As many rounds as there are bytes are enough.\<close>

lemma read_all_fuel: "length s \<le> n \<Longrightarrow> read_all n get s = read_all (length s) get s"
proof (induction "length s" arbitrary: s n rule: less_induct)
  case less
  show ?case
  proof (cases s)
    case Nil
    then show ?thesis by simp
  next
    case (Cons b u)
    then obtain m where m: "n = Suc m" "length u \<le> m"
      using less.prems by (cases n) auto
    have "read_all m get t = read_all (length u) get t" if "get s = (Some x, t)" for x t
      using less.hyps [of t m] less.hyps [of t "length u"] length_less [OF that] m Cons by simp
    with m Cons show ?thesis
      by (auto split: prod.splits option.splits)
  qed
qed

lemma read_all_count: "read_all n get s = Some xs \<Longrightarrow> length xs \<le> length s"
proof (induction n arbitrary: s xs)
  case 0
  then show ?case by (cases s) auto
next
  case (Suc n)
  show ?case
  proof (cases s)
    case Nil
    with Suc.prems show ?thesis by simp
  next
    case (Cons b u)
    then obtain x t ys where "get s = (Some x, t)" "read_all n get t = Some ys" "xs = x # ys"
      using Suc.prems by (auto split: prod.splits option.splits)
    then show ?thesis
      using Suc.IH [of t ys] length_less [of s x t] by simp
  qed
qed

end

end
