(* ===== verification/Der.thy ===== *)
theory Der
  imports Cbs "HOL-Library.Sublist"
begin

text \<open>
  What the parser of theory \<open>Cbs\<close> accepts. The encodings are given as plain functions
  on numbers and byte strings (base-128 integers, identifier octets, length octets,
  whole elements); the readers are proved to be their exact inverses, in the locale
  \<open>cbs_canonical_codec\<close> whose laws say that the reader returns what was encoded and
  accepts nothing else.
\<close>

section \<open>Codecs\<close>

locale cbs_codec = cbs_item_reader get
  for get :: "u8 list \<Rightarrow> 'a option \<times> u8 list" +
  fixes enc :: "'a \<Rightarrow> u8 list" and valid :: "'a \<Rightarrow> bool"
  assumes get_enc: "valid x \<Longrightarrow> get (enc x @ rest) = (Some x, rest)"
begin

lemma enc_prefix_free:
  assumes "valid x" and "valid y" and "enc x @ r = enc y @ r'"
  shows "x = y \<and> r = r'"
proof -
  have "(Some x, r) = (Some y, r')"
    using get_enc [OF assms(1), of r] unfolding assms(3) get_enc [OF assms(2)] by (rule sym)
  then show ?thesis by simp
qed

lemma enc_inject: "valid x \<Longrightarrow> valid y \<Longrightarrow> enc x = enc y \<Longrightarrow> x = y"
  using enc_prefix_free [of x y "[]" "[]"] by simp

lemma enc_nonempty: "valid x \<Longrightarrow> enc x \<noteq> []"
  using get_enc [of x "[]"] progress [of "enc x" x "[]"] by auto

lemma read_all_enc:
  "list_all valid xs \<Longrightarrow> length xs \<le> n \<Longrightarrow> read_all n get (concat (map enc xs)) = Some xs"
proof (induction xs arbitrary: n)
  case Nil
  then show ?case by simp
next
  case (Cons x xs)
  then obtain m where m: "n = Suc m" by (cases n) auto
  obtain b bs where "enc x @ concat (map enc xs) = b # bs"
    using enc_nonempty Cons.prems by (cases "enc x") auto
  then have "read_all n get (enc x @ concat (map enc xs)) =
    (case get (enc x @ concat (map enc xs)) of (None, _) \<Rightarrow> None
      | (Some y, t) \<Rightarrow> map_option ((#) y) (read_all m get t))"
    by (simp add: m)
  with Cons m show ?case
    by (simp add: get_enc)
qed

end

locale cbs_canonical_codec = cbs_codec +
  assumes enc_get: "get s = (Some x, t) \<Longrightarrow> valid x \<and> s = enc x @ t"
begin

lemma get_Some_iff: "get s = (Some x, t) \<longleftrightarrow> valid x \<and> s = enc x @ t"
  using enc_get get_enc by blast

lemma read_all_canonical:
  "read_all n get s = Some xs \<Longrightarrow> list_all valid xs \<and> s = concat (map enc xs)"
proof (induction n arbitrary: s xs)
  case 0
  then show ?case by (cases s) auto
next
  case (Suc n)
  show ?case
  proof (cases s)
    case Nil
    with Suc.prems show ?thesis by simp
  next
    case (Cons b u)
    then obtain x t ys where "get s = (Some x, t)" "read_all n get t = Some ys" "xs = x # ys"
      using Suc.prems by (auto split: prod.splits option.splits)
    with Suc.IH [of t ys] show ?thesis
      by (auto simp: get_Some_iff)
  qed
qed

end

section \<open>Fixed-width integers and length prefixes\<close>

text \<open>\<open>cbs_get_u\<close> at the widths the code uses it with.\<close>

lemma reads_prefix_pmap: "(\<And>s r t. m s = (r, t) \<Longrightarrow> \<exists>p. s = p @ t) \<Longrightarrow> pmap f m s = (r, t) \<Longrightarrow> \<exists>p. s = p @ t"
  by (auto simp: pmap_def split: prod.splits)

lemma reads_prefix_pbind:
  assumes "\<And>s r t. m s = (r, t) \<Longrightarrow> \<exists>p. s = p @ t"
    and "\<And>x s r t. f x s = (r, t) \<Longrightarrow> \<exists>p. s = p @ t"
    and "pbind m f s = (r, t)"
  shows "\<exists>p. s = p @ t"
proof (cases "m s")
  case (Pair o' s')
  obtain p where p: "s = p @ s'" using assms(1) [OF Pair] by blast
  show ?thesis
  proof (cases o')
    case None
    with Pair p assms(3) show ?thesis by auto
  next
    case (Some x)
    with Pair assms(3) have "f x s' = (r, t)" by simp
    then obtain q where "s' = q @ t" using assms(2) by blast
    with p have "s = (p @ q) @ t" by simp
    then show ?thesis ..
  qed
qed

lemma cbs_get_prefix: "cbs_get n s = (r, t) \<Longrightarrow> \<exists>p. s = p @ t"
  by (auto simp: cbs_get_def split: if_splits) (metis append_take_drop_id)

lemma cbs_get_u_prefix: "cbs_get_u n s = (r, t) \<Longrightarrow> \<exists>p. s = p @ t"
  unfolding cbs_get_u_def by (rule reads_prefix_pmap [OF cbs_get_prefix])

lemma CBS_get_bytes_prefix: "CBS_get_bytes n s = (r, t) \<Longrightarrow> \<exists>p. s = p @ t"
  unfolding CBS_get_bytes_def by (rule reads_prefix_pmap [OF cbs_get_prefix])

lemma CBS_get_u8_prefix: "CBS_get_u8 s = (r, t) \<Longrightarrow> \<exists>p. s = p @ t"
  unfolding CBS_get_u8_def by (rule reads_prefix_pmap [OF cbs_get_prefix])

lemma word_of_be_nat_inject:
  assumes "length x \<le> 8" and "length y = length x"
    and "word_of_nat (be_nat x) = (word_of_nat (be_nat y) :: u64)"
  shows "x = y"
  using assms unat_be_nat [of x] unat_be_nat [of y] by (metis be_nat_inject)

lemma cbs_get_u_canonical:
  assumes "n \<le> 8"
  shows "cbs_get_u n s = (Some v, t) \<longleftrightarrow> unat v < 256 ^ n \<and> s = be_bytes n (unat v) @ t"
proof
  assume "cbs_get_u n s = (Some v, t)"
  then obtain x where "length x = n" and v: "v = word_of_nat (be_nat x)" and "s = x @ t"
    by auto
  moreover from this assms have "unat v = be_nat x"
    by (simp add: unat_be_nat)
  ultimately show "unat v < 256 ^ n \<and> s = be_bytes n (unat v) @ t"
    using be_nat_less [of x] by auto
qed (auto intro!: exI [of _ "be_bytes n (unat v)"])

text \<open>Narrowing the 64-bit accumulator to the result type loses nothing.\<close>

lemma cbs_get_u_ucast:
  assumes "n \<le> 8" and "256 ^ n \<le> (2 :: nat) ^ LENGTH('w)" and "LENGTH('w) \<le> 64"
  shows "pmap ucast (cbs_get_u n) s = (Some (v :: 'w::len word), t) \<longleftrightarrow>
    unat v < 256 ^ n \<and> s = be_bytes n (unat v) @ t"
proof
  assume "pmap ucast (cbs_get_u n) s = (Some v, t)"
  then obtain w where w: "cbs_get_u n s = (Some w, t)" and v: "v = ucast w"
    by auto
  then have "unat w < 256 ^ n" and s: "s = be_bytes n (unat w) @ t"
    using assms(1) by (simp_all only: cbs_get_u_canonical)
  moreover have "unat v = take_bit LENGTH('w) (unat w)"
    unfolding v by (rule unsigned_ucast_eq)
  ultimately show "unat v < 256 ^ n \<and> s = be_bytes n (unat v) @ t"
    using assms(2) by (simp add: take_bit_eq_mod)
next
  assume v: "unat v < 256 ^ n \<and> s = be_bytes n (unat v) @ t"
  have "unat v < 2 ^ LENGTH('w)"
    by (rule unsigned_less)
  also have "\<dots> \<le> 2 ^ 64"
    using assms(3) by (intro power_increasing) auto
  finally have "unat v < 2 ^ 64" .
  moreover have "unat (ucast v :: u64) = take_bit LENGTH(64) (unat v)"
    by (rule unsigned_ucast_eq)
  ultimately have "unat (ucast v :: u64) = unat v"
    by (simp add: take_bit_eq_mod)
  with v assms(1) have "cbs_get_u n s = (Some (ucast v), t)"
    by (simp only: cbs_get_u_canonical)
  moreover have "ucast (ucast v :: u64) = v"
    using assms(3) by (intro bit_word_eqI) (auto simp: bit_simps)
  ultimately show "pmap ucast (cbs_get_u n) s = (Some v, t)"
    by simp
qed

lemma CBS_get_u16_Some_iff: "CBS_get_u16 s = (Some v, t) \<longleftrightarrow> s = be_bytes 2 (unat v) @ t"
  using unat_u16_less [of v] unfolding CBS_get_u16_def by (subst cbs_get_u_ucast) auto

lemma CBS_get_u24_Some_iff:
  "CBS_get_u24 s = (Some v, t) \<longleftrightarrow> unat v < 2 ^ 24 \<and> s = be_bytes 3 (unat v) @ t"
  unfolding CBS_get_u24_def by (subst cbs_get_u_ucast) auto

lemma CBS_get_u32_Some_iff: "CBS_get_u32 s = (Some v, t) \<longleftrightarrow> s = be_bytes 4 (unat v) @ t"
  using unat_u32_less [of v] unfolding CBS_get_u32_def by (subst cbs_get_u_ucast) auto

lemma CBS_get_u64_Some_iff: "CBS_get_u64 s = (Some v, t) \<longleftrightarrow> s = be_bytes 8 (unat v) @ t"
  using unat_u64_less [of v] unfolding CBS_get_u64_def by (subst cbs_get_u_canonical) auto

lemma CBS_get_u16_prefix: "CBS_get_u16 s = (r, t) \<Longrightarrow> \<exists>p. s = p @ t"
  unfolding CBS_get_u16_def by (rule reads_prefix_pmap [OF cbs_get_u_prefix])

lemma CBS_get_u24_prefix: "CBS_get_u24 s = (r, t) \<Longrightarrow> \<exists>p. s = p @ t"
  unfolding CBS_get_u24_def by (rule reads_prefix_pmap [OF cbs_get_u_prefix])

lemma CBS_get_u32_prefix: "CBS_get_u32 s = (r, t) \<Longrightarrow> \<exists>p. s = p @ t"
  unfolding CBS_get_u32_def by (rule reads_prefix_pmap [OF cbs_get_u_prefix])

lemma CBS_get_u64_prefix: "CBS_get_u64 s = (r, t) \<Longrightarrow> \<exists>p. s = p @ t"
  unfolding CBS_get_u64_def by (rule cbs_get_u_prefix)

text \<open>The integer readers are canonical codecs of the numbers that fit their width.\<close>

interpretation u8_codec: cbs_canonical_codec CBS_get_u8 "\<lambda>b. [b]" "\<lambda>_. True"
  by unfold_locales (auto intro: CBS_get_u8_prefix)

interpretation u16_codec: cbs_canonical_codec CBS_get_u16 "\<lambda>v. be_bytes 2 (unat v)" "\<lambda>_. True"
  by unfold_locales (auto simp: CBS_get_u16_Some_iff dest: CBS_get_u16_prefix)

interpretation u24_codec: cbs_canonical_codec CBS_get_u24 "\<lambda>v. be_bytes 3 (unat v)" "\<lambda>v. unat v < 2 ^ 24"
  by unfold_locales (auto simp: CBS_get_u24_Some_iff dest: CBS_get_u24_prefix)

interpretation u32_codec: cbs_canonical_codec CBS_get_u32 "\<lambda>v. be_bytes 4 (unat v)" "\<lambda>_. True"
  by unfold_locales (auto simp: CBS_get_u32_Some_iff dest: CBS_get_u32_prefix)

interpretation u64_codec: cbs_canonical_codec CBS_get_u64 "\<lambda>v. be_bytes 8 (unat v)" "\<lambda>_. True"
  by unfold_locales (auto simp: CBS_get_u64_Some_iff dest: CBS_get_u64_prefix)

section \<open>Base-128 integers\<close>

text \<open>
  The digits of a number in base 128, most significant first; on the wire all but the
  last carry the continuation bit.
\<close>

fun base128_digits :: "nat \<Rightarrow> nat list" where
  "base128_digits n = (if n < 128 then [n] else base128_digits (n div 128) @ [n mod 128])"

declare base128_digits.simps [simp del]

definition more_byte :: "nat \<Rightarrow> u8" where
  "more_byte d = word_of_nat (d + 128)"

lemma unat_more_byte: "d < 128 \<Longrightarrow> unat (more_byte d) = d + 128"
  unfolding more_byte_def by (simp only: unat_u8_of_nat) simp

lemma more_byte_unat: "128 \<le> unat b \<Longrightarrow> more_byte (unat b mod 128) = b"
proof -
  assume "128 \<le> unat b"
  then have "unat b mod 128 + 128 = unat b"
  proof -
    have "unat b - 128 < 128" using unat_u8_less [of b] by linarith
    with \<open>128 \<le> unat b\<close> show ?thesis by (simp add: le_mod_geq)
  qed
  then show ?thesis by (simp only: more_byte_def word_of_nat_unat)
qed

definition base128_more :: "nat \<Rightarrow> u8 list" where
  "base128_more n = map more_byte (base128_digits n)"

definition base128_bytes :: "nat \<Rightarrow> u8 list" where
  "base128_bytes n =
     (if n < 128 then [word_of_nat n] else base128_more (n div 128) @ [word_of_nat (n mod 128)])"

lemma base128_more_small: "n < 128 \<Longrightarrow> base128_more n = [more_byte n]"
  by (simp add: base128_more_def base128_digits.simps)

lemma base128_more_step: "128 \<le> n \<Longrightarrow>
  base128_more n = base128_more (n div 128) @ [more_byte (n mod 128)]"
  by (simp add: base128_more_def base128_digits.simps [of n])

lemma base128_more_snoc: "0 < n \<Longrightarrow> d < 128 \<Longrightarrow>
  base128_more (n * 128 + d) = base128_more n @ [more_byte d]"
  by (subst base128_more_step) auto

lemma base128_bytes_snoc: "0 < n \<Longrightarrow> d < 128 \<Longrightarrow>
  base128_bytes (n * 128 + d) = base128_more n @ [word_of_nat d]"
  by (simp add: base128_bytes_def)

lemma length_base128_more: "n < 128 ^ k \<Longrightarrow> 0 < k \<Longrightarrow> length (base128_more n) \<le> k"
proof (induction k arbitrary: n)
  case 0
  then show ?case by simp
next
  case (Suc k)
  show ?case
  proof (cases "n < 128")
    case True
    then show ?thesis by (simp add: base128_more_small)
  next
    case False
    with Suc.prems have "n div 128 < 128 ^ k" and "0 < k"
      by (auto simp: less_mult_imp_div_less mult.commute intro: gr0I)
    with False Suc.IH show ?thesis by (simp add: base128_more_step)
  qed
qed

lemma length_base128_bytes: "n < 128 ^ k \<Longrightarrow> 0 < k \<Longrightarrow> length (base128_bytes n) \<le> k"
proof (cases "n < 128")
  case False
  assume "n < 128 ^ k" and "0 < k"
  with False obtain j where "k = Suc j" and "0 < j"
    by (cases k; cases "k - 1") auto
  with \<open>n < 128 ^ k\<close> have "n div 128 < 128 ^ j"
    by (simp add: less_mult_imp_div_less mult.commute)
  with \<open>0 < j\<close> \<open>k = Suc j\<close> False show ?thesis
    using length_base128_more [of "n div 128" j] by (simp add: base128_bytes_def)
qed (simp add: base128_bytes_def)

text \<open>One round of the reading loop, on numbers.\<close>

lemma unat_base128_shift:
  fixes v :: u64
  assumes "unat v < 2 ^ 57"
  shows "unat (push_bit 7 v OR ucast (b AND (0x7f :: u8))) = unat v * 128 + unat b mod 128"
proof -
  have "unat (ucast (b AND 0x7f) :: u64) = unat b mod 128"
    using u8_and_low7 [of b] by (simp add: unsigned_ucast_eq take_bit_eq_mod)
  then show ?thesis
    using assms unat_push_bit_or [of v 7 "ucast (b AND 0x7f)"] by simp
qed

definition base128_acc :: "u64 \<Rightarrow> u8 \<Rightarrow> u64" where
  "base128_acc v b = word_of_nat (unat v * 128 + unat b mod 128)"

lemma unat_base128_acc: "unat v < 2 ^ 57 \<Longrightarrow> unat (base128_acc v b) = unat v * 128 + unat b mod 128"
  unfolding base128_acc_def by (intro unat_u64_of_nat) simp

lemma parse_base128_loop_Cons:
  "parse_base128_loop v (b # s) =
    (if 2 ^ 57 \<le> unat v \<or> (v = 0 \<and> b = 0x80) then (None, s)
     else if 128 \<le> unat b then parse_base128_loop (base128_acc v b) s
     else (Some (base128_acc v b), s))"
proof (cases "unat v < 2 ^ 57")
  case True
  then have "push_bit 7 v OR ucast (b AND (0x7f :: u8)) = base128_acc v b"
    unfolding base128_acc_def by (metis unat_base128_shift word_of_nat_unat)
  with True show ?thesis
    by (auto simp: drop_bit_eq_0_iff_less u8_and_high_bit Let_def)
next
  case False
  then show ?thesis by (simp add: drop_bit_eq_0_iff_less)
qed


declare parse_base128_loop.simps(2) [simp del]

text \<open>
  From a nonzero accumulator the loop reads the digits that continue it; from zero it
  reads a whole, minimally encoded number.
\<close>

lemma parse_base128_loop_more:
  assumes "parse_base128_loop v s = (Some w, t)" and "v \<noteq> 0"
  shows "\<exists>p. s = p @ t \<and> base128_bytes (unat w) = base128_more (unat v) @ p"
  using assms
proof (induction s arbitrary: v)
  case Nil
  then show ?case by simp
next
  case (Cons b s)
  define v' :: u64 where "v' = base128_acc v b"
  have v: "unat v < 2 ^ 57" and pos: "0 < unat v"
    using Cons.prems by (auto simp: parse_base128_loop_Cons unat_gt_0 split: if_splits)
  then have v': "unat v' = unat v * 128 + unat b mod 128"
    by (simp add: v'_def unat_base128_acc)
  show ?case
  proof (cases "128 \<le> unat b")
    case True
    then have "parse_base128_loop v' s = (Some w, t)" and "v' \<noteq> 0"
      using Cons.prems v pos v' by (auto simp: parse_base128_loop_Cons v'_def [symmetric])
    from Cons.IH [OF this] obtain p where
      "s = p @ t" "base128_bytes (unat w) = base128_more (unat v') @ p" by blast
    moreover have "base128_more (unat v') = base128_more (unat v) @ [more_byte (unat b mod 128)]"
      using pos by (simp add: v' base128_more_snoc)
    moreover have "more_byte (unat b mod 128) = b"
      using True by (rule more_byte_unat)
    ultimately have "b # s = (b # p) @ t \<and> base128_bytes (unat w) = base128_more (unat v) @ b # p"
      by simp
    then show ?thesis ..
  next
    case False
    then have "w = v'" and "s = t"
      using Cons.prems v pos by (auto simp: parse_base128_loop_Cons v'_def [symmetric] Let_def)
    then have "b # s = [b] @ t \<and> base128_bytes (unat w) = base128_more (unat v) @ [b]"
      using False pos by (simp add: v' base128_bytes_snoc)
    then show ?thesis ..
  qed
qed

lemma parse_base128_integer_canonical:
  assumes "parse_base128_integer s = (Some w, t)"
  shows "s = base128_bytes (unat w) @ t"
proof (cases s)
  case Nil
  with assms show ?thesis by (simp add: parse_base128_integer_def)
next
  case (Cons b u)
  show ?thesis
  proof (cases "128 \<le> unat b")
    case True
    define v' :: u64 where "v' = base128_acc 0 b"
    have less: "unat b mod 128 < 128" by simp
    then have v': "unat v' = unat b mod 128"
      by (simp add: v'_def unat_base128_acc)
    have b: "more_byte (unat b mod 128) = b"
      using True by (rule more_byte_unat)
    have "b \<noteq> 0x80" and "parse_base128_loop v' u = (Some w, t)"
      using assms Cons True
      by (auto simp: parse_base128_integer_def parse_base128_loop_Cons v'_def split: if_splits)
    moreover have "v' \<noteq> 0"
    proof
      assume "v' = 0"
      with v' b have "b = more_byte 0" by simp
      with \<open>b \<noteq> 0x80\<close> show False by (simp add: more_byte_def)
    qed
    ultimately obtain p where "u = p @ t" "base128_bytes (unat w) = base128_more (unat v') @ p"
      using parse_base128_loop_more by blast
    with Cons v' b show ?thesis
      by (simp add: base128_more_small [OF less])
  next
    case False
    then have "w = base128_acc 0 b" and "u = t"
      using assms Cons by (auto simp: parse_base128_integer_def parse_base128_loop_Cons split: if_splits)
    moreover from this False have "unat w = unat b"
      by (simp add: unat_base128_acc)
    ultimately show ?thesis
      using Cons False by (simp add: base128_bytes_def)
  qed
qed

lemma parse_base128_loop_base128_more:
  "0 < n \<Longrightarrow> n < 2 ^ 64 \<Longrightarrow>
   parse_base128_loop 0 (base128_more n @ s) = parse_base128_loop (word_of_nat n) s"
proof (induction n arbitrary: s rule: less_induct)
  case (less n)
  show ?case
  proof (cases "n < 128")
    case True
    then have "unat (more_byte n) = n + 128"
      by (rule unat_more_byte)
    moreover from this less.prems have "more_byte n \<noteq> 0x80"
      by (auto simp: word_unat_eq_iff)
    moreover from True have "base128_acc 0 (more_byte n) = word_of_nat n"
      by (simp add: base128_acc_def unat_more_byte)
    ultimately show ?thesis
      using True by (simp add: base128_more_small parse_base128_loop_Cons)
  next
    case False
    let ?d = "more_byte (n mod 128)"
    have d: "unat ?d = n mod 128 + 128"
      by (rule unat_more_byte) simp
    have q: "unat (word_of_nat (n div 128) :: u64) = n div 128" "n div 128 < 2 ^ 57" "0 < n div 128"
      using False less.prems by (auto simp: unat_of_nat less_mult_imp_div_less div_greater_zero_iff)
    then have "parse_base128_loop 0 (base128_more n @ s) =
        parse_base128_loop (word_of_nat (n div 128)) (?d # s)"
      using False less.IH [of "n div 128" "?d # s"] less.prems by (simp add: base128_more_step)
    also have "\<dots> = parse_base128_loop (word_of_nat n) s"
    proof -
      have "(word_of_nat (n div 128) :: u64) \<noteq> 0"
        using q by (auto simp: word_unat_eq_iff)
      moreover have "base128_acc (word_of_nat (n div 128)) ?d = word_of_nat n"
        unfolding base128_acc_def q d by (rule arg_cong [where f = word_of_nat]) simp
      ultimately show ?thesis
        using q d by (simp add: parse_base128_loop_Cons)
    qed
    finally show ?thesis .
  qed
qed

lemma parse_base128_integer_bytes:
  assumes "n < 2 ^ 64"
  shows "parse_base128_integer (base128_bytes n @ t) = (Some (word_of_nat n), t)"
proof (cases "n < 128")
  case True
  then have "(word_of_nat n :: u8) \<noteq> 0x80"
    by (auto simp: word_unat_eq_iff)
  moreover from True have "base128_acc 0 (word_of_nat n) = word_of_nat n"
    by (simp add: base128_acc_def)
  ultimately show ?thesis
    using True by (simp add: base128_bytes_def parse_base128_integer_def parse_base128_loop_Cons)
next
  case False
  have q: "unat (word_of_nat (n div 128) :: u64) = n div 128" "n div 128 < 2 ^ 57" "0 < n div 128"
    using False assms by (auto simp: unat_of_nat less_mult_imp_div_less div_greater_zero_iff)
  moreover from this have "(word_of_nat (n div 128) :: u64) \<noteq> 0"
    by (auto simp: word_unat_eq_iff)
  moreover have "base128_acc (word_of_nat (n div 128)) (word_of_nat (n mod 128)) = word_of_nat n"
    unfolding base128_acc_def q by (rule arg_cong [where f = word_of_nat]) simp
  moreover have low: "(128 \<le> n mod 128) = False"
    by (simp add: not_le)
  ultimately show ?thesis
    using False assms
    by (simp add: base128_bytes_def parse_base128_integer_def parse_base128_loop_base128_more
        parse_base128_loop_Cons low)
qed

lemma parse_base128_loop_prefix: "parse_base128_loop v s = (r, t) \<Longrightarrow> \<exists>p. s = p @ t"
proof (induction v s rule: parse_base128_loop.induct)
  case (2 v b s)
  then show ?case
    by (fastforce simp: parse_base128_loop.simps Let_def split: if_splits)
qed auto

interpretation base128_codec:
  cbs_canonical_codec parse_base128_integer "\<lambda>v. base128_bytes (unat v)" "\<lambda>_. True"
proof unfold_locales
  fix s r t assume "parse_base128_integer s = (r, t)"
  then show "\<exists>p. s = p @ t"
    unfolding parse_base128_integer_def by (rule parse_base128_loop_prefix)
next
  fix s x t assume "parse_base128_integer s = (Some x, t)"
  then have "s = base128_bytes (unat x) @ t"
    by (rule parse_base128_integer_canonical)
  then show "t \<noteq> s" by (auto simp: base128_bytes_def split: if_splits)
next
  fix x :: u64 and rest
  show "parse_base128_integer (base128_bytes (unat x) @ rest) = (Some x, rest)"
    using parse_base128_integer_bytes [OF unat_u64_less] by simp
qed (simp add: parse_base128_integer_canonical)

section \<open>Identifier octets\<close>

text \<open>
  A tag is a 32-bit word: class and constructed bit on top, the number in the low 29
  bits. Its identifier octets use the low-tag-number form exactly below 31.
\<close>

definition der_tag :: "u32 \<Rightarrow> u8 list" where
  "der_tag tag =
     (let c = unat tag div 2 ^ 29; num = unat tag mod 2 ^ 29 in
      if num < 31 then [word_of_nat (c * 32 + num)]
      else word_of_nat (c * 32 + 31) # base128_bytes num)"

definition make_tag :: "nat \<Rightarrow> nat \<Rightarrow> u32" where
  "make_tag c num = word_of_nat (c * 2 ^ 29 + num)"

lemma unat_make_tag: "c < 8 \<Longrightarrow> num < 2 ^ 29 \<Longrightarrow> unat (make_tag c num) = c * 2 ^ 29 + num"
  unfolding make_tag_def by (intro unat_u32_of_nat) simp

lemma der_tag_make_tag:
  assumes "c < 8" and "num < 2 ^ 29"
  shows "der_tag (make_tag c num) =
    (if num < 31 then [word_of_nat (c * 32 + num)]
     else word_of_nat (c * 32 + 31) # base128_bytes num)"
proof -
  have "unat (make_tag c num) div 2 ^ 29 = c" and "unat (make_tag c num) mod 2 ^ 29 = num"
    using assms unfolding unat_make_tag [OF assms] by simp_all
  then show ?thesis unfolding der_tag_def Let_def by (simp only:)
qed

lemma make_tag_div_mod: "make_tag (unat tag div 2 ^ 29) (unat tag mod 2 ^ 29) = tag"
  unfolding make_tag_def by (simp only: div_mult_mod_eq word_of_nat_unat)

lemma unat_tag_class: "unat (tag :: u32) div 2 ^ 29 < 8"
  using unat_u32_less [of tag] by (simp add: less_mult_imp_div_less)

lemma bit_0xe0_iff: "bit (0xe0 :: 'a::len word) n \<longleftrightarrow> 5 \<le> n \<and> n < 8 \<and> n < LENGTH('a)"
proof -
  have "(0xe0 :: 'a word) = push_bit 5 (mask 3)"
    by (simp add: mask_eq_exp_minus_1 push_bit_eq_mult)
  then have "bit (0xe0 :: 'a word) n \<longleftrightarrow> bit (push_bit 5 (mask 3) :: 'a word) n"
    by (simp only:)
  then show ?thesis
    by (auto simp only: bit_push_bit_iff bit_mask_iff possible_bit_word)
qed

lemma tag_bits_word: "push_bit 24 (ucast (b :: u8) AND 0xe0 :: u32) = push_bit 29 (drop_bit 5 (ucast b))"
proof (rule bit_word_eqI)
  fix n assume "n < LENGTH(32)"
  show "bit (push_bit 24 (ucast b AND 0xe0 :: u32)) n = bit (push_bit 29 (drop_bit 5 (ucast b)) :: u32) n"
    using \<open>n < LENGTH(32)\<close>
    unfolding bit_push_bit_iff bit_and_iff bit_0xe0_iff bit_drop_bit_eq comp_def bit_ucast_iff possible_bit_word
    by (auto dest: bit_imp_le_length)
qed

lemma unat_tag_bits_or:
  assumes "unat w < 2 ^ 29"
  shows "push_bit 24 (ucast (b :: u8) AND 0xe0) OR w = make_tag (unat b div 32) (unat w)"
proof -
  have d: "unat (drop_bit 5 (ucast b) :: u32) = unat b div 32"
  proof -
    have "unat (drop_bit 5 (ucast b) :: u32) = drop_bit 5 (unat (ucast b :: u32))"
      by (rule unat_drop_bit_eq)
    then show ?thesis
      by (simp add: unat_ucast_up drop_bit_eq_div [of 5 "unat b"])
  qed
  have less: "unat b div 32 < 8"
    using unat_u8_less [of b] by (simp add: less_mult_imp_div_less)
  have "unat (push_bit 29 (drop_bit 5 (ucast b)) OR w :: u32) = unat b div 32 * 2 ^ 29 + unat w"
    using assms less unat_push_bit_or [of "drop_bit 5 (ucast b) :: u32" 29 w] by (simp add: d)
  then show ?thesis
    unfolding tag_bits_word using less assms by (simp add: word_unat_eq_iff unat_make_tag)
qed

lemma unat_tag_number: "unat (ucast (b AND (0x1f :: u8)) :: u32) = unat b mod 32"
proof -
  have "b AND 0x1f = take_bit 5 b"
    by (simp add: take_bit_eq_mask mask_eq_exp_minus_1)
  then have "unat (b AND 0x1f) = take_bit 5 (unat b)"
    by (simp only: unsigned_take_bit_eq)
  then show ?thesis
    by (simp add: unat_ucast_up take_bit_eq_mod)
qed

lemma tag_number_mask: "CBS_ASN1_TAG_NUMBER_MASK = 0x1fffffff"
  by (simp add: CBS_ASN1_TAG_NUMBER_MASK_def CBS_ASN1_TAG_SHIFT_def push_bit_eq_mult)

lemma parse_asn1_tag_Nil [simp]: "parse_asn1_tag [] = (None, [])"
  by (simp add: parse_asn1_tag_def pbind_def)

lemma parse_asn1_tag_Cons:
  "parse_asn1_tag (b # s) =
     (if unat b mod 32 = 31 then
        (case parse_base128_integer s of
           (None, t) \<Rightarrow> (None, t)
         | (Some v, t) \<Rightarrow>
             if 2 ^ 29 \<le> unat v \<or> unat v < 31 then (None, t)
             else (Some (make_tag (unat b div 32) (unat v)), t))
      else (Some (make_tag (unat b div 32) (unat b mod 32)), s))"
proof -
  have num: "(ucast (b AND 0x1f) = (0x1f :: u32)) \<longleftrightarrow> unat b mod 32 = 31"
    using unat_tag_number [of b] by (simp add: word_unat_eq_iff)
  have "unat (ucast (b AND 0x1f) :: u32) < 2 ^ 29"
    by (simp only: unat_tag_number) simp
  then have low: "push_bit 24 (ucast b AND 0xe0) OR ucast (b AND 0x1f) =
      make_tag (unat b div 32) (unat b mod 32)"
    by (simp only: unat_tag_bits_or unat_tag_number)
  have high: "push_bit 24 (ucast b AND 0xe0) OR ucast v = make_tag (unat b div 32) (unat v)"
    if "unat v < 2 ^ 29" for v :: u64
  proof -
    have "unat (ucast v :: u32) = take_bit LENGTH(32) (unat v)"
      by (rule unsigned_ucast_eq)
    with that have "unat (ucast v :: u32) = unat v"
      by (simp add: take_bit_eq_mod)
    with that show ?thesis by (metis unat_tag_bits_or)
  qed
  have bounds: "v > ucast CBS_ASN1_TAG_NUMBER_MASK \<or> v < 0x1f \<longleftrightarrow> 2 ^ 29 \<le> unat v \<or> unat v < 31"
    for v :: u64
    by (auto simp: tag_number_mask word_less_nat_alt)
  show ?thesis
    unfolding parse_asn1_tag_def pbind_step(1) [of CBS_get_u8 "b # s" b s, OF CBS_get_u8_simps(2)] Let_def CBS_ASN1_TAG_SHIFT_def
      num low
    by (auto simp: pbind_def bounds high not_le simp del: push_bit_and split: prod.splits option.splits)
qed

lemma parse_asn1_tag_canonical: "parse_asn1_tag s = (Some tag, t) \<Longrightarrow> s = der_tag tag @ t"
proof (cases s)
  case (Cons b u)
  assume parse: "parse_asn1_tag s = (Some tag, t)"
  have c: "unat b div 32 < 8"
    using unat_u8_less [of b] by (simp add: less_mult_imp_div_less)
  show ?thesis
  proof (cases "unat b mod 32 = 31")
    case True
    with parse Cons obtain v where v: "parse_base128_integer u = (Some v, t)" "31 \<le> unat v" "unat v < 2 ^ 29"
      and tag: "tag = make_tag (unat b div 32) (unat v)"
      by (auto simp: parse_asn1_tag_Cons split: prod.splits option.splits if_splits)
    have "der_tag tag = word_of_nat (unat b div 32 * 32 + 31) # base128_bytes (unat v)"
      using c v by (simp add: tag der_tag_make_tag)
    also have "unat b div 32 * 32 + 31 = unat b"
      using True div_mult_mod_eq [of "unat b" 32] by simp
    finally show ?thesis
      using Cons base128_codec.enc_get [OF v(1)] by simp
  next
    case False
    with parse Cons have tag: "tag = make_tag (unat b div 32) (unat b mod 32)" and "u = t"
      by (auto simp: parse_asn1_tag_Cons)
    moreover have "unat b mod 32 < 31"
      using False mod_less_divisor [of 32 "unat b"] by linarith
    ultimately have "der_tag tag = [word_of_nat (unat b div 32 * 32 + unat b mod 32)]"
      using c by (simp add: der_tag_make_tag)
    with Cons \<open>u = t\<close> show ?thesis
      by (simp only: div_mult_mod_eq word_of_nat_unat append_Cons append_Nil)
  qed
qed simp

lemma parse_asn1_tag_der_tag: "parse_asn1_tag (der_tag tag @ t) = (Some tag, t)"
proof -
  obtain c num where c: "c < 8" and num: "num < 2 ^ 29" and tag: "tag = make_tag c num"
    using unat_tag_class [of tag] make_tag_div_mod [of tag] mod_less_divisor [of "2 ^ 29" "unat tag"]
    by (metis zero_less_numeral zero_less_power)
  show ?thesis
  proof (cases "num < 31")
    case True
    then have "unat (word_of_nat (c * 32 + num) :: u8) = c * 32 + num"
      using c by (simp only: unat_u8_of_nat) simp
    with True c num show ?thesis
      by (simp add: tag der_tag_make_tag parse_asn1_tag_Cons del: of_nat_add)
  next
    case False
    have "unat (word_of_nat (c * 32 + 31) :: u8) = c * 32 + 31"
      using c by (simp only: unat_u8_of_nat) simp
    moreover have "parse_base128_integer (base128_bytes num @ t) = (Some (word_of_nat num), t)"
      using num by (intro parse_base128_integer_bytes) simp
    moreover have "unat (word_of_nat num :: u64) = num"
      using num by (intro unat_u64_of_nat) simp
    ultimately show ?thesis
      using False num c by (simp add: tag der_tag_make_tag parse_asn1_tag_Cons del: of_nat_add)
  qed
qed

lemma parse_asn1_tag_prefix: "parse_asn1_tag s = (r, t) \<Longrightarrow> \<exists>p. s = p @ t"
proof (cases s)
  case (Cons b u)
  assume "parse_asn1_tag s = (r, t)"
  then have "\<exists>p. u = p @ t"
    using Cons base128_codec.reads_prefix [of u]
    by (fastforce simp: parse_asn1_tag_Cons split: if_splits prod.splits option.splits)
  then show ?thesis using Cons by (metis append_Cons)
qed simp

interpretation tag_codec: cbs_canonical_codec parse_asn1_tag der_tag "\<lambda>_. True"
proof unfold_locales
  fix s x t assume "parse_asn1_tag s = (Some x, t)"
  then have "s = der_tag x @ t" by (rule parse_asn1_tag_canonical)
  then show "t \<noteq> s" by (auto simp: der_tag_def Let_def split: if_splits)
qed (auto simp: parse_asn1_tag_der_tag dest: parse_asn1_tag_canonical parse_asn1_tag_prefix)

lemma length_der_tag: "length (der_tag tag) \<le> 6"
proof -
  have "unat tag mod 2 ^ 29 < 128 ^ 5"
    by (rule less_trans [of _ "2 ^ 29"]) simp_all
  from length_base128_bytes [OF this] show ?thesis
    by (auto simp: der_tag_def Let_def)
qed

section \<open>Length octets and elements\<close>

definition length_octets :: "nat \<Rightarrow> nat" where
  "length_octets n = (if n < 2 ^ 8 then 1 else if n < 2 ^ 16 then 2 else if n < 2 ^ 24 then 3 else 4)"

definition der_length :: "nat \<Rightarrow> u8 list" where
  "der_length n =
     (if n < 128 then [word_of_nat n]
      else more_byte (length_octets n) # be_bytes (length_octets n) n)"

definition der_header :: "u32 \<Rightarrow> nat \<Rightarrow> u8 list" where
  "der_header tag n = der_tag tag @ der_length n"

definition der_element :: "u32 \<Rightarrow> u8 list \<Rightarrow> u8 list" where
  "der_element tag contents = der_header tag (length contents) @ contents"

lemma length_octets_range: "1 \<le> length_octets n" "length_octets n \<le> 4"
  by (auto simp: length_octets_def)

lemma length_octets_bounds:
  assumes "128 \<le> n" and "n < 2 ^ 32"
  shows "256 ^ (length_octets n - 1) \<le> n" and "n < 256 ^ length_octets n"
  using assms by (auto simp: length_octets_def)

lemma length_octets_unique:
  assumes "1 \<le> k" and "k \<le> 4" and "256 ^ (k - 1) \<le> n" and "n < 256 ^ k"
  shows "length_octets n = k"
proof -
  from assms have "k \<in> {1, 2, 3, 4}" by auto
  with assms show ?thesis by (auto simp: length_octets_def)
qed

lemma der_length_long:
  assumes "1 \<le> length x" and "length x \<le> 4" and "128 \<le> be_nat x"
    and "256 ^ (length x - 1) \<le> be_nat x"
  shows "der_length (be_nat x) = more_byte (length x) # x"
  using length_octets_unique [OF assms(1,2,4) be_nat_less] assms(3) by (simp add: der_length_def)

lemma length_der_length: "length (der_length n) \<le> 5"
  using length_octets_range [of n] by (simp add: der_length_def)

lemma length_der_header: "length (der_header tag n) \<le> 11"
  using length_der_tag [of tag] length_der_length [of n] by (simp add: der_header_def)

lemma unat_length_low: "unat (lb AND (0x7f :: u8)) = unat lb mod 128"
  by (rule u8_and_low7)

lemma len64_padded:
  "length x \<le> 8 \<Longrightarrow> drop_bit ((length x - 1) * 8) (word_of_nat (be_nat x) :: u64) = 0 \<longleftrightarrow>
    be_nat x < 256 ^ (length x - 1)"
proof -
  assume "length x \<le> 8"
  moreover have "(2 :: nat) ^ ((length x - 1) * 8) = 256 ^ (length x - 1)"
    by (simp only: mult.commute [of _ 8] power_mult) simp
  ultimately show ?thesis
    by (simp add: drop_bit_eq_0_iff_less unat_be_nat)
qed

text \<open>The element reader after the identifier octets, in the short and in the long form.\<close>

lemma element_short:
  assumes "parse_asn1_tag s = (Some tag, lb # h)" and "unat lb < 128"
  shows "cbs_get_any_asn1_element ber s =
    pmap (\<lambda>out. \<lparr>el_out = out, el_tag = tag, el_header_len = Suc (length (der_tag tag)), el_ber_found = False\<rparr>)
      (CBS_get_bytes (Suc (length (der_tag tag)) + unat lb)) s"
proof -
  have "s = der_tag tag @ lb # h"
    using assms(1) by (rule tag_codec.enc_get [THEN conjunct2])
  then have "CBS_len s - CBS_len h = Suc (length (der_tag tag))"
    by (simp add: CBS_len_def)
  with assms show ?thesis
    by (simp add: cbs_get_any_asn1_element_def u8_and_high_bit Let_def add.commute)
qed

lemma element_long_total:
  "n < 2 ^ 32 \<Longrightarrow> k \<le> 4 \<Longrightarrow>
   size_add (size_add n (Suc (length (der_tag tag)))) k = Suc (length (der_tag tag)) + k + n"
  using length_der_tag [of tag] by (simp add: size_simps)

lemma be_nat_less_2_32: "length x \<le> 4 \<Longrightarrow> be_nat x < 2 ^ 32"
proof -
  assume "length x \<le> 4"
  then have "(256 :: nat) ^ length x \<le> 256 ^ 4"
    by (intro power_increasing) auto
  with be_nat_less [of x] show ?thesis by simp
qed

lemma element_long:
  assumes "parse_asn1_tag s = (Some tag, lb # h)" and "128 \<le> unat lb" and "k = unat lb mod 128"
  shows "cbs_get_any_asn1_element False s =
    (if k = 0 \<or> 4 < k \<or> length h < k \<or> be_nat (take k h) < 128 \<or> be_nat (take k h) < 256 ^ (k - 1)
     then (None, s)
     else pmap (\<lambda>out. \<lparr>el_out = out, el_tag = tag, el_header_len = Suc (length (der_tag tag)) + k,
                       el_ber_found = False\<rparr>)
       (CBS_get_bytes (Suc (length (der_tag tag)) + k + be_nat (take k h))) s)"
proof -
  have s: "s = der_tag tag @ lb # h"
    using assms(1) by (rule tag_codec.enc_get [THEN conjunct2])
  have header_len: "CBS_len s - CBS_len h = Suc (length (der_tag tag))"
    by (simp add: CBS_len_def s)
  have high: "lb AND 0x80 \<noteq> 0"
    using assms(2) by (simp add: u8_and_high_bit)
  show ?thesis
  proof (cases "k = 0 \<or> 4 < k \<or> length h < k")
    case True
    then have "cbs_get_any_asn1_element False s = (None, s)"
      using assms high
      by (auto simp: cbs_get_any_asn1_element_def u8_and_low7 Let_def split: prod.splits option.splits)
    with True show ?thesis by auto
  next
    case False
    define x where "x = take k h"
    have x: "length x = k" "h = x @ drop k h" using False by (simp_all add: x_def)
    then have v: "cbs_get_u k h = (Some (word_of_nat (be_nat x)), drop k h)"
      by (metis cbs_get_u_append)
    have be: "unat (word_of_nat (be_nat x) :: u64) = be_nat x"
      using x False by (intro unat_be_nat) simp
    have total: "size_add (size_add (be_nat x) (Suc (length (der_tag tag)))) k =
        Suc (length (der_tag tag)) + k + be_nat x"
      using x False by (intro element_long_total be_nat_less_2_32) auto
    have pad: "drop_bit ((k - 1) * 8) (word_of_nat (be_nat x) :: u64) = 0 \<longleftrightarrow> be_nat x < 256 ^ (k - 1)"
      using len64_padded [of x] x False by simp
    have small: "(word_of_nat (be_nat x) :: u64) < 128 \<longleftrightarrow> be_nat x < 128"
      by (simp add: word_less_nat_alt be)
    show ?thesis
      unfolding x_def [symmetric] cbs_get_any_asn1_element_def assms(1) prod.case option.case
        CBS_get_u8_simps u8_and_low7 assms(3) [symmetric] v Let_def pad small be total header_len
      using False high by simp
  qed
qed

lemma element_needs_length: "parse_asn1_tag s = (Some tag, []) \<Longrightarrow> cbs_get_any_asn1_element ber s = (None, s)"
  by (simp add: cbs_get_any_asn1_element_def)

lemma element_needs_tag: "parse_asn1_tag s = (None, t) \<Longrightarrow> cbs_get_any_asn1_element ber s = (None, s)"
  by (simp add: cbs_get_any_asn1_element_def)

text \<open>Reading with the DER rules accepts exactly the encodings, and returns them whole.\<close>

definition der_result :: "u32 \<Rightarrow> u8 list \<Rightarrow> asn1_element" where
  "der_result tag c = \<lparr>el_out = der_element tag c, el_tag = tag,
     el_header_len = length (der_header tag (length c)), el_ber_found = False\<rparr>"

lemma der_split:
  assumes "CBS_get_bytes (length hdr + n) (hdr @ h) = (Some out, t)"
  shows "\<exists>c. length c = n \<and> h = c @ t \<and> out = hdr @ c"
proof -
  from assms have "length out = length hdr + n" and "hdr @ h = out @ t"
    by auto
  then obtain c where "out = hdr @ c" and "h = c @ t"
    by (auto simp: append_eq_append_conv2)
  with \<open>length out = length hdr + n\<close> show ?thesis by auto
qed

lemma CBS_get_any_asn1_element_sound:
  assumes "CBS_get_any_asn1_element s = (Some el, t)"
  shows "\<exists>c. length c < 2 ^ 32 \<and> s = der_element (el_tag el) c @ t \<and> el = der_result (el_tag el) c"
proof -
  obtain r h1 where r: "parse_asn1_tag s = (r, h1)"
    by (cases "parse_asn1_tag s") auto
  with assms obtain tag lb h where tag: "parse_asn1_tag s = (Some tag, lb # h)"
    by (cases r; cases h1) (auto simp: CBS_get_any_asn1_element_def element_needs_length element_needs_tag)
  then have s: "s = der_tag tag @ lb # h"
    by (rule tag_codec.enc_get [THEN conjunct2])
  show ?thesis
  proof (cases "unat lb < 128")
    case True
    let ?hdr = "der_tag tag @ [lb]"
    from True assms tag have "CBS_get_bytes (length ?hdr + unat lb) (?hdr @ h) = (Some (el_out el), t)"
      and el: "el_tag el = tag" "el_header_len el = length ?hdr" "\<not> el_ber_found el"
      by (auto simp: CBS_get_any_asn1_element_def element_short s simp del: CBS_get_bytes_Some_iff)
    from der_split [OF this(1)] obtain c where c: "length c = unat lb" "h = c @ t" "el_out el = ?hdr @ c"
      by blast
    have hdr: "der_header tag (length c) = ?hdr"
      using True c by (simp add: der_header_def der_length_def)
    have "length c < 2 ^ 32"
      using c True by simp
    with s c el hdr show ?thesis
      by (intro exI [of _ c]) (auto simp: der_element_def der_result_def)
  next
    case False
    define k where "k = unat lb mod 128"
    define x where "x = take k h"
    let ?hdr = "der_tag tag @ lb # x"
    from False assms tag k_def have ok: "k \<noteq> 0" "k \<le> 4" "k \<le> length h" "128 \<le> be_nat x" "256 ^ (k - 1) \<le> be_nat x"
      by (auto simp: CBS_get_any_asn1_element_def element_long x_def not_less simp del: CBS_get_bytes_Some_iff
          split: if_splits)
    then have x: "length x = k" "h = x @ drop k h"
      by (simp_all add: x_def)
    have len: "length ?hdr + be_nat x = Suc (length (der_tag tag)) + k + be_nat x"
      and s': "s = ?hdr @ drop k h"
      using x s by simp_all
    from False ok have el: "cbs_get_any_asn1_element False s =
      pmap (\<lambda>out. \<lparr>el_out = out, el_tag = tag, el_header_len = Suc (length (der_tag tag)) + k, el_ber_found = False\<rparr>)
       (CBS_get_bytes (Suc (length (der_tag tag)) + k + be_nat x)) s"
      using element_long [OF tag _ k_def] unfolding x_def [symmetric] by simp
    then have "CBS_get_bytes (length ?hdr + be_nat x) s = (Some (el_out el), t)"
      and el: "el_tag el = tag" "el_header_len el = length ?hdr" "\<not> el_ber_found el"
      using assms x by (auto simp: CBS_get_any_asn1_element_def len simp del: CBS_get_bytes_Some_iff)
    then have "CBS_get_bytes (length ?hdr + be_nat x) (?hdr @ drop k h) = (Some (el_out el), t)"
      using s' by (simp only:)
    from der_split [OF this(1)] obtain c where c: "length c = be_nat x" "drop k h = c @ t" "el_out el = ?hdr @ c"
      by blast
    have "lb = more_byte k"
      using False more_byte_unat [of lb] by (simp add: k_def)
    then have hdr: "der_header tag (length c) = ?hdr"
      using der_length_long [of x] ok x c by (simp add: der_header_def)
    have "length c < 2 ^ 32"
      using c x ok be_nat_less_2_32 [of x] by simp
    with s c el hdr x show ?thesis
      by (intro exI [of _ c]) (auto simp: der_element_def der_result_def)
  qed
qed

lemma CBS_get_any_asn1_element_complete:
  assumes "length c < 2 ^ 32"
  shows "CBS_get_any_asn1_element (der_element tag c @ t) = (Some (der_result tag c), t)"
proof -
  let ?n = "length c"
  have elem: "der_element tag c @ t = der_tag tag @ der_length ?n @ c @ t"
    by (simp add: der_element_def der_header_def)
  have read: "CBS_get_bytes (length (der_header tag ?n) + ?n) (der_element tag c @ t) =
      (Some (der_element tag c), t)"
    by (simp add: der_element_def)
  show ?thesis
  proof (cases "?n < 128")
    case True
    then have lb: "unat (word_of_nat ?n :: u8) = ?n"
      by (simp only: unat_u8_of_nat) simp
    have tag: "parse_asn1_tag (der_element tag c @ t) = (Some tag, word_of_nat ?n # c @ t)"
      using True parse_asn1_tag_der_tag by (simp add: elem der_length_def)
    have "length (der_header tag ?n) = Suc (length (der_tag tag))"
      using True by (simp add: der_header_def der_length_def)
    with read True lb show ?thesis
      unfolding CBS_get_any_asn1_element_def
      by (subst element_short [OF tag]) (auto simp: der_result_def)
  next
    case False
    define k where "k = length_octets ?n"
    have k: "1 \<le> k" "k \<le> 4" "256 ^ (k - 1) \<le> ?n" "?n < 256 ^ k"
      using length_octets_range [of ?n] length_octets_bounds [of ?n] False assms by (auto simp: k_def)
    have lb: "unat (more_byte k) = k + 128"
      using k by (intro unat_more_byte) simp
    let ?h = "be_bytes k ?n @ c @ t"
    have tag: "parse_asn1_tag (der_element tag c @ t) = (Some tag, more_byte k # ?h)"
      using False parse_asn1_tag_der_tag by (simp add: elem der_length_def k_def)
    have be: "be_nat (take k ?h) = ?n"
      using k by simp
    have hdr: "length (der_header tag ?n) = Suc (length (der_tag tag)) + k"
      using False by (simp add: der_header_def der_length_def k_def)
    have mod: "k = unat (more_byte k) mod 128"
      using k by (simp add: lb)
    show ?thesis
      unfolding CBS_get_any_asn1_element_def element_long [OF tag _ mod, unfolded lb be, simplified]
      using k False read by (simp add: der_result_def hdr)
  qed
qed

lemma CBS_get_any_asn1_element_Some_iff:
  "CBS_get_any_asn1_element s = (Some el, t) \<longleftrightarrow>
    (\<exists>c. length c < 2 ^ 32 \<and> s = der_element (el_tag el) c @ t \<and> el = der_result (el_tag el) c)"
  using CBS_get_any_asn1_element_sound CBS_get_any_asn1_element_complete by metis

lemma skip_header_der_result [simp]: "skip_header (der_result tag c) s = (Some c, s)"
proof -
  have "CBS_skip (length (der_header tag (length c))) (der_element tag c) = (Some (), c)"
    by (simp add: der_element_def)
  then show ?thesis by (simp add: skip_header_def der_result_def del: CBS_skip_Some_iff)
qed

lemma CBS_get_any_asn1_Some_iff:
  "CBS_get_any_asn1 s = (Some (c, tag), t) \<longleftrightarrow> length c < 2 ^ 32 \<and> s = der_element tag c @ t"
proof
  assume "CBS_get_any_asn1 s = (Some (c, tag), t)"
  then obtain el s' where el: "CBS_get_any_asn1_element s = (Some el, s')"
    and skip: "skip_header el s' = (Some c, t)" "tag = el_tag el"
    by (auto simp: CBS_get_any_asn1_def pbind_Some_iff)
  from CBS_get_any_asn1_element_sound [OF el] obtain c' where "length c' < 2 ^ 32"
    "s = der_element (el_tag el) c' @ s'" and r: "el = der_result (el_tag el) c'"
    by blast
  moreover from skip have "c' = c" and "s' = t"
    by (subst (asm) r, simp)+
  ultimately show "length c < 2 ^ 32 \<and> s = der_element tag c @ t"
    using skip by simp
next
  assume "length c < 2 ^ 32 \<and> s = der_element tag c @ t"
  then show "CBS_get_any_asn1 s = (Some (c, tag), t)"
    by (simp add: CBS_get_any_asn1_def CBS_get_any_asn1_element_complete) (simp add: der_result_def)
qed

lemma CBS_get_asn1_Some_iff:
  "CBS_get_asn1 tag s = (Some c, t) \<longleftrightarrow> length c < 2 ^ 32 \<and> s = der_element tag c @ t"
proof -
  have "CBS_get_asn1 tag s = (Some c, t) \<longleftrightarrow> CBS_get_any_asn1 s = (Some (c, tag), t)"
    by (auto simp: CBS_get_asn1_def cbs_get_asn1_def CBS_get_any_asn1_def pbind_Some_iff split: if_splits)
  then show ?thesis by (simp only: CBS_get_any_asn1_Some_iff)
qed

lemma CBS_get_asn1_element_Some_iff:
  "CBS_get_asn1_element tag s = (Some e, t) \<longleftrightarrow>
    (\<exists>c. length c < 2 ^ 32 \<and> e = der_element tag c \<and> s = e @ t)"
proof -
  have "CBS_get_asn1_element tag s = (Some e, t) \<longleftrightarrow>
    (\<exists>el. CBS_get_any_asn1_element s = (Some el, t) \<and> el_tag el = tag \<and> el_out el = e)"
    by (auto simp: CBS_get_asn1_element_def cbs_get_asn1_def pbind_Some_iff split: if_splits)
  also have "\<dots> \<longleftrightarrow> (\<exists>c. length c < 2 ^ 32 \<and> e = der_element tag c \<and> s = e @ t)"
  proof
    assume "\<exists>el. CBS_get_any_asn1_element s = (Some el, t) \<and> el_tag el = tag \<and> el_out el = e"
    then obtain el c where "length c < 2 ^ 32" "s = der_element tag c @ t" "el = der_result tag c" "el_out el = e"
      by (auto simp only: CBS_get_any_asn1_element_Some_iff)
    then show "\<exists>c. length c < 2 ^ 32 \<and> e = der_element tag c \<and> s = e @ t"
      by (auto simp: der_result_def)
  next
    assume "\<exists>c. length c < 2 ^ 32 \<and> e = der_element tag c \<and> s = e @ t"
    then obtain c where c: "length c < 2 ^ 32" "e = der_element tag c" "s = e @ t" by blast
    then have "CBS_get_any_asn1_element s = (Some (der_result tag c), t)"
      by (simp add: CBS_get_any_asn1_element_complete)
    with c show "\<exists>el. CBS_get_any_asn1_element s = (Some el, t) \<and> el_tag el = tag \<and> el_out el = e"
      by (intro exI [of _ "der_result tag c"]) (simp add: der_result_def)
  qed
  finally show ?thesis .
qed

lemma cbs_get_any_asn1_element_prefix: "cbs_get_any_asn1_element ber s = (r, t) \<Longrightarrow> \<exists>p. s = p @ t"
proof -
  have step: "\<exists>p. s = p @ t" if "pmap f (CBS_get_bytes n) s = (r, t)" for f :: "cbs \<Rightarrow> asn1_element" and n
    by (rule reads_prefix_pmap [OF CBS_get_bytes_prefix that])
  assume "cbs_get_any_asn1_element ber s = (r, t)"
  then show ?thesis
    unfolding cbs_get_any_asn1_element_def Let_def
    by (auto split: prod.splits option.splits if_splits dest: step)
qed

lemma CBS_get_any_asn1_prefix:
  assumes "CBS_get_any_asn1 s = (r, t)" shows "\<exists>p. s = p @ t"
proof -
  have skip: "\<exists>p. s = p @ t" if "skip_header el s = (x, t)" for el s x t
    using that by (auto simp: skip_header_def split: prod.splits option.splits)
  show ?thesis
  proof (rule reads_prefix_pbind [OF cbs_get_any_asn1_element_prefix])
    show "pbind (cbs_get_any_asn1_element False) (\<lambda>el. pmap (\<lambda>c. (c, el_tag el)) (skip_header el)) s = (r, t)"
      using assms by (simp only: CBS_get_any_asn1_def CBS_get_any_asn1_element_def)
    show "\<exists>p. u = p @ v" if "pmap (\<lambda>c. (c, el_tag el)) (skip_header el) u = (q, v)" for el u q v
      by (rule reads_prefix_pmap [OF skip that])
  qed
qed

interpretation der_codec: cbs_canonical_codec CBS_get_any_asn1
  "\<lambda>(c, tag). der_element tag c" "\<lambda>(c, tag). length c < 2 ^ 32"
proof unfold_locales
  fix s t and x :: "cbs \<times> u32" assume "CBS_get_any_asn1 s = (Some x, t)"
  then have "s = der_element (snd x) (fst x) @ t"
    by (cases x) (simp only: CBS_get_any_asn1_Some_iff fst_conv snd_conv)
  then show "t \<noteq> s" by (auto simp: der_element_def der_header_def der_tag_def Let_def split: if_splits)
qed (auto simp: CBS_get_any_asn1_Some_iff dest: CBS_get_any_asn1_prefix)

section \<open>Properties\<close>

text \<open>
  C21: The DER readers accept exactly the canonical encodings (minimal tag, minimal
  definite length of at most four octets) and give back the contents, the element and the tag;
  any other input is refused.
\<close>

theorem der_readers_exact:
  "(CBS_get_any_asn1 s = (Some (c, tag), t) \<longleftrightarrow> length c < 2 ^ 32 \<and> s = der_element tag c @ t) \<and>
    (CBS_get_asn1 tag s = (Some c, t) \<longleftrightarrow> length c < 2 ^ 32 \<and> s = der_element tag c @ t) \<and>
    (CBS_get_asn1_element tag s = (Some e, t) \<longleftrightarrow>
    (\<exists>c. length c < 2 ^ 32 \<and> e = der_element tag c \<and> s = e @ t))"
  by (intro conjI; rule CBS_get_any_asn1_Some_iff CBS_get_asn1_Some_iff CBS_get_asn1_element_Some_iff)

text \<open>
  C28: Tags and base-128 integers have one encoding each: the parsers accept exactly what
  the canonical encodings are and lose nothing of the value.
\<close>

theorem der_tag_exact:
  "(parse_asn1_tag s = (Some tag, t) \<longleftrightarrow> s = der_tag tag @ t) \<and>
    (parse_base128_integer s = (Some v, t) \<longleftrightarrow> s = base128_bytes (unat v) @ t)"
  using tag_codec.get_Some_iff base128_codec.get_Some_iff by simp_all

text \<open>
  Readers only move forward: whether it succeeds or not, DER or BER, a reader leaves a suffix of
  its input, so no read goes past the end of the buffer.
\<close>

lemma readers_leave_suffix:
  "(suffix (snd (cbs_get n s)) s) \<and>
    (suffix (snd (CBS_get_u8 s)) s) \<and>
    (suffix (snd (CBS_get_u16 s)) s) \<and>
    (suffix (snd (CBS_get_u24 s)) s) \<and>
    (suffix (snd (CBS_get_u32 s)) s) \<and>
    (suffix (snd (CBS_get_u64 s)) s) \<and>
    (suffix (snd (parse_base128_integer s)) s) \<and>
    (suffix (snd (parse_asn1_tag s)) s) \<and>
    (suffix (snd (cbs_get_any_asn1_element ber s)) s) \<and>
    (suffix (snd (CBS_get_any_asn1 s)) s)"
  unfolding suffix_def
  using cbs_get_prefix CBS_get_u8_prefix CBS_get_u16_prefix CBS_get_u24_prefix CBS_get_u32_prefix
    CBS_get_u64_prefix parse_asn1_tag_prefix cbs_get_any_asn1_element_prefix CBS_get_any_asn1_prefix
    base128_codec.reads_prefix
  by (intro conjI; metis prod.collapse)

text \<open>The length-prefixed readers take exactly the block its big-endian prefix announces, or nothing.\<close>

lemma length_prefixed_exact:
  "(CBS_get_u8_length_prefixed s = (Some x, t) \<longleftrightarrow> (\<exists>b. unat b = length x \<and> s = b # x @ t)) \<and>
    (CBS_get_u16_length_prefixed s = (Some x, t) \<longleftrightarrow> (\<exists>h. length h = 2 \<and> be_nat h = length x \<and> s = h @ x @ t)) \<and>
    (CBS_get_u24_length_prefixed s = (Some x, t) \<longleftrightarrow> (\<exists>h. length h = 3 \<and> be_nat h = length x \<and> s = h @ x @ t))"
  by (auto simp: CBS_get_u8_length_prefixed_def CBS_get_u16_length_prefixed_def CBS_get_u24_length_prefixed_def
      cbs_get_length_prefixed_Some_iff length_Suc_conv)

end
