(* ===== verification/Qsort.thy ===== *)
theory Qsort
  imports Prelude "HOL-Library.Multiset"
begin

text \<open>
  The C library's \<open>qsort\<close>, as the code relies on it: a rearrangement that is in order for
  the comparison function. The contract of a comparison function is the locale
  \<open>comparator\<close>; what the library's callers (SET OF in \<open>Cbb\<close>, the stacks in \<open>Stack\<close>) need of
  sorting and of searching a sorted array is proved in it.
\<close>

fun qsort_insert :: "('a \<Rightarrow> 'a \<Rightarrow> int) \<Rightarrow> 'a \<Rightarrow> 'a list \<Rightarrow> 'a list" where
  "qsort_insert cmp x [] = [x]"
| "qsort_insert cmp x (y # ys) = (if cmp x y \<le> 0 then x # y # ys else y # qsort_insert cmp x ys)"

definition qsort :: "('a \<Rightarrow> 'a \<Rightarrow> int) \<Rightarrow> 'a list \<Rightarrow> 'a list" where
  "qsort cmp xs = foldr (qsort_insert cmp) xs []"

lemma mset_qsort [simp]: "mset (qsort cmp xs) = mset xs"
proof -
  have "mset (qsort_insert cmp x ys) = add_mset x (mset ys)" for x ys
    by (induction ys) auto
  then show ?thesis
    by (induction xs) (auto simp: qsort_def)
qed

lemma set_qsort [simp]: "set (qsort cmp xs) = set xs"
  using mset_qsort by (rule mset_eq_setD)

lemma length_qsort [simp]: "length (qsort cmp xs) = length xs"
  using mset_qsort by (rule mset_eq_length)

lemma qsort_short: "length xs < 2 \<Longrightarrow> qsort cmp xs = xs"
  by (cases xs; cases "tl xs") (auto simp: qsort_def)

definition in_order :: "('a \<Rightarrow> 'a \<Rightarrow> int) \<Rightarrow> 'a list \<Rightarrow> bool" where
  "in_order cmp = sorted_wrt (\<lambda>a b. cmp a b \<le> 0)"

locale comparator =
  fixes cmp :: "'a \<Rightarrow> 'a \<Rightarrow> int"
  assumes flip: "cmp a b < 0 \<longleftrightarrow> 0 < cmp b a"
    and le_trans: "cmp a b \<le> 0 \<Longrightarrow> cmp b c \<le> 0 \<Longrightarrow> cmp a c \<le> 0"
begin

lemma flip_le: "cmp a b \<le> 0 \<longleftrightarrow> 0 \<le> cmp b a"
  using flip [of b a] by auto

lemma le_total: "cmp a b \<le> 0 \<or> cmp b a \<le> 0"
  using flip [of b a] by auto

lemma in_order_insert: "in_order cmp ys \<Longrightarrow> in_order cmp (qsort_insert cmp x ys)"
proof (induction ys)
  case Nil
  then show ?case by (simp add: in_order_def)
next
  case (Cons y ys)
  have set: "set (qsort_insert cmp x zs) = insert x (set zs)" for zs
    by (induction zs) auto
  from Cons show ?case
    using le_total [of x y] by (auto simp: in_order_def set intro: le_trans)
qed

lemma qsort_in_order: "in_order cmp (qsort cmp xs)"
proof (induction xs)
  case Nil
  show ?case by (simp add: qsort_def in_order_def)
next
  case (Cons x xs)
  from in_order_insert [OF this, of x] show ?case by (simp add: qsort_def)
qed

text \<open>In a sorted array the signs of the comparisons with a key go from positive to negative.\<close>

lemma signs_decrease:
  assumes "in_order cmp xs" and "i \<le> j" and "j < length xs"
  shows "cmp p (xs ! i) \<le> 0 \<Longrightarrow> cmp p (xs ! j) \<le> 0" and "cmp p (xs ! i) < 0 \<Longrightarrow> cmp p (xs ! j) < 0"
proof -
  have le: "cmp (xs ! i) (xs ! j) \<le> 0"
  proof (cases "i = j")
    case True
    then show ?thesis using le_total [of "xs ! i" "xs ! i"] by simp
  next
    case False
    with assms(2) have "i < j" by simp
    then show ?thesis
      by (rule sorted_wrt_nth_less [OF assms(1) [unfolded in_order_def] _ assms(3)])
  qed
  show "cmp p (xs ! i) \<le> 0 \<Longrightarrow> cmp p (xs ! j) \<le> 0"
    using le le_trans by blast
  show "cmp p (xs ! i) < 0 \<Longrightarrow> cmp p (xs ! j) < 0"
  proof (rule ccontr)
    assume "cmp p (xs ! i) < 0" and "\<not> cmp p (xs ! j) < 0"
    then have "cmp (xs ! j) p \<le> 0"
      using flip_le [of "xs ! j" p] by simp
    with le have "cmp (xs ! i) p \<le> 0"
      by (rule le_trans)
    with \<open>cmp p (xs ! i) < 0\<close> flip [of p "xs ! i"] show False by simp
  qed
qed

end

end
