(* ===== verification/Cbb.thy ===== *)
theory Cbb
  imports Der Qsort
begin

text \<open>
  \<open>crypto/bytestring/cbb.c\<close>: the builder every wire format is written with, and
  \<open>CBB_finish_i2d\<close> of \<open>asn1_compat.c\<close>. All the \<open>CBB\<close>s that write to one buffer form a
  chain, each the pending child of the one before it; the state is the shared
  \<open>cbb_buffer_st\<close> and that chain, outermost first, and a \<open>CBB *\<close> is its position in
  the chain. A position past the end is a \<open>CBB\<close> whose \<open>base\<close> the code has set to NULL.
  (The child of a child that \<open>CBB_discard_child\<close> discards keeps a stale \<open>base\<close> in C and
  must not be used any more; here it is closed with its parent.)

  \<open>cbb_buf\<close> holds the \<open>len\<close> valid bytes. Where the C code hands out uninitialised
  space the function takes the bytes the caller writes there.
\<close>

section \<open>State\<close>

record cbb_buffer_st =
  cbb_buf :: "u8 list"
  cbb_cap :: nat
  cbb_can_resize :: bool
  cbb_error :: bool

record cbb_frame =
  fr_offset :: nat
  fr_pending_len_len :: nat
  fr_pending_is_asn1 :: bool

record cbb =
  cbb_base :: cbb_buffer_st
  cbb_frames :: "cbb_frame list"

abbreviation base_len :: "cbb_buffer_st \<Rightarrow> nat" where
  "base_len b \<equiv> length (cbb_buf b)"

definition sizeof_cbb_buffer_st :: nat where "sizeof_cbb_buffer_st = 32"
definition sizeof_CBS :: nat where "sizeof_CBS = 16"

definition CBB_zero :: cbb where
  "CBB_zero = \<lparr>cbb_base = \<lparr>cbb_buf = [], cbb_cap = 0, cbb_can_resize = False, cbb_error = False\<rparr>,
     cbb_frames = []\<rparr>"

definition cbb_init :: "(nat \<Rightarrow> bool) \<Rightarrow> nat \<Rightarrow> cbb option" where
  "cbb_init sys cap =
     (if \<not> OPENSSL_malloc sys sizeof_cbb_buffer_st then None
      else Some \<lparr>cbb_base = \<lparr>cbb_buf = [], cbb_cap = cap, cbb_can_resize = True, cbb_error = False\<rparr>,
             cbb_frames = [\<lparr>fr_offset = 0, fr_pending_len_len = 0, fr_pending_is_asn1 = False\<rparr>]\<rparr>)"

definition CBB_init :: "(nat \<Rightarrow> bool) \<Rightarrow> nat \<Rightarrow> cbb option" where
  "CBB_init sys initial_capacity =
     (if initial_capacity > 0 \<and> \<not> OPENSSL_malloc sys initial_capacity then None
      else cbb_init sys initial_capacity)"

definition CBB_init_fixed :: "(nat \<Rightarrow> bool) \<Rightarrow> nat \<Rightarrow> cbb option" where
  "CBB_init_fixed sys len =
     map_option (cbb_base_update (cbb_can_resize_update (\<lambda>_. False))) (cbb_init sys len)"

definition CBB_cleanup :: "nat \<Rightarrow> cbb \<Rightarrow> cbb" where
  "CBB_cleanup h st = (if 0 < h then st else st\<lparr>cbb_frames := []\<rparr>)"

section \<open>The buffer\<close>

definition base_fail :: "(cbb_buffer_st, 'a) op" where
  "base_fail b = (None, b\<lparr>cbb_error := True\<rparr>)"

definition cbb_buffer_reserve :: "(nat \<Rightarrow> bool) \<Rightarrow> nat \<Rightarrow> (cbb_buffer_st, unit) op" where
  "cbb_buffer_reserve sys len b =
     (let newlen = size_add (base_len b) len in
      if newlen < base_len b then base_fail b
      else if newlen > cbb_cap b then
       (if \<not> cbb_can_resize b then base_fail b
        else
         let newcap = size_mul (cbb_cap b) 2;
             newcap = (if newcap < cbb_cap b \<or> newcap < newlen then newlen else newcap) in
         case OPENSSL_realloc sys (Some (cbb_buf b)) newcap of
           None \<Rightarrow> base_fail b
         | Some newbuf \<Rightarrow> (Some (), b\<lparr>cbb_buf := newbuf, cbb_cap := newcap\<rparr>))
      else (Some (), b))"

definition cbb_buffer_add :: "(nat \<Rightarrow> bool) \<Rightarrow> u8 list \<Rightarrow> (cbb_buffer_st, unit) op" where
  "cbb_buffer_add sys data =
     pbind (cbb_buffer_reserve sys (length data))
       (\<lambda>_ b. (Some (), b\<lparr>cbb_buf := cbb_buf b @ data\<rparr>))"

text \<open>The loop that stores \<open>v\<close>, least significant byte last, and what is left of \<open>v\<close>.\<close>

fun add_u_loop :: "nat \<Rightarrow> u64 \<Rightarrow> u8 list \<times> u64" where
  "add_u_loop 0 v = ([], v)"
| "add_u_loop (Suc i) v = (case add_u_loop i (drop_bit 8 v) of (bs, r) \<Rightarrow> (bs @ [ucast v], r))"

definition cbb_buffer_add_u :: "(nat \<Rightarrow> bool) \<Rightarrow> u64 \<Rightarrow> nat \<Rightarrow> (cbb_buffer_st, unit) op" where
  "cbb_buffer_add_u sys v len_len =
     (if len_len = 0 then pret ()
      else case add_u_loop len_len v of (bs, r) \<Rightarrow>
        pbind (cbb_buffer_add sys bs) (\<lambda>_. if r \<noteq> 0 then base_fail else pret ()))"

section \<open>Flushing\<close>

text \<open>The number of length bytes, the first of them, and what the others encode.\<close>

definition asn1_length_form :: "nat \<Rightarrow> (nat \<times> u8 \<times> nat) option" where
  "asn1_length_form len =
     (if len > 0xfffffffe then None
      else if len > 0xffffff then Some (5, 0x80 OR 4, len)
      else if len > 0xffff then Some (4, 0x80 OR 3, len)
      else if len > 0xff then Some (3, 0x80 OR 2, len)
      else if len > 0x7f then Some (2, 0x80 OR 1, len)
      else Some (1, word_of_nat len, 0))"

fun put_length_loop :: "nat \<Rightarrow> nat \<Rightarrow> nat \<Rightarrow> u8 list \<Rightarrow> nat \<times> u8 list" where
  "put_length_loop off 0 len buf = (len, buf)"
| "put_length_loop off (Suc i) len buf =
     put_length_loop off i (len div 256) (buf[off + i := word_of_nat len])"

text \<open>Writing the pending prefix of \<open>child\<close>, whose contents start at \<open>child_start\<close>.\<close>

definition cbb_put_length :: "cbb_frame \<Rightarrow> nat \<Rightarrow> (cbb_buffer_st, unit) op" where
  "cbb_put_length child len b =
     (case put_length_loop (fr_offset child) (fr_pending_len_len child) len (cbb_buf b) of
        (r, buf) \<Rightarrow> if r \<noteq> 0 then base_fail (b\<lparr>cbb_buf := buf\<rparr>) else (Some (), b\<lparr>cbb_buf := buf\<rparr>))"

definition cbb_make_room :: "(nat \<Rightarrow> bool) \<Rightarrow> nat \<Rightarrow> nat \<Rightarrow> nat \<Rightarrow> (cbb_buffer_st, unit) op" where
  "cbb_make_room sys child_start len extra_bytes =
     pbind (cbb_buffer_add sys (replicate extra_bytes 0))
       (\<lambda>_ b. (Some (), b\<lparr>cbb_buf := take (child_start + extra_bytes) (cbb_buf b) @
                           take len (drop child_start (cbb_buf b))\<rparr>))"

definition cbb_flush_child :: "(nat \<Rightarrow> bool) \<Rightarrow> cbb_frame \<Rightarrow> nat \<Rightarrow> (cbb_buffer_st, unit) op" where
  "cbb_flush_child sys child child_start b =
     (let len = base_len b - child_start in
      if fr_pending_is_asn1 child then
        (case asn1_length_form len of
           None \<Rightarrow> base_fail b
         | Some (len_len, initial_length_byte, len') \<Rightarrow>
             pbind (if len_len \<noteq> 1 then cbb_make_room sys child_start len (len_len - 1) else pret ())
               (\<lambda>_ b. cbb_put_length
                  (child\<lparr>fr_offset := fr_offset child + 1, fr_pending_len_len := len_len - 1\<rparr>) len'
                  (b\<lparr>cbb_buf := (cbb_buf b)[fr_offset child := initial_length_byte]\<rparr>)) b)
      else cbb_put_length child len b)"

text \<open>\<open>CBB_flush\<close> along the chain: the state of the chain it leaves, and of the buffer.\<close>

fun cbb_flush_chain :: "(nat \<Rightarrow> bool) \<Rightarrow> cbb_frame list \<Rightarrow> cbb_buffer_st \<Rightarrow>
    bool \<times> cbb_frame list \<times> cbb_buffer_st" where
  "cbb_flush_chain sys [] b = (\<not> cbb_error b, [], b)"
| "cbb_flush_chain sys (child # rest) b =
     (if cbb_error b then (False, child # rest, b)
      else if fr_pending_len_len child = 0 then (True, child # rest, b)
      else
       let child_start = size_add (fr_offset child) (fr_pending_len_len child) in
       case cbb_flush_chain sys rest b of
         (ok, rest', b) \<Rightarrow>
           if \<not> ok \<or> child_start < fr_offset child \<or> base_len b < child_start
           then (False, child # rest', b\<lparr>cbb_error := True\<rparr>)
           else case cbb_flush_child sys child child_start b of
               (None, b) \<Rightarrow> (False, child # rest', b\<lparr>cbb_error := True\<rparr>)
             | (Some _, b) \<Rightarrow> (True, [], b))"

definition CBB_flush :: "(nat \<Rightarrow> bool) \<Rightarrow> nat \<Rightarrow> (cbb, unit) op" where
  "CBB_flush sys h st =
     (if length (cbb_frames st) \<le> h then (None, st)
      else case cbb_flush_chain sys (drop (Suc h) (cbb_frames st)) (cbb_base st) of
        (ok, rest, b) \<Rightarrow>
          (if ok then Some () else None,
           st\<lparr>cbb_base := b, cbb_frames := take (Suc h) (cbb_frames st) @ rest\<rparr>))"

text \<open>An operation of the buffer, on \<open>cbb->base\<close>.\<close>

definition on_base :: "(cbb_buffer_st, 'a) op \<Rightarrow> (cbb, 'a) op" where
  "on_base f st = (case f (cbb_base st) of (r, b) \<Rightarrow> (r, st\<lparr>cbb_base := b\<rparr>))"

definition CBB_data :: "nat \<Rightarrow> cbb \<Rightarrow> u8 list" where
  "CBB_data h st =
     drop (fr_offset (cbb_frames st ! h) + fr_pending_len_len (cbb_frames st ! h)) (cbb_buf (cbb_base st))"

definition CBB_len :: "nat \<Rightarrow> cbb \<Rightarrow> nat" where
  "CBB_len h st = base_len (cbb_base st) - fr_offset (cbb_frames st ! h)
     - fr_pending_len_len (cbb_frames st ! h)"

text \<open>The flags say whether \<open>out_data\<close> and \<open>out_len\<close> are given; the result is the bytes.\<close>

definition CBB_finish :: "(nat \<Rightarrow> bool) \<Rightarrow> bool \<Rightarrow> bool \<Rightarrow> nat \<Rightarrow> (cbb, u8 list) op" where
  "CBB_finish sys out_data out_len h =
     (if 0 < h then pfail
      else pbind (CBB_flush sys h) (\<lambda>_ st.
        if cbb_can_resize (cbb_base st) \<and> (\<not> out_data \<or> \<not> out_len) then (None, st)
        else (Some (cbb_buf (cbb_base st)), CBB_cleanup h st)))"

text \<open>
  \<open>CBB_finish_i2d\<close>: \<open>outp\<close> is NULL (\<open>None\<close>), points to NULL (\<open>Some None\<close>), or to a caller's
  buffer; the result is the length and what is left in the output: the new block or the
  buffer with the encoding copied in and the position after it.
\<close>

datatype i2d_out = I2d_none | I2d_block "u8 list" | I2d_copied "u8 list" nat

definition CBB_finish_i2d ::
  "(nat \<Rightarrow> bool) \<Rightarrow> u8 list option option \<Rightarrow> (cbb, nat \<times> i2d_out) op" where
  "CBB_finish_i2d sys outp st =
     (case CBB_finish sys True True 0 st of
        (None, st) \<Rightarrow> (None, CBB_cleanup 0 st)
      | (Some der, st) \<Rightarrow>
          if length der > int_max then (None, st)
          else (Some (length der, case outp of None \<Rightarrow> I2d_none
             | Some None \<Rightarrow> I2d_block der
             | Some (Some dst) \<Rightarrow> I2d_copied (der @ drop (length der) dst) (length der)), st))"

section \<open>Adding bytes and integers\<close>

definition cbb_add_u :: "(nat \<Rightarrow> bool) \<Rightarrow> nat \<Rightarrow> u64 \<Rightarrow> nat \<Rightarrow> (cbb, unit) op" where
  "cbb_add_u sys h v n = pbind (CBB_flush sys h) (\<lambda>_. on_base (cbb_buffer_add_u sys v n))"

definition CBB_add_u8 :: "(nat \<Rightarrow> bool) \<Rightarrow> nat \<Rightarrow> u8 \<Rightarrow> (cbb, unit) op" where
  "CBB_add_u8 sys h value = cbb_add_u sys h (ucast value) 1"

definition CBB_add_u16 :: "(nat \<Rightarrow> bool) \<Rightarrow> nat \<Rightarrow> u16 \<Rightarrow> (cbb, unit) op" where
  "CBB_add_u16 sys h value = cbb_add_u sys h (ucast value) 2"

definition CBB_add_u16le :: "(nat \<Rightarrow> bool) \<Rightarrow> nat \<Rightarrow> u16 \<Rightarrow> (cbb, unit) op" where
  "CBB_add_u16le sys h value = CBB_add_u16 sys h (CRYPTO_bswap2 value)"

definition CBB_add_u24 :: "(nat \<Rightarrow> bool) \<Rightarrow> nat \<Rightarrow> u32 \<Rightarrow> (cbb, unit) op" where
  "CBB_add_u24 sys h value = cbb_add_u sys h (ucast value) 3"

definition CBB_add_u32 :: "(nat \<Rightarrow> bool) \<Rightarrow> nat \<Rightarrow> u32 \<Rightarrow> (cbb, unit) op" where
  "CBB_add_u32 sys h value = cbb_add_u sys h (ucast value) 4"

definition CBB_add_u32le :: "(nat \<Rightarrow> bool) \<Rightarrow> nat \<Rightarrow> u32 \<Rightarrow> (cbb, unit) op" where
  "CBB_add_u32le sys h value = CBB_add_u32 sys h (CRYPTO_bswap4 value)"

definition CBB_add_u64 :: "(nat \<Rightarrow> bool) \<Rightarrow> nat \<Rightarrow> u64 \<Rightarrow> (cbb, unit) op" where
  "CBB_add_u64 sys h value = cbb_add_u sys h value 8"

definition CBB_add_u64le :: "(nat \<Rightarrow> bool) \<Rightarrow> nat \<Rightarrow> u64 \<Rightarrow> (cbb, unit) op" where
  "CBB_add_u64le sys h value = CBB_add_u64 sys h (CRYPTO_bswap8 value)"

definition CBB_add_space :: "(nat \<Rightarrow> bool) \<Rightarrow> nat \<Rightarrow> u8 list \<Rightarrow> (cbb, unit) op" where
  "CBB_add_space sys h written =
     pbind (CBB_flush sys h) (\<lambda>_. on_base (cbb_buffer_add sys written))"

definition CBB_add_bytes :: "(nat \<Rightarrow> bool) \<Rightarrow> nat \<Rightarrow> u8 list \<Rightarrow> (cbb, unit) op" where
  "CBB_add_bytes sys h data =
     pbind (CBB_flush sys h) (\<lambda>_. on_base (cbb_buffer_add sys data))"

definition CBB_add_zeros :: "(nat \<Rightarrow> bool) \<Rightarrow> nat \<Rightarrow> nat \<Rightarrow> (cbb, unit) op" where
  "CBB_add_zeros sys h len = CBB_add_space sys h (replicate len 0)"

definition CBB_reserve :: "(nat \<Rightarrow> bool) \<Rightarrow> nat \<Rightarrow> nat \<Rightarrow> (cbb, unit) op" where
  "CBB_reserve sys h len =
     pbind (CBB_flush sys h) (\<lambda>_. on_base (cbb_buffer_reserve sys len))"

definition CBB_did_write :: "nat \<Rightarrow> u8 list \<Rightarrow> (cbb, unit) op" where
  "CBB_did_write h written st =
     (let len = base_len (cbb_base st); newlen = size_add len (length written) in
      if length (cbb_frames st) \<le> h \<or> Suc h < length (cbb_frames st) \<or> newlen < len
         \<or> newlen > cbb_cap (cbb_base st)
      then (None, st)
      else (Some (), st\<lparr>cbb_base := (cbb_base st)\<lparr>cbb_buf := cbb_buf (cbb_base st) @ written\<rparr>\<rparr>))"

definition CBB_discard_child :: "nat \<Rightarrow> cbb \<Rightarrow> cbb" where
  "CBB_discard_child h st =
     (case drop (Suc h) (cbb_frames st) of
        [] \<Rightarrow> st
      | child # _ \<Rightarrow>
          st\<lparr>cbb_base := (cbb_base st)\<lparr>cbb_buf := take (fr_offset child) (cbb_buf (cbb_base st))\<rparr>,
             cbb_frames := take (Suc h) (cbb_frames st)\<rparr>)"

section \<open>Opening children\<close>

definition cbb_push :: "cbb_frame \<Rightarrow> (cbb, unit) op" where
  "cbb_push child st = (Some (), st\<lparr>cbb_frames := cbb_frames st @ [child]\<rparr>)"

definition cbb_add_length_prefixed :: "(nat \<Rightarrow> bool) \<Rightarrow> nat \<Rightarrow> nat \<Rightarrow> (cbb, unit) op" where
  "cbb_add_length_prefixed sys h len_len =
     pbind (CBB_flush sys h) (\<lambda>_ st.
       let offset = base_len (cbb_base st) in
       pbind (on_base (cbb_buffer_add sys (replicate len_len 0))) (\<lambda>_.
         cbb_push \<lparr>fr_offset = offset, fr_pending_len_len = len_len, fr_pending_is_asn1 = False\<rparr>) st)"

definition CBB_add_u8_length_prefixed :: "(nat \<Rightarrow> bool) \<Rightarrow> nat \<Rightarrow> (cbb, unit) op" where
  "CBB_add_u8_length_prefixed sys h = cbb_add_length_prefixed sys h 1"

definition CBB_add_u16_length_prefixed :: "(nat \<Rightarrow> bool) \<Rightarrow> nat \<Rightarrow> (cbb, unit) op" where
  "CBB_add_u16_length_prefixed sys h = cbb_add_length_prefixed sys h 2"

definition CBB_add_u24_length_prefixed :: "(nat \<Rightarrow> bool) \<Rightarrow> nat \<Rightarrow> (cbb, unit) op" where
  "CBB_add_u24_length_prefixed sys h = cbb_add_length_prefixed sys h 3"

text \<open>The number of base-128 digits, and the loop that adds them from the top.\<close>

function base128_len :: "u64 \<Rightarrow> nat" where
  "base128_len copy = (if copy > 0 then Suc (base128_len (drop_bit 7 copy)) else 0)"
  by pat_completeness auto

termination
proof (relation "measure unat")
  fix copy :: u64 assume "copy > 0"
  then have "0 < unat copy" by (simp add: unat_gt_0)
  then have "unat copy div 2 ^ 7 < unat copy" by (intro div_less_dividend) auto
  moreover have "unat (drop_bit 7 copy) = drop_bit 7 (unat copy)"
    by (rule unat_drop_bit_eq)
  ultimately show "(drop_bit 7 copy, copy) \<in> measure unat"
    by (simp only: in_measure drop_bit_eq_div)
qed simp

declare base128_len.simps [simp del]

definition base128_byte :: "u64 \<Rightarrow> nat \<Rightarrow> u8" where
  "base128_byte v i =
     (let byte = ucast (drop_bit (7 * i) v AND 0x7f) in if i \<noteq> 0 then byte OR 0x80 else byte)"

fun add_base128_loop :: "(nat \<Rightarrow> bool) \<Rightarrow> nat \<Rightarrow> u64 \<Rightarrow> nat \<Rightarrow> (cbb, unit) op" where
  "add_base128_loop sys h v 0 = pret ()"
| "add_base128_loop sys h v (Suc i) =
     pbind (CBB_add_u8 sys h (base128_byte v i)) (\<lambda>_. add_base128_loop sys h v i)"

definition add_base128_integer :: "(nat \<Rightarrow> bool) \<Rightarrow> nat \<Rightarrow> u64 \<Rightarrow> (cbb, unit) op" where
  "add_base128_integer sys h v =
     add_base128_loop sys h v (if base128_len v = 0 then 1 else base128_len v)"

definition CBB_add_asn1 :: "(nat \<Rightarrow> bool) \<Rightarrow> nat \<Rightarrow> u32 \<Rightarrow> (cbb, unit) op" where
  "CBB_add_asn1 sys h tag =
     pbind (CBB_flush sys h) (\<lambda>_.
       let tag_bits = ucast (drop_bit CBS_ASN1_TAG_SHIFT tag) AND 0xe0 :: u8;
           tag_number = tag AND CBS_ASN1_TAG_NUMBER_MASK in
       pbind (if tag_number \<ge> 0x1f
          then pbind (CBB_add_u8 sys h (tag_bits OR 0x1f))
                 (\<lambda>_. add_base128_integer sys h (ucast tag_number))
          else CBB_add_u8 sys h (tag_bits OR ucast tag_number)) (\<lambda>_ st.
         let offset = base_len (cbb_base st) in
         pbind (CBB_add_u8 sys h 0) (\<lambda>_.
           cbb_push \<lparr>fr_offset = offset, fr_pending_len_len = 1, fr_pending_is_asn1 = True\<rparr>) st))"

section \<open>ASN.1 values\<close>

fun asn1_uint64_bytes_loop :: "(nat \<Rightarrow> bool) \<Rightarrow> nat \<Rightarrow> u64 \<Rightarrow> bool \<Rightarrow> nat \<Rightarrow> (cbb, unit) op" where
  "asn1_uint64_bytes_loop sys child value started 0 =
     (if \<not> started then CBB_add_u8 sys child 0 else pret ())"
| "asn1_uint64_bytes_loop sys child value started (Suc m) =
     (let byte = ucast (drop_bit (8 * m) value AND 0xff) :: u8 in
      if \<not> started \<and> byte = 0 then asn1_uint64_bytes_loop sys child value started m
      else
       pbind (if \<not> started \<and> byte AND 0x80 \<noteq> 0 then CBB_add_u8 sys child 0 else pret ()) (\<lambda>_.
       pbind (CBB_add_u8 sys child byte) (\<lambda>_.
         asn1_uint64_bytes_loop sys child value True m)))"

definition CBB_add_asn1_uint64 :: "(nat \<Rightarrow> bool) \<Rightarrow> nat \<Rightarrow> u64 \<Rightarrow> (cbb, unit) op" where
  "CBB_add_asn1_uint64 sys h value =
     pbind (CBB_add_asn1 sys h CBS_ASN1_INTEGER) (\<lambda>_.
     pbind (asn1_uint64_bytes_loop sys (Suc h) value False 8) (\<lambda>_.
       CBB_flush sys h))"

fun int64_start :: "u8 list \<Rightarrow> nat \<Rightarrow> nat" where
  "int64_start bytes 0 = 0"
| "int64_start bytes (Suc s) =
     (if bytes ! Suc s = 0xff \<and> bytes ! s AND 0x80 \<noteq> 0 then int64_start bytes s else Suc s)"

text \<open>The loop adds \<open>bytes[i]\<close> for \<open>i\<close> from \<open>n - 1\<close> down to 0.\<close>

fun add_bytes_down :: "(nat \<Rightarrow> bool) \<Rightarrow> nat \<Rightarrow> u8 list \<Rightarrow> nat \<Rightarrow> (cbb, unit) op" where
  "add_bytes_down sys child bytes 0 = pret ()"
| "add_bytes_down sys child bytes (Suc i) =
     pbind (CBB_add_u8 sys child (bytes ! i)) (\<lambda>_. add_bytes_down sys child bytes i)"

text \<open>An \<open>int64_t\<close> is the 64-bit word with that signed reading.\<close>

definition CBB_add_asn1_int64 :: "(nat \<Rightarrow> bool) \<Rightarrow> nat \<Rightarrow> u64 \<Rightarrow> (cbb, unit) op" where
  "CBB_add_asn1_int64 sys h value =
     (if 0 \<le> sint value then CBB_add_asn1_uint64 sys h value
      else let bytes = rev (be_bytes 8 (unat value)); start = int64_start bytes 7 in
       pbind (CBB_add_asn1 sys h CBS_ASN1_INTEGER) (\<lambda>_.
       pbind (add_bytes_down sys (Suc h) bytes (Suc start)) (\<lambda>_.
         CBB_flush sys h)))"

definition CBB_add_asn1_octet_string :: "(nat \<Rightarrow> bool) \<Rightarrow> nat \<Rightarrow> u8 list \<Rightarrow> (cbb, unit) op" where
  "CBB_add_asn1_octet_string sys h data =
     pbind (CBB_add_asn1 sys h CBS_ASN1_OCTETSTRING) (\<lambda>_.
     pbind (CBB_add_bytes sys (Suc h) data) (\<lambda>_. CBB_flush sys h))"

definition CBB_add_asn1_bool :: "(nat \<Rightarrow> bool) \<Rightarrow> nat \<Rightarrow> int \<Rightarrow> (cbb, unit) op" where
  "CBB_add_asn1_bool sys h value =
     pbind (CBB_add_asn1 sys h CBS_ASN1_BOOLEAN) (\<lambda>_.
     pbind (CBB_add_u8 sys (Suc h) (if value \<noteq> 0 then 0xff else 0)) (\<lambda>_. CBB_flush sys h))"

section \<open>SET OF\<close>

definition compare_set_of_element :: "cbs \<Rightarrow> cbs \<Rightarrow> int" where
  "compare_set_of_element a b =
     (let a_len = CBS_len a; b_len = CBS_len b;
          min_len = (if a_len < b_len then a_len else b_len);
          ret = OPENSSL_memcmp (CBS_data a) (CBS_data b) min_len in
      if ret \<noteq> 0 then ret else if a_len = b_len then 0 else if a_len < b_len then -1 else 1)"

text \<open>The loop over the elements, whole; \<open>None\<close> when one of them does not parse.\<close>

definition set_of_elements :: "cbs \<Rightarrow> u8 list list option" where
  "set_of_elements s = read_all (length s) (pmap el_out CBS_get_any_asn1_element) s"

fun add_bytes_all :: "(nat \<Rightarrow> bool) \<Rightarrow> nat \<Rightarrow> u8 list list \<Rightarrow> (cbb, unit) op" where
  "add_bytes_all sys h [] = pret ()"
| "add_bytes_all sys h (x # xs) = pbind (CBB_add_bytes sys h x) (\<lambda>_. add_bytes_all sys h xs)"

definition CBB_flush_asn1_set_of :: "(nat \<Rightarrow> bool) \<Rightarrow> nat \<Rightarrow> (cbb, unit) op" where
  "CBB_flush_asn1_set_of sys h =
     pbind (CBB_flush sys h) (\<lambda>_ st.
       case set_of_elements (CBB_data h st) of
         None \<Rightarrow> (None, st)
       | Some children \<Rightarrow>
           let num_children = length children in
           if num_children < 2 then (Some (), st)
           else if num_children > (size_modulus - 1) div sizeof_CBS then (None, st)
           else if OPENSSL_memdup sys (CBB_data h st) (CBB_len h st) = None \<or>
                   \<not> OPENSSL_malloc sys (num_children * sizeof_CBS) then (None, st)
           else
             let start = fr_offset (cbb_frames st ! h) + fr_pending_len_len (cbb_frames st ! h) in
             add_bytes_all sys h (qsort compare_set_of_element children)
               (st\<lparr>cbb_base := (cbb_base st)\<lparr>cbb_buf := take start (cbb_buf (cbb_base st))\<rparr>\<rparr>))"

end
