(* ===== verification/Cbb_Spec.thy ===== *)
theory Cbb_Spec
  imports Cbb
begin

text \<open>
  What the builder of theory \<open>Cbb\<close> promises. Its abstract state is a stack of open
  levels, each the kind of length prefix it will get and the bytes added so far;
  closing a level appends its prefix and contents to the level around it. The concrete
  buffer, with its blank prefixes and offsets, represents such a stack, and every
  operation that succeeds does to the buffer what its specification does to the stack.
\<close>

section \<open>The abstract builder\<close>

datatype prefix = Plain nat | Asn1

type_synonym levels = "(prefix \<times> u8 list) list"

fun prefix_len :: "prefix \<Rightarrow> nat" where
  "prefix_len (Plain n) = n"
| "prefix_len Asn1 = 1"

fun close_prefix :: "prefix \<Rightarrow> u8 list \<Rightarrow> u8 list option" where
  "close_prefix (Plain n) c =
     (if length c < 256 ^ n then Some (be_bytes n (length c) @ c) else None)"
| "close_prefix Asn1 c =
     (if length c \<le> 0xfffffffe then Some (der_length (length c) @ c) else None)"

text \<open>Closing the levels, innermost first: what they add to the level outside them.\<close>

fun close_levels :: "levels \<Rightarrow> u8 list option" where
  "close_levels [] = Some []"
| "close_levels ((p, c) # ls) =
     (case close_levels ls of None \<Rightarrow> None | Some x \<Rightarrow> close_prefix p (c @ x))"

definition level_add :: "nat \<Rightarrow> u8 list \<Rightarrow> levels \<Rightarrow> levels" where
  "level_add h x ls = take h ls @ [(fst (ls ! h), snd (ls ! h) @ x)]"

definition spec_add :: "nat \<Rightarrow> u8 list \<Rightarrow> levels \<Rightarrow> levels option" where
  "spec_add h data ls =
     (if length ls \<le> h then None
      else map_option (\<lambda>x. level_add h (x @ data) ls) (close_levels (drop (Suc h) ls)))"

definition spec_open :: "nat \<Rightarrow> u8 list \<Rightarrow> prefix \<Rightarrow> levels \<Rightarrow> levels option" where
  "spec_open h header p ls = map_option (\<lambda>ls. ls @ [(p, [])]) (spec_add h header ls)"

section \<open>Representation\<close>

fun layout :: "levels \<Rightarrow> u8 list" where
  "layout [] = []"
| "layout ((p, c) # ls) = replicate (prefix_len p) 0 @ c @ layout ls"

fun frames_at :: "nat \<Rightarrow> cbb_frame list \<Rightarrow> levels \<Rightarrow> bool" where
  "frames_at off [] [] = True"
| "frames_at off (f # fs) ((p, c) # ls) =
     (fr_offset f = off \<and> fr_pending_len_len f = prefix_len p \<and> fr_pending_is_asn1 f = (p = Asn1) \<and>
      frames_at (off + prefix_len p + length c) fs ls)"
| "frames_at off _ _ = False"

text \<open>The buffer's own invariant: no error yet, and the valid bytes fit.\<close>

definition base_ok :: "cbb_buffer_st \<Rightarrow> bool" where
  "base_ok b \<longleftrightarrow> \<not> cbb_error b \<and> base_len b \<le> cbb_cap b \<and> cbb_cap b < size_modulus"

definition prefixes_ok :: "levels \<Rightarrow> bool" where
  "prefixes_ok ls \<longleftrightarrow> (\<forall>l \<in> set ls. 0 < prefix_len (fst l))"

text \<open>\<open>represents st ls\<close>: the outermost level is the first, and has no prefix.\<close>

definition represents :: "cbb \<Rightarrow> levels \<Rightarrow> bool" where
  "represents st ls \<longleftrightarrow> base_ok (cbb_base st) \<and> cbb_buf (cbb_base st) = layout ls \<and>
     frames_at 0 (cbb_frames st) ls \<and> ls \<noteq> [] \<and> fst (hd ls) = Plain 0 \<and> prefixes_ok (tl ls)"

lemma layout_append: "layout (ls @ ms) = layout ls @ layout ms"
  by (induction ls rule: layout.induct) auto

lemma frames_at_length: "frames_at off fs ls \<Longrightarrow> length fs = length ls"
  by (induction off fs ls rule: frames_at.induct) auto

lemma frames_at_append:
  "length fs = length ls \<Longrightarrow>
   frames_at off (fs @ gs) (ls @ ms) \<longleftrightarrow> frames_at off fs ls \<and> frames_at (off + length (layout ls)) gs ms"
proof (induction off fs ls rule: frames_at.induct)
  case (2 off f fs p c ls)
  then show ?case by (simp add: add.assoc)
qed auto

lemma frames_at_level_add:
  assumes "frames_at off fs ls" and "h < length ls"
  shows "frames_at off (take (Suc h) fs) (level_add h x ls)"
proof -
  have len: "length fs = length ls"
    using assms(1) by (rule frames_at_length)
  then have split: "fs = take h fs @ fs ! h # drop (Suc h) fs" "ls = take h ls @ ls ! h # drop (Suc h) ls"
    using assms(2) by (simp_all add: id_take_nth_drop)
  have "frames_at off (take h fs @ fs ! h # drop (Suc h) fs) (take h ls @ ls ! h # drop (Suc h) ls)"
    using assms(1) split by simp
  then have "frames_at off (take h fs @ [fs ! h]) (take h ls @ [(fst (ls ! h), snd (ls ! h) @ x)])"
    using len by (cases "ls ! h") (simp add: frames_at_append)
  then show ?thesis
    using assms(2) len by (simp add: level_add_def take_Suc_conv_app_nth)
qed

lemma layout_level_add:
  "h < length ls \<Longrightarrow> layout (level_add h x ls) = layout (take (Suc h) ls) @ x"
  by (cases "ls ! h") (simp add: level_add_def take_Suc_conv_app_nth layout_append)

section \<open>The buffer\<close>

lemma base_fail_simps [simp]: "base_fail b = (None, b\<lparr>cbb_error := True\<rparr>)"
  by (simp add: base_fail_def)

lemma cbb_buffer_reserve_Some:
  assumes "cbb_buffer_reserve sys len b = (Some u, b')" and "base_ok b" and "len < size_modulus"
  shows "cbb_buf b' = cbb_buf b" and "base_ok b'" and "base_len b + len \<le> cbb_cap b'"
    and "cbb_can_resize b' = cbb_can_resize b" and "\<not> cbb_can_resize b \<longrightarrow> cbb_cap b' = cbb_cap b"
proof -
  let ?new = "size_add (base_len b) len"
  have *: "\<not> ?new < base_len b" "base_len b < size_modulus"
    using assms by (auto simp: cbb_buffer_reserve_def base_ok_def Let_def split: if_splits)
  then have new: "?new = base_len b + len" "base_len b + len < size_modulus"
    using size_add_no_wrap [of "base_len b" len] assms(3) by auto
  have cap: "size_mul (cbb_cap b) 2 < size_modulus"
    by (rule size_mul_less)
  show "cbb_buf b' = cbb_buf b" and "base_ok b'" and "base_len b + len \<le> cbb_cap b'"
    and "cbb_can_resize b' = cbb_can_resize b" and "\<not> cbb_can_resize b \<longrightarrow> cbb_cap b' = cbb_cap b"
    using assms(1,2) new cap
    by (auto simp: cbb_buffer_reserve_def base_ok_def Let_def OPENSSL_realloc_def
        split: if_splits option.splits)
qed

lemma cbb_buffer_add_Some:
  assumes "cbb_buffer_add sys data b = (Some u, b')" and "base_ok b" and "length data < size_modulus"
  shows "cbb_buf b' = cbb_buf b @ data" and "base_ok b'"
    and "cbb_can_resize b' = cbb_can_resize b" and "\<not> cbb_can_resize b \<longrightarrow> cbb_cap b' = cbb_cap b"
proof -
  from assms(1) obtain b1 where b1: "cbb_buffer_reserve sys (length data) b = (Some (), b1)"
    and b': "b' = b1\<lparr>cbb_buf := cbb_buf b1 @ data\<rparr>"
    by (auto simp: cbb_buffer_add_def pbind_Some_iff)
  note r = cbb_buffer_reserve_Some [OF b1 assms(2,3)]
  show "cbb_buf b' = cbb_buf b @ data" and "base_ok b'"
    and "cbb_can_resize b' = cbb_can_resize b" and "\<not> cbb_can_resize b \<longrightarrow> cbb_cap b' = cbb_cap b"
    using r by (simp_all add: b' base_ok_def)
qed

lemma add_u_loop_eq: "add_u_loop n v = (be_bytes n (unat v), drop_bit (8 * n) v)"
proof (induction n arbitrary: v)
  case 0
  then show ?case by simp
next
  case (Suc n)
  have "unat (drop_bit 8 v) = unat v div 256"
  proof -
    have "unat (drop_bit 8 v) = drop_bit 8 (unat v)" by (rule unat_drop_bit_eq)
    then show ?thesis by (simp add: drop_bit_eq_div)
  qed
  moreover have "(ucast v :: u8) = word_of_nat (unat v)"
    by (rule of_nat_unat [symmetric])
  ultimately show ?case
    using Suc [of "drop_bit 8 v"] by (simp add: add.commute)
qed

lemma cbb_buffer_add_u_Some:
  assumes "cbb_buffer_add_u sys v n b = (Some u, b')" and "base_ok b" and "0 < n" and "n \<le> 8"
  shows "unat v < 256 ^ n" and "cbb_buf b' = cbb_buf b @ be_bytes n (unat v)" and "base_ok b'"
    and "cbb_can_resize b' = cbb_can_resize b" and "\<not> cbb_can_resize b \<longrightarrow> cbb_cap b' = cbb_cap b"
proof -
  have add: "cbb_buffer_add sys (be_bytes n (unat v)) b = (Some (), b')" and r: "drop_bit (8 * n) v = 0"
    using assms by (auto simp: cbb_buffer_add_u_def add_u_loop_eq pbind_Some_iff split: if_splits)
  from r have "unat v < 2 ^ (8 * n)"
    by (simp only: drop_bit_eq_0_iff_less)
  also have "(2 :: nat) ^ (8 * n) = 256 ^ n"
    by (simp only: power_mult) simp
  finally show "unat v < 256 ^ n" .
  have "length (be_bytes n (unat v)) < size_modulus"
    using assms by simp
  from cbb_buffer_add_Some [OF add assms(2) this]
  show "cbb_buf b' = cbb_buf b @ be_bytes n (unat v)" and "base_ok b'"
    and "cbb_can_resize b' = cbb_can_resize b" and "\<not> cbb_can_resize b \<longrightarrow> cbb_cap b' = cbb_cap b"
    by simp_all
qed

lemma put_length_loop_eq:
  "off + n \<le> length buf \<Longrightarrow>
   put_length_loop off n len buf = (len div 256 ^ n, take off buf @ be_bytes n len @ drop (off + n) buf)"
proof (induction n arbitrary: len buf)
  case 0
  then show ?case by simp
next
  case (Suc n)
  have "drop (off + n) (buf[off + n := word_of_nat len]) = word_of_nat len # drop (off + Suc n) buf"
    using Suc.prems by (simp add: Cons_nth_drop_Suc [symmetric] drop_update_cancel)
  with Suc show ?case by (simp add: div_mult2_eq)
qed

section \<open>Closing one child\<close>

lemma asn1_length_form_eq:
  "asn1_length_form n =
     (if n > 0xfffffffe then None
      else if n < 128 then Some (1, word_of_nat n, 0)
      else Some (Suc (length_octets n), more_byte (length_octets n), n))"
  by (simp add: asn1_length_form_def length_octets_def more_byte_def)

definition same_buffer :: "cbb_buffer_st \<Rightarrow> cbb_buffer_st \<Rightarrow> bool" where
  "same_buffer b b' \<longleftrightarrow> cbb_can_resize b' = cbb_can_resize b \<and>
     (\<not> cbb_can_resize b \<longrightarrow> cbb_cap b' = cbb_cap b)"

lemma same_buffer_refl [simp]: "same_buffer b b"
  by (simp add: same_buffer_def)

lemma same_buffer_buf [simp]:
  "same_buffer (b\<lparr>cbb_buf := x\<rparr>) b' \<longleftrightarrow> same_buffer b b'"
  "same_buffer b (b'\<lparr>cbb_buf := x\<rparr>) \<longleftrightarrow> same_buffer b b'"
  by (simp_all add: same_buffer_def)

lemma same_buffer_trans [trans]: "same_buffer a b \<Longrightarrow> same_buffer b c \<Longrightarrow> same_buffer a c"
  by (auto simp: same_buffer_def)

lemma cbb_put_length_Some:
  assumes "cbb_put_length child len b = (Some u, b')"
    and "fr_offset child + fr_pending_len_len child \<le> base_len b"
  shows "len < 256 ^ fr_pending_len_len child" and
    "b' = b\<lparr>cbb_buf := take (fr_offset child) (cbb_buf b) @ be_bytes (fr_pending_len_len child) len @
       drop (fr_offset child + fr_pending_len_len child) (cbb_buf b)\<rparr>"
  using assms by (auto simp: cbb_put_length_def put_length_loop_eq div_eq_0_iff split: if_splits)

lemma cbb_make_room_Some:
  assumes "cbb_make_room sys (length pre) (length c) n b = (Some u, b')"
    and "cbb_buf b = pre @ c" and "n \<le> length c" and "n < size_modulus" and "base_ok b"
  shows "cbb_buf b' = pre @ take n c @ c" and "base_ok b'" and "same_buffer b b'"
proof -
  from assms(1) obtain b1 where b1: "cbb_buffer_add sys (replicate n 0) b = (Some (), b1)"
    and b': "b' = b1\<lparr>cbb_buf := take (length pre + n) (cbb_buf b1) @
      take (length c) (drop (length pre) (cbb_buf b1))\<rparr>"
    by (auto simp: cbb_make_room_def pbind_Some_iff)
  have n: "length (replicate n (0 :: u8)) < size_modulus"
    using assms(4) by simp
  from cbb_buffer_add_Some [OF b1 assms(5) n] have r: "cbb_buf b1 = pre @ c @ replicate n 0"
    "base_ok b1" "same_buffer b b1"
    by (simp_all add: assms(2) same_buffer_def)
  then have "cbb_buf b' = pre @ take n c @ c"
    using assms(3) by (simp add: b')
  with r show "cbb_buf b' = pre @ take n c @ c" and "base_ok b'" and "same_buffer b b'"
    using assms(3) by (simp_all add: b' base_ok_def)
qed

lemma cbb_flush_child_plain:
  assumes "cbb_flush_child sys child (length pre + n) b = (Some u, b')"
    and "cbb_buf b = pre @ replicate n 0 @ c" and "base_ok b"
    and "fr_offset child = length pre" and "fr_pending_len_len child = n" and "\<not> fr_pending_is_asn1 child"
  shows "length c < 256 ^ n" and "b' = b\<lparr>cbb_buf := pre @ be_bytes n (length c) @ c\<rparr>"
  using assms cbb_put_length_Some [of child "length c" b u b'] by (auto simp: cbb_flush_child_def)

lemma cbb_flush_child_asn1:
  assumes flush: "cbb_flush_child sys child (length pre + 1) b = (Some u, b')"
    and buf: "cbb_buf b = pre @ 0 # c" and ok: "base_ok b"
    and child: "fr_offset child = length pre" "fr_pending_is_asn1 child"
  shows "length c \<le> 0xfffffffe" and "cbb_buf b' = pre @ der_length (length c) @ c" and "base_ok b'"
    and "same_buffer b b'"
proof -
  have len: "base_len b - (length pre + 1) = length c"
    by (simp add: buf)
  note flush' = flush [unfolded cbb_flush_child_def asn1_length_form_eq len Let_def]
  from flush' show le: "length c \<le> 0xfffffffe"
    using child by (auto split: if_splits)
  have "cbb_buf b' = pre @ der_length (length c) @ c \<and> base_ok b' \<and> same_buffer b b'"
  proof (cases "length c < 128")
    case True
    with flush' le child show ?thesis
      using ok by (auto simp: cbb_put_length_def der_length_def
          buf base_ok_def list_update_append)
  next
    case False
    let ?k = "length_octets (length c)"
    have k: "1 \<le> ?k" "?k \<le> 4"
      using length_octets_range by auto
    from flush' le child False k obtain b1 where
      b1: "cbb_make_room sys (length (pre @ [0])) (length c) ?k b = (Some (), b1)" and
      put: "cbb_put_length (child\<lparr>fr_offset := length pre + 1, fr_pending_len_len := ?k\<rparr>) (length c)
        (b1\<lparr>cbb_buf := (cbb_buf b1)[length pre := more_byte ?k]\<rparr>) = (Some u, b')"
      by (auto simp: pbind_Some_iff)
    have "cbb_buf b1 = (pre @ [0]) @ take ?k c @ c" and b1': "base_ok b1" "same_buffer b b1"
      using cbb_make_room_Some [OF b1, of] k False buf ok by auto
    then have "(cbb_buf b1)[length pre := more_byte ?k] = (pre @ [more_byte ?k]) @ take ?k c @ c"
      by (simp add: list_update_append)
    with cbb_put_length_Some (2) [OF put] k False have
      "b' = b1\<lparr>cbb_buf := pre @ more_byte ?k # be_bytes ?k (length c) @ c\<rparr>"
      by simp
    with False k b1' \<open>cbb_buf b1 = _\<close> show ?thesis
      by (simp add: der_length_def base_ok_def)
  qed
  then show "cbb_buf b' = pre @ der_length (length c) @ c" and "base_ok b'" and "same_buffer b b'"
    by auto
qed

text \<open>With memory to spare and a buffer that may grow, nothing else can fail.\<close>

lemma cbb_buffer_reserve_complete:
  assumes "base_ok b" and "cbb_can_resize b" and "base_len b + len < 2 ^ 62"
  shows "\<exists>b'. cbb_buffer_reserve (\<lambda>_. True) len b = (Some (), b')"
proof -
  let ?newlen = "size_add (base_len b) len"
  have newlen: "?newlen = base_len b + len"
    using assms by (intro size_add_exact) simp
  define newcap where "newcap =
    (if size_mul (cbb_cap b) 2 < cbb_cap b \<or> size_mul (cbb_cap b) 2 < ?newlen then ?newlen
     else size_mul (cbb_cap b) 2)"
  have realloc: "OPENSSL_realloc (\<lambda>_. True) (Some (cbb_buf b)) newcap \<noteq> None" if "cbb_cap b < ?newlen"
  proof -
    have "size_mul (cbb_cap b) 2 = cbb_cap b * 2"
      using that assms(3) newlen by (intro size_mul_exact) simp
    then have "newcap < 2 ^ 63"
      using that assms(3) newlen by (simp add: newcap_def)
    then show ?thesis
      by (simp add: OPENSSL_realloc_def Let_def)
  qed
  have "fst (cbb_buffer_reserve (\<lambda>_. True) len b) \<noteq> None"
  proof (cases "cbb_cap b < ?newlen")
    case True
    from realloc [OF this] obtain y where "OPENSSL_realloc (\<lambda>_. True) (Some (cbb_buf b)) newcap = Some y"
      by blast
    with True assms(2) show ?thesis
      unfolding cbb_buffer_reserve_def Let_def newcap_def [symmetric] by (simp add: newlen)
  next
    case False
    then show ?thesis
      unfolding cbb_buffer_reserve_def Let_def by (simp add: newlen)
  qed
  then show ?thesis
    by (cases "cbb_buffer_reserve (\<lambda>_. True) len b") auto
qed

lemma cbb_buffer_add_complete:
  assumes "base_ok b" and "cbb_can_resize b" and "base_len b + length data < 2 ^ 62"
  shows "\<exists>b'. cbb_buffer_add (\<lambda>_. True) data b = (Some (), b')"
proof -
  obtain b1 where "cbb_buffer_reserve (\<lambda>_. True) (length data) b = (Some (), b1)"
    using cbb_buffer_reserve_complete [OF assms] by blast
  then show ?thesis by (simp add: cbb_buffer_add_def)
qed

lemma cbb_put_length_complete:
  assumes "fr_offset child + fr_pending_len_len child \<le> base_len b"
    and "len < 256 ^ fr_pending_len_len child"
  shows "\<exists>b'. cbb_put_length child len b = (Some (), b')"
  using assms by (simp add: cbb_put_length_def put_length_loop_eq)

lemma close_prefix_length:
  "close_prefix p c = Some x \<Longrightarrow> prefix_len p + length c \<le> length x"
  by (cases p) (auto simp: der_length_def split: if_splits)

lemma cbb_flush_child_Some:
  assumes "cbb_flush_child sys child (length pre + prefix_len p) b = (Some u, b')"
    and "cbb_buf b = pre @ replicate (prefix_len p) 0 @ c" and "base_ok b"
    and "fr_offset child = length pre" and "fr_pending_len_len child = prefix_len p"
    and "fr_pending_is_asn1 child = (p = Asn1)"
  shows "\<exists>x. close_prefix p c = Some x \<and> cbb_buf b' = pre @ x \<and> base_ok b' \<and> same_buffer b b'"
proof (cases p)
  case (Plain n)
  with assms cbb_flush_child_plain [of sys child pre n b u b' c] show ?thesis
    by (auto simp: base_ok_def)
next
  case Asn1
  with assms have "cbb_flush_child sys child (length pre + 1) b = (Some u, b')" "cbb_buf b = pre @ 0 # c"
    "fr_pending_is_asn1 child"
    by simp_all
  with cbb_flush_child_asn1 [of sys child pre b u b' c] assms Asn1 show ?thesis
    by auto
qed

lemma cbb_flush_child_long:
  assumes "base_len b - start = n" and "128 \<le> n" and "n \<le> 0xfffffffe" and "fr_pending_is_asn1 child"
  shows "cbb_flush_child sys child start b =
    pbind (cbb_make_room sys start n (length_octets n))
      (\<lambda>_ b. cbb_put_length
         (child\<lparr>fr_offset := fr_offset child + 1, fr_pending_len_len := length_octets n\<rparr>) n
         (b\<lparr>cbb_buf := (cbb_buf b)[fr_offset child := more_byte (length_octets n)]\<rparr>)) b"
proof -
  have "asn1_length_form n = Some (Suc (length_octets n), more_byte (length_octets n), n)"
    using assms by (simp add: asn1_length_form_eq)
  then show ?thesis
    using assms length_octets_range(1) [of n]
    unfolding cbb_flush_child_def assms(1) Let_def by simp
qed

lemma cbb_flush_child_asn1_complete:
  assumes c: "length c \<le> 0xfffffffe" and room: "length pre + length (der_length (length c) @ c) < 2 ^ 62"
    and buf: "cbb_buf b = pre @ 0 # c" and ok: "base_ok b" "cbb_can_resize b"
    and child: "fr_offset child = length pre" "fr_pending_is_asn1 child"
  shows "\<exists>b'. cbb_flush_child (\<lambda>_. True) child (length pre + 1) b = (Some (), b')"
proof -
  let ?k = "length_octets (length c)"
  have len: "base_len b - (length pre + 1) = length c"
    by (simp add: buf)
  show ?thesis
  proof (cases "length c < 128")
    case True
    then have "asn1_length_form (length c) = Some (1, word_of_nat (length c), 0)"
      by (simp add: asn1_length_form_eq)
    then show ?thesis
      using child unfolding cbb_flush_child_def len Let_def by (simp add: cbb_put_length_def)
  next
    case False
    then have long: "128 \<le> length c" by simp
    have k: "1 \<le> ?k" "?k \<le> 4"
      using length_octets_range by auto
    have "base_len b + length (replicate ?k (0 :: u8)) < 2 ^ 62"
      using False room by (simp add: buf der_length_def)
    from cbb_buffer_add_complete [OF ok this]
    obtain b0 where "cbb_buffer_add (\<lambda>_. True) (replicate ?k 0) b = (Some (), b0)"
      by blast
    then obtain b1 where b1: "cbb_make_room (\<lambda>_. True) (length (pre @ [0])) (length c) ?k b = (Some (), b1)"
      by (simp add: cbb_make_room_def)
    have "cbb_buf b1 = (pre @ [0]) @ take ?k c @ c"
      using cbb_make_room_Some(1) [OF b1] k long buf ok by simp
    moreover have "length c < 256 ^ ?k"
      using False c by (intro length_octets_bounds) auto
    ultimately obtain b2 where "cbb_put_length
        (child\<lparr>fr_offset := fr_offset child + 1, fr_pending_len_len := ?k\<rparr>) (length c)
        (b1\<lparr>cbb_buf := (cbb_buf b1)[fr_offset child := more_byte ?k]\<rparr>) = (Some (), b2)"
      using cbb_put_length_complete [of "child\<lparr>fr_offset := fr_offset child + 1, fr_pending_len_len := ?k\<rparr>"
        "b1\<lparr>cbb_buf := (cbb_buf b1)[fr_offset child := more_byte ?k]\<rparr>" "length c"] child(1) k long
      by (auto simp: min_def)
    with b1 show ?thesis
      unfolding cbb_flush_child_long [OF len long c child(2)] by simp
  qed
qed

lemma cbb_flush_child_complete:
  assumes "close_prefix p c = Some x" and "length pre + length x < 2 ^ 62"
    and "cbb_buf b = pre @ replicate (prefix_len p) 0 @ c" and "base_ok b" and "cbb_can_resize b"
    and "fr_offset child = length pre" and "fr_pending_len_len child = prefix_len p"
    and "fr_pending_is_asn1 child = (p = Asn1)"
  shows "\<exists>b'. cbb_flush_child (\<lambda>_. True) child (length pre + prefix_len p) b = (Some (), b')"
proof (cases p)
  case (Plain n)
  with assms have "length c < 256 ^ n" "fr_offset child + fr_pending_len_len child \<le> base_len b"
    by (auto split: if_splits)
  then obtain b' where "cbb_put_length child (length c) b = (Some (), b')"
    using cbb_put_length_complete [of child b "length c"] assms Plain by auto
  with assms Plain show ?thesis by (simp add: cbb_flush_child_def)
next
  case Asn1
  with assms(1) have "length c \<le> 0xfffffffe" and "der_length (length c) @ c = x"
    by (simp_all split: if_splits)
  with assms(2) have "length c \<le> 0xfffffffe" and "length pre + length (der_length (length c) @ c) < 2 ^ 62"
    by simp_all
  moreover from Asn1 assms have "cbb_buf b = pre @ 0 # c" "fr_pending_is_asn1 child"
    by simp_all
  ultimately show ?thesis
    using cbb_flush_child_asn1_complete [of c pre b child] assms Asn1 by simp
qed

section \<open>Flushing the chain\<close>

lemma frame_sum_exact:
  assumes "base_ok b" and "n + m \<le> base_len b" shows "size_add n m = n + m"
  using assms by (intro size_add_exact) (auto simp: base_ok_def)

lemma cbb_flush_chain_Some:
  assumes "cbb_flush_chain sys fs b = (True, fs', b')" and "frames_at (length pre) fs ls"
    and "cbb_buf b = pre @ layout ls" and "base_ok b" and "prefixes_ok ls"
  shows "fs' = [] \<and> (\<exists>x. close_levels ls = Some x \<and> cbb_buf b' = pre @ x \<and> base_ok b' \<and> same_buffer b b')"
  using assms
proof (induction ls arbitrary: pre fs b fs' b')
  case Nil
  then show ?case by (cases fs) auto
next
  case (Cons l ls)
  obtain p c where l: "l = (p, c)" by (cases l)
  with Cons.prems obtain f rest where fs: "fs = f # rest" and f: "fr_offset f = length pre"
    "fr_pending_len_len f = prefix_len p" "fr_pending_is_asn1 f = (p = Asn1)"
    "frames_at (length (pre @ replicate (prefix_len p) 0 @ c)) rest ls"
    by (cases fs) (auto simp: add.assoc)
  have p: "0 < prefix_len p" and "\<not> cbb_error b"
    using Cons.prems l by (auto simp: prefixes_ok_def base_ok_def)
  have sum: "size_add (length pre) (prefix_len p) = length pre + prefix_len p"
    using Cons.prems l by (intro frame_sum_exact [of b]) auto
  with Cons.prems(1) p \<open>\<not> cbb_error b\<close> obtain rest' b1 where
    rest: "cbb_flush_chain sys rest b = (True, rest', b1)" and fs': "fs' = []" and
    child: "cbb_flush_child sys f (length pre + prefix_len p) b1 = (Some (), b')"
    by (auto simp: fs f Let_def split: prod.splits if_splits option.splits)
  have "prefixes_ok ls"
    using Cons.prems by (simp add: prefixes_ok_def)
  with Cons.IH [OF rest f(4)] obtain x where x: "close_levels ls = Some x"
    "cbb_buf b1 = pre @ replicate (prefix_len p) 0 @ c @ x" "base_ok b1" "same_buffer b b1"
    using Cons.prems l by auto
  from cbb_flush_child_Some [OF child x(2,3) f(1-3)] x(1,4) show ?case
    using same_buffer_trans by (auto simp: l fs')
qed

lemma close_levels_length: "close_levels ls = Some x \<Longrightarrow> length (layout ls) \<le> length x"
proof (induction ls arbitrary: x rule: close_levels.induct)
  case (2 p c ls)
  then obtain y where "close_levels ls = Some y" "close_prefix p (c @ y) = Some x"
    by (auto split: option.splits)
  with 2 close_prefix_length [of p "c @ y" x] show ?case by fastforce
qed simp

lemma cbb_flush_chain_complete:
  assumes "close_levels ls = Some x" and "length pre + length x < 2 ^ 62" and "frames_at (length pre) fs ls"
    and "cbb_buf b = pre @ layout ls" and "base_ok b" and "prefixes_ok ls" and "cbb_can_resize b"
  shows "\<exists>b'. cbb_flush_chain (\<lambda>_. True) fs b = (True, [], b')"
  using assms
proof (induction ls arbitrary: pre fs b x)
  case Nil
  then show ?case by (cases fs) (auto simp: base_ok_def)
next
  case (Cons l ls)
  obtain p c where l: "l = (p, c)" by (cases l)
  with Cons.prems obtain f rest where fs: "fs = f # rest" and f: "fr_offset f = length pre"
    "fr_pending_len_len f = prefix_len p" "fr_pending_is_asn1 f = (p = Asn1)"
    "frames_at (length (pre @ replicate (prefix_len p) 0 @ c)) rest ls"
    by (cases fs) (auto simp: add.assoc)
  from Cons.prems l obtain y where y: "close_levels ls = Some y" "close_prefix p (c @ y) = Some x"
    by (auto split: option.splits)
  have p: "0 < prefix_len p" and "\<not> cbb_error b" and ls: "prefixes_ok ls"
    using Cons.prems l by (auto simp: prefixes_ok_def base_ok_def)
  have sum: "size_add (length pre) (prefix_len p) = length pre + prefix_len p"
    using Cons.prems l by (intro frame_sum_exact [of b]) auto
  have buf: "cbb_buf b = (pre @ replicate (prefix_len p) 0 @ c) @ layout ls"
    using Cons.prems l by simp
  have "length (pre @ replicate (prefix_len p) 0 @ c) + length y < 2 ^ 62"
    using close_prefix_length [OF y(2)] Cons.prems(2) by simp
  with Cons.IH [OF y(1) _ f(4) buf] Cons.prems ls obtain b1 where
    rest: "cbb_flush_chain (\<lambda>_. True) rest b = (True, [], b1)"
    by auto
  from cbb_flush_chain_Some [OF rest f(4) buf _ ls] y Cons.prems have b1:
    "cbb_buf b1 = pre @ replicate (prefix_len p) 0 @ c @ y" "base_ok b1" "cbb_can_resize b1"
    by (auto simp: same_buffer_def)
  from cbb_flush_child_complete [OF y(2) Cons.prems(2) b1 f(1-3)] obtain b' where
    "cbb_flush_child (\<lambda>_. True) f (length pre + prefix_len p) b1 = (Some (), b')"
    by blast
  with p \<open>\<not> cbb_error b\<close> show ?case
    by (auto simp: fs f Let_def sum rest b1)
qed

section \<open>Operations and their specifications\<close>

text \<open>
  An operation implements a specification when every success is a step of the
  specification, whatever the allocator does, and when with memory to spare and a buffer
  that may grow it succeeds wherever the specification is defined.
\<close>

definition can_grow :: "cbb \<Rightarrow> bool" where
  "can_grow st = cbb_can_resize (cbb_base st)"

locale cbb_implements =
  fixes P :: "levels \<Rightarrow> bool" and f :: "(nat \<Rightarrow> bool) \<Rightarrow> (cbb, unit) op" and S :: "levels \<Rightarrow> levels option"
  assumes sound: "P ls \<Longrightarrow> represents st ls \<Longrightarrow> f sys st = (Some u, st') \<Longrightarrow>
      \<exists>ls'. S ls = Some ls' \<and> represents st' ls' \<and> same_buffer (cbb_base st) (cbb_base st')"
    and complete: "P ls \<Longrightarrow> represents st ls \<Longrightarrow> can_grow st \<Longrightarrow> S ls = Some ls' \<Longrightarrow>
      length (layout ls') < 2 ^ 62 \<Longrightarrow> \<exists>st'. f (\<lambda>_. True) st = (Some (), st')"
    and grows: "P ls \<Longrightarrow> S ls = Some ls' \<Longrightarrow> length (layout ls) \<le> length (layout ls')"
begin

lemma succeeds_iff:
  assumes "P ls" and "represents st ls" and "can_grow st"
    and "\<And>ls'. S ls = Some ls' \<Longrightarrow> length (layout ls') < 2 ^ 62"
  shows "(\<exists>st'. f (\<lambda>_. True) st = (Some (), st')) \<longleftrightarrow> S ls \<noteq> None"
  using sound [OF assms(1,2)] complete [OF assms(1-3)] assms(4) by (metis not_None_eq)

end

abbreviation cbb_op :: "((nat \<Rightarrow> bool) \<Rightarrow> (cbb, unit) op) \<Rightarrow> (levels \<Rightarrow> levels option) \<Rightarrow> bool" where
  "cbb_op \<equiv> cbb_implements (\<lambda>_. True)"

abbreviation innermost :: "nat \<Rightarrow> levels \<Rightarrow> bool" where
  "innermost h ls \<equiv> length ls = Suc h"

lemma implements_bind:
  assumes f: "cbb_implements P f S" and g: "cbb_implements Q g T"
    and Q: "\<And>ls ls'. P ls \<Longrightarrow> S ls = Some ls' \<Longrightarrow> Q ls'"
  shows "cbb_implements P (\<lambda>sys. pbind (f sys) (\<lambda>_. g sys)) (\<lambda>ls. Option.bind (S ls) T)"
proof unfold_locales
  fix st ls sys u st' assume P: "P ls" and rep: "represents st ls" and "pbind (f sys) (\<lambda>_. g sys) st = (Some u, st')"
  then obtain st1 where "f sys st = (Some (), st1)" and g1: "g sys st1 = (Some u, st')"
    by (auto simp: pbind_Some_iff)
  with cbb_implements.sound [OF f P rep] obtain ls1 where ls1: "S ls = Some ls1" "represents st1 ls1"
    "same_buffer (cbb_base st) (cbb_base st1)"
    by blast
  with cbb_implements.sound [OF g Q [OF P] _ g1] obtain ls2 where "T ls1 = Some ls2" "represents st' ls2"
    "same_buffer (cbb_base st1) (cbb_base st')"
    by blast
  with ls1 show "\<exists>ls'. Option.bind (S ls) T = Some ls' \<and> represents st' ls' \<and>
      same_buffer (cbb_base st) (cbb_base st')"
    using same_buffer_trans by auto
next
  fix st ls ls' assume P: "P ls" and rep: "represents st ls" "can_grow st" and ls': "Option.bind (S ls) T = Some ls'"
    and room: "length (layout ls') < 2 ^ 62"
  then obtain ls1 where ls1: "S ls = Some ls1" "T ls1 = Some ls'"
    by (auto simp: bind_eq_Some_conv)
  note Q1 = Q [OF P ls1(1)]
  with cbb_implements.grows [OF g Q1 ls1(2)] room have "length (layout ls1) < 2 ^ 62"
    using le_less_trans by blast
  with cbb_implements.complete [OF f P rep ls1(1)] obtain st1 where f1: "f (\<lambda>_. True) st = (Some (), st1)"
    by blast
  with cbb_implements.sound [OF f P rep(1)] ls1 have "represents st1 ls1" "same_buffer (cbb_base st) (cbb_base st1)"
    by fastforce+
  then have "represents st1 ls1" and "can_grow st1"
    using rep(2) by (simp_all add: can_grow_def same_buffer_def)
  with cbb_implements.complete [OF g Q1 this ls1(2) room] f1
  show "\<exists>st'. pbind (f (\<lambda>_. True)) (\<lambda>_. g (\<lambda>_. True)) st = (Some (), st')"
    by auto
next
  fix ls ls' assume P: "P ls" and "Option.bind (S ls) T = Some ls'"
  then obtain ls1 where ls1: "S ls = Some ls1" "T ls1 = Some ls'"
    by (auto simp: bind_eq_Some_conv)
  then show "length (layout ls) \<le> length (layout ls')"
    using order_trans [OF cbb_implements.grows [OF f P ls1(1)] cbb_implements.grows [OF g Q [OF P ls1(1)] ls1(2)]]
    by simp
qed

lemma implements_weaken: "cbb_op f S \<Longrightarrow> cbb_implements P f S"
  unfolding cbb_implements_def by blast

lemma implements_cong:
  "cbb_implements P f S \<Longrightarrow> (\<And>ls. P ls \<Longrightarrow> S ls = T ls) \<Longrightarrow> cbb_implements P f T"
  unfolding cbb_implements_def by simp

text \<open>Two additions to one level are one.\<close>

lemma length_level_add [simp]: "h < length ls \<Longrightarrow> length (level_add h x ls) = Suc h"
  by (simp add: level_add_def)

lemma level_add_twice [simp]:
  "h < length ls \<Longrightarrow> level_add h y (level_add h x ls) = level_add h (x @ y) ls"
  by (simp add: level_add_def nth_append)

lemma spec_add_length: "spec_add h x ls = Some ls' \<Longrightarrow> length ls' = Suc h"
  by (auto simp: spec_add_def split: if_splits)

lemma spec_add_here: "length ls = Suc h \<Longrightarrow> spec_add h x ls = Some (level_add h x ls)"
  by (simp add: spec_add_def)

lemma spec_add_add [simp]: "Option.bind (spec_add h x ls) (spec_add h y) = spec_add h (x @ y) ls"
  by (cases "close_levels (drop (Suc h) ls)") (auto simp: spec_add_def)

lemma spec_add_grows: "spec_add h x ls = Some ls' \<Longrightarrow> length (layout ls) \<le> length (layout ls')"
proof -
  assume "spec_add h x ls = Some ls'"
  then obtain y where y: "close_levels (drop (Suc h) ls) = Some y" and h: "h < length ls"
    and ls': "ls' = level_add h (y @ x) ls"
    by (auto simp: spec_add_def split: if_splits)
  have "layout ls = layout (take (Suc h) ls) @ layout (drop (Suc h) ls)"
    by (simp flip: layout_append)
  with close_levels_length [OF y] h show ?thesis
    by (simp add: ls' layout_level_add)
qed

lemma represents_level_add:
  assumes "represents st ls" and "h < length ls" and "base_ok b" and "cbb_buf b = layout (take (Suc h) ls) @ x"
  shows "represents (st\<lparr>cbb_base := b, cbb_frames := take (Suc h) (cbb_frames st)\<rparr>) (level_add h x ls)"
proof -
  have "frames_at 0 (take (Suc h) (cbb_frames st)) (level_add h x ls)"
    using assms by (intro frames_at_level_add) (auto simp: represents_def)
  moreover have "fst (hd (level_add h x ls)) = fst (hd ls)"
    using assms(2) by (cases h; cases ls) (auto simp: level_add_def)
  moreover have "prefixes_ok (tl (level_add h x ls))"
  proof (cases h)
    case (Suc k)
    obtain l ms where ls: "ls = l # ms"
      using assms(2) by (cases ls) auto
    have "tl (level_add h x ls) = take k ms @ [(fst (ms ! k), snd (ms ! k) @ x)]"
      by (simp add: level_add_def ls Suc)
    moreover have "ms ! k \<in> set ms"
      using assms(2) ls Suc by simp
    ultimately show ?thesis
      using assms(1) by (auto simp: represents_def prefixes_ok_def ls dest: in_set_takeD)
  qed (simp add: level_add_def prefixes_ok_def)
  ultimately show ?thesis
    using assms by (simp add: represents_def layout_level_add) (auto simp: level_add_def)
qed

lemma represents_frames: "represents st ls \<Longrightarrow> length (cbb_frames st) = length ls"
  by (auto simp: represents_def dest: frames_at_length)

text \<open>\<open>represents\<close>, seen from one level: what is below it in the buffer, and what is above.\<close>

lemma represents_split:
  assumes "represents st ls" and "h < length ls"
  shows "cbb_buf (cbb_base st) = layout (take (Suc h) ls) @ layout (drop (Suc h) ls)"
    and "frames_at (length (layout (take (Suc h) ls))) (drop (Suc h) (cbb_frames st)) (drop (Suc h) ls)"
    and "base_ok (cbb_base st)" and "prefixes_ok (drop (Suc h) ls)"
proof -
  show "cbb_buf (cbb_base st) = layout (take (Suc h) ls) @ layout (drop (Suc h) ls)"
    using assms by (simp add: represents_def flip: layout_append)
  have len: "length (take (Suc h) (cbb_frames st)) = length (take (Suc h) ls)"
    using represents_frames [OF assms(1)] by simp
  have "frames_at 0 (take (Suc h) (cbb_frames st) @ drop (Suc h) (cbb_frames st))
      (take (Suc h) ls @ drop (Suc h) ls)"
    using assms(1) by (simp add: represents_def)
  then show "frames_at (length (layout (take (Suc h) ls))) (drop (Suc h) (cbb_frames st)) (drop (Suc h) ls)"
    unfolding frames_at_append [OF len] by simp
  show "base_ok (cbb_base st)"
    using assms(1) by (simp add: represents_def)
  have "set (drop (Suc h) ls) \<subseteq> set (tl ls)"
    by (simp add: drop_Suc set_drop_subset)
  then show "prefixes_ok (drop (Suc h) ls)"
    using assms(1) by (auto simp: represents_def prefixes_ok_def)
qed

lemma CBB_flush_implements: "cbb_op (\<lambda>sys. CBB_flush sys h) (spec_add h [])"
proof unfold_locales
  fix st ls sys u st' assume rep: "represents st ls" and "CBB_flush sys h st = (Some u, st')"
  then obtain fs b where h: "h < length ls" and
    flush: "cbb_flush_chain sys (drop (Suc h) (cbb_frames st)) (cbb_base st) = (True, fs, b)" and
    st': "st' = st\<lparr>cbb_base := b, cbb_frames := take (Suc h) (cbb_frames st) @ fs\<rparr>"
    by (auto simp: CBB_flush_def represents_frames split: if_splits prod.splits)
  note split = represents_split [OF rep h]
  from cbb_flush_chain_Some [OF flush split(2,1,3,4)] obtain x where fs: "fs = []"
    and x: "close_levels (drop (Suc h) ls) = Some x" "cbb_buf b = layout (take (Suc h) ls) @ x" "base_ok b"
    "same_buffer (cbb_base st) b"
    by blast
  from represents_level_add [OF rep h x(3,2)] x h fs
  show "\<exists>ls'. spec_add h [] ls = Some ls' \<and> represents st' ls' \<and> same_buffer (cbb_base st) (cbb_base st')"
    by (simp add: spec_add_def st')
next
  fix st ls ls' assume rep: "represents st ls" and grow: "can_grow st" and ls': "spec_add h [] ls = Some ls'"
    and room: "length (layout ls') < 2 ^ 62"
  then obtain x where h: "h < length ls" and x: "close_levels (drop (Suc h) ls) = Some x"
    and "ls' = level_add h x ls"
    by (auto simp: spec_add_def split: if_splits)
  with room have room': "length (layout (take (Suc h) ls)) + length x < 2 ^ 62"
    by (simp add: layout_level_add)
  note split = represents_split [OF rep h]
  from cbb_flush_chain_complete [OF x room' split(2,1,3,4)] grow h
  show "\<exists>st'. CBB_flush (\<lambda>_. True) h st = (Some (), st')"
    by (auto simp: CBB_flush_def represents_frames [OF rep] can_grow_def)
qed (rule spec_add_grows)

text \<open>What comes after a flush works on a level that is innermost.\<close>

definition spec_push :: "prefix \<Rightarrow> levels \<Rightarrow> levels option" where
  "spec_push p ls = Some (ls @ [(p, [])])"

lemma spec_add_push_bind: "Option.bind (spec_add h x ls) (spec_push p) = spec_open h x p ls"
  by (cases "spec_add h x ls") (auto simp: spec_push_def spec_open_def)

lemma spec_add_open: "Option.bind (spec_add h y ls) (spec_open h x p) = spec_open h (y @ x) p ls"
proof -
  have "Option.bind (spec_add h y ls) (spec_open h x p) =
    Option.bind (Option.bind (spec_add h y ls) (spec_add h x)) (spec_push p)"
    by (cases "spec_add h y ls") (simp_all add: spec_add_push_bind)
  then show ?thesis by (simp add: spec_add_push_bind)
qed

lemma implements_flush_bind:
  assumes "cbb_implements (innermost h) g T" and "\<And>ls. Option.bind (spec_add h [] ls) T = S ls"
  shows "cbb_op (\<lambda>sys. pbind (CBB_flush sys h) (\<lambda>_. g sys)) S"
proof -
  have "cbb_op (\<lambda>sys. pbind (CBB_flush sys h) (\<lambda>_. g sys)) (\<lambda>ls. Option.bind (spec_add h [] ls) T)"
    by (rule implements_bind [OF CBB_flush_implements assms(1)]) (rule spec_add_length)
  then show ?thesis by (simp add: assms(2))
qed

lemma implements_add_bind:
  assumes "cbb_op f (spec_add h x)" and "cbb_implements (innermost h) g T"
  shows "cbb_op (\<lambda>sys. pbind (f sys) (\<lambda>_. g sys)) (\<lambda>ls. Option.bind (spec_add h x ls) T)"
  using assms by (rule implements_bind) (rule spec_add_length)

lemma represents_here:
  assumes "represents st ls" and "innermost h ls" and "base_ok b"
    and "cbb_buf b = cbb_buf (cbb_base st) @ x"
  shows "represents (st\<lparr>cbb_base := b\<rparr>) (level_add h x ls)"
proof -
  have "cbb_buf b = layout (take (Suc h) ls) @ x"
    using assms by (simp add: represents_def)
  from represents_level_add [OF assms(1) _ assms(3) this] assms(2) show ?thesis
    using represents_frames [OF assms(1)] by simp
qed

lemma layout_here: "innermost h ls \<Longrightarrow> layout (level_add h x ls) = layout ls @ x"
  by (simp add: layout_level_add)

lemma on_base_Some:
  "on_base f st = (Some u, st') \<longleftrightarrow> (\<exists>b. f (cbb_base st) = (Some u, b) \<and> st' = st\<lparr>cbb_base := b\<rparr>)"
  by (auto simp: on_base_def split: prod.splits)

lemma on_base_add_implements:
  assumes len: "length data < size_modulus"
  shows "cbb_implements (innermost h) (\<lambda>sys. on_base (cbb_buffer_add sys data)) (spec_add h data)"
proof unfold_locales
  fix ls st sys u st' assume h: "innermost h ls" and rep: "represents st ls"
    and "on_base (cbb_buffer_add sys data) st = (Some u, st')"
  then obtain b where add: "cbb_buffer_add sys data (cbb_base st) = (Some u, b)"
    and st': "st' = st\<lparr>cbb_base := b\<rparr>"
    by (auto simp: on_base_Some)
  have "base_ok (cbb_base st)"
    using rep by (simp add: represents_def)
  from cbb_buffer_add_Some [OF add this len] rep h
  show "\<exists>ls'. spec_add h data ls = Some ls' \<and> represents st' ls' \<and> same_buffer (cbb_base st) (cbb_base st')"
    by (simp add: spec_add_here st' represents_here same_buffer_def)
next
  fix ls st ls' assume "innermost h ls" and "represents st ls" and "can_grow st"
    and "spec_add h data ls = Some ls'" and "length (layout ls') < 2 ^ 62"
  then have "base_ok (cbb_base st)" "cbb_can_resize (cbb_base st)" "base_len (cbb_base st) + length data < 2 ^ 62"
    by (auto simp: represents_def can_grow_def spec_add_here layout_here)
  from cbb_buffer_add_complete [OF this]
  show "\<exists>st'. on_base (cbb_buffer_add (\<lambda>_. True) data) st = (Some (), st')"
    by (auto simp: on_base_Some)
qed (rule spec_add_grows)

lemma byte_width: "(2 :: nat) ^ (8 * n) = 256 ^ n"
  by (simp only: power_mult) simp

definition spec_add_u :: "nat \<Rightarrow> nat \<Rightarrow> nat \<Rightarrow> levels \<Rightarrow> levels option" where
  "spec_add_u h n v ls = (if v < 256 ^ n then spec_add h (be_bytes n v) ls else None)"

lemma on_base_add_u_implements:
  assumes n: "0 < n" "n \<le> 8"
  shows "cbb_implements (innermost h) (\<lambda>sys. on_base (cbb_buffer_add_u sys v n)) (spec_add_u h n (unat v))"
proof unfold_locales
  fix ls st sys u st' assume h: "innermost h ls" and rep: "represents st ls"
    and "on_base (cbb_buffer_add_u sys v n) st = (Some u, st')"
  then obtain b where add: "cbb_buffer_add_u sys v n (cbb_base st) = (Some u, b)"
    and st': "st' = st\<lparr>cbb_base := b\<rparr>"
    by (auto simp: on_base_Some)
  have "base_ok (cbb_base st)"
    using rep by (simp add: represents_def)
  from cbb_buffer_add_u_Some [OF add this n] rep h
  show "\<exists>ls'. spec_add_u h n (unat v) ls = Some ls' \<and> represents st' ls' \<and>
      same_buffer (cbb_base st) (cbb_base st')"
    by (simp add: spec_add_u_def spec_add_here st' represents_here same_buffer_def)
next
  fix ls st ls' assume "innermost h ls" and "represents st ls" and "can_grow st"
    and S: "spec_add_u h n (unat v) ls = Some ls'" and "length (layout ls') < 2 ^ 62"
  then have "base_ok (cbb_base st)" "cbb_can_resize (cbb_base st)"
    "base_len (cbb_base st) + length (be_bytes n (unat v)) < 2 ^ 62"
    by (auto simp: represents_def can_grow_def spec_add_u_def spec_add_here layout_here split: if_splits)
  from cbb_buffer_add_complete [OF this] obtain b where
    "cbb_buffer_add (\<lambda>_. True) (be_bytes n (unat v)) (cbb_base st) = (Some (), b)"
    by blast
  moreover have "drop_bit (8 * n) v = 0"
    using S by (simp only: drop_bit_eq_0_iff_less byte_width) (simp add: spec_add_u_def split: if_splits)
  ultimately show "\<exists>st'. on_base (cbb_buffer_add_u (\<lambda>_. True) v n) st = (Some (), st')"
    using n by (auto simp: on_base_Some cbb_buffer_add_u_def add_u_loop_eq)
next
  fix ls ls' assume "spec_add_u h n (unat v) ls = Some ls'"
  then show "length (layout ls) \<le> length (layout ls')"
    by (auto simp: spec_add_u_def split: if_splits intro: spec_add_grows)
qed

section \<open>The operations\<close>

lemma spec_add_u_bind: "Option.bind (spec_add h [] ls) (spec_add_u h n v) = spec_add_u h n v ls"
  using spec_add_add [of h "[]" ls "be_bytes n v"] by (cases "spec_add h [] ls") (auto simp: spec_add_u_def)

lemma cbb_add_u_implements:
  "0 < n \<Longrightarrow> n \<le> 8 \<Longrightarrow> cbb_op (\<lambda>sys. cbb_add_u sys h v n) (spec_add_u h n (unat v))"
  unfolding cbb_add_u_def
  by (rule implements_flush_bind [OF on_base_add_u_implements]) (simp_all add: spec_add_u_bind)

lemma unat_ucast_u64: "unat (ucast (v :: 'a::len word) :: u64) = unat v" if "LENGTH('a) \<le> 64"
  using that by (intro unat_ucast_up) simp

lemma CBB_add_u8_implements: "cbb_op (\<lambda>sys. CBB_add_u8 sys h b) (spec_add h [b])"
proof -
  have "cbb_op (\<lambda>sys. CBB_add_u8 sys h b) (spec_add_u h 1 (unat (ucast b :: u64)))"
    unfolding CBB_add_u8_def by (rule cbb_add_u_implements) simp_all
  then show ?thesis
    by (rule implements_cong) (simp add: spec_add_u_def unat_ucast_u64)
qed

lemma spec_add_u_total: "v < 256 ^ n \<Longrightarrow> spec_add_u h n v = spec_add h (be_bytes n v)"
  by (rule ext) (simp add: spec_add_u_def)

lemma CBB_add_u16_implements: "cbb_op (\<lambda>sys. CBB_add_u16 sys h v) (spec_add h (be_bytes 2 (unat v)))"
  using cbb_add_u_implements [of 2 h "ucast v"] unat_u16_less [of v]
  by (simp add: CBB_add_u16_def spec_add_u_total unat_ucast_u64)

lemma CBB_add_u24_implements: "cbb_op (\<lambda>sys. CBB_add_u24 sys h v) (spec_add_u h 3 (unat v))"
  using cbb_add_u_implements [of 3 h "ucast v"] by (simp add: CBB_add_u24_def unat_ucast_u64)

lemma CBB_add_u32_implements: "cbb_op (\<lambda>sys. CBB_add_u32 sys h v) (spec_add h (be_bytes 4 (unat v)))"
  using cbb_add_u_implements [of 4 h "ucast v"] unat_u32_less [of v]
  by (simp add: CBB_add_u32_def spec_add_u_total unat_ucast_u64)

lemma CBB_add_u64_implements: "cbb_op (\<lambda>sys. CBB_add_u64 sys h v) (spec_add h (be_bytes 8 (unat v)))"
  using cbb_add_u_implements [of 8 h v] unat_u64_less [of v]
  by (simp add: CBB_add_u64_def spec_add_u_total)

lemma CBB_add_bytes_implements:
  "length data < size_modulus \<Longrightarrow> cbb_op (\<lambda>sys. CBB_add_bytes sys h data) (spec_add h data)"
  unfolding CBB_add_bytes_def
  by (rule implements_flush_bind [OF on_base_add_implements]) simp_all

lemma CBB_add_space_implements:
  "length data < size_modulus \<Longrightarrow> cbb_op (\<lambda>sys. CBB_add_space sys h data) (spec_add h data)"
  using CBB_add_bytes_implements by (simp add: CBB_add_space_def CBB_add_bytes_def)

lemma CBB_add_zeros_implements:
  "len < size_modulus \<Longrightarrow> cbb_op (\<lambda>sys. CBB_add_zeros sys h len) (spec_add h (replicate len 0))"
  using CBB_add_space_implements [of "replicate len 0" h] by (simp add: CBB_add_zeros_def)

lemma frames_at_innermost:
  "innermost h ls \<Longrightarrow> frames_at off fs (level_add h x ls) \<longleftrightarrow> frames_at off fs ls"
proof -
  assume h: "innermost h ls"
  then obtain ms l where ls: "ls = ms @ [l]" "length ms = h"
    by (metis length_Suc_conv_rev)
  have swap: "frames_at off fs (ms @ [(p, c)]) \<longleftrightarrow> frames_at off fs (ms @ [(p, d)])" for p c d
  proof (cases "length fs = Suc h")
    case True
    then obtain gs g where "fs = gs @ [g]" "length gs = length ms"
      using ls by (metis length_Suc_conv_rev)
    then show ?thesis by (simp add: frames_at_append)
  next
    case False
    then show ?thesis
      using frames_at_length [of off fs "ms @ [(p, c)]"] frames_at_length [of off fs "ms @ [(p, d)]"] ls by auto
  qed
  obtain p c where "l = (p, c)" by (cases l)
  with swap [of p "c @ x" c] ls show ?thesis
    by (auto simp: level_add_def)
qed

lemma represents_push:
  assumes "represents st (level_add h (replicate (prefix_len p) 0) ls)" and "innermost h ls"
    and "0 < prefix_len p" and "prefixes_ok (tl ls)" and "fst (hd ls) = Plain 0"
  shows "represents (st\<lparr>cbb_frames := cbb_frames st @ [\<lparr>fr_offset = length (layout ls),
     fr_pending_len_len = prefix_len p, fr_pending_is_asn1 = (p = Asn1)\<rparr>]\<rparr>) (ls @ [(p, [])])"
proof -
  have "frames_at 0 (cbb_frames st) ls"
    using assms(1,2) by (simp add: represents_def frames_at_innermost)
  moreover from this have "length (cbb_frames st) = length ls"
    by (rule frames_at_length)
  moreover have "ls \<noteq> []"
    using assms(2) by auto
  ultimately show ?thesis
    using assms by (simp add: represents_def layout_here layout_append frames_at_append prefixes_ok_def)
qed

lemma implements_push:
  assumes A: "cbb_implements (innermost h) A (spec_add h (replicate (prefix_len p) 0))" and p: "0 < prefix_len p"
  shows "cbb_implements (innermost h)
    (\<lambda>sys st. pbind (A sys) (\<lambda>_. cbb_push \<lparr>fr_offset = base_len (cbb_base st),
        fr_pending_len_len = prefix_len p, fr_pending_is_asn1 = (p = Asn1)\<rparr>) st) (spec_push p)"
proof unfold_locales
  fix ls st sys u st' assume h: "innermost h ls" and rep: "represents st ls" and
    "pbind (A sys) (\<lambda>_. cbb_push \<lparr>fr_offset = base_len (cbb_base st),
        fr_pending_len_len = prefix_len p, fr_pending_is_asn1 = (p = Asn1)\<rparr>) st = (Some u, st')"
  then obtain st1 where A1: "A sys st = (Some (), st1)" and
    st': "st' = st1\<lparr>cbb_frames := cbb_frames st1 @ [\<lparr>fr_offset = length (layout ls),
        fr_pending_len_len = prefix_len p, fr_pending_is_asn1 = (p = Asn1)\<rparr>]\<rparr>"
    by (auto simp: pbind_Some_iff cbb_push_def represents_def)
  from cbb_implements.sound [OF A h rep A1] h have
    "represents st1 (level_add h (replicate (prefix_len p) 0) ls)" "same_buffer (cbb_base st) (cbb_base st1)"
    by (auto simp: spec_add_here)
  with represents_push [OF this(1) h p] rep
  show "\<exists>ls'. spec_push p ls = Some ls' \<and> represents st' ls' \<and> same_buffer (cbb_base st) (cbb_base st')"
    by (simp add: spec_push_def st' represents_def)
next
  fix ls st ls' assume h: "innermost h ls" and rep: "represents st ls" and "can_grow st"
    and "spec_push p ls = Some ls'" and "length (layout ls') < 2 ^ 62"
  then have "length (layout (level_add h (replicate (prefix_len p) 0) ls)) < 2 ^ 62"
    by (auto simp: spec_push_def layout_here layout_append)
  from cbb_implements.complete [OF A h rep \<open>can_grow st\<close> spec_add_here [OF h] this]
  obtain st1 where "A (\<lambda>_. True) st = (Some (), st1)" by blast
  then show "\<exists>st'. pbind (A (\<lambda>_. True)) (\<lambda>_. cbb_push \<lparr>fr_offset = base_len (cbb_base st),
        fr_pending_len_len = prefix_len p, fr_pending_is_asn1 = (p = Asn1)\<rparr>) st = (Some (), st')"
    by (simp add: cbb_push_def)
qed (auto simp: spec_push_def layout_append)

lemma cbb_add_length_prefixed_implements:
  assumes "0 < n" and "n \<le> 8"
  shows "cbb_op (\<lambda>sys. cbb_add_length_prefixed sys h n) (spec_open h [] (Plain n))"
proof -
  have "cbb_implements (innermost h) (\<lambda>sys. on_base (cbb_buffer_add sys (replicate n 0)))
      (spec_add h (replicate (prefix_len (Plain n)) 0))"
    using on_base_add_implements [of "replicate n 0" h] assms by simp
  from implements_push [OF this] have
    "cbb_implements (innermost h) (\<lambda>sys st. let offset = base_len (cbb_base st) in
       pbind (on_base (cbb_buffer_add sys (replicate n 0))) (\<lambda>_.
         cbb_push \<lparr>fr_offset = offset, fr_pending_len_len = n, fr_pending_is_asn1 = False\<rparr>) st) (spec_push (Plain n))"
    using assms by simp
  then show ?thesis
    unfolding cbb_add_length_prefixed_def by (rule implements_flush_bind) (rule spec_add_push_bind)
qed

text \<open>The digits \<open>add_base128_integer\<close> adds are those of the encoding.\<close>

lemma map_rev_upt_Suc: "map f (rev [0..<Suc k]) = map (\<lambda>i. f (Suc i)) (rev [0..<k]) @ [f 0]"
proof -
  have "[0..<Suc k] = 0 # map Suc [0..<k]"
    by (simp add: upt_conv_Cons map_Suc_upt del: upt_Suc)
  then show ?thesis by (simp add: rev_map del: upt_Suc)
qed

lemma base128_digits_eq:
  "base128_digits n = map (\<lambda>i. n div 128 ^ i mod 128) (rev [0..<length (base128_digits n)])"
proof (induction n rule: base128_digits.induct)
  case (1 n)
  show ?case
  proof (cases "n < 128")
    case True
    then show ?thesis by (simp add: base128_digits.simps [of n])
  next
    case False
    let ?m = "n div 128"
    have "base128_digits ?m @ [n mod 128] =
      map (\<lambda>i. n div 128 ^ i mod 128) (rev [0..<Suc (length (base128_digits ?m))])"
      unfolding map_rev_upt_Suc
      by (subst 1 [OF False]) (simp add: div_mult2_eq)
    then show ?thesis
      using False by (simp add: base128_digits.simps [of n] del: upt_Suc)
  qed
qed

lemma unat_drop_bit_div: "unat (drop_bit n v) = unat (v :: 'a::len word) div 2 ^ n"
proof -
  have "unat (drop_bit n v) = drop_bit n (unat v)" by (rule unat_drop_bit_eq)
  then show ?thesis by (simp only: drop_bit_eq_div)
qed

lemma base128_len_eq: "0 < unat v \<Longrightarrow> base128_len v = length (base128_digits (unat v))"
proof (induction v rule: base128_len.induct)
  case (1 v)
  have pos: "v > 0" using "1.prems" by (simp add: unat_gt_0 word_gt_0)
  have q: "unat (drop_bit 7 v) = unat v div 128"
    using unat_drop_bit_div [of 7 v] by simp
  show ?case
  proof (cases "unat v < 128")
    case True
    with q have "drop_bit 7 v = 0" by (simp only: word_unat_eq_iff) simp
    with True pos show ?thesis
      by (simp add: base128_len.simps [of v] base128_len.simps [of 0] base128_digits.simps [of "unat v"])
  next
    case False
    with q have "0 < unat (drop_bit 7 v)" by simp
    with "1.IH" [OF pos] q have "base128_len (drop_bit 7 v) = length (base128_digits (unat v div 128))"
      by simp
    with False pos show ?thesis
      by (simp add: base128_len.simps [of v] base128_digits.simps [of "unat v"])
  qed
qed

lemma base128_byte_eq:
  "base128_byte v i = (if i = 0 then word_of_nat (unat v mod 128) else more_byte (unat v div 128 ^ i mod 128))"
proof -
  have "drop_bit (7 * i) v AND 0x7f = take_bit 7 (drop_bit (7 * i) v)"
    by (simp add: take_bit_eq_mask mask_eq_exp_minus_1)
  then have "unat (drop_bit (7 * i) v AND 0x7f) = unat (drop_bit (7 * i) v) mod 128"
    by (simp only: unsigned_take_bit_eq) (simp add: take_bit_eq_mod)
  also have "unat (drop_bit (7 * i) v) = unat v div 128 ^ i"
    by (simp only: unat_drop_bit_div power_mult) simp
  finally have u: "ucast (drop_bit (7 * i) v AND 0x7f) = (word_of_nat (unat v div 128 ^ i mod 128) :: u8)"
    by (metis of_nat_unat)
  have "(word_of_nat d :: u8) OR 0x80 = more_byte d" if "d < 128" for d
  proof -
    have "unat (push_bit 7 1 OR (word_of_nat d :: u8)) = 1 * 2 ^ 7 + unat (word_of_nat d :: u8)"
      using unat_push_bit_or [of "1 :: u8" 7 "word_of_nat d"] that by simp
    then have "unat (push_bit 7 1 OR (word_of_nat d :: u8)) = unat (more_byte d)"
      using that by (simp add: unat_more_byte)
    then have "push_bit 7 1 OR (word_of_nat d :: u8) = more_byte d"
      by (simp only: word_unat_eq_iff)
    then show ?thesis by (simp add: or.commute)
  qed
  then show ?thesis
    unfolding base128_byte_def Let_def u by simp
qed

definition base128_count :: "u64 \<Rightarrow> nat" where
  "base128_count v = (if base128_len v = 0 then 1 else base128_len v)"

lemma base128_bytes_eq: "base128_bytes (unat v) = map (base128_byte v) (rev [0..<base128_count v])"
proof (cases "unat v < 128")
  case True
  have "base128_count v = 1"
  proof (cases "unat v = 0")
    case False
    with True show ?thesis
      by (simp add: base128_count_def base128_len_eq base128_digits.simps [of "unat v"])
  next
    case True
    then have "v = 0" by (simp only: unat_eq_zero)
    then show ?thesis by (simp add: base128_count_def base128_len.simps)
  qed
  with True show ?thesis
    by (simp add: base128_bytes_def base128_byte_eq)
next
  case False
  let ?q = "unat v div 128"
  have count: "base128_count v = Suc (length (base128_digits ?q))"
    using False by (simp add: base128_count_def base128_len_eq base128_digits.simps [of "unat v"])
  have "base128_more ?q = map (\<lambda>i. more_byte (?q div 128 ^ i mod 128)) (rev [0..<length (base128_digits ?q)])"
    unfolding base128_more_def by (subst base128_digits_eq) (simp add: comp_def)
  with False show ?thesis
    by (simp add: base128_bytes_def count map_rev_upt_Suc base128_byte_eq div_mult2_eq del: upt_Suc)
qed

lemma spec_add_Nil_innermost: "innermost h ls \<Longrightarrow> spec_add h [] ls = Some ls"
proof -
  assume h: "innermost h ls"
  then have "take h ls @ [ls ! h] = ls"
    using take_Suc_conv_app_nth [of h ls] by simp
  with h show ?thesis by (simp add: spec_add_here level_add_def)
qed

lemma pret_implements: "cbb_implements (innermost h) (\<lambda>sys. pret ()) (spec_add h [])"
  by unfold_locales (auto simp: spec_add_Nil_innermost)

lemma implements_add_add:
  assumes f: "cbb_implements P f (spec_add h x)" and g: "cbb_implements (innermost h) g (spec_add h y)"
  shows "cbb_implements P (\<lambda>sys. pbind (f sys) (\<lambda>_. g sys)) (spec_add h (x @ y))"
proof -
  have "cbb_implements P (\<lambda>sys. pbind (f sys) (\<lambda>_. g sys)) (\<lambda>ls. Option.bind (spec_add h x ls) (spec_add h y))"
    by (rule implements_bind [OF f g]) (rule spec_add_length)
  then show ?thesis by simp
qed

lemma add_base128_loop_implements:
  "cbb_implements (innermost h) (\<lambda>sys. add_base128_loop sys h v n) (spec_add h (map (base128_byte v) (rev [0..<n])))"
proof (induction n)
  case 0
  show ?case using pret_implements [of h] by (simp only: add_base128_loop.simps upt_0 rev.simps list.map)
next
  case (Suc n)
  from implements_add_add [OF implements_weaken [OF CBB_add_u8_implements] Suc]
  show ?case by simp
qed

lemma add_base128_integer_implements:
  "cbb_implements (innermost h) (\<lambda>sys. add_base128_integer sys h v) (spec_add h (base128_bytes (unat v)))"
  using add_base128_loop_implements [of h v "base128_count v"]
  by (simp add: add_base128_integer_def base128_bytes_eq base128_count_def)

text \<open>The identifier octets of \<open>CBB_add_asn1\<close>.\<close>

lemma der_tag_words:
  "der_tag tag =
    (if tag AND CBS_ASN1_TAG_NUMBER_MASK \<ge> 0x1f
     then ((ucast (drop_bit CBS_ASN1_TAG_SHIFT tag) AND 0xe0) OR 0x1f) #
        base128_bytes (unat (ucast (tag AND CBS_ASN1_TAG_NUMBER_MASK) :: u64))
     else [(ucast (drop_bit CBS_ASN1_TAG_SHIFT tag) AND 0xe0) OR ucast (tag AND CBS_ASN1_TAG_NUMBER_MASK)])"
proof -
  let ?c = "unat tag div 2 ^ 29" and ?num = "tag AND CBS_ASN1_TAG_NUMBER_MASK"
  have "?num = take_bit 29 tag"
    by (simp add: CBS_ASN1_TAG_NUMBER_MASK_def CBS_ASN1_TAG_SHIFT_def take_bit_eq_mask mask_eq_exp_minus_1)
  then have num: "unat ?num = unat tag mod 2 ^ 29"
    by (simp only: unsigned_take_bit_eq) (simp add: take_bit_eq_mod)
  have "(ucast (drop_bit CBS_ASN1_TAG_SHIFT tag) AND 0xe0 :: u8) = push_bit 5 (ucast (drop_bit 29 tag))"
  proof (rule bit_word_eqI)
    fix n assume n: "n < LENGTH(8)"
    have "bit (ucast (drop_bit CBS_ASN1_TAG_SHIFT tag) AND 0xe0 :: u8) n \<longleftrightarrow> 5 \<le> n \<and> bit tag (24 + n)"
      using n by (simp only: bit_and_iff bit_0xe0_iff bit_unsigned_iff bit_drop_bit_eq comp_def
          CBS_ASN1_TAG_SHIFT_def possible_bit_word) auto
    also have "\<dots> \<longleftrightarrow> bit (push_bit 5 (ucast (drop_bit 29 tag)) :: u8) n"
      using n by (auto simp: bit_simps)
    finally show "bit (ucast (drop_bit CBS_ASN1_TAG_SHIFT tag) AND 0xe0 :: u8) n =
      bit (push_bit 5 (ucast (drop_bit 29 tag)) :: u8) n" .
  qed
  moreover have c: "unat (ucast (drop_bit 29 tag) :: u8) = ?c"
  proof -
    have "unat (ucast (drop_bit 29 tag) :: u8) = take_bit LENGTH(8) (unat (drop_bit 29 tag))"
      by (rule unsigned_ucast_eq)
    then show ?thesis
      using unat_tag_class [of tag] by (simp only: unat_drop_bit_div) (simp add: take_bit_eq_mod)
  qed
  ultimately have top: "unat ((ucast (drop_bit CBS_ASN1_TAG_SHIFT tag) AND 0xe0) OR w) = ?c * 32 + unat w"
    if "unat w < 32" for w :: u8
    using unat_push_bit_or [of "ucast (drop_bit 29 tag) :: u8" 5 w] that unat_tag_class [of tag] by simp
  have high: "?num \<ge> 0x1f \<longleftrightarrow> 31 \<le> unat tag mod 2 ^ 29"
    by (simp add: word_le_nat_alt num)
  show ?thesis
  proof (cases "31 \<le> unat tag mod 2 ^ 29")
    case True
    have "(ucast (drop_bit CBS_ASN1_TAG_SHIFT tag) AND 0xe0) OR 0x1f = (word_of_nat (?c * 32 + 31) :: u8)"
      using top [of "0x1f"] by (simp only: word_unat_eq_iff unat_u8_of_nat) (use unat_tag_class [of tag] in simp)
    with True high show ?thesis
      by (simp add: der_tag_def Let_def unat_ucast_u64 num)
  next
    case False
    have low: "unat (ucast ?num :: u8) = unat tag mod 2 ^ 29"
    proof -
      have "unat (ucast ?num :: u8) = take_bit LENGTH(8) (unat ?num)"
        by (rule unsigned_ucast_eq)
      then show ?thesis using False by (simp add: num take_bit_eq_mod)
    qed
    have "(ucast (drop_bit CBS_ASN1_TAG_SHIFT tag) AND 0xe0) OR ucast ?num =
        (word_of_nat (?c * 32 + unat tag mod 2 ^ 29) :: u8)"
      using top [of "ucast ?num"] False
      by (simp only: word_unat_eq_iff unat_u8_of_nat low) (use unat_tag_class [of tag] in simp)
    with False high show ?thesis
      by (simp add: der_tag_def Let_def)
  qed
qed

lemma CBB_add_asn1_implements: "cbb_op (\<lambda>sys. CBB_add_asn1 sys h tag) (spec_open h (der_tag tag) Asn1)"
proof -
  let ?bits = "ucast (drop_bit CBS_ASN1_TAG_SHIFT tag) AND 0xe0 :: u8"
  let ?num = "tag AND CBS_ASN1_TAG_NUMBER_MASK"
  let ?frame = "\<lambda>st. \<lparr>fr_offset = base_len (cbb_base st), fr_pending_len_len = 1, fr_pending_is_asn1 = True\<rparr>"
  define id_octets where "id_octets = (\<lambda>sys.
    if ?num \<ge> 0x1f then pbind (CBB_add_u8 sys h (?bits OR 0x1f)) (\<lambda>_. add_base128_integer sys h (ucast ?num))
    else CBB_add_u8 sys h (?bits OR ucast ?num))"
  have id_octets: "cbb_implements (innermost h) id_octets (spec_add h (der_tag tag))"
  proof (cases "?num \<ge> 0x1f")
    case True
    from implements_add_add [OF implements_weaken [OF CBB_add_u8_implements] add_base128_integer_implements]
    show ?thesis using True by (simp add: id_octets_def der_tag_words)
  next
    case False
    then show ?thesis
      using implements_weaken [OF CBB_add_u8_implements] by (simp add: id_octets_def der_tag_words)
  qed
  have "cbb_implements (innermost h)
      (\<lambda>sys st. pbind (CBB_add_u8 sys h 0) (\<lambda>_. cbb_push (?frame st)) st) (spec_push Asn1)"
    using implements_push [of h "\<lambda>sys. CBB_add_u8 sys h 0" Asn1] implements_weaken [OF CBB_add_u8_implements]
    by simp
  with id_octets have "cbb_implements (innermost h)
      (\<lambda>sys. pbind (id_octets sys) (\<lambda>_ st. pbind (CBB_add_u8 sys h 0) (\<lambda>_. cbb_push (?frame st)) st))
      (\<lambda>ls. Option.bind (spec_add h (der_tag tag) ls) (spec_push Asn1))"
    by (rule implements_bind) (rule spec_add_length)
  then have "cbb_op (\<lambda>sys. pbind (CBB_flush sys h) (\<lambda>_.
      pbind (id_octets sys) (\<lambda>_ st. pbind (CBB_add_u8 sys h 0) (\<lambda>_. cbb_push (?frame st)) st)))
      (spec_open h (der_tag tag) Asn1)"
  proof (rule implements_flush_bind)
    fix ls
    show "Option.bind (spec_add h [] ls) (\<lambda>ls. Option.bind (spec_add h (der_tag tag) ls) (spec_push Asn1)) =
        spec_open h (der_tag tag) Asn1 ls"
      by (simp add: spec_add_push_bind spec_add_open)
  qed
  then show ?thesis
    by (simp add: CBB_add_asn1_def id_octets_def Let_def)
qed

text \<open>The calls the theories built on this one compose: the contract, on the code's own functions.\<close>

interpretation flush_op: cbb_implements "\<lambda>_. True" "\<lambda>sys. CBB_flush sys h" "spec_add h []" for h
  by (rule CBB_flush_implements)

interpretation add_u8_op: cbb_implements "\<lambda>_. True" "\<lambda>sys. CBB_add_u8 sys h b" "spec_add h [b]" for h b
  by (rule CBB_add_u8_implements)

interpretation add_asn1_op: cbb_implements "\<lambda>_. True" "\<lambda>sys. CBB_add_asn1 sys h tag"
  "spec_open h (der_tag tag) Asn1" for h tag
  by (rule CBB_add_asn1_implements)

end
