(* ===== verification/Der_Build.thy ===== *)
theory Der_Build
  imports Cbb_Spec "HOL-Library.List_Lexorder"
begin

text \<open>
  Whole DER elements built with the functions of theory \<open>Cbb\<close>, and read back with those of
  theory \<open>Cbs\<close>: the contents of INTEGER and BOOLEAN, the \<open>CBB_add_asn1_*\<close> helpers as
  additions of one finished element, and the order of a SET OF.
\<close>

section \<open>Whole elements\<close>

lemma spec_open_length: "spec_open h x p ls = Some ls' \<Longrightarrow> innermost (Suc h) ls'"
  by (auto simp: spec_open_def dest: spec_add_length)

text \<open>Opening a child, filling it and closing it is adding the finished prefix and contents.\<close>

lemma spec_child:
  assumes "close_prefix p data = Some x"
  shows "Option.bind (spec_open h hdr p ls) (\<lambda>ls. Option.bind (spec_add (Suc h) data ls) (spec_add h [])) =
    spec_add h (hdr @ x) ls"
proof (cases "spec_add h hdr ls")
  case None
  then show ?thesis
    by (auto simp: spec_open_def spec_add_def split: if_splits)
next
  case (Some ms)
  then have ms: "innermost h ms" by (rule spec_add_length)
  then have "spec_add (Suc h) data (ms @ [(p, [])]) = Some (ms @ [(p, data)])"
    by (simp add: spec_add_here level_add_def nth_append)
  moreover have "spec_add h [] (ms @ [(p, data)]) = spec_add h x ms"
    using assms ms by (simp add: spec_add_def level_add_def nth_append)
  moreover have "spec_add h x ms = spec_add h (hdr @ x) ls"
    using Some spec_add_add [of h hdr ls x] by simp
  ultimately show ?thesis
    using Some by (simp add: spec_open_def)
qed

lemma close_prefix_Asn1: "length c \<le> 0xfffffffe \<Longrightarrow> close_prefix Asn1 c = Some (der_length (length c) @ c)"
  by simp

lemma implements_element:
  assumes f: "cbb_implements (innermost (Suc h)) f (spec_add (Suc h) c)" and c: "length c \<le> 0xfffffffe"
  shows "cbb_op (\<lambda>sys. pbind (CBB_add_asn1 sys h tag) (\<lambda>_. pbind (f sys) (\<lambda>_. CBB_flush sys h)))
    (spec_add h (der_element tag c))"
proof -
  have "cbb_implements (innermost (Suc h)) (\<lambda>sys. pbind (f sys) (\<lambda>_. CBB_flush sys h))
      (\<lambda>ls. Option.bind (spec_add (Suc h) c ls) (spec_add h []))"
    by (rule implements_bind [OF f CBB_flush_implements]) simp
  then have "cbb_op (\<lambda>sys. pbind (CBB_add_asn1 sys h tag) (\<lambda>_. pbind (f sys) (\<lambda>_. CBB_flush sys h)))
      (\<lambda>ls. Option.bind (spec_open h (der_tag tag) Asn1 ls)
        (\<lambda>ls. Option.bind (spec_add (Suc h) c ls) (spec_add h [])))"
    by (rule implements_bind [OF CBB_add_asn1_implements]) (rule spec_open_length)
  then show ?thesis
    by (rule implements_cong)
      (simp only: spec_child [OF close_prefix_Asn1 [OF c]] der_element_def der_header_def append_assoc)
qed

lemma CBB_add_asn1_octet_string_implements:
  "length data \<le> 0xfffffffe \<Longrightarrow>
   cbb_op (\<lambda>sys. CBB_add_asn1_octet_string sys h data) (spec_add h (der_element CBS_ASN1_OCTETSTRING data))"
  unfolding CBB_add_asn1_octet_string_def
  by (intro implements_element implements_weaken [OF CBB_add_bytes_implements]) auto

definition der_bool :: "bool \<Rightarrow> u8 list" where
  "der_bool b = [if b then 0xff else 0]"

lemma CBB_add_asn1_bool_implements:
  "cbb_op (\<lambda>sys. CBB_add_asn1_bool sys h v) (spec_add h (der_element CBS_ASN1_BOOLEAN (der_bool (v \<noteq> 0))))"
  using implements_element [OF implements_weaken [OF CBB_add_u8_implements [of "Suc h" "if v \<noteq> 0 then 0xff else 0"]],
      of CBS_ASN1_BOOLEAN]
  by (simp add: CBB_add_asn1_bool_def der_bool_def)

text \<open>The contents of an unsigned INTEGER: no leading zeros but the one that keeps it positive.\<close>

definition der_uint :: "u8 list \<Rightarrow> u8 list" where
  "der_uint bytes =
     (case dropWhile (\<lambda>b. b = 0) bytes of
        [] \<Rightarrow> [0]
      | b # bs \<Rightarrow> if b AND 0x80 \<noteq> 0 then 0 # b # bs else b # bs)"

lemma be_bytes_Suc_Cons: "be_bytes (Suc m) v = word_of_nat (v div 256 ^ m) # be_bytes m v"
  using be_bytes_split [of 1 m v] by simp

lemma ucast_drop_byte: "(ucast (drop_bit (8 * m) v AND 0xff) :: u8) = word_of_nat (unat (v :: u64) div 256 ^ m)"
proof -
  have "(ucast (drop_bit (8 * m) v AND 0xff) :: u8) = ucast (drop_bit (8 * m) v)"
  proof -
    have "drop_bit (8 * m) v AND 0xff = take_bit 8 (drop_bit (8 * m) v)"
      by (simp add: take_bit_eq_mask mask_eq_exp_minus_1)
    then show ?thesis
      by (simp only:) (rule bit_word_eqI, auto simp: bit_simps)
  qed
  also have "\<dots> = word_of_nat (unat (drop_bit (8 * m) v))"
    by (rule of_nat_unat [symmetric])
  also have "unat (drop_bit (8 * m) v) = unat v div 256 ^ m"
    by (simp only: unat_drop_bit_div byte_width)
  finally show ?thesis .
qed

lemma asn1_uint64_bytes_started:
  "cbb_implements (innermost c) (\<lambda>sys. asn1_uint64_bytes_loop sys c v True m) (spec_add c (be_bytes m (unat v)))"
proof (induction m)
  case 0
  show ?case using pret_implements [of c] by (simp only: asn1_uint64_bytes_loop.simps be_bytes.simps simp_thms if_False)
next
  case (Suc m)
  have eq: "asn1_uint64_bytes_loop sys c v True (Suc m) =
      pbind (CBB_add_u8 sys c (word_of_nat (unat v div 256 ^ m))) (\<lambda>_. asn1_uint64_bytes_loop sys c v True m)" for sys
    by (simp only: asn1_uint64_bytes_loop.simps ucast_drop_byte Let_def simp_thms if_False pbind_pret)
  show ?case
    unfolding eq be_bytes_Suc_Cons
    using implements_add_add [OF implements_weaken [OF CBB_add_u8_implements] Suc] by simp
qed

lemma asn1_uint64_bytes_implements:
  "cbb_implements (innermost c) (\<lambda>sys. asn1_uint64_bytes_loop sys c v False m)
     (spec_add c (der_uint (be_bytes m (unat v))))"
proof (induction m)
  case 0
  show ?case using implements_weaken [OF CBB_add_u8_implements] by (simp add: der_uint_def)
next
  case (Suc m)
  let ?b = "word_of_nat (unat v div 256 ^ m) :: u8"
  have eq: "asn1_uint64_bytes_loop sys c v False (Suc m) =
      (if ?b = 0 then asn1_uint64_bytes_loop sys c v False m
       else pbind (if ?b AND 0x80 \<noteq> 0 then CBB_add_u8 sys c 0 else pret ())
         (\<lambda>_. pbind (CBB_add_u8 sys c ?b) (\<lambda>_. asn1_uint64_bytes_loop sys c v True m)))" for sys
    by (simp only: asn1_uint64_bytes_loop.simps ucast_drop_byte Let_def) simp
  note tail = implements_add_add [OF implements_weaken [OF CBB_add_u8_implements [of c ?b]]
      asn1_uint64_bytes_started [of c v m]]
  consider "?b = 0" | "?b \<noteq> 0" "?b AND 0x80 \<noteq> 0" | "?b \<noteq> 0" "?b AND 0x80 = 0"
    by blast
  then show ?case
  proof cases
    case 1
    then have "der_uint (be_bytes (Suc m) (unat v)) = der_uint (be_bytes m (unat v))"
      unfolding der_uint_def be_bytes_Suc_Cons by simp
    with 1 Suc show ?thesis unfolding eq by simp
  next
    case 2
    then have "der_uint (be_bytes (Suc m) (unat v)) = [0] @ [?b] @ be_bytes m (unat v)"
      unfolding der_uint_def be_bytes_Suc_Cons by simp
    with implements_add_add [OF implements_weaken [OF CBB_add_u8_implements [of c 0]] tail] 2
    show ?thesis unfolding eq by simp
  next
    case 3
    then have "der_uint (be_bytes (Suc m) (unat v)) = [?b] @ be_bytes m (unat v)"
      unfolding der_uint_def be_bytes_Suc_Cons by simp
    with tail 3 show ?thesis unfolding eq by simp
  qed
qed

lemma length_der_uint: "length (der_uint bs) \<le> Suc (length bs)"
  using length_dropWhile_le [of "\<lambda>b. b = 0" bs] by (auto simp: der_uint_def split: list.splits)

lemma CBB_add_asn1_uint64_implements:
  "cbb_op (\<lambda>sys. CBB_add_asn1_uint64 sys h v)
     (spec_add h (der_element CBS_ASN1_INTEGER (der_uint (be_bytes 8 (unat v)))))"
proof -
  have "length (der_uint (be_bytes 8 (unat v))) \<le> 0xfffffffe"
    using length_der_uint [of "be_bytes 8 (unat v)"] by simp
  from implements_element [OF asn1_uint64_bytes_implements this] show ?thesis
    by (simp only: CBB_add_asn1_uint64_def)
qed

section \<open>Reading INTEGERs back\<close>

lemma be_nat_replicate_0 [simp]: "be_nat (replicate k 0 @ xs) = be_nat xs"
  by (induction k) auto

lemma be_nat_dropWhile_0: "be_nat (dropWhile (\<lambda>b. b = 0) xs) = be_nat xs"
  by (induction xs) auto

lemma der_uint_Nil: "dropWhile (\<lambda>b. b = 0) bs = [] \<Longrightarrow> der_uint bs = [0]"
  by (simp only: der_uint_def list.case)

lemma der_uint_Cons:
  "dropWhile (\<lambda>b. b = 0) bs = b # u \<Longrightarrow> der_uint bs = (if b AND 0x80 \<noteq> 0 then [0, b] @ u else b # u)"
  by (simp add: der_uint_def)

lemma be_nat_der_uint [simp]: "be_nat (der_uint bs) = be_nat bs"
proof (cases "dropWhile (\<lambda>b. b = 0) bs")
  case Nil
  then show ?thesis
    using be_nat_dropWhile_0 [of bs] unfolding Nil der_uint_Nil [OF Nil] by simp
next
  case (Cons b u)
  then show ?thesis
    using be_nat_dropWhile_0 [of bs] by (simp add: der_uint_Cons [OF Cons])
qed

lemma be_bytes_pad:
  assumes "x \<noteq> 0" and "be_nat (x # xs) < 256 ^ n"
  shows "length (x # xs) \<le> n" and "be_bytes n (be_nat (x # xs)) = replicate (n - length (x # xs)) 0 @ x # xs"
proof -
  have "1 \<le> unat x"
    using assms(1) unat_gt_0 [of x] by linarith
  then have "1 * 256 ^ length xs \<le> unat x * 256 ^ length xs"
    by (rule mult_le_mono1)
  then have "256 ^ length xs \<le> be_nat (x # xs)"
    unfolding be_nat.simps by linarith
  with assms(2) have "(256 :: nat) ^ length xs < 256 ^ n"
    by (rule le_less_trans [rotated])
  then show len: "length (x # xs) \<le> n"
    by (simp add: power_strict_increasing_iff)
  have "length (replicate (n - length (x # xs)) 0 @ x # xs) = n"
    using len by simp
  then show "be_bytes n (be_nat (x # xs)) = replicate (n - length (x # xs)) 0 @ x # xs"
    using be_bytes_be_nat [of "replicate (n - length (x # xs)) 0 @ x # xs"] by (simp only: be_nat_replicate_0)
qed

lemma valid_integer_cases:
  "CBS_is_valid_asn1_integer c = Some neg \<longleftrightarrow>
    (\<exists>b bs. c = b # bs \<and> neg = (b AND 0x80 \<noteq> 0) \<and>
      (bs = [] \<or> \<not> (b = 0 \<and> hd bs AND 0x80 = 0 \<or> b = 0xff \<and> hd bs AND 0x80 \<noteq> 0)))"
proof (cases c)
  case Nil
  then show ?thesis by (simp add: CBS_is_valid_asn1_integer_def)
next
  case (Cons b bs)
  then show ?thesis
    by (cases bs) (auto simp: CBS_is_valid_asn1_integer_def)
qed

lemma u8_0_high [simp]: "(0 :: u8) AND 0x80 = 0"
  by simp

lemma u8_high_neq_0: "b AND 0x80 \<noteq> 0 \<Longrightarrow> b \<noteq> (0 :: u8)"
  by auto

lemma unsigned_der_uint: "CBS_is_unsigned_asn1_integer (der_uint bs)"
proof (cases "dropWhile (\<lambda>b. b = 0) bs")
  case Nil
  show ?thesis
    unfolding der_uint_Nil [OF Nil] by (simp add: CBS_is_unsigned_asn1_integer_def valid_integer_cases)
next
  case (Cons b u)
  then have "b \<noteq> 0"
    using hd_dropWhile [of "\<lambda>b. b = 0" bs] by simp
  then show ?thesis
    unfolding der_uint_Cons [OF Cons] by (auto simp: CBS_is_unsigned_asn1_integer_def valid_integer_cases)
qed

lemma dropWhile_replicate_0: "x \<noteq> 0 \<Longrightarrow> dropWhile (\<lambda>b. b = 0) (replicate k 0 @ x # xs) = x # xs"
  by (induction k) auto

lemma der_uint_be_nat:
  assumes "CBS_is_unsigned_asn1_integer c" and "be_nat c < 256 ^ n"
  shows "der_uint (be_bytes n (be_nat c)) = c"
proof -
  from assms(1) obtain b bs where c: "c = b # bs" and b: "b AND 0x80 = 0"
    and bs: "bs = [] \<or> \<not> (b = 0 \<and> hd bs AND 0x80 = 0)"
    by (auto simp: CBS_is_unsigned_asn1_integer_def valid_integer_cases)
  show ?thesis
  proof (cases "b = 0")
    case False
    then show ?thesis
      using be_bytes_pad(2) [OF False, of bs n] assms(2) b
      by (simp add: c der_uint_def dropWhile_replicate_0 del: be_nat.simps)
  next
    case b0: True
    show ?thesis
    proof (cases bs)
      case Nil
      have "be_bytes n 0 = replicate n 0"
        using be_bytes_be_nat [of "replicate n 0"] be_nat_replicate_0 [of n "[]"] by simp
      then have "dropWhile (\<lambda>b. b = 0) (be_bytes n 0) = []"
        by simp
      from der_uint_Nil [OF this] b0 Nil show ?thesis by (simp add: c)
    next
      case (Cons x xs)
      with bs b0 have "x AND 0x80 \<noteq> 0" by simp
      moreover from this have "x \<noteq> 0" by (rule u8_high_neq_0)
      moreover have "be_nat c = be_nat (x # xs)"
        by (simp add: c b0 Cons)
      ultimately show ?thesis
        using be_bytes_pad(2) [of x xs n] assms(2)
        by (simp add: c b0 Cons der_uint_def dropWhile_replicate_0 del: be_nat.simps)
    qed
  qed
qed

lemma asn1_uint64_loop_eq:
  "asn1_uint64_loop out data =
    (if data = [] \<or> unat out * 256 ^ length data + be_nat data < 2 ^ 64
     then Some (word_of_nat (unat out * 256 ^ length data + be_nat data)) else None)"
proof (induction data arbitrary: out)
  case Nil
  then show ?case by simp
next
  case (Cons b data)
  have top: "drop_bit 56 out = 0 \<longleftrightarrow> unat out < 2 ^ 56"
    by (rule drop_bit_eq_0_iff_less)
  show ?case
  proof (cases "unat out < 2 ^ 56")
    case True
    have "unat (push_bit 8 out OR ucast b) = unat out * 2 ^ 8 + unat (ucast b :: u64)"
    proof (rule unat_push_bit_or)
      show "unat (ucast b :: u64) < 2 ^ 8"
        using unat_ucast_u64 [of b] unat_u8_less [of b] by simp
      with True show "unat out * 2 ^ 8 + unat (ucast b :: u64) < 2 ^ LENGTH(64)"
        by simp
    qed
    then have out: "unat (push_bit 8 out OR ucast b) = unat out * 256 + unat b"
      using unat_ucast_u64 [of b] by simp
    have "unat out * 256 + unat b < (unat out + 1) * 256"
      using unat_u8_less [of b] by (simp only: distrib_right add_less_cancel_left mult_1)
    also have "(unat out + 1) * 256 \<le> 2 ^ 56 * 256"
      using True by (intro mult_le_mono1) simp
    finally have "unat out * 256 + unat b < 2 ^ 64"
      by simp
    moreover have total: "unat out * 256 ^ length (b # data) + be_nat (b # data) =
        (unat out * 256 + unat b) * 256 ^ length data + be_nat data"
      by (simp add: algebra_simps)
    moreover have step: "asn1_uint64_loop out (b # data) = asn1_uint64_loop (push_bit 8 out OR ucast b) data"
      using True top by simp
    ultimately show ?thesis
      unfolding step total Cons.IH [of "push_bit 8 out OR ucast b"] out
      by (cases "data = []") (simp_all del: of_nat_add of_nat_mult)
  next
    case False
    then have "2 ^ 56 * 256 ^ length (b # data) \<le> unat out * 256 ^ length (b # data)"
      by (intro mult_le_mono1) simp
    moreover have "(2 :: nat) ^ 64 \<le> 2 ^ 56 * 256 ^ length (b # data)"
      by simp
    ultimately have "\<not> unat out * 256 ^ length (b # data) + be_nat (b # data) < 2 ^ 64"
      by linarith
    with False top show ?thesis by (simp del: be_nat.simps)
  qed
qed

lemma CBS_get_asn1_uint64_Some_iff:
  "CBS_get_asn1_uint64 s = (Some v, t) \<longleftrightarrow>
    s = der_element CBS_ASN1_INTEGER (der_uint (be_bytes 8 (unat v))) @ t"
proof
  assume "CBS_get_asn1_uint64 s = (Some v, t)"
  then obtain c where c: "CBS_get_asn1 CBS_ASN1_INTEGER s = (Some c, t)" "CBS_is_unsigned_asn1_integer c"
    "asn1_uint64_loop 0 c = Some v"
    by (auto simp: CBS_get_asn1_uint64_def pbind_Some_iff CBS_data_def split: if_splits option.splits)
  then have "c \<noteq> []"
    by (auto simp: CBS_is_unsigned_asn1_integer_def valid_integer_cases)
  with c have "be_nat c < 2 ^ 64" and v: "v = word_of_nat (be_nat c)"
    by (auto simp: asn1_uint64_loop_eq split: if_splits)
  then have "be_nat c < 256 ^ 8" and "unat v = be_nat c"
    by (simp_all add: unat_u64_of_nat)
  with der_uint_be_nat [OF c(2)] c(1) show "s = der_element CBS_ASN1_INTEGER (der_uint (be_bytes 8 (unat v))) @ t"
    by (simp add: CBS_get_asn1_Some_iff)
next
  let ?c = "der_uint (be_bytes 8 (unat v))"
  assume s: "s = der_element CBS_ASN1_INTEGER ?c @ t"
  have "length ?c < 2 ^ 32"
    using length_der_uint [of "be_bytes 8 (unat v)"] by simp
  then have "CBS_get_asn1 CBS_ASN1_INTEGER s = (Some ?c, t)"
    by (simp add: s CBS_get_asn1_Some_iff)
  moreover have "asn1_uint64_loop 0 ?c = Some v"
    using unat_u64_less [of v] by (simp add: asn1_uint64_loop_eq)
  ultimately show "CBS_get_asn1_uint64 s = (Some v, t)"
    by (simp add: CBS_get_asn1_uint64_def unsigned_der_uint CBS_data_def)
qed

text \<open>Signed INTEGERs: leading sign bytes are dropped while the sign stays readable.\<close>

fun strip_sign :: "u8 list \<Rightarrow> u8 list" where
  "strip_sign (a # b # bs) = (if a = 0xff \<and> b AND 0x80 \<noteq> 0 then strip_sign (b # bs) else a # b # bs)"
| "strip_sign bs = bs"

definition der_int :: "u64 \<Rightarrow> u8 list" where
  "der_int v =
     (if 0 \<le> sint v then der_uint (be_bytes 8 (unat v)) else strip_sign (be_bytes 8 (unat v)))"

lemma strip_sign_start:
  "n < length bytes \<Longrightarrow>
   rev (take (Suc (int64_start bytes n)) bytes) = strip_sign (rev (take (Suc n) bytes))"
proof (induction n)
  case 0
  then show ?case by (cases bytes) auto
next
  case (Suc n)
  have two: "rev (take (Suc (Suc n)) bytes) = bytes ! Suc n # bytes ! n # rev (take n bytes)"
    using Suc.prems by (simp add: take_Suc_conv_app_nth)
  have one: "rev (take (Suc n) bytes) = bytes ! n # rev (take n bytes)"
    using Suc.prems by (simp add: take_Suc_conv_app_nth)
  show ?case
    using Suc two one by (simp del: take_Suc)
qed

lemma add_bytes_down_implements:
  "n \<le> length bytes \<Longrightarrow>
   cbb_implements (innermost c) (\<lambda>sys. add_bytes_down sys c bytes n) (spec_add c (rev (take n bytes)))"
proof (induction n)
  case 0
  show ?case using pret_implements [of c] by (simp only: add_bytes_down.simps take_0 rev.simps)
next
  case (Suc n)
  from implements_add_add [OF implements_weaken [OF CBB_add_u8_implements] Suc.IH] Suc.prems
  show ?case by (simp add: take_Suc_conv_app_nth)
qed

lemma length_strip_sign: "length (strip_sign bs) \<le> length bs"
  by (induction bs rule: strip_sign.induct) auto

lemma CBB_add_asn1_int64_implements:
  "cbb_op (\<lambda>sys. CBB_add_asn1_int64 sys h v) (spec_add h (der_element CBS_ASN1_INTEGER (der_int v)))"
proof (cases "0 \<le> sint v")
  case True
  then show ?thesis
    using CBB_add_asn1_uint64_implements [of h v] by (simp add: CBB_add_asn1_int64_def der_int_def)
next
  case False
  let ?bytes = "rev (be_bytes 8 (unat v))"
  have "int64_start bytes n \<le> n" for bytes n
    by (induction n) auto
  from this [of ?bytes 7] have start: "Suc (int64_start ?bytes 7) \<le> length ?bytes"
    by simp
  have "rev (take (Suc (int64_start ?bytes 7)) ?bytes) = der_int v"
    using strip_sign_start [of 7 ?bytes] False by (simp add: der_int_def)
  with add_bytes_down_implements [OF start, of "Suc h"] have
    f: "cbb_implements (innermost (Suc h))
      (\<lambda>sys. add_bytes_down sys (Suc h) ?bytes (Suc (int64_start ?bytes 7))) (spec_add (Suc h) (der_int v))"
    by (simp only:)
  have "length (der_int v) \<le> 0xfffffffe"
    using False length_strip_sign [of "be_bytes 8 (unat v)"] by (simp add: der_int_def)
  from implements_element [OF f this] show ?thesis
    using False by (simp add: CBB_add_asn1_int64_def Let_def)
qed

lemma sint_sign: "0 \<le> sint v \<longleftrightarrow> unat v < 2 ^ 63" for v :: u64
proof -
  have "bit v 63 \<longleftrightarrow> bit (unat v) 63"
    by (simp add: bit_unsigned_iff)
  moreover have "bit (unat v) 63 \<longleftrightarrow> odd (unat v div 2 ^ 63)"
    by (simp add: bit_iff_odd)
  moreover have "unat v div 2 ^ 63 < 2"
    using unat_u64_less [of v] by (simp add: less_mult_imp_div_less)
  ultimately have "bit v 63 \<longleftrightarrow> \<not> unat v < 2 ^ 63"
    by (auto simp: less_2_cases_iff div_eq_0_iff elim: oddE)
  moreover have "bit v 63 \<longleftrightarrow> sint v < 0"
    using bit_last_iff [of v] by simp
  ultimately show ?thesis by auto
qed

text \<open>The sign is the top bit of the first byte, also of a padded string.\<close>

lemma be_nat_sign:
  assumes "length bs = 7" shows "be_nat (b # bs) < 2 ^ 63 \<longleftrightarrow> b AND 0x80 = 0"
proof -
  have "be_nat bs < 256 ^ 7"
    using assms be_nat_less [of bs] by simp
  then have "be_nat (b # bs) div 256 ^ 7 = unat b"
    using assms by simp
  moreover have "be_nat (b # bs) div 256 ^ 7 < 128 \<longleftrightarrow> be_nat (b # bs) < 128 * 256 ^ 7"
    by (rule div_less_iff_less_mult) simp
  ultimately have "be_nat (b # bs) < 2 ^ 63 \<longleftrightarrow> unat b < 128"
    by (simp del: be_nat.simps)
  then show ?thesis by (simp only: u8_and_high_bit)
qed

lemma strip_sign_pad:
  assumes "CBS_is_valid_asn1_integer c = Some True"
  shows "strip_sign (replicate k 0xff @ c) = c"
proof (induction k)
  case 0
  from assms show ?case
    by (auto simp: valid_integer_cases) (case_tac bs; auto)+
next
  case (Suc k)
  from assms obtain b bs where "c = b # bs" "b AND 0x80 \<noteq> 0"
    by (auto simp: valid_integer_cases)
  with Suc show ?case by (cases k) auto
qed

lemma int64_of_contents:
  assumes "CBS_is_valid_asn1_integer c = Some neg" and "length c \<le> 8"
  shows "der_int (word_of_nat (be_nat (replicate (8 - length c) (if neg then 0xff else 0) @ c))) = c"
proof -
  let ?fill = "if neg then 0xff else 0 :: u8"
  let ?p = "replicate (8 - length c) ?fill @ c"
  let ?v = "word_of_nat (be_nat ?p) :: u64"
  have len: "length ?p = 8"
    using assms(2) by simp
  then have "be_nat ?p < 256 ^ 8"
    using be_nat_less [of ?p] by (simp only:)
  then have v: "unat ?v = be_nat ?p"
    by (intro unat_u64_of_nat) simp
  then have bytes: "be_bytes 8 (unat ?v) = ?p"
    using be_bytes_be_nat [of ?p] len by (simp only:)
  obtain b bs where c: "c = b # bs" and neg: "neg = (b AND 0x80 \<noteq> 0)"
    using assms(1) by (auto simp: valid_integer_cases)
  obtain x xs where p: "?p = x # xs" "(x AND 0x80 \<noteq> 0) = neg"
    using c neg by (cases "8 - length c") auto
  have "be_nat ?p < 2 ^ 63 \<longleftrightarrow> x AND 0x80 = 0"
    unfolding p(1) using len p(1) by (intro be_nat_sign) simp
  with p(2) have "be_nat ?p < 2 ^ 63 \<longleftrightarrow> \<not> neg"
    by blast
  then have sign: "0 \<le> sint ?v \<longleftrightarrow> \<not> neg"
    by (simp only: sint_sign v)
  show ?thesis
  proof (cases neg)
    case True
    then have neg_v: "\<not> 0 \<le> sint ?v"
      using sign by blast
    have "strip_sign ?p = c"
      using strip_sign_pad [of c "8 - length c"] assms(1) True by simp
    then show ?thesis
      unfolding der_int_def bytes if_not_P [OF neg_v] .
  next
    case False
    have "be_nat ?p = be_nat c"
      using False by simp
    moreover from this have "be_nat c < 256 ^ 8"
      using \<open>be_nat ?p < 256 ^ 8\<close> by (simp only:)
    moreover have "CBS_is_unsigned_asn1_integer c"
      using assms(1) False by (simp add: CBS_is_unsigned_asn1_integer_def)
    moreover have "0 \<le> sint ?v"
      using sign False by blast
    ultimately show ?thesis
      unfolding v der_int_def by (simp only: if_True) (rule der_uint_be_nat)
  qed
qed

lemma CBS_get_asn1_int64_sound:
  assumes "CBS_get_asn1_int64 s = (Some v, t)"
  shows "s = der_element CBS_ASN1_INTEGER (der_int v) @ t"
proof -
  obtain c s' where c: "CBS_get_asn1 CBS_ASN1_INTEGER s = (Some c, s')" and
    rest: "(case CBS_is_valid_asn1_integer c of None \<Rightarrow> pfail | Some is_negative \<Rightarrow>
      (let data = CBS_data c; len = CBS_len c in if len > 8 then pfail
       else pret (int64_union (rev data @ replicate (8 - len) (if is_negative then 0xff else 0))))) s' = (Some v, t)"
    using assms unfolding CBS_get_asn1_int64_def by (rule pbind_SomeE)
  then obtain neg where neg: "CBS_is_valid_asn1_integer c = Some neg"
    by (cases "CBS_is_valid_asn1_integer c") simp_all
  with rest have len: "length c \<le> 8" and t: "s' = t"
    and v: "v = int64_union (rev c @ replicate (8 - length c) (if neg then 0xff else 0))"
    by (simp_all add: CBS_data_def CBS_len_def Let_def split: if_splits)
  have "der_int v = c"
    using int64_of_contents [OF neg len] by (simp add: v int64_union_def)
  with c t show ?thesis by (simp add: CBS_get_asn1_Some_iff)
qed

lemma strip_sign_split: "\<exists>k. bs = replicate k 0xff @ strip_sign bs"
proof (induction bs rule: strip_sign.induct)
  case (1 a b bs)
  show ?case
  proof (cases "a = 0xff \<and> b AND 0x80 \<noteq> 0")
    case True
    with 1 obtain k where "b # bs = replicate k 0xff @ strip_sign (b # bs)" by blast
    with True have "a # b # bs = replicate (Suc k) 0xff @ strip_sign (a # b # bs)"
      by simp
    then show ?thesis ..
  next
    case False
    then have "a # b # bs = replicate 0 0xff @ strip_sign (a # b # bs)"
      by (simp only: strip_sign.simps if_False replicate_0 append_Nil)
    then show ?thesis ..
  qed
qed (auto intro: exI [of _ 0])

lemma strip_sign_valid: "b AND 0x80 \<noteq> 0 \<Longrightarrow> CBS_is_valid_asn1_integer (strip_sign (b # bs)) = Some True"
proof (induction bs arbitrary: b)
  case (Cons a bs)
  then show ?case by (auto simp: valid_integer_cases)
qed (auto simp: valid_integer_cases)

lemma unsigned_length:
  assumes "CBS_is_unsigned_asn1_integer c" and "be_nat c < 2 ^ 63" shows "length c \<le> 8"
proof -
  from assms(1) obtain b bs where c: "c = b # bs" and bs: "bs = [] \<or> \<not> (b = 0 \<and> hd bs AND 0x80 = 0)"
    by (auto simp: CBS_is_unsigned_asn1_integer_def valid_integer_cases)
  have room: "be_nat c < 256 ^ 8"
    using assms(2) by (rule less_le_trans) simp
  show ?thesis
  proof (cases "b = 0 \<and> bs \<noteq> []")
    case False
    then show ?thesis
      using be_bytes_pad(1) [of b bs 8] room by (cases "b = 0") (auto simp: c)
  next
    case True
    then obtain x xs where x: "bs = x # xs" "x AND 0x80 \<noteq> 0"
      using bs by (cases bs) auto
    have eq: "be_nat c = be_nat (x # xs)"
      using True by (simp add: c x)
    have "be_nat (x # xs) < 256 ^ 8"
      using room by (simp only: eq)
    with u8_high_neq_0 [OF x(2)] have "length (x # xs) \<le> 8"
      by (rule be_bytes_pad)
    moreover have "length xs \<noteq> 7"
      using be_nat_sign [of xs x] x(2) assms(2) by (auto simp only: eq)
    ultimately show ?thesis by (simp add: c x)
  qed
qed

lemma der_int_contents:
  "\<exists>neg. CBS_is_valid_asn1_integer (der_int v) = Some neg \<and> length (der_int v) \<le> 8 \<and>
     be_nat (replicate (8 - length (der_int v)) (if neg then 0xff else 0) @ der_int v) = unat v"
proof (cases "0 \<le> sint v")
  case True
  then have "unat v < 2 ^ 63" by (simp only: sint_sign)
  have "be_nat (der_uint (be_bytes 8 (unat v))) = unat v"
    using unat_u64_less [of v] by simp
  with True \<open>unat v < 2 ^ 63\<close> unsigned_length [OF unsigned_der_uint, of "be_bytes 8 (unat v)"]
    unsigned_der_uint [of "be_bytes 8 (unat v)"] show ?thesis
    by (intro exI [of _ False]) (simp add: der_int_def CBS_is_unsigned_asn1_integer_def)
next
  case False
  let ?bs = "be_bytes 8 (unat v)"
  have be: "be_nat ?bs = unat v"
    using unat_u64_less [of v] by simp
  obtain b u where b: "?bs = b # u"
    by (cases ?bs) auto
  then have "length u = 7"
    using length_be_bytes [of 8 "unat v"] by simp
  with be_nat_sign [of u b] False have "b AND 0x80 \<noteq> 0"
    by (simp only: sint_sign be flip: b) blast
  then have "CBS_is_valid_asn1_integer (strip_sign ?bs) = Some True"
    unfolding b by (rule strip_sign_valid)
  moreover obtain k where k: "?bs = replicate k 0xff @ strip_sign ?bs"
    using strip_sign_split by blast
  moreover have "8 - length (strip_sign ?bs) = k"
  proof -
    have "8 = length (replicate k (0xff :: u8) @ strip_sign ?bs)"
      unfolding k [symmetric] by simp
    then show ?thesis by simp
  qed
  ultimately have "CBS_is_valid_asn1_integer (der_int v) = Some True"
    and "be_nat (replicate (8 - length (der_int v)) 0xff @ der_int v) = unat v"
    using False be by (simp_all only: der_int_def if_False)
  with False length_strip_sign [of ?bs] show ?thesis
    by (intro exI [of _ True]) (simp add: der_int_def)
qed

lemma CBS_get_asn1_int64_Some_iff:
  "CBS_get_asn1_int64 s = (Some v, t) \<longleftrightarrow> s = der_element CBS_ASN1_INTEGER (der_int v) @ t"
proof
  assume s: "s = der_element CBS_ASN1_INTEGER (der_int v) @ t"
  obtain neg where neg: "CBS_is_valid_asn1_integer (der_int v) = Some neg" "length (der_int v) \<le> 8"
    "be_nat (replicate (8 - length (der_int v)) (if neg then 0xff else 0) @ der_int v) = unat v"
    using der_int_contents by blast
  then have "CBS_get_asn1 CBS_ASN1_INTEGER s = (Some (der_int v), t)"
    by (simp add: s CBS_get_asn1_Some_iff)
  moreover have "int64_union (rev (der_int v) @ replicate (8 - length (der_int v)) (if neg then 0xff else 0)) = v"
    unfolding int64_union_def rev_append rev_rev_ident rev_replicate neg(3) by (rule word_of_nat_unat)
  ultimately show "CBS_get_asn1_int64 s = (Some v, t)"
    using neg unfolding CBS_get_asn1_int64_def by (simp add: CBS_data_def CBS_len_def Let_def)
qed (rule CBS_get_asn1_int64_sound)

lemma CBS_get_asn1_bool_Some_iff:
  "CBS_get_asn1_bool s = (Some b, t) \<longleftrightarrow> s = der_element CBS_ASN1_BOOLEAN (der_bool b) @ t"
proof
  assume "CBS_get_asn1_bool s = (Some b, t)"
  then obtain c s' where c: "CBS_get_asn1 CBS_ASN1_BOOLEAN s = (Some c, s')" and
    rest: "(if CBS_len c \<noteq> 1 then pfail else let val = CBS_data c ! 0 in
      if val \<noteq> 0 \<and> val \<noteq> 0xff then pfail else pret (val \<noteq> 0)) s' = (Some b, t)"
    unfolding CBS_get_asn1_bool_def by (rule pbind_SomeE)
  then have len: "length c = 1"
    by (simp add: CBS_len_def split: if_splits)
  then obtain x where x: "c = [x]"
    by (cases c) auto
  from rest have "s' = t" and "b = (x \<noteq> 0)" and "x = 0 \<or> x = 0xff"
    by (auto simp: x CBS_len_def CBS_data_def Let_def split: if_splits)
  with c x show "s = der_element CBS_ASN1_BOOLEAN (der_bool b) @ t"
    by (auto simp: CBS_get_asn1_Some_iff der_bool_def)
next
  assume "s = der_element CBS_ASN1_BOOLEAN (der_bool b) @ t"
  then have "CBS_get_asn1 CBS_ASN1_BOOLEAN s = (Some (der_bool b), t)"
    by (simp add: CBS_get_asn1_Some_iff der_bool_def)
  then show "CBS_get_asn1_bool s = (Some b, t)"
    by (simp add: CBS_get_asn1_bool_def CBS_data_def CBS_len_def der_bool_def)
qed

section \<open>SET OF\<close>

text \<open>The comparison is the lexicographic order of the encodings.\<close>

lemma compare_set_of_element_Cons:
  "compare_set_of_element (x # a) (y # b) = (if x = y then compare_set_of_element a b else uint x - uint y)"
proof (cases "x = y")
  case False
  then have "uint x - uint y \<noteq> 0"
    by (simp add: word_uint_eq_iff)
  with False show ?thesis
    by (simp add: compare_set_of_element_def CBS_len_def CBS_data_def Let_def)
qed (simp add: compare_set_of_element_def CBS_len_def CBS_data_def Let_def)

lemma compare_set_of_element_less: "compare_set_of_element a b < 0 \<longleftrightarrow> a < b"
proof (induction a arbitrary: b)
  case Nil
  then show ?case by (cases b) (simp_all add: compare_set_of_element_def CBS_len_def Let_def)
next
  case (Cons x a)
  show ?case
  proof (cases b)
    case Nil
    then show ?thesis by (simp add: compare_set_of_element_def CBS_len_def Let_def)
  next
    case (Cons y bs)
    with Cons.IH [of bs] show ?thesis
      by (auto simp: compare_set_of_element_Cons word_less_def word_le_def word_uint_eq_iff)
  qed
qed

lemma compare_set_of_element_le: "compare_set_of_element a b \<le> 0 \<longleftrightarrow> a \<le> b"
proof (induction a arbitrary: b)
  case Nil
  then show ?case by (simp add: compare_set_of_element_def CBS_len_def Let_def)
next
  case (Cons x a)
  show ?case
  proof (cases b)
    case Nil
    then show ?thesis by (simp add: compare_set_of_element_def CBS_len_def Let_def)
  next
    case (Cons y bs)
    with Cons.IH [of bs] show ?thesis
      by (auto simp: compare_set_of_element_Cons word_less_def word_le_def word_uint_eq_iff)
  qed
qed

interpretation set_of_order: comparator compare_set_of_element
proof unfold_locales
  fix a b c :: cbs
  show "compare_set_of_element a b < 0 \<longleftrightarrow> 0 < compare_set_of_element b a"
    using compare_set_of_element_le compare_set_of_element_less by (metis linorder_not_le)
  show "compare_set_of_element a b \<le> 0 \<Longrightarrow> compare_set_of_element b c \<le> 0 \<Longrightarrow> compare_set_of_element a c \<le> 0"
    by (auto simp: compare_set_of_element_le)
qed

lemma sorted_set_of: "sorted (qsort compare_set_of_element xs)"
  using set_of_order.qsort_in_order [of xs] by (simp add: in_order_def compare_set_of_element_le)

text \<open>The elements the loop finds are encodings, and together they are the contents.\<close>

definition is_der_element :: "u8 list \<Rightarrow> bool" where
  "is_der_element e \<longleftrightarrow> (\<exists>tag c. length c < 2 ^ 32 \<and> e = der_element tag c)"

lemma pmap_el_out_Some_iff:
  "pmap el_out CBS_get_any_asn1_element s = (Some e, t) \<longleftrightarrow> is_der_element e \<and> s = e @ t"
proof
  assume "pmap el_out CBS_get_any_asn1_element s = (Some e, t)"
  then obtain el where "CBS_get_any_asn1_element s = (Some el, t)" and e: "e = el_out el"
    by auto
  then obtain c where "length c < 2 ^ 32" "s = der_element (el_tag el) c @ t"
    and el: "el = der_result (el_tag el) c"
    using CBS_get_any_asn1_element_sound by blast
  moreover have "e = der_element (el_tag el) c"
    unfolding e by (subst el) (simp add: der_result_def)
  ultimately show "is_der_element e \<and> s = e @ t"
    by (auto simp: is_der_element_def)
next
  assume "is_der_element e \<and> s = e @ t"
  then show "pmap el_out CBS_get_any_asn1_element s = (Some e, t)"
    by (auto simp: is_der_element_def der_result_def CBS_get_any_asn1_element_complete)
qed

lemma der_element_nonempty: "der_element tag c \<noteq> []"
  by (auto simp: der_element_def der_header_def der_tag_def Let_def)

interpretation element_codec:
  cbs_canonical_codec "pmap el_out CBS_get_any_asn1_element" "\<lambda>e. e" is_der_element
proof unfold_locales
  fix s r t assume read: "pmap el_out CBS_get_any_asn1_element s = (r, t)"
  show "\<exists>p. s = p @ t"
    by (rule reads_prefix_pmap [OF cbs_get_any_asn1_element_prefix read [unfolded CBS_get_any_asn1_element_def]])
next
  fix s x t assume "pmap el_out CBS_get_any_asn1_element s = (Some x, t)"
  then show "t \<noteq> s"
    using der_element_nonempty by (auto simp only: pmap_el_out_Some_iff is_der_element_def append_self_conv2)
qed (simp_all only: pmap_el_out_Some_iff)

lemma set_of_elements_Some:
  "set_of_elements c = Some es \<Longrightarrow> list_all is_der_element es \<and> c = concat es"
  unfolding set_of_elements_def using element_codec.read_all_canonical by fastforce

lemma set_of_elements_concat:
  assumes "list_all is_der_element es" shows "set_of_elements (concat es) = Some es"
proof -
  have pos: "1 \<le> length e" if "is_der_element e" for e
    using that der_element_nonempty by (auto simp: is_der_element_def Suc_le_eq)
  have "length es \<le> length (concat es)"
    using assms
  proof (induction es)
    case (Cons e es)
    with pos [of e] show ?case by simp
  qed simp
  with element_codec.read_all_enc [OF assms, of "length (concat es)"] show ?thesis
    by (simp add: set_of_elements_def)
qed

text \<open>Rewinding the innermost level, and adding the pieces again.\<close>

lemma represents_innermost:
  assumes "represents st ls" and "innermost h ls"
  shows "CBB_data h st = snd (ls ! h)"
    and "fr_offset (cbb_frames st ! h) + fr_pending_len_len (cbb_frames st ! h) =
      length (layout (take h ls)) + prefix_len (fst (ls ! h))"
proof -
  obtain ms p c where ls: "ls = ms @ [(p, c)]" and ms: "length ms = h"
    using assms(2) by (metis length_Suc_conv_rev surj_pair)
  obtain fs f where fs: "cbb_frames st = fs @ [f]" and len: "length fs = length ms"
    using represents_frames [OF assms(1)] ls by (metis length_append_singleton length_Suc_conv_rev ms nat.inject)
  have "frames_at 0 (fs @ [f]) (ms @ [(p, c)])"
    using assms(1) by (simp add: represents_def fs ls)
  then have f: "fr_offset f = length (layout ms)" "fr_pending_len_len f = prefix_len p"
    using len by (simp_all add: frames_at_append)
  have "cbb_buf (cbb_base st) = layout ms @ replicate (prefix_len p) 0 @ c"
    using assms(1) by (simp add: represents_def ls layout_append)
  with f len ms show "CBB_data h st = snd (ls ! h)"
    by (auto simp: CBB_data_def fs ls nth_append)
  from f len ms show "fr_offset (cbb_frames st ! h) + fr_pending_len_len (cbb_frames st ! h) =
      length (layout (take h ls)) + prefix_len (fst (ls ! h))"
    by (auto simp: fs ls nth_append)
qed

lemma represents_rewind:
  assumes rep: "represents st ls" and h: "innermost h ls" and p: "p = fst (ls ! h)"
    and n: "n = fr_offset (cbb_frames st ! h) + fr_pending_len_len (cbb_frames st ! h)"
  shows "represents (st\<lparr>cbb_base := (cbb_base st)\<lparr>cbb_buf := take n (cbb_buf (cbb_base st))\<rparr>\<rparr>)
    (take h ls @ [(p, [])])"
proof -
  obtain ms l where "ls = ms @ [l]" and ms: "length ms = h"
    using h by (metis length_Suc_conv_rev)
  moreover have "ls ! h = l"
    using calculation by auto
  moreover obtain c where "l = (fst l, c)"
    by (cases l) simp
  ultimately have ls: "ls = ms @ [(p, c)]"
    unfolding p by simp
  have n: "n = length (layout ms) + prefix_len p"
  proof -
    have "take h ls = ms" and "fst (ls ! h) = p"
      using ls ms by auto
    then show ?thesis
      unfolding n represents_innermost(2) [OF rep h] by simp
  qed
  have "frames_at 0 (cbb_frames st) (ms @ [(p, [])])"
    using rep frames_at_innermost [of "ms @ [(p, [])]" h 0 "cbb_frames st" c]
    by (simp add: represents_def ls ms level_add_def nth_append)
  moreover have "cbb_buf (cbb_base st) = layout ms @ replicate (prefix_len p) 0 @ c"
    using rep by (simp add: represents_def ls layout_append)
  moreover have "base_ok ((cbb_base st)\<lparr>cbb_buf := layout ms @ replicate (prefix_len p) 0\<rparr>)"
    using rep by (auto simp: represents_def base_ok_def ls layout_append)
  moreover have "fst (hd (ms @ [(p, [])])) = Plain 0" and "prefixes_ok (tl (ms @ [(p, [])]))"
    using rep by (cases ms; simp add: represents_def prefixes_ok_def ls)+
  ultimately show ?thesis
    using ms by (simp add: represents_def ls n layout_append)
qed

lemma add_bytes_all_implements:
  "list_all (\<lambda>x. length x < size_modulus) xs \<Longrightarrow>
   cbb_implements (innermost h) (\<lambda>sys. add_bytes_all sys h xs) (spec_add h (concat xs))"
proof (induction xs)
  case Nil
  show ?case using pret_implements [of h] by (simp only: add_bytes_all.simps concat.simps)
next
  case (Cons x xs)
  with implements_add_add [OF implements_weaken [OF CBB_add_bytes_implements] Cons.IH, of x] show ?case
    by simp
qed

text \<open>
  What \<open>CBB_flush_asn1_set_of\<close> does to the level: the elements in it are put in order.
\<close>

definition spec_set_of :: "nat \<Rightarrow> levels \<Rightarrow> levels option" where
  "spec_set_of h ls =
     Option.bind (spec_add h [] ls) (\<lambda>ls.
       map_option (\<lambda>es. take h ls @ [(fst (ls ! h), concat (qsort compare_set_of_element es))])
         (set_of_elements (snd (ls ! h))))"

lemma size_of_element:
  assumes "base_ok (cbb_base st)" and "e \<in> set es" and "CBB_data h st = concat es"
  shows "length e < size_modulus"
proof -
  have "length e \<le> length (concat es)"
    using assms(2) by (induction es) auto
  also have "\<dots> \<le> base_len (cbb_base st)"
    unfolding assms(3) [symmetric] CBB_data_def by simp
  finally show ?thesis
    using assms(1) by (simp add: base_ok_def)
qed

lemma CBB_flush_asn1_set_of_sound:
  assumes rep: "represents st ls" and ok: "CBB_flush_asn1_set_of sys h st = (Some u, st')"
  shows "\<exists>ls'. spec_set_of h ls = Some ls' \<and> represents st' ls'"
proof -
  from ok obtain st1 where flush: "CBB_flush sys h st = (Some (), st1)" and
    rest: "(case set_of_elements (CBB_data h st1) of None \<Rightarrow> (None, st1)
       | Some children \<Rightarrow>
           let num_children = length children in
           if num_children < 2 then (Some (), st1)
           else if num_children > (size_modulus - 1) div sizeof_CBS then (None, st1)
           else if OPENSSL_memdup sys (CBB_data h st1) (CBB_len h st1) = None \<or>
                   \<not> OPENSSL_malloc sys (num_children * sizeof_CBS) then (None, st1)
           else
             let start = fr_offset (cbb_frames st1 ! h) + fr_pending_len_len (cbb_frames st1 ! h) in
             add_bytes_all sys h (qsort compare_set_of_element children)
               (st1\<lparr>cbb_base := (cbb_base st1)\<lparr>cbb_buf := take start (cbb_buf (cbb_base st1))\<rparr>\<rparr>)) = (Some u, st')"
    unfolding CBB_flush_asn1_set_of_def by (auto simp: pbind_Some_iff)
  from cbb_implements.sound [OF CBB_flush_implements TrueI rep flush] obtain ls1 where
    ls1: "spec_add h [] ls = Some ls1" "represents st1 ls1"
    by blast
  then have h: "innermost h ls1" by (simp add: spec_add_length)
  have data: "CBB_data h st1 = snd (ls1 ! h)"
    by (rule represents_innermost [OF ls1(2) h])
  from rest obtain es where es: "set_of_elements (CBB_data h st1) = Some es"
    by (cases "set_of_elements (CBB_data h st1)") simp_all
  then have concat: "CBB_data h st1 = concat es"
    by (rule set_of_elements_Some [THEN conjunct2])
  let ?ls' = "take h ls1 @ [(fst (ls1 ! h), concat (qsort compare_set_of_element es))]"
  have spec: "spec_set_of h ls = Some ?ls'"
    using ls1(1) es by (simp add: spec_set_of_def data)
  show ?thesis
  proof (cases "length es < 2")
    case True
    with rest es have "st' = st1" by simp
    moreover have "?ls' = ls1"
    proof -
      have "?ls' = take h ls1 @ [ls1 ! h]"
        using True data concat by (simp add: qsort_short)
      also have "\<dots> = ls1"
        using h take_Suc_conv_app_nth [of h ls1] by simp
      finally show ?thesis .
    qed
    ultimately show ?thesis
      using spec ls1(2) by (intro exI [of _ ?ls']) simp
  next
    case False
    let ?start = "fr_offset (cbb_frames st1 ! h) + fr_pending_len_len (cbb_frames st1 ! h)"
    let ?st2 = "st1\<lparr>cbb_base := (cbb_base st1)\<lparr>cbb_buf := take ?start (cbb_buf (cbb_base st1))\<rparr>\<rparr>"
    from rest es False have add: "add_bytes_all sys h (qsort compare_set_of_element es) ?st2 = (Some u, st')"
      by (simp add: Let_def split: if_splits)
    have "base_ok (cbb_base st1)"
      using ls1(2) by (simp add: represents_def)
    then have "list_all (\<lambda>x. length x < size_modulus) (qsort compare_set_of_element es)"
      using size_of_element [OF _ _ concat] by (simp add: list_all_iff)
    note impl = add_bytes_all_implements [OF this, of h]
    have rep2: "represents ?st2 (take h ls1 @ [(fst (ls1 ! h), [])])"
      by (rule represents_rewind [OF ls1(2) h refl refl])
    have "innermost h (take h ls1 @ [(fst (ls1 ! h), [])])"
      using h by simp
    from cbb_implements.sound [OF impl this rep2 add] h have "represents st' ?ls'"
      by (auto simp: spec_add_def level_add_def nth_append)
    with spec show ?thesis by blast
  qed
qed

section \<open>Properties\<close>

text \<open>
  C22: The INTEGER and BOOLEAN readers accept exactly the minimal encodings of the values that fit,
  so each value has one encoding: unsigned, two's complement, and the two booleans.
\<close>

theorem integer_readers_exact:
  "(CBS_get_asn1_uint64 s = (Some v, t) \<longleftrightarrow> s = der_element CBS_ASN1_INTEGER (der_uint (be_bytes 8 (unat v))) @ t) \<and>
    (CBS_get_asn1_int64 s = (Some w, t) \<longleftrightarrow> s = der_element CBS_ASN1_INTEGER (der_int w) @ t) \<and>
    (CBS_get_asn1_bool s = (Some b, t) \<longleftrightarrow> s = der_element CBS_ASN1_BOOLEAN (der_bool b) @ t)"
  by (intro conjI; rule CBS_get_asn1_uint64_Some_iff CBS_get_asn1_int64_Some_iff CBS_get_asn1_bool_Some_iff)

end
