(* ===== verification/Builder.thy ===== *)
theory Builder
  imports Der_Build
begin

text \<open>
  The builder as its callers use it: a \<open>CBB\<close> is initialised, any sequence of calls is
  made on it and on the children they open, and it is finished. \<open>do_call\<close> is the call of
  the C function, \<open>spec_call\<close> its meaning on the stack of open levels.
\<close>

section \<open>Calls\<close>

datatype length_width = W8 | W16 | W24

fun width_bytes :: "length_width \<Rightarrow> nat" where
  "width_bytes W8 = 1"
| "width_bytes W16 = 2"
| "width_bytes W24 = 3"

datatype cbb_call =
    Add_u8 nat u8 | Add_u16 nat u16 | Add_u24 nat u32 | Add_u32 nat u32 | Add_u64 nat u64
  | Add_u16le nat u16 | Add_u32le nat u32 | Add_u64le nat u64
  | Add_bytes nat "u8 list" | Add_space nat "u8 list" | Add_zeros nat nat
  | Add_length_prefixed nat length_width | Add_asn1 nat u32
  | Add_asn1_uint64 nat u64 | Add_asn1_int64 nat u64
  | Add_asn1_octet_string nat "u8 list" | Add_asn1_bool nat int
  | Flush nat

fun add_length_prefixed :: "(nat \<Rightarrow> bool) \<Rightarrow> nat \<Rightarrow> length_width \<Rightarrow> (cbb, unit) op" where
  "add_length_prefixed sys h W8 = CBB_add_u8_length_prefixed sys h"
| "add_length_prefixed sys h W16 = CBB_add_u16_length_prefixed sys h"
| "add_length_prefixed sys h W24 = CBB_add_u24_length_prefixed sys h"

fun do_call :: "cbb_call \<Rightarrow> (nat \<Rightarrow> bool) \<Rightarrow> (cbb, unit) op" where
  "do_call (Add_u8 h v) = (\<lambda>sys. CBB_add_u8 sys h v)"
| "do_call (Add_u16 h v) = (\<lambda>sys. CBB_add_u16 sys h v)"
| "do_call (Add_u24 h v) = (\<lambda>sys. CBB_add_u24 sys h v)"
| "do_call (Add_u32 h v) = (\<lambda>sys. CBB_add_u32 sys h v)"
| "do_call (Add_u64 h v) = (\<lambda>sys. CBB_add_u64 sys h v)"
| "do_call (Add_u16le h v) = (\<lambda>sys. CBB_add_u16le sys h v)"
| "do_call (Add_u32le h v) = (\<lambda>sys. CBB_add_u32le sys h v)"
| "do_call (Add_u64le h v) = (\<lambda>sys. CBB_add_u64le sys h v)"
| "do_call (Add_bytes h data) = (\<lambda>sys. CBB_add_bytes sys h data)"
| "do_call (Add_space h data) = (\<lambda>sys. CBB_add_space sys h data)"
| "do_call (Add_zeros h len) = (\<lambda>sys. CBB_add_zeros sys h len)"
| "do_call (Add_length_prefixed h w) = (\<lambda>sys. add_length_prefixed sys h w)"
| "do_call (Add_asn1 h tag) = (\<lambda>sys. CBB_add_asn1 sys h tag)"
| "do_call (Add_asn1_uint64 h v) = (\<lambda>sys. CBB_add_asn1_uint64 sys h v)"
| "do_call (Add_asn1_int64 h v) = (\<lambda>sys. CBB_add_asn1_int64 sys h v)"
| "do_call (Add_asn1_octet_string h data) = (\<lambda>sys. CBB_add_asn1_octet_string sys h data)"
| "do_call (Add_asn1_bool h v) = (\<lambda>sys. CBB_add_asn1_bool sys h v)"
| "do_call (Flush h) = (\<lambda>sys. CBB_flush sys h)"

fun spec_call :: "cbb_call \<Rightarrow> levels \<Rightarrow> levels option" where
  "spec_call (Add_u8 h v) = spec_add h [v]"
| "spec_call (Add_u16 h v) = spec_add h (be_bytes 2 (unat v))"
| "spec_call (Add_u24 h v) = spec_add_u h 3 (unat v)"
| "spec_call (Add_u32 h v) = spec_add h (be_bytes 4 (unat v))"
| "spec_call (Add_u64 h v) = spec_add h (be_bytes 8 (unat v))"
| "spec_call (Add_u16le h v) = spec_add h (be_bytes 2 (unat (CRYPTO_bswap2 v)))"
| "spec_call (Add_u32le h v) = spec_add h (be_bytes 4 (unat (CRYPTO_bswap4 v)))"
| "spec_call (Add_u64le h v) = spec_add h (be_bytes 8 (unat (CRYPTO_bswap8 v)))"
| "spec_call (Add_bytes h data) = spec_add h data"
| "spec_call (Add_space h data) = spec_add h data"
| "spec_call (Add_zeros h len) = spec_add h (replicate len 0)"
| "spec_call (Add_length_prefixed h w) = spec_open h [] (Plain (width_bytes w))"
| "spec_call (Add_asn1 h tag) = spec_open h (der_tag tag) Asn1"
| "spec_call (Add_asn1_uint64 h v) = spec_add h (der_element CBS_ASN1_INTEGER (der_uint (be_bytes 8 (unat v))))"
| "spec_call (Add_asn1_int64 h v) = spec_add h (der_element CBS_ASN1_INTEGER (der_int v))"
| "spec_call (Add_asn1_octet_string h data) = spec_add h (der_element CBS_ASN1_OCTETSTRING data)"
| "spec_call (Add_asn1_bool h v) = spec_add h (der_element CBS_ASN1_BOOLEAN (der_bool (v \<noteq> 0)))"
| "spec_call (Flush h) = spec_add h []"

text \<open>The caller's data fits in memory, an octet string in its length octets.\<close>

fun call_ok :: "cbb_call \<Rightarrow> bool" where
  "call_ok (Add_bytes h data) = (length data < size_modulus)"
| "call_ok (Add_space h data) = (length data < size_modulus)"
| "call_ok (Add_zeros h len) = (len < size_modulus)"
| "call_ok (Add_asn1_octet_string h data) = (length data \<le> 0xfffffffe)"
| "call_ok _ = True"

fun do_calls :: "cbb_call list \<Rightarrow> (nat \<Rightarrow> bool) \<Rightarrow> (cbb, unit) op" where
  "do_calls [] = (\<lambda>sys. pret ())"
| "do_calls (c # cs) = (\<lambda>sys. pbind (do_call c sys) (\<lambda>_. do_calls cs sys))"

fun spec_calls :: "cbb_call list \<Rightarrow> levels \<Rightarrow> levels option" where
  "spec_calls [] ls = Some ls"
| "spec_calls (c # cs) ls = Option.bind (spec_call c ls) (spec_calls cs)"

definition spec_finish :: "levels \<Rightarrow> u8 list option" where
  "spec_finish ls = map_option (\<lambda>ls. snd (ls ! 0)) (spec_add 0 [] ls)"

definition spec_build :: "cbb_call list \<Rightarrow> u8 list option" where
  "spec_build cs = Option.bind (spec_calls cs [(Plain 0, [])]) spec_finish"

section \<open>Each call implements its specification\<close>

lemma do_call_implements: "call_ok c \<Longrightarrow> cbb_op (do_call c) (spec_call c)"
proof (cases c)
  case (Add_length_prefixed h w)
  have "cbb_op (\<lambda>sys. cbb_add_length_prefixed sys h (width_bytes w)) (spec_open h [] (Plain (width_bytes w)))"
    by (rule cbb_add_length_prefixed_implements; cases w; simp)
  then show ?thesis
    using Add_length_prefixed
    by (cases w) (simp_all add: CBB_add_u8_length_prefixed_def CBB_add_u16_length_prefixed_def
        CBB_add_u24_length_prefixed_def)
qed (simp_all add: CBB_add_u8_implements CBB_add_u16_implements CBB_add_u24_implements CBB_add_u32_implements
    CBB_add_u64_implements CBB_add_u16le_def CBB_add_u32le_def CBB_add_u64le_def CBB_add_bytes_implements
    CBB_add_space_implements CBB_add_zeros_implements CBB_add_asn1_implements CBB_add_asn1_uint64_implements
    CBB_add_asn1_int64_implements CBB_add_asn1_octet_string_implements CBB_add_asn1_bool_implements
    CBB_flush_implements)

lemma do_calls_implements: "list_all call_ok cs \<Longrightarrow> cbb_op (do_calls cs) (spec_calls cs)"
proof (induction cs)
  case Nil
  show ?case by unfold_locales auto
next
  case (Cons c cs)
  then have "cbb_op (\<lambda>sys. pbind (do_call c sys) (\<lambda>_. do_calls cs sys))
    (\<lambda>ls. Option.bind (spec_call c ls) (spec_calls cs))"
    by (intro implements_bind [OF do_call_implements]) auto
  then show ?case by simp
qed

section \<open>The life of a builder\<close>

lemma represents_new:
  assumes "cap < size_modulus"
  shows "represents \<lparr>cbb_base = \<lparr>cbb_buf = [], cbb_cap = cap, cbb_can_resize = r, cbb_error = False\<rparr>,
      cbb_frames = [\<lparr>fr_offset = 0, fr_pending_len_len = 0, fr_pending_is_asn1 = False\<rparr>]\<rparr> [(Plain 0, [])]"
  using assms by (simp add: represents_def base_ok_def prefixes_ok_def)

lemma CBB_init_represents:
  "CBB_init sys cap = Some st \<Longrightarrow> cap < size_modulus \<Longrightarrow> represents st [(Plain 0, [])] \<and> can_grow st"
  by (auto simp: CBB_init_def cbb_init_def represents_new can_grow_def split: if_splits)

lemma CBB_init_fixed_represents:
  "CBB_init_fixed sys cap = Some st \<Longrightarrow> cap < size_modulus \<Longrightarrow>
   represents st [(Plain 0, [])] \<and> \<not> can_grow st \<and> cbb_cap (cbb_base st) = cap"
  by (auto simp: CBB_init_fixed_def cbb_init_def represents_new can_grow_def split: if_splits)

lemma CBB_finish_sound:
  assumes rep: "represents st ls" and finish: "CBB_finish sys d l h st = (Some out, st')"
  shows "spec_finish ls = Some out" and "cbb_frames st' = []" and "h = 0"
    and "length out \<le> cbb_cap (cbb_base st')" and "same_buffer (cbb_base st) (cbb_base st')"
proof -
  from finish obtain st1 where h: "h = 0" and flush: "CBB_flush sys 0 st = (Some (), st1)"
    and out: "out = cbb_buf (cbb_base st1)" "st' = CBB_cleanup 0 st1"
    by (auto simp: CBB_finish_def pbind_Some_iff split: if_splits)
  from flush_op.sound [OF TrueI rep flush] obtain ls1 where
    ls1: "spec_add 0 [] ls = Some ls1" "represents st1 ls1" "same_buffer (cbb_base st) (cbb_base st1)"
    by blast
  then have "length ls1 = 1" by (simp add: spec_add_length)
  with ls1(2) have "cbb_buf (cbb_base st1) = snd (ls1 ! 0)"
    by (cases ls1) (auto simp: represents_def)
  with ls1 out h show "spec_finish ls = Some out" and "cbb_frames st' = []" and "h = 0"
    and "length out \<le> cbb_cap (cbb_base st')" and "same_buffer (cbb_base st) (cbb_base st')"
    by (auto simp: spec_finish_def CBB_cleanup_def represents_def base_ok_def)
qed

lemma CBB_finish_complete:
  assumes rep: "represents st ls" and grow: "can_grow st" and out: "spec_finish ls = Some out"
    and room: "length out < 2 ^ 62"
  shows "\<exists>st'. CBB_finish (\<lambda>_. True) True True 0 st = (Some out, st')"
proof -
  from out obtain ls1 where ls1: "spec_add 0 [] ls = Some ls1" and "out = snd (ls1 ! 0)"
    by (auto simp: spec_finish_def)
  then have "length ls1 = 1" by (simp add: spec_add_length)
  moreover have "ls \<noteq> []" "fst (hd ls) = Plain 0"
    using rep by (auto simp: represents_def)
  then have "fst (ls1 ! 0) = Plain 0"
    using ls1 by (auto simp: spec_add_def level_add_def hd_conv_nth split: if_splits)
  ultimately have "layout ls1 = out"
    using \<open>out = snd (ls1 ! 0)\<close> by (cases ls1) (auto simp: prod_eq_iff)
  with flush_op.complete [OF TrueI rep grow ls1] room
  obtain st1 where flush: "CBB_flush (\<lambda>_. True) 0 st = (Some (), st1)"
    by auto
  then have "CBB_finish (\<lambda>_. True) True True 0 st = (Some (cbb_buf (cbb_base st1)), CBB_cleanup 0 st1)"
    by (simp add: CBB_finish_def)
  with CBB_finish_sound(1) [OF rep this] out show ?thesis by auto
qed

lemma spec_call_root: "spec_call c ls = Some ls' \<Longrightarrow> ls' \<noteq> [] \<and> fst (hd ls') = fst (hd ls)"
proof -
  have add: "ls' \<noteq> [] \<and> fst (hd ls') = fst (hd ls)" if "spec_add h x ls = Some ls'" for h x ls'
    using that by (cases ls; cases h) (auto simp: spec_add_def level_add_def split: if_splits)
  assume "spec_call c ls = Some ls'"
  then show ?thesis
    by (cases c) (auto simp: spec_open_def spec_add_u_def hd_append dest!: add split: if_splits)
qed

lemma spec_calls_root:
  "spec_calls cs ls = Some ls' \<Longrightarrow> ls \<noteq> [] \<Longrightarrow> ls' \<noteq> [] \<and> fst (hd ls') = fst (hd ls)"
  by (induction cs arbitrary: ls) (auto simp: bind_eq_Some_conv dest: spec_call_root)

lemma spec_finish_length:
  assumes "spec_finish ls = Some out" and "fst (hd ls) = Plain 0" shows "length (layout ls) \<le> length out"
proof -
  obtain ls1 where ls1: "spec_add 0 [] ls = Some ls1" and out: "out = snd (ls1 ! 0)"
    using assms(1) by (auto simp: spec_finish_def)
  from spec_add_length [OF ls1] obtain l where l: "ls1 = [l]"
    by (cases ls1) auto
  have "fst l = Plain 0"
    using ls1 assms(2) l by (auto simp: spec_add_def level_add_def hd_conv_nth split: if_splits)
  then have "layout ls1 = out"
    using l out by (cases l) auto
  with spec_add_grows [OF ls1] show ?thesis by simp
qed

section \<open>The whole life of a builder against its specification\<close>

lemma build_sound:
  assumes "list_all call_ok cs" and "cap < size_modulus"
    and "CBB_init sys cap = Some st \<or> CBB_init_fixed sys cap = Some st"
    and "do_calls cs sys st = (Some u, st1)" and "CBB_finish sys d l h st1 = (Some out, st2)"
  shows "spec_build cs = Some out"
proof -
  have "represents st [(Plain 0, [])]"
    using assms(2,3) CBB_init_represents CBB_init_fixed_represents by blast
  from cbb_implements.sound [OF do_calls_implements [OF assms(1)] TrueI this assms(4)] obtain ls where
    "spec_calls cs [(Plain 0, [])] = Some ls" "represents st1 ls"
    by blast
  with CBB_finish_sound(1) [OF this(2) assms(5)] show ?thesis
    by (simp add: spec_build_def)
qed

lemma build_complete:
  assumes "list_all call_ok cs" and "cap < 2 ^ 62"
    and "spec_build cs = Some out" and "length out < 2 ^ 62"
  shows "\<exists>st st1 st2. CBB_init (\<lambda>_. True) cap = Some st \<and> do_calls cs (\<lambda>_. True) st = (Some (), st1) \<and>
    CBB_finish (\<lambda>_. True) True True 0 st1 = (Some out, st2)"
proof -
  from assms(2) obtain st where st: "CBB_init (\<lambda>_. True) cap = Some st"
    by (simp add: CBB_init_def cbb_init_def sizeof_cbb_buffer_st_def)
  then have rep: "represents st [(Plain 0, [])]" and grow: "can_grow st"
    using assms(2) CBB_init_represents by auto
  obtain ls where ls: "spec_calls cs [(Plain 0, [])] = Some ls" "spec_finish ls = Some out"
    using assms(3) by (auto simp: spec_build_def bind_eq_Some_conv)
  note calls = do_calls_implements [OF assms(1)]
  have "length (layout ls) < 2 ^ 62"
    using spec_finish_length [OF ls(2)] spec_calls_root [OF ls(1)] assms(4) by simp
  with cbb_implements.complete [OF calls TrueI rep grow ls(1)] obtain st1 where
    st1: "do_calls cs (\<lambda>_. True) st = (Some (), st1)"
    by blast
  with cbb_implements.sound [OF calls TrueI rep st1] ls(1) grow have "represents st1 ls" "can_grow st1"
    by (auto simp: can_grow_def same_buffer_def)
  from CBB_finish_complete [OF this ls(2) assms(4)] st st1 show ?thesis
    by blast
qed

text \<open>A builder that only appends: what comes out is what was appended.\<close>

lemma built_bytes:
  assumes f: "cbb_implements (innermost 0) f (spec_add 0 x)" and "cap < size_modulus"
    and init: "CBB_init sys cap = Some st \<or> CBB_init_fixed sys cap = Some st"
    and run: "f sys st = (Some u, st1)" and finish: "CBB_finish sys d l h st1 = (Some out, st2)"
  shows "out = x"
proof -
  have "represents st [(Plain 0, [])]"
    using assms(2) init CBB_init_represents CBB_init_fixed_represents by blast
  from cbb_implements.sound [OF f _ this run] obtain ls where
    ls: "spec_add 0 x [(Plain 0, [])] = Some ls" "represents st1 ls" by auto
  from ls(1) have "ls = [(Plain 0, x)]" by (simp add: spec_add_def level_add_def)
  with CBB_finish_sound(1) [OF ls(2) finish] show ?thesis
    by (simp add: spec_finish_def spec_add_def level_add_def)
qed

lemma built_bytes_complete:
  assumes f: "cbb_implements (innermost 0) f (spec_add 0 x)" and "cap < 2 ^ 62" and "length x < 2 ^ 62"
  shows "\<exists>st st1 st2. CBB_init (\<lambda>_. True) cap = Some st \<and> f (\<lambda>_. True) st = (Some (), st1) \<and>
    CBB_finish (\<lambda>_. True) True True 0 st1 = (Some x, st2)"
proof -
  from assms(2) obtain st where st: "CBB_init (\<lambda>_. True) cap = Some st"
    by (simp add: CBB_init_def cbb_init_def sizeof_cbb_buffer_st_def)
  then have rep: "represents st [(Plain 0, [])]" and grow: "can_grow st"
    using assms(2) CBB_init_represents by auto
  have ls: "spec_add 0 x [(Plain 0, [])] = Some [(Plain 0, x)]"
    by (simp add: spec_add_def level_add_def)
  from cbb_implements.complete [OF f _ rep grow ls] assms(3) obtain st1 where st1: "f (\<lambda>_. True) st = (Some (), st1)"
    by auto
  from cbb_implements.sound [OF f _ rep st1] ls grow have "represents st1 [(Plain 0, x)]" "can_grow st1"
    by (auto simp: can_grow_def same_buffer_def)
  from CBB_finish_complete [OF this _ assms(3)] st st1 show ?thesis
    by (fastforce simp: spec_finish_def spec_add_def level_add_def)
qed

text \<open>Once the error flag is set, nothing changes the builder any more.\<close>

lemma CBB_flush_error: "cbb_error (cbb_base st) \<Longrightarrow> CBB_flush sys h st = (None, st)"
proof -
  assume err: "cbb_error (cbb_base st)"
  have "cbb_flush_chain sys fs (cbb_base st) = (False, fs, cbb_base st)" for fs
    using err by (cases fs) auto
  then show ?thesis by (simp add: CBB_flush_def)
qed

lemma flush_first_error:
  "cbb_error (cbb_base st) \<Longrightarrow> pbind (CBB_flush sys h) f st = (None, st)"
  by (simp add: CBB_flush_error)

lemma CBB_add_u8_error: "cbb_error (cbb_base st) \<Longrightarrow> CBB_add_u8 sys h v st = (None, st)"
  by (simp add: CBB_add_u8_def cbb_add_u_def flush_first_error)

lemma CBB_add_asn1_error: "cbb_error (cbb_base st) \<Longrightarrow> CBB_add_asn1 sys h tag st = (None, st)"
  by (simp add: CBB_add_asn1_def flush_first_error)

lemma do_call_error: "cbb_error (cbb_base st) \<Longrightarrow> do_call c sys st = (None, st)"
proof (cases c)
  case (Add_length_prefixed h w)
  assume "cbb_error (cbb_base st)"
  with Add_length_prefixed show ?thesis
    by (cases w) (simp_all add: CBB_add_u8_length_prefixed_def CBB_add_u16_length_prefixed_def
        CBB_add_u24_length_prefixed_def cbb_add_length_prefixed_def flush_first_error)
qed (simp_all add: CBB_add_u8_error CBB_add_asn1_error CBB_flush_error flush_first_error cbb_add_u_def
    CBB_add_u16_def CBB_add_u24_def CBB_add_u32_def CBB_add_u64_def
    CBB_add_u16le_def CBB_add_u32le_def CBB_add_u64le_def CBB_add_bytes_def CBB_add_space_def CBB_add_zeros_def
    CBB_add_asn1_uint64_def CBB_add_asn1_int64_def CBB_add_asn1_octet_string_def CBB_add_asn1_bool_def Let_def)

lemma do_calls_error: "cbb_error (cbb_base st) \<Longrightarrow> cs \<noteq> [] \<Longrightarrow> do_calls cs sys st = (None, st)"
  by (cases cs) (simp_all add: do_call_error)

lemma CBB_finish_error: "cbb_error (cbb_base st) \<Longrightarrow> CBB_finish sys d l h st = (None, st)"
  by (simp add: CBB_finish_def flush_first_error)

text \<open>Taking back a child, and writing into reserved space.\<close>

lemma CBB_discard_child_represents:
  assumes rep: "represents st ls" and h: "Suc h < length ls"
  shows "represents (CBB_discard_child h st) (take (Suc h) ls)"
proof -
  obtain f fs where f: "drop (Suc h) (cbb_frames st) = f # fs"
    using h represents_frames [OF rep] by (cases "drop (Suc h) (cbb_frames st)") auto
  have split: "cbb_buf (cbb_base st) = layout (take (Suc h) ls) @ layout (drop (Suc h) ls)"
    "frames_at (length (layout (take (Suc h) ls))) (f # fs) (drop (Suc h) ls)"
    using represents_split [OF rep, of h] h f by simp_all
  then have off: "fr_offset f = length (layout (take (Suc h) ls))"
    by (cases "drop (Suc h) ls") (auto elim: frames_at.elims)
  have "level_add h [] ls = take (Suc h) ls"
    using h by (simp add: level_add_def take_Suc_conv_app_nth)
  moreover have "base_ok ((cbb_base st)\<lparr>cbb_buf := layout (take (Suc h) ls)\<rparr>)"
    using rep split(1) by (auto simp: represents_def base_ok_def)
  ultimately show ?thesis
    using represents_level_add [OF rep, of h "(cbb_base st)\<lparr>cbb_buf := layout (take (Suc h) ls)\<rparr>" "[]"] h
    by (simp add: CBB_discard_child_def f off split(1))
qed

lemma CBB_did_write_represents:
  assumes rep: "represents st ls" and len: "length data < size_modulus"
    and ok: "CBB_did_write h data st = (Some u, st')"
  shows "innermost h ls \<and> represents st' (level_add h data ls)"
proof -
  let ?b = "(cbb_base st)\<lparr>cbb_buf := cbb_buf (cbb_base st) @ data\<rparr>"
  from ok have h: "innermost h ls" and nowrap: "\<not> size_add (base_len (cbb_base st)) (length data) < base_len (cbb_base st)"
    and cap: "size_add (base_len (cbb_base st)) (length data) \<le> cbb_cap (cbb_base st)"
    and st': "st' = st\<lparr>cbb_base := ?b\<rparr>"
    using represents_frames [OF rep] by (auto simp: CBB_did_write_def Let_def split: if_splits)
  have "base_len (cbb_base st) < size_modulus"
    using rep unfolding represents_def base_ok_def by linarith
  with nowrap cap len size_add_no_wrap have "base_ok ?b"
    using rep by (simp add: represents_def base_ok_def)
  with represents_here [OF rep h, of ?b data] h st' show ?thesis
    by simp
qed

lemma CBB_reserve_represents:
  assumes rep: "represents st ls" and len: "len < size_modulus" and ok: "CBB_reserve sys h len st = (Some u, st')"
  shows "\<exists>ls'. spec_add h [] ls = Some ls' \<and> represents st' ls' \<and>
    base_len (cbb_base st') + len \<le> cbb_cap (cbb_base st')"
proof -
  from ok obtain st1 b where flush: "CBB_flush sys h st = (Some (), st1)" and
    reserve: "cbb_buffer_reserve sys len (cbb_base st1) = (Some u, b)" and st': "st' = st1\<lparr>cbb_base := b\<rparr>"
    by (auto simp: CBB_reserve_def pbind_Some_iff on_base_Some)
  from flush_op.sound [OF TrueI rep flush] obtain ls1 where
    ls1: "spec_add h [] ls = Some ls1" "represents st1 ls1"
    by blast
  from ls1(2) have "base_ok (cbb_base st1)" by (simp add: represents_def)
  from cbb_buffer_reserve_Some [OF reserve this len] ls1 show ?thesis
    by (auto simp: st' represents_def)
qed

text \<open>Evaluation of a concrete builder by the simplifier.\<close>

lemmas cbb_eval = CBB_init_def cbb_init_def CBB_init_fixed_def OPENSSL_malloc_def OPENSSL_MALLOC_PREFIX_def
  OPENSSL_realloc_def size_add_def size_mul_def sizeof_cbb_buffer_st_def
  cbb_buffer_reserve_def cbb_buffer_add_def cbb_buffer_add_u_def asn1_length_form_def cbb_put_length_def
  cbb_make_room_def cbb_flush_child_def CBB_flush_def on_base_def CBB_data_def CBB_len_def CBB_finish_def
  CBB_cleanup_def cbb_add_u_def CBB_add_u8_def CBB_add_u16_def CBB_add_u24_def CBB_add_u32_def CBB_add_u64_def
  CBB_add_bytes_def CBB_add_space_def cbb_push_def cbb_add_length_prefixed_def CBB_add_u8_length_prefixed_def
  CBB_add_u16_length_prefixed_def CBB_add_asn1_def CBS_ASN1_TAG_SHIFT_def CBS_ASN1_TAG_NUMBER_MASK_def
  CBS_ASN1_BOOLEAN_def CBS_ASN1_INTEGER_def CBS_ASN1_OCTETSTRING_def CBB_add_asn1_bool_def
  CBB_add_asn1_octet_string_def CBB_add_asn1_uint64_def CBB_add_asn1_int64_def pbind_def pret_def Let_def
  base128_len.simps base128_byte_def add_base128_integer_def word_le_nat_alt

section \<open>Properties\<close>

text \<open>
  Errors stick: after a call has failed with the error flag set, every later call and
  \<open>CBB_finish\<close> fail and leave the builder as it is, so checking the last result is enough.
\<close>

lemma builder_error_sticky:
  assumes "cbb_error (cbb_base st)"
  shows "(do_call c sys st = (None, st)) \<and>
    (CBB_finish sys d l h st = (None, st))"
  using assms by (simp add: do_call_error CBB_finish_error)

lemma builder_error_sticky_witness:
  "fst (CBB_finish (\<lambda>_. True) True True 0 (snd (CBB_add_bytes (\<lambda>_. True) 0 [1, 2] (the (CBB_init_fixed (\<lambda>_. True) 1))))) = None"
proof -
  have "cbb_error (cbb_base (snd (CBB_add_bytes (\<lambda>_. True) 0 [1, 2] (the (CBB_init_fixed (\<lambda>_. True) 1)))))"
    by (simp add: cbb_eval)
  from builder_error_sticky [OF this, THEN conjunct2] show ?thesis by simp
qed

text \<open>
  \<open>CBB_flush_asn1_set_of\<close> puts the elements written to the innermost child in DER order:
  the contents are split into the elements they are made of, and what the builder holds
  afterwards is a sorted rearrangement of them; everything outside the child stays.
\<close>

lemma CBB_flush_asn1_set_of_correct:
  assumes "represents st ls" and "innermost h ls" and "CBB_flush_asn1_set_of sys h st = (Some u, st')"
  shows "\<exists>es es'. snd (ls ! h) = concat es \<and> list_all is_der_element es \<and> mset es' = mset es \<and> sorted es' \<and>
    represents st' (take h ls @ [(fst (ls ! h), concat es')])"
proof -
  have "level_add h [] ls = ls"
    using assms(2) take_Suc_conv_app_nth [of h ls] by (simp add: level_add_def)
  then have "spec_add h [] ls = Some ls"
    using assms(2) by (simp add: spec_add_here)
  with CBB_flush_asn1_set_of_sound [OF assms(1,3)] obtain es where
    es: "set_of_elements (snd (ls ! h)) = Some es"
      "represents st' (take h ls @ [(fst (ls ! h), concat (qsort compare_set_of_element es))])"
    by (auto simp: spec_set_of_def)
  then show ?thesis
    using set_of_elements_Some sorted_set_of mset_qsort by blast
qed

lemma CBB_flush_asn1_set_of_correct_witness:
  "\<exists>st st' es'. CBB_flush_asn1_set_of (\<lambda>_. True) 0 st = (Some (), st') \<and> represents st' [(Plain 0, concat es')] \<and>
    sorted es' \<and> concat es' = [1, 1, 0, 1, 1, 0xff]"
proof -
  let ?es = "[[1, 1, 0xff], [1, 1, 0]] :: u8 list list"
  let ?st = "\<lparr>cbb_base = \<lparr>cbb_buf = concat ?es, cbb_cap = 64, cbb_can_resize = True, cbb_error = False\<rparr>,
      cbb_frames = [\<lparr>fr_offset = 0, fr_pending_len_len = 0, fr_pending_is_asn1 = False\<rparr>]\<rparr>"
  have rep: "represents ?st [(Plain 0, concat ?es)]" "innermost 0 [(Plain 0, concat ?es)]"
    by (simp_all add: represents_def base_ok_def prefixes_ok_def)
  have el: "is_der_element [1, 1, b]" for b
    unfolding is_der_element_def
    by (intro exI [of _ 1] exI [of _ "[b]"]) (simp add: der_element_def der_header_def der_length_def der_tag_def)
  have split: "set_of_elements (concat ?es) = Some ?es"
    by (rule set_of_elements_concat) (simp add: el)
  have sort: "qsort compare_set_of_element ?es = [[1, 1, 0], [1, 1, 0xff]]"
    by (simp add: qsort_def compare_set_of_element_le)
  obtain st' where st': "CBB_flush_asn1_set_of (\<lambda>_. True) 0 ?st = (Some (), st')"
    using split sort by (simp add: CBB_flush_asn1_set_of_def cbb_eval sizeof_CBS_def OPENSSL_memdup_def)
  from CBB_flush_asn1_set_of_correct [OF rep st'] obtain es es' where
    es: "concat ?es = concat es" "list_all is_der_element es" "mset es' = mset es" "sorted es'" "represents st' [(Plain 0, concat es')]"
    by auto
  then have "es = ?es"
    using set_of_elements_concat [of es] split by simp
  then have "es' = sort ?es"
    using es(3,4) by (metis properties_for_sort)
  then have "es' = [[1, 1, 0], [1, 1, 0xff]]" by (simp add: word_less_nat_alt)
  with st' es(4,5) show ?thesis by (intro exI [of _ ?st] exI [of _ st'] exI [of _ es']) simp
qed

end
