(* ===== verification/Document.thy ===== *)
theory Document
  imports Builder
begin

text \<open>
  DER documents: trees of primitive and constructed elements. A program that writes such a
  tree with \<open>CBB_add_asn1\<close>, \<open>CBB_add_bytes\<close> and \<open>CBB_flush\<close>, and one that reads it back with
  \<open>CBS_get_any_asn1\<close>, meet exactly: the parser and the builder composed.
\<close>

section \<open>Documents\<close>

datatype der = Prim u32 "u8 list" | Node u32 "der list"

fun der_bytes :: "der \<Rightarrow> u8 list" where
  "der_bytes (Prim tag c) = der_element tag c"
| "der_bytes (Node tag ts) = der_element tag (concat (map der_bytes ts))"

fun der_ok :: "der \<Rightarrow> bool" where
  "der_ok (Prim tag c) \<longleftrightarrow> tag AND CBS_ASN1_CONSTRUCTED = 0 \<and> length c < 2 ^ 32"
| "der_ok (Node tag ts) \<longleftrightarrow> tag AND CBS_ASN1_CONSTRUCTED \<noteq> 0 \<and>
     length (concat (map der_bytes ts)) < 2 ^ 32 \<and> list_all der_ok ts"

fun der_depth :: "der \<Rightarrow> nat" where
  "der_depth (Prim tag c) = 0"
| "der_depth (Node tag ts) = Suc (fold max (map der_depth ts) 0)"

text \<open>The calls that write a document into the builder \<open>h\<close>, each child closed by a flush.\<close>

fun document_calls :: "nat \<Rightarrow> der \<Rightarrow> cbb_call list" where
  "document_calls h (Prim tag c) = [Add_asn1 h tag, Add_bytes (Suc h) c, Flush h]"
| "document_calls h (Node tag ts) = Add_asn1 h tag # concat (map (document_calls (Suc h)) ts) @ [Flush h]"

text \<open>The recursive reader: the contents of a constructed element are read as elements.\<close>

primrec read_der :: "nat \<Rightarrow> u8 list \<Rightarrow> der option \<times> u8 list" where
  "read_der 0 = (\<lambda>s. case CBS_get_any_asn1 s of
      (None, t) \<Rightarrow> (None, t)
    | (Some (c, tag), t) \<Rightarrow> if tag AND CBS_ASN1_CONSTRUCTED = 0 then (Some (Prim tag c), t) else (None, t))"
| "read_der (Suc n) = (\<lambda>s. case CBS_get_any_asn1 s of
      (None, t) \<Rightarrow> (None, t)
    | (Some (c, tag), t) \<Rightarrow>
        if tag AND CBS_ASN1_CONSTRUCTED = 0 then (Some (Prim tag c), t)
        else (case read_all (length c) (read_der n) c of
                None \<Rightarrow> (None, t)
              | Some ts \<Rightarrow> (Some (Node tag ts), t)))"

section \<open>Writing\<close>

lemma spec_calls_append: "spec_calls (xs @ ys) ls = Option.bind (spec_calls xs ls) (spec_calls ys)"
proof (induction xs arbitrary: ls)
  case (Cons c cs)
  then show ?case by (cases "spec_call c ls") simp_all
qed simp

lemma spec_calls_Cons: "spec_calls (c # cs) = (\<lambda>ls. Option.bind (spec_call c ls) (spec_calls cs))"
  by (rule ext) simp

lemma spec_calls_single: "spec_calls [c] = spec_call c"
proof
  have "spec_calls [] = Some" by (rule ext) simp
  then show "spec_calls [c] ls = spec_call c ls" for ls by (simp add: spec_calls_Cons)
qed

lemma spec_add_Suc_bind:
  assumes "\<And>ls. innermost (Suc h) ls \<Longrightarrow> F ls = spec_add (Suc h) c ls" and "length c \<le> 0xfffffffe"
  shows "Option.bind (spec_open h (der_tag tag) Asn1 ls) (\<lambda>ls. Option.bind (F ls) (spec_add h [])) =
    spec_add h (der_element tag c) ls"
proof -
  have "Option.bind (spec_open h (der_tag tag) Asn1 ls) (\<lambda>ls. Option.bind (F ls) (spec_add h [])) =
      Option.bind (spec_open h (der_tag tag) Asn1 ls) (\<lambda>ls. Option.bind (spec_add (Suc h) c ls) (spec_add h []))"
    using assms(1) spec_open_length by (cases "spec_open h (der_tag tag) Asn1 ls") auto
  also have "\<dots> = spec_add h (der_tag tag @ der_length (length c) @ c) ls"
    by (rule spec_child) (rule close_prefix_Asn1 [OF assms(2)])
  finally show ?thesis by (simp add: der_element_def der_header_def)
qed

lemma length_child_le: "u \<in> set ts \<Longrightarrow> length (der_bytes u) \<le> length (concat (map der_bytes ts))"
  by (induction ts) auto

lemma document_calls_spec:
  "length (der_bytes t) \<le> 0xfffffffe \<Longrightarrow> spec_calls (document_calls h t) ls = spec_add h (der_bytes t) ls"
proof (induction t arbitrary: h ls)
  case (Prim tag c)
  then have "length c \<le> 0xfffffffe" by (simp add: der_element_def)
  then show ?case
    using spec_add_Suc_bind [of h "spec_add (Suc h) c" c tag ls]
    by (simp add: spec_calls_Cons [of "Add_bytes (Suc h) c"] spec_calls_single)
next
  case (Node tag ts)
  have calls: "spec_calls (concat (map (document_calls (Suc h)) us)) ls = spec_add (Suc h) (concat (map der_bytes us)) ls"
    if "innermost (Suc h) ls" and "set us \<subseteq> set ts" for us ls
    using that
  proof (induction us arbitrary: ls)
    case Nil
    then show ?case by (simp add: spec_add_Nil_innermost)
  next
    case (Cons u us)
    have "length (der_bytes u) \<le> length (concat (map der_bytes ts))"
      using Cons.prems(2) by (intro length_child_le) auto
    also have "\<dots> \<le> 0xfffffffe"
      using Node.prems by (simp add: der_element_def)
    finally have u: "spec_calls (document_calls (Suc h) u) ls = spec_add (Suc h) (der_bytes u) ls" for ls
      using Node.IH Cons.prems(2) by auto
    have rest: "spec_calls (concat (map (document_calls (Suc h)) us)) ls1 =
        spec_add (Suc h) (concat (map der_bytes us)) ls1" if "spec_add (Suc h) (der_bytes u) ls = Some ls1" for ls1
      using Cons spec_add_length [OF that] by simp
    have "spec_calls (concat (map (document_calls (Suc h)) (u # us))) ls =
        Option.bind (spec_add (Suc h) (der_bytes u) ls) (spec_add (Suc h) (concat (map der_bytes us)))"
      using rest by (cases "spec_add (Suc h) (der_bytes u) ls") (simp_all add: spec_calls_append u)
    then show ?case by simp
  qed
  have "length (concat (map der_bytes ts)) \<le> 0xfffffffe"
    using Node.prems by (simp add: der_element_def)
  note node = spec_add_Suc_bind [OF calls [OF _ order_refl] this, of tag ls]
  have "spec_calls (xs @ [Flush h]) = (\<lambda>ls. Option.bind (spec_calls xs ls) (spec_add h []))" for xs
    by (rule ext) (simp add: spec_calls_append spec_calls_single)
  with node show ?case by simp
qed

lemma document_calls_ok:
  "length (der_bytes t) \<le> 0xfffffffe \<Longrightarrow> list_all call_ok (document_calls h t)"
proof (induction t arbitrary: h)
  case (Prim tag c)
  then show ?case by (simp add: der_element_def)
next
  case (Node tag ts)
  have "length (der_bytes u) \<le> 0xfffffffe" if "u \<in> set ts" for u
  proof -
    from length_child_le [OF that] Node.prems show ?thesis by (simp add: der_element_def)
  qed
  with Node.IH show ?case by (auto simp: list_all_iff)
qed

lemma spec_build_document:
  assumes "length (der_bytes t) \<le> 0xfffffffe"
  shows "spec_build (document_calls 0 t) = Some (der_bytes t)"
proof -
  have "spec_calls (document_calls 0 t) [(Plain 0, [])] = Some [(Plain 0, der_bytes t)]"
    by (simp add: document_calls_spec [OF assms] spec_add_def level_add_def)
  then show ?thesis
    by (simp add: spec_build_def spec_finish_def spec_add_def level_add_def)
qed

section \<open>Reading\<close>

lemma fold_max_le: "fold max xs a \<le> n \<longleftrightarrow> a \<le> n \<and> (\<forall>x \<in> set xs. x \<le> (n :: nat))"
  by (induction xs arbitrary: a) auto

lemma read_der_cases:
  "read_der n s = (case CBS_get_any_asn1 s of
      (None, t) \<Rightarrow> (None, t)
    | (Some (c, tag), t) \<Rightarrow>
        if tag AND CBS_ASN1_CONSTRUCTED = 0 then (Some (Prim tag c), t)
        else (case n of 0 \<Rightarrow> (None, t) | Suc n \<Rightarrow>
              (case read_all (length c) (read_der n) c of None \<Rightarrow> (None, t) | Some ts \<Rightarrow> (Some (Node tag ts), t))))"
  by (cases n) (auto split: prod.splits option.splits)

lemma read_der_prefix: "read_der n s = (r, t) \<Longrightarrow> \<exists>p. s = p @ t"
  by (auto simp: read_der_cases split: prod.splits option.splits if_splits nat.splits
      dest!: CBS_get_any_asn1_prefix)

lemma read_der_Some:
  "read_der n s = (Some d, t) \<longleftrightarrow>
    (\<exists>c tag. length c < 2 ^ 32 \<and> s = der_element tag c @ t \<and>
      (if tag AND CBS_ASN1_CONSTRUCTED = 0 then d = Prim tag c
       else \<exists>m ts. n = Suc m \<and> read_all (length c) (read_der m) c = Some ts \<and> d = Node tag ts))"
proof -
  have "read_der n s = (Some d, t) \<longleftrightarrow>
    (\<exists>c tag. CBS_get_any_asn1 s = (Some (c, tag), t) \<and>
      (if tag AND CBS_ASN1_CONSTRUCTED = 0 then d = Prim tag c
       else \<exists>m ts. n = Suc m \<and> read_all (length c) (read_der m) c = Some ts \<and> d = Node tag ts))"
    by (auto simp: read_der_cases split: prod.splits option.splits if_splits nat.splits)
  then show ?thesis by (simp add: CBS_get_any_asn1_Some_iff conj_assoc)
qed

text \<open>The documents of depth at most \<open>n\<close> are exactly what \<open>read_der n\<close> accepts.\<close>

lemma read_der_codec:
  "cbs_canonical_codec (read_der n) der_bytes (\<lambda>d. der_ok d \<and> der_depth d \<le> n)"
proof (induction n)
  case 0
  show ?case
  proof
    fix s r t assume "read_der 0 s = (r, t)"
    then show "\<exists>p. s = p @ t" by (rule read_der_prefix)
  next
    fix s d t assume "read_der 0 s = (Some d, t)"
    then show "t \<noteq> s" by (auto simp: read_der_Some der_element_nonempty simp del: read_der.simps)
  next
    fix d rest assume "der_ok d \<and> der_depth d \<le> 0"
    then show "read_der 0 (der_bytes d @ rest) = (Some d, rest)"
      unfolding read_der_Some by (cases d) auto
  next
    fix s d t assume "read_der 0 s = (Some d, t)"
    then show "(der_ok d \<and> der_depth d \<le> 0) \<and> s = der_bytes d @ t"
      unfolding read_der_Some by (auto split: if_splits)
  qed
next
  case (Suc n)
  note inner = Suc
  note codec = cbs_canonical_codec.axioms(1) [OF inner]
  show ?case
  proof
    fix s r t assume "read_der (Suc n) s = (r, t)"
    then show "\<exists>p. s = p @ t" by (rule read_der_prefix)
  next
    fix s d t assume "read_der (Suc n) s = (Some d, t)"
    then show "t \<noteq> s" by (auto simp: read_der_Some der_element_nonempty simp del: read_der.simps)
  next
    fix d rest assume d: "der_ok d \<and> der_depth d \<le> Suc n"
    show "read_der (Suc n) (der_bytes d @ rest) = (Some d, rest)"
    proof (cases d)
      case (Prim tag c)
      with d show ?thesis unfolding read_der_Some by auto
    next
      case (Node tag ts)
      let ?c = "concat (map der_bytes ts)"
      have valid: "list_all (\<lambda>d. der_ok d \<and> der_depth d \<le> n) ts"
        using d Node by (auto simp: list_all_iff fold_max_le)
      have "read_all (length ts + length ?c) (read_der n) ?c = Some ts"
        by (rule cbs_codec.read_all_enc [OF codec valid]) simp
      then have "read_all (length ?c) (read_der n) ?c = Some ts"
        using cbs_item_reader.read_all_fuel [OF cbs_codec.axioms(1) [OF codec], of ?c "length ts + length ?c"]
        by simp
      with d Node show ?thesis unfolding read_der_Some by auto
    qed
  next
    fix s d t assume "read_der (Suc n) s = (Some d, t)"
    then obtain c tag where c: "length c < 2 ^ 32" "s = der_element tag c @ t" and
      cases: "if tag AND CBS_ASN1_CONSTRUCTED = 0 then d = Prim tag c
        else \<exists>m ts. Suc n = Suc m \<and> read_all (length c) (read_der m) c = Some ts \<and> d = Node tag ts"
      unfolding read_der_Some by blast
    show "(der_ok d \<and> der_depth d \<le> Suc n) \<and> s = der_bytes d @ t"
    proof (cases "tag AND CBS_ASN1_CONSTRUCTED = 0")
      case True
      with c cases show ?thesis by simp
    next
      case False
      with cases obtain ts where ts: "read_all (length c) (read_der n) c = Some ts" "d = Node tag ts"
        by auto
      from cbs_canonical_codec.read_all_canonical [OF inner ts(1)] c ts(2) False show ?thesis
        by (auto simp: list_all_iff fold_max_le)
    qed
  qed
qed

section \<open>Properties\<close>

text \<open>
  The recursive reader built on \<open>CBS_get_any_asn1\<close> accepts exactly the encodings of
  the documents of bounded depth, and each has one: reading and encoding are inverse to each other.
\<close>

lemma read_der_exact:
  "read_der n s = (Some d, t) \<longleftrightarrow> der_ok d \<and> der_depth d \<le> n \<and> s = der_bytes d @ t"
  using cbs_canonical_codec.get_Some_iff [OF read_der_codec] by simp

text \<open>
  C20: Building a document with the calls of the CBB interface and parsing the result with the CBS
  interface gives the document back, whatever follows it in the input.
\<close>

theorem build_parse_document:
  assumes "der_ok d" and "length (der_bytes d) \<le> 0xfffffffe" and "cap < size_modulus"
    and "CBB_init sys cap = Some st \<or> CBB_init_fixed sys cap = Some st"
    and "do_calls (document_calls 0 d) sys st = (Some u, st1)" and "CBB_finish sys dd l h st1 = (Some out, st2)"
  shows "read_der (der_depth d) (out @ rest) = (Some d, rest)"
proof -
  have "spec_build (document_calls 0 d) = Some out"
    by (rule build_sound [OF document_calls_ok [OF assms(2)] assms(3-6)])
  then have "out = der_bytes d"
    by (simp add: spec_build_document [OF assms(2)])
  then show ?thesis
    using cbs_canonical_codec.get_Some_iff [OF read_der_codec, of "der_depth d"] assms(1) by simp
qed

theorem build_parse_document_witness:
  "read_der 1 [0x30, 3, 1, 1, 0xff, 7] = (Some (Node 0x20000010 [Prim 1 [0xff]]), [7])"
proof -
  let ?d = "Node 0x20000010 [Prim 1 [0xff]]"
  let ?st = "the (CBB_init (\<lambda>_. True) 0)"
  have init: "CBB_init (\<lambda>_. True) 0 = Some ?st"
    by (simp add: cbb_eval)
  have "\<exists>st1 st2. do_calls (document_calls 0 ?d) (\<lambda>_. True) ?st = (Some (), st1) \<and>
      CBB_finish (\<lambda>_. True) True True 0 st1 = (Some [0x30, 3, 1, 1, 0xff], st2)"
    by (simp add: cbb_eval)
  then obtain st1 st2 where "do_calls (document_calls 0 ?d) (\<lambda>_. True) ?st = (Some (), st1)"
    "CBB_finish (\<lambda>_. True) True True 0 st1 = (Some [0x30, 3, 1, 1, 0xff], st2)"
    by blast
  moreover have "der_ok ?d" "length (der_bytes ?d) \<le> 0xfffffffe"
    by (simp_all add: CBS_ASN1_CONSTRUCTED_def CBS_ASN1_TAG_SHIFT_def der_element_def der_header_def der_length_def der_tag_def)
  ultimately have "read_der (der_depth ?d) ([0x30, 3, 1, 1, 0xff] @ [7]) = (Some ?d, [7])"
    using init by (intro build_parse_document [of ?d 0 "\<lambda>_. True" ?st]) auto
  then show ?thesis by simp
qed

end
