(* ===== verification/Base64.thy ===== *)
theory Base64
  imports Const_Time
begin

text \<open>
  \<open>crypto/base64/base64.c\<close>: the constant-time base64 encoder and decoder, one-shot and
  streaming. The \<open>data_used\<close> valid bytes of \<open>EVP_ENCODE_CTX.data\<close> are a list. The functions
  return the bytes they write; the terminating zero byte the encoder puts after them is
  not part of the list. An \<open>int\<close> result of -1 is \<open>None\<close>.
\<close>

section \<open>Encoding\<close>

definition constant_time_lt_args_8 :: "u8 \<Rightarrow> u8 \<Rightarrow> u8" where
  "constant_time_lt_args_8 a b = ucast (constant_time_msb_w (ucast a - ucast b))"

definition constant_time_in_range_8 :: "u8 \<Rightarrow> u8 \<Rightarrow> u8 \<Rightarrow> u8" where
  "constant_time_in_range_8 a lo hi = constant_time_lt_args_8 (a - lo) (hi - lo + 1)"

definition conv_bin2ascii :: "u8 \<Rightarrow> u8" where
  "conv_bin2ascii a0 =
     (let a = a0 AND 0x3f;
          ret = constant_time_select_8 (constant_time_eq_8 (ucast a) 62) 43 47;
          ret = constant_time_select_8 (constant_time_lt_args_8 a 62) (a - 52 + 48) ret;
          ret = constant_time_select_8 (constant_time_lt_args_8 a 52) (a - 26 + 97) ret;
          ret = constant_time_select_8 (constant_time_lt_args_8 a 26) (a + 65) ret
      in ret)"

definition EVP_EncodedLength :: "nat \<Rightarrow> nat option" where
  "EVP_EncodedLength len =
     (if size_add len 2 < len then None
      else let len = size_add len 2 div 3 in
        if size_mul len 4 div 4 \<noteq> len then None
        else let len = size_mul len 4 in
          if size_add len 1 < len then None else Some (size_add len 1))"

definition encode_word :: "u8 \<Rightarrow> u8 \<Rightarrow> u8 \<Rightarrow> u32" where
  "encode_word a b c = push_bit 16 (ucast a) OR push_bit 8 (ucast b) OR ucast c"

definition encode_char :: "u32 \<Rightarrow> nat \<Rightarrow> u8" where
  "encode_char l k = conv_bin2ascii (ucast (drop_bit k l))"

fun EVP_EncodeBlock :: "u8 list \<Rightarrow> u8 list" where
  "EVP_EncodeBlock [] = []"
| "EVP_EncodeBlock [a] =
     (let l = push_bit 16 (ucast a) in [encode_char l 18, encode_char l 12, 61, 61])"
| "EVP_EncodeBlock [a, b] =
     (let l = push_bit 16 (ucast a) OR push_bit 8 (ucast b)
      in [encode_char l 18, encode_char l 12, encode_char l 6, 61])"
| "EVP_EncodeBlock (a # b # c # src) =
     (let l = encode_word a b c
      in [encode_char l 18, encode_char l 12, encode_char l 6, encode_char l 0] @ EVP_EncodeBlock src)"

record evp_encode_ctx =
  enc_data :: "u8 list"
  eof_seen :: bool
  error_encountered :: bool

definition sizeof_data :: nat where
  "sizeof_data = 48"

definition EVP_EncodeInit :: evp_encode_ctx where
  "EVP_EncodeInit = \<lparr>enc_data = [], eof_seen = False, error_encountered = False\<rparr>"

text \<open>
  The loop over whole blocks: what is left of the input, the bytes written and the
  running tot, or \<open>None\<close> when the total wraps around.
\<close>

function encode_update_loop :: "u8 list \<Rightarrow> nat \<Rightarrow> (u8 list \<times> u8 list \<times> nat) option" where
  "encode_update_loop inp tot =
     (if length inp \<ge> sizeof_data then
        let block = EVP_EncodeBlock (take sizeof_data inp); encoded = length block in
        if size_add (size_add tot encoded) 1 < tot then None
        else case encode_update_loop (drop sizeof_data inp) (size_add tot (size_add encoded 1)) of
            None \<Rightarrow> None
          | Some (rest, out, tot) \<Rightarrow> Some (rest, block @ [10] @ out, tot)
      else Some (inp, [], tot))"
  by pat_completeness auto

termination
  by (relation "measure (length \<circ> fst)") (auto simp: sizeof_data_def)

declare encode_update_loop.simps [simp del]

text \<open>The result is the context, the bytes written, and \<open>*out_len\<close>.\<close>

definition EVP_EncodeUpdate :: "evp_encode_ctx \<Rightarrow> u8 list \<Rightarrow> evp_encode_ctx \<times> u8 list \<times> nat" where
  "EVP_EncodeUpdate ctx inp =
     (let used = length (enc_data ctx) in
      if inp = [] then (ctx, [], 0)
      else if sizeof_data - used > length inp then (ctx\<lparr>enc_data := enc_data ctx @ inp\<rparr>, [], 0)
      else
       let todo = sizeof_data - used;
           (first, inp, tot) =
             (if used \<noteq> 0 then
                let block = EVP_EncodeBlock (enc_data ctx @ take todo inp)
                in (block @ [10], drop todo inp, length block + 1)
              else ([], inp, 0)) in
       case encode_update_loop inp tot of
         None \<Rightarrow> (ctx\<lparr>enc_data := []\<rparr>, first, 0)
       | Some (rest, out, tot) \<Rightarrow>
           (ctx\<lparr>enc_data := rest\<rparr>, first @ out, if tot > int_max then 0 else tot))"

definition EVP_EncodeFinal :: "evp_encode_ctx \<Rightarrow> evp_encode_ctx \<times> u8 list \<times> nat" where
  "EVP_EncodeFinal ctx =
     (if enc_data ctx = [] then (ctx, [], 0)
      else let out = EVP_EncodeBlock (enc_data ctx) @ [10]
        in (ctx\<lparr>enc_data := []\<rparr>, out, length out))"

section \<open>Decoding\<close>

definition EVP_DecodedLength :: "nat \<Rightarrow> nat option" where
  "EVP_DecodedLength len = (if len mod 4 \<noteq> 0 then None else Some (size_mul (len div 4) 3))"

definition base64_ascii_to_bin :: "u8 \<Rightarrow> u8" where
  "base64_ascii_to_bin a =
     (let is_upper = constant_time_in_range_8 a 65 90;
          is_lower = constant_time_in_range_8 a 97 122;
          is_digit = constant_time_in_range_8 a 48 57;
          is_plus = constant_time_eq_8 (ucast a) 43;
          is_slash = constant_time_eq_8 (ucast a) 47;
          is_equals = constant_time_eq_8 (ucast a) 61;
          ret = is_upper AND (a - 65);
          ret = ret OR (is_lower AND (a - 97 + 26));
          ret = ret OR (is_digit AND (a - 48 + 52));
          ret = ret OR (is_plus AND 62);
          ret = ret OR (is_slash AND 63);
          is_valid = is_upper OR is_lower OR is_digit OR is_plus OR is_slash OR is_equals
      in ret OR NOT is_valid)"

definition padding_pattern :: "u8 \<Rightarrow> u8 \<Rightarrow> u8 \<Rightarrow> u8 \<Rightarrow> u32" where
  "padding_pattern i0 i1 i2 i3 =
     push_bit 3 (of_bool (i0 = 61)) OR push_bit 2 (of_bool (i1 = 61)) OR
     push_bit 1 (of_bool (i2 = 61)) OR of_bool (i3 = 61)"

definition base64_decode_quad :: "u8 \<Rightarrow> u8 \<Rightarrow> u8 \<Rightarrow> u8 \<Rightarrow> u8 list option" where
  "base64_decode_quad i0 i1 i2 i3 =
     (let a = base64_ascii_to_bin i0; b = base64_ascii_to_bin i1;
          c = base64_ascii_to_bin i2; d = base64_ascii_to_bin i3 in
      if a = 0xff \<or> b = 0xff \<or> c = 0xff \<or> d = 0xff then None
      else
       let v = push_bit 18 (ucast a) OR push_bit 12 (ucast b) OR push_bit 6 (ucast c) OR ucast d :: u32;
           pattern = padding_pattern i0 i1 i2 i3 in
       if pattern = 0 then Some [ucast (drop_bit 16 v), ucast (drop_bit 8 v), ucast v]
       else if pattern = 1 then Some [ucast (drop_bit 16 v), ucast (drop_bit 8 v)]
       else if pattern = 3 then Some [ucast (drop_bit 16 v)]
       else None)"

definition is_base64_space :: "u8 \<Rightarrow> bool" where
  "is_base64_space c = (c = 32 \<or> c = 9 \<or> c = 13 \<or> c = 10)"

text \<open>The loop over the characters: whether it got through, the context, the bytes written.\<close>

fun decode_update_loop :: "evp_encode_ctx \<Rightarrow> u8 list \<Rightarrow> bool \<times> evp_encode_ctx \<times> u8 list" where
  "decode_update_loop ctx [] = (True, ctx, [])"
| "decode_update_loop ctx (c # inp) =
     (if is_base64_space c then decode_update_loop ctx inp
      else if eof_seen ctx then (False, ctx\<lparr>error_encountered := True\<rparr>, [])
      else
       let data = enc_data ctx @ [c]; ctx = ctx\<lparr>enc_data := data\<rparr> in
       if length data = 4 then
         (case base64_decode_quad (data ! 0) (data ! 1) (data ! 2) (data ! 3) of
            None \<Rightarrow> (False, ctx\<lparr>error_encountered := True\<rparr>, [])
          | Some bytes \<Rightarrow>
             (let ctx = ctx\<lparr>enc_data := []\<rparr>;
                  ctx = (if length bytes < 3 then ctx\<lparr>eof_seen := True\<rparr> else ctx) in
              case decode_update_loop ctx inp of (ok, ctx, out) \<Rightarrow> (ok, ctx, bytes @ out)))
       else decode_update_loop ctx inp)"

text \<open>The result is the return value, the context, the bytes written, and \<open>*out_len\<close>.\<close>

definition EVP_DecodeUpdate :: "evp_encode_ctx \<Rightarrow> u8 list \<Rightarrow> int \<times> evp_encode_ctx \<times> u8 list \<times> nat" where
  "EVP_DecodeUpdate ctx inp =
     (if error_encountered ctx then (-1, ctx, [], 0)
      else case decode_update_loop ctx inp of
        (ok, ctx, out) \<Rightarrow>
          if \<not> ok then (-1, ctx, out, 0)
          else if length out > int_max then (-1, ctx\<lparr>error_encountered := True\<rparr>, out, 0)
          else (if eof_seen ctx then 0 else 1, ctx, out, length out))"

definition EVP_DecodeFinal :: "evp_encode_ctx \<Rightarrow> int" where
  "EVP_DecodeFinal ctx = (if error_encountered ctx \<or> enc_data ctx \<noteq> [] then -1 else 1)"

fun decode_base64_loop :: "u8 list \<Rightarrow> u8 list option" where
  "decode_base64_loop (i0 # i1 # i2 # i3 # inp) =
     (case base64_decode_quad i0 i1 i2 i3 of
        None \<Rightarrow> None
      | Some bytes \<Rightarrow>
          if length bytes \<noteq> 3 \<and> inp \<noteq> [] then None
          else map_option ((@) bytes) (decode_base64_loop inp))"
| "decode_base64_loop _ = Some []"

definition EVP_DecodeBase64 :: "nat \<Rightarrow> u8 list \<Rightarrow> u8 list option" where
  "EVP_DecodeBase64 max_out inp =
     (if length inp mod 4 \<noteq> 0 then None
      else case EVP_DecodedLength (length inp) of
          None \<Rightarrow> None
        | Some max_len \<Rightarrow> if max_out < max_len then None else decode_base64_loop inp)"

function pad_with_nuls :: "u8 list \<Rightarrow> u8 list" where
  "pad_with_nuls dst = (if length dst mod 3 \<noteq> 0 then pad_with_nuls (dst @ [0]) else dst)"
  by pat_completeness auto

termination
proof (relation "measure (\<lambda>dst. (3 - length dst mod 3) mod 3)")
  fix dst :: "u8 list" assume "length dst mod 3 \<noteq> 0"
  then show "(dst @ [0], dst) \<in> measure (\<lambda>dst. (3 - length dst mod 3) mod 3)"
    by (cases "length dst mod 3 = 2") (auto simp: mod_Suc)
qed simp

declare pad_with_nuls.simps [simp del]

definition EVP_DecodeBlock :: "u8 list \<Rightarrow> u8 list option" where
  "EVP_DecodeBlock src0 =
     (let src = dropWhile (\<lambda>c. c = 32 \<or> c = 9) src0;
          src = rev (dropWhile is_base64_space (rev src)) in
      case EVP_DecodedLength (length src) of
        None \<Rightarrow> None
      | Some dst_len \<Rightarrow>
          if dst_len > int_max then None
          else map_option pad_with_nuls (EVP_DecodeBase64 dst_len src))"

section \<open>The alphabet\<close>

lemma constant_time_lt_args_8_eq: "constant_time_lt_args_8 a b = mask_of (a < b)"
proof -
  obtain m n where m: "unat a = m" "m < 256" and n: "unat b = n" "n < 256"
    using unat_u8_less by blast
  have u: "unat (ucast a :: crypto_word) = m" "unat (ucast b :: crypto_word) = n"
    using m n by (simp_all add: unat_ucast_up)
  have "bit (ucast a - ucast b :: crypto_word) 63 \<longleftrightarrow> m < n"
    using m(2) n(2) unfolding bit_63_iff unat_sub_if' u by simp arith
  then show ?thesis
    by (simp add: constant_time_lt_args_8_def constant_time_msb_w_eq word_less_nat_alt m n)
qed

lemma constant_time_in_range_8_eq:
  assumes "lo \<le> hi" and "unat hi - unat lo < 255"
  shows "constant_time_in_range_8 a lo hi = mask_of (lo \<le> a \<and> a \<le> hi)"
proof -
  obtain x l h where x: "unat a = x" "x < 256" and l: "unat lo = l" and h: "unat hi = h" "h < 256"
    using unat_u8_less by blast
  have le: "l \<le> h" and range: "h - l < 255"
    using assms by (simp_all add: word_le_nat_alt l h)
  have "unat (hi - lo + 1) = h - l + 1"
    using le range h(2) by (simp add: unat_word_ariths unat_sub_if' l h mod_if)
  moreover have "unat (a - lo) = (if l \<le> x then x - l else x + 256 - l)"
    by (simp add: unat_sub_if' x l)
  moreover have "(if l \<le> x then x - l else x + 256 - l) < h - l + 1 \<longleftrightarrow> l \<le> x \<and> x \<le> h"
    using le h(2) by simp arith
  ultimately have "a - lo < hi - lo + 1 \<longleftrightarrow> lo \<le> a \<and> a \<le> hi"
    by (simp add: word_less_nat_alt word_le_nat_alt x l h)
  then show ?thesis
    by (simp add: constant_time_in_range_8_def constant_time_lt_args_8_eq)
qed

lemma ucast_u8_eq_iff: "(ucast (a :: u8) = (ucast b :: crypto_word)) \<longleftrightarrow> a = b"
  by (simp add: word_unat_eq_iff unat_ucast_up)

lemma constant_time_eq_8_char: "constant_time_eq_8 (ucast (a :: u8)) (ucast (b :: u8)) = mask_of (a = b)"
  by (simp add: const_time ucast_u8_eq_iff)

text \<open>The characters the two conversions stand for.\<close>

lemma conv_bin2ascii_eq:
  "conv_bin2ascii a0 =
    (let a = a0 AND 0x3f in
     if a < 26 then a + 65 else if a < 52 then a - 26 + 97 else if a < 62 then a - 52 + 48
     else if a = 62 then 43 else 47)"
proof -
  have "constant_time_eq_8 (ucast (a0 AND 0x3f)) 62 = mask_of (a0 AND 0x3f = 62)"
    using constant_time_eq_8_char [of "a0 AND 0x3f" 62] by (simp only: unsigned_numeral) simp
  then show ?thesis
    unfolding conv_bin2ascii_def Let_def constant_time_lt_args_8_eq by (simp only: constant_time_select_8_eq)
qed

lemma base64_ascii_to_bin_eq:
  "base64_ascii_to_bin a =
    (if 65 \<le> a \<and> a \<le> 90 then a - 65
     else if 97 \<le> a \<and> a \<le> 122 then a - 97 + 26
     else if 48 \<le> a \<and> a \<le> 57 then a - 48 + 52
     else if a = 43 then 62 else if a = 47 then 63 else if a = 61 then 0 else 0xff)"
proof -
  have range: "constant_time_in_range_8 a 65 90 = mask_of (65 \<le> a \<and> a \<le> 90)"
    "constant_time_in_range_8 a 97 122 = mask_of (97 \<le> a \<and> a \<le> 122)"
    "constant_time_in_range_8 a 48 57 = mask_of (48 \<le> a \<and> a \<le> 57)"
    by (rule constant_time_in_range_8_eq; simp)+
  have char: "constant_time_eq_8 (ucast a) 43 = mask_of (a = 43)"
    "constant_time_eq_8 (ucast a) 47 = mask_of (a = 47)" "constant_time_eq_8 (ucast a) 61 = mask_of (a = 61)"
    using constant_time_eq_8_char [of a 43] constant_time_eq_8_char [of a 47] constant_time_eq_8_char [of a 61]
    by simp_all
  show ?thesis
    unfolding base64_ascii_to_bin_def Let_def range char
    by (auto simp: word_le_nat_alt)
qed

text \<open>The decoder reads back the character of every six-bit value.\<close>

lemma six_bit_cases:
  assumes "\<And>n. n < 64 \<Longrightarrow> P (word_of_nat n)" shows "P (a AND 0x3f :: u8)"
proof -
  have "a AND 0x3f = take_bit 6 a"
    by (simp add: take_bit_eq_mask mask_eq_exp_minus_1)
  then have "unat (a AND 0x3f) = unat a mod 64"
    by (simp only: unsigned_take_bit_eq) (simp add: take_bit_eq_mod)
  then have "word_of_nat (unat a mod 64) = a AND 0x3f"
    by (metis word_of_nat_unat)
  with assms [of "unat a mod 64"] show ?thesis
    by simp
qed

lemma conv_bin2ascii_mask: "conv_bin2ascii (a AND 0x3f) = conv_bin2ascii a"
  by (simp add: conv_bin2ascii_def and.assoc)

lemma conv_bin2ascii_properties:
  "base64_ascii_to_bin (conv_bin2ascii a) = a AND 0x3f \<and> conv_bin2ascii a \<noteq> 61 \<and>
   \<not> is_base64_space (conv_bin2ascii a) \<and> a AND 0x3f \<noteq> 0xff"
proof -
  have key: "base64_ascii_to_bin (conv_bin2ascii w) = w \<and> conv_bin2ascii w \<noteq> 61 \<and>
      \<not> is_base64_space (conv_bin2ascii w) \<and> w \<noteq> 0xff" if n: "n < 64" and "w = word_of_nat n" for n and w :: u8
  proof -
    have w: "unat w = n" using that by simp
    have "w AND 0x3f = take_bit 6 w"
      by (simp add: take_bit_eq_mask mask_eq_exp_minus_1)
    then have "unat (w AND 0x3f) = unat w"
      by (simp only: unsigned_take_bit_eq) (use w that in \<open>simp add: take_bit_eq_mod\<close>)
    then have m: "w AND 0x3f = w" by (simp only: word_unat_eq_iff)
    consider "n < 26" | "26 \<le> n" "n < 52" | "52 \<le> n" "n < 62" | "n = 62" | "n = 63"
      using n by linarith
    then show ?thesis
      by cases (auto simp: conv_bin2ascii_eq m base64_ascii_to_bin_eq is_base64_space_def word_less_nat_alt
          word_le_nat_alt word_unat_eq_iff unat_word_ariths unat_sub_if' w)
  qed
  have "base64_ascii_to_bin (conv_bin2ascii (a AND 0x3f)) = a AND 0x3f \<and> conv_bin2ascii (a AND 0x3f) \<noteq> 61 \<and>
      \<not> is_base64_space (conv_bin2ascii (a AND 0x3f)) \<and> a AND 0x3f \<noteq> 0xff"
    by (rule six_bit_cases [where P = "\<lambda>w. base64_ascii_to_bin (conv_bin2ascii w) = w \<and>
      conv_bin2ascii w \<noteq> 61 \<and> \<not> is_base64_space (conv_bin2ascii w) \<and> w \<noteq> 0xff"]) (rule key [OF _ refl])
  then show ?thesis unfolding conv_bin2ascii_mask .
qed

section \<open>One quad\<close>

lemma encode_char_properties:
  "base64_ascii_to_bin (encode_char l k) = take_bit 6 (ucast (drop_bit k l))"
  "encode_char l k \<noteq> 61" "\<not> is_base64_space (encode_char l k)"
  "take_bit 6 (ucast (drop_bit k l)) \<noteq> (0xff :: u8)"
proof -
  have "x AND 0x3f = take_bit 6 x" for x :: u8
    by (simp add: take_bit_eq_mask mask_eq_exp_minus_1)
  with conv_bin2ascii_properties [of "ucast (drop_bit k l)"] show
    "base64_ascii_to_bin (encode_char l k) = take_bit 6 (ucast (drop_bit k l))"
    "encode_char l k \<noteq> 61" "\<not> is_base64_space (encode_char l k)"
    "take_bit 6 (ucast (drop_bit k l)) \<noteq> (0xff :: u8)"
    by (simp_all add: encode_char_def)
qed

lemma ascii_to_bin_equals: "base64_ascii_to_bin 61 = 0"
  by (simp add: base64_ascii_to_bin_eq word_le_nat_alt)

definition sextets_word :: "u32 \<Rightarrow> nat \<Rightarrow> u32" where
  "sextets_word l k = push_bit k (ucast (take_bit 6 (ucast (drop_bit k l) :: u8)))"

lemma bit_sextets_word: "bit (sextets_word l k) n \<longleftrightarrow> k \<le> n \<and> n < k + 6 \<and> n < 32 \<and> bit l n"
  by (auto simp: sextets_word_def bit_simps)

lemma sextets_24: "sextets_word l 18 OR sextets_word l 12 OR sextets_word l 6 OR sextets_word l 0 = take_bit 24 l"
  by (rule bit_word_eqI) (auto simp: bit_or_iff bit_sextets_word bit_take_bit_iff)

lemma padding_patterns:
  "i0 \<noteq> 61 \<Longrightarrow> i1 \<noteq> 61 \<Longrightarrow> i2 \<noteq> 61 \<Longrightarrow> i3 \<noteq> 61 \<Longrightarrow> padding_pattern i0 i1 i2 i3 = 0"
  "i0 \<noteq> 61 \<Longrightarrow> i1 \<noteq> 61 \<Longrightarrow> i2 \<noteq> 61 \<Longrightarrow> padding_pattern i0 i1 i2 61 = 1"
  "i0 \<noteq> 61 \<Longrightarrow> i1 \<noteq> 61 \<Longrightarrow> padding_pattern i0 i1 61 61 = 3"
  by (simp_all add: padding_pattern_def)

lemma decode_encoded_quad:
  "base64_decode_quad (encode_char l 18) (encode_char l 12) (encode_char l 6) (encode_char l 0) =
    Some [ucast (drop_bit 16 (take_bit 24 l)), ucast (drop_bit 8 (take_bit 24 l)), ucast (take_bit 24 l)]"
  using sextets_24 [of l] encode_char_properties(4) [of 0 l]
  by (simp add: base64_decode_quad_def encode_char_properties padding_patterns sextets_word_def Let_def)

lemma decode_encoded_quad2:
  assumes "take_bit 8 l = 0"
  shows "base64_decode_quad (encode_char l 18) (encode_char l 12) (encode_char l 6) 61 =
    Some [ucast (drop_bit 16 (take_bit 24 l)), ucast (drop_bit 8 (take_bit 24 l))]"
proof -
  have low: "8 \<le> n" if "bit l n" for n
    using assms that by (metis bit_0_eq bit_take_bit_iff bot_apply bot_bool_def not_le)
  have "sextets_word l 18 OR sextets_word l 12 OR sextets_word l 6 = take_bit 24 l"
    by (rule bit_word_eqI) (auto simp: bit_or_iff bit_sextets_word bit_take_bit_iff dest: low)
  then show ?thesis
    by (simp add: base64_decode_quad_def encode_char_properties padding_patterns sextets_word_def Let_def
        ascii_to_bin_equals)
qed

lemma decode_encoded_quad1:
  assumes "take_bit 16 l = 0"
  shows "base64_decode_quad (encode_char l 18) (encode_char l 12) 61 61 =
    Some [ucast (drop_bit 16 (take_bit 24 l))]"
proof -
  have low: "16 \<le> n" if "bit l n" for n
    using assms that by (metis bit_0_eq bit_take_bit_iff bot_apply bot_bool_def not_le)
  have "sextets_word l 18 OR sextets_word l 12 = take_bit 24 l"
    by (rule bit_word_eqI) (auto simp: bit_or_iff bit_sextets_word bit_take_bit_iff dest: low)
  then show ?thesis
    by (simp add: base64_decode_quad_def encode_char_properties padding_patterns sextets_word_def Let_def
        ascii_to_bin_equals)
qed

lemma encode_word_bytes:
  "ucast (drop_bit 16 (take_bit 24 (encode_word a b c))) = a"
  "ucast (drop_bit 8 (take_bit 24 (encode_word a b c))) = b"
  "ucast (take_bit 24 (encode_word a b c)) = c"
  by (rule bit_word_eqI; auto simp: encode_word_def bit_simps dest: bit_imp_le_length)+

lemma encode_word_low:
  "take_bit 8 (encode_word a b 0) = 0" "take_bit 16 (encode_word a 0 0) = 0"
  by (rule bit_word_eqI; auto simp: encode_word_def bit_simps)+

lemma encode_block_partial:
  "EVP_EncodeBlock [a] = [encode_char (encode_word a 0 0) 18, encode_char (encode_word a 0 0) 12, 61, 61]"
  "EVP_EncodeBlock [a, b] = [encode_char (encode_word a b 0) 18, encode_char (encode_word a b 0) 12,
     encode_char (encode_word a b 0) 6, 61]"
  by (simp_all add: encode_word_def Let_def)

section \<open>Round trips\<close>

lemma length_EVP_EncodeBlock: "length (EVP_EncodeBlock s) = 4 * ((length s + 2) div 3)"
  by (induction s rule: EVP_EncodeBlock.induct) (simp_all add: Let_def, presburger)

lemma encode_block_eq_Nil: "EVP_EncodeBlock s = [] \<longleftrightarrow> s = []"
  by (cases s rule: EVP_EncodeBlock.cases) (auto simp: Let_def)

lemma decode_encoded: "decode_base64_loop (EVP_EncodeBlock s) = Some s"
proof (induction s rule: EVP_EncodeBlock.induct)
  case (2 a)
  show ?case
    unfolding encode_block_partial by (simp add: decode_encoded_quad1 encode_word_low encode_word_bytes)
next
  case (3 a b)
  show ?case
    unfolding encode_block_partial by (simp add: decode_encoded_quad2 encode_word_low encode_word_bytes)
next
  case (4 a b c src)
  then show ?case
    by (simp add: Let_def decode_encoded_quad encode_word_bytes)
qed simp

lemma EVP_DecodeBase64_encoded:
  assumes "length s < 2 ^ 62" and "3 * ((length s + 2) div 3) \<le> max_out"
  shows "EVP_DecodeBase64 max_out (EVP_EncodeBlock s) = Some s"
proof -
  have "(length s + 2) div 3 * 3 < size_modulus"
    using assms(1) div_times_less_eq_dividend [of "length s + 2" 3] by simp
  with assms(2) show ?thesis
    by (simp add: EVP_DecodeBase64_def EVP_DecodedLength_def length_EVP_EncodeBlock size_simps decode_encoded
        mult.commute)
qed

section \<open>Streaming\<close>

text \<open>
  What a stream of updates stands for: the input cut into blocks of 48 bytes, each a line;
  the bytes after the last whole block stay in the context.
\<close>

function whole_lines :: "u8 list \<Rightarrow> u8 list" where
  "whole_lines xs =
     (if length xs \<ge> 48 then EVP_EncodeBlock (take 48 xs) @ [10] @ whole_lines (drop 48 xs) else [])"
  by pat_completeness auto
termination
  by (relation "measure length") auto

declare whole_lines.simps [simp del]

definition partial_line :: "u8 list \<Rightarrow> u8 list" where
  "partial_line xs = drop (48 * (length xs div 48)) xs"

definition encode_text :: "u8 list \<Rightarrow> u8 list" where
  "encode_text xs =
     whole_lines xs @ (if partial_line xs = [] then [] else EVP_EncodeBlock (partial_line xs) @ [10])"

lemma whole_lines_short: "length xs < 48 \<Longrightarrow> whole_lines xs = []"
  by (simp add: whole_lines.simps)

lemma whole_lines_block: "length b = 48 \<Longrightarrow> whole_lines (b @ xs) = EVP_EncodeBlock b @ [10] @ whole_lines xs"
  by (subst whole_lines.simps) simp

lemma partial_line_short: "length xs < 48 \<Longrightarrow> partial_line xs = xs"
  by (simp add: partial_line_def)

lemma div_next_block: "(48 + n) div 48 = Suc (n div 48)" for n :: nat
  using div_add_self1 [of 48 n] by simp

lemma partial_line_block: "length b = 48 \<Longrightarrow> partial_line (b @ xs) = partial_line xs"
  by (simp add: partial_line_def div_next_block)

lemma length_partial_line: "length (partial_line xs) < 48"
  by (simp add: partial_line_def minus_mult_div_eq_mod)

lemma block_induct [case_names short block]:
  assumes "\<And>xs. length xs < 48 \<Longrightarrow> P xs"
    and "\<And>b xs. length b = 48 \<Longrightarrow> P xs \<Longrightarrow> P (b @ xs)"
  shows "P xs"
proof (induction "length xs" arbitrary: xs rule: less_induct)
  case less
  show ?case
  proof (cases "length xs < 48")
    case False
    then have "P (take 48 xs @ drop 48 xs)"
      by (intro assms(2) less) auto
    then show ?thesis by simp
  qed (rule assms(1))
qed

lemma length_whole_lines: "length (whole_lines xs) = 65 * (length xs div 48)"
  by (induction xs rule: block_induct) (simp_all add: whole_lines_short whole_lines_block length_EVP_EncodeBlock div_next_block)

lemma whole_lines_append:
  "whole_lines (xs @ ys) = whole_lines xs @ whole_lines (partial_line xs @ ys)"
  "partial_line (xs @ ys) = partial_line (partial_line xs @ ys)"
  by (induction xs rule: block_induct)
    (simp_all add: whole_lines_short partial_line_short whole_lines_block partial_line_block)

lemma encode_update_loop_eq:
  "tot + length (whole_lines inp) < size_modulus \<Longrightarrow>
   encode_update_loop inp tot = Some (partial_line inp, whole_lines inp, tot + length (whole_lines inp))"
proof (induction inp arbitrary: tot rule: block_induct)
  case (short xs)
  then show ?case
    by (simp add: encode_update_loop.simps sizeof_data_def partial_line_short whole_lines_short)
next
  case (block b xs)
  have len: "length (EVP_EncodeBlock b) = 64"
    using block.hyps by (simp add: length_EVP_EncodeBlock)
  with block.prems block.hyps have room: "tot + 65 + length (whole_lines xs) < size_modulus"
    by (simp add: whole_lines_block)
  then have "size_add (size_add tot 64) 1 = tot + 65" "size_add tot (size_add 64 1) = tot + 65"
    by (simp_all add: size_simps)
  with block.IH [OF room] block.hyps len show ?case
    by (subst encode_update_loop.simps)
      (simp add: sizeof_data_def partial_line_block whole_lines_block)
qed

lemma EVP_EncodeUpdate_eq:
  assumes "length (enc_data ctx) < 48" and "length inp < 2 ^ 62"
  shows "EVP_EncodeUpdate ctx inp =
    (ctx\<lparr>enc_data := partial_line (enc_data ctx @ inp)\<rparr>, whole_lines (enc_data ctx @ inp),
     if length (whole_lines (enc_data ctx @ inp)) > int_max then 0
     else length (whole_lines (enc_data ctx @ inp)))"
proof -
  let ?data = "enc_data ctx" let ?used = "length ?data"
  consider "inp = []" | "inp \<noteq> []" "48 - ?used > length inp"
    | "inp \<noteq> []" "length inp \<ge> 48 - ?used" "?data = []" | "inp \<noteq> []" "length inp \<ge> 48 - ?used" "?data \<noteq> []"
    by linarith
  then show ?thesis
  proof cases
    case 1
    with assms show ?thesis
      by (simp add: EVP_EncodeUpdate_def partial_line_short whole_lines_short)
  next
    case 2
    with assms show ?thesis
      by (simp add: EVP_EncodeUpdate_def sizeof_data_def partial_line_short whole_lines_short)
  next
    case 3
    have "length (whole_lines inp) < size_modulus"
      using assms(2) length_whole_lines [of inp] by simp
    with encode_update_loop_eq [of 0 inp] 3 show ?thesis
      by (simp add: EVP_EncodeUpdate_def sizeof_data_def Let_def)
  next
    case 4
    let ?b = "?data @ take (48 - ?used) inp" let ?rest = "drop (48 - ?used) inp"
    have b: "length ?b = 48"
      using 4 assms(1) by simp
    have split: "?data @ inp = ?b @ ?rest"
      by simp
    have len: "length (EVP_EncodeBlock ?b) = 64"
      unfolding length_EVP_EncodeBlock b by simp
    have "65 + length (whole_lines ?rest) < size_modulus"
      using assms(2) length_whole_lines [of ?rest] by simp
    from encode_update_loop_eq [OF this] have
      loop: "encode_update_loop ?rest 65 = Some (partial_line ?rest, whole_lines ?rest, 65 + length (whole_lines ?rest))" .
    have eq: "whole_lines (?data @ inp) = EVP_EncodeBlock ?b @ [10] @ whole_lines ?rest"
      "partial_line (?data @ inp) = partial_line ?rest"
      unfolding split using b by (rule whole_lines_block, rule partial_line_block)
    have "EVP_EncodeUpdate ctx inp = (ctx\<lparr>enc_data := partial_line ?rest\<rparr>,
      EVP_EncodeBlock ?b @ [10] @ whole_lines ?rest,
      if 65 + length (whole_lines ?rest) > int_max then 0 else 65 + length (whole_lines ?rest))"
      using 4 len loop by (simp add: EVP_EncodeUpdate_def sizeof_data_def Let_def)
    then show ?thesis
      unfolding eq by (simp add: len)
  qed
qed

text \<open>
  A caller that encodes a stream: it takes the \<open>*out_len\<close> bytes each update reports, then those of the final call.
\<close>

fun encode_chunks :: "evp_encode_ctx \<Rightarrow> u8 list list \<Rightarrow> evp_encode_ctx \<times> u8 list" where
  "encode_chunks ctx [] = (ctx, [])"
| "encode_chunks ctx (c # cs) =
     (case EVP_EncodeUpdate ctx c of (ctx, out, out_len) \<Rightarrow>
        (case encode_chunks ctx cs of (ctx, out') \<Rightarrow> (ctx, take out_len out @ out')))"

definition encode_stream :: "u8 list list \<Rightarrow> u8 list" where
  "encode_stream cs =
     (case encode_chunks EVP_EncodeInit cs of (ctx, out) \<Rightarrow>
        case EVP_EncodeFinal ctx of (ctx, out', out_len) \<Rightarrow> out @ take out_len out')"

text \<open>
  A chunk of at most so many bytes completes lines of at most \<open>INT_MAX\<close> characters, with the newlines; for a longer one
  \<open>*out_len\<close> may not tell the number of bytes.
\<close>

definition encode_chunk_max :: nat where
  "encode_chunk_max = 48 * (int_max div 65) - 48"

lemma encode_chunk_fits:
  assumes "length data < 48" and "length c \<le> encode_chunk_max"
  shows "length (whole_lines (data @ c)) \<le> int_max" and "length c < 2 ^ 62"
proof -
  have "length (data @ c) < 48 * (int_max div 65)" using assms by (simp add: encode_chunk_max_def)
  then have "length (data @ c) div 48 \<le> int_max div 65" by simp
  then show "length (whole_lines (data @ c)) \<le> int_max" unfolding length_whole_lines by simp
  show "length c < 2 ^ 62" using assms(2) by (simp add: encode_chunk_max_def)
qed

lemma encode_chunks_eq:
  "length (enc_data ctx) < 48 \<Longrightarrow> list_all (\<lambda>c. length c \<le> encode_chunk_max) cs \<Longrightarrow>
   encode_chunks ctx cs = (ctx\<lparr>enc_data := partial_line (enc_data ctx @ concat cs)\<rparr>,
     whole_lines (enc_data ctx @ concat cs))"
proof (induction cs arbitrary: ctx)
  case Nil
  then show ?case by (simp add: partial_line_short whole_lines_short)
next
  case (Cons c cs)
  let ?xs = "enc_data ctx @ c"
  have "encode_chunks (ctx\<lparr>enc_data := partial_line ?xs\<rparr>) cs =
    (ctx\<lparr>enc_data := partial_line (partial_line ?xs @ concat cs)\<rparr>, whole_lines (partial_line ?xs @ concat cs))"
    using Cons.IH [of "ctx\<lparr>enc_data := partial_line ?xs\<rparr>"] Cons.prems length_partial_line by simp
  moreover have "EVP_EncodeUpdate ctx c = (ctx\<lparr>enc_data := partial_line ?xs\<rparr>, whole_lines ?xs, length (whole_lines ?xs))"
    using EVP_EncodeUpdate_eq [of ctx c] encode_chunk_fits [of "enc_data ctx" c] Cons.prems by simp
  moreover have "whole_lines (enc_data ctx @ concat (c # cs)) = whole_lines ?xs @ whole_lines (partial_line ?xs @ concat cs)"
    "partial_line (enc_data ctx @ concat (c # cs)) = partial_line (partial_line ?xs @ concat cs)"
    using whole_lines_append [of ?xs "concat cs"] by simp_all
  ultimately show ?case by simp
qed

lemma encode_stream_eq:
  "list_all (\<lambda>c. length c \<le> encode_chunk_max) cs \<Longrightarrow> encode_stream cs = encode_text (concat cs)"
  using encode_chunks_eq [of EVP_EncodeInit cs]
  by (simp add: encode_stream_def EVP_EncodeInit_def EVP_EncodeFinal_def encode_text_def)

text \<open>The decoding loop runs through the input left to right; blanks do nothing.\<close>

lemma decode_update_loop_append:
  "decode_update_loop ctx (xs @ ys) =
    (case decode_update_loop ctx xs of
       (False, ctx', out) \<Rightarrow> (False, ctx', out)
     | (True, ctx', out) \<Rightarrow>
         (case decode_update_loop ctx' ys of (ok, ctx'', out') \<Rightarrow> (ok, ctx'', out @ out')))"
  by (induction ctx xs rule: decode_update_loop.induct)
    (auto simp: Let_def split: prod.splits bool.splits option.splits)

abbreviation decode_start :: evp_encode_ctx where
  "decode_start \<equiv> \<lparr>enc_data = [], eof_seen = False, error_encountered = False\<rparr>"

lemma decode_update_loop_quad:
  assumes "\<not> is_base64_space i0" "\<not> is_base64_space i1" "\<not> is_base64_space i2" "\<not> is_base64_space i3"
    and "base64_decode_quad i0 i1 i2 i3 = Some bytes"
  shows "decode_update_loop decode_start (i0 # i1 # i2 # i3 # inp) =
    (case decode_update_loop (decode_start\<lparr>eof_seen := length bytes < 3\<rparr>) inp of
       (ok, ctx, out) \<Rightarrow> (ok, ctx, bytes @ out))"
  using assms by (auto simp: Let_def)

lemma equals_no_space: "\<not> is_base64_space 61"
  by (simp add: is_base64_space_def)

lemma decode_update_loop_block:
  "decode_update_loop decode_start (EVP_EncodeBlock s) =
    (True, decode_start\<lparr>eof_seen := (length s mod 3 \<noteq> 0)\<rparr>, s)"
proof (induction s rule: EVP_EncodeBlock.induct)
  case (2 a)
  have quad: "base64_decode_quad (encode_char (encode_word a 0 0) 18) (encode_char (encode_word a 0 0) 12) 61 61 = Some [a]"
    by (simp add: decode_encoded_quad1 encode_word_low encode_word_bytes)
  show ?case
    unfolding encode_block_partial
    by (subst decode_update_loop_quad [OF _ _ _ _ quad]) (simp_all add: encode_char_properties equals_no_space)
next
  case (3 a b)
  have quad: "base64_decode_quad (encode_char (encode_word a b 0) 18) (encode_char (encode_word a b 0) 12)
      (encode_char (encode_word a b 0) 6) 61 = Some [a, b]"
    by (simp add: decode_encoded_quad2 encode_word_low encode_word_bytes)
  show ?case
    unfolding encode_block_partial
    by (subst decode_update_loop_quad [OF _ _ _ _ quad]) (simp_all add: encode_char_properties equals_no_space)
next
  case (4 a b c src)
  let ?l = "encode_word a b c"
  have quad: "base64_decode_quad (encode_char ?l 18) (encode_char ?l 12) (encode_char ?l 6) (encode_char ?l 0) =
      Some [a, b, c]"
    by (simp add: decode_encoded_quad encode_word_bytes)
  have enc: "EVP_EncodeBlock (a # b # c # src) =
      encode_char ?l 18 # encode_char ?l 12 # encode_char ?l 6 # encode_char ?l 0 # EVP_EncodeBlock src"
    by (simp add: Let_def)
  note step = decode_update_loop_quad [OF encode_char_properties(3) encode_char_properties(3)
      encode_char_properties(3) encode_char_properties(3) quad]
  have "Suc (Suc (Suc n)) mod 3 = n mod 3" for n
    by presburger
  then show ?case
    using "4.IH" [OF refl] unfolding enc step by simp
qed simp

lemma decode_update_loop_newline: "decode_update_loop ctx [10] = (True, ctx, [])"
  by (simp add: is_base64_space_def)

lemma decode_whole_lines:
  "decode_update_loop decode_start (whole_lines xs) = (True, decode_start, take (48 * (length xs div 48)) xs)"
proof (induction xs rule: block_induct)
  case (short xs)
  then show ?case by (simp add: whole_lines_short)
next
  case (block b xs)
  have "decode_update_loop decode_start (EVP_EncodeBlock b) = (True, decode_start, b)"
    using decode_update_loop_block [of b] block.hyps by simp
  with block show ?case
    by (simp add: whole_lines_block decode_update_loop_append decode_update_loop_newline div_next_block
        del: decode_update_loop.simps append_Cons append_Nil)
qed

lemma decode_encode_text:
  "decode_update_loop decode_start (encode_text xs) =
    (True, decode_start\<lparr>eof_seen := (length (partial_line xs) mod 3 \<noteq> 0)\<rparr>, xs)"
proof -
  have split: "take (48 * (length xs div 48)) xs @ partial_line xs = xs"
    by (simp add: partial_line_def)
  show ?thesis
  proof (cases "partial_line xs = []")
    case True
    with decode_whole_lines [of xs] split show ?thesis
      by (simp add: encode_text_def)
  next
    case False
    with decode_whole_lines [of xs] split show ?thesis
      by (simp add: encode_text_def decode_update_loop_append decode_update_loop_block decode_update_loop_newline
          del: decode_update_loop.simps)
  qed
qed

text \<open>A caller that decodes a stream takes the \<open>*out_len\<close> bytes of each update.\<close>

fun decode_chunks :: "evp_encode_ctx \<Rightarrow> u8 list list \<Rightarrow> bool \<times> evp_encode_ctx \<times> u8 list" where
  "decode_chunks ctx [] = (True, ctx, [])"
| "decode_chunks ctx (c # cs) =
     (case EVP_DecodeUpdate ctx c of (r, ctx, out, out_len) \<Rightarrow>
        if r < 0 then (False, ctx, take out_len out)
        else (case decode_chunks ctx cs of (ok, ctx, out') \<Rightarrow> (ok, ctx, take out_len out @ out')))"

definition EVP_DecodeInit :: evp_encode_ctx where
  "EVP_DecodeInit = \<lparr>enc_data = [], eof_seen = False, error_encountered = False\<rparr>"

definition decode_stream :: "u8 list list \<Rightarrow> u8 list option" where
  "decode_stream cs =
     (case decode_chunks EVP_DecodeInit cs of
        (ok, ctx, out) \<Rightarrow> if ok \<and> EVP_DecodeFinal ctx = 1 then Some out else None)"

lemma decode_update_loop_error:
  "decode_update_loop ctx xs = (True, ctx', out) \<Longrightarrow> error_encountered ctx' = error_encountered ctx"
  by (induction ctx xs arbitrary: out rule: decode_update_loop.induct)
    (auto simp: Let_def split: prod.splits option.splits if_splits)

lemma decode_chunks_eq:
  assumes "decode_update_loop ctx (concat cs) = (True, ctx', out)" and "\<not> error_encountered ctx"
    and "length out \<le> int_max"
  shows "decode_chunks ctx cs = (True, ctx', out)"
  using assms
proof (induction cs arbitrary: ctx out)
  case Nil
  then show ?case by simp
next
  case (Cons c cs)
  obtain ctx1 o1 o2 where first: "decode_update_loop ctx c = (True, ctx1, o1)"
    and rest: "decode_update_loop ctx1 (concat cs) = (True, ctx', o2)" and out: "out = o1 @ o2"
    using Cons.prems(1) by (auto simp: decode_update_loop_append split: prod.splits bool.splits)
  have "\<not> error_encountered ctx1"
    using decode_update_loop_error [OF first] Cons.prems(2) by simp
  then have "decode_chunks ctx1 cs = (True, ctx', o2)"
    using Cons.IH [OF rest] Cons.prems(3) out by simp
  moreover have "EVP_DecodeUpdate ctx c = (if eof_seen ctx1 then 0 else 1, ctx1, o1, length o1)"
    using first Cons.prems(2,3) out by (simp add: EVP_DecodeUpdate_def)
  ultimately show ?case
    by (auto simp: out)
qed

lemma decode_stream_encode_text:
  "concat ds = encode_text xs \<Longrightarrow> length xs \<le> int_max \<Longrightarrow> decode_stream ds = Some xs"
  using decode_chunks_eq [of decode_start ds _ xs] decode_encode_text [of xs]
  by (simp add: decode_stream_def EVP_DecodeInit_def EVP_DecodeFinal_def)

lemma EVP_EncodedLength_eq:
  assumes "len < size_modulus"
  shows "EVP_EncodedLength len =
    (if 4 * ((len + 2) div 3) + 1 < size_modulus then Some (4 * ((len + 2) div 3) + 1) else None)"
proof (cases "len + 2 < size_modulus")
  case False
  with assms show ?thesis
    using size_add_wraps_iff [of len 2] by (auto simp: EVP_EncodedLength_def)
next
  case True
  define n where "n = (len + 2) div 3"
  have add: "size_add len 2 = len + 2" "\<not> len + 2 < len"
    using True by (simp_all add: size_simps)
  have eq: "EVP_EncodedLength len = (if size_mul n 4 div 4 \<noteq> n then None
      else if size_add (size_mul n 4) 1 < size_mul n 4 then None else Some (size_add (size_mul n 4) 1))"
    unfolding EVP_EncodedLength_def Let_def add(1) n_def [symmetric] using add(2) by simp
  show ?thesis
  proof (cases "n * 4 < size_modulus")
    case True
    then have "size_mul n 4 = n * 4" and "n * 4 div 4 = n"
      by (simp_all add: size_simps)
    moreover have "size_add (n * 4) 1 < n * 4 \<longleftrightarrow> size_modulus \<le> n * 4 + 1"
      using True by (intro size_add_wraps_iff) simp_all
    ultimately show ?thesis
      unfolding eq n_def [symmetric] by (auto simp: size_add_def mult.commute not_le)
  next
    case False
    have "size_mul n 4 div 4 \<noteq> n"
    proof
      assume "size_mul n 4 div 4 = n"
      then have "size_mul 4 n div 4 = n" by (simp add: size_mul_def mult.commute)
      from size_mul_div_exact [OF _ this] have "size_mul n 4 = n * 4"
        by (simp add: size_mul_def mult.commute)
      with False size_mul_less [of n 4] show False by simp
    qed
    with False show ?thesis
      unfolding eq n_def [symmetric] by (simp add: mult.commute)
  qed
qed

lemma pad_with_nuls_eq: "pad_with_nuls xs = xs @ replicate ((3 - length xs mod 3) mod 3) 0"
proof (induction xs rule: pad_with_nuls.induct)
  case (1 dst)
  consider "length dst mod 3 = 0" | "length dst mod 3 = 1" | "length dst mod 3 = 2"
    using mod_less_divisor [of 3 "length dst"] by linarith
  then show ?case
    using 1 by cases (simp_all add: pad_with_nuls.simps [of dst] mod_Suc numeral_2_eq_2)
qed

text \<open>Blanks before and after one encoded block are ignored.\<close>

lemma encode_block_no_space: "c \<in> set (EVP_EncodeBlock s) \<Longrightarrow> \<not> is_base64_space c"
proof (induction s rule: EVP_EncodeBlock.induct)
  case (4 a b c' src)
  then show ?case by (auto simp: Let_def encode_char_properties)
qed (auto simp: Let_def encode_char_properties equals_no_space)

lemma EVP_DecodeBlock_encoded:
  assumes len: "length s < 2 ^ 31 - 2" and pre: "set pre \<subseteq> {32, 9}" and post: "list_all is_base64_space post"
    and s: "s \<noteq> []"
  shows "EVP_DecodeBlock (pre @ EVP_EncodeBlock s @ post) = Some (s @ replicate ((3 - length s mod 3) mod 3) 0)"
proof -
  let ?e = "EVP_EncodeBlock s"
  have ne: "?e \<noteq> []" using s by (simp add: encode_block_eq_Nil)
  have nospace: "\<not> is_base64_space c" if "c \<in> set ?e" for c
    using that by (rule encode_block_no_space)
  have front: "dropWhile (\<lambda>c. c = 32 \<or> c = 9) (pre @ ?e @ post) = ?e @ post"
  proof -
    have "\<not> (hd ?e = 32 \<or> hd ?e = 9)"
      using nospace [of "hd ?e"] ne by (auto simp: is_base64_space_def)
    then have "dropWhile (\<lambda>c. c = 32 \<or> c = 9) (?e @ post) = ?e @ post"
      using ne by (cases ?e) auto
    then show ?thesis
      using pre by (subst dropWhile_append2) auto
  qed
  have trimmed: "rev (dropWhile is_base64_space (rev (?e @ post))) = ?e"
  proof -
    have "dropWhile is_base64_space (rev ?e) = rev ?e"
    proof (cases "rev ?e")
      case (Cons c u)
      then have "c \<in> set ?e" by (metis list.set_intros(1) set_rev)
      with Cons nospace show ?thesis by simp
    qed simp
    moreover have "dropWhile is_base64_space (rev post @ rev ?e) = dropWhile is_base64_space (rev ?e)"
      using post by (intro dropWhile_append2) (auto simp: list_all_iff)
    ultimately show ?thesis by simp
  qed
  let ?n = "(length s + 2) div 3"
  have "?n * 3 \<le> length s + 2"
    by simp
  then have n: "?n * 3 \<le> int_max"
    using len by simp
  then have declen: "EVP_DecodedLength (length ?e) = Some (?n * 3)"
    by (simp add: EVP_DecodedLength_def length_EVP_EncodeBlock size_simps)
  have "EVP_DecodeBase64 (?n * 3) ?e = Some s"
    using len by (intro EVP_DecodeBase64_encoded) auto
  with declen n show ?thesis
    unfolding EVP_DecodeBlock_def Let_def front trimmed by (simp add: pad_with_nuls_eq)
qed

text \<open>No group of four with a character outside the alphabet is decoded, so no text that holds one is.\<close>

lemma decode_quad_minus:
  "45 \<in> {i0, i1, i2, i3} \<Longrightarrow> base64_decode_quad i0 i1 i2 i3 = None"
proof -
  have "base64_ascii_to_bin 45 = 0xff" by (simp add: base64_ascii_to_bin_eq)
  then show "45 \<in> {i0, i1, i2, i3} \<Longrightarrow> base64_decode_quad i0 i1 i2 i3 = None"
    by (auto simp: base64_decode_quad_def Let_def)
qed

lemma decode_loop_minus:
  "length inp mod 4 = 0 \<Longrightarrow> 45 \<in> set inp \<Longrightarrow> decode_base64_loop inp = None"
proof (induction inp rule: decode_base64_loop.induct)
  case (1 i0 i1 i2 i3 inp)
  show ?case
  proof (cases "45 \<in> {i0, i1, i2, i3}")
    case True
    then show ?thesis by (simp add: decode_quad_minus)
  next
    case False
    with 1 show ?thesis by (auto split: option.splits)
  qed
qed (auto simp: mod_Suc)

lemma DecodeBlock_minus:
  assumes "list_all is_base64_space post"
  shows "EVP_DecodeBlock (src @ 45 # post) = None"
proof -
  let ?P = "\<lambda>c. c = 32 \<or> c = (9 :: u8)"
  obtain u where front: "dropWhile ?P (src @ 45 # post) = u @ 45 # post"
  proof (cases "\<forall>c\<in>set src. ?P c")
    case True
    then show ?thesis using that [of "[]"] by (simp add: dropWhile_append2)
  next
    case False
    then show ?thesis using that [of "dropWhile ?P src"] by (auto simp: dropWhile_append1)
  qed
  have "dropWhile is_base64_space (rev post @ 45 # rev u) = 45 # rev u"
    using assms by (subst dropWhile_append2) (auto simp: list_all_iff is_base64_space_def)
  then have trimmed: "rev (dropWhile is_base64_space (rev (u @ 45 # post))) = u @ [45]" by simp
  have "EVP_DecodeBase64 n (u @ [45]) = None" for n
    using decode_loop_minus [of "u @ [45]"] by (auto simp: EVP_DecodeBase64_def split: option.splits)
  then show ?thesis
    unfolding EVP_DecodeBlock_def Let_def front trimmed by (simp split: option.splits)
qed

section \<open>Properties\<close>

text \<open>Decoding what \<open>EVP_EncodeBlock\<close> wrote gives the bytes back, padding included, for every length.\<close>

lemma base64_roundtrip:
  assumes "length s < 2 ^ 62" and "3 * ((length s + 2) div 3) \<le> max_out"
  shows "EVP_DecodeBase64 max_out (EVP_EncodeBlock s) = Some s"
  using assms by (rule EVP_DecodeBase64_encoded)

lemma base64_roundtrip_witness: "EVP_DecodeBase64 6 (EVP_EncodeBlock [1, 2, 3, 255]) = Some [1, 2, 3, 255]"
  by (rule base64_roundtrip) simp_all

text \<open>
  The stream encoder does not depend on how its input is cut: whatever the chunks, the
  output is the reference text of the whole input, in lines of 64 characters.
\<close>

lemma encode_stream_chunks:
  assumes "list_all (\<lambda>c. length c \<le> encode_chunk_max) cs"
  shows "encode_stream cs = encode_text (concat cs)"
  using assms by (rule encode_stream_eq)

lemma encode_stream_chunks_witness: "encode_stream [[1], [2, 3]] = encode_text [1, 2, 3]"
  using encode_stream_chunks [of "[[1], [2, 3]]"] by (simp add: encode_chunk_max_def)

text \<open>
  C23: The stream decoder inverts the stream encoder: however the bytes are cut into chunks short enough for \<open>*out_len\<close>, an
  \<open>int\<close>, to tell what was written, and however the encoded text is cut, in the middle of a line or of a group of
  four, a caller that takes the \<open>*out_len\<close> bytes of every call gets the original bytes back.
\<close>

theorem base64_stream_roundtrip:
  assumes "list_all (\<lambda>c. length c \<le> encode_chunk_max) cs" and "concat ds = encode_stream cs" and "length (concat cs) \<le> int_max"
  shows "decode_stream ds = Some (concat cs)"
  using assms decode_stream_encode_text by (simp add: encode_stream_eq)

theorem base64_stream_roundtrip_witness:
  "decode_stream [encode_stream [[1], [2, 3, 4]]] = Some [1, 2, 3, 4]"
  using base64_stream_roundtrip [of "[[1], [2, 3, 4]]" "[encode_stream [[1], [2, 3, 4]]]"] by (simp add: encode_chunk_max_def)

text \<open>
  \<open>EVP_EncodedLength\<close> is the length of the encoding and its terminating zero, and fails
  exactly when that does not fit in a \<open>size_t\<close>.
\<close>

lemma EVP_EncodedLength_correct:
  assumes "length s < size_modulus"
  shows "EVP_EncodedLength (length s) =
    (if length (EVP_EncodeBlock s) + 1 < size_modulus then Some (length (EVP_EncodeBlock s) + 1) else None)"
  using EVP_EncodedLength_eq [OF assms] by (simp add: length_EVP_EncodeBlock)

lemma EVP_EncodedLength_correct_witness: "EVP_EncodedLength 4 = Some 9"
proof -
  have "length (replicate 4 (0 :: u8)) < size_modulus" by simp
  from EVP_EncodedLength_correct [OF this] show ?thesis
    by (simp only: length_EVP_EncodeBlock length_replicate) simp
qed

text \<open>
  \<open>EVP_DecodeBlock\<close> skips blanks before and white space after the text, and
  returns the bytes with zeros up to a multiple of three, as callers of the legacy function expect.
\<close>

lemma EVP_DecodeBlock_correct:
  assumes "length s < 2 ^ 31 - 2" and "set pre \<subseteq> {32, 9}" and "list_all is_base64_space post" and "s \<noteq> []"
  shows "EVP_DecodeBlock (pre @ EVP_EncodeBlock s @ post) = Some (s @ replicate ((3 - length s mod 3) mod 3) 0)"
  using assms by (rule EVP_DecodeBlock_encoded)

lemma EVP_DecodeBlock_correct_witness:
  "EVP_DecodeBlock ([32] @ EVP_EncodeBlock [7] @ [10]) = Some [7, 0, 0]"
proof -
  have zeros: "replicate 2 (0 :: u8) = [0, 0]" by (simp add: numeral_2_eq_2)
  have "EVP_DecodeBlock ([32] @ EVP_EncodeBlock [7] @ [10]) = Some ([7] @ replicate ((3 - length [7 :: u8] mod 3) mod 3) 0)"
    by (rule EVP_DecodeBlock_correct) (simp_all add: is_base64_space_def)
  then show ?thesis
    by (simp add: zeros del: EVP_EncodeBlock.simps)
qed

text \<open>
  C34: A minus sign at the end is not stripped, as the header says it would be: whatever precedes it and whatever white
  space follows, \<open>EVP_DecodeBlock\<close> refuses the input, also when the text before the minus alone is decoded.
\<close>

theorem EVP_DecodeBlock_keeps_minus:
  assumes "list_all is_base64_space post"
  shows "EVP_DecodeBlock (src @ 45 # post) = None"
  using assms by (rule DecodeBlock_minus)

theorem EVP_DecodeBlock_keeps_minus_witness:
  "EVP_DecodeBlock (EVP_EncodeBlock [7] @ [10]) = Some [7, 0, 0] \<and> EVP_DecodeBlock (EVP_EncodeBlock [7] @ 45 # [10]) = None"
proof
  have "EVP_DecodeBlock ([] @ EVP_EncodeBlock [7] @ [10]) = Some ([7] @ replicate ((3 - length [7 :: u8] mod 3) mod 3) 0)"
    by (rule EVP_DecodeBlock_encoded) (simp_all add: is_base64_space_def)
  then show "EVP_DecodeBlock (EVP_EncodeBlock [7] @ [10]) = Some [7, 0, 0]"
    by (simp add: numeral_2_eq_2 del: EVP_EncodeBlock.simps)
  show "EVP_DecodeBlock (EVP_EncodeBlock [7] @ 45 # [10]) = None"
    by (rule EVP_DecodeBlock_keeps_minus) (simp add: is_base64_space_def)
qed

end
