(* ===== verification/Stack.thy ===== *)
theory Stack
  imports Mem Qsort
begin

text \<open>
  \<open>crypto/stack/stack.c\<close>: the growable array of pointers behind every \<open>STACK_OF(T)\<close>, with
  its lazily sorted search. A pointer to an object is an \<open>option\<close> (\<open>None\<close> is NULL), a
  comparison function is a value of type \<open>'c\<close> that \<open>call_cmp\<close> applies, as the code's
  \<open>call_cmp_func\<close> does. \<open>sk_data\<close> holds the \<open>num\<close> entries in use; the slots up to
  \<open>num_alloc\<close> are not initialised.
\<close>

section \<open>State and operations\<close>

record ('a, 'c) stack_st =
  sk_data :: "'a option list"
  sk_sorted :: bool
  sk_num_alloc :: nat
  sk_comp :: "'c option"

definition kMinSize :: nat where "kMinSize = 4"
definition sizeof_pointer :: nat where "sizeof_pointer = 8"
definition sizeof_stack_st :: nat where "sizeof_stack_st = 40"

definition sk_new :: "(nat \<Rightarrow> bool) \<Rightarrow> 'c option \<Rightarrow> ('a, 'c) stack_st option" where
  "sk_new sys cmpf =
     (if \<not> OPENSSL_malloc sys sizeof_stack_st then None
      else if \<not> OPENSSL_malloc sys (sizeof_pointer * kMinSize) then None
      else Some \<lparr>sk_data = [], sk_sorted = False, sk_num_alloc = kMinSize, sk_comp = cmpf\<rparr>)"

definition sk_new_null :: "(nat \<Rightarrow> bool) \<Rightarrow> ('a, 'c) stack_st option" where
  "sk_new_null sys = sk_new sys None"

definition sk_num :: "('a, 'c) stack_st option \<Rightarrow> nat" where
  "sk_num sk = (case sk of None \<Rightarrow> 0 | Some s \<Rightarrow> length (sk_data s))"

definition sk_zero :: "('a, 'c) stack_st option \<Rightarrow> ('a, 'c) stack_st option" where
  "sk_zero sk =
     (case sk of
        None \<Rightarrow> None
      | Some s \<Rightarrow> if length (sk_data s) = 0 then Some s else Some (s\<lparr>sk_data := [], sk_sorted := False\<rparr>))"

definition sk_value :: "('a, 'c) stack_st option \<Rightarrow> nat \<Rightarrow> 'a option" where
  "sk_value sk i =
     (case sk of None \<Rightarrow> None | Some s \<Rightarrow> if i \<ge> length (sk_data s) then None else sk_data s ! i)"

text \<open>An operation on a stack that is there; for NULL the C functions return at once.\<close>

definition sk_set :: "nat \<Rightarrow> 'a option \<Rightarrow> ('a, 'c) stack_st \<Rightarrow> 'a option \<times> ('a, 'c) stack_st" where
  "sk_set i value s =
     (if i \<ge> length (sk_data s) then (None, s) else (value, s\<lparr>sk_data := (sk_data s)[i := value]\<rparr>))"

definition sk_pop_free_ex :: "('a, 'c) stack_st option \<Rightarrow> 'a list" where
  "sk_pop_free_ex sk = (case sk of None \<Rightarrow> [] | Some s \<Rightarrow> map the (filter (\<lambda>p. p \<noteq> None) (sk_data s)))"

text \<open>The new number of slots and whether it can be allocated, when the array is full.\<close>

definition sk_grow :: "(nat \<Rightarrow> bool) \<Rightarrow> ('a, 'c) stack_st \<Rightarrow> ('a, 'c) stack_st option" where
  "sk_grow sys s =
     (if sk_num_alloc s \<le> length (sk_data s) + 1 then
        let new_alloc = size_mul (sk_num_alloc s) 2;
            alloc_size = size_mul new_alloc sizeof_pointer;
            overflow = (new_alloc < sk_num_alloc s \<or> alloc_size div sizeof_pointer \<noteq> new_alloc);
            new_alloc = (if overflow then size_add (sk_num_alloc s) 1 else new_alloc);
            alloc_size = size_mul new_alloc sizeof_pointer in
        if new_alloc < sk_num_alloc s \<or> alloc_size div sizeof_pointer \<noteq> new_alloc then None
        else if \<not> OPENSSL_malloc sys alloc_size then None
        else Some (s\<lparr>sk_num_alloc := new_alloc\<rparr>)
      else Some s)"

definition sk_insert :: "(nat \<Rightarrow> bool) \<Rightarrow> 'a option \<Rightarrow> nat \<Rightarrow> ('a, 'c) stack_st \<Rightarrow> nat \<times> ('a, 'c) stack_st" where
  "sk_insert sys p pos s =
     (case sk_grow sys s of
        None \<Rightarrow> (0, s)
      | Some s \<Rightarrow>
         (let data = (if pos \<ge> length (sk_data s) then sk_data s @ [p]
                      else take pos (sk_data s) @ p # drop pos (sk_data s))
          in (length data, s\<lparr>sk_data := data, sk_sorted := False\<rparr>)))"

definition sk_delete :: "nat \<Rightarrow> ('a, 'c) stack_st \<Rightarrow> 'a option \<times> ('a, 'c) stack_st" where
  "sk_delete pos s =
     (if pos \<ge> length (sk_data s) then (None, s)
      else (sk_data s ! pos,
            s\<lparr>sk_data := take pos (sk_data s) @ drop (pos + 1) (sk_data s)\<rparr>))"

text \<open>The loops that look for the first entry with a property.\<close>

fun first_index :: "('x \<Rightarrow> bool) \<Rightarrow> 'x list \<Rightarrow> nat option" where
  "first_index P [] = None"
| "first_index P (x # xs) = (if P x then Some 0 else map_option Suc (first_index P xs))"

definition sk_delete_ptr :: "'a option \<Rightarrow> ('a, 'c) stack_st \<Rightarrow> 'a option \<times> ('a, 'c) stack_st" where
  "sk_delete_ptr p s =
     (case first_index (\<lambda>q. q = p) (sk_data s) of None \<Rightarrow> (None, s) | Some i \<Rightarrow> sk_delete i s)"

text \<open>The binary search of \<open>sk_find\<close>; \<open>r i\<close> is the comparison of the key with entry \<open>i\<close>.\<close>

function sk_search :: "(nat \<Rightarrow> int) \<Rightarrow> nat \<Rightarrow> nat \<Rightarrow> nat option" where
  "sk_search r lo hi =
     (if lo < hi then
        let mid = lo + (hi - lo - 1) div 2 in
        if r mid > 0 then sk_search r (mid + 1) hi
        else if r mid < 0 then sk_search r lo mid
        else if hi - lo = 1 then Some mid
        else sk_search r lo (mid + 1)
      else None)"
  by pat_completeness auto

termination
  by (relation "measure (\<lambda>(r, lo, hi). hi - lo)") (simp; linarith)+

declare sk_search.simps [simp del]

definition sk_is_sorted :: "('a, 'c) stack_st option \<Rightarrow> bool" where
  "sk_is_sorted sk = (case sk of None \<Rightarrow> True | Some s \<Rightarrow> sk_sorted s)"

definition sk_find :: "('c \<Rightarrow> 'a option \<Rightarrow> 'a option \<Rightarrow> int) \<Rightarrow> ('a, 'c) stack_st option \<Rightarrow> 'a option \<Rightarrow> nat option" where
  "sk_find call_cmp sk p =
     (case sk of
        None \<Rightarrow> None
      | Some s \<Rightarrow>
         (case sk_comp s of
            None \<Rightarrow> first_index (\<lambda>q. q = p) (sk_data s)
          | Some cmpf \<Rightarrow>
              if p = None then None
              else if \<not> sk_is_sorted sk then first_index (\<lambda>elem. call_cmp cmpf p elem = 0) (sk_data s)
              else sk_search (\<lambda>i. call_cmp cmpf p (sk_data s ! i)) 0 (length (sk_data s))))"

definition sk_shift :: "('a, 'c) stack_st \<Rightarrow> 'a option \<times> ('a, 'c) stack_st" where
  "sk_shift s = (if length (sk_data s) = 0 then (None, s) else sk_delete 0 s)"

definition sk_push :: "(nat \<Rightarrow> bool) \<Rightarrow> 'a option \<Rightarrow> ('a, 'c) stack_st \<Rightarrow> nat \<times> ('a, 'c) stack_st" where
  "sk_push sys p s = sk_insert sys p (length (sk_data s)) s"

definition sk_pop :: "('a, 'c) stack_st \<Rightarrow> 'a option \<times> ('a, 'c) stack_st" where
  "sk_pop s = (if length (sk_data s) = 0 then (None, s) else sk_delete (length (sk_data s) - 1) s)"

definition sk_dup :: "(nat \<Rightarrow> bool) \<Rightarrow> ('a, 'c) stack_st option \<Rightarrow> ('a, 'c) stack_st option" where
  "sk_dup sys sk =
     (case sk of
        None \<Rightarrow> None
      | Some s \<Rightarrow>
          if \<not> OPENSSL_malloc sys sizeof_stack_st then None
          else if \<not> OPENSSL_malloc sys (size_mul sizeof_pointer (sk_num_alloc s)) then None
          else Some s)"

definition sk_sort :: "('c \<Rightarrow> 'a option \<Rightarrow> 'a option \<Rightarrow> int) \<Rightarrow> ('a, 'c) stack_st \<Rightarrow> ('a, 'c) stack_st" where
  "sk_sort call_cmp s =
     (case sk_comp s of
        None \<Rightarrow> s
      | Some cmpf \<Rightarrow>
          if sk_sorted s then s
          else s\<lparr>sk_data := (if length (sk_data s) \<ge> 2 then qsort (call_cmp cmpf) (sk_data s) else sk_data s),
                 sk_sorted := True\<rparr>)"

definition sk_set_cmp_func :: "'c option \<Rightarrow> ('a, 'c) stack_st \<Rightarrow> 'c option \<times> ('a, 'c) stack_st" where
  "sk_set_cmp_func cmpf s =
     (let old = sk_comp s; s = (if sk_comp s \<noteq> cmpf then s\<lparr>sk_sorted := False\<rparr> else s)
      in (old, s\<lparr>sk_comp := cmpf\<rparr>))"

text \<open>
  The copying loop: the copies, or the objects freed when a copy fails. The result of
  \<open>sk_deep_copy\<close> is the new stack, and what it freed.
\<close>

fun deep_copy_loop :: "('a \<Rightarrow> 'a option) \<Rightarrow> 'a option list \<Rightarrow> 'a option list \<Rightarrow> 'a option list + 'a list" where
  "deep_copy_loop copy_func copied [] = Inl copied"
| "deep_copy_loop copy_func copied (p # ps) =
     (case p of
        None \<Rightarrow> deep_copy_loop copy_func (copied @ [None]) ps
      | Some x \<Rightarrow>
         (case copy_func x of
            None \<Rightarrow> Inr (map the (filter (\<lambda>q. q \<noteq> None) copied))
          | Some y \<Rightarrow> deep_copy_loop copy_func (copied @ [Some y]) ps))"

definition sk_deep_copy :: "(nat \<Rightarrow> bool) \<Rightarrow> ('a \<Rightarrow> 'a option) \<Rightarrow> ('a, 'c) stack_st option \<Rightarrow>
    ('a, 'c) stack_st option \<times> 'a list" where
  "sk_deep_copy sys copy_func sk =
     (case sk_dup sys sk of
        None \<Rightarrow> (None, [])
      | Some ret \<Rightarrow>
         (case deep_copy_loop copy_func [] (sk_data ret) of
            Inl data \<Rightarrow> (Some (ret\<lparr>sk_data := data\<rparr>), [])
          | Inr freed \<Rightarrow> (None, freed)))"

section \<open>Invariant\<close>

text \<open>The entries fit in the array, and the array in memory.\<close>

definition stack_fits :: "('a, 'c) stack_st \<Rightarrow> bool" where
  "stack_fits s \<longleftrightarrow> length (sk_data s) < sk_num_alloc s \<and> sk_num_alloc s * sizeof_pointer < size_modulus"

text \<open>When the flag says so the entries are in order for the comparison function.\<close>

definition stack_ordered :: "('c \<Rightarrow> 'a option \<Rightarrow> 'a option \<Rightarrow> int) \<Rightarrow> ('a, 'c) stack_st \<Rightarrow> bool" where
  "stack_ordered call_cmp s \<longleftrightarrow>
     (sk_sorted s \<longrightarrow> (case sk_comp s of None \<Rightarrow> True | Some c \<Rightarrow> in_order (call_cmp c) (sk_data s)))"

lemma sk_new_invariant:
  "sk_new sys cmpf = Some s \<Longrightarrow> stack_fits s \<and> stack_ordered call_cmp s \<and> sk_data s = []"
  by (auto simp: sk_new_def stack_fits_def stack_ordered_def kMinSize_def sizeof_pointer_def split: if_splits)

lemma sk_grow_Some:
  assumes "sk_grow sys s = Some s'" and "stack_fits s"
  shows "length (sk_data s) + 1 < sk_num_alloc s'" and "sk_num_alloc s' * sizeof_pointer < size_modulus"
    and "s' = s\<lparr>sk_num_alloc := sk_num_alloc s'\<rparr>"
proof -
  have fits: "length (sk_data s) < sk_num_alloc s" "sk_num_alloc s * 8 < size_modulus"
    using assms(2) by (auto simp: stack_fits_def sizeof_pointer_def)
  have "length (sk_data s) + 1 < sk_num_alloc s' \<and> sk_num_alloc s' * sizeof_pointer < size_modulus \<and>
    s' = s\<lparr>sk_num_alloc := sk_num_alloc s'\<rparr>"
  proof (cases "sk_num_alloc s \<le> length (sk_data s) + 1")
    case False
    then have "s' = s" using assms(1) by (simp add: sk_grow_def)
    with False fits show ?thesis
      by (simp_all add: sizeof_pointer_def)
  next
    case True
    let ?n = "sk_num_alloc s"
    define m where "m = (if size_mul ?n 2 < ?n \<or> size_mul (size_mul ?n 2) 8 div 8 \<noteq> size_mul ?n 2
      then size_add ?n 1 else size_mul ?n 2)"
    have "size_mul ?n 2 = ?n * 2" and "size_add ?n 1 = ?n + 1"
      using fits by (simp_all add: size_simps)
    then have gt: "?n < m"
      using fits by (auto simp: m_def)
    from True assms(1) have exact: "size_mul m 8 div 8 = m" and s': "s' = s\<lparr>sk_num_alloc := m\<rparr>"
      by (auto simp: sk_grow_def sizeof_pointer_def Let_def m_def split: if_splits)
    from exact have "size_mul 8 m = 8 * m"
      by (intro size_mul_div_exact) (simp_all add: size_mul_def mult.commute)
    then have "8 * m < size_modulus"
      using size_mul_less [of 8 m] by simp
    with gt fits s' show ?thesis
      by (simp add: sizeof_pointer_def)
  qed
  then show "length (sk_data s) + 1 < sk_num_alloc s'" and "sk_num_alloc s' * sizeof_pointer < size_modulus"
    and "s' = s\<lparr>sk_num_alloc := sk_num_alloc s'\<rparr>"
    by blast+
qed

lemma sk_insert_data:
  assumes "sk_insert sys p i s = (n, s')" and "stack_fits s"
  shows "stack_fits s'" and "stack_ordered call_cmp s'  \<or> n = 0"
    and "if n = 0 then s' = s else n = length (sk_data s) + 1 \<and>
      sk_data s' = take (min i (length (sk_data s))) (sk_data s) @ p # drop (min i (length (sk_data s))) (sk_data s) \<and>
      \<not> sk_sorted s' \<and> sk_comp s' = sk_comp s"
proof -
  have "stack_fits s' \<and> (stack_ordered call_cmp s' \<or> n = 0) \<and> (if n = 0 then s' = s else n = length (sk_data s) + 1 \<and>
      sk_data s' = take (min i (length (sk_data s))) (sk_data s) @ p # drop (min i (length (sk_data s))) (sk_data s) \<and>
      \<not> sk_sorted s' \<and> sk_comp s' = sk_comp s)"
  proof (cases "sk_grow sys s")
    case None
    with assms show ?thesis by (simp add: sk_insert_def)
  next
    case (Some s1)
    note grow = sk_grow_Some [OF Some assms(2)]
    have s1: "sk_data s1 = sk_data s" "sk_comp s1 = sk_comp s"
      by (subst grow(3), simp)+
    have "(if i \<ge> length (sk_data s) then sk_data s @ [p] else take i (sk_data s) @ p # drop i (sk_data s)) =
        take (min i (length (sk_data s))) (sk_data s) @ p # drop (min i (length (sk_data s))) (sk_data s)"
      by (simp add: min_def)
    then have insert: "sk_insert sys p i s = (length (sk_data s) + 1, s1\<lparr>sk_data :=
        take (min i (length (sk_data s))) (sk_data s) @ p # drop (min i (length (sk_data s))) (sk_data s),
        sk_sorted := False\<rparr>)"
      using Some s1 by (auto simp: sk_insert_def Let_def min_def)
    have "n = length (sk_data s) + 1" "s' = s1\<lparr>sk_data := take (min i (length (sk_data s))) (sk_data s) @
        p # drop (min i (length (sk_data s))) (sk_data s), sk_sorted := False\<rparr>"
      using assms(1) unfolding insert by simp_all
    with grow(1,2) s1 show ?thesis
      by (simp add: stack_fits_def stack_ordered_def)
  qed
  then show "stack_fits s'" and "stack_ordered call_cmp s'  \<or> n = 0"
    and "if n = 0 then s' = s else n = length (sk_data s) + 1 \<and>
      sk_data s' = take (min i (length (sk_data s))) (sk_data s) @ p # drop (min i (length (sk_data s))) (sk_data s) \<and>
      \<not> sk_sorted s' \<and> sk_comp s' = sk_comp s"
    by auto
qed

lemma sk_delete_invariant:
  assumes "sk_delete i s = (x, s')" and "stack_fits s" and "stack_ordered call_cmp s"
  shows "stack_fits s' \<and> stack_ordered call_cmp s'"
proof -
  have "in_order c (take i xs @ drop (i + 1) xs)" if "in_order c xs" for c :: "'a option \<Rightarrow> 'a option \<Rightarrow> int" and xs
  proof (cases "i < length xs")
    case True
    then have "xs = take i xs @ xs ! i # drop (i + 1) xs"
      by (simp add: id_take_nth_drop)
    with that have "in_order c (take i xs @ xs ! i # drop (i + 1) xs)" by simp
    then show ?thesis by (auto simp: in_order_def sorted_wrt_append)
  next
    case False
    with that show ?thesis by simp
  qed
  with assms show ?thesis
    by (auto simp: sk_delete_def stack_fits_def stack_ordered_def split: if_splits option.splits)
qed

lemma sk_sort_invariant:
  assumes "\<And>c. sk_comp s = Some c \<Longrightarrow> comparator (call_cmp c)" and "stack_fits s" and "stack_ordered call_cmp s"
  shows "stack_fits (sk_sort call_cmp s) \<and> stack_ordered call_cmp (sk_sort call_cmp s)"
proof (cases "sk_comp s")
  case None
  with assms show ?thesis by (simp add: sk_sort_def)
next
  case (Some c)
  then have "in_order (call_cmp c) (qsort (call_cmp c) (sk_data s))"
    using assms(1) comparator.qsort_in_order by blast
  moreover have "in_order (call_cmp c) (sk_data s)" if "length (sk_data s) < 2"
    using that by (cases "sk_data s"; cases "tl (sk_data s)") (auto simp: in_order_def)
  ultimately show ?thesis
    using Some assms(2,3) by (auto simp: sk_sort_def stack_fits_def stack_ordered_def)
qed

lemma sk_set_cmp_func_invariant:
  assumes "sk_set_cmp_func c s = (old, s')" and "stack_fits s" and "stack_ordered call_cmp s"
  shows "stack_fits s' \<and> stack_ordered call_cmp s' \<and> sk_comp s' = c"
  using assms by (cases "sk_comp s = c")
    (auto simp: sk_set_cmp_func_def stack_fits_def stack_ordered_def Let_def split: option.split_asm)

lemma sk_zero_invariant:
  "sk_zero (Some s) = Some s' \<Longrightarrow> stack_fits s \<Longrightarrow> stack_ordered call_cmp s \<Longrightarrow>
   stack_fits s' \<and> stack_ordered call_cmp s' \<and> sk_data s' = []"
  by (auto simp: sk_zero_def stack_fits_def stack_ordered_def split: if_splits)

section \<open>Searching\<close>

lemma first_index_Some:
  "first_index P xs = Some i \<longleftrightarrow> i < length xs \<and> P (xs ! i) \<and> (\<forall>j < i. \<not> P (xs ! j))"
proof (induction xs arbitrary: i)
  case (Cons x xs)
  show ?case
  proof (cases i)
    case (Suc k)
    with Cons.IH [of k] show ?thesis by (auto simp: All_less_Suc2)
  qed auto
qed simp

lemma first_index_None: "first_index P xs = None \<longleftrightarrow> (\<forall>x \<in> set xs. \<not> P x)"
  by (induction xs) auto

lemma first_index_upt: "first_index P xs = first_index (\<lambda>i. P (xs ! i)) [0..<length xs]"
proof (cases "first_index P xs")
  case None
  then have "first_index (\<lambda>i. P (xs ! i)) [0..<length xs] = None"
    by (auto simp: first_index_None)
  with None show ?thesis by simp
next
  case (Some i)
  then have "first_index (\<lambda>i. P (xs ! i)) [0..<length xs] = Some i"
    by (simp add: first_index_Some)
  with Some show ?thesis by simp
qed

text \<open>
  The binary search finds the first zero of a sequence of signs that starts positive,
  stays zero for a while and ends negative.
\<close>

definition signs_ok :: "(nat \<Rightarrow> int) \<Rightarrow> nat \<Rightarrow> bool" where
  "signs_ok r n \<longleftrightarrow>
     (\<forall>i j. i \<le> j \<and> j < n \<longrightarrow> (r i \<le> 0 \<longrightarrow> r j \<le> 0) \<and> (r i < 0 \<longrightarrow> r j < 0))"

lemma sk_search_window:
  assumes "signs_ok r n" and "\<And>i. i < lo \<Longrightarrow> 0 < r i"
    and "\<And>i. hi \<le> i \<Longrightarrow> i < n \<Longrightarrow> r i < 0 \<or> (\<exists>k. lo \<le> k \<and> k < hi \<and> r k = 0)"
    and "lo \<le> hi" and "hi \<le> n"
  shows "sk_search r lo hi = Some i \<longleftrightarrow> i < n \<and> r i = 0 \<and> (\<forall>j < i. r j \<noteq> 0)"
  using assms
proof (induction r lo hi rule: sk_search.induct)
  case (1 r lo hi)
  show ?case
  proof (cases "lo < hi")
    case False
    with "1.prems"(4) have "lo = hi" by simp
    have "r i \<noteq> 0" if "i < n" for i
      using "1.prems"(2) [of i] "1.prems"(3) [of i] that \<open>lo = hi\<close> by (cases "i < lo") auto
    with False show ?thesis by (auto simp: sk_search.simps)
  next
    case True
    define mid where "mid = lo + (hi - lo - 1) div 2"
    have mid: "lo \<le> mid" "mid < hi" "mid < n" and progress: "hi - lo \<noteq> 1 \<Longrightarrow> mid + 1 < hi"
      using True "1.prems"(5) by (auto simp: mid_def)
    have step: "sk_search r lo hi =
        (if r mid > 0 then sk_search r (mid + 1) hi else if r mid < 0 then sk_search r lo mid
         else if hi - lo = 1 then Some mid else sk_search r lo (mid + 1))"
      using True by (subst sk_search.simps) (simp add: mid_def Let_def)
    have mono: "r j \<le> 0" if "i \<le> j" "j < n" "r i \<le> 0" for i j
      using "1.prems"(1) that unfolding signs_ok_def by blast
    have mono': "r j < 0" if "i \<le> j" "j < n" "r i < 0" for i j
      using "1.prems"(1) that unfolding signs_ok_def by blast
    consider "r mid > 0" | "r mid < 0" | "r mid = 0" "hi - lo = 1" | "r mid = 0" "hi - lo \<noteq> 1"
      by linarith
    then show ?thesis
    proof cases
      case 1
      have low: "0 < r i" if "i < mid + 1" for i
        using mono [of i mid] mid(3) that 1 by fastforce
      have "r i < 0 \<or> (\<exists>k. mid + 1 \<le> k \<and> k < hi \<and> r k = 0)" if i: "hi \<le> i" "i < n" for i
      proof (cases "r i < 0")
        case False
        then obtain k where "lo \<le> k" "k < hi" "r k = 0"
          using "1.prems"(3) [OF i] by blast
        moreover from this have "mid + 1 \<le> k"
          using low [of k] by (cases "k < mid + 1") auto
        ultimately show ?thesis by blast
      qed simp
      note high = this
      have step1: "sk_search r lo hi = sk_search r (mid + 1) hi"
        using 1 by (simp only: step if_True)
      have "mid + 1 \<le> hi" using mid by simp
      from "1.IH"(1) [OF True mid_def 1 "1.prems"(1) low high this "1.prems"(5)] show ?thesis
        unfolding step1 .
    next
      case 2
      then have "r i < 0" if "mid \<le> i" "i < n" for i
        using mono' [of mid i] that by blast
      then have high: "r i < 0 \<or> (\<exists>k. lo \<le> k \<and> k < mid \<and> r k = 0)" if "mid \<le> i" "i < n" for i
        using that by blast
      have not_pos: "\<not> 0 < r mid" and step2: "sk_search r lo hi = sk_search r lo mid"
        using 2 by (simp_all add: step)
      have "mid \<le> n" using mid by simp
      from "1.IH"(2) [OF True mid_def not_pos 2 "1.prems"(1,2) high mid(1) this] show ?thesis
        unfolding step2 .
    next
      case 3
      then have "mid = lo" using mid by linarith
      have low: "r j \<noteq> 0" if "j < mid" for j
        using "1.prems"(2) [of j] that \<open>mid = lo\<close> by simp
      have step3: "sk_search r lo hi = Some mid"
        using 3 by (simp add: step)
      have "i = mid" if "r i = 0" "\<forall>j < i. r j \<noteq> 0"
        using that low [of i] 3(1) by (cases i mid rule: linorder_cases) auto
      then show ?thesis
        unfolding step3 option.inject using 3(1) mid(3) low by blast
    next
      case 4
      have high: "r i < 0 \<or> (\<exists>k. lo \<le> k \<and> k < mid + 1 \<and> r k = 0)" for i
        using 4(1) mid by (intro disjI2 exI [of _ mid]) simp
      have signs: "\<not> 0 < r mid" "\<not> r mid < 0" using 4 by simp_all
      with 4 have step4: "sk_search r lo hi = sk_search r lo (mid + 1)"
        by (simp only: step if_False)
      have "lo \<le> mid + 1" "mid + 1 \<le> n" using mid by simp_all
      from "1.IH"(3) [OF True mid_def signs 4(2) "1.prems"(1,2) high this] show ?thesis
        unfolding step4 .
    qed
  qed
qed

lemma sk_search_first: "signs_ok r n \<Longrightarrow> sk_search r 0 n = first_index (\<lambda>i. r i = 0) [0..<n]"
proof -
  assume "signs_ok r n"
  then have search: "sk_search r 0 n = Some i \<longleftrightarrow> i < n \<and> r i = 0 \<and> (\<forall>j < i. r j \<noteq> 0)" for i
    by (rule sk_search_window) auto
  have first: "first_index (\<lambda>i. r i = 0) [0..<n] = Some i \<longleftrightarrow> i < n \<and> r i = 0 \<and> (\<forall>j < i. r j \<noteq> 0)" for i
    by (auto simp: first_index_Some)
  show ?thesis
    using search first by (metis not_None_eq)
qed

lemma in_order_signs: "comparator cmp \<Longrightarrow> in_order cmp xs \<Longrightarrow> signs_ok (\<lambda>i. cmp p (xs ! i)) (length xs)"
  using comparator.signs_decrease [of cmp xs] unfolding signs_ok_def by blast

text \<open>
  Searching is the same whether the stack is sorted or not: it returns the first entry
  that compares equal.
\<close>

lemma sk_find_first:
  assumes "sk_comp s = Some c" and "comparator (call_cmp c)" and "stack_ordered call_cmp s" and "p \<noteq> None"
  shows "sk_find call_cmp (Some s) p = first_index (\<lambda>q. call_cmp c p q = 0) (sk_data s)"
proof (cases "sk_sorted s")
  case True
  with assms(1,3) have "in_order (call_cmp c) (sk_data s)"
    by (simp add: stack_ordered_def)
  from sk_search_first [OF in_order_signs [OF assms(2) this]] show ?thesis
    using assms True by (cases p) (simp_all add: sk_find_def sk_is_sorted_def first_index_upt [of _ "sk_data s"])
next
  case False
  with assms show ?thesis by (cases p) (simp_all add: sk_find_def sk_is_sorted_def)
qed

lemma sk_find_matches:
  assumes "\<And>c. comparator (call_cmp c)" and "stack_ordered call_cmp s"
  shows "sk_find call_cmp (Some s) p =
    first_index (\<lambda>q. case sk_comp s of None \<Rightarrow> q = p | Some c \<Rightarrow> p \<noteq> None \<and> call_cmp c p q = 0) (sk_data s)"
proof (cases "sk_comp s")
  case None
  then show ?thesis by (simp add: sk_find_def)
next
  case (Some c)
  show ?thesis
  proof (cases p)
    case None
    have "first_index (\<lambda>q. False) (sk_data s) = None" by (simp add: first_index_None)
    with None Some show ?thesis by (simp add: sk_find_def)
  next
    case (Some x)
    with \<open>sk_comp s = Some c\<close> sk_find_first [where call_cmp = call_cmp, OF _ assms(1,2)] show ?thesis by simp
  qed
qed

text \<open>A deep copy maps the copy function over the entries, or frees what it had copied.\<close>

lemma deep_copy_loop_eq:
  "deep_copy_loop f copied ps =
    (case first_index (\<lambda>p. p \<noteq> None \<and> f (the p) = None) ps of
       None \<Rightarrow> Inl (copied @ map (\<lambda>p. Option.bind p f) ps)
     | Some i \<Rightarrow> Inr (map the (filter (\<lambda>q. q \<noteq> None) (copied @ map (\<lambda>p. Option.bind p f) (take i ps)))))"
proof (induction f copied ps rule: deep_copy_loop.induct)
  case (2 f copied p ps)
  show ?case
  proof (cases p)
    case None
    with 2(1) show ?thesis by (auto split: option.splits)
  next
    case (Some x)
    show ?thesis
    proof (cases "f x")
      case None
      with Some show ?thesis by simp
    next
      case fx: (Some y)
      from 2(2) [OF Some fx] Some fx show ?thesis by (auto split: option.splits)
    qed
  qed
qed simp

section \<open>Sequences of operations\<close>

datatype ('a, 'c) stack_call =
    Sk_insert "'a option" nat | Sk_push "'a option" | Sk_delete nat | Sk_delete_ptr "'a option"
  | Sk_shift | Sk_pop | Sk_zero | Sk_sort | Sk_set_cmp_func "'c option" | Sk_set nat "'a option"

fun do_stack_call :: "(nat \<Rightarrow> bool) \<Rightarrow> ('c \<Rightarrow> 'a option \<Rightarrow> 'a option \<Rightarrow> int) \<Rightarrow> ('a, 'c) stack_call \<Rightarrow>
    ('a, 'c) stack_st \<Rightarrow> ('a, 'c) stack_st" where
  "do_stack_call sys call_cmp (Sk_insert p i) s = snd (sk_insert sys p i s)"
| "do_stack_call sys call_cmp (Sk_push p) s = snd (sk_push sys p s)"
| "do_stack_call sys call_cmp (Sk_delete i) s = snd (sk_delete i s)"
| "do_stack_call sys call_cmp (Sk_delete_ptr p) s = snd (sk_delete_ptr p s)"
| "do_stack_call sys call_cmp Sk_shift s = snd (sk_shift s)"
| "do_stack_call sys call_cmp Sk_pop s = snd (sk_pop s)"
| "do_stack_call sys call_cmp Sk_zero s = the (sk_zero (Some s))"
| "do_stack_call sys call_cmp Sk_sort s = sk_sort call_cmp s"
| "do_stack_call sys call_cmp (Sk_set_cmp_func c) s = snd (sk_set_cmp_func c s)"
| "do_stack_call sys call_cmp (Sk_set i p) s = snd (sk_set i p s)"

definition run_stack :: "(nat \<Rightarrow> bool) \<Rightarrow> ('c \<Rightarrow> 'a option \<Rightarrow> 'a option \<Rightarrow> int) \<Rightarrow> ('a, 'c) stack_call list \<Rightarrow>
    ('a, 'c) stack_st \<Rightarrow> ('a, 'c) stack_st" where
  "run_stack sys call_cmp cs s = fold (do_stack_call sys call_cmp) cs s"

text \<open>
  What \<open>sk_set\<close> leaves to its caller: on a stack whose flag is set, the entry stored must keep the order. The
  predicate goes through the states in which the calls are made.
\<close>

definition set_keeps_order :: "('c \<Rightarrow> 'a option \<Rightarrow> 'a option \<Rightarrow> int) \<Rightarrow> nat \<Rightarrow> 'a option \<Rightarrow> ('a, 'c) stack_st \<Rightarrow> bool" where
  "set_keeps_order call_cmp i p s \<longleftrightarrow>
     (sk_sorted s \<longrightarrow> (case sk_comp s of None \<Rightarrow> True | Some c \<Rightarrow> in_order (call_cmp c) ((sk_data s)[i := p])))"

fun sets_keep_order :: "(nat \<Rightarrow> bool) \<Rightarrow> ('c \<Rightarrow> 'a option \<Rightarrow> 'a option \<Rightarrow> int) \<Rightarrow> ('a, 'c) stack_call list \<Rightarrow>
    ('a, 'c) stack_st \<Rightarrow> bool" where
  "sets_keep_order sys call_cmp [] s \<longleftrightarrow> True"
| "sets_keep_order sys call_cmp (c # cs) s \<longleftrightarrow>
     (case c of Sk_set i p \<Rightarrow> set_keeps_order call_cmp i p s | _ \<Rightarrow> True) \<and>
     sets_keep_order sys call_cmp cs (do_stack_call sys call_cmp c s)"

lemma sk_set_fields:
  "sk_data (snd (sk_set i p s)) = (sk_data s)[i := p]" "sk_sorted (snd (sk_set i p s)) = sk_sorted s"
  "sk_comp (snd (sk_set i p s)) = sk_comp s" "sk_num_alloc (snd (sk_set i p s)) = sk_num_alloc s"
  by (simp_all add: sk_set_def list_update_beyond)

lemma sk_set_fits: "stack_fits s \<Longrightarrow> stack_fits (snd (sk_set i p s))"
  by (simp add: stack_fits_def sk_set_fields)

lemma sk_set_ordered: "set_keeps_order call_cmp i p s \<Longrightarrow> stack_ordered call_cmp (snd (sk_set i p s))"
  by (cases "sk_comp s") (simp_all add: stack_ordered_def set_keeps_order_def sk_set_fields)

lemma sk_insert_invariant:
  assumes "stack_fits s" and "stack_ordered call_cmp s"
  shows "stack_fits (snd (sk_insert sys p i s)) \<and> stack_ordered call_cmp (snd (sk_insert sys p i s))"
proof -
  obtain n s' where "sk_insert sys p i s = (n, s')" by fastforce
  from sk_insert_data [OF this assms(1)] this assms(2) show ?thesis
    by (cases "n = 0") auto
qed

lemma sk_delete_invariant':
  "stack_fits s \<Longrightarrow> stack_ordered call_cmp s \<Longrightarrow>
   stack_fits (snd (sk_delete i s)) \<and> stack_ordered call_cmp (snd (sk_delete i s))"
  using sk_delete_invariant [of i s "fst (sk_delete i s)" "snd (sk_delete i s)"] by simp

lemma sk_delete_fits: "stack_fits s \<Longrightarrow> stack_fits (snd (sk_delete i s))"
  by (auto simp: sk_delete_def stack_fits_def)

lemma do_stack_call_fits:
  assumes "stack_fits s"
  shows "stack_fits (do_stack_call sys call_cmp c s)"
proof (cases c)
  case (Sk_insert p i)
  then show ?thesis using sk_insert_data(1) [OF surjective_pairing assms] by simp
next
  case (Sk_push p)
  then show ?thesis using sk_insert_data(1) [OF surjective_pairing assms] by (simp add: sk_push_def)
next
  case (Sk_delete_ptr p)
  then show ?thesis using assms by (cases "first_index (\<lambda>q. q = p) (sk_data s)") (simp_all add: sk_delete_ptr_def sk_delete_fits)
next
  case Sk_sort
  then show ?thesis using assms by (cases "sk_comp s") (simp_all add: sk_sort_def stack_fits_def)
next
  case Sk_zero
  then show ?thesis using assms by (auto simp: sk_zero_def stack_fits_def)
next
  case (Sk_set_cmp_func cmpf)
  then show ?thesis using assms by (simp add: sk_set_cmp_func_def stack_fits_def Let_def)
qed (use assms in \<open>simp_all add: sk_delete_fits sk_shift_def sk_pop_def sk_set_fits\<close>)

lemma do_stack_call_invariant:
  assumes "\<And>c. comparator (call_cmp c)" and "stack_fits s" and "stack_ordered call_cmp s"
    and "case c of Sk_set i p \<Rightarrow> set_keeps_order call_cmp i p s | _ \<Rightarrow> True"
  shows "stack_ordered call_cmp (do_stack_call sys call_cmp c s)"
proof (cases c)
  case (Sk_delete_ptr p)
  show ?thesis
    unfolding Sk_delete_ptr do_stack_call.simps sk_delete_ptr_def
    using assms(2,3) by (cases "first_index (\<lambda>q. q = p) (sk_data s)") (simp_all add: sk_delete_invariant')
next
  case Sk_zero
  obtain s' where "sk_zero (Some s) = Some s'" by (cases "sk_data s = []") (auto simp: sk_zero_def)
  with sk_zero_invariant [OF this assms(2,3)] Sk_zero show ?thesis by simp
next
  case (Sk_set_cmp_func c)
  obtain old s' where "sk_set_cmp_func c s = (old, s')" by fastforce
  with sk_set_cmp_func_invariant [OF this assms(2,3)] Sk_set_cmp_func show ?thesis by simp
qed (use assms in \<open>simp_all add: sk_insert_invariant sk_push_def sk_delete_invariant' sk_shift_def sk_pop_def
      sk_sort_invariant sk_set_ordered\<close>)

lemma run_stack_fits:
  "stack_fits s \<Longrightarrow> stack_fits (run_stack sys call_cmp cs s)"
  unfolding run_stack_def by (induction cs arbitrary: s) (simp_all add: do_stack_call_fits)

lemma run_stack_ordered:
  assumes "\<And>c. comparator (call_cmp c)" and "stack_fits s" and "stack_ordered call_cmp s"
    and "sets_keep_order sys call_cmp cs s"
  shows "stack_ordered call_cmp (run_stack sys call_cmp cs s)"
  using assms(2-) unfolding run_stack_def
proof (induction cs arbitrary: s)
  case (Cons c cs)
  then have "stack_ordered call_cmp (do_stack_call sys call_cmp c s)"
    by (intro do_stack_call_invariant assms(1)) simp_all
  with Cons do_stack_call_fits [of s sys call_cmp c] show ?case by simp
qed simp

text \<open>The comparison of pointers to numbers, as an instance.\<close>

definition number_cmp :: "unit \<Rightarrow> int option \<Rightarrow> int option \<Rightarrow> int" where
  "number_cmp u a b = (case (a, b) of (Some x, Some y) \<Rightarrow> x - y | (None, None) \<Rightarrow> 0
     | (None, Some _) \<Rightarrow> - 1 | (Some _, None) \<Rightarrow> 1)"

interpretation number_order: comparator "number_cmp u"
  by unfold_locales (auto simp: number_cmp_def split: option.splits)

section \<open>Properties\<close>

text \<open>
  C25: Whatever sequence of insertions, deletions, replacements, sorts and changes of the comparison function is
  applied to a new stack, with memory failing at any point, the entries stay within the array and the array within
  memory. The flag \<open>sorted\<close> is only set when the entries are in order, provided that every entry stored by \<open>sk_set\<close>
  while the flag was set kept the order, as \<open>sk_set\<close> does not reset the flag.
\<close>

theorem stack_invariant:
  assumes "\<And>c. comparator (call_cmp c)" and "sk_new sys cmpf = Some s"
  shows "stack_fits (run_stack sys call_cmp cs s) \<and>
    (sets_keep_order sys call_cmp cs s \<longrightarrow> stack_ordered call_cmp (run_stack sys call_cmp cs s))"
  using sk_new_invariant [OF assms(2), of call_cmp] run_stack_fits
    run_stack_ordered [where call_cmp = call_cmp and s = s, OF assms(1)] by blast

theorem stack_invariant_witness:
  "stack_ordered number_cmp (run_stack (\<lambda>_. True) number_cmp [Sk_push (Some 3), Sk_set 0 (Some 5), Sk_push (Some 1), Sk_sort, Sk_pop]
     (the (sk_new (\<lambda>_. True) (Some ()))))"
proof -
  let ?s = "the (sk_new (\<lambda>_. True) (Some ())) :: (int, unit) stack_st"
  have new: "sk_new (\<lambda>_. True) (Some ()) = Some ?s"
    by (simp add: sk_new_def sizeof_stack_st_def sizeof_pointer_def kMinSize_def)
  have "sets_keep_order (\<lambda>_. True) number_cmp [Sk_push (Some 3), Sk_set 0 (Some 5), Sk_push (Some 1), Sk_sort, Sk_pop] ?s"
    by (simp add: set_keeps_order_def sk_new_def sizeof_stack_st_def sizeof_pointer_def kMinSize_def sk_push_def sk_insert_def sk_grow_def)
  with stack_invariant [where call_cmp = number_cmp, OF number_order.comparator_axioms new] show ?thesis by blast
qed

text \<open>
  C24: \<open>sk_find\<close> returns the index of the first entry that matches, or nothing when there is none, on every stack that
  operations lead to, \<open>sk_set\<close> included as long as it keeps the order of a stack whose flag is set: the binary
  search of a sorted stack and the linear one agree. With a comparison function an entry matches when it compares equal, and
  nothing matches NULL; without one, when it is the same pointer. No stack is an empty one.
\<close>

theorem sk_find_correct:
  assumes "\<And>c. comparator (call_cmp c)" and "sk_new sys cmpf = Some s0" and "sets_keep_order sys call_cmp cs s0"
    and "s = run_stack sys call_cmp cs s0"
    and "matches = (\<lambda>q. case sk_comp s of None \<Rightarrow> q = p | Some c \<Rightarrow> p \<noteq> None \<and> call_cmp c p q = 0)"
  shows "(sk_find call_cmp (Some s) p = Some i \<longleftrightarrow>
      i < length (sk_data s) \<and> matches (sk_data s ! i) \<and> (\<forall>j < i. \<not> matches (sk_data s ! j))) \<and>
    (sk_find call_cmp (Some s) p = None \<longleftrightarrow> (\<forall>q \<in> set (sk_data s). \<not> matches q)) \<and>
    sk_find call_cmp None p = None"
proof -
  have "stack_fits s0" "stack_ordered call_cmp s0" using sk_new_invariant [OF assms(2), of call_cmp] by auto
  then have "stack_ordered call_cmp s"
    unfolding assms(4) using run_stack_ordered [where call_cmp = call_cmp, OF assms(1) _ _ assms(3)] by blast
  then have find: "sk_find call_cmp (Some s) p = first_index matches (sk_data s)"
    unfolding assms(5) by (rule sk_find_matches [where call_cmp = call_cmp, OF assms(1)])
  show ?thesis unfolding find first_index_Some first_index_None by (simp add: sk_find_def)
qed

theorem sk_find_correct_witness:
  "sk_find number_cmp (Some (run_stack (\<lambda>_. True) number_cmp [Sk_push (Some 3), Sk_push (Some 1), Sk_sort]
     (the (sk_new (\<lambda>_. True) (Some ()))))) (Some 3) = Some 1"
proof -
  let ?s = "the (sk_new (\<lambda>_. True) (Some ())) :: (int, unit) stack_st"
  let ?run = "run_stack (\<lambda>_. True) number_cmp [Sk_push (Some 3), Sk_push (Some 1), Sk_sort] ?s"
  have new: "sk_new (\<lambda>_. True) (Some ()) = Some ?s"
    by (simp add: sk_new_def sizeof_stack_st_def sizeof_pointer_def kMinSize_def)
  have run: "sk_data ?run = [Some 1, Some 3]" "sk_comp ?run = Some ()"
    by (simp_all add: run_stack_def sk_new_def sizeof_stack_st_def sizeof_pointer_def kMinSize_def sk_push_def
        sk_insert_def sk_grow_def sk_sort_def qsort_def number_cmp_def)
  have sets: "sets_keep_order (\<lambda>_. True) number_cmp [Sk_push (Some 3), Sk_push (Some 1), Sk_sort] ?s" by simp
  show ?thesis
    using sk_find_correct [where call_cmp = number_cmp and i = 1, OF number_order.comparator_axioms new sets refl refl, of "Some 3"] run
    by (simp add: number_cmp_def)
qed

text \<open>\<open>sk_sort\<close> rearranges the entries into order and marks the stack sorted.\<close>

lemma sk_sort_correct:
  assumes "comparator (call_cmp c)" and "sk_comp s = Some c" and "stack_ordered call_cmp s"
  shows "(mset (sk_data (sk_sort call_cmp s)) = mset (sk_data s)) \<and>
    (in_order (call_cmp c) (sk_data (sk_sort call_cmp s))) \<and>
    (sk_sorted (sk_sort call_cmp s))"
proof (intro conjI)
  have short: "in_order (call_cmp c) (sk_data s)" if "length (sk_data s) < 2"
    using that by (cases "sk_data s"; cases "tl (sk_data s)") (auto simp: in_order_def)
  show "mset (sk_data (sk_sort call_cmp s)) = mset (sk_data s)" "sk_sorted (sk_sort call_cmp s)"
    using assms(2) by (simp_all add: sk_sort_def)
  show "in_order (call_cmp c) (sk_data (sk_sort call_cmp s))"
    using assms short comparator.qsort_in_order [OF assms(1)]
    by (simp add: sk_sort_def stack_ordered_def not_le)
qed

lemma sk_sort_correct_witness:
  "sk_sorted (sk_sort number_cmp \<lparr>sk_data = [Some 2, Some 1], sk_sorted = False, sk_num_alloc = 4, sk_comp = Some ()\<rparr>)"
  by (rule sk_sort_correct [THEN conjunct2, THEN conjunct2, OF number_order.comparator_axioms]) (simp_all add: stack_ordered_def)

text \<open>
  An insertion that returns non-zero puts the pointer at the index asked for, or at the end when that is
  past it, and shifts the rest; when memory runs out it returns zero and changes nothing.
\<close>

lemma sk_insert_correct:
  assumes "stack_fits s" and "sk_insert sys p i s = (n, s')"
  shows "if n = 0 then s' = s
    else n = length (sk_data s) + 1 \<and>
      sk_data s' = take (min i (length (sk_data s))) (sk_data s) @ p # drop (min i (length (sk_data s))) (sk_data s) \<and>
      \<not> sk_sorted s' \<and> sk_comp s' = sk_comp s"
  by (rule sk_insert_data(3) [OF assms(2,1)])

lemma sk_insert_correct_witness:
  "\<exists>s'. sk_insert (\<lambda>_. True) (Some 7) 1 \<lparr>sk_data = [Some (2 :: int), Some 1], sk_sorted = True, sk_num_alloc = 3, sk_comp = Some ()\<rparr>
      = (3, s') \<and> sk_data s' = [Some 2, Some 7, Some 1]"
proof -
  let ?s = "\<lparr>sk_data = [Some (2 :: int), Some 1], sk_sorted = True, sk_num_alloc = 3, sk_comp = Some ()\<rparr>"
  have fits: "stack_fits ?s" by (simp add: stack_fits_def sizeof_pointer_def)
  obtain s' where s': "sk_insert (\<lambda>_. True) (Some 7) 1 ?s = (3, s')"
    by (simp add: sk_insert_def sk_grow_def size_mul_def sizeof_pointer_def OPENSSL_malloc_def size_add_def
        OPENSSL_MALLOC_PREFIX_def)
  from sk_insert_correct [OF fits s'] s' show ?thesis by simp
qed

text \<open>
  A deep copy that succeeds holds the copies of the entries, NULL kept; one that fails
  because an entry could not be copied has freed exactly the copies it had made.
\<close>

lemma sk_deep_copy_correct:
  assumes "sk_deep_copy sys f (Some s) = (r, freed)" and "sk_dup sys (Some s) = Some d"
  shows "if \<exists>x. Some x \<in> set (sk_data s) \<and> f x = None
    then r = None \<and> (\<exists>i < length (sk_data s). freed = map the (filter (\<lambda>q. q \<noteq> None) (map (\<lambda>p. Option.bind p f) (take i (sk_data s)))))
    else r = Some (s\<lparr>sk_data := map (\<lambda>p. Option.bind p f) (sk_data s)\<rparr>) \<and> freed = []"
proof -
  have d: "d = s" using assms(2) by (auto simp: sk_dup_def split: if_splits)
  let ?bad = "\<lambda>p. p \<noteq> None \<and> f (the p) = None"
  show ?thesis
  proof (cases "first_index ?bad (sk_data s)")
    case None
    then have "\<not> (\<exists>x. Some x \<in> set (sk_data s) \<and> f x = None)"
      by (auto simp: first_index_None)
    with None assms d show ?thesis by (auto simp: sk_deep_copy_def deep_copy_loop_eq)
  next
    case (Some i)
    then have i: "i < length (sk_data s)" and bad: "?bad (sk_data s ! i)"
      by (simp_all add: first_index_Some)
    then obtain x where "sk_data s ! i = Some x" "f x = None" by auto
    with i have "\<exists>x. Some x \<in> set (sk_data s) \<and> f x = None"
      by (metis nth_mem)
    with Some i assms d show ?thesis by (auto simp: sk_deep_copy_def deep_copy_loop_eq)
  qed
qed

lemma sk_deep_copy_correct_witness:
  "snd (sk_deep_copy (\<lambda>_. True) (\<lambda>x. if x = 5 then None else Some (x + 1 :: int))
     (Some \<lparr>sk_data = [Some 1, None, Some 5], sk_sorted = False, sk_num_alloc = 4, sk_comp = Some ()\<rparr>)) = [2]"
proof -
  let ?s = "\<lparr>sk_data = [Some 1, None, Some 5], sk_sorted = False, sk_num_alloc = 4, sk_comp = Some ()\<rparr>"
  let ?f = "\<lambda>x. if x = 5 then None else Some (x + 1 :: int)"
  have dup: "sk_dup (\<lambda>_. True) (Some ?s) = Some ?s"
    by (simp add: sk_dup_def sizeof_stack_st_def sizeof_pointer_def size_mul_def)
  have copy: "sk_deep_copy (\<lambda>_. True) ?f (Some ?s) = (None, [2])"
    by (simp add: sk_deep_copy_def dup)
  from sk_deep_copy_correct [OF copy dup] copy show ?thesis by simp
qed

text \<open>
  C33: \<open>sk_set\<close> does not reset the flag \<open>sorted\<close>: after it the binary search of \<open>sk_find\<close> can miss an entry
  that is in the stack.
\<close>

theorem sk_set_defeats_find:
  "\<exists>s s'. stack_fits s \<and> stack_ordered number_cmp s \<and> sk_set 0 (Some 9) s = (Some 9, s') \<and>
    sk_data s' ! 0 = Some 9 \<and> sk_find number_cmp (Some s') (Some 9) = None \<and> \<not> stack_ordered number_cmp s'"
proof -
  let ?s = "\<lparr>sk_data = [Some 1, Some 2, Some 3], sk_sorted = True, sk_num_alloc = 4, sk_comp = Some ()\<rparr>"
  have "stack_fits ?s \<and> stack_ordered number_cmp ?s \<and> sk_set 0 (Some 9) ?s = (Some 9, ?s\<lparr>sk_data := [Some 9, Some 2, Some 3]\<rparr>)"
    by (simp add: stack_fits_def sizeof_pointer_def stack_ordered_def in_order_def number_cmp_def sk_set_def)
  moreover have "sk_find number_cmp (Some (?s\<lparr>sk_data := [Some 9, Some 2, Some 3]\<rparr>)) (Some 9) = None"
    by (simp add: sk_find_def sk_is_sorted_def sk_search.simps number_cmp_def Let_def numeral_2_eq_2 numeral_3_eq_3)
  moreover have "\<not> stack_ordered number_cmp (?s\<lparr>sk_data := [Some 9, Some 2, Some 3]\<rparr>)"
    by (simp add: stack_ordered_def in_order_def number_cmp_def)
  ultimately show ?thesis by fastforce
qed

end
