(* ===== verification/Lhash.thy ===== *)
theory Lhash
  imports Mem "HOL-Library.Multiset"
begin

text \<open>
  \<open>crypto/lhash/lhash.c\<close>: the chained hash table behind every \<open>LHASH_OF(T)\<close>. A chain is the
  list of its items, the array of buckets the list of chains (so \<open>num_buckets\<close> is its length).
  The functions stored in the table, \<open>hash\<close> and \<open>comp\<close>, are arguments of the operations, as
  the code hands them to \<open>call_hash_func\<close> and \<open>call_cmp_func\<close>.

  The contract of the two functions is the locale \<open>lhash_functions\<close>; under it the table is the
  multiset of its items, and every operation is proved against that view, for any chaining and
  any moment of resizing. The contract of the table itself is the locale \<open>object_table\<close>.
\<close>

section \<open>State and operations\<close>

definition kMinNumBuckets :: nat where "kMinNumBuckets = 16"
definition kMaxAverageChainLength :: nat where "kMaxAverageChainLength = 2"
definition kMinAverageChainLength :: nat where "kMinAverageChainLength = 1"
definition sizeof_lhash_st :: nat where "sizeof_lhash_st = 48"
definition sizeof_lhash_item :: nat where "sizeof_lhash_item = 24"
definition sizeof_item_pointer :: nat where "sizeof_item_pointer = 8"
definition UINT_MAX :: nat where "UINT_MAX = 2 ^ 32 - 1"

record 'a lhash_item =
  it_data :: 'a
  it_hash :: u32

record 'a lhash_st =
  lh_items :: nat
  lh_buckets :: "'a lhash_item list list"
  lh_callback_depth :: nat

abbreviation num_buckets :: "'a lhash_st \<Rightarrow> nat" where
  "num_buckets lh \<equiv> length (lh_buckets lh)"

definition OPENSSL_lh_new :: "(nat \<Rightarrow> bool) \<Rightarrow> 'a lhash_st option" where
  "OPENSSL_lh_new sys =
     (if \<not> OPENSSL_malloc sys sizeof_lhash_st then None
      else if \<not> OPENSSL_malloc sys (sizeof_item_pointer * kMinNumBuckets) then None
      else Some \<lparr>lh_items = 0, lh_buckets = replicate kMinNumBuckets [], lh_callback_depth = 0\<rparr>)"

definition OPENSSL_lh_num_items :: "'a lhash_st \<Rightarrow> nat" where
  "OPENSSL_lh_num_items lh = lh_items lh"

text \<open>
  A pointer to a link is a bucket and a place in its chain; the place after the last item is
  the link that holds NULL.
\<close>

fun chain_place :: "('a \<Rightarrow> bool) \<Rightarrow> 'a lhash_item list \<Rightarrow> nat" where
  "chain_place found [] = 0"
| "chain_place found (cur # rest) = (if found (it_data cur) then 0 else Suc (chain_place found rest))"

definition get_next_ptr_and_hash ::
    "('a \<Rightarrow> u32) \<Rightarrow> ('a \<Rightarrow> 'a \<Rightarrow> int) \<Rightarrow> 'a lhash_st \<Rightarrow> 'a \<Rightarrow> u32 \<times> nat \<times> nat" where
  "get_next_ptr_and_hash hash cmpf lh data =
     (let h = hash data; i = unat h mod num_buckets lh
      in (h, i, chain_place (\<lambda>cur. cmpf cur data = 0) (lh_buckets lh ! i)))"

definition get_next_ptr_by_key :: "'a lhash_st \<Rightarrow> 'k \<Rightarrow> u32 \<Rightarrow> ('k \<Rightarrow> 'a \<Rightarrow> int) \<Rightarrow> nat \<times> nat" where
  "get_next_ptr_by_key lh key key_hash cmp_key =
     (let i = unat key_hash mod num_buckets lh
      in (i, chain_place (\<lambda>cur. cmp_key key cur = 0) (lh_buckets lh ! i)))"

definition item_at :: "'a lhash_st \<Rightarrow> nat \<Rightarrow> nat \<Rightarrow> 'a lhash_item option" where
  "item_at lh i k = (if k < length (lh_buckets lh ! i) then Some (lh_buckets lh ! i ! k) else None)"

definition OPENSSL_lh_retrieve :: "('a \<Rightarrow> u32) \<Rightarrow> ('a \<Rightarrow> 'a \<Rightarrow> int) \<Rightarrow> 'a lhash_st \<Rightarrow> 'a \<Rightarrow> 'a option" where
  "OPENSSL_lh_retrieve hash cmpf lh data =
     (case get_next_ptr_and_hash hash cmpf lh data of
        (_, i, k) \<Rightarrow> map_option it_data (item_at lh i k))"

definition OPENSSL_lh_retrieve_key :: "'a lhash_st \<Rightarrow> 'k \<Rightarrow> u32 \<Rightarrow> ('k \<Rightarrow> 'a \<Rightarrow> int) \<Rightarrow> 'a option" where
  "OPENSSL_lh_retrieve_key lh key key_hash cmp_key =
     (case get_next_ptr_by_key lh key key_hash cmp_key of (i, k) \<Rightarrow> map_option it_data (item_at lh i k))"

text \<open>Each item, chain after chain, goes to the head of its new chain.\<close>

definition rebucket_item :: "'a lhash_item \<Rightarrow> 'a lhash_item list list \<Rightarrow> 'a lhash_item list list" where
  "rebucket_item cur new_buckets =
     (let new_bucket = unat (it_hash cur) mod length new_buckets
      in new_buckets[new_bucket := cur # new_buckets ! new_bucket])"

definition lh_rebucket :: "(nat \<Rightarrow> bool) \<Rightarrow> 'a lhash_st \<Rightarrow> nat \<Rightarrow> 'a lhash_st" where
  "lh_rebucket sys lh new_num_buckets =
     (let alloc_size = size_mul sizeof_item_pointer new_num_buckets in
      if alloc_size div sizeof_item_pointer \<noteq> new_num_buckets then lh
      else if \<not> OPENSSL_malloc sys alloc_size then lh
      else lh\<lparr>lh_buckets := fold rebucket_item (concat (lh_buckets lh)) (replicate new_num_buckets [])\<rparr>)"

definition lh_maybe_resize :: "(nat \<Rightarrow> bool) \<Rightarrow> 'a lhash_st \<Rightarrow> 'a lhash_st" where
  "lh_maybe_resize sys lh =
     (if lh_callback_depth lh > 0 then lh
      else
       let avg_chain_length = lh_items lh div num_buckets lh in
       if avg_chain_length > kMaxAverageChainLength then
         let new_num_buckets = size_mul (num_buckets lh) 2 in
         if new_num_buckets > num_buckets lh then lh_rebucket sys lh new_num_buckets else lh
       else if avg_chain_length < kMinAverageChainLength \<and> num_buckets lh > kMinNumBuckets then
         let new_num_buckets = num_buckets lh div 2;
             new_num_buckets = (if new_num_buckets < kMinNumBuckets then kMinNumBuckets else new_num_buckets)
         in lh_rebucket sys lh new_num_buckets
       else lh)"

text \<open>The result: whether it succeeded, the data replaced, the table.\<close>

definition OPENSSL_lh_insert :: "(nat \<Rightarrow> bool) \<Rightarrow> ('a \<Rightarrow> u32) \<Rightarrow> ('a \<Rightarrow> 'a \<Rightarrow> int) \<Rightarrow> 'a lhash_st \<Rightarrow> 'a \<Rightarrow>
    bool \<times> 'a option \<times> 'a lhash_st" where
  "OPENSSL_lh_insert sys hash cmpf lh data =
     (case get_next_ptr_and_hash hash cmpf lh data of
        (h, i, k) \<Rightarrow>
         (case item_at lh i k of
            Some item \<Rightarrow>
              (True, Some (it_data item),
               lh\<lparr>lh_buckets := (lh_buckets lh)[i := (lh_buckets lh ! i)[k := item\<lparr>it_data := data\<rparr>]]\<rparr>)
          | None \<Rightarrow>
              if \<not> OPENSSL_malloc sys sizeof_lhash_item then (False, None, lh)
              else
               let item = \<lparr>it_data = data, it_hash = h\<rparr>;
                   lh = lh\<lparr>lh_buckets := (lh_buckets lh)[i := lh_buckets lh ! i @ [item]],
                           lh_items := lh_items lh + 1\<rparr>
               in (True, None, lh_maybe_resize sys lh)))"

definition OPENSSL_lh_delete :: "(nat \<Rightarrow> bool) \<Rightarrow> ('a \<Rightarrow> u32) \<Rightarrow> ('a \<Rightarrow> 'a \<Rightarrow> int) \<Rightarrow> 'a lhash_st \<Rightarrow> 'a \<Rightarrow>
    'a option \<times> 'a lhash_st" where
  "OPENSSL_lh_delete sys hash cmpf lh data =
     (case get_next_ptr_and_hash hash cmpf lh data of
        (h, i, k) \<Rightarrow>
         (case item_at lh i k of
            None \<Rightarrow> (None, lh)
          | Some item \<Rightarrow>
             (let chain = lh_buckets lh ! i;
                  lh = lh\<lparr>lh_buckets := (lh_buckets lh)[i := take k chain @ drop (k + 1) chain],
                          lh_items := lh_items lh - 1\<rparr>
              in (Some (it_data item), lh_maybe_resize sys lh))))"

text \<open>
  Iteration: the callback gets each object in turn, and an argument it may change; it may
  delete the object it is given from the table (the link to the next item was read before), as
  the callers that empty a table do, and leaves the rest of the table alone.
\<close>

fun doall_items :: "(nat \<Rightarrow> bool) \<Rightarrow> ('a \<Rightarrow> u32) \<Rightarrow> ('a \<Rightarrow> 'a \<Rightarrow> int) \<Rightarrow> ('a \<Rightarrow> 'b \<Rightarrow> bool \<times> 'b) \<Rightarrow>
    'a lhash_item list \<Rightarrow> 'a lhash_st \<Rightarrow> 'b \<Rightarrow> 'a lhash_st \<times> 'b" where
  "doall_items sys hash cmpf func [] lh arg = (lh, arg)"
| "doall_items sys hash cmpf func (cur # rest) lh arg =
     (case func (it_data cur) arg of
        (del, arg) \<Rightarrow>
          let lh = (if del then snd (OPENSSL_lh_delete sys hash cmpf lh (it_data cur)) else lh)
          in doall_items sys hash cmpf func rest lh arg)"

definition OPENSSL_lh_doall_arg :: "(nat \<Rightarrow> bool) \<Rightarrow> ('a \<Rightarrow> u32) \<Rightarrow> ('a \<Rightarrow> 'a \<Rightarrow> int) \<Rightarrow> ('a \<Rightarrow> 'b \<Rightarrow> bool \<times> 'b) \<Rightarrow>
    'a lhash_st \<Rightarrow> 'b \<Rightarrow> 'a lhash_st \<times> 'b" where
  "OPENSSL_lh_doall_arg sys hash cmpf func lh arg =
     (let enter = (if lh_callback_depth lh < UINT_MAX then lh\<lparr>lh_callback_depth := lh_callback_depth lh + 1\<rparr> else lh) in
      case doall_items sys hash cmpf func (concat (lh_buckets enter)) enter arg of
        (lh, arg) \<Rightarrow>
          let leave = (if lh_callback_depth lh < UINT_MAX then lh\<lparr>lh_callback_depth := lh_callback_depth lh - 1\<rparr> else lh)
          in (lh_maybe_resize sys leave, arg))"

section \<open>The table as the multiset of its items\<close>

definition lh_mset :: "'a lhash_st \<Rightarrow> 'a lhash_item multiset" where
  "lh_mset lh = mset (concat (lh_buckets lh))"

definition in_place :: "'a lhash_item list list \<Rightarrow> bool" where
  "in_place bs \<longleftrightarrow> (\<forall>i < length bs. \<forall>it \<in> set (bs ! i). unat (it_hash it) mod length bs = i)"

definition lh_placed :: "('a \<Rightarrow> u32) \<Rightarrow> 'a lhash_st \<Rightarrow> bool" where
  "lh_placed hash lh \<longleftrightarrow> in_place (lh_buckets lh) \<and> (\<forall>it \<in># lh_mset lh. it_hash it = hash (it_data it))"

definition matching :: "('a \<Rightarrow> 'a \<Rightarrow> int) \<Rightarrow> 'a \<Rightarrow> 'a lhash_item \<Rightarrow> bool" where
  "matching cmpf x it \<longleftrightarrow> cmpf (it_data it) x = 0"

definition lh_unique :: "('a \<Rightarrow> 'a \<Rightarrow> int) \<Rightarrow> 'a lhash_item multiset \<Rightarrow> bool" where
  "lh_unique cmpf M \<longleftrightarrow> (\<forall>x. size (filter_mset (matching cmpf x) M) \<le> 1)"

definition lh_ok :: "('a \<Rightarrow> u32) \<Rightarrow> ('a \<Rightarrow> 'a \<Rightarrow> int) \<Rightarrow> 'a lhash_st \<Rightarrow> bool" where
  "lh_ok hash cmpf lh \<longleftrightarrow>
     kMinNumBuckets \<le> num_buckets lh \<and> lh_items lh = size (lh_mset lh) \<and> lh_placed hash lh \<and>
     lh_unique cmpf (lh_mset lh)"

lemma concat_update:
  "i < length xss \<Longrightarrow> concat (xss[i := xs]) = concat (take i xss) @ xs @ concat (drop (Suc i) xss)"
  by (simp add: upd_conv_take_nth_drop)

lemma concat_split: "i < length xss \<Longrightarrow> concat xss = concat (take i xss) @ xss ! i @ concat (drop (Suc i) xss)"
  using concat_update [of i xss "xss ! i"] by simp

lemma mset_concat_update:
  "i < length xss \<Longrightarrow> mset (concat (xss[i := xs])) + mset (xss ! i) = mset (concat xss) + mset xs"
  by (simp add: concat_update concat_split [of i xss])

lemma chain_place_le: "chain_place P xs \<le> length xs"
  by (induction xs) auto

lemma chain_place_less:
  "chain_place P xs < length xs \<longleftrightarrow> (\<exists>it \<in> set xs. P (it_data it))"
  by (induction xs) auto

lemma chain_place_found:
  "chain_place P xs < length xs \<Longrightarrow> P (it_data (xs ! chain_place P xs))"
  by (induction xs) auto

lemma rebucket_length [simp]: "length (rebucket_item cur bs) = length bs"
  by (simp add: rebucket_item_def Let_def)

lemma rebucket_fold:
  assumes "0 < length bs"
  shows "length (fold rebucket_item xs bs) = length bs"
    and "mset (concat (fold rebucket_item xs bs)) = mset xs + mset (concat bs)"
    and "i < length bs \<Longrightarrow> set (fold rebucket_item xs bs ! i) =
      set (bs ! i) \<union> {it \<in> set xs. unat (it_hash it) mod length bs = i}"
proof -
  have "length (fold rebucket_item xs bs) = length bs \<and>
    mset (concat (fold rebucket_item xs bs)) = mset xs + mset (concat bs) \<and>
    (\<forall>i < length bs. set (fold rebucket_item xs bs ! i) =
      set (bs ! i) \<union> {it \<in> set xs. unat (it_hash it) mod length bs = i})"
    using assms
  proof (induction xs arbitrary: bs)
    case (Cons x xs)
    let ?i = "unat (it_hash x) mod length bs"
    have i: "?i < length bs" using Cons.prems by simp
    have "mset (concat (rebucket_item x bs)) + mset (bs ! ?i) = add_mset x (mset (concat bs)) + mset (bs ! ?i)"
      using mset_concat_update [OF i, of "x # bs ! ?i"] by (simp add: rebucket_item_def Let_def)
    then have "mset (concat (rebucket_item x bs)) = add_mset x (mset (concat bs))"
      by simp
    with Cons.IH [of "rebucket_item x bs"] Cons.prems show ?case
      by (auto simp: rebucket_item_def Let_def nth_list_update)
  qed simp
  then show "length (fold rebucket_item xs bs) = length bs"
    and "mset (concat (fold rebucket_item xs bs)) = mset xs + mset (concat bs)"
    and "i < length bs \<Longrightarrow> set (fold rebucket_item xs bs ! i) =
      set (bs ! i) \<union> {it \<in> set xs. unat (it_hash it) mod length bs = i}"
    by blast+
qed

lemma in_concat_nth: "x \<in> set (concat xss) \<longleftrightarrow> (\<exists>i < length xss. x \<in> set (xss ! i))"
  by (auto simp: in_set_conv_nth) (metis nth_mem, metis in_set_conv_nth)

lemma lh_mset_iff: "it \<in># lh_mset lh \<longleftrightarrow> (\<exists>i < num_buckets lh. it \<in> set (lh_buckets lh ! i))"
  unfolding lh_mset_def set_mset_mset by (rule in_concat_nth)

lemma lh_rebucket_same:
  fixes lh :: "'a lhash_st"
  assumes "0 < n"
  shows "lh_mset (lh_rebucket sys lh n) = lh_mset lh" and "lh_items (lh_rebucket sys lh n) = lh_items lh"
    and "lh_callback_depth (lh_rebucket sys lh n) = lh_callback_depth lh"
    and "num_buckets (lh_rebucket sys lh n) = num_buckets lh \<or> num_buckets (lh_rebucket sys lh n) = n"
    and "lh_placed hash lh \<Longrightarrow> lh_placed hash (lh_rebucket sys lh n)"
proof -
  note fold = rebucket_fold [of "replicate n [] :: 'a lhash_item list list"]
  show "lh_mset (lh_rebucket sys lh n) = lh_mset lh" "lh_items (lh_rebucket sys lh n) = lh_items lh"
    "lh_callback_depth (lh_rebucket sys lh n) = lh_callback_depth lh"
    "num_buckets (lh_rebucket sys lh n) = num_buckets lh \<or> num_buckets (lh_rebucket sys lh n) = n"
    using fold(1,2) assms by (auto simp: lh_rebucket_def Let_def lh_mset_def)
  assume placed: "lh_placed hash lh"
  have "in_place (fold rebucket_item (concat (lh_buckets lh)) (replicate n []))"
    using fold(1,3) assms by (simp add: in_place_def)
  with placed \<open>lh_mset (lh_rebucket sys lh n) = lh_mset lh\<close> show "lh_placed hash (lh_rebucket sys lh n)"
    unfolding lh_placed_def by (auto simp: lh_rebucket_def Let_def)
qed

lemma lh_maybe_resize_cases:
  assumes "kMinNumBuckets \<le> num_buckets lh"
  shows "lh_maybe_resize sys lh = lh \<or> (\<exists>n \<ge> kMinNumBuckets. lh_maybe_resize sys lh = lh_rebucket sys lh n)"
proof -
  have "kMinNumBuckets \<le> size_mul (num_buckets lh) 2" if "num_buckets lh < size_mul (num_buckets lh) 2"
    using that assms by simp
  moreover have "kMinNumBuckets \<le> (if num_buckets lh div 2 < kMinNumBuckets then kMinNumBuckets else num_buckets lh div 2)"
    by simp
  ultimately show ?thesis
    unfolding lh_maybe_resize_def Let_def by (smt (verit))
qed

lemma lh_maybe_resize_same:
  assumes "kMinNumBuckets \<le> num_buckets lh"
  shows "lh_mset (lh_maybe_resize sys lh) = lh_mset lh" and "lh_items (lh_maybe_resize sys lh) = lh_items lh"
    and "lh_callback_depth (lh_maybe_resize sys lh) = lh_callback_depth lh"
    and "kMinNumBuckets \<le> num_buckets (lh_maybe_resize sys lh)"
    and "lh_placed hash lh \<Longrightarrow> lh_placed hash (lh_maybe_resize sys lh)"
proof -
  consider "lh_maybe_resize sys lh = lh"
    | n where "lh_maybe_resize sys lh = lh_rebucket sys lh n" "kMinNumBuckets \<le> n"
    using lh_maybe_resize_cases [OF assms, of sys] by blast
  note cases = this
  have pos: "0 < n" if "kMinNumBuckets \<le> n" for n
    using that by (simp add: kMinNumBuckets_def)
  show "lh_mset (lh_maybe_resize sys lh) = lh_mset lh" "lh_items (lh_maybe_resize sys lh) = lh_items lh"
    "lh_callback_depth (lh_maybe_resize sys lh) = lh_callback_depth lh"
    using cases by (cases; simp add: lh_rebucket_same pos)+
  show "kMinNumBuckets \<le> num_buckets (lh_maybe_resize sys lh)"
    using cases
  proof cases
    case 2
    with lh_rebucket_same(4) [OF pos [OF 2(2)], of sys lh] assms show ?thesis by auto
  qed (use assms in simp)
  show "lh_placed hash lh \<Longrightarrow> lh_placed hash (lh_maybe_resize sys lh)"
    using cases by cases (simp_all add: lh_rebucket_same(5) pos)
qed

lemma lh_maybe_resize_ok: "lh_ok hash cmpf lh \<Longrightarrow> lh_ok hash cmpf (lh_maybe_resize sys lh)"
  using lh_maybe_resize_same [where lh = lh and sys = sys] by (simp add: lh_ok_def)

text \<open>Changing one chain.\<close>

lemma lh_update_chain:
  assumes "i < num_buckets lh"
  shows "lh_mset (lh\<lparr>lh_buckets := (lh_buckets lh)[i := chain]\<rparr>) = lh_mset lh - mset (lh_buckets lh ! i) + mset chain"
    and "mset (lh_buckets lh ! i) \<subseteq># lh_mset lh"
proof -
  show "mset (lh_buckets lh ! i) \<subseteq># lh_mset lh"
    unfolding lh_mset_def by (subst concat_split [OF assms]) simp
  then have "lh_mset lh + mset chain = lh_mset lh - mset (lh_buckets lh ! i) + mset chain + mset (lh_buckets lh ! i)"
    by (metis add.assoc add.commute subset_mset.diff_add)
  moreover have "lh_mset (lh\<lparr>lh_buckets := (lh_buckets lh)[i := chain]\<rparr>) + mset (lh_buckets lh ! i) =
      lh_mset lh + mset chain"
    using mset_concat_update [OF assms, of chain] by (simp add: lh_mset_def del: mset_concat)
  ultimately show "lh_mset (lh\<lparr>lh_buckets := (lh_buckets lh)[i := chain]\<rparr>) =
      lh_mset lh - mset (lh_buckets lh ! i) + mset chain"
    by (simp only: add_right_cancel)
qed

lemma in_place_update:
  "in_place bs \<Longrightarrow> (\<And>it. it \<in> set chain \<Longrightarrow> unat (it_hash it) mod length bs = i) \<Longrightarrow> in_place (bs[i := chain])"
  by (cases "i < length bs") (auto simp: in_place_def nth_list_update)

lemma filter_mset_none: "filter_mset P M = {#} \<longleftrightarrow> (\<forall>x. x \<in># M \<longrightarrow> \<not> P x)"
  by (induction M) auto

lemma mset_swap_one:
  assumes "A \<subseteq># M" and "x \<in># A"
  shows "M - A + add_mset y (A - {#x#}) = add_mset y (M - {#x#})"
proof -
  obtain B where "A = add_mset x B" using assms(2) by (metis insert_DiffM)
  moreover obtain C where "M = A + C" using assms(1) by (metis subset_mset.add_diff_inverse)
  ultimately show ?thesis by simp
qed

lemma mset_drop_one:
  assumes "A \<subseteq># M" and "x \<in># A"
  shows "M - A + (A - {#x#}) = M - {#x#}"
  using mset_swap_one [OF assms, of x] by simp

section \<open>What the two functions promise\<close>

text \<open>The objects an iteration leaves in the table.\<close>

fun doall_kept :: "('a \<Rightarrow> 'b \<Rightarrow> bool \<times> 'b) \<Rightarrow> 'a list \<Rightarrow> 'b \<Rightarrow> 'a list" where
  "doall_kept func [] arg = []"
| "doall_kept func (d # ds) arg =
     (case func d arg of (del, arg) \<Rightarrow> if del then doall_kept func ds arg else d # doall_kept func ds arg)"

lemma delete_depth:
  assumes "lh_ok hash cmpf lh" and "OPENSSL_lh_delete sys hash cmpf lh x = (old, lh')"
  shows "lh_callback_depth lh' = lh_callback_depth lh"
proof -
  obtain h i k where p: "get_next_ptr_and_hash hash cmpf lh x = (h, i, k)" by (metis prod_cases3)
  have "kMinNumBuckets \<le> num_buckets lh" using assms(1) by (simp add: lh_ok_def)
  with assms(2) show ?thesis
    by (auto simp: OPENSSL_lh_delete_def p Let_def lh_maybe_resize_same(3) split: option.splits)
qed

locale lhash_functions =
  fixes hash :: "'a \<Rightarrow> u32" and cmpf :: "'a \<Rightarrow> 'a \<Rightarrow> int"
  assumes cmp_refl: "cmpf a a = 0"
    and cmp_sym: "cmpf a b = 0 \<Longrightarrow> cmpf b a = 0"
    and cmp_trans: "cmpf a b = 0 \<Longrightarrow> cmpf b c = 0 \<Longrightarrow> cmpf a c = 0"
    and cmp_hash: "cmpf a b = 0 \<Longrightarrow> hash a = hash b"
begin

lemma lh_found:
  assumes "lh_ok hash cmpf lh" and "get_next_ptr_and_hash hash cmpf lh x = (h, i, k)"
  shows "h = hash x" and "i < num_buckets lh" and "unat (hash x) mod num_buckets lh = i"
    and "item_at lh i k = None \<Longrightarrow> filter_mset (matching cmpf x) (lh_mset lh) = {#}"
    and "item_at lh i k = None \<Longrightarrow> k = length (lh_buckets lh ! i)"
    and "item_at lh i k = Some it \<Longrightarrow> k < length (lh_buckets lh ! i) \<and> lh_buckets lh ! i ! k = it \<and>
      it \<in># lh_mset lh \<and> matching cmpf x it"
proof -
  let ?P = "\<lambda>cur. cmpf cur x = 0"
  have i: "h = hash x" "i = unat (hash x) mod num_buckets lh" "k = chain_place ?P (lh_buckets lh ! i)"
    using assms(2) by (auto simp: get_next_ptr_and_hash_def Let_def)
  have "0 < num_buckets lh"
    using assms(1) unfolding lh_ok_def kMinNumBuckets_def by linarith
  then have i_less: "i < num_buckets lh"
    by (simp only: i(2) mod_less_divisor)
  with i show "h = hash x" "i < num_buckets lh" "unat (hash x) mod num_buckets lh = i"
    by simp_all
  show "k = length (lh_buckets lh ! i)" if "item_at lh i k = None"
    using that chain_place_le [of ?P "lh_buckets lh ! i"] i(3) by (auto simp: item_at_def split: if_splits)
  show "filter_mset (matching cmpf x) (lh_mset lh) = {#}" if none: "item_at lh i k = None"
  proof -
    have "\<not> matching cmpf x it" if it: "it \<in># lh_mset lh" for it
    proof
      assume m: "matching cmpf x it"
      obtain j where j: "j < num_buckets lh" "it \<in> set (lh_buckets lh ! j)"
        using it by (auto simp: lh_mset_iff)
      with assms(1) have "unat (it_hash it) mod num_buckets lh = j"
        by (simp add: lh_ok_def lh_placed_def in_place_def)
      moreover have "it_hash it = hash (it_data it)"
        using assms(1) it by (simp add: lh_ok_def lh_placed_def)
      moreover have "hash (it_data it) = hash x"
        using m by (intro cmp_hash) (simp add: matching_def)
      ultimately have "it \<in> set (lh_buckets lh ! i)"
        using j i(2) by simp
      then have "k < length (lh_buckets lh ! i)"
        unfolding i(3) chain_place_less using m by (auto simp: matching_def)
      with none show False by (simp add: item_at_def)
    qed
    then show ?thesis by (simp add: filter_mset_none)
  qed
  show "k < length (lh_buckets lh ! i) \<and> lh_buckets lh ! i ! k = it \<and> it \<in># lh_mset lh \<and> matching cmpf x it"
    if some: "item_at lh i k = Some it"
  proof -
    have k: "k < length (lh_buckets lh ! i)" "lh_buckets lh ! i ! k = it"
      using some by (auto simp: item_at_def split: if_splits)
    then have "it \<in># lh_mset lh"
      using i_less by (auto simp: lh_mset_iff)
    with k chain_place_found [of ?P "lh_buckets lh ! i"] show ?thesis
      by (simp add: i(3) matching_def)
  qed
qed

lemma unique_match:
  assumes "lh_unique cmpf M" and "a \<in># M" and "b \<in># M" and "matching cmpf x a" and "matching cmpf x b"
  shows "a = b"
proof (rule ccontr)
  assume "a \<noteq> b"
  then have "{#a, b#} \<subseteq># filter_mset (matching cmpf x) M"
    using assms by (simp add: insert_subset_eq_iff in_diff_count)
  from size_mset_mono [OF this] assms(1) show False
    by (simp add: lh_unique_def) (metis Suc_le_D not_less_eq_eq le_numeral_extra(4) numeral_2_eq_2)
qed

lemma retrieve_Some_iff:
  assumes "lh_ok hash cmpf lh"
  shows "OPENSSL_lh_retrieve hash cmpf lh x = Some d \<longleftrightarrow> (\<exists>it. it \<in># lh_mset lh \<and> matching cmpf x it \<and> it_data it = d)"
proof -
  obtain h i k where p: "get_next_ptr_and_hash hash cmpf lh x = (h, i, k)" by (metis prod_cases3)
  note found = lh_found [OF assms p]
  show ?thesis
  proof (cases "item_at lh i k")
    case None
    with found(4) show ?thesis by (auto simp: OPENSSL_lh_retrieve_def p filter_mset_none)
  next
    case (Some it)
    have "lh_unique cmpf (lh_mset lh)" using assms by (simp add: lh_ok_def)
    with found(6) [OF Some] Some unique_match show ?thesis
      by (auto simp: OPENSSL_lh_retrieve_def p)
  qed
qed

lemma retrieve_None_iff:
  assumes "lh_ok hash cmpf lh"
  shows "OPENSSL_lh_retrieve hash cmpf lh x = None \<longleftrightarrow> (\<forall>it. it \<in># lh_mset lh \<longrightarrow> \<not> matching cmpf x it)"
  using retrieve_Some_iff [OF assms, of x] by (metis not_None_eq)

lemma matching_cong:
  assumes "cmpf (it_data a) x = 0" and "cmpf (it_data b) x = 0"
  shows "matching cmpf y a \<longleftrightarrow> matching cmpf y b"
  using assms cmp_sym cmp_trans unfolding matching_def by blast

lemma unique_insert:
  assumes "lh_unique cmpf M" and "filter_mset (matching cmpf (it_data it)) M = {#}"
  shows "lh_unique cmpf (add_mset it M)"
proof -
  have "filter_mset (matching cmpf y) M = {#}" if "matching cmpf y it" for y
    using assms(2) that cmp_trans cmp_sym unfolding filter_mset_none matching_def by blast
  with assms(1) show ?thesis
    by (auto simp: lh_unique_def)
qed

lemma unique_replace:
  assumes "lh_unique cmpf M" and "it \<in># M" and "cmpf (it_data it) x = 0" and "it_data it' = x"
  shows "lh_unique cmpf (add_mset it' (M - {#it#}))"
proof -
  obtain N where N: "M = add_mset it N"
    using assms(2) by (metis insert_DiffM)
  have "matching cmpf y it' \<longleftrightarrow> matching cmpf y it" for y
    using matching_cong [of it' x it] assms(3,4) cmp_refl by simp
  then have "size (filter_mset (matching cmpf y) (add_mset it' N)) = size (filter_mset (matching cmpf y) M)" for y
    unfolding N by simp
  with assms(1) show ?thesis
    unfolding lh_unique_def by (simp only: N add_mset_remove_trivial simp_thms)
qed

text \<open>Insertion.\<close>

lemma insert_cases:
  assumes ok: "lh_ok hash cmpf lh" and ins: "OPENSSL_lh_insert sys hash cmpf lh x = (r, old, lh')"
  shows "(\<exists>it. it \<in># lh_mset lh \<and> matching cmpf x it \<and> r \<and> old = Some (it_data it) \<and>
        lh_mset lh' = add_mset (it\<lparr>it_data := x\<rparr>) (lh_mset lh - {#it#}) \<and> lh_ok hash cmpf lh') \<or>
    (filter_mset (matching cmpf x) (lh_mset lh) = {#} \<and> r \<and> old = None \<and>
        lh_mset lh' = add_mset \<lparr>it_data = x, it_hash = hash x\<rparr> (lh_mset lh) \<and> lh_ok hash cmpf lh') \<or>
    (filter_mset (matching cmpf x) (lh_mset lh) = {#} \<and> \<not> r \<and> old = None \<and> lh' = lh \<and>
        \<not> OPENSSL_malloc sys sizeof_lhash_item)"
proof -
  obtain h i k where p: "get_next_ptr_and_hash hash cmpf lh x = (h, i, k)" by (metis prod_cases3)
  note found = lh_found [OF ok p]
  have placed: "in_place (lh_buckets lh)" "\<forall>it \<in># lh_mset lh. it_hash it = hash (it_data it)"
    and unique: "lh_unique cmpf (lh_mset lh)"
    using ok by (simp_all add: lh_ok_def lh_placed_def)
  have here: "unat (it_hash it) mod num_buckets lh = i" if "it \<in> set (lh_buckets lh ! i)" for it
    using placed(1) found(2) that by (simp add: in_place_def)
  show ?thesis
  proof (cases "item_at lh i k")
    case None
    show ?thesis
    proof (cases "OPENSSL_malloc sys sizeof_lhash_item")
      case False
      with None ins found(4) show ?thesis by (simp add: OPENSSL_lh_insert_def p)
    next
      case True
      let ?it = "\<lparr>it_data = x, it_hash = h\<rparr>"
      let ?lh = "lh\<lparr>lh_buckets := (lh_buckets lh)[i := lh_buckets lh ! i @ [?it]]\<rparr>"
      let ?new = "?lh\<lparr>lh_items := lh_items lh + 1\<rparr>"
      have res: "r" "old = None" "lh' = lh_maybe_resize sys ?new"
        using None True ins by (simp_all add: OPENSSL_lh_insert_def p Let_def)
      have "lh_mset ?lh = add_mset ?it (lh_mset lh)"
        using lh_update_chain [OF found(2)] by (simp add: subset_mset.diff_add)
      then have M: "lh_mset ?new = add_mset ?it (lh_mset lh)"
        by (simp add: lh_mset_def)
      have "in_place ((lh_buckets lh)[i := lh_buckets lh ! i @ [?it]])"
        by (rule in_place_update [OF placed(1)]) (use here found(1,3) in auto)
      then have "in_place (lh_buckets ?new)" by simp
      moreover have "lh_unique cmpf (lh_mset ?new)"
        unfolding M using unique found(4) [OF None] by (intro unique_insert) simp_all
      ultimately have "lh_ok hash cmpf ?new"
        using ok placed(2) M found(1) by (simp add: lh_ok_def lh_placed_def)
      then have "lh_ok hash cmpf lh' \<and> lh_mset lh' = lh_mset ?new"
        unfolding res(3) using lh_maybe_resize_ok lh_maybe_resize_same(1) by (metis lh_ok_def)
      with M res(1,2) found(1) found(4) [OF None] show ?thesis by simp
    qed
  next
    case (Some it)
    from found(6) [OF Some] have k: "k < length (lh_buckets lh ! i)" "lh_buckets lh ! i ! k = it"
      and it: "it \<in># lh_mset lh" "matching cmpf x it" by auto
    let ?chain = "(lh_buckets lh ! i)[k := it\<lparr>it_data := x\<rparr>]"
    have res: "r" "old = Some (it_data it)" "lh' = lh\<lparr>lh_buckets := (lh_buckets lh)[i := ?chain]\<rparr>"
      using Some ins by (simp_all add: OPENSSL_lh_insert_def p)
    have "mset ?chain = add_mset (it\<lparr>it_data := x\<rparr>) (mset (lh_buckets lh ! i) - {#it#})"
      using k mset_update [OF k(1)] by simp
    moreover have "it \<in># mset (lh_buckets lh ! i)"
      using k by auto
    ultimately have M: "lh_mset lh' = add_mset (it\<lparr>it_data := x\<rparr>) (lh_mset lh - {#it#})"
      using lh_update_chain(1) [OF found(2), of ?chain] unfolding res(3)
      using lh_update_chain(2) [OF found(2)] mset_swap_one by metis
    have "hash (it_data it) = hash x"
      using it(2) by (intro cmp_hash) (simp add: matching_def)
    then have hash: "it_hash it = hash x"
      using placed(2) it(1) by simp
    have "unat (it_hash it') mod num_buckets lh = i" if "it' \<in> set ?chain" for it'
      using here k set_update_subset_insert [THEN subsetD, OF that] by auto
    from in_place_update [OF placed(1) this] have "in_place (lh_buckets lh')"
      unfolding res(3) by simp
    moreover have "lh_unique cmpf (lh_mset lh')"
      unfolding M using unique it by (intro unique_replace) (auto simp: matching_def)
    moreover have "lh_items lh' = size (lh_mset lh')"
      using ok size_Suc_Diff1 [OF it(1)] unfolding M by (simp add: lh_ok_def res(3))
    ultimately have "lh_ok hash cmpf lh'"
      using ok placed(2) hash M by (auto simp: lh_ok_def lh_placed_def res(3) dest: in_diffD)
    with it M res(1,2) show ?thesis by blast
  qed
qed

text \<open>Deletion.\<close>

lemma delete_cases:
  assumes ok: "lh_ok hash cmpf lh" and del: "OPENSSL_lh_delete sys hash cmpf lh x = (old, lh')"
  shows "(\<exists>it. it \<in># lh_mset lh \<and> matching cmpf x it \<and> old = Some (it_data it) \<and>
        lh_mset lh' = lh_mset lh - {#it#} \<and> lh_ok hash cmpf lh') \<or>
    (filter_mset (matching cmpf x) (lh_mset lh) = {#} \<and> old = None \<and> lh' = lh)"
proof -
  obtain h i k where p: "get_next_ptr_and_hash hash cmpf lh x = (h, i, k)" by (metis prod_cases3)
  note found = lh_found [OF ok p]
  have placed: "in_place (lh_buckets lh)" "\<forall>it \<in># lh_mset lh. it_hash it = hash (it_data it)"
    and unique: "lh_unique cmpf (lh_mset lh)"
    using ok by (simp_all add: lh_ok_def lh_placed_def)
  show ?thesis
  proof (cases "item_at lh i k")
    case None
    with del found(4) show ?thesis by (simp add: OPENSSL_lh_delete_def p)
  next
    case (Some it)
    from found(6) [OF Some] have k: "k < length (lh_buckets lh ! i)" "lh_buckets lh ! i ! k = it"
      and it: "it \<in># lh_mset lh" "matching cmpf x it" by auto
    let ?chain = "take k (lh_buckets lh ! i) @ drop (k + 1) (lh_buckets lh ! i)"
    let ?lh = "lh\<lparr>lh_buckets := (lh_buckets lh)[i := ?chain]\<rparr>"
    let ?new = "?lh\<lparr>lh_items := lh_items lh - 1\<rparr>"
    have res: "old = Some (it_data it)" "lh' = lh_maybe_resize sys ?new"
      using Some del by (simp_all add: OPENSSL_lh_delete_def p Let_def)
    have "mset (lh_buckets lh ! i) = add_mset it (mset ?chain)"
      by (subst id_take_nth_drop [OF k(1)]) (simp add: k(2))
    then have "mset ?chain = mset (lh_buckets lh ! i) - {#it#}" and "it \<in># mset (lh_buckets lh ! i)"
      by simp_all
    then have "lh_mset ?lh = lh_mset lh - {#it#}"
      using lh_update_chain(1) [OF found(2), of ?chain] lh_update_chain(2) [OF found(2)] mset_drop_one by metis
    then have M: "lh_mset ?new = lh_mset lh - {#it#}"
      by (simp add: lh_mset_def)
    have "unat (it_hash it') mod num_buckets lh = i" if "it' \<in> set ?chain" for it'
      using placed(1) found(2) that by (auto simp: in_place_def dest: in_set_takeD in_set_dropD)
    then have "in_place ((lh_buckets lh)[i := ?chain])"
      by (rule in_place_update [OF placed(1)])
    then have "in_place (lh_buckets ?new)" by simp
    moreover have "lh_unique cmpf (lh_mset lh - {#it#})"
      unfolding lh_unique_def
    proof
      fix y
      have "size (filter_mset (matching cmpf y) (lh_mset lh - {#it#})) \<le> size (filter_mset (matching cmpf y) (lh_mset lh))"
        by (intro size_mset_mono multiset_filter_mono) simp
      also have "\<dots> \<le> 1"
        using unique by (simp add: lh_unique_def)
      finally show "size (filter_mset (matching cmpf y) (lh_mset lh - {#it#})) \<le> 1" .
    qed
    moreover have "lh_items lh - 1 = size (lh_mset lh - {#it#})"
      using ok it(1) by (simp add: lh_ok_def size_Diff_singleton)
    ultimately have "lh_ok hash cmpf ?new"
      using ok placed(2) M by (auto simp: lh_ok_def lh_placed_def dest: in_diffD)
    then have "lh_ok hash cmpf lh' \<and> lh_mset lh' = lh_mset ?new"
      unfolding res(2) using lh_maybe_resize_ok lh_maybe_resize_same(1) by (metis lh_ok_def)
    with it M res(1) show ?thesis by auto
  qed
qed

text \<open>What a lookup finds after each operation.\<close>

lemma retrieve_insert:
  assumes ok: "lh_ok hash cmpf lh" and ins: "OPENSSL_lh_insert sys hash cmpf lh x = (True, old, lh')"
  shows "OPENSSL_lh_retrieve hash cmpf lh' y = (if cmpf x y = 0 then Some x else OPENSSL_lh_retrieve hash cmpf lh y)"
    and "old = OPENSSL_lh_retrieve hash cmpf lh x" and "lh_ok hash cmpf lh'"
proof -
  from insert_cases [OF ok ins] obtain it where
    cases: "(it \<in># lh_mset lh \<and> matching cmpf x it \<and> old = Some (it_data it) \<and>
        lh_mset lh' = add_mset (it\<lparr>it_data := x\<rparr>) (lh_mset lh - {#it#}) \<or>
       filter_mset (matching cmpf x) (lh_mset lh) = {#} \<and> old = None \<and>
        lh_mset lh' = add_mset \<lparr>it_data = x, it_hash = hash x\<rparr> (lh_mset lh)) \<and> lh_ok hash cmpf lh'"
    by blast
  then show ok': "lh_ok hash cmpf lh'" by simp
  have unique: "lh_unique cmpf (lh_mset lh)" "lh_unique cmpf (lh_mset lh')"
    using ok ok' by (simp_all add: lh_ok_def)
  show "old = OPENSSL_lh_retrieve hash cmpf lh x"
    using cases retrieve_Some_iff [OF ok, of x] retrieve_None_iff [OF ok, of x]
    unfolding filter_mset_none by (metis (no_types, lifting))
  show "OPENSSL_lh_retrieve hash cmpf lh' y = (if cmpf x y = 0 then Some x else OPENSSL_lh_retrieve hash cmpf lh y)"
  proof (cases "cmpf x y = 0")
    case True
    have "\<exists>it'. it' \<in># lh_mset lh' \<and> it_data it' = x"
      using cases by auto
    with True show ?thesis
      using retrieve_Some_iff [OF ok', of y x] by (auto simp: matching_def)
  next
    case False
    have "(it' \<in># lh_mset lh' \<and> matching cmpf y it') \<longleftrightarrow> (it' \<in># lh_mset lh \<and> matching cmpf y it')" for it'
      using cases
    proof (elim conjE disjE)
      assume it: "it \<in># lh_mset lh" "matching cmpf x it"
        and M: "lh_mset lh' = add_mset (it\<lparr>it_data := x\<rparr>) (lh_mset lh - {#it#})"
      have "\<not> matching cmpf y it"
        using False it(2) cmp_trans cmp_sym unfolding matching_def by blast
      moreover obtain N where "lh_mset lh = add_mset it N" using it(1) by (metis insert_DiffM)
      ultimately show ?thesis using False M by (auto simp: matching_def)
    next
      assume "lh_mset lh' = add_mset \<lparr>it_data = x, it_hash = hash x\<rparr> (lh_mset lh)"
      with False show ?thesis by (auto simp: matching_def)
    qed
    then have "OPENSSL_lh_retrieve hash cmpf lh' y = Some d \<longleftrightarrow> OPENSSL_lh_retrieve hash cmpf lh y = Some d" for d
      unfolding retrieve_Some_iff [OF ok] retrieve_Some_iff [OF ok'] by metis
    with False show ?thesis by (metis not_None_eq)
  qed
qed

lemma retrieve_delete:
  assumes ok: "lh_ok hash cmpf lh" and del: "OPENSSL_lh_delete sys hash cmpf lh x = (old, lh')"
  shows "OPENSSL_lh_retrieve hash cmpf lh' y = (if cmpf x y = 0 then None else OPENSSL_lh_retrieve hash cmpf lh y)"
    and "old = OPENSSL_lh_retrieve hash cmpf lh x" and "lh_ok hash cmpf lh'"
proof -
  from delete_cases [OF ok del] obtain it where
    cases: "(it \<in># lh_mset lh \<and> matching cmpf x it \<and> old = Some (it_data it) \<and> lh_mset lh' = lh_mset lh - {#it#} \<or>
       filter_mset (matching cmpf x) (lh_mset lh) = {#} \<and> old = None \<and> lh' = lh) \<and> lh_ok hash cmpf lh'"
    using ok by blast
  then show ok': "lh_ok hash cmpf lh'" by simp
  have unique: "lh_unique cmpf (lh_mset lh)"
    using ok by (simp add: lh_ok_def)
  show "old = OPENSSL_lh_retrieve hash cmpf lh x"
    using cases retrieve_Some_iff [OF ok, of x] retrieve_None_iff [OF ok, of x]
    unfolding filter_mset_none by (metis (no_types, lifting))
  have "(it' \<in># lh_mset lh' \<and> matching cmpf y it') \<longleftrightarrow> (cmpf x y \<noteq> 0 \<and> it' \<in># lh_mset lh \<and> matching cmpf y it')" for it'
    using cases
  proof (elim conjE disjE)
    assume it: "it \<in># lh_mset lh" "matching cmpf x it" and M: "lh_mset lh' = lh_mset lh - {#it#}"
    obtain N where N: "lh_mset lh = add_mset it N" using it(1) by (metis insert_DiffM)
    have "matching cmpf y it \<longleftrightarrow> cmpf x y = 0"
      using it(2) cmp_trans cmp_sym unfolding matching_def by blast
    moreover have "\<not> matching cmpf y it'" if "it' \<in># N" "cmpf x y = 0"
    proof
      assume "matching cmpf y it'"
      moreover obtain N' where "N = add_mset it' N'" using \<open>it' \<in># N\<close> by (metis insert_DiffM)
      moreover have "size (filter_mset (matching cmpf y) (lh_mset lh)) \<le> 1"
        using unique by (simp add: lh_unique_def)
      ultimately show False
        using \<open>matching cmpf y it \<longleftrightarrow> cmpf x y = 0\<close> that(2) by (simp add: N)
    qed
    ultimately show ?thesis unfolding M N by auto
  next
    assume "filter_mset (matching cmpf x) (lh_mset lh) = {#}" and "lh' = lh"
    then show ?thesis
      unfolding filter_mset_none matching_def using cmp_trans cmp_sym by blast
  qed
  then have "OPENSSL_lh_retrieve hash cmpf lh' y = Some d \<longleftrightarrow> cmpf x y \<noteq> 0 \<and> OPENSSL_lh_retrieve hash cmpf lh y = Some d" for d
    unfolding retrieve_Some_iff [OF ok] retrieve_Some_iff [OF ok'] by metis
  then show "OPENSSL_lh_retrieve hash cmpf lh' y = (if cmpf x y = 0 then None else OPENSSL_lh_retrieve hash cmpf lh y)"
    by (metis not_None_eq)
qed

text \<open>Iteration visits every item once; what its callback asks to delete is gone at the end.\<close>

lemma doall_items_kept:
  assumes "lh_ok hash cmpf lh" and "mset items \<subseteq># lh_mset lh"
    and "doall_items sys hash cmpf func items lh arg = (lh', arg')"
  shows "lh_ok hash cmpf lh' \<and> lh_callback_depth lh' = lh_callback_depth lh \<and>
    image_mset it_data (lh_mset lh') =
      image_mset it_data (lh_mset lh - mset items) + mset (doall_kept func (map it_data items) arg) \<and>
    arg' = fold (\<lambda>d arg. snd (func d arg)) (map it_data items) arg"
  using assms
proof (induction items arbitrary: lh arg)
  case Nil
  then show ?case by auto
next
  case (Cons cur rest)
  obtain del arg1 where f: "func (it_data cur) arg = (del, arg1)" by fastforce
  have cur: "cur \<in># lh_mset lh" and rest: "mset rest \<subseteq># lh_mset lh - {#cur#}"
    using Cons.prems(2) by (auto simp: insert_subset_eq_iff)
  show ?case
  proof (cases del)
    case False
    have "mset rest \<subseteq># lh_mset lh"
      using rest by (rule subset_mset.order_trans) simp
    from Cons.IH [OF Cons.prems(1) this] Cons.prems(3) f False have
      IH: "lh_ok hash cmpf lh' \<and> lh_callback_depth lh' = lh_callback_depth lh \<and>
        image_mset it_data (lh_mset lh') =
          image_mset it_data (lh_mset lh - mset rest) + mset (doall_kept func (map it_data rest) arg1) \<and>
        arg' = fold (\<lambda>d arg. snd (func d arg)) (map it_data rest) arg1"
      by simp
    obtain N where "lh_mset lh = add_mset cur (mset rest + N)"
      using Cons.prems(2) by (metis mset.simps(2) subset_mset.add_diff_inverse union_mset_add_mset_left)
    with IH f False show ?thesis by simp
  next
    case True
    obtain old lh1 where d: "OPENSSL_lh_delete sys hash cmpf lh (it_data cur) = (old, lh1)" by fastforce
    have match: "matching cmpf (it_data cur) cur" by (simp add: matching_def cmp_refl)
    have unique: "lh_unique cmpf (lh_mset lh)" using Cons.prems(1) by (simp add: lh_ok_def)
    from delete_cases [OF Cons.prems(1) d] match cur obtain it where
      it: "it \<in># lh_mset lh" "matching cmpf (it_data cur) it" "lh_mset lh1 = lh_mset lh - {#it#}" "lh_ok hash cmpf lh1"
      unfolding filter_mset_none by blast
    then have "it = cur"
      using unique_match [OF unique it(1) cur it(2) match] by simp
    with it rest have sub: "mset rest \<subseteq># lh_mset lh1" by simp
    have depth: "lh_callback_depth lh1 = lh_callback_depth lh"
      by (rule delete_depth [OF Cons.prems(1) d])
    from Cons.IH [OF it(4) sub] Cons.prems(3) f True d have
      IH: "lh_ok hash cmpf lh' \<and> lh_callback_depth lh' = lh_callback_depth lh1 \<and>
        image_mset it_data (lh_mset lh') =
          image_mset it_data (lh_mset lh1 - mset rest) + mset (doall_kept func (map it_data rest) arg1) \<and>
        arg' = fold (\<lambda>d arg. snd (func d arg)) (map it_data rest) arg1"
      by simp
    with it(3) \<open>it = cur\<close> f True depth show ?thesis by simp
  qed
qed

end

section \<open>The table behind its interface\<close>

datatype ('m, 'a) table_call = Tbl_insert 'm 'a | Tbl_delete 'm 'a

text \<open>Running calls on a table; the log says which insertions succeeded.\<close>

fun run_table :: "('m \<Rightarrow> 'a \<Rightarrow> 't \<Rightarrow> bool \<times> 'a option \<times> 't) \<Rightarrow> ('m \<Rightarrow> 'a \<Rightarrow> 't \<Rightarrow> 'a option \<times> 't) \<Rightarrow>
    ('m, 'a) table_call list \<Rightarrow> 't \<Rightarrow> bool list \<times> 't" where
  "run_table ins del [] t = ([], t)"
| "run_table ins del (Tbl_insert m x # cs) t =
     (case ins m x t of (r, _, t) \<Rightarrow> case run_table ins del cs t of (log, t) \<Rightarrow> (r # log, t))"
| "run_table ins del (Tbl_delete m x # cs) t =
     (case del m x t of (_, t) \<Rightarrow> case run_table ins del cs t of (log, t) \<Rightarrow> (True # log, t))"

text \<open>What the calls mean: a map from keys to the last object inserted under an equal key.\<close>

fun apply_call :: "('a \<Rightarrow> 'a \<Rightarrow> bool) \<Rightarrow> ('m, 'a) table_call \<times> bool \<Rightarrow> ('a \<rightharpoonup> 'a) \<Rightarrow> ('a \<rightharpoonup> 'a)" where
  "apply_call eq (Tbl_insert m x, r) f = (\<lambda>y. if r \<and> eq x y then Some x else f y)"
| "apply_call eq (Tbl_delete m x, r) f = (\<lambda>y. if eq x y then None else f y)"

locale object_table =
  fixes eq :: "'a \<Rightarrow> 'a \<Rightarrow> bool"
    and lookup :: "'t \<Rightarrow> 'a \<Rightarrow> 'a option"
    and ins :: "'m \<Rightarrow> 'a \<Rightarrow> 't \<Rightarrow> bool \<times> 'a option \<times> 't"
    and del :: "'m \<Rightarrow> 'a \<Rightarrow> 't \<Rightarrow> 'a option \<times> 't"
    and ok :: "'t \<Rightarrow> bool"
  assumes lookup_ins: "ok t \<Longrightarrow> ins m x t = (True, old, t') \<Longrightarrow>
      ok t' \<and> old = lookup t x \<and> lookup t' y = (if eq x y then Some x else lookup t y)"
    and ins_fails: "ok t \<Longrightarrow> ins m x t = (False, old, t') \<Longrightarrow> old = None \<and> t' = t"
    and lookup_del: "ok t \<Longrightarrow> del m x t = (old, t') \<Longrightarrow>
      ok t' \<and> old = lookup t x \<and> lookup t' y = (if eq x y then None else lookup t y)"
begin

lemma run_refines:
  "ok t \<Longrightarrow> run_table ins del cs t = (log, t') \<Longrightarrow>
   ok t' \<and> length log = length cs \<and> lookup t' = fold (apply_call eq) (zip cs log) (lookup t)"
proof (induction cs arbitrary: t log)
  case (Cons c cs)
  show ?case
  proof (cases c)
    case (Tbl_insert m x)
    obtain r old t1 where i: "ins m x t = (r, old, t1)" by (metis prod_cases3)
    obtain log1 where run: "run_table ins del cs t1 = (log1, t')" and log: "log = r # log1"
      using Cons.prems(2) Tbl_insert i by (auto split: prod.splits)
    have "ok t1 \<and> lookup t1 = apply_call eq (c, r) (lookup t)"
    proof (cases r)
      case True
      then show ?thesis
        using lookup_ins [OF Cons.prems(1)] i by (auto simp: Tbl_insert)
    next
      case False
      then show ?thesis
        using ins_fails [OF Cons.prems(1)] i Cons.prems(1) by (auto simp: Tbl_insert)
    qed
    with Cons.IH [OF _ run] log show ?thesis by simp
  next
    case (Tbl_delete m x)
    obtain old t1 where d: "del m x t = (old, t1)" by fastforce
    obtain log1 where run: "run_table ins del cs t1 = (log1, t')" and log: "log = True # log1"
      using Cons.prems(2) Tbl_delete d by (auto split: prod.splits)
    have "ok t1 \<and> lookup t1 = apply_call eq (c, True) (lookup t)"
      using lookup_del [OF Cons.prems(1) d] by (auto simp: Tbl_delete)
    with Cons.IH [OF _ run] log show ?thesis by simp
  qed
qed simp

end

sublocale lhash_functions \<subseteq> table: object_table
  "\<lambda>x y. cmpf x y = 0" "OPENSSL_lh_retrieve hash cmpf" "\<lambda>sys x lh. OPENSSL_lh_insert sys hash cmpf lh x"
  "\<lambda>sys x lh. OPENSSL_lh_delete sys hash cmpf lh x" "lh_ok hash cmpf"
proof
  fix lh m x old lh' y
  assume ok: "lh_ok hash cmpf lh"
  show "OPENSSL_lh_insert m hash cmpf lh x = (True, old, lh') \<Longrightarrow>
      lh_ok hash cmpf lh' \<and> old = OPENSSL_lh_retrieve hash cmpf lh x \<and>
      OPENSSL_lh_retrieve hash cmpf lh' y = (if cmpf x y = 0 then Some x else OPENSSL_lh_retrieve hash cmpf lh y)"
    using retrieve_insert [OF ok] by blast
  show "OPENSSL_lh_insert m hash cmpf lh x = (False, old, lh') \<Longrightarrow> old = None \<and> lh' = lh"
    using insert_cases [OF ok] by blast
  show "OPENSSL_lh_delete m hash cmpf lh x = (old, lh') \<Longrightarrow>
      lh_ok hash cmpf lh' \<and> old = OPENSSL_lh_retrieve hash cmpf lh x \<and>
      OPENSSL_lh_retrieve hash cmpf lh' y = (if cmpf x y = 0 then None else OPENSSL_lh_retrieve hash cmpf lh y)"
    using retrieve_delete [OF ok] by blast
qed

lemma OPENSSL_lh_new_ok:
  assumes "OPENSSL_lh_new sys = Some lh"
  shows "lh_ok hash cmpf lh" and "lh_mset lh = {#}" and "OPENSSL_lh_retrieve hash cmpf lh x = None"
proof -
  have lh: "lh = \<lparr>lh_items = 0, lh_buckets = replicate kMinNumBuckets [], lh_callback_depth = 0\<rparr>"
    using assms by (auto simp: OPENSSL_lh_new_def split: if_splits)
  show M: "lh_mset lh = {#}"
    by (simp add: lh lh_mset_def)
  then show "lh_ok hash cmpf lh"
    by (simp add: lh_ok_def lh_placed_def in_place_def lh_unique_def) (simp add: lh)
  have "unat (hash x) mod kMinNumBuckets < kMinNumBuckets"
    by (simp add: kMinNumBuckets_def)
  then show "OPENSSL_lh_retrieve hash cmpf lh x = None"
    by (simp add: OPENSSL_lh_retrieve_def get_next_ptr_and_hash_def item_at_def lh Let_def)
qed

text \<open>An iteration from the outside: the depth is restored and the table resized once, at the end.\<close>

context lhash_functions
begin

lemma is_object_table:
  "object_table (\<lambda>x y. cmpf x y = 0) (OPENSSL_lh_retrieve hash cmpf) (\<lambda>sys x lh. OPENSSL_lh_insert sys hash cmpf lh x)
    (\<lambda>sys x lh. OPENSSL_lh_delete sys hash cmpf lh x) (lh_ok hash cmpf)"
  by (rule table.object_table_axioms)

lemma doall_arg_kept:
  assumes ok: "lh_ok hash cmpf lh" and depth: "lh_callback_depth lh + 1 < UINT_MAX"
    and run: "OPENSSL_lh_doall_arg sys hash cmpf func lh arg = (lh', arg')"
  shows "lh_ok hash cmpf lh' \<and> lh_callback_depth lh' = lh_callback_depth lh \<and>
    image_mset it_data (lh_mset lh') = mset (doall_kept func (map it_data (concat (lh_buckets lh))) arg) \<and>
    arg' = fold (\<lambda>d arg. snd (func d arg)) (map it_data (concat (lh_buckets lh))) arg"
proof -
  let ?enter = "lh\<lparr>lh_callback_depth := lh_callback_depth lh + 1\<rparr>"
  have M: "lh_mset (lh\<lparr>lh_callback_depth := n\<rparr>) = lh_mset lh" for lh :: "'a lhash_st" and n
    by (simp add: lh_mset_def)
  have ok_depth: "lh_ok hash cmpf (lh\<lparr>lh_callback_depth := n\<rparr>) \<longleftrightarrow> lh_ok hash cmpf lh" for lh :: "'a lhash_st" and n
    by (simp add: lh_ok_def lh_placed_def M)
  obtain lh1 where items: "doall_items sys hash cmpf func (concat (lh_buckets lh)) ?enter arg = (lh1, arg')"
    and lh1: "lh' = lh_maybe_resize sys (if lh_callback_depth lh1 < UINT_MAX
      then lh1\<lparr>lh_callback_depth := lh_callback_depth lh1 - 1\<rparr> else lh1)"
    using run depth by (auto simp: OPENSSL_lh_doall_arg_def Let_def split: prod.splits)
  have "lh_ok hash cmpf ?enter" and "mset (concat (lh_buckets lh)) = lh_mset ?enter"
    using ok by (simp_all only: ok_depth M) (simp add: lh_mset_def)
  from doall_items_kept [OF this(1) _ items] this(2)
  have kept: "lh_ok hash cmpf lh1" "lh_callback_depth lh1 = lh_callback_depth lh + 1"
    "image_mset it_data (lh_mset lh1) = mset (doall_kept func (map it_data (concat (lh_buckets lh))) arg)"
    "arg' = fold (\<lambda>d arg. snd (func d arg)) (map it_data (concat (lh_buckets lh))) arg"
    by simp_all
  let ?leave = "lh1\<lparr>lh_callback_depth := lh_callback_depth lh\<rparr>"
  have lh': "lh' = lh_maybe_resize sys ?leave"
    using lh1 kept(2) depth by simp
  have "lh_ok hash cmpf ?leave" using kept(1) by (simp only: ok_depth)
  then have "lh_ok hash cmpf lh' \<and> lh_mset lh' = lh_mset ?leave \<and> lh_callback_depth lh' = lh_callback_depth ?leave"
    unfolding lh' using lh_maybe_resize_ok lh_maybe_resize_same(1,3) by (metis lh_ok_def)
  with kept show ?thesis by (simp add: M)
qed

end

text \<open>Resizing keeps the average chain below three items while memory lasts.\<close>

definition lh_balanced :: "'a lhash_st \<Rightarrow> bool" where
  "lh_balanced lh \<longleftrightarrow> lh_items lh < 3 * num_buckets lh"

lemma lh_rebucket_resizes:
  assumes "0 < n" and "n < 2 ^ 59"
  shows "num_buckets (lh_rebucket (\<lambda>_. True) lh n) = n"
proof -
  have "size_mul sizeof_item_pointer n = 8 * n"
    using assms(2) by (simp add: sizeof_item_pointer_def size_simps)
  then show ?thesis
    using assms rebucket_fold(1) [of "replicate n []" "concat (lh_buckets lh)"]
    by (simp add: lh_rebucket_def sizeof_item_pointer_def)
qed

lemma lh_maybe_resize_balanced:
  assumes "lh_items lh \<le> 3 * num_buckets lh" and "lh_callback_depth lh = 0"
    and "kMinNumBuckets \<le> num_buckets lh" and "num_buckets lh < 2 ^ 58"
  shows "lh_balanced (lh_maybe_resize (\<lambda>_. True) lh)"
proof -
  let ?n = "num_buckets lh" and ?k = "lh_items lh"
  have n: "0 < ?n" "size_mul ?n 2 = 2 * ?n"
    using assms(3,4) unfolding kMinNumBuckets_def by (linarith, simp add: size_simps)
  have items: "lh_items (lh_maybe_resize (\<lambda>_. True) lh) = ?k"
    by (rule lh_maybe_resize_same(2) [OF assms(3)])
  consider "2 < ?k div ?n" | "?k div ?n \<le> 2" "?k div ?n < 1" "16 < ?n" | "?k div ?n \<le> 2" "\<not> (?k div ?n < 1 \<and> 16 < ?n)"
    by linarith
  then show ?thesis
  proof cases
    case 1
    then have "lh_maybe_resize (\<lambda>_. True) lh = lh_rebucket (\<lambda>_. True) lh (2 * ?n)"
      using assms(2) n by (simp add: lh_maybe_resize_def Let_def kMaxAverageChainLength_def)
    then have "num_buckets (lh_maybe_resize (\<lambda>_. True) lh) = 2 * ?n"
      using lh_rebucket_resizes [of "2 * ?n" lh] n(1) assms(4) by simp
    with items assms(1) n(1) show ?thesis unfolding lh_balanced_def by linarith
  next
    case 2
    define m where "m = (if ?n div 2 < 16 then 16 else ?n div 2)"
    have resize: "lh_maybe_resize (\<lambda>_. True) lh = lh_rebucket (\<lambda>_. True) lh m"
      using 2 assms(2) by (simp add: lh_maybe_resize_def Let_def kMaxAverageChainLength_def kMinAverageChainLength_def
          kMinNumBuckets_def m_def)
    have "?k < ?n"
      using 2(2) div_less_iff_less_mult [OF n(1), of ?k 1] by (simp only: mult_1)
    moreover have "?n < 3 * m"
    proof (cases "?n div 2 < 16")
      case True
      then have "?n < 48" by linarith
      with True show ?thesis by (simp add: m_def)
    next
      case False
      then have "?n < 3 * (?n div 2)" by linarith
      with False show ?thesis by (simp add: m_def)
    qed
    moreover have m: "0 < m" "m < 2 ^ 59"
      using assms(4) le_less_trans [OF div_le_dividend [of ?n 2] assms(4)] by (simp_all add: m_def)
    ultimately have "?k < 3 * m" by simp
    show ?thesis
      unfolding lh_balanced_def items unfolding resize lh_rebucket_resizes [OF m] by fact
  next
    case 3
    then have "lh_maybe_resize (\<lambda>_. True) lh = lh"
      using assms(2) by (auto simp: lh_maybe_resize_def Let_def kMaxAverageChainLength_def kMinAverageChainLength_def
          kMinNumBuckets_def)
    moreover have "?k < 3 * ?n"
      using 3(1) n(1) by (metis div_less_iff_less_mult le_imp_less_Suc numeral_3_eq_3 numeral_2_eq_2)
    ultimately show ?thesis by (simp add: lh_balanced_def)
  qed
qed

lemma insert_balanced:
  assumes ok: "lh_ok hash cmpf lh" and bal: "lh_balanced lh" and depth: "lh_callback_depth lh = 0"
    and small: "num_buckets lh < 2 ^ 58" and ins: "OPENSSL_lh_insert (\<lambda>_. True) hash cmpf lh x = (r, old, lh')"
  shows "lh_balanced lh'"
proof -
  obtain h i k where p: "get_next_ptr_and_hash hash cmpf lh x = (h, i, k)" by (metis prod_cases3)
  have min: "kMinNumBuckets \<le> num_buckets lh" using ok by (simp add: lh_ok_def)
  show ?thesis
  proof (cases "item_at lh i k")
    case (Some it)
    with ins bal show ?thesis by (auto simp: OPENSSL_lh_insert_def p lh_balanced_def)
  next
    case None
    let ?lh = "lh\<lparr>lh_buckets := (lh_buckets lh)[i := lh_buckets lh ! i @ [\<lparr>it_data = x, it_hash = h\<rparr>]],
      lh_items := lh_items lh + 1\<rparr>"
    have "lh' = lh_maybe_resize (\<lambda>_. True) ?lh"
      using None ins by (simp add: OPENSSL_lh_insert_def p Let_def sizeof_lhash_item_def)
    with lh_maybe_resize_balanced [of ?lh] bal depth small min show ?thesis
      by (simp add: lh_balanced_def)
  qed
qed

lemma delete_balanced:
  assumes ok: "lh_ok hash cmpf lh" and bal: "lh_balanced lh" and depth: "lh_callback_depth lh = 0"
    and small: "num_buckets lh < 2 ^ 58" and del: "OPENSSL_lh_delete (\<lambda>_. True) hash cmpf lh x = (old, lh')"
  shows "lh_balanced lh'"
proof -
  obtain h i k where p: "get_next_ptr_and_hash hash cmpf lh x = (h, i, k)" by (metis prod_cases3)
  have min: "kMinNumBuckets \<le> num_buckets lh" using ok by (simp add: lh_ok_def)
  show ?thesis
  proof (cases "item_at lh i k")
    case None
    with del bal show ?thesis by (auto simp: OPENSSL_lh_delete_def p)
  next
    case (Some it)
    let ?lh = "lh\<lparr>lh_buckets := (lh_buckets lh)[i := take k (lh_buckets lh ! i) @ drop (k + 1) (lh_buckets lh ! i)],
      lh_items := lh_items lh - 1\<rparr>"
    have "lh' = lh_maybe_resize (\<lambda>_. True) ?lh"
      using Some del by (simp add: OPENSSL_lh_delete_def p Let_def)
    with lh_maybe_resize_balanced [of ?lh] bal depth small min show ?thesis
      by (simp add: lh_balanced_def)
  qed
qed

section \<open>Properties\<close>

text \<open>
  C27: The hash table is a map: after any sequence of insertions and deletions, with memory
  failing at any of them and the buckets resized whenever the code does, every lookup finds the object last
  inserted under an equal key and not deleted since, and the table is well formed.
\<close>

theorem lhash_refines_map:
  assumes "lhash_functions hash cmpf" and "OPENSSL_lh_new sys = Some lh0"
    and "run_table (\<lambda>sys x lh. OPENSSL_lh_insert sys hash cmpf lh x) (\<lambda>sys x lh. OPENSSL_lh_delete sys hash cmpf lh x) cs lh0 = (log, lh)"
  shows "OPENSSL_lh_retrieve hash cmpf lh = fold (apply_call (\<lambda>x y. cmpf x y = 0)) (zip cs log) Map.empty \<and> lh_ok hash cmpf lh"
proof -
  have "OPENSSL_lh_retrieve hash cmpf lh0 = Map.empty"
    using OPENSSL_lh_new_ok(3) [OF assms(2)] by (rule ext)
  with object_table.run_refines [OF lhash_functions.is_object_table [OF assms(1)] OPENSSL_lh_new_ok(1) [OF assms(2)] assms(3)]
  show ?thesis by simp
qed

text \<open>Numbers as keys, for the examples.\<close>

definition number_hash :: "nat \<Rightarrow> u32" where
  "number_hash n = word_of_nat (n mod 3)"

definition number_differs :: "nat \<Rightarrow> nat \<Rightarrow> int" where
  "number_differs a b = (if a mod 10 = b mod 10 \<and> a mod 3 = b mod 3 then 0 else 1)"

lemma number_functions: "lhash_functions number_hash number_differs"
  by unfold_locales (auto simp: number_hash_def number_differs_def split: if_splits)

theorem lhash_refines_map_witness:
  "\<exists>lh0 lh log. OPENSSL_lh_new (\<lambda>_. True) = Some lh0 \<and>
    run_table (\<lambda>sys x lh. OPENSSL_lh_insert sys number_hash number_differs lh x)
      (\<lambda>sys x lh. OPENSSL_lh_delete sys number_hash number_differs lh x)
      [Tbl_insert (\<lambda>_. True) 4, Tbl_insert (\<lambda>_. True) 7, Tbl_insert (\<lambda>_. True) 34, Tbl_delete (\<lambda>_. True) 7] lh0 = (log, lh) \<and>
    OPENSSL_lh_retrieve number_hash number_differs lh 4 = Some 34 \<and>
    OPENSSL_lh_retrieve number_hash number_differs lh 7 = None"
proof -
  let ?ins = "\<lambda>sys x lh. OPENSSL_lh_insert sys number_hash number_differs lh x"
  let ?del = "\<lambda>sys x lh. OPENSSL_lh_delete sys number_hash number_differs lh x"
  let ?cs = "[Tbl_insert (\<lambda>_. True) 4, Tbl_insert (\<lambda>_. True) 7, Tbl_insert (\<lambda>_. True) 34, Tbl_delete (\<lambda>_. True) 7]"
  let ?lh0 = "the (OPENSSL_lh_new (\<lambda>_. True)) :: nat lhash_st"
  have new: "OPENSSL_lh_new (\<lambda>_. True) = Some ?lh0"
    by (simp add: OPENSSL_lh_new_def sizeof_lhash_st_def sizeof_item_pointer_def kMinNumBuckets_def)
  have "fst (run_table ?ins ?del ?cs ?lh0) = [True, True, True, True]"
    by (simp add: OPENSSL_lh_new_def sizeof_lhash_st_def sizeof_item_pointer_def kMinNumBuckets_def
        OPENSSL_lh_insert_def OPENSSL_lh_delete_def get_next_ptr_and_hash_def item_at_def number_hash_def number_differs_def
        sizeof_lhash_item_def lh_maybe_resize_def kMaxAverageChainLength_def kMinAverageChainLength_def Let_def)
  then obtain lh where run: "run_table ?ins ?del ?cs ?lh0 = ([True, True, True, True], lh)"
    by (metis prod.collapse)
  from lhash_refines_map [OF number_functions new run] new run show ?thesis
    by (intro exI [of _ ?lh0] exI [of _ lh] exI [of _ "[True, True, True, True]"]) (simp add: number_differs_def)
qed

text \<open>
  An iteration gives every object in the table to the callback exactly once, in the order of the
  chains, passing its argument along; afterwards the table holds the objects the callback did not ask to
  delete, is well formed, and the nesting depth is what it was.
\<close>

lemma lh_doall_arg_correct:
  assumes "lhash_functions hash cmpf" and "lh_ok hash cmpf lh" and "lh_callback_depth lh + 1 < UINT_MAX"
    and "OPENSSL_lh_doall_arg sys hash cmpf func lh arg = (lh', arg')"
  shows "arg' = fold (\<lambda>d arg. snd (func d arg)) (map it_data (concat (lh_buckets lh))) arg \<and>
    image_mset it_data (lh_mset lh') = mset (doall_kept func (map it_data (concat (lh_buckets lh))) arg) \<and>
    lh_ok hash cmpf lh' \<and> lh_callback_depth lh' = lh_callback_depth lh"
  using lhash_functions.doall_arg_kept [OF assms] by blast

lemma lh_doall_arg_correct_witness:
  "\<exists>lh :: nat lhash_st. OPENSSL_lh_doall_arg (\<lambda>_. True) number_hash number_differs (\<lambda>d sum. (True, d + sum)) lh 1 = (lh, 1)"
proof -
  let ?lh = "\<lparr>lh_items = 0, lh_buckets = replicate 16 [], lh_callback_depth = 0\<rparr> :: nat lhash_st"
  have ok: "lh_ok number_hash number_differs ?lh"
    by (rule OPENSSL_lh_new_ok(1) [of "\<lambda>_. True"])
      (simp add: OPENSSL_lh_new_def sizeof_lhash_st_def sizeof_item_pointer_def kMinNumBuckets_def)
  obtain lh' arg' where run: "OPENSSL_lh_doall_arg (\<lambda>_. True) number_hash number_differs (\<lambda>d sum. (True, d + sum)) ?lh 1 = (lh', arg')"
    by fastforce
  have "arg' = 1"
    using lh_doall_arg_correct [OF number_functions ok _ run] by (simp add: UINT_MAX_def)
  moreover have "lh' = ?lh"
    using run by (auto simp: OPENSSL_lh_doall_arg_def UINT_MAX_def lh_maybe_resize_def Let_def kMaxAverageChainLength_def
        kMinNumBuckets_def)
  ultimately show ?thesis using run by blast
qed

text \<open>
  Chains stay short: while memory lasts and no iteration is running, an insertion into a table with
  fewer than three items a bucket on average leaves it so, the buckets being doubled in time.
\<close>

lemma lh_insert_keeps_balance:
  assumes "lh_ok hash cmpf lh" and "lh_balanced lh" and "lh_callback_depth lh = 0" and "num_buckets lh < 2 ^ 58"
    and "OPENSSL_lh_insert (\<lambda>_. True) hash cmpf lh x = (r, old, lh')"
  shows "lh_balanced lh'"
  using assms by (rule insert_balanced)

lemma lh_insert_keeps_balance_witness:
  "lh_balanced (snd (snd (OPENSSL_lh_insert (\<lambda>_. True) number_hash number_differs
     \<lparr>lh_items = 0, lh_buckets = replicate 16 [], lh_callback_depth = 0\<rparr> 5)))"
proof -
  let ?lh = "\<lparr>lh_items = 0, lh_buckets = replicate 16 [], lh_callback_depth = 0\<rparr> :: nat lhash_st"
  have ok: "lh_ok number_hash number_differs ?lh"
    by (rule OPENSSL_lh_new_ok(1) [of "\<lambda>_. True"])
      (simp add: OPENSSL_lh_new_def sizeof_lhash_st_def sizeof_item_pointer_def kMinNumBuckets_def)
  obtain r old lh' where i: "OPENSSL_lh_insert (\<lambda>_. True) number_hash number_differs ?lh 5 = (r, old, lh')"
    by (metis prod_cases3)
  from lh_insert_keeps_balance [OF ok _ _ _ i] i show ?thesis by (simp add: lh_balanced_def)
qed

end
