(* ===== verification/Pool.thy ===== *)
theory Pool
  imports Lhash Cbs
begin

text \<open>
  \<open>crypto/pool/pool.c\<close> with the reference counts of \<open>crypto/refcount_lock.c\<close>: buffers shared through
  a pool. The fields of a buffer that never change are the record \<open>crypto_buffer\<close>, its address
  among them; the reference counts, which do, are a map from the addresses of the live
  objects. A region the pool's lock protects is one step, and steps of several threads interleave.
\<close>

section \<open>Reference counts\<close>

definition CRYPTO_REFCOUNT_MAX :: u32 where
  "CRYPTO_REFCOUNT_MAX = 0xffffffff"

definition CRYPTO_refcount_inc :: "u32 \<Rightarrow> u32" where
  "CRYPTO_refcount_inc cnt = (if cnt < CRYPTO_REFCOUNT_MAX then cnt + 1 else cnt)"

text \<open>\<open>None\<close> is \<open>abort\<close>.\<close>

definition CRYPTO_refcount_dec_and_test_zero :: "u32 \<Rightarrow> (bool \<times> u32) option" where
  "CRYPTO_refcount_dec_and_test_zero cnt =
     (if cnt = 0 then None
      else let cnt = (if cnt < CRYPTO_REFCOUNT_MAX then cnt - 1 else cnt) in Some (cnt = 0, cnt))"

section \<open>Buffers and the pool\<close>

record crypto_buffer =
  cb_addr :: nat
  cb_data :: "u8 list"
  cb_data_is_static :: bool
  cb_in_pool :: bool

record crypto_buffer_pool =
  pl_bufs :: "crypto_buffer lhash_st"
  pl_references :: "nat \<rightharpoonup> u32"

definition sizeof_CRYPTO_BUFFER :: nat where "sizeof_CRYPTO_BUFFER = 40"
definition sizeof_CRYPTO_BUFFER_POOL :: nat where "sizeof_CRYPTO_BUFFER_POOL = 64"

definition CRYPTO_BUFFER_hash :: "crypto_buffer \<Rightarrow> u32" where
  "CRYPTO_BUFFER_hash buf = OPENSSL_hash32 (cb_data buf) (length (cb_data buf))"

definition CRYPTO_BUFFER_cmp :: "crypto_buffer \<Rightarrow> crypto_buffer \<Rightarrow> int" where
  "CRYPTO_BUFFER_cmp a b =
     (if length (cb_data a) \<noteq> length (cb_data b) then 1
      else OPENSSL_memcmp (cb_data a) (cb_data b) (length (cb_data a)))"

definition CRYPTO_BUFFER_POOL_new :: "(nat \<Rightarrow> bool) \<Rightarrow> crypto_buffer_pool option" where
  "CRYPTO_BUFFER_POOL_new sys =
     (if \<not> OPENSSL_malloc sys sizeof_CRYPTO_BUFFER_POOL then None
      else map_option (\<lambda>lh. \<lparr>pl_bufs = lh, pl_references = Map.empty\<rparr>) (OPENSSL_lh_new sys))"

definition crypto_buffer_free_object :: "crypto_buffer \<Rightarrow> crypto_buffer_pool \<Rightarrow> crypto_buffer_pool" where
  "crypto_buffer_free_object buf pool = pool\<lparr>pl_references := (pl_references pool)(cb_addr buf := None)\<rparr>"

definition refcount_inc :: "crypto_buffer \<Rightarrow> crypto_buffer_pool \<Rightarrow> crypto_buffer_pool" where
  "refcount_inc buf pool =
     pool\<lparr>pl_references := (pl_references pool)(cb_addr buf := map_option CRYPTO_refcount_inc (pl_references pool (cb_addr buf)))\<rparr>"

text \<open>The buffer in the pool with the same contents, unless a static one is to take its place.\<close>

definition pool_duplicate :: "u8 list \<Rightarrow> bool \<Rightarrow> crypto_buffer_pool \<Rightarrow> crypto_buffer option" where
  "pool_duplicate data data_is_static pool =
     (let tmp = \<lparr>cb_addr = 0, cb_data = data, cb_data_is_static = False, cb_in_pool = False\<rparr> in
      case OPENSSL_lh_retrieve CRYPTO_BUFFER_hash CRYPTO_BUFFER_cmp (pl_bufs pool) tmp of
        None \<Rightarrow> None
      | Some duplicate \<Rightarrow> if data_is_static \<and> \<not> cb_data_is_static duplicate then None else Some duplicate)"

text \<open>The first locked region of \<open>crypto_buffer_new\<close>.\<close>

definition crypto_buffer_lookup :: "u8 list \<Rightarrow> bool \<Rightarrow> crypto_buffer_pool \<Rightarrow>
    crypto_buffer option \<times> crypto_buffer_pool" where
  "crypto_buffer_lookup data data_is_static pool =
     (case pool_duplicate data data_is_static pool of
        None \<Rightarrow> (None, pool)
      | Some duplicate \<Rightarrow> (Some duplicate, refcount_inc duplicate pool))"

text \<open>A new object, at the address the allocator gives.\<close>

definition crypto_buffer_object :: "(nat \<Rightarrow> bool) \<Rightarrow> nat \<Rightarrow> u8 list \<Rightarrow> bool \<Rightarrow> bool \<Rightarrow> crypto_buffer_pool \<Rightarrow>
    crypto_buffer option \<times> crypto_buffer_pool" where
  "crypto_buffer_object sys addr data data_is_static in_pool pool =
     (if \<not> OPENSSL_malloc sys sizeof_CRYPTO_BUFFER then (None, pool)
      else if \<not> data_is_static \<and> length data \<noteq> 0 \<and> OPENSSL_memdup sys data (length data) = None then (None, pool)
      else
       let buf = \<lparr>cb_addr = addr, cb_data = data, cb_data_is_static = data_is_static, cb_in_pool = in_pool\<rparr>
       in (Some buf, pool\<lparr>pl_references := (pl_references pool)(addr \<mapsto> 1)\<rparr>))"

text \<open>The second locked region, and what follows it.\<close>

definition crypto_buffer_insert :: "(nat \<Rightarrow> bool) \<Rightarrow> crypto_buffer \<Rightarrow> crypto_buffer_pool \<Rightarrow>
    crypto_buffer option \<times> crypto_buffer_pool" where
  "crypto_buffer_insert sys buf pool =
     (let duplicate = pool_duplicate (cb_data buf) (cb_data_is_static buf) pool;
          (inserted, pool) =
            (case duplicate of
               None \<Rightarrow>
                (case OPENSSL_lh_insert sys CRYPTO_BUFFER_hash CRYPTO_BUFFER_cmp (pl_bufs pool) buf of
                   (r, old, bufs) \<Rightarrow> (r, pool\<lparr>pl_bufs := bufs\<rparr>))
             | Some dup \<Rightarrow> (False, refcount_inc dup pool)) in
      if \<not> inserted then (duplicate, crypto_buffer_free_object buf pool) else (Some buf, pool))"

definition crypto_buffer_new :: "(nat \<Rightarrow> bool) \<Rightarrow> nat \<Rightarrow> u8 list \<Rightarrow> bool \<Rightarrow> bool \<Rightarrow> crypto_buffer_pool \<Rightarrow>
    crypto_buffer option \<times> crypto_buffer_pool" where
  "crypto_buffer_new sys addr data data_is_static in_pool pool =
     (case (if in_pool then crypto_buffer_lookup data data_is_static pool else (None, pool)) of
        (Some duplicate, pool) \<Rightarrow> (Some duplicate, pool)
      | (None, pool) \<Rightarrow>
         (case crypto_buffer_object sys addr data data_is_static in_pool pool of
            (None, pool) \<Rightarrow> (None, pool)
          | (Some buf, pool) \<Rightarrow> if \<not> in_pool then (Some buf, pool) else crypto_buffer_insert sys buf pool))"

definition CRYPTO_BUFFER_new :: "(nat \<Rightarrow> bool) \<Rightarrow> nat \<Rightarrow> u8 list \<Rightarrow> bool \<Rightarrow> crypto_buffer_pool \<Rightarrow>
    crypto_buffer option \<times> crypto_buffer_pool" where
  "CRYPTO_BUFFER_new sys addr data in_pool pool = crypto_buffer_new sys addr data False in_pool pool"

definition CRYPTO_BUFFER_new_from_CBS :: "(nat \<Rightarrow> bool) \<Rightarrow> nat \<Rightarrow> cbs \<Rightarrow> bool \<Rightarrow> crypto_buffer_pool \<Rightarrow>
    crypto_buffer option \<times> crypto_buffer_pool" where
  "CRYPTO_BUFFER_new_from_CBS sys addr s in_pool pool = CRYPTO_BUFFER_new sys addr (take (CBS_len s) (CBS_data s)) in_pool pool"

definition CRYPTO_BUFFER_new_from_static_data_unsafe :: "(nat \<Rightarrow> bool) \<Rightarrow> nat \<Rightarrow> u8 list \<Rightarrow> bool \<Rightarrow> crypto_buffer_pool \<Rightarrow>
    crypto_buffer option \<times> crypto_buffer_pool" where
  "CRYPTO_BUFFER_new_from_static_data_unsafe sys addr data in_pool pool = crypto_buffer_new sys addr data True in_pool pool"

text \<open>An unpooled buffer the caller fills; \<open>written\<close> is what it writes before any other use.\<close>

definition CRYPTO_BUFFER_alloc :: "(nat \<Rightarrow> bool) \<Rightarrow> nat \<Rightarrow> u8 list \<Rightarrow> crypto_buffer_pool \<Rightarrow>
    crypto_buffer option \<times> crypto_buffer_pool" where
  "CRYPTO_BUFFER_alloc sys addr written pool =
     (if \<not> OPENSSL_malloc sys sizeof_CRYPTO_BUFFER then (None, pool)
      else if length written \<noteq> 0 \<and> \<not> OPENSSL_malloc sys (length written) then (None, pool)
      else (Some \<lparr>cb_addr = addr, cb_data = written, cb_data_is_static = False, cb_in_pool = False\<rparr>,
            pool\<lparr>pl_references := (pl_references pool)(addr \<mapsto> 1)\<rparr>))"

text \<open>\<open>None\<close> is the \<open>abort\<close> of an object whose count is zero already, or that is no object any more.\<close>

definition CRYPTO_BUFFER_free :: "(nat \<Rightarrow> bool) \<Rightarrow> crypto_buffer \<Rightarrow> crypto_buffer_pool \<Rightarrow> crypto_buffer_pool option" where
  "CRYPTO_BUFFER_free sys buf pool =
     (case Option.bind (pl_references pool (cb_addr buf)) CRYPTO_refcount_dec_and_test_zero of
        None \<Rightarrow> None
      | Some (zero, cnt) \<Rightarrow>
         (let pool = pool\<lparr>pl_references := (pl_references pool)(cb_addr buf \<mapsto> cnt)\<rparr> in
          if \<not> zero then Some pool
          else if \<not> cb_in_pool buf then Some (crypto_buffer_free_object buf pool)
          else
           let found = OPENSSL_lh_retrieve CRYPTO_BUFFER_hash CRYPTO_BUFFER_cmp (pl_bufs pool) buf;
               pool = (if map_option cb_addr found = Some (cb_addr buf)
                       then pool\<lparr>pl_bufs := snd (OPENSSL_lh_delete sys CRYPTO_BUFFER_hash CRYPTO_BUFFER_cmp (pl_bufs pool) buf)\<rparr>
                       else pool)
           in Some (crypto_buffer_free_object buf pool)))"

definition CRYPTO_BUFFER_up_ref :: "crypto_buffer \<Rightarrow> crypto_buffer_pool \<Rightarrow> crypto_buffer_pool" where
  "CRYPTO_BUFFER_up_ref buf pool = refcount_inc buf pool"

definition CRYPTO_BUFFER_data :: "crypto_buffer \<Rightarrow> u8 list" where
  "CRYPTO_BUFFER_data buf = cb_data buf"

definition CRYPTO_BUFFER_len :: "crypto_buffer \<Rightarrow> nat" where
  "CRYPTO_BUFFER_len buf = length (cb_data buf)"

definition CRYPTO_BUFFER_init_CBS :: "crypto_buffer \<Rightarrow> cbs" where
  "CRYPTO_BUFFER_init_CBS buf = CBS_init (cb_data buf) (length (cb_data buf))"

section \<open>The pool's hash and comparison\<close>

lemma CRYPTO_BUFFER_cmp_0 [simp]: "CRYPTO_BUFFER_cmp a b = 0 \<longleftrightarrow> cb_data a = cb_data b"
  by (auto simp: CRYPTO_BUFFER_cmp_def OPENSSL_memcmp_eq_0)

interpretation buffer_table: lhash_functions CRYPTO_BUFFER_hash CRYPTO_BUFFER_cmp
  by unfold_locales (auto simp: CRYPTO_BUFFER_hash_def)

section \<open>Threads sharing a pool\<close>

text \<open>
  The references clients hold are a multiset, and so are the objects a thread in
  \<open>crypto_buffer_new\<close> has made and not yet offered to the pool. Each step is one atomic
  region of some thread; memory may fail in any of them, and addresses of freed objects may come back.
\<close>

type_synonym pool_system = "crypto_buffer_pool \<times> crypto_buffer multiset \<times> crypto_buffer multiset"

inductive pool_step :: "pool_system \<Rightarrow> pool_system \<Rightarrow> bool" where
  lookup: "crypto_buffer_lookup data data_is_static p = (Some d, p') \<Longrightarrow> pool_step (p, H, P) (p', add_mset d H, P)"
| object_pooled: "pl_references p addr = None \<Longrightarrow>
    crypto_buffer_object sys addr data data_is_static True p = (Some buf, p') \<Longrightarrow>
    pool_step (p, H, P) (p', H, add_mset buf P)"
| object_alone: "pl_references p addr = None \<Longrightarrow>
    crypto_buffer_object sys addr data data_is_static False p = (Some buf, p') \<Longrightarrow>
    pool_step (p, H, P) (p', add_mset buf H, P)"
| insert_found: "buf \<in># P \<Longrightarrow> crypto_buffer_insert sys buf p = (Some d, p') \<Longrightarrow>
    pool_step (p, H, P) (p', add_mset d H, P - {#buf#})"
| insert_failed: "buf \<in># P \<Longrightarrow> crypto_buffer_insert sys buf p = (None, p') \<Longrightarrow>
    pool_step (p, H, P) (p', H, P - {#buf#})"
| up_ref: "buf \<in># H \<Longrightarrow> pool_step (p, H, P) (CRYPTO_BUFFER_up_ref buf p, add_mset buf H, P)"
| free: "buf \<in># H \<Longrightarrow> CRYPTO_BUFFER_free sys buf p = Some p' \<Longrightarrow> pool_step (p, H, P) (p', H - {#buf#}, P)"

inductive pool_reachable :: "pool_system \<Rightarrow> bool" where
  new: "CRYPTO_BUFFER_POOL_new sys = Some p \<Longrightarrow> pool_reachable (p, {#}, {#})"
| step: "pool_reachable s \<Longrightarrow> pool_step s s' \<Longrightarrow> pool_reachable s'"

section \<open>Invariant\<close>

definition pool_items :: "crypto_buffer_pool \<Rightarrow> crypto_buffer set" where
  "pool_items p = it_data ` set_mset (lh_mset (pl_bufs p))"

abbreviation buffers_ok :: "crypto_buffer lhash_st \<Rightarrow> bool" where
  "buffers_ok \<equiv> lh_ok CRYPTO_BUFFER_hash CRYPTO_BUFFER_cmp"

definition refs_held :: "crypto_buffer multiset \<Rightarrow> nat \<Rightarrow> nat" where
  "refs_held M a = size (filter_mset (\<lambda>b. cb_addr b = a) M)"

definition alive :: "crypto_buffer_pool \<Rightarrow> crypto_buffer \<Rightarrow> bool" where
  "alive p b \<longleftrightarrow> pl_references p (cb_addr b) \<noteq> None"

definition known :: "crypto_buffer_pool \<Rightarrow> crypto_buffer multiset \<Rightarrow> crypto_buffer set" where
  "known p M = pool_items p \<union> set_mset M"

definition counts_ok :: "crypto_buffer_pool \<Rightarrow> crypto_buffer multiset \<Rightarrow> bool" where
  "counts_ok p M \<longleftrightarrow> (\<forall>a r. pl_references p a = Some r \<longrightarrow>
     r \<noteq> 0 \<and> (r = CRYPTO_REFCOUNT_MAX \<or> unat r = refs_held M a))"

definition pool_inv :: "pool_system \<Rightarrow> bool" where
  "pool_inv s = (case s of (p, H, P) \<Rightarrow>
     buffers_ok (pl_bufs p) \<and> (\<forall>b \<in> pool_items p. cb_in_pool b) \<and> (\<forall>b \<in> known p (H + P). alive p b) \<and>
     (\<forall>a \<in> known p (H + P). \<forall>b \<in> known p (H + P). cb_addr a = cb_addr b \<longrightarrow> a = b) \<and>
     counts_ok p (H + P) \<and>
     (\<forall>b \<in># P. cb_in_pool b \<and> pl_references p (cb_addr b) = Some 1 \<and> b \<notin> pool_items p))"

lemma pool_invD:
  assumes "pool_inv (p, H, P)"
  shows "buffers_ok (pl_bufs p)" and "b \<in> pool_items p \<Longrightarrow> cb_in_pool b" and "b \<in> known p (H + P) \<Longrightarrow> alive p b"
    and "a \<in> known p (H + P) \<Longrightarrow> b \<in> known p (H + P) \<Longrightarrow> cb_addr a = cb_addr b \<Longrightarrow> a = b"
    and "pl_references p x = Some r \<Longrightarrow> r \<noteq> 0 \<and> (r = CRYPTO_REFCOUNT_MAX \<or> unat r = refs_held (H + P) x)"
    and "b \<in># P \<Longrightarrow> cb_in_pool b \<and> pl_references p (cb_addr b) = Some 1 \<and> b \<notin> pool_items p"
  using assms by (simp_all add: pool_inv_def counts_ok_def)

lemma refs_held_simps [simp]:
  "refs_held {#} a = 0" "refs_held (M + N) a = refs_held M a + refs_held N a"
  "refs_held (add_mset b M) a = (if cb_addr b = a then Suc (refs_held M a) else refs_held M a)"
  by (simp_all add: refs_held_def)

lemma refs_held_0: "refs_held M a = 0 \<longleftrightarrow> (\<forall>b. b \<in># M \<longrightarrow> cb_addr b \<noteq> a)"
  by (induction M) auto

text \<open>An object a thread is about to offer to the pool has that one reference.\<close>

lemma pending_once:
  assumes inv: "pool_inv (p, H, P)" and b: "b \<in># P"
  shows "refs_held (H + P) (cb_addr b) = 1" and "b \<notin># H"
proof -
  from pool_invD(6) [OF inv b] have "pl_references p (cb_addr b) = Some 1" by simp
  from pool_invD(5) [OF inv this] show "refs_held (H + P) (cb_addr b) = 1"
    by (auto simp: CRYPTO_REFCOUNT_MAX_def)
  then have one: "refs_held H (cb_addr b) + refs_held P (cb_addr b) = 1" by simp
  obtain P' where "P = add_mset b P'" using b by (metis insert_DiffM)
  with one have "refs_held H (cb_addr b) = 0" by simp
  then show "b \<notin># H" by (auto simp: refs_held_0)
qed

lemma inv_inc:
  assumes inv: "pool_inv (p, H, P)" and d: "d \<in> known p (H + P)" and pend: "d \<notin># P"
  shows "pool_inv (refcount_inc d p, add_mset d H, P)"
proof -
  obtain r where r: "pl_references p (cb_addr d) = Some r"
    using pool_invD(3) [OF inv d] by (auto simp: alive_def)
  let ?r = "CRYPTO_refcount_inc r" and ?p = "refcount_inc d p"
  have refs: "pl_references ?p = (pl_references p)(cb_addr d \<mapsto> ?r)" and bufs: "pl_bufs ?p = pl_bufs p"
    by (simp_all add: refcount_inc_def r)
  have items: "pool_items ?p = pool_items p" by (simp add: pool_items_def bufs)
  have known: "known ?p (add_mset d H + P) = known p (H + P)"
    using d by (auto simp: known_def items)
  have rr: "?r \<noteq> 0 \<and> (?r = CRYPTO_REFCOUNT_MAX \<or> unat ?r = Suc (refs_held (H + P) (cb_addr d)))"
  proof (cases "r < CRYPTO_REFCOUNT_MAX")
    case True
    then have "unat (r + 1) = unat r + 1"
      by (intro unat_plus_simple [THEN iffD1, THEN trans]) (auto simp: CRYPTO_REFCOUNT_MAX_def word_le_nat_alt unat_word_ariths word_less_nat_alt)
    with True pool_invD(5) [OF inv r] show ?thesis
      by (auto simp: CRYPTO_refcount_inc_def)
  next
    case False
    then have "r = CRYPTO_REFCOUNT_MAX"
      using word_le_nat_alt [of r CRYPTO_REFCOUNT_MAX] unat_u32_less [of r]
      by (auto simp: CRYPTO_REFCOUNT_MAX_def not_less word_le_nat_alt word_unat_eq_iff)
    then show ?thesis by (simp add: CRYPTO_refcount_inc_def CRYPTO_REFCOUNT_MAX_def)
  qed
  have pending: "cb_addr b \<noteq> cb_addr d" if "b \<in># P" for b
  proof
    assume "cb_addr b = cb_addr d"
    then have "b = d" using pool_invD(4) [OF inv, of b d] that d by (auto simp: known_def)
    with that pend show False by simp
  qed
  show ?thesis
    unfolding pool_inv_def prod.case bufs items known counts_ok_def alive_def refs
    using pool_invD [OF inv] rr pending by (auto simp: alive_def)
qed

lemma inv_gone:
  assumes inv: "pool_inv (p, H, P)" and b: "b \<in># H + P" and last: "refs_held (H + P) (cb_addr b) = 1"
    and held: "H' + P' = H + P - {#b#}" "P' \<subseteq># P" and bufs: "buffers_ok bufs"
    and items: "it_data ` set_mset (lh_mset bufs) \<subseteq> pool_items p - {b}"
    and p': "pl_bufs p' = bufs" "pl_references p' = (pl_references p)(cb_addr b := None)"
  shows "pool_inv (p', H', P')"
proof -
  obtain M where M: "H + P = add_mset b M" using b by (metis insert_DiffM)
  with held have M': "H' + P' = M" by simp
  have none: "cb_addr c \<noteq> cb_addr b" if "c \<in># M" for c
  proof -
    have "refs_held M (cb_addr b) = 0" using last unfolding M by simp
    with that show ?thesis by (simp add: refs_held_0)
  qed
  have new_items: "pool_items p' \<subseteq> pool_items p - {b}"
    using items p'(1) by (simp add: pool_items_def)
  then have known: "known p' M \<subseteq> known p (H + P)"
    by (auto simp: known_def M)
  have other: "cb_addr c \<noteq> cb_addr b" if "c \<in> known p' M" for c
  proof
    assume eq: "cb_addr c = cb_addr b"
    have "b \<in> known p (H + P)" using b by (simp add: known_def)
    with pool_invD(4) [OF inv _ _ eq] that known have "c = b" by blast
    with that none [of b] new_items show False by (auto simp: known_def)
  qed
  have counts: "counts_ok p' M"
    unfolding counts_ok_def
  proof (intro allI impI)
    fix a r assume "pl_references p' a = Some r"
    then have "a \<noteq> cb_addr b" "pl_references p a = Some r" by (auto simp: p' split: if_splits)
    with pool_invD(5) [OF inv this(2)] show "r \<noteq> 0 \<and> (r = CRYPTO_REFCOUNT_MAX \<or> unat r = refs_held M a)"
      unfolding M by auto
  qed
  have pend: "cb_in_pool c \<and> pl_references p' (cb_addr c) = Some 1 \<and> c \<notin> pool_items p'" if c: "c \<in># P'" for c
  proof -
    have "c \<in># P" using c held(2) by (rule mset_subset_eqD [rotated])
    moreover have "c \<in># M" using c M' by auto
    ultimately show ?thesis
      using pool_invD(6) [OF inv, of c] none [of c] new_items by (auto simp: p')
  qed
  show ?thesis
    unfolding pool_inv_def prod.case M'
  proof (intro conjI ballI impI)
    show "buffers_ok (pl_bufs p')" using bufs p' by simp
    show "cb_in_pool c" if "c \<in> pool_items p'" for c using that new_items pool_invD(2) [OF inv] by auto
    show "alive p' c" if "c \<in> known p' M" for c
      using that known other pool_invD(3) [OF inv, of c] by (auto simp: alive_def p')
    show "a = c" if "a \<in> known p' M" "c \<in> known p' M" "cb_addr a = cb_addr c" for a c
      using that known pool_invD(4) [OF inv, of a c] by auto
  qed (use counts pend in auto)
qed

lemma pool_duplicate_Some:
  assumes "buffers_ok (pl_bufs p)" and "pool_duplicate data data_is_static p = Some d"
  shows "d \<in> pool_items p" and "cb_data d = data" and "data_is_static \<longrightarrow> cb_data_is_static d"
  using assms(2) buffer_table.retrieve_Some_iff [OF assms(1)]
  by (auto simp: pool_duplicate_def Let_def pool_items_def matching_def split: option.splits if_splits)

lemma inv_object:
  assumes inv: "pool_inv (p, H, P)" and fresh: "pl_references p addr = None"
    and obj: "crypto_buffer_object sys addr data st pooled p = (Some buf, p')"
  shows "pool_inv (p', if pooled then H else add_mset buf H, if pooled then add_mset buf P else P)"
proof -
  have buf: "cb_addr buf = addr" "cb_in_pool buf = pooled" and p': "p' = p\<lparr>pl_references := (pl_references p)(addr \<mapsto> 1)\<rparr>"
    using obj by (auto simp: crypto_buffer_object_def Let_def split: if_splits)
  have other: "cb_addr c \<noteq> addr" if "c \<in> known p (H + P)" for c
    using pool_invD(3) [OF inv that] fresh by (auto simp: alive_def)
  then have zero: "refs_held (H + P) addr = 0"
    unfolding refs_held_0 by (auto simp: known_def)
  have items: "pool_items p' = pool_items p" by (simp add: pool_items_def p')
  let ?H = "if pooled then H else add_mset buf H" and ?P = "if pooled then add_mset buf P else P"
  have held: "?H + ?P = add_mset buf (H + P)" by simp
  have known: "known p' (add_mset buf (H + P)) = insert buf (known p (H + P))"
    by (simp add: known_def items)
  have P_known: "c \<in> known p (H + P)" if "c \<in># P" for c
    using that by (simp add: known_def)
  have "buf \<notin> pool_items p" using other [of buf] buf by (auto simp: known_def)
  moreover have "counts_ok p' (add_mset buf (H + P))"
    unfolding counts_ok_def
    using pool_invD(5) [OF inv] zero buf by (auto simp: p')
  ultimately show ?thesis
    unfolding pool_inv_def prod.case held known items
    using pool_invD [OF inv] buf P_known by (auto simp: p' alive_def dest: other)
qed

lemma inv_insert:
  assumes inv: "pool_inv (p, H, P)" and buf: "buf \<in># P"
    and ins: "crypto_buffer_insert sys buf p = (r, p')"
  shows "pool_inv (p', (case r of None \<Rightarrow> H | Some d \<Rightarrow> add_mset d H), P - {#buf#})"
proof -
  have ok: "buffers_ok (pl_bufs p)" by (rule pool_invD(1) [OF inv])
  have pend: "cb_in_pool buf" "pl_references p (cb_addr buf) = Some 1" "buf \<notin> pool_items p"
    using pool_invD(6) [OF inv buf] by auto
  note once = pending_once [OF inv buf]
  show ?thesis
  proof (cases "pool_duplicate (cb_data buf) (cb_data_is_static buf) p")
    case (Some d)
    have r: "r = Some d" "p' = crypto_buffer_free_object buf (refcount_inc d p)"
      using ins by (simp_all add: crypto_buffer_insert_def Some)
    have d: "d \<in> pool_items p" by (rule pool_duplicate_Some(1) [OF ok Some])
    then have dP: "d \<notin># P" using pool_invD(6) [OF inv] by blast
    have inv1: "pool_inv (refcount_inc d p, add_mset d H, P)"
      by (rule inv_inc [OF inv _ dP]) (use d in \<open>simp add: known_def\<close>)
    have "pool_inv (p', add_mset d H, P - {#buf#})"
    proof (rule inv_gone [OF inv1, where b = buf])
      show "refs_held (add_mset d H + P) (cb_addr buf) = 1"
        using pending_once(1) [OF inv1 buf] .
      show "add_mset d H + (P - {#buf#}) = add_mset d H + P - {#buf#}"
        using buf by (metis insert_DiffM add_mset_remove_trivial union_mset_add_mset_right)
      show "it_data ` set_mset (lh_mset (pl_bufs p)) \<subseteq> pool_items (refcount_inc d p) - {buf}"
        using pend(3) by (auto simp: pool_items_def refcount_inc_def)
    qed (use buf ok in \<open>simp_all add: r(2) crypto_buffer_free_object_def refcount_inc_def\<close>)
    then show ?thesis by (simp add: r(1))
  next
    case None
    obtain i old bufs where i: "OPENSSL_lh_insert sys CRYPTO_BUFFER_hash CRYPTO_BUFFER_cmp (pl_bufs p) buf = (i, old, bufs)"
      by (metis prod_cases3)
    show ?thesis
    proof (cases i)
      case False
      have r: "r = None" "p' = crypto_buffer_free_object buf (p\<lparr>pl_bufs := bufs\<rparr>)"
        using ins False by (simp_all add: crypto_buffer_insert_def None i)
      have bufs: "bufs = pl_bufs p"
        using buffer_table.insert_cases [OF ok i] False by blast
      have "pool_inv (p', H, P - {#buf#})"
      proof (rule inv_gone [OF inv, where b = buf])
        show "H + (P - {#buf#}) = H + P - {#buf#}"
          using buf by (metis insert_DiffM add_mset_remove_trivial union_mset_add_mset_right)
        show "it_data ` set_mset (lh_mset (pl_bufs p)) \<subseteq> pool_items p - {buf}"
          using pend(3) by (auto simp: pool_items_def)
      qed (use buf ok once in \<open>simp_all add: r(2) bufs crypto_buffer_free_object_def\<close>)
      then show ?thesis by (simp add: r(1))
    next
      case True
      have r: "r = Some buf" "p' = p\<lparr>pl_bufs := bufs\<rparr>"
        using ins True by (simp_all add: crypto_buffer_insert_def None i)
      have ok': "buffers_ok bufs"
        using buffer_table.insert_cases [OF ok i] True by blast
      have sub: "it_data ` set_mset (lh_mset bufs) \<subseteq> insert buf (pool_items p)"
      proof -
        have "it_data it' = buf \<or> it' \<in># lh_mset (pl_bufs p)" if "it' \<in># lh_mset bufs" for it'
          using buffer_table.insert_cases [OF ok i] True that by (auto dest: in_diffD)
        then show ?thesis by (auto simp: pool_items_def)
      qed
      have items: "pool_items p' \<subseteq> insert buf (pool_items p)" using sub by (simp add: r(2) pool_items_def)
      have held: "add_mset buf H + (P - {#buf#}) = H + P"
        using buf by (metis insert_DiffM union_mset_add_mset_left union_mset_add_mset_right)
      have known: "known p' (H + P) \<subseteq> known p (H + P)"
        using items buf by (auto simp: known_def)
      have "b \<noteq> buf" if "b \<in># P - {#buf#}" for b
      proof
        assume "b = buf"
        with that have "2 \<le> refs_held P (cb_addr buf)"
          by (metis insert_DiffM buf refs_held_simps(3) Suc_le_eq Suc_n_not_le_n not_less_eq_eq numeral_2_eq_2 le_add1 One_nat_def plus_1_eq_Suc zero_less_Suc)
        with once(1) show False by simp
      qed
      note fresh = this
      have refs: "pl_references p' = pl_references p" and bufs: "pl_bufs p' = bufs" by (simp_all add: r(2))
      show ?thesis
        unfolding r(1) option.case pool_inv_def prod.case held bufs
      proof (intro conjI ballI impI)
        show "buffers_ok bufs" by (rule ok')
        show "cb_in_pool b" if "b \<in> pool_items p'" for b using that items pend(1) pool_invD(2) [OF inv] by blast
        show "alive p' b" if "b \<in> known p' (H + P)" for b
          using that known pool_invD(3) [OF inv, of b] by (auto simp: alive_def refs)
        show "a = b" if "a \<in> known p' (H + P)" "b \<in> known p' (H + P)" "cb_addr a = cb_addr b" for a b
          using that known pool_invD(4) [OF inv, of a b] by blast
        show "counts_ok p' (H + P)" using pool_invD(5) [OF inv] by (simp add: counts_ok_def refs)
        fix b assume b: "b \<in># P - {#buf#}"
        then have "b \<in># P" by (rule in_diffD)
        from pool_invD(6) [OF inv this] items fresh [OF b]
        show "cb_in_pool b" "pl_references p' (cb_addr b) = Some 1" "b \<notin> pool_items p'"
          by (auto simp: refs)
      qed
    qed
  qed
qed

lemma dec_cases:
  assumes "r \<noteq> 0"
  obtains "r = CRYPTO_REFCOUNT_MAX" "CRYPTO_refcount_dec_and_test_zero r = Some (False, r)"
    | "r = 1" "CRYPTO_refcount_dec_and_test_zero r = Some (True, 0)"
    | "r \<noteq> CRYPTO_REFCOUNT_MAX" "r \<noteq> 1" "CRYPTO_refcount_dec_and_test_zero r = Some (False, r - 1)"
      "unat (r - 1) + 1 = unat r" "r - 1 \<noteq> 0"
proof -
  have max: "r < CRYPTO_REFCOUNT_MAX" if "r \<noteq> CRYPTO_REFCOUNT_MAX"
    using that unat_u32_less [of r] by (simp add: CRYPTO_REFCOUNT_MAX_def word_less_nat_alt word_unat_eq_iff)
  have pos: "unat (r - 1) + 1 = unat r"
    using assms by (simp add: unat_sub_if' unat_gt_0 Suc_leI)
  show ?thesis
  proof (cases "r = CRYPTO_REFCOUNT_MAX")
    case True
    then show ?thesis by (intro that(1)) (simp_all add: CRYPTO_refcount_dec_and_test_zero_def CRYPTO_REFCOUNT_MAX_def)
  next
    case False
    show ?thesis
    proof (cases "r = 1")
      case True
      then show ?thesis by (intro that(2)) (simp_all add: CRYPTO_refcount_dec_and_test_zero_def CRYPTO_REFCOUNT_MAX_def)
    next
      case r1: False
      have "r - 1 \<noteq> 0" using r1 by simp
      with False r1 max pos assms show ?thesis
        by (intro that(3)) (simp_all add: CRYPTO_refcount_dec_and_test_zero_def)
    qed
  qed
qed

lemma inv_free:
  assumes inv: "pool_inv (p, H, P)" and b: "b \<in># H"
  shows "\<exists>p'. CRYPTO_BUFFER_free sys b p = Some p' \<and> pool_inv (p', H - {#b#}, P)"
proof -
  have known_b: "b \<in> known p (H + P)" using b by (simp add: known_def)
  obtain r where r: "pl_references p (cb_addr b) = Some r"
    using pool_invD(3) [OF inv known_b] by (auto simp: alive_def)
  have cnt: "r \<noteq> 0" "r = CRYPTO_REFCOUNT_MAX \<or> unat r = refs_held (H + P) (cb_addr b)"
    using pool_invD(5) [OF inv r] by auto
  obtain M where M: "H + P = add_mset b M" and M': "H - {#b#} + P = M"
    using b by (metis insert_DiffM union_mset_add_mset_left)
  have not_pending: "b \<notin># P" using pending_once(2) [OF inv, of b] b by blast
  have pending: "cb_addr c \<noteq> cb_addr b" if "c \<in># P" for c
  proof
    assume "cb_addr c = cb_addr b"
    then have "c = b" using pool_invD(4) [OF inv, of c b] that known_b by (auto simp: known_def)
    with that not_pending show False by simp
  qed
  have keep: "pool_inv (p\<lparr>pl_references := (pl_references p)(cb_addr b \<mapsto> c)\<rparr>, H - {#b#}, P)"
    if "c \<noteq> 0" "c = CRYPTO_REFCOUNT_MAX \<or> unat c + 1 = refs_held (H + P) (cb_addr b)" for c
  proof -
    let ?p = "p\<lparr>pl_references := (pl_references p)(cb_addr b \<mapsto> c)\<rparr>"
    have items: "pool_items ?p = pool_items p" by (simp add: pool_items_def)
    have known: "known ?p M \<subseteq> known p (H + P)" by (auto simp: known_def items M)
    have "counts_ok ?p M"
      unfolding counts_ok_def
    proof (intro allI impI)
      fix a x assume x: "pl_references ?p a = Some x"
      show "x \<noteq> 0 \<and> (x = CRYPTO_REFCOUNT_MAX \<or> unat x = refs_held M a)"
      proof (cases "a = cb_addr b")
        case True
        with x that show ?thesis by (auto simp: M)
      next
        case False
        with x pool_invD(5) [OF inv, of a x] show ?thesis by (simp add: M)
      qed
    qed
    moreover have "a = c" if "a \<in> known ?p M" "c \<in> known ?p M" "cb_addr a = cb_addr c" for a c
      using that known pool_invD(4) [OF inv, of a c] by blast
    ultimately show ?thesis
      unfolding pool_inv_def prod.case M' items
      using pool_invD(1-3,6) [OF inv] known pending by (auto simp: alive_def)
  qed
  from cnt(1) show ?thesis
  proof (cases rule: dec_cases)
    case 1
    then show ?thesis
      using keep [of r] r cnt by (simp add: CRYPTO_BUFFER_free_def)
  next
    case 3
    then have "r - 1 = CRYPTO_REFCOUNT_MAX \<or> unat (r - 1) + 1 = refs_held (H + P) (cb_addr b)"
      using cnt(2) by simp
    with 3 show ?thesis
      using keep [of "r - 1"] r by (simp add: CRYPTO_BUFFER_free_def)
  next
    case 2
    then have last: "refs_held (H + P) (cb_addr b) = 1"
      using cnt(2) by (simp add: CRYPTO_REFCOUNT_MAX_def)
    let ?p = "p\<lparr>pl_references := (pl_references p)(cb_addr b \<mapsto> 0)\<rparr>"
    have ok: "buffers_ok (pl_bufs p)" by (rule pool_invD(1) [OF inv])
    have gone: "pool_inv (p', H - {#b#}, P)" if "buffers_ok (pl_bufs p')"
      "it_data ` set_mset (lh_mset (pl_bufs p')) \<subseteq> pool_items p - {b}"
      "pl_references p' = (pl_references p)(cb_addr b := None)" for p'
      by (rule inv_gone [where b = b, OF inv _ last _ _ that(1) that(2) refl that(3)])
        (use b M M' in \<open>simp_all add: union_mset_add_mset_left\<close>)
    have items_not: "it_data ` set_mset (lh_mset (pl_bufs p)) \<subseteq> pool_items p - {b}" if "b \<notin> pool_items p"
      using that by (auto simp: pool_items_def)
    show ?thesis
    proof (cases "cb_in_pool b")
      case False
      then have "b \<notin> pool_items p" using pool_invD(2) [OF inv] by blast
      from gone [of "crypto_buffer_free_object b ?p"] items_not [OF this] False 2 r ok show ?thesis
        by (simp add: CRYPTO_BUFFER_free_def crypto_buffer_free_object_def)
    next
      case True
      let ?found = "OPENSSL_lh_retrieve CRYPTO_BUFFER_hash CRYPTO_BUFFER_cmp (pl_bufs p) b"
      show ?thesis
      proof (cases "map_option cb_addr ?found = Some (cb_addr b)")
        case False
        have "b \<notin> pool_items p"
        proof
          assume "b \<in> pool_items p"
          then have "?found = Some b"
            unfolding buffer_table.retrieve_Some_iff [OF ok] by (auto simp: pool_items_def matching_def)
          with False show False by simp
        qed
        from gone [of "crypto_buffer_free_object b ?p"] items_not [OF this] False True 2 r ok show ?thesis
          by (auto simp: CRYPTO_BUFFER_free_def crypto_buffer_free_object_def Let_def)
      next
        case found: True
        obtain old bufs where del: "OPENSSL_lh_delete sys CRYPTO_BUFFER_hash CRYPTO_BUFFER_cmp (pl_bufs p) b = (old, bufs)"
          by fastforce
        have ok': "buffers_ok bufs" and none: "OPENSSL_lh_retrieve CRYPTO_BUFFER_hash CRYPTO_BUFFER_cmp bufs b = None"
          using buffer_table.retrieve_delete [OF ok del] by simp_all
        have "set_mset (lh_mset bufs) \<subseteq> set_mset (lh_mset (pl_bufs p))"
          using buffer_table.delete_cases [OF ok del] by (auto dest: in_diffD)
        moreover have "it_data it \<noteq> b" if "it \<in># lh_mset bufs" for it
          using none that unfolding buffer_table.retrieve_None_iff [OF ok'] by (auto simp: matching_def)
        ultimately have "it_data ` set_mset (lh_mset bufs) \<subseteq> pool_items p - {b}"
          by (auto simp: pool_items_def)
        with gone [of "crypto_buffer_free_object b (?p\<lparr>pl_bufs := bufs\<rparr>)"] ok' found True 2 r del show ?thesis
          by (simp add: CRYPTO_BUFFER_free_def crypto_buffer_free_object_def Let_def)
      qed
    qed
  qed
qed

lemma pool_step_inv:
  assumes "pool_inv s" and "pool_step s s'"
  shows "pool_inv s'"
  using assms(2,1)
proof (cases rule: pool_step.cases)
  case (lookup data st p d p' H P)
  have dup: "pool_duplicate data st p = Some d" and p': "p' = refcount_inc d p"
    using lookup(3) by (auto simp: crypto_buffer_lookup_def split: option.splits)
  have inv: "pool_inv (p, H, P)" using assms(1) lookup(1) by simp
  have "d \<in> pool_items p" by (rule pool_duplicate_Some(1) [OF pool_invD(1) [OF inv] dup])
  then show ?thesis
    using inv_inc [OF inv, of d] pool_invD(6) [OF inv, of d] lookup(2) p' by (auto simp: known_def)
next
  case (object_pooled p addr sys data st buf p' H P)
  with assms(1) inv_object [of p H P addr sys data st True] show ?thesis by simp
next
  case (object_alone p addr sys data st buf p' H P)
  with assms(1) inv_object [of p H P addr sys data st False] show ?thesis by simp
next
  case (insert_found buf P sys p d p' H)
  with assms(1) inv_insert [of p H P buf sys "Some d"] show ?thesis by simp
next
  case (insert_failed buf P sys p p' H)
  with assms(1) inv_insert [of p H P buf sys None] show ?thesis by simp
next
  case (up_ref buf H p P)
  have inv: "pool_inv (p, H, P)" using assms(1) up_ref(1) by simp
  show ?thesis
    using inv_inc [OF inv, of buf] pending_once(2) [OF inv, of buf] up_ref
    by (auto simp: CRYPTO_BUFFER_up_ref_def known_def)
next
  case (free buf H sys p p' P)
  with assms(1) inv_free [of p H P buf sys] show ?thesis by auto
qed

lemma pool_reachable_inv: "pool_reachable s \<Longrightarrow> pool_inv s"
proof (induction rule: pool_reachable.induct)
  case (new sys p)
  then obtain lh where lh: "OPENSSL_lh_new sys = Some lh" "p = \<lparr>pl_bufs = lh, pl_references = Map.empty\<rparr>"
    by (auto simp: CRYPTO_BUFFER_POOL_new_def split: if_splits)
  then show ?case
    using OPENSSL_lh_new_ok(1,2) [OF lh(1)]
    by (simp add: pool_inv_def known_def pool_items_def counts_ok_def)
next
  case (step s s')
  then show ?case using pool_step_inv by blast
qed

section \<open>Properties\<close>

text \<open>
  C26: No use after free: however threads interleave looking up, making, offering, sharing and
  freeing buffers, every buffer a client holds and every buffer in the pool is live, and its
  count is the number of references that exist (or has saturated, and then stays).
\<close>

theorem pool_no_use_after_free:
  assumes "pool_reachable (p, H, P)"
  shows "(\<forall>b \<in># H. alive p b) \<and> (\<forall>b \<in> pool_items p. alive p b) \<and>
    (\<forall>b \<in># H. \<forall>r. pl_references p (cb_addr b) = Some r \<longrightarrow>
       r = CRYPTO_REFCOUNT_MAX \<or> unat r = refs_held (H + P) (cb_addr b))"
proof -
  note inv = pool_reachable_inv [OF assms]
  have "b \<in> known p (H + P)" if "b \<in># H \<or> b \<in> pool_items p" for b
    using that by (auto simp: known_def)
  with pool_invD(3,5) [OF inv] show ?thesis by blast
qed

text \<open>A pool with one buffer, as an example.\<close>

definition example_buffer :: crypto_buffer where
  "example_buffer = \<lparr>cb_addr = 64, cb_data = [], cb_data_is_static = False, cb_in_pool = True\<rparr>"

lemma example_pool:
  "\<exists>p. pool_reachable (p, {#example_buffer#}, {#}) \<and> example_buffer \<in> pool_items p"
proof -
  obtain p0 where p0: "CRYPTO_BUFFER_POOL_new (\<lambda>_. True) = Some p0"
    by (simp add: CRYPTO_BUFFER_POOL_new_def OPENSSL_lh_new_def sizeof_CRYPTO_BUFFER_POOL_def sizeof_lhash_st_def
        sizeof_item_pointer_def kMinNumBuckets_def)
  then have empty: "pl_bufs p0 = \<lparr>lh_items = 0, lh_buckets = replicate 16 [], lh_callback_depth = 0\<rparr>" "pl_references p0 = Map.empty"
    by (auto simp: CRYPTO_BUFFER_POOL_new_def OPENSSL_lh_new_def kMinNumBuckets_def split: if_splits)
  let ?p1 = "p0\<lparr>pl_references := [64 \<mapsto> 1]\<rparr>"
  have obj: "crypto_buffer_object (\<lambda>_. True) 64 [] False True p0 = (Some example_buffer, ?p1)"
    using empty by (simp add: crypto_buffer_object_def sizeof_CRYPTO_BUFFER_def example_buffer_def)
  have inv1: "pool_inv (?p1, {#}, {#example_buffer#})"
    using inv_object [OF pool_reachable_inv [OF pool_reachable.new [OF p0]], of 64 "\<lambda>_. True" "[]" False True] obj empty
    by simp
  have none: "OPENSSL_lh_retrieve CRYPTO_BUFFER_hash CRYPTO_BUFFER_cmp (pl_bufs ?p1) x = None" for x
    using empty by (simp add: OPENSSL_lh_retrieve_def get_next_ptr_and_hash_def item_at_def Let_def)
  obtain r old bufs where i: "OPENSSL_lh_insert (\<lambda>_. True) CRYPTO_BUFFER_hash CRYPTO_BUFFER_cmp (pl_bufs ?p1) example_buffer = (r, old, bufs)"
    by (metis prod_cases3)
  note cases = buffer_table.insert_cases [OF pool_invD(1) [OF inv1] i]
  then have r: "r" by (auto simp: sizeof_lhash_item_def)
  have ins: "crypto_buffer_insert (\<lambda>_. True) example_buffer ?p1 = (Some example_buffer, ?p1\<lparr>pl_bufs := bufs\<rparr>)"
    using none i r by (simp add: crypto_buffer_insert_def pool_duplicate_def)
  have "pool_step (p0, {#}, {#}) (?p1, {#}, {#example_buffer#})"
    using obj empty by (intro pool_step.object_pooled) auto
  moreover have "pool_step (?p1, {#}, {#example_buffer#}) (?p1\<lparr>pl_bufs := bufs\<rparr>, {#example_buffer#}, {#})"
    using pool_step.insert_found [OF _ ins, of "{#example_buffer#}" "{#}"] by simp
  ultimately have "pool_reachable (?p1\<lparr>pl_bufs := bufs\<rparr>, {#example_buffer#}, {#})"
    using pool_reachable.new [OF p0] pool_reachable.step by blast
  moreover have "example_buffer \<in> pool_items (?p1\<lparr>pl_bufs := bufs\<rparr>)"
    using cases r by (auto simp: pool_items_def)
  ultimately show ?thesis by blast
qed

theorem pool_no_use_after_free_witness:
  "\<exists>p. pool_reachable (p, {#example_buffer#}, {#}) \<and> alive p example_buffer"
proof -
  obtain p where p: "pool_reachable (p, {#example_buffer#}, {#})" using example_pool by blast
  from pool_no_use_after_free [OF p] p show ?thesis by auto
qed

text \<open>
  Freeing a buffer one holds never aborts: in every reachable state the count of a held buffer
  is positive, so the decrement succeeds and leads to a state again free of dangling buffers.
\<close>

lemma pool_free_succeeds:
  assumes "pool_reachable (p, H, P)" and "b \<in># H"
  shows "\<exists>p'. CRYPTO_BUFFER_free sys b p = Some p' \<and> pool_reachable (p', H - {#b#}, P) \<and>
    (\<forall>c \<in> pool_items p'. alive p' c)"
proof -
  obtain p' where p': "CRYPTO_BUFFER_free sys b p = Some p'" "pool_inv (p', H - {#b#}, P)"
    using inv_free [OF pool_reachable_inv [OF assms(1)] assms(2)] by blast
  have "pool_reachable (p', H - {#b#}, P)"
    using assms pool_step.free [OF assms(2) p'(1)] pool_reachable.step by blast
  with p' pool_invD(3) [OF p'(2)] show ?thesis by (auto simp: known_def)
qed

lemma pool_free_succeeds_witness:
  "\<exists>p p'. CRYPTO_BUFFER_free (\<lambda>_. True) example_buffer p = Some p' \<and> pool_reachable (p', {#}, {#})"
proof -
  obtain p where p: "pool_reachable (p, {#example_buffer#}, {#})" using example_pool by blast
  from pool_free_succeeds [OF p, of example_buffer "\<lambda>_. True"] show ?thesis by auto
qed

text \<open>
  Buffers are shared: when the pool has a buffer with the same contents, \<open>CRYPTO_BUFFER_new\<close> returns
  that one and counts the reference; otherwise, with memory, it returns a new one that the pool has from then on.
\<close>

lemma CRYPTO_BUFFER_new_shares:
  assumes "pool_reachable (p, H, P)" and "length data < 2 ^ 62"
    and "CRYPTO_BUFFER_new (\<lambda>_. True) addr data True p = (r, p')"
  shows "\<exists>b. r = Some b \<and> CRYPTO_BUFFER_data b = data \<and> b \<in> pool_items p' \<and>
    (if \<exists>c \<in> pool_items p. cb_data c = data then b \<in> pool_items p \<and> p' = refcount_inc b p else cb_addr b = addr)"
proof -
  have ok: "buffers_ok (pl_bufs p)" by (rule pool_invD(1) [OF pool_reachable_inv [OF assms(1)]])
  have dup_iff: "pool_duplicate data False q = None \<longleftrightarrow> \<not> (\<exists>c \<in> pool_items q. cb_data c = data)"
    if "buffers_ok (pl_bufs q)" for q
  proof -
    let ?tmp = "\<lparr>cb_addr = 0, cb_data = data, cb_data_is_static = False, cb_in_pool = False\<rparr>"
    have "pool_duplicate data False q = OPENSSL_lh_retrieve CRYPTO_BUFFER_hash CRYPTO_BUFFER_cmp (pl_bufs q) ?tmp"
      by (simp add: pool_duplicate_def Let_def split: option.splits)
    with buffer_table.retrieve_None_iff [OF that, of ?tmp] show ?thesis
      by (auto simp: pool_items_def matching_def)
  qed
  show ?thesis
  proof (cases "pool_duplicate data False p")
    case (Some d)
    then have "r = Some d" "p' = refcount_inc d p"
      using assms(3) by (simp_all add: CRYPTO_BUFFER_new_def crypto_buffer_new_def crypto_buffer_lookup_def)
    moreover have "pool_items (refcount_inc d p) = pool_items p"
      by (simp add: pool_items_def refcount_inc_def)
    ultimately show ?thesis
      using pool_duplicate_Some(1,2) [OF ok Some] by (auto simp: CRYPTO_BUFFER_data_def)
  next
    case None
    let ?b = "\<lparr>cb_addr = addr, cb_data = data, cb_data_is_static = False, cb_in_pool = True\<rparr>"
    let ?p = "p\<lparr>pl_references := (pl_references p)(addr \<mapsto> 1)\<rparr>"
    have "crypto_buffer_object (\<lambda>_. True) addr data False True p = (Some ?b, ?p)"
      using assms(2) by (simp add: crypto_buffer_object_def sizeof_CRYPTO_BUFFER_def OPENSSL_memdup_def)
    with assms(3) None have ins: "crypto_buffer_insert (\<lambda>_. True) ?b ?p = (r, p')"
      by (simp add: CRYPTO_BUFFER_new_def crypto_buffer_new_def crypto_buffer_lookup_def)
    have dup: "pool_duplicate (cb_data ?b) (cb_data_is_static ?b) ?p = None"
      using None by (simp add: pool_duplicate_def)
    obtain i old bufs where i: "OPENSSL_lh_insert (\<lambda>_. True) CRYPTO_BUFFER_hash CRYPTO_BUFFER_cmp (pl_bufs p) ?b = (i, old, bufs)"
      by (metis prod_cases3)
    note cases = buffer_table.insert_cases [OF ok i]
    then have "i" by (auto simp: sizeof_lhash_item_def)
    with ins i dup have r: "r = Some ?b" "p' = ?p\<lparr>pl_bufs := bufs\<rparr>"
      by (simp_all add: crypto_buffer_insert_def)
    have "?b \<in> pool_items p'"
      using cases \<open>i\<close> by (auto simp: r(2) pool_items_def)
    with r(1) dup_iff [OF ok] None show ?thesis by (auto simp: CRYPTO_BUFFER_data_def)
  qed
qed

lemma CRYPTO_BUFFER_new_shares_witness:
  "\<exists>p. fst (CRYPTO_BUFFER_new (\<lambda>_. True) 128 [] True p) = Some example_buffer"
proof -
  obtain p where p: "pool_reachable (p, {#example_buffer#}, {#})" "example_buffer \<in> pool_items p"
    using example_pool by blast
  obtain r p' where n: "CRYPTO_BUFFER_new (\<lambda>_. True) 128 [] True p = (r, p')" by fastforce
  from CRYPTO_BUFFER_new_shares [OF p(1) _ n] p(2) obtain b where
    b: "r = Some b" "CRYPTO_BUFFER_data b = []" "b \<in> pool_items p"
    by (auto simp: example_buffer_def split: if_splits)
  have found: "OPENSSL_lh_retrieve CRYPTO_BUFFER_hash CRYPTO_BUFFER_cmp (pl_bufs p) b = Some c"
    if "c \<in> pool_items p" "cb_data c = []" for c
    unfolding buffer_table.retrieve_Some_iff [OF pool_invD(1) [OF pool_reachable_inv [OF p(1)]]]
    using that b(2) by (auto simp: pool_items_def matching_def CRYPTO_BUFFER_data_def)
  from found [of b] found [of example_buffer] b p(2)
  have "OPENSSL_lh_retrieve CRYPTO_BUFFER_hash CRYPTO_BUFFER_cmp (pl_bufs p) b = Some b"
    "OPENSSL_lh_retrieve CRYPTO_BUFFER_hash CRYPTO_BUFFER_cmp (pl_bufs p) b = Some example_buffer"
    by (simp_all add: CRYPTO_BUFFER_data_def example_buffer_def)
  then have "b = example_buffer" by simp
  with n b(1) show ?thesis by (intro exI [of _ p]) simp
qed

end
