(* ===== verification/Unicode.thy ===== *)
theory Unicode
  imports Builder
begin

text \<open>
  \<open>crypto/bytestring/unicode.c\<close>: reading and writing code points in UTF-8, Latin-1, UCS-2 and
  UTF-32, over the parser of \<open>Cbs\<close> and the builder of \<open>Cbb\<close>. The reference is the encoding of
  a number as UTF-8, \<open>utf8_bytes\<close>; reader and writer are proved to meet at it.
\<close>

section \<open>Operations\<close>

definition is_valid_code_point :: "u32 \<Rightarrow> bool" where
  "is_valid_code_point v =
     (\<not> (v > 0x10ffff \<or> v AND 0xfffe = 0xfffe \<or> (v \<ge> 0xfdd0 \<and> v \<le> 0xfdef) \<or> (v \<ge> 0xd800 \<and> v \<le> 0xdfff)))"

definition BOTTOM_BITS :: "nat \<Rightarrow> u8" where
  "BOTTOM_BITS n = ucast (push_bit n 1 - 1 :: u32)"

definition TOP_BITS :: "nat \<Rightarrow> u8" where
  "TOP_BITS n = NOT (BOTTOM_BITS (8 - n))"

text \<open>The loop over the continuation bytes.\<close>

fun utf8_rest :: "nat \<Rightarrow> u32 \<Rightarrow> (cbs, u32) op" where
  "utf8_rest 0 v = pret v"
| "utf8_rest (Suc n) v =
     pbind CBS_get_u8 (\<lambda>c.
       if c AND TOP_BITS 2 \<noteq> TOP_BITS 1 then pfail
       else utf8_rest n (push_bit 6 v OR ucast (c AND BOTTOM_BITS 6)))"

definition cbs_get_utf8 :: "(cbs, u32) op" where
  "cbs_get_utf8 =
     pbind CBS_get_u8 (\<lambda>c.
       if c \<le> 0x7f then pret (ucast c)
       else
         let lead =
           (if c AND TOP_BITS 3 = TOP_BITS 2 then Some (c AND BOTTOM_BITS 5, 1, 0x80)
            else if c AND TOP_BITS 4 = TOP_BITS 3 then Some (c AND BOTTOM_BITS 4, 2, 0x800)
            else if c AND TOP_BITS 5 = TOP_BITS 4 then Some (c AND BOTTOM_BITS 3, 3, 0x10000)
            else None)
         in case lead of
              None \<Rightarrow> pfail
            | Some (v, len, lower_bound) \<Rightarrow>
                pbind (utf8_rest len (ucast v)) (\<lambda>v.
                  if \<not> is_valid_code_point v \<or> v < lower_bound then pfail else pret v))"

definition cbs_get_latin1 :: "(cbs, u32) op" where
  "cbs_get_latin1 = pmap ucast CBS_get_u8"

definition cbs_get_ucs2_be :: "(cbs, u32) op" where
  "cbs_get_ucs2_be = pbind CBS_get_u16 (\<lambda>c. if \<not> is_valid_code_point (ucast c) then pfail else pret (ucast c))"

definition cbs_get_utf32_be :: "(cbs, u32) op" where
  "cbs_get_utf32_be = pbind CBS_get_u32 (\<lambda>c. if is_valid_code_point c then pret c else pfail)"

definition cbb_get_utf8_len :: "u32 \<Rightarrow> nat" where
  "cbb_get_utf8_len u = (if u \<le> 0x7f then 1 else if u \<le> 0x7ff then 2 else if u \<le> 0xffff then 3 else 4)"

definition cbb_add_utf8 :: "(nat \<Rightarrow> bool) \<Rightarrow> nat \<Rightarrow> u32 \<Rightarrow> (cbb, unit) op" where
  "cbb_add_utf8 sys h u =
     (let add = (\<lambda>top w. CBB_add_u8 sys h (ucast (ucast (TOP_BITS top) OR w :: u32)));
          low = (\<lambda>w. w AND ucast (BOTTOM_BITS 6)) in
      if \<not> is_valid_code_point u then pfail
      else if u \<le> 0x7f then CBB_add_u8 sys h (ucast u)
      else if u \<le> 0x7ff then pbind (add 2 (drop_bit 6 u)) (\<lambda>_. add 1 (low u))
      else if u \<le> 0xffff then
        pbind (add 3 (drop_bit 12 u)) (\<lambda>_. pbind (add 1 (low (drop_bit 6 u))) (\<lambda>_. add 1 (low u)))
      else if u \<le> 0x10ffff then
        pbind (add 4 (drop_bit 18 u)) (\<lambda>_. pbind (add 1 (low (drop_bit 12 u)))
          (\<lambda>_. pbind (add 1 (low (drop_bit 6 u))) (\<lambda>_. add 1 (low u))))
      else pfail)"

definition cbb_add_latin1 :: "(nat \<Rightarrow> bool) \<Rightarrow> nat \<Rightarrow> u32 \<Rightarrow> (cbb, unit) op" where
  "cbb_add_latin1 sys h u = (if u \<le> 0xff then CBB_add_u8 sys h (ucast u) else pfail)"

definition cbb_add_ucs2_be :: "(nat \<Rightarrow> bool) \<Rightarrow> nat \<Rightarrow> u32 \<Rightarrow> (cbb, unit) op" where
  "cbb_add_ucs2_be sys h u = (if u \<le> 0xffff \<and> is_valid_code_point u then CBB_add_u16 sys h (ucast u) else pfail)"

definition cbb_add_utf32_be :: "(nat \<Rightarrow> bool) \<Rightarrow> nat \<Rightarrow> u32 \<Rightarrow> (cbb, unit) op" where
  "cbb_add_utf32_be sys h u = (if is_valid_code_point u then CBB_add_u32 sys h u else pfail)"

section \<open>The reference encoding\<close>

definition utf8_bytes :: "nat \<Rightarrow> u8 list" where
  "utf8_bytes n = map word_of_nat
     (if n < 0x80 then [n]
      else if n < 0x800 then [192 + n div 64, 128 + n mod 64]
      else if n < 0x10000 then [224 + n div 4096, 128 + n div 64 mod 64, 128 + n mod 64]
      else [240 + n div 262144, 128 + n div 4096 mod 64, 128 + n div 64 mod 64, 128 + n mod 64])"

lemma bits_eval:
  "BOTTOM_BITS 6 = 0x3f" "BOTTOM_BITS 5 = 0x1f" "BOTTOM_BITS 4 = 0xf" "BOTTOM_BITS 3 = 7"
  "TOP_BITS 1 = 0x80" "TOP_BITS (Suc 0) = 0x80" "TOP_BITS 2 = 0xc0" "TOP_BITS 3 = 0xe0" "TOP_BITS 4 = 0xf0" "TOP_BITS 5 = 0xf8"
  by (simp_all add: BOTTOM_BITS_def TOP_BITS_def)

lemma valid_less: "is_valid_code_point v \<Longrightarrow> unat v < 0x110000"
  by (simp add: is_valid_code_point_def word_less_nat_alt)

lemma u8_high_part: "unat (c AND NOT (mask k)) = 2 ^ k * (unat c div 2 ^ k)" for c :: u8
proof -
  have "c AND NOT (mask k) = push_bit k (drop_bit k c)"
    by (rule bit_word_eqI) (auto simp: bit_simps)
  moreover have "take_bit 8 (unat c) = unat c"
    by (simp add: take_bit_eq_mod)
  then have "unat (push_bit k (drop_bit k c)) = take_bit 8 (2 ^ k * (unat c div 2 ^ k))"
    by (simp only: unsigned_push_bit_eq unsigned_drop_bit_eq)
      (simp add: push_bit_eq_mult drop_bit_eq_div mult.commute)
  moreover have "2 ^ k * (unat c div 2 ^ k) \<le> unat c"
    by simp
  then have "2 ^ k * (unat c div 2 ^ k) < 256"
    by (rule le_less_trans) (rule unat_u8_less)
  ultimately show ?thesis
    by (simp add: take_bit_eq_mod)
qed

lemma div_eq_range: "0 < m \<Longrightarrow> n div m = k \<longleftrightarrow> k * m \<le> n \<and> n < Suc k * m" for n :: nat
  by (auto simp: less_eq_div_iff_mult_less_eq [symmetric] div_less_iff_less_mult [symmetric] simp del: mult_Suc)

lemma u8_low_part: "unat (c AND mask k) = unat c mod 2 ^ k" for c :: u8
  unfolding take_bit_eq_mask [symmetric] by (subst unsigned_take_bit_eq) (rule take_bit_eq_mod)

lemma lead_byte_tests:
  fixes c :: u8
  shows "c AND 0xc0 = 0x80 \<longleftrightarrow> 128 \<le> unat c \<and> unat c < 192"
    "c AND 0xe0 = 0xc0 \<longleftrightarrow> 192 \<le> unat c \<and> unat c < 224"
    "c AND 0xf0 = 0xe0 \<longleftrightarrow> 224 \<le> unat c \<and> unat c < 240"
    "c AND 0xf8 = 0xf0 \<longleftrightarrow> 240 \<le> unat c \<and> unat c < 248"
proof -
  have masks: "(0xc0 :: u8) = NOT (mask 6)" "(0xe0 :: u8) = NOT (mask 5)" "(0xf0 :: u8) = NOT (mask 4)" "(0xf8 :: u8) = NOT (mask 3)"
    by (simp_all add: mask_eq_exp_minus_1)
  have "c AND 0xc0 = 0x80 \<longleftrightarrow> unat (c AND NOT (mask 6)) = 128" "c AND 0xe0 = 0xc0 \<longleftrightarrow> unat (c AND NOT (mask 5)) = 192"
    "c AND 0xf0 = 0xe0 \<longleftrightarrow> unat (c AND NOT (mask 4)) = 224" "c AND 0xf8 = 0xf0 \<longleftrightarrow> unat (c AND NOT (mask 3)) = 240"
    by (simp_all only: masks [symmetric] word_unat_eq_iff) simp_all
  moreover have "64 * q = 128 \<longleftrightarrow> q = 2" "32 * q = 192 \<longleftrightarrow> q = 6" "16 * q = 224 \<longleftrightarrow> q = 14" "8 * q = 240 \<longleftrightarrow> q = 30" for q :: nat
    by linarith+
  ultimately show "c AND 0xc0 = 0x80 \<longleftrightarrow> 128 \<le> unat c \<and> unat c < 192"
    "c AND 0xe0 = 0xc0 \<longleftrightarrow> 192 \<le> unat c \<and> unat c < 224"
    "c AND 0xf0 = 0xe0 \<longleftrightarrow> 224 \<le> unat c \<and> unat c < 240"
    "c AND 0xf8 = 0xf0 \<longleftrightarrow> 240 \<le> unat c \<and> unat c < 248"
    unfolding u8_high_part by (simp_all add: div_eq_range)
qed

lemma low_bits:
  fixes c :: u8
  shows "unat (c AND 0x3f) = unat c mod 64" "unat (c AND 0x1f) = unat c mod 32" "unat (c AND 0xf) = unat c mod 16"
    "unat (c AND 7) = unat c mod 8"
  using u8_low_part [of c 6] u8_low_part [of c 5] u8_low_part [of c 4] u8_low_part [of c 3]
  by (simp_all add: mask_eq_exp_minus_1)

section \<open>Reading\<close>

abbreviation cont_byte :: "nat \<Rightarrow> u8" where
  "cont_byte y \<equiv> word_of_nat (128 + y)"

lemma byte_in_range:
  fixes c :: u8
  assumes "b + k \<le> 256"
  shows "b \<le> unat c \<and> unat c < b + k \<longleftrightarrow> (\<exists>y < k. c = word_of_nat (b + y))"
proof
  assume *: "b \<le> unat c \<and> unat c < b + k"
  then have "c = word_of_nat (b + (unat c - b))" and "unat c - b < k"
    by auto
  then show "\<exists>y < k. c = word_of_nat (b + y)" by blast
next
  assume "\<exists>y < k. c = word_of_nat (b + y)"
  then obtain y where y: "y < k" "c = word_of_nat (b + y)" by blast
  with assms have "unat c = b + y" by (simp only: unat_u8_of_nat) simp
  with y show "b \<le> unat c \<and> unat c < b + k" by simp
qed

lemma utf8_rest_Suc:
  assumes "m < 2 ^ 26"
  shows "utf8_rest (Suc n) (word_of_nat m) s = (Some w, t) \<longleftrightarrow>
    (\<exists>y < 64. \<exists>s'. s = cont_byte y # s' \<and> utf8_rest n (word_of_nat (m * 64 + y)) s' = (Some w, t))"
proof -
  have m: "unat (word_of_nat m :: u32) = m"
    using assms by (simp add: unat_u32_of_nat)
  have word: "push_bit 6 (word_of_nat m) OR ucast (cont_byte y AND 0x3f) = (word_of_nat (m * 64 + y) :: u32)"
    if "y < 64" for y
  proof -
    have "unat (cont_byte y AND 0x3f) = y"
    proof -
      have "(128 + y) mod 256 = 128 + y" using that by simp
      moreover have "(128 + y) mod 64 = y"
        by (subst mod_add_left_eq [symmetric]) (use that in simp)
      ultimately show ?thesis by (simp only: low_bits unat_u8_of_nat)
    qed
    then have "unat (ucast (cont_byte y AND 0x3f) :: u32) = y"
      by (simp add: unat_ucast_up)
    then have "unat (push_bit 6 (word_of_nat m) OR ucast (cont_byte y AND 0x3f) :: u32) = m * 64 + y"
      using unat_push_bit_or [of "word_of_nat m :: u32" 6 "ucast (cont_byte y AND 0x3f)"] assms that m by simp
    then show ?thesis by (metis word_of_nat_unat)
  qed
  have "utf8_rest (Suc n) (word_of_nat m) s = (Some w, t) \<longleftrightarrow>
    (\<exists>c s'. s = c # s' \<and> (128 \<le> unat c \<and> unat c < 128 + 64) \<and>
      utf8_rest n (push_bit 6 (word_of_nat m) OR ucast (c AND 0x3f)) s' = (Some w, t))"
    by (auto simp: pbind_Some_iff bits_eval lead_byte_tests)
  also have "\<dots> \<longleftrightarrow> (\<exists>y < 64. \<exists>s'. s = cont_byte y # s' \<and>
      utf8_rest n (push_bit 6 (word_of_nat m) OR ucast (cont_byte y AND 0x3f)) s' = (Some w, t))"
    using byte_in_range [of 128 64] by fastforce
  also have "\<dots> \<longleftrightarrow> (\<exists>y < 64. \<exists>s'. s = cont_byte y # s' \<and> utf8_rest n (word_of_nat (m * 64 + y)) s' = (Some w, t))"
    by (intro ex_cong1 conj_cong refl) (simp only: word)
  finally show ?thesis .
qed

lemma utf8_rest_iff:
  "Suc m * 64 ^ n \<le> 2 ^ 32 \<Longrightarrow> utf8_rest n (word_of_nat m) s = (Some w, t) \<longleftrightarrow>
    (\<exists>ys. length ys = n \<and> list_all (\<lambda>y. y < 64) ys \<and> s = map cont_byte ys @ t \<and>
      w = word_of_nat (foldl (\<lambda>a y. a * 64 + y) m ys))"
proof (induction n arbitrary: m s)
  case 0
  show ?case by auto
next
  case (Suc n)
  have "Suc m * 64 * 64 ^ n \<le> 2 ^ 32"
    using Suc.prems by (simp only: power_Suc mult.assoc)
  moreover have "Suc m * 64 * 1 \<le> Suc m * 64 * 64 ^ n"
    by (intro mult_le_mono2) simp
  ultimately have "Suc m * 64 * 1 \<le> 2 ^ 32" by (rule order_trans [rotated])
  then have m: "m < 2 ^ 26" by simp
  have IH: "utf8_rest n (word_of_nat (m * 64 + y)) s' = (Some w, t) \<longleftrightarrow>
    (\<exists>ys. length ys = n \<and> list_all (\<lambda>y. y < 64) ys \<and> s' = map cont_byte ys @ t \<and>
      w = word_of_nat (foldl (\<lambda>a y. a * 64 + y) (m * 64 + y) ys))" if "y < 64" for y s'
  proof (rule Suc.IH)
    have "Suc (m * 64 + y) * 64 ^ n \<le> Suc m * 64 * 64 ^ n"
      using that by (intro mult_le_mono1) simp
    with \<open>Suc m * 64 * 64 ^ n \<le> 2 ^ 32\<close> show "Suc (m * 64 + y) * 64 ^ n \<le> 2 ^ 32" by (rule order_trans [rotated])
  qed
  let ?w = "\<lambda>m ys. word_of_nat (foldl (\<lambda>a y. a * 64 + y) m ys)"
  show ?case
    unfolding utf8_rest_Suc [OF m]
  proof (intro iffI)
    assume "\<exists>y < 64. \<exists>s'. s = cont_byte y # s' \<and> utf8_rest n (word_of_nat (m * 64 + y)) s' = (Some w, t)"
    then obtain y s' where y: "y < 64" "s = cont_byte y # s'" "utf8_rest n (word_of_nat (m * 64 + y)) s' = (Some w, t)"
      by blast
    from y(3) [unfolded IH [OF y(1)]] obtain ys where
      "length ys = n" "list_all (\<lambda>y. y < 64) ys" "s' = map cont_byte ys @ t" "w = ?w (m * 64 + y) ys"
      by blast
    with y(1,2) show "\<exists>ys. length ys = Suc n \<and> list_all (\<lambda>y. y < 64) ys \<and> s = map cont_byte ys @ t \<and> w = ?w m ys"
      by (intro exI [of _ "y # ys"]) simp
  next
    assume "\<exists>ys. length ys = Suc n \<and> list_all (\<lambda>y. y < 64) ys \<and> s = map cont_byte ys @ t \<and> w = ?w m ys"
    then obtain y ys where y: "y < 64" "s = cont_byte y # map cont_byte ys @ t"
      and "length ys = n" "list_all (\<lambda>y. y < 64) ys" "w = ?w (m * 64 + y) ys"
      by (auto simp: length_Suc_conv)
    then have "utf8_rest n (word_of_nat (m * 64 + y)) (map cont_byte ys @ t) = (Some w, t)"
      unfolding IH [OF y(1)] by blast
    with y show "\<exists>y < 64. \<exists>s'. s = cont_byte y # s' \<and> utf8_rest n (word_of_nat (m * 64 + y)) s' = (Some w, t)"
      by blast
  qed
qed

text \<open>The lead byte decides which of the four forms is read.\<close>

lemma lead_value:
  fixes c :: u8
  shows "x < 32 \<Longrightarrow> ucast ((word_of_nat (192 + x) :: u8) AND 0x1f) = (word_of_nat x :: u32)"
    "x < 16 \<Longrightarrow> ucast ((word_of_nat (224 + x) :: u8) AND 0xf) = (word_of_nat x :: u32)"
    "x < 8 \<Longrightarrow> ucast ((word_of_nat (240 + x) :: u8) AND 7) = (word_of_nat x :: u32)"
proof -
  have eq: "ucast (b :: u8) = (word_of_nat x :: u32)" if "unat b = x" for b x
  proof -
    have "unat (ucast b :: u32) = x" using that by (simp add: unat_ucast_up)
    then show ?thesis by (metis word_of_nat_unat)
  qed
  have "(192 + x) mod 32 = x mod 32" "(224 + x) mod 16 = x mod 16" "(240 + x) mod 8 = x mod 8" for x :: nat
    by (subst mod_add_left_eq [symmetric], simp)+
  then show "x < 32 \<Longrightarrow> ucast ((word_of_nat (192 + x) :: u8) AND 0x1f) = (word_of_nat x :: u32)"
    "x < 16 \<Longrightarrow> ucast ((word_of_nat (224 + x) :: u8) AND 0xf) = (word_of_nat x :: u32)"
    "x < 8 \<Longrightarrow> ucast ((word_of_nat (240 + x) :: u8) AND 7) = (word_of_nat x :: u32)"
    by (intro eq; simp only: low_bits unat_u8_of_nat; simp)+
qed

lemma ex_list_Suc: "(\<exists>ys. length ys = Suc n \<and> P ys) \<longleftrightarrow> (\<exists>y zs. length zs = n \<and> P (y # zs))"
  by (metis length_Suc_conv)

lemma ex_list_0: "(\<exists>ys. length ys = 0 \<and> P ys) \<longleftrightarrow> P []"
  by simp

lemma utf8_rest_1:
  "x < 32 \<Longrightarrow> utf8_rest 1 (word_of_nat x) s = (Some w, t) \<longleftrightarrow>
    (\<exists>y < 64. s = cont_byte y # t \<and> w = word_of_nat (x * 64 + y))"
  unfolding One_nat_def
  by (subst utf8_rest_iff) (simp, simp only: ex_list_Suc ex_list_0 list.map append.simps foldl.simps list.pred_inject simp_thms)

lemma utf8_rest_2:
  "x < 16 \<Longrightarrow> utf8_rest 2 (word_of_nat x) s = (Some w, t) \<longleftrightarrow>
    (\<exists>y z. y < 64 \<and> z < 64 \<and> s = cont_byte y # cont_byte z # t \<and> w = word_of_nat ((x * 64 + y) * 64 + z))"
  unfolding numeral_2_eq_2
  by (subst utf8_rest_iff) (simp, simp only: ex_list_Suc ex_list_0 list.map append.simps foldl.simps list.pred_inject simp_thms conj_assoc)

lemma utf8_rest_3:
  "x < 8 \<Longrightarrow> utf8_rest 3 (word_of_nat x) s = (Some w, t) \<longleftrightarrow>
    (\<exists>y z u. y < 64 \<and> z < 64 \<and> u < 64 \<and> s = cont_byte y # cont_byte z # cont_byte u # t \<and>
      w = word_of_nat (((x * 64 + y) * 64 + z) * 64 + u))"
  unfolding numeral_3_eq_3
  by (subst utf8_rest_iff) (simp, simp only: ex_list_Suc ex_list_0 list.map append.simps foldl.simps list.pred_inject simp_thms conj_assoc)

lemma cbs_get_utf8_Cons:
  "cbs_get_utf8 (c # s) = (Some w, t) \<longleftrightarrow>
    (if unat c < 128 then w = ucast c \<and> t = s
     else if 192 \<le> unat c \<and> unat c < 192 + 32 then
       utf8_rest 1 (ucast (c AND 0x1f)) s = (Some w, t) \<and> is_valid_code_point w \<and> 0x80 \<le> unat w
     else if 224 \<le> unat c \<and> unat c < 224 + 16 then
       utf8_rest 2 (ucast (c AND 0xf)) s = (Some w, t) \<and> is_valid_code_point w \<and> 0x800 \<le> unat w
     else if 240 \<le> unat c \<and> unat c < 240 + 8 then
       utf8_rest 3 (ucast (c AND 7)) s = (Some w, t) \<and> is_valid_code_point w \<and> 0x10000 \<le> unat w
     else False)"
proof -
  have "c \<le> 0x7f \<longleftrightarrow> unat c < 128" by (simp add: word_le_nat_alt) linarith
  then show ?thesis
    by (auto simp: cbs_get_utf8_def pbind_Some_iff bits_eval lead_byte_tests Let_def word_less_nat_alt not_less
        simp del: utf8_rest.simps)
qed

lemma valid_ascii: "unat v < 128 \<Longrightarrow> is_valid_code_point v"
proof -
  assume v: "unat v < 128"
  have "v AND 0xfffe \<le> v" by (rule word_and_le2)
  with v show ?thesis
    by (auto simp: is_valid_code_point_def word_le_nat_alt word_less_nat_alt)
qed

text \<open>The four forms, by the digits of the code point in base 64.\<close>

lemma last_digit: "z < 64 \<Longrightarrow> (k * 64 + z) div 64 = k" "z < 64 \<Longrightarrow> (k * 64 + z) mod 64 = z" for z :: nat
  by simp_all

lemma utf8_bytes_forms:
  "x < 128 \<Longrightarrow> utf8_bytes x = [word_of_nat x]"
  "x < 32 \<Longrightarrow> y < 64 \<Longrightarrow> 0x80 \<le> x * 64 + y \<Longrightarrow> utf8_bytes (x * 64 + y) = [word_of_nat (192 + x), cont_byte y]"
  "x < 16 \<Longrightarrow> y < 64 \<Longrightarrow> z < 64 \<Longrightarrow> 0x800 \<le> (x * 64 + y) * 64 + z \<Longrightarrow>
    utf8_bytes ((x * 64 + y) * 64 + z) = [word_of_nat (224 + x), cont_byte y, cont_byte z]"
  "x < 8 \<Longrightarrow> y < 64 \<Longrightarrow> z < 64 \<Longrightarrow> u < 64 \<Longrightarrow> 0x10000 \<le> ((x * 64 + y) * 64 + z) * 64 + u \<Longrightarrow>
    utf8_bytes (((x * 64 + y) * 64 + z) * 64 + u) = [word_of_nat (240 + x), cont_byte y, cont_byte z, cont_byte u]"
proof -
  show "x < 128 \<Longrightarrow> utf8_bytes x = [word_of_nat x]"
    by (simp add: utf8_bytes_def)
  show "x < 32 \<Longrightarrow> y < 64 \<Longrightarrow> 0x80 \<le> x * 64 + y \<Longrightarrow> utf8_bytes (x * 64 + y) = [word_of_nat (192 + x), cont_byte y]"
  proof -
    assume *: "x < 32" "y < 64" "0x80 \<le> x * 64 + y"
    have "x * 64 + y < 2048" using *(1,2) by linarith
    moreover have "(x * 64 + y) div 64 = x" "(x * 64 + y) mod 64 = y" using *(2) by simp_all
    ultimately show ?thesis using *(3) by (simp only: utf8_bytes_def not_less [symmetric] if_False if_True list.map)
  qed
  show "utf8_bytes ((x * 64 + y) * 64 + z) = [word_of_nat (224 + x), cont_byte y, cont_byte z]"
    if "x < 16" "y < 64" "z < 64" "0x800 \<le> (x * 64 + y) * 64 + z"
  proof -
    let ?n = "(x * 64 + y) * 64 + z"
    have n: "?n < 65536" "\<not> ?n < 0x800" "\<not> ?n < 0x80" using that by simp_all
    note d1 = last_digit [OF that(3), of "x * 64 + y"]
    have d2: "?n div 4096 = x" "?n div 64 mod 64 = y"
      using div_mult2_eq [of ?n 64 64] unfolding d1 by (simp_all add: last_digit [OF that(2)])
    show ?thesis using n d1 d2 by (simp only: utf8_bytes_def if_False if_True list.map)
  qed
  show "utf8_bytes (((x * 64 + y) * 64 + z) * 64 + u) = [word_of_nat (240 + x), cont_byte y, cont_byte z, cont_byte u]"
    if "x < 8" "y < 64" "z < 64" "u < 64" "0x10000 \<le> ((x * 64 + y) * 64 + z) * 64 + u"
  proof -
    let ?n = "((x * 64 + y) * 64 + z) * 64 + u"
    have n: "\<not> ?n < 65536" "\<not> ?n < 0x800" "\<not> ?n < 0x80" using that by simp_all
    note d1 = last_digit [OF that(4), of "(x * 64 + y) * 64 + z"]
    note digit2 = last_digit [OF that(3), of "x * 64 + y"]
    have d2: "?n div 4096 = x * 64 + y" "?n div 64 mod 64 = z"
      using div_mult2_eq [of ?n 64 64] unfolding d1 digit2 by simp_all
    have d3: "?n div 262144 = x" "?n div 4096 mod 64 = y"
      using div_mult2_eq [of ?n 4096 64] unfolding d2 by (simp_all add: last_digit [OF that(2)])
    show ?thesis using n d1 d2 d3 by (simp only: utf8_bytes_def if_False list.map)
  qed
qed


lemma utf8_length_cases:
  fixes n :: nat
  assumes "n < 0x110000"
  obtains "n < 128"
  | x y where "n = x * 64 + y" "x < 32" "y < 64" "0x80 \<le> n"
  | x y z where "n = (x * 64 + y) * 64 + z" "x < 16" "y < 64" "z < 64" "0x800 \<le> n"
  | x y z u where "n = ((x * 64 + y) * 64 + z) * 64 + u" "x < 8" "y < 64" "z < 64" "u < 64" "0x10000 \<le> n"
proof -
  have split: "m = m div 64 * 64 + m mod 64" "m mod 64 < 64" "m < k * 64 \<Longrightarrow> m div 64 < k" for m k :: nat
    by (simp_all add: less_mult_imp_div_less)
  have one: "n div 64 < 0x4400" and two: "n div 64 div 64 < 0x110" and three: "n div 64 div 64 div 64 < 8"
    using assms by (intro split(3); simp add: less_mult_imp_div_less)+
  consider "n < 128" | "0x80 \<le> n" "n < 0x800" | "0x800 \<le> n" "n < 0x10000" | "0x10000 \<le> n"
    by linarith
  then show thesis
  proof cases
    case 1
    then show thesis by (rule that(1))
  next
    case 2
    then show thesis
      by (intro that(2) [OF split(1) _ split(2)]) (simp_all add: less_mult_imp_div_less)
  next
    case 3
    show thesis
    proof (rule that(3))
      show "n = (n div 64 div 64 * 64 + n div 64 mod 64) * 64 + n mod 64"
        by (simp only: split(1) [symmetric])
      show "n div 64 div 64 < 16" using 3 by (intro split(3)) simp
    qed (use 3 in simp_all)
  next
    case 4
    show thesis
    proof (rule that(4))
      show "n = ((n div 64 div 64 div 64 * 64 + n div 64 div 64 mod 64) * 64 + n div 64 mod 64) * 64 + n mod 64"
        by (simp only: split(1) [symmetric])
    qed (use 4 three in simp_all)
  qed
qed

lemma cbs_get_utf8_bytes:
  assumes "is_valid_code_point w"
  shows "cbs_get_utf8 (utf8_bytes (unat w) @ t) = (Some w, t)"
proof -
  have w: "w = word_of_nat (unat w)" by simp
  from valid_less [OF assms] show ?thesis
  proof (cases rule: utf8_length_cases)
    case 1
    then have "utf8_bytes (unat w) = [word_of_nat (unat w)]" by (rule utf8_bytes_forms)
    moreover have byte: "unat (word_of_nat (unat w) :: u8) = unat w"
      using 1 by (simp only: unat_u8_of_nat) simp
    then have "unat (ucast (word_of_nat (unat w) :: u8) :: u32) = unat w"
      by (subst unat_ucast_up) simp_all
    then have "ucast (word_of_nat (unat w) :: u8) = w"
      by (simp only: word_unat_eq_iff)
    ultimately show ?thesis
      by (simp only: append.simps cbs_get_utf8_Cons byte 1 if_True simp_thms)
  next
    case (2 x y)
    have "unat (word_of_nat (192 + x) :: u8) = 192 + x" using 2 by (simp only: unat_u8_of_nat) simp
    moreover have "utf8_bytes (unat w) = [word_of_nat (192 + x), cont_byte y]"
      using 2 utf8_bytes_forms(2) [of x y] by simp
    moreover have "utf8_rest 1 (word_of_nat x) (cont_byte y # t) = (Some w, t)"
      using 2 w by (auto simp only: utf8_rest_1)
    ultimately show ?thesis using 2 assms
      by (simp only: append.simps cbs_get_utf8_Cons lead_value) simp
  next
    case (3 x y z)
    have "unat (word_of_nat (224 + x) :: u8) = 224 + x" using 3 by (simp only: unat_u8_of_nat) simp
    moreover have "utf8_bytes (unat w) = [word_of_nat (224 + x), cont_byte y, cont_byte z]"
      using 3 utf8_bytes_forms(3) [of x y z] by simp
    moreover have "utf8_rest 2 (word_of_nat x) (cont_byte y # cont_byte z # t) = (Some w, t)"
      using 3 w by (auto simp only: utf8_rest_2)
    ultimately show ?thesis using 3 assms
      by (simp only: append.simps cbs_get_utf8_Cons lead_value) simp
  next
    case (4 x y z u)
    have "unat (word_of_nat (240 + x) :: u8) = 240 + x" using 4 by (simp only: unat_u8_of_nat) simp
    moreover have "utf8_bytes (unat w) = [word_of_nat (240 + x), cont_byte y, cont_byte z, cont_byte u]"
      using 4 utf8_bytes_forms(4) [of x y z u] by simp
    moreover have "utf8_rest 3 (word_of_nat x) (cont_byte y # cont_byte z # cont_byte u # t) = (Some w, t)"
      using 4 w by (auto simp only: utf8_rest_3)
    ultimately show ?thesis using 4 assms
      by (simp only: append.simps cbs_get_utf8_Cons lead_value) simp
  qed
qed

lemma cbs_get_utf8_sound:
  assumes "cbs_get_utf8 s = (Some w, t)"
  shows "is_valid_code_point w \<and> s = utf8_bytes (unat w) @ t"
proof -
  obtain c s' where s: "s = c # s'"
    using assms by (cases s) (simp_all add: cbs_get_utf8_def CBS_get_u8_def cbs_get_def pbind_def pmap_def)
  have u32: "n < 2 ^ 32 \<Longrightarrow> unat (word_of_nat n :: u32) = n" for n by (rule unat_u32_of_nat)
  note read = assms [unfolded s cbs_get_utf8_Cons]
  consider "unat c < 128" | x where "x < 32" "c = word_of_nat (192 + x)" "192 \<le> unat c \<and> unat c < 192 + 32"
    | x where "x < 16" "c = word_of_nat (224 + x)" "224 \<le> unat c \<and> unat c < 224 + 16"
    | x where "x < 8" "c = word_of_nat (240 + x)" "240 \<le> unat c \<and> unat c < 240 + 8"
    using read byte_in_range [of 192 32 c] byte_in_range [of 224 16 c] byte_in_range [of 240 8 c]
    by (simp split: if_splits) (meson | blast)+
  then show ?thesis
  proof cases
    case 1
    then have w: "w = ucast c" "t = s'" using read by simp_all
    then have "unat w = unat c" by (simp add: unat_ucast_up)
    with 1 w s show ?thesis by (simp add: utf8_bytes_forms valid_ascii)
  next
    case (2 x)
    from read 2 have read2: "utf8_rest 1 (word_of_nat x) s' = (Some w, t)" "is_valid_code_point w" "0x80 \<le> unat w"
      by (simp_all only: lead_value) (simp_all split: if_splits)
    then obtain y where digits: "y < 64" and s': "s' = cont_byte y # t" and w: "w = word_of_nat (x * 64 + y)"
      using 2(1) by (auto simp only: utf8_rest_1)
    have "x * 64 + y < 2 ^ 32" using digits 2(1) by simp
    then have "unat w = x * 64 + y" unfolding w by (rule u32)
    with read2 digits 2(1) have "utf8_bytes (unat w) = [c, cont_byte y]"
      by (simp only: utf8_bytes_forms 2(2))
    with read2 s s' show ?thesis by simp
  next
    case (3 x)
    from read 3 have read3: "utf8_rest 2 (word_of_nat x) s' = (Some w, t)" "is_valid_code_point w" "0x800 \<le> unat w"
      by (simp_all only: lead_value) (simp_all split: if_splits)
    then obtain y z where digits: "y < 64" "z < 64" and s': "s' = cont_byte y # cont_byte z # t" and w: "w = word_of_nat ((x * 64 + y) * 64 + z)"
      using 3(1) by (auto simp only: utf8_rest_2)
    have "(x * 64 + y) * 64 + z < 2 ^ 32" using digits 3(1) by simp
    then have "unat w = (x * 64 + y) * 64 + z" unfolding w by (rule u32)
    with read3 digits 3(1) have "utf8_bytes (unat w) = [c, cont_byte y, cont_byte z]"
      by (simp only: utf8_bytes_forms 3(2))
    with read3 s s' show ?thesis by simp
  next
    case (4 x)
    from read 4 have read4: "utf8_rest 3 (word_of_nat x) s' = (Some w, t)" "is_valid_code_point w" "0x10000 \<le> unat w"
      by (simp_all only: lead_value) (simp_all split: if_splits)
    then obtain y z u where digits: "y < 64" "z < 64" "u < 64" and s': "s' = cont_byte y # cont_byte z # cont_byte u # t" and w: "w = word_of_nat (((x * 64 + y) * 64 + z) * 64 + u)"
      using 4(1) by (auto simp only: utf8_rest_3)
    have "((x * 64 + y) * 64 + z) * 64 + u < 2 ^ 32" using digits 4(1) by simp
    then have "unat w = ((x * 64 + y) * 64 + z) * 64 + u" unfolding w by (rule u32)
    with read4 digits 4(1) have "utf8_bytes (unat w) = [c, cont_byte y, cont_byte z, cont_byte u]"
      by (simp only: utf8_bytes_forms 4(2))
    with read4 s s' show ?thesis by simp
  qed
qed


lemma cbs_get_utf8_Some_iff:
  "cbs_get_utf8 s = (Some w, t) \<longleftrightarrow> is_valid_code_point w \<and> s = utf8_bytes (unat w) @ t"
  using cbs_get_utf8_sound cbs_get_utf8_bytes by blast

lemma utf8_bytes_nonempty: "utf8_bytes n \<noteq> []"
  by (simp add: utf8_bytes_def)

lemma utf8_rest_prefix: "utf8_rest n v s = (r, t) \<Longrightarrow> \<exists>p. s = p @ t"
proof (induction n arbitrary: v s r t)
  case (Suc n)
  show ?case
    by (rule reads_prefix_pbind [OF CBS_get_u8_prefix _ Suc.prems [unfolded utf8_rest.simps]])
      (auto split: if_splits intro: Suc.IH)
qed simp

lemma cbs_get_utf8_prefix: "cbs_get_utf8 s = (r, t) \<Longrightarrow> \<exists>p. s = p @ t"
proof -
  have tail: "\<exists>p. s = p @ t" if "pbind (utf8_rest n v) (\<lambda>v. if P v then pfail else pret v) s = (r, t)" for n v P s r t
    by (rule reads_prefix_pbind [OF utf8_rest_prefix _ that]) (auto split: if_splits)
  assume read: "cbs_get_utf8 s = (r, t)"
  show ?thesis
    by (rule reads_prefix_pbind [OF CBS_get_u8_prefix _ read [unfolded cbs_get_utf8_def Let_def]])
      (auto simp del: utf8_rest.simps split: if_splits intro: tail [where P = "\<lambda>v. is_valid_code_point v \<longrightarrow> v < _", simplified])
qed

text \<open>UTF-8 is a canonical code, so no character's encoding begins another's.\<close>

interpretation utf8: cbs_canonical_codec cbs_get_utf8 "\<lambda>w. utf8_bytes (unat w)" is_valid_code_point
  by unfold_locales (auto simp: cbs_get_utf8_Some_iff utf8_bytes_nonempty intro: cbs_get_utf8_prefix)

section \<open>Writing\<close>

lemma lead_written:
  fixes w :: u32
  shows "unat w < 64 \<Longrightarrow> ucast (ucast (TOP_BITS 1) OR w) = cont_byte (unat w)"
    "unat w < 32 \<Longrightarrow> ucast (ucast (TOP_BITS 2) OR w) = (word_of_nat (192 + unat w) :: u8)"
    "unat w < 16 \<Longrightarrow> ucast (ucast (TOP_BITS 3) OR w) = (word_of_nat (224 + unat w) :: u8)"
    "unat w < 8 \<Longrightarrow> ucast (ucast (TOP_BITS 4) OR w) = (word_of_nat (240 + unat w) :: u8)"
proof -
  have tops: "(ucast (TOP_BITS 1) :: u32) = push_bit 7 1" "(ucast (TOP_BITS 2) :: u32) = push_bit 6 3"
    "(ucast (TOP_BITS 3) :: u32) = push_bit 5 7" "(ucast (TOP_BITS 4) :: u32) = push_bit 4 15"
    by (simp_all add: bits_eval push_bit_eq_mult)
  have byte: "ucast v = (word_of_nat (unat v) :: u8)" for v :: u32
    by simp
  show "unat w < 64 \<Longrightarrow> ucast (ucast (TOP_BITS 1) OR w) = cont_byte (unat w)"
    by (simp only: tops byte) (subst unat_push_bit_or, simp_all)
  show "unat w < 32 \<Longrightarrow> ucast (ucast (TOP_BITS 2) OR w) = (word_of_nat (192 + unat w) :: u8)"
    by (simp only: tops byte) (subst unat_push_bit_or, simp_all)
  show "unat w < 16 \<Longrightarrow> ucast (ucast (TOP_BITS 3) OR w) = (word_of_nat (224 + unat w) :: u8)"
    by (simp only: tops byte) (subst unat_push_bit_or, simp_all)
  show "unat w < 8 \<Longrightarrow> ucast (ucast (TOP_BITS 4) OR w) = (word_of_nat (240 + unat w) :: u8)"
    by (simp only: tops byte) (subst unat_push_bit_or, simp_all)
qed

lemma low_six: "unat (w AND ucast (BOTTOM_BITS 6)) = unat w mod 64" for w :: u32
proof -
  have "w AND ucast (BOTTOM_BITS 6) = take_bit 6 w"
    by (simp add: bits_eval take_bit_eq_mask mask_eq_exp_minus_1)
  then have "unat (w AND ucast (BOTTOM_BITS 6)) = take_bit 6 (unat w)"
    by (simp only: unsigned_take_bit_eq)
  then show ?thesis by (simp add: take_bit_eq_mod)
qed

lemma add_then_implements:
  assumes "cbb_op f (spec_add h [a])" and "cbb_op g (spec_add h x)"
  shows "cbb_op (\<lambda>sys. pbind (f sys) (\<lambda>_. g sys)) (spec_add h (a # x))"
proof -
  have "cbb_op (\<lambda>sys. pbind (f sys) (\<lambda>_. g sys)) (\<lambda>ls. Option.bind (spec_add h [a] ls) (spec_add h x))"
    by (rule implements_bind [OF assms]) simp
  then show ?thesis by simp
qed

lemma cbb_add_utf8_implements:
  assumes "is_valid_code_point u"
  shows "cbb_op (\<lambda>sys. cbb_add_utf8 sys h u) (spec_add h (utf8_bytes (unat u)))"
proof -
  let ?n = "unat u"
  have n: "?n < 0x110000" using assms by (rule valid_less)
  note adds = CBB_add_u8_implements add_then_implements
  have digits: "?n div 64 mod 64 < 64" "?n mod 64 < 64" "?n div 4096 mod 64 < 64" by simp_all
  have limits: "u \<le> 0x7f \<longleftrightarrow> ?n < 0x80" "u \<le> 0x7ff \<longleftrightarrow> ?n < 0x800" "u \<le> 0xffff \<longleftrightarrow> ?n < 0x10000" "u \<le> 0x10ffff"
    using n by (auto simp: word_le_nat_alt)
  have low: "ucast (ucast (TOP_BITS 1) OR (v AND ucast (BOTTOM_BITS 6))) = cont_byte (unat v mod 64)" for v :: u32
    by (subst lead_written) (simp_all add: low_six)
  consider "?n < 0x80" | "0x80 \<le> ?n" "?n < 0x800" | "0x800 \<le> ?n" "?n < 0x10000" | "0x10000 \<le> ?n"
    by linarith
  then show ?thesis
  proof cases
    case 1
    then have "ucast u = (word_of_nat ?n :: u8)" by simp
    with 1 assms show ?thesis
      by (simp add: cbb_add_utf8_def limits utf8_bytes_def CBB_add_u8_implements)
  next
    case 2
    have "unat (drop_bit 6 u) < 32" using 2 by (simp add: unat_drop_bit_div less_mult_imp_div_less)
    then have "ucast (ucast (TOP_BITS 2) OR drop_bit 6 u) = (word_of_nat (192 + ?n div 64) :: u8)"
      using lead_written(2) [of "drop_bit 6 u"] unat_drop_bit_div [of 6 u] by simp
    moreover have n2: "\<not> ?n < 0x80" "?n < 0x800" using 2 by simp_all
    ultimately show ?thesis
      using assms by (simp only: cbb_add_utf8_def Let_def limits if_False if_True simp_thms
          utf8_bytes_def list.map low adds)
  next
    case 3
    have "unat (drop_bit 12 u) < 16" using 3 by (simp add: unat_drop_bit_div less_mult_imp_div_less)
    then have "ucast (ucast (TOP_BITS 3) OR drop_bit 12 u) = (word_of_nat (224 + ?n div 4096) :: u8)"
      using lead_written(3) [of "drop_bit 12 u"] unat_drop_bit_div [of 12 u] by simp
    moreover have "\<not> ?n < 0x80" "\<not> ?n < 0x800" "?n < 0x10000" using 3 by simp_all
    moreover have "unat (drop_bit 6 u) = ?n div 64" using unat_drop_bit_div [of 6 u] by simp
    ultimately show ?thesis
      using assms by (simp only: cbb_add_utf8_def Let_def limits if_False if_True simp_thms
          utf8_bytes_def list.map low adds)
  next
    case 4
    have "unat (drop_bit 18 u) < 8" using n by (simp add: unat_drop_bit_div less_mult_imp_div_less)
    then have "ucast (ucast (TOP_BITS 4) OR drop_bit 18 u) = (word_of_nat (240 + ?n div 262144) :: u8)"
      using lead_written(4) [of "drop_bit 18 u"] unat_drop_bit_div [of 18 u] by simp
    moreover have "\<not> ?n < 0x80" "\<not> ?n < 0x800" "\<not> ?n < 0x10000" using 4 by simp_all
    moreover have "unat (drop_bit 6 u) = ?n div 64" "unat (drop_bit 12 u) = ?n div 4096"
      using unat_drop_bit_div [of 6 u] unat_drop_bit_div [of 12 u] by simp_all
    ultimately show ?thesis
      using assms by (simp only: cbb_add_utf8_def Let_def limits if_False if_True simp_thms
          utf8_bytes_def list.map low adds)
  qed
qed

lemma cbb_get_utf8_len_eq:
  "is_valid_code_point u \<Longrightarrow> cbb_get_utf8_len u = length (utf8_bytes (unat u))"
  by (auto simp: cbb_get_utf8_len_def utf8_bytes_def word_le_nat_alt)


text \<open>A text, one code point after the other.\<close>

primrec add_utf8_all :: "u32 list \<Rightarrow> (nat \<Rightarrow> bool) \<Rightarrow> (cbb, unit) op" where
  "add_utf8_all [] = (\<lambda>sys. pret ())"
| "add_utf8_all (u # us) = (\<lambda>sys. pbind (cbb_add_utf8 sys 0 u) (\<lambda>_. add_utf8_all us sys))"

lemma add_utf8_all_implements:
  "list_all is_valid_code_point us \<Longrightarrow>
    cbb_implements (innermost 0) (add_utf8_all us) (spec_add 0 (concat (map (\<lambda>w. utf8_bytes (unat w)) us)))"
proof (induction us)
  case Nil
  show ?case using pret_implements [of 0] by (simp only: add_utf8_all.simps list.map concat.simps)
next
  case (Cons u us)
  then show ?case
    using implements_add_add [OF implements_weaken [OF cbb_add_utf8_implements [of u 0]]] by simp
qed

lemma one_le_length_utf8: "Suc 0 \<le> length (utf8_bytes n)"
  by (simp add: Suc_le_eq utf8_bytes_nonempty)

section \<open>Properties\<close>

text \<open>
  C32: The UTF-8 reader accepts exactly the encodings of valid code points: no overlong form, no
  surrogate, no non-character and nothing above U+10FFFF, and it takes the character's bytes only.
\<close>

theorem utf8_exact:
  "cbs_get_utf8 s = (Some w, t) \<longleftrightarrow> is_valid_code_point w \<and> s = utf8_bytes (unat w) @ t"
  by (rule cbs_get_utf8_Some_iff)

text \<open>
  What \<open>cbb_add_utf8\<close> writes, \<open>cbs_get_utf8\<close> reads back: when a builder has taken the code
  points one after the other, the text it returns has the length that \<open>cbb_get_utf8_len\<close>
  promises, and reading it until the end gives the code points.
\<close>

lemma utf8_text_roundtrip:
  assumes "list_all is_valid_code_point us" and "cap < size_modulus" and "CBB_init sys cap = Some st"
    and "add_utf8_all us sys st = (Some u, st1)" and "CBB_finish sys d l h st1 = (Some out, st2)"
  shows "length out = sum_list (map cbb_get_utf8_len us) \<and> read_all (length out) cbs_get_utf8 out = Some us"
proof -
  have out: "out = concat (map (\<lambda>w. utf8_bytes (unat w)) us)"
    using assms by (intro built_bytes [OF add_utf8_all_implements]) auto
  have "length us \<le> length out"
    unfolding out by (induction us) (simp, use add_mono [OF one_le_length_utf8] in fastforce)
  moreover have "length out = sum_list (map cbb_get_utf8_len us)"
    using assms(1) unfolding out by (induction us) (simp_all add: cbb_get_utf8_len_eq)
  ultimately show ?thesis
    using utf8.read_all_enc [OF assms(1)] unfolding out by blast
qed

lemma utf8_text_roundtrip_witness:
  "\<exists>st st1 out st2. CBB_init (\<lambda>_. True) 8 = Some st \<and> add_utf8_all [0x41, 0x20ac] (\<lambda>_. True) st = (Some (), st1) \<and>
    CBB_finish (\<lambda>_. True) True True 0 st1 = (Some out, st2) \<and> length out = 4 \<and>
    read_all (length out) cbs_get_utf8 out = Some [0x41, 0x20ac]"
proof -
  have valid: "list_all is_valid_code_point [0x41, 0x20ac]" by (simp add: is_valid_code_point_def)
  have "length (concat (map (\<lambda>w. utf8_bytes (unat w)) [0x41, 0x20ac :: u32])) < 2 ^ 62"
    by (simp add: utf8_bytes_def)
  with built_bytes_complete [OF add_utf8_all_implements [OF valid], of 8] obtain st st1 out st2 where
    run: "CBB_init (\<lambda>_. True) 8 = Some st" "add_utf8_all [0x41, 0x20ac] (\<lambda>_. True) st = (Some (), st1)"
      "CBB_finish (\<lambda>_. True) True True 0 st1 = (Some out, st2)"
    by auto
  have cap: "8 < size_modulus" by simp
  note back_again = utf8_text_roundtrip [OF valid cap run]
  have "sum_list (map cbb_get_utf8_len [0x41, 0x20ac]) = 4"
    by (simp add: cbb_get_utf8_len_def)
  with back_again have "length out = 4 \<and> read_all (length out) cbs_get_utf8 out = Some [0x41, 0x20ac]"
    by metis
  with run show ?thesis by blast
qed

end
