(* ===== verification/Oid.thy ===== *)
theory Oid
  imports Builder
begin

text \<open>
  Object identifiers: \<open>CBS_asn1_oid_to_text\<close> of \<open>cbs.c\<close> writes the contents of an OBJECT
  IDENTIFIER as dotted decimals, \<open>CBB_add_asn1_oid_from_text\<close> of \<open>cbb.c\<close> reads them back. The
  reference is the list of the arcs of the identifier, with its text and its DER contents.
\<close>

section \<open>Operations\<close>

definition DECIMAL_SIZE_u64 :: nat where
  "DECIMAL_SIZE_u64 = (8 * 8 + 2) div 3 + 1"

text \<open>What the C library prints for \<open>%llu\<close>.\<close>

fun decimal :: "nat \<Rightarrow> u8 list" where
  "decimal n = (if n < 10 then [word_of_nat (48 + n)] else decimal (n div 10) @ [word_of_nat (48 + n mod 10)])"

declare decimal.simps [simp del]

text \<open>\<open>BIO_snprintf\<close> writes at most the size of the buffer less the terminator.\<close>

definition add_decimal :: "(nat \<Rightarrow> bool) \<Rightarrow> nat \<Rightarrow> u64 \<Rightarrow> (cbb, unit) op" where
  "add_decimal sys h v =
     (let buf = take (DECIMAL_SIZE_u64 + 1 - 1) (decimal (unat v)) in CBB_add_bytes sys h buf)"

lemma parse_base128_progress: "parse_base128_integer s = (Some v, t) \<Longrightarrow> length t < length s"
  by (rule base128_codec.length_less)

function oid_to_text_loop :: "(nat \<Rightarrow> bool) \<Rightarrow> cbs \<Rightarrow> (cbb, unit) op" where
  "oid_to_text_loop sys copy =
     (if CBS_len copy \<noteq> 0 then
       (case parse_base128_integer copy of
          (None, _) \<Rightarrow> pfail
        | (Some v, copy) \<Rightarrow>
            pbind (CBB_add_u8 sys 0 46) (\<lambda>_. pbind (add_decimal sys 0 v) (\<lambda>_. oid_to_text_loop sys copy)))
      else pret ())"
  by auto
termination
  by (relation "measure (\<lambda>(sys, copy). length copy)") (auto dest: parse_base128_progress [OF sym])

declare oid_to_text_loop.simps [simp del]

definition oid_first_text :: "(nat \<Rightarrow> bool) \<Rightarrow> u64 \<Rightarrow> (cbb, unit) op" where
  "oid_first_text sys v =
     (if v \<ge> 80 then pbind (CBB_add_bytes sys 0 [50, 46]) (\<lambda>_. add_decimal sys 0 (v - 80))
      else pbind (add_decimal sys 0 (v div 40)) (\<lambda>_.
             pbind (CBB_add_u8 sys 0 46) (\<lambda>_. add_decimal sys 0 (v mod 40))))"

definition oid_to_text_body :: "(nat \<Rightarrow> bool) \<Rightarrow> cbs \<Rightarrow> (cbb, unit) op" where
  "oid_to_text_body sys copy =
     (case parse_base128_integer copy of
        (None, _) \<Rightarrow> pfail
      | (Some v, copy) \<Rightarrow>
          pbind (oid_first_text sys v) (\<lambda>_. pbind (oid_to_text_loop sys copy) (\<lambda>_. CBB_add_u8 sys 0 0)))"

definition CBS_asn1_oid_to_text :: "(nat \<Rightarrow> bool) \<Rightarrow> cbs \<Rightarrow> u8 list option" where
  "CBS_asn1_oid_to_text sys s =
     (case CBB_init sys 32 of
        None \<Rightarrow> None
      | Some cbb \<Rightarrow> fst (pbind (oid_to_text_body sys s) (\<lambda>_. CBB_finish sys True True 0) cbb))"

text \<open>One component of the text and the dot after it; \<open>seen_digit\<close> and \<open>*out\<close> are the loop's state.\<close>

fun parse_dotted_loop :: "bool \<Rightarrow> u64 \<Rightarrow> (cbs, u64) op" where
  "parse_dotted_loop seen_digit out [] = (if seen_digit then Some out else None, [])"
| "parse_dotted_loop seen_digit out (u # s) =
     (if u = 46 \<and> CBS_len s > 0 then (if seen_digit then Some out else None, s)
      else if u < 48 \<or> u > 57 \<or> (seen_digit \<and> out = 0) \<or> out > -1 div 10 \<or> out * 10 > -1 - ucast (u - 48)
      then (None, s)
      else parse_dotted_loop True (out * 10 + ucast (u - 48)) s)"

definition parse_dotted_decimal :: "(cbs, u64) op" where
  "parse_dotted_decimal = parse_dotted_loop False 0"

lemma parse_dotted_loop_length:
  "parse_dotted_loop seen v s = (Some w, t) \<Longrightarrow> if seen then length t \<le> length s else length t < length s"
  by (induction seen v s rule: parse_dotted_loop.induct) (auto split: if_splits)

lemma parse_dotted_progress: "parse_dotted_decimal s = (Some v, t) \<Longrightarrow> length t < length s"
  unfolding parse_dotted_decimal_def by (drule parse_dotted_loop_length) simp

function oid_from_text_loop :: "(nat \<Rightarrow> bool) \<Rightarrow> nat \<Rightarrow> cbs \<Rightarrow> (cbb, unit) op" where
  "oid_from_text_loop sys h s =
     (if CBS_len s > 0 then
       (case parse_dotted_decimal s of
          (None, _) \<Rightarrow> pfail
        | (Some a, s) \<Rightarrow> pbind (add_base128_integer sys h a) (\<lambda>_. oid_from_text_loop sys h s))
      else pret ())"
  by auto
termination
  by (relation "measure (\<lambda>(sys, h, s). length s)") (auto dest: parse_dotted_progress [OF sym])

declare oid_from_text_loop.simps [simp del]

definition CBB_add_asn1_oid_from_text :: "(nat \<Rightarrow> bool) \<Rightarrow> nat \<Rightarrow> u8 list \<Rightarrow> nat \<Rightarrow> (cbb, unit) op" where
  "CBB_add_asn1_oid_from_text sys h text len =
     pbind (CBB_flush sys h) (\<lambda>_.
       case parse_dotted_decimal (CBS_init text len) of
         (None, _) \<Rightarrow> pfail
       | (Some a, s) \<Rightarrow>
      (case parse_dotted_decimal s of
         (None, _) \<Rightarrow> pfail
       | (Some b, s) \<Rightarrow>
           if a > 2 \<or> (a < 2 \<and> b > 39) \<or> b > -1 - 80 then pfail
           else pbind (add_base128_integer sys h (40 * a + b)) (\<lambda>_. oid_from_text_loop sys h s)))"


section \<open>Decimal numbers\<close>

abbreviation digit :: "nat \<Rightarrow> u8" where
  "digit d \<equiv> word_of_nat (48 + d)"

definition is_digit :: "u8 \<Rightarrow> bool" where
  "is_digit u \<longleftrightarrow> 48 \<le> unat u \<and> unat u \<le> 57"

definition digit_step :: "nat \<Rightarrow> u8 \<Rightarrow> nat" where
  "digit_step n u = n * 10 + (unat u - 48)"

definition canonical_digits :: "u8 list \<Rightarrow> bool" where
  "canonical_digits ds \<longleftrightarrow> list_all is_digit ds \<and> ds \<noteq> [] \<and> (hd ds = 48 \<longrightarrow> length ds = 1)"

lemma unat_digit: "d < 10 \<Longrightarrow> unat (digit d) = 48 + d"
  by (simp only: unat_u8_of_nat) simp

lemma is_digit_digit: "d < 10 \<Longrightarrow> is_digit (digit d)"
  by (simp only: is_digit_def unat_digit) simp

lemma decimal_digit: "n < 10 \<Longrightarrow> decimal n = [digit n]"
  by (simp only: decimal.simps [of n] if_True)

lemma decimal_snoc: "0 < m \<Longrightarrow> d < 10 \<Longrightarrow> decimal (m * 10 + d) = decimal m @ [digit d]"
proof -
  assume "0 < m" "d < 10"
  then have "\<not> m * 10 + d < 10" "(m * 10 + d) div 10 = m" "(m * 10 + d) mod 10 = d"
    by simp_all
  then show ?thesis by (simp only: decimal.simps [of "m * 10 + d"] if_False)
qed

lemma is_digit_value: "is_digit u \<Longrightarrow> unat u - 48 < 10" "is_digit u \<Longrightarrow> digit (unat u - 48) = u"
proof -
  assume u: "is_digit u"
  then have "48 + (unat u - 48) = unat u" "unat u \<le> 57" by (simp_all add: is_digit_def)
  then show "unat u - 48 < 10" "digit (unat u - 48) = u" by (linarith, simp only: u8_of_nat_unat)
qed

lemma decimal_more_digits:
  "0 < m \<Longrightarrow> list_all is_digit ds \<Longrightarrow> decimal (foldl digit_step m ds) = decimal m @ ds"
proof (induction ds arbitrary: m)
  case (Cons u ds)
  have u: "unat u - 48 < 10" "digit (unat u - 48) = u"
    using Cons.prems is_digit_value [of u] by simp_all
  have "decimal (digit_step m u) = decimal m @ [u]"
    using decimal_snoc [OF Cons.prems(1) u(1)] by (simp only: digit_step_def u(2))
  with Cons show ?case by (simp add: digit_step_def)
qed simp

lemma decimal_foldl: "canonical_digits ds \<Longrightarrow> decimal (foldl digit_step 0 ds) = ds"
proof (cases ds)
  case (Cons u us)
  assume ds: "canonical_digits ds"
  have u: "unat u - 48 < 10" "digit (unat u - 48) = u"
    using ds Cons is_digit_value [of u] by (simp_all add: canonical_digits_def)
  have first: "decimal (digit_step 0 u) = [u]"
    using decimal_digit [OF u(1)] by (simp only: digit_step_def mult_0 add_0 u(2))
  show ?thesis
  proof (cases us)
    case Nil
    with first Cons show ?thesis by simp
  next
    case (Cons v vs)
    with ds \<open>ds = u # us\<close> have "u \<noteq> 48" "48 \<le> unat u" by (auto simp: canonical_digits_def is_digit_def)
    then have "unat u \<noteq> 48" by (metis unat_digit word_unat_eq_iff \<open>digit (unat u - 48) = u\<close> diff_self_eq_0 add_0_right of_nat_numeral)
    with \<open>48 \<le> unat u\<close> have "0 < digit_step 0 u" by (simp add: digit_step_def)
    from decimal_more_digits [OF this, of us] first ds \<open>ds = u # us\<close> show ?thesis
      by (simp add: canonical_digits_def)
  qed
qed (simp add: canonical_digits_def)

lemma decimal_canonical: "canonical_digits (decimal n) \<and> foldl digit_step 0 (decimal n) = n"
proof (induction n rule: decimal.induct)
  case (1 n)
  show ?case
  proof (cases "n < 10")
    case True
    then show ?thesis
      by (simp only: decimal_digit canonical_digits_def list.pred_inject is_digit_digit foldl.simps digit_step_def unat_digit) simp
  next
    case False
    let ?ds = "decimal (n div 10)" and ?d = "n mod 10"
    have IH: "canonical_digits ?ds" "foldl digit_step 0 ?ds = n div 10"
      using 1 False by blast+
    have n: "decimal n = ?ds @ [digit ?d]"
      by (subst decimal.simps) (simp only: False if_False)
    have "hd ?ds \<noteq> 48"
    proof
      assume "hd ?ds = 48"
      with IH(1) have "?ds = [48]" by (auto simp: canonical_digits_def length_Suc_conv)
      with IH(2) have "n div 10 = 0" by (simp add: digit_step_def)
      with False show False by (simp add: div_eq_0_iff)
    qed
    with IH have "canonical_digits (?ds @ [digit ?d])"
      by (simp add: canonical_digits_def is_digit_digit del: of_nat_add)
    moreover have "foldl digit_step 0 (?ds @ [digit ?d]) = n"
      using IH(2) by (simp add: digit_step_def unat_digit del: of_nat_add)
    ultimately show ?thesis by (simp only: n)
  qed
qed

lemma length_decimal: "n < 10 ^ k \<Longrightarrow> 0 < k \<Longrightarrow> length (decimal n) \<le> k"
proof (induction n arbitrary: k rule: decimal.induct)
  case (1 n)
  show ?case
  proof (cases "n < 10")
    case True
    with 1 show ?thesis by (simp add: decimal_digit)
  next
    case False
    with 1 obtain j where j: "k = Suc j" "0 < j" by (cases k; cases "k - 1") auto
    with 1 False have "length (decimal (n div 10)) \<le> j"
      by (intro "1.IH") (auto simp: less_mult_imp_div_less mult.commute)
    with False j show ?thesis by (subst decimal.simps) simp
  qed
qed

lemma decimal_fits: "length (decimal (unat (v :: u64))) \<le> 20"
  by (rule length_decimal) (use unat_u64_less [of v] in simp_all)

lemma add_decimal_implements: "cbb_op (\<lambda>sys. add_decimal sys h v) (spec_add h (decimal (unat v)))"
proof -
  have "take (DECIMAL_SIZE_u64 + 1 - 1) (decimal (unat v)) = decimal (unat v)"
    using decimal_fits [of v] by (simp add: DECIMAL_SIZE_u64_def)
  then show ?thesis
    using CBB_add_bytes_implements [of "decimal (unat v)" h] decimal_fits [of v] by (simp add: add_decimal_def)
qed


section \<open>Reading a component\<close>

text \<open>A component is the whole text, or ends with a dot that is not the last byte.\<close>

definition component :: "u8 list \<Rightarrow> u8 list \<Rightarrow> u8 list \<Rightarrow> bool" where
  "component s ds t \<longleftrightarrow> s = ds \<and> t = [] \<or> s = ds @ 46 # t \<and> t \<noteq> []"

lemma overflow_check:
  fixes out :: u64
  assumes "d < 10"
  shows "\<not> (out > -1 div 10 \<or> out * 10 > -1 - word_of_nat d) \<longleftrightarrow> unat out * 10 + d < 2 ^ 64"
proof -
  have top: "unat (-1 :: u64) = 2 ^ 64 - 1"
    by (simp add: unsigned_minus_1_eq_mask mask_eq_exp_minus_1)
  have max10: "unat (-1 div 10 :: u64) = (2 ^ 64 - 1) div 10"
    by (simp add: unat_div_distrib top)
  have d: "unat (-1 - word_of_nat d :: u64) = 2 ^ 64 - 1 - d"
    using assms by (simp add: unat_sub_if' top unat_u64_of_nat)
  show ?thesis
  proof (cases "out > -1 div 10")
    case True
    then show ?thesis
      using assms by (simp add: word_less_nat_alt max10)
  next
    case False
    then have le: "unat out \<le> (2 ^ 64 - 1) div 10"
      by (simp add: word_less_nat_alt max10)
    then have "unat (out * 10) = unat out * 10"
      by (simp add: unat_word_ariths)
    with False d show ?thesis
      using assms by (simp add: word_less_nat_alt) linarith
  qed
qed


lemma component_Nil: "component [] ds t \<longleftrightarrow> ds = [] \<and> t = []"
  by (auto simp: component_def)

lemma component_Cons:
  "component (u # s) ds t \<longleftrightarrow> ds = [] \<and> u = 46 \<and> s = t \<and> t \<noteq> [] \<or> (\<exists>ds'. ds = u # ds' \<and> component s ds' t)"
  by (cases ds) (auto simp: component_def)

lemma dot_no_digit: "\<not> is_digit 46"
  by (simp add: is_digit_def)

lemma is_digit_iff: "is_digit u \<longleftrightarrow> \<not> (u < 48 \<or> u > 57)"
  by (auto simp: is_digit_def word_less_nat_alt)

lemma le_foldl_digits: "m \<le> foldl digit_step m ds"
proof (induction ds arbitrary: m)
  case (Cons u ds)
  have "m \<le> digit_step m u" by (simp add: digit_step_def)
  with Cons [of "digit_step m u"] show ?case by simp
qed simp

lemma digit_word: "is_digit u \<Longrightarrow> ucast (u - 48) = (word_of_nat (unat u - 48) :: u64)"
proof -
  assume "is_digit u"
  then have "unat (u - 48) = unat u - 48"
    by (simp add: is_digit_def unat_sub word_le_nat_alt)
  then have "unat (ucast (u - 48) :: u64) = unat u - 48" by (simp add: unat_ucast_up)
  then show ?thesis by (metis word_of_nat_unat)
qed

lemma parse_dotted_loop_Cons:
  assumes "m < 2 ^ 64"
  shows "parse_dotted_loop seen (word_of_nat m) (u # s) =
    (if u = 46 \<and> s \<noteq> [] then (if seen then Some (word_of_nat m) else None, s)
     else if is_digit u \<and> \<not> (seen \<and> m = 0) \<and> digit_step m u < 2 ^ 64
       then parse_dotted_loop True (word_of_nat (digit_step m u)) s
     else (None, s))"
proof -
  have m: "unat (word_of_nat m :: u64) = m" using assms by (rule unat_u64_of_nat)
  then have zero: "(word_of_nat m :: u64) = 0 \<longleftrightarrow> m = 0" by (metis unat_eq_zero)
  have step: "\<not> (word_of_nat m > (-1 :: u64) div 10 \<or> word_of_nat m * 10 > -1 - (ucast (u - 48) :: u64)) \<longleftrightarrow> digit_step m u < 2 ^ 64"
    and out: "word_of_nat m * 10 + ucast (u - 48) = (word_of_nat (digit_step m u) :: u64)" if digit: "is_digit u"
  proof -
    obtain d where d: "unat u - 48 = d" "d < 10" using is_digit_value(1) [OF digit] by blast
    have u: "ucast (u - 48) = (word_of_nat d :: u64)" "digit_step m u = m * 10 + d"
      using digit_word [OF digit] by (simp_all only: d digit_step_def)
    show "\<not> (word_of_nat m > (-1 :: u64) div 10 \<or> word_of_nat m * 10 > -1 - (ucast (u - 48) :: u64)) \<longleftrightarrow> digit_step m u < 2 ^ 64"
      unfolding u using overflow_check [OF d(2), of "word_of_nat m"] by (simp only: m)
    show "word_of_nat m * 10 + ucast (u - 48) = (word_of_nat (digit_step m u) :: u64)"
      unfolding u by simp
  qed
  show ?thesis
  proof (cases "is_digit u")
    case True
    have "(u < 48 \<or> u > 57 \<or> (seen \<and> (word_of_nat m :: u64) = 0) \<or> word_of_nat m > (-1 :: u64) div 10 \<or>
        word_of_nat m * 10 > -1 - (ucast (u - 48) :: u64)) \<longleftrightarrow> \<not> (\<not> (seen \<and> m = 0) \<and> digit_step m u < 2 ^ 64)"
      using True step [OF True] by (simp only: is_digit_iff zero) blast
    with True out show ?thesis by (simp only: parse_dotted_loop.simps CBS_len_def) simp
  next
    case False
    then show ?thesis by (auto simp: CBS_len_def is_digit_iff)
  qed
qed

lemma parse_dotted_loop_iff:
  "m < 2 ^ 64 \<Longrightarrow> parse_dotted_loop True (word_of_nat m) s = (Some v, t) \<longleftrightarrow>
    (\<exists>ds. component s ds t \<and> list_all is_digit ds \<and> (m = 0 \<longrightarrow> ds = []) \<and> foldl digit_step m ds < 2 ^ 64 \<and>
      v = word_of_nat (foldl digit_step m ds))"
proof (induction s arbitrary: m)
  case Nil
  then show ?case by (auto simp: component_Nil)
next
  case (Cons u s)
  note step = parse_dotted_loop_Cons [OF Cons.prems, of True u s]
  have bound: "digit_step m u < 18446744073709551616" if "foldl digit_step (digit_step m u) ds < 18446744073709551616" for ds
    using le_foldl_digits that by (rule le_less_trans)
  show ?case
  proof (cases "is_digit u \<and> m \<noteq> 0 \<and> digit_step m u < 2 ^ 64")
    case True
    then have "u \<noteq> 46" "digit_step m u \<noteq> 0" using dot_no_digit by (auto simp: digit_step_def)
    with True show ?thesis unfolding step
      by (auto simp: Cons.IH component_Cons)
  next
    case False
    then show ?thesis unfolding step using Cons.prems
      by (auto simp: component_Cons dot_no_digit dest: bound)
  qed
qed

lemma parse_dotted_decimal_Some_iff:
  "parse_dotted_decimal s = (Some v, t) \<longleftrightarrow> component s (decimal (unat v)) t"
proof (cases s)
  case Nil
  have "decimal (unat v) \<noteq> []" using decimal_canonical [of "unat v"] by (simp add: canonical_digits_def)
  with Nil show ?thesis by (simp add: parse_dotted_decimal_def component_Nil)
next
  case (Cons u s')
  have step: "parse_dotted_decimal s =
     (if u = 46 \<and> s' \<noteq> [] then (None, s')
      else if is_digit u then parse_dotted_loop True (word_of_nat (unat u - 48)) s' else (None, s'))"
    using parse_dotted_loop_Cons [of 0 False u s'] is_digit_value(1) [of u]
    by (auto simp: Cons parse_dotted_decimal_def digit_step_def)
  show ?thesis
  proof (cases "is_digit u")
    case True
    have u: "u \<noteq> 46" using True dot_no_digit by blast
    obtain m where um: "unat u - 48 = m" "m < 2 ^ 64" using is_digit_value(1) [OF True] by auto
    have zero: "m = 0 \<longleftrightarrow> u = 48" using True um(1) by (auto simp: is_digit_def word_unat_eq_iff)
    have canonical: "canonical_digits (u # ds) \<longleftrightarrow> list_all is_digit ds \<and> (m = 0 \<longrightarrow> ds = [])" for ds
      using True by (simp only: canonical_digits_def zero) auto
    have total_digits: "foldl digit_step 0 (u # ds) = foldl digit_step m ds" for ds by (simp add: digit_step_def um(1))
    have step: "parse_dotted_decimal s = parse_dotted_loop True (word_of_nat m) s'"
      using True dot_no_digit unfolding step um(1) by auto
    have "parse_dotted_decimal s = (Some v, t) \<longleftrightarrow>
      (\<exists>ds. component s' ds t \<and> canonical_digits (u # ds) \<and> foldl digit_step 0 (u # ds) < 2 ^ 64 \<and>
        v = word_of_nat (foldl digit_step 0 (u # ds)))"
      unfolding step parse_dotted_loop_iff [OF um(2)] canonical total_digits by (simp only: conj_assoc)
    also have "\<dots> \<longleftrightarrow> (\<exists>ds. component s' ds t \<and> u # ds = decimal (unat v))"
      using decimal_foldl decimal_canonical [of "unat v"] unat_u64_less [of v]
      by (metis unat_u64_of_nat word_of_nat_unat)
    finally show ?thesis
      using u unfolding Cons component_Cons by metis
  next
    case False
    have "list_all is_digit (decimal (unat v))" "decimal (unat v) \<noteq> []"
      using decimal_canonical [of "unat v"] by (simp_all add: canonical_digits_def)
    with False show ?thesis unfolding step unfolding Cons component_Cons by auto
  qed
qed


section \<open>Identifiers\<close>

fun dotted :: "nat list \<Rightarrow> u8 list" where
  "dotted [] = []"
| "dotted [n] = decimal n"
| "dotted (n # m # ns) = decimal n @ 46 # dotted (m # ns)"

fun oid_valid :: "nat list \<Rightarrow> bool" where
  "oid_valid (a # b # ns) \<longleftrightarrow> a \<le> 2 \<and> (a < 2 \<longrightarrow> b \<le> 39) \<and> b + 80 < 2 ^ 64 \<and> list_all (\<lambda>n. n < 2 ^ 64) ns"
| "oid_valid _ \<longleftrightarrow> False"

fun oid_contents :: "nat list \<Rightarrow> u8 list" where
  "oid_contents (a # b # ns) = base128_bytes (40 * a + b) @ concat (map base128_bytes ns)"
| "oid_contents _ = []"

lemma decimal_nonempty: "decimal n \<noteq> []"
  using decimal_canonical [of n] by (simp add: canonical_digits_def)

lemma dotted_eq_Nil_iff [simp]: "dotted ns = [] \<longleftrightarrow> ns = []"
  by (cases ns rule: dotted.cases) (auto simp: decimal_nonempty)

lemma component_dotted: "component (dotted (n # ns)) (decimal n) (dotted ns)"
  by (cases ns) (auto simp: component_def)

lemma dotted_component:
  "component s (decimal n) (dotted ns) \<Longrightarrow> s = dotted (n # ns)"
  by (cases ns) (auto simp: component_def)

lemma parse_dotted_decimal_dotted:
  "n < 2 ^ 64 \<Longrightarrow> parse_dotted_decimal (dotted (n # ns)) = (Some (word_of_nat n), dotted ns)"
  using component_dotted [of n ns] by (simp add: parse_dotted_decimal_Some_iff unat_u64_of_nat)

lemma parse_dotted_decimal_sound:
  "parse_dotted_decimal s = (Some v, dotted ns) \<Longrightarrow> s = dotted (unat v # ns)"
  by (simp add: parse_dotted_decimal_Some_iff dotted_component)

lemma parse_base128_sound:
  "parse_base128_integer s = (Some v, t) \<Longrightarrow> s = base128_bytes (unat v) @ t"
  by (simp add: base128_codec.get_Some_iff)

section \<open>From text\<close>

lemma oid_from_text_loop_sound:
  "oid_from_text_loop sys h s st = (Some u, st') \<Longrightarrow> \<exists>ns. s = dotted ns \<and> list_all (\<lambda>n. n < 2 ^ 64) ns"
proof (induction s arbitrary: st rule: length_induct)
  case (1 s)
  show ?case
  proof (cases "s = []")
    case True
    then show ?thesis by (intro exI [of _ "[]"]) simp
  next
    case False
    with "1.prems" obtain a t st1 where a: "parse_dotted_decimal s = (Some a, t)" "oid_from_text_loop sys h t st1 = (Some u, st')"
      by (subst (asm) oid_from_text_loop.simps) (auto simp: CBS_len_def pbind_Some_iff split: prod.splits option.splits)
    from "1.IH" parse_dotted_progress [OF a(1)] a(2) obtain ns where
      ns: "t = dotted ns" "list_all (\<lambda>n. n < 2 ^ 64) ns" by blast
    with parse_dotted_decimal_sound [of s a ns] a(1) unat_u64_less [of a] show ?thesis
      by (intro exI [of _ "unat a # ns"]) simp
  qed
qed

lemma oid_from_text_loop_implements:
  "list_all (\<lambda>n. n < 2 ^ 64) ns \<Longrightarrow>
    cbb_implements (innermost h) (\<lambda>sys. oid_from_text_loop sys h (dotted ns)) (spec_add h (concat (map base128_bytes ns)))"
proof (induction ns)
  case Nil
  have "oid_from_text_loop sys h (dotted []) = pret ()" for sys
    by (subst oid_from_text_loop.simps) (simp add: CBS_len_def)
  then show ?case using pret_implements [of h] by (simp only: list.map concat.simps)
next
  case (Cons n ns)
  then have less: "n < 2 ^ 64" and ns: "list_all (\<lambda>n. n < 2 ^ 64) ns" by simp_all
  note n = parse_dotted_decimal_dotted [OF less, of ns] unat_u64_of_nat [OF less]
  have step: "oid_from_text_loop sys h (dotted (n # ns)) =
    pbind (add_base128_integer sys h (word_of_nat n)) (\<lambda>_. oid_from_text_loop sys h (dotted ns))" for sys
    by (subst oid_from_text_loop.simps) (simp only: n CBS_len_def length_greater_0_conv dotted_eq_Nil_iff list.simps
        not_False_eq_True if_True prod.case option.case)
  have "cbb_implements (innermost h) (\<lambda>sys. oid_from_text_loop sys h (dotted ns)) (spec_add h (concat (map base128_bytes ns)))"
    by (rule Cons.IH [OF ns])
  from implements_add_add [OF add_base128_integer_implements [of h "word_of_nat n"] this] show ?case
    by (simp only: step n(2) list.map concat.simps)
qed

lemma first_arc_word:
  fixes a b :: u64
  shows "\<not> (a > 2 \<or> (a < 2 \<and> b > 39) \<or> b > -1 - 80) \<longleftrightarrow> oid_valid [unat a, unat b]"
    and "oid_valid [unat a, unat b] \<Longrightarrow> unat (40 * a + b) = 40 * unat a + unat b"
proof -
  have "b > -1 - 80 \<longleftrightarrow> 18446744073709551535 < unat b"
    by (simp add: word_less_nat_alt)
  also have "\<dots> \<longleftrightarrow> \<not> unat b + 80 < 2 ^ 64"
    by (rule iffI) simp_all
  finally have limit: "b > -1 - 80 \<longleftrightarrow> \<not> unat b + 80 < 2 ^ 64" .
  show "\<not> (a > 2 \<or> (a < 2 \<and> b > 39) \<or> b > -1 - 80) \<longleftrightarrow> oid_valid [unat a, unat b]"
    unfolding limit by (auto simp: word_less_nat_alt)
  assume "oid_valid [unat a, unat b]"
  then show "unat (40 * a + b) = 40 * unat a + unat b"
    by (simp add: unat_word_ariths)
qed


lemma CBB_add_asn1_oid_from_text_implements:
  assumes valid: "oid_valid arcs" and lit: "CBS_init text len = dotted arcs"
  shows "cbb_op (\<lambda>sys. CBB_add_asn1_oid_from_text sys h text len) (spec_add h (oid_contents arcs))"
proof -
  obtain a b ns where arcs: "arcs = a # b # ns" using valid by (cases arcs rule: oid_valid.cases) auto
  then have less: "a < 2 ^ 64" "b < 2 ^ 64" and ns: "list_all (\<lambda>n. n < 2 ^ 64) ns" and ab: "oid_valid [a, b]"
    using valid by auto
  let ?a = "word_of_nat a :: u64" and ?b = "word_of_nat b :: u64"
  note n = unat_u64_of_nat [OF less(1)] unat_u64_of_nat [OF less(2)]
  have ok: "\<not> (?a > 2 \<or> (?a < 2 \<and> ?b > 39) \<or> ?b > -1 - 80)" and first: "unat (40 * ?a + ?b) = 40 * a + b"
    using first_arc_word [of ?a ?b] ab by (simp_all only: n)
  have body: "CBB_add_asn1_oid_from_text sys h text len = pbind (CBB_flush sys h) (\<lambda>_.
      pbind (add_base128_integer sys h (40 * ?a + ?b)) (\<lambda>_. oid_from_text_loop sys h (dotted ns)))" for sys
    unfolding CBB_add_asn1_oid_from_text_def lit arcs
    by (simp only: parse_dotted_decimal_dotted [OF less(1)] parse_dotted_decimal_dotted [OF less(2)] ok
        option.case prod.case if_False)
  have "cbb_implements (innermost h) (\<lambda>sys. pbind (add_base128_integer sys h (40 * ?a + ?b))
      (\<lambda>_. oid_from_text_loop sys h (dotted ns))) (spec_add h (oid_contents arcs))"
    using implements_add_add [OF add_base128_integer_implements [of h "40 * ?a + ?b"] oid_from_text_loop_implements [OF ns]]
    by (simp only: first arcs oid_contents.simps)
  then show ?thesis
    unfolding body by (rule implements_flush_bind) simp
qed

lemma CBB_add_asn1_oid_from_text_sound:
  assumes "CBB_add_asn1_oid_from_text sys h text len st = (Some u, st')"
  shows "\<exists>arcs. oid_valid arcs \<and> CBS_init text len = dotted arcs"
proof -
  from assms obtain a b s t st1 where a: "parse_dotted_decimal (CBS_init text len) = (Some a, s)"
    and b: "parse_dotted_decimal s = (Some b, t)" and ok: "\<not> (a > 2 \<or> (a < 2 \<and> b > 39) \<or> b > -1 - 80)"
    and loop: "oid_from_text_loop sys h t st1 = (Some u, st')"
    by (auto simp: CBB_add_asn1_oid_from_text_def pbind_Some_iff split: prod.splits option.splits if_splits)
  from oid_from_text_loop_sound [OF loop] obtain ns where ns: "t = dotted ns" "list_all (\<lambda>n. n < 2 ^ 64) ns"
    by blast
  have "s = dotted (unat b # ns)" using parse_dotted_decimal_sound b ns(1) by blast
  then have "CBS_init text len = dotted (unat a # unat b # ns)" using parse_dotted_decimal_sound a by blast
  moreover have "oid_valid (unat a # unat b # ns)"
    using ok [unfolded first_arc_word(1)] ns(2) by simp
  ultimately show ?thesis by blast
qed

section \<open>To text\<close>

lemma oid_to_text_loop_sound:
  "oid_to_text_loop sys s st = (Some u, st') \<Longrightarrow>
    \<exists>ns. s = concat (map base128_bytes ns) \<and> list_all (\<lambda>n. n < 2 ^ 64) ns"
proof (induction s arbitrary: st rule: length_induct)
  case (1 s)
  show ?case
  proof (cases "s = []")
    case True
    then show ?thesis by (intro exI [of _ "[]"]) simp
  next
    case False
    with "1.prems" obtain v t st1 where v: "parse_base128_integer s = (Some v, t)" "oid_to_text_loop sys t st1 = (Some u, st')"
      by (subst (asm) oid_to_text_loop.simps) (auto simp: CBS_len_def pbind_Some_iff split: prod.splits option.splits)
    from "1.IH" parse_base128_progress [OF v(1)] v(2) obtain ns where
      ns: "t = concat (map base128_bytes ns)" "list_all (\<lambda>n. n < 2 ^ 64) ns" by blast
    with parse_base128_sound [OF v(1)] unat_u64_less [of v] show ?thesis
      by (intro exI [of _ "unat v # ns"]) simp
  qed
qed

definition dotted_rest :: "nat list \<Rightarrow> u8 list" where
  "dotted_rest ns = concat (map (\<lambda>n. 46 # decimal n) ns)"

lemma dotted_Cons: "dotted (n # ns) = decimal n @ dotted_rest ns"
  by (induction ns arbitrary: n) (auto simp: dotted_rest_def)

lemma oid_to_text_loop_implements:
  "list_all (\<lambda>n. n < 2 ^ 64) ns \<Longrightarrow> cbb_implements (innermost 0)
    (\<lambda>sys. oid_to_text_loop sys (concat (map base128_bytes ns))) (spec_add 0 (dotted_rest ns))"
proof (induction ns)
  case Nil
  have "oid_to_text_loop sys (concat (map base128_bytes [])) = pret ()" for sys
    by (subst oid_to_text_loop.simps) (simp add: CBS_len_def)
  then show ?case using pret_implements [of 0] by (simp only: dotted_rest_def list.map concat.simps)
next
  case (Cons n ns)
  then have less: "n < 2 ^ 64" and ns: "list_all (\<lambda>n. n < 2 ^ 64) ns" by simp_all
  have parse: "parse_base128_integer (concat (map base128_bytes (n # ns))) = (Some (word_of_nat n), concat (map base128_bytes ns))"
    using parse_base128_integer_bytes [OF less] by simp
  have "concat (map base128_bytes (n # ns)) \<noteq> []"
    using base128_codec.enc_nonempty [of "word_of_nat n"] unat_u64_of_nat [OF less] by simp
  then have step: "oid_to_text_loop sys (concat (map base128_bytes (n # ns))) =
    pbind (CBB_add_u8 sys 0 46) (\<lambda>_. pbind (add_decimal sys 0 (word_of_nat n)) (\<lambda>_. oid_to_text_loop sys (concat (map base128_bytes ns))))" for sys
    by (subst oid_to_text_loop.simps) (simp only: parse CBS_len_def length_0_conv not_False_eq_True if_True prod.case option.case)
  from implements_add_add [OF implements_weaken [OF CBB_add_u8_implements [of 0 46]]
    implements_add_add [OF implements_weaken [OF add_decimal_implements [of 0 "word_of_nat n"]] Cons.IH [OF ns]]]
  show ?case
    unfolding step by (simp only: dotted_rest_def list.map concat.simps append.simps unat_u64_of_nat [OF less])
qed


lemma first_arcs:
  assumes "oid_valid [a, b]"
  shows "(80 \<le> 40 * a + b \<longrightarrow> a = 2 \<and> 40 * a + b - 80 = b) \<and>
    (40 * a + b < 80 \<longrightarrow> (40 * a + b) div 40 = a \<and> (40 * a + b) mod 40 = b)"
proof (intro conjI impI)
  assume "80 \<le> 40 * a + b"
  with assms show "a = 2" "40 * a + b - 80 = b" by auto
next
  assume "40 * a + b < 80"
  with assms have "b < 40" by auto
  then show "(40 * a + b) div 40 = a" "(40 * a + b) mod 40 = b" by simp_all
qed

lemma first_arcs_exist: "n < 2 ^ 64 \<Longrightarrow> \<exists>a b. oid_valid [a, b] \<and> n = 40 * a + b"
proof (cases "80 \<le> n")
  case True
  moreover assume "n < 2 ^ 64"
  ultimately show ?thesis by (intro exI [of _ 2] exI [of _ "n - 80"]) simp
next
  case False
  then have "n div 40 < 2" by (simp add: less_mult_imp_div_less)
  moreover have "n mod 40 < 40" by simp
  ultimately have "oid_valid [n div 40, n mod 40]" by (simp del: mod_less_divisor)
  moreover have "n = 40 * (n div 40) + n mod 40" by (rule mult_div_mod_eq [symmetric])
  ultimately show ?thesis by blast
qed

lemma oid_first_text_implements:
  assumes valid: "oid_valid [a, b]" and v: "unat v = 40 * a + b"
  shows "cbb_op (\<lambda>sys. oid_first_text sys v) (spec_add 0 (dotted [a, b]))"
proof (cases "v \<ge> 80")
  case True
  then have "80 \<le> 40 * a + b" using v by (simp add: word_le_nat_alt)
  with first_arcs [OF valid] have ab: "a = 2" "40 * a + b - 80 = b" by simp_all
  then have "unat (v - 80) = b" using True v by (simp add: unat_sub)
  moreover have "decimal 2 = [50]" by (simp add: decimal_digit)
  ultimately show ?thesis
    using implements_add_add [OF CBB_add_bytes_implements [of "[50, 46]" 0] implements_weaken [OF add_decimal_implements [of 0 "v - 80"]]]
    by (simp add: oid_first_text_def True ab(1))
next
  case False
  then have less: "40 * a + b < 80" using v by (simp add: word_le_nat_alt)
  have ab: "unat (v div 40) = a" "unat (v mod 40) = b"
    using first_arcs [OF valid] less v unat_div_distrib [of v 40] unat_mod_distrib [of v 40] by simp_all
  show ?thesis
    using implements_add_add [OF add_decimal_implements [of 0 "v div 40"] implements_add_add [OF
      implements_weaken [OF CBB_add_u8_implements [of 0 46]] implements_weaken [OF add_decimal_implements [of 0 "v mod 40"]]]]
    by (simp only: oid_first_text_def False if_False ab dotted.simps append.simps)
qed

lemma dotted_first: "dotted (a # b # ns) = dotted [a, b] @ dotted_rest ns"
  by (simp add: dotted_Cons dotted_rest_def)

lemma oid_to_text_body_implements:
  assumes valid: "oid_valid arcs"
  shows "cbb_implements (innermost 0) (\<lambda>sys. oid_to_text_body sys (oid_contents arcs)) (spec_add 0 (dotted arcs @ [0]))"
proof -
  obtain a b ns where arcs: "arcs = a # b # ns" using valid by (cases arcs rule: oid_valid.cases) auto
  let ?n = "40 * a + b"
  have less: "?n < 2 ^ 64" and ns: "list_all (\<lambda>n. n < 2 ^ 64) ns" and ab: "oid_valid [a, b]"
    using valid arcs by auto
  have parse: "parse_base128_integer (oid_contents arcs) = (Some (word_of_nat ?n), concat (map base128_bytes ns))"
    using parse_base128_integer_bytes [OF less] by (simp only: arcs oid_contents.simps)
  have body: "oid_to_text_body sys (oid_contents arcs) = pbind (oid_first_text sys (word_of_nat ?n)) (\<lambda>_.
      pbind (oid_to_text_loop sys (concat (map base128_bytes ns))) (\<lambda>_. CBB_add_u8 sys 0 0))" for sys
    unfolding oid_to_text_body_def parse by (simp only: option.case prod.case)
  have arcs_text: "dotted arcs @ [0] = dotted [a, b] @ dotted_rest ns @ [0]"
    unfolding arcs by (subst dotted_first) (rule append_assoc)
  show ?thesis
    unfolding body arcs_text
    by (rule implements_add_add [OF implements_weaken [OF oid_first_text_implements [OF ab unat_u64_of_nat [OF less]]]
      implements_add_add [OF oid_to_text_loop_implements [OF ns] implements_weaken [OF CBB_add_u8_implements [of 0 0]]]])
qed

lemma oid_to_text_body_sound:
  assumes "oid_to_text_body sys s st = (Some u, st')"
  shows "\<exists>arcs. oid_valid arcs \<and> s = oid_contents arcs"
proof -
  from assms obtain v t st1 st2 where v: "parse_base128_integer s = (Some v, t)"
    and loop: "oid_to_text_loop sys t st1 = (Some (), st2)"
    by (auto simp: oid_to_text_body_def pbind_Some_iff split: prod.splits option.splits)
  from oid_to_text_loop_sound [OF loop] obtain ns where ns: "t = concat (map base128_bytes ns)" "list_all (\<lambda>n. n < 2 ^ 64) ns"
    by blast
  from first_arcs_exist [OF unat_u64_less [of v]] obtain a b where ab: "oid_valid [a, b]" "unat v = 40 * a + b"
    by blast
  with parse_base128_sound [OF v] ns show ?thesis
    by (intro exI [of _ "a # b # ns"]) simp
qed

lemma CBS_asn1_oid_to_text_sound:
  assumes "CBS_asn1_oid_to_text sys s = Some out"
  shows "\<exists>arcs. oid_valid arcs \<and> s = oid_contents arcs \<and> out = dotted arcs @ [0]"
proof -
  from assms obtain st st2 where init: "CBB_init sys 32 = Some st"
    and "pbind (oid_to_text_body sys s) (\<lambda>_. CBB_finish sys True True 0) st = (Some out, st2)"
    by (auto simp: CBS_asn1_oid_to_text_def split: option.splits) (metis prod.collapse)
  then obtain st1 where run: "CBB_init sys 32 = Some st" "oid_to_text_body sys s st = (Some (), st1)"
    and finish: "CBB_finish sys True True 0 st1 = (Some out, st2)"
    by (auto simp: pbind_Some_iff)
  from oid_to_text_body_sound [OF run(2)] obtain arcs where arcs: "oid_valid arcs" "s = oid_contents arcs" by blast
  have "out = dotted arcs @ [0]"
    using run finish by (intro built_bytes [where cap = 32, OF oid_to_text_body_implements [OF arcs(1)]]) (simp_all add: arcs(2))
  with arcs show ?thesis by blast
qed

lemma CBS_asn1_oid_to_text_complete:
  assumes "oid_valid arcs" and "length (dotted arcs) < 2 ^ 62 - 1"
  shows "CBS_asn1_oid_to_text (\<lambda>_. True) (oid_contents arcs) = Some (dotted arcs @ [0])"
  using built_bytes_complete [OF oid_to_text_body_implements [OF assms(1)], of 32] assms(2)
  by (auto simp: CBS_asn1_oid_to_text_def)


text \<open>The text is not much longer than the contents.\<close>

lemma length_dotted_rest: "list_all (\<lambda>n. n < 2 ^ 64) ns \<Longrightarrow> length (dotted_rest ns) \<le> 21 * length (concat (map base128_bytes ns))"
proof (induction ns)
  case (Cons n ns)
  have "length (decimal n) \<le> 20" using Cons.prems by (intro length_decimal) simp_all
  moreover have "base128_bytes n \<noteq> []"
    using base128_codec.enc_nonempty [of "word_of_nat n"] Cons.prems by (simp add: unat_u64_of_nat)
  then have "1 \<le> length (base128_bytes n)" by (simp add: Suc_le_eq)
  ultimately show ?case using Cons by (simp add: dotted_rest_def) 
qed (simp add: dotted_rest_def)

lemma length_dotted: "oid_valid arcs \<Longrightarrow> length (dotted arcs) \<le> 42 + 21 * length (oid_contents arcs)"
proof -
  assume valid: "oid_valid arcs"
  then obtain a b ns where arcs: "arcs = a # b # ns" by (cases arcs rule: oid_valid.cases) auto
  have "length (decimal a) \<le> 20" "length (decimal b) \<le> 20"
    using valid arcs by (auto intro!: length_decimal)
  then show ?thesis
    using length_dotted_rest [of ns] valid unfolding arcs by (subst dotted_first) (simp add: dotted_rest_def)
qed

section \<open>Properties\<close>

text \<open>
  \<open>CBS_asn1_oid_to_text\<close> accepts exactly the contents of the valid object identifiers (first
  arc at most 2, second at most 39 under the arcs 0 and 1, every arc minimal and within 64 bits)
  and returns the NUL-terminated dotted decimals of the arcs.
\<close>

lemma oid_to_text_exact:
  assumes "length s < 2 ^ 56"
  shows "CBS_asn1_oid_to_text (\<lambda>_. True) s = Some out \<longleftrightarrow>
    (\<exists>arcs. oid_valid arcs \<and> s = oid_contents arcs \<and> out = dotted arcs @ [0])"
proof
  assume "\<exists>arcs. oid_valid arcs \<and> s = oid_contents arcs \<and> out = dotted arcs @ [0]"
  then obtain arcs where arcs: "oid_valid arcs" "s = oid_contents arcs" "out = dotted arcs @ [0]" by blast
  have "length (dotted arcs) < 2 ^ 62 - 1"
    using length_dotted [OF arcs(1)] assms arcs(2) by simp
  then show "CBS_asn1_oid_to_text (\<lambda>_. True) s = Some out"
    using CBS_asn1_oid_to_text_complete [OF arcs(1)] arcs by simp
qed (rule CBS_asn1_oid_to_text_sound)

lemma oid_to_text_exact_witness:
  "\<exists>out. CBS_asn1_oid_to_text (\<lambda>_. True) (oid_contents [1, 2, 840]) = Some out \<and> out = dotted [1, 2, 840] @ [0]"
proof -
  have short: "length (oid_contents [1, 2, 840]) < 2 ^ 56"
    using length_base128_bytes [of 42 1] length_base128_bytes [of 840 2] by simp
  have "oid_valid [1, 2, 840]" by simp
  with oid_to_text_exact [OF short, of "dotted [1, 2, 840] @ [0]"] show ?thesis by blast
qed

text \<open>
  C31: What \<open>CBB_add_asn1_oid_from_text\<close> makes of a text is the contents of a valid object
  identifier written exactly so, and \<open>CBS_asn1_oid_to_text\<close> gives the same text back.
\<close>

theorem oid_text_roundtrip:
  assumes "cap < size_modulus" and "CBB_init sys cap = Some st" and "length lit \<le> 2 ^ 60"
    and "CBB_add_asn1_oid_from_text sys 0 lit (length lit) st = (Some u, st1)"
    and "CBB_finish sys d l h st1 = (Some der, st2)"
  shows "(\<exists>arcs. oid_valid arcs \<and> lit = dotted arcs \<and> der = oid_contents arcs) \<and>
    CBS_asn1_oid_to_text (\<lambda>_. True) der = Some (lit @ [0])"
proof -
  from CBB_add_asn1_oid_from_text_sound [OF assms(4)] obtain arcs where
    arcs: "oid_valid arcs" and lit: "CBS_init lit (length lit) = dotted arcs" by blast
  have "der = oid_contents arcs"
    using assms by (intro built_bytes [where cap = cap, OF implements_weaken
        [OF CBB_add_asn1_oid_from_text_implements [OF arcs lit]]]) simp_all
  moreover have "lit = dotted arcs" using lit by (simp add: CBS_init_def)
  ultimately show ?thesis
    using arcs CBS_asn1_oid_to_text_complete [OF arcs] assms(3) by auto
qed

theorem oid_text_roundtrip_witness:
  "\<exists>st st1 der st2. CBB_init (\<lambda>_. True) 8 = Some st \<and>
    CBB_add_asn1_oid_from_text (\<lambda>_. True) 0 (dotted [1, 2, 840]) (length (dotted [1, 2, 840])) st = (Some (), st1) \<and>
    CBB_finish (\<lambda>_. True) True True 0 st1 = (Some der, st2) \<and>
    CBS_asn1_oid_to_text (\<lambda>_. True) der = Some (dotted [1, 2, 840] @ [0])"
proof -
  let ?arcs = "[1, 2, 840]"
  have valid: "oid_valid ?arcs" by simp
  have three: "length (oid_contents ?arcs) \<le> 3"
    using length_base128_bytes [of 42 1] length_base128_bytes [of 840 2] by simp
  moreover have "(105 :: nat) \<le> 2 ^ 60" "(3 :: nat) < 2 ^ 62" by simp_all
  ultimately have len: "length (dotted ?arcs) \<le> 2 ^ 60" and fits: "length (oid_contents ?arcs) < 2 ^ 62"
    using length_dotted [OF valid] by linarith+
  have lit: "CBS_init (dotted ?arcs) (length (dotted ?arcs)) = dotted ?arcs" by (simp add: CBS_init_def)
  have caps: "(8 :: nat) < 2 ^ 62" "8 < size_modulus" by simp_all
  from built_bytes_complete [OF implements_weaken [OF CBB_add_asn1_oid_from_text_implements [OF valid lit]] caps(1) fits]
  obtain st st1 st2 where run: "CBB_init (\<lambda>_. True) 8 = Some st"
    "CBB_add_asn1_oid_from_text (\<lambda>_. True) 0 (dotted ?arcs) (length (dotted ?arcs)) st = (Some (), st1)"
    "CBB_finish (\<lambda>_. True) True True 0 st1 = (Some (oid_contents ?arcs), st2)"
    by blast
  from oid_text_roundtrip [OF caps(2) run(1) len run(2,3), THEN conjunct2] run show ?thesis by blast
qed

end
