(* ===== verification/Ber.thy ===== *)
theory Ber
  imports Document
begin

text \<open>
  \<open>crypto/bytestring/ber.c\<close>: BER input is turned into DER. \<open>cbs_find_ber\<close> looks whether there is
  anything to convert, \<open>cbs_convert_ber\<close> copies the elements into a builder with definite
  lengths and with the fragments of constructed strings joined. The reference is the relation
  \<open>ber_items\<close> between bytes and the trees of theory \<open>Document\<close>, and \<open>to_der\<close> on trees.

  The assertions of the C code are not modelled. \<open>cbs_convert_ber\<close> calls itself on what another
  call has left of the input, so it is defined with fuel; the length of the input is enough.
\<close>

section \<open>Reading BER elements\<close>

text \<open>The length octets BER allows: the short form, or up to four octets, however padded.\<close>

definition ber_length :: "nat \<Rightarrow> u8 list \<Rightarrow> bool" where
  "ber_length n l \<longleftrightarrow> n < 128 \<and> l = [word_of_nat n] \<or>
     (\<exists>b. 1 \<le> length b \<and> length b \<le> 4 \<and> n = be_nat b \<and> l = more_byte (length b) # b)"

definition ber_result :: "u32 \<Rightarrow> u8 list \<Rightarrow> u8 list \<Rightarrow> bool \<Rightarrow> asn1_element" where
  "ber_result tag l c found = \<lparr>el_out = der_tag tag @ l @ c, el_tag = tag,
     el_header_len = length (der_tag tag) + length l, el_ber_found = found\<rparr>"

text \<open>The element reader, in the long form of the length.\<close>

lemma ber_element_long:
  assumes "parse_asn1_tag s = (Some tag, lb # h)" and "128 \<le> unat lb" and "k = unat lb mod 128"
  shows "CBS_get_any_ber_asn1_element s =
    (if k = 0 then
      (if tag AND CBS_ASN1_CONSTRUCTED \<noteq> 0 then
         pmap (\<lambda>out. \<lparr>el_out = out, el_tag = tag, el_header_len = Suc (length (der_tag tag)), el_ber_found = True\<rparr>)
           (CBS_get_bytes (Suc (length (der_tag tag)))) s
       else (None, s))
     else if 4 < k \<or> length h < k then (None, s)
     else pmap (\<lambda>out. \<lparr>el_out = out, el_tag = tag, el_header_len = Suc (length (der_tag tag)) + k,
                       el_ber_found = be_nat (take k h) < 128 \<or> be_nat (take k h) < 256 ^ (k - 1)\<rparr>)
       (CBS_get_bytes (Suc (length (der_tag tag)) + k + be_nat (take k h))) s)"
proof -
  have s: "s = der_tag tag @ lb # h"
    using assms(1) by (rule tag_codec.enc_get [THEN conjunct2])
  have header_len: "CBS_len s - CBS_len h = Suc (length (der_tag tag))"
    by (simp add: CBS_len_def s)
  have high: "lb AND 0x80 \<noteq> 0"
    using assms(2) by (simp add: u8_and_high_bit)
  show ?thesis
  proof (cases "k = 0 \<or> 4 < k \<or> length h < k")
    case True
    then show ?thesis
      using assms high header_len
      by (auto simp: CBS_get_any_ber_asn1_element_def cbs_get_any_asn1_element_def u8_and_low7 Let_def
          split: prod.splits option.splits)
  next
    case False
    define x where "x = take k h"
    have x: "length x = k" "h = x @ drop k h" using False by (simp_all add: x_def)
    then have v: "cbs_get_u k h = (Some (word_of_nat (be_nat x)), drop k h)"
      by (metis cbs_get_u_append)
    have be: "unat (word_of_nat (be_nat x) :: u64) = be_nat x"
      using x False by (intro unat_be_nat) simp
    have total: "size_add (size_add (be_nat x) (Suc (length (der_tag tag)))) k =
        Suc (length (der_tag tag)) + k + be_nat x"
      using x False by (intro element_long_total be_nat_less_2_32) auto
    have pad: "drop_bit ((k - 1) * 8) (word_of_nat (be_nat x) :: u64) = 0 \<longleftrightarrow> be_nat x < 256 ^ (k - 1)"
      using len64_padded [of x] x False by simp
    have small: "(word_of_nat (be_nat x) :: u64) < 128 \<longleftrightarrow> be_nat x < 128"
      by (simp add: word_less_nat_alt be)
    show ?thesis
      unfolding x_def [symmetric] CBS_get_any_ber_asn1_element_def cbs_get_any_asn1_element_def assms(1) prod.case option.case
        CBS_get_u8_simps u8_and_low7 assms(3) [symmetric] v Let_def pad small be total header_len
      using False high by simp
  qed
qed

lemma ber_minimal_iff:
  assumes "1 \<le> length x" and "length x \<le> 4"
  shows "more_byte (length x) # x = der_length (be_nat x) \<longleftrightarrow> \<not> (be_nat x < 128 \<or> be_nat x < 256 ^ (length x - 1))"
proof
  assume eq: "more_byte (length x) # x = der_length (be_nat x)"
  then have long: "128 \<le> be_nat x" using assms(1) by (auto simp: der_length_def split: if_splits)
  then have "x = be_bytes (length_octets (be_nat x)) (be_nat x)"
    using eq by (simp add: der_length_def)
  then have "length x = length_octets (be_nat x)" by (metis length_be_bytes)
  with length_octets_bounds(1) [OF long be_nat_less_2_32 [OF assms(2)]] long
  show "\<not> (be_nat x < 128 \<or> be_nat x < 256 ^ (length x - 1))" by simp
next
  assume "\<not> (be_nat x < 128 \<or> be_nat x < 256 ^ (length x - 1))"
  with der_length_long [of x] assms show "more_byte (length x) # x = der_length (be_nat x)" by simp
qed

lemma ber_element_sound:
  assumes "CBS_get_any_ber_asn1_element s = (Some el, t)"
  shows "(\<exists>tag l c. ber_length (length c) l \<and> s = der_tag tag @ l @ c @ t \<and> el = ber_result tag l c (l \<noteq> der_length (length c))) \<or>
    (\<exists>tag. tag AND CBS_ASN1_CONSTRUCTED \<noteq> 0 \<and> s = der_tag tag @ 0x80 # t \<and> el = ber_result tag [0x80] [] True)"
proof -
  obtain r h1 where r: "parse_asn1_tag s = (r, h1)"
    by (cases "parse_asn1_tag s") auto
  with assms obtain tag lb h where tag: "parse_asn1_tag s = (Some tag, lb # h)"
    by (cases r; cases h1) (auto simp: CBS_get_any_ber_asn1_element_def element_needs_length element_needs_tag)
  then have s: "s = der_tag tag @ lb # h"
    by (rule tag_codec.enc_get [THEN conjunct2])
  show ?thesis
  proof (cases "unat lb < 128")
    case True
    let ?hdr = "der_tag tag @ [lb]"
    from True assms tag obtain out where "CBS_get_bytes (length ?hdr + unat lb) (?hdr @ h) = (Some out, t)"
      and el: "el = \<lparr>el_out = out, el_tag = tag, el_header_len = length ?hdr, el_ber_found = False\<rparr>"
      by (auto simp: CBS_get_any_ber_asn1_element_def element_short s simp del: CBS_get_bytes_Some_iff)
    from der_split [OF this(1)] obtain c where c: "length c = unat lb" "h = c @ t" "out = ?hdr @ c"
      by blast
    have "ber_length (length c) [lb]" "[lb] = der_length (length c)"
      using True c by (simp_all add: ber_length_def der_length_def)
    moreover have "s = der_tag tag @ [lb] @ c @ t" "el = ber_result tag [lb] c ([lb] \<noteq> der_length (length c))"
      using s c el calculation(2) by (simp_all add: ber_result_def)
    ultimately show ?thesis by (intro disjI1 exI conjI)
  next
    case False
    define k where "k = unat lb mod 128"
    have lb: "lb = more_byte k"
      using False more_byte_unat [of lb] by (simp add: k_def)
    have ge: "128 \<le> unat lb" using False by simp
    note long = assms [unfolded ber_element_long [OF tag ge k_def]]
    show ?thesis
    proof (cases "k = 0")
      case True
      then have c80: "lb = 0x80" using lb by (simp add: more_byte_def)
      from long True have constructed: "tag AND CBS_ASN1_CONSTRUCTED \<noteq> 0"
        by (auto split: if_splits)
      with long True obtain out where read: "CBS_get_bytes (length (der_tag tag @ [lb]) + 0) ((der_tag tag @ [lb]) @ h) = (Some out, t)"
        and el: "el = \<lparr>el_out = out, el_tag = tag, el_header_len = Suc (length (der_tag tag)), el_ber_found = True\<rparr>"
        using s by (auto simp del: CBS_get_bytes_Some_iff)
      from der_split [OF read] have "h = t" "out = der_tag tag @ [lb]" by auto
      with constructed c80 s el show ?thesis by (intro disjI2 exI [of _ tag]) (simp add: ber_result_def)
    next
      case k: False
      from long k have ok: "k \<le> 4" "k \<le> length h" by (auto split: if_splits)
      define x where "x = take k h"
      have x: "length x = k" "h = x @ drop k h" using ok by (simp_all add: x_def)
      let ?hdr = "der_tag tag @ lb # x"
      have hdr: "length ?hdr = Suc (length (der_tag tag)) + k" using x(1) by simp
      have s': "s = ?hdr @ drop k h" using s x(2) by simp
      from long k ok obtain out where read: "CBS_get_bytes (length ?hdr + be_nat x) s = (Some out, t)"
        and el: "el = \<lparr>el_out = out, el_tag = tag, el_header_len = length ?hdr,
          el_ber_found = be_nat x < 128 \<or> be_nat x < 256 ^ (k - 1)\<rparr>"
        unfolding hdr by (auto simp: x_def simp del: CBS_get_bytes_Some_iff)
      from der_split [OF read [unfolded s']] obtain c where c: "length c = be_nat x" "drop k h = c @ t" "out = ?hdr @ c"
        by blast
      have minimal: "el_ber_found el \<longleftrightarrow> lb # x \<noteq> der_length (length c)"
        using ber_minimal_iff [of x] k x(1) ok(1) lb c(1) el by auto
      have "ber_length (length c) (lb # x)"
        using k x ok c lb by (auto simp: ber_length_def)
      moreover have "s = der_tag tag @ (lb # x) @ c @ t" using s' c by simp
      moreover have "el = ber_result tag (lb # x) c (lb # x \<noteq> der_length (length c))"
        using minimal c(3) hdr x(1) unfolding ber_result_def el by simp
      ultimately show ?thesis by (intro disjI1 exI conjI)
    qed
  qed
qed

text \<open>The element is what was consumed, and its header is not empty.\<close>

lemma der_tag_nonempty: "1 \<le> length (der_tag tag)"
  using tag_codec.enc_nonempty [of tag] by (simp add: Suc_le_eq)

lemma ber_element_parts:
  assumes "CBS_get_any_ber_asn1_element s = (Some el, t)"
  shows "s = el_out el @ t \<and> 2 \<le> el_header_len el \<and> el_header_len el \<le> length (el_out el)"
proof -
  have "1 \<le> length l" if "ber_length n l" for n l using that by (auto simp: ber_length_def)
  then have "2 \<le> length (der_tag tag) + length l" if "ber_length n l" for n l tag
    using der_tag_nonempty [of tag] that by fastforce
  then show ?thesis
    using ber_element_sound [OF assms] der_tag_nonempty by (auto simp: ber_result_def)
qed

lemma ber_element_shorter:
  assumes "CBS_get_any_ber_asn1_element s = (Some el, t)"
  shows "length t < length s"
    and "CBS_skip (el_header_len el) (el_out el) = (Some u, c) \<Longrightarrow> length c < length s"
  using ber_element_parts [OF assms] by auto

section \<open>Operations\<close>

definition kMaxDepth :: nat where "kMaxDepth = 2048"

definition string_tags :: "u32 list" where
  "string_tags = [0x4, 0xc, 0x12, 0x13, 0x14, 0x15, 0x16, 0x19, 0x1a, 0x1b, 0x1c, 0x1e]"

definition is_string_type :: "u32 \<Rightarrow> bool" where
  "is_string_type tag = (tag AND NOT CBS_ASN1_CONSTRUCTED \<in> set string_tags)"

text \<open>
  The loop of \<open>cbs_find_ber\<close>; \<open>ber_found\<close> is the value of the caller's variable, which the next
  element read overwrites. \<open>None\<close> is the error return.
\<close>

function find_ber_loop :: "nat \<Rightarrow> bool \<Rightarrow> cbs \<Rightarrow> bool option" where
  "find_ber_loop depth ber_found s =
     (if CBS_len s = 0 then Some ber_found
      else case CBS_get_any_ber_asn1_element s of
          (None, _) \<Rightarrow> None
        | (Some el, s) \<Rightarrow>
           if el_ber_found el then Some True
           else if el_tag el AND CBS_ASN1_CONSTRUCTED \<noteq> 0 then
            (if is_string_type (el_tag el) then Some True
             else case CBS_skip (el_header_len el) (el_out el) of
                 (None, _) \<Rightarrow> None
               | (Some _, contents) \<Rightarrow>
                  (case (if Suc depth > kMaxDepth then None else find_ber_loop (Suc depth) False contents) of
                     None \<Rightarrow> None
                   | Some ber_found \<Rightarrow> find_ber_loop depth ber_found s))
           else find_ber_loop depth (el_ber_found el) s)"
  by auto
termination
  by (relation "measure (\<lambda>(depth, ber_found, s). length s)")
    (simp_all only: in_measure prod.case ber_element_shorter [OF sym] ber_element_shorter(2) [OF sym sym] wf_measure)

declare find_ber_loop.simps [simp del]

definition cbs_find_ber :: "cbs \<Rightarrow> nat \<Rightarrow> bool option" where
  "cbs_find_ber orig_in depth = (if depth > kMaxDepth then None else find_ber_loop depth False orig_in)"

definition is_eoc :: "nat \<Rightarrow> cbs \<Rightarrow> bool" where
  "is_eoc header_len contents =
     (header_len = 2 \<and> CBS_len contents = 2 \<and> OPENSSL_memcmp (CBS_data contents) [0, 0] 2 = 0)"

text \<open>The tag written for an element, and the string tag its children must have.\<close>

definition convert_tags :: "u32 \<Rightarrow> u32 \<Rightarrow> u32 \<times> u32" where
  "convert_tags string_tag tag =
     (if tag AND CBS_ASN1_CONSTRUCTED \<noteq> 0 \<and> is_string_type tag
      then (tag AND NOT CBS_ASN1_CONSTRUCTED, tag AND NOT CBS_ASN1_CONSTRUCTED)
      else (tag, string_tag))"

definition is_indefinite :: "asn1_element \<Rightarrow> bool" where
  "is_indefinite el =
     (CBS_len (el_out el) = el_header_len el \<and> el_header_len el > 0 \<and> CBS_data (el_out el) ! (el_header_len el - 1) = 0x80)"

text \<open>The result is \<open>None\<close> when the fuel is used up, else success, the input left and the builder.\<close>

type_synonym convert_result = "(unit option \<times> cbs \<times> cbb) option"

fun convert_ber_loop ::
  "nat \<Rightarrow> (nat \<Rightarrow> bool) \<Rightarrow> u32 \<Rightarrow> bool \<Rightarrow> nat \<Rightarrow> nat \<Rightarrow> cbs \<Rightarrow> cbb \<Rightarrow> convert_result" where
  "convert_ber_loop 0 sys string_tag looking_for_eoc depth out s st = None"
| "convert_ber_loop (Suc n) sys string_tag looking_for_eoc depth out s st =
     (if CBS_len s = 0 then Some (if looking_for_eoc then None else Some (), s, st)
      else case CBS_get_any_ber_asn1_element s of
          (None, s) \<Rightarrow> Some (None, s, st)
        | (Some el, s) \<Rightarrow>
           if is_eoc (el_header_len el) (el_out el) then Some (if looking_for_eoc then Some () else None, s, st)
           else if string_tag \<noteq> 0 \<and> el_tag el AND NOT CBS_ASN1_CONSTRUCTED \<noteq> string_tag then Some (None, s, st)
           else
            let (out_tag, child_string_tag) = (if string_tag \<noteq> 0 then (0, string_tag) else convert_tags string_tag (el_tag el));
                out_contents = (if string_tag \<noteq> 0 then out else Suc out) in
            case (if string_tag \<noteq> 0 then (Some (), st) else CBB_add_asn1 sys out out_tag st) of
              (None, st) \<Rightarrow> Some (None, s, st)
            | (Some _, st) \<Rightarrow>
               if is_indefinite el then
                (case (if Suc depth > kMaxDepth then Some (None, s, st)
                       else convert_ber_loop n sys child_string_tag True (Suc depth) out_contents s st) of
                   None \<Rightarrow> None
                 | Some (None, s, st) \<Rightarrow> Some (None, s, st)
                 | Some (Some _, s, st) \<Rightarrow>
                    (case CBB_flush sys out st of
                       (None, st) \<Rightarrow> Some (None, s, st)
                     | (Some _, st) \<Rightarrow> convert_ber_loop n sys string_tag looking_for_eoc depth out s st))
               else
                (case CBS_skip (el_header_len el) (el_out el) of
                   (None, _) \<Rightarrow> Some (None, s, st)
                 | (Some _, contents) \<Rightarrow>
                    (case (if el_tag el AND CBS_ASN1_CONSTRUCTED \<noteq> 0 then
                             (if Suc depth > kMaxDepth then Some (None, contents, st)
                              else convert_ber_loop n sys child_string_tag False (Suc depth) out_contents contents st)
                           else case CBB_add_bytes sys out_contents (CBS_data contents) st of (r, st) \<Rightarrow> Some (r, contents, st)) of
                       None \<Rightarrow> None
                     | Some (None, _, st) \<Rightarrow> Some (None, s, st)
                     | Some (Some _, _, st) \<Rightarrow>
                        (case CBB_flush sys out st of
                           (None, st) \<Rightarrow> Some (None, s, st)
                         | (Some _, st) \<Rightarrow> convert_ber_loop n sys string_tag looking_for_eoc depth out s st))))"

declare convert_ber_loop.simps [simp del]

definition cbs_convert_ber :: "(nat \<Rightarrow> bool) \<Rightarrow> nat \<Rightarrow> u32 \<Rightarrow> bool \<Rightarrow> nat \<Rightarrow> cbs \<times> cbb \<Rightarrow> unit option \<times> cbs \<times> cbb" where
  "cbs_convert_ber sys out string_tag looking_for_eoc depth = (\<lambda>(s, st).
     if depth > kMaxDepth then (None, s, st)
     else case convert_ber_loop (Suc (CBS_len s)) sys string_tag looking_for_eoc depth out s st of
         None \<Rightarrow> (None, s, st)
       | Some r \<Rightarrow> r)"

text \<open>The result is \<open>out\<close> and, when the data was converted, the new buffer \<open>*out_storage\<close>.\<close>

definition CBS_asn1_ber_to_der :: "(nat \<Rightarrow> bool) \<Rightarrow> (cbs, cbs \<times> u8 list option) op" where
  "CBS_asn1_ber_to_der sys s =
     (case cbs_find_ber s 0 of
        None \<Rightarrow> (None, s)
      | Some conversion_needed \<Rightarrow>
         if \<not> conversion_needed then pmap (\<lambda>el. (el_out el, None)) CBS_get_any_asn1_element s
         else case CBB_init sys (CBS_len s) of
             None \<Rightarrow> (None, s)
           | Some cbb \<Rightarrow>
              (case cbs_convert_ber sys 0 0 False 0 (s, cbb) of
                 (None, s, _) \<Rightarrow> (None, s)
               | (Some _, s, cbb) \<Rightarrow>
                  (case CBB_finish sys True True 0 cbb of
                     (None, _) \<Rightarrow> (None, s)
                   | (Some storage, _) \<Rightarrow> (Some (CBS_init storage (length storage), Some storage), s))))"

text \<open>The loop of \<open>CBS_get_asn1_implicit_string\<close> that joins the fragments.\<close>

function implicit_string_loop :: "(nat \<Rightarrow> bool) \<Rightarrow> u32 \<Rightarrow> cbs \<Rightarrow> (cbb, unit) op" where
  "implicit_string_loop sys inner_tag child =
     (if CBS_len child > 0 then
       (case CBS_get_asn1 inner_tag child of
          (None, _) \<Rightarrow> pfail
        | (Some chunk, child) \<Rightarrow>
            pbind (CBB_add_bytes sys 0 (CBS_data chunk)) (\<lambda>_. implicit_string_loop sys inner_tag child))
      else pret ())"
  by auto
termination
  by (relation "measure (\<lambda>(sys, inner_tag, child). length child)")
    (auto dest!: sym [of "(_, _)" "CBS_get_asn1 _ _"] simp: CBS_get_asn1_Some_iff der_element_def der_header_def der_length_def)

declare implicit_string_loop.simps [simp del]

definition CBS_get_asn1_implicit_string :: "(nat \<Rightarrow> bool) \<Rightarrow> u32 \<Rightarrow> u32 \<Rightarrow> (cbs, cbs \<times> u8 list option) op" where
  "CBS_get_asn1_implicit_string sys outer_tag inner_tag s =
     (if CBS_peek_asn1_tag s outer_tag then pmap (\<lambda>out. (out, None)) (CBS_get_asn1 outer_tag) s
      else case CBB_init sys (CBS_len s) of
          None \<Rightarrow> (None, s)
        | Some result \<Rightarrow>
           (case CBS_get_asn1 (outer_tag OR CBS_ASN1_CONSTRUCTED) s of
              (None, s) \<Rightarrow> (None, s)
            | (Some child, s) \<Rightarrow>
               (case pbind (implicit_string_loop sys inner_tag child) (\<lambda>_. CBB_finish sys True True 0) result of
                  (None, _) \<Rightarrow> (None, s)
                | (Some data, _) \<Rightarrow> (Some (CBS_init data (length data), Some data), s))))"


section \<open>BER and its trees\<close>

text \<open>
  The bytes of a list of BER elements: definite lengths in any form, or contents closed by
  the two zero bytes of an end-of-contents element, which is no element of its own.
\<close>

inductive ber_items :: "u8 list \<Rightarrow> der list \<Rightarrow> bool" where
  none: "ber_items [] []"
| primitive: "tag AND CBS_ASN1_CONSTRUCTED = 0 \<Longrightarrow> ber_length (length c) l \<Longrightarrow> der_tag tag @ l @ c \<noteq> [0, 0] \<Longrightarrow>
    ber_items s ts \<Longrightarrow> ber_items (der_tag tag @ l @ c @ s) (Prim tag c # ts)"
| definite: "tag AND CBS_ASN1_CONSTRUCTED \<noteq> 0 \<Longrightarrow> ber_length (length c) l \<Longrightarrow> ber_items c us \<Longrightarrow>
    ber_items s ts \<Longrightarrow> ber_items (der_tag tag @ l @ c @ s) (Node tag us # ts)"
| indefinite: "tag AND CBS_ASN1_CONSTRUCTED \<noteq> 0 \<Longrightarrow> ber_items c us \<Longrightarrow>
    ber_items s ts \<Longrightarrow> ber_items (der_tag tag @ 0x80 # c @ [0, 0] @ s) (Node tag us # ts)"

text \<open>The fragments of a constructed string, and what becomes of a tree.\<close>

fun fragments :: "der \<Rightarrow> u8 list" where
  "fragments (Prim tag c) = c"
| "fragments (Node tag ts) = concat (map fragments ts)"

fun fragment_of :: "u32 \<Rightarrow> der \<Rightarrow> bool" where
  "fragment_of st (Prim tag c) \<longleftrightarrow> tag AND NOT CBS_ASN1_CONSTRUCTED = st"
| "fragment_of st (Node tag ts) \<longleftrightarrow> tag AND NOT CBS_ASN1_CONSTRUCTED = st \<and> list_all (fragment_of st) ts"

fun to_der :: "der \<Rightarrow> der" where
  "to_der (Prim tag c) = Prim tag c"
| "to_der (Node tag ts) =
     (if is_string_type tag then Prim (tag AND NOT CBS_ASN1_CONSTRUCTED) (concat (map fragments ts))
      else Node tag (map to_der ts))"

text \<open>All fragments of a constructed string have its type.\<close>

fun strings_ok :: "der \<Rightarrow> bool" where
  "strings_ok (Prim tag c) \<longleftrightarrow> True"
| "strings_ok (Node tag ts) \<longleftrightarrow>
     (if is_string_type tag then list_all (fragment_of (tag AND NOT CBS_ASN1_CONSTRUCTED)) ts else list_all strings_ok ts)"

text \<open>What is written for a list of elements, inside a string of type \<open>tg\<close> or outside (0).\<close>

definition written :: "u32 \<Rightarrow> der list \<Rightarrow> u8 list" where
  "written tg ts = concat (map (if tg = 0 then der_bytes \<circ> to_der else fragments) ts)"

definition writable :: "u32 \<Rightarrow> der list \<Rightarrow> bool" where
  "writable tg ts \<longleftrightarrow> list_all (if tg = 0 then \<lambda>x. strings_ok x \<and> der_ok (to_der x) else fragment_of tg) ts"

lemma written_Nil [simp]: "written tg [] = []"
  by (simp add: written_def)

lemma written_Cons: "written tg (x # ts) = written tg [x] @ written tg ts"
  by (simp add: written_def)

lemma writable_Nil [simp]: "writable tg []"
  by (simp add: writable_def)

lemma writable_Cons: "writable tg (x # ts) \<longleftrightarrow> writable tg [x] \<and> writable tg ts"
  by (simp add: writable_def)

section \<open>Conversion\<close>

lemma string_tag_nonzero: "is_string_type tag \<Longrightarrow> tag AND NOT CBS_ASN1_CONSTRUCTED \<noteq> 0"
  by (auto simp: is_string_type_def string_tags_def)

lemma convert_Suc_cases:
  assumes "convert_ber_loop (Suc n) sys tg eoc d h s st = Some (Some u, t, st')"
  obtains (finished) "s = []" "\<not> eoc" "t = []" "st' = st"
  | (eoc) el where "CBS_get_any_ber_asn1_element s = (Some el, t)" "is_eoc (el_header_len el) (el_out el)" "eoc" "st' = st"
  | (elem) el s1 out_tag child oc st1 s2 st2 st3 where
      "CBS_get_any_ber_asn1_element s = (Some el, s1)" "\<not> is_eoc (el_header_len el) (el_out el)"
      "if tg \<noteq> 0 then el_tag el AND NOT CBS_ASN1_CONSTRUCTED = tg \<and> oc = h \<and> child = tg \<and> st1 = st
       else oc = Suc h \<and> convert_tags 0 (el_tag el) = (out_tag, child) \<and> CBB_add_asn1 sys h out_tag st = (Some (), st1)"
      "if is_indefinite el then Suc d \<le> kMaxDepth \<and> convert_ber_loop n sys child True (Suc d) oc s1 st1 = Some (Some (), s2, st2)
       else s2 = s1 \<and> (\<exists>c. CBS_skip (el_header_len el) (el_out el) = (Some (), c) \<and>
         (if el_tag el AND CBS_ASN1_CONSTRUCTED \<noteq> 0
          then Suc d \<le> kMaxDepth \<and> (\<exists>c'. convert_ber_loop n sys child False (Suc d) oc c st1 = Some (Some (), c', st2))
          else CBB_add_bytes sys oc c st1 = (Some (), st2)))"
      "CBB_flush sys h st2 = (Some (), st3)"
      "convert_ber_loop n sys tg eoc d h s2 st3 = Some (Some u, t, st')"
proof (cases "s = []")
  case True
  with assms have "\<not> eoc" "t = []" "st' = st"
    by (auto simp: convert_ber_loop.simps CBS_len_def split: if_splits)
  with True show thesis by (rule finished)
next
  case False
  note loop = assms [unfolded convert_ber_loop.simps]
  from loop False obtain el s1 where el: "CBS_get_any_ber_asn1_element s = (Some el, s1)"
    by (auto simp: CBS_len_def split: prod.splits option.splits)
  show thesis
  proof (cases "is_eoc (el_header_len el) (el_out el)")
    case True
    with loop False el have "eoc" "st' = st" "s1 = t"
      by (auto simp: CBS_len_def split: if_splits)
    with True el show thesis by (intro eoc) simp_all
  next
    case not_eoc: False
    obtain out_tag child where tags: "(if tg \<noteq> 0 then (0, tg) else convert_tags tg (el_tag el)) = (out_tag, child)"
      by (cases "if tg \<noteq> 0 then (0, tg) else convert_tags tg (el_tag el)")
    define oc where "oc = (if tg \<noteq> 0 then h else Suc h)"
    have len: "CBS_len s \<noteq> 0" using False by (simp add: CBS_len_def)
    have tag: "\<not> (tg \<noteq> 0 \<and> el_tag el AND NOT CBS_ASN1_CONSTRUCTED \<noteq> tg)"
    proof
      assume "tg \<noteq> 0 \<and> el_tag el AND NOT CBS_ASN1_CONSTRUCTED \<noteq> tg"
      then show False using loop unfolding el by (simp only: len not_eoc if_False option.case prod.case if_True) simp
    qed
    note loop1 = loop [unfolded el Let_def, simplified len not_eoc tag if_False option.case prod.case,
      unfolded tags oc_def [symmetric] prod.case]
    obtain o1 st1 where opened: "(if tg \<noteq> 0 then (Some (), st) else CBB_add_asn1 sys h out_tag st) = (o1, st1)"
      by fastforce
    have "o1 = Some ()" using loop1 unfolding opened by (cases o1) simp_all
    note loop2 = loop1 [unfolded opened this prod.case option.case]
    obtain s2 st2 where body: "if is_indefinite el then Suc d \<le> kMaxDepth \<and> convert_ber_loop n sys child True (Suc d) oc s1 st1 = Some (Some (), s2, st2)
         else s2 = s1 \<and> (\<exists>c. CBS_skip (el_header_len el) (el_out el) = (Some (), c) \<and>
           (if el_tag el AND CBS_ASN1_CONSTRUCTED \<noteq> 0
            then Suc d \<le> kMaxDepth \<and> (\<exists>c'. convert_ber_loop n sys child False (Suc d) oc c st1 = Some (Some (), c', st2))
            else CBB_add_bytes sys oc c st1 = (Some (), st2)))"
      and rest: "(case CBB_flush sys h st2 of (None, st) \<Rightarrow> Some (None, s2, st)
          | (Some _, st) \<Rightarrow> convert_ber_loop n sys tg eoc d h s2 st) = Some (Some u, t, st')"
    proof (cases "is_indefinite el")
      case True
      with loop2 obtain s2 st2 where inner: "Suc d \<le> kMaxDepth" "convert_ber_loop n sys child True (Suc d) oc s1 st1 = Some (Some (), s2, st2)"
        by (auto split: option.splits if_splits)
      show thesis
        by (rule that [of s2 st2]) (use loop2 True inner in simp_all)
    next
      case False
      with loop2 obtain c where c: "CBS_skip (el_header_len el) (el_out el) = (Some (), c)"
        by (auto split: option.splits prod.splits simp del: CBS_skip_Some_iff)
      note loop3 = loop2 [unfolded c, simplified False if_False prod.case option.case]
      show thesis
      proof (cases "el_tag el AND CBS_ASN1_CONSTRUCTED \<noteq> 0")
        case True
        with loop3 obtain c' st2 where inner: "Suc d \<le> kMaxDepth"
          "convert_ber_loop n sys child False (Suc d) oc c st1 = Some (Some (), c', st2)"
          by (auto split: option.splits if_splits)
        show thesis
          by (rule that [of s1 st2]) (use loop3 True False inner c in auto)
      next
        case prim: False
        with loop3 obtain st2 where inner: "CBB_add_bytes sys oc c st1 = (Some (), st2)"
          by (auto split: option.splits prod.splits simp: CBS_data_def)
        show thesis
          by (rule that [of s1 st2]) (use loop3 prim False inner c in \<open>auto simp: CBS_data_def\<close>)
      qed
    qed
    from rest obtain st3 where "CBB_flush sys h st2 = (Some (), st3)" "convert_ber_loop n sys tg eoc d h s2 st3 = Some (Some u, t, st')"
      by (auto split: prod.splits option.splits)
    moreover have "if tg \<noteq> 0 then el_tag el AND NOT CBS_ASN1_CONSTRUCTED = tg \<and> oc = h \<and> child = tg \<and> st1 = st
       else oc = Suc h \<and> convert_tags 0 (el_tag el) = (out_tag, child) \<and> CBB_add_asn1 sys h out_tag st = (Some (), st1)"
      using tag tags opened \<open>o1 = Some ()\<close> by (auto simp: oc_def split: if_splits)
    ultimately show thesis using el not_eoc body by (intro elem)
  qed
qed


text \<open>The fuel: as much as the input is long, and one more for the end of the input.\<close>

lemma convert_fuel:
  "length s < n \<Longrightarrow> \<exists>r s' st'. convert_ber_loop n sys tg eoc d h s st = Some (r, s', st') \<and> length s' \<le> length s"
proof (induction n arbitrary: tg eoc d h s st)
  case (Suc n)
  have rest: "\<exists>r s' st'. (case CBB_flush sys h st2 of (None, st) \<Rightarrow> Some (None, s2, st)
      | (Some _, st) \<Rightarrow> convert_ber_loop n sys tg eoc d h s2 st) = Some (r, s', st') \<and> length s' \<le> length s"
    if "length s2 < length s" for s2 st2
  proof (cases "CBB_flush sys h st2")
    case (Pair o1 st3)
    have "length s2 < n" using that Suc.prems by simp
    from Suc.IH [OF this, of tg eoc d h st3] that show ?thesis
      unfolding Pair by (cases o1) (auto intro: less_imp_le order_trans)
  qed
  show ?case
  proof (cases "CBS_get_any_ber_asn1_element s")
    case (Pair o1 s1)
    show ?thesis
    proof (cases o1)
      case None
      then have "length s1 \<le> length s"
        using Pair cbs_get_any_asn1_element_prefix [of True s None s1] by (auto simp: CBS_get_any_ber_asn1_element_def)
      with None Pair show ?thesis by (simp add: convert_ber_loop.simps CBS_len_def)
    next
      case (Some el)
      note shorter = ber_element_shorter [OF Pair [unfolded Some]]
      have inner: "\<exists>r s' st'. (if Suc d > kMaxDepth then Some (None, c, st1)
          else convert_ber_loop n sys child e (Suc d) oc c st1) = Some (r, s', st') \<and> length s' \<le> length c"
        if "length c < length s" for c child e oc st1
        using Suc.IH [of c child e "Suc d" oc st1] that Suc.prems by auto
      have body: "\<exists>r s' st'. (case (if Suc d > kMaxDepth then Some (None, s1, st1)
            else convert_ber_loop n sys child True (Suc d) oc s1 st1) of
          None \<Rightarrow> None | Some (None, s, st) \<Rightarrow> Some (None, s, st)
        | Some (Some _, s, st) \<Rightarrow> (case CBB_flush sys h st of (None, st) \<Rightarrow> Some (None, s, st)
            | (Some _, st) \<Rightarrow> convert_ber_loop n sys tg eoc d h s st)) = Some (r, s', st') \<and> length s' \<le> length s"
        for child oc st1
      proof -
        from inner [OF shorter(1), of st1 child True oc] obtain r s2 st2 where
          r: "(if Suc d > kMaxDepth then Some (None, s1, st1) else convert_ber_loop n sys child True (Suc d) oc s1 st1) = Some (r, s2, st2)"
            "length s2 \<le> length s1"
          by blast
        then have "length s2 < length s" using shorter(1) by simp
        with rest [OF this, of st2] show ?thesis
          unfolding r(1) by (cases r) auto
      qed
      have contents: "\<exists>r s' st'. (case (if P then (if Suc d > kMaxDepth then Some (None, c, st1)
              else convert_ber_loop n sys child False (Suc d) oc c st1)
            else case CBB_add_bytes sys oc (CBS_data c) st1 of (r, st) \<Rightarrow> Some (r, c, st)) of
          None \<Rightarrow> None | Some (None, _, st) \<Rightarrow> Some (None, s1, st)
        | Some (Some _, _, st) \<Rightarrow> (case CBB_flush sys h st of (None, st) \<Rightarrow> Some (None, s1, st)
            | (Some _, st) \<Rightarrow> convert_ber_loop n sys tg eoc d h s1 st)) = Some (r, s', st') \<and> length s' \<le> length s"
        if "length c < length s" for P c child oc st1
      proof -
        have "\<exists>r c' st2. (if P then (if Suc d > kMaxDepth then Some (None, c, st1)
              else convert_ber_loop n sys child False (Suc d) oc c st1)
            else case CBB_add_bytes sys oc (CBS_data c) st1 of (r, st) \<Rightarrow> Some (r, c, st)) = Some (r, c', st2)"
          using inner [OF that, of st1 child False oc] by (cases P) (auto split: prod.splits)
        then obtain r c' st2 where r: "(if P then (if Suc d > kMaxDepth then Some (None, c, st1)
              else convert_ber_loop n sys child False (Suc d) oc c st1)
            else case CBB_add_bytes sys oc (CBS_data c) st1 of (r, st) \<Rightarrow> Some (r, c, st)) = Some (r, c', st2)"
          by blast
        from rest [OF shorter(1), of st2] shorter(1) show ?thesis
          unfolding r by (cases r) auto
      qed
      have le: "length s1 \<le> length s" using shorter(1) by simp
      note unfold = convert_ber_loop.simps(2) [of n sys tg eoc d h s st] Pair Some prod.case option.case Let_def
      consider "CBS_len s = 0" | "CBS_len s \<noteq> 0" "is_eoc (el_header_len el) (el_out el)"
        | "CBS_len s \<noteq> 0" "\<not> is_eoc (el_header_len el) (el_out el)" "tg \<noteq> 0 \<and> el_tag el AND NOT CBS_ASN1_CONSTRUCTED \<noteq> tg"
        | "CBS_len s \<noteq> 0" "\<not> is_eoc (el_header_len el) (el_out el)" "\<not> (tg \<noteq> 0 \<and> el_tag el AND NOT CBS_ASN1_CONSTRUCTED \<noteq> tg)"
        by blast
      then show ?thesis
      proof cases
        case 4
        obtain out_tag child where tags: "(if tg \<noteq> 0 then (0, tg) else convert_tags tg (el_tag el)) = (out_tag, child)"
          by fastforce
        obtain o2 st1 where opened: "(if tg \<noteq> 0 then (Some (), st) else CBB_add_asn1 sys h out_tag st) = (o2, st1)"
          by fastforce
        show ?thesis
        proof (cases o2)
          case None
          then show ?thesis
            unfolding unfold tags opened using 4 le by (simp only: if_False tags prod.case opened option.case) simp
        next
          case opened_child: (Some _)
          show ?thesis
          proof (cases "is_indefinite el")
            case True
            show ?thesis
              unfolding unfold using 4 body True
              by (simp only: if_False if_True tags prod.case opened opened_child option.case)
          next
            case False
            obtain o3 c where skip: "CBS_skip (el_header_len el) (el_out el) = (o3, c)" by fastforce
            show ?thesis
            proof (cases o3)
              case None
              show ?thesis
                unfolding unfold using 4 False le
                by (simp only: if_False tags prod.case opened opened_child option.case skip None) simp
            next
              case skipped: (Some _)
              have "length c < length s" using shorter(2) skip skipped by blast
              from contents [OF this] show ?thesis
                unfolding unfold using 4 False
                by (simp only: if_False tags prod.case opened opened_child option.case skip skipped)
            qed
          qed
        qed
      qed (unfold unfold, use le in simp_all)
    qed
  qed
qed simp


lemma child_closed:
  assumes h: "innermost h ls" and "spec_open h (der_tag tag) Asn1 ls = Some ls1"
    and close: "spec_add h [] (level_add (Suc h) x ls1) = Some ls3"
  shows "ls3 = level_add h (der_element tag x) ls" and "length x \<le> 0xfffffffe"
proof -
  have ls1: "ls1 = level_add h (der_tag tag) ls @ [(Asn1, [])]"
    using assms(2) h by (simp add: spec_open_def spec_add_here)
  have len: "length (level_add h (der_tag tag) ls) = Suc h" using h by simp
  then have ls2: "level_add (Suc h) x ls1 = level_add h (der_tag tag) ls @ [(Asn1, x)]"
    unfolding ls1 level_add_def [of "Suc h"] by (simp add: nth_append)
  show *: "length x \<le> 0xfffffffe"
    using close len unfolding ls2 by (auto simp: spec_add_def split: if_splits)
  with close len have "ls3 = level_add h (der_length (length x) @ x) (level_add h (der_tag tag) ls)"
    unfolding ls2 by (auto simp: spec_add_def level_add_def [of h "der_length (length x) @ x"] nth_append split: if_splits)
  then show "ls3 = level_add h (der_element tag x) ls"
    using h by (simp add: der_element_def der_header_def)
qed

lemma ber_length_0: "ber_length 0 l \<Longrightarrow> l \<noteq> [] \<and> last l = 0"
proof -
  have "last b = 0" if "b \<noteq> []" "be_nat b = 0" for b :: "u8 list"
  proof -
    have "be_nat (butlast b @ [last b]) = 0" using that by simp
    then have "unat (last b) = 0" by (simp only: be_nat_append) simp
    then show ?thesis by (simp only: unat_eq_zero)
  qed
  then show "ber_length 0 l \<Longrightarrow> l \<noteq> [] \<and> last l = 0" by (auto simp: ber_length_def)
qed

lemma definite_parts:
  assumes "ber_length (length c) l"
  shows "\<not> is_indefinite (ber_result tag l c f)"
    and "CBS_skip (el_header_len (ber_result tag l c f)) (el_out (ber_result tag l c f)) = (Some (), c)"
proof
  assume "is_indefinite (ber_result tag l c f)"
  then have c: "c = []" and last: "(der_tag tag @ l) ! (length (der_tag tag) + length l - 1) = 0x80"
    by (auto simp: is_indefinite_def ber_result_def CBS_len_def CBS_data_def)
  with ber_length_0 [of l] assms have "l \<noteq> []" "last l = 0" by auto
  then have "(der_tag tag @ l) ! (length (der_tag tag) + length l - 1) = 0"
    by (cases l rule: rev_cases) (simp_all add: nth_append)
  with last show False by simp
qed (simp add: ber_result_def)

lemma indefinite_part: "is_indefinite (ber_result tag [0x80] [] f)"
  by (simp add: is_indefinite_def ber_result_def CBS_len_def CBS_data_def)

lemma is_eoc_iff: "is_eoc n s \<longleftrightarrow> n = 2 \<and> s = [0, 0]"
proof -
  have "OPENSSL_memcmp (CBS_data s) [0, 0] 2 = 0 \<longleftrightarrow> s = [0, 0]" if "length s = 2"
    using that OPENSSL_memcmp_eq_0 [of 2 s "[0, 0]"] by (simp add: CBS_data_def)
  then show ?thesis by (auto simp: is_eoc_def CBS_len_def)
qed

lemma ber_result_not_eoc:
  assumes "\<not> is_eoc (el_header_len (ber_result tag l c f)) (el_out (ber_result tag l c f))" and "ber_length (length c) l"
  shows "der_tag tag @ l @ c \<noteq> [0, 0]"
proof
  assume eq: "der_tag tag @ l @ c = [0, 0]"
  have "1 \<le> length (der_tag tag)" "1 \<le> length l"
    using der_tag_nonempty assms(2) by (auto simp: ber_length_def)
  with arg_cong [OF eq, of length] have "length (der_tag tag) + length l = 2" by simp
  with eq assms(1) show False by (simp add: is_eoc_iff ber_result_def)
qed


text \<open>One element: what its body has written, closed by the flush, is the converted element.\<close>

lemma primitive_written:
  "written 0 [Prim tag c] = der_element tag c"
  "tag AND CBS_ASN1_CONSTRUCTED = 0 \<Longrightarrow> length c < 2 ^ 32 \<Longrightarrow> writable 0 [Prim tag c]"
  "tg \<noteq> 0 \<Longrightarrow> written tg [Prim tag c] = c"
  "tg \<noteq> 0 \<Longrightarrow> tag AND NOT CBS_ASN1_CONSTRUCTED = tg \<Longrightarrow> writable tg [Prim tag c]"
  by (simp_all add: written_def writable_def)

lemma node_written:
  assumes "tag AND CBS_ASN1_CONSTRUCTED \<noteq> 0" and "convert_tags 0 tag = (out, child)" and "writable child us"
  shows "written 0 [Node tag us] = der_element out (written child us)"
    and "length (written child us) < 2 ^ 32 \<Longrightarrow> writable 0 [Node tag us]"
proof -
  consider "is_string_type tag" "out = tag AND NOT CBS_ASN1_CONSTRUCTED" "child = tag AND NOT CBS_ASN1_CONSTRUCTED"
      "child \<noteq> 0" | "\<not> is_string_type tag" "out = tag" "child = 0"
    using assms(1,2) string_tag_nonzero [of tag] by (auto simp: convert_tags_def split: if_splits)
  note tags = this
  have no_bit: "(tag AND NOT CBS_ASN1_CONSTRUCTED) AND CBS_ASN1_CONSTRUCTED = 0"
    by (rule bit_word_eqI) (auto simp: bit_simps)
  from tags show "written 0 [Node tag us] = der_element out (written child us)"
    by cases (simp_all add: written_def o_def)
  assume len: "length (written child us) < 2 ^ 32"
  from tags show "writable 0 [Node tag us]"
    by cases (use len assms(1,3) no_bit in \<open>auto simp: written_def writable_def list_all_iff o_def\<close>)
qed

lemma node_fragment:
  assumes "tg \<noteq> 0" and "tag AND NOT CBS_ASN1_CONSTRUCTED = tg" and "writable tg us"
  shows "written tg [Node tag us] = written tg us" and "writable tg [Node tag us]"
  using assms by (simp_all add: written_def writable_def)

text \<open>Opening an element: the level its body is written to, and what the flush makes of it.\<close>

lemma element_opened:
  assumes rep: "represents st ls" and h: "innermost h ls"
    and opened: "if tg \<noteq> 0 then el_tag el AND NOT CBS_ASN1_CONSTRUCTED = tg \<and> oc = h \<and> child = tg \<and> st1 = st
       else oc = Suc h \<and> convert_tags 0 (el_tag el) = (out_tag, child) \<and> CBB_add_asn1 sys h out_tag st = (Some (), st1)"
  obtains ls1 where "represents st1 ls1" "innermost oc ls1"
    "\<And>b st2 st3. represents st2 (level_add oc b ls1) \<Longrightarrow> CBB_flush sys h st2 = (Some (), st3) \<Longrightarrow>
      represents st3 (level_add h (if tg = 0 then der_element out_tag b else b) ls) \<and> (tg = 0 \<longrightarrow> length b < 2 ^ 32)"
proof (cases "tg = 0")
  case False
  have "represents st3 (level_add h b ls)"
    if "represents st2 (level_add h b ls)" "CBB_flush sys h st2 = (Some (), st3)" for b st2 st3
  proof -
    have "innermost h (level_add h b ls)" using h by simp
    from spec_add_Nil_innermost [OF this] flush_op.sound [OF TrueI that]
    show ?thesis by auto
  qed
  with False that [of ls] opened rep h show thesis by simp
next
  case True
  with opened have oc: "oc = Suc h" and add: "CBB_add_asn1 sys h out_tag st = (Some (), st1)" by simp_all
  from add_asn1_op.sound [OF TrueI rep add] obtain ls1 where
    ls1: "spec_open h (der_tag out_tag) Asn1 ls = Some ls1" "represents st1 ls1"
    by blast
  have "represents st3 (level_add h (der_element out_tag b) ls) \<and> length b < 2 ^ 32"
    if "represents st2 (level_add oc b ls1)" "CBB_flush sys h st2 = (Some (), st3)" for b st2 st3
  proof -
    from flush_op.sound [OF TrueI that] obtain ls3 where
      ls3: "spec_add h [] (level_add (Suc h) b ls1) = Some ls3" "represents st3 ls3"
      unfolding oc by blast
    from child_closed [OF h ls1(1) ls3(1)] ls3(2) show ?thesis by auto
  qed
  with True that [of ls1] ls1 oc spec_open_length [OF ls1(1)] show thesis by simp
qed


lemma node_depth:
  assumes "Suc d \<le> kMaxDepth" and "list_all (\<lambda>x. Suc d + der_depth x \<le> kMaxDepth) us"
  shows "d + der_depth (Node tag us) \<le> kMaxDepth"
proof -
  have "fold max (map der_depth us) 0 \<le> kMaxDepth - Suc d"
    using assms by (auto simp: fold_max_le list_all_iff)
  with assms(1) show ?thesis by simp
qed

text \<open>What the conversion of a list of elements has written, and the tree of what it has read.\<close>

lemma convert_sound:
  "convert_ber_loop n sys tg eoc d h s st = Some (Some u, t, st') \<Longrightarrow> represents st ls \<Longrightarrow> innermost h ls \<Longrightarrow>
    d \<le> kMaxDepth \<Longrightarrow> length s < size_modulus \<Longrightarrow>
    \<exists>c ts. ber_items c ts \<and> s = c @ (if eoc then [0, 0] @ t else []) \<and> (\<not> eoc \<longrightarrow> t = []) \<and> writable tg ts \<and>
      list_all (\<lambda>x. d + der_depth x \<le> kMaxDepth) ts \<and> represents st' (level_add h (written tg ts) ls)"
proof (induction n arbitrary: tg eoc d h s st u t st' ls)
  case 0
  then show ?case by (simp add: convert_ber_loop.simps)
next
  case (Suc n)
  have same: "level_add h [] ls = ls"
    using spec_add_Nil_innermost [OF Suc.prems(3)] spec_add_here [OF Suc.prems(3), of "[]"] by simp
  from Suc.prems(1) show ?case
  proof (cases rule: convert_Suc_cases)
    case finished
    then show ?thesis
      using Suc.prems(2) same by (intro exI [of _ "[]"]) (simp add: ber_items.none)
  next
    case (eoc el)
    from ber_element_parts [OF eoc(1)] eoc(2) have "s = [0, 0] @ t" by (simp add: is_eoc_iff)
    then show ?thesis
      using Suc.prems(2) same eoc(3,4) by (intro exI [of _ "[]"]) (simp add: ber_items.none)
  next
    case (elem el s1 out_tag child oc st1 s2 st2 st3)
    let ?tag = "el_tag el"
    obtain ls1 where ls1: "represents st1 ls1" "innermost oc ls1" and
      close: "\<And>b. represents st2 (level_add oc b ls1) \<Longrightarrow>
        represents st3 (level_add h (if tg = 0 then der_element out_tag b else b) ls) \<and> (tg = 0 \<longrightarrow> length b < 2 ^ 32)"
      using element_opened [OF Suc.prems(2,3) elem(3)] elem(5) by metis
    have children: "(length b < 2 ^ 32 \<longrightarrow> tg = 0 \<longrightarrow> written 0 [Node ?tag us] = der_element out_tag b \<and> writable 0 [Node ?tag us]) \<and>
        (tg \<noteq> 0 \<longrightarrow> written tg [Node ?tag us] = b \<and> writable tg [Node ?tag us])"
      if "b = written child us" "writable child us" "?tag AND CBS_ASN1_CONSTRUCTED \<noteq> 0" for b us
      using elem(3) node_written [OF that(3) _ that(2)] node_fragment [OF _ _ that(2), of ?tag] that(1,2) by auto
    obtain x b e where x: "\<And>r ts. ber_items r ts \<Longrightarrow> ber_items (e @ r) (x # ts)" "s = e @ s2"
      and b: "represents st2 (level_add oc b ls1)"
      and written: "length b < 2 ^ 32 \<longrightarrow> tg = 0 \<longrightarrow> written 0 [x] = der_element out_tag b \<and> writable 0 [x]"
        "tg \<noteq> 0 \<longrightarrow> written tg [x] = b \<and> writable tg [x]"
      and depth: "d + der_depth x \<le> kMaxDepth"
    proof -
      from ber_element_sound [OF elem(1)] consider
        (definite) tag l c f where "ber_length (length c) l" "s = der_tag tag @ l @ c @ s1" "el = ber_result tag l c f"
        | (indefinite) tag where "tag AND CBS_ASN1_CONSTRUCTED \<noteq> 0" "s = der_tag tag @ 0x80 # s1" "el = ber_result tag [0x80] [] True"
        by blast
      then show thesis
      proof cases
        case (definite tag l c f)
        have tag: "el_tag el = tag" using definite(3) by (simp add: ber_result_def)
        note parts = definite_parts [OF definite(1), of tag f, folded definite(3)]
        from elem(4) parts have s2: "s2 = s1" by (simp del: CBS_skip_Some_iff)
        show thesis
        proof (cases "tag AND CBS_ASN1_CONSTRUCTED = 0")
          case True
          with elem(4) parts tag have "CBB_add_bytes sys oc c st1 = (Some (), st2)"
            by (auto simp del: CBS_skip_Some_iff)
          moreover have "length c < size_modulus" using Suc.prems(5) definite(2) by simp
          ultimately have b: "represents st2 (level_add oc c ls1)"
            using cbb_implements.sound [OF CBB_add_bytes_implements TrueI ls1(1)] spec_add_here [OF ls1(2), of c] by fastforce
          have not_eoc: "der_tag tag @ l @ c \<noteq> [0, 0]"
            using elem(2) definite(1) unfolding definite(3) by (rule ber_result_not_eoc)
          show thesis
          proof (rule that [of "der_tag tag @ l @ c" "Prim tag c" c])
            show "ber_items ((der_tag tag @ l @ c) @ r) (Prim tag c # ts)" if "ber_items r ts" for r ts
              using ber_items.primitive [OF True definite(1) not_eoc that] by simp
            show "s = (der_tag tag @ l @ c) @ s2" using definite(2) s2 by simp
            show "length c < 2 ^ 32 \<longrightarrow> tg = 0 \<longrightarrow> written 0 [Prim tag c] = der_element out_tag c \<and> writable 0 [Prim tag c]"
              using elem(3) True tag by (auto simp: convert_tags_def primitive_written)
            show "tg \<noteq> 0 \<longrightarrow> written tg [Prim tag c] = c \<and> writable tg [Prim tag c]"
              using elem(3) tag by (auto simp: primitive_written)
          qed (use b Suc.prems(4) in simp_all)
        next
          case False
          with elem(4) parts tag obtain c' where inner: "Suc d \<le> kMaxDepth"
            "convert_ber_loop n sys child False (Suc d) oc c st1 = Some (Some (), c', st2)"
            by (auto simp del: CBS_skip_Some_iff)
          have "length c < size_modulus" using Suc.prems(5) definite(2) by simp
          from Suc.IH [OF inner(2) ls1 inner(1) this] obtain us where us: "ber_items c us" "writable child us"
            "list_all (\<lambda>x. Suc d + der_depth x \<le> kMaxDepth) us" "represents st2 (level_add oc (written child us) ls1)"
            by auto
          show thesis
          proof (rule that [of "der_tag tag @ l @ c" "Node tag us" "written child us"])
            show "ber_items ((der_tag tag @ l @ c) @ r) (Node tag us # ts)" if "ber_items r ts" for r ts
              using ber_items.definite [OF False definite(1) us(1) that] by simp
          qed (use us children [OF refl us(2)] False tag definite(2) s2 node_depth [OF inner(1) us(3)] in simp_all)
        qed
      next
        case (indefinite tag)
        have tag: "el_tag el = tag" using indefinite(3) by (simp add: ber_result_def)
        have "is_indefinite el" unfolding indefinite(3) by (rule indefinite_part)
        with elem(4) have inner: "Suc d \<le> kMaxDepth" "convert_ber_loop n sys child True (Suc d) oc s1 st1 = Some (Some (), s2, st2)"
          by simp_all
        have "length s1 < size_modulus" using Suc.prems(5) indefinite(2) by simp
        from Suc.IH [OF inner(2) ls1 inner(1) this] obtain c us where us: "ber_items c us" "writable child us"
          "list_all (\<lambda>x. Suc d + der_depth x \<le> kMaxDepth) us" "represents st2 (level_add oc (written child us) ls1)"
          "s1 = c @ [0, 0] @ s2"
          by auto
        show thesis
        proof (rule that [of "der_tag tag @ 0x80 # c @ [0, 0]" "Node tag us" "written child us"])
          show "ber_items ((der_tag tag @ 0x80 # c @ [0, 0]) @ r) (Node tag us # ts)" if "ber_items r ts" for r ts
            using ber_items.indefinite [OF indefinite(1) us(1) that] by simp
        qed (use us children [OF refl us(2)] indefinite(1,2) tag node_depth [OF inner(1) us(3)] in simp_all)
      qed
    qed
    have rep3: "represents st3 (level_add h (written tg [x]) ls)" and ok: "writable tg [x]"
      using close [OF b] written by (cases "tg = 0"; simp)+
    have h3: "innermost h (level_add h (written tg [x]) ls)" using Suc.prems(3) by simp
    have "length s2 < size_modulus" using Suc.prems(5) x(2) by simp
    from Suc.IH [OF elem(6) rep3 h3 Suc.prems(4) this] obtain c ts where
      rest: "ber_items c ts" "s2 = c @ (if eoc then [0, 0] @ t else [])" "\<not> eoc \<longrightarrow> t = []" "writable tg ts"
        "list_all (\<lambda>x. d + der_depth x \<le> kMaxDepth) ts"
        "represents st' (level_add h (written tg ts) (level_add h (written tg [x]) ls))"
      by blast
    have "level_add h (written tg ts) (level_add h (written tg [x]) ls) = level_add h (written tg (x # ts)) ls"
      using Suc.prems(3) by (subst written_Cons) simp
    then show ?thesis
      using rest x ok depth writable_Cons [of tg x ts]
      by (intro exI [of _ "e @ c"] exI [of _ "x # ts"]) auto
  qed
qed


section \<open>DER input and output\<close>

text \<open>No constructed strings: the trees that BER-to-DER conversion leaves alone.\<close>

fun plain :: "der \<Rightarrow> bool" where
  "plain (Prim tag c) \<longleftrightarrow> True"
| "plain (Node tag ts) \<longleftrightarrow> \<not> is_string_type tag \<and> list_all plain ts"

lemma ber_reads_der:
  assumes "length c < 2 ^ 32"
  shows "CBS_get_any_ber_asn1_element (der_element tag c @ t) = (Some (der_result tag c), t)"
proof -
  let ?n = "length c"
  have elem: "der_element tag c @ t = der_tag tag @ der_length ?n @ c @ t"
    by (simp add: der_element_def der_header_def)
  have read: "CBS_get_bytes (length (der_header tag ?n) + ?n) (der_element tag c @ t) =
      (Some (der_element tag c), t)"
    by (simp add: der_element_def)
  show ?thesis
  proof (cases "?n < 128")
    case True
    then have lb: "unat (word_of_nat ?n :: u8) = ?n"
      by (simp only: unat_u8_of_nat) simp
    have tag: "parse_asn1_tag (der_element tag c @ t) = (Some tag, word_of_nat ?n # c @ t)"
      using True parse_asn1_tag_der_tag by (simp add: elem der_length_def)
    have "length (der_header tag ?n) = Suc (length (der_tag tag))"
      using True by (simp add: der_header_def der_length_def)
    with read True lb show ?thesis
      unfolding CBS_get_any_ber_asn1_element_def
      by (subst element_short [OF tag]) (auto simp: der_result_def)
  next
    case False
    define k where "k = length_octets ?n"
    have k: "1 \<le> k" "k \<le> 4" "256 ^ (k - 1) \<le> ?n" "?n < 256 ^ k"
      using length_octets_range [of ?n] length_octets_bounds [of ?n] False assms by (auto simp: k_def)
    have lb: "unat (more_byte k) = k + 128"
      using k by (intro unat_more_byte) simp
    let ?h = "be_bytes k ?n @ c @ t"
    have tag: "parse_asn1_tag (der_element tag c @ t) = (Some tag, more_byte k # ?h)"
      using False parse_asn1_tag_der_tag by (simp add: elem der_length_def k_def)
    have be: "be_nat (take k ?h) = ?n"
      using k by simp
    have hdr: "length (der_header tag ?n) = Suc (length (der_tag tag)) + k"
      using False by (simp add: der_header_def der_length_def k_def)
    have mod: "k = unat (more_byte k) mod 128"
      using k by (simp add: lb)
    show ?thesis
      unfolding ber_element_long [OF tag _ mod, unfolded lb be, simplified]
      using k False read by (simp add: der_result_def hdr)
  qed
qed

lemma find_ber_der:
  "list_all (\<lambda>x. der_ok x \<and> plain x \<and> depth + der_depth x \<le> kMaxDepth) ds \<Longrightarrow>
    find_ber_loop depth False (concat (map der_bytes ds)) = Some False"
proof (induction "concat (map der_bytes ds)" arbitrary: depth ds rule: measure_induct_rule [of length])
  case less
  show ?case
  proof (cases ds)
    case Nil
    then show ?thesis by (subst find_ber_loop.simps) (simp add: CBS_len_def)
  next
    case (Cons x xs)
    define tag c where "tag = (case x of Prim tag _ \<Rightarrow> tag | Node tag _ \<Rightarrow> tag)"
      and "c = (case x of Prim _ c \<Rightarrow> c | Node _ us \<Rightarrow> concat (map der_bytes us))"
    have x: "der_bytes x = der_element tag c" and len: "length c < 2 ^ 32"
      using less.prems Cons by (cases x; simp add: tag_def c_def)+
    let ?rest = "concat (map der_bytes xs)"
    have bytes: "concat (map der_bytes ds) = der_element tag c @ ?rest" by (simp add: Cons x)
    have shorter: "length ?rest < length (concat (map der_bytes ds))" "length c < length (concat (map der_bytes ds))"
      unfolding bytes using tag_codec.enc_nonempty [OF TrueI, of tag] by (simp_all add: der_element_def der_header_def)
    have rest: "find_ber_loop depth False ?rest = Some False"
      using less.prems Cons by (intro less.hyps [OF shorter(1)]) simp
    have skip: "CBS_skip (el_header_len (der_result tag c)) (el_out (der_result tag c)) = (Some (), c)"
      by (simp add: der_result_def der_element_def)
    have el: "el_ber_found (der_result tag c) = False" "el_tag (der_result tag c) = tag"
      by (simp_all add: der_result_def)
    have len0: "CBS_len (concat (map der_bytes ds)) \<noteq> 0" using shorter(1) unfolding CBS_len_def by linarith
    note step = find_ber_loop.simps [of depth False "concat (map der_bytes ds)"]
    show ?thesis
    proof (cases x)
      case (Prim tag' c')
      then have "tag AND CBS_ASN1_CONSTRUCTED = 0" using less.prems Cons by (simp add: tag_def)
      then show ?thesis
        unfolding step using rest el len0 by (simp add: bytes ber_reads_der [OF len])
    next
      case (Node tag' us)
      then have tag: "tag AND CBS_ASN1_CONSTRUCTED \<noteq> 0" "\<not> is_string_type tag" and c: "c = concat (map der_bytes us)"
        using less.prems Cons by (simp_all add: tag_def c_def)
      have depth: "Suc depth + fold max (map der_depth us) 0 \<le> kMaxDepth"
        using less.prems Cons Node by simp
      then have "fold max (map der_depth us) 0 \<le> kMaxDepth - Suc depth" "Suc depth \<le> kMaxDepth" by simp_all
      then have us: "list_all (\<lambda>x. der_ok x \<and> plain x \<and> Suc depth + der_depth x \<le> kMaxDepth) us"
        using less.prems Cons Node by (auto simp: fold_max_le list_all_iff)
      have "find_ber_loop (Suc depth) False c = Some False"
        unfolding c by (rule less.hyps [OF _ us]) (use shorter(2) c in simp)
      then show ?thesis
        unfolding step using rest el len0 tag depth skip
        by (simp add: bytes ber_reads_der [OF len] del: CBS_skip_Some_iff)
    qed
  qed
qed

lemma plain_to_der: "strings_ok x \<Longrightarrow> plain (to_der x)"
  by (induction x) (auto simp: list_all_iff)

lemma der_depth_to_der: "der_depth (to_der x) \<le> der_depth x"
proof (induction x)
  case (Node tag ts)
  then have "fold max (map (der_depth \<circ> to_der) ts) 0 \<le> fold max (map der_depth ts) 0"
    unfolding fold_max_le using fold_max_le [of "map der_depth ts" 0 "fold max (map der_depth ts) 0"]
    by (fastforce intro: order_trans)
  then show ?case by (simp add: o_def)
qed simp


lemma cbs_convert_ber_sound:
  assumes "cbs_convert_ber sys 0 0 False 0 (s, st) = (Some u, t, st')" and "represents st [(Plain 0, [])]"
    and "length s < size_modulus"
  shows "\<exists>ts. ber_items s ts \<and> t = [] \<and> list_all (\<lambda>x. strings_ok x \<and> der_ok (to_der x) \<and> der_depth (to_der x) \<le> kMaxDepth) ts \<and>
    represents st' [(Plain 0, concat (map (der_bytes \<circ> to_der) ts))]"
proof -
  have "convert_ber_loop (Suc (CBS_len s)) sys 0 False 0 0 s st = Some (Some (), t, st')"
    using assms(1) by (auto simp: cbs_convert_ber_def split: if_splits option.splits)
  from convert_sound [OF this assms(2) _ _ assms(3)] obtain ts where
    ts: "ber_items s ts" "t = []" "writable 0 ts" "list_all (\<lambda>x. der_depth x \<le> kMaxDepth) ts"
      "represents st' (level_add 0 (written 0 ts) [(Plain 0, [])])"
    by auto
  have "der_depth (to_der x) \<le> kMaxDepth" if "der_depth x \<le> kMaxDepth" for x
    using der_depth_to_der that by (rule le_trans)
  with ts(3,4) have "list_all (\<lambda>x. strings_ok x \<and> der_ok (to_der x) \<and> der_depth (to_der x) \<le> kMaxDepth) ts"
    by (auto simp: writable_def list_all_iff)
  with ts show ?thesis by (intro exI [of _ ts]) (simp add: written_def level_add_def)
qed

lemma CBS_asn1_ber_to_der_sound:
  assumes conv: "CBS_asn1_ber_to_der sys s = (Some (out, Some storage), t)" and len: "length s < size_modulus"
  shows "\<exists>ts. ber_items s ts \<and> t = [] \<and> list_all (\<lambda>x. strings_ok x \<and> der_ok (to_der x) \<and> der_depth (to_der x) \<le> kMaxDepth) ts \<and>
    out = concat (map (der_bytes \<circ> to_der) ts) \<and> storage = out"
proof -
  have "cbs_find_ber s 0 = Some True"
    using conv by (cases "cbs_find_ber s 0"; cases "the (cbs_find_ber s 0)") (simp_all add: CBS_asn1_ber_to_der_def)
  note conv1 = conv [unfolded CBS_asn1_ber_to_der_def this option.case not_True_eq_False if_False]
  obtain st where init: "CBB_init sys (CBS_len s) = Some st"
    using conv1 by (cases "CBB_init sys (CBS_len s)") simp_all
  obtain r t1 st1 where run1: "cbs_convert_ber sys 0 0 False 0 (s, st) = (r, t1, st1)"
    by (cases "cbs_convert_ber sys 0 0 False 0 (s, st)")
  note conv2 = conv1 [unfolded init option.case run1 prod.case]
  obtain u where u: "r = Some u" using conv2 by (cases r) simp_all
  obtain r2 st2 where finish2: "CBB_finish sys True True 0 st1 = (r2, st2)"
    by (cases "CBB_finish sys True True 0 st1")
  note conv3 = conv2 [unfolded u option.case finish2 prod.case]
  then have "r2 = Some storage" "t1 = t" and out: "out = storage"
    by (cases r2; simp add: CBS_init_def)+
  then have run: "cbs_convert_ber sys 0 0 False 0 (s, st) = (Some u, t, st1)"
    and finish: "CBB_finish sys True True 0 st1 = (Some storage, st2)"
    using run1 u finish2 by simp_all
  have "represents st [(Plain 0, [])]"
    using CBB_init_represents [OF init] len by (simp add: CBS_len_def)
  from cbs_convert_ber_sound [OF run this len] obtain ts where
    ts: "ber_items s ts" "t = []" "list_all (\<lambda>x. strings_ok x \<and> der_ok (to_der x) \<and> der_depth (to_der x) \<le> kMaxDepth) ts"
      "represents st1 [(Plain 0, concat (map (der_bytes \<circ> to_der) ts))]"
    by blast
  from CBB_finish_sound(1) [OF ts(4) finish] have "storage = concat (map (der_bytes \<circ> to_der) ts)"
    by (simp add: spec_finish_def spec_add_def level_add_def)
  with ts out show ?thesis by blast
qed

section \<open>Implicitly tagged strings\<close>

lemma CBS_get_asn1_shorter: "CBS_get_asn1 tag s = (Some c, t) \<Longrightarrow> length t < length s"
  by (auto simp: CBS_get_asn1_Some_iff der_element_def der_header_def der_length_def)

lemma implicit_string_loop_sound:
  "implicit_string_loop sys tag s st = (Some u, st') \<Longrightarrow>
    \<exists>cs. s = concat (map (der_element tag) cs) \<and> list_all (\<lambda>c. length c < 2 ^ 32) cs"
proof (induction s arbitrary: st rule: length_induct)
  case (1 s)
  show ?case
  proof (cases "s = []")
    case True
    then show ?thesis by (intro exI [of _ "[]"]) simp
  next
    case False
    with "1.prems" obtain c t st1 where c: "CBS_get_asn1 tag s = (Some c, t)" "implicit_string_loop sys tag t st1 = (Some u, st')"
      by (subst (asm) implicit_string_loop.simps)
        (auto simp: CBS_len_def pbind_Some_iff simp del: CBS_get_asn1_Some_iff split: prod.splits option.splits)
    from "1.IH" CBS_get_asn1_shorter [OF c(1)] c(2) obtain cs where
      cs: "t = concat (map (der_element tag) cs)" "list_all (\<lambda>c. length c < 2 ^ 32) cs" by blast
    with c(1) show ?thesis
      by (intro exI [of _ "c # cs"]) (simp add: CBS_get_asn1_Some_iff)
  qed
qed

lemma implicit_string_loop_implements:
  "list_all (\<lambda>c. length c < 2 ^ 32) cs \<Longrightarrow> cbb_implements (innermost 0)
    (\<lambda>sys. implicit_string_loop sys tag (concat (map (der_element tag) cs))) (spec_add 0 (concat cs))"
proof (induction cs)
  case Nil
  have "implicit_string_loop sys tag (concat (map (der_element tag) [])) = pret ()" for sys
    by (subst implicit_string_loop.simps) (simp add: CBS_len_def)
  then show ?case using pret_implements [of 0] by (simp only: concat.simps)
next
  case (Cons c cs)
  then have len: "length c < 2 ^ 32" and cs: "list_all (\<lambda>c. length c < 2 ^ 32) cs" by simp_all
  let ?s = "concat (map (der_element tag) (c # cs))" and ?t = "concat (map (der_element tag) cs)"
  have read: "CBS_get_asn1 tag ?s = (Some c, ?t)" using len by (simp add: CBS_get_asn1_Some_iff)
  have "CBS_len ?s > 0" using CBS_get_asn1_shorter [OF read] unfolding CBS_len_def by linarith
  then have step: "implicit_string_loop sys tag ?s = pbind (CBB_add_bytes sys 0 c) (\<lambda>_. implicit_string_loop sys tag ?t)" for sys
    by (subst implicit_string_loop.simps) (simp only: read if_True prod.case option.case CBS_data_def)
  have "length c < size_modulus" using len by simp
  from implements_add_add [OF implements_weaken [OF CBB_add_bytes_implements [OF this, of 0]] Cons.IH [OF cs]]
  show ?case unfolding step by (simp only: concat.simps)
qed


text \<open>Evaluation of the element reader and the conversion on concrete bytes.\<close>

lemmas ber_eval = CBS_get_any_ber_asn1_element_def cbs_get_any_asn1_element_def parse_asn1_tag_def CBS_get_u8_def cbs_get_def
  CBS_get_bytes_def CBS_init_def CBS_len_def CBS_data_def pbind_def pmap_def Let_def CBS_ASN1_CONSTRUCTED_def
  CBS_ASN1_TAG_SHIFT_def is_string_type_def string_tags_def CBS_skip_def kMaxDepth_def

lemma converted_example:
  "fst (CBS_asn1_ber_to_der (\<lambda>_. True) [0x30, 0x80, 4, 1, 0xaa, 0, 0]) = Some ([0x30, 3, 4, 1, 0xaa], Some [0x30, 3, 4, 1, 0xaa])"
proof -
  have seq: "CBS_get_any_ber_asn1_element [0x30, 0x80, 4, 1, 0xaa, 0, 0] =
    (Some \<lparr>el_out = [0x30, 0x80], el_tag = 0x20000010, el_header_len = 2, el_ber_found = True\<rparr>, [4, 1, 0xaa, 0, 0])"
    by (simp add: ber_eval)
  have str: "CBS_get_any_ber_asn1_element [4, 1, 0xaa, 0, 0] =
    (Some \<lparr>el_out = [4, 1, 0xaa], el_tag = 4, el_header_len = 2, el_ber_found = False\<rparr>, [0, 0])"
    by (simp add: ber_eval)
  have eoc: "CBS_get_any_ber_asn1_element [0, 0] =
    (Some \<lparr>el_out = [0, 0], el_tag = 0, el_header_len = 2, el_ber_found = False\<rparr>, [])"
    by (simp add: ber_eval)
  have find: "cbs_find_ber [0x30, 0x80, 4, 1, 0xaa, 0, 0] 0 = Some True"
    by (simp add: cbs_find_ber_def find_ber_loop.simps seq CBS_len_def)
  have "CBS_skip 2 [4, 1, 0xaa] = (Some (), [0xaa])" by (simp add: ber_eval del: CBS_skip_Some_iff)
  then show ?thesis
    using find by (simp add: CBS_asn1_ber_to_der_def cbs_convert_ber_def convert_ber_loop.simps seq str eoc is_eoc_iff
      convert_tags_def is_indefinite_def is_string_type_def string_tags_def kMaxDepth_def cbb_eval CBS_len_def CBS_data_def CBS_init_def
      CBS_ASN1_CONSTRUCTED_def del: CBS_skip_Some_iff)
qed


lemma cbs_convert_ber_never_runs_out:
  "d \<le> kMaxDepth \<Longrightarrow> convert_ber_loop (Suc (CBS_len s)) sys tg eoc d h s st = Some (cbs_convert_ber sys h tg eoc d (s, st))"
  using convert_fuel [of s "Suc (CBS_len s)" sys tg eoc d h st] by (auto simp: cbs_convert_ber_def CBS_len_def)

lemma missed_ber: "CBS_get_any_asn1 [0x30, 0x80, 0, 0] = (None, [0x30, 0x80, 0, 0])"
  by (simp add: CBS_get_any_asn1_def CBS_get_any_asn1_element_def ber_eval)

lemma missed_items:
  "ber_items [0x30, 8, 0x30, 4, 0x30, 0x80, 0, 0, 5, 0]
    [Node 0x20000010 [Node 0x20000010 [Node 0x20000010 []], Prim 5 []]]"
proof -
  have tags: "der_tag 0x20000010 = [0x30]" "der_tag 5 = [5]"
    by (simp_all add: der_tag_def)
  have sequence: "(0x20000010 :: u32) AND CBS_ASN1_CONSTRUCTED \<noteq> 0" and prim: "(5 :: u32) AND CBS_ASN1_CONSTRUCTED = 0"
    by (simp_all add: CBS_ASN1_CONSTRUCTED_def CBS_ASN1_TAG_SHIFT_def)
  note none = ber_items.none
  have inner: "ber_items [0x30, 0x80, 0, 0] [Node 0x20000010 []]"
    using ber_items.indefinite [OF sequence none none] by (simp add: tags)
  have null: "ber_items [5, 0] [Prim 5 []]"
    using ber_items.primitive [OF prim _ _ none, of "[]" "[0]"] by (simp add: tags ber_length_def)
  have four: "ber_length (length [0x30, 0x80, 0, 0 :: u8]) [4]" by (simp add: ber_length_def)
  have middle: "ber_items [0x30, 4, 0x30, 0x80, 0, 0, 5, 0] [Node 0x20000010 [Node 0x20000010 []], Prim 5 []]"
    using ber_items.definite [OF sequence four inner null] by (simp add: tags)
  have eight: "ber_length (length [0x30, 4, 0x30, 0x80, 0, 0, 5, 0 :: u8]) [8]" by (simp add: ber_length_def)
  show ?thesis using ber_items.definite [OF sequence eight middle none] by (simp add: tags)
qed

lemma missed_elements:
  "CBS_get_any_ber_asn1_element [0x30, 8, 0x30, 4, 0x30, 0x80, 0, 0, 5, 0] =
    (Some \<lparr>el_out = [0x30, 8, 0x30, 4, 0x30, 0x80, 0, 0, 5, 0], el_tag = 0x20000010, el_header_len = 2, el_ber_found = False\<rparr>, [])"
  "cbs_get_any_asn1_element False [0x30, 8, 0x30, 4, 0x30, 0x80, 0, 0, 5, 0] =
    (Some \<lparr>el_out = [0x30, 8, 0x30, 4, 0x30, 0x80, 0, 0, 5, 0], el_tag = 0x20000010, el_header_len = 2, el_ber_found = False\<rparr>, [])"
  "CBS_get_any_ber_asn1_element [0x30, 4, 0x30, 0x80, 0, 0, 5, 0] =
    (Some \<lparr>el_out = [0x30, 4, 0x30, 0x80, 0, 0], el_tag = 0x20000010, el_header_len = 2, el_ber_found = False\<rparr>, [5, 0])"
  "CBS_get_any_ber_asn1_element [0x30, 0x80, 0, 0] =
    (Some \<lparr>el_out = [0x30, 0x80], el_tag = 0x20000010, el_header_len = 2, el_ber_found = True\<rparr>, [0, 0])"
  "CBS_get_any_ber_asn1_element [5, 0] =
    (Some \<lparr>el_out = [5, 0], el_tag = 5, el_header_len = 2, el_ber_found = False\<rparr>, [])"
  by (simp_all add: ber_eval)

lemma missed_find: "cbs_find_ber [0x30, 8, 0x30, 4, 0x30, 0x80, 0, 0, 5, 0] 0 = Some False"
proof -
  have sequence: "(0x20000010 :: u32) AND CBS_ASN1_CONSTRUCTED \<noteq> 0" "\<not> is_string_type 0x20000010"
    and prim: "(5 :: u32) AND CBS_ASN1_CONSTRUCTED = 0"
    by (simp_all add: CBS_ASN1_CONSTRUCTED_def CBS_ASN1_TAG_SHIFT_def is_string_type_def string_tags_def)
  have skips: "CBS_skip 2 [0x30, 8, 0x30, 4, 0x30, 0x80, 0, 0, 5, 0] = (Some (), [0x30, 4, 0x30, 0x80, 0, 0, 5, 0])"
    "CBS_skip 2 [0x30, 4, 0x30, 0x80, 0, 0] = (Some (), [0x30, 0x80, 0, 0])"
    by (simp_all add: ber_eval del: CBS_skip_Some_iff)
  have empty: "find_ber_loop d f [] = Some f" for d f
    by (subst find_ber_loop.simps) (simp add: CBS_len_def)
  have indefinite: "find_ber_loop 2 False [0x30, 0x80, 0, 0] = Some True"
    by (subst find_ber_loop.simps) (simp add: missed_elements CBS_len_def)
  have null: "find_ber_loop 1 f [5, 0] = Some False" for f
    by (subst find_ber_loop.simps) (simp add: missed_elements CBS_len_def prim empty)
  have middle: "find_ber_loop 1 False [0x30, 4, 0x30, 0x80, 0, 0, 5, 0] = Some False"
    by (subst find_ber_loop.simps) (use indefinite null in \<open>simp add: missed_elements CBS_len_def sequence skips kMaxDepth_def numeral_2_eq_2 [symmetric] del: CBS_skip_Some_iff\<close>)
  show ?thesis
    unfolding cbs_find_ber_def
    by (subst find_ber_loop.simps) (use middle empty in \<open>simp add: missed_elements CBS_len_def sequence skips kMaxDepth_def del: CBS_skip_Some_iff\<close>)
qed

lemma read_all_first: "read_all n get s = Some xs \<Longrightarrow> s \<noteq> [] \<Longrightarrow> \<exists>x t. get s = (Some x, t)"
  by (cases n; cases s) (auto split: prod.splits option.splits)

lemma read_der_inner:
  assumes "read_der n s = (Some d, t)" and "CBS_get_any_asn1 s = (Some (c, tag), t')"
    and "tag AND CBS_ASN1_CONSTRUCTED \<noteq> 0" and "c \<noteq> []"
  shows "\<exists>m x u. read_der m c = (Some x, u)"
proof -
  from assms(1-3) obtain m ts where "read_all (length c) (read_der m) c = Some ts"
    by (auto simp: read_der_cases [of n s] split: nat.splits option.splits)
  from read_all_first [OF this assms(4)] show ?thesis by blast
qed

lemma missed_read: "fst (read_der n [0x30, 8, 0x30, 4, 0x30, 0x80, 0, 0, 5, 0]) = None"
proof (rule ccontr)
  have sequence: "(0x20000010 :: u32) AND CBS_ASN1_CONSTRUCTED \<noteq> 0"
    by (simp add: CBS_ASN1_CONSTRUCTED_def CBS_ASN1_TAG_SHIFT_def)
  have outer: "CBS_get_any_asn1 [0x30, 8, 0x30, 4, 0x30, 0x80, 0, 0, 5, 0] =
      (Some ([0x30, 4, 0x30, 0x80, 0, 0, 5, 0], 0x20000010), [])"
    and middle: "CBS_get_any_asn1 [0x30, 4, 0x30, 0x80, 0, 0, 5, 0] = (Some ([0x30, 0x80, 0, 0], 0x20000010), [5, 0])"
    by (simp_all add: CBS_get_any_asn1_Some_iff der_element_def der_header_def der_length_def der_tag_def)
  assume "fst (read_der n [0x30, 8, 0x30, 4, 0x30, 0x80, 0, 0, 5, 0]) \<noteq> None"
  then obtain d t where "read_der n [0x30, 8, 0x30, 4, 0x30, 0x80, 0, 0, 5, 0] = (Some d, t)"
    by (cases "read_der n [0x30, 8, 0x30, 4, 0x30, 0x80, 0, 0, 5, 0]") auto
  from read_der_inner [OF this outer sequence] obtain m x u where
    "read_der m [0x30, 4, 0x30, 0x80, 0, 0, 5, 0] = (Some x, u)" by auto
  from read_der_inner [OF this middle sequence] obtain m' x' u' where
    "read_der m' [0x30, 0x80, 0, 0] = (Some x', u')" by auto
  then show False by (simp add: read_der_cases missed_ber)
qed

section \<open>Properties\<close>

text \<open>
  C29: When \<open>CBS_asn1_ber_to_der\<close> converts, the whole input is BER for some trees, and the result
  is the DER encodings of these trees with the fragments of every constructed string, all of the
  string's type, joined: it parses as the converted trees, and nothing more is found to convert in it.
\<close>

theorem ber_to_der_converts:
  assumes "CBS_asn1_ber_to_der sys s = (Some (out, Some storage), t)" and "length s < size_modulus"
  shows "\<exists>ts. ber_items s ts \<and> t = [] \<and> list_all strings_ok ts \<and> storage = out \<and>
    out = concat (map (der_bytes \<circ> to_der) ts) \<and> read_all (length out) (read_der kMaxDepth) out = Some (map to_der ts) \<and>
    cbs_find_ber out 0 = Some False"
proof -
  from CBS_asn1_ber_to_der_sound [OF assms] obtain ts where ts: "ber_items s ts" "t = []"
    "list_all (\<lambda>x. strings_ok x \<and> der_ok (to_der x) \<and> der_depth (to_der x) \<le> kMaxDepth) ts"
    and out: "out = concat (map (der_bytes \<circ> to_der) ts)" "storage = out"
    by blast
  let ?ds = "map to_der ts"
  have bytes: "out = concat (map der_bytes ?ds)" using out(1) by (simp add: o_def)
  have valid: "list_all (\<lambda>d. der_ok d \<and> der_depth d \<le> kMaxDepth) ?ds"
    using ts(3) by (simp add: list_all_iff)
  have "list_all (\<lambda>x. der_ok x \<and> plain x \<and> 0 + der_depth x \<le> kMaxDepth) ?ds"
    using ts(3) plain_to_der by (simp add: list_all_iff)
  from find_ber_der [OF this] have find: "cbs_find_ber out 0 = Some False"
    by (simp add: cbs_find_ber_def bytes)
  note codec = cbs_canonical_codec.axioms(1) [OF read_der_codec [of kMaxDepth]]
  have "read_all (length ?ds + length out) (read_der kMaxDepth) out = Some ?ds"
    unfolding bytes by (rule cbs_codec.read_all_enc [OF codec valid]) simp
  then have "read_all (length out) (read_der kMaxDepth) out = Some ?ds"
    using cbs_item_reader.read_all_fuel [OF cbs_codec.axioms(1) [OF codec], of out "length ?ds + length out"] by simp
  with ts out find show ?thesis by (auto simp: list_all_iff)
qed

theorem ber_to_der_converts_witness:
  "\<exists>ts. ber_items [0x30, 0x80, 4, 1, 0xaa, 0, 0] ts \<and> [0x30, 3, 4, 1, 0xaa] = concat (map (der_bytes \<circ> to_der) ts)"
proof -
  obtain t where conv: "CBS_asn1_ber_to_der (\<lambda>_. True) [0x30, 0x80, 4, 1, 0xaa, 0, 0] =
      (Some ([0x30, 3, 4, 1, 0xaa], Some [0x30, 3, 4, 1, 0xaa]), t)"
    using converted_example by (metis prod.collapse)
  have "length [0x30, 0x80, 4, 1, 0xaa, 0, 0 :: u8] < size_modulus" by simp
  from ber_to_der_converts [OF conv this] show ?thesis by blast
qed

text \<open>
  DER input (elements that are DER, without constructed strings, nested at most 2048 deep)
  passes through \<open>CBS_asn1_ber_to_der\<close> unchanged, whatever the allocator does: the first element
  is returned as it stands and the input moves behind it.
\<close>

lemma ber_to_der_keeps_der:
  assumes "list_all (\<lambda>x. der_ok x \<and> plain x \<and> der_depth x \<le> kMaxDepth) (d # ds)"
  shows "CBS_asn1_ber_to_der sys (concat (map der_bytes (d # ds))) = (Some (der_bytes d, None), concat (map der_bytes ds))"
proof -
  have "cbs_find_ber (concat (map der_bytes (d # ds))) 0 = Some False"
    using find_ber_der [of 0 "d # ds"] assms by (simp add: cbs_find_ber_def)
  moreover obtain tag c where "der_bytes d = der_element tag c" "length c < 2 ^ 32"
    using assms by (cases d) auto
  then have "CBS_get_any_asn1_element (concat (map der_bytes (d # ds))) = (Some (der_result tag c), concat (map der_bytes ds))"
    and "el_out (der_result tag c) = der_bytes d"
    by (simp_all add: CBS_get_any_asn1_element_complete) (simp add: der_result_def)
  ultimately show ?thesis by (simp add: CBS_asn1_ber_to_der_def)
qed

lemma ber_to_der_keeps_der_witness:
  "CBS_asn1_ber_to_der (\<lambda>_. False) [0x30, 3, 1, 1, 0xff, 5, 0] = (Some ([0x30, 3, 1, 1, 0xff], None), [5, 0])"
proof -
  let ?d = "Node 0x20000010 [Prim 1 [0xff]]" and ?e = "Prim 5 []"
  have bytes: "der_bytes ?d = [0x30, 3, 1, 1, 0xff]" "der_bytes ?e = [5, 0]"
    by (simp_all add: der_element_def der_header_def der_length_def der_tag_def CBS_ASN1_TAG_SHIFT_def CBS_ASN1_TAG_NUMBER_MASK_def)
  have "list_all (\<lambda>x. der_ok x \<and> plain x \<and> der_depth x \<le> kMaxDepth) [?d, ?e]"
    using bytes by (simp add: CBS_ASN1_CONSTRUCTED_def CBS_ASN1_TAG_SHIFT_def is_string_type_def string_tags_def kMaxDepth_def
        der_element_def der_header_def der_length_def der_tag_def)
  from ber_to_der_keeps_der [OF this, of "\<lambda>_. False"] show ?thesis using bytes by simp
qed

text \<open>
  C30: A BER element that \<open>CBS_asn1_ber_to_der\<close> does not convert: \<open>cbs_find_ber\<close> does not look at
  what its recursive call has found, and reading the next element resets the flag. Here an
  indefinite length is nested two levels deep and followed by a NULL; the data is returned as
  it stands, although it is not DER.
\<close>

theorem ber_to_der_misses_ber:
  "(\<exists>ts. ber_items [0x30, 8, 0x30, 4, 0x30, 0x80, 0, 0, 5, 0] ts) \<and>
    CBS_asn1_ber_to_der sys [0x30, 8, 0x30, 4, 0x30, 0x80, 0, 0, 5, 0] =
      (Some ([0x30, 8, 0x30, 4, 0x30, 0x80, 0, 0, 5, 0], None), []) \<and>
    fst (read_der n [0x30, 8, 0x30, 4, 0x30, 0x80, 0, 0, 5, 0]) = None"
proof (intro conjI)
  show "\<exists>ts. ber_items [0x30, 8, 0x30, 4, 0x30, 0x80, 0, 0, 5, 0] ts"
    using missed_items by blast
  show "CBS_asn1_ber_to_der sys [0x30, 8, 0x30, 4, 0x30, 0x80, 0, 0, 5, 0] =
      (Some ([0x30, 8, 0x30, 4, 0x30, 0x80, 0, 0, 5, 0], None), [])"
    using missed_find by (simp add: CBS_asn1_ber_to_der_def missed_elements CBS_get_any_asn1_element_def)
  show "fst (read_der n [0x30, 8, 0x30, 4, 0x30, 0x80, 0, 0, 5, 0]) = None"
    by (rule missed_read)
qed

text \<open>
  \<open>CBS_get_asn1_implicit_string\<close> returns the contents of a primitive string, or the joined
  contents of the fragments of a constructed one, each of the inner type, and moves behind it.
\<close>

lemma implicit_string_correct:
  assumes "CBS_get_asn1_implicit_string sys outer_tag inner_tag s = (Some (out, storage), t)" and "length s < size_modulus"
  shows "(storage = None \<and> s = der_element outer_tag out @ t) \<or>
    (\<exists>cs. storage = Some out \<and> out = concat cs \<and>
      s = der_element (outer_tag OR CBS_ASN1_CONSTRUCTED) (concat (map (der_element inner_tag) cs)) @ t)"
proof (cases "CBS_peek_asn1_tag s outer_tag")
  case True
  with assms(1) show ?thesis by (auto simp: CBS_get_asn1_implicit_string_def CBS_get_asn1_Some_iff)
next
  case False
  note read = assms(1) [unfolded CBS_get_asn1_implicit_string_def, simplified False if_False]
  obtain st where init: "CBB_init sys (CBS_len s) = Some st"
    using read by (cases "CBB_init sys (CBS_len s)") simp_all
  obtain r t1 where get: "CBS_get_asn1 (outer_tag OR CBS_ASN1_CONSTRUCTED) s = (r, t1)"
    by (cases "CBS_get_asn1 (outer_tag OR CBS_ASN1_CONSTRUCTED) s")
  note read2 = read [unfolded init option.case get prod.case]
  obtain child where child: "r = Some child" using read2 by (cases r) simp_all
  obtain r2 st2 where built: "pbind (implicit_string_loop sys inner_tag child) (\<lambda>_. CBB_finish sys True True 0) st = (r2, st2)"
    by (cases "pbind (implicit_string_loop sys inner_tag child) (\<lambda>_. CBB_finish sys True True 0) st")
  note read3 = read2 [unfolded child option.case built prod.case]
  then have r2: "r2 = Some out" "t1 = t" "storage = Some out"
    by (cases r2; auto simp: CBS_init_def)+
  from built [unfolded r2(1)] obtain u st1 where run: "implicit_string_loop sys inner_tag child st = (Some u, st1)"
    and finish: "CBB_finish sys True True 0 st1 = (Some out, st2)"
    by (rule pbind_SomeE)
  from implicit_string_loop_sound [OF run] obtain cs where
    cs: "child = concat (map (der_element inner_tag) cs)" "list_all (\<lambda>c. length c < 2 ^ 32) cs" by blast
  have cap: "CBS_len s < size_modulus" using assms(2) by (simp add: CBS_len_def)
  have "out = concat cs"
    by (rule built_bytes [OF implicit_string_loop_implements [OF cs(2), of inner_tag] cap disjI1 [OF init] run [unfolded cs(1)] finish])
  moreover have "s = der_element (outer_tag OR CBS_ASN1_CONSTRUCTED) child @ t"
    using get child r2(2) by (simp add: CBS_get_asn1_Some_iff)
  ultimately show ?thesis using cs(1) r2(3) by blast
qed


lemma implicit_string_correct_witness:
  "\<exists>cs. [7, 8] = concat cs \<and>
    [0xa0, 6, 4, 1, 7, 4, 1, 8] = der_element (0x80000000 OR CBS_ASN1_CONSTRUCTED) (concat (map (der_element 4) cs)) @ []"
proof -
  let ?s = "[0xa0, 6, 4, 1, 7, 4, 1, 8] :: u8 list" and ?sys = "\<lambda>_ :: nat. True"
  have parts: "der_element (4 :: u32) [7] = [4, 1, 7]" "der_element (4 :: u32) [8] = [4, 1, 8]"
    by (simp_all add: der_element_def der_header_def der_length_def der_tag_def)
  have tag: "(0x80000000 :: u32) OR CBS_ASN1_CONSTRUCTED = 0xa0000000"
    by (simp add: CBS_ASN1_CONSTRUCTED_def CBS_ASN1_TAG_SHIFT_def)
  have outer: "CBS_get_asn1 (0x80000000 OR CBS_ASN1_CONSTRUCTED) ?s = (Some [4, 1, 7, 4, 1, 8], [])"
    unfolding tag by (simp add: CBS_get_asn1_Some_iff der_element_def der_header_def der_length_def der_tag_def)
  have short: "length (concat [[7], [8 :: u8]]) < 2 ^ 62" and cap: "length ?s < 2 ^ 62" and size: "length ?s < size_modulus" by simp_all
  have "list_all (\<lambda>c. length c < 2 ^ 32) [[7], [8 :: u8]]" by simp
  from built_bytes_complete [OF implicit_string_loop_implements [OF this, of 4] cap short] obtain st st1 st2 where
    run: "CBB_init ?sys (length ?s) = Some st" "implicit_string_loop ?sys 4 (concat (map (der_element 4) [[7], [8]])) st = (Some (), st1)"
      "CBB_finish ?sys True True 0 st1 = (Some (concat [[7], [8]]), st2)"
    by blast
  have loop: "implicit_string_loop ?sys 4 [4, 1, 7, 4, 1, 8] st = (Some (), st1)" using run(2) by (simp add: parts)
  have "\<not> CBS_peek_asn1_tag ?s 0x80000000" by (simp add: CBS_peek_asn1_tag_def ber_eval)
  then have "CBS_get_asn1_implicit_string ?sys 0x80000000 4 ?s = (Some ([7, 8], Some [7, 8]), [])"
    unfolding CBS_get_asn1_implicit_string_def outer CBS_len_def run(1) option.case prod.case
    using loop run(3) by (simp add: CBS_init_def)
  from implicit_string_correct [OF this size] show ?thesis by simp
qed

end
