(* ===== verification/Stream_Cipher.thy ===== *)
theory Stream_Cipher
  imports Mem
begin

text \<open>
  What the stream ciphers of the library have in common. \<open>run\<close> is the reference: one state
  transition per byte. The locale \<open>invertible\<close> is the contract of an encrypting and a
  decrypting transition, \<open>stream_code\<close> the contract of an implementation that processes a
  buffer of any length as the reference would, and \<open>block_loops\<close> the shape of the
  implementations over a 16-byte block: a loop that uses up the current block, a loop over
  whole blocks, and a loop that starts one more block.
\<close>

section \<open>One byte at a time\<close>

fun run :: "('s \<Rightarrow> u8 \<Rightarrow> u8 \<times> 's) \<Rightarrow> 's \<Rightarrow> u8 list \<Rightarrow> u8 list \<times> 's" where
  "run f s [] = ([], s)"
| "run f s (x # xs) = (case f s x of (y, s1) \<Rightarrow> case run f s1 xs of (ys, s2) \<Rightarrow> (y # ys, s2))"

text \<open>Several buffers one after the other, and any processing function for one buffer.\<close>

fun run_chunks :: "('s \<Rightarrow> u8 list \<Rightarrow> u8 list \<times> 's) \<Rightarrow> 's \<Rightarrow> u8 list list \<Rightarrow> u8 list \<times> 's" where
  "run_chunks code s [] = ([], s)"
| "run_chunks code s (c # cs) =
    (case code s c of (ys, s1) \<Rightarrow> case run_chunks code s1 cs of (zs, s2) \<Rightarrow> (ys @ zs, s2))"

lemma run_append:
  "run f s (xs @ ys) = (case run f s xs of (os, s1) \<Rightarrow> case run f s1 ys of (os', s2) \<Rightarrow> (os @ os', s2))"
  by (induction xs arbitrary: s) (auto split: prod.splits)

lemma length_run_eq: "run f s xs = (ys, s') \<Longrightarrow> length ys = length xs"
  by (induction xs arbitrary: s ys) (auto split: prod.splits)

lemma length_run [simp]: "length (fst (run f s xs)) = length xs"
  by (cases "run f s xs") (simp add: length_run_eq)

lemma run_keeps:
  assumes "\<And>s x. P s \<Longrightarrow> P (snd (f s x))" and "P s"
  shows "P (snd (run f s xs))"
  using assms(2)
proof (induction xs arbitrary: s)
  case (Cons x xs)
  obtain y s1 where f: "f s x = (y, s1)" by fastforce
  with assms(1) [OF Cons.prems, of x] Cons.IH [of s1] show ?case
    by (auto split: prod.splits)
qed simp

section \<open>Decryption inverts encryption\<close>

locale invertible =
  fixes enc dec :: "'s \<Rightarrow> u8 \<Rightarrow> u8 \<times> 's" and ok :: "'s \<Rightarrow> bool"
  assumes undo: "ok s \<Longrightarrow> dec s (fst (enc s x)) = (x, snd (enc s x))"
    and stays_ok: "ok s \<Longrightarrow> ok (snd (enc s x))"
begin

lemma run_undo: "ok s \<Longrightarrow> run enc s xs = (ys, s') \<Longrightarrow> run dec s ys = (xs, s')"
proof (induction xs arbitrary: s ys)
  case (Cons x xs)
  obtain y s1 where e: "enc s x = (y, s1)" by fastforce
  obtain zs where z: "run enc s1 xs = (zs, s')" "ys = y # zs"
    using Cons.prems(2) by (auto simp: e split: prod.splits)
  have "ok s1" and "dec s y = (x, s1)"
    using undo [OF Cons.prems(1), of x] stays_ok [OF Cons.prems(1), of x] by (simp_all add: e)
  with Cons.IH [of s1 zs] z show ?case by simp
qed simp

end

section \<open>Buffers of any length\<close>

locale stream_code =
  fixes code :: "'s \<Rightarrow> u8 list \<Rightarrow> u8 list \<times> 's" and transition :: "'s \<Rightarrow> u8 \<Rightarrow> u8 \<times> 's" and good :: "'s \<Rightarrow> bool"
  assumes code_run: "good s \<Longrightarrow> code s xs = run transition s xs"
    and good_step: "good s \<Longrightarrow> good (snd (transition s x))"
begin

lemma code_good: "good s \<Longrightarrow> good (snd (code s xs))"
  using run_keeps [of good transition s xs, OF good_step] by (simp add: code_run)

lemma code_length: "good s \<Longrightarrow> length (fst (code s xs)) = length xs"
  by (simp add: code_run)

text \<open>How the input is cut into buffers makes no difference.\<close>

lemma code_chunks: "good s \<Longrightarrow> run_chunks code s cs = code s (concat cs)"
proof (induction cs arbitrary: s)
  case Nil
  then show ?case by (simp add: code_run)
next
  case (Cons c cs)
  obtain ys s1 where c: "code s c = (ys, s1)" by fastforce
  with code_good [OF Cons.prems, of c] have "good s1" by simp
  with Cons.IH [of s1] Cons.prems c show ?case
    by (simp add: code_run run_append)
qed

end

section \<open>The three loops over a block\<close>

text \<open>
  The state is a register \<open>r\<close> (the chaining block, or the counter and the key stream) and
  the number \<open>n\<close> of bytes of the block that are used. \<open>refresh\<close> starts a block, \<open>byte\<close>
  processes the byte at place \<open>n\<close>.
\<close>

definition block_step :: "('r \<Rightarrow> 'r) \<Rightarrow> ('r \<Rightarrow> nat \<Rightarrow> u8 \<Rightarrow> u8 \<times> 'r) \<Rightarrow> 'r \<times> nat \<Rightarrow> u8 \<Rightarrow> u8 \<times> 'r \<times> nat" where
  "block_step refresh byte = (\<lambda>(r, n) x.
     case byte (if n = 0 then refresh r else r) n x of (y, r') \<Rightarrow> (y, r', (n + 1) mod 16))"

text \<open>The bytes from place \<open>n\<close> on, without going round.\<close>

fun run_block :: "('r \<Rightarrow> nat \<Rightarrow> u8 \<Rightarrow> u8 \<times> 'r) \<Rightarrow> 'r \<Rightarrow> nat \<Rightarrow> u8 list \<Rightarrow> u8 list \<times> 'r" where
  "run_block byte r n [] = ([], r)"
| "run_block byte r n (x # xs) =
    (case byte r n x of (y, r1) \<Rightarrow> case run_block byte r1 (n + 1) xs of (ys, r2) \<Rightarrow> (y # ys, r2))"

lemma length_run_block: "run_block byte r n xs = (ys, r') \<Longrightarrow> length ys = length xs"
  by (induction xs arbitrary: r n ys) (auto split: prod.splits)

text \<open>Past the start of a block the reference does what the bytes do.\<close>

lemma run_within_block:
  assumes "0 < n" and "n < 16" and "n + length xs \<le> 16"
  shows "run (block_step refresh byte) (r, n) xs =
    (case run_block byte r n xs of (ys, r') \<Rightarrow> (ys, r', (n + length xs) mod 16))"
  using assms
proof (induction xs arbitrary: r n)
  case Nil
  then show ?case
    by simp
next
  case (Cons x xs)
  obtain y r1 where b: "byte r n x = (y, r1)" by fastforce
  show ?case
  proof (cases "n = 15")
    case True
    with Cons.prems b show ?thesis by (simp add: block_step_def)
  next
    case False
    with Cons.prems have "(n + 1) mod 16 = n + 1" "n + 1 < 16" "n + 1 + length xs \<le> 16" by auto
    with Cons.IH [of "n + 1" r1] Cons.prems b show ?thesis
      by (simp add: block_step_def split: prod.splits)
  qed
qed

lemma run_from_block:
  assumes "xs \<noteq> []" and "length xs \<le> 16"
  shows "run (block_step refresh byte) (r, 0) xs =
    (case run_block byte (refresh r) 0 xs of (ys, r') \<Rightarrow> (ys, r', length xs mod 16))"
proof -
  obtain x xs' where xs: "xs = x # xs'" using assms by (cases xs) auto
  obtain y r1 where b: "byte (refresh r) 0 x = (y, r1)" by fastforce
  have "run (block_step refresh byte) (r1, 1) xs' =
    (case run_block byte r1 1 xs' of (ys, r') \<Rightarrow> (ys, r', (1 + length xs') mod 16))"
    using assms xs by (intro run_within_block) auto
  with b show ?thesis by (simp add: xs block_step_def split: prod.splits)
qed

definition block_state :: "('r \<Rightarrow> bool) \<Rightarrow> 'r \<times> nat \<Rightarrow> bool" where
  "block_state good s \<longleftrightarrow> good (fst s) \<and> snd s < 16"

text \<open>A byte operation that can be undone gives a transition that can be undone.\<close>

lemma block_step_undo:
  assumes "\<And>r x. good r \<Longrightarrow> good (refresh r)"
    and "\<And>r n x. good r \<Longrightarrow> n < 16 \<Longrightarrow> dec r n (fst (enc r n x)) = (x, snd (enc r n x))"
    and "block_state good s"
  shows "block_step refresh dec s (fst (block_step refresh enc s x)) = (x, snd (block_step refresh enc s x))"
proof -
  obtain r n where s: "s = (r, n)" by (cases s)
  let ?r = "if n = 0 then refresh r else r"
  obtain y r' where y: "enc ?r n x = (y, r')" by fastforce
  have "good ?r" "n < 16" using assms by (auto simp: s block_state_def)
  from assms(2) [OF this, of x] y have "dec ?r n y = (x, r')" by simp
  with y show ?thesis by (simp add: s block_step_def)
qed

locale block_loops =
  fixes refresh :: "'r \<Rightarrow> 'r" and byte :: "'r \<Rightarrow> nat \<Rightarrow> u8 \<Rightarrow> u8 \<times> 'r"
    and head :: "'r \<Rightarrow> nat \<Rightarrow> u8 list \<Rightarrow> u8 list \<times> 'r \<times> nat \<times> u8 list"
    and blocks :: "'r \<Rightarrow> u8 list \<Rightarrow> u8 list \<times> 'r \<times> u8 list"
    and tail_bytes :: "'r \<Rightarrow> nat \<Rightarrow> u8 list \<Rightarrow> u8 list \<times> 'r \<times> nat"
    and good :: "'r \<Rightarrow> bool"
  assumes head_stop: "n = 0 \<or> xs = [] \<Longrightarrow> head r n xs = ([], r, n, xs)"
    and head_step: "good r \<Longrightarrow> n \<noteq> 0 \<Longrightarrow> n < 16 \<Longrightarrow> head r n (x # xs) =
      (case byte r n x of (y, r1) \<Rightarrow> case head r1 ((n + 1) mod 16) xs of (ys, rest) \<Rightarrow> (y # ys, rest))"
    and blocks_stop: "length xs < 16 \<Longrightarrow> blocks r xs = ([], r, xs)"
    and blocks_step: "good r \<Longrightarrow> 16 \<le> length xs \<Longrightarrow> blocks r xs =
      (case run_block byte (refresh r) 0 (take 16 xs) of (ys, r1) \<Rightarrow>
       case blocks r1 (drop 16 xs) of (zs, rest) \<Rightarrow> (ys @ zs, rest))"
    and tail_block: "good r \<Longrightarrow> n + length xs \<le> 16 \<Longrightarrow> tail_bytes r n xs =
      (case run_block byte r n xs of (ys, r') \<Rightarrow> (ys, r', n + length xs))"
    and good_refresh: "good r \<Longrightarrow> good (refresh r)"
    and good_byte: "good r \<Longrightarrow> n < 16 \<Longrightarrow> good (snd (byte r n x))"
begin

abbreviation step_byte where
  "step_byte \<equiv> block_step refresh byte"

abbreviation good_state where
  "good_state \<equiv> block_state good"

lemma good_step_byte: "good_state s \<Longrightarrow> good_state (snd (step_byte s x))"
proof -
  assume good: "good_state s"
  obtain r n where s: "s = (r, n)" by (cases s)
  with good have "good (if n = 0 then refresh r else r)" "n < 16"
    by (auto simp: block_state_def good_refresh)
  obtain y r' where y: "byte (if n = 0 then refresh r else r) n x = (y, r')" by fastforce
  with good_byte [OF \<open>good (if n = 0 then refresh r else r)\<close> \<open>n < 16\<close>, of x] have "good r'" by simp
  with y show ?thesis by (simp add: s block_state_def block_step_def)
qed

lemma head_run:
  assumes "good_state (r, n)" and "head r n xs = (ys, r', n', rest)"
  shows "\<exists>pre. xs = pre @ rest \<and> run step_byte (r, n) pre = (ys, r', n') \<and> (n' = 0 \<or> rest = [])"
  using assms
proof (induction xs arbitrary: r n ys)
  case Nil
  then show ?case by (simp add: head_stop)
next
  case (Cons x xs)
  show ?case
  proof (cases "n = 0")
    case True
    with Cons.prems show ?thesis by (simp add: head_stop)
  next
    case False
    obtain y r1 where b: "byte r n x = (y, r1)" by fastforce
    obtain zs where zs: "head r1 ((n + 1) mod 16) xs = (zs, r', n', rest)" "ys = y # zs"
      using Cons.prems False by (auto simp: head_step block_state_def b split: prod.splits)
    have s: "step_byte (r, n) x = (y, r1, (n + 1) mod 16)"
      using False b by (simp add: block_step_def)
    with good_step_byte [OF Cons.prems(1), of x] have "good_state (r1, (n + 1) mod 16)" by simp
    from Cons.IH [OF this zs(1)] obtain pre where
      "xs = pre @ rest" "run step_byte (r1, (n + 1) mod 16) pre = (zs, r', n')" "n' = 0 \<or> rest = []"
      by blast
    with s zs show ?thesis by (intro exI [of _ "x # pre"]) simp
  qed
qed

lemma blocks_run:
  assumes "good r" and "blocks r xs = (ys, r', rest)"
  shows "\<exists>pre. xs = pre @ rest \<and> run step_byte (r, 0) pre = (ys, r', 0) \<and> length rest < 16"
  using assms
proof (induction xs arbitrary: r ys rule: length_induct)
  case (1 xs)
  show ?case
  proof (cases "length xs < 16")
    case True
    with 1 show ?thesis by (simp add: blocks_stop)
  next
    case False
    let ?pre = "take 16 xs"
    have pre: "?pre \<noteq> []" "length ?pre = 16" using False by auto
    obtain os r1 where os: "run_block byte (refresh r) 0 ?pre = (os, r1)" by fastforce
    obtain zs where zs: "blocks r1 (drop 16 xs) = (zs, r', rest)" "ys = os @ zs"
      using "1.prems"(2) False by (auto simp: blocks_step [OF "1.prems"(1)] os split: prod.splits)
    have first: "run step_byte (r, 0) ?pre = (os, r1, 0)"
      using run_from_block [OF pre(1), where refresh = refresh and byte = byte and r = r] pre(2) os by simp
    have "good_state (r, 0)" using "1.prems" by (simp add: block_state_def)
    from run_keeps [where P = good_state and f = step_byte and xs = ?pre, OF good_step_byte this] first
    have "good r1" by (simp add: block_state_def)
    moreover have "length (drop 16 xs) < length xs" using False by simp
    ultimately obtain mid where mid: "drop 16 xs = mid @ rest" "run step_byte (r1, 0) mid = (zs, r', 0)" "length rest < 16"
      using "1.IH" zs(1) by blast
    have "xs = (?pre @ mid) @ rest"
      using mid(1) append_take_drop_id [of 16 xs] by simp
    moreover have "run step_byte (r, 0) (?pre @ mid) = (ys, r', 0)"
      using first zs(2) mid(2) by (simp only: run_append) simp
    ultimately show ?thesis using mid(3) by blast
  qed
qed

text \<open>The three loops in a row are the reference.\<close>

lemma three_loops:
  assumes "good r" and "n < 16"
    and "head r n xs = (o1, r1, n1, xs1)" and "blocks r1 xs1 = (o2, r2, xs2)"
    and "(if xs2 = [] then ([], r2, n1) else tail_bytes (refresh r2) n1 xs2) = (o3, r3, n3)"
  shows "run step_byte (r, n) xs = (o1 @ o2 @ o3, r3, n3)"
proof -
  have good: "good_state (r, n)" using assms by (simp add: block_state_def)
  from head_run [OF this assms(3)] obtain p1 where
    p1: "xs = p1 @ xs1" "run step_byte (r, n) p1 = (o1, r1, n1)" "n1 = 0 \<or> xs1 = []" by blast
  have r1: "good r1"
    using run_keeps [where P = good_state and f = step_byte and xs = p1, OF good_step_byte good] p1(2)
    by (simp add: block_state_def)
  from blocks_run [OF r1 assms(4)] obtain p2 where
    p2: "xs1 = p2 @ xs2" "run step_byte (r1, 0) p2 = (o2, r2, 0)" "length xs2 < 16" by blast
  have mid: "run step_byte (r1, n1) p2 = (o2, r2, n1)"
    using p1(3) p2 by (cases "n1 = 0") auto
  have "run step_byte (r2, n1) xs2 = (o3, r3, n3)"
  proof (cases "xs2 = []")
    case True
    with assms(5) show ?thesis by simp
  next
    case False
    with p1(3) p2 have "n1 = 0" by auto
    moreover have "good (refresh r2)"
      using run_keeps [where P = good_state and f = step_byte and xs = p2 and s = "(r1, 0)", OF good_step_byte] r1 p2(2)
      by (simp add: block_state_def good_refresh)
    ultimately show ?thesis using False assms(5) p2(3)
      by (auto simp: run_from_block tail_block split: prod.splits)
  qed
  with p1 p2 mid show ?thesis by (simp add: run_append)
qed

lemma loops_eq_run:
  assumes "good r" and "n < 16"
  shows "run step_byte (r, n) xs =
    (case head r n xs of (o1, r1, n1, xs1) \<Rightarrow> case blocks r1 xs1 of (o2, r2, xs2) \<Rightarrow>
     case if xs2 = [] then ([], r2, n1) else tail_bytes (refresh r2) n1 xs2 of (o3, r3, n3) \<Rightarrow>
       (o1 @ o2 @ o3, r3, n3))"
  using three_loops [OF assms] by (simp split: prod.splits)

end

end
