(* ===== verification/Modes.thy ===== *)
theory Modes
  imports Stream_Cipher
begin

text \<open>
  The stream modes of \<open>crypto/fipsmodule/modes\<close>: output feedback (\<open>ofb.c\<close>), counter mode
  (\<open>ctr.c\<close>) and cipher feedback (\<open>cfb.c\<close>). The block cipher under its key, \<open>block128_f\<close>
  and \<open>AES_KEY\<close>, is the parameter \<open>block\<close>, a function on blocks of 16 bytes; nothing else is
  asked of it but that it returns 16 bytes. A function that updates \<open>ivec\<close>, \<open>ecount_buf\<close>
  and \<open>*num\<close> in place returns them after the output. Input and output are the same buffer or
  disjoint ones, so a loop reads a byte before anything overwrites it.
\<close>

section \<open>Operations\<close>

text \<open>The loop over the words of a block that stores the exclusive or of two blocks.\<close>

definition xor_words :: "u8 list \<Rightarrow> u8 list \<Rightarrow> u8 list" where
  "xor_words a b = concat (map (\<lambda>n. CRYPTO_store_word_le
     (CRYPTO_load_word_le (drop n a) XOR CRYPTO_load_word_le (drop n b))) [0, 8])"

subsection \<open>Output feedback\<close>

fun ofb_head :: "u8 list \<Rightarrow> nat \<Rightarrow> u8 list \<Rightarrow> u8 list \<times> nat \<times> u8 list" where
  "ofb_head ivec n [] = ([], n, [])"
| "ofb_head ivec n (x # inp) =
    (if n = 0 then ([], n, x # inp)
     else case ofb_head ivec ((n + 1) mod 16) inp of (out, rest) \<Rightarrow> ((x XOR ivec ! n) # out, rest))"

function ofb_blocks :: "(u8 list \<Rightarrow> u8 list) \<Rightarrow> u8 list \<Rightarrow> u8 list \<Rightarrow> u8 list \<times> u8 list \<times> u8 list" where
  "ofb_blocks block ivec inp =
    (if length inp < 16 then ([], ivec, inp)
     else let ivec = block ivec
          in case ofb_blocks block ivec (drop 16 inp) of (out, rest) \<Rightarrow> (xor_words inp ivec @ out, rest))"
  by pat_completeness auto
termination by (relation "measure (\<lambda>(block, ivec, inp). length inp)") auto

declare ofb_blocks.simps [simp del]

fun ofb_tail :: "u8 list \<Rightarrow> nat \<Rightarrow> u8 list \<Rightarrow> u8 list \<times> nat" where
  "ofb_tail ivec n [] = ([], n)"
| "ofb_tail ivec n (x # inp) = (case ofb_tail ivec (n + 1) inp of (out, n') \<Rightarrow> ((x XOR ivec ! n) # out, n'))"

definition CRYPTO_ofb128_encrypt ::
    "(u8 list \<Rightarrow> u8 list) \<Rightarrow> u8 list \<times> nat \<Rightarrow> u8 list \<Rightarrow> u8 list \<times> u8 list \<times> nat" where
  "CRYPTO_ofb128_encrypt block = (\<lambda>(ivec, n) inp.
     case ofb_head ivec n inp of (out1, n, inp) \<Rightarrow>
     case ofb_blocks block ivec inp of (out2, ivec, inp) \<Rightarrow>
     if inp = [] then (out1 @ out2, ivec, n)
     else let ivec = block ivec
          in case ofb_tail ivec n inp of (out3, n) \<Rightarrow> (out1 @ out2 @ out3, ivec, n))"

subsection \<open>Counter mode\<close>

text \<open>
  The carry loop of the counter: \<open>n\<close> counts down, \<open>c\<close> is the 32-bit carry. The two
  counters differ in where they start.
\<close>

fun ctr_inc_loop :: "u8 list \<Rightarrow> nat \<Rightarrow> u32 \<Rightarrow> u8 list" where
  "ctr_inc_loop counter 0 c = counter"
| "ctr_inc_loop counter (Suc n) c =
    (let c = c + ucast (counter ! n)
     in ctr_inc_loop (counter[n := ucast c]) n (drop_bit 8 c))"

definition ctr128_inc :: "u8 list \<Rightarrow> u8 list" where
  "ctr128_inc counter = ctr_inc_loop counter 16 1"

definition ctr96_inc :: "u8 list \<Rightarrow> u8 list" where
  "ctr96_inc counter = ctr_inc_loop counter 12 1"

fun ctr_head :: "u8 list \<Rightarrow> nat \<Rightarrow> u8 list \<Rightarrow> u8 list \<times> nat \<times> u8 list" where
  "ctr_head ecount n [] = ([], n, [])"
| "ctr_head ecount n (x # inp) =
    (if n = 0 then ([], n, x # inp)
     else case ctr_head ecount ((n + 1) mod 16) inp of (out, rest) \<Rightarrow> ((x XOR ecount ! n) # out, rest))"

function ctr_blocks :: "(u8 list \<Rightarrow> u8 list) \<Rightarrow> u8 list \<times> u8 list \<Rightarrow> u8 list \<Rightarrow> u8 list \<times> (u8 list \<times> u8 list) \<times> u8 list" where
  "ctr_blocks block (ivec, ecount) inp =
    (if length inp < 16 then ([], (ivec, ecount), inp)
     else let ecount = block ivec; ivec = ctr128_inc ivec
          in case ctr_blocks block (ivec, ecount) (drop 16 inp) of (out, rest) \<Rightarrow> (xor_words inp ecount @ out, rest))"
  by pat_completeness auto
termination by (relation "measure (\<lambda>(block, reg, inp). length inp)") auto

declare ctr_blocks.simps [simp del]

fun ctr_tail :: "u8 list \<Rightarrow> nat \<Rightarrow> u8 list \<Rightarrow> u8 list \<times> nat" where
  "ctr_tail ecount n [] = ([], n)"
| "ctr_tail ecount n (x # inp) = (case ctr_tail ecount (n + 1) inp of (out, n') \<Rightarrow> ((x XOR ecount ! n) # out, n'))"

definition CRYPTO_ctr128_encrypt :: "(u8 list \<Rightarrow> u8 list) \<Rightarrow> (u8 list \<times> u8 list) \<times> nat \<Rightarrow> u8 list \<Rightarrow>
    u8 list \<times> (u8 list \<times> u8 list) \<times> nat" where
  "CRYPTO_ctr128_encrypt block = (\<lambda>((ivec, ecount), n) inp.
     case ctr_head ecount n inp of (out1, n, inp) \<Rightarrow>
     case ctr_blocks block (ivec, ecount) inp of (out2, (ivec, ecount), inp) \<Rightarrow>
     if inp = [] then (out1 @ out2, (ivec, ecount), n)
     else let ecount = block ivec; ivec = ctr128_inc ivec
          in case ctr_tail ecount n inp of (out3, n) \<Rightarrow> (out1 @ out2 @ out3, (ivec, ecount), n))"

text \<open>
  The variant over a function \<open>func\<close> that processes a number of whole blocks itself and
  counts in the last 32 bits only; the caller looks after the carry. \<open>blocks\<close> is a
  \<open>size_t\<close>, \<open>ctr32\<close> a 32-bit word.
\<close>

definition ctr32_blocks_now :: "nat \<Rightarrow> u32 \<Rightarrow> nat \<times> u32" where
  "ctr32_blocks_now len ctr32 =
    (let blocks = len div 16;
         blocks = if blocks > 2 ^ 28 then 2 ^ 28 else blocks;
         ctr32 = ctr32 + word_of_nat blocks
     in if unat ctr32 < blocks then (blocks - unat ctr32, 0) else (blocks, ctr32))"

definition ctr32_advance :: "u8 list \<Rightarrow> u32 \<Rightarrow> u8 list" where
  "ctr32_advance ivec ctr32 =
    (let ivec = take 12 ivec @ CRYPTO_store_u32_be ctr32 @ drop 16 ivec
     in if ctr32 = 0 then ctr96_inc ivec else ivec)"

lemma ctr32_blocks_now_pos: "16 \<le> len \<Longrightarrow> 0 < fst (ctr32_blocks_now len c)"
  by (auto simp: ctr32_blocks_now_def Let_def not_less)

function ctr32_blocks :: "(u8 list \<Rightarrow> nat \<Rightarrow> u8 list \<Rightarrow> u8 list) \<Rightarrow> u8 list \<Rightarrow> u32 \<Rightarrow> u8 list \<Rightarrow>
    u8 list \<times> u8 list \<times> u32 \<times> u8 list" where
  "ctr32_blocks func ivec ctr32 inp =
    (if length inp < 16 then ([], ivec, ctr32, inp)
     else case ctr32_blocks_now (length inp) ctr32 of (blocks, ctr32) \<Rightarrow>
       let out = func inp blocks ivec;
           ivec = ctr32_advance ivec ctr32
       in case ctr32_blocks func ivec ctr32 (drop (blocks * 16) inp) of (out', rest) \<Rightarrow> (out @ out', rest))"
  by pat_completeness auto
termination
proof (relation "measure (\<lambda>(func, ivec, ctr32, inp). length inp)")
  show "((func, ivec', c, drop (blocks * 16) inp), func, ivec, ctr32, inp) \<in> measure (\<lambda>(func, ivec, ctr32, inp). length inp)"
    if "\<not> length inp < 16" and "(blocks, c) = ctr32_blocks_now (length inp) ctr32"
    for func :: "u8 list \<Rightarrow> nat \<Rightarrow> u8 list \<Rightarrow> u8 list" and inp ivec ivec' :: "u8 list" and blocks c ctr32
  proof -
    have "0 < blocks" using that ctr32_blocks_now_pos [of "length inp" ctr32] by (metis fst_conv not_less)
    with that show ?thesis by simp
  qed
qed simp

declare ctr32_blocks.simps [simp del]

definition CRYPTO_ctr128_encrypt_ctr32 :: "(u8 list \<Rightarrow> nat \<Rightarrow> u8 list \<Rightarrow> u8 list) \<Rightarrow> (u8 list \<times> u8 list) \<times> nat \<Rightarrow>
    u8 list \<Rightarrow> u8 list \<times> (u8 list \<times> u8 list) \<times> nat" where
  "CRYPTO_ctr128_encrypt_ctr32 func = (\<lambda>((ivec, ecount), n) inp.
     case ctr_head ecount n inp of (out1, n, inp) \<Rightarrow>
     let ctr32 = CRYPTO_load_u32_be (drop 12 ivec)
     in case ctr32_blocks func ivec ctr32 inp of (out2, ivec, ctr32, inp) \<Rightarrow>
     if inp = [] then (out1 @ out2, (ivec, ecount), n)
     else let ecount = func (replicate 16 0) 1 ivec;
              ctr32 = ctr32 + 1;
              ivec = ctr32_advance ivec ctr32
          in case ctr_tail ecount n inp of (out3, n) \<Rightarrow> (out1 @ out2 @ out3, (ivec, ecount), n))"

subsection \<open>Cipher feedback\<close>

fun cfb_head :: "bool \<Rightarrow> u8 list \<Rightarrow> nat \<Rightarrow> u8 list \<Rightarrow> u8 list \<times> u8 list \<times> nat \<times> u8 list" where
  "cfb_head enc ivec n [] = ([], ivec, n, [])"
| "cfb_head enc ivec n (x # inp) =
    (if n = 0 then ([], ivec, n, x # inp)
     else if enc then
       let ivec = ivec[n := ivec ! n XOR x]; y = ivec ! n
       in case cfb_head enc ivec ((n + 1) mod 16) inp of (out, rest) \<Rightarrow> (y # out, rest)
     else
       let y = ivec ! n XOR x; ivec = ivec[n := x]
       in case cfb_head enc ivec ((n + 1) mod 16) inp of (out, rest) \<Rightarrow> (y # out, rest))"

function cfb_blocks :: "bool \<Rightarrow> (u8 list \<Rightarrow> u8 list) \<Rightarrow> u8 list \<Rightarrow> u8 list \<Rightarrow> u8 list \<times> u8 list \<times> u8 list" where
  "cfb_blocks enc block ivec inp =
    (if length inp < 16 then ([], ivec, inp)
     else if enc then
       let ivec = xor_words (block ivec) inp
       in case cfb_blocks enc block ivec (drop 16 inp) of (out, rest) \<Rightarrow> (ivec @ out, rest)
     else
       let out1 = xor_words (block ivec) inp;
           ivec = concat (map (\<lambda>n. CRYPTO_store_word_le (CRYPTO_load_word_le (drop n inp))) [0, 8])
       in case cfb_blocks enc block ivec (drop 16 inp) of (out, rest) \<Rightarrow> (out1 @ out, rest))"
  by pat_completeness auto
termination by (relation "measure (\<lambda>(enc, block, ivec, inp). length inp)") auto

declare cfb_blocks.simps [simp del]

fun cfb_tail :: "bool \<Rightarrow> u8 list \<Rightarrow> nat \<Rightarrow> u8 list \<Rightarrow> u8 list \<times> u8 list \<times> nat" where
  "cfb_tail enc ivec n [] = ([], ivec, n)"
| "cfb_tail enc ivec n (x # inp) =
    (if enc then
       let ivec = ivec[n := ivec ! n XOR x]; y = ivec ! n
       in case cfb_tail enc ivec (n + 1) inp of (out, rest) \<Rightarrow> (y # out, rest)
     else
       let y = ivec ! n XOR x; ivec = ivec[n := x]
       in case cfb_tail enc ivec (n + 1) inp of (out, rest) \<Rightarrow> (y # out, rest))"

definition CRYPTO_cfb128_encrypt :: "(u8 list \<Rightarrow> u8 list) \<Rightarrow> bool \<Rightarrow> u8 list \<times> nat \<Rightarrow> u8 list \<Rightarrow>
    u8 list \<times> u8 list \<times> nat" where
  "CRYPTO_cfb128_encrypt block enc = (\<lambda>(ivec, n) inp.
     case cfb_head enc ivec n inp of (out1, ivec, n, inp) \<Rightarrow>
     case cfb_blocks enc block ivec inp of (out2, ivec, inp) \<Rightarrow>
     if inp = [] then (out1 @ out2, ivec, n)
     else let ivec = block ivec
          in case cfb_tail enc ivec n inp of (out3, ivec, n) \<Rightarrow> (out1 @ out2 @ out3, ivec, n))"

text \<open>
  Feedback of fewer bits. \<open>ovec\<close> has 33 bytes: the old vector, the bytes of cipher text, and
  bytes that are shifted in without being used. They are uninitialised, here \<open>junk\<close>.
\<close>

definition cfbr_encrypt_block :: "(u8 list \<Rightarrow> u8 list) \<Rightarrow> u8 list \<Rightarrow> bool \<Rightarrow> nat \<Rightarrow> u8 list \<Rightarrow> u8 list \<Rightarrow> u8 list \<times> u8 list" where
  "cfbr_encrypt_block block junk enc nbits ivec inp =
    (if nbits = 0 \<or> nbits > 128 then ([], ivec)
     else let ks = block ivec;
              num = (nbits + 7) div 8;
              cipher = if enc then map (\<lambda>n. inp ! n XOR ks ! n) [0..<num] else map (\<lambda>n. inp ! n) [0..<num];
              out = if enc then cipher else map (\<lambda>n. cipher ! n XOR ks ! n) [0..<num];
              ovec = take 33 (ivec @ cipher @ junk);
              rem = nbits mod 8;
              num = nbits div 8
          in (out, if rem = 0 then take 16 (drop num ovec)
                   else map (\<lambda>n. push_bit rem (ovec ! (n + num)) OR drop_bit (8 - rem) (ovec ! (n + num + 1))) [0..<16]))"

fun CRYPTO_cfb128_8_encrypt :: "(u8 list \<Rightarrow> u8 list) \<Rightarrow> u8 list \<Rightarrow> bool \<Rightarrow> u8 list \<Rightarrow> u8 list \<Rightarrow> u8 list \<times> u8 list" where
  "CRYPTO_cfb128_8_encrypt block junk enc ivec [] = ([], ivec)"
| "CRYPTO_cfb128_8_encrypt block junk enc ivec (x # inp) =
    (case cfbr_encrypt_block block junk enc 8 ivec [x] of (y, ivec) \<Rightarrow>
     case CRYPTO_cfb128_8_encrypt block junk enc ivec inp of (out, ivec) \<Rightarrow> (y @ out, ivec))"

text \<open>One bit: \<open>out\<close> is updated in place, its other bits are kept.\<close>

function cfb1_loop :: "(u8 list \<Rightarrow> u8 list) \<Rightarrow> u8 list \<Rightarrow> bool \<Rightarrow> nat \<Rightarrow> nat \<Rightarrow> u8 list \<Rightarrow> u8 list \<Rightarrow> u8 list \<Rightarrow> u8 list \<times> u8 list" where
  "cfb1_loop block junk enc bits n inp out ivec =
    (if bits \<le> n then (out, ivec)
     else let c = if inp ! (n div 8) AND push_bit (7 - n mod 8) 1 \<noteq> 0 then 0x80 else 0
          in case cfbr_encrypt_block block junk enc 1 ivec [c] of (d, ivec) \<Rightarrow>
            cfb1_loop block junk enc bits (n + 1) inp
              (out[n div 8 := (out ! (n div 8) AND NOT (push_bit (7 - n mod 8) 1)) OR drop_bit (n mod 8) (d ! 0 AND 0x80)])
              ivec)"
  by pat_completeness auto
termination by (relation "measure (\<lambda>(block, junk, enc, bits, n, inp, out, ivec). bits - n)") auto

declare cfb1_loop.simps [simp del]

definition CRYPTO_cfb128_1_encrypt :: "(u8 list \<Rightarrow> u8 list) \<Rightarrow> u8 list \<Rightarrow> bool \<Rightarrow> nat \<Rightarrow> u8 list \<Rightarrow> u8 list \<Rightarrow> u8 list \<Rightarrow> u8 list \<times> u8 list" where
  "CRYPTO_cfb128_1_encrypt block junk enc bits inp out ivec = cfb1_loop block junk enc bits 0 inp out ivec"

section \<open>The word loops work byte by byte\<close>

lemma take_16: "take 16 xs = take 8 xs @ take 8 (drop 8 xs)"
  by (metis add.commute numeral_Bit0 take_add)

lemma xor_words_bytes:
  assumes "16 \<le> length a" and "16 \<le> length b"
  shows "xor_words a b = map2 (XOR) (take 16 a) (take 16 b)"
  using assms by (simp add: xor_words_def store_xor_words take_16)

lemma copy_words_bytes:
  "16 \<le> length a \<Longrightarrow>
    concat (map (\<lambda>n. CRYPTO_store_word_le (CRYPTO_load_word_le (drop n a))) [0, 8]) = take 16 a"
  by (simp add: store_load_word take_16)

section \<open>The modes as byte-wise transitions\<close>

definition is_block_cipher :: "(u8 list \<Rightarrow> u8 list) \<Rightarrow> bool" where
  "is_block_cipher block \<longleftrightarrow> (\<forall>b. length b = 16 \<longrightarrow> length (block b) = 16)"

lemma block_length [simp]: "is_block_cipher block \<Longrightarrow> length b = 16 \<Longrightarrow> length (block b) = 16"
  by (simp add: is_block_cipher_def)

text \<open>What happens to one byte: OFB and CTR add the key stream, CFB feeds the cipher text back.\<close>

definition keystream_byte :: "('r \<Rightarrow> u8 list) \<Rightarrow> 'r \<Rightarrow> nat \<Rightarrow> u8 \<Rightarrow> u8 \<times> 'r" where
  "keystream_byte ks = (\<lambda>r n x. (x XOR ks r ! n, r))"

definition feedback_byte :: "bool \<Rightarrow> u8 list \<Rightarrow> nat \<Rightarrow> u8 \<Rightarrow> u8 \<times> u8 list" where
  "feedback_byte enc = (\<lambda>r n x. let y = r ! n XOR x in (y, r[n := if enc then y else x]))"

definition ctr_refresh :: "(u8 list \<Rightarrow> u8 list) \<Rightarrow> u8 list \<times> u8 list \<Rightarrow> u8 list \<times> u8 list" where
  "ctr_refresh block = (\<lambda>(ivec, ecount). (ctr128_inc ivec, block ivec))"

abbreviation ofb_step where "ofb_step block \<equiv> block_step block (keystream_byte id)"

abbreviation ctr_step where "ctr_step block \<equiv> block_step (ctr_refresh block) (keystream_byte snd)"

abbreviation cfb_step where "cfb_step block enc \<equiv> block_step block (feedback_byte enc)"

lemma run_block_keystream:
  assumes "n + length xs \<le> length (ks r)"
  shows "run_block (keystream_byte ks) r n xs = (map2 (XOR) xs (drop n (ks r)), r)"
  using assms
proof (induction xs arbitrary: n)
  case (Cons x xs)
  then have "drop n (ks r) = ks r ! n # drop (Suc n) (ks r)" by (simp add: Cons_nth_drop_Suc)
  with Cons show ?case by (simp add: keystream_byte_def)
qed simp

lemma run_block_feedback:
  assumes "n + length xs \<le> length r"
  shows "run_block (feedback_byte enc) r n xs =
    (let ys = map2 (XOR) (drop n r) xs in (ys, take n r @ (if enc then ys else xs) @ drop (n + length xs) r))"
  using assms
proof (induction xs arbitrary: n r)
  case (Cons x xs)
  let ?y = "r ! n XOR x" and ?r = "r[n := if enc then r ! n XOR x else x]"
  have "drop n r = r ! n # drop (Suc n) r" using Cons.prems by (simp add: Cons_nth_drop_Suc)
  moreover have "take (Suc n) ?r = take n r @ [if enc then ?y else x]"
    using Cons.prems by (simp add: take_Suc_conv_app_nth)
  ultimately show ?case
    using Cons.IH [of "Suc n" ?r] Cons.prems by (simp add: feedback_byte_def Let_def)
qed simp

lemma length_ctr_inc_loop [simp]: "length (ctr_inc_loop counter n c) = length counter"
  by (induction n arbitrary: counter c) (simp_all add: Let_def)

lemma length_ctr128_inc [simp]: "length (ctr128_inc counter) = length counter"
  by (simp add: ctr128_inc_def)

lemma length_ctr96_inc [simp]: "length (ctr96_inc counter) = length counter"
  by (simp add: ctr96_inc_def)

section \<open>The modes process bytes, however the input is cut\<close>

abbreviation good_block :: "(u8 list \<Rightarrow> u8 list) \<Rightarrow> u8 list \<Rightarrow> bool" where
  "good_block block r \<equiv> is_block_cipher block \<and> length r = 16"

abbreviation good_ctr :: "(u8 list \<Rightarrow> u8 list) \<Rightarrow> u8 list \<times> u8 list \<Rightarrow> bool" where
  "good_ctr block r \<equiv> is_block_cipher block \<and> length (fst r) = 16 \<and> length (snd r) = 16"

lemma ofb_tail_run:
  "ofb_tail r n xs = (case run_block (keystream_byte id) r n xs of (ys, r') \<Rightarrow> (ys, n + length xs))"
  by (induction xs arbitrary: n) (auto simp: keystream_byte_def split: prod.splits)

lemma ctr_tail_run:
  "ctr_tail (snd r) n xs = (case run_block (keystream_byte snd) r n xs of (ys, r') \<Rightarrow> (ys, n + length xs))"
  by (induction xs arbitrary: n) (auto simp: keystream_byte_def split: prod.splits)

lemma run_block_keystream_same: "run_block (keystream_byte ks) r n xs = (ys, r') \<Longrightarrow> r' = r"
  by (induction xs arbitrary: n ys) (auto simp: keystream_byte_def split: prod.splits)

interpretation ofb: block_loops block "keystream_byte id"
  "\<lambda>r n xs. case ofb_head r n xs of (ys, n', rest) \<Rightarrow> (ys, r, n', rest)" "ofb_blocks block"
  "\<lambda>r n xs. case ofb_tail r n xs of (ys, n') \<Rightarrow> (ys, r, n')" "good_block block" for block
proof unfold_locales
  fix r xs :: "u8 list" assume "good_block block r" "16 \<le> length xs"
  then show "ofb_blocks block r xs = (case run_block (keystream_byte id) (block r) 0 (take 16 xs) of (ys, r1) \<Rightarrow>
      case ofb_blocks block r1 (drop 16 xs) of (zs, rest) \<Rightarrow> (ys @ zs, rest))"
    by (subst ofb_blocks.simps) (simp add: run_block_keystream xor_words_bytes Let_def split: prod.splits)
next
  fix r n and x :: u8 and xs assume "n \<noteq> (0::nat)"
  then show "(case ofb_head r n (x # xs) of (ys, n', rest) \<Rightarrow> (ys, r, n', rest)) =
      (case keystream_byte id r n x of (y, r1) \<Rightarrow>
       case case ofb_head r1 ((n + 1) mod 16) xs of (ys, n', rest) \<Rightarrow> (ys, r1, n', rest) of (ys, rest) \<Rightarrow> (y # ys, rest))"
    by (simp add: keystream_byte_def split: prod.splits)
next
  fix r n xs
  show "(case ofb_tail r n xs of (ys, n') \<Rightarrow> (ys, r, n')) =
      (case run_block (keystream_byte id) r n xs of (ys, r') \<Rightarrow> (ys, r', n + length xs))"
    by (auto simp: ofb_tail_run dest: run_block_keystream_same split: prod.splits)
next
  fix r n and xs :: "u8 list" assume "n = (0::nat) \<or> xs = []"
  then show "(case ofb_head r n xs of (ys, n', rest) \<Rightarrow> (ys, r, n', rest)) = ([], r, n, xs)"
    by (cases xs) auto
qed (auto simp: ofb_blocks.simps keystream_byte_def)

interpretation ctr: block_loops "ctr_refresh block" "keystream_byte snd"
  "\<lambda>r n xs. case ctr_head (snd r) n xs of (ys, n', rest) \<Rightarrow> (ys, r, n', rest)" "ctr_blocks block"
  "\<lambda>r n xs. case ctr_tail (snd r) n xs of (ys, n') \<Rightarrow> (ys, r, n')" "good_ctr block" for block
proof unfold_locales
  fix r and xs :: "u8 list" assume "good_ctr block r" "16 \<le> length xs"
  then show "ctr_blocks block r xs = (case run_block (keystream_byte snd) (ctr_refresh block r) 0 (take 16 xs) of (ys, r1) \<Rightarrow>
      case ctr_blocks block r1 (drop 16 xs) of (zs, rest) \<Rightarrow> (ys @ zs, rest))"
    by (cases r) (simp add: ctr_blocks.simps [of _ _ _ xs] run_block_keystream xor_words_bytes ctr_refresh_def Let_def split: prod.splits)
next
  fix r :: "u8 list \<times> u8 list" and n and x :: u8 and xs assume "n \<noteq> (0::nat)"
  then show "(case ctr_head (snd r) n (x # xs) of (ys, n', rest) \<Rightarrow> (ys, r, n', rest)) =
      (case keystream_byte snd r n x of (y, r1) \<Rightarrow>
       case case ctr_head (snd r1) ((n + 1) mod 16) xs of (ys, n', rest) \<Rightarrow> (ys, r1, n', rest) of (ys, rest) \<Rightarrow> (y # ys, rest))"
    by (simp add: keystream_byte_def split: prod.splits)
next
  fix r :: "u8 list \<times> u8 list" and n xs
  show "(case ctr_tail (snd r) n xs of (ys, n') \<Rightarrow> (ys, r, n')) =
      (case run_block (keystream_byte snd) r n xs of (ys, r') \<Rightarrow> (ys, r', n + length xs))"
    by (auto simp: ctr_tail_run dest: run_block_keystream_same split: prod.splits)
next
  fix r :: "u8 list \<times> u8 list" and n and xs :: "u8 list" assume "n = (0::nat) \<or> xs = []"
  then show "(case ctr_head (snd r) n xs of (ys, n', rest) \<Rightarrow> (ys, r, n', rest)) = ([], r, n, xs)"
    by (cases xs) auto
next
  fix r and xs :: "u8 list" assume "length xs < 16"
  then show "ctr_blocks block r xs = ([], r, xs)"
    by (cases r) (simp add: ctr_blocks.simps)
qed (auto simp: ctr_refresh_def keystream_byte_def)

interpretation cfb: block_loops block "feedback_byte enc" "cfb_head enc" "cfb_blocks enc block" "cfb_tail enc"
  "good_block block" for block enc
proof unfold_locales
  fix r xs :: "u8 list" assume "good_block block r" "16 \<le> length xs"
  then show "cfb_blocks enc block r xs = (case run_block (feedback_byte enc) (block r) 0 (take 16 xs) of (ys, r1) \<Rightarrow>
      case cfb_blocks enc block r1 (drop 16 xs) of (zs, rest) \<Rightarrow> (ys @ zs, rest))"
    by (subst cfb_blocks.simps)
      (simp add: run_block_feedback xor_words_bytes copy_words_bytes Let_def del: list.map split: prod.splits)
next
  fix r n and xs :: "u8 list" assume "good_block block r" "n + length xs \<le> 16"
  then show "cfb_tail enc r n xs = (case run_block (feedback_byte enc) r n xs of (ys, r') \<Rightarrow> (ys, r', n + length xs))"
    by (induction xs arbitrary: r n) (auto simp: feedback_byte_def Let_def split: prod.splits)
next
  fix r n and xs :: "u8 list" assume "n = (0::nat) \<or> xs = []"
  then show "cfb_head enc r n xs = ([], r, n, xs)"
    by (cases xs) auto
qed (auto simp: cfb_blocks.simps feedback_byte_def Let_def split: prod.splits)

interpretation ofb_code: stream_code "CRYPTO_ofb128_encrypt block" "ofb_step block" "block_state (good_block block)"
  for block
proof unfold_locales
  fix s xs assume good: "block_state (good_block block) s"
  obtain r n where s: "s = (r, n)" by (cases s)
  show "CRYPTO_ofb128_encrypt block s xs = run (ofb_step block) s xs"
    using good unfolding s by (subst ofb.loops_eq_run) (auto simp: CRYPTO_ofb128_encrypt_def block_state_def Let_def split: prod.splits)
qed (rule ofb.good_step_byte)

interpretation ctr_code: stream_code "CRYPTO_ctr128_encrypt block" "ctr_step block" "block_state (good_ctr block)"
  for block
proof unfold_locales
  fix s xs assume good: "block_state (good_ctr block) s"
  obtain iv ec n where s: "s = ((iv, ec), n)" by (cases s) auto
  show "CRYPTO_ctr128_encrypt block s xs = run (ctr_step block) s xs"
    using good unfolding s
    by (subst ctr.loops_eq_run)
      (auto simp: CRYPTO_ctr128_encrypt_def block_state_def ctr_refresh_def Let_def split: prod.splits)
qed (rule ctr.good_step_byte)

interpretation cfb_code: stream_code "CRYPTO_cfb128_encrypt block enc" "cfb_step block enc" "block_state (good_block block)"
  for block enc
proof unfold_locales
  fix s xs assume good: "block_state (good_block block) s"
  obtain r n where s: "s = (r, n)" by (cases s)
  show "CRYPTO_cfb128_encrypt block enc s xs = run (cfb_step block enc) s xs"
    using good unfolding s by (subst cfb.loops_eq_run) (auto simp: CRYPTO_cfb128_encrypt_def block_state_def Let_def split: prod.splits)
qed (rule cfb.good_step_byte)

section \<open>Decryption\<close>

interpretation ofb_undo: invertible "ofb_step block" "ofb_step block" "block_state (good_block block)" for block
proof unfold_locales
  show "ofb_step block s (fst (ofb_step block s x)) = (x, snd (ofb_step block s x))"
    if "block_state (good_block block) s" for s x
    using that by (intro block_step_undo [where good = "good_block block"]) (auto simp: keystream_byte_def xor.assoc)
qed (rule ofb.good_step_byte)

interpretation ctr_undo: invertible "ctr_step block" "ctr_step block" "block_state (good_ctr block)" for block
proof unfold_locales
  show "ctr_step block s (fst (ctr_step block s x)) = (x, snd (ctr_step block s x))"
    if "block_state (good_ctr block) s" for s x
    using that
    by (intro block_step_undo [where good = "good_ctr block"]) (auto simp: keystream_byte_def ctr_refresh_def xor.assoc)
qed (rule ctr.good_step_byte)

interpretation cfb_undo: invertible "cfb_step block True" "cfb_step block False" "block_state (good_block block)" for block
proof unfold_locales
  show "cfb_step block False s (fst (cfb_step block True s x)) = (x, snd (cfb_step block True s x))"
    if "block_state (good_block block) s" for s x
    using that
    by (intro block_step_undo [where good = "good_block block"])
      (auto simp: feedback_byte_def Let_def simp flip: xor.assoc)
qed (rule cfb.good_step_byte)

end
