(* ===== verification/Ctr_Mode.thy ===== *)
theory Ctr_Mode
  imports Modes
begin

text \<open>
  What counter mode computes: the counter of \<open>ctr.c\<close> counts modulo \<open>2^128\<close>, the bytes are those of
  the key stream of the encrypted counters, and the variant over a 32-bit counter agrees.
\<close>

section \<open>The counter\<close>

lemma carry_le_1: "a \<le> 1 \<Longrightarrow> b < 256 \<Longrightarrow> (a + b) div 256 \<le> (1 :: nat)"
  by arith

lemma div_mod_digit:
  "(x * 256 + b + c) div 256 = x + (c + b) div 256" "(x * 256 + b + c) mod 256 = (c + b) mod (256 :: nat)"
proof -
  have "x * 256 + b + c = c + b + 256 * x" by simp
  then show "(x * 256 + b + c) div 256 = x + (c + b) div 256" "(x * 256 + b + c) mod 256 = (c + b) mod (256 :: nat)"
    by (simp_all only: div_mult_self2 [OF zero_neq_numeral [symmetric]] mod_mult_self2)
qed

lemma ctr_inc_loop_nat:
  assumes "n \<le> length counter" and "unat c \<le> 1"
  shows "be_nat (take n (ctr_inc_loop counter n c)) = (be_nat (take n counter) + unat c) mod 256 ^ n \<and>
    drop n (ctr_inc_loop counter n c) = drop n counter"
  using assms
proof (induction n arbitrary: counter c)
  case (Suc n)
  let ?b = "counter ! n" and ?c = "c + ucast (counter ! n)"
  let ?counter = "counter[n := ucast ?c]"
  have "unat ?b < 256" by simp
  with Suc.prems(2) have "unat c + unat ?b < 4294967296" by arith
  then have sum: "unat ?c = unat c + unat ?b"
    by (simp add: unat_word_ariths unat_ucast_up)
  have "unat (drop_bit 8 ?c) = drop_bit 8 (unat ?c)" by (rule unat_drop_bit_eq)
  with sum have carry: "unat (drop_bit 8 ?c) = (unat c + unat ?b) div 256"
    by (simp add: drop_bit_eq_div)
  have "unat (drop_bit 8 ?c) \<le> 1"
    unfolding carry using Suc.prems(2) \<open>unat ?b < 256\<close> by (rule carry_le_1)
  with Suc.IH [of ?counter "drop_bit 8 ?c"] Suc.prems carry
  have IH: "be_nat (take n (ctr_inc_loop ?counter n (drop_bit 8 ?c))) =
      (be_nat (take n counter) + (unat c + unat ?b) div 256) mod 256 ^ n"
    "drop n (ctr_inc_loop ?counter n (drop_bit 8 ?c)) = drop n ?counter"
    by simp_all
  let ?r = "ctr_inc_loop ?counter n (drop_bit 8 ?c)"
  have len: "n < length counter" using Suc.prems by simp
  have low: "unat (ucast ?c :: u8) = (unat c + unat ?b) mod 256"
    by (simp add: unsigned_ucast_eq take_bit_eq_mod sum)
  have "?r ! n = ucast ?c"
    using IH(2) len by (metis Cons_nth_drop_Suc length_ctr_inc_loop length_list_update list.inject nth_list_update_eq)
  then have "be_nat (take (Suc n) ?r) = be_nat (take n ?r) * 256 + (unat c + unat ?b) mod 256"
    using len low by (simp add: take_Suc_conv_app_nth be_nat_append)
  also have "\<dots> = (be_nat (take (Suc n) counter) + unat c) mod 256 ^ Suc n"
  proof -
    define v where "v = be_nat (take n counter) * 256 + unat ?b + unat c"
    have "v div 256 = be_nat (take n counter) + (unat c + unat ?b) div 256" "v mod 256 = (unat c + unat ?b) mod 256"
      unfolding v_def by (rule div_mod_digit)+
    moreover have "v mod (256 * 256 ^ n) = 256 * (v div 256 mod 256 ^ n) + v mod 256"
      by (rule mod_mult2_eq)
    moreover have "v = be_nat (take (Suc n) counter) + unat c"
      using len by (simp add: v_def take_Suc_conv_app_nth be_nat_append)
    ultimately show ?thesis by (simp add: IH(1) mult.commute)
  qed
  finally have number: "be_nat (take (Suc n) ?r) = (be_nat (take (Suc n) counter) + unat c) mod 256 ^ Suc n" .
  have "drop (Suc n) ?r = drop 1 (drop n ?r)" by simp
  also have "\<dots> = drop (Suc n) counter" unfolding IH(2) by simp
  finally show ?case using number by (simp add: Let_def)
qed simp

lemma ctr128_inc_be_bytes: "ctr128_inc (be_bytes 16 v) = be_bytes 16 (v + 1)"
proof (rule be_nat_inject)
  show "be_nat (ctr128_inc (be_bytes 16 v)) = be_nat (be_bytes 16 (v + 1))"
    using ctr_inc_loop_nat [of 16 "be_bytes 16 v" 1]
    by (simp add: ctr128_inc_def mod_Suc_eq)
qed simp

lemma length_16_be_bytes: "length iv = 16 \<Longrightarrow> iv = be_bytes 16 (be_nat iv)"
  using be_bytes_be_nat [of iv] by simp

lemma next_block: "(16 + k) div 16 = Suc (k div 16)" for k :: nat
  by simp

lemma block_start: "k mod 16 = 0 \<Longrightarrow> (k + 15) div 16 = k div 16 \<and> Suc k mod 16 = 1"
  for k :: nat
  by (auto elim!: dvdE simp: mod_eq_0_iff_dvd div_nat_eqI mod_Suc)

lemma block_inside: "k mod 16 \<noteq> 0 \<Longrightarrow> (k - 1) div 16 = k div 16 \<and> (k + 15) div 16 = Suc (k div 16)" for k :: nat
proof -
  assume r: "k mod 16 \<noteq> 0"
  have k: "k = 16 * (k div 16) + k mod 16" by simp
  moreover have "k mod 16 < 16" by simp
  ultimately show ?thesis using r by (intro conjI div_nat_eqI) arith+
qed
lemma ctr_step_eq:
  "ctr_step block ((iv, ec), n) x =
    (if n = 0 then (x XOR block iv ! 0, (ctr128_inc iv, block iv), 1) else (x XOR ec ! n, (iv, ec), (n + 1) mod 16))"
  by (simp add: block_step_def ctr_refresh_def keystream_byte_def)

text \<open>The state of counter mode after \<open>k\<close> bytes from the start of a block.\<close>

lemma ctr_run_state:
  assumes "is_block_cipher block" and "length ec = 16"
  shows "snd (run (ctr_step block) ((be_bytes 16 v, ec), 0) xs) =
    ((be_bytes 16 (v + (length xs + 15) div 16),
      if xs = [] then ec else block (be_bytes 16 (v + (length xs - 1) div 16))), length xs mod 16)"
proof (induction xs rule: rev_induct)
  case (snoc x xs)
  let ?k = "length xs"
  obtain os s where run: "run (ctr_step block) ((be_bytes 16 v, ec), 0) xs = (os, s)" by (rule prod.exhaust)
  with snoc have s: "s = ((be_bytes 16 (v + (?k + 15) div 16),
      if xs = [] then ec else block (be_bytes 16 (v + (?k - 1) div 16))), ?k mod 16)" by simp
  show ?case
  proof (cases "?k mod 16 = 0")
    case True
    with block_start [OF True] show ?thesis
      by (simp add: run_append run s ctr_step_eq next_block ctr128_inc_be_bytes)
  next
    case False
    then have "xs \<noteq> []" by auto
    with False block_inside [OF False] show ?thesis
      by (simp add: run_append run s ctr_step_eq next_block mod_Suc_eq)
  qed
qed simp

text \<open>The bytes of counter mode: block \<open>j\<close> of the key stream is the encrypted counter \<open>v + j\<close>.\<close>

lemma ctr_run_bytes:
  assumes "is_block_cipher block" and "length ec = 16"
  shows "fst (run (ctr_step block) ((be_bytes 16 v, ec), 0) xs) =
    map (\<lambda>k. xs ! k XOR block (be_bytes 16 (v + k div 16)) ! (k mod 16)) [0..<length xs]"
proof (induction xs rule: rev_induct)
  case (snoc x xs)
  let ?k = "length xs"
  obtain os s where run: "run (ctr_step block) ((be_bytes 16 v, ec), 0) xs = (os, s)" by (rule prod.exhaust)
  with ctr_run_state [OF assms, of v xs] have s: "s = ((be_bytes 16 (v + (?k + 15) div 16),
      if xs = [] then ec else block (be_bytes 16 (v + (?k - 1) div 16))), ?k mod 16)" by simp
  have os: "os = map (\<lambda>k. (xs @ [x]) ! k XOR block (be_bytes 16 (v + k div 16)) ! (k mod 16)) [0..<?k]"
    using snoc run by (simp add: nth_append)
  have "fst (ctr_step block s x) = x XOR block (be_bytes 16 (v + ?k div 16)) ! (?k mod 16)"
  proof (cases "?k mod 16 = 0")
    case True
    with block_start [OF True] show ?thesis by (simp add: s ctr_step_eq)
  next
    case False
    then have "xs \<noteq> []" by auto
    with False block_inside [OF False] show ?thesis by (simp add: s ctr_step_eq)
  qed
  moreover obtain y s' where y: "ctr_step block s x = (y, s')" by (rule prod.exhaust)
  ultimately have "y = x XOR block (be_bytes 16 (v + ?k div 16)) ! (?k mod 16)" by simp
  moreover have "fst (run (ctr_step block) ((be_bytes 16 v, ec), 0) (xs @ [x])) = os @ [y]"
    by (simp add: run_append run y)
  ultimately show ?case by (simp only: os) simp
qed simp

section \<open>The variant over a 32-bit counter\<close>

text \<open>The reference for whole blocks and beyond.\<close>

definition ctr_bytes :: "(u8 list \<Rightarrow> u8 list) \<Rightarrow> nat \<Rightarrow> u8 list \<Rightarrow> u8 list" where
  "ctr_bytes block v xs = map (\<lambda>k. xs ! k XOR block (be_bytes 16 (v + k div 16)) ! (k mod 16)) [0..<length xs]"

lemma length_ctr_bytes [simp]: "length (ctr_bytes block v xs) = length xs"
  by (simp add: ctr_bytes_def)

lemma ctr_bytes_Nil [simp]: "ctr_bytes block v [] = []"
  by (simp add: ctr_bytes_def)

lemma ctr_bytes_append:
  assumes "length xs = 16 * j"
  shows "ctr_bytes block v (xs @ ys) = ctr_bytes block v xs @ ctr_bytes block (v + j) ys"
  by (rule nth_equalityI) (auto simp: ctr_bytes_def nth_append assms algebra_simps not_less elim!: less_eqE)

lemma ctr_bytes_block:
  assumes "length xs = 16" and "is_block_cipher block"
  shows "ctr_bytes block v xs = map2 (XOR) xs (block (be_bytes 16 v))"
  using assms by (intro nth_equalityI) (auto simp: ctr_bytes_def)

text \<open>
  What \<open>modes/internal.h\<close> asks of a \<open>ctr128_f\<close>: it encrypts whole blocks in counter mode, counts in
  the last 32 bits only, and leaves \<open>ivec\<close> alone.
\<close>

definition ctr32_of :: "(u8 list \<Rightarrow> u8 list) \<Rightarrow> u8 list \<Rightarrow> nat \<Rightarrow> u8 list \<Rightarrow> u8 list" where
  "ctr32_of block inp blocks ivec = concat (map (\<lambda>i. map2 (XOR) (take 16 (drop (16 * i) inp))
     (block (take 12 ivec @ CRYPTO_store_u32_be (CRYPTO_load_u32_be (drop 12 ivec) + word_of_nat i)))) [0..<blocks])"

definition counts_in_32_bits :: "(u8 list \<Rightarrow> u8 list) \<Rightarrow> (u8 list \<Rightarrow> nat \<Rightarrow> u8 list \<Rightarrow> u8 list) \<Rightarrow> bool" where
  "counts_in_32_bits block func \<longleftrightarrow> (\<forall>inp blocks ivec.
     16 * blocks \<le> length inp \<longrightarrow> length ivec = 16 \<longrightarrow> func inp blocks ivec = ctr32_of block inp blocks ivec)"

text \<open>How many blocks go in one call: the counter may reach \<open>2^32\<close> but not pass it.\<close>

lemma ctr32_blocks_now_spec:
  assumes "ctr32_blocks_now len c = (b, c')" and "16 \<le> len"
  shows "0 < b \<and> 16 * b \<le> len \<and> unat c + b \<le> 2 ^ 32 \<and> c' = c + word_of_nat b"
proof -
  define b0 :: nat where "b0 = (if len div 16 > 2 ^ 28 then 2 ^ 28 else len div 16)"
  have b0: "0 < b0" "b0 \<le> len div 16" "b0 \<le> 2 ^ 28" using assms(2) by (auto simp: b0_def)
  have c: "unat c < 2 ^ 32" by (rule unat_u32_less)
  have sum: "unat (c + word_of_nat b0) = (unat c + b0) mod 2 ^ 32"
    using b0 by (simp add: unat_word_ariths unat_u32_of_nat)
  have res: "(b, c') = (if unat (c + word_of_nat b0) < b0 then (b0 - unat (c + word_of_nat b0), 0) else (b0, c + word_of_nat b0))"
    using assms(1) unfolding ctr32_blocks_now_def Let_def b0_def [symmetric] by simp
  show ?thesis
  proof (cases "unat c + b0 < 2 ^ 32")
    case True
    with sum res b0 show ?thesis by auto
  next
    case False
    with b0 c have wrap: "unat (c + word_of_nat b0) = unat c + b0 - 2 ^ 32"
      unfolding sum by (subst mod_if) simp
    have "unat c + b0 - 2 ^ 32 < b0" "b0 - (unat c + b0 - 2 ^ 32) = 2 ^ 32 - unat c"
      using False c by auto
    with res wrap have b: "b = 2 ^ 32 - unat c" "c' = 0" by simp_all
    have "c + word_of_nat (2 ^ 32 - unat c) = word_of_nat (unat c + (2 ^ 32 - unat c))"
      by (simp only: of_nat_add word_of_nat_unat)
    also have "\<dots> = 0" using c by simp
    finally show ?thesis using b b0 c False by auto
  qed
qed

lemma be_bytes_12_4: "be_bytes 16 v = be_bytes 12 (v div 2 ^ 32) @ be_bytes 4 v"
  using be_bytes_split [of 12 4 v] by simp

lemma load_counter: "CRYPTO_load_u32_be (drop 12 (be_bytes 16 v)) = word_of_nat v"
proof -
  have "unat (CRYPTO_load_u32_be (be_bytes 4 v)) = unat (word_of_nat v :: u32)"
    by (simp add: unat_load_u32_be unat_of_nat)
  then show ?thesis by (simp only: be_bytes_12_4 word_unat_eq_iff) simp
qed

lemma store_counter: "CRYPTO_store_u32_be (word_of_nat v) = be_bytes 4 v"
  using be_bytes_mod [of 4 v] by (simp add: store_u32_be unat_of_nat take_bit_eq_mod)

lemma ctr96_inc_be_bytes: "ctr96_inc (be_bytes 12 h @ low) = be_bytes 12 (h + 1) @ low"
proof -
  let ?c = "be_bytes 12 h @ low"
  have num: "be_nat (take 12 (ctr96_inc ?c)) = (h mod 256 ^ 12 + 1) mod 256 ^ 12" and low: "drop 12 (ctr96_inc ?c) = low"
    using ctr_inc_loop_nat [of 12 ?c 1] by (simp_all add: ctr96_inc_def)
  have "take 12 (ctr96_inc ?c) = be_bytes 12 (h + 1)"
    by (rule be_nat_inject) (simp_all add: num mod_Suc_eq)
  with low show ?thesis by (metis append_take_drop_id)
qed

text \<open>Storing the advanced 32-bit counter and propagating the carry advances the whole counter.\<close>

lemma ctr32_advance_be_bytes:
  assumes "v mod 2 ^ 32 + b \<le> 2 ^ 32" and "0 < b"
  shows "ctr32_advance (be_bytes 16 v) (word_of_nat (v + b)) = be_bytes 16 (v + b)"
proof -
  have store: "CRYPTO_store_u32_be (word_of_nat (v + b)) = be_bytes 4 (v + b)" by (rule store_counter)
  have split: "v = 2 ^ 32 * (v div 2 ^ 32) + v mod 2 ^ 32" by simp
  have ivec: "take 12 (be_bytes 16 v) @ CRYPTO_store_u32_be (word_of_nat (v + b)) @ drop 16 (be_bytes 16 v) =
      be_bytes 12 (v div 2 ^ 32) @ be_bytes 4 (v + b)"
    by (simp add: store be_bytes_12_4 del: of_nat_add)
  show ?thesis
  proof (cases "v mod 2 ^ 32 + b = 2 ^ 32")
    case True
    have "v + b = 2 ^ 32 * (v div 2 ^ 32) + (v mod 2 ^ 32 + b)" using split by simp
    then have "v + b = 2 ^ 32 * (v div 2 ^ 32 + 1)" unfolding True by (simp only: distrib_left mult_1_right)
    then have "unat (word_of_nat (v + b) :: u32) = 0"
      by (simp only: unat_of_nat) simp
    then have "(word_of_nat (v + b) :: u32) = 0" by (metis unsigned_0 word_unat_eq_iff)
    moreover from \<open>v + b = 2 ^ 32 * (v div 2 ^ 32 + 1)\<close> have "(v + b) div 2 ^ 32 = v div 2 ^ 32 + 1"
      by simp
    ultimately show ?thesis
      unfolding ctr32_advance_def Let_def ivec
      by (simp add: ctr96_inc_be_bytes be_bytes_12_4 [of "v + b"])
  next
    case False
    with assms have small: "v mod 2 ^ 32 + b < 2 ^ 32" by simp
    have sum: "v + b = 2 ^ 32 * (v div 2 ^ 32) + (v mod 2 ^ 32 + b)" using split by simp
    with small have hi: "(v + b) div 2 ^ 32 = v div 2 ^ 32" "(v + b) mod 2 ^ 32 = v mod 2 ^ 32 + b"
      by (metis div_mult_self4 div_less add_0_right zero_neq_numeral power_not_zero, metis mod_mult_self4 mod_less)
    then have "unat (word_of_nat (v + b) :: u32) \<noteq> 0"
      using assms(2) by (simp add: unat_of_nat take_bit_eq_mod del: of_nat_add)
    then have "(word_of_nat (v + b) :: u32) \<noteq> 0" by (metis unsigned_0)
    then show ?thesis
      unfolding ctr32_advance_def Let_def ivec by (simp only: if_False be_bytes_12_4 [of "v + b"] hi)
  qed
qed

text \<open>Both block loops, from a whole counter \<open>v\<close>.\<close>

lemma ctr_blocks_bytes:
  assumes "is_block_cipher block"
  shows "\<exists>ec'. ctr_blocks block (be_bytes 16 v, ec) xs =
    (ctr_bytes block v (take (16 * (length xs div 16)) xs), (be_bytes 16 (v + length xs div 16), ec'),
     drop (16 * (length xs div 16)) xs)"
proof (induction xs arbitrary: v ec rule: length_induct)
  case (1 xs)
  show ?case
  proof (cases "length xs < 16")
    case True
    then show ?thesis by (subst ctr_blocks.simps) simp
  next
    case False
    let ?j = "length (drop 16 xs) div 16"
    have len: "length xs div 16 = Suc ?j" using False by (simp add: le_div_geq)
    have "length (drop 16 xs) < length xs" using False by simp
    with 1 obtain ec' where IH: "ctr_blocks block (be_bytes 16 (v + 1), block (be_bytes 16 v)) (drop 16 xs) =
      (ctr_bytes block (v + 1) (take (16 * ?j) (drop 16 xs)), (be_bytes 16 (v + 1 + ?j), ec'), drop (16 * ?j) (drop 16 xs))"
      by blast
    have "take (16 * Suc ?j) xs = take 16 xs @ take (16 * ?j) (drop 16 xs)"
      by (simp add: take_add)
    moreover have "length (take 16 xs) = 16 * 1" using False by simp
    ultimately have "ctr_bytes block v (take (16 * Suc ?j) xs) =
        map2 (XOR) (take 16 xs) (block (be_bytes 16 v)) @ ctr_bytes block (v + 1) (take (16 * ?j) (drop 16 xs))"
      using False assms by (simp only: ctr_bytes_append) (simp add: ctr_bytes_block)
    with False IH assms show ?thesis
      by (subst ctr_blocks.simps) (simp add: len Let_def xor_words_bytes ctr128_inc_be_bytes add.commute)
  qed
qed

lemma ctr32_of_bytes:
  assumes "is_block_cipher block" and "16 * blocks \<le> length xs" and "v mod 2 ^ 32 + blocks \<le> 2 ^ 32"
  shows "ctr32_of block xs blocks (be_bytes 16 v) = ctr_bytes block v (take (16 * blocks) xs)"
  using assms(2,3)
proof (induction blocks)
  case 0
  then show ?case by (simp add: ctr32_of_def)
next
  case (Suc k)
  then have IH: "ctr32_of block xs k (be_bytes 16 v) = ctr_bytes block v (take (16 * k) xs)" by simp
  have "(v + k) div 2 ^ 32 = v div 2 ^ 32"
  proof -
    have "v + k = 2 ^ 32 * (v div 2 ^ 32) + (v mod 2 ^ 32 + k)" by simp
    moreover have "v mod 2 ^ 32 + k < 2 ^ 32" using Suc.prems by simp
    ultimately show ?thesis by (metis div_mult_self4 div_less add_0_right zero_neq_numeral power_not_zero)
  qed
  moreover have "CRYPTO_store_u32_be (word_of_nat v + word_of_nat k) = be_bytes 4 (v + k)"
    using store_counter [of "v + k"] by simp
  ultimately have counter: "take 12 (be_bytes 16 v) @ CRYPTO_store_u32_be (word_of_nat v + word_of_nat k) = be_bytes 16 (v + k)"
    by (simp add: be_bytes_12_4 [of v] be_bytes_12_4 [of "v + k"])
  have take: "take (16 * Suc k) xs = take (16 * k) xs @ take 16 (drop (16 * k) xs)"
    by (metis mult_Suc_right add.commute take_add)
  have len: "length (take (16 * k) xs) = 16 * k" "length (take 16 (drop (16 * k) xs)) = 16" using Suc.prems by auto
  have "ctr32_of block xs (Suc k) (be_bytes 16 v) = ctr32_of block xs k (be_bytes 16 v) @
      map2 (XOR) (take 16 (drop (16 * k) xs)) (block (be_bytes 16 (v + k)))"
    by (simp add: ctr32_of_def load_counter counter)
  also have "\<dots> = ctr_bytes block v (take (16 * Suc k) xs)"
    unfolding take ctr_bytes_append [OF len(1)] ctr_bytes_block [OF len(2) assms(1)] by (simp only: IH)
  finally show ?case .
qed

lemma ctr32_blocks_bytes:
  assumes "is_block_cipher block" and "counts_in_32_bits block func"
  shows "ctr32_blocks func (be_bytes 16 v) (word_of_nat v) xs =
    (ctr_bytes block v (take (16 * (length xs div 16)) xs), be_bytes 16 (v + length xs div 16),
     word_of_nat (v + length xs div 16), drop (16 * (length xs div 16)) xs)"
proof (induction xs arbitrary: v rule: length_induct)
  case (1 xs)
  show ?case
  proof (cases "length xs < 16")
    case True
    then show ?thesis by (subst ctr32_blocks.simps) simp
  next
    case False
    obtain b c' where now: "ctr32_blocks_now (length xs) (word_of_nat v) = (b, c')" by (rule prod.exhaust)
    have b: "0 < b" "16 * b \<le> length xs" "v mod 2 ^ 32 + b \<le> 2 ^ 32" "c' = word_of_nat (v + b)"
      using ctr32_blocks_now_spec [OF now] False by (simp_all add: unat_of_nat take_bit_eq_mod)
    let ?j = "length (drop (16 * b) xs) div 16"
    have len: "length xs div 16 = b + ?j" using b(2) by (simp add: div_add_self2 algebra_simps le_div_geq)
    have out: "func xs b (be_bytes 16 v) = ctr_bytes block v (take (16 * b) xs)"
      using assms b by (simp add: counts_in_32_bits_def ctr32_of_bytes)
    have "length (drop (16 * b) xs) < length xs" using b by simp
    with 1 have IH: "ctr32_blocks func (be_bytes 16 (v + b)) (word_of_nat (v + b)) (drop (16 * b) xs) =
      (ctr_bytes block (v + b) (take (16 * ?j) (drop (16 * b) xs)), be_bytes 16 (v + b + ?j),
       word_of_nat (v + b + ?j), drop (16 * ?j) (drop (16 * b) xs))" by blast
    have take: "take (16 * (b + ?j)) xs = take (16 * b) xs @ take (16 * ?j) (drop (16 * b) xs)"
      by (simp only: distrib_left take_add)
    have len': "length (take (16 * b) xs) = 16 * b" using b by simp
    have drop: "drop (16 * (b + ?j)) xs = drop (16 * ?j) (drop (16 * b) xs)"
      by (simp only: distrib_left drop_drop add.commute)
    show ?thesis
      unfolding len take drop ctr_bytes_append [OF len']
      using False IH by (subst ctr32_blocks.simps)
        (simp add: now out b(4) ctr32_advance_be_bytes [OF b(3,1)] Let_def mult.commute [of b] add.assoc del: of_nat_add)
  qed
qed

text \<open>One buffer: the same output, counter and place, and the same key stream where it matters.\<close>

lemma ctr_head_irrelevant: "ctr_head ec 0 xs = ctr_head ec' 0 xs"
  by (cases xs) auto

definition same_ctr :: "(u8 list \<times> u8 list) \<times> nat \<Rightarrow> (u8 list \<times> u8 list) \<times> nat \<Rightarrow> bool" where
  "same_ctr s t \<longleftrightarrow> fst (fst s) = fst (fst t) \<and> snd s = snd t \<and> (snd s \<noteq> 0 \<longrightarrow> snd (fst s) = snd (fst t))"

lemma ctr_head_less: "ctr_head ec n xs = (os, n', rest) \<Longrightarrow> n < 16 \<Longrightarrow> n' = 0 \<or> rest = []"
  by (induction xs arbitrary: n os) (auto split: if_splits prod.splits)

lemma ctr32_one_buffer:
  assumes "is_block_cipher block" and "counts_in_32_bits block func"
    and "length (fst (fst s)) = 16" and "same_ctr s t" and "snd s < 16"
    and "CRYPTO_ctr128_encrypt_ctr32 func s xs = (out, s')" and "CRYPTO_ctr128_encrypt block t xs = (out', t')"
  shows "out = out' \<and> same_ctr s' t'"
proof -
  obtain iv ec n where s: "s = ((iv, ec), n)" by (metis surj_pair)
  obtain iv' ec' n' where t: "t = ((iv', ec'), n')" by (metis surj_pair)
  have same: "iv' = iv" "n' = n" "n \<noteq> 0 \<Longrightarrow> ec' = ec" using assms(4) by (auto simp: s t same_ctr_def)
  define v where "v = be_nat iv"
  have iv: "iv = be_bytes 16 v" using assms(3) by (simp add: s v_def length_16_be_bytes)
  obtain o1 n1 xs1 where head: "ctr_head ec n xs = (o1, n1, xs1)" by (metis surj_pair)
  have head': "ctr_head ec' n xs = (o1, n1, xs1)"
    using head same(3) ctr_head_irrelevant [of ec xs ec'] by (cases "n = 0") auto
  have n1: "n1 = 0 \<or> xs1 = []" using ctr_head_less [OF head] assms(5) by (simp add: s)
  let ?j = "length xs1 div 16"
  obtain ec1 where blocks': "ctr_blocks block (iv, ec') xs1 =
      (ctr_bytes block v (take (16 * ?j) xs1), (be_bytes 16 (v + ?j), ec1), drop (16 * ?j) xs1)"
    using ctr_blocks_bytes [OF assms(1), of v ec' xs1] iv by blast
  have blocks: "ctr32_blocks func iv (CRYPTO_load_u32_be (drop 12 iv)) xs1 =
      (ctr_bytes block v (take (16 * ?j) xs1), be_bytes 16 (v + ?j), word_of_nat (v + ?j), drop (16 * ?j) xs1)"
    using ctr32_blocks_bytes [OF assms(1,2), of v xs1] by (simp add: iv load_counter)
  show ?thesis
  proof (cases "drop (16 * ?j) xs1 = []")
    case True
    have "xs1 = [] \<Longrightarrow> ec1 = ec'"
      using blocks' by (simp add: ctr_blocks.simps)
    have "n = 0 \<Longrightarrow> n1 = 0" using head by (cases xs) auto
    with same n1 \<open>xs1 = [] \<Longrightarrow> ec1 = ec'\<close> have ec: "n1 \<noteq> 0 \<Longrightarrow> ec1 = ec" by metis
    have "CRYPTO_ctr128_encrypt_ctr32 func s xs =
        (o1 @ ctr_bytes block v (take (16 * ?j) xs1), (be_bytes 16 (v + ?j), ec), n1)"
      unfolding s CRYPTO_ctr128_encrypt_ctr32_def prod.case head Let_def blocks True by simp
    moreover have "CRYPTO_ctr128_encrypt block t xs =
        (o1 @ ctr_bytes block v (take (16 * ?j) xs1), (be_bytes 16 (v + ?j), ec1), n1)"
      unfolding t same CRYPTO_ctr128_encrypt_def prod.case head' Let_def blocks' True by simp
    ultimately show ?thesis using assms(6,7) ec by (auto simp: same_ctr_def)
  next
    case False
    have "ctr32_of block (replicate 16 0) 1 (be_bytes 16 (v + ?j)) = ctr_bytes block (v + ?j) (replicate 16 0)"
      using ctr32_of_bytes [OF assms(1), of 1 "replicate 16 0" "v + ?j"] by simp
    also have "\<dots> = block (be_bytes 16 (v + ?j))"
      using assms(1) by (intro nth_equalityI) (auto simp: ctr_bytes_def)
    finally have ks: "func (replicate 16 0) 1 (be_bytes 16 (v + ?j)) = block (be_bytes 16 (v + ?j))"
      using assms(2) by (simp add: counts_in_32_bits_def)
    have "ctr32_advance (be_bytes 16 (v + ?j)) (word_of_nat (v + ?j + 1)) = be_bytes 16 (v + ?j + 1)"
      by (rule ctr32_advance_be_bytes) simp_all
    then have iv2: "ctr32_advance (be_bytes 16 (v + ?j)) (word_of_nat (v + ?j) + 1) = ctr128_inc (be_bytes 16 (v + ?j))"
      by (simp add: ctr128_inc_be_bytes add.commute)
    obtain o3 n3 where tl: "ctr_tail (block (be_bytes 16 (v + ?j))) n1 (drop (16 * ?j) xs1) = (o3, n3)"
      by (rule prod.exhaust)
    have "CRYPTO_ctr128_encrypt_ctr32 func s xs =
        (o1 @ ctr_bytes block v (take (16 * ?j) xs1) @ o3, (ctr128_inc (be_bytes 16 (v + ?j)), block (be_bytes 16 (v + ?j))), n3)"
      unfolding s CRYPTO_ctr128_encrypt_ctr32_def prod.case head Let_def blocks if_not_P [OF False] ks iv2 tl by simp
    moreover have "CRYPTO_ctr128_encrypt block t xs =
        (o1 @ ctr_bytes block v (take (16 * ?j) xs1) @ o3, (ctr128_inc (be_bytes 16 (v + ?j)), block (be_bytes 16 (v + ?j))), n3)"
      unfolding t same CRYPTO_ctr128_encrypt_def prod.case head' Let_def blocks' if_not_P [OF False] tl by simp
    ultimately show ?thesis using assms(6,7) by (auto simp: same_ctr_def)
  qed
qed

lemma ctr32_all_buffers:
  assumes "is_block_cipher block" and "counts_in_32_bits block func"
    and "block_state (good_ctr block) t" and "same_ctr s t"
  shows "fst (run_chunks (CRYPTO_ctr128_encrypt_ctr32 func) s cs) = fst (run_chunks (CRYPTO_ctr128_encrypt block) t cs)"
  using assms(3,4)
proof (induction cs arbitrary: s t)
  case (Cons c cs)
  obtain out s' where s': "CRYPTO_ctr128_encrypt_ctr32 func s c = (out, s')" by (rule prod.exhaust)
  obtain out' t' where t': "CRYPTO_ctr128_encrypt block t c = (out', t')" by (rule prod.exhaust)
  have "length (fst (fst s)) = 16" "snd s < 16"
    using Cons.prems by (auto simp: same_ctr_def block_state_def)
  with ctr32_one_buffer [OF assms(1,2) _ Cons.prems(2) _ s' t'] have "out = out'" "same_ctr s' t'" by simp_all
  moreover have "block_state (good_ctr block) t'"
    using ctr_code.code_good [OF Cons.prems(1), of c] t' by simp
  ultimately show ?case
    using Cons.IH [of t' s'] s' t' by (simp add: case_prod_beta)
qed simp

text \<open>What a stream in counter mode is, byte by byte, and that the variant over 32 bits agrees.\<close>

lemma ctr128_bytes:
  assumes "is_block_cipher block" and "length iv = 16" and "length ec = 16"
  shows "fst (run_chunks (CRYPTO_ctr128_encrypt block) ((iv, ec), 0) cs) =
    map (\<lambda>k. concat cs ! k XOR block (be_bytes 16 (be_nat iv + k div 16)) ! (k mod 16)) [0..<length (concat cs)]"
proof -
  have good: "block_state (good_ctr block) ((iv, ec), 0)" using assms by (simp add: block_state_def)
  have "fst (run (ctr_step block) ((be_bytes 16 (be_nat iv), ec), 0) (concat cs)) =
      map (\<lambda>k. concat cs ! k XOR block (be_bytes 16 (be_nat iv + k div 16)) ! (k mod 16)) [0..<length (concat cs)]"
    by (rule ctr_run_bytes [OF assms(1,3)])
  with ctr_code.code_chunks [OF good] ctr_code.code_run [OF good] show ?thesis
    by (simp only: length_16_be_bytes [OF assms(2), symmetric])
qed

lemma ctr32_buffers:
  assumes "is_block_cipher block" and "counts_in_32_bits block func"
    and "length iv = 16" and "length ec = 16" and "n < 16"
  shows "fst (run_chunks (CRYPTO_ctr128_encrypt_ctr32 func) ((iv, ec), n) cs) =
    fst (run_chunks (CRYPTO_ctr128_encrypt block) ((iv, ec), n) cs)"
  using assms by (intro ctr32_all_buffers) (auto simp: block_state_def same_ctr_def)

section \<open>Properties\<close>

text \<open>
  C14: Counter mode is the standard's: whatever buffers the input comes in, byte \<open>k\<close> of the output is
  byte \<open>k\<close> of the input added to byte \<open>k mod 16\<close> of the encrypted block \<open>iv + k div 16\<close>, the counter taken
  modulo \<open>2^128\<close>.
\<close>

theorem ctr128_correct:
  assumes "is_block_cipher block" and "length iv = 16" and "length ec = 16"
  shows "fst (run_chunks (CRYPTO_ctr128_encrypt block) ((iv, ec), 0) cs) =
    map (\<lambda>k. concat cs ! k XOR block (be_bytes 16 (be_nat iv + k div 16)) ! (k mod 16)) [0..<length (concat cs)]"
  using assms by (rule ctr128_bytes)

theorem ctr128_correct_witness:
  "fst (run_chunks (CRYPTO_ctr128_encrypt id) ((replicate 16 0xff, replicate 16 0), 0) [[1], [2, 3]]) =
    [1 XOR 0xff, 2 XOR 0xff, 3 XOR 0xff]"
  using ctr128_correct [of id "replicate 16 0xff" "replicate 16 0" "[[1], [2, 3]]"]
    length_16_be_bytes [of "replicate 16 0xff"]
  by (simp add: is_block_cipher_def upt_rec)

text \<open>
  C17: The variant that leaves whole blocks to a function counting in 32 bits only, and looks after
  the carry itself, encrypts every sequence of buffers as the plain counter mode does.
\<close>

theorem ctr32_agrees:
  assumes "is_block_cipher block" and "counts_in_32_bits block func"
    and "length iv = 16" and "length ec = 16" and "n < 16"
  shows "fst (run_chunks (CRYPTO_ctr128_encrypt_ctr32 func) ((iv, ec), n) cs) =
    fst (run_chunks (CRYPTO_ctr128_encrypt block) ((iv, ec), n) cs)"
  using assms by (rule ctr32_buffers)

theorem ctr32_agrees_witness:
  "fst (run_chunks (CRYPTO_ctr128_encrypt_ctr32 (ctr32_of rev)) ((replicate 16 0xff, replicate 16 0), 0) [replicate 40 1]) =
    fst (run_chunks (CRYPTO_ctr128_encrypt rev) ((replicate 16 0xff, replicate 16 0), 0) [replicate 40 1])"
  by (rule ctr32_agrees) (simp_all add: is_block_cipher_def counts_in_32_bits_def)

text \<open>
  In the three modes decryption gives the text back, however the text was cut into buffers
  when it was encrypted and however it is cut when it is decrypted, and both ends finish in the
  same state; output feedback and counter mode decrypt with the encrypting function.
\<close>

lemma modes_roundtrip:
  assumes "is_block_cipher block" and "length iv = 16" and "length ec = 16" and "n < 16"
    and "concat ds = fst (run_chunks (CRYPTO_ofb128_encrypt block) (iv, n) cs)"
    and "concat es = fst (run_chunks (CRYPTO_ctr128_encrypt block) ((iv, ec), n) cs)"
    and "concat fs = fst (run_chunks (CRYPTO_cfb128_encrypt block True) (iv, n) cs)"
  shows "(run_chunks (CRYPTO_ofb128_encrypt block) (iv, n) ds =
      (concat cs, snd (run_chunks (CRYPTO_ofb128_encrypt block) (iv, n) cs))) \<and>
    (run_chunks (CRYPTO_ctr128_encrypt block) ((iv, ec), n) es =
      (concat cs, snd (run_chunks (CRYPTO_ctr128_encrypt block) ((iv, ec), n) cs))) \<and>
    (run_chunks (CRYPTO_cfb128_encrypt block False) (iv, n) fs =
      (concat cs, snd (run_chunks (CRYPTO_cfb128_encrypt block True) (iv, n) cs)))"
proof -
  have good: "block_state (good_block block) (iv, n)" "block_state (good_ctr block) ((iv, ec), n)"
    using assms(1-4) by (simp_all add: block_state_def)
  note run = ofb_code.code_chunks [OF good(1)] ofb_code.code_run [OF good(1)] ctr_code.code_chunks [OF good(2)]
    ctr_code.code_run [OF good(2)] cfb_code.code_chunks [OF good(1)] cfb_code.code_run [OF good(1)]
  show ?thesis
    using ofb_undo.run_undo [OF good(1) surjective_pairing, of "concat cs"]
      ctr_undo.run_undo [OF good(2) surjective_pairing, of "concat cs"]
      cfb_undo.run_undo [OF good(1) surjective_pairing, of "concat cs"] assms(5-7)
    by (simp add: run)
qed

lemma modes_roundtrip_witness:
  "run_chunks (CRYPTO_cfb128_encrypt rev False) (replicate 16 7, 0)
      [fst (run_chunks (CRYPTO_cfb128_encrypt rev True) (replicate 16 7, 0) [[1, 2], replicate 20 3])] =
    ([1, 2] @ replicate 20 3, snd (run_chunks (CRYPTO_cfb128_encrypt rev True) (replicate 16 7, 0) [[1, 2], replicate 20 3]))"
  using modes_roundtrip [of rev "replicate 16 7" "replicate 16 0" 0 "[_]" "[[1, 2], replicate 20 3]" "[_]" "[_]"]
  by (simp add: is_block_cipher_def)

end
