(* ===== verification/Cbc.thy ===== *)
theory Cbc
  imports Modes
begin

text \<open>
  Cipher block chaining (\<open>crypto/fipsmodule/modes/cbc.c\<close>), where input and output may overlap: the
  buffers are addresses in one memory. The pointer \<open>iv\<close> of the code starts at the array \<open>ivec\<close>
  and then points at a block in memory, so it is a value of the type \<open>iv_pointer\<close> that is read
  when the code reads it. The reference is chaining over lists of bytes.
\<close>

section \<open>Memory\<close>

type_synonym memory = "nat \<Rightarrow> u8"

definition mem_read :: "memory \<Rightarrow> nat \<Rightarrow> nat \<Rightarrow> u8 list" where
  "mem_read mem a n = map (\<lambda>i. mem (a + i)) [0..<n]"

definition mem_write :: "memory \<Rightarrow> nat \<Rightarrow> u8 list \<Rightarrow> memory" where
  "mem_write mem a bs = (\<lambda>x. if a \<le> x \<and> x < a + length bs then bs ! (x - a) else mem x)"

lemma length_mem_read [simp]: "length (mem_read mem a n) = n"
  by (simp add: mem_read_def)

lemma mem_read_0 [simp]: "mem_read mem a 0 = []"
  by (simp add: mem_read_def)

lemma mem_write_Nil [simp]: "mem_write mem a [] = mem"
  by (rule ext) (auto simp: mem_write_def)

lemma mem_read_add: "mem_read mem a (m + n) = mem_read mem a m @ mem_read mem (a + m) n"
  by (rule nth_equalityI) (auto simp: mem_read_def nth_append add.assoc)

lemma mem_read_write_same [simp]: "length bs = n \<Longrightarrow> mem_read (mem_write mem a bs) a n = bs"
  by (rule nth_equalityI) (auto simp: mem_read_def mem_write_def)

lemma mem_read_write_apart:
  "b + n \<le> a \<or> a + length bs \<le> b \<Longrightarrow> mem_read (mem_write mem a bs) b n = mem_read mem b n"
  by (auto simp: mem_read_def mem_write_def)

lemma mem_write_append:
  "b = a + length xs \<Longrightarrow> mem_write (mem_write mem a xs) b ys = mem_write mem a (xs @ ys)"
  by (rule ext) (auto simp: mem_write_def nth_append)

lemma mem_write_again: "length xs = length ys \<Longrightarrow> mem_write (mem_write mem a xs) a ys = mem_write mem a ys"
  by (rule ext) (auto simp: mem_write_def)

section \<open>Operations\<close>

datatype iv_pointer = Ivec | In_memory nat

definition iv_read :: "memory \<Rightarrow> u8 list \<Rightarrow> iv_pointer \<Rightarrow> nat \<Rightarrow> nat \<Rightarrow> u8 list" where
  "iv_read mem ivec iv n k = (case iv of Ivec \<Rightarrow> take k (drop n ivec) | In_memory a \<Rightarrow> mem_read mem (a + n) k)"

text \<open>The loop over the words of a block: \<open>src + n\<close> and \<open>iv + n\<close> are read, \<open>out + n\<close> is written.\<close>

definition xor_words_to :: "u8 list \<Rightarrow> iv_pointer \<Rightarrow> nat \<Rightarrow> nat \<Rightarrow> memory \<Rightarrow> memory" where
  "xor_words_to ivec iv src out = fold (\<lambda>n mem. mem_write mem (out + n) (CRYPTO_store_word_le
     (CRYPTO_load_word_le (mem_read mem (src + n) 8) XOR CRYPTO_load_word_le (iv_read mem ivec iv n 8)))) [0, 8]"

function cbc_encrypt_blocks :: "(u8 list \<Rightarrow> u8 list) \<Rightarrow> u8 list \<Rightarrow> nat \<Rightarrow> nat \<Rightarrow> nat \<Rightarrow> iv_pointer \<Rightarrow> memory \<Rightarrow>
    nat \<times> nat \<times> nat \<times> iv_pointer \<times> memory" where
  "cbc_encrypt_blocks block ivec inp out len iv mem =
    (if len < 16 then (inp, out, len, iv, mem)
     else let mem = xor_words_to ivec iv inp out mem;
              mem = mem_write mem out (block (mem_read mem out 16))
          in cbc_encrypt_blocks block ivec (inp + 16) (out + 16) (len - 16) (In_memory out) mem)"
  by pat_completeness auto
termination by (relation "measure (\<lambda>(block, ivec, inp, out, len, iv, mem). len)") auto

declare cbc_encrypt_blocks.simps [simp del]

text \<open>The rest of a block is the vector itself: the text is padded with zeros.\<close>

definition cbc_pad_block :: "u8 list \<Rightarrow> iv_pointer \<Rightarrow> nat \<Rightarrow> nat \<Rightarrow> nat \<Rightarrow> memory \<Rightarrow> memory" where
  "cbc_pad_block ivec iv inp out len mem =
    (let k = min 16 len;
         mem = fold (\<lambda>n mem. mem_write mem (out + n) [mem (inp + n) XOR hd (iv_read mem ivec iv n 1)]) [0..<k] mem
     in fold (\<lambda>n mem. mem_write mem (out + n) (iv_read mem ivec iv n 1)) [k..<16] mem)"

function cbc_encrypt_tail :: "(u8 list \<Rightarrow> u8 list) \<Rightarrow> u8 list \<Rightarrow> nat \<Rightarrow> nat \<Rightarrow> nat \<Rightarrow> iv_pointer \<Rightarrow> memory \<Rightarrow> iv_pointer \<times> memory" where
  "cbc_encrypt_tail block ivec inp out len iv mem =
    (if len = 0 then (iv, mem)
     else let mem = cbc_pad_block ivec iv inp out len mem;
              mem = mem_write mem out (block (mem_read mem out 16));
              iv = In_memory out
          in if len \<le> 16 then (iv, mem)
             else cbc_encrypt_tail block ivec (inp + 16) (out + 16) (len - 16) iv mem)"
  by pat_completeness auto
termination by (relation "measure (\<lambda>(block, ivec, inp, out, len, iv, mem). len)") auto

declare cbc_encrypt_tail.simps [simp del]

definition CRYPTO_cbc128_encrypt :: "(u8 list \<Rightarrow> u8 list) \<Rightarrow> nat \<Rightarrow> nat \<Rightarrow> nat \<Rightarrow> u8 list \<Rightarrow> memory \<Rightarrow> u8 list \<times> memory" where
  "CRYPTO_cbc128_encrypt block inp out len ivec mem =
    (if len = 0 then (ivec, mem)
     else case cbc_encrypt_blocks block ivec inp out len Ivec mem of (inp, out, len, iv, mem) \<Rightarrow>
          case cbc_encrypt_tail block ivec inp out len iv mem of (iv, mem) \<Rightarrow>
            (iv_read mem ivec iv 0 16, mem))"

text \<open>Decryption away from the input: the block goes straight to the output.\<close>

function cbc_decrypt_apart :: "(u8 list \<Rightarrow> u8 list) \<Rightarrow> u8 list \<Rightarrow> nat \<Rightarrow> nat \<Rightarrow> nat \<Rightarrow> iv_pointer \<Rightarrow> memory \<Rightarrow>
    nat \<times> nat \<times> nat \<times> iv_pointer \<times> memory" where
  "cbc_decrypt_apart block ivec inp out len iv mem =
    (if len < 16 then (inp, out, len, iv, mem)
     else let mem = mem_write mem out (block (mem_read mem inp 16));
              mem = xor_words_to ivec iv out out mem
          in cbc_decrypt_apart block ivec (inp + 16) (out + 16) (len - 16) (In_memory inp) mem)"
  by pat_completeness auto
termination by (relation "measure (\<lambda>(block, ivec, inp, out, len, iv, mem). len)") auto

declare cbc_decrypt_apart.simps [simp del]

text \<open>Decryption over the input: through a temporary block, saving the cipher text in \<open>ivec\<close>.\<close>

definition cbc_decrypt_words :: "u8 list \<Rightarrow> nat \<Rightarrow> nat \<Rightarrow> u8 list \<Rightarrow> memory \<Rightarrow> u8 list \<times> memory" where
  "cbc_decrypt_words tmp inp out ivec mem = fold (\<lambda>n (ivec, mem).
     let c = CRYPTO_load_word_le (mem_read mem (inp + n) 8);
         mem = mem_write mem (out + n) (CRYPTO_store_word_le
           (CRYPTO_load_word_le (drop n tmp) XOR CRYPTO_load_word_le (drop n ivec)))
     in (take n ivec @ CRYPTO_store_word_le c @ drop (n + 8) ivec, mem)) [0, 8] (ivec, mem)"

function cbc_decrypt_over :: "(u8 list \<Rightarrow> u8 list) \<Rightarrow> nat \<Rightarrow> nat \<Rightarrow> nat \<Rightarrow> u8 list \<Rightarrow> memory \<Rightarrow>
    nat \<times> nat \<times> nat \<times> u8 list \<times> memory" where
  "cbc_decrypt_over block inp out len ivec mem =
    (if len < 16 then (inp, out, len, ivec, mem)
     else case cbc_decrypt_words (block (mem_read mem inp 16)) inp out ivec mem of (ivec, mem) \<Rightarrow>
       cbc_decrypt_over block (inp + 16) (out + 16) (len - 16) ivec mem)"
  by pat_completeness auto
termination by (relation "measure (\<lambda>(block, inp, out, len, ivec, mem). len)") auto

declare cbc_decrypt_over.simps [simp del]

function cbc_decrypt_tail :: "(u8 list \<Rightarrow> u8 list) \<Rightarrow> nat \<Rightarrow> nat \<Rightarrow> nat \<Rightarrow> u8 list \<Rightarrow> memory \<Rightarrow> u8 list \<times> memory" where
  "cbc_decrypt_tail block inp out len ivec mem =
    (if len = 0 then (ivec, mem)
     else let tmp = block (mem_read mem inp 16);
              k = min 16 len
          in case fold (\<lambda>n (ivec, mem). let c = mem (inp + n) in
                 (ivec[n := c], mem_write mem (out + n) [tmp ! n XOR ivec ! n])) [0..<k] (ivec, mem) of
               (ivec, mem) \<Rightarrow>
             if len \<le> 16 then (fold (\<lambda>n ivec. ivec[n := mem (inp + n)]) [k..<16] ivec, mem)
             else cbc_decrypt_tail block (inp + 16) (out + 16) (len - 16) ivec mem)"
  by pat_completeness auto
termination by (relation "measure (\<lambda>(block, inp, out, len, ivec, mem). len)") auto

declare cbc_decrypt_tail.simps [simp del]

definition CRYPTO_cbc128_decrypt :: "(u8 list \<Rightarrow> u8 list) \<Rightarrow> nat \<Rightarrow> nat \<Rightarrow> nat \<Rightarrow> u8 list \<Rightarrow> memory \<Rightarrow> u8 list \<times> memory" where
  "CRYPTO_cbc128_decrypt block inp out len ivec mem =
    (if len = 0 then (ivec, mem)
     else if (inp \<ge> 32 \<and> out \<le> inp - 32) \<or> inp < out then
       case cbc_decrypt_apart block ivec inp out len Ivec mem of (inp, out, len, iv, mem) \<Rightarrow>
         cbc_decrypt_tail block inp out len (iv_read mem ivec iv 0 16) mem
     else
       case cbc_decrypt_over block inp out len ivec mem of (inp, out, len, ivec, mem) \<Rightarrow>
         cbc_decrypt_tail block inp out len ivec mem)"

section \<open>The reference\<close>

text \<open>Chaining over a text of whole blocks, and the vector for the next text.\<close>

function cbc_enc :: "(u8 list \<Rightarrow> u8 list) \<Rightarrow> u8 list \<Rightarrow> u8 list \<Rightarrow> u8 list" where
  "cbc_enc block iv ps =
    (if length ps < 16 then []
     else let c = block (map2 (XOR) (take 16 ps) iv) in c @ cbc_enc block c (drop 16 ps))"
  by pat_completeness auto
termination by (relation "measure (\<lambda>(block, iv, ps). length ps)") auto

function cbc_dec :: "(u8 list \<Rightarrow> u8 list) \<Rightarrow> u8 list \<Rightarrow> u8 list \<Rightarrow> u8 list" where
  "cbc_dec block iv cs =
    (if length cs < 16 then []
     else map2 (XOR) (block (take 16 cs)) iv @ cbc_dec block (take 16 cs) (drop 16 cs))"
  by pat_completeness auto
termination by (relation "measure (\<lambda>(block, iv, cs). length cs)") auto

declare cbc_enc.simps [simp del] cbc_dec.simps [simp del]

definition last_block :: "u8 list \<Rightarrow> u8 list \<Rightarrow> u8 list" where
  "last_block iv cs = (if cs = [] then iv else drop (length cs - 16) cs)"

section \<open>One block\<close>

lemma mem_read_16: "mem_read mem a 16 = mem_read mem a 8 @ mem_read mem (a + 8) 8"
  using mem_read_add [of mem a 8 8] by simp

lemma store_xor_8:
  "length p = 8 \<Longrightarrow> length q = 8 \<Longrightarrow>
    CRYPTO_store_word_le (CRYPTO_load_word_le p XOR CRYPTO_load_word_le q) = map2 (XOR) p q"
  by (simp add: store_xor_words)

lemma map2_append: "length as = length cs \<Longrightarrow> map2 f as cs @ map2 f bs ds = map2 f (as @ bs) (cs @ ds)"
  by simp

text \<open>The vector a pointer stands for, and when a write to the output leaves it alone.\<close>

definition iv_apart :: "iv_pointer \<Rightarrow> nat \<Rightarrow> bool" where
  "iv_apart iv out = (case iv of Ivec \<Rightarrow> True | In_memory a \<Rightarrow> a + 16 \<le> out \<or> out + 16 \<le> a)"

lemma length_iv_read [simp]: "length ivec = 16 \<Longrightarrow> n + k \<le> 16 \<Longrightarrow> length (iv_read mem ivec iv n k) = k"
  by (auto simp: iv_read_def split: iv_pointer.splits)

lemma iv_read_16: "length ivec = 16 \<Longrightarrow>
    iv_read mem ivec iv 0 16 = iv_read mem ivec iv 0 8 @ iv_read mem ivec iv 8 8"
  by (auto simp: iv_read_def mem_read_16 take_16 split: iv_pointer.splits)

lemma iv_read_write:
  assumes "iv_apart iv out" and "out \<le> a" and "a + length bs \<le> out + 16" and "n + k \<le> 16"
  shows "iv_read (mem_write mem a bs) ivec iv n k = iv_read mem ivec iv n k"
  using assms by (auto simp: iv_read_def iv_apart_def mem_read_write_apart split: iv_pointer.splits)

lemma xor_words_to_block:
  assumes "length ivec = 16" and "iv_apart iv out" and "out \<le> src \<or> src + 16 \<le> out"
  shows "xor_words_to ivec iv src out mem =
    mem_write mem out (map2 (XOR) (mem_read mem src 16) (iv_read mem ivec iv 0 16))"
proof -
  let ?w = "map2 (XOR) (mem_read mem src 8) (iv_read mem ivec iv 0 8)"
  let ?mem = "mem_write mem out ?w"
  have len: "length ?w = 8" using assms(1) by simp
  let ?w8 = "map2 (XOR) (mem_read mem (src + 8) 8) (iv_read mem ivec iv 8 8)"
  have read: "mem_read ?mem (src + 8) 8 = mem_read mem (src + 8) 8" "iv_read ?mem ivec iv 8 8 = iv_read mem ivec iv 8 8"
    using assms len by (auto intro!: mem_read_write_apart iv_read_write)
  have "?w @ ?w8 = map2 (XOR) (mem_read mem src 16) (iv_read mem ivec iv 0 16)"
    unfolding mem_read_16 iv_read_16 [OF assms(1)] using assms(1) by (intro map2_append) simp
  then have out: "mem_write ?mem (out + 8) ?w8 = mem_write mem out (map2 (XOR) (mem_read mem src 16) (iv_read mem ivec iv 0 16))"
    using len by (subst mem_write_append) simp_all
  have store: "CRYPTO_store_word_le (CRYPTO_load_word_le (mem_read m a 8) XOR CRYPTO_load_word_le (iv_read m' ivec iv n 8)) =
      map2 (XOR) (mem_read m a 8) (iv_read m' ivec iv n 8)" if "n \<le> 8" for m m' a n
    using assms(1) that by (simp add: store_xor_8)
  show ?thesis
    unfolding xor_words_to_def fold_simps add_0_right id_apply store [of 0, simplified] store [of 8, simplified] read out ..
qed

lemma cbc_decrypt_words_block:
  assumes "length ivec = 16" and "length tmp = 16" and "out \<le> inp"
  shows "cbc_decrypt_words tmp inp out ivec mem =
    (mem_read mem inp 16, mem_write mem out (map2 (XOR) tmp ivec))"
proof -
  let ?w0 = "map2 (XOR) (take 8 tmp) (take 8 ivec)" and ?w8 = "map2 (XOR) (drop 8 tmp) (drop 8 ivec)"
  let ?ivec = "mem_read mem inp 8 @ drop 8 ivec" and ?mem = "mem_write mem out ?w0"
  have store: "CRYPTO_store_word_le (CRYPTO_load_word_le tmp XOR CRYPTO_load_word_le ivec) = ?w0"
    "CRYPTO_store_word_le (CRYPTO_load_word_le (drop 8 tmp) XOR CRYPTO_load_word_le (drop 8 ?ivec)) = ?w8"
    using assms by (simp_all add: store_xor_words)
  have read: "mem_read ?mem (inp + 8) 8 = mem_read mem (inp + 8) 8"
    using assms by (intro mem_read_write_apart) auto
  have copy: "CRYPTO_store_word_le (CRYPTO_load_word_le (mem_read m a 8)) = mem_read m a 8" for m a
    by (simp add: store_load_word)
  have out: "mem_write ?mem (out + 8) ?w8 = mem_write mem out (map2 (XOR) tmp ivec)"
  proof -
    have "?w0 @ ?w8 = map2 (XOR) (take 8 tmp @ drop 8 tmp) (take 8 ivec @ drop 8 ivec)"
      using assms by (intro map2_append) simp
    then show ?thesis using assms by (simp add: mem_write_append)
  qed
  have vec: "take 8 ?ivec @ mem_read mem (inp + 8) 8 @ drop (8 + 8) ?ivec = mem_read mem inp 16"
    using assms by (simp add: mem_read_16)
  show ?thesis
    unfolding cbc_decrypt_words_def Let_def fold_simps prod.case add_0_right add_0 drop_0 take_0 append_Nil
      store copy read out vec id_apply o_apply ..
qed

section \<open>All blocks\<close>

lemma mem_read_block: "16 \<le> len \<Longrightarrow> mem_read mem a len = mem_read mem a 16 @ mem_read mem (a + 16) (len - 16)"
  using mem_read_add [of mem a 16 "len - 16"] by simp

lemma cbc_encrypt_blocks_correct:
  assumes "is_block_cipher block" and "length ivec = 16"
    and "out = inp \<or> inp + len \<le> out \<or> out + len \<le> inp" and "16 dvd len"
    and "case iv of Ivec \<Rightarrow> True | In_memory a \<Rightarrow> a + 16 = out"
  shows "cbc_encrypt_blocks block ivec inp out len iv mem =
    (inp + len, out + len, 0, if len = 0 then iv else In_memory (out + len - 16),
     mem_write mem out (cbc_enc block (iv_read mem ivec iv 0 16) (mem_read mem inp len)))"
  using assms(3-5)
proof (induction len arbitrary: inp out iv mem rule: less_induct)
  case (less len)
  show ?case
  proof (cases "len < 16")
    case True
    with less.prems have "len = 0" by (auto elim: dvdE)
    then show ?thesis by (subst cbc_encrypt_blocks.simps, subst cbc_enc.simps) simp
  next
    case False
    let ?c = "block (map2 (XOR) (mem_read mem inp 16) (iv_read mem ivec iv 0 16))"
    let ?mem = "mem_write mem out ?c"
    have c: "length ?c = 16" using assms(1,2) by simp
    have "iv_apart iv out" using less.prems(3) by (auto simp: iv_apart_def split: iv_pointer.splits)
    then have x: "xor_words_to ivec iv inp out mem =
        mem_write mem out (map2 (XOR) (mem_read mem inp 16) (iv_read mem ivec iv 0 16))"
      using assms(2) less.prems(1) False by (intro xor_words_to_block) auto
    have step: "mem_write (xor_words_to ivec iv inp out mem) out (block (mem_read (xor_words_to ivec iv inp out mem) out 16)) = ?mem"
      using assms(1,2) c unfolding x by (simp add: mem_write_again)
    have rest: "mem_read ?mem (inp + 16) (len - 16) = mem_read mem (inp + 16) (len - 16)"
      using less.prems(1) False c by (intro mem_read_write_apart) auto
    have IH: "cbc_encrypt_blocks block ivec (inp + 16) (out + 16) (len - 16) (In_memory out) ?mem =
      (inp + 16 + (len - 16), out + 16 + (len - 16), 0,
       if len - 16 = 0 then In_memory out else In_memory (out + 16 + (len - 16) - 16),
       mem_write ?mem (out + 16) (cbc_enc block (iv_read ?mem ivec (In_memory out) 0 16) (mem_read ?mem (inp + 16) (len - 16))))"
      using less.prems False by (intro less.IH) (auto intro: dvd_diff_nat)
    have "iv_read ?mem ivec (In_memory out) 0 16 = ?c"
      using c by (simp add: iv_read_def)
    with IH rest c False step show ?thesis
      by (subst cbc_encrypt_blocks.simps, subst cbc_enc.simps)
        (simp add: Let_def mem_read_block [of len mem inp] mem_write_append)
  qed
qed

lemma cbc_decrypt_apart_correct:
  assumes "is_block_cipher block" and "length ivec = 16"
    and "out + 32 \<le> inp \<or> inp + len \<le> out" and "16 dvd len"
    and "case iv of Ivec \<Rightarrow> True | In_memory a \<Rightarrow> a + 16 = inp"
  shows "cbc_decrypt_apart block ivec inp out len iv mem =
    (inp + len, out + len, 0, if len = 0 then iv else In_memory (inp + len - 16),
     mem_write mem out (cbc_dec block (iv_read mem ivec iv 0 16) (mem_read mem inp len)))"
  using assms(3-5)
proof (induction len arbitrary: inp out iv mem rule: less_induct)
  case (less len)
  show ?case
  proof (cases "len < 16")
    case True
    with less.prems have "len = 0" by (auto elim: dvdE)
    then show ?thesis by (subst cbc_decrypt_apart.simps, subst cbc_dec.simps) simp
  next
    case False
    let ?c = "mem_read mem inp 16"
    let ?p = "map2 (XOR) (block ?c) (iv_read mem ivec iv 0 16)"
    let ?mem = "mem_write mem out ?p"
    have p: "length (block ?c) = 16" "length ?p = 16" using assms(1,2) by simp_all
    have apart: "iv_apart iv out" using less.prems False by (auto simp: iv_apart_def split: iv_pointer.splits)
    then have "xor_words_to ivec iv out out (mem_write mem out (block ?c)) =
        mem_write (mem_write mem out (block ?c)) out
          (map2 (XOR) (mem_read (mem_write mem out (block ?c)) out 16) (iv_read (mem_write mem out (block ?c)) ivec iv 0 16))"
      using assms(2) by (intro xor_words_to_block) auto
    also have "iv_read (mem_write mem out (block ?c)) ivec iv 0 16 = iv_read mem ivec iv 0 16"
      using apart p by (intro iv_read_write) auto
    finally have step: "xor_words_to ivec iv out out (mem_write mem out (block ?c)) = ?mem"
      using p by (simp add: mem_write_again)
    have rest: "mem_read ?mem (inp + 16) (len - 16) = mem_read mem (inp + 16) (len - 16)" "mem_read ?mem inp 16 = ?c"
      using less.prems(1) False p by (auto intro!: mem_read_write_apart)
    have IH: "cbc_decrypt_apart block ivec (inp + 16) (out + 16) (len - 16) (In_memory inp) ?mem =
      (inp + 16 + (len - 16), out + 16 + (len - 16), 0,
       if len - 16 = 0 then In_memory inp else In_memory (inp + 16 + (len - 16) - 16),
       mem_write ?mem (out + 16) (cbc_dec block (iv_read ?mem ivec (In_memory inp) 0 16) (mem_read ?mem (inp + 16) (len - 16))))"
      using less.prems False by (intro less.IH) (auto intro: dvd_diff_nat)
    have "iv_read ?mem ivec (In_memory inp) 0 16 = ?c"
      using rest by (simp add: iv_read_def)
    with IH rest p False step show ?thesis
      by (subst cbc_decrypt_apart.simps, subst cbc_dec.simps)
        (simp add: Let_def mem_read_block [of len mem inp] mem_write_append)
  qed
qed

lemma cbc_decrypt_over_correct:
  assumes "is_block_cipher block" and "length ivec = 16" and "out \<le> inp" and "16 dvd len"
  shows "cbc_decrypt_over block inp out len ivec mem =
    (inp + len, out + len, 0, if len = 0 then ivec else mem_read mem (inp + len - 16) 16,
     mem_write mem out (cbc_dec block ivec (mem_read mem inp len)))"
  using assms(2-4)
proof (induction len arbitrary: inp out ivec mem rule: less_induct)
  case (less len)
  show ?case
  proof (cases "len < 16")
    case True
    with less.prems have "len = 0" by (auto elim: dvdE)
    then show ?thesis by (subst cbc_decrypt_over.simps, subst cbc_dec.simps) simp
  next
    case False
    let ?c = "mem_read mem inp 16"
    let ?p = "map2 (XOR) (block ?c) ivec"
    let ?mem = "mem_write mem out ?p"
    have p: "length (block ?c) = 16" "length ?p = 16" using assms(1) less.prems(1) by simp_all
    have step: "cbc_decrypt_words (block ?c) inp out ivec mem = (?c, ?mem)"
      using less.prems p by (intro cbc_decrypt_words_block) auto
    have rest: "mem_read ?mem a n = mem_read mem a n" if "inp + 16 \<le> a" for a n
      using less.prems(2) that p by (intro mem_read_write_apart) auto
    have IH: "cbc_decrypt_over block (inp + 16) (out + 16) (len - 16) ?c ?mem =
      (inp + 16 + (len - 16), out + 16 + (len - 16), 0,
       if len - 16 = 0 then ?c else mem_read ?mem (inp + 16 + (len - 16) - 16) 16,
       mem_write ?mem (out + 16) (cbc_dec block ?c (mem_read ?mem (inp + 16) (len - 16))))"
      using less.prems False by (intro less.IH) (auto intro: dvd_diff_nat)
    have "len - 16 = 0 \<or> 32 \<le> len"
      using less.prems(3) False by (auto elim!: dvdE)
    then have "(if len - 16 = 0 then ?c else mem_read ?mem (inp + 16 + (len - 16) - 16) 16) = mem_read mem (inp + len - 16) 16"
      using False by (auto simp: rest)
    with IH p False step show ?thesis
      by (subst cbc_decrypt_over.simps, subst cbc_dec.simps)
        (simp add: Let_def mem_read_block [of len mem inp] mem_write_append rest)
  qed
qed

lemma last_block_read:
  "16 dvd len \<Longrightarrow> len \<noteq> 0 \<Longrightarrow> last_block iv (mem_read mem a len) = mem_read mem (a + len - 16) 16"
proof -
  assume "16 dvd len" "len \<noteq> 0"
  then have len: "16 \<le> len" by (auto elim: dvdE)
  then have "mem_read mem a len = mem_read mem a (len - 16) @ mem_read mem (a + len - 16) 16"
    using mem_read_add [of mem a "len - 16" 16] by simp
  moreover have "mem_read mem (a + len - 16) 16 \<noteq> []"
    by (metis length_mem_read list.size(3) zero_neq_numeral)
  ultimately show ?thesis using len by (simp add: last_block_def)
qed

lemma length_cbc_enc:
  "is_block_cipher block \<Longrightarrow> length iv = 16 \<Longrightarrow> 16 dvd length ps \<Longrightarrow> length (cbc_enc block iv ps) = length ps"
proof (induction ps arbitrary: iv rule: length_induct)
  case (1 ps)
  show ?case
  proof (cases "length ps < 16")
    case True
    with 1 show ?thesis by (subst cbc_enc.simps) (auto elim: dvdE)
  next
    case False
    let ?c = "block (map2 (XOR) (take 16 ps) iv)"
    have c: "length ?c = 16" using 1 False by simp
    moreover have "length (drop 16 ps) < length ps" "16 dvd length (drop 16 ps)"
      using 1 False by (auto intro: dvd_diff_nat)
    ultimately have "length (cbc_enc block ?c (drop 16 ps)) = length (drop 16 ps)"
      using 1 by blast
    with c False show ?thesis by (subst cbc_enc.simps) (simp add: Let_def)
  qed
qed

lemma length_cbc_dec:
  "is_block_cipher block \<Longrightarrow> length iv = 16 \<Longrightarrow> 16 dvd length cs \<Longrightarrow> length (cbc_dec block iv cs) = length cs"
proof (induction cs arbitrary: iv rule: length_induct)
  case (1 cs)
  show ?case
  proof (cases "length cs < 16")
    case True
    with 1 show ?thesis by (subst cbc_dec.simps) (auto elim: dvdE)
  next
    case False
    moreover have "length (drop 16 cs) < length cs" "16 dvd length (drop 16 cs)" "length (take 16 cs) = 16"
      using 1 False by (auto intro: dvd_diff_nat)
    ultimately have "length (cbc_dec block (take 16 cs) (drop 16 cs)) = length (drop 16 cs)"
      using 1 by blast
    with 1 False show ?thesis by (subst cbc_dec.simps) simp
  qed
qed

lemma map2_xor_undo: "length xs = length ys \<Longrightarrow> map2 (XOR) (map2 (XOR) xs ys) ys = xs" for xs ys :: "u8 list"
  by (induction xs ys rule: list_induct2) (simp_all add: xor.assoc)

lemma cbc_dec_enc:
  assumes "is_block_cipher enc" and "\<And>b. length b = 16 \<Longrightarrow> dec (enc b) = b"
    and "length iv = 16" and "16 dvd length ps"
  shows "cbc_dec dec iv (cbc_enc enc iv ps) = ps"
  using assms(3,4)
proof (induction ps arbitrary: iv rule: length_induct)
  case (1 ps)
  show ?case
  proof (cases "length ps < 16")
    case True
    with 1 have "ps = []" by (auto elim: dvdE)
    then show ?thesis by (simp add: cbc_enc.simps cbc_dec.simps)
  next
    case False
    let ?x = "map2 (XOR) (take 16 ps) iv"
    have c: "length ?x = 16" "length (enc ?x) = 16" using 1 False assms(1) by simp_all
    moreover have "length (drop 16 ps) < length ps" "16 dvd length (drop 16 ps)"
      using 1 False by (auto intro: dvd_diff_nat)
    ultimately have IH: "cbc_dec dec (enc ?x) (cbc_enc enc (enc ?x) (drop 16 ps)) = drop 16 ps"
      using 1 by blast
    have "cbc_enc enc iv ps = enc ?x @ cbc_enc enc (enc ?x) (drop 16 ps)"
      using False by (subst cbc_enc.simps) (simp add: Let_def)
    with c IH assms(2) [OF c(1)] 1 False show ?thesis
      by (subst cbc_dec.simps) (simp add: map2_xor_undo)
  qed
qed

section \<open>The code against the reference\<close>

lemma encrypt_memory:
  assumes "is_block_cipher block" and "length ivec = 16" and "16 dvd len"
    and "out = inp \<or> inp + len \<le> out \<or> out + len \<le> inp"
    and "cs = cbc_enc block ivec (mem_read mem inp len)"
  shows "CRYPTO_cbc128_encrypt block inp out len ivec mem = (last_block ivec cs, mem_write mem out cs)"
proof (cases "len = 0")
  case True
  then have "cs = []" using assms(5) by (simp add: cbc_enc.simps)
  with True show ?thesis by (simp add: CRYPTO_cbc128_encrypt_def last_block_def)
next
  case False
  then have len: "16 \<le> len" using assms(3) by (auto elim: dvdE)
  have cs: "length cs = len" using assms(1-3,5) by (simp add: length_cbc_enc)
  have "last_block ivec cs = mem_read (mem_write mem out cs) (out + len - 16) 16"
    using last_block_read [OF assms(3) False, of ivec "mem_write mem out cs" out] cs by simp
  moreover have "iv_read mem ivec Ivec 0 16 = ivec" using assms(2) by (simp add: iv_read_def)
  ultimately show ?thesis
    using False len cbc_encrypt_blocks_correct [OF assms(1,2,4,3), of Ivec mem] assms(5)
    by (simp add: CRYPTO_cbc128_encrypt_def cbc_encrypt_tail.simps iv_read_def)
qed

lemma decrypt_memory:
  assumes "is_block_cipher block" and "length ivec = 16" and "16 dvd len"
    and "out \<le> inp \<or> inp + len \<le> out"
  shows "CRYPTO_cbc128_decrypt block inp out len ivec mem =
    (last_block ivec (mem_read mem inp len), mem_write mem out (cbc_dec block ivec (mem_read mem inp len)))"
proof (cases "len = 0")
  case True
  then show ?thesis by (simp add: CRYPTO_cbc128_decrypt_def last_block_def cbc_dec.simps)
next
  case False
  then have len: "16 \<le> len" using assms(3) by (auto elim: dvdE)
  have iv: "iv_read mem ivec Ivec 0 16 = ivec" using assms(2) by (simp add: iv_read_def)
  show ?thesis
  proof (cases "(inp \<ge> 32 \<and> out \<le> inp - 32) \<or> inp < out")
    case True
    with assms(4) have "out + 32 \<le> inp \<or> inp + len \<le> out" by auto
    note loop = cbc_decrypt_apart_correct [OF assms(1,2) this assms(3), of Ivec mem]
    have "mem_read (mem_write mem out (cbc_dec block ivec (mem_read mem inp len))) (inp + len - 16) 16 =
        mem_read mem (inp + len - 16) 16"
      using True assms len by (intro mem_read_write_apart) (auto simp: length_cbc_dec)
    with loop True False iv show ?thesis
      by (simp add: CRYPTO_cbc128_decrypt_def cbc_decrypt_tail.simps iv_read_def last_block_read [OF assms(3) False])
  next
    case over: False
    with assms(4) False have "out \<le> inp" by auto
    note loop = cbc_decrypt_over_correct [OF assms(1,2) this assms(3), of mem]
    show ?thesis
      unfolding CRYPTO_cbc128_decrypt_def if_not_P [OF False] if_not_P [OF over] loop
      using False by (simp add: cbc_decrypt_tail.simps last_block_read [OF assms(3) False])
  qed
qed

subsection \<open>Texts that end within a block\<close>

lemma cbc_dec_append:
  assumes "length xs = 16 * m"
  shows "cbc_dec block iv (xs @ ys) = cbc_dec block iv xs @ cbc_dec block (last_block iv xs) ys"
  using assms
proof (induction m arbitrary: iv xs)
  case (Suc m)
  have split: "cbc_dec block iv (xs @ zs) = map2 (XOR) (block (take 16 xs)) iv @ cbc_dec block (take 16 xs) (drop 16 xs @ zs)" for zs
    using Suc.prems by (subst cbc_dec.simps) simp
  have "last_block (take 16 xs) (drop 16 xs) = last_block iv xs"
    using Suc.prems by (cases m) (auto simp: last_block_def add.commute)
  then show ?case
    using Suc.IH [of "drop 16 xs" "take 16 xs"] Suc.prems split [of ys] split [of "[]"] by simp
qed (simp add: last_block_def cbc_dec.simps [of _ _ "[]"])

lemma decrypt_apart_rest:
  assumes "r < 16" and "16 dvd n"
  shows "cbc_decrypt_apart block ivec inp out (n + r) iv mem =
    (case cbc_decrypt_apart block ivec inp out n iv mem of (inp, out, len, iv, mem) \<Rightarrow> (inp, out, len + r, iv, mem))"
  using assms(2)
proof (induction n arbitrary: inp out iv mem rule: less_induct)
  case (less n)
  show ?case
  proof (cases "n < 16")
    case True
    with less.prems have "n = 0" by (auto elim: dvdE)
    with assms(1) show ?thesis by (simp add: cbc_decrypt_apart.simps)
  next
    case False
    then have n: "n - 16 < n" "16 dvd n - 16" using less.prems by (auto intro: dvd_diff_nat)
    let ?mem = "xor_words_to ivec iv out out (mem_write mem out (block (mem_read mem inp 16)))"
    have step: "cbc_decrypt_apart block ivec inp out m iv mem =
        cbc_decrypt_apart block ivec (inp + 16) (out + 16) (m - 16) (In_memory inp) ?mem" if "16 \<le> m" for m
      using that by (subst cbc_decrypt_apart.simps) (simp add: Let_def)
    have m: "n + r - 16 = n - 16 + r" "16 \<le> n" "16 \<le> n + r" using False by simp_all
    show ?thesis unfolding step [OF m(2)] step [OF m(3)] m(1) by (rule less.IH [OF n])
  qed
qed

lemma decrypt_over_rest:
  assumes "r < 16" and "16 dvd n"
  shows "cbc_decrypt_over block inp out (n + r) ivec mem =
    (case cbc_decrypt_over block inp out n ivec mem of (inp, out, len, ivec, mem) \<Rightarrow> (inp, out, len + r, ivec, mem))"
  using assms(2)
proof (induction n arbitrary: inp out ivec mem rule: less_induct)
  case (less n)
  show ?case
  proof (cases "n < 16")
    case True
    with less.prems have "n = 0" by (auto elim: dvdE)
    with assms(1) show ?thesis by (simp add: cbc_decrypt_over.simps)
  next
    case False
    then have n: "n - 16 < n" "16 dvd n - 16" using less.prems by (auto intro: dvd_diff_nat)
    obtain ivec' mem' where words: "cbc_decrypt_words (block (mem_read mem inp 16)) inp out ivec mem = (ivec', mem')" by fastforce
    have step: "cbc_decrypt_over block inp out m ivec mem = cbc_decrypt_over block (inp + 16) (out + 16) (m - 16) ivec' mem'"
      if "16 \<le> m" for m
      using that by (subst cbc_decrypt_over.simps) (simp add: words)
    have m: "n + r - 16 = n - 16 + r" "16 \<le> n" "16 \<le> n + r" using False by simp_all
    show ?thesis unfolding step [OF m(2)] step [OF m(3)] m(1) by (rule less.IH [OF n])
  qed
qed

lemma mem_read_Suc: "mem_read mem a (Suc n) = mem_read mem a n @ [mem (a + n)]"
  by (simp add: mem_read_def)

lemma decrypt_tail_loop:
  assumes "length ivec = 16" and "length tmp = 16" and "k \<le> 16" and "out \<le> inp \<or> inp + 16 \<le> out"
  shows "fold (\<lambda>n (ivec, mem). let c = mem (inp + n) in
      (ivec[n := c], mem_write mem (out + n) [tmp ! n XOR ivec ! n])) [0..<k] (ivec, mem) =
    (mem_read mem inp k @ drop k ivec, mem_write mem out (take k (map2 (XOR) tmp ivec)))"
  using assms(3)
proof (induction k)
  case (Suc k)
  let ?w = "take k (map2 (XOR) tmp ivec)"
  let ?mem = "mem_write mem out ?w"
  have k: "k < 16" "length ?w = k" using Suc.prems assms(1,2) by simp_all
  have c: "?mem (inp + k) = mem (inp + k)" using assms(4) k by (auto simp: mem_write_def)
  have "(mem_read mem inp k @ drop k ivec) ! k = ivec ! k" using k assms(1) by (simp add: nth_append)
  moreover have "(mem_read mem inp k @ drop k ivec)[k := mem (inp + k)] = mem_read mem inp (Suc k) @ drop (Suc k) ivec"
    using k assms(1) by (simp add: mem_read_Suc list_update_append flip: Cons_nth_drop_Suc)
  moreover have "mem_write ?mem (out + k) [tmp ! k XOR ivec ! k] = mem_write mem out (take (Suc k) (map2 (XOR) tmp ivec))"
    using k assms(1,2) by (subst mem_write_append) (simp_all add: take_Suc_conv_app_nth)
  ultimately show ?case using Suc c by (simp add: Let_def)
qed simp

lemma decrypt_tail_vector:
  assumes "length ivec = 16" and "k \<le> 16" and "take k ivec = mem_read mem inp k"
  shows "fold (\<lambda>n ivec. ivec[n := mem (inp + n)]) [k..<16] ivec = mem_read mem inp 16"
proof -
  let ?F = "fold (\<lambda>n ivec. ivec[n := mem (inp + n)]) [k..<16] ivec"
  have "length (fold (\<lambda>n ivec. ivec[n := mem (inp + n)]) [k..<m] ivec) = 16 \<and>
      take m (fold (\<lambda>n ivec. ivec[n := mem (inp + n)]) [k..<m] ivec) = mem_read mem inp m" if "k \<le> m" "m \<le> 16" for m
    using that
  proof (induction m rule: dec_induct)
    case (step m)
    then show ?case by (simp add: take_Suc_conv_app_nth mem_read_Suc)
  qed (use assms in simp)
  from this [OF assms(2) order.refl] have "length ?F = 16" "take 16 ?F = mem_read mem inp 16" by blast+
  then show ?thesis by (simp only: take_all_iff [THEN iffD2, OF eq_imp_le])
qed

lemma decrypt_tail_block:
  assumes "is_block_cipher block" and "length ivec = 16" and "0 < r" and "r \<le> 16" and "out \<le> inp \<or> inp + 16 \<le> out"
  shows "cbc_decrypt_tail block inp out r ivec mem =
    (mem_read mem inp 16, mem_write mem out (take r (cbc_dec block ivec (mem_read mem inp 16))))"
proof -
  let ?tmp = "block (mem_read mem inp 16)"
  let ?w = "take r (map2 (XOR) ?tmp ivec)"
  have tmp: "length ?tmp = 16" using assms(1) by simp
  have w: "length ?w = r" using tmp assms(2,4) by simp
  let ?iv = "mem_read mem inp r @ drop r ivec"
  have unread: "mem_write mem out ?w (inp + n) = mem (inp + n)" if "r \<le> n" "n < 16" for n
    using assms(5) that w by (auto simp: mem_write_def)
  have "fold (\<lambda>n ivec. ivec[n := mem_write mem out ?w (inp + n)]) [r..<16] ?iv = fold (\<lambda>n ivec. ivec[n := mem (inp + n)]) [r..<16] ?iv"
    by (rule fold_cong) (simp_all add: unread)
  also have "\<dots> = mem_read mem inp 16" using assms(2,4) by (intro decrypt_tail_vector) simp_all
  finally have vec: "fold (\<lambda>n ivec. ivec[n := mem_write mem out ?w (inp + n)]) [r..<16] ?iv = mem_read mem inp 16" .
  have dec: "cbc_dec block ivec (mem_read mem inp 16) = map2 (XOR) ?tmp ivec"
    by (subst cbc_dec.simps, subst cbc_dec.simps) simp
  have min: "min 16 r = r" "(r = 0) = False" "(r \<le> 16) = True" using assms(3,4) by simp_all
  note loop = decrypt_tail_loop [OF assms(2) tmp assms(4,5), of mem, unfolded Let_def]
  show ?thesis
    unfolding dec cbc_decrypt_tail.simps [of block inp out r] Let_def min if_True if_False loop prod.case vec by (rule refl)
qed

text \<open>The whole function: the blocks before the last, and a last one of which \<open>r\<close> bytes are written.\<close>

lemma decrypt_blocks_then:
  assumes "is_block_cipher block" and "length ivec = 16" and "16 dvd n" and "0 < r" and "r < 16"
    and "out \<le> inp \<or> inp + (n + 16) \<le> out" and "xs = mem_read mem inp n"
  shows "CRYPTO_cbc128_decrypt block inp out (n + r) ivec mem =
    cbc_decrypt_tail block (inp + n) (out + n) r (last_block ivec xs) (mem_write mem out (cbc_dec block ivec xs))"
proof -
  have iv: "iv_read mem ivec Ivec 0 16 = ivec" using assms(2) by (simp add: iv_read_def)
  have xs: "length (cbc_dec block ivec xs) = n" using assms(1-3,7) by (simp add: length_cbc_dec)
  have last: "last_block ivec xs = mem_read mem (inp + n - 16) 16" if "n \<noteq> 0"
    using last_block_read [OF assms(3) that] by (simp add: assms(7))
  show ?thesis
  proof (cases "(inp \<ge> 32 \<and> out \<le> inp - 32) \<or> inp < out")
    case True
    with assms(6) have apart: "out + 32 \<le> inp \<or> inp + n \<le> out" by auto
    have "iv_read (mem_write mem out (cbc_dec block ivec xs)) ivec (if n = 0 then Ivec else In_memory (inp + n - 16)) 0 16 =
        last_block ivec xs"
    proof (cases "n = 0")
      case True
      then show ?thesis using assms(2,7) by (simp add: iv_read_def last_block_def)
    next
      case False
      then have "16 \<le> n" using assms(3) by (auto elim: dvdE)
      then have "mem_read (mem_write mem out (cbc_dec block ivec xs)) (inp + n - 16) 16 = mem_read mem (inp + n - 16) 16"
        using apart xs by (intro mem_read_write_apart) auto
      then show ?thesis using False last by (simp add: iv_read_def)
    qed
    then show ?thesis
      unfolding CRYPTO_cbc128_decrypt_def decrypt_apart_rest [OF assms(5,3)]
        cbc_decrypt_apart_correct [OF assms(1,2) apart assms(3), of Ivec mem, simplified] iv
      using True assms(4,7) by simp
  next
    case False
    with assms(6) have "out \<le> inp" by auto
    note over = cbc_decrypt_over_correct [OF assms(1,2) this assms(3), of mem]
    have "(if n = 0 then ivec else mem_read mem (inp + n - 16) 16) = last_block ivec xs"
      using last by (cases "n = 0") (simp_all add: assms(7) last_block_def [of _ "[]"])
    then show ?thesis
      unfolding CRYPTO_cbc128_decrypt_def if_not_P [OF False] decrypt_over_rest [OF assms(5,3)] over
      using assms(4,7) by simp
  qed
qed

lemma decrypt_any_length:
  assumes "is_block_cipher block" and "length ivec = 16"
    and "out \<le> inp \<or> inp + 16 * ((len + 15) div 16) \<le> out"
    and "cs = mem_read mem inp (16 * ((len + 15) div 16))"
  shows "CRYPTO_cbc128_decrypt block inp out len ivec mem =
    (last_block ivec cs, mem_write mem out (take len (cbc_dec block ivec cs)))"
proof (cases "16 dvd len")
  case True
  then obtain q where len: "len = 16 * q" by (auto elim: dvdE)
  then have "16 * ((len + 15) div 16) = len" by simp
  with assms True decrypt_memory [OF assms(1,2) True, of out inp mem] show ?thesis
    by (simp add: length_cbc_dec)
next
  case False
  define n where "n = 16 * (len div 16)"
  define r where "r = len mod 16"
  have r: "0 < r" "r < 16" using False by (auto simp: r_def dvd_eq_mod_eq_0)
  have len: "len = n + r" by (simp add: n_def r_def)
  have n: "16 dvd n" by (simp add: n_def)
  then obtain q where q: "n = 16 * q" by (auto elim: dvdE)
  have "(n + r + 15) div 16 = q + 1" unfolding q using r by (intro div_nat_eqI) auto
  then have read: "16 * ((len + 15) div 16) = n + 16" by (simp add: len q)
  let ?xs = "mem_read mem inp n" and ?ys = "mem_read mem (inp + n) 16"
  let ?mem = "mem_write mem out (cbc_dec block ivec ?xs)" and ?iv = "last_block ivec ?xs"
  have cs: "cs = ?xs @ ?ys" using assms(4) unfolding read mem_read_add .
  have xs: "length (cbc_dec block ivec ?xs) = n" using assms(1,2) n by (simp add: length_cbc_dec)
  have iv: "length ?iv = 16" using assms(2) q by (cases q) (simp_all add: last_block_def)
  have ys: "mem_read ?mem (inp + n) 16 = ?ys"
    using assms(3) xs unfolding read by (intro mem_read_write_apart) auto
  have "?ys \<noteq> []" by (metis length_mem_read list.size(3) zero_neq_numeral)
  then have last: "last_block ivec cs = ?ys" by (simp add: cs last_block_def)
  have dec: "cbc_dec block ivec cs = cbc_dec block ivec ?xs @ cbc_dec block ?iv ?ys"
    unfolding cs by (rule cbc_dec_append) (simp add: q)
  have tail: "out + n \<le> inp + n \<or> inp + n + 16 \<le> out + n" using assms(3) unfolding read by auto
  have "CRYPTO_cbc128_decrypt block inp out len ivec mem = cbc_decrypt_tail block (inp + n) (out + n) r ?iv ?mem"
    unfolding len using assms(1-3) n r read by (intro decrypt_blocks_then) auto
  also have "\<dots> = (?ys, mem_write ?mem (out + n) (take r (cbc_dec block ?iv ?ys)))"
    using decrypt_tail_block [OF assms(1) iv r(1) less_imp_le [OF r(2)] tail, of ?mem] by (simp only: ys)
  also have "\<dots> = (last_block ivec cs, mem_write mem out (take len (cbc_dec block ivec cs)))"
    using xs by (simp add: last dec len mem_write_append)
  finally show ?thesis .
qed

text \<open>
  The assertion compares with \<open>len\<close> and not with the bytes read: with the output right behind a text that ends within a
  block, the first block written destroys what is still to be read.
\<close>

lemma cbc_decrypt_assertion_gap:
  "\<exists>inp out len mem. inp + len \<le> out \<and>
    CRYPTO_cbc128_decrypt id inp out len (replicate 16 0) mem \<noteq>
      (let cs = mem_read mem inp (16 * ((len + 15) div 16))
       in (last_block (replicate 16 0) cs, mem_write mem out (take len (cbc_dec id (replicate 16 0) cs))))"
proof -
  let ?mem = "\<lambda>a. if a < 16 then 1 else 0 :: u8" and ?iv = "replicate 16 0 :: u8 list"
  let ?d = "cbc_dec id ?iv (mem_read ?mem 0 16)"
  let ?mem1 = "mem_write ?mem 20 ?d"
  have id: "is_block_cipher id" by (simp add: is_block_cipher_def)
  have d: "?d = replicate 16 1"
  proof (rule nth_equalityI)
    show "length ?d = length (replicate 16 (1 :: u8))" using length_cbc_dec [OF id, of ?iv "mem_read ?mem 0 16"] by simp
    fix k assume "k < length ?d"
    then show "?d ! k = replicate 16 1 ! k"
      using length_cbc_dec [OF id, of ?iv "mem_read ?mem 0 16"] by (subst cbc_dec.simps) (simp add: mem_read_def cbc_dec.simps [of _ _ "[]"])
  qed
  have loop: "cbc_decrypt_apart id ?iv 0 20 20 Ivec ?mem = (16, 36, 4, In_memory 0, ?mem1)"
    using decrypt_apart_rest [of 4 16 id ?iv 0 20 Ivec ?mem] cbc_decrypt_apart_correct [OF id, of ?iv 20 0 16 Ivec ?mem]
    by (simp add: iv_read_def)
  have tail: "cbc_decrypt_tail id 16 36 4 v ?mem1 = (mem_read ?mem1 16 16,
      mem_write ?mem1 36 (take 4 (cbc_dec id v (mem_read ?mem1 16 16))))" if "length v = 16" for v
    using that by (intro decrypt_tail_block [OF id]) simp_all
  have "fst (CRYPTO_cbc128_decrypt id 0 20 20 ?iv ?mem) = mem_read ?mem1 16 16"
    by (simp add: CRYPTO_cbc128_decrypt_def loop tail iv_read_def)
  moreover have nth: "mem_read m a 16 ! 4 = m (a + 4)" for m a by (simp add: mem_read_def)
  have "mem_read ?mem1 16 16 ! 4 = 1" unfolding nth d by (simp add: mem_write_def)
  moreover have "last_block ?iv (mem_read ?mem 0 32) ! 4 = 0"
    using last_block_read [of 32 ?iv ?mem 0] nth [of ?mem 16] by simp
  ultimately have "CRYPTO_cbc128_decrypt id 0 20 20 ?iv ?mem \<noteq> (let cs = mem_read ?mem 0 (16 * ((20 + 15) div 16))
      in (last_block ?iv cs, mem_write ?mem 20 (take 20 (cbc_dec id ?iv cs))))" by (auto simp: Let_def)
  then show ?thesis by (intro exI [of _ 0] exI [of _ 20] exI [of _ ?mem] conjI) simp_all
qed

section \<open>Properties\<close>

text \<open>
  C16: \<open>CRYPTO_cbc128_decrypt\<close> is right for every length, with the input ahead of the output by any distance, in place,
  or entirely before it, where the input is the blocks the function reads, which are whole also when \<open>len\<close> ends within
  one: the output receives the first \<open>len\<close> bytes of the decrypted text of the input as it was, \<open>ivec\<close> the last block
  of cipher text, and no other byte changes. For whole blocks these are the overlaps the assertion allows.
\<close>

theorem cbc_decrypt_overlap:
  assumes "is_block_cipher block" and "length ivec = 16"
    and "out \<le> inp \<or> inp + 16 * ((len + 15) div 16) \<le> out"
    and "cs = mem_read mem inp (16 * ((len + 15) div 16))"
  shows "CRYPTO_cbc128_decrypt block inp out len ivec mem =
    (last_block ivec cs, mem_write mem out (take len (cbc_dec block ivec cs)))"
  using assms by (simp only: decrypt_any_length)

theorem cbc_decrypt_overlap_witness:
  "CRYPTO_cbc128_decrypt rev 117 100 40 (replicate 16 1) word_of_nat =
    (last_block (replicate 16 1) (mem_read word_of_nat 117 48),
     mem_write word_of_nat 100 (take 40 (cbc_dec rev (replicate 16 1) (mem_read word_of_nat 117 48))))"
  by (rule cbc_decrypt_overlap) (simp_all add: is_block_cipher_def)



end
