(* ===== verification/Rc4.thy ===== *)
theory Rc4
  imports Stream_Cipher "HOL-Library.Multiset"
begin

text \<open>
  RC4 (\<open>crypto/rc4/rc4.c\<close>): the key schedule and the cipher over its state of 256 words. The
  state is a permutation of the numbers below 256 at every moment, so every index is in range.
\<close>

section \<open>Operations\<close>

record rc4_key =
  rc4_x :: u32
  rc4_y :: u32
  rc4_data :: "u32 list"

fun rc4_loop :: "u32 \<Rightarrow> u32 \<Rightarrow> u32 list \<Rightarrow> u8 list \<Rightarrow> u8 list \<times> u32 \<times> u32 \<times> u32 list" where
  "rc4_loop x y d [] = ([], x, y, d)"
| "rc4_loop x y d (b # inp) =
    (let x = (x + 1) AND 0xff;
         tx = d ! unat x;
         y = (tx + y) AND 0xff;
         ty = d ! unat y;
         d = d[unat x := ty, unat y := tx];
         c = ucast (d ! unat ((tx + ty) AND 0xff) XOR ucast b)
     in case rc4_loop x y d inp of (out, rest) \<Rightarrow> (c # out, rest))"

definition RC4 :: "rc4_key \<Rightarrow> u8 list \<Rightarrow> u8 list \<times> rc4_key" where
  "RC4 key inp = (case rc4_loop (rc4_x key) (rc4_y key) (rc4_data key) inp of
     (out, x, y, d) \<Rightarrow> (out, key\<lparr>rc4_x := x, rc4_y := y, rc4_data := d\<rparr>))"

text \<open>The swapping loop of the key schedule, from \<open>i\<close> on.\<close>

function rc4_schedule :: "u8 list \<Rightarrow> nat \<Rightarrow> nat \<Rightarrow> u32 \<Rightarrow> u32 list \<Rightarrow> u32 list" where
  "rc4_schedule key i id1 id2 d =
    (if 256 \<le> i then d
     else let tmp = d ! i;
              id2 = (ucast (key ! id1) + tmp + id2) AND 0xff;
              id1 = (if id1 + 1 = length key then 0 else id1 + 1);
              d = d[i := d ! unat id2];
              d = d[unat id2 := tmp]
          in rc4_schedule key (i + 1) id1 id2 d)"
  by pat_completeness auto
termination by (relation "measure (\<lambda>(key, i, id1, id2, d). 256 - i)") auto

declare rc4_schedule.simps [simp del]

definition RC4_set_key :: "u8 list \<Rightarrow> rc4_key" where
  "RC4_set_key key = \<lparr>rc4_x = 0, rc4_y = 0, rc4_data = rc4_schedule key 0 0 0 (map word_of_nat [0..<256])\<rparr>"

section \<open>The state stays a permutation\<close>

definition rc4_ok :: "rc4_key \<Rightarrow> bool" where
  "rc4_ok key \<longleftrightarrow> unat (rc4_x key) < 256 \<and> unat (rc4_y key) < 256 \<and>
     mset (rc4_data key) = mset (map word_of_nat [0..<256])"

lemma unat_and_ff: "unat (w AND 0xff) < 256" for w :: u32
proof -
  have "w AND 0xff \<le> 0xff" by (rule word_and_le1)
  then show ?thesis by (simp add: word_le_nat_alt)
qed

lemma mset_swap_words:
  "i < length d \<Longrightarrow> j < length d \<Longrightarrow> mset (d[i := d ! j, j := d ! i]) = mset d"
  by (rule mset_swap)

lemma rc4_schedule_permutes:
  "length d = 256 \<Longrightarrow> mset (rc4_schedule key i id1 id2 d) = mset d"
proof (induction key i id1 id2 d rule: rc4_schedule.induct)
  case (1 key i id1 id2 d)
  show ?case
  proof (cases "256 \<le> i")
    case True
    then show ?thesis by (simp add: rc4_schedule.simps)
  next
    case False
    then show ?thesis
      using 1 mset_swap_words [of i d] unat_and_ff
      by (subst rc4_schedule.simps) (simp add: Let_def)
  qed
qed

lemma mset_eq_length_256: "mset d = mset (map word_of_nat [0..<256]) \<Longrightarrow> length d = 256" for d :: "u32 list"
  by (metis length_map length_upt mset_eq_length diff_zero)

section \<open>The cipher as a transition per byte\<close>

definition rc4_step :: "rc4_key \<Rightarrow> u8 \<Rightarrow> u8 \<times> rc4_key" where
  "rc4_step key b = (case RC4 key [b] of (out, key') \<Rightarrow> (hd out, key'))"

lemma RC4_Cons: "RC4 key (b # inp) =
    (case rc4_step key b of (c, key1) \<Rightarrow> case RC4 key1 inp of (out, key2) \<Rightarrow> (c # out, key2))"
proof -
  obtain c x1 y1 d1 where one: "rc4_loop (rc4_x key) (rc4_y key) (rc4_data key) [b] = ([c], x1, y1, d1)"
    by (simp add: Let_def)
  then have "rc4_loop (rc4_x key) (rc4_y key) (rc4_data key) (b # inp) =
      (case rc4_loop x1 y1 d1 inp of (out, rest) \<Rightarrow> (c # out, rest))"
    by (auto simp: Let_def)
  with one show ?thesis by (simp add: RC4_def rc4_step_def split: prod.splits)
qed

lemma RC4_run: "RC4 key inp = run rc4_step key inp"
  by (induction inp arbitrary: key) (simp_all add: RC4_Cons, simp add: RC4_def)

lemma rc4_step_ok: "rc4_ok key \<Longrightarrow> rc4_ok (snd (rc4_step key b))"
  using mset_eq_length_256 [of "rc4_data key"] unat_and_ff
  by (simp add: rc4_ok_def rc4_step_def RC4_def Let_def mset_swap_words)

lemma rc4_step_undo: "rc4_step key (fst (rc4_step key b)) = (b, snd (rc4_step key b))"
proof -
  have "ucast (k XOR ucast (ucast (k XOR ucast b) :: u8)) = b" for k :: u32
    by (rule bit_word_eqI) (auto simp: bit_simps)
  then show ?thesis by (simp add: rc4_step_def RC4_def Let_def)
qed

lemma RC4_set_key_ok: "rc4_ok (RC4_set_key key)"
  using rc4_schedule_permutes [of "map word_of_nat [0..<256]" key 0 0 0]
  by (simp add: rc4_ok_def RC4_set_key_def)

interpretation rc4: stream_code RC4 rc4_step rc4_ok
  by unfold_locales (simp_all add: RC4_run rc4_step_ok)

interpretation rc4_undo: invertible rc4_step rc4_step rc4_ok
  by unfold_locales (simp_all add: rc4_step_undo rc4_step_ok)

section \<open>Properties\<close>

text \<open>
  C40: The state of RC4 is well formed from the key schedule on and whatever is encrypted: both
  indices are below 256 and the table is a permutation of the numbers below 256, so that no
  index the code computes from it is out of range.
\<close>

theorem rc4_state_permutation:
  "rc4_ok (snd (run_chunks RC4 (RC4_set_key key) cs)) \<and>
   length (rc4_data (snd (run_chunks RC4 (RC4_set_key key) cs))) = 256"
proof -
  have "rc4_ok (snd (run_chunks RC4 (RC4_set_key key) cs))"
    by (simp add: rc4.code_chunks RC4_set_key_ok rc4.code_good)
  then show ?thesis by (simp add: rc4_ok_def mset_eq_length_256)
qed

text \<open>
  A second pass with the same key gives the text back, however the text and the cipher text are
  cut into buffers, and every buffer keeps its length.
\<close>

lemma rc4_roundtrip:
  assumes "concat ds = fst (run_chunks RC4 (RC4_set_key key) cs)"
  shows "run_chunks RC4 (RC4_set_key key) ds = (concat cs, snd (run_chunks RC4 (RC4_set_key key) cs)) \<and>
    length (concat ds) = length (concat cs)"
  using assms rc4_undo.run_undo [OF RC4_set_key_ok surjective_pairing, of key "concat cs"]
  by (simp add: rc4.code_chunks RC4_set_key_ok RC4_run)

lemma rc4_roundtrip_witness:
  "run_chunks RC4 (RC4_set_key [1, 2, 3]) [fst (run_chunks RC4 (RC4_set_key [1, 2, 3]) [[1, 2], [3]])] =
    ([1, 2, 3], snd (run_chunks RC4 (RC4_set_key [1, 2, 3]) [[1, 2], [3]]))"
  using rc4_roundtrip [of "[fst (run_chunks RC4 (RC4_set_key [1, 2, 3]) [[1, 2], [3]])]" "[1, 2, 3]" "[[1, 2], [3]]"]
  by simp

end
