(* ===== verification/Siphash.thy ===== *)
theory Siphash
  imports Mem
begin

text \<open>
  SipHash-2-4 (\<open>crypto/siphash/siphash.c\<close>). The reference is the paper's: the message is padded with
  zeros and its length to a sequence of 64-bit words, each word is compressed in two rounds, and
  four rounds finish.
\<close>

section \<open>Operations\<close>

type_synonym sip_state = "u64 \<times> u64 \<times> u64 \<times> u64"

definition siphash_round :: "sip_state \<Rightarrow> sip_state" where
  "siphash_round = (\<lambda>(v0, v1, v2, v3).
     let v0 = v0 + v1;
         v2 = v2 + v3;
         v1 = CRYPTO_rotl_u64 v1 13;
         v3 = CRYPTO_rotl_u64 v3 16;
         v1 = v1 XOR v0;
         v3 = v3 XOR v2;
         v0 = CRYPTO_rotl_u64 v0 32;
         v2 = v2 + v1;
         v0 = v0 + v3;
         v1 = CRYPTO_rotl_u64 v1 17;
         v3 = CRYPTO_rotl_u64 v3 21;
         v1 = v1 XOR v2;
         v3 = v3 XOR v0;
         v2 = CRYPTO_rotl_u64 v2 32
     in (v0, v1, v2, v3))"

text \<open>The loop over whole words, with the input it leaves.\<close>

function siphash_loop :: "sip_state \<Rightarrow> u8 list \<Rightarrow> sip_state \<times> u8 list" where
  "siphash_loop v input =
    (if length input < 8 then (v, input)
     else let m = u64_of_bytes (take 8 input);
              v = (case v of (v0, v1, v2, v3) \<Rightarrow> (v0, v1, v2, v3 XOR m));
              v = siphash_round v;
              v = siphash_round v;
              v = (case v of (v0, v1, v2, v3) \<Rightarrow> (v0 XOR m, v1, v2, v3))
          in siphash_loop v (drop 8 input))"
  by pat_completeness auto
termination by (relation "measure (\<lambda>(v, input). length input)") auto

declare siphash_loop.simps [simp del]

definition SIPHASH_24 :: "u64 \<Rightarrow> u64 \<Rightarrow> u8 list \<Rightarrow> u64" where
  "SIPHASH_24 key0 key1 input =
    (let v = (key0 XOR 0x736f6d6570736575, key1 XOR 0x646f72616e646f6d,
              key0 XOR 0x6c7967656e657261, key1 XOR 0x7465646279746573)
     in case siphash_loop v input of (v, rest) \<Rightarrow>
        let last_block = (rest @ replicate (8 - length rest) 0)[7 := word_of_nat (length input)];
            word = u64_of_bytes last_block;
            v = (case v of (v0, v1, v2, v3) \<Rightarrow> (v0, v1, v2, v3 XOR word));
            v = siphash_round (siphash_round v);
            v = (case v of (v0, v1, v2, v3) \<Rightarrow> (v0 XOR word, v1, v2, v3));
            v = (case v of (v0, v1, v2, v3) \<Rightarrow> (v0, v1, v2 XOR 0xff, v3));
            v = siphash_round (siphash_round (siphash_round (siphash_round v)))
        in case v of (v0, v1, v2, v3) \<Rightarrow> v0 XOR v1 XOR v2 XOR v3)"

section \<open>The reference\<close>

definition sip_compress :: "u64 \<Rightarrow> sip_state \<Rightarrow> sip_state" where
  "sip_compress m = (\<lambda>(v0, v1, v2, v3).
     case siphash_round (siphash_round (v0, v1, v2, v3 XOR m)) of (v0, v1, v2, v3) \<Rightarrow> (v0 XOR m, v1, v2, v3))"

text \<open>Padding: zeros up to the last byte of a word, then the length modulo 256.\<close>

definition sip_pad :: "u8 list \<Rightarrow> u8 list" where
  "sip_pad input = input @ replicate (7 - length input mod 8) 0 @ [word_of_nat (length input)]"

definition sip_words :: "u8 list \<Rightarrow> u64 list" where
  "sip_words bs = map (\<lambda>i. u64_of_bytes (take 8 (drop (8 * i) bs))) [0..<length bs div 8]"

definition sip_finish :: "sip_state \<Rightarrow> u64" where
  "sip_finish = (\<lambda>(v0, v1, v2, v3).
     case siphash_round (siphash_round (siphash_round (siphash_round (v0, v1, v2 XOR 0xff, v3)))) of (v0, v1, v2, v3) \<Rightarrow> v0 XOR v1 XOR v2 XOR v3)"

definition sip_reference :: "u64 \<Rightarrow> u64 \<Rightarrow> u8 list \<Rightarrow> u64" where
  "sip_reference key0 key1 input =
     sip_finish (fold sip_compress (sip_words (sip_pad input))
       (key0 XOR 0x736f6d6570736575, key1 XOR 0x646f72616e646f6d,
        key0 XOR 0x6c7967656e657261, key1 XOR 0x7465646279746573))"

lemma sip_words_append:
  assumes "length b = 8"
  shows "sip_words (b @ bs) = u64_of_bytes b # sip_words bs"
proof -
  have "(8 + length bs) div 8 = Suc (length bs div 8)" by simp
  then have "[0..<length (b @ bs) div 8] = 0 # map Suc [0..<length bs div 8]"
    using assms by (simp only: length_append map_Suc_upt upt_conv_Cons zero_less_Suc)
  then show ?thesis using assms by (simp add: sip_words_def)
qed

lemma siphash_loop_compress:
  "siphash_loop v (b @ bs) = siphash_loop (sip_compress (u64_of_bytes b) v) bs" if "length b = 8"
  using that
  by (subst siphash_loop.simps) (simp add: sip_compress_def Let_def split: prod.splits)

lemma siphash_loop_words:
  "siphash_loop v input = (fold sip_compress (sip_words (take (8 * (length input div 8)) input)) v,
     drop (8 * (length input div 8)) input)"
proof (induction input arbitrary: v rule: length_induct)
  case (1 input)
  show ?case
  proof (cases "length input < 8")
    case True
    then show ?thesis by (simp add: siphash_loop.simps sip_words_def)
  next
    case False
    define b bs where "b = take 8 input" and "bs = drop 8 input"
    have b: "length b = 8" "input = b @ bs" "length bs < length input" "length input div 8 = Suc (length bs div 8)"
      using False by (auto simp: b_def bs_def le_div_geq)
    with 1 have IH: "siphash_loop w bs = (fold sip_compress (sip_words (take (8 * (length bs div 8)) bs)) w,
        drop (8 * (length bs div 8)) bs)" for w by blast
    show ?thesis
      unfolding b(4) using b(1) IH by (simp add: b(2) siphash_loop_compress sip_words_append)
  qed
qed

lemma sip_words_split: "length xs = 8 * k \<Longrightarrow> sip_words (xs @ ys) = sip_words xs @ sip_words ys"
proof (induction k arbitrary: xs)
  case 0
  then show ?case by (simp add: sip_words_def)
next
  case (Suc k)
  define b bs where "b = take 8 xs" and "bs = drop 8 xs"
  have b: "length b = 8" "xs = b @ bs" "length bs = 8 * k"
    using Suc.prems by (auto simp: b_def bs_def)
  with Suc.IH [OF b(3)] show ?case by (simp add: sip_words_append)
qed

lemma SIPHASH_24_reference: "SIPHASH_24 key0 key1 input = sip_reference key0 key1 input"
proof -
  let ?k = "8 * (length input div 8)"
  define rest where "rest = drop ?k input"
  have rest: "length rest = length input mod 8" by (simp add: rest_def minus_mult_div_eq_mod)
  define block where "block = rest @ replicate (7 - length rest) 0 @ [word_of_nat (length input)]"
  have block: "length block = 8" "(rest @ replicate (8 - length rest) 0)[7 := word_of_nat (length input)] = block"
  proof -
    have "length rest \<le> 7" using rest by (simp add: less_Suc_eq_le [symmetric])
    then have "8 - length rest = Suc (7 - length rest)" by simp
    then have "replicate (8 - length rest) (0 :: u8) = replicate (7 - length rest) 0 @ [0]"
      by (simp only: replicate_append_same replicate_Suc)
    with \<open>length rest \<le> 7\<close>
    show "length block = 8" "(rest @ replicate (8 - length rest) 0)[7 := word_of_nat (length input)] = block"
      by (simp_all add: block_def list_update_append)
  qed
  have "sip_pad input = take ?k input @ block"
  proof -
    have "take ?k input @ rest = input" by (simp add: rest_def)
    then show ?thesis unfolding sip_pad_def block_def rest [symmetric] by (simp only: append_assoc [symmetric])
  qed
  moreover have "length (take ?k input) = 8 * (length input div 8)" by simp
  ultimately have words: "sip_words (sip_pad input) = sip_words (take ?k input) @ [u64_of_bytes block]"
    using sip_words_split sip_words_append [OF block(1), of "[]"] by (simp add: sip_words_def)
  define v where "v = fold sip_compress (sip_words (take ?k input))
    (key0 XOR 0x736f6d6570736575, key1 XOR 0x646f72616e646f6d,
     key0 XOR 0x6c7967656e657261, key1 XOR 0x7465646279746573)"
  obtain v0 v1 v2 v3 where v: "v = (v0, v1, v2, v3)" by (metis surj_pair)
  let ?m = "u64_of_bytes block"
  obtain a b c d where r: "siphash_round (siphash_round (v0, v1, v2, v3 XOR ?m)) = (a, b, c, d)" by (metis surj_pair)
  have "sip_reference key0 key1 input = sip_finish (sip_compress ?m v)"
    unfolding sip_reference_def words fold_append v_def by simp
  also have "sip_compress ?m v = (a XOR ?m, b, c, d)"
    unfolding v sip_compress_def prod.case r ..
  finally show ?thesis
    unfolding SIPHASH_24_def Let_def siphash_loop_words prod.case rest_def [symmetric] block(2) v_def [symmetric] v r
      sip_finish_def by simp
qed

text \<open>Evaluation of one round on numbers, argument first.\<close>

lemma siphash_round_numeral:
  "siphash_round (numeral a, numeral b, numeral c, numeral d) =
    (let v0 = numeral a + numeral b; v2 = numeral c + numeral d;
         v1 = CRYPTO_rotl_u64 (numeral b) 13 XOR v0; v3 = CRYPTO_rotl_u64 (numeral d) 16 XOR v2;
         v0 = CRYPTO_rotl_u64 v0 32; v2 = v2 + v1; v0 = v0 + v3
     in (v0, CRYPTO_rotl_u64 v1 17 XOR v2, CRYPTO_rotl_u64 v2 32, CRYPTO_rotl_u64 v3 21 XOR v0))"
  by (simp add: siphash_round_def Let_def)

lemma sip_compress_numeral:
  "sip_compress m (a, b, c, numeral d) =
     (case siphash_round (siphash_round (a, b, c, numeral d XOR m)) of (v0, v1, v2, v3) \<Rightarrow> (v0 XOR m, v1, v2, v3))"
  by (simp add: sip_compress_def)

lemma sip_finish_numeral:
  "sip_finish (a, b, numeral c, d) =
     (case siphash_round (siphash_round (siphash_round (siphash_round (a, b, numeral c XOR 0xff, d)))) of
      (v0, v1, v2, v3) \<Rightarrow> v0 XOR v1 XOR v2 XOR v3)"
  by (simp add: sip_finish_def)
text \<open>The example of the paper: fifteen bytes under the key of the bytes 0 to 15.\<close>

lemma SIPHASH_24_example:
  "SIPHASH_24 0x0706050403020100 0x0f0e0d0c0b0a0908 [0,1,2,3,4,5,6,7,8,9,10,11,12,13,14] = 0xa129ca6149be45e5"
proof -
  have "sip_words (sip_pad [0,1,2,3,4,5,6,7,8,9,10,11,12,13,14]) = [0x0706050403020100, 0x0f0e0d0c0b0a0908]"
    by (simp add: sip_pad_def sip_words_def upt_rec u64_of_bytes_def)
  then show ?thesis
    unfolding SIPHASH_24_reference
    by (simp add: sip_reference_def sip_finish_numeral sip_compress_numeral siphash_round_numeral CRYPTO_rotl_u64_def)
qed

section \<open>Properties\<close>

text \<open>
  \<open>SIPHASH_24\<close>, which pads only its last block and in place, computes SipHash-2-4 of the
  padded message.
\<close>

lemma SIPHASH_24_correct: "SIPHASH_24 key0 key1 input = sip_reference key0 key1 input"
  by (rule SIPHASH_24_reference)

end
