(* ===== verification/Buf.thy ===== *)
theory Buf
  imports Mem
begin

text \<open>
  The growable buffer \<open>BUF_MEM\<close> (\<open>crypto/buf/buf.c\<close>). The block it owns is a list of as many bytes
  as were allocated; what \<open>realloc\<close> adds is not initialised, here bytes \<open>junk\<close> of unknown value.
  The contents are the first \<open>length\<close> bytes. The string functions of the file are the ones of
  \<open>crypto/mem.c\<close> under other names.
\<close>

section \<open>Operations\<close>

record buf_mem =
  buf_length :: nat
  buf_data :: "u8 list"
  buf_max :: nat

definition BUF_MEM_new :: "(nat \<Rightarrow> bool) \<Rightarrow> buf_mem option" where
  "BUF_MEM_new sys = (if OPENSSL_malloc sys 24 then Some \<lparr>buf_length = 0, buf_data = [], buf_max = 0\<rparr> else None)"

definition BUF_MEM_reserve :: "(nat \<Rightarrow> bool) \<Rightarrow> (nat \<Rightarrow> u8) \<Rightarrow> nat \<Rightarrow> (buf_mem, unit) op" where
  "BUF_MEM_reserve sys junk cap buf =
     (if buf_max buf \<ge> cap then (Some (), buf)
      else let n = size_add cap 3
           in if n < cap then (None, buf)
              else let n = n div 3;
                       alloc_size = size_mul n 4
                   in if alloc_size div 4 \<noteq> n then (None, buf)
                      else case OPENSSL_realloc sys (if buf_data buf = [] then None else Some (buf_data buf)) alloc_size of
                        None \<Rightarrow> (None, buf)
                      | Some copied \<Rightarrow> (Some (), buf\<lparr>
                          buf_data := copied @ map junk [length copied..<alloc_size], buf_max := alloc_size\<rparr>))"

text \<open>The result is \<open>len\<close>, or 0 on failure, so that growing to 0 always looks like a failure.\<close>

definition BUF_MEM_grow :: "(nat \<Rightarrow> bool) \<Rightarrow> (nat \<Rightarrow> u8) \<Rightarrow> nat \<Rightarrow> buf_mem \<Rightarrow> nat \<times> buf_mem" where
  "BUF_MEM_grow sys junk len buf =
     (case BUF_MEM_reserve sys junk len buf of
        (None, buf) \<Rightarrow> (0, buf)
      | (Some _, buf) \<Rightarrow>
          let data = (if buf_length buf < len
                      then take (buf_length buf) (buf_data buf) @ replicate (len - buf_length buf) 0 @ drop len (buf_data buf)
                      else buf_data buf)
          in (len, buf\<lparr>buf_data := data, buf_length := len\<rparr>))"

definition BUF_MEM_grow_clean :: "(nat \<Rightarrow> bool) \<Rightarrow> (nat \<Rightarrow> u8) \<Rightarrow> nat \<Rightarrow> buf_mem \<Rightarrow> nat \<times> buf_mem" where
  "BUF_MEM_grow_clean sys junk len buf = BUF_MEM_grow sys junk len buf"

definition BUF_MEM_append :: "(nat \<Rightarrow> bool) \<Rightarrow> (nat \<Rightarrow> u8) \<Rightarrow> u8 list \<Rightarrow> (buf_mem, unit) op" where
  "BUF_MEM_append sys junk inp buf =
     (if length inp = 0 then (Some (), buf)
      else let new_len = size_add (buf_length buf) (length inp)
           in if new_len < length inp then (None, buf)
              else case BUF_MEM_reserve sys junk new_len buf of
                (None, buf) \<Rightarrow> (None, buf)
              | (Some _, buf) \<Rightarrow> (Some (), buf\<lparr>
                  buf_data := take (buf_length buf) (buf_data buf) @ inp @ drop new_len (buf_data buf),
                  buf_length := new_len\<rparr>))"

definition BUF_strdup :: "(nat \<Rightarrow> bool) \<Rightarrow> u8 list option \<Rightarrow> u8 list option" where
  "BUF_strdup sys str = OPENSSL_strdup sys str"

definition BUF_strnlen :: "u8 list \<Rightarrow> nat \<Rightarrow> nat" where
  "BUF_strnlen str max_len = OPENSSL_strnlen str max_len"

definition BUF_memdup :: "(nat \<Rightarrow> bool) \<Rightarrow> u8 list \<Rightarrow> nat \<Rightarrow> u8 list option" where
  "BUF_memdup sys data sz = OPENSSL_memdup sys data sz"

section \<open>The invariant and the contents\<close>

definition buf_ok :: "buf_mem \<Rightarrow> bool" where
  "buf_ok buf \<longleftrightarrow> buf_length buf \<le> buf_max buf \<and> length (buf_data buf) = buf_max buf \<and> buf_max buf < size_modulus"

definition buf_contents :: "buf_mem \<Rightarrow> u8 list" where
  "buf_contents buf = take (buf_length buf) (buf_data buf)"

lemma length_buf_contents: "buf_ok buf \<Longrightarrow> length (buf_contents buf) = buf_length buf"
  by (simp add: buf_ok_def buf_contents_def)

text \<open>The allocation is a third larger than what was asked for, and never smaller.\<close>

lemma alloc_size_enough:
  assumes "cap < size_modulus" and "\<not> size_add cap 3 < cap" and "size_mul (size_add cap 3 div 3) 4 div 4 = size_add cap 3 div 3"
  shows "size_mul (size_add cap 3 div 3) 4 = 4 * ((cap + 3) div 3)" and "cap \<le> 4 * ((cap + 3) div 3)"
proof -
  have add: "size_add cap 3 = cap + 3" using size_add_no_wrap(1) [OF assms(1) _ assms(2)] by simp
  have "size_mul 4 (size_add cap 3 div 3) div 4 = size_add cap 3 div 3"
    using assms(3) by (simp add: size_mul_def mult.commute)
  from size_mul_div_exact [OF _ this] add show "size_mul (size_add cap 3 div 3) 4 = 4 * ((cap + 3) div 3)"
    by (simp add: size_mul_def mult.commute)
  show "cap \<le> 4 * ((cap + 3) div 3)" by linarith
qed

lemma reserve_success:
  assumes "buf_ok buf" and "cap < size_modulus" and "BUF_MEM_reserve sys junk cap buf = (Some u, buf')"
  shows "buf_ok buf' \<and> cap \<le> buf_max buf' \<and> buf_length buf' = buf_length buf \<and>
    take (buf_max buf) (buf_data buf') = buf_data buf \<and> buf_max buf \<le> buf_max buf'"
proof (cases "buf_max buf \<ge> cap")
  case True
  with assms show ?thesis by (auto simp: BUF_MEM_reserve_def buf_ok_def)
next
  case False
  define sz where "sz = size_mul (size_add cap 3 div 3) 4"
  have ok: "\<not> size_add cap 3 < cap" "sz div 4 = size_add cap 3 div 3"
    using assms(3) False by (auto simp: BUF_MEM_reserve_def sz_def Let_def split: if_splits)
  have sz: "cap \<le> sz" "sz < size_modulus"
    using alloc_size_enough [OF assms(2) ok(1)] ok(2) size_mul_less [of "size_add cap 3 div 3" 4] by (simp_all add: sz_def)
  have "OPENSSL_malloc sys sz" and buf': "buf' = buf\<lparr>buf_data := buf_data buf @ map junk [length (buf_data buf)..<sz], buf_max := sz\<rparr>"
    using assms(1,3) False ok sz
    by (auto simp: BUF_MEM_reserve_def Let_def OPENSSL_realloc_def buf_ok_def simp flip: sz_def split: if_splits)
  then show ?thesis using assms(1) False sz by (auto simp: buf_ok_def)
qed

lemma reserve_failure: "BUF_MEM_reserve sys junk cap buf = (None, buf') \<Longrightarrow> buf' = buf"
  by (auto simp: BUF_MEM_reserve_def Let_def split: if_splits option.splits)

lemma reserve_contents:
  assumes "buf_ok buf" and "cap < size_modulus" and "BUF_MEM_reserve sys junk cap buf = (r, buf')"
  shows "buf_ok buf' \<and> buf_contents buf' = buf_contents buf"
proof (cases r)
  case None
  with reserve_failure assms show ?thesis by blast
next
  case (Some u)
  with assms(3) have "BUF_MEM_reserve sys junk cap buf = (Some u, buf')" by simp
  note res = reserve_success [OF assms(1,2) this]
  have "take (buf_length buf) (take (buf_max buf) (buf_data buf')) = take (buf_length buf) (buf_data buf')"
    using assms(1) by (simp add: buf_ok_def min_def)
  with res show ?thesis by (simp add: buf_contents_def)
qed

lemma append_success:
  assumes "buf_ok buf" and "length inp < size_modulus" and "BUF_MEM_append sys junk inp buf = (Some u, buf')"
  shows "buf_ok buf' \<and> buf_contents buf' = buf_contents buf @ inp"
proof (cases "inp = []")
  case True
  with assms show ?thesis by (simp add: BUF_MEM_append_def)
next
  case False
  let ?n = "size_add (buf_length buf) (length inp)"
  obtain v mid where mid: "BUF_MEM_reserve sys junk ?n buf = (Some v, mid)" "\<not> ?n < length inp"
    "buf' = mid\<lparr>buf_data := take (buf_length mid) (buf_data mid) @ inp @ drop ?n (buf_data mid), buf_length := ?n\<rparr>"
    using assms(3) False by (auto simp: BUF_MEM_append_def Let_def split: if_splits prod.splits option.splits)
  have n: "?n = buf_length buf + length inp"
    using size_add_no_wrap(1) [of "length inp" "buf_length buf"] assms(1,2) mid(2)
    by (simp add: buf_ok_def size_add_def add.commute)
  have res: "buf_ok mid" "?n \<le> buf_max mid" "buf_length mid = buf_length buf" "buf_contents mid = buf_contents buf"
    using reserve_success [OF assms(1) size_add_less mid(1)] reserve_contents [OF assms(1) size_add_less mid(1)] by auto
  have t: "take (buf_length mid) (buf_data mid) = buf_contents buf" and len: "length (buf_contents buf) = buf_length buf"
    using res(4) length_buf_contents [OF assms(1)] by (simp_all add: buf_contents_def)
  have "buf_contents buf' = buf_contents buf @ inp"
    unfolding mid(3) t using n len by (simp add: buf_contents_def [of "buf_data_update _ _"] buf_contents_def [of "buf_length_update _ _"])
  moreover have "buf_ok buf'"
    unfolding mid(3) t using n len res(1,2) by (simp add: buf_ok_def)
  ultimately show ?thesis by simp
qed

lemma grow_contents:
  assumes "buf_ok buf" and "len < size_modulus" and "BUF_MEM_grow sys junk len buf = (r, buf')"
  shows "buf_ok buf' \<and> (r = len \<and> buf_contents buf' = take len (buf_contents buf @ replicate (len - buf_length buf) 0)
    \<or> r = 0 \<and> len \<noteq> 0 \<and> buf' = buf)"
proof (cases "BUF_MEM_reserve sys junk len buf")
  case (Pair q mid)
  show ?thesis
  proof (cases q)
    case None
    moreover have "len \<noteq> 0" using None Pair by (intro notI) (simp add: BUF_MEM_reserve_def)
    ultimately show ?thesis using Pair assms reserve_failure [of sys junk len buf mid] by (auto simp: BUF_MEM_grow_def)
  next
    case (Some v)
    then have "BUF_MEM_reserve sys junk len buf = (Some v, mid)" using Pair by simp
    note res = reserve_success [OF assms(1,2) this] reserve_contents [OF assms(1,2) this]
    have buf': "r = len" "buf_length buf' = len" "buf_max buf' = buf_max mid"
      "buf_data buf' = (if buf_length mid < len
         then take (buf_length mid) (buf_data mid) @ replicate (len - buf_length mid) 0 @ drop len (buf_data mid) else buf_data mid)"
      using assms(3) by (auto simp: BUF_MEM_grow_def Pair Some Let_def)
    have t: "take (buf_length mid) (buf_data mid) = buf_contents buf" and len: "length (buf_contents buf) = buf_length buf"
      using res length_buf_contents [OF assms(1)] by (simp_all add: buf_contents_def)
    show ?thesis
    proof (cases "buf_length buf < len")
      case True
      with res buf' len show ?thesis unfolding t by (simp add: buf_ok_def buf_contents_def [of buf'])
    next
      case False
      then have "take len (buf_data mid) = take len (buf_contents buf)"
        using res by (metis buf_contents_def min_absorb1 not_less take_take)
      with False res buf' show ?thesis by (auto simp: buf_ok_def buf_contents_def [of buf'])
    qed
  qed
qed

section \<open>Sequences of calls\<close>

datatype buf_call = Reserve nat | Grow nat | Append "u8 list"

text \<open>
  What a call that succeeds means, and whether it does: \<open>BUF_MEM_grow\<close> has succeeded when it returns the length asked
  for. Asked for the length zero it always succeeds and returns zero, which is also the value for an error.
\<close>

fun buf_meaning :: "buf_call \<Rightarrow> u8 list \<Rightarrow> u8 list" where
  "buf_meaning (Reserve cap) bs = bs"
| "buf_meaning (Grow len) bs = take len (bs @ replicate (len - length bs) 0)"
| "buf_meaning (Append inp) bs = bs @ inp"

fun do_buf_call :: "(nat \<Rightarrow> bool) \<Rightarrow> (nat \<Rightarrow> u8) \<Rightarrow> buf_call \<Rightarrow> buf_mem \<Rightarrow> bool \<times> buf_mem" where
  "do_buf_call sys junk (Reserve cap) buf = (case BUF_MEM_reserve sys junk cap buf of (r, buf) \<Rightarrow> (r \<noteq> None, buf))"
| "do_buf_call sys junk (Grow len) buf = (case BUF_MEM_grow sys junk len buf of (r, buf) \<Rightarrow> (r = len, buf))"
| "do_buf_call sys junk (Append inp) buf = (case BUF_MEM_append sys junk inp buf of (r, buf) \<Rightarrow> (r \<noteq> None, buf))"

fun call_fits :: "buf_call \<Rightarrow> bool" where
  "call_fits (Reserve cap) \<longleftrightarrow> cap < size_modulus"
| "call_fits (Grow len) \<longleftrightarrow> len < size_modulus"
| "call_fits (Append inp) \<longleftrightarrow> length inp < size_modulus"

fun do_buf_calls :: "(nat \<Rightarrow> bool) \<Rightarrow> (nat \<Rightarrow> u8) \<Rightarrow> buf_call list \<Rightarrow> buf_mem \<Rightarrow> bool list \<times> buf_mem" where
  "do_buf_calls sys junk [] buf = ([], buf)"
| "do_buf_calls sys junk (c # cs) buf = (case do_buf_call sys junk c buf of (r, buf) \<Rightarrow>
     case do_buf_calls sys junk cs buf of (rs, buf) \<Rightarrow> (r # rs, buf))"

lemma append_failure: "BUF_MEM_append sys junk inp buf = (None, buf') \<Longrightarrow> buf' = buf"
  by (auto simp: BUF_MEM_append_def Let_def dest: reserve_failure split: if_splits option.splits prod.splits)

lemma buf_call_refines:
  assumes "buf_ok buf" and "call_fits c" and "do_buf_call sys junk c buf = (r, buf')"
  shows "buf_ok buf' \<and> buf_contents buf' = (if r then buf_meaning c (buf_contents buf) else buf_contents buf)"
proof (cases c)
  case (Reserve cap)
  with assms reserve_contents [OF assms(1), of cap sys junk] show ?thesis
    by (auto split: prod.splits)
next
  case (Grow len)
  obtain v where v: "BUF_MEM_grow sys junk len buf = (v, buf')" "r = (v = len)"
    using assms(3) Grow by (auto split: prod.splits)
  with grow_contents [OF assms(1) _ v(1)] assms(2) Grow show ?thesis
    by (auto simp: length_buf_contents [OF assms(1)] assms(1))
next
  case (Append inp)
  obtain v where v: "BUF_MEM_append sys junk inp buf = (v, buf')" "r = (v \<noteq> None)"
    using assms(3) Append by (auto split: prod.splits)
  show ?thesis
  proof (cases v)
    case None
    with v append_failure [of sys junk inp buf buf'] assms(1) show ?thesis by simp
  next
    case (Some u)
    with append_success [OF assms(1)] v assms(2) Append show ?thesis by auto
  qed
qed

text \<open>Below an eighth of the address space and with memory to spare nothing fails.\<close>

lemma reserve_succeeds:
  assumes "cap < 2 ^ 61"
  shows "\<exists>buf'. BUF_MEM_reserve (\<lambda>_. True) junk cap buf = (Some (), buf')"
proof -
  have "size_add cap 3 = cap + 3" using assms by (simp add: size_simps)
  moreover have "(cap + 3) div 3 * 4 \<le> 2 * (cap + 3)"
  proof -
    obtain n where n: "n = (cap + 3) div 3" by simp
    have "3 * n \<le> cap + 3" "n \<le> cap + 3"
      unfolding n by (rule times_div_less_eq_dividend, rule div_le_dividend)
    then show ?thesis unfolding n [symmetric] by simp
  qed
  moreover from this have "size_mul ((cap + 3) div 3) 4 = (cap + 3) div 3 * 4" "(cap + 3) div 3 * 4 < 2 ^ 63"
    using assms by (auto intro: size_mul_exact)
  ultimately show ?thesis
    by (simp add: BUF_MEM_reserve_def Let_def OPENSSL_realloc_def)
qed

section \<open>Properties\<close>

text \<open>
  Growing to the length zero empties the buffer and returns zero, the value by which the header says errors are
  told: a caller that believes it loses the contents.
\<close>

lemma BUF_MEM_grow_zero:
  "BUF_MEM_grow sys junk 0 buf = (0, buf\<lparr>buf_length := 0\<rparr>)"
  by (simp add: BUF_MEM_grow_def BUF_MEM_reserve_def)

text \<open>
  C39: The buffer refines a list of bytes: whatever calls of \<open>BUF_MEM_reserve\<close>, \<open>BUF_MEM_grow\<close> and \<open>BUF_MEM_append\<close> are
  made, growing to zero included, and however the allocator behaves, the contents are those of the calls that
  succeeded, where growing succeeds exactly if it returns the length asked for. Growing fills with zeros even over bytes
  that were cut off before, a call that fails changes nothing, and the length stays within the block.
\<close>

theorem buf_refines_list:
  assumes "BUF_MEM_new sys = Some buf" and "list_all call_fits cs" and "do_buf_calls sys junk cs buf = (rs, buf')"
  shows "buf_ok buf' \<and> buf_contents buf' = fold (\<lambda>(c, r) bs. if r then buf_meaning c bs else bs) (zip cs rs) []"
proof -
  have gen: "buf_ok b' \<and> buf_contents b' = fold (\<lambda>(c, r) bs. if r then buf_meaning c bs else bs) (zip cs rs) (buf_contents b)"
    if "buf_ok b" "list_all call_fits cs" "do_buf_calls sys junk cs b = (rs, b')" for b b' cs rs
    using that
  proof (induction cs arbitrary: b rs)
    case (Cons c cs)
    obtain r b1 where step: "do_buf_call sys junk c b = (r, b1)" by (metis surj_pair)
    obtain rs' where rs': "do_buf_calls sys junk cs b1 = (rs', b')" "rs = r # rs'"
      using Cons.prems(3) step by (auto split: prod.splits)
    have "buf_ok b1 \<and> buf_contents b1 = (if r then buf_meaning c (buf_contents b) else buf_contents b)"
      using buf_call_refines [OF Cons.prems(1) _ step] Cons.prems(2) by simp
    with Cons.IH [of b1 rs'] Cons.prems(2) rs' show ?case by simp
  qed simp
  have "buf = \<lparr>buf_length = 0, buf_data = [], buf_max = 0\<rparr>"
    using assms(1) by (simp add: BUF_MEM_new_def split: if_splits)
  then have "buf_ok buf" "buf_contents buf = []" by (simp_all add: buf_ok_def buf_contents_def)
  with gen [of buf cs rs buf'] assms(2,3) show ?thesis by simp
qed

theorem buf_refines_list_witness:
  "buf_contents (snd (do_buf_calls (\<lambda>_. True) (\<lambda>_. 0x55) [Append [1, 2, 3], Grow 0, Append [1], Grow 3]
     (the (BUF_MEM_new (\<lambda>_. True))))) = [1, 0, 0]"
proof -
  have "fst (do_buf_calls (\<lambda>_. True) (\<lambda>_. 0x55) [Append [1, 2, 3], Grow 0, Append [1], Grow 3] (the (BUF_MEM_new (\<lambda>_. True)))) = [True, True, True, True]"
    by (simp add: BUF_MEM_new_def BUF_MEM_append_def BUF_MEM_grow_def BUF_MEM_reserve_def size_add_def size_mul_def
        OPENSSL_realloc_def Let_def)
  with buf_refines_list [OF _ _ surjective_pairing, of "\<lambda>_. True" "the (BUF_MEM_new (\<lambda>_. True))"
      "[Append [1, 2, 3], Grow 0, Append [1], Grow 3]" "\<lambda>_. 0x55"]
  have "buf_contents (snd (do_buf_calls (\<lambda>_. True) (\<lambda>_. 0x55) [Append [1, 2, 3], Grow 0, Append [1], Grow 3]
     (the (BUF_MEM_new (\<lambda>_. True))))) = 1 # replicate 2 0" by (simp add: BUF_MEM_new_def)
  then show ?thesis by (simp only: numeral_2_eq_2 replicate.simps)
qed

end
