(* ===== verification/Pb_Stream.thy ===== *)
theory Pb_Stream
  imports Prelude
begin

text \<open>
  The streams of nanopb and the wire format of single values (\<open>pb_encode.c\<close>, \<open>pb_decode.c\<close>).
  An output stream either writes to a buffer (the callback \<open>buf_write\<close>), and then holds the bytes
  written, or has no callback and only counts. An input stream (the callback \<open>buf_read\<close>) holds the
  memory from its pointer on, and how many bytes of it may be read; a substream sees the
  memory beyond its limit without being allowed to read it. Streams over callbacks of the
  user are not modelled. \<open>pb_size_t\<close> and \<open>uint_fast8_t\<close> have 32 and 8 bits, as the build sets
  (\<open>PB_FIELD_32BIT\<close>) and as the targets have it.
\<close>

section \<open>Output\<close>

record pb_ostream =
  os_state :: "u8 list option"
  os_max_size :: nat
  os_bytes_written :: nat

definition PB_OSTREAM_SIZING :: pb_ostream where
  "PB_OSTREAM_SIZING = \<lparr>os_state = None, os_max_size = 0, os_bytes_written = 0\<rparr>"

definition pb_ostream_from_buffer :: "nat \<Rightarrow> pb_ostream" where
  "pb_ostream_from_buffer bufsize = \<lparr>os_state = Some [], os_max_size = bufsize, os_bytes_written = 0\<rparr>"

definition buf_write :: "u8 list \<Rightarrow> nat \<Rightarrow> pb_ostream \<Rightarrow> pb_ostream" where
  "buf_write buf count stream = stream\<lparr>os_state := map_option (\<lambda>out. out @ take count buf) (os_state stream)\<rparr>"

definition pb_write :: "u8 list \<Rightarrow> nat \<Rightarrow> (pb_ostream, unit) op" where
  "pb_write buf count stream =
     (if count > 0 \<and> os_state stream \<noteq> None then
        if size_add (os_bytes_written stream) count < os_bytes_written stream
           \<or> size_add (os_bytes_written stream) count > os_max_size stream
        then (None, stream)
        else (let stream = buf_write buf count stream
              in (Some (), stream\<lparr>os_bytes_written := size_add (os_bytes_written stream) count\<rparr>))
      else (Some (), stream\<lparr>os_bytes_written := size_add (os_bytes_written stream) count\<rparr>))"

text \<open>The loop over groups of seven bits; the top bit of the last byte is cleared afterwards.\<close>

lemma drop_bit_7_less: "v \<noteq> 0 \<Longrightarrow> unat (drop_bit 7 v) < unat v" for v :: u64
proof -
  assume "v \<noteq> 0"
  then have "0 < unat v" by (simp add: unat_gt_0)
  moreover have "unat (drop_bit 7 v) = unat v div 128"
    by (simp only: unat_drop_bit_eq) (simp add: drop_bit_eq_div)
  ultimately show ?thesis by simp
qed

function varint_loop :: "u64 \<Rightarrow> u8 list" where
  "varint_loop v = (if v = 0 then [] else (ucast (v AND 0x7f) OR 0x80) # varint_loop (drop_bit 7 v))"
  by pat_completeness auto
termination by (relation "measure unat") (simp_all add: drop_bit_7_less)

declare varint_loop.simps [simp del]

definition pb_encode_varint :: "u64 \<Rightarrow> (pb_ostream, unit) op" where
  "pb_encode_varint v =
     (if v \<le> 0x7f then pb_write [ucast v] 1
      else let buffer = varint_loop v; i = length buffer;
               buffer = buffer[i - 1 := buffer ! (i - 1) AND 0x7f]
           in pb_write buffer i)"

text \<open>A signed value is its bit pattern; \<open>msb\<close> is the sign.\<close>

definition pb_encode_svarint :: "u64 \<Rightarrow> (pb_ostream, unit) op" where
  "pb_encode_svarint v =
     (let zigzagged = (if sint v < 0 then NOT (push_bit 1 v) else push_bit 1 v) in pb_encode_varint zigzagged)"

definition pb_encode_fixed32 :: "u32 \<Rightarrow> (pb_ostream, unit) op" where
  "pb_encode_fixed32 val = pb_write
     [ucast (val AND 0xff), ucast (drop_bit 8 val AND 0xff), ucast (drop_bit 16 val AND 0xff),
      ucast (drop_bit 24 val AND 0xff)] 4"

definition pb_encode_fixed64 :: "u64 \<Rightarrow> (pb_ostream, unit) op" where
  "pb_encode_fixed64 val = pb_write
     [ucast (val AND 0xff), ucast (drop_bit 8 val AND 0xff), ucast (drop_bit 16 val AND 0xff),
      ucast (drop_bit 24 val AND 0xff), ucast (drop_bit 32 val AND 0xff), ucast (drop_bit 40 val AND 0xff),
      ucast (drop_bit 48 val AND 0xff), ucast (drop_bit 56 val AND 0xff)] 8"

datatype pb_wire_type = PB_WT_VARINT | PB_WT_64BIT | PB_WT_STRING | PB_WT_32BIT | PB_WT_OTHER u32

definition wire_number :: "pb_wire_type \<Rightarrow> u32" where
  "wire_number wt = (case wt of PB_WT_VARINT \<Rightarrow> 0 | PB_WT_64BIT \<Rightarrow> 1 | PB_WT_STRING \<Rightarrow> 2 | PB_WT_32BIT \<Rightarrow> 5
     | PB_WT_OTHER n \<Rightarrow> n)"

definition wire_type_of :: "u32 \<Rightarrow> pb_wire_type" where
  "wire_type_of n = (if n = 0 then PB_WT_VARINT else if n = 1 then PB_WT_64BIT else if n = 2 then PB_WT_STRING
     else if n = 5 then PB_WT_32BIT else PB_WT_OTHER n)"

definition pb_encode_tag :: "pb_wire_type \<Rightarrow> u32 \<Rightarrow> (pb_ostream, unit) op" where
  "pb_encode_tag wiretype field_number =
     pb_encode_varint (push_bit 3 (ucast field_number) OR ucast (wire_number wiretype))"

definition pb_encode_string :: "u8 list \<Rightarrow> nat \<Rightarrow> (pb_ostream, unit) op" where
  "pb_encode_string buffer sz = pbind (pb_encode_varint (word_of_nat sz)) (\<lambda>_. pb_write buffer sz)"

section \<open>Input\<close>

record pb_istream =
  is_state :: "u8 list"
  bytes_left :: nat

definition pb_istream_from_buffer :: "u8 list \<Rightarrow> nat \<Rightarrow> pb_istream" where
  "pb_istream_from_buffer buf bufsize = \<lparr>is_state = buf, bytes_left = bufsize\<rparr>"

definition buf_read :: "nat \<Rightarrow> pb_istream \<Rightarrow> u8 list \<times> pb_istream" where
  "buf_read count stream = (take count (is_state stream), stream\<lparr>is_state := drop count (is_state stream)\<rparr>)"

definition pb_read :: "nat \<Rightarrow> (pb_istream, u8 list) op" where
  "pb_read count stream =
     (if count = 0 then (Some [], stream)
      else if bytes_left stream < count then (None, stream)
      else case buf_read count stream of (buf, stream) \<Rightarrow>
        (Some buf, stream\<lparr>bytes_left := bytes_left stream - count\<rparr>))"

definition pb_readbyte :: "(pb_istream, u8) op" where
  "pb_readbyte stream =
     (if bytes_left stream = 0 then (None, stream)
      else case buf_read 1 stream of (buf, stream) \<Rightarrow>
        (Some (hd buf), stream\<lparr>bytes_left := bytes_left stream - 1\<rparr>))"

lemma pb_readbyte_left:
  "pb_readbyte stream = (Some b, stream') \<Longrightarrow> bytes_left stream' < bytes_left stream"
  by (auto simp: pb_readbyte_def buf_read_def split: if_splits)

lemma pb_read_left:
  "pb_read count stream = (Some bs, stream') \<Longrightarrow> 0 < count \<Longrightarrow> bytes_left stream' < bytes_left stream"
  by (auto simp: pb_read_def buf_read_def split: if_splits)

text \<open>
  The loop for several bytes. \<open>bitpos\<close> is a \<open>uint_fast8_t\<close> and wraps around at 256; the
  last byte is returned for the check after the loop.
\<close>

function varint32_loop :: "u8 \<Rightarrow> u32 \<Rightarrow> (pb_istream, u32 \<times> u8 \<times> u8) op" where
  "varint32_loop bitpos result stream =
     (case pb_readbyte stream of
        (None, stream) \<Rightarrow> (None, stream)
      | (Some byte, stream) \<Rightarrow>
          if bitpos \<ge> 32 \<and>
             (let sign_extension = (if bitpos < 63 then 0xff else 0x01)
              in byte AND 0x7f \<noteq> 0 \<and> (drop_bit 31 result = 0 \<or> byte \<noteq> sign_extension))
          then (None, stream)
          else let result = (if bitpos \<ge> 32 then result else result OR push_bit (unat bitpos) (ucast (byte AND 0x7f)));
                   bitpos = bitpos + 7
               in if byte AND 0x80 \<noteq> 0 then varint32_loop bitpos result stream
                  else (Some (result, bitpos, byte), stream))"
  by pat_completeness auto
termination
  by (relation "measure (\<lambda>(bitpos, result, stream). bytes_left stream)") (auto dest!: pb_readbyte_left [OF sym])

declare varint32_loop.simps [simp del]

text \<open>The second result is \<open>*eof\<close>, which is set when not even the first byte can be read.\<close>

definition pb_decode_varint32_eof :: "pb_istream \<Rightarrow> u32 option \<times> bool \<times> pb_istream" where
  "pb_decode_varint32_eof stream =
     (case pb_readbyte stream of
        (None, stream) \<Rightarrow> (None, bytes_left stream = 0, stream)
      | (Some byte, stream) \<Rightarrow>
          if byte AND 0x80 = 0 then (Some (ucast byte), False, stream)
          else case varint32_loop 7 (ucast (byte AND 0x7f)) stream of
            (None, stream) \<Rightarrow> (None, False, stream)
          | (Some (result, bitpos, byte), stream) \<Rightarrow>
              if bitpos = 35 \<and> byte AND 0x70 \<noteq> 0 then (None, False, stream)
              else (Some result, False, stream))"

definition pb_decode_varint32 :: "(pb_istream, u32) op" where
  "pb_decode_varint32 stream = (case pb_decode_varint32_eof stream of (r, eof, stream) \<Rightarrow> (r, stream))"

function varint64_loop :: "u8 \<Rightarrow> u64 \<Rightarrow> (pb_istream, u64) op" where
  "varint64_loop bitpos result stream =
     (if bitpos \<ge> 64 then (None, stream)
      else case pb_readbyte stream of
        (None, stream) \<Rightarrow> (None, stream)
      | (Some byte, stream) \<Rightarrow>
          let result = result OR push_bit (unat bitpos) (ucast (byte AND 0x7f));
              bitpos = bitpos + 7
          in if byte AND 0x80 \<noteq> 0 then varint64_loop bitpos result stream else (Some result, stream))"
  by pat_completeness auto
termination
  by (relation "measure (\<lambda>(bitpos, result, stream). bytes_left stream)") (auto dest!: pb_readbyte_left [OF sym])

declare varint64_loop.simps [simp del]

definition pb_decode_varint :: "(pb_istream, u64) op" where
  "pb_decode_varint = varint64_loop 0 0"

definition pb_decode_svarint :: "(pb_istream, u64) op" where
  "pb_decode_svarint = pbind pb_decode_varint (\<lambda>v.
     pret (if v AND 1 \<noteq> 0 then NOT (drop_bit 1 v) else drop_bit 1 v))"

definition pb_decode_fixed32 :: "(pb_istream, u32) op" where
  "pb_decode_fixed32 = pbind (pb_read 4) (\<lambda>bytes. pret
     (ucast (bytes ! 0) OR push_bit 8 (ucast (bytes ! 1)) OR push_bit 16 (ucast (bytes ! 2)) OR
      push_bit 24 (ucast (bytes ! 3))))"

definition pb_decode_fixed64 :: "(pb_istream, u64) op" where
  "pb_decode_fixed64 = pbind (pb_read 8) (\<lambda>bytes. pret
     (ucast (bytes ! 0) OR push_bit 8 (ucast (bytes ! 1)) OR push_bit 16 (ucast (bytes ! 2)) OR
      push_bit 24 (ucast (bytes ! 3)) OR push_bit 32 (ucast (bytes ! 4)) OR push_bit 40 (ucast (bytes ! 5)) OR
      push_bit 48 (ucast (bytes ! 6)) OR push_bit 56 (ucast (bytes ! 7))))"

function pb_skip_varint :: "(pb_istream, unit) op" where
  "pb_skip_varint stream =
     (case pb_read 1 stream of
        (None, stream) \<Rightarrow> (None, stream)
      | (Some buf, stream) \<Rightarrow> if hd buf AND 0x80 \<noteq> 0 then pb_skip_varint stream else (Some (), stream))"
  by pat_completeness auto
termination
  by (relation "measure bytes_left") (auto dest!: pb_read_left [OF sym])

declare pb_skip_varint.simps [simp del]

definition pb_skip_string :: "(pb_istream, unit) op" where
  "pb_skip_string = pbind pb_decode_varint32 (\<lambda>length. pmap (\<lambda>_. ()) (pb_read (unat length)))"

text \<open>\<open>None\<close> is failure; the boolean is \<open>*eof\<close>.\<close>

definition pb_decode_tag :: "pb_istream \<Rightarrow> (pb_wire_type \<times> u32) option \<times> bool \<times> pb_istream" where
  "pb_decode_tag stream =
     (case pb_decode_varint32_eof stream of
        (None, eof, stream) \<Rightarrow> (None, eof, stream)
      | (Some temp, eof, stream) \<Rightarrow>
          if temp = 0 then (None, True, stream)
          else (Some (wire_type_of (temp AND 7), drop_bit 3 temp), False, stream))"

definition pb_skip_field :: "pb_wire_type \<Rightarrow> (pb_istream, unit) op" where
  "pb_skip_field wire_type =
     (case wire_type of
        PB_WT_VARINT \<Rightarrow> pb_skip_varint
      | PB_WT_64BIT \<Rightarrow> pmap (\<lambda>_. ()) (pb_read 8)
      | PB_WT_STRING \<Rightarrow> pb_skip_string
      | PB_WT_32BIT \<Rightarrow> pmap (\<lambda>_. ()) (pb_read 4)
      | PB_WT_OTHER n \<Rightarrow> pfail)"

text \<open>At most \<open>max_size\<close> bytes of a varint; \<open>buf\<close> holds those read so far.\<close>

function raw_varint_loop :: "nat \<Rightarrow> u8 list \<Rightarrow> (pb_istream, u8 list) op" where
  "raw_varint_loop max_size buf stream =
     (if length buf + 1 > max_size then (None, stream)
      else case pb_read 1 stream of
        (None, stream) \<Rightarrow> (None, stream)
      | (Some b, stream) \<Rightarrow>
          if hd b AND 0x80 \<noteq> 0 then raw_varint_loop max_size (buf @ b) stream else (Some (buf @ b), stream))"
  by pat_completeness auto
termination
  by (relation "measure (\<lambda>(max_size, buf, stream). bytes_left stream)") (auto dest!: pb_read_left [OF sym])

declare raw_varint_loop.simps [simp del]

definition read_raw_value :: "pb_wire_type \<Rightarrow> nat \<Rightarrow> (pb_istream, u8 list) op" where
  "read_raw_value wire_type max_size =
     (case wire_type of
        PB_WT_VARINT \<Rightarrow> raw_varint_loop max_size []
      | PB_WT_64BIT \<Rightarrow> pb_read 8
      | PB_WT_32BIT \<Rightarrow> pb_read 4
      | _ \<Rightarrow> pfail)"

text \<open>The substream, and the parent that must not be read until the substream is closed.\<close>

definition pb_make_string_substream :: "(pb_istream, pb_istream) op" where
  "pb_make_string_substream = pbind pb_decode_varint32 (\<lambda>sz stream.
     if bytes_left stream < unat sz then (None, stream)
     else (Some (stream\<lparr>bytes_left := unat sz\<rparr>), stream\<lparr>bytes_left := bytes_left stream - unat sz\<rparr>))"

definition pb_close_string_substream :: "pb_istream \<Rightarrow> (pb_istream, unit) op" where
  "pb_close_string_substream substream stream =
     (if bytes_left substream \<noteq> 0 then
        case pb_read (bytes_left substream) substream of
          (None, substream) \<Rightarrow> (None, stream)
        | (Some _, substream) \<Rightarrow> (Some (), stream\<lparr>is_state := is_state substream\<rparr>)
      else (Some (), stream\<lparr>is_state := is_state substream\<rparr>))"

section \<open>What a call writes and what a call reads\<close>

text \<open>
  \<open>emits m bs\<close>: the call \<open>m\<close> succeeds exactly when the stream has room for \<open>bs\<close>, and then has
  written \<open>bs\<close>. \<open>consumes m bs x\<close>: on input that starts with \<open>bs\<close> the call \<open>m\<close> returns \<open>x\<close> and
  stops behind \<open>bs\<close>, whatever follows in the stream or behind its limit.
\<close>

definition os_ok :: "pb_ostream \<Rightarrow> bool" where
  "os_ok st \<longleftrightarrow> os_bytes_written st < size_modulus \<and> os_max_size st < size_modulus \<and>
     (case os_state st of None \<Rightarrow> True | Some out \<Rightarrow> length out = os_bytes_written st \<and> length out \<le> os_max_size st)"

definition os_room :: "pb_ostream \<Rightarrow> nat \<Rightarrow> bool" where
  "os_room st n \<longleftrightarrow> os_state st = None \<or> os_bytes_written st + n \<le> os_max_size st"

definition os_put :: "pb_ostream \<Rightarrow> u8 list \<Rightarrow> pb_ostream" where
  "os_put st bs = st\<lparr>os_state := map_option (\<lambda>out. out @ bs) (os_state st),
     os_bytes_written := size_add (os_bytes_written st) (length bs)\<rparr>"

definition emits :: "(pb_ostream, unit) op \<Rightarrow> u8 list \<Rightarrow> bool" where
  "emits m bs \<longleftrightarrow> (\<forall>st. os_ok st \<longrightarrow> (if os_room st (length bs) then m st = (Some (), os_put st bs) else fst (m st) = None))"

definition feed :: "u8 list \<Rightarrow> u8 list \<Rightarrow> nat \<Rightarrow> pb_istream" where
  "feed bs s n = \<lparr>is_state = bs @ s, bytes_left = length bs + n\<rparr>"

definition consumes :: "(pb_istream, 'a) op \<Rightarrow> u8 list \<Rightarrow> 'a \<Rightarrow> bool" where
  "consumes m bs x \<longleftrightarrow> (\<forall>s n. m (feed bs s n) = (Some x, feed [] s n))"

lemma os_put_ok: "os_ok st \<Longrightarrow> os_room st (length bs) \<Longrightarrow> os_ok (os_put st bs)"
  using size_add_less [of "os_bytes_written st" "length bs"]
  by (auto simp: os_ok_def os_room_def os_put_def size_simps split: option.splits)

lemma os_put_append: "os_put (os_put st as) bs = os_put st (as @ bs)"
  by (cases "os_state st") (simp_all add: os_put_def size_add_def mod_simps add.assoc)

lemma os_room_append: "os_ok st \<Longrightarrow> os_room st (length as) \<Longrightarrow> os_room (os_put st as) n \<longleftrightarrow> os_room st (length as + n)"
  by (auto simp: os_room_def os_put_def os_ok_def size_simps)

lemma os_put_Nil [simp]: "os_ok st \<Longrightarrow> os_put st [] = st"
  by (cases st) (auto simp: os_put_def os_ok_def size_simps split: option.splits)

lemma emits_pret [simp]: "emits (pret ()) []"
  by (auto simp: emits_def os_room_def os_ok_def split: option.splits)

lemma emits_bind:
  assumes "emits m as" and "emits m' bs"
  shows "emits (pbind m (\<lambda>_. m')) (as @ bs)"
  unfolding emits_def
proof (intro allI impI)
  fix st assume ok: "os_ok st"
  show "if os_room st (length (as @ bs)) then pbind m (\<lambda>_. m') st = (Some (), os_put st (as @ bs))
    else fst (pbind m (\<lambda>_. m') st) = None"
  proof (cases "os_room st (length as)")
    case True
    then have m: "m st = (Some (), os_put st as)" using assms(1) ok by (simp add: emits_def)
    have "if os_room (os_put st as) (length bs) then m' (os_put st as) = (Some (), os_put (os_put st as) bs)
        else fst (m' (os_put st as)) = None"
      using assms(2) os_put_ok [OF ok True] by (simp add: emits_def)
    then show ?thesis using m os_room_append [OF ok True, of "length bs"] by (simp add: os_put_append)
  next
    case False
    then have "fst (m st) = None" using assms(1) ok by (simp add: emits_def)
    then have "fst (pbind m (\<lambda>_. m') st) = None" by (cases "m st") (simp add: pbind_def)
    moreover have "\<not> os_room st (length (as @ bs))" using False by (auto simp: os_room_def)
    ultimately show ?thesis by simp
  qed
qed

lemma emits_write:
  assumes "length bs < size_modulus"
  shows "emits (pb_write bs (length bs)) bs"
  unfolding emits_def
proof (intro allI impI)
  fix st assume ok: "os_ok st"
  show "if os_room st (length bs) then pb_write bs (length bs) st = (Some (), os_put st bs)
    else fst (pb_write bs (length bs) st) = None"
  proof (cases "bs = [] \<or> os_state st = None")
    case True
    then show ?thesis
      using ok by (auto simp: pb_write_def os_room_def os_put_def os_ok_def size_simps split: option.splits)
  next
    case False
    then have cond: "size_add (os_bytes_written st) (length bs) < os_bytes_written st \<or>
        size_add (os_bytes_written st) (length bs) > os_max_size st \<longleftrightarrow> \<not> os_room st (length bs)"
      using ok assms size_add_wraps_iff [of "os_bytes_written st" "length bs"]
        size_add_no_wrap(1) [of "os_bytes_written st" "length bs"]
      by (auto simp: os_room_def os_ok_def)
    show ?thesis
      using False unfolding pb_write_def cond by (auto simp: buf_write_def os_put_def Let_def)
  qed
qed

lemma emits_write_count: "length bs = n \<Longrightarrow> n < size_modulus \<Longrightarrow> emits (pb_write bs n) bs"
  using emits_write by blast

lemma emits_sizing: "emits m bs \<Longrightarrow> os_state st = None \<Longrightarrow> os_ok st \<Longrightarrow> m st = (Some (), os_put st bs)"
  by (auto simp: emits_def os_room_def)

lemma consumes_pret [simp]: "consumes (pret x) [] x"
  by (simp add: consumes_def)

lemma feed_append: "feed (as @ bs) s n = feed as (bs @ s) (length bs + n)"
  by (simp add: feed_def)

lemma feed_Nil: "feed [] (bs @ s) (length bs + n) = feed bs s n"
  by (simp add: feed_def)

lemma consumes_bind:
  assumes "consumes m as x" and "consumes (f x) bs y"
  shows "consumes (pbind m f) (as @ bs) y"
  using assms by (simp add: consumes_def feed_append feed_Nil)

lemma consumes_bind_pret: "consumes m bs x \<Longrightarrow> f x = pret y \<Longrightarrow> consumes (pbind m f) bs y"
  using consumes_bind [of m bs x f "[]" y] by simp

lemma consumes_pmap: "consumes m bs x \<Longrightarrow> consumes (pmap f m) bs (f x)"
  by (simp add: consumes_def)

lemma consumes_read: "length bs = n \<Longrightarrow> consumes (pb_read n) bs bs"
  by (auto simp: consumes_def pb_read_def buf_read_def feed_def)

lemma readbyte_feed [simp]: "pb_readbyte (feed (b # bs) s n) = (Some b, feed bs s n)"
  by (simp add: pb_readbyte_def buf_read_def feed_def)

lemma readbyte_none [simp]: "bytes_left st = 0 \<Longrightarrow> pb_readbyte st = (None, st)"
  by (simp add: pb_readbyte_def)

lemma read_1_feed [simp]: "pb_read 1 (feed (b # bs) s n) = (Some [b], feed bs s n)"
  by (simp add: pb_read_def buf_read_def feed_def)

section \<open>The format of a varint\<close>

fun varint_bytes :: "nat \<Rightarrow> u8 list" where
  "varint_bytes n = (if n < 128 then [word_of_nat n] else word_of_nat (n mod 128 + 128) # varint_bytes (n div 128))"

declare varint_bytes.simps [simp del]

text \<open>Any sequence of groups, the shortest or not, and the number it stands for.\<close>

fun is_varint :: "u8 list \<Rightarrow> bool" where
  "is_varint [] = False"
| "is_varint (b # bs) = (if unat b < 128 then bs = [] else is_varint bs)"

fun le128 :: "u8 list \<Rightarrow> nat" where
  "le128 [] = 0"
| "le128 (b # bs) = unat b mod 128 + 128 * le128 bs"

lemma unat_u8_small: "k < 256 \<Longrightarrow> unat (word_of_nat k :: u8) = k"
  by simp

lemma varint_bytes_is_varint: "is_varint (varint_bytes n)"
proof (induction n rule: varint_bytes.induct)
  case (1 n)
  show ?case
  proof (cases "n < 128")
    case True
    then show ?thesis by (subst varint_bytes.simps) simp
  next
    case False
    have "unat (word_of_nat (n mod 128 + 128) :: u8) = n mod 128 + 128" by (rule unat_u8_small) simp
    with 1 False show ?thesis by (subst varint_bytes.simps) (simp del: unat_u8_of_nat of_nat_add)
  qed
qed

lemma le128_varint_bytes [simp]: "le128 (varint_bytes n) = n"
proof (induction n rule: varint_bytes.induct)
  case (1 n)
  show ?case
  proof (cases "n < 128")
    case True
    then show ?thesis by (subst varint_bytes.simps) simp
  next
    case False
    have "unat (word_of_nat (n mod 128 + 128) :: u8) = n mod 128 + 128" by (rule unat_u8_small) simp
    with 1 False show ?thesis by (subst varint_bytes.simps) (simp del: unat_u8_of_nat of_nat_add)
  qed
qed

lemma varint_bytes_nonempty [simp]: "varint_bytes n \<noteq> []"
  by (subst varint_bytes.simps) simp

lemma length_varint_bytes: "n < 128 ^ k \<Longrightarrow> 0 < k \<Longrightarrow> length (varint_bytes n) \<le> k"
proof (induction k arbitrary: n)
  case (Suc k)
  show ?case
  proof (cases "n < 128")
    case True
    then show ?thesis by (subst varint_bytes.simps) simp
  next
    case False
    have "n div 128 < 128 ^ k" using Suc.prems by (simp add: less_mult_imp_div_less mult.commute)
    moreover from this False have "0 < k" by (cases k) auto
    ultimately show ?thesis using Suc.IH [of "n div 128"] False by (subst varint_bytes.simps) simp
  qed
qed simp

lemma u8_low7: "unat (b AND 0x7f) = unat b mod 128" for b :: u8
  by (rule u8_and_low7)

lemma u8_top_bit: "b AND 0x80 \<noteq> 0 \<longleftrightarrow> 128 \<le> unat b" for b :: u8
  using u8_and_high_bit [of b] by auto

text \<open>Appending a group above the ones read so far.\<close>

lemma or_group: "ucast (b AND 0x7f) OR push_bit 7 (word_of_nat m) = (word_of_nat (unat b mod 128 + 128 * m) :: 'a::len word)"
  if "7 \<le> LENGTH('a)" for b :: u8
proof -
  have low: "b AND 0x7f = take_bit 7 b" by (simp add: take_bit_eq_mask mask_eq_exp_minus_1)
  have "ucast (b AND 0x7f) OR push_bit 7 (word_of_nat m) = ucast (b AND 0x7f) + (push_bit 7 (word_of_nat m) :: 'a word)"
    unfolding low by (intro disjunctive_add_eq_or [symmetric] bit_word_eqI) (auto simp: bit_simps)
  moreover have "ucast (b AND 0x7f) = (word_of_nat (unat b mod 128) :: 'a word)"
    unfolding u8_low7 [symmetric] by (rule of_nat_unat [symmetric])
  ultimately show ?thesis by (simp add: push_bit_eq_mult mult.commute)
qed

section \<open>Reading a varint\<close>

lemma unat_bitpos: "k < 32 \<Longrightarrow> unat (word_of_nat (7 * k) :: u8) = 7 * k"
  by (rule unat_u8_small) simp

lemma bitpos_next: "word_of_nat (7 * k) + 7 = (word_of_nat (7 * Suc k) :: u8)"
  by simp

lemma push_group: "push_bit p (ucast (b AND 0x7f) OR push_bit 7 w) = push_bit p (ucast (b AND 0x7f)) OR push_bit (p + 7) w"
  for w :: "'a::len word" and b :: u8
  by (rule bit_word_eqI) (auto simp: bit_simps)

lemma varint64_loop_feed:
  assumes "is_varint bs" and "k + length bs \<le> 10"
  shows "varint64_loop (word_of_nat (7 * k)) r (feed bs s n) =
    (Some (r OR push_bit (7 * k) (word_of_nat (le128 bs))), feed [] s n)"
  using assms
proof (induction bs arbitrary: k r)
  case (Cons b bs)
  have pos: "unat (word_of_nat (7 * k) :: u8) = 7 * k" using Cons.prems by (intro unat_bitpos) auto
  then have "\<not> (word_of_nat (7 * k) :: u8) \<ge> 64" using Cons.prems by (simp add: word_le_nat_alt)
  moreover have "push_bit (7 * k) (word_of_nat (le128 (b # bs))) =
      push_bit (7 * k) (ucast (b AND 0x7f)) OR (push_bit (7 * Suc k) (word_of_nat (le128 bs)) :: u64)"
    using or_group [of b "le128 bs", where ?'a = 64] push_group [of "7 * k" b "word_of_nat (le128 bs) :: u64"]
    by (simp add: add.commute)
  ultimately show ?case
    using Cons.IH [of "Suc k" "r OR push_bit (7 * k) (ucast (b AND 0x7f))"] Cons.prems pos
    by (subst varint64_loop.simps)
      (auto simp: Let_def u8_top_bit bitpos_next or.assoc simp del: of_nat_mult le128.simps(2) split: if_splits)
qed simp

text \<open>The converse, on a stream that does not claim more bytes than there are.\<close>

definition is_ok :: "pb_istream \<Rightarrow> bool" where
  "is_ok st \<longleftrightarrow> bytes_left st \<le> length (is_state st)"

lemma is_ok_feed: "is_ok (feed bs s n) \<longleftrightarrow> n \<le> length s"
  by (simp add: is_ok_def feed_def)

lemma feed_cases:
  assumes "is_ok st"
  obtains "bytes_left st = 0" | b s n where "st = feed [b] s n" "n \<le> length s"
proof (cases "bytes_left st")
  case (Suc n)
  with assms obtain b s where "is_state st = b # s" "n \<le> length s"
    by (cases "is_state st") (auto simp: is_ok_def)
  with Suc have "st = feed [b] s n" by (simp add: feed_def)
  with \<open>n \<le> length s\<close> that(2) show thesis by blast
qed (rule that(1))

lemma varint64_loop_reads:
  assumes "is_ok st" and "k \<le> 10" and "varint64_loop (word_of_nat (7 * k)) r st = (Some v, st')"
  shows "\<exists>bs s n. st = feed bs s n \<and> st' = feed [] s n \<and> is_varint bs \<and> k + length bs \<le> 10"
  using assms
proof (induction "10 - k" arbitrary: k r st)
  case 0
  then have "k = 10" by simp
  with 0 show ?case by (simp add: varint64_loop.simps [of 70 r st])
next
  case (Suc j)
  then have k: "k < 10" by simp
  then have pos: "unat (word_of_nat (7 * k) :: u8) = 7 * k" by (intro unat_bitpos) auto
  with k have small: "\<not> (word_of_nat (7 * k) :: u8) \<ge> 64" by (simp add: word_le_nat_alt)
  show ?case
  proof (cases rule: feed_cases [OF Suc.prems(1)])
    case 1
    with Suc.prems(3) small show ?thesis by (subst (asm) varint64_loop.simps) simp
  next
    case (2 b s n)
    show ?thesis
    proof (cases "unat b < 128")
      case True
      with Suc.prems(3) small have "st' = feed [] s n"
        by (subst (asm) varint64_loop.simps) (simp add: 2 Let_def u8_top_bit)
      with 2 True k show ?thesis by (intro exI [of _ "[b]"] exI [of _ s] exI [of _ n]) simp
    next
      case False
      with Suc.prems(3) small have "varint64_loop (word_of_nat (7 * Suc k)) (r OR push_bit (7 * k) (ucast (b AND 0x7f))) (feed [] s n) = (Some v, st')"
        by (subst (asm) varint64_loop.simps) (simp add: 2 Let_def u8_top_bit pos bitpos_next del: of_nat_mult unat_u8_of_nat)
      moreover have "j = 10 - Suc k" "is_ok (feed [] s n)" "Suc k \<le> 10"
        using Suc.hyps(2) k 2 by (auto simp: is_ok_feed)
      ultimately obtain bs s' n' where
        "feed [] s n = feed bs s' n'" "st' = feed [] s' n'" "is_varint bs" "Suc k + length bs \<le> 10"
        using Suc.hyps(1) by blast
      with 2 False show ?thesis by (intro exI [of _ "b # bs"] exI [of _ s'] exI [of _ n']) (simp add: feed_def)
    qed
  qed
qed

lemma varint32_loop_feed:
  assumes "is_varint bs" and "k + length bs \<le> 5"
  shows "varint32_loop (word_of_nat (7 * k)) r (feed bs s n) =
    (Some (r OR push_bit (7 * k) (word_of_nat (le128 bs)), word_of_nat (7 * (k + length bs)), last bs), feed [] s n)"
  using assms
proof (induction bs arbitrary: k r)
  case (Cons b bs)
  have pos: "unat (word_of_nat (7 * k) :: u8) = 7 * k" using Cons.prems by (intro unat_bitpos) auto
  then have "\<not> (word_of_nat (7 * k) :: u8) \<ge> 32" using Cons.prems by (simp add: word_le_nat_alt)
  moreover have "push_bit (7 * k) (word_of_nat (le128 (b # bs))) =
      push_bit (7 * k) (ucast (b AND 0x7f)) OR (push_bit (7 * Suc k) (word_of_nat (le128 bs)) :: u32)"
    using or_group [of b "le128 bs", where ?'a = 32] push_group [of "7 * k" b "word_of_nat (le128 bs) :: u32"]
    by (simp add: add.commute)
  ultimately show ?case
    using Cons.IH [of "Suc k" "r OR push_bit (7 * k) (ucast (b AND 0x7f))"] Cons.prems pos
    by (subst varint32_loop.simps)
      (auto simp: Let_def u8_top_bit bitpos_next or.assoc simp del: of_nat_mult le128.simps(2) split: if_splits)
qed simp

lemma le128_last: "is_varint bs \<Longrightarrow> unat (last bs) * 128 ^ (length bs - 1) \<le> le128 bs"
proof (induction bs)
  case (Cons b bs)
  show ?case
  proof (cases "unat b < 128")
    case False
    with Cons have "unat (last bs) * 128 ^ (length bs - 1) \<le> le128 bs" "bs \<noteq> []" by (auto split: if_splits)
    moreover from \<open>bs \<noteq> []\<close> obtain m where "length bs = Suc m" by (cases bs) auto
    ultimately show ?thesis using False by simp
  qed (use Cons in simp)
qed simp

text \<open>The 32-bit reader on a varint of at most five bytes that fits.\<close>

lemma varint32_eof_feed:
  assumes "is_varint bs" and "length bs \<le> 5" and "le128 bs < 2 ^ 32"
  shows "pb_decode_varint32_eof (feed bs s n) = (Some (word_of_nat (le128 bs)), False, feed [] s n)"
proof (cases bs)
  case (Cons b bs')
  show ?thesis
  proof (cases "unat b < 128")
    case True
    then have "ucast b = (word_of_nat (unat b) :: u32)" by (simp only: of_nat_unat)
    with True assms(1) Cons show ?thesis
      by (simp add: pb_decode_varint32_eof_def u8_top_bit u8_and_high_bit split: if_splits)
  next
    case False
    then have bs': "is_varint bs'" "1 + length bs' \<le> 5" using assms Cons by auto
    note loop = varint32_loop_feed [OF bs', of "ucast (b AND 0x7f)" s n]
    have last_small: "unat (last bs) < 16" if "length bs = 5"
    proof -
      have "unat (last bs) * 128 ^ 4 < 2 ^ 32" using le128_last [OF assms(1)] assms(3) that by simp
      then show ?thesis by simp
    qed
    have check: "\<not> ((word_of_nat (7 * (1 + length bs')) :: u8) = 35 \<and> last bs' AND 0x70 \<noteq> 0)"
    proof
      assume c: "(word_of_nat (7 * (1 + length bs')) :: u8) = 35 \<and> last bs' AND 0x70 \<noteq> 0"
      have "unat (word_of_nat (7 * (1 + length bs')) :: u8) = 7 * (1 + length bs')"
        using bs'(2) by (intro unat_bitpos) simp
      with c have "length bs = 5" using Cons by simp
      from last_small [OF this] have "unat (last bs') < 16" using Cons bs'(1) by (cases bs') auto
      then have "drop_bit 4 (last bs') = 0" by (simp add: drop_bit_eq_0_iff_less)
      moreover have "last bs' AND push_bit 4 x = push_bit 4 (drop_bit 4 (last bs') AND x)" for x
        by (rule bit_word_eqI) (auto simp: bit_simps)
      from this [of 7] have "last bs' AND 0x70 = push_bit 4 (drop_bit 4 (last bs') AND 7)" by simp
      ultimately have "last bs' AND 0x70 = 0" by simp
      with c show False by simp
    qed
    show ?thesis
      using False loop check or_group [of b "le128 bs'", where ?'a = 32]
      by (simp add: pb_decode_varint32_eof_def Cons u8_top_bit u8_and_high_bit del: of_nat_mult of_nat_add)
  qed
qed (use assms in simp)

end
