(* ===== verification/Pb_Wire.thy ===== *)
theory Pb_Wire
  imports Pb_Stream
begin

text \<open>
  What the encoders and decoders of nanopb's single values have to do with each other: the
  contract of a codec as a locale, which varints, zig-zag varints, fixed-size values and
  strings satisfy; tags, skipping, and substreams.
\<close>

section \<open>The codecs of single values\<close>

text \<open>What the encoder writes for a 64-bit value.\<close>

lemma group_byte: "ucast (v AND 0x7f) OR 0x80 = (word_of_nat (unat v mod 128 + 128) :: u8)" for v :: u64
proof -
  have low: "v AND 0x7f = take_bit 7 v" by (simp add: take_bit_eq_mask mask_eq_exp_minus_1)
  have "unat (take_bit 7 v) = unat v mod 128" by (simp only: unsigned_take_bit_eq) (simp add: take_bit_eq_mod)
  then have small: "(ucast (take_bit 7 v) :: u8) = word_of_nat (unat v mod 128)" by (metis of_nat_unat)
  have "ucast (take_bit 7 v) OR push_bit 7 y = ucast (take_bit 7 v) + push_bit 7 y" for y :: u8
    by (intro disjunctive_add_eq_or [symmetric] bit_word_eqI) (auto simp: bit_simps)
  from this [of 1] show ?thesis by (simp add: low small)
qed

lemma drop_7_nat: "unat (drop_bit 7 v) = unat v div 128" for v :: u64
  by (simp only: unat_drop_bit_eq) (simp add: drop_bit_eq_div)

lemma varint_loop_bytes:
  assumes "v \<noteq> 0"
  shows "(varint_loop v)[length (varint_loop v) - 1 := varint_loop v ! (length (varint_loop v) - 1) AND 0x7f] =
    varint_bytes (unat v) \<and> varint_loop v \<noteq> []"
  using assms
proof (induction v rule: varint_loop.induct)
  case (1 v)
  show ?case
  proof (cases "unat v < 128")
    case True
    then have "drop_bit 7 v = 0" by (simp add: drop_bit_eq_0_iff_less)
    moreover have "(word_of_nat (unat v mod 128 + 128) :: u8) AND 0x7f = word_of_nat (unat v)"
    proof -
      have "unat ((word_of_nat (unat v mod 128 + 128) :: u8) AND 0x7f) = unat v"
        using True unat_u8_small [of "unat v mod 128 + 128"] by (simp only: u8_low7) simp
      then show ?thesis by (metis u8_of_nat_unat)
    qed
    ultimately show ?thesis
      using True 1(2) by (simp add: varint_loop.simps [of v] varint_loop.simps [of 0] group_byte varint_bytes.simps [of "unat v"])
  next
    case False
    then have nz: "drop_bit 7 v \<noteq> 0" by (simp add: drop_bit_eq_0_iff_less)
    let ?t = "varint_loop (drop_bit 7 v)"
    have IH: "?t[length ?t - 1 := ?t ! (length ?t - 1) AND 0x7f] = varint_bytes (unat v div 128)" "?t \<noteq> []"
      using conjunct1 [OF 1(1) [OF 1(2) nz, unfolded drop_7_nat]] conjunct2 [OF 1(1) [OF 1(2) nz]] by - (assumption+)
    then obtain m where m: "length ?t = Suc m" by (cases ?t) auto
    with IH show ?thesis
      using False 1(2) by (simp add: varint_loop.simps [of v] group_byte varint_bytes.simps [of "unat v"] del: of_nat_add)
  qed
qed

lemma varint_size: "length (varint_bytes (unat v)) \<le> 10" for v :: u64
proof -
  have "unat v < 128 ^ 10" using unat_u64_less [of v] by simp
  then show ?thesis by (rule length_varint_bytes) simp
qed

lemma emits_varint: "emits (pb_encode_varint v) (varint_bytes (unat v))"
proof (cases "v \<le> 0x7f")
  case True
  then have "unat v < 128" by (simp add: word_le_nat_alt)
  then have eq: "varint_bytes (unat v) = [ucast v]" by (simp add: varint_bytes.simps [of "unat v"] of_nat_unat)
  have "emits (pb_write [ucast v] 1) [ucast v]" using emits_write [of "[ucast v]"] by simp
  with True show ?thesis by (simp add: pb_encode_varint_def eq)
next
  case False
  then have "v \<noteq> 0" by auto
  note bytes = varint_loop_bytes [OF this]
  then have "length (varint_loop v) = length (varint_bytes (unat v))" by (metis length_list_update)
  with bytes False have "pb_encode_varint v = pb_write (varint_bytes (unat v)) (length (varint_bytes (unat v)))"
    by (simp add: pb_encode_varint_def Let_def)
  moreover have "length (varint_bytes (unat v)) < size_modulus" using varint_size [of v] by simp
  ultimately show ?thesis by (simp add: emits_write)
qed

lemma consumes_varint: "is_varint bs \<Longrightarrow> length bs \<le> 10 \<Longrightarrow> consumes pb_decode_varint bs (word_of_nat (le128 bs))"
  using varint64_loop_feed [of bs 0 0] by (simp add: consumes_def pb_decode_varint_def)

lemma consumes_varint_value: "consumes pb_decode_varint (varint_bytes (unat v)) v"
  using consumes_varint [OF varint_bytes_is_varint varint_size, of v] by simp

lemma consumes_varint32:
  "is_varint bs \<Longrightarrow> length bs \<le> 5 \<Longrightarrow> le128 bs < 2 ^ 32 \<Longrightarrow> consumes pb_decode_varint32 bs (word_of_nat (le128 bs))"
  by (simp add: consumes_def pb_decode_varint32_def varint32_eof_feed)

lemma consumes_varint32_value: "n < 2 ^ 32 \<Longrightarrow> consumes pb_decode_varint32 (varint_bytes n) (word_of_nat n)"
  using consumes_varint32 [OF varint_bytes_is_varint, of n] length_varint_bytes [of n 5] by simp

definition zigzag :: "u64 \<Rightarrow> u64" where
  "zigzag v = (if sint v < 0 then NOT (push_bit 1 v) else push_bit 1 v)"

lemma zigzag_undo: "(if zigzag v AND 1 \<noteq> 0 then NOT (drop_bit 1 (zigzag v)) else drop_bit 1 (zigzag v)) = v"
proof -
  have sign: "sint v < 0 \<longleftrightarrow> bit v 63"
    by (simp add: sint_uint signed_take_bit_negative_iff bit_uint_iff)
  have low: "w AND 1 \<noteq> 0 \<longleftrightarrow> bit w 0" for w :: u64
    by (simp add: and_one_eq bit_0 odd_iff_mod_2_eq_one)
  have shift: "bit (push_bit k v) n \<longleftrightarrow> k \<le> n \<and> n < 64 \<and> bit v (n - k)" for k n
    by (auto simp: bit_simps)
  obtain p where p: "p = push_bit 1 v" by simp
  have bits: "bit p n \<longleftrightarrow> 1 \<le> n \<and> n < 64 \<and> bit v (n - 1)" for n
    unfolding p by (rule shift)
  have top: "n < 64 \<Longrightarrow> n < 63 \<longleftrightarrow> n \<noteq> 63" for n :: nat by auto
  show ?thesis
    unfolding zigzag_def low p [symmetric]
    by (cases "bit v 63") (auto intro!: bit_word_eqI simp: sign bits bit_simps top)
qed

lemma emits_svarint: "emits (pb_encode_svarint v) (varint_bytes (unat (zigzag v)))"
  using emits_varint [of "zigzag v"] by (simp add: pb_encode_svarint_def zigzag_def Let_def)

lemma consumes_svarint_value: "consumes pb_decode_svarint (varint_bytes (unat (zigzag v))) v"
  unfolding pb_decode_svarint_def
  by (rule consumes_bind_pret [OF consumes_varint_value]) (simp only: zigzag_undo)

text \<open>Fixed-size values, least significant byte first.\<close>

definition fixed32_bytes :: "u32 \<Rightarrow> u8 list" where
  "fixed32_bytes v = [ucast v, ucast (drop_bit 8 v), ucast (drop_bit 16 v), ucast (drop_bit 24 v)]"

definition fixed64_bytes :: "u64 \<Rightarrow> u8 list" where
  "fixed64_bytes v = [ucast v, ucast (drop_bit 8 v), ucast (drop_bit 16 v), ucast (drop_bit 24 v),
     ucast (drop_bit 32 v), ucast (drop_bit 40 v), ucast (drop_bit 48 v), ucast (drop_bit 56 v)]"

lemma ucast_and_ff: "ucast (v AND 0xff) = (ucast v :: u8)" for v :: "'a::len word"
proof -
  have "v AND 0xff = take_bit 8 v" by (simp add: take_bit_eq_mask mask_eq_exp_minus_1)
  moreover have "ucast (take_bit 8 v) = (ucast v :: u8)" by (rule bit_word_eqI) (simp add: bit_simps)
  ultimately show ?thesis by simp
qed

lemma emits_fixed32: "emits (pb_encode_fixed32 v) (fixed32_bytes v)"
  unfolding pb_encode_fixed32_def fixed32_bytes_def ucast_and_ff by (rule emits_write_count) simp_all

lemma emits_fixed64: "emits (pb_encode_fixed64 v) (fixed64_bytes v)"
  unfolding pb_encode_fixed64_def fixed64_bytes_def ucast_and_ff by (rule emits_write_count) simp_all

lemma consumes_fixed32: "consumes pb_decode_fixed32 (fixed32_bytes v) v"
  unfolding pb_decode_fixed32_def
proof (rule consumes_bind_pret [OF consumes_read])
  have parts: "n < 8 \<or> (8 \<le> n \<and> n < 16) \<or> (16 \<le> n \<and> n < 24) \<or> 24 \<le> n" for n :: nat by auto
  have "ucast (ucast v :: u8) OR push_bit 8 (ucast (ucast (drop_bit 8 v) :: u8)) OR
      push_bit 16 (ucast (ucast (drop_bit 16 v) :: u8)) OR push_bit 24 (ucast (ucast (drop_bit 24 v) :: u8)) = v"
    (is "?w = v")
  proof (rule bit_word_eqI)
    fix n assume "n < LENGTH(32)"
    with parts [of n] show "bit ?w n = bit v n" by (elim disjE) (auto simp: bit_simps)
  qed
  then show "pret (ucast (fixed32_bytes v ! 0) OR push_bit 8 (ucast (fixed32_bytes v ! 1)) OR
      push_bit 16 (ucast (fixed32_bytes v ! 2)) OR push_bit 24 (ucast (fixed32_bytes v ! 3))) = pret v"
    by (simp add: fixed32_bytes_def)
qed (simp add: fixed32_bytes_def)

lemma consumes_fixed64: "consumes pb_decode_fixed64 (fixed64_bytes v) v"
  unfolding pb_decode_fixed64_def
proof (rule consumes_bind_pret [OF consumes_read])
  have parts: "n < 8 \<or> (8 \<le> n \<and> n < 16) \<or> (16 \<le> n \<and> n < 24) \<or> (24 \<le> n \<and> n < 32) \<or>
      (32 \<le> n \<and> n < 40) \<or> (40 \<le> n \<and> n < 48) \<or> (48 \<le> n \<and> n < 56) \<or> 56 \<le> n" for n :: nat by auto
  have "ucast (ucast v :: u8) OR push_bit 8 (ucast (ucast (drop_bit 8 v) :: u8)) OR
      push_bit 16 (ucast (ucast (drop_bit 16 v) :: u8)) OR push_bit 24 (ucast (ucast (drop_bit 24 v) :: u8)) OR
      push_bit 32 (ucast (ucast (drop_bit 32 v) :: u8)) OR push_bit 40 (ucast (ucast (drop_bit 40 v) :: u8)) OR
      push_bit 48 (ucast (ucast (drop_bit 48 v) :: u8)) OR push_bit 56 (ucast (ucast (drop_bit 56 v) :: u8)) = v"
    (is "?w = v")
  proof (rule bit_word_eqI)
    fix n assume "n < LENGTH(64)"
    with parts [of n] show "bit ?w n = bit v n" by (elim disjE) (auto simp: bit_simps)
  qed
  then show "pret (ucast (fixed64_bytes v ! 0) OR push_bit 8 (ucast (fixed64_bytes v ! 1)) OR
      push_bit 16 (ucast (fixed64_bytes v ! 2)) OR push_bit 24 (ucast (fixed64_bytes v ! 3)) OR
      push_bit 32 (ucast (fixed64_bytes v ! 4)) OR push_bit 40 (ucast (fixed64_bytes v ! 5)) OR
      push_bit 48 (ucast (fixed64_bytes v ! 6)) OR push_bit 56 (ucast (fixed64_bytes v ! 7))) = pret v"
    by (simp add: fixed64_bytes_def)
qed (simp add: fixed64_bytes_def)

section \<open>The contract of a codec\<close>

fun enc_items :: "('a \<Rightarrow> (pb_ostream, unit) op) \<Rightarrow> 'a list \<Rightarrow> (pb_ostream, unit) op" where
  "enc_items enc [] = pret ()"
| "enc_items enc (x # xs) = pbind (enc x) (\<lambda>_. enc_items enc xs)"

text \<open>The items up to the end of the (sub)stream, at most \<open>limit\<close> of them.\<close>

fun dec_items :: "(pb_istream, 'a) op \<Rightarrow> nat \<Rightarrow> (pb_istream, 'a list) op" where
  "dec_items dec 0 stream = (Some [], stream)"
| "dec_items dec (Suc limit) stream =
    (if bytes_left stream = 0 then (Some [], stream)
     else pbind dec (\<lambda>x. pmap (\<lambda>xs. x # xs) (dec_items dec limit)) stream)"

locale wire_codec =
  fixes enc :: "'a \<Rightarrow> (pb_ostream, unit) op" and dec :: "(pb_istream, 'a) op"
    and bytes :: "'a \<Rightarrow> u8 list" and ok :: "'a \<Rightarrow> bool"
  assumes enc_emits: "ok x \<Longrightarrow> emits (enc x) (bytes x)"
    and dec_consumes: "ok x \<Longrightarrow> consumes dec (bytes x) x"
    and bytes_nonempty: "ok x \<Longrightarrow> bytes x \<noteq> []"
begin

lemma enc_items_emits: "list_all ok xs \<Longrightarrow> emits (enc_items enc xs) (concat (map bytes xs))"
  by (induction xs) (simp_all add: emits_bind enc_emits)

lemma dec_items_feed:
  "list_all ok xs \<Longrightarrow> length xs \<le> limit \<Longrightarrow>
    dec_items dec limit (feed (concat (map bytes xs)) s 0) = (Some xs, feed [] s 0)"
proof (induction xs arbitrary: limit)
  case Nil
  then show ?case by (cases limit) (simp_all add: feed_def)
next
  case (Cons x xs)
  then obtain l where l: "limit = Suc l" "length xs \<le> l" by (cases limit) auto
  let ?rest = "concat (map bytes xs)"
  have "consumes dec (bytes x) x" using Cons.prems(1) by (simp add: dec_consumes)
  then have "dec (feed (bytes x) (?rest @ s) (length ?rest)) = (Some x, feed [] (?rest @ s) (length ?rest))"
    by (simp only: consumes_def)
  moreover have "feed (bytes x @ ?rest) s 0 = feed (bytes x) (?rest @ s) (length ?rest)"
    "feed [] (?rest @ s) (length ?rest) = feed ?rest s 0"
    by (simp_all add: feed_def)
  ultimately have "dec (feed (bytes x @ ?rest) s 0) = (Some x, feed ?rest s 0)" by simp
  with Cons l bytes_nonempty [of x] show ?case by (simp add: feed_def)
qed

text \<open>What a counting stream counts is what a buffer with enough room receives.\<close>

lemma enc_sizing:
  assumes "ok x" and "length (bytes x) \<le> room" and "room < size_modulus"
  shows "os_bytes_written (snd (enc x PB_OSTREAM_SIZING)) = length (bytes x)"
    and "enc x (pb_ostream_from_buffer room) =
      (Some (), \<lparr>os_state = Some (bytes x), os_max_size = room, os_bytes_written = length (bytes x)\<rparr>)"
  using enc_emits [OF assms(1)] assms
  by (auto simp: emits_def PB_OSTREAM_SIZING_def pb_ostream_from_buffer_def os_ok_def os_room_def os_put_def size_simps)

end

interpretation varint: wire_codec pb_encode_varint pb_decode_varint "\<lambda>v. varint_bytes (unat v)" "\<lambda>_. True"
  by unfold_locales (simp_all add: emits_varint consumes_varint_value)

interpretation svarint: wire_codec pb_encode_svarint pb_decode_svarint "\<lambda>v. varint_bytes (unat (zigzag v))" "\<lambda>_. True"
  by unfold_locales (simp_all add: emits_svarint consumes_svarint_value)

interpretation fixed32: wire_codec pb_encode_fixed32 pb_decode_fixed32 fixed32_bytes "\<lambda>_. True"
  by unfold_locales (simp_all add: emits_fixed32 consumes_fixed32, simp add: fixed32_bytes_def)

interpretation fixed64: wire_codec pb_encode_fixed64 pb_decode_fixed64 fixed64_bytes "\<lambda>_. True"
  by unfold_locales (simp_all add: emits_fixed64 consumes_fixed64, simp add: fixed64_bytes_def)

section \<open>Strings, tags, skipping, substreams\<close>

definition string_bytes :: "u8 list \<Rightarrow> u8 list" where
  "string_bytes bs = varint_bytes (length bs) @ bs"

lemma emits_string: "length bs < size_modulus \<Longrightarrow> emits (pb_encode_string bs (length bs)) (string_bytes bs)"
  using emits_bind [OF emits_varint [of "word_of_nat (length bs)"] emits_write [of bs]]
  by (simp add: pb_encode_string_def string_bytes_def unat_u64_of_nat)

text \<open>A string is read through a substream: whatever part of it is read, closing skips the rest.\<close>

lemma make_substream:
  assumes "length bs < 2 ^ 32"
  shows "pb_make_string_substream (feed (string_bytes bs) s n) = (Some (feed bs s 0), \<lparr>is_state = bs @ s, bytes_left = n\<rparr>)"
proof -
  have "pb_decode_varint32 (feed (string_bytes bs) s n) = (Some (word_of_nat (length bs)), feed bs s n)"
    using consumes_varint32_value [OF assms] by (simp add: consumes_def string_bytes_def feed_append feed_Nil)
  with assms show ?thesis
    by (simp add: pb_make_string_substream_def unat_u32_of_nat) (simp add: feed_def)
qed

lemma close_substream:
  "pb_close_string_substream (feed cs s 0) \<lparr>is_state = x, bytes_left = n\<rparr> = (Some (), feed [] s n)"
  by (cases cs) (simp_all add: pb_close_string_substream_def pb_read_def buf_read_def feed_def)

lemma emits_tag: "emits (pb_encode_tag wt n) (varint_bytes (unat (push_bit 3 (ucast n :: u64) OR ucast (wire_number wt))))"
  unfolding pb_encode_tag_def by (rule emits_varint)

definition tag_bytes :: "pb_wire_type \<Rightarrow> u32 \<Rightarrow> u8 list" where
  "tag_bytes wt n = varint_bytes (unat n * 8 + unat (wire_number wt))"

definition proper_wire_type :: "pb_wire_type \<Rightarrow> bool" where
  "proper_wire_type wt \<longleftrightarrow> wt \<in> {PB_WT_VARINT, PB_WT_64BIT, PB_WT_STRING, PB_WT_32BIT}"

lemma wire_number_less: "proper_wire_type wt \<Longrightarrow> unat (wire_number wt) < 8"
  by (auto simp: proper_wire_type_def wire_number_def)

lemma emits_tag_bytes: "proper_wire_type wt \<Longrightarrow> emits (pb_encode_tag wt n) (tag_bytes wt n)"
proof -
  assume wt: "proper_wire_type wt"
  have num: "unat (ucast n :: u64) = unat n" "unat (ucast (wire_number wt) :: u64) = unat (wire_number wt)"
    by (simp_all add: unat_ucast_up)
  have "unat (push_bit 3 (ucast n :: u64) OR ucast (wire_number wt)) = unat n * 2 ^ 3 + unat (wire_number wt)"
    using wire_number_less [OF wt] unat_u32_less [of n] unfolding num [symmetric]
    by (intro unat_push_bit_or) (simp_all add: num)
  then show ?thesis using emits_tag [of wt n] by (simp add: tag_bytes_def)
qed

lemma decode_tag_feed:
  assumes "proper_wire_type wt" and "unat n < 2 ^ 29" and "n \<noteq> 0"
  shows "pb_decode_tag (feed (tag_bytes wt n) s k) = (Some (wt, n), False, feed [] s k)"
proof -
  let ?m = "unat n * 8 + unat (wire_number wt)"
  have m: "?m < 2 ^ 32" using assms(2) wire_number_less [OF assms(1)] by simp
  then have len: "length (varint_bytes ?m) \<le> 5" by (intro length_varint_bytes) simp_all
  have um: "unat (word_of_nat ?m :: u32) = ?m" using m by (rule unat_u32_of_nat)
  have "0 < unat n" using assms(3) by (simp add: unat_gt_0)
  then have nz: "(word_of_nat ?m :: u32) \<noteq> 0" using um by (metis add_is_0 mult_is_0 neq0_conv unsigned_0 zero_neq_numeral)
  have low: "unat ((word_of_nat ?m :: u32) AND 7) = ?m mod 8"
  proof -
    have "(word_of_nat ?m :: u32) AND 7 = take_bit 3 (word_of_nat ?m)"
      by (simp add: take_bit_eq_mask mask_eq_exp_minus_1)
    then show ?thesis using um by (simp only: unsigned_take_bit_eq) (simp add: take_bit_eq_mod)
  qed
  then have "(word_of_nat ?m :: u32) AND 7 = wire_number wt"
    using wire_number_less [OF assms(1)] by (simp add: word_unat_eq_iff)
  moreover have "unat (drop_bit 3 (word_of_nat ?m :: u32)) = ?m div 8"
    using um by (simp only: unat_drop_bit_eq) (simp add: drop_bit_eq_div)
  then have "drop_bit 3 (word_of_nat ?m :: u32) = n"
    using wire_number_less [OF assms(1)] by (simp add: word_unat_eq_iff)
  moreover have "wire_type_of (wire_number wt) = wt"
    using assms(1) by (auto simp: proper_wire_type_def wire_number_def wire_type_of_def)
  ultimately show ?thesis
    using varint32_eof_feed [OF varint_bytes_is_varint len, of s k] m nz
    by (simp add: pb_decode_tag_def tag_bytes_def del: of_nat_add of_nat_mult)
qed

lemma skip_varint_feed: "is_varint bs \<Longrightarrow> pb_skip_varint (feed bs s n) = (Some (), feed [] s n)"
proof (induction bs)
  case (Cons b bs)
  then show ?case using read_1_feed [of b bs s n] by (subst pb_skip_varint.simps) (auto simp: u8_top_bit split: if_splits)
qed simp

text \<open>The bytes of one value of a wire type.\<close>

definition wire_value :: "pb_wire_type \<Rightarrow> u8 list \<Rightarrow> bool" where
  "wire_value wt bs = (case wt of
      PB_WT_VARINT \<Rightarrow> is_varint bs
    | PB_WT_64BIT \<Rightarrow> length bs = 8
    | PB_WT_32BIT \<Rightarrow> length bs = 4
    | PB_WT_STRING \<Rightarrow> (\<exists>cs. length cs < 2 ^ 32 \<and> bs = string_bytes cs)
    | PB_WT_OTHER n \<Rightarrow> False)"

lemma skip_field_consumes: "wire_value wt bs \<Longrightarrow> consumes (pb_skip_field wt) bs ()"
proof (cases wt)
  case PB_WT_STRING
  assume "wire_value wt bs"
  then obtain cs where cs: "length cs < 2 ^ 32" "bs = varint_bytes (length cs) @ cs"
    by (auto simp: wire_value_def PB_WT_STRING string_bytes_def)
  have "consumes (pmap (\<lambda>_. ()) (pb_read (unat (word_of_nat (length cs) :: u32)))) cs ()"
    using consumes_pmap [OF consumes_read [OF refl, of cs], of "\<lambda>_. ()"] cs by (simp add: unat_u32_of_nat)
  from consumes_bind [OF consumes_varint32_value [OF cs(1)], of "\<lambda>l. pmap (\<lambda>_. ()) (pb_read (unat l))", OF this]
  show ?thesis by (simp add: pb_skip_field_def PB_WT_STRING pb_skip_string_def cs(2))
qed (auto simp: wire_value_def pb_skip_field_def consumes_def skip_varint_feed
    dest: consumes_read [unfolded consumes_def] split: pb_wire_type.splits)

section \<open>Groups of zeros\<close>

lemma varint32_zero_groups:
  "varint32_loop bitpos r (feed (replicate k 0x80 @ bs) s n) = varint32_loop (bitpos + word_of_nat (7 * k)) r (feed bs s n)"
proof (induction k arbitrary: bitpos)
  case (Suc k)
  have "varint32_loop bitpos r (feed (replicate (Suc k) 0x80 @ bs) s n) =
      varint32_loop (bitpos + 7) r (feed (replicate k 0x80 @ bs) s n)"
    by (subst varint32_loop.simps) (simp add: Let_def)
  also have "\<dots> = varint32_loop (bitpos + word_of_nat (7 * Suc k)) r (feed bs s n)"
    using Suc.IH [of "bitpos + 7"] by (simp add: add.assoc)
  finally show ?case .
qed simp

section \<open>Properties\<close>

text \<open>
  C35: The 64-bit varint reader accepts exactly the sequences of at most ten groups that end in
  a byte below 128, reads no byte more, and returns their number modulo \<open>2^64\<close>.
\<close>

theorem pb_varint_exact:
  assumes "is_ok st"
  shows "pb_decode_varint st = (Some v, st') \<longleftrightarrow>
    (\<exists>bs s n. st = feed bs s n \<and> st' = feed [] s n \<and> is_varint bs \<and> length bs \<le> 10 \<and> v = word_of_nat (le128 bs))"
proof
  assume read: "pb_decode_varint st = (Some v, st')"
  with varint64_loop_reads [OF assms, of 0 0 v st'] obtain bs s n where
    bs: "st = feed bs s n" "st' = feed [] s n" "is_varint bs" "length bs \<le> 10"
    by (auto simp: pb_decode_varint_def)
  with read consumes_varint [OF bs(3,4)] have "v = word_of_nat (le128 bs)" by (simp add: consumes_def)
  with bs show "\<exists>bs s n. st = feed bs s n \<and> st' = feed [] s n \<and> is_varint bs \<and> length bs \<le> 10 \<and> v = word_of_nat (le128 bs)"
    by blast
qed (auto dest: consumes_varint simp: consumes_def)

theorem pb_varint_exact_witness: "pb_decode_varint (pb_istream_from_buffer [0xac, 2, 7] 3) = (Some 300, pb_istream_from_buffer [7] 1)"
proof (rule iffD2 [OF pb_varint_exact])
  show "is_ok (pb_istream_from_buffer [0xac, 2, 7] 3)" by (simp add: is_ok_def pb_istream_from_buffer_def)
  show "\<exists>bs s n. pb_istream_from_buffer [0xac, 2, 7] 3 = feed bs s n \<and> pb_istream_from_buffer [7] 1 = feed [] s n \<and>
      is_varint bs \<and> length bs \<le> 10 \<and> (300 :: u64) = word_of_nat (le128 bs)"
    by (intro exI [of _ "[0xac, 2]"] exI [of _ "[7]"] exI [of _ 1]) (simp add: pb_istream_from_buffer_def feed_def)
qed

text \<open>
  C36: What the encoders write for a sequence of varints, zig-zag varints, 32-bit or 64-bit values
  into a buffer, the decoders read back until the buffer is used up.
\<close>

theorem pb_values_roundtrip:
  assumes "room < size_modulus"
    and "enc_items pb_encode_varint us (pb_ostream_from_buffer room) = (Some (), o1)"
    and "enc_items pb_encode_svarint ss (pb_ostream_from_buffer room) = (Some (), o2)"
    and "enc_items pb_encode_fixed32 ws (pb_ostream_from_buffer room) = (Some (), o3)"
    and "enc_items pb_encode_fixed64 ds (pb_ostream_from_buffer room) = (Some (), o4)"
  shows "(fst (dec_items pb_decode_varint (length us) (pb_istream_from_buffer (the (os_state o1)) (os_bytes_written o1))) = Some us) \<and>
    (fst (dec_items pb_decode_svarint (length ss) (pb_istream_from_buffer (the (os_state o2)) (os_bytes_written o2))) = Some ss) \<and>
    (fst (dec_items pb_decode_fixed32 (length ws) (pb_istream_from_buffer (the (os_state o3)) (os_bytes_written o3))) = Some ws) \<and>
    (fst (dec_items pb_decode_fixed64 (length ds) (pb_istream_from_buffer (the (os_state o4)) (os_bytes_written o4))) = Some ds)"
proof -
  have written: "pb_istream_from_buffer (the (os_state ost)) (os_bytes_written ost) = feed bs [] 0"
    if "emits m bs" "m (pb_ostream_from_buffer room) = (Some (), ost)" for m bs ost
  proof -
    have "os_ok (pb_ostream_from_buffer room)" using assms(1) by (simp add: os_ok_def pb_ostream_from_buffer_def)
    with that have "os_room (pb_ostream_from_buffer room) (length bs)" "ost = os_put (pb_ostream_from_buffer room) bs"
      by (auto simp: emits_def split: if_splits)
    with assms(1) show ?thesis
      by (auto simp: os_put_def os_room_def pb_ostream_from_buffer_def pb_istream_from_buffer_def feed_def size_simps)
  qed
  have all: "list_all (\<lambda>_. True) xs" for xs :: "'x list" by (induction xs) auto
  show ?thesis
    using written [OF varint.enc_items_emits [OF all] assms(2)] written [OF svarint.enc_items_emits [OF all] assms(3)]
      written [OF fixed32.enc_items_emits [OF all] assms(4)] written [OF fixed64.enc_items_emits [OF all] assms(5)]
      varint.dec_items_feed [OF all order_refl, of us "[]"] svarint.dec_items_feed [OF all order_refl, of ss "[]"]
      fixed32.dec_items_feed [OF all order_refl, of ws "[]"] fixed64.dec_items_feed [OF all order_refl, of ds "[]"]
    by simp
qed

theorem pb_values_roundtrip_witness:
  "fst (dec_items pb_decode_varint 2 (pb_istream_from_buffer [5, 0xac, 2] 3)) = Some [5, 300]"
proof -
  have "enc_items pb_encode_varint [5, 300] (pb_ostream_from_buffer 8) = (Some (), \<lparr>os_state = Some [5, 0xac, 2], os_max_size = 8, os_bytes_written = 3\<rparr>)"
    by (simp add: pb_encode_varint_def varint_loop.simps [of 300] varint_loop.simps [of 2] varint_loop.simps [of 0]
        pb_write_def buf_write_def pb_ostream_from_buffer_def size_add_def)
  from pb_values_roundtrip [OF _ this, of "[]" "pb_ostream_from_buffer 8" "[]" "pb_ostream_from_buffer 8" "[]" "pb_ostream_from_buffer 8"]
  have "fst (dec_items pb_decode_varint (length [5, 300 :: u64]) (pb_istream_from_buffer [5, 0xac, 2] 3)) = Some [5, 300]"
    by (simp del: dec_items.simps length_Cons)
  moreover have "length [5, 300 :: u64] = 2" by simp
  ultimately show ?thesis by (simp only:)
qed

text \<open>
  C37: Tags are read back as written, skipping a field takes exactly the bytes of its value, and
  a string's substream ends with the string: whatever part \<open>ds\<close> of it has been read, closing
  the substream leaves the parent stream right behind the string.
\<close>

theorem pb_fields_delimited:
  assumes "proper_wire_type wt" and "unat tag < 2 ^ 29" and "tag \<noteq> 0" and "wire_value wt bs" and "length (ds @ cs) < 2 ^ 32"
  shows "(emits (pb_encode_tag wt tag) (tag_bytes wt tag)) \<and>
    (pb_decode_tag (feed (tag_bytes wt tag @ bs) s n) = (Some (wt, tag), False, feed bs s n)) \<and>
    (pb_skip_field wt (feed bs s n) = (Some (), feed [] s n)) \<and>
    (\<exists>parent. pb_make_string_substream (feed (string_bytes (ds @ cs)) s n) = (Some (feed (ds @ cs) s 0), parent) \<and>
      pb_close_string_substream (feed cs s 0) parent = (Some (), feed [] s n))"
proof (intro conjI)
  show "emits (pb_encode_tag wt tag) (tag_bytes wt tag)" by (rule emits_tag_bytes [OF assms(1)])
  show "pb_decode_tag (feed (tag_bytes wt tag @ bs) s n) = (Some (wt, tag), False, feed bs s n)"
    using decode_tag_feed [OF assms(1-3), of "bs @ s" "length bs + n"] by (simp only: feed_append feed_Nil)
  show "pb_skip_field wt (feed bs s n) = (Some (), feed [] s n)"
    using skip_field_consumes [OF assms(4)] by (simp add: consumes_def)
  show "\<exists>parent. pb_make_string_substream (feed (string_bytes (ds @ cs)) s n) = (Some (feed (ds @ cs) s 0), parent) \<and>
      pb_close_string_substream (feed cs s 0) parent = (Some (), feed [] s n)"
    using make_substream [OF assms(5), of s n] close_substream by blast
qed

theorem pb_fields_delimited_witness:
  "pb_decode_tag (feed (tag_bytes PB_WT_32BIT 1 @ [1, 2, 3, 4]) [] 0) = (Some (PB_WT_32BIT, 1), False, feed [1, 2, 3, 4] [] 0)"
  using pb_fields_delimited [of PB_WT_32BIT 1 "[1, 2, 3, 4]" "[]" "[]" "[]" 0]
  by (simp add: proper_wire_type_def wire_value_def)

text \<open>
  C38: The 32-bit varint reader does not report every overflow: the group position is a byte that
  wraps around at 256, so that the 38 bytes of a varint for \<open>2^259\<close> are read as 8; and the bits above
  32 in the fifth group are checked only when the varint ends there, so that six bytes for
  \<open>7 * 2^32\<close> are read as 0.
\<close>

theorem pb_varint32_misses_overflow:
  "pb_decode_varint32 (pb_istream_from_buffer (replicate 37 0x80 @ [1]) 38) = (Some 8, pb_istream_from_buffer [] 0) \<and>
   le128 (replicate 37 0x80 @ [1]) = 2 ^ 259 \<and>
   pb_decode_varint32 (pb_istream_from_buffer [0x80, 0x80, 0x80, 0x80, 0xf0, 0] 6) = (Some 0, pb_istream_from_buffer [] 0) \<and>
   le128 [0x80, 0x80, 0x80, 0x80, 0xf0, 0] = 7 * 2 ^ 32"
proof (intro conjI)
  have stream: "pb_istream_from_buffer (replicate 37 0x80 @ [1]) 38 = feed (0x80 # replicate 36 0x80 @ [1]) [] 0"
    by (simp add: pb_istream_from_buffer_def feed_def) (simp add: numeral_eq_Suc)
  have "varint32_loop 7 0 (feed (replicate 36 0x80 @ [1]) [] 0) = (Some (8, 10, 1), feed [] [] 0)"
    unfolding varint32_zero_groups by (simp add: varint32_loop.simps)
  then show "pb_decode_varint32 (pb_istream_from_buffer (replicate 37 0x80 @ [1]) 38) = (Some 8, pb_istream_from_buffer [] 0)"
    unfolding stream by (simp add: pb_decode_varint32_def pb_decode_varint32_eof_def) (simp add: feed_def pb_istream_from_buffer_def)
  have "le128 (replicate k 0x80 @ [1]) = 128 ^ k" for k by (induction k) simp_all
  from this [of 37] show "le128 (replicate 37 0x80 @ [1]) = 2 ^ 259" by simp
  have "pb_istream_from_buffer [0x80, 0x80, 0x80, 0x80, 0xf0, 0] 6 = feed (0x80 # replicate 3 0x80 @ [0xf0, 0]) [] 0"
    by (simp add: pb_istream_from_buffer_def feed_def numeral_3_eq_3)
  moreover have "varint32_loop 7 0 (feed (replicate 3 0x80 @ [0xf0, 0]) [] 0) = (Some (0, 42, 0), feed [] [] 0)"
    unfolding varint32_zero_groups by (simp add: varint32_loop.simps)
  ultimately show "pb_decode_varint32 (pb_istream_from_buffer [0x80, 0x80, 0x80, 0x80, 0xf0, 0] 6) = (Some 0, pb_istream_from_buffer [] 0)"
    by (simp add: pb_decode_varint32_def pb_decode_varint32_eof_def) (simp add: feed_def pb_istream_from_buffer_def)
  show "le128 [0x80, 0x80, 0x80, 0x80, 0xf0, 0] = 7 * 2 ^ 32" by simp
qed

end
