(* ===== verification/Md32.thy ===== *)
theory Md32
  imports Mem
begin

text \<open>
  The collector the digests are built on (\<open>crypto/fipsmodule/digest/md32_common.h\<close>): it cuts
  its input into blocks for a compression function, counts bits, and pads the end. The state
  \<open>h\<close>, \<open>Nl\<close>, \<open>Nh\<close>, \<open>data\<close>, \<open>num\<close> that every digest context has is the record \<open>md32_ctx\<close>. A
  \<open>crypto_md32_block_func\<close> is the argument \<open>block_func\<close>; the locale \<open>md32_block\<close> is its contract, and
  the reference is the compression function iterated over the blocks of the padded message.
\<close>

section \<open>Operations\<close>

record md32_ctx =
  md_h :: "u32 list"
  md_Nl :: u32
  md_Nh :: u32
  md_data :: "u8 list"
  md_num :: nat

text \<open>\<open>memcpy\<close> to, or \<open>memset\<close> of, part of a buffer.\<close>

definition overwrite :: "nat \<Rightarrow> 'a list \<Rightarrow> 'a list \<Rightarrow> 'a list" where
  "overwrite n xs data = take n data @ xs @ drop (n + length xs) data"

type_synonym block_func = "u32 list \<Rightarrow> u8 list \<Rightarrow> nat \<Rightarrow> u32 list"

definition md32_count :: "nat \<Rightarrow> 'a md32_ctx_scheme \<Rightarrow> 'a md32_ctx_scheme" where
  "md32_count len ctx =
     (let l = md_Nl ctx + push_bit 3 (word_of_nat len);
          Nh = (if l < md_Nl ctx then md_Nh ctx + 1 else md_Nh ctx)
      in ctx\<lparr>md_Nh := Nh + word_of_nat (len div 2 ^ 29), md_Nl := l\<rparr>)"

definition md32_blocks :: "block_func \<Rightarrow> nat \<Rightarrow> u8 list \<Rightarrow> 'a md32_ctx_scheme \<Rightarrow> 'a md32_ctx_scheme" where
  "md32_blocks block_func block_size inp ctx =
     (let n = length inp div block_size;
          ctx = (if 0 < n then ctx\<lparr>md_h := block_func (md_h ctx) inp n\<rparr> else ctx);
          rest = drop (n * block_size) inp
      in if length rest \<noteq> 0 then ctx\<lparr>md_num := length rest, md_data := overwrite 0 rest (md_data ctx)\<rparr> else ctx)"

definition crypto_md32_update ::
    "block_func \<Rightarrow> nat \<Rightarrow> u8 list \<Rightarrow> 'a md32_ctx_scheme \<Rightarrow> 'a md32_ctx_scheme" where
  "crypto_md32_update block_func block_size inp ctx =
     (let len = length inp in
      if len = 0 then ctx
      else
        let ctx = md32_count len ctx; n = md_num ctx in
        if n \<noteq> 0 then
          if block_size \<le> len \<or> block_size \<le> len + n then
            let data = overwrite n (take (block_size - n) inp) (md_data ctx)
            in md32_blocks block_func block_size (drop (block_size - n) inp)
                 (ctx\<lparr>md_h := block_func (md_h ctx) data 1, md_num := 0, md_data := replicate block_size 0\<rparr>)
          else ctx\<lparr>md_data := overwrite n inp (md_data ctx), md_num := n + len\<rparr>
        else md32_blocks block_func block_size inp ctx)"

definition crypto_md32_final ::
    "block_func \<Rightarrow> nat \<Rightarrow> bool \<Rightarrow> 'a md32_ctx_scheme \<Rightarrow> 'a md32_ctx_scheme" where
  "crypto_md32_final block_func block_size is_big_endian ctx =
     (let data = (md_data ctx)[md_num ctx := 0x80];
          n = md_num ctx + 1;
          (h, data, n) =
            (if block_size - 8 < n then
               let data = overwrite n (replicate (block_size - n) 0) data
               in (block_func (md_h ctx) data 1, data, 0)
             else (md_h ctx, data, n));
          data = overwrite n (replicate (block_size - 8 - n) 0) data;
          data =
            (if is_big_endian then
               overwrite (block_size - 4) (CRYPTO_store_u32_be (md_Nl ctx))
                 (overwrite (block_size - 8) (CRYPTO_store_u32_be (md_Nh ctx)) data)
             else
               overwrite (block_size - 4) (CRYPTO_store_u32_le (md_Nh ctx))
                 (overwrite (block_size - 8) (CRYPTO_store_u32_le (md_Nl ctx)) data))
      in ctx\<lparr>md_h := block_func h data 1, md_num := 0, md_data := replicate block_size 0\<rparr>)"

section \<open>Reference\<close>

text \<open>The compression function \<open>step\<close> over the whole blocks of a message.\<close>

function absorb :: "('h \<Rightarrow> u8 list \<Rightarrow> 'h) \<Rightarrow> nat \<Rightarrow> 'h \<Rightarrow> u8 list \<Rightarrow> 'h" where
  "absorb step B h xs =
     (if B = 0 \<or> length xs < B then h else absorb step B (step h (take B xs)) (drop B xs))"
  by pat_completeness auto
termination by (relation "measure (\<lambda>(step, B, h, xs). length xs)") auto

declare absorb.simps [simp del]

text \<open>A one bit, as many zeros as it takes, and the number of bits in the last eight bytes.\<close>

definition md32_pad :: "nat \<Rightarrow> bool \<Rightarrow> u8 list \<Rightarrow> u8 list" where
  "md32_pad B big xs =
     xs @ [0x80] @ replicate ((B - (length xs + 9) mod B) mod B) 0 @
       (if big then be_bytes 8 (8 * length xs) else rev (be_bytes 8 (8 * length xs)))"

definition whole :: "nat \<Rightarrow> 'a list \<Rightarrow> 'a list" where
  "whole B xs = take (length xs div B * B) xs"

definition partial :: "nat \<Rightarrow> 'a list \<Rightarrow> 'a list" where
  "partial B xs = drop (length xs div B * B) xs"

text \<open>A context that has absorbed the message \<open>xs\<close> from the chaining value \<open>h0\<close>.\<close>

definition md32_holds :: "(u32 list \<Rightarrow> u8 list \<Rightarrow> u32 list) \<Rightarrow> nat \<Rightarrow> u32 list \<Rightarrow> u8 list \<Rightarrow> 'a md32_ctx_scheme \<Rightarrow> bool" where
  "md32_holds step B h0 xs ctx \<longleftrightarrow>
     md_h ctx = absorb step B h0 xs \<and>
     md_num ctx = length xs mod B \<and>
     md_data ctx = partial B xs @ replicate (B - length xs mod B) 0 \<and>
     (unat (md_Nh ctx) * 2 ^ 32 + unat (md_Nl ctx)) mod 2 ^ 64 = 8 * length xs mod 2 ^ 64"

section \<open>Blocks\<close>

lemma length_overwrite [simp]:
  "n + length xs \<le> length data \<Longrightarrow> length (overwrite n xs data) = length data"
  by (simp add: overwrite_def)

lemma overwrite_prefix: "overwrite (length ps) xs (ps @ data) = ps @ xs @ drop (length xs) data"
  by (simp add: overwrite_def)

lemma absorb_Nil [simp]: "absorb step B h [] = h"
  by (subst absorb.simps) auto

lemma absorb_short: "length xs < B \<Longrightarrow> absorb step B h xs = h"
  by (subst absorb.simps) simp

lemma absorb_block:
  "0 < B \<Longrightarrow> length b = B \<Longrightarrow> absorb step B h (b @ xs) = absorb step B (step h b) xs"
  by (subst absorb.simps) simp

lemma absorb_one: "0 < B \<Longrightarrow> length b = B \<Longrightarrow> absorb step B h b = step h b"
  using absorb_block [of B b step h "[]"] by (simp add: absorb_short)

lemma absorb_append:
  assumes "0 < B" and "length xs = k * B"
  shows "absorb step B h (xs @ ys) = absorb step B (absorb step B h xs) ys"
  using assms(2)
proof (induction k arbitrary: h xs)
  case 0
  then show ?case using \<open>0 < B\<close> by (simp add: absorb_short)
next
  case (Suc k)
  have len: "length (take B xs) = B" "length (drop B xs) = k * B"
    using Suc.prems by simp_all
  have "absorb step B h ((take B xs @ drop B xs) @ ys) = absorb step B (step h (take B xs)) (drop B xs @ ys)"
    unfolding append_assoc by (rule absorb_block [OF \<open>0 < B\<close> len(1)])
  also have "\<dots> = absorb step B (absorb step B h (take B xs @ drop B xs)) ys"
    using Suc.IH [OF len(2)] absorb_block [OF \<open>0 < B\<close> len(1), of step h "drop B xs"] by simp
  finally show ?case by simp
qed

lemma whole_partial [simp]: "whole B xs @ partial B xs = xs"
  by (simp add: whole_def partial_def)

lemma length_whole: "length (whole B xs) = length xs div B * B"
  by (simp add: whole_def)

lemma length_partial [simp]: "length (partial B xs) = length xs mod B"
  by (simp add: partial_def minus_div_mult_eq_mod)

lemma absorb_whole: "0 < B \<Longrightarrow> absorb step B h (whole B xs) = absorb step B h xs"
  using absorb_append [OF _ length_whole, of B step h xs "partial B xs"] by (simp add: absorb_short)

lemma absorb_more:
  "0 < B \<Longrightarrow> absorb step B h (xs @ ys) = absorb step B (absorb step B h xs) (partial B xs @ ys)"
  using absorb_append [OF _ length_whole, of B step h xs "partial B xs @ ys"]
  by (simp add: absorb_whole flip: append_assoc)

lemma partial_short: "length xs < B \<Longrightarrow> partial B xs = xs"
  by (simp add: partial_def)

lemma partial_more:
  assumes "0 < B"
  shows "partial B (xs @ ys) = partial B (partial B xs @ ys)"
proof -
  have "length (xs @ ys) = length xs div B * B + length (partial B xs @ ys)"
    by simp
  then have "length (xs @ ys) div B * B = length xs div B * B + length (partial B xs @ ys) div B * B"
    using assms by (simp only: div_mult_self3 add_mult_distrib)
  then have "partial B (xs @ ys) = drop (length (partial B xs @ ys) div B * B) (drop (length xs div B * B) (xs @ ys))"
    by (simp only: partial_def drop_drop add.commute)
  moreover have "drop (length xs div B * B) (xs @ ys) = partial B xs @ ys"
    by (simp add: partial_def)
  ultimately show ?thesis by (simp only: partial_def [of B "partial B xs @ ys"])
qed

section \<open>Counting\<close>

lemma md32_count_simps [simp]:
  "md_h (md32_count len ctx) = md_h ctx" "md_num (md32_count len ctx) = md_num ctx"
  "md_data (md32_count len ctx) = md_data ctx" "md32_ctx.more (md32_count len ctx) = md32_ctx.more ctx"
  by (simp_all add: md32_count_def Let_def)

lemma count_arith:
  fixes h l q r :: nat
  assumes "l < 2 ^ 32" and "8 * r < 2 ^ 32"
  shows "((h + of_bool ((l + 8 * r) mod 2 ^ 32 < l) + q) mod 2 ^ 32 * 2 ^ 32 + (l + 8 * r) mod 2 ^ 32) mod 2 ^ 64 =
    (h * 2 ^ 32 + l + 8 * (q * 2 ^ 29 + r)) mod 2 ^ 64"
proof -
  let ?c = "of_bool ((l + 8 * r) mod 2 ^ 32 < l) :: nat"
  have "(l + 8 * r) mod 2 ^ 32 = (if l + 8 * r < 2 ^ 32 then l + 8 * r else l + 8 * r - 2 ^ 32)"
    using assms by (subst mod_if) (auto simp: le_mod_geq)
  then have low: "?c * 2 ^ 32 + (l + 8 * r) mod 2 ^ 32 = l + 8 * r"
    using assms by auto
  have "((h + ?c + q) mod 2 ^ 32 * 2 ^ 32 + (l + 8 * r) mod 2 ^ 32) mod 2 ^ 64 =
      ((h + ?c + q) * 2 ^ 32 + (l + 8 * r) mod 2 ^ 32) mod 2 ^ 64"
  proof -
    have "(h + ?c + q) mod 2 ^ 32 * 2 ^ 32 = (h + ?c + q) * 2 ^ 32 mod 2 ^ 64"
      using mult_mod_left [of "h + ?c + q" "2 ^ 32" "2 ^ 32"] by simp
    then show ?thesis by (simp only: mod_add_left_eq)
  qed
  also have "(h + ?c + q) * 2 ^ 32 + (l + 8 * r) mod 2 ^ 32 = h * 2 ^ 32 + l + 8 * (q * 2 ^ 29 + r)"
    using low by (simp add: algebra_simps)
  finally show ?thesis .
qed

lemma md32_count_bits:
  "(unat (md_Nh (md32_count len ctx)) * 2 ^ 32 + unat (md_Nl (md32_count len ctx))) mod 2 ^ 64 =
    (unat (md_Nh ctx) * 2 ^ 32 + unat (md_Nl ctx) + 8 * len) mod 2 ^ 64"
proof -
  let ?q = "len div 2 ^ 29" and ?r = "len mod 2 ^ 29"
  have shifted: "unat (push_bit 3 (word_of_nat len :: u32)) = 8 * ?r"
  proof -
    have "unat (push_bit 3 (word_of_nat len :: u32)) = len * 8 mod 2 ^ 32"
      by (simp add: push_bit_eq_mult unat_word_ariths unat_of_nat mod_mult_left_eq)
    also have "\<dots> = 8 * ?r"
      using mult_mod_right [of 8 len "2 ^ 29"] by (simp add: mult.commute)
    finally show ?thesis .
  qed
  have r: "8 * ?r < 2 ^ 32"
    using mod_less_divisor [of "2 ^ 29" len] by simp
  have low: "unat (md_Nl (md32_count len ctx)) = (unat (md_Nl ctx) + 8 * ?r) mod 2 ^ 32"
    by (simp add: md32_count_def Let_def unat_word_ariths shifted)
  have carry: "md_Nl ctx + push_bit 3 (word_of_nat len) < md_Nl ctx \<longleftrightarrow> (unat (md_Nl ctx) + 8 * ?r) mod 2 ^ 32 < unat (md_Nl ctx)"
    by (simp add: word_less_nat_alt unat_word_ariths shifted)
  have high: "unat (md_Nh (md32_count len ctx)) =
      (unat (md_Nh ctx) + of_bool ((unat (md_Nl ctx) + 8 * ?r) mod 2 ^ 32 < unat (md_Nl ctx)) + ?q) mod 2 ^ 32"
    unfolding md32_count_def Let_def carry
    by (simp add: unat_word_ariths unat_of_nat mod_simps)
  show ?thesis
    unfolding low high count_arith [OF unat_u32_less r] div_mult_mod_eq by (rule refl)
qed

section \<open>Message schedules\<close>

text \<open>
  The compression functions keep the last 16 words of the message schedule \<open>W\<close> in an array of
  16, where word \<open>j\<close> is at \<open>j mod 16\<close>.
\<close>

definition ring :: "(nat \<Rightarrow> u32) \<Rightarrow> nat \<Rightarrow> u32 list \<Rightarrow> bool" where
  "ring W i X \<longleftrightarrow> length X = 16 \<and> (\<forall>j<i. i \<le> j + 16 \<longrightarrow> X ! (j mod 16) = W j)"

lemma ring_start: "length X = 16 \<Longrightarrow> (\<And>j. j < 16 \<Longrightarrow> X ! j = W j) \<Longrightarrow> ring W 16 X"
  by (simp add: ring_def)

lemma ring_read:
  assumes "ring W i X" and "0 < k" and "k \<le> 16" and "16 \<le> i"
  shows "X ! ((i + (16 - k)) mod 16) = W (i - k)"
proof -
  have "i + (16 - k) = (i - k) + 16" using assms by simp
  then have "(i + (16 - k)) mod 16 = (i - k) mod 16" by (simp only: mod_add_self2)
  then show ?thesis using assms by (auto simp: ring_def)
qed

lemma mod_16_eq_close:
  fixes i j :: nat
  assumes "j mod 16 = i mod 16" and "j < i" and "i < j + 16"
  shows False
proof -
  have "i - j = 0 \<or> 16 \<le> i - j"
    using assms(1) by (metis mod_eq_dvd_iff_nat assms(2) dvd_imp_le less_imp_le not_gr_zero)
  then show False using assms by auto
qed

lemma ring_write:
  assumes "ring W i X"
  shows "ring W (Suc i) (X[i mod 16 := W i])"
proof -
  have "X[i mod 16 := W i] ! (j mod 16) = W j" if "j < Suc i" "Suc i \<le> j + 16" for j
  proof (cases "j = i")
    case False
    then have "j < i" "i < j + 16" using that by simp_all
    with mod_16_eq_close [of j i] have "j mod 16 \<noteq> i mod 16" by blast
    then show ?thesis using False that assms by (simp add: ring_def)
  qed (use assms in \<open>simp add: ring_def\<close>)
  then show ?thesis using assms by (simp add: ring_def)
qed

section \<open>Padding\<close>

definition md32_bits :: "bool \<Rightarrow> 'a md32_ctx_scheme \<Rightarrow> u8 list" where
  "md32_bits big ctx =
     (if big then CRYPTO_store_u32_be (md_Nh ctx) @ CRYPTO_store_u32_be (md_Nl ctx)
      else CRYPTO_store_u32_le (md_Nl ctx) @ CRYPTO_store_u32_le (md_Nh ctx))"

lemma length_md32_bits [simp]: "length (md32_bits big ctx) = 8"
  by (simp add: md32_bits_def CRYPTO_store_u32_le_def)

lemma store_u32_le: "CRYPTO_store_u32_le w = rev (be_bytes 4 (unat w))"
  using store_u32_be_rev [of w] by (simp add: CRYPTO_store_u32_le_def store_u32_be flip: rev_swap)

lemma be_bytes_8: "be_bytes 8 (h * 2 ^ 32 + l) = be_bytes 4 h @ be_bytes 4 l" if "l < 2 ^ 32"
proof -
  have "(h * 2 ^ 32 + l) div 256 ^ 4 = h" using that by simp
  moreover have "be_bytes 4 (h * 2 ^ 32 + l) = be_bytes 4 l"
    using that be_bytes_mod [of 4 "h * 2 ^ 32 + l"] by simp
  ultimately show ?thesis
    using be_bytes_split [of 4 4 "h * 2 ^ 32 + l"] by simp
qed

lemma md32_bits_eq:
  assumes "(unat (md_Nh ctx) * 2 ^ 32 + unat (md_Nl ctx)) mod 2 ^ 64 = 8 * n mod 2 ^ 64"
  shows "md32_bits big ctx = (if big then be_bytes 8 (8 * n) else rev (be_bytes 8 (8 * n)))"
proof -
  have "be_bytes 8 (8 * n) = be_bytes 8 (unat (md_Nh ctx) * 2 ^ 32 + unat (md_Nl ctx))"
    using assms be_bytes_mod [of 8 "8 * n"] be_bytes_mod [of 8 "unat (md_Nh ctx) * 2 ^ 32 + unat (md_Nl ctx)"]
    by simp
  then show ?thesis
    unfolding be_bytes_8 [OF unat_u32_less] by (simp add: md32_bits_def store_u32_be store_u32_le)
qed

text \<open>The end of the message and its padding are one block, or two.\<close>

lemma md32_pad_eq:
  assumes "8 < B" and "m = length xs mod B"
  shows "md32_pad B big xs =
    whole B xs @ partial B xs @ 0x80 # replicate (if m + 9 \<le> B then B - 9 - m else 2 * B - 9 - m) 0 @
      (if big then be_bytes 8 (8 * length xs) else rev (be_bytes 8 (8 * length xs)))"
proof -
  have m: "m < B" using assms by simp
  have sum: "(length xs + 9) mod B = (m + 9) mod B"
    using assms by (simp add: mod_add_left_eq)
  have "(B - (m + 9) mod B) mod B = (if m + 9 \<le> B then B - 9 - m else 2 * B - 9 - m)"
  proof (cases "m + 9 \<le> B")
    case True
    then show ?thesis by (cases "m + 9 = B") auto
  next
    case False
    with m assms(1) have "(m + 9) mod B = m + 9 - B" by (simp add: le_mod_geq)
    with False m assms(1) show ?thesis by auto
  qed
  then show ?thesis unfolding md32_pad_def sum by (simp flip: append_assoc)
qed

section \<open>The contract of a compression function\<close>

locale md32_block =
  fixes block_func :: block_func and step :: "u32 list \<Rightarrow> u8 list \<Rightarrow> u32 list" and B :: nat
  assumes room: "8 < B"
    and compress: "0 < n \<Longrightarrow> n * B \<le> length xs \<Longrightarrow> block_func h xs n = absorb step B h (take (n * B) xs)"
begin

lemma B_pos [simp]: "0 < B"
  using room by simp

lemma compress_one: "length b = B \<Longrightarrow> block_func h b (Suc 0) = step h b"
  using compress [of 1 b h] room by (simp add: absorb_one)

lemma compress_blocks:
  assumes "md_num ctx = 0" and "md_data ctx = replicate B 0"
  shows "md_h (md32_blocks block_func B inp ctx) = absorb step B (md_h ctx) inp"
    and "md_num (md32_blocks block_func B inp ctx) = length inp mod B"
    and "md_data (md32_blocks block_func B inp ctx) = partial B inp @ replicate (B - length inp mod B) 0"
    and "md_Nh (md32_blocks block_func B inp ctx) = md_Nh ctx"
    and "md_Nl (md32_blocks block_func B inp ctx) = md_Nl ctx"
proof -
  let ?n = "length inp div B"
  have all: "0 < ?n \<Longrightarrow> block_func h inp ?n = absorb step B h inp" for h
    using compress [of ?n inp h] absorb_whole [of B step h inp] by (simp add: whole_def)
  have none: "\<not> 0 < ?n \<Longrightarrow> absorb step B h inp = h" for h
    using room by (auto simp: absorb_short div_eq_0_iff)
  show "md_h (md32_blocks block_func B inp ctx) = absorb step B (md_h ctx) inp"
    by (simp add: md32_blocks_def Let_def all none)
  show "md_num (md32_blocks block_func B inp ctx) = length inp mod B"
    using assms by (simp add: md32_blocks_def Let_def flip: minus_div_mult_eq_mod)
  show "md_data (md32_blocks block_func B inp ctx) = partial B inp @ replicate (B - length inp mod B) 0"
    using assms le_antisym [OF _ div_times_less_eq_dividend, of "length inp" B]
    by (auto simp: md32_blocks_def Let_def partial_def overwrite_def simp flip: minus_div_mult_eq_mod)
  show "md_Nh (md32_blocks block_func B inp ctx) = md_Nh ctx" "md_Nl (md32_blocks block_func B inp ctx) = md_Nl ctx"
    by (simp_all add: md32_blocks_def Let_def)
qed

lemma update_holds:
  assumes "md32_holds step B h0 xs ctx"
  shows "md32_holds step B h0 (xs @ inp) (crypto_md32_update block_func B inp ctx)"
proof (cases "inp = []")
  case True
  with assms show ?thesis by (simp add: crypto_md32_update_def)
next
  case False
  let ?c = "md32_count (length inp) ctx" and ?m = "length xs mod B" and ?p = "partial B xs"
  have m: "?m < B" by simp
  have ctx: "md_h ctx = absorb step B h0 xs" "md_num ctx = ?m" "md_data ctx = ?p @ replicate (B - ?m) 0"
    using assms by (simp_all add: md32_holds_def)
  have bits: "(unat (md_Nh ?c) * 2 ^ 32 + unat (md_Nl ?c)) mod 2 ^ 64 = 8 * length (xs @ inp) mod 2 ^ 64"
  proof -
    have "(unat (md_Nh ctx) * 2 ^ 32 + unat (md_Nl ctx)) mod 2 ^ 64 = 8 * length xs mod 2 ^ 64"
      using assms by (simp add: md32_holds_def)
    then show ?thesis
      unfolding md32_count_bits length_append distrib_left by (metis mod_add_left_eq)
  qed
  have h: "absorb step B h0 (xs @ inp) = absorb step B (md_h ctx) (?p @ inp)"
    by (simp add: absorb_more [of B step h0 xs inp] ctx)
  have p: "partial B (xs @ inp) = partial B (?p @ inp)" "length (xs @ inp) mod B = length (?p @ inp) mod B"
    using partial_more [of B xs inp] by (simp_all add: mod_add_left_eq)
  consider "?m = 0" | "?m \<noteq> 0" "B \<le> ?m + length inp" | "?m \<noteq> 0" "?m + length inp < B" by linarith
  then show ?thesis
  proof cases
    case 1
    then have "?p = []" by (simp flip: length_0_conv)
    with 1 False ctx bits h p show ?thesis
      by (simp add: crypto_md32_update_def Let_def md32_holds_def compress_blocks)
  next
    case 2
    let ?d = "B - ?m"
    have d: "?d \<le> length inp" using 2(2) by simp
    have data: "overwrite ?m (take ?d inp) (?p @ replicate ?d 0) = ?p @ take ?d inp"
      using overwrite_prefix [of ?p "take ?d inp" "replicate ?d 0"] d by (simp add: min_absorb2)
    have full: "length (?p @ take ?d inp) = B" using d m by (simp add: min_absorb2)
    have cut: "?p @ inp = (?p @ take ?d inp) @ drop ?d inp" by simp
    have h': "absorb step B (md_h ctx) (?p @ inp) = absorb step B (step (md_h ctx) (?p @ take ?d inp)) (drop ?d inp)"
      unfolding cut by (rule absorb_block [OF B_pos full])
    have p': "partial B (?p @ inp) = partial B (drop ?d inp)" "length (?p @ inp) mod B = length (drop ?d inp) mod B"
    proof -
      have "partial B (?p @ take ?d inp) = []" using full by (simp flip: length_0_conv)
      then show "partial B (?p @ inp) = partial B (drop ?d inp)"
        unfolding cut using partial_more [of B "?p @ take ?d inp" "drop ?d inp"] by simp
      have "length (?p @ inp) = B + length (drop ?d inp)"
        using full unfolding cut length_append by linarith
      then show "length (?p @ inp) mod B = length (drop ?d inp) mod B" by (metis mod_add_self1)
    qed
    have "crypto_md32_update block_func B inp ctx = md32_blocks block_func B (drop ?d inp)
        (?c\<lparr>md_h := step (md_h ctx) (?p @ take ?d inp), md_num := 0, md_data := replicate B 0\<rparr>)"
      using 2 False ctx by (simp add: crypto_md32_update_def Let_def data compress_one [OF full] add.commute)
    moreover have "(length xs + length inp) mod B = (length inp - ?d) mod B"
      using p(2) p'(2) by simp
    ultimately show ?thesis
      using bits by (simp add: md32_holds_def compress_blocks h h' p p')
  next
    case 3
    let ?d = "B - ?m"
    have "overwrite ?m inp (?p @ replicate ?d 0) = ?p @ inp @ replicate (?d - length inp) 0"
      using overwrite_prefix [of ?p inp "replicate ?d 0"] by simp
    moreover have "length (?p @ inp) < B" using 3 by simp
    moreover have "(length xs + length inp) mod B = ?m + length inp"
      using p(2) 3(2) by simp
    ultimately show ?thesis
      using 3 False ctx bits
      by (simp add: crypto_md32_update_def Let_def md32_holds_def h p absorb_short partial_short)
  qed
qed

lemma updates_hold:
  "md32_holds step B h0 xs ctx \<Longrightarrow>
    md32_holds step B h0 (xs @ concat inps) (fold (crypto_md32_update block_func B) inps ctx)"
proof (induction inps arbitrary: xs ctx)
  case (Cons inp inps)
  from Cons.IH [OF update_holds [OF Cons.prems, of inp]] show ?case by simp
qed simp

lemma final_absorbs:
  assumes "md32_holds step B h0 xs ctx"
  shows "md_h (crypto_md32_final block_func B big ctx) = absorb step B h0 (md32_pad B big xs)"
    and "md_num (crypto_md32_final block_func B big ctx) = 0"
    and "md_data (crypto_md32_final block_func B big ctx) = replicate B 0"
proof -
  let ?m = "length xs mod B" and ?p = "partial B xs" and ?b = "md32_bits big ctx"
  have m: "?m < B" by simp
  have ctx: "md_h ctx = absorb step B h0 xs" "md_num ctx = ?m" "md_data ctx = ?p @ replicate (B - ?m) 0"
    using assms by (simp_all add: md32_holds_def)
  have b: "?b = (if big then be_bytes 8 (8 * length xs) else rev (be_bytes 8 (8 * length xs)))"
    using assms by (intro md32_bits_eq) (simp add: md32_holds_def)
  have pad: "absorb step B h0 (md32_pad B big xs) =
      absorb step B (md_h ctx) (?p @ 0x80 # replicate (if ?m + 9 \<le> B then B - 9 - ?m else 2 * B - 9 - ?m) 0 @ ?b)"
    unfolding md32_pad_eq [OF room refl] b [symmetric] ctx
    by (simp add: absorb_append [OF B_pos length_whole] absorb_whole)
  have last: "(if big then
        overwrite (B - 4) (CRYPTO_store_u32_be (md_Nl ctx)) (overwrite (B - 8) (CRYPTO_store_u32_be (md_Nh ctx)) d)
      else overwrite (B - 4) (CRYPTO_store_u32_le (md_Nh ctx)) (overwrite (B - 8) (CRYPTO_store_u32_le (md_Nl ctx)) d)) =
      take (B - 8) d @ ?b" if "length d = B" for d
    using that room by (simp add: overwrite_def md32_bits_def CRYPTO_store_u32_le_def min_def)
  have marked: "(?p @ replicate (B - ?m) 0)[?m := 0x80] = ?p @ 0x80 # replicate (B - 1 - ?m) 0"
  proof -
    have "replicate (B - ?m) (0 :: u8) = 0 # replicate (B - 1 - ?m) 0"
      using m by (metis Suc_diff_Suc diff_Suc_eq_diff_pred replicate_Suc)
    then show ?thesis by (simp add: list_update_append)
  qed
  show "md_h (crypto_md32_final block_func B big ctx) = absorb step B h0 (md32_pad B big xs)"
  proof (cases "?m + 9 \<le> B")
    case True
    let ?d = "?p @ 0x80 # replicate (B - 1 - ?m) 0"
    let ?e = "overwrite (?m + 1) (replicate (B - 8 - (?m + 1)) 0) ?d"
    have shift: "B - (8 + ?m) = Suc (B - (9 + ?m))" using True by simp
    have e: "take (B - 8) ?e = ?p @ 0x80 # replicate (B - 9 - ?m) 0" and len: "length ?e = B"
      using True by (simp_all add: overwrite_def shift)
    have "length (take (B - 8) ?e @ ?b) = B" unfolding e using True by simp
    note one = absorb_one [OF B_pos this, of step] compress_one [OF this]
    have fits: "(B - 8 < ?m + 1) = False" using True by simp
    have "md_h (crypto_md32_final block_func B big ctx) = block_func (md_h ctx) (take (B - 8) ?e @ ?b) 1"
      by (simp only: crypto_md32_final_def Let_def ctx marked fits if_False prod.case last [OF len]) simp
    also have "\<dots> = absorb step B (md_h ctx) (take (B - 8) ?e @ ?b)"
      using one by (simp only: One_nat_def)
    finally show ?thesis
      unfolding pad e using True by simp
  next
    case False
    let ?d = "?p @ 0x80 # replicate (B - 1 - ?m) 0"
    let ?e = "overwrite (?m + 1) (replicate (B - (?m + 1)) 0) ?d"
    let ?f = "overwrite 0 (replicate (B - 8) 0) ?e"
    have d: "length ?d = B"
      using m unfolding length_append list.size length_replicate length_partial by linarith
    have e: "?e = ?d" by (simp add: overwrite_def)
    have len: "length ?e = B" unfolding e by (rule d)
    have f: "take (B - 8) ?f = replicate (B - 8) 0" by (simp add: overwrite_def)
    have len': "length ?f = B" using length_overwrite [of 0 "replicate (B - 8) 0" ?e] len by simp
    have full: "length (replicate (B - 8) 0 @ ?b) = B" using room by simp
    have "2 * B - 9 - ?m = (B - 1 - ?m) + (B - 8)" using m room by linarith
    then have split: "?p @ 0x80 # replicate (2 * B - 9 - ?m) 0 @ ?b = ?d @ replicate (B - 8) 0 @ ?b"
      by (simp add: replicate_add)
    have "absorb step B (md_h ctx) (?p @ 0x80 # replicate (2 * B - 9 - ?m) 0 @ ?b) =
        step (step (md_h ctx) ?d) (replicate (B - 8) 0 @ ?b)"
      unfolding split absorb_block [OF B_pos d] by (rule absorb_one [OF B_pos full])
    moreover have "block_func h ?d (Suc 0) = step h ?d" for h
      by (rule compress_one [OF d])
    moreover have "md_h (crypto_md32_final block_func B big ctx) =
        block_func (block_func (md_h ctx) ?e 1) (take (B - 8) ?f @ ?b) 1"
    proof -
      have full: "(B - 8 < ?m + 1) = True" using False by simp
      show ?thesis
        by (simp only: crypto_md32_final_def Let_def ctx marked full if_True prod.case diff_zero last [OF len']) simp
    qed
    then have "md_h (crypto_md32_final block_func B big ctx) =
        block_func (block_func (md_h ctx) ?d 1) (replicate (B - 8) 0 @ ?b) 1"
      unfolding f unfolding e .
    ultimately show ?thesis
      unfolding pad using False compress_one [OF full] by simp
  qed
  show "md_num (crypto_md32_final block_func B big ctx) = 0"
    and "md_data (crypto_md32_final block_func B big ctx) = replicate B 0"
    by (simp_all add: crypto_md32_final_def Let_def split_beta)
qed

end

end
