(* ===== verification/Sha1.thy ===== *)
theory Sha1
  imports Md32
begin

text \<open>
  SHA-1 (\<open>crypto/fipsmodule/sha/sha1.c\<close>) over the collector of theory \<open>Md32\<close>. The code unrolls the
  80 rounds of the compression function and renames its six registers from round to round
  instead of moving them; \<open>sha1_rounds\<close> applies the macro of each round to the registers in the
  order of its arguments. The reference is the compression function of the standard.
\<close>

section \<open>Operations\<close>

definition F_00_19 :: "u32 \<Rightarrow> u32 \<Rightarrow> u32 \<Rightarrow> u32" where
  "F_00_19 b c d = ((c XOR d) AND b) XOR d"

definition F_20_39 :: "u32 \<Rightarrow> u32 \<Rightarrow> u32 \<Rightarrow> u32" where
  "F_20_39 b c d = b XOR c XOR d"

definition F_40_59 :: "u32 \<Rightarrow> u32 \<Rightarrow> u32 \<Rightarrow> u32" where
  "F_40_59 b c d = (b AND c) OR ((b OR c) AND d)"

definition F_60_79 :: "u32 \<Rightarrow> u32 \<Rightarrow> u32 \<Rightarrow> u32" where
  "F_60_79 b c d = F_20_39 b c d"

definition Xupdate :: "u32 \<Rightarrow> u32 \<Rightarrow> u32 \<Rightarrow> u32 \<Rightarrow> u32" where
  "Xupdate ia ib ic id' = CRYPTO_rotl_u32 (ia XOR ib XOR ic XOR id') 1"

text \<open>The macros change \<open>b\<close>, \<open>f\<close> and, from round 16 on, a word of the schedule.\<close>

definition BODY_00_15 :: "u32 \<Rightarrow> u32 \<Rightarrow> u32 \<Rightarrow> u32 \<Rightarrow> u32 \<Rightarrow> u32 \<Rightarrow> u32 \<times> u32" where
  "BODY_00_15 a b c d e xi =
     (CRYPTO_rotl_u32 b 30, xi + e + 0x5a827999 + CRYPTO_rotl_u32 a 5 + F_00_19 b c d)"

definition BODY_16_19 :: "u32 \<Rightarrow> u32 \<Rightarrow> u32 \<Rightarrow> u32 \<Rightarrow> u32 \<Rightarrow> u32 \<Rightarrow> u32 \<Rightarrow> u32 \<Rightarrow> u32 \<Rightarrow> u32 \<times> u32 \<times> u32" where
  "BODY_16_19 a b c d e xa xb xc xd =
     (let f = Xupdate xa xb xc xd; xi = f;
          f = f + (e + 0x5a827999 + CRYPTO_rotl_u32 a 5 + F_00_19 b c d)
      in (CRYPTO_rotl_u32 b 30, f, xi))"

definition BODY_20_31 :: "u32 \<Rightarrow> u32 \<Rightarrow> u32 \<Rightarrow> u32 \<Rightarrow> u32 \<Rightarrow> u32 \<Rightarrow> u32 \<Rightarrow> u32 \<Rightarrow> u32 \<Rightarrow> u32 \<times> u32 \<times> u32" where
  "BODY_20_31 a b c d e xa xb xc xd =
     (let f = Xupdate xa xb xc xd; xi = f;
          f = f + (e + 0x6ed9eba1 + CRYPTO_rotl_u32 a 5 + F_20_39 b c d)
      in (CRYPTO_rotl_u32 b 30, f, xi))"

definition BODY_32_39 :: "u32 \<Rightarrow> u32 \<Rightarrow> u32 \<Rightarrow> u32 \<Rightarrow> u32 \<Rightarrow> u32 \<Rightarrow> u32 \<Rightarrow> u32 \<Rightarrow> u32 \<Rightarrow> u32 \<times> u32 \<times> u32" where
  "BODY_32_39 a b c d e xa xb xc xd =
     (let f = Xupdate xa xb xc xd; xa = f;
          f = f + (e + 0x6ed9eba1 + CRYPTO_rotl_u32 a 5 + F_20_39 b c d)
      in (CRYPTO_rotl_u32 b 30, f, xa))"

definition BODY_40_59 :: "u32 \<Rightarrow> u32 \<Rightarrow> u32 \<Rightarrow> u32 \<Rightarrow> u32 \<Rightarrow> u32 \<Rightarrow> u32 \<Rightarrow> u32 \<Rightarrow> u32 \<Rightarrow> u32 \<times> u32 \<times> u32" where
  "BODY_40_59 a b c d e xa xb xc xd =
     (let f = Xupdate xa xb xc xd; xa = f;
          f = f + (e + 0x8f1bbcdc + CRYPTO_rotl_u32 a 5 + F_40_59 b c d)
      in (CRYPTO_rotl_u32 b 30, f, xa))"

definition BODY_60_79 :: "u32 \<Rightarrow> u32 \<Rightarrow> u32 \<Rightarrow> u32 \<Rightarrow> u32 \<Rightarrow> u32 \<Rightarrow> u32 \<Rightarrow> u32 \<Rightarrow> u32 \<Rightarrow> u32 \<times> u32 \<times> u32" where
  "BODY_60_79 a b c d e xa xb xc xd =
     (let f = Xupdate xa xb xc xd; xa = f;
          f = xa + e + 0xca62c1d6 + CRYPTO_rotl_u32 a 5 + F_60_79 b c d
      in (CRYPTO_rotl_u32 b 30, f, xa))"

text \<open>
  Round \<open>i\<close>. The registers come in the order in which the round names them; the next round
  names first the register that this one calls \<open>f\<close>.
\<close>

type_synonym sha1_regs = "u32 \<times> u32 \<times> u32 \<times> u32 \<times> u32 \<times> u32"

fun sha1_round :: "nat \<Rightarrow> sha1_regs \<times> u32 list \<Rightarrow> sha1_regs \<times> u32 list" where
  "sha1_round i ((a, b, c, d, e, f), X) =
     (if i < 16 then
        (case BODY_00_15 a b c d e (X ! i) of (b, f) \<Rightarrow> ((f, a, b, c, d, e), X))
      else
        (case (if i < 20 then BODY_16_19 else if i < 32 then BODY_20_31 else if i < 40 then BODY_32_39
               else if i < 60 then BODY_40_59 else BODY_60_79) a b c d e
                (X ! (i mod 16)) (X ! ((i + 2) mod 16)) (X ! ((i + 8) mod 16)) (X ! ((i + 13) mod 16)) of
           (b, f, x) \<Rightarrow> ((f, a, b, c, d, e), X[i mod 16 := x])))"

definition sha1_rounds :: "sha1_regs \<times> u32 list \<Rightarrow> sha1_regs \<times> u32 list" where
  "sha1_rounds = fold sha1_round [0..<80]"

text \<open>One pass of the loop; \<open>T\<close> is not initialised, its first use is an assignment.\<close>

definition sha1_block :: "u32 \<Rightarrow> u32 list \<Rightarrow> u8 list \<Rightarrow> u32 list" where
  "sha1_block T state data =
     (let X = map (\<lambda>i. CRYPTO_load_u32_be (drop (4 * i) data)) [0..<16] in
      case fst (sha1_rounds ((state ! 0, state ! 1, state ! 2, state ! 3, state ! 4, T), X)) of
        (a, b, c, d, e, f) \<Rightarrow> [state ! 0 + a, state ! 1 + b, state ! 2 + c, state ! 3 + d, state ! 4 + e])"

text \<open>The loop ends when \<open>num\<close> has been counted down to 0; no caller starts it there.\<close>

fun sha1_block_data_order :: "u32 list \<Rightarrow> u8 list \<Rightarrow> nat \<Rightarrow> u32 list" where
  "sha1_block_data_order state data 0 = state"
| "sha1_block_data_order state data (Suc num) =
     sha1_block_data_order (sha1_block 0 state data) (drop 64 data) num"

definition SHA1_Init :: md32_ctx where
  "SHA1_Init =
     \<lparr>md_h = [0x67452301, 0xefcdab89, 0x98badcfe, 0x10325476, 0xc3d2e1f0],
      md_Nl = 0, md_Nh = 0, md_data = replicate 64 0, md_num = 0\<rparr>"

definition SHA1_Transform :: "md32_ctx \<Rightarrow> u8 list \<Rightarrow> md32_ctx" where
  "SHA1_Transform c data = c\<lparr>md_h := sha1_block_data_order (md_h c) data 1\<rparr>"

definition SHA1_Update :: "u8 list \<Rightarrow> md32_ctx \<Rightarrow> md32_ctx" where
  "SHA1_Update data c = crypto_md32_update sha1_block_data_order 64 data c"

definition SHA1_Final :: "md32_ctx \<Rightarrow> u8 list \<times> md32_ctx" where
  "SHA1_Final c =
     (let c = crypto_md32_final sha1_block_data_order 64 True c
      in (CRYPTO_store_u32_be (md_h c ! 0) @ CRYPTO_store_u32_be (md_h c ! 1) @ CRYPTO_store_u32_be (md_h c ! 2) @
          CRYPTO_store_u32_be (md_h c ! 3) @ CRYPTO_store_u32_be (md_h c ! 4), c))"

definition SHA1 :: "u8 list \<Rightarrow> u8 list" where
  "SHA1 data = fst (SHA1_Final (SHA1_Update data SHA1_Init))"

section \<open>Reference\<close>

definition sha1_f :: "nat \<Rightarrow> u32 \<Rightarrow> u32 \<Rightarrow> u32 \<Rightarrow> u32" where
  "sha1_f t x y z =
     (if t < 20 then (x AND y) XOR (NOT x AND z)
      else if 40 \<le> t \<and> t < 60 then (x AND y) XOR (x AND z) XOR (y AND z)
      else x XOR y XOR z)"

definition sha1_K :: "nat \<Rightarrow> u32" where
  "sha1_K t = (if t < 20 then 0x5a827999 else if t < 40 then 0x6ed9eba1 else if t < 60 then 0x8f1bbcdc else 0xca62c1d6)"

fun sha1_W :: "u8 list \<Rightarrow> nat \<Rightarrow> u32" where
  "sha1_W M t =
     (if t < 16 then CRYPTO_load_u32_be (drop (4 * t) M)
      else CRYPTO_rotl_u32 (sha1_W M (t - 3) XOR sha1_W M (t - 8) XOR sha1_W M (t - 14) XOR sha1_W M (t - 16)) 1)"

declare sha1_W.simps [simp del]

fun sha1_ref_round :: "u8 list \<Rightarrow> nat \<Rightarrow> u32 \<times> u32 \<times> u32 \<times> u32 \<times> u32 \<Rightarrow> u32 \<times> u32 \<times> u32 \<times> u32 \<times> u32" where
  "sha1_ref_round M t (a, b, c, d, e) =
     (CRYPTO_rotl_u32 a 5 + sha1_f t b c d + e + sha1_K t + sha1_W M t, a, CRYPTO_rotl_u32 b 30, c, d)"

definition sha1_compress :: "u32 list \<Rightarrow> u8 list \<Rightarrow> u32 list" where
  "sha1_compress H M =
     (case fold (sha1_ref_round M) [0..<80] (H ! 0, H ! 1, H ! 2, H ! 3, H ! 4) of
        (a, b, c, d, e) \<Rightarrow> [H ! 0 + a, H ! 1 + b, H ! 2 + c, H ! 3 + d, H ! 4 + e])"

definition sha1_hash :: "u8 list \<Rightarrow> u8 list" where
  "sha1_hash m =
     concat (map (\<lambda>w. be_bytes 4 (unat w))
       (absorb sha1_compress 64 [0x67452301, 0xefcdab89, 0x98badcfe, 0x10325476, 0xc3d2e1f0] (md32_pad 64 True m)))"

section \<open>The unrolled rounds\<close>

lemma F_00_19_eq: "F_00_19 b c d = (b AND c) XOR (NOT b AND d)"
  unfolding F_00_19_def by (rule bit_word_eqI) (auto simp: bit_simps)

lemma F_40_59_eq: "F_40_59 b c d = (b AND c) XOR (b AND d) XOR (c AND d)"
  unfolding F_40_59_def by (rule bit_word_eqI) (auto simp: bit_simps)

lemma sha1_W_step:
  "16 \<le> t \<Longrightarrow> Xupdate (sha1_W M (t - 16)) (sha1_W M (t - 14)) (sha1_W M (t - 8)) (sha1_W M (t - 3)) = sha1_W M t"
  by (subst (5) sha1_W.simps) (simp add: Xupdate_def ac_simps)

definition sha1_words :: "u8 list \<Rightarrow> nat \<Rightarrow> u32 list \<Rightarrow> bool" where
  "sha1_words M i X \<longleftrightarrow>
     (if i < 16 then X = map (\<lambda>i. CRYPTO_load_u32_be (drop (4 * i) M)) [0..<16] else ring (sha1_W M) i X)"

lemma sha1_words_Suc:
  assumes "sha1_words M i X"
  shows "sha1_words M (Suc i) (if i < 16 then X else X[i mod 16 := sha1_W M i])"
proof -
  consider "Suc i < 16" | "i = 15" | "16 \<le> i" by linarith
  then show ?thesis
  proof cases
    case 2
    have "X = map (\<lambda>i. CRYPTO_load_u32_be (drop (4 * i) M)) [0..<16]"
      using assms 2 by (simp add: sha1_words_def)
    then have "ring (sha1_W M) 16 X"
      by (intro ring_start) (simp_all add: sha1_W.simps)
    then show ?thesis using 2 by (simp add: sha1_words_def)
  qed (use assms in \<open>simp_all add: sha1_words_def ring_write\<close>)
qed

lemma sha1_round_eq:
  assumes "sha1_words M i X" and "sha1_ref_round M i (a, b, c, d, e) = (a', b', c', d', e')"
  shows "sha1_round i ((a, b, c, d, e, f), X) =
    ((a', b', c', d', e', e), if i < 16 then X else X[i mod 16 := sha1_W M i])"
proof (cases "i < 16")
  case True
  then have "X ! i = sha1_W M i"
    using assms(1) by (simp add: sha1_words_def sha1_W.simps)
  then show ?thesis
    using True assms(2) by (auto simp: BODY_00_15_def F_00_19_eq sha1_f_def sha1_K_def ac_simps)
next
  case False
  then have ring: "ring (sha1_W M) i X" and i: "16 \<le> i"
    using assms(1) by (simp_all add: sha1_words_def)
  have words: "X ! (i mod 16) = sha1_W M (i - 16)" "X ! ((i + 2) mod 16) = sha1_W M (i - 14)"
    "X ! ((i + 8) mod 16) = sha1_W M (i - 8)" "X ! ((i + 13) mod 16) = sha1_W M (i - 3)"
    using ring_read [OF ring, of 16] ring_read [OF ring, of 14] ring_read [OF ring, of 8] ring_read [OF ring, of 3] i
    by simp_all
  consider "i < 20" | "20 \<le> i" "i < 32" | "32 \<le> i" "i < 40" | "40 \<le> i" "i < 60" | "60 \<le> i" by linarith
  then show ?thesis
    using i assms(2) unfolding sha1_round.simps words
    by cases (auto simp: BODY_16_19_def BODY_20_31_def BODY_32_39_def BODY_40_59_def BODY_60_79_def Let_def
        sha1_W_step F_00_19_eq F_20_39_def F_40_59_eq F_60_79_def sha1_f_def sha1_K_def ac_simps)
qed

lemma sha1_rounds_eq:
  assumes "X = map (\<lambda>i. CRYPTO_load_u32_be (drop (4 * i) M)) [0..<16]"
    and "fold (sha1_ref_round M) [0..<n] (a, b, c, d, e) = (a', b', c', d', e')"
  shows "\<exists>f' X'. fold sha1_round [0..<n] ((a, b, c, d, e, f), X) = ((a', b', c', d', e', f'), X') \<and> sha1_words M n X'"
  using assms(2)
proof (induction n arbitrary: a' b' c' d' e')
  case 0
  then show ?case using assms(1) by (simp add: sha1_words_def)
next
  case (Suc n)
  obtain a1 b1 c1 d1 e1 where ref: "fold (sha1_ref_round M) [0..<n] (a, b, c, d, e) = (a1, b1, c1, d1, e1)"
    by (metis prod_cases5)
  from Suc.IH [OF ref] obtain f1 X1 where
    code: "fold sha1_round [0..<n] ((a, b, c, d, e, f), X) = ((a1, b1, c1, d1, e1, f1), X1)" and
    words: "sha1_words M n X1"
    by blast
  have "sha1_ref_round M n (a1, b1, c1, d1, e1) = (a', b', c', d', e')"
    using Suc.prems by (simp add: ref del: sha1_ref_round.simps)
  from sha1_round_eq [OF words this, of f1] sha1_words_Suc [OF words] show ?case
    by (simp add: code del: sha1_round.simps)
qed

lemma sha1_block_eq: "sha1_block T state data = sha1_compress state data"
proof -
  let ?X = "map (\<lambda>i. CRYPTO_load_u32_be (drop (4 * i) data)) [0..<16]"
  obtain a b c d e where ref:
    "fold (sha1_ref_round data) [0..<80] (state ! 0, state ! 1, state ! 2, state ! 3, state ! 4) = (a, b, c, d, e)"
    by (metis prod_cases5)
  from sha1_rounds_eq [OF refl ref, of T] obtain f X where
    "sha1_rounds ((state ! 0, state ! 1, state ! 2, state ! 3, state ! 4, T), ?X) = ((a, b, c, d, e, f), X)"
    unfolding sha1_rounds_def by blast
  then show ?thesis
    unfolding sha1_block_def sha1_compress_def Let_def ref by (simp del: upt_rec_numeral)
qed

text \<open>The compression function looks at the first block only.\<close>

lemma load_u32_be_take: "4 * t + 4 \<le> n \<Longrightarrow> CRYPTO_load_u32_be (drop (4 * t) (take n M)) = CRYPTO_load_u32_be (drop (4 * t) M)"
  by (simp add: CRYPTO_load_u32_be_def drop_take min_def)

lemma sha1_W_take: "sha1_W (take 64 M) t = sha1_W M t"
proof (induction t rule: less_induct)
  case (less t)
  show ?case
    by (subst (1 2) sha1_W.simps) (simp add: less load_u32_be_take)
qed

lemma sha1_compress_take: "sha1_compress H (take 64 M) = sha1_compress H M"
proof -
  have "sha1_ref_round (take 64 M) t s = sha1_ref_round M t s" for t s
    by (cases s) (simp add: sha1_W_take)
  then have "sha1_ref_round (take 64 M) = sha1_ref_round M" by (intro ext)
  then show ?thesis by (simp only: sha1_compress_def)
qed

lemma sha1_blocks_absorb:
  "n * 64 \<le> length xs \<Longrightarrow> sha1_block_data_order h xs n = absorb sha1_compress 64 h (take (n * 64) xs)"
proof (induction n arbitrary: h xs)
  case (Suc n)
  have "take (Suc n * 64) xs = take 64 xs @ take (n * 64) (drop 64 xs)"
    by (simp add: take_add)
  with Suc show ?case
    by (simp add: absorb_block sha1_block_eq sha1_compress_take)
qed simp

interpretation sha1: md32_block sha1_block_data_order sha1_compress 64
  by unfold_locales (simp_all add: sha1_blocks_absorb)

section \<open>Properties\<close>

lemma length_sha1_compress [simp]: "length (sha1_compress H M) = 5"
  by (simp add: sha1_compress_def case_prod_beta)

lemma length_absorb: "(\<And>h b. length (step h b) = n) \<Longrightarrow> length h = n \<Longrightarrow> length (absorb step B h xs) = n"
  by (induction step B h xs rule: absorb.induct) (subst absorb.simps, simp)

lemma SHA1_Init_holds: "md32_holds sha1_compress 64 (md_h SHA1_Init) [] SHA1_Init"
  by (simp add: md32_holds_def SHA1_Init_def partial_def)

lemma SHA1_Final_hash:
  assumes "md32_holds sha1_compress 64 (md_h SHA1_Init) m c"
  shows "fst (SHA1_Final c) = sha1_hash m"
proof -
  let ?h = "absorb sha1_compress 64 (md_h SHA1_Init) (md32_pad 64 True m)"
  have "length ?h = 5" by (intro length_absorb) (simp_all add: SHA1_Init_def)
  then obtain a b c d e where h: "?h = [a, b, c, d, e]"
    by (auto simp: length_Suc_conv eval_nat_numeral)
  have "sha1_hash m = concat (map (\<lambda>w. be_bytes 4 (unat w)) ?h)"
    by (simp add: sha1_hash_def SHA1_Init_def)
  then show ?thesis
    unfolding SHA1_Final_def Let_def fst_conv sha1.final_absorbs [OF assms] h
    by (simp add: store_u32_be)
qed

lemma SHA1_stream:
  "fst (SHA1_Final (fold SHA1_Update chunks SHA1_Init)) = sha1_hash (concat chunks)"
proof -
  have "SHA1_Update = crypto_md32_update sha1_block_data_order 64"
    by (intro ext) (simp add: SHA1_Update_def)
  then show ?thesis
    using SHA1_Final_hash [OF sha1.updates_hold [OF SHA1_Init_holds, of chunks]] by simp
qed

text \<open>
  C8: However a message is cut into the buffers that \<open>SHA1_Update\<close> is given, the result is SHA-1
  of the message: the unrolled rounds over a ring of 16 schedule words are the compression
  function of the standard, partial blocks are carried over, the bit count wraps at \<open>2^64\<close>,
  and the padding fits one block or two.
\<close>

theorem SHA1_stream_correct:
  "fst (SHA1_Final (fold SHA1_Update chunks SHA1_Init)) = sha1_hash (concat chunks)"
  by (rule SHA1_stream)

end
