(* ===== verification/Sha256.thy ===== *)
theory Sha256
  imports Sha1
begin

text \<open>
  SHA-256 and SHA-224 (\<open>crypto/fipsmodule/sha/sha256.c\<close>) over the collector of theory \<open>Md32\<close>. As
  in \<open>Sha1\<close>, the rounds are applied to the registers in the order of the macro's arguments.
  \<open>SHA256_CTX\<close> is the collector's context with the length of the digest, \<open>md_len\<close>.
\<close>

section \<open>Operations\<close>

record sha256_ctx = md32_ctx +
  md_len :: nat

definition K256 :: "u32 list" where
  "K256 = concat
    [[0x428a2f98, 0x71374491, 0xb5c0fbcf, 0xe9b5dba5, 0x3956c25b],
     [0x59f111f1, 0x923f82a4, 0xab1c5ed5, 0xd807aa98, 0x12835b01],
     [0x243185be, 0x550c7dc3, 0x72be5d74, 0x80deb1fe, 0x9bdc06a7],
     [0xc19bf174, 0xe49b69c1, 0xefbe4786, 0x0fc19dc6, 0x240ca1cc],
     [0x2de92c6f, 0x4a7484aa, 0x5cb0a9dc, 0x76f988da, 0x983e5152],
     [0xa831c66d, 0xb00327c8, 0xbf597fc7, 0xc6e00bf3, 0xd5a79147],
     [0x06ca6351, 0x14292967, 0x27b70a85, 0x2e1b2138, 0x4d2c6dfc],
     [0x53380d13, 0x650a7354, 0x766a0abb, 0x81c2c92e, 0x92722c85],
     [0xa2bfe8a1, 0xa81a664b, 0xc24b8b70, 0xc76c51a3, 0xd192e819],
     [0xd6990624, 0xf40e3585, 0x106aa070, 0x19a4c116, 0x1e376c08],
     [0x2748774c, 0x34b0bcb5, 0x391c0cb3, 0x4ed8aa4a, 0x5b9cca4f],
     [0x682e6ff3, 0x748f82ee, 0x78a5636f, 0x84c87814, 0x8cc70208],
     [0x90befffa, 0xa4506ceb, 0xbef9a3f7, 0xc67178f2]]"

definition Sigma0 :: "u32 \<Rightarrow> u32" where
  "Sigma0 x = CRYPTO_rotr_u32 x 2 XOR CRYPTO_rotr_u32 x 13 XOR CRYPTO_rotr_u32 x 22"

definition Sigma1 :: "u32 \<Rightarrow> u32" where
  "Sigma1 x = CRYPTO_rotr_u32 x 6 XOR CRYPTO_rotr_u32 x 11 XOR CRYPTO_rotr_u32 x 25"

definition sigma0 :: "u32 \<Rightarrow> u32" where
  "sigma0 x = CRYPTO_rotr_u32 x 7 XOR CRYPTO_rotr_u32 x 18 XOR drop_bit 3 x"

definition sigma1 :: "u32 \<Rightarrow> u32" where
  "sigma1 x = CRYPTO_rotr_u32 x 17 XOR CRYPTO_rotr_u32 x 19 XOR drop_bit 10 x"

definition Ch :: "u32 \<Rightarrow> u32 \<Rightarrow> u32 \<Rightarrow> u32" where
  "Ch x y z = (x AND y) XOR (NOT x AND z)"

definition Maj :: "u32 \<Rightarrow> u32 \<Rightarrow> u32 \<Rightarrow> u32" where
  "Maj x y z = (x AND y) XOR (x AND z) XOR (y AND z)"

type_synonym sha256_regs = "u32 \<times> u32 \<times> u32 \<times> u32 \<times> u32 \<times> u32 \<times> u32 \<times> u32"

text \<open>The macro changes \<open>d\<close> and \<open>h\<close>; the next round names first the register that this one calls \<open>h\<close>.\<close>

fun ROUND_00_15 :: "nat \<Rightarrow> u32 \<Rightarrow> sha256_regs \<Rightarrow> sha256_regs" where
  "ROUND_00_15 i T1 (a, b, c, d, e, f, g, h) =
     (let T1 = T1 + (h + Sigma1 e + Ch e f g + K256 ! i);
          h = Sigma0 a + Maj a b c;
          d = d + T1;
          h = h + T1
      in (a, b, c, d, e, f, g, h))"

definition ROUND_16_63 :: "nat \<Rightarrow> sha256_regs \<Rightarrow> u32 list \<Rightarrow> sha256_regs \<times> u32 list" where
  "ROUND_16_63 i regs X =
     (let s0 = sigma0 (X ! ((i + 1) mod 16));
          s1 = sigma1 (X ! ((i + 14) mod 16));
          T1 = X ! (i mod 16) + (s0 + s1 + X ! ((i + 9) mod 16))
      in (ROUND_00_15 i T1 regs, X[i mod 16 := T1]))"

definition sha256_round :: "nat \<Rightarrow> sha256_regs \<times> u32 list \<Rightarrow> sha256_regs \<times> u32 list" where
  "sha256_round i s =
     (case s of (regs, X) \<Rightarrow>
        (case (if i < 16 then (ROUND_00_15 i (X ! i) regs, X) else ROUND_16_63 i regs X) of
           ((a, b, c, d, e, f, g, h), X) \<Rightarrow> ((h, a, b, c, d, e, f, g), X)))"

definition sha256_block :: "u32 list \<Rightarrow> u8 list \<Rightarrow> u32 list" where
  "sha256_block state data =
     (let X = map (\<lambda>i. CRYPTO_load_u32_be (drop (4 * i) data)) [0..<16] in
      case fst (fold sha256_round [0..<64] ((state ! 0, state ! 1, state ! 2, state ! 3,
             state ! 4, state ! 5, state ! 6, state ! 7), X)) of
        (a, b, c, d, e, f, g, h) \<Rightarrow>
          [state ! 0 + a, state ! 1 + b, state ! 2 + c, state ! 3 + d,
           state ! 4 + e, state ! 5 + f, state ! 6 + g, state ! 7 + h])"

fun sha256_block_data_order :: "u32 list \<Rightarrow> u8 list \<Rightarrow> nat \<Rightarrow> u32 list" where
  "sha256_block_data_order state data 0 = state"
| "sha256_block_data_order state data (Suc num) =
     sha256_block_data_order (sha256_block state data) (drop 64 data) num"

definition SHA224_Init :: sha256_ctx where
  "SHA224_Init =
     \<lparr>md_h = [0xc1059ed8, 0x367cd507, 0x3070dd17, 0xf70e5939, 0xffc00b31, 0x68581511, 0x64f98fa7, 0xbefa4fa4],
      md_Nl = 0, md_Nh = 0, md_data = replicate 64 0, md_num = 0, md_len = 28\<rparr>"

definition SHA256_Init :: sha256_ctx where
  "SHA256_Init =
     \<lparr>md_h = [0x6a09e667, 0xbb67ae85, 0x3c6ef372, 0xa54ff53a, 0x510e527f, 0x9b05688c, 0x1f83d9ab, 0x5be0cd19],
      md_Nl = 0, md_Nh = 0, md_data = replicate 64 0, md_num = 0, md_len = 32\<rparr>"

definition SHA256_Transform :: "sha256_ctx \<Rightarrow> u8 list \<Rightarrow> sha256_ctx" where
  "SHA256_Transform c data = c\<lparr>md_h := sha256_block_data_order (md_h c) data 1\<rparr>"

definition SHA256_Update :: "u8 list \<Rightarrow> sha256_ctx \<Rightarrow> sha256_ctx" where
  "SHA256_Update data c = crypto_md32_update sha256_block_data_order 64 data c"

definition SHA224_Update :: "u8 list \<Rightarrow> sha256_ctx \<Rightarrow> sha256_ctx" where
  "SHA224_Update data ctx = SHA256_Update data ctx"

definition sha256_final_impl :: "sha256_ctx \<Rightarrow> u8 list option \<times> sha256_ctx" where
  "sha256_final_impl c =
     (let c = crypto_md32_final sha256_block_data_order 64 True c in
      if md_len c > 32 then (None, c)
      else let out_words = md_len c div 4
           in (Some (concat (map (\<lambda>i. CRYPTO_store_u32_be (md_h c ! i)) [0..<out_words])), c))"

definition SHA256_Final :: "sha256_ctx \<Rightarrow> u8 list option \<times> sha256_ctx" where
  "SHA256_Final c = sha256_final_impl c"

definition SHA224_Final :: "sha256_ctx \<Rightarrow> u8 list option \<times> sha256_ctx" where
  "SHA224_Final ctx = sha256_final_impl ctx"

definition SHA224 :: "u8 list \<Rightarrow> u8 list option" where
  "SHA224 data = fst (SHA224_Final (SHA224_Update data SHA224_Init))"

definition SHA256 :: "u8 list \<Rightarrow> u8 list option" where
  "SHA256 data = fst (SHA256_Final (SHA256_Update data SHA256_Init))"

section \<open>Reference\<close>

fun sha256_W :: "u8 list \<Rightarrow> nat \<Rightarrow> u32" where
  "sha256_W M t =
     (if t < 16 then CRYPTO_load_u32_be (drop (4 * t) M)
      else sigma1 (sha256_W M (t - 2)) + sha256_W M (t - 7) + sigma0 (sha256_W M (t - 15)) + sha256_W M (t - 16))"

declare sha256_W.simps [simp del]

fun sha256_ref_round :: "u8 list \<Rightarrow> nat \<Rightarrow> sha256_regs \<Rightarrow> sha256_regs" where
  "sha256_ref_round M t (a, b, c, d, e, f, g, h) =
     (let T1 = h + Sigma1 e + Ch e f g + K256 ! t + sha256_W M t; T2 = Sigma0 a + Maj a b c
      in (T1 + T2, a, b, c, d + T1, e, f, g))"

definition sha256_compress :: "u32 list \<Rightarrow> u8 list \<Rightarrow> u32 list" where
  "sha256_compress H M =
     (case fold (sha256_ref_round M) [0..<64] (H ! 0, H ! 1, H ! 2, H ! 3, H ! 4, H ! 5, H ! 6, H ! 7) of
        (a, b, c, d, e, f, g, h) \<Rightarrow>
          [H ! 0 + a, H ! 1 + b, H ! 2 + c, H ! 3 + d, H ! 4 + e, H ! 5 + f, H ! 6 + g, H ! 7 + h])"

definition sha256_hash :: "u32 list \<Rightarrow> nat \<Rightarrow> u8 list \<Rightarrow> u8 list" where
  "sha256_hash H0 len m =
     take len (concat (map (\<lambda>w. be_bytes 4 (unat w)) (absorb sha256_compress 64 H0 (md32_pad 64 True m))))"

section \<open>The rounds\<close>

definition sha256_words :: "u8 list \<Rightarrow> nat \<Rightarrow> u32 list \<Rightarrow> bool" where
  "sha256_words M i X \<longleftrightarrow>
     (if i < 16 then X = map (\<lambda>i. CRYPTO_load_u32_be (drop (4 * i) M)) [0..<16] else ring (sha256_W M) i X)"

lemma sha256_words_Suc:
  assumes "sha256_words M i X"
  shows "sha256_words M (Suc i) (if i < 16 then X else X[i mod 16 := sha256_W M i])"
proof -
  consider "Suc i < 16" | "i = 15" | "16 \<le> i" by linarith
  then show ?thesis
  proof cases
    case 2
    have "X = map (\<lambda>i. CRYPTO_load_u32_be (drop (4 * i) M)) [0..<16]"
      using assms 2 by (simp add: sha256_words_def)
    then have "ring (sha256_W M) 16 X"
      by (intro ring_start) (simp_all add: sha256_W.simps)
    then show ?thesis using 2 by (simp add: sha256_words_def)
  qed (use assms in \<open>simp_all add: sha256_words_def ring_write\<close>)
qed

lemma sha256_regs_cases:
  fixes regs :: sha256_regs
  obtains a b c d e f g h where "regs = (a, b, c, d, e, f, g, h)"
  by (cases "(0 :: nat, 0 :: u32, regs)" rule: ROUND_00_15.cases) simp

lemma sha256_round_eq:
  assumes "sha256_words M i X"
  shows "sha256_round i (regs, X) = (sha256_ref_round M i regs, if i < 16 then X else X[i mod 16 := sha256_W M i])"
proof (cases "i < 16")
  case True
  then have "X ! i = sha256_W M i"
    using assms by (simp add: sha256_words_def sha256_W.simps)
  then show ?thesis
    using True by (cases regs rule: sha256_regs_cases) (simp add: sha256_round_def Let_def ac_simps)
next
  case False
  then have ring: "ring (sha256_W M) i X" and i: "16 \<le> i"
    using assms by (simp_all add: sha256_words_def)
  have words: "X ! (i mod 16) = sha256_W M (i - 16)" "X ! ((i + 1) mod 16) = sha256_W M (i - 15)"
    "X ! ((i + 9) mod 16) = sha256_W M (i - 7)" "X ! ((i + 14) mod 16) = sha256_W M (i - 2)"
    using ring_read [OF ring, of 16] ring_read [OF ring, of 15] ring_read [OF ring, of 7] ring_read [OF ring, of 2] i
    by simp_all
  have "sha256_W M i = sha256_W M (i - 16) + (sigma0 (sha256_W M (i - 15)) + sigma1 (sha256_W M (i - 2)) + sha256_W M (i - 7))"
    using i by (subst sha256_W.simps) (simp add: ac_simps)
  then show ?thesis
    using False unfolding sha256_round_def prod.case ROUND_16_63_def words Let_def
    by (cases regs rule: sha256_regs_cases) (simp add: Let_def ac_simps)
qed

lemma sha256_rounds_eq:
  assumes "X = map (\<lambda>i. CRYPTO_load_u32_be (drop (4 * i) M)) [0..<16]"
  shows "\<exists>X'. fold sha256_round [0..<n] (regs, X) = (fold (sha256_ref_round M) [0..<n] regs, X') \<and> sha256_words M n X'"
proof (induction n)
  case 0
  then show ?case using assms by (simp add: sha256_words_def)
next
  case (Suc n)
  then obtain X1 where "fold sha256_round [0..<n] (regs, X) = (fold (sha256_ref_round M) [0..<n] regs, X1)"
    and "sha256_words M n X1"
    by blast
  with sha256_round_eq [of M n X1] sha256_words_Suc [of M n X1] show ?case by simp
qed

lemma sha256_block_eq: "sha256_block state data = sha256_compress state data"
proof -
  let ?X = "map (\<lambda>i. CRYPTO_load_u32_be (drop (4 * i) data)) [0..<16]"
  have "fst (fold sha256_round [0..<64] (regs, ?X)) = fold (sha256_ref_round data) [0..<64] regs" for regs
    using sha256_rounds_eq [OF refl, where M = data and n = 64 and regs = regs] by (metis fst_conv)
  then show ?thesis unfolding sha256_block_def sha256_compress_def Let_def by (rule arg_cong)
qed

lemma sha256_W_take: "sha256_W (take 64 M) t = sha256_W M t"
proof (induction t rule: less_induct)
  case (less t)
  show ?case
    by (subst (1 2) sha256_W.simps) (simp add: less load_u32_be_take)
qed

lemma sha256_compress_take: "sha256_compress H (take 64 M) = sha256_compress H M"
proof -
  have "sha256_ref_round (take 64 M) t s = sha256_ref_round M t s" for t s
    by (cases s rule: sha256_regs_cases) (simp add: sha256_W_take)
  then have "sha256_ref_round (take 64 M) = sha256_ref_round M" by (intro ext)
  then show ?thesis by (simp only: sha256_compress_def)
qed

lemma sha256_blocks_absorb:
  "n * 64 \<le> length xs \<Longrightarrow> sha256_block_data_order h xs n = absorb sha256_compress 64 h (take (n * 64) xs)"
proof (induction n arbitrary: h xs)
  case (Suc n)
  have "take (Suc n * 64) xs = take 64 xs @ take (n * 64) (drop 64 xs)"
    by (simp add: take_add)
  with Suc show ?case
    by (simp add: absorb_block sha256_block_eq sha256_compress_take)
qed simp

interpretation sha256: md32_block sha256_block_data_order sha256_compress 64
  by unfold_locales (simp_all add: sha256_blocks_absorb)

section \<open>Properties\<close>

lemma length_sha256_compress [simp]: "length (sha256_compress H M) = 8"
  by (simp add: sha256_compress_def case_prod_beta)

lemma md_len_update [simp]: "md_len (crypto_md32_update f B inp c) = md_len c"
  by (simp add: crypto_md32_update_def md32_blocks_def md32_count_def Let_def)

lemma md_len_final [simp]: "md_len (crypto_md32_final f B big c) = md_len c"
  by (simp add: crypto_md32_final_def Let_def case_prod_beta)

lemma md_len_updates [simp]: "md_len (fold (crypto_md32_update f B) chunks c) = md_len c"
  by (induction chunks arbitrary: c) simp_all

lemma sha256_Init_holds:
  "md32_holds sha256_compress 64 (md_h SHA256_Init) [] SHA256_Init"
  "md32_holds sha256_compress 64 (md_h SHA224_Init) [] SHA224_Init"
  by (simp_all add: md32_holds_def SHA256_Init_def SHA224_Init_def partial_def)

lemma concat_words_take:
  fixes ws :: "u32 list"
  shows "length ws = 8 \<Longrightarrow> k \<le> 8 \<Longrightarrow>
    concat (map (\<lambda>i. be_bytes 4 (unat (ws ! i))) [0..<k]) = take (4 * k) (concat (map (\<lambda>w. be_bytes 4 (unat w)) ws))"
proof -
  assume "length ws = 8" and "k \<le> 8"
  then have ws: "map (\<lambda>i. ws ! i) [0..<k] = take k ws" by (intro nth_equalityI) simp_all
  have words: "take (4 * k) (concat (map (\<lambda>w. be_bytes 4 (unat w)) ws)) = concat (map (\<lambda>w. be_bytes 4 (unat w)) (take k ws))"
    for ws :: "u32 list" and k
  proof (induction ws arbitrary: k)
    case (Cons w ws)
    then show ?case by (cases k) simp_all
  qed simp
  show ?thesis
    unfolding words ws [symmetric] by (simp add: comp_def)
qed

lemma sha256_final_impl_hash:
  assumes "md32_holds sha256_compress 64 H0 m c" and "length H0 = 8" and "md_len c \<le> 32" and "md_len c mod 4 = 0"
  shows "fst (sha256_final_impl c) = Some (sha256_hash H0 (md_len c) m)"
proof -
  let ?h = "absorb sha256_compress 64 H0 (md32_pad 64 True m)"
  have len: "length ?h = 8" by (intro length_absorb) (simp_all add: assms)
  have "4 * (md_len c div 4) = md_len c" using assms(4) by (simp add: mult_div_mod_eq mod_0_imp_dvd)
  then show ?thesis
    using assms concat_words_take [OF len, of "md_len c div 4"]
    by (simp add: sha256_final_impl_def Let_def sha256.final_absorbs [OF assms(1)] sha256_hash_def store_u32_be)
qed


lemma sha256_Init_simps [simp]:
  "length (md_h SHA256_Init) = 8" "md_len SHA256_Init = 32"
  "length (md_h SHA224_Init) = 8" "md_len SHA224_Init = 28"
  by (simp_all add: SHA256_Init_def SHA224_Init_def)

lemma SHA256_Update_eq: "SHA256_Update = crypto_md32_update sha256_block_data_order 64"
  by (intro ext) (simp add: SHA256_Update_def)

lemma SHA224_Update_eq: "SHA224_Update = crypto_md32_update sha256_block_data_order 64"
  by (intro ext) (simp add: SHA224_Update_def SHA256_Update_eq)

lemma SHA256_stream:
  "fst (SHA256_Final (fold SHA256_Update chunks SHA256_Init)) = Some (sha256_hash (md_h SHA256_Init) 32 (concat chunks))"
  using sha256_final_impl_hash [OF sha256.updates_hold [OF sha256_Init_holds(1), of chunks]]
  by (simp add: SHA256_Final_def SHA256_Update_eq)

lemma SHA224_stream:
  "fst (SHA224_Final (fold SHA224_Update chunks SHA224_Init)) = Some (sha256_hash (md_h SHA224_Init) 28 (concat chunks))"
  using sha256_final_impl_hash [OF sha256.updates_hold [OF sha256_Init_holds(2), of chunks]]
  by (simp add: SHA224_Final_def SHA224_Update_eq)

text \<open>
  However a message is cut into the buffers that \<open>SHA256_Update\<close> or \<open>SHA224_Update\<close> is given,
  the result is SHA-256 or SHA-224 of the message, and the check on \<open>md_len\<close> never fails.
\<close>

lemma SHA256_stream_correct:
  "fst (SHA256_Final (fold SHA256_Update chunks SHA256_Init)) =
      Some (sha256_hash (md_h SHA256_Init) 32 (concat chunks)) \<and>
    fst (SHA224_Final (fold SHA224_Update chunks SHA224_Init)) =
      Some (sha256_hash (md_h SHA224_Init) 28 (concat chunks))"
  using SHA256_stream SHA224_stream by (rule conjI)

end
