(* ===== verification/Digest.thy ===== *)
theory Digest
  imports Sha256
begin

text \<open>
  The common interface of the digests (\<open>crypto/fipsmodule/digest/digest.c\<close> and \<open>digests.c\<close>). An
  \<open>EVP_MD\<close> is a record of its sizes and functions, over the type \<open>'c\<close> of its state; there is one
  object of each kind, so comparing pointers to them is comparing their type numbers. \<open>pctx\<close>, which
  only the signature functions of \<open>EVP\<close> set, is NULL. \<open>md_data\<close> is the state or NULL.

  Calling the functions on a context without a digest dereferences NULL; here they fail, and
  that is never reached below. The contract of a digest is the locale \<open>digest_method\<close>.
\<close>

section \<open>Operations\<close>

record 'c evp_md =
  md_type :: nat
  md_size :: nat
  md_init :: 'c
  md_update :: "u8 list \<Rightarrow> 'c \<Rightarrow> 'c"
  md_final :: "'c \<Rightarrow> u8 list \<times> 'c"
  md_block_size :: nat
  md_ctx_size :: nat
  md_zero :: 'c \<comment> \<open>\<open>ctx_size\<close> zero bytes\<close>

record 'c evp_md_ctx =
  ctx_digest :: "'c evp_md option"
  ctx_md_data :: "'c option"

definition EVP_MD_type :: "'c evp_md \<Rightarrow> nat" where
  "EVP_MD_type md = md_type md"

definition EVP_MD_size :: "'c evp_md \<Rightarrow> nat" where
  "EVP_MD_size md = md_size md"

definition EVP_MD_block_size :: "'c evp_md \<Rightarrow> nat" where
  "EVP_MD_block_size md = md_block_size md"

definition same_md :: "'c evp_md option \<Rightarrow> 'c evp_md option \<Rightarrow> bool" where
  "same_md a b \<longleftrightarrow> map_option md_type a = map_option md_type b"

definition EVP_MD_CTX_init :: "'c evp_md_ctx" where
  "EVP_MD_CTX_init = \<lparr>ctx_digest = None, ctx_md_data = None\<rparr>"

definition EVP_MD_CTX_cleanup :: "'c evp_md_ctx \<Rightarrow> 'c evp_md_ctx" where
  "EVP_MD_CTX_cleanup ctx = EVP_MD_CTX_init"

text \<open>The result is the context \<open>out\<close> after the call.\<close>

definition EVP_MD_CTX_copy_ex ::
    "(nat \<Rightarrow> bool) \<Rightarrow> 'c evp_md_ctx \<Rightarrow> ('c evp_md_ctx, unit) op" where
  "EVP_MD_CTX_copy_ex sys inp out =
     (case ctx_digest inp of
        None \<Rightarrow> (None, out)
      | Some digest \<Rightarrow>
          if \<not> same_md (ctx_digest out) (ctx_digest inp) \<and> \<not> OPENSSL_malloc sys (md_ctx_size digest) then (None, out)
          else (Some (), (EVP_MD_CTX_cleanup out)\<lparr>ctx_digest := Some digest, ctx_md_data := ctx_md_data inp\<rparr>))"

definition EVP_MD_CTX_move :: "'c evp_md_ctx \<Rightarrow> 'c evp_md_ctx \<Rightarrow> 'c evp_md_ctx \<times> 'c evp_md_ctx" where
  "EVP_MD_CTX_move out inp = (inp, EVP_MD_CTX_init)"

definition EVP_MD_CTX_copy ::
    "(nat \<Rightarrow> bool) \<Rightarrow> 'c evp_md_ctx \<Rightarrow> ('c evp_md_ctx, unit) op" where
  "EVP_MD_CTX_copy sys inp out = EVP_MD_CTX_copy_ex sys inp EVP_MD_CTX_init"

definition EVP_MD_CTX_reset :: "'c evp_md_ctx \<Rightarrow> 'c evp_md_ctx" where
  "EVP_MD_CTX_reset ctx = EVP_MD_CTX_init"

definition EVP_DigestInit_ex :: "(nat \<Rightarrow> bool) \<Rightarrow> 'c evp_md \<Rightarrow> ('c evp_md_ctx, unit) op" where
  "EVP_DigestInit_ex sys type ctx =
     (if \<not> same_md (ctx_digest ctx) (Some type) \<and> \<not> OPENSSL_malloc sys (md_ctx_size type) then (None, ctx)
      else
        let digest = (if \<not> same_md (ctx_digest ctx) (Some type) then type else the (ctx_digest ctx))
        in (Some (), ctx\<lparr>ctx_digest := Some digest, ctx_md_data := Some (md_init digest)\<rparr>))"

definition EVP_DigestInit :: "(nat \<Rightarrow> bool) \<Rightarrow> 'c evp_md \<Rightarrow> ('c evp_md_ctx, unit) op" where
  "EVP_DigestInit sys type ctx = EVP_DigestInit_ex sys type EVP_MD_CTX_init"

definition EVP_DigestUpdate :: "u8 list \<Rightarrow> ('c evp_md_ctx, unit) op" where
  "EVP_DigestUpdate data ctx =
     (case ctx_digest ctx of
        None \<Rightarrow> (None, ctx)
      | Some digest \<Rightarrow> (Some (), ctx\<lparr>ctx_md_data := map_option (md_update digest data) (ctx_md_data ctx)\<rparr>))"

definition EVP_DigestFinal_ex :: "('c evp_md_ctx, u8 list) op" where
  "EVP_DigestFinal_ex ctx =
     (case (ctx_digest ctx, ctx_md_data ctx) of
        (Some digest, Some st) \<Rightarrow>
          (Some (fst (md_final digest st)), ctx\<lparr>ctx_md_data := Some (md_zero digest)\<rparr>)
      | _ \<Rightarrow> (None, ctx))"

definition EVP_DigestFinal :: "('c evp_md_ctx, u8 list) op" where
  "EVP_DigestFinal ctx = (fst (EVP_DigestFinal_ex ctx), EVP_MD_CTX_init)"

definition EVP_Digest :: "(nat \<Rightarrow> bool) \<Rightarrow> u8 list \<Rightarrow> 'c evp_md \<Rightarrow> u8 list option" where
  "EVP_Digest sys data type =
     fst (pbind (EVP_DigestInit_ex sys type) (\<lambda>_. pbind (EVP_DigestUpdate data) (\<lambda>_. EVP_DigestFinal_ex))
       EVP_MD_CTX_init)"

section \<open>The digests\<close>

definition EVP_sha1 :: "md32_ctx evp_md" where
  "EVP_sha1 =
     \<lparr>md_type = 64, md_size = 20, md_init = SHA1_Init, md_update = SHA1_Update, md_final = SHA1_Final,
      md_block_size = 64, md_ctx_size = 96,
      md_zero = \<lparr>md_h = replicate 5 0, md_Nl = 0, md_Nh = 0, md_data = replicate 64 0, md_num = 0\<rparr>\<rparr>"

text \<open>\<open>SHA256_Final\<close> fails for no \<open>md_len\<close> that the init functions set; the method drops its result.\<close>

definition sha256_zero :: sha256_ctx where
  "sha256_zero = \<lparr>md_h = replicate 8 0, md_Nl = 0, md_Nh = 0, md_data = replicate 64 0, md_num = 0, md_len = 0\<rparr>"

definition EVP_sha224 :: "sha256_ctx evp_md" where
  "EVP_sha224 =
     \<lparr>md_type = 675, md_size = 28, md_init = SHA224_Init, md_update = SHA224_Update,
      md_final = (\<lambda>c. case SHA224_Final c of (out, c') \<Rightarrow> (case out of None \<Rightarrow> [] | Some bs \<Rightarrow> bs, c')),
      md_block_size = 64, md_ctx_size = 112, md_zero = sha256_zero\<rparr>"

definition EVP_sha256 :: "sha256_ctx evp_md" where
  "EVP_sha256 =
     \<lparr>md_type = 672, md_size = 32, md_init = SHA256_Init, md_update = SHA256_Update,
      md_final = (\<lambda>c. case SHA256_Final c of (out, c') \<Rightarrow> (case out of None \<Rightarrow> [] | Some bs \<Rightarrow> bs, c')),
      md_block_size = 64, md_ctx_size = 112, md_zero = sha256_zero\<rparr>"

section \<open>The contract of a digest\<close>

text \<open>A context that was initialised and has been given the message \<open>xs\<close>.\<close>

definition digest_holds :: "'c evp_md \<Rightarrow> u8 list \<Rightarrow> 'c evp_md_ctx \<Rightarrow> bool" where
  "digest_holds md xs ctx \<longleftrightarrow> ctx_digest ctx = Some md \<and>
     (\<exists>chunks. concat chunks = xs \<and> ctx_md_data ctx = Some (fold (md_update md) chunks (md_init md)))"

text \<open>A context that has never seen another digest.\<close>

definition digest_or_new :: "'c evp_md \<Rightarrow> 'c evp_md_ctx \<Rightarrow> bool" where
  "digest_or_new md ctx \<longleftrightarrow> ctx_digest ctx = None \<or> ctx_digest ctx = Some md"

locale digest_method =
  fixes md :: "'c evp_md" and H :: "u8 list \<Rightarrow> u8 list"
  assumes hashes: "fst (md_final md (fold (md_update md) chunks (md_init md))) = H (concat chunks)"
    and size_of: "length (H xs) = md_size md"
    and sizes: "0 < md_size md \<and> md_size md \<le> 64 \<and> md_size md \<le> md_block_size md \<and> md_block_size md \<le> 128 \<and>
      md_ctx_size md < 2 ^ 32"
begin

lemma init_starts:
  assumes "EVP_DigestInit_ex sys md ctx = (Some u, ctx')" and "digest_or_new md ctx"
  shows "digest_holds md [] ctx'"
proof -
  have "ctx_digest ctx' = Some md" "ctx_md_data ctx' = Some (md_init md)"
    using assms by (auto simp: EVP_DigestInit_ex_def digest_or_new_def same_md_def Let_def split: if_splits)
  then show ?thesis by (auto simp: digest_holds_def intro!: exI [of _ "[]"])
qed

lemma init_succeeds: "\<exists>ctx'. EVP_DigestInit_ex (\<lambda>_. True) md ctx = (Some (), ctx')"
  using sizes by (simp add: EVP_DigestInit_ex_def Let_def)

lemma update_appends:
  assumes "digest_holds md xs ctx"
  shows "\<exists>ctx'. EVP_DigestUpdate data ctx = (Some (), ctx') \<and> digest_holds md (xs @ data) ctx'"
proof -
  obtain chunks where c: "concat chunks = xs" "ctx_md_data ctx = Some (fold (md_update md) chunks (md_init md))"
    "ctx_digest ctx = Some md"
    using assms by (auto simp: digest_holds_def)
  then show ?thesis
    by (auto simp: EVP_DigestUpdate_def digest_holds_def intro!: exI [of _ "chunks @ [data]"])
qed

lemma final_gives:
  assumes "digest_holds md xs ctx"
  shows "\<exists>ctx'. EVP_DigestFinal_ex ctx = (Some (H xs), ctx') \<and> ctx_digest ctx' = Some md"
  using assms hashes by (auto simp: digest_holds_def EVP_DigestFinal_ex_def)

lemma copy_holds:
  assumes "digest_holds md xs inp" and "EVP_MD_CTX_copy_ex sys inp out = (Some u, out')"
  shows "digest_holds md xs out'"
  using assms by (auto simp: EVP_MD_CTX_copy_ex_def digest_holds_def EVP_MD_CTX_cleanup_def split: if_splits)

lemma copy_succeeds:
  assumes "digest_holds md xs inp"
  shows "\<exists>out'. EVP_MD_CTX_copy_ex (\<lambda>_. True) inp out = (Some (), out')"
    and "ctx_digest out = Some md \<Longrightarrow> \<exists>out'. EVP_MD_CTX_copy_ex sys inp out = (Some (), out')"
  using assms sizes by (auto simp: EVP_MD_CTX_copy_ex_def digest_holds_def same_md_def)

lemma digest_one_shot:
  "EVP_Digest sys data md = None \<or> EVP_Digest sys data md = Some (H data)"
  "EVP_Digest (\<lambda>_. True) data md = Some (H data)"
proof -
  have new: "digest_or_new md EVP_MD_CTX_init" by (simp add: digest_or_new_def EVP_MD_CTX_init_def)
  have after: "EVP_Digest sys data md = Some (H data)"
    if init: "EVP_DigestInit_ex sys md EVP_MD_CTX_init = (Some u, c)" for sys u c
  proof -
    from update_appends [OF init_starts [OF init new], of data] obtain c' where
      c': "EVP_DigestUpdate data c = (Some (), c')" "digest_holds md data c'" by auto
    from final_gives [OF c'(2)] obtain c'' where "EVP_DigestFinal_ex c' = (Some (H data), c'')" by blast
    with init c' show ?thesis by (simp add: EVP_Digest_def)
  qed
  obtain r c where "EVP_DigestInit_ex sys md EVP_MD_CTX_init = (r, c)" by fastforce
  with after show "EVP_Digest sys data md = None \<or> EVP_Digest sys data md = Some (H data)"
    by (cases r) (auto simp: EVP_Digest_def)
  show "EVP_Digest (\<lambda>_. True) data md = Some (H data)"
    using init_succeeds after by blast
qed

end

abbreviation sha224_hash :: "u8 list \<Rightarrow> u8 list" where
  "sha224_hash \<equiv> sha256_hash (md_h SHA224_Init) 28"

abbreviation sha256_hash' :: "u8 list \<Rightarrow> u8 list" where
  "sha256_hash' \<equiv> sha256_hash (md_h SHA256_Init) 32"

lemma length_words: "length (concat (map (\<lambda>w. be_bytes 4 (unat w)) ws)) = 4 * length ws"
  by (induction ws) auto

lemma length_sha1_hash: "length (sha1_hash m) = 20"
  unfolding sha1_hash_def length_words by (subst length_absorb [where n = 5]) simp_all

lemma length_sha256_hash: "length H0 = 8 \<Longrightarrow> len \<le> 32 \<Longrightarrow> length (sha256_hash H0 len m) = len"
  unfolding sha256_hash_def length_take length_words by (subst length_absorb [where n = 8]) simp_all

interpretation evp_sha1: digest_method EVP_sha1 sha1_hash
  by unfold_locales (simp_all add: EVP_sha1_def SHA1_stream length_sha1_hash)

interpretation evp_sha224: digest_method EVP_sha224 sha224_hash
  by unfold_locales
    (simp_all add: EVP_sha224_def SHA224_stream length_sha256_hash case_prod_beta)

interpretation evp_sha256: digest_method EVP_sha256 sha256_hash'
  by unfold_locales
    (simp_all add: EVP_sha256_def SHA256_stream length_sha256_hash case_prod_beta)

end
