(* ===== verification/Hmac.thy ===== *)
theory Hmac
  imports Digest
begin

text \<open>
  HMAC (\<open>crypto/fipsmodule/hmac/hmac.c\<close>) and HKDF (\<open>crypto/hkdf/hkdf.c\<close>) over any digest. An
  \<open>HMAC_CTX\<close> keeps the digest contexts that have absorbed the inner and the outer padded key, and
  the running one. The reference is the definition of HMAC on byte strings, and the chain of HMACs
  of HKDF.
\<close>

section \<open>Operations\<close>

record 'c hmac_ctx =
  hm_md :: "'c evp_md option"
  hm_md_ctx :: "'c evp_md_ctx"
  hm_i_ctx :: "'c evp_md_ctx"
  hm_o_ctx :: "'c evp_md_ctx"

definition HMAC_CTX_init :: "'c hmac_ctx" where
  "HMAC_CTX_init =
     \<lparr>hm_md = None, hm_md_ctx = EVP_MD_CTX_init, hm_i_ctx = EVP_MD_CTX_init, hm_o_ctx = EVP_MD_CTX_init\<rparr>"

text \<open>Long keys are hashed, in \<open>md_ctx\<close>; the result is the first \<open>key_block_len\<close> bytes of \<open>key_block\<close>.\<close>

definition hmac_key_block :: "(nat \<Rightarrow> bool) \<Rightarrow> u8 list \<Rightarrow> 'c evp_md \<Rightarrow> ('c evp_md_ctx, u8 list) op" where
  "hmac_key_block sys key md =
     (if md_block_size md < length key then
        pbind (EVP_DigestInit_ex sys md) (\<lambda>_. pbind (EVP_DigestUpdate key) (\<lambda>_. EVP_DigestFinal_ex))
      else pret key)"

definition hmac_pad_ctx :: "(nat \<Rightarrow> bool) \<Rightarrow> u8 \<Rightarrow> u8 list \<Rightarrow> 'c evp_md \<Rightarrow> ('c evp_md_ctx, unit) op" where
  "hmac_pad_ctx sys x key_block md =
     (let pad = map (\<lambda>b. x XOR b) key_block
      in pbind (EVP_DigestInit_ex sys md) (\<lambda>_. EVP_DigestUpdate (take (EVP_MD_block_size md) pad)))"

definition hmac_set_key :: "(nat \<Rightarrow> bool) \<Rightarrow> u8 list \<Rightarrow> 'c evp_md \<Rightarrow> ('c hmac_ctx, unit) op" where
  "hmac_set_key sys key md ctx =
     (case hmac_key_block sys key md (hm_md_ctx ctx) of
        (None, c) \<Rightarrow> (None, ctx\<lparr>hm_md_ctx := c\<rparr>)
      | (Some k, c) \<Rightarrow>
          let ctx = ctx\<lparr>hm_md_ctx := c\<rparr>; key_block = k @ replicate (128 - length k) 0 in
          (case hmac_pad_ctx sys 0x36 key_block md (hm_i_ctx ctx) of
             (None, c) \<Rightarrow> (None, ctx\<lparr>hm_i_ctx := c\<rparr>)
           | (Some _, c) \<Rightarrow>
               let ctx = ctx\<lparr>hm_i_ctx := c\<rparr> in
               (case hmac_pad_ctx sys 0x5c key_block md (hm_o_ctx ctx) of
                  (None, c) \<Rightarrow> (None, ctx\<lparr>hm_o_ctx := c\<rparr>)
                | (Some _, c) \<Rightarrow> (Some (), ctx\<lparr>hm_o_ctx := c, hm_md := Some md\<rparr>))))"

text \<open>
  \<open>key\<close> and \<open>md\<close> may be NULL (\<open>None\<close>). If both \<open>md\<close> and \<open>ctx->md\<close> are, then a key would have
  its block size read through NULL, and no key fails when \<open>i_ctx\<close> is copied.
\<close>

definition HMAC_Init_ex ::
    "(nat \<Rightarrow> bool) \<Rightarrow> u8 list option \<Rightarrow> 'c evp_md option \<Rightarrow> ('c hmac_ctx, unit) op" where
  "HMAC_Init_ex sys key md ctx =
     (case (case md of None \<Rightarrow> hm_md ctx | Some m \<Rightarrow> Some m) of
        None \<Rightarrow> (None, ctx)
      | Some m \<Rightarrow>
          (case (if \<not> same_md (Some m) (hm_md ctx) \<or> key \<noteq> None
                 then hmac_set_key sys (case key of None \<Rightarrow> [] | Some k \<Rightarrow> k) m ctx else (Some (), ctx)) of
             (None, ctx) \<Rightarrow> (None, ctx)
           | (Some _, ctx) \<Rightarrow>
               (case EVP_MD_CTX_copy_ex sys (hm_i_ctx ctx) (hm_md_ctx ctx) of
                  (r, c) \<Rightarrow> (r, ctx\<lparr>hm_md_ctx := c\<rparr>))))"

definition HMAC_Update :: "u8 list \<Rightarrow> ('c hmac_ctx, unit) op" where
  "HMAC_Update data ctx = (case EVP_DigestUpdate data (hm_md_ctx ctx) of (r, c) \<Rightarrow> (r, ctx\<lparr>hm_md_ctx := c\<rparr>))"

definition HMAC_Final :: "(nat \<Rightarrow> bool) \<Rightarrow> ('c hmac_ctx, u8 list) op" where
  "HMAC_Final sys ctx =
     (case pbind EVP_DigestFinal_ex (\<lambda>buf.
             pbind (EVP_MD_CTX_copy_ex sys (hm_o_ctx ctx)) (\<lambda>_.
             pbind (EVP_DigestUpdate buf) (\<lambda>_. EVP_DigestFinal_ex))) (hm_md_ctx ctx) of
        (r, c) \<Rightarrow> (r, ctx\<lparr>hm_md_ctx := c\<rparr>))"

definition HMAC :: "(nat \<Rightarrow> bool) \<Rightarrow> 'c evp_md \<Rightarrow> u8 list option \<Rightarrow> u8 list \<Rightarrow> u8 list option" where
  "HMAC sys evp_md key data =
     fst (pbind (HMAC_Init_ex sys key (Some evp_md)) (\<lambda>_. pbind (HMAC_Update data) (\<lambda>_. HMAC_Final sys)) HMAC_CTX_init)"

definition HMAC_size :: "'c hmac_ctx \<Rightarrow> nat option" where
  "HMAC_size ctx = map_option EVP_MD_size (hm_md ctx)"

definition HMAC_CTX_copy_ex :: "(nat \<Rightarrow> bool) \<Rightarrow> 'c hmac_ctx \<Rightarrow> ('c hmac_ctx, unit) op" where
  "HMAC_CTX_copy_ex sys src dest =
     (case EVP_MD_CTX_copy_ex sys (hm_i_ctx src) (hm_i_ctx dest) of
        (None, c) \<Rightarrow> (None, dest\<lparr>hm_i_ctx := c\<rparr>)
      | (Some _, c) \<Rightarrow>
          let dest = dest\<lparr>hm_i_ctx := c\<rparr> in
          (case EVP_MD_CTX_copy_ex sys (hm_o_ctx src) (hm_o_ctx dest) of
             (None, c) \<Rightarrow> (None, dest\<lparr>hm_o_ctx := c\<rparr>)
           | (Some _, c) \<Rightarrow>
               let dest = dest\<lparr>hm_o_ctx := c\<rparr> in
               (case EVP_MD_CTX_copy_ex sys (hm_md_ctx src) (hm_md_ctx dest) of
                  (None, c) \<Rightarrow> (None, dest\<lparr>hm_md_ctx := c\<rparr>)
                | (Some _, c) \<Rightarrow> (Some (), dest\<lparr>hm_md_ctx := c, hm_md := hm_md src\<rparr>))))"

definition HMAC_CTX_copy :: "(nat \<Rightarrow> bool) \<Rightarrow> 'c hmac_ctx \<Rightarrow> ('c hmac_ctx, unit) op" where
  "HMAC_CTX_copy sys src dest = HMAC_CTX_copy_ex sys src HMAC_CTX_init"

definition HMAC_CTX_reset :: "'c hmac_ctx \<Rightarrow> 'c hmac_ctx" where
  "HMAC_CTX_reset ctx = HMAC_CTX_init"

definition HMAC_Init :: "(nat \<Rightarrow> bool) \<Rightarrow> u8 list option \<Rightarrow> 'c evp_md option \<Rightarrow> ('c hmac_ctx, unit) op" where
  "HMAC_Init sys key md ctx =
     HMAC_Init_ex sys key md (if key \<noteq> None \<and> md \<noteq> None then HMAC_CTX_init else ctx)"

section \<open>HKDF\<close>

definition HKDF_extract :: "(nat \<Rightarrow> bool) \<Rightarrow> 'c evp_md \<Rightarrow> u8 list \<Rightarrow> u8 list option \<Rightarrow> u8 list option" where
  "HKDF_extract sys digest secret salt = HMAC sys digest salt secret"

text \<open>The loop from step \<open>i\<close> on: the HMAC context, \<open>previous\<close>, and the output so far.\<close>

definition hkdf_step ::
    "(nat \<Rightarrow> bool) \<Rightarrow> u8 list \<Rightarrow> nat \<Rightarrow> u8 list \<Rightarrow> ('c hmac_ctx, u8 list) op" where
  "hkdf_step sys info i previous =
     pbind (if i \<noteq> 0 then pbind (HMAC_Init_ex sys None None) (\<lambda>_. HMAC_Update previous) else pret ()) (\<lambda>_.
     pbind (HMAC_Update info) (\<lambda>_.
     pbind (HMAC_Update [word_of_nat (i + 1)]) (\<lambda>_. HMAC_Final sys)))"

fun hkdf_loop ::
    "(nat \<Rightarrow> bool) \<Rightarrow> u8 list \<Rightarrow> nat \<Rightarrow> nat \<Rightarrow> nat \<Rightarrow> nat \<Rightarrow> u8 list \<Rightarrow> u8 list \<Rightarrow> 'c hmac_ctx \<Rightarrow> u8 list option" where
  "hkdf_loop sys info digest_len out_len 0 i previous out hmac = Some out"
| "hkdf_loop sys info digest_len out_len (Suc n) i previous out hmac =
     (case hkdf_step sys info i previous hmac of
        (None, hmac) \<Rightarrow> None
      | (Some previous, hmac) \<Rightarrow>
          let todo = (if digest_len + length out > out_len then out_len - length out else digest_len)
          in hkdf_loop sys info digest_len out_len n (i + 1) previous (out @ take todo previous) hmac)"

definition HKDF_expand :: "(nat \<Rightarrow> bool) \<Rightarrow> nat \<Rightarrow> 'c evp_md \<Rightarrow> u8 list \<Rightarrow> u8 list \<Rightarrow> u8 list option" where
  "HKDF_expand sys out_len digest prk info =
     (let digest_len = EVP_MD_size digest;
          n = size_add out_len (digest_len - 1) div digest_len in
      if size_add out_len digest_len < out_len \<or> n > 255 then None
      else
        case HMAC_Init_ex sys (Some prk) (Some digest) HMAC_CTX_init of
          (None, hmac) \<Rightarrow> None
        | (Some _, hmac) \<Rightarrow> hkdf_loop sys info digest_len out_len n 0 [] [] hmac)"

definition HKDF ::
    "(nat \<Rightarrow> bool) \<Rightarrow> nat \<Rightarrow> 'c evp_md \<Rightarrow> u8 list \<Rightarrow> u8 list option \<Rightarrow> u8 list \<Rightarrow> u8 list option" where
  "HKDF sys out_len digest secret salt info =
     (case HKDF_extract sys digest secret salt of
        None \<Rightarrow> None
      | Some prk \<Rightarrow> HKDF_expand sys out_len digest prk info)"

section \<open>Reference\<close>

definition hmac_key :: "(u8 list \<Rightarrow> u8 list) \<Rightarrow> nat \<Rightarrow> u8 list \<Rightarrow> u8 list" where
  "hmac_key H B key = (let k = (if B < length key then H key else key) in k @ replicate (B - length k) 0)"

definition hmac_ref :: "(u8 list \<Rightarrow> u8 list) \<Rightarrow> nat \<Rightarrow> u8 list \<Rightarrow> u8 list \<Rightarrow> u8 list" where
  "hmac_ref H B key text =
     H (map (\<lambda>b. 0x5c XOR b) (hmac_key H B key) @ H (map (\<lambda>b. 0x36 XOR b) (hmac_key H B key) @ text))"

fun hkdf_T :: "(u8 list \<Rightarrow> u8 list \<Rightarrow> u8 list) \<Rightarrow> u8 list \<Rightarrow> u8 list \<Rightarrow> nat \<Rightarrow> u8 list" where
  "hkdf_T mac prk info 0 = []"
| "hkdf_T mac prk info (Suc i) = mac prk (hkdf_T mac prk info i @ info @ [word_of_nat (Suc i)])"

definition hkdf_ref :: "(u8 list \<Rightarrow> u8 list \<Rightarrow> u8 list) \<Rightarrow> nat \<Rightarrow> nat \<Rightarrow> u8 list \<Rightarrow> u8 list \<Rightarrow> u8 list" where
  "hkdf_ref mac L out_len prk info =
     take out_len (concat (map (\<lambda>i. hkdf_T mac prk info (Suc i)) [0..<(out_len + L - 1) div L]))"

text \<open>HKDF over a digest with blocks of 64 bytes and results of \<open>L\<close>; without a salt it is empty.\<close>

definition hkdf_expected ::
    "(u8 list \<Rightarrow> u8 list) \<Rightarrow> nat \<Rightarrow> nat \<Rightarrow> u8 list \<Rightarrow> u8 list option \<Rightarrow> u8 list \<Rightarrow> u8 list option" where
  "hkdf_expected H L out_len secret salt info =
     (if 255 < (out_len + L - 1) div L then None
      else Some (hkdf_ref (hmac_ref H 64) L out_len (hmac_ref H 64 (case salt of None \<Rightarrow> [] | Some k \<Rightarrow> k) secret) info))"

section \<open>Contexts\<close>

definition hmac_keyed :: "'c evp_md \<Rightarrow> (u8 list \<Rightarrow> u8 list) \<Rightarrow> u8 list \<Rightarrow> 'c hmac_ctx \<Rightarrow> bool" where
  "hmac_keyed md H key ctx \<longleftrightarrow> hm_md ctx = Some md \<and> ctx_digest (hm_md_ctx ctx) = Some md \<and>
     digest_holds md (map (\<lambda>b. 0x36 XOR b) (hmac_key H (md_block_size md) key)) (hm_i_ctx ctx) \<and>
     digest_holds md (map (\<lambda>b. 0x5c XOR b) (hmac_key H (md_block_size md) key)) (hm_o_ctx ctx)"

definition hmac_holds :: "'c evp_md \<Rightarrow> (u8 list \<Rightarrow> u8 list) \<Rightarrow> u8 list \<Rightarrow> u8 list \<Rightarrow> 'c hmac_ctx \<Rightarrow> bool" where
  "hmac_holds md H key xs ctx \<longleftrightarrow> hmac_keyed md H key ctx \<and>
     digest_holds md (map (\<lambda>b. 0x36 XOR b) (hmac_key H (md_block_size md) key) @ xs) (hm_md_ctx ctx)"

definition hmac_or_new :: "'c evp_md \<Rightarrow> 'c hmac_ctx \<Rightarrow> bool" where
  "hmac_or_new md ctx \<longleftrightarrow> digest_or_new md (hm_md_ctx ctx) \<and> digest_or_new md (hm_i_ctx ctx) \<and> digest_or_new md (hm_o_ctx ctx)"

lemma hmac_or_new_init: "hmac_or_new md HMAC_CTX_init"
  by (simp add: hmac_or_new_def HMAC_CTX_init_def EVP_MD_CTX_init_def digest_or_new_def)

lemma hmac_keyed_or_new: "hmac_keyed md H key ctx \<Longrightarrow> hmac_or_new md ctx"
  by (simp add: hmac_keyed_def hmac_or_new_def digest_or_new_def digest_holds_def)

text \<open>A message given in several buffers.\<close>

fun HMAC_updates :: "u8 list list \<Rightarrow> ('c hmac_ctx, unit) op" where
  "HMAC_updates [] = pret ()"
| "HMAC_updates (c # cs) = pbind (HMAC_Update c) (\<lambda>_. HMAC_updates cs)"

definition HMAC_stream :: "(nat \<Rightarrow> bool) \<Rightarrow> 'c evp_md \<Rightarrow> u8 list \<Rightarrow> u8 list list \<Rightarrow> u8 list option" where
  "HMAC_stream sys md key chunks =
     fst (pbind (HMAC_Init_ex sys (Some key) (Some md)) (\<lambda>_. pbind (HMAC_updates chunks) (\<lambda>_. HMAC_Final sys)) HMAC_CTX_init)"

lemma sha_block_sizes:
  "md_block_size EVP_sha1 = 64" "md_block_size EVP_sha224 = 64" "md_block_size EVP_sha256 = 64"
  "md_size EVP_sha1 = 20" "md_size EVP_sha224 = 28" "md_size EVP_sha256 = 32"
  by (simp_all add: EVP_sha1_def EVP_sha224_def EVP_sha256_def)

context digest_method
begin

lemma key_block_gives:
  assumes "hmac_key_block sys key md c = (Some k, c')" and "digest_or_new md c"
  shows "k = (if md_block_size md < length key then H key else key) \<and> digest_or_new md c'"
proof (cases "md_block_size md < length key")
  case True
  with assms obtain c1 c2 where c: "EVP_DigestInit_ex sys md c = (Some (), c1)"
    "EVP_DigestUpdate key c1 = (Some (), c2)" "EVP_DigestFinal_ex c2 = (Some k, c')"
    by (auto simp: hmac_key_block_def elim!: pbind_SomeE)
  from init_starts [OF c(1) assms(2)] have "digest_holds md [] c1" .
  from update_appends [OF this, of key] c(2) have "digest_holds md key c2" by auto
  from final_gives [OF this] c(3) show ?thesis using True by (auto simp: digest_or_new_def)
qed (use assms in \<open>simp add: hmac_key_block_def\<close>)

lemma pad_ctx_gives:
  assumes "hmac_pad_ctx sys x kb md c = (Some u, c')" and "digest_or_new md c"
  shows "digest_holds md (take (md_block_size md) (map (\<lambda>b. x XOR b) kb)) c'"
proof -
  from assms(1) obtain c1 where c: "EVP_DigestInit_ex sys md c = (Some (), c1)"
    "EVP_DigestUpdate (take (md_block_size md) (map (\<lambda>b. x XOR b) kb)) c1 = (Some (), c')"
    by (auto simp: hmac_pad_ctx_def Let_def EVP_MD_block_size_def elim!: pbind_SomeE)
  from init_starts [OF c(1) assms(2)] have "digest_holds md [] c1" .
  from update_appends [OF this, of "take (md_block_size md) (map (\<lambda>b. x XOR b) kb)"] c(2) show ?thesis by auto
qed

lemma padded_key:
  assumes "k = (if md_block_size md < length key then H key else key)"
  shows "take (md_block_size md) (map f (k @ replicate (128 - length k) 0)) = map f (hmac_key H (md_block_size md) key)"
proof -
  have "length k \<le> md_block_size md" using assms size_of sizes by simp
  moreover have "md_block_size md - length k \<le> 128 - length k" using sizes by (intro diff_le_mono) simp
  ultimately show ?thesis
    unfolding hmac_key_def Let_def assms [symmetric]
    by (simp add: take_map min_absorb1 del: take_append map_append) (simp add: min_absorb1)
qed

lemma set_key_keys:
  assumes run: "hmac_set_key sys key md ctx = (Some u, ctx')" and new: "hmac_or_new md ctx"
  shows "hm_md ctx' = Some md \<and> digest_or_new md (hm_md_ctx ctx') \<and>
    digest_holds md (map (\<lambda>b. 0x36 XOR b) (hmac_key H (md_block_size md) key)) (hm_i_ctx ctx') \<and>
    digest_holds md (map (\<lambda>b. 0x5c XOR b) (hmac_key H (md_block_size md) key)) (hm_o_ctx ctx')"
proof -
  from new have "digest_or_new md (hm_md_ctx ctx)" and i: "digest_or_new md (hm_i_ctx ctx)"
    and o: "digest_or_new md (hm_o_ctx ctx)"
    by (simp_all add: hmac_or_new_def)
  obtain k c where k: "hmac_key_block sys key md (hm_md_ctx ctx) = (Some k, c)"
    using run by (auto simp: hmac_set_key_def split: prod.splits option.splits)
  let ?kb = "k @ replicate (128 - length k) 0"
  obtain ci where ci: "hmac_pad_ctx sys 0x36 ?kb md (hm_i_ctx ctx) = (Some (), ci)"
    using run by (auto simp: hmac_set_key_def k Let_def split: prod.splits option.splits)
  obtain co where co: "hmac_pad_ctx sys 0x5c ?kb md (hm_o_ctx ctx) = (Some (), co)"
    using run by (auto simp: hmac_set_key_def k ci Let_def split: prod.splits option.splits)
  have ctx': "ctx' = ctx\<lparr>hm_md_ctx := c, hm_i_ctx := ci, hm_o_ctx := co, hm_md := Some md\<rparr>"
    using run by (simp add: hmac_set_key_def k ci co Let_def)
  from key_block_gives [OF k \<open>digest_or_new md (hm_md_ctx ctx)\<close>]
  have len: "k = (if md_block_size md < length key then H key else key)" and c: "digest_or_new md c" by simp_all
  note pads = pad_ctx_gives [OF ci i, unfolded padded_key [OF len]] pad_ctx_gives [OF co o, unfolded padded_key [OF len]]
  from pads c show ?thesis unfolding ctx' by simp
qed

lemma set_key_succeeds: "\<exists>ctx'. hmac_set_key (\<lambda>_. True) key md ctx = (Some (), ctx')"
proof -
  have pad: "\<exists>c'. hmac_pad_ctx (\<lambda>_. True) x kb md c = (Some (), c')" for x kb and c :: "'c evp_md_ctx"
    using sizes by (simp add: hmac_pad_ctx_def Let_def pbind_def EVP_DigestInit_ex_def EVP_DigestUpdate_def)
  have key: "\<exists>k c'. hmac_key_block (\<lambda>_. True) key md c = (Some k, c')" for c :: "'c evp_md_ctx"
    using sizes
    by (simp add: hmac_key_block_def Let_def pbind_def EVP_DigestInit_ex_def EVP_DigestUpdate_def EVP_DigestFinal_ex_def)
  obtain k c where k: "hmac_key_block (\<lambda>_. True) key md (hm_md_ctx ctx) = (Some k, c)" using key by blast
  obtain ci where ci: "hmac_pad_ctx (\<lambda>_. True) 0x36 (k @ replicate (128 - length k) 0) md (hm_i_ctx ctx) = (Some (), ci)"
    using pad by blast
  obtain co where "hmac_pad_ctx (\<lambda>_. True) 0x5c (k @ replicate (128 - length k) 0) md (hm_o_ctx ctx) = (Some (), co)"
    using pad by blast
  with k ci show ?thesis by (simp add: hmac_set_key_def Let_def)
qed

lemma HMAC_Init_keys:
  assumes run: "HMAC_Init_ex sys key (Some md) ctx = (Some u, ctx')"
    and new: "hmac_or_new md ctx" and fresh: "key = None \<Longrightarrow> hm_md ctx = None"
  shows "hmac_holds md H (case key of None \<Rightarrow> [] | Some k \<Rightarrow> k) [] ctx'"
proof -
  let ?k = "case key of None \<Rightarrow> [] | Some k \<Rightarrow> k"
  have "\<not> same_md (Some md) (hm_md ctx) \<or> key \<noteq> None" using fresh by (cases key) (simp_all add: same_md_def)
  then obtain ctx1 c where c: "hmac_set_key sys ?k md ctx = (Some (), ctx1)"
    "EVP_MD_CTX_copy_ex sys (hm_i_ctx ctx1) (hm_md_ctx ctx1) = (Some (), c)" "ctx' = ctx1\<lparr>hm_md_ctx := c\<rparr>"
    using run by (auto simp: HMAC_Init_ex_def split: prod.splits option.splits)
  from set_key_keys [OF c(1) new] copy_holds [OF _ c(2)] show ?thesis
    unfolding c(3) by (auto simp: hmac_holds_def hmac_keyed_def digest_holds_def)
qed

lemma HMAC_Init_succeeds:
  assumes new: "hmac_or_new md ctx" and fresh: "key = None \<Longrightarrow> hm_md ctx = None"
  shows "\<exists>ctx'. HMAC_Init_ex (\<lambda>_. True) key (Some md) ctx = (Some (), ctx')"
proof -
  let ?k = "case key of None \<Rightarrow> [] | Some k \<Rightarrow> k"
  have "\<not> same_md (Some md) (hm_md ctx) \<or> key \<noteq> None" using fresh by (cases key) (simp_all add: same_md_def)
  moreover obtain ctx1 where c: "hmac_set_key (\<lambda>_. True) ?k md ctx = (Some (), ctx1)"
    using set_key_succeeds by blast
  moreover obtain c where "EVP_MD_CTX_copy_ex (\<lambda>_. True) (hm_i_ctx ctx1) (hm_md_ctx ctx1) = (Some (), c)"
    using copy_succeeds(1) set_key_keys [OF c new] by blast
  ultimately show ?thesis by (simp add: HMAC_Init_ex_def)
qed

text \<open>Without a key and a digest the context starts again with the key it has; nothing is allocated.\<close>

lemma HMAC_Init_restarts:
  assumes "hmac_keyed md H key ctx"
  shows "\<exists>ctx'. HMAC_Init_ex sys None None ctx = (Some (), ctx') \<and> hmac_holds md H key [] ctx'"
proof -
  have i: "digest_holds md (map (\<lambda>b. 0x36 XOR b) (hmac_key H (md_block_size md) key)) (hm_i_ctx ctx)"
    and d: "ctx_digest (hm_md_ctx ctx) = Some md" "hm_md ctx = Some md"
    using assms by (simp_all add: hmac_keyed_def)
  from copy_succeeds(2) [OF i d(1)] obtain c where c: "EVP_MD_CTX_copy_ex sys (hm_i_ctx ctx) (hm_md_ctx ctx) = (Some (), c)"
    by blast
  with d have "HMAC_Init_ex sys None None ctx = (Some (), ctx\<lparr>hm_md_ctx := c\<rparr>)"
    by (simp add: HMAC_Init_ex_def same_md_def)
  then show ?thesis
    using assms copy_holds [OF i c] by (simp add: hmac_holds_def hmac_keyed_def digest_holds_def)
qed

lemma HMAC_Update_appends:
  assumes "hmac_holds md H key xs ctx"
  shows "\<exists>ctx'. HMAC_Update data ctx = (Some (), ctx') \<and> hmac_holds md H key (xs @ data) ctx'"
proof -
  from assms update_appends [of _ "hm_md_ctx ctx" data] obtain c where
    "EVP_DigestUpdate data (hm_md_ctx ctx) = (Some (), c)"
    "digest_holds md (map (\<lambda>b. 0x36 XOR b) (hmac_key H (md_block_size md) key) @ xs @ data) c"
    by (fastforce simp: hmac_holds_def)
  with assms show ?thesis
    by (simp add: HMAC_Update_def hmac_holds_def hmac_keyed_def digest_holds_def)
qed

lemma HMAC_Final_gives:
  assumes "hmac_holds md H key xs ctx"
  shows "\<exists>ctx'. HMAC_Final sys ctx = (Some (hmac_ref H (md_block_size md) key xs), ctx') \<and> hmac_keyed md H key ctx'"
proof -
  let ?K = "hmac_key H (md_block_size md) key"
  have keyed: "hmac_keyed md H key ctx" and inner: "digest_holds md (map (\<lambda>b. 0x36 XOR b) ?K @ xs) (hm_md_ctx ctx)"
    using assms by (simp_all add: hmac_holds_def)
  then have o: "digest_holds md (map (\<lambda>b. 0x5c XOR b) ?K) (hm_o_ctx ctx)" by (simp add: hmac_keyed_def)
  let ?buf = "H (map (\<lambda>b. 0x36 XOR b) ?K @ xs)"
  from final_gives [OF inner] obtain c1 where c1: "EVP_DigestFinal_ex (hm_md_ctx ctx) = (Some ?buf, c1)" "ctx_digest c1 = Some md"
    by blast
  from copy_succeeds(2) [OF o c1(2)] obtain c2 where c2: "EVP_MD_CTX_copy_ex sys (hm_o_ctx ctx) c1 = (Some (), c2)" by blast
  from update_appends [OF copy_holds [OF o c2], of ?buf] obtain c3 where
    c3: "EVP_DigestUpdate ?buf c2 = (Some (), c3)" "digest_holds md (map (\<lambda>b. 0x5c XOR b) ?K @ ?buf) c3"
    by blast
  from final_gives [OF c3(2)] obtain c4 where
    c4: "EVP_DigestFinal_ex c3 = (Some (H (map (\<lambda>b. 0x5c XOR b) ?K @ ?buf)), c4)" "ctx_digest c4 = Some md"
    by blast
  have "HMAC_Final sys ctx = (Some (hmac_ref H (md_block_size md) key xs), ctx\<lparr>hm_md_ctx := c4\<rparr>)"
    by (simp add: HMAC_Final_def c1 c2 c3 c4 hmac_ref_def)
  then show ?thesis using keyed c4(2) by (simp add: hmac_keyed_def)
qed

lemma HMAC_gives:
  "HMAC sys md key data = None \<or> HMAC sys md key data = Some (hmac_ref H (md_block_size md) (case key of None \<Rightarrow> [] | Some k \<Rightarrow> k) data)"
  "HMAC (\<lambda>_. True) md key data = Some (hmac_ref H (md_block_size md) (case key of None \<Rightarrow> [] | Some k \<Rightarrow> k) data)"
proof -
  let ?k = "case key of None \<Rightarrow> [] | Some k \<Rightarrow> k"
  have after: "HMAC sys md key data = Some (hmac_ref H (md_block_size md) ?k data)"
    if init: "HMAC_Init_ex sys key (Some md) HMAC_CTX_init = (Some u, ctx)" for sys u ctx
  proof -
    have "hmac_holds md H ?k [] ctx"
      using HMAC_Init_keys [OF init hmac_or_new_init] by (simp add: HMAC_CTX_init_def)
    from HMAC_Update_appends [OF this, of data] obtain c where
      c: "HMAC_Update data ctx = (Some (), c)" "hmac_holds md H ?k data c" by auto
    from HMAC_Final_gives [OF c(2), of sys] obtain c' where
      "HMAC_Final sys c = (Some (hmac_ref H (md_block_size md) ?k data), c')" by blast
    with init c show ?thesis by (simp add: HMAC_def)
  qed
  obtain r c where "HMAC_Init_ex sys key (Some md) HMAC_CTX_init = (r, c)" by fastforce
  with after show "HMAC sys md key data = None \<or> HMAC sys md key data = Some (hmac_ref H (md_block_size md) ?k data)"
    by (cases r) (auto simp: HMAC_def)
  show "HMAC (\<lambda>_. True) md key data = Some (hmac_ref H (md_block_size md) ?k data)"
    using HMAC_Init_succeeds [OF hmac_or_new_init, of key] after by (auto simp: HMAC_CTX_init_def)
qed

lemma length_hmac_ref: "length (hmac_ref H B key xs) = md_size md"
  by (simp add: hmac_ref_def size_of)

lemma hkdf_step_gives:
  assumes "if i = 0 then hmac_holds md H prk [] hmac else hmac_keyed md H prk hmac"
  shows "\<exists>hmac'. hkdf_step sys info i (hkdf_T (hmac_ref H (md_block_size md)) prk info i) hmac =
      (Some (hkdf_T (hmac_ref H (md_block_size md)) prk info (Suc i)), hmac') \<and> hmac_keyed md H prk hmac'"
proof -
  let ?T = "hkdf_T (hmac_ref H (md_block_size md)) prk info"
  let ?start = "if i \<noteq> 0 then pbind (HMAC_Init_ex sys None None) (\<lambda>_. HMAC_Update (?T i)) else pret ()"
  obtain h1 where h1: "?start hmac = (Some (), h1)" "hmac_holds md H prk (?T i) h1"
  proof (cases "i = 0")
    case True
    with assms that show thesis by simp
  next
    case False
    with assms HMAC_Init_restarts [of prk hmac sys] obtain h0 where
      h0: "HMAC_Init_ex sys None None hmac = (Some (), h0)" "hmac_holds md H prk [] h0" by auto
    from HMAC_Update_appends [OF h0(2), of "?T i"] False h0(1) that show thesis by fastforce
  qed
  from HMAC_Update_appends [OF h1(2), of info] obtain h2 where
    h2: "HMAC_Update info h1 = (Some (), h2)" "hmac_holds md H prk (?T i @ info) h2" by blast
  from HMAC_Update_appends [OF h2(2), of "[word_of_nat (i + 1)]"] obtain h3 where
    h3: "HMAC_Update [word_of_nat (i + 1)] h2 = (Some (), h3)"
    "hmac_holds md H prk ((?T i @ info) @ [word_of_nat (i + 1)]) h3" by blast
  from HMAC_Final_gives [OF h3(2), of sys] obtain h4 where
    "HMAC_Final sys h3 = (Some (?T (Suc i)), h4)" "hmac_keyed md H prk h4" by auto
  with h1(1) h2(1) h3(1) show ?thesis by (simp add: hkdf_step_def)
qed

lemma length_hkdf_blocks:
  "length (concat (map (\<lambda>i. hkdf_T (hmac_ref H (md_block_size md)) prk info (Suc i)) [0..<n])) = n * md_size md"
  by (induction n) (simp_all add: length_hmac_ref)

lemma hkdf_loop_gives:
  assumes "i + n = (out_len + md_size md - 1) div md_size md"
    and "if i = 0 then hmac_holds md H prk [] hmac else hmac_keyed md H prk hmac"
    and "out = take out_len (concat (map (\<lambda>i. hkdf_T (hmac_ref H (md_block_size md)) prk info (Suc i)) [0..<i]))"
  shows "hkdf_loop sys info (md_size md) out_len n i (hkdf_T (hmac_ref H (md_block_size md)) prk info i) out hmac =
    Some (hkdf_ref (hmac_ref H (md_block_size md)) (md_size md) out_len prk info)"
  using assms
proof (induction n arbitrary: i out hmac)
  case 0
  then show ?case by (simp add: hkdf_ref_def)
next
  case (Suc n)
  let ?T = "hkdf_T (hmac_ref H (md_block_size md)) prk info" and ?L = "md_size md"
  let ?C = "concat (map (\<lambda>i. ?T (Suc i)) [0..<i])"
  have L: "0 < ?L" using sizes by simp
  have "Suc i * ?L \<le> (out_len + ?L - 1) div ?L * ?L"
    using Suc.prems(1) by (intro mult_le_mono1) simp
  also have "\<dots> \<le> out_len + ?L - 1" by (rule div_times_less_eq_dividend)
  finally have "Suc i * ?L \<le> out_len + ?L - 1" .
  then have room: "i * ?L < out_len" using L by simp
  from hkdf_step_gives [OF Suc.prems(2), of sys info] obtain hmac' where
    step: "hkdf_step sys info i (?T i) hmac = (Some (?T (Suc i)), hmac')" "hmac_keyed md H prk hmac'" by blast
  have out: "out = ?C" using Suc.prems(3) room length_hkdf_blocks [of prk info i] by simp
  let ?todo = "if ?L + length out > out_len then out_len - length out else ?L"
  have "out @ take ?todo (?T (Suc i)) = take out_len (concat (map (\<lambda>i. ?T (Suc i)) [0..<Suc i]))"
    using room length_hkdf_blocks [of prk info i] length_hmac_ref [of "md_block_size md" prk "?T i @ info @ [word_of_nat (Suc i)]"]
    unfolding out by simp
  with Suc.IH [of "Suc i" hmac', OF _ _ refl] Suc.prems(1) step show ?case
    by (simp add: Let_def del: hkdf_T.simps)
qed

lemma HKDF_expand_gives:
  assumes "HMAC_Init_ex sys (Some prk) (Some md) HMAC_CTX_init = (Some u, hmac)"
  shows "HKDF_expand sys out_len md prk info =
    (if (out_len + md_size md - 1) div md_size md > 255 then None
     else Some (hkdf_ref (hmac_ref H (md_block_size md)) (md_size md) out_len prk info))"
proof -
  have L: "0 < md_size md" "md_size md \<le> 64" using sizes by simp_all
  have holds: "hmac_holds md H prk [] hmac"
    using HMAC_Init_keys [OF assms hmac_or_new_init] by simp
  show ?thesis
  proof (cases "out_len + md_size md < size_modulus")
    case True
    then have "size_add out_len (md_size md) = out_len + md_size md"
      "size_add out_len (md_size md - 1) = out_len + md_size md - 1"
      using L by (simp_all add: size_add_exact)
    then show ?thesis
      using assms hkdf_loop_gives [of 0 "(out_len + md_size md - 1) div md_size md" out_len prk hmac "[]" info sys] holds
      by (simp add: HKDF_expand_def EVP_MD_size_def Let_def)
  next
    case False
    have wraps: "size_add out_len (md_size md) < out_len"
    proof (cases "out_len < size_modulus")
      case True
      then show ?thesis using False L size_add_wraps_iff [of out_len "md_size md"] by simp
    next
      case False
      then show ?thesis using size_add_less [of out_len "md_size md"] by simp
    qed
    have "256 * md_size md \<le> out_len + md_size md - 1" using False L by simp
    then have "255 < (out_len + md_size md - 1) div md_size md"
      using less_eq_div_iff_mult_less_eq [OF L(1), of 256 "out_len + md_size md - 1"] by simp
    with wraps show ?thesis by (simp add: HKDF_expand_def EVP_MD_size_def Let_def)
  qed
qed

lemma HKDF_gives:
  fixes salt
  defines "prk secret \<equiv> hmac_ref H (md_block_size md) (case salt of None \<Rightarrow> [] | Some k \<Rightarrow> k) secret"
  defines "expected secret out_len info \<equiv> (if (out_len + md_size md - 1) div md_size md > 255 then None
     else Some (hkdf_ref (hmac_ref H (md_block_size md)) (md_size md) out_len (prk secret) info))"
  shows "HKDF sys out_len md secret salt info = None \<or> HKDF sys out_len md secret salt info = expected secret out_len info"
    and "HKDF (\<lambda>_. True) out_len md secret salt info = expected secret out_len info"
proof -
  have expand: "HKDF_expand sys out_len md k info = None \<or> HKDF_expand sys out_len md k info =
      (if (out_len + md_size md - 1) div md_size md > 255 then None
       else Some (hkdf_ref (hmac_ref H (md_block_size md)) (md_size md) out_len k info))" for sys k
  proof -
    obtain r c where "HMAC_Init_ex sys (Some k) (Some md) HMAC_CTX_init = (r, c)" by fastforce
    then show ?thesis
      using HKDF_expand_gives [of sys k _ c out_len info] by (cases r) (auto simp: HKDF_expand_def Let_def)
  qed
  show "HKDF sys out_len md secret salt info = None \<or> HKDF sys out_len md secret salt info = expected secret out_len info"
    using HMAC_gives(1) [of sys salt secret] expand [of sys "prk secret"]
    by (auto simp: HKDF_def HKDF_extract_def expected_def prk_def simp del: if_split_eq1)
  obtain c where "HMAC_Init_ex (\<lambda>_. True) (Some (prk secret)) (Some md) HMAC_CTX_init = (Some (), c)"
    using HMAC_Init_succeeds [OF hmac_or_new_init, of "Some (prk secret)"] by auto
  from HKDF_expand_gives [OF this, of out_len info]
  show "HKDF (\<lambda>_. True) out_len md secret salt info = expected secret out_len info"
    using HMAC_gives(2) [of salt secret] by (simp add: HKDF_def HKDF_extract_def expected_def prk_def)
qed

lemma HMAC_updates_append:
  "hmac_holds md H key xs ctx \<Longrightarrow>
    \<exists>ctx'. HMAC_updates chunks ctx = (Some (), ctx') \<and> hmac_holds md H key (xs @ concat chunks) ctx'"
proof (induction chunks arbitrary: xs ctx)
  case (Cons c cs)
  from HMAC_Update_appends [OF Cons.prems, of c] obtain ctx1 where
    "HMAC_Update c ctx = (Some (), ctx1)" "hmac_holds md H key (xs @ c) ctx1" by blast
  with Cons.IH [of "xs @ c" ctx1] show ?case by simp
qed simp

lemma HMAC_stream_gives:
  "HMAC_stream sys md key chunks = None \<or> HMAC_stream sys md key chunks = Some (hmac_ref H (md_block_size md) key (concat chunks))"
  "HMAC_stream (\<lambda>_. True) md key chunks = Some (hmac_ref H (md_block_size md) key (concat chunks))"
proof -
  have after: "HMAC_stream sys md key chunks = Some (hmac_ref H (md_block_size md) key (concat chunks))"
    if init: "HMAC_Init_ex sys (Some key) (Some md) HMAC_CTX_init = (Some u, ctx)" for sys u ctx
  proof -
    have "hmac_holds md H key [] ctx"
      using HMAC_Init_keys [OF init hmac_or_new_init] by simp
    from HMAC_updates_append [OF this, of chunks] obtain c where
      c: "HMAC_updates chunks ctx = (Some (), c)" "hmac_holds md H key (concat chunks) c" by auto
    from HMAC_Final_gives [OF c(2), of sys] obtain c' where
      "HMAC_Final sys c = (Some (hmac_ref H (md_block_size md) key (concat chunks)), c')" by blast
    with init c show ?thesis by (simp add: HMAC_stream_def)
  qed
  obtain r c where "HMAC_Init_ex sys (Some key) (Some md) HMAC_CTX_init = (r, c)" by fastforce
  with after show "HMAC_stream sys md key chunks = None \<or>
      HMAC_stream sys md key chunks = Some (hmac_ref H (md_block_size md) key (concat chunks))"
    by (cases r) (auto simp: HMAC_stream_def)
  show "HMAC_stream (\<lambda>_. True) md key chunks = Some (hmac_ref H (md_block_size md) key (concat chunks))"
    using HMAC_Init_succeeds [OF hmac_or_new_init, of "Some key"] after by auto
qed

end

section \<open>Properties\<close>

text \<open>
  C9: HMAC over SHA-1, SHA-224 and SHA-256, from one buffer or many, and with keys of any
  length, is HMAC of the standard; it fails only when an allocation fails.
\<close>

theorem HMAC_correct:
  "HMAC_stream sys EVP_sha1 key chunks \<in> {None, Some (hmac_ref sha1_hash 64 key (concat chunks))} \<and>
    HMAC_stream sys EVP_sha224 key chunks \<in> {None, Some (hmac_ref sha224_hash 64 key (concat chunks))} \<and>
    HMAC_stream sys EVP_sha256 key chunks \<in> {None, Some (hmac_ref sha256_hash' 64 key (concat chunks))} \<and>
    HMAC_stream (\<lambda>_. True) EVP_sha1 key chunks = Some (hmac_ref sha1_hash 64 key (concat chunks)) \<and>
    HMAC_stream (\<lambda>_. True) EVP_sha224 key chunks = Some (hmac_ref sha224_hash 64 key (concat chunks)) \<and>
    HMAC_stream (\<lambda>_. True) EVP_sha256 key chunks = Some (hmac_ref sha256_hash' 64 key (concat chunks))"
  using evp_sha1.HMAC_stream_gives evp_sha224.HMAC_stream_gives evp_sha256.HMAC_stream_gives
  unfolding sha_block_sizes by simp

text \<open>
  C10: HKDF over SHA-1, SHA-224 and SHA-256 refuses exactly the lengths that take more than 255 blocks of the digest,
  and otherwise returns the first bytes of the chain of HMACs of the standard; it fails otherwise only when an
  allocation does.
\<close>

theorem HKDF_correct:
  "HKDF (\<lambda>_. True) out_len EVP_sha1 secret salt info = hkdf_expected sha1_hash 20 out_len secret salt info \<and>
    HKDF (\<lambda>_. True) out_len EVP_sha224 secret salt info = hkdf_expected sha224_hash 28 out_len secret salt info \<and>
    HKDF (\<lambda>_. True) out_len EVP_sha256 secret salt info = hkdf_expected sha256_hash' 32 out_len secret salt info \<and>
    HKDF sys out_len EVP_sha1 secret salt info \<in> {None, hkdf_expected sha1_hash 20 out_len secret salt info} \<and>
    HKDF sys out_len EVP_sha224 secret salt info \<in> {None, hkdf_expected sha224_hash 28 out_len secret salt info} \<and>
    HKDF sys out_len EVP_sha256 secret salt info \<in> {None, hkdf_expected sha256_hash' 32 out_len secret salt info}"
  unfolding evp_sha1.HKDF_gives(2) evp_sha224.HKDF_gives(2) evp_sha256.HKDF_gives(2) hkdf_expected_def
  using evp_sha1.HKDF_gives(1) [of sys out_len secret salt info] evp_sha224.HKDF_gives(1) [of sys out_len secret salt info]
    evp_sha256.HKDF_gives(1) [of sys out_len secret salt info]
  unfolding sha_block_sizes insert_iff empty_iff simp_thms by (intro conjI refl) blast+

end
