(* ===== verification/Tls_Cbc.thy ===== *)
theory Tls_Cbc
  imports Const_Time Hmac
begin

text \<open>
  The part of TLS's CBC records that must not leak through timing (\<open>crypto/cipher_extra/tls_cbc.c\<close>):
  removing the padding, copying the MAC from a secret position, and the HMAC of a secret
  number of bytes. The masks are those of theory \<open>Const_Time\<close>; sizes are numbers, made words where
  the code compares them with masks. The references are what the branching code would be: a
  test of the padding, a copy, and HMAC.
\<close>

section \<open>Operations\<close>

definition tls_padding_step :: "u8 list \<Rightarrow> crypto_word \<Rightarrow> nat \<Rightarrow> crypto_word \<Rightarrow> crypto_word" where
  "tls_padding_step inp padding_length i good =
     (let mask = constant_time_ge_8 padding_length (word_of_nat i);
          b = inp ! (length inp - 1 - i)
      in good AND NOT (ucast mask AND (padding_length XOR ucast b)))"

text \<open>The results are \<open>*out_padding_ok\<close> and \<open>*out_len\<close>.\<close>

definition EVP_tls_cbc_remove_padding :: "u8 list \<Rightarrow> nat \<Rightarrow> (crypto_word \<times> nat) option" where
  "EVP_tls_cbc_remove_padding inp mac_size =
     (let overhead = 1 + mac_size; in_len = length inp in
      if overhead > in_len then None
      else
        let padding_length = ucast (inp ! (in_len - 1));
            good = constant_time_ge_w (word_of_nat in_len) (word_of_nat overhead + padding_length);
            to_check = (if 256 > in_len then in_len else 256);
            good = fold (tls_padding_step inp padding_length) [0..<to_check] good;
            good = constant_time_eq_w 0xff (good AND 0xff);
            padding_length = good AND (padding_length + 1)
        in Some (good, in_len - unat padding_length))"

text \<open>The state of the first loop: \<open>j\<close>, \<open>rotated_mac\<close>, \<open>rotate_offset\<close>, \<open>mac_started\<close>.\<close>

definition copy_mac_step ::
    "nat \<Rightarrow> u8 list \<Rightarrow> nat \<Rightarrow> nat \<Rightarrow> nat \<Rightarrow> nat \<times> u8 list \<times> crypto_word \<times> u8 \<Rightarrow> nat \<times> u8 list \<times> crypto_word \<times> u8" where
  "copy_mac_step mac_size inp mac_start mac_end i s =
     (case s of (j, rotated_mac, rotate_offset, mac_started) \<Rightarrow>
        let j = (if j \<ge> mac_size then j - mac_size else j);
            is_mac_start = constant_time_eq_w (word_of_nat i) (word_of_nat mac_start);
            mac_started = mac_started OR ucast is_mac_start;
            mac_ended = constant_time_ge_8 (word_of_nat i) (word_of_nat mac_end);
            rotated_mac = rotated_mac[j := rotated_mac ! j OR (inp ! i AND mac_started AND NOT mac_ended)];
            rotate_offset = rotate_offset OR (word_of_nat j AND is_mac_start)
        in (j + 1, rotated_mac, rotate_offset, mac_started))"

definition rotate_mac_by :: "u8 \<Rightarrow> nat \<Rightarrow> u8 list \<Rightarrow> u8 list" where
  "rotate_mac_by skip_rotate offset rotated_mac =
     map (\<lambda>i. let j = i + offset; j = (if j \<ge> length rotated_mac then j - length rotated_mac else j)
              in constant_time_select_8 skip_rotate (rotated_mac ! i) (rotated_mac ! j))
       [0..<length rotated_mac]"

function rotate_mac_loop :: "nat \<Rightarrow> nat \<Rightarrow> crypto_word \<Rightarrow> u8 list \<Rightarrow> u8 list" where
  "rotate_mac_loop mac_size offset rotate_offset rotated_mac =
     (if offset = 0 \<or> offset \<ge> mac_size then rotated_mac
      else
        let skip_rotate = ucast ((rotate_offset AND 1) - 1)
        in rotate_mac_loop mac_size (2 * offset) (drop_bit 1 rotate_offset) (rotate_mac_by skip_rotate offset rotated_mac))"
  by pat_completeness auto
termination by (relation "measure (\<lambda>(mac_size, offset, r, m). mac_size - offset)") auto

declare rotate_mac_loop.simps [simp del]

definition EVP_tls_cbc_copy_mac :: "nat \<Rightarrow> u8 list \<Rightarrow> nat \<Rightarrow> nat \<Rightarrow> u8 list" where
  "EVP_tls_cbc_copy_mac mac_size inp in_len orig_len =
     (let mac_end = in_len; mac_start = mac_end - mac_size;
          scan_start = (if orig_len > mac_size + 255 + 1 then orig_len - (mac_size + 255 + 1) else 0);
          (j, rotated_mac, rotate_offset, mac_started) =
            fold (copy_mac_step mac_size inp mac_start mac_end) [scan_start..<orig_len] (0, replicate mac_size 0, 0, 0)
      in rotate_mac_loop mac_size 1 rotate_offset rotated_mac)"

section \<open>Padding\<close>

definition tls_padding_ok :: "u8 list \<Rightarrow> nat \<Rightarrow> bool" where
  "tls_padding_ok inp mac_size \<longleftrightarrow>
     mac_size + 1 + unat (last inp) \<le> length inp \<and>
     drop (length inp - (unat (last inp) + 1)) inp = replicate (unat (last inp) + 1) (last inp)"

lemma and_mask_of: "(mask_of b AND x :: 'a::len word) = (if b then x else 0)"
  by simp

lemma bit_ff: "bit (0xff :: crypto_word) n \<longleftrightarrow> n < 8"
proof -
  have "(0xff :: crypto_word) = mask 8" by (simp add: mask_eq_exp_minus_1)
  then show ?thesis by (simp only: bit_mask_iff) auto
qed

lemma low_byte_full:
  fixes good x :: crypto_word
  shows "(good AND NOT x) AND 0xff = 0xff \<longleftrightarrow> good AND 0xff = 0xff \<and> x AND 0xff = 0"
  by (auto simp: bit_eq_iff bit_and_iff bit_not_iff bit_ff)

lemma padding_byte_differs:
  "(ucast (mask_of c :: u8) AND (ucast p XOR ucast b) :: crypto_word) AND 0xff = 0 \<longleftrightarrow> (c \<longrightarrow> p = b)"
  for p b :: u8
proof -
  have "(ucast (- 1 :: u8) AND (ucast p XOR ucast b) :: crypto_word) AND 0xff = ucast (p XOR b)"
  proof (rule bit_word_eqI)
    have ff: "(ucast (- 1 :: u8) :: crypto_word) = 0xff"
    proof -
      have "unat (ucast (- 1 :: u8) :: crypto_word) = unat (- 1 :: u8)" by (rule unat_ucast_up) simp
      moreover have "unat (- 1 :: u8) = 255" by (simp add: unsigned_minus_1_eq_mask mask_eq_exp_minus_1)
      ultimately show ?thesis by (simp add: word_unat_eq_iff)
    qed
    fix n assume "n < LENGTH(64)"
    then show "bit ((ucast (- 1 :: u8) AND (ucast p XOR ucast b) :: crypto_word) AND 0xff) n = bit (ucast (p XOR b) :: crypto_word) n"
      unfolding ff bit_and_iff bit_xor_iff bit_ucast_iff bit_ff by (auto dest: bit_imp_le_length)
  qed
  moreover have "(ucast (p XOR b) :: crypto_word) = 0 \<longleftrightarrow> p = b"
  proof -
    have "(ucast (p XOR b) :: crypto_word) = 0 \<longleftrightarrow> p XOR b = 0"
      by (simp add: word_unat_eq_iff unat_ucast_up)
    then show ?thesis by (simp add: u8_xor_eq_0_iff)
  qed
  ultimately show ?thesis by simp
qed

lemma padding_fold:
  assumes "p = inp ! (length inp - 1)" and "length inp < 2 ^ 63"  and "n \<le> length inp"
  shows "fold (tls_padding_step inp (ucast p)) [0..<n] good AND 0xff = 0xff \<longleftrightarrow>
    good AND 0xff = 0xff \<and> (\<forall>i<n. i \<le> unat p \<longrightarrow> inp ! (length inp - 1 - i) = p)"
  using assms(3)
proof (induction n)
  case (Suc n)
  let ?g = "fold (tls_padding_step inp (ucast p)) [0..<n] good"
  have le: "(word_of_nat n :: crypto_word) \<le> ucast p \<longleftrightarrow> n \<le> unat p"
    using Suc.prems assms(2) by (simp add: word_le_nat_alt unat_of_nat unat_ucast_up)
  have "tls_padding_step inp (ucast p) n ?g AND 0xff = 0xff \<longleftrightarrow>
      ?g AND 0xff = 0xff \<and> (n \<le> unat p \<longrightarrow> p = inp ! (length inp - 1 - n))"
    unfolding tls_padding_step_def Let_def low_byte_full const_time padding_byte_differs le ..
  with Suc show ?case by (auto simp: less_Suc_eq)
qed simp


lemma padding_suffix:
  assumes "k < length inp"
  shows "drop (length inp - (k + 1)) inp = replicate (k + 1) p \<longleftrightarrow> (\<forall>i\<le>k. inp ! (length inp - 1 - i) = p)"
proof -
  have "drop (length inp - (k + 1)) inp = replicate (k + 1) p \<longleftrightarrow>
      (\<forall>j<k + 1. inp ! (length inp - (k + 1) + j) = p)"
    using assms by (subst list_eq_iff_nth_eq) (auto simp del: replicate_Suc)
  also have "\<dots> \<longleftrightarrow> (\<forall>i\<le>k. inp ! (length inp - 1 - i) = p)"
  proof (intro iffI allI impI)
    fix i assume all: "\<forall>j<k + 1. inp ! (length inp - (k + 1) + j) = p" and "i \<le> k"
    have "inp ! (length inp - (k + 1) + (k - i)) = p" by (rule all [rule_format]) simp
    moreover have "length inp - (k + 1) + (k - i) = length inp - 1 - i" using assms \<open>i \<le> k\<close> by simp
    ultimately show "inp ! (length inp - 1 - i) = p" by simp
  next
    fix j assume all: "\<forall>i\<le>k. inp ! (length inp - 1 - i) = p" and "j < k + 1"
    have "inp ! (length inp - 1 - (k - j)) = p" by (rule all [rule_format]) simp
    moreover have "length inp - 1 - (k - j) = length inp - (k + 1) + j" using assms \<open>j < k + 1\<close> by simp
    ultimately show "inp ! (length inp - (k + 1) + j) = p" by metis
  qed
  finally show ?thesis .
qed

lemma EVP_tls_cbc_remove_padding_eq:
  assumes "length inp < 2 ^ 63"
  shows "EVP_tls_cbc_remove_padding inp mac_size =
    (if length inp < mac_size + 1 then None
     else if tls_padding_ok inp mac_size then Some (- 1, length inp - (unat (last inp) + 1))
     else Some (0, length inp))"
proof (cases "length inp < mac_size + 1")
  case True
  then show ?thesis by (simp add: EVP_tls_cbc_remove_padding_def Let_def)
next
  case False
  let ?p = "last inp" and ?n = "length inp"
  have p: "?p = inp ! (?n - 1)" using False by (intro last_conv_nth) auto
  have p256: "unat ?p < 256" by simp
  define good where "good = constant_time_ge_w (word_of_nat ?n) (word_of_nat (1 + mac_size) + ucast ?p)"
  have "word_of_nat (1 + mac_size) + (ucast ?p :: crypto_word) = word_of_nat (1 + mac_size + unat ?p)"
    by (metis of_nat_add of_nat_unat)
  moreover have "unat (word_of_nat (1 + mac_size + unat ?p) :: crypto_word) = 1 + mac_size + unat ?p"
  proof (rule unat_u64_of_nat)
    have "1 + mac_size + unat ?p < 2 ^ 63 + 256" using False assms p256 by linarith
    also have "\<dots> < (2 :: nat) ^ 64" by simp
    finally show "1 + mac_size + unat ?p < 2 ^ 64" .
  qed
  moreover have "unat (word_of_nat ?n :: crypto_word) = ?n"
    using assms by (intro unat_u64_of_nat) simp
  ultimately have good: "good = mask_of (mac_size + 1 + unat ?p \<le> ?n)"
    unfolding good_def const_time word_le_nat_alt by (simp only: add.commute)
  let ?check = "if 256 > ?n then ?n else 256"
  have "fold (tls_padding_step inp (ucast ?p)) [0..<?check] good AND 0xff = 0xff \<longleftrightarrow>
      good AND 0xff = 0xff \<and> (\<forall>i<?check. i \<le> unat ?p \<longrightarrow> inp ! (?n - 1 - i) = ?p)"
    by (rule padding_fold [OF p assms]) simp
  also have "\<dots> \<longleftrightarrow> tls_padding_ok inp mac_size"
  proof (cases "mac_size + 1 + unat ?p \<le> ?n")
    case True
    then have "i \<le> unat ?p \<Longrightarrow> i < ?check" for i using le_less_trans [OF _ p256, of i] by auto
    then have "(\<forall>i<?check. i \<le> unat ?p \<longrightarrow> inp ! (?n - 1 - i) = ?p) \<longleftrightarrow> (\<forall>i\<le>unat ?p. inp ! (?n - 1 - i) = ?p)"
      by blast
    also have "\<dots> \<longleftrightarrow> tls_padding_ok inp mac_size"
      unfolding tls_padding_ok_def using True padding_suffix [of "unat ?p" inp ?p] by simp
    finally show ?thesis using True by (simp add: good)
  qed (simp add: good tls_padding_ok_def)
  finally have ok: "fold (tls_padding_step inp (ucast ?p)) [0..<?check] good AND 0xff = 0xff \<longleftrightarrow> tls_padding_ok inp mac_size" .
  have "unat (ucast ?p + 1 :: crypto_word) = unat ?p + 1"
  proof -
    have "unat ?p + 1 < 257" using p256 by linarith
    also have "\<dots> \<le> (2 :: nat) ^ 64" by simp
    finally have "unat (word_of_nat (unat ?p + 1) :: crypto_word) = unat ?p + 1" by (rule unat_u64_of_nat)
    moreover have "(ucast ?p + 1 :: crypto_word) = word_of_nat (unat ?p + 1)"
      by (metis of_nat_1 of_nat_add of_nat_unat)
    ultimately show ?thesis by (simp only:)
  qed
  moreover have "EVP_tls_cbc_remove_padding inp mac_size =
    Some (mask_of (tls_padding_ok inp mac_size), ?n - unat (mask_of (tls_padding_ok inp mac_size) AND (ucast ?p + 1 :: crypto_word)))"
  proof -
    have "(1 + mac_size > ?n) = False" using False by simp
    moreover have "0xff = fold (tls_padding_step inp (ucast ?p)) [0..<?check] good AND 0xff \<longleftrightarrow> tls_padding_ok inp mac_size"
      using ok by metis
    ultimately show ?thesis
      unfolding EVP_tls_cbc_remove_padding_def Let_def p [symmetric] good_def [symmetric] constant_time_eq_w_eq
      by (simp only: if_False)
  qed
  ultimately show ?thesis using False by simp
qed


section \<open>Copying the MAC\<close>

lemma mod_less_twice: "m < 2 * n \<Longrightarrow> m mod n = (if m < n then m else m - n)" for m n :: nat
  by (subst mod_if) auto

lemma rotate_mac_by_eq:
  assumes "offset < length xs"
  shows "rotate_mac_by (mask_of c) offset xs = (if c then xs else rotate offset xs)"
proof (rule nth_equalityI)
  fix i assume "i < length (rotate_mac_by (mask_of c) offset xs)"
  then have i: "i < length xs" by (simp add: rotate_mac_by_def)
  have nth: "rotate_mac_by (mask_of c) offset xs ! i =
      (if c then xs ! i else xs ! (if i + offset \<ge> length xs then i + offset - length xs else i + offset))"
    using i by (simp add: rotate_mac_by_def Let_def const_time)
  have "(if i + offset \<ge> length xs then i + offset - length xs else i + offset) = (offset + i) mod length xs"
    using i assms by (subst mod_less_twice) (auto simp: add.commute)
  then show "rotate_mac_by (mask_of c) offset xs ! i = (if c then xs else rotate offset xs) ! i"
    unfolding nth using i by (cases c) (simp_all only: if_True if_False nth_rotate)
qed (simp add: rotate_mac_by_def)

lemma skip_rotate_mask: "(ucast ((r AND 1) - 1 :: crypto_word) :: u8) = mask_of (even (unat r))"
proof -
  have "odd (unat r) \<longleftrightarrow> odd r"
    unfolding bit_0 [symmetric] by (simp only: bit_unsigned_iff) simp
  then have "r AND 1 = of_bool (odd (unat r))"
    by (simp only: and_one_eq mod_2_eq_odd)
  then show ?thesis
    by (cases "even (unat r)") (simp_all add: ucast_mask_of [of True, simplified])
qed

lemma rotate_mac_loop_eq:
  assumes "0 < offset" and "offset * unat r < n" and "length xs = n"
  shows "rotate_mac_loop n offset r xs = rotate (offset * unat r) xs"
  using assms
proof (induction n offset r xs rule: rotate_mac_loop.induct)
  case (1 n offset r xs)
  show ?case
  proof (cases "offset \<ge> n")
    case True
    with 1(3) have "unat r = 0" by (cases "unat r") auto
    with True show ?thesis by (subst rotate_mac_loop.simps) simp
  next
    case False
    let ?b = "of_bool (odd (unat r)) :: nat"
    have half: "unat (drop_bit 1 r) = unat r div 2"
      by (simp only: unat_drop_bit_eq) (simp add: drop_bit_eq_div)
    have split: "unat r = 2 * (unat r div 2) + ?b"
      by (simp flip: mod_2_eq_odd)
    have sum: "2 * offset * (unat r div 2) + offset * ?b = offset * unat r"
      by (subst (3) split) (simp add: algebra_simps)
    have step: "rotate_mac_by (ucast ((r AND 1) - 1)) offset xs = rotate (offset * ?b) xs"
      unfolding skip_rotate_mask using False 1(4) by (simp add: rotate_mac_by_eq)
    have "rotate_mac_loop n offset r xs = rotate_mac_loop n (2 * offset) (drop_bit 1 r) (rotate (offset * ?b) xs)"
      using False 1(2) by (subst rotate_mac_loop.simps) (simp only: step Let_def, simp)
    also have "\<dots> = rotate (2 * offset * (unat r div 2)) (rotate (offset * ?b) xs)"
      using 1(1) [of "ucast ((r AND 1) - 1)", unfolded step half] False 1(2-4) sum by simp
    finally show ?thesis by (simp add: rotate_rotate sum)
  qed
qed


text \<open>
  The bytes of the MAC land in a ring of \<open>n\<close> bytes. \<open>mac_index\<close> is the position in the record of the
  byte that ends up at \<open>q\<close>.
\<close>

definition mac_index :: "nat \<Rightarrow> nat \<Rightarrow> nat \<Rightarrow> nat \<Rightarrow> nat" where
  "mac_index n a s q = a + (q + n - (a - s) mod n) mod n"

lemma mac_index_less: "0 < n \<Longrightarrow> mac_index n a s q < a + n"
  by (simp add: mac_index_def)

lemma mac_index_at:
  assumes "0 < n" and "s \<le> a" and "k < n"
  shows "mac_index n a s ((a + k - s) mod n) = a + k"
proof -
  let ?r = "(a - s) mod n"
  have r: "?r < n" using assms by simp
  have "a + k - s = (a - s) + k" using assms by simp
  then have "(a + k - s) mod n = (?r + k) mod n" by (simp only: mod_add_left_eq)
  also have "\<dots> = (if ?r + k < n then ?r + k else ?r + k - n)"
    by (rule mod_less_twice) (use r assms in linarith)
  finally have pos: "(a + k - s) mod n = (if ?r + k < n then ?r + k else ?r + k - n)" .
  have "((a + k - s) mod n + n - ?r) mod n = k"
  proof (cases "?r + k < n")
    case True
    have "?r + k + n - ?r = k + n" by simp
    then show ?thesis unfolding pos using True \<open>k < n\<close> by simp
  next
    case False
    have "?r + k - n + n - ?r = k" using False by simp
    then show ?thesis unfolding pos using False \<open>k < n\<close> by simp
  qed
  then show ?thesis by (simp only: mac_index_def)
qed

lemma mac_index_inverse:
  assumes "0 < n" and "s \<le> a" and "q < n"
  shows "(mac_index n a s q - s) mod n = q"
proof -
  let ?r = "(a - s) mod n"
  have r: "?r < n" using assms by simp
  have "(mac_index n a s q - s) mod n = ((a - s) + (q + n - ?r) mod n) mod n"
    using assms by (simp add: mac_index_def)
  also have "\<dots> = (?r + (q + n - ?r)) mod n" by (simp only: mod_add_eq mod_add_left_eq mod_add_right_eq)
  also have "?r + (q + n - ?r) = q + n" using r by linarith
  also have "\<dots> mod n = q" using assms by simp
  finally show ?thesis .
qed

lemma copy_mac_fold:
  assumes n: "0 < n" and "s \<le> a" and "s \<le> k" and "k < 2 ^ 63" and "a + n < 2 ^ 63"
  shows "\<exists>j. fold (copy_mac_step n inp a (a + n)) [s..<k] (0, replicate n 0, 0, 0) =
      (j, map (\<lambda>q. if mac_index n a s q < k then inp ! mac_index n a s q else 0) [0..<n],
       if a < k then word_of_nat ((a - s) mod n) else 0, mask_of (a < k)) \<and>
    j \<le> n \<and> (if j \<ge> n then j - n else j) = (k - s) mod n"
  using assms(3,4)
proof (induction k rule: dec_induct)
  case base
  have "\<not> mac_index n a s q < s" for q using \<open>s \<le> a\<close> by (simp add: mac_index_def)
  then show ?case using assms by (auto simp: map_replicate_const)
next
  case (step k)
  let ?M = "\<lambda>k. map (\<lambda>q. if mac_index n a s q < k then inp ! mac_index n a s q else 0) [0..<n]"
  from step obtain j0 where fold:
    "fold (copy_mac_step n inp a (a + n)) [s..<k] (0, replicate n 0, 0, 0) =
      (j0, ?M k, if a < k then word_of_nat ((a - s) mod n) else 0, mask_of (a < k))"
    and j0: "(if j0 \<ge> n then j0 - n else j0) = (k - s) mod n" by auto
  let ?j = "(k - s) mod n"
  have j: "?j < n" using n by simp
  have eq: "(word_of_nat k :: crypto_word) = word_of_nat a \<longleftrightarrow> k = a"
    and ge: "(word_of_nat (a + n) :: crypto_word) \<le> word_of_nat k \<longleftrightarrow> a + n \<le> k"
    using step(3,4) assms(5) by (simp_all add: word_unat_eq_iff word_le_nat_alt unat_u64_of_nat del: of_nat_add)
  have started: "mask_of (a < k) OR ucast (mask_of (k = a) :: crypto_word) = (mask_of (a < Suc k) :: u8)"
    by (auto simp: less_Suc_eq)
  have offset: "(if a < k then word_of_nat ((a - s) mod n) else 0) OR (word_of_nat ?j AND mask_of (k = a)) =
      (if a < Suc k then word_of_nat ((a - s) mod n) else 0 :: crypto_word)"
    by (auto simp: less_Suc_eq)
  have mac: "(?M k)[?j := ?M k ! ?j OR (inp ! k AND mask_of (a < Suc k) AND NOT (mask_of (a + n \<le> k)))] = ?M (Suc k)"
  proof (rule nth_equalityI)
    fix q assume "q < length ((?M k)[?j := ?M k ! ?j OR (inp ! k AND mask_of (a < Suc k) AND NOT (mask_of (a + n \<le> k)))])"
    then have q: "q < n" by simp
    have index: "mac_index n a s q = k \<Longrightarrow> q = ?j"
      using mac_index_inverse [OF n \<open>s \<le> a\<close> q] by simp
    have inside: "a \<le> k \<Longrightarrow> k < a + n \<Longrightarrow> mac_index n a s ?j = k"
      using mac_index_at [OF n \<open>s \<le> a\<close>, of "k - a"] by simp
    have range: "a \<le> mac_index n a s q" "mac_index n a s q < a + n"
      using mac_index_less [OF n] by (simp_all add: mac_index_def)
    show "(?M k)[?j := ?M k ! ?j OR (inp ! k AND mask_of (a < Suc k) AND NOT (mask_of (a + n \<le> k)))] ! q = ?M (Suc k) ! q"
    proof (cases "q = ?j")
      case True
      consider "k < a" | "a \<le> k" "k < a + n" | "a + n \<le> k" by linarith
      then show ?thesis
        using True q range inside by cases (auto simp: less_Suc_eq)
    next
      case False
      then have "mac_index n a s q < Suc k \<longleftrightarrow> mac_index n a s q < k" using index by (auto simp: less_Suc_eq)
      then show ?thesis using False q by simp
    qed
  qed simp
  have "copy_mac_step n inp a (a + n) k (j0, ?M k, if a < k then word_of_nat ((a - s) mod n) else 0, mask_of (a < k)) =
      (?j + 1, ?M (Suc k), if a < Suc k then word_of_nat ((a - s) mod n) else 0, mask_of (a < Suc k))"
    unfolding copy_mac_step_def prod.case Let_def j0 const_time eq ge started offset mac ..
  moreover have "(if ?j + 1 \<ge> n then ?j + 1 - n else ?j + 1) = (Suc k - s) mod n"
  proof -
    have "Suc k - s = (k - s) + 1" using step(1) by simp
    then have "(Suc k - s) mod n = (?j + 1) mod n" by (simp only: mod_add_left_eq)
    also have "\<dots> = (if ?j + 1 < n then ?j + 1 else ?j + 1 - n)"
      by (rule mod_less_twice) (use j n in linarith)
    finally show ?thesis by simp
  qed
  ultimately show ?case
    using step(1) fold j by (auto simp: upt_Suc_append)
qed


lemma EVP_tls_cbc_copy_mac_eq:
  assumes n: "0 < n" "n \<le> in_len" and len: "in_len \<le> orig_len" "orig_len \<le> in_len + 256"
    and inp: "orig_len \<le> length inp" "orig_len < 2 ^ 63"
  shows "EVP_tls_cbc_copy_mac n inp in_len orig_len = take n (drop (in_len - n) inp)"
proof -
  define a where "a = in_len - n"
  define s where "s = (if orig_len > n + 255 + 1 then orig_len - (n + 255 + 1) else 0)"
  have a: "a + n = in_len" and sa: "s \<le> a" using n len by (auto simp: a_def s_def)
  have so: "s \<le> orig_len" by (simp add: s_def)
  let ?r = "(a - s) mod n"
  let ?M = "map (\<lambda>q. if mac_index n a s q < orig_len then inp ! mac_index n a s q else 0) [0..<n]"
  have r: "?r < n" using n by simp
  have small: "a + n < 2 ^ 63" using a len(1) inp(2) by linarith
  from copy_mac_fold [OF n(1) sa so inp(2) small, of inp] obtain j where
    fold: "fold (copy_mac_step n inp a (a + n)) [s..<orig_len] (0, replicate n 0, 0, 0) =
      (j, ?M, if a < orig_len then word_of_nat ?r else 0, mask_of (a < orig_len))" by blast
  have ao: "a < orig_len" using a n len by linarith
  have "?r < 2 ^ 63" using r small by linarith
  also have "\<dots> < (2 :: nat) ^ 64" by simp
  finally have "?r < 2 ^ 64" .
  then have ur: "unat (word_of_nat ?r :: crypto_word) = ?r" by (rule unat_u64_of_nat)
  have "EVP_tls_cbc_copy_mac n inp in_len orig_len = rotate_mac_loop n 1 (word_of_nat ?r) ?M"
    using fold ao unfolding EVP_tls_cbc_copy_mac_def Let_def a s_def [symmetric] a_def [symmetric] by simp
  also have "\<dots> = rotate ?r ?M"
    using rotate_mac_loop_eq [of 1 "word_of_nat ?r" n ?M] r ur by simp
  also have "\<dots> = take n (drop a inp)"
  proof (rule nth_equalityI)
    show len': "length (rotate ?r ?M) = length (take n (drop a inp))"
      using a len inp by simp
    fix i assume "i < length (rotate ?r ?M)"
    then have i: "i < n" by simp
    have "(?r + i) mod n = (a + i - s) mod n"
    proof -
      have "a + i - s = (a - s) + i" using sa by simp
      then show ?thesis by (simp only: mod_add_left_eq)
    qed
    then have "mac_index n a s ((?r + i) mod n) = a + i"
      using mac_index_at [OF n(1) sa i] by simp
    then show "rotate ?r ?M ! i = take n (drop a inp) ! i"
      using i a len inp n by (simp add: nth_rotate)
  qed
  finally show ?thesis by (simp only: a_def)
qed


section \<open>Properties\<close>

text \<open>
  C12: The padding check without branches accepts exactly the records whose last byte \<open>p\<close> leaves room
  for the MAC and is repeated \<open>p + 1\<close> times, and returns the length without the padding; for
  any other record it returns the whole length. A record too short for MAC and padding length fails.
\<close>

theorem tls_cbc_remove_padding_correct:
  assumes "length inp < 2 ^ 63"
  shows "EVP_tls_cbc_remove_padding inp mac_size =
    (if length inp < mac_size + 1 then None
     else if tls_padding_ok inp mac_size then Some (- 1, length inp - (unat (last inp) + 1))
     else Some (0, length inp))"
  using assms by (rule EVP_tls_cbc_remove_padding_eq)

theorem tls_cbc_remove_padding_correct_witness:
  "EVP_tls_cbc_remove_padding [7, 8, 9, 1, 1] 3 = Some (- 1, 3) \<and>
    EVP_tls_cbc_remove_padding [7, 8, 9, 2, 1] 3 = Some (0, 5)"
  using tls_cbc_remove_padding_correct [of "[7, 8, 9, 1, 1]" 3] tls_cbc_remove_padding_correct [of "[7, 8, 9, 2, 1]" 3]
  by (simp add: tls_padding_ok_def)

text \<open>
  C13: The MAC that ends at a secret position, at most 256 bytes before the end of the record, is
  collected in a rotated buffer by one pass over every byte it could be in, and rotated into place by
  the bits of the offset: the result is the MAC.
\<close>

theorem tls_cbc_copy_mac_correct:
  assumes "0 < n" and "n \<le> in_len" and "in_len \<le> orig_len" and "orig_len \<le> in_len + 256"
    and "orig_len \<le> length inp" and "orig_len < 2 ^ 63"
  shows "EVP_tls_cbc_copy_mac n inp in_len orig_len = take n (drop (in_len - n) inp)"
  using assms by (rule EVP_tls_cbc_copy_mac_eq)

theorem tls_cbc_copy_mac_correct_witness:
  "EVP_tls_cbc_copy_mac 3 [10, 11, 12, 13, 14, 1, 1] 5 7 = [12, 13, 14]"
  using tls_cbc_copy_mac_correct [of 3 5 7 "[10, 11, 12, 13, 14, 1, 1]"] by simp

end
