(* ===== verification/Tls_Mac.thy ===== *)
theory Tls_Mac
  imports Tls_Cbc
begin

text \<open>
  The HMAC of a TLS record in constant time (\<open>crypto/cipher_extra/tls_cbc.c\<close>): SHA-1 is finished
  over a number of bytes that is secret, by hashing as many blocks as there could be and
  keeping the state after the right one. The reference is SHA-1, and HMAC, of the secret number
  of bytes.
\<close>

section \<open>Operations\<close>

text \<open>Block \<open>i\<close> before the length is put into it: \<open>block_start\<close> and the contents of \<open>block\<close>.\<close>

definition secret_block_fill ::
    "md32_ctx \<Rightarrow> u8 list \<Rightarrow> nat \<Rightarrow> nat \<Rightarrow> nat \<Rightarrow> nat \<Rightarrow> u8 list \<Rightarrow> nat \<times> u8 list" where
  "secret_block_fill ctx inp len max_len i input_idx block =
     (let block_start = (if i = 0 then md_num ctx else 0);
          block = (if i = 0 then overwrite 0 (take (md_num ctx) (md_data ctx)) block else block);
          to_copy = (if 64 - block_start > max_len - input_idx then max_len - input_idx else 64 - block_start);
          block = (if input_idx < max_len then overwrite block_start (take to_copy (drop input_idx inp)) block else block);
          block = map (\<lambda>j. if j < block_start then block ! j
                    else let idx = word_of_nat (input_idx + j - block_start);
                             is_in_bounds = constant_time_lt_8 idx (value_barrier_w (word_of_nat len));
                             is_padding_byte = constant_time_eq_8 idx (value_barrier_w (word_of_nat len))
                         in (block ! j AND is_in_bounds) OR (0x80 AND is_padding_byte)) [0..<64]
      in (block_start, block))"

text \<open>The state of the loop: \<open>input_idx\<close>, \<open>block\<close>, \<open>ctx\<close> and \<open>result\<close>.\<close>

definition secret_suffix_step ::
    "u8 list \<Rightarrow> nat \<Rightarrow> nat \<Rightarrow> nat \<Rightarrow> u8 list \<Rightarrow> nat \<Rightarrow>
      nat \<times> u8 list \<times> md32_ctx \<times> u32 list \<Rightarrow> nat \<times> u8 list \<times> md32_ctx \<times> u32 list" where
  "secret_suffix_step inp len max_len last_block length_bytes i s =
     (case s of (input_idx, block, ctx, result) \<Rightarrow>
        let (block_start, block) = secret_block_fill ctx inp len max_len i input_idx block;
            input_idx = input_idx + (64 - block_start);
            is_last_block = constant_time_eq_w (word_of_nat i) (word_of_nat last_block);
            block = map (\<lambda>j. if j < 60 then block ! j
                      else block ! j OR ucast (is_last_block AND ucast (length_bytes ! (j - 60)))) [0..<64];
            ctx = SHA1_Transform ctx block;
            result = map (\<lambda>j. result ! j OR ucast (is_last_block AND ucast (md_h ctx ! j))) [0..<5]
        in (input_idx, block, ctx, result))"

definition EVP_sha1_final_with_secret_suffix ::
    "md32_ctx \<Rightarrow> u8 list \<Rightarrow> nat \<Rightarrow> nat \<Rightarrow> u8 list option" where
  "EVP_sha1_final_with_secret_suffix ctx inp len max_len =
     (let max_len_bits = size_mul max_len 8 in
      if md_Nh ctx \<noteq> 0 \<or> max_len_bits div 8 \<noteq> max_len \<or>
        size_add (unat (md_Nl ctx)) max_len_bits < max_len_bits \<or>
        size_add (unat (md_Nl ctx)) max_len_bits > 2 ^ 32 - 1 then None
      else
        let num_blocks = (md_num ctx + len + 1 + 8 + 64 - 1) div 64;
            last_block = num_blocks - 1;
            max_blocks = (md_num ctx + max_len + 1 + 8 + 64 - 1) div 64;
            total_bits = size_add (unat (md_Nl ctx)) (size_mul len 8);
            length_bytes = [word_of_nat (total_bits div 2 ^ 24), word_of_nat (total_bits div 2 ^ 16),
              word_of_nat (total_bits div 2 ^ 8), word_of_nat total_bits];
            (input_idx, block, ctx, result) =
              fold (secret_suffix_step inp len max_len last_block length_bytes) [0..<max_blocks]
                (0, replicate 64 0, ctx, replicate 5 0)
        in Some (concat (map CRYPTO_store_u32_be result)))"

definition size_sub :: "nat \<Rightarrow> nat \<Rightarrow> nat" where
  "size_sub a b = (a + (size_modulus - b)) mod size_modulus"

definition EVP_tls_cbc_record_digest_supported :: "'c evp_md \<Rightarrow> bool" where
  "EVP_tls_cbc_record_digest_supported md \<longleftrightarrow> EVP_MD_type md = 64"

definition EVP_tls_cbc_digest_record ::
    "'c evp_md \<Rightarrow> u8 list \<Rightarrow> u8 list \<Rightarrow> nat \<Rightarrow> nat \<Rightarrow> u8 list \<Rightarrow> u8 list option" where
  "EVP_tls_cbc_digest_record md header data data_size data_plus_mac_plus_padding_size mac_secret =
     (if EVP_MD_type md \<noteq> 64 then None
      else if length mac_secret > 64 then None
      else
        let hmac_pad = overwrite 0 mac_secret (replicate 64 0);
            hmac_pad = map (\<lambda>b. b XOR 0x36) hmac_pad;
            ctx = SHA1_Init;
            ctx = SHA1_Update hmac_pad ctx;
            ctx = SHA1_Update (take 13 header) ctx;
            min_data_size = (if data_plus_mac_plus_padding_size > 20 + 256
                             then data_plus_mac_plus_padding_size - 20 - 256 else 0);
            ctx = SHA1_Update (take min_data_size data) ctx
        in case EVP_sha1_final_with_secret_suffix ctx (drop min_data_size data) (size_sub data_size min_data_size)
                  (size_sub data_plus_mac_plus_padding_size min_data_size) of
             None \<Rightarrow> None
           | Some mac_out \<Rightarrow>
               let ctx = SHA1_Init;
                   hmac_pad = map (\<lambda>b. b XOR 0x6a) hmac_pad;
                   ctx = SHA1_Update hmac_pad ctx;
                   ctx = SHA1_Update mac_out ctx
               in Some (fst (SHA1_Final ctx)))"

section \<open>The blocks\<close>

text \<open>Byte \<open>p\<close> of the blocks, counted from the first byte of the partial block in the context.\<close>

definition secret_byte :: "u8 list \<Rightarrow> u8 list \<Rightarrow> nat \<Rightarrow> nat \<Rightarrow> u8" where
  "secret_byte start inp len p =
     (if p < length start then start ! p
      else if p - length start < len then inp ! (p - length start)
      else if p - length start = len then 0x80 else 0)"

lemma overwrite_nth:
  "n + length xs \<le> length data \<Longrightarrow> j < length data \<Longrightarrow>
    overwrite n xs data ! j = (if n \<le> j \<and> j < n + length xs then xs ! (j - n) else data ! j)"
  by (auto simp: overwrite_def nth_append)

lemma secret_block_fill_eq:
  assumes "length start = md_num ctx" and "take (md_num ctx) (md_data ctx) = start" and "md_num ctx < 64"
    and "length block = 64" and "len \<le> max_len" and "max_len \<le> length inp" and "max_len < 2 ^ 32" and "i < 2 ^ 32"
    and idx: "input_idx = (if i = 0 then 0 else 64 * i - md_num ctx)"
  shows "secret_block_fill ctx inp len max_len i input_idx block =
    (if i = 0 then md_num ctx else 0, map (\<lambda>j. secret_byte start inp len (64 * i + j)) [0..<64])"
proof -
  let ?n = "md_num ctx" and ?bs = "if i = 0 then md_num ctx else 0"
  define b1 where "b1 = (if i = 0 then overwrite 0 (take ?n (md_data ctx)) block else block)"
  define tc where "tc = (if 64 - ?bs > max_len - input_idx then max_len - input_idx else 64 - ?bs)"
  define b2 where "b2 = (if input_idx < max_len then overwrite ?bs (take tc (drop input_idx inp)) b1 else b1)"
  have b1: "length b1 = 64" using assms(1-4) by (simp add: b1_def)
  have tc: "tc \<le> length (drop input_idx inp)" "?bs + tc \<le> 64" if "input_idx < max_len"
    using that assms(3,6) by (auto simp: tc_def)
  have b2: "length b2 = 64" using b1 tc by (simp add: b2_def min_absorb2)
  have before: "b2 ! j = start ! j" if "j < ?bs" for j
  proof -
    have i: "i = 0" "j < ?n" using that by (auto split: if_splits)
    have "b1 ! j = start ! j"
      using i assms(1-4) overwrite_nth [of 0 "take ?n (md_data ctx)" block j] by (simp add: b1_def)
    moreover have "b2 ! j = b1 ! j"
      using that i(2) assms(3) b1 tc overwrite_nth [of ?bs "take tc (drop input_idx inp)" b1 j]
      by (cases "input_idx < max_len") (simp_all add: b2_def min_absorb2)
    ultimately show ?thesis by simp
  qed
  have copied: "b2 ! j = inp ! (input_idx + j - ?bs)" if "?bs \<le> j" "j < 64" "input_idx + j - ?bs < len" for j
  proof -
    have im: "input_idx < max_len" and jt: "j < ?bs + tc"
      using that assms(5) by (auto simp: tc_def)
    with overwrite_nth [of ?bs "take tc (drop input_idx inp)" b1 j] tc [OF im] b1 that
    have "b2 ! j = take tc (drop input_idx inp) ! (j - ?bs)" by (simp add: b2_def min_absorb2)
    also have "\<dots> = inp ! (input_idx + (j - ?bs))"
      using jt that(1) tc [OF im] by (subst nth_take) (auto intro!: nth_drop)
    finally show ?thesis using that(1) by simp
  qed
  have "(if j < ?bs then b2 ! j
      else let idx = word_of_nat (input_idx + j - ?bs);
               is_in_bounds = constant_time_lt_8 idx (value_barrier_w (word_of_nat len));
               is_padding_byte = constant_time_eq_8 idx (value_barrier_w (word_of_nat len))
           in (b2 ! j AND is_in_bounds) OR (0x80 AND is_padding_byte)) =
      secret_byte start inp len (64 * i + j)" if "j < 64" for j
  proof (cases "j < ?bs")
    case True
    then have "i = 0" "j < ?n" by (auto split: if_splits)
    then show ?thesis using True before [OF True] assms(1) by (simp add: secret_byte_def)
  next
    case False
    let ?idx = "input_idx + j - ?bs"
    have p: "64 * i + j - length start = ?idx" "\<not> 64 * i + j < length start"
      using False assms(1,3) by (auto simp: idx split: if_splits)
    have "?idx < 64 * 2 ^ 32 + 64" using that assms(8) by (auto simp: idx split: if_splits)
    then have "?idx < 2 ^ 64" by simp
    then have "unat (word_of_nat ?idx :: crypto_word) = ?idx" by (rule unat_u64_of_nat)
    moreover have "unat (word_of_nat len :: crypto_word) = len"
      using assms(5,7) by (intro unat_u64_of_nat) simp
    ultimately have cmp: "(word_of_nat ?idx :: crypto_word) < word_of_nat len \<longleftrightarrow> ?idx < len"
      "(word_of_nat ?idx :: crypto_word) = word_of_nat len \<longleftrightarrow> ?idx = len"
      by (simp_all only: word_less_nat_alt word_unat_eq_iff)
    have byte: "secret_byte start inp len (64 * i + j) =
        (if ?idx < len then inp ! ?idx else if ?idx = len then 0x80 else 0)"
      by (simp only: secret_byte_def p if_False)
    have code: "(b2 ! j AND mask_of (?idx < len)) OR (0x80 AND mask_of (?idx = len)) =
        (if ?idx < len then b2 ! j else if ?idx = len then 0x80 else 0)"
      by (cases "?idx < len"; cases "?idx = len") simp_all
    have "(if ?idx < len then b2 ! j else if ?idx = len then 0x80 else 0) =
        (if ?idx < len then inp ! ?idx else if ?idx = len then 0x80 else 0)"
    proof (rule if_cong [OF refl _ refl])
      assume "?idx < len"
      then show "b2 ! j = inp ! ?idx" using False that by (intro copied) simp_all
    qed
    then show ?thesis
      unfolding Let_def value_barrier_w_def const_time cmp byte code if_not_P [OF False] .
  qed
  then have "map (\<lambda>j. if j < ?bs then b2 ! j
      else let idx = word_of_nat (input_idx + j - ?bs);
               is_in_bounds = constant_time_lt_8 idx (value_barrier_w (word_of_nat len));
               is_padding_byte = constant_time_eq_8 idx (value_barrier_w (word_of_nat len))
           in (b2 ! j AND is_in_bounds) OR (0x80 AND is_padding_byte)) [0..<64] =
      map (\<lambda>j. secret_byte start inp len (64 * i + j)) [0..<64]"
    by (intro map_cong refl) simp
  then show ?thesis
    unfolding secret_block_fill_def Let_def b1_def [symmetric] tc_def [symmetric] b2_def [symmetric] by simp
qed


section \<open>The padded message\<close>

text \<open>
  The padded message from the partial block on. Up to the last four bytes of its last block it is
  what the fill produces; those are the length.
\<close>

definition secret_tail :: "u8 list \<Rightarrow> u8 list \<Rightarrow> nat \<Rightarrow> nat \<Rightarrow> u8 list" where
  "secret_tail start inp len total_bits =
     (let t = length start + len + 9 in
      start @ take len inp @ [0x80] @ replicate ((64 - t mod 64) mod 64) 0 @ be_bytes 8 total_bits)"

lemma round_up_64: "t + (64 - t mod 64) mod 64 = 64 * ((t + 63) div 64)" for t :: nat
proof -
  have t: "t = 64 * (t div 64) + t mod 64" by simp
  define q r where "q = t div 64" and "r = t mod 64"
  have r: "r < 64" by (simp add: r_def)
  have "64 * q + r + (64 - r) mod 64 = 64 * ((64 * q + r + 63) div 64)"
  proof (cases "r = 0")
    case False
    have "(64 * q + r + 63) div 64 = (64 * (q + 1) + (r - 1)) div 64" using False by (simp add: algebra_simps)
    also have "\<dots> = q + 1" using r by (subst div_mult_self4) simp_all
    finally show ?thesis using False r by simp
  qed simp
  then show ?thesis using t unfolding q_def r_def by simp
qed

lemma length_secret_tail:
  "len \<le> length inp \<Longrightarrow> length (secret_tail start inp len bits) = 64 * ((length start + len + 1 + 8 + 64 - 1) div 64)"
  using round_up_64 [of "length start + len + 9"] by (simp add: secret_tail_def Let_def)

lemma be_bytes_zero: "be_bytes n 0 = replicate n 0"
  by (induction n) (simp_all add: replicate_append_same)

lemma secret_tail_nth:
  assumes len: "len \<le> length inp" and bits: "bits < 2 ^ 32" and p: "p < length (secret_tail start inp len bits)"
  shows "secret_tail start inp len bits ! p =
    (if p + 4 < length (secret_tail start inp len bits) then secret_byte start inp len p
     else be_bytes 4 bits ! (p + 4 - length (secret_tail start inp len bits)))"
    and "length (secret_tail start inp len bits) \<le> p + 4 \<Longrightarrow> secret_byte start inp len p = 0"
proof -
  let ?t = "length start + len + 9" and ?Q = "secret_tail start inp len bits"
  let ?z = "(64 - ?t mod 64) mod 64"
  have split: "be_bytes 8 bits = replicate 4 0 @ be_bytes 4 bits"
    using be_bytes_split [of 4 4 bits] bits by (simp add: be_bytes_zero)
  have Q: "?Q = (start @ take len inp @ [0x80] @ replicate (?z + 4) 0) @ be_bytes 4 bits"
    by (simp only: secret_tail_def Let_def split append_assoc replicate_add)
  let ?front = "start @ take len inp @ [0x80] @ replicate (?z + 4) 0"
  have lf: "length ?Q = length ?front + 4" by (simp add: Q)
  have front: "?front ! p = secret_byte start inp len p" if "p < length ?front" for p
  proof -
    consider "p < length start" | "length start \<le> p" "p - length start < len"
      | "length start \<le> p" "p - length start = len" | "length start \<le> p" "len < p - length start" by linarith
    then show ?thesis
      using that len by cases (auto simp: secret_byte_def nth_append nth_Cons')
  qed
  show "?Q ! p = (if p + 4 < length ?Q then secret_byte start inp len p else be_bytes 4 bits ! (p + 4 - length ?Q))"
  proof (cases "p < length ?front")
    case True
    then have "?Q ! p = ?front ! p" unfolding Q by (rule nth_append_left)
    then show ?thesis using True front [OF True] by (simp only: lf if_True add_less_cancel_right)
  next
    case False
    then have "?Q ! p = be_bytes 4 bits ! (p - length ?front)" unfolding Q by (intro nth_append_right) simp
    then show ?thesis using False by (simp only: lf if_False add_less_cancel_right diff_add_inverse2 add_diff_cancel_right)
  qed
  show "length ?Q \<le> p + 4 \<Longrightarrow> secret_byte start inp len p = 0"
    unfolding lf using len by (auto simp: secret_byte_def)
qed


section \<open>The loop\<close>

lemma secret_block:
  fixes lb :: nat
  assumes len: "len \<le> length inp" and bits: "bits < 2 ^ 32"
    and Q: "length (secret_tail start inp len bits) = 64 * (lb + 1)" and i: "i \<le> lb"
  shows "map (\<lambda>j. if j < 60 then map (\<lambda>j. secret_byte start inp len (64 * i + j)) [0..<64] ! j
      else map (\<lambda>j. secret_byte start inp len (64 * i + j)) [0..<64] ! j OR
        ucast (mask_of (i = lb) AND (ucast (be_bytes 4 bits ! (j - 60)) :: crypto_word))) [0..<64] =
    take 64 (drop (64 * i) (secret_tail start inp len bits))" (is "?L = ?R")
proof (rule nth_equalityI)
  have lR: "length ?R = 64" using Q i by (auto simp: min_def)
  then show "length ?L = length ?R" by simp
  fix j assume "j < length ?L"
  then have j: "j < 64" by simp
  let ?Q = "secret_tail start inp len bits"
  have p: "64 * i + j < length ?Q" using Q i j by simp
  have R: "?R ! j = ?Q ! (64 * i + j)" using j Q i by simp
  have L: "?L ! j = (if j < 60 then secret_byte start inp len (64 * i + j)
      else secret_byte start inp len (64 * i + j) OR
        ucast (mask_of (i = lb) AND (ucast (be_bytes 4 bits ! (j - 60)) :: crypto_word)))"
    using j by simp
  show "?L ! j = ?R ! j"
  proof (cases "64 * i + j + 4 < length ?Q")
    case True
    then have "j < 60 \<or> i \<noteq> lb" using Q by auto
    then show ?thesis
      unfolding L R secret_tail_nth(1) [OF len bits p] if_P [OF True] by auto
  next
    case False
    then have "i = lb" "\<not> j < 60" using Q i j by auto
    then have e: "i = lb" "\<not> j < 60" "64 * i + j + 4 - length ?Q = j - 60" using Q by auto
    have "secret_byte start inp len (64 * i + j) = 0"
      using False by (intro secret_tail_nth(2) [OF len bits p]) simp
    moreover have "(ucast (ucast b :: crypto_word) :: u8) = b" for b :: u8
      by (rule bit_word_eqI) (auto simp: bit_simps dest: bit_imp_le_length)
    ultimately show ?thesis
      unfolding L R secret_tail_nth(1) [OF len bits p] if_not_P [OF False] if_not_P [OF e(2)] e(3)
      by (simp add: e(1))
  qed
qed

definition secret_inv ::
    "md32_ctx \<Rightarrow> u32 list \<Rightarrow> u8 list \<Rightarrow> nat \<Rightarrow> nat \<Rightarrow> nat \<times> u8 list \<times> md32_ctx \<times> u32 list \<Rightarrow> bool" where
  "secret_inv ctx0 h Q lb i s \<longleftrightarrow>
     (case s of (input_idx, block, ctx, result) \<Rightarrow>
        input_idx = (if i = 0 then 0 else 64 * i - md_num ctx0) \<and> length block = 64 \<and>
        md_num ctx = md_num ctx0 \<and> md_data ctx = md_data ctx0 \<and>
        (i \<le> lb + 1 \<longrightarrow> md_h ctx = absorb sha1_compress 64 h (take (64 * i) Q)) \<and>
        result = (if i \<le> lb then replicate 5 0 else absorb sha1_compress 64 h Q))"

lemma absorb_next_block:
  assumes "64 * Suc i \<le> length Q"
  shows "absorb sha1_compress 64 h (take (64 * Suc i) Q) =
    sha1_compress (absorb sha1_compress 64 h (take (64 * i) Q)) (take 64 (drop (64 * i) Q))"
proof -
  have "take (64 * Suc i) Q = take (64 * i) Q @ take 64 (drop (64 * i) Q)"
    using take_add [of "64 * i" 64 Q] by (simp add: add.commute)
  then show ?thesis
    using assms absorb_append [of 64 "take (64 * i) Q" i sha1_compress h "take 64 (drop (64 * i) Q)"]
    by (simp add: absorb_one)
qed

lemma SHA1_Transform_eq: "SHA1_Transform ctx block = ctx\<lparr>md_h := sha1_compress (md_h ctx) block\<rparr>"
  by (simp add: SHA1_Transform_def sha1_block_eq)


lemma secret_suffix_step_inv:
  assumes inv: "secret_inv ctx h Q lb i s" and Q: "Q = secret_tail start inp len bits" "length Q = 64 * (lb + 1)"
    and start: "length start = md_num ctx" "take (md_num ctx) (md_data ctx) = start" "md_num ctx < 64"
    and h: "length h = 5" and len: "len \<le> max_len" "max_len \<le> length inp" and max_len: "max_len < 2 ^ 32"
    and i: "i < 2 ^ 32" "lb < 2 ^ 32" and bits: "bits < 2 ^ 32"
  shows "secret_inv ctx h Q lb (Suc i) (secret_suffix_step inp len max_len lb (be_bytes 4 bits) i s)"
proof -
  obtain input_idx block c result where s: "s = (input_idx, block, c, result)" by (metis prod_cases4)
  note inv = inv [unfolded secret_inv_def s prod.case]
  from inv have idx: "input_idx = (if i = 0 then 0 else 64 * i - md_num c)" and block: "length block = 64"
    and c: "md_num c = md_num ctx" "md_data c = md_data ctx"
    and mh: "i \<le> lb + 1 \<Longrightarrow> md_h c = absorb sha1_compress 64 h (take (64 * i) Q)"
    and result: "result = (if i \<le> lb then replicate 5 0 else absorb sha1_compress 64 h Q)" by simp_all
  have fill: "secret_block_fill c inp len max_len i input_idx block =
      (if i = 0 then md_num c else 0, map (\<lambda>j. secret_byte start inp len (64 * i + j)) [0..<64])"
    using start c by (intro secret_block_fill_eq block len max_len i(1) idx) simp_all
  have eq: "constant_time_eq_w (word_of_nat i) (word_of_nat lb) = mask_of (i = lb)"
  proof -
    have "unat (word_of_nat i :: crypto_word) = i" "unat (word_of_nat lb :: crypto_word) = lb"
      using i by (auto intro!: unat_u64_of_nat)
    then have "(word_of_nat i :: crypto_word) = word_of_nat lb \<longleftrightarrow> i = lb" by (simp only: word_unat_eq_iff)
    then show ?thesis by (simp only: const_time)
  qed
  define b where "b = map (\<lambda>j. if j < 60 then map (\<lambda>j. secret_byte start inp len (64 * i + j)) [0..<64] ! j
      else map (\<lambda>j. secret_byte start inp len (64 * i + j)) [0..<64] ! j OR
        ucast (mask_of (i = lb) AND (ucast (be_bytes 4 bits ! (j - 60)) :: crypto_word))) [0..<64]"
  have lb: "length b = 64" by (simp add: b_def)
  have step: "secret_suffix_step inp len max_len lb (be_bytes 4 bits) i s =
      (input_idx + (64 - (if i = 0 then md_num c else 0)), b, c\<lparr>md_h := sha1_compress (md_h c) b\<rparr>,
        map (\<lambda>j. result ! j OR ucast (mask_of (i = lb) AND (ucast (sha1_compress (md_h c) b ! j) :: crypto_word))) [0..<5])"
    unfolding s secret_suffix_step_def prod.case fill Let_def eq b_def [symmetric] SHA1_Transform_eq by simp
  have next_h: "sha1_compress (md_h c) b = absorb sha1_compress 64 h (take (64 * Suc i) Q)" if "i \<le> lb"
  proof -
    have "b = take 64 (drop (64 * i) Q)"
      unfolding b_def Q(1) using len Q that bits by (intro secret_block) auto
    then show ?thesis using that mh Q(2) absorb_next_block [of i Q h] by simp
  qed
  have lf: "length (absorb sha1_compress 64 h Q) = 5" using h by (intro length_absorb) simp_all
  have u: "(ucast (ucast w :: crypto_word) :: u32) = w" for w :: u32
    by (rule bit_word_eqI) (auto simp: bit_simps dest: bit_imp_le_length)
  have r: "map (\<lambda>j. result ! j OR ucast (mask_of (i = lb) AND (ucast (sha1_compress (md_h c) b ! j) :: crypto_word))) [0..<5]
      = (if Suc i \<le> lb then replicate 5 0 else absorb sha1_compress 64 h Q)"
  proof -
    consider "i < lb" | "i = lb" | "lb < i" by linarith
    then show ?thesis
    proof cases
      case 1
      then show ?thesis by (auto simp: result intro!: nth_equalityI)
    next
      case 2
      then have "sha1_compress (md_h c) b = absorb sha1_compress 64 h Q" using next_h Q(2) by simp
      then show ?thesis using 2 lf by (auto simp: result u intro!: nth_equalityI)
    next
      case 3
      then show ?thesis using lf by (auto simp: result intro!: nth_equalityI)
    qed
  qed
  show ?thesis
    unfolding step secret_inv_def prod.case r
    using c lb next_h start(3) by (auto simp: idx)
qed


lemma secret_suffix_loop:
  assumes "Q = secret_tail start inp len bits" "length Q = 64 * (lb + 1)"
    and "length start = md_num ctx" "take (md_num ctx) (md_data ctx) = start" "md_num ctx < 64"
    and "length (md_h ctx) = 5" and "len \<le> max_len" "max_len \<le> length inp" and "max_len < 2 ^ 32"
    and "n \<le> 2 ^ 32" "lb < n" and "bits < 2 ^ 32"
  shows "\<exists>idx b c. fold (secret_suffix_step inp len max_len lb (be_bytes 4 bits)) [0..<n]
      (0, replicate 64 0, ctx, replicate 5 0) = (idx, b, c, absorb sha1_compress 64 (md_h ctx) Q)"
proof -
  have "secret_inv ctx (md_h ctx) Q lb k (fold (secret_suffix_step inp len max_len lb (be_bytes 4 bits)) [0..<k]
      (0, replicate 64 0, ctx, replicate 5 0))" if "k \<le> n" for k
    using that
  proof (induction k)
    case 0
    then show ?case by (simp add: secret_inv_def)
  next
    case (Suc k)
    then have "k \<le> n" "k < 2 ^ 32" "lb < 2 ^ 32" using assms(10,11) by simp_all
    then have "secret_inv ctx (md_h ctx) Q lb (Suc k) (secret_suffix_step inp len max_len lb (be_bytes 4 bits) k
        (fold (secret_suffix_step inp len max_len lb (be_bytes 4 bits)) [0..<k] (0, replicate 64 0, ctx, replicate 5 0)))"
      by (intro secret_suffix_step_inv Suc.IH) (use assms in simp_all)
    then show ?case by simp
  qed
  from this [of n] \<open>lb < n\<close> show ?thesis
    by (cases "fold (secret_suffix_step inp len max_len lb (be_bytes 4 bits)) [0..<n] (0, replicate 64 0, ctx, replicate 5 0)")
      (simp add: secret_inv_def)
qed

lemma md32_pad_secret_tail:
  assumes "len \<le> length inp" and "bits mod 2 ^ 64 = 8 * (length xs + len) mod 2 ^ 64"
  shows "md32_pad 64 True (xs @ take len inp) = whole 64 xs @ secret_tail (partial 64 xs) inp len bits"
proof -
  have "be_bytes 8 (8 * (length xs + len)) = be_bytes 8 bits"
    using be_bytes_mod [of 8 "8 * (length xs + len)"] be_bytes_mod [of 8 bits] assms(2) by simp
  moreover have "(length xs + len + 9) mod 64 = (length xs mod 64 + len + 9) mod 64"
    by (simp only: mod_simps add.assoc)
  ultimately show ?thesis
    using assms(1) whole_partial [of 64 xs]
    unfolding md32_pad_def secret_tail_def Let_def length_append length_take length_partial
    by (simp add: min_absorb2 flip: append_assoc)
qed

lemma secret_suffix_guard:
  assumes "max_len < 2 ^ 64"
  shows "(md_Nh ctx \<noteq> 0 \<or> size_mul max_len 8 div 8 \<noteq> max_len \<or>
        size_add (unat (md_Nl ctx)) (size_mul max_len 8) < size_mul max_len 8 \<or>
        size_add (unat (md_Nl ctx)) (size_mul max_len 8) > 2 ^ 32 - 1) \<longleftrightarrow>
    \<not> (md_Nh ctx = 0 \<and> unat (md_Nl ctx) + 8 * max_len < 2 ^ 32)"
proof (cases "max_len < 2 ^ 61")
  case True
  then have m: "size_mul max_len 8 = 8 * max_len" by (simp add: size_mul_def)
  have l: "unat (md_Nl ctx) < 2 ^ 32" by (rule unat_u32_less)
  show ?thesis
  proof (cases "unat (md_Nl ctx) + 8 * max_len < 2 ^ 64")
    case True
    then have "size_add (unat (md_Nl ctx)) (8 * max_len) = unat (md_Nl ctx) + 8 * max_len" by (simp add: size_add_def)
    then show ?thesis by (auto simp: m)
  next
    case False
    with l True have "size_add (unat (md_Nl ctx)) (8 * max_len) < 8 * max_len"
      by (simp add: size_add_def le_mod_geq)
    then show ?thesis using False by (auto simp: m)
  qed
next
  case False
  have "size_mul max_len 8 < 2 ^ 64" using size_mul_less [of max_len 8] by simp
  then have "size_mul max_len 8 div 8 < 2 ^ 61" by (simp add: less_mult_imp_div_less)
  then have "size_mul max_len 8 div 8 \<noteq> max_len" using False by linarith
  then show ?thesis using False by auto
qed


lemma EVP_sha1_final_with_secret_suffix_eq:
  assumes holds: "md32_holds sha1_compress 64 (md_h SHA1_Init) xs ctx"
    and len: "len \<le> max_len" "max_len \<le> length inp" "max_len < 2 ^ 64"
  shows "EVP_sha1_final_with_secret_suffix ctx inp len max_len =
    (if md_Nh ctx = 0 \<and> unat (md_Nl ctx) + 8 * max_len < 2 ^ 32
     then Some (sha1_hash (xs @ take len inp)) else None)"
proof (cases "md_Nh ctx = 0 \<and> unat (md_Nl ctx) + 8 * max_len < 2 ^ 32")
  case False
  then show ?thesis
    unfolding EVP_sha1_final_with_secret_suffix_def Let_def secret_suffix_guard [OF len(3)] by (simp only: if_True if_False simp_thms)
next
  case True
  let ?n = "md_num ctx" and ?bits = "unat (md_Nl ctx) + len * 8" and ?start = "partial 64 xs"
  let ?h = "absorb sha1_compress 64 (md_h SHA1_Init) xs"
  let ?Q = "secret_tail ?start inp len ?bits"
  define lb where "lb = (?n + len + 1 + 8 + 64 - 1) div 64 - 1"
  from holds have n: "?n = length xs mod 64" and h: "md_h ctx = ?h"
    and data: "md_data ctx = ?start @ replicate (64 - length xs mod 64) 0"
    and count: "unat (md_Nl ctx) mod 2 ^ 64 = 8 * length xs mod 2 ^ 64"
    using True by (simp_all add: md32_holds_def)
  have len': "len \<le> length inp" using len by simp
  have bits: "?bits < 2 ^ 32" using True len(1) by simp
  have max_len: "max_len < 2 ^ 32" using True by simp
  have n64: "?n < 64" by (simp add: n)
  have lQ: "length ?Q = 64 * ((?n + len + 1 + 8 + 64 - 1) div 64)"
    using length_secret_tail [OF len', of ?start ?bits] by (simp add: n)
  have "1 \<le> (?n + len + 1 + 8 + 64 - 1) div 64" by (simp add: Suc_le_eq div_greater_zero_iff)
  then have Q: "length ?Q = 64 * (lb + 1)" using lQ by (simp add: lb_def)
  let ?mb = "(?n + max_len + 1 + 8 + 64 - 1) div 64"
  have "(?n + len + 1 + 8 + 64 - 1) div 64 \<le> ?mb" using len(1) by (intro div_le_mono) simp
  then have lb: "lb < ?mb" using \<open>1 \<le> _\<close> by (simp add: lb_def)
  have mb: "?mb \<le> 2 ^ 32"
  proof -
    have "?n + max_len + 1 + 8 + 64 - 1 < 2 ^ 32 * 64" using n64 max_len by simp
    then show ?thesis by (intro less_imp_le less_mult_imp_div_less)
  qed
  have lh: "length ?h = 5" by (intro length_absorb) (simp_all add: SHA1_Init_def)
  obtain idx b c where loop: "fold (secret_suffix_step inp len max_len lb (be_bytes 4 ?bits)) [0..<?mb]
      (0, replicate 64 0, ctx, replicate 5 0) = (idx, b, c, absorb sha1_compress 64 (md_h ctx) ?Q)"
    using secret_suffix_loop [OF refl Q, of ctx max_len ?mb] lh len max_len lb mb bits n64
    by (auto simp: h n data)
  have total: "size_add (unat (md_Nl ctx)) (size_mul len 8) = ?bits"
    using bits by (simp add: size_add_def size_mul_def)
  have bytes: "[word_of_nat (?bits div 2 ^ 24), word_of_nat (?bits div 2 ^ 16),
      word_of_nat (?bits div 2 ^ 8), word_of_nat ?bits] = be_bytes 4 ?bits"
    by (simp add: be_bytes_numeral div_mult2_eq [symmetric])
  have "?bits mod 2 ^ 64 = (unat (md_Nl ctx) mod 2 ^ 64 + len * 8) mod 2 ^ 64" by (simp only: mod_add_left_eq)
  also have "\<dots> = 8 * (length xs + len) mod 2 ^ 64"
    unfolding count by (simp only: mod_add_left_eq) (simp add: algebra_simps)
  finally have pad: "md32_pad 64 True (xs @ take len inp) = whole 64 xs @ ?Q" by (rule md32_pad_secret_tail [OF len'])
  have store_be: "(\<lambda>w. be_bytes 4 (unat w)) = CRYPTO_store_u32_be"
    by (intro ext) (simp add: store_u32_be)
  from pad have "sha1_hash (xs @ take len inp) =
      concat (map (\<lambda>w. be_bytes 4 (unat w)) (absorb sha1_compress 64 (md_h SHA1_Init) (whole 64 xs @ ?Q)))"
    by (simp add: sha1_hash_def SHA1_Init_def)
  also have "absorb sha1_compress 64 (md_h SHA1_Init) (whole 64 xs @ ?Q) = absorb sha1_compress 64 (md_h ctx) ?Q"
    using absorb_append [of 64 "whole 64 xs" "length xs div 64" sha1_compress "md_h SHA1_Init" ?Q]
    by (simp add: length_whole absorb_whole h)
  finally have hash: "sha1_hash (xs @ take len inp) = concat (map CRYPTO_store_u32_be (absorb sha1_compress 64 (md_h ctx) ?Q))"
    by (simp only: store_be)
  show ?thesis
    unfolding EVP_sha1_final_with_secret_suffix_def Let_def secret_suffix_guard [OF len(3)] total bytes lb_def [symmetric] loop hash
    using True by (simp only: if_True if_False simp_thms prod.case)
qed


section \<open>HMAC of a record\<close>

lemma SHA1_Update_holds:
  "md32_holds sha1_compress 64 (md_h SHA1_Init) xs c \<Longrightarrow>
    md32_holds sha1_compress 64 (md_h SHA1_Init) (xs @ ys) (SHA1_Update ys c)"
  unfolding SHA1_Update_def by (rule sha1.update_holds)

lemma size_sub_exact: "b \<le> a \<Longrightarrow> a < size_modulus \<Longrightarrow> size_sub a b = a - b"
  by (simp add: size_sub_def le_mod_geq)

lemma hmac_pads:
  assumes "length key \<le> 64"
  defines "pad \<equiv> map (\<lambda>b. b XOR 0x36) (overwrite 0 key (replicate 64 0))"
  shows "pad = map (\<lambda>b. 0x36 XOR b) (hmac_key sha1_hash 64 key)"
    and "map (\<lambda>b. b XOR 0x6a) pad = map (\<lambda>b. 0x5c XOR b) (hmac_key sha1_hash 64 key)"
    and "length pad = 64"
proof -
  have key: "overwrite 0 key (replicate 64 0) = hmac_key sha1_hash 64 key"
    using assms(1) by (simp add: overwrite_def hmac_key_def)
  show "pad = map (\<lambda>b. 0x36 XOR b) (hmac_key sha1_hash 64 key)"
    by (simp add: pad_def key xor.commute)
  have "(b XOR 0x36) XOR 0x6a = 0x5c XOR b" for b :: u8
  proof -
    have "(b XOR 0x36) XOR 0x6a = b XOR (0x36 XOR 0x6a)" by (simp only: xor.assoc)
    then show ?thesis by (simp add: xor.commute)
  qed
  then show "map (\<lambda>b. b XOR 0x6a) pad = map (\<lambda>b. 0x5c XOR b) (hmac_key sha1_hash 64 key)"
    by (simp add: pad_def key comp_def)
  show "length pad = 64" using assms(1) by (simp add: pad_def)
qed

text \<open>The contexts for which the checks of the total length pass.\<close>

lemma md32_count_fits:
  assumes "md32_holds sha1_compress 64 (md_h SHA1_Init) xs c" and "length xs < 2 ^ 61"
  shows "md_Nh c = 0 \<and> unat (md_Nl c) + 8 * m < 2 ^ 32 \<longleftrightarrow> length xs + m < 2 ^ 29"
proof -
  have "(unat (md_Nh c) * 2 ^ 32 + unat (md_Nl c)) mod 2 ^ 64 = 8 * length xs mod 2 ^ 64"
    using assms(1) by (simp only: md32_holds_def)
  moreover have "unat (md_Nh c) * 2 ^ 32 + unat (md_Nl c) < 2 ^ 64" and "8 * length xs < 2 ^ 64"
    using unat_u32_less [of "md_Nh c"] unat_u32_less [of "md_Nl c"] assms(2) by simp_all
  ultimately have sum: "unat (md_Nh c) * 2 ^ 32 + unat (md_Nl c) = 8 * length xs" by simp
  show ?thesis
  proof (cases "md_Nh c = 0")
    case True
    then show ?thesis using sum by (simp add: algebra_simps) linarith
  next
    case False
    then have "1 \<le> unat (md_Nh c)" by (simp add: Suc_le_eq unat_gt_0)
    then have "2 ^ 32 \<le> 8 * length xs" using sum mult_le_mono1 [of 1 "unat (md_Nh c)" "2 ^ 32"] by linarith
    then show ?thesis using False by simp
  qed
qed

lemma EVP_tls_cbc_digest_record_eq:
  assumes md: "EVP_MD_type md = 64" and key: "length key \<le> 64" and header: "length header = 13"
    and size: "data_size \<le> full" "full \<le> data_size + 20 + 256"
    and full: "full \<le> length data" "full < 2 ^ 60"
  shows "EVP_tls_cbc_digest_record md header data data_size full key =
    (if full + 77 < 2 ^ 29 then Some (hmac_ref sha1_hash 64 key (header @ take data_size data)) else None)"
proof -
  let ?pad = "map (\<lambda>b. b XOR 0x36) (overwrite 0 key (replicate 64 0))"
  define m where "m = (if full > 20 + 256 then full - 20 - 256 else 0)"
  have m: "m \<le> data_size" "m \<le> full" using size by (auto simp: m_def)
  define c where "c = SHA1_Update (take m data) (SHA1_Update (take 13 header) (SHA1_Update ?pad SHA1_Init))"
  let ?xs = "?pad @ header @ take m data"
  have holds: "md32_holds sha1_compress 64 (md_h SHA1_Init) ?xs c"
    using SHA1_Update_holds [OF SHA1_Update_holds [OF SHA1_Update_holds [OF SHA1_Init_holds]], of ?pad "take 13 header" "take m data"]
      header by (simp add: c_def)
  have lxs: "length ?xs = 77 + m" using hmac_pads(3) [OF key] header m full by simp
  have subs: "size_sub data_size m = data_size - m" "size_sub full m = full - m"
    using m size full by (auto intro!: size_sub_exact)
  have "EVP_sha1_final_with_secret_suffix c (drop m data) (size_sub data_size m) (size_sub full m) =
      (if md_Nh c = 0 \<and> unat (md_Nl c) + 8 * (full - m) < 2 ^ 32
       then Some (sha1_hash (?xs @ take (data_size - m) (drop m data))) else None)"
    unfolding subs using size full m by (intro EVP_sha1_final_with_secret_suffix_eq [OF holds]) simp_all
  also have "md_Nh c = 0 \<and> unat (md_Nl c) + 8 * (full - m) < 2 ^ 32 \<longleftrightarrow> full + 77 < 2 ^ 29"
    using md32_count_fits [OF holds, of "full - m"] lxs m full(2) by simp
  also have "?xs @ take (data_size - m) (drop m data) = ?pad @ header @ take data_size data"
    using m take_add [of m "data_size - m" data] by simp
  finally have inner: "EVP_sha1_final_with_secret_suffix c (drop m data) (size_sub data_size m) (size_sub full m) =
      (if full + 77 < 2 ^ 29 then Some (sha1_hash (?pad @ header @ take data_size data)) else None)" .
  have outer: "fst (SHA1_Final (SHA1_Update ys (SHA1_Update xs SHA1_Init))) = sha1_hash (xs @ ys)" for xs ys
    using SHA1_stream [of "[xs, ys]"] by simp
  show ?thesis
    unfolding EVP_tls_cbc_digest_record_def Let_def m_def [symmetric] c_def [symmetric] inner outer hmac_ref_def
      hmac_pads(2) [OF key] hmac_pads(1) [OF key, symmetric]
    using md key by simp
qed


section \<open>Properties\<close>

text \<open>
  C11: The MAC of a record whose data ends at a secret position, computed by hashing as many blocks
  as the public length allows and keeping the state after the right one, is HMAC-SHA1 of the
  header and the data; it fails exactly for records of \<open>2^29 - 77\<close> bytes or more.
\<close>

theorem tls_cbc_digest_correct:
  assumes "EVP_MD_type md = 64" and "length key \<le> 64" and "length header = 13"
    and "data_size \<le> full" and "full \<le> data_size + 20 + 256"
    and "full \<le> length data" and "full < 2 ^ 60"
  shows "EVP_tls_cbc_digest_record md header data data_size full key =
    (if full + 77 < 2 ^ 29 then Some (hmac_ref sha1_hash 64 key (header @ take data_size data)) else None)"
  using assms by (rule EVP_tls_cbc_digest_record_eq)

theorem tls_cbc_digest_correct_witness:
  "EVP_tls_cbc_digest_record EVP_sha1 (replicate 13 7) (replicate 40 5) 17 40 [1, 2, 3] =
    Some (hmac_ref sha1_hash 64 [1, 2, 3] (replicate 13 7 @ replicate 17 5))"
  using tls_cbc_digest_correct [of EVP_sha1 "[1, 2, 3]" "replicate 13 7" 17 40 "replicate 40 5"]
  by (simp add: EVP_MD_type_def EVP_sha1_def)

end
