(* ===== verification/Cipher.thy ===== *)
theory Cipher
  imports Md32
begin

text \<open>
  The common interface of the ciphers (\<open>crypto/fipsmodule/cipher/cipher.c\<close>). What the functions of a
  cipher see of an \<open>EVP_CIPHER_CTX\<close> is the record \<open>cipher_state\<close>, over the type \<open>'d\<close> of the data of the
  cipher; the rest of the context extends it. The functions return the bytes they write
  to \<open>out\<close>, so \<open>*out_len\<close> is the length of the result. Input and output do not overlap. A pointer
  to a cipher or its data that is NULL is \<open>None\<close>; calling through one fails in the model.

  The contract of a cipher is the locale \<open>cipher_method\<close>: over whole blocks it is a machine \<open>run\<close> that
  can be interrupted between blocks. The reference for a message is the machine on the message
  with its padding.
\<close>

section \<open>Operations\<close>

record 'd cipher_state =
  cs_data :: "'d option"
  cs_key_len :: nat
  cs_encrypt :: bool
  cs_oiv :: "u8 list"
  cs_iv :: "u8 list"
  cs_buf :: "u8 list"
  cs_num :: nat

text \<open>
  The control function gets and returns the bytes behind \<open>ptr\<close>; its use for copying a context
  is a function of its own.
\<close>

record 'd evp_cipher =
  ec_nid :: nat
  ec_block_size :: nat
  ec_key_len :: nat
  ec_iv_len :: nat
  ec_ctx_size :: nat
  ec_flags :: u32
  ec_init :: "u8 list option \<Rightarrow> u8 list option \<Rightarrow> bool \<Rightarrow> ('d cipher_state, unit) op"
  ec_cipher :: "u8 list option \<Rightarrow> ('d cipher_state, u8 list) op"
  ec_ctrl :: "(nat \<Rightarrow> int \<Rightarrow> u8 list option \<Rightarrow> 'd cipher_state \<Rightarrow> int \<times> u8 list option \<times> 'd cipher_state) option"
  ec_copy :: "'d cipher_state \<Rightarrow> 'd cipher_state option"
  ec_new :: 'd \<comment> \<open>\<open>ctx_size\<close> bytes as the allocator returns them\<close>

record 'd evp_cipher_ctx = "'d cipher_state" +
  cc_cipher :: "'d evp_cipher option"
  cc_flags :: u32
  cc_buf_len :: nat
  cc_final_used :: bool
  cc_final :: "u8 list"

definition EVP_CIPHER_CTX_init :: "'d evp_cipher_ctx" where
  "EVP_CIPHER_CTX_init =
     \<lparr>cs_data = None, cs_key_len = 0, cs_encrypt = False, cs_oiv = replicate 16 0, cs_iv = replicate 16 0,
      cs_buf = replicate 32 0, cs_num = 0, cc_cipher = None, cc_flags = 0, cc_buf_len = 0,
      cc_final_used = False, cc_final = replicate 32 0\<rparr>"

definition EVP_CIPHER_CTX_cleanup :: "'d evp_cipher_ctx \<Rightarrow> 'd evp_cipher_ctx" where
  "EVP_CIPHER_CTX_cleanup c = EVP_CIPHER_CTX_init"

definition EVP_CIPHER_CTX_reset :: "'d evp_cipher_ctx \<Rightarrow> 'd evp_cipher_ctx" where
  "EVP_CIPHER_CTX_reset ctx = EVP_CIPHER_CTX_init"

text \<open>Calls of the functions of a cipher on the context.\<close>

definition cipher_call :: "('d cipher_state, 'a) op \<Rightarrow> ('d evp_cipher_ctx, 'a) op" where
  "cipher_call f ctx =
     (case f (cipher_state.truncate ctx) of (r, s) \<Rightarrow> (r, cipher_state.extend s (cipher_state.more ctx)))"

definition EVP_CIPHER_flags :: "'d evp_cipher \<Rightarrow> u32" where
  "EVP_CIPHER_flags cipher = ec_flags cipher AND NOT 0x3f"

definition EVP_CIPHER_mode :: "'d evp_cipher \<Rightarrow> u32" where
  "EVP_CIPHER_mode cipher = ec_flags cipher AND 0x3f"

definition EVP_CIPHER_CTX_copy ::
    "(nat \<Rightarrow> bool) \<Rightarrow> 'd evp_cipher_ctx option \<Rightarrow> ('d evp_cipher_ctx, unit) op" where
  "EVP_CIPHER_CTX_copy sys inp out =
     (case inp of
        None \<Rightarrow> (None, out)
      | Some inp \<Rightarrow>
          case cc_cipher inp of
            None \<Rightarrow> (None, out)
          | Some cipher \<Rightarrow>
              if cs_data inp \<noteq> None \<and> ec_ctx_size cipher \<noteq> 0 \<and> \<not> OPENSSL_malloc sys (ec_ctx_size cipher)
              then (None, inp\<lparr>cs_data := None, cc_cipher := None\<rparr>)
              else if ec_flags cipher AND 0x1000 \<noteq> 0 then
                case ec_copy cipher (cipher_state.truncate inp) of
                  None \<Rightarrow> (None, inp\<lparr>cc_cipher := None\<rparr>)
                | Some s \<Rightarrow> (Some (), cipher_state.extend s (cipher_state.more inp))
              else (Some (), inp))"

definition EVP_CIPHER_CTX_ctrl ::
    "nat \<Rightarrow> int \<Rightarrow> u8 list option \<Rightarrow> 'd evp_cipher_ctx \<Rightarrow> int \<times> u8 list option \<times> 'd evp_cipher_ctx" where
  "EVP_CIPHER_CTX_ctrl command arg ptr ctx =
     (case cc_cipher ctx of
        None \<Rightarrow> (0, ptr, ctx)
      | Some cipher \<Rightarrow>
          case ec_ctrl cipher of
            None \<Rightarrow> (0, ptr, ctx)
          | Some ctrl \<Rightarrow>
              case ctrl command arg ptr (cipher_state.truncate ctx) of
                (ret, ptr, s) \<Rightarrow> (if ret = - 1 then 0 else ret, ptr, cipher_state.extend s (cipher_state.more ctx)))"

text \<open>The part of the initialisation that a new cipher needs; \<open>None\<close> as \<open>enc\<close> is -1.\<close>

definition cipher_set ::
    "(nat \<Rightarrow> bool) \<Rightarrow> 'd evp_cipher \<Rightarrow> ('d evp_cipher_ctx, unit) op" where
  "cipher_set sys cipher ctx =
     (let enc = cs_encrypt ctx;
          ctx = (if cc_cipher ctx \<noteq> None then (EVP_CIPHER_CTX_cleanup ctx)\<lparr>cs_encrypt := enc\<rparr> else ctx);
          ctx = ctx\<lparr>cc_cipher := Some cipher\<rparr>
      in if ec_ctx_size cipher \<noteq> 0 \<and> \<not> OPENSSL_malloc sys (ec_ctx_size cipher)
         then (None, ctx\<lparr>cs_data := None, cc_cipher := None\<rparr>)
         else
           let ctx = ctx\<lparr>cs_data := (if ec_ctx_size cipher \<noteq> 0 then Some (ec_new cipher) else None),
                         cs_key_len := ec_key_len cipher, cc_flags := 0\<rparr>
           in if ec_flags cipher AND 0x200 \<noteq> 0 then
                case EVP_CIPHER_CTX_ctrl 0 0 None ctx of
                  (ret, ptr, ctx) \<Rightarrow> if ret = 0 then (None, ctx\<lparr>cc_cipher := None\<rparr>) else (Some (), ctx)
              else (Some (), ctx))"

text \<open>The vector, by mode; \<open>CBC\<close> and \<open>CFB\<close> start from the original vector again.\<close>

definition cipher_set_iv :: "'d evp_cipher \<Rightarrow> u8 list option \<Rightarrow> ('d evp_cipher_ctx, unit) op" where
  "cipher_set_iv cipher iv ctx =
     (let mode = EVP_CIPHER_mode cipher; n = ec_iv_len cipher in
      if mode = 0 \<or> mode = 1 then (Some (), ctx)
      else if mode = 2 \<or> mode = 3 then
        let ctx = (if mode = 3 then ctx\<lparr>cs_num := 0\<rparr> else ctx);
            ctx = (case iv of Some iv \<Rightarrow> ctx\<lparr>cs_oiv := overwrite 0 (take n iv) (cs_oiv ctx)\<rparr> | None \<Rightarrow> ctx)
        in (Some (), ctx\<lparr>cs_iv := overwrite 0 (take n (cs_oiv ctx)) (cs_iv ctx)\<rparr>)
      else if mode = 4 \<or> mode = 5 then
        let ctx = ctx\<lparr>cs_num := 0\<rparr>
        in (Some (), case iv of Some iv \<Rightarrow> ctx\<lparr>cs_iv := overwrite 0 (take n iv) (cs_iv ctx)\<rparr> | None \<Rightarrow> ctx)
      else (None, ctx))"

definition EVP_CipherInit_ex ::
    "(nat \<Rightarrow> bool) \<Rightarrow> 'd evp_cipher option \<Rightarrow> u8 list option \<Rightarrow> u8 list option \<Rightarrow> bool option \<Rightarrow>
      ('d evp_cipher_ctx, unit) op" where
  "EVP_CipherInit_ex sys cipher key iv enc ctx =
     (let enc = (case enc of None \<Rightarrow> cs_encrypt ctx | Some e \<Rightarrow> e);
          ctx = ctx\<lparr>cs_encrypt := enc\<rparr>
      in case (case cipher of Some c \<Rightarrow> cipher_set sys c ctx | None \<Rightarrow> (Some (), ctx)) of
           (None, ctx) \<Rightarrow> (None, ctx)
         | (Some _, ctx) \<Rightarrow>
             case cc_cipher ctx of
               None \<Rightarrow> (None, ctx)
             | Some c \<Rightarrow>
                 case (if EVP_CIPHER_flags c AND 0x100 = 0 then cipher_set_iv c iv ctx else (Some (), ctx)) of
                   (None, ctx) \<Rightarrow> (None, ctx)
                 | (Some _, ctx) \<Rightarrow>
                     case (if key \<noteq> None \<or> ec_flags c AND 0x80 \<noteq> 0
                           then cipher_call (ec_init c key iv enc) ctx else (Some (), ctx)) of
                       (None, ctx) \<Rightarrow> (None, ctx)
                     | (Some _, ctx) \<Rightarrow> (Some (), ctx\<lparr>cc_buf_len := 0, cc_final_used := False\<rparr>))"

definition EVP_EncryptInit_ex where
  "EVP_EncryptInit_ex sys cipher key iv = EVP_CipherInit_ex sys cipher key iv (Some True)"

definition EVP_DecryptInit_ex where
  "EVP_DecryptInit_ex sys cipher key iv = EVP_CipherInit_ex sys cipher key iv (Some False)"

definition block_remainder :: "'d evp_cipher \<Rightarrow> nat \<Rightarrow> nat" where
  "block_remainder cipher len = len AND (ec_block_size cipher - 1)"

text \<open>The end of \<open>EVP_EncryptUpdate\<close>: whole blocks, and the rest into the buffer.\<close>

definition encrypt_update_rest :: "'d evp_cipher \<Rightarrow> u8 list \<Rightarrow> ('d evp_cipher_ctx, u8 list) op" where
  "encrypt_update_rest cipher inp ctx =
     (let i = block_remainder cipher (length inp);
          n = length inp - i
      in case (if 0 < n then cipher_call (ec_cipher cipher (Some (take n inp))) ctx else (Some [], ctx)) of
           (None, ctx) \<Rightarrow> (None, ctx)
         | (Some out, ctx) \<Rightarrow>
             let ctx = (if i \<noteq> 0 then ctx\<lparr>cs_buf := overwrite 0 (drop n inp) (cs_buf ctx)\<rparr> else ctx)
             in (Some out, ctx\<lparr>cc_buf_len := i\<rparr>))"

definition EVP_EncryptUpdate :: "u8 list \<Rightarrow> ('d evp_cipher_ctx, u8 list) op" where
  "EVP_EncryptUpdate inp ctx =
     (case cc_cipher ctx of
        None \<Rightarrow> (None, ctx)
      | Some cipher \<Rightarrow>
          let bl = ec_block_size cipher in
          if bl > 1 \<and> length inp > int_max - bl then (None, ctx)
          else if ec_flags cipher AND 0x400 \<noteq> 0 then cipher_call (ec_cipher cipher (Some inp)) ctx
          else if length inp = 0 then (Some [], ctx)
          else if cc_buf_len ctx = 0 \<and> block_remainder cipher (length inp) = 0
          then cipher_call (ec_cipher cipher (Some inp)) ctx
          else
            let i = cc_buf_len ctx in
            if i \<noteq> 0 then
              if bl - i > length inp
              then (Some [], ctx\<lparr>cs_buf := overwrite i inp (cs_buf ctx), cc_buf_len := i + length inp\<rparr>)
              else
                let j = bl - i;
                    ctx = ctx\<lparr>cs_buf := overwrite i (take j inp) (cs_buf ctx)\<rparr>
                in case cipher_call (ec_cipher cipher (Some (take bl (cs_buf ctx)))) ctx of
                     (None, ctx) \<Rightarrow> (None, ctx)
                   | (Some out, ctx) \<Rightarrow>
                       case encrypt_update_rest cipher (drop j inp) ctx of
                         (None, ctx) \<Rightarrow> (None, ctx)
                       | (Some out', ctx) \<Rightarrow> (Some (out @ out'), ctx)
            else encrypt_update_rest cipher inp ctx)"

definition EVP_EncryptFinal_ex :: "('d evp_cipher_ctx, u8 list) op" where
  "EVP_EncryptFinal_ex ctx =
     (case cc_cipher ctx of
        None \<Rightarrow> (None, ctx)
      | Some cipher \<Rightarrow>
          if ec_flags cipher AND 0x400 \<noteq> 0 then cipher_call (ec_cipher cipher None) ctx
          else
            let b = ec_block_size cipher in
            if b = 1 then (Some [], ctx)
            else
              let bl = cc_buf_len ctx in
              if cc_flags ctx AND 0x800 \<noteq> 0 then (if bl \<noteq> 0 then None else Some [], ctx)
              else
                let n = b - bl;
                    ctx = ctx\<lparr>cs_buf := overwrite bl (replicate n (word_of_nat n)) (cs_buf ctx)\<rparr>
                in cipher_call (ec_cipher cipher (Some (take b (cs_buf ctx)))) ctx)"

definition EVP_DecryptUpdate :: "u8 list \<Rightarrow> ('d evp_cipher_ctx, u8 list) op" where
  "EVP_DecryptUpdate inp ctx =
     (case cc_cipher ctx of
        None \<Rightarrow> (None, ctx)
      | Some cipher \<Rightarrow>
          let b = ec_block_size cipher in
          if b > 1 \<and> length inp > int_max - b then (None, ctx)
          else if ec_flags cipher AND 0x400 \<noteq> 0 then cipher_call (ec_cipher cipher (Some inp)) ctx
          else if length inp = 0 then (Some [], ctx)
          else if cc_flags ctx AND 0x800 \<noteq> 0 then EVP_EncryptUpdate inp ctx
          else
            let first = (if cc_final_used ctx then take b (cc_final ctx) else []) in
            case EVP_EncryptUpdate inp ctx of
              (None, ctx) \<Rightarrow> (None, ctx)
            | (Some out, ctx) \<Rightarrow>
                if b > 1 \<and> cc_buf_len ctx = 0 then
                  let n = length out - b
                  in (Some (first @ take n out),
                      ctx\<lparr>cc_final_used := True, cc_final := overwrite 0 (take b (drop n out)) (cc_final ctx)\<rparr>)
                else (Some (first @ out), ctx\<lparr>cc_final_used := False\<rparr>))"

text \<open>The comparison of the last \<open>n\<close> bytes of the block \<open>final\<close>, from its end.\<close>

fun final_padding_ok :: "u8 list \<Rightarrow> nat \<Rightarrow> nat \<Rightarrow> nat \<Rightarrow> bool" where
  "final_padding_ok final n b 0 \<longleftrightarrow> True"
| "final_padding_ok final n b (Suc i) \<longleftrightarrow> unat (final ! (b - 1)) = n \<and> final_padding_ok final n (b - 1) i"

definition EVP_DecryptFinal_ex :: "('d evp_cipher_ctx, u8 list) op" where
  "EVP_DecryptFinal_ex ctx =
     (case cc_cipher ctx of
        None \<Rightarrow> (None, ctx)
      | Some cipher \<Rightarrow>
          if ec_flags cipher AND 0x400 \<noteq> 0 then cipher_call (ec_cipher cipher None) ctx
          else
            let b = ec_block_size cipher in
            if cc_flags ctx AND 0x800 \<noteq> 0 then (if cc_buf_len ctx \<noteq> 0 then None else Some [], ctx)
            else if b > 1 then
              if cc_buf_len ctx \<noteq> 0 \<or> \<not> cc_final_used ctx then (None, ctx)
              else
                let n = unat (cc_final ctx ! (b - 1)) in
                if n = 0 \<or> n > b then (None, ctx)
                else if \<not> final_padding_ok (cc_final ctx) n b n then (None, ctx)
                else (Some (take (b - n) (cc_final ctx)), ctx)
            else (Some [], ctx))"

definition EVP_Cipher :: "u8 list \<Rightarrow> ('d evp_cipher_ctx, u8 list) op" where
  "EVP_Cipher inp ctx =
     (case cc_cipher ctx of None \<Rightarrow> (None, ctx) | Some cipher \<Rightarrow> cipher_call (ec_cipher cipher (Some inp)) ctx)"

definition EVP_CipherUpdate :: "u8 list \<Rightarrow> ('d evp_cipher_ctx, u8 list) op" where
  "EVP_CipherUpdate inp ctx = (if cs_encrypt ctx then EVP_EncryptUpdate inp ctx else EVP_DecryptUpdate inp ctx)"

definition EVP_CipherFinal_ex :: "('d evp_cipher_ctx, u8 list) op" where
  "EVP_CipherFinal_ex ctx = (if cs_encrypt ctx then EVP_EncryptFinal_ex ctx else EVP_DecryptFinal_ex ctx)"

definition EVP_CIPHER_CTX_set_padding :: "bool \<Rightarrow> 'd evp_cipher_ctx \<Rightarrow> 'd evp_cipher_ctx" where
  "EVP_CIPHER_CTX_set_padding pad ctx =
     (if pad then ctx\<lparr>cc_flags := cc_flags ctx AND NOT 0x800\<rparr> else ctx\<lparr>cc_flags := cc_flags ctx OR 0x800\<rparr>)"

definition EVP_CIPHER_CTX_set_key_length :: "nat \<Rightarrow> ('d evp_cipher_ctx, unit) op" where
  "EVP_CIPHER_CTX_set_key_length key_len c =
     (if cs_key_len c = key_len then (Some (), c)
      else
        case cc_cipher c of
          None \<Rightarrow> (None, c)
        | Some cipher \<Rightarrow>
            if key_len = 0 \<or> ec_flags cipher AND 0x40 = 0 then (None, c)
            else (Some (), c\<lparr>cs_key_len := key_len\<rparr>))"

definition EVP_CipherInit ::
    "(nat \<Rightarrow> bool) \<Rightarrow> 'd evp_cipher option \<Rightarrow> u8 list option \<Rightarrow> u8 list option \<Rightarrow> bool option \<Rightarrow>
      ('d evp_cipher_ctx, unit) op" where
  "EVP_CipherInit sys cipher key iv enc ctx =
     EVP_CipherInit_ex sys cipher key iv enc (if cipher \<noteq> None then EVP_CIPHER_CTX_init else ctx)"


section \<open>Reference\<close>

text \<open>The padding of the last block, and its removal.\<close>

definition pkcs_pad :: "nat \<Rightarrow> u8 list \<Rightarrow> u8 list" where
  "pkcs_pad B xs = (if B = 1 then xs else let n = B - length xs mod B in xs @ replicate n (word_of_nat n))"

definition pkcs_unpad :: "nat \<Rightarrow> u8 list \<Rightarrow> u8 list option" where
  "pkcs_unpad B xs =
     (if B = 1 then Some xs
      else if xs = [] then None
      else
        let n = unat (last xs) in
        if n = 0 \<or> n > B \<or> drop (length xs - n) xs \<noteq> replicate n (word_of_nat n) then None
        else Some (take (length xs - n) xs))"

text \<open>A sequence of calls, with what they return one after the other.\<close>

fun cipher_updates :: "(u8 list \<Rightarrow> ('s, u8 list) op) \<Rightarrow> u8 list list \<Rightarrow> ('s, u8 list) op" where
  "cipher_updates update [] = pret []"
| "cipher_updates update (c # cs) = pbind (update c) (\<lambda>out. pmap (append out) (cipher_updates update cs))"

definition cipher_stream ::
    "(u8 list \<Rightarrow> ('s, u8 list) op) \<Rightarrow> ('s, u8 list) op \<Rightarrow> u8 list list \<Rightarrow> ('s, u8 list) op" where
  "cipher_stream update final chunks =
     pbind (cipher_updates update chunks) (\<lambda>out. pmap (append out) final)"

section \<open>Whole blocks\<close>

lemma whole_length_append: "0 < B \<Longrightarrow> B dvd n \<Longrightarrow> (n + k) div B * B = n + k div B * B" for n k :: nat
  by (simp add: div_plus_div_distrib_dvd_left add_mult_distrib)

lemma whole_append: "0 < B \<Longrightarrow> B dvd length ws \<Longrightarrow> whole B (ws @ xs) = ws @ whole B xs"
  by (simp add: whole_def whole_length_append)

lemma partial_append: "0 < B \<Longrightarrow> B dvd length ws \<Longrightarrow> partial B (ws @ xs) = partial B xs"
  by (simp add: partial_def whole_length_append)

lemma whole_short: "length xs < B \<Longrightarrow> whole B xs = []"
  by (simp add: whole_def)

lemma whole_all: "B dvd length xs \<Longrightarrow> whole B xs = xs"
  by (simp add: whole_def)

lemma partial_all: "B dvd length xs \<Longrightarrow> partial B xs = []"
  by (simp add: partial_def)

lemma dvd_length_whole: "B dvd length (whole B xs)"
  by (simp add: length_whole)

lemma whole_fill:
  assumes "0 < B" and "length xs mod B + length ys = B"
  shows "whole B (xs @ ys @ zs) = whole B xs @ (partial B xs @ ys) @ whole B zs"
    and "partial B (xs @ ys @ zs) = partial B zs"
proof -
  have split: "xs @ ys @ zs = whole B xs @ (partial B xs @ ys) @ zs"
    using whole_partial [of B xs] by (metis append_assoc)
  have block: "B dvd length (partial B xs @ ys)" using assms(2) by simp
  show "whole B (xs @ ys @ zs) = whole B xs @ (partial B xs @ ys) @ whole B zs"
    unfolding split by (simp only: whole_append [OF assms(1) dvd_length_whole] whole_append [OF assms(1) block])
  show "partial B (xs @ ys @ zs) = partial B zs"
    unfolding split by (simp only: partial_append [OF assms(1) dvd_length_whole] partial_append [OF assms(1) block])
qed

lemma and_block_mask: "B \<in> {1, 8, 16} \<Longrightarrow> n AND (B - 1) = n mod B" for n :: nat
proof -
  have "n AND (2 ^ k - 1) = n mod 2 ^ k" for k
    using take_bit_eq_mask [of k n] by (simp add: mask_eq_exp_minus_1 take_bit_eq_mod)
  from this [of 0] this [of 3] this [of 4] show "B \<in> {1, 8, 16} \<Longrightarrow> n AND (B - 1) = n mod B" by auto
qed

lemma take_overwrite_start: "length xs \<le> length data \<Longrightarrow> take (length xs) (overwrite 0 xs data) = xs"
  by (simp add: overwrite_def)

lemma take_overwrite_next:
  "n + length xs \<le> length data \<Longrightarrow> take (n + length xs) (overwrite n xs data) = take n data @ xs"
  by (simp add: overwrite_def)

lemma u8_eq_of_nat: "n < 256 \<Longrightarrow> b = word_of_nat n \<longleftrightarrow> unat b = n" for b :: u8
  by (auto simp: unat_of_nat)

lemma final_padding_ok_iff:
  assumes "i \<le> b" and "b \<le> length final" and "n < 256"
  shows "final_padding_ok final n b i \<longleftrightarrow> drop (b - i) (take b final) = replicate i (word_of_nat n)"
  using assms(1,2)
proof (induction i arbitrary: b)
  case (Suc i)
  then obtain b' where b: "b = Suc b'" by (cases b) auto
  have t: "take b final = take b' final @ [final ! b']"
    using Suc.prems by (simp add: b take_Suc_conv_app_nth)
  have "drop (b - Suc i) (take b final) = drop (b' - i) (take b' final) @ [final ! b']"
    unfolding t using Suc.prems by (simp add: b)
  moreover have "replicate (Suc i) (word_of_nat n :: u8) = replicate i (word_of_nat n) @ [word_of_nat n]"
    by (simp add: replicate_append_same)
  ultimately show ?case
    using Suc.IH [of b'] Suc.prems u8_eq_of_nat [OF assms(3), of "final ! b'"] by (auto simp: b)
qed simp

lemma pkcs_unpad_block:
  assumes "length blk = B" and "1 < B" and "B \<le> 16"
  shows "pkcs_unpad B (out @ blk) =
    (let n = unat (blk ! (B - 1)) in
     if n = 0 \<or> n > B \<or> drop (B - n) blk \<noteq> replicate n (word_of_nat n) then None
     else Some (out @ take (B - n) blk))"
proof -
  have "blk \<noteq> []" using assms by auto
  then have "last (out @ blk) = last blk" by simp
  also have "\<dots> = blk ! (B - 1)" using \<open>blk \<noteq> []\<close> assms(1) by (simp add: last_conv_nth)
  finally have l: "last (out @ blk) = blk ! (B - 1)" .
  show ?thesis
    using assms \<open>blk \<noteq> []\<close> unfolding pkcs_unpad_def l by (auto simp: Let_def)
qed

lemma pkcs_unpad_pad:
  assumes "0 < B" and "B \<le> 16"
  shows "pkcs_unpad B (pkcs_pad B xs) = Some xs"
proof (cases "B = 1")
  case False
  define n where "n = B - length xs mod B"
  have n: "0 < n" "n \<le> B" "n < 256" using assms mod_less_divisor [of B "length xs"] by (auto simp: n_def)
  then have u: "unat (word_of_nat n :: u8) = n" by (simp add: unat_of_nat)
  have l: "last (xs @ replicate n (word_of_nat n)) = (word_of_nat n :: u8)" using n(1) by (simp add: last_replicate)
  have p: "pkcs_pad B xs = xs @ replicate n (word_of_nat n)" using False by (simp add: pkcs_pad_def n_def Let_def)
  show ?thesis
    unfolding p pkcs_unpad_def l u Let_def using n False by simp
qed (simp add: pkcs_pad_def pkcs_unpad_def)

section \<open>The contract of a cipher\<close>

text \<open>
  \<open>run\<close> processes whole blocks, from the part \<open>abs\<close> of the state that matters to it. The shared buffer belongs to
  the interface, except for stream ciphers, for which the interface does not use it.
\<close>

locale cipher_method =
  fixes c :: "'d evp_cipher" and ok :: "'d cipher_state \<Rightarrow> bool"
    and abs :: "'d cipher_state \<Rightarrow> 'm" and run :: "'m \<Rightarrow> u8 list \<Rightarrow> u8 list \<times> 'm"
  assumes not_custom: "ec_flags c AND 0x400 = 0"
    and block_size: "ec_block_size c \<in> {1, 8, 16}"
    and runs: "ok s \<Longrightarrow> ec_block_size c dvd length xs \<Longrightarrow>
      \<exists>s'. ec_cipher c (Some xs) s = (Some (fst (run (abs s) xs)), s') \<and> abs s' = snd (run (abs s) xs) \<and> ok s'"
    and buffer: "ok s \<Longrightarrow> length (cs_buf s) = 32"
    and buffer_free: "ec_block_size c \<noteq> 1 \<Longrightarrow> ok s \<Longrightarrow> length b = 32 \<Longrightarrow>
      ok (s\<lparr>cs_buf := b\<rparr>) \<and> abs (s\<lparr>cs_buf := b\<rparr>) = abs s"
    and run_Nil: "ok s \<Longrightarrow> run (abs s) [] = ([], abs s)"
    and run_append: "ok s \<Longrightarrow> ec_block_size c dvd length xs \<Longrightarrow> ec_block_size c dvd length ys \<Longrightarrow>
      run (abs s) (xs @ ys) =
        (fst (run (abs s) xs) @ fst (run (snd (run (abs s) xs)) ys), snd (run (snd (run (abs s) xs)) ys))"
    and run_length: "ok s \<Longrightarrow> ec_block_size c dvd length xs \<Longrightarrow> length (fst (run (abs s) xs)) = length xs"
begin

abbreviation B :: nat where
  "B \<equiv> ec_block_size c"

lemma B_bounds: "0 < B" "B \<le> 16"
  using block_size by auto

lemma remainder: "block_remainder c n = n mod B"
  using and_block_mask [OF block_size] by (simp add: block_remainder_def)

definition ready :: "'m \<Rightarrow> 'd evp_cipher_ctx \<Rightarrow> bool" where
  "ready m ctx \<longleftrightarrow> cc_cipher ctx = Some c \<and> ok (cipher_state.truncate ctx) \<and> abs (cipher_state.truncate ctx) = m"

definition same_rest :: "'d evp_cipher_ctx \<Rightarrow> 'd evp_cipher_ctx \<Rightarrow> bool" where
  "same_rest ctx ctx' \<longleftrightarrow> cc_flags ctx' = cc_flags ctx \<and> cc_final_used ctx' = cc_final_used ctx \<and> cc_final ctx' = cc_final ctx"

lemma same_rest_trans: "same_rest a b \<Longrightarrow> same_rest b d \<Longrightarrow> same_rest a d"
  by (simp add: same_rest_def)

lemma call_runs:
  assumes "ready m ctx" and "B dvd length xs"
  shows "\<exists>ctx'. cipher_call (ec_cipher c (Some xs)) ctx = (Some (fst (run m xs)), ctx') \<and>
    ready (snd (run m xs)) ctx' \<and> same_rest ctx ctx' \<and> cc_buf_len ctx' = cc_buf_len ctx"
proof -
  let ?s = "cipher_state.truncate ctx"
  obtain s' where s': "ec_cipher c (Some xs) ?s = (Some (fst (run m xs)), s')" "abs s' = snd (run m xs)" "ok s'"
    using runs [of ?s xs] assms by (auto simp: ready_def)
  let ?c = "cipher_state.extend s' (cipher_state.more ctx)"
  have t: "cipher_state.truncate ?c = s'" by (cases s') (simp add: cipher_state.defs)
  have "cc_cipher ?c = cc_cipher ctx" "cc_buf_len ?c = cc_buf_len ctx" "same_rest ctx ?c"
    by (cases s'; cases ctx; simp add: cipher_state.defs same_rest_def)+
  then show ?thesis
    using s' assms(1) by (auto simp: cipher_call_def ready_def t)
qed

lemma ready_buffer:
  assumes "ready m ctx" and "B \<noteq> 1" and "length b = 32"
  shows "ready m (ctx\<lparr>cs_buf := b\<rparr>)"
proof -
  have "cipher_state.truncate (ctx\<lparr>cs_buf := b\<rparr>) = (cipher_state.truncate ctx)\<lparr>cs_buf := b\<rparr>"
    by (simp add: cipher_state.defs)
  then show ?thesis
    using assms buffer_free [of "cipher_state.truncate ctx" b] by (simp add: ready_def)
qed

lemma ready_rest [simp]:
  "ready m (ctx\<lparr>cc_buf_len := n\<rparr>) = ready m ctx"
  "ready m (ctx\<lparr>cc_final_used := u\<rparr>) = ready m ctx"
  "ready m (ctx\<lparr>cc_final := f\<rparr>) = ready m ctx"
  by (simp_all add: ready_def cipher_state.defs)

lemma ready_buf: "ready m ctx \<Longrightarrow> length (cs_buf ctx) = 32"
  using buffer [of "cipher_state.truncate ctx"] by (simp add: ready_def cipher_state.defs)


section \<open>Encryption\<close>

text \<open>A context that has been given the message \<open>msg\<close> from the state \<open>m\<close> on.\<close>

definition given :: "'m \<Rightarrow> u8 list \<Rightarrow> 'd evp_cipher_ctx \<Rightarrow> bool" where
  "given m msg ctx \<longleftrightarrow>
     (\<exists>s. ok s \<and> abs s = m) \<and> ready (snd (run m (whole B msg))) ctx \<and> cc_buf_len ctx = length msg mod B \<and>
     take (length msg mod B) (cs_buf ctx) = partial B msg"

lemma run_whole_append:
  assumes "given m msg ctx" and "B dvd length xs"
  shows "run m (whole B msg @ xs) =
    (fst (run m (whole B msg)) @ fst (run (snd (run m (whole B msg))) xs), snd (run (snd (run m (whole B msg))) xs))"
  using assms run_append [OF _ dvd_length_whole] by (auto simp: given_def)

lemma encrypt_update_rest:
  assumes "ready m ctx"
  shows "\<exists>ctx'. encrypt_update_rest c inp ctx = (Some (fst (run m (whole B inp))), ctx') \<and>
    ready (snd (run m (whole B inp))) ctx' \<and> same_rest ctx ctx' \<and> cc_buf_len ctx' = length inp mod B \<and>
    take (length inp mod B) (cs_buf ctx') = partial B inp"
proof -
  let ?i = "length inp mod B" and ?n = "length inp - length inp mod B"
  have n: "?n = length inp div B * B" by (rule minus_mod_eq_div_mult)
  have parts: "take ?n inp = whole B inp" "drop ?n inp = partial B inp"
    by (simp_all add: n whole_def partial_def)
  obtain ctx1 where call: "(if 0 < ?n then cipher_call (ec_cipher c (Some (take ?n inp))) ctx else (Some [], ctx)) =
      (Some (fst (run m (whole B inp))), ctx1)" "ready (snd (run m (whole B inp))) ctx1" "same_rest ctx ctx1"
  proof (cases "0 < ?n")
    case True
    with call_runs [OF assms dvd_length_whole, of inp] that show ?thesis by (auto simp: parts)
  next
    case False
    then have "whole B inp = []" by (simp add: parts(1) [symmetric])
    moreover have "run m [] = ([], m)"
      using assms run_Nil by (auto simp: ready_def)
    ultimately show ?thesis using that [of ctx] assms False by (simp add: same_rest_def)
  qed
  define c2 where "c2 = (if ?i \<noteq> 0 then ctx1\<lparr>cs_buf := overwrite 0 (drop ?n inp) (cs_buf ctx1)\<rparr> else ctx1)"
  have buf: "length (cs_buf ctx1) = 32" using call(2) by (rule ready_buf)
  have i: "?i < B" "?i \<le> 32" using B_bounds mod_less_divisor [of B "length inp"] by linarith+
  have "ready (snd (run m (whole B inp))) c2"
    using call(2) ready_buffer [OF call(2), of "overwrite 0 (drop ?n inp) (cs_buf ctx1)"] buf i by (auto simp: parts c2_def)
  moreover have "same_rest ctx c2" using call(3) by (simp add: same_rest_def c2_def)
  moreover have "take ?i (cs_buf c2) = partial B inp"
    using take_overwrite_start [of "partial B inp" "cs_buf ctx1"] buf i(2) by (auto simp: parts c2_def partial_all)
  moreover have "encrypt_update_rest c inp ctx = (Some (fst (run m (whole B inp))), c2\<lparr>cc_buf_len := ?i\<rparr>)"
    by (simp only: encrypt_update_rest_def Let_def remainder call(1) prod.case option.case c2_def)
  ultimately show ?thesis by (simp add: same_rest_def)
qed

lemma encrypt_update:
  assumes given: "given m msg ctx" and len: "B = 1 \<or> length xs \<le> int_max - B"
  shows "\<exists>out ctx'. EVP_EncryptUpdate xs ctx = (Some out, ctx') \<and> given m (msg @ xs) ctx' \<and> same_rest ctx ctx' \<and>
    fst (run m (whole B (msg @ xs))) = fst (run m (whole B msg)) @ out"
proof -
  let ?m = "snd (run m (whole B msg))" and ?i = "length msg mod B"
  from given have s: "\<exists>s. ok s \<and> abs s = m" and ready: "ready ?m ctx" and bl: "cc_buf_len ctx = ?i"
    and buf: "take ?i (cs_buf ctx) = partial B msg" by (simp_all add: given_def)
  have cipher: "cc_cipher ctx = Some c" using ready by (simp add: ready_def)
  have enter: "\<not> (B > 1 \<and> length xs > int_max - B)" "ec_flags c AND 0x400 = 0"
    using len not_custom by auto
  have start: "EVP_EncryptUpdate xs ctx =
      (if length xs = 0 then (Some [], ctx)
       else if ?i = 0 \<and> length xs mod B = 0 then cipher_call (ec_cipher c (Some xs)) ctx
       else if ?i \<noteq> 0 then
         if B - ?i > length xs
         then (Some [], ctx\<lparr>cs_buf := overwrite ?i xs (cs_buf ctx), cc_buf_len := ?i + length xs\<rparr>)
         else
           let ctx = ctx\<lparr>cs_buf := overwrite ?i (take (B - ?i) xs) (cs_buf ctx)\<rparr>
           in case cipher_call (ec_cipher c (Some (take B (cs_buf ctx)))) ctx of
                (None, ctx) \<Rightarrow> (None, ctx)
              | (Some out, ctx) \<Rightarrow>
                  case encrypt_update_rest c (drop (B - ?i) xs) ctx of
                    (None, ctx) \<Rightarrow> (None, ctx)
                  | (Some out', ctx) \<Rightarrow> (Some (out @ out'), ctx)
       else encrypt_update_rest c xs ctx)"
    unfolding EVP_EncryptUpdate_def cipher option.case Let_def if_not_P [OF enter(1)] bl remainder
    using enter(2) by simp
  have B: "0 < B" by (rule B_bounds)
  have msg: "whole B msg @ partial B msg = msg" by (rule whole_partial)
  consider "xs = []" | "xs \<noteq> []" "?i = 0" | "xs \<noteq> []" "?i \<noteq> 0" "length xs < B - ?i" | "xs \<noteq> []" "?i \<noteq> 0" "B - ?i \<le> length xs"
    by linarith
  then show ?thesis
  proof cases
    case 1
    then show ?thesis using given start by (simp add: same_rest_def)
  next
    case 2
    then have all: "whole B msg = msg" "B dvd length msg" by (simp_all add: whole_all mod_eq_0_iff_dvd)
    have wp: "whole B (msg @ xs) = whole B msg @ whole B xs" "partial B (msg @ xs) = partial B xs"
      "length (msg @ xs) mod B = length xs mod B"
      using whole_append [OF B all(2)] partial_append [OF B all(2)] all by auto
    obtain ctx' where step: "EVP_EncryptUpdate xs ctx = (Some (fst (run ?m (whole B xs))), ctx')"
      "ready (snd (run ?m (whole B xs))) ctx'" "same_rest ctx ctx'" "cc_buf_len ctx' = length xs mod B"
      "take (length xs mod B) (cs_buf ctx') = partial B xs"
    proof (cases "length xs mod B = 0")
      case True
      then show ?thesis
        using call_runs [OF ready, of xs] that start 2 bl by (auto simp: whole_all partial_all mod_eq_0_iff_dvd)
    next
      case False
      then show ?thesis using encrypt_update_rest [OF ready, of xs] that start 2 by auto
    qed
    then show ?thesis
      using s run_whole_append [OF given dvd_length_whole, of xs] unfolding given_def wp by simp
  next
    case 3
    then have short: "length (partial B msg @ xs) < B" by simp
    have split: "msg @ xs = whole B msg @ (partial B msg @ xs)" by (simp flip: append_assoc)
    have w: "whole B (msg @ xs) = whole B msg"
      unfolding split whole_append [OF B dvd_length_whole] whole_short [OF short] by simp
    have p: "partial B (msg @ xs) = partial B msg @ xs"
      unfolding split partial_append [OF B dvd_length_whole] by (rule partial_short [OF short])
    then have l: "length (msg @ xs) mod B = ?i + length xs" using length_partial [of B "msg @ xs"] by simp
    let ?b = "overwrite ?i xs (cs_buf ctx)"
    have b32: "length (cs_buf ctx) = 32" by (rule ready_buf [OF ready])
    have fits: "?i + length xs \<le> length (cs_buf ctx)" using short B_bounds b32 by simp
    have "B \<noteq> 1" using 3 by auto
    then have "ready ?m (ctx\<lparr>cs_buf := ?b, cc_buf_len := ?i + length xs\<rparr>)"
      using ready_buffer [OF ready, of ?b] fits b32 by simp
    moreover have "take (?i + length xs) ?b = partial B (msg @ xs)"
      using take_overwrite_next [OF fits] buf p by simp
    moreover have "EVP_EncryptUpdate xs ctx = (Some [], ctx\<lparr>cs_buf := ?b, cc_buf_len := ?i + length xs\<rparr>)"
      using 3 by (simp add: start)
    ultimately show ?thesis using s unfolding given_def w l by (simp add: same_rest_def)
  next
    case 4
    let ?j = "B - ?i"
    let ?b = "overwrite ?i (take ?j xs) (cs_buf ctx)"
    have i: "?i < B" using B by simp
    have tj: "length (take ?j xs) = ?j" using 4 by simp
    have b32: "length (cs_buf ctx) = 32" by (rule ready_buf [OF ready])
    have fits: "?i + length (take ?j xs) \<le> length (cs_buf ctx)" using i B_bounds b32 tj by simp
    have block: "take B ?b = partial B msg @ take ?j xs"
      using take_overwrite_next [OF fits, unfolded tj] buf i by simp
    have "length msg mod B + length (take ?j xs) = B" using tj i by simp
    from whole_fill [OF B this, of "drop ?j xs"] have
      w: "whole B (msg @ xs) = whole B msg @ (take B ?b @ whole B (drop ?j xs))" and
      p: "partial B (msg @ xs) = partial B (drop ?j xs)" by (simp_all add: block)
    have l: "length (msg @ xs) mod B = length (drop ?j xs) mod B"
      using length_partial [of B "msg @ xs"] length_partial [of B "drop ?j xs"] p by simp
    have "B \<noteq> 1" using 4 by auto
    then have ready1: "ready ?m (ctx\<lparr>cs_buf := ?b\<rparr>)"
      using ready_buffer [OF ready, of ?b] fits b32 by simp
    have dvd: "B dvd length (take B ?b)" using block i tj by simp
    from call_runs [OF ready1 dvd] obtain ctx1 where
      c1: "cipher_call (ec_cipher c (Some (take B ?b))) (ctx\<lparr>cs_buf := ?b\<rparr>) = (Some (fst (run ?m (take B ?b))), ctx1)"
        "ready (snd (run ?m (take B ?b))) ctx1" "same_rest (ctx\<lparr>cs_buf := ?b\<rparr>) ctx1" by blast
    from encrypt_update_rest [OF c1(2), of "drop ?j xs"] obtain ctx2 where
      c2: "encrypt_update_rest c (drop ?j xs) ctx1 =
          (Some (fst (run (snd (run ?m (take B ?b))) (whole B (drop ?j xs)))), ctx2)"
        "ready (snd (run (snd (run ?m (take B ?b))) (whole B (drop ?j xs)))) ctx2" "same_rest ctx1 ctx2"
        "cc_buf_len ctx2 = length (drop ?j xs) mod B" "take (length (drop ?j xs) mod B) (cs_buf ctx2) = partial B (drop ?j xs)"
      by blast
    have "EVP_EncryptUpdate xs ctx = (Some (fst (run ?m (take B ?b)) @
        fst (run (snd (run ?m (take B ?b))) (whole B (drop ?j xs)))), ctx2)"
      using 4 by (simp add: start Let_def c1(1) c2(1))
    moreover have "run ?m (take B ?b @ whole B (drop ?j xs)) =
        (fst (run ?m (take B ?b)) @ fst (run (snd (run ?m (take B ?b))) (whole B (drop ?j xs))),
         snd (run (snd (run ?m (take B ?b))) (whole B (drop ?j xs))))"
      using ready1 run_append [OF _ dvd dvd_length_whole, of "cipher_state.truncate (ctx\<lparr>cs_buf := ?b\<rparr>)"]
      by (simp add: ready_def)
    moreover have "B dvd length (take B ?b @ whole B (drop ?j xs))"
      using dvd dvd_length_whole [of B "drop ?j xs"] by (simp only: length_append dvd_add)
    ultimately show ?thesis
      using s run_whole_append [OF given, of "take B ?b @ whole B (drop ?j xs)"] c1(3) c2
      unfolding given_def w p l by (simp add: same_rest_def)
  qed
qed


lemma encrypt_updates:
  assumes "given m msg ctx" and "\<forall>xs\<in>set chunks. B = 1 \<or> length xs \<le> int_max - B"
  shows "\<exists>out ctx'. cipher_updates EVP_EncryptUpdate chunks ctx = (Some out, ctx') \<and>
    given m (msg @ concat chunks) ctx' \<and> same_rest ctx ctx' \<and>
    fst (run m (whole B (msg @ concat chunks))) = fst (run m (whole B msg)) @ out"
  using assms
proof (induction chunks arbitrary: msg ctx)
  case Nil
  then show ?case by (simp add: same_rest_def)
next
  case (Cons xs chunks)
  obtain out1 ctx1 where 1: "EVP_EncryptUpdate xs ctx = (Some out1, ctx1)" "given m (msg @ xs) ctx1" "same_rest ctx ctx1"
    "fst (run m (whole B (msg @ xs))) = fst (run m (whole B msg)) @ out1"
    using encrypt_update [OF Cons.prems(1), of xs] Cons.prems(2) by auto
  from Cons.IH [OF 1(2)] Cons.prems(2) obtain out2 ctx2 where
    2: "cipher_updates EVP_EncryptUpdate chunks ctx1 = (Some out2, ctx2)" "given m (msg @ xs @ concat chunks) ctx2"
      "same_rest ctx1 ctx2" "fst (run m (whole B (msg @ xs @ concat chunks))) = fst (run m (whole B (msg @ xs))) @ out2"
    by auto
  with 1 show ?case by (auto simp: pbind_def pmap_def intro: same_rest_trans)
qed

lemma pkcs_pad_whole:
  assumes "B \<noteq> 1"
  shows "pkcs_pad B msg = whole B msg @ partial B msg @ replicate (B - length msg mod B) (word_of_nat (B - length msg mod B))"
  using assms whole_partial [of B msg] by (simp add: pkcs_pad_def Let_def flip: append_assoc)

lemma encrypt_final:
  assumes given: "given m msg ctx" and pad: "cc_flags ctx AND 0x800 = 0"
  shows "\<exists>out ctx'. EVP_EncryptFinal_ex ctx = (Some out, ctx') \<and>
    fst (run m (pkcs_pad B msg)) = fst (run m (whole B msg)) @ out"
proof -
  let ?m = "snd (run m (whole B msg))" and ?i = "length msg mod B"
  from given have ready: "ready ?m ctx" and bl: "cc_buf_len ctx = ?i"
    and buf: "take ?i (cs_buf ctx) = partial B msg" by (simp_all add: given_def)
  have cipher: "cc_cipher ctx = Some c" using ready by (simp add: ready_def)
  show ?thesis
  proof (cases "B = 1")
    case True
    then show ?thesis
      using not_custom by (simp add: EVP_EncryptFinal_ex_def cipher pkcs_pad_def whole_all)
  next
    case False
    let ?n = "B - ?i"
    let ?pad = "replicate ?n (word_of_nat ?n)"
    let ?b = "overwrite ?i ?pad (cs_buf ctx)"
    have i: "?i < B" using B_bounds by simp
    have b32: "length (cs_buf ctx) = 32" by (rule ready_buf [OF ready])
    have fits: "?i + length ?pad \<le> length (cs_buf ctx)" using i B_bounds b32 by simp
    have block: "take B ?b = partial B msg @ ?pad"
      using take_overwrite_next [OF fits] buf i by simp
    have ready1: "ready ?m (ctx\<lparr>cs_buf := ?b\<rparr>)"
      using ready_buffer [OF ready False, of ?b] fits b32 by simp
    have dvd: "B dvd length (take B ?b)" using block i by simp
    from call_runs [OF ready1 dvd] obtain ctx1 where
      "cipher_call (ec_cipher c (Some (take B ?b))) (ctx\<lparr>cs_buf := ?b\<rparr>) = (Some (fst (run ?m (take B ?b))), ctx1)" by blast
    then have "EVP_EncryptFinal_ex ctx = (Some (fst (run ?m (take B ?b))), ctx1)"
      using False not_custom pad by (simp add: EVP_EncryptFinal_ex_def cipher Let_def bl)
    moreover have "fst (run m (pkcs_pad B msg)) = fst (run m (whole B msg)) @ fst (run ?m (take B ?b))"
      unfolding pkcs_pad_whole [OF False] block [symmetric] run_whole_append [OF given dvd] by simp
    ultimately show ?thesis by blast
  qed
qed

text \<open>However a message is cut, the result is the machine on the padded message.\<close>

definition fresh :: "'m \<Rightarrow> 'd evp_cipher_ctx \<Rightarrow> bool" where
  "fresh m ctx \<longleftrightarrow> ready m ctx \<and> cc_buf_len ctx = 0 \<and> \<not> cc_final_used ctx \<and> length (cc_final ctx) = 32"

lemma fresh_given: "fresh m ctx \<Longrightarrow> given m [] ctx"
  using run_Nil by (auto simp: fresh_def given_def whole_all partial_all ready_def)

lemma encrypt_stream:
  assumes "fresh m ctx" and "cc_flags ctx AND 0x800 = 0" and "\<forall>xs\<in>set chunks. B = 1 \<or> length xs \<le> int_max - B"
  shows "fst (cipher_stream EVP_EncryptUpdate EVP_EncryptFinal_ex chunks ctx) = Some (fst (run m (pkcs_pad B (concat chunks))))"
proof -
  have m: "fst (run m (whole B [])) = []"
    using assms(1) run_Nil by (auto simp: fresh_def ready_def whole_all)
  from encrypt_updates [OF fresh_given [OF assms(1)] assms(3)] obtain out1 ctx1 where
    1: "cipher_updates EVP_EncryptUpdate chunks ctx = (Some out1, ctx1)" "given m (concat chunks) ctx1"
      "same_rest ctx ctx1" "fst (run m (whole B (concat chunks))) = out1" by (auto simp: m)
  then have "cc_flags ctx1 AND 0x800 = 0" using assms(2) by (simp add: same_rest_def)
  from encrypt_final [OF 1(2) this] 1 show ?thesis
    by (auto simp: cipher_stream_def pbind_def pmap_def)
qed


section \<open>Decryption\<close>

text \<open>The last whole block is held back: it may be the one with the padding.\<close>

definition held :: "'d evp_cipher_ctx \<Rightarrow> u8 list" where
  "held ctx = (if cc_final_used ctx then take B (cc_final ctx) else [])"

definition decrypted :: "'m \<Rightarrow> u8 list \<Rightarrow> u8 list \<Rightarrow> 'd evp_cipher_ctx \<Rightarrow> bool" where
  "decrypted m msg out ctx \<longleftrightarrow>
     given m msg ctx \<and> length (cc_final ctx) = 32 \<and>
     (cc_final_used ctx \<longleftrightarrow> B \<noteq> 1 \<and> msg \<noteq> [] \<and> B dvd length msg) \<and> fst (run m (whole B msg)) = out @ held ctx"

lemma length_run_whole: "given m msg ctx \<Longrightarrow> length (fst (run m (whole B xs))) = length (whole B xs)"
  using run_length [OF _ dvd_length_whole] by (auto simp: given_def)

lemma given_rest [simp]:
  "given m msg (ctx\<lparr>cc_final_used := u\<rparr>) = given m msg ctx"
  "given m msg (ctx\<lparr>cc_final := f\<rparr>) = given m msg ctx"
  by (simp_all add: given_def)

lemma decrypt_update:
  assumes dec: "decrypted m msg out ctx" and pad: "cc_flags ctx AND 0x800 = 0"
    and len: "B = 1 \<or> length xs \<le> int_max - B"
  shows "\<exists>out' ctx'. EVP_DecryptUpdate xs ctx = (Some out', ctx') \<and> decrypted m (msg @ xs) (out @ out') ctx' \<and>
    cc_flags ctx' = cc_flags ctx"
proof (cases "xs = []")
  case True
  have "cc_cipher ctx = Some c" using dec by (simp add: decrypted_def given_def ready_def)
  then show ?thesis
    using True dec not_custom by (auto simp: EVP_DecryptUpdate_def Let_def)
next
  case False
  from dec have given: "given m msg ctx" and f32: "length (cc_final ctx) = 32"
    and used: "cc_final_used ctx \<longleftrightarrow> B \<noteq> 1 \<and> msg \<noteq> [] \<and> B dvd length msg"
    and total: "fst (run m (whole B msg)) = out @ held ctx" by (simp_all add: decrypted_def)
  have cipher: "cc_cipher ctx = Some c" using given by (simp add: given_def ready_def)
  from encrypt_update [OF given len] obtain o1 ctx1 where
    1: "EVP_EncryptUpdate xs ctx = (Some o1, ctx1)" "given m (msg @ xs) ctx1" "same_rest ctx ctx1"
      "fst (run m (whole B (msg @ xs))) = fst (run m (whole B msg)) @ o1" by blast
  have bl: "cc_buf_len ctx1 = length (msg @ xs) mod B" using 1(2) by (simp add: given_def)
  have enter: "\<not> (B > 1 \<and> length xs > int_max - B)" using len by auto
  have code: "EVP_DecryptUpdate xs ctx =
      (if B > 1 \<and> cc_buf_len ctx1 = 0 then
         (Some (held ctx @ take (length o1 - B) o1),
          ctx1\<lparr>cc_final_used := True, cc_final := overwrite 0 (take B (drop (length o1 - B) o1)) (cc_final ctx1)\<rparr>)
       else (Some (held ctx @ o1), ctx1\<lparr>cc_final_used := False\<rparr>))"
    unfolding EVP_DecryptUpdate_def cipher option.case Let_def if_not_P [OF enter] 1(1) prod.case held_def
    using False not_custom pad by simp
  show ?thesis
  proof (cases "B > 1 \<and> cc_buf_len ctx1 = 0")
    case True
    then have dvd: "B dvd length (msg @ xs)" using bl by (simp add: mod_eq_0_iff_dvd)
    have "length (fst (run m (whole B (msg @ xs)))) = length (fst (run m (whole B msg))) + length o1"
      unfolding 1(4) by simp
    then have lo: "length (msg @ xs) = length (whole B msg) + length o1"
      using length_run_whole [OF given, of "msg @ xs"] length_run_whole [OF given, of msg]
        arg_cong [OF whole_all [OF dvd], of length]
      by linarith
    then have "B dvd length o1"
      using dvd dvd_add_right_iff [OF dvd_length_whole [of B msg], of "length o1"] by simp
    moreover have "0 < length o1"
    proof -
      have "length (whole B msg) \<le> length msg" by (simp add: whole_def)
      moreover have "length (msg @ xs) = length msg + length xs" "0 < length xs" using False by simp_all
      ultimately show ?thesis using lo by linarith
    qed
    ultimately have B: "B \<le> length o1" by (rule dvd_imp_le)
    let ?blk = "take B (drop (length o1 - B) o1)"
    have blk: "?blk = drop (length o1 - B) o1" "length ?blk = B" using B by simp_all
    let ?ctx = "ctx1\<lparr>cc_final_used := True, cc_final := overwrite 0 ?blk (cc_final ctx1)\<rparr>"
    have f1: "length (cc_final ctx1) = 32" using 1(3) f32 by (simp add: same_rest_def)
    have held1: "held ?ctx = ?blk"
      using take_overwrite_start [of ?blk "cc_final ctx1"] f1 B_bounds blk(2) by (simp add: held_def)
    have "decrypted m (msg @ xs) (out @ held ctx @ take (length o1 - B) o1) ?ctx"
      unfolding decrypted_def held1 1(4) total using True 1(2) f1 blk False dvd B_bounds by simp
    then show ?thesis using True code 1(3) by (simp add: same_rest_def)
  next
    case False2: False
    have "\<not> (B \<noteq> 1 \<and> B dvd length (msg @ xs))"
      using False2 bl B_bounds by (auto simp: mod_eq_0_iff_dvd)
    then have "decrypted m (msg @ xs) (out @ held ctx @ o1) (ctx1\<lparr>cc_final_used := False\<rparr>)"
      using 1 total f32 False by (auto simp: decrypted_def held_def same_rest_def)
    then show ?thesis using code [unfolded if_not_P [OF False2]] 1(3) by (simp add: same_rest_def)
  qed
qed


lemma decrypt_updates:
  assumes "decrypted m msg out ctx" and "cc_flags ctx AND 0x800 = 0"
    and "\<forall>xs\<in>set chunks. B = 1 \<or> length xs \<le> int_max - B"
  shows "\<exists>out' ctx'. cipher_updates EVP_DecryptUpdate chunks ctx = (Some out', ctx') \<and>
    decrypted m (msg @ concat chunks) (out @ out') ctx' \<and> cc_flags ctx' = cc_flags ctx"
  using assms
proof (induction chunks arbitrary: msg out ctx)
  case (Cons xs chunks)
  obtain out1 ctx1 where 1: "EVP_DecryptUpdate xs ctx = (Some out1, ctx1)" "decrypted m (msg @ xs) (out @ out1) ctx1"
    "cc_flags ctx1 = cc_flags ctx"
    using decrypt_update [OF Cons.prems(1,2), of xs] Cons.prems(3) by auto
  from Cons.IH [OF 1(2)] Cons.prems(2,3) 1(3) obtain out2 ctx2 where
    "cipher_updates EVP_DecryptUpdate chunks ctx1 = (Some out2, ctx2)"
    "decrypted m (msg @ xs @ concat chunks) (out @ out1 @ out2) ctx2" "cc_flags ctx2 = cc_flags ctx"
    by auto
  with 1 show ?case by (auto simp: pbind_def pmap_def)
qed simp

lemma decrypt_final:
  assumes dec: "decrypted m msg out ctx" and pad: "cc_flags ctx AND 0x800 = 0"
  shows "map_option (append out) (fst (EVP_DecryptFinal_ex ctx)) =
    (if B \<noteq> 1 \<and> (msg = [] \<or> \<not> B dvd length msg) then None else pkcs_unpad B (fst (run m msg)))"
proof -
  from dec have given: "given m msg ctx" and f32: "length (cc_final ctx) = 32"
    and used: "cc_final_used ctx \<longleftrightarrow> B \<noteq> 1 \<and> msg \<noteq> [] \<and> B dvd length msg"
    and total: "fst (run m (whole B msg)) = out @ held ctx" by (simp_all add: decrypted_def)
  have cipher: "cc_cipher ctx = Some c" using given by (simp add: given_def ready_def)
  have bl: "cc_buf_len ctx = 0 \<longleftrightarrow> B dvd length msg" using given by (auto simp: given_def mod_eq_0_iff_dvd)
  let ?n = "unat (cc_final ctx ! (B - 1))"
  have code: "EVP_DecryptFinal_ex ctx =
      (if B > 1 then
         if cc_buf_len ctx \<noteq> 0 \<or> \<not> cc_final_used ctx then (None, ctx)
         else if ?n = 0 \<or> ?n > B then (None, ctx)
         else if \<not> final_padding_ok (cc_final ctx) ?n B ?n then (None, ctx)
         else (Some (take (B - ?n) (cc_final ctx)), ctx)
       else (Some [], ctx))"
    using not_custom pad by (simp add: EVP_DecryptFinal_ex_def cipher Let_def)
  show ?thesis
  proof (cases "B = 1")
    case True
    then have "held ctx = []" using used by (simp add: held_def)
    then show ?thesis using True total by (simp add: code pkcs_unpad_def whole_all)
  next
    case False
    then have B: "1 < B" "B \<le> 16" using B_bounds by auto
    show ?thesis
    proof (cases "msg \<noteq> [] \<and> B dvd length msg")
      case True
      then have held: "held ctx = take B (cc_final ctx)" and u: "cc_final_used ctx" using used False by (simp_all add: held_def)
      let ?blk = "take B (cc_final ctx)"
      have lb: "length ?blk = B" using f32 B by simp
      have nth: "?blk ! (B - 1) = cc_final ctx ! (B - 1)" using B by simp
      have ok: "final_padding_ok (cc_final ctx) ?n B ?n \<longleftrightarrow> drop (B - ?n) ?blk = replicate ?n (word_of_nat ?n)" if "?n \<le> B"
        using that f32 B by (intro final_padding_ok_iff) simp_all
      have t: "take (B - ?n) ?blk = take (B - ?n) (cc_final ctx)" by simp
      have "fst (run m msg) = out @ ?blk" using total True by (simp add: whole_all held)
      then show ?thesis
        using pkcs_unpad_block [OF lb B, of out] True False B bl u ok
        unfolding code nth Let_def t by auto
    next
      case neg: False
      then show ?thesis using False B bl used by (auto simp: code)
    qed
  qed
qed

text \<open>However a cipher text is cut, the result is the machine on it without the padding, or the failure it is due.\<close>

lemma fresh_decrypted: "fresh m ctx \<Longrightarrow> decrypted m [] [] ctx"
  using fresh_given [of m ctx] run_Nil by (auto simp: decrypted_def fresh_def held_def ready_def whole_all)

lemma decrypt_stream:
  assumes "fresh m ctx" and "cc_flags ctx AND 0x800 = 0" and "\<forall>xs\<in>set chunks. B = 1 \<or> length xs \<le> int_max - B"
  shows "fst (cipher_stream EVP_DecryptUpdate EVP_DecryptFinal_ex chunks ctx) =
    (let ct = concat chunks in
     if B \<noteq> 1 \<and> (ct = [] \<or> \<not> B dvd length ct) then None else pkcs_unpad B (fst (run m ct)))"
proof -
  from decrypt_updates [OF fresh_decrypted [OF assms(1)] assms(2,3)] obtain out ctx1 where
    1: "cipher_updates EVP_DecryptUpdate chunks ctx = (Some out, ctx1)" "decrypted m (concat chunks) out ctx1"
      "cc_flags ctx1 = cc_flags ctx" by auto
  then have "cc_flags ctx1 AND 0x800 = 0" using assms(2) by simp
  from decrypt_final [OF 1(2) this] show ?thesis
    by (simp add: cipher_stream_def pbind_def pmap_def 1(1) Let_def case_prod_beta)
qed

end

end
