(* ===== verification/Aes_Spec.thy ===== *)
theory Aes_Spec
  imports Prelude
begin

text \<open>
  AES as FIPS 197 defines it: the field of 256 elements, the steps of a round on a state of 16
  bytes in column order, the key expansion, the cipher and its inverse. This is the reference for
  the bitsliced implementation of theory \<open>Aes_Nohw\<close>.
\<close>

section \<open>The field\<close>

definition xtime :: "u8 \<Rightarrow> u8" where
  "xtime b = push_bit 1 b XOR (if bit b 7 then 0x1b else 0)"

definition gmul :: "u8 \<Rightarrow> u8 \<Rightarrow> u8" where
  "gmul a b = fst (fold (\<lambda>i (p, a). (if bit b i then p XOR a else p, xtime a)) [0..<8] (0, a))"

text \<open>The inverse is the power 254, by squaring and multiplying.\<close>

definition gf_inv :: "u8 \<Rightarrow> u8" where
  "gf_inv x = (let y = fold (\<lambda>_ y. gmul (gmul y y) x) [0..<6] x in gmul y y)"

definition rotl8 :: "nat \<Rightarrow> u8 \<Rightarrow> u8" where
  "rotl8 k b = push_bit k b OR drop_bit (8 - k) b"

definition sub_byte :: "u8 \<Rightarrow> u8" where
  "sub_byte b =
     (let s = gf_inv b
      in s XOR rotl8 1 s XOR rotl8 2 s XOR rotl8 3 s XOR rotl8 4 s XOR 0x63)"

definition inv_sub_byte :: "u8 \<Rightarrow> u8" where
  "inv_sub_byte b = gf_inv (rotl8 1 b XOR rotl8 3 b XOR rotl8 6 b XOR 0x05)"

section \<open>The steps of a round\<close>

definition sub_bytes :: "u8 list \<Rightarrow> u8 list" where
  "sub_bytes = map sub_byte"

definition inv_sub_bytes :: "u8 list \<Rightarrow> u8 list" where
  "inv_sub_bytes = map inv_sub_byte"

text \<open>Row \<open>r\<close> of column \<open>c\<close> is byte \<open>r + 4 * c\<close>; row \<open>r\<close> is rotated by \<open>r\<close> columns.\<close>

definition shift_rows :: "u8 list \<Rightarrow> u8 list" where
  "shift_rows s = map (\<lambda>i. s ! (i mod 4 + 4 * ((i div 4 + i mod 4) mod 4))) [0..<16]"

definition inv_shift_rows :: "u8 list \<Rightarrow> u8 list" where
  "inv_shift_rows s = map (\<lambda>i. s ! (i mod 4 + 4 * ((i div 4 + 4 - i mod 4) mod 4))) [0..<16]"

text \<open>Each column times the circulant matrix of the four coefficients.\<close>

definition mul_columns :: "u8 \<Rightarrow> u8 \<Rightarrow> u8 \<Rightarrow> u8 \<Rightarrow> u8 list \<Rightarrow> u8 list" where
  "mul_columns a b c d s =
     map (\<lambda>i. let at = (\<lambda>k. s ! (4 * (i div 4) + (i mod 4 + k) mod 4))
              in gmul (at 0) a XOR gmul (at 1) b XOR gmul (at 2) c XOR gmul (at 3) d) [0..<16]"

definition mix_columns :: "u8 list \<Rightarrow> u8 list" where
  "mix_columns = mul_columns 2 3 1 1"

definition inv_mix_columns :: "u8 list \<Rightarrow> u8 list" where
  "inv_mix_columns = mul_columns 0xe 0xb 0xd 0x9"

definition add_round_key :: "u8 list \<Rightarrow> u8 list \<Rightarrow> u8 list" where
  "add_round_key k s = map2 (XOR) s k"

section \<open>Key expansion\<close>

definition rcon :: "nat \<Rightarrow> u8" where
  "rcon i = (xtime ^^ (i - 1)) 1"

text \<open>The first words of the expansion of a key of \<open>n\<close> words.\<close>

fun key_words :: "nat \<Rightarrow> u8 list \<Rightarrow> nat \<Rightarrow> u8 list list" where
  "key_words n key 0 = []"
| "key_words n key (Suc i) =
     (let ws = key_words n key i in
      ws @ [if i < n then take 4 (drop (4 * i) key)
            else
              let temp = ws ! (i - 1);
                  temp = (if i mod n = 0 then map2 (XOR) (map sub_byte (rotate1 temp)) [rcon (i div n), 0, 0, 0]
                          else if 6 < n \<and> i mod n = 4 then map sub_byte temp else temp)
              in map2 (XOR) (ws ! (i - n)) temp])"

definition round_key :: "u8 list \<Rightarrow> nat \<Rightarrow> u8 list" where
  "round_key key r = concat (drop (4 * r) (key_words (length key div 4) key (4 * r + 4)))"

definition aes_rounds :: "u8 list \<Rightarrow> nat" where
  "aes_rounds key = length key div 4 + 6"

section \<open>The cipher and its inverse\<close>

definition cipher_with :: "nat \<Rightarrow> (nat \<Rightarrow> u8 list) \<Rightarrow> u8 list \<Rightarrow> u8 list" where
  "cipher_with rounds rk inp =
     add_round_key (rk rounds) (shift_rows (sub_bytes
       (fold (\<lambda>i s. add_round_key (rk i) (mix_columns (shift_rows (sub_bytes s)))) [1..<rounds]
         (add_round_key (rk 0) inp))))"

definition inv_cipher_with :: "nat \<Rightarrow> (nat \<Rightarrow> u8 list) \<Rightarrow> u8 list \<Rightarrow> u8 list" where
  "inv_cipher_with rounds rk inp =
     add_round_key (rk 0)
       (fold (\<lambda>i s. inv_sub_bytes (inv_shift_rows (inv_mix_columns (add_round_key (rk i) s)))) (rev [1..<rounds])
         (inv_sub_bytes (inv_shift_rows (add_round_key (rk rounds) inp))))"

definition aes :: "u8 list \<Rightarrow> u8 list \<Rightarrow> u8 list" where
  "aes key = cipher_with (aes_rounds key) (round_key key)"

definition aes_inv :: "u8 list \<Rightarrow> u8 list \<Rightarrow> u8 list" where
  "aes_inv key = inv_cipher_with (aes_rounds key) (round_key key)"

end
