(* ===== verification/Aes_Field.thy ===== *)
theory Aes_Field
  imports Aes_Spec
begin

text \<open>
  Inverses in the field of AES: the power 254 of every byte, evaluated once, so that what
  depends on the field is checked byte by byte.
\<close>

section \<open>Evaluation\<close>

lemma upt_8: "[0..<8] = [0, 1, 2, 3, 4, 5, 6, 7]"
  by (simp add: upt_conv_Cons)

lemma gmul_unfold:
  "gmul a b = fst (fold (\<lambda>i (p, a). (if bit b i then p XOR a else p, xtime a)) [0, 1, 2, 3, 4, 5, 6, 7] (0, a))"
  by (simp only: gmul_def upt_8)

lemmas gmul_eval = gmul_unfold [of "numeral a" "numeral b" for a b] gmul_unfold [of 1 "numeral b" for b]
  gmul_unfold [of "numeral a" 1 for a] gmul_unfold [of 1 1] gmul_unfold [of 0 "numeral b" for b] gmul_unfold [of 0 1]
  gmul_unfold [of 0 0] gmul_unfold [of 1 0] gmul_unfold [of "numeral a" 0 for a]

lemma xtime_eval:
  "xtime (numeral a) = push_bit 1 (numeral a) XOR (if bit (numeral a :: u8) 7 then 0x1b else 0)" "xtime 1 = 2" "xtime 0 = 0"
  by (simp_all add: xtime_def)

lemma gf_inv_unfold: "gf_inv x = (let y = fold (\<lambda>_ y. gmul (gmul y y) x) [0, 1, 2, 3, 4, 5 :: nat] x in gmul y y)"
  by (simp add: gf_inv_def upt_conv_Cons)

lemmas gf_inv_eval = gf_inv_unfold [of "numeral a" for a] gf_inv_unfold [of 1] gf_inv_unfold [of 0]

section \<open>Inverses\<close>

lemma gf_inv_0:
  "map gf_inv [0, 1, 2, 3, 4, 5, 6, 7, 8, 9, 10, 11, 12, 13, 14, 15] =
     [0, 1, 141, 246, 203, 82, 123, 209, 232, 79, 41, 192, 176, 225, 229, 199]"
  by (simp add: gf_inv_eval gmul_eval xtime_eval)

lemma gf_inv_1:
  "map gf_inv [16, 17, 18, 19, 20, 21, 22, 23, 24, 25, 26, 27, 28, 29, 30, 31] =
     [116, 180, 170, 75, 153, 43, 96, 95, 88, 63, 253, 204, 255, 64, 238, 178]"
  by (simp add: gf_inv_eval gmul_eval xtime_eval)

lemma gf_inv_2:
  "map gf_inv [32, 33, 34, 35, 36, 37, 38, 39, 40, 41, 42, 43, 44, 45, 46, 47] =
     [58, 110, 90, 241, 85, 77, 168, 201, 193, 10, 152, 21, 48, 68, 162, 194]"
  by (simp add: gf_inv_eval gmul_eval xtime_eval)

lemma gf_inv_3:
  "map gf_inv [48, 49, 50, 51, 52, 53, 54, 55, 56, 57, 58, 59, 60, 61, 62, 63] =
     [44, 69, 146, 108, 243, 57, 102, 66, 242, 53, 32, 111, 119, 187, 89, 25]"
  by (simp add: gf_inv_eval gmul_eval xtime_eval)

lemma gf_inv_4:
  "map gf_inv [64, 65, 66, 67, 68, 69, 70, 71, 72, 73, 74, 75, 76, 77, 78, 79] =
     [29, 254, 55, 103, 45, 49, 245, 105, 167, 100, 171, 19, 84, 37, 233, 9]"
  by (simp add: gf_inv_eval gmul_eval xtime_eval)

lemma gf_inv_5:
  "map gf_inv [80, 81, 82, 83, 84, 85, 86, 87, 88, 89, 90, 91, 92, 93, 94, 95] =
     [237, 92, 5, 202, 76, 36, 135, 191, 24, 62, 34, 240, 81, 236, 97, 23]"
  by (simp add: gf_inv_eval gmul_eval xtime_eval)

lemma gf_inv_6:
  "map gf_inv [96, 97, 98, 99, 100, 101, 102, 103, 104, 105, 106, 107, 108, 109, 110, 111] =
     [22, 94, 175, 211, 73, 166, 54, 67, 244, 71, 145, 223, 51, 147, 33, 59]"
  by (simp add: gf_inv_eval gmul_eval xtime_eval)

lemma gf_inv_7:
  "map gf_inv [112, 113, 114, 115, 116, 117, 118, 119, 120, 121, 122, 123, 124, 125, 126, 127] =
     [121, 183, 151, 133, 16, 181, 186, 60, 182, 112, 208, 6, 161, 250, 129, 130]"
  by (simp add: gf_inv_eval gmul_eval xtime_eval)

lemma gf_inv_8:
  "map gf_inv [128, 129, 130, 131, 132, 133, 134, 135, 136, 137, 138, 139, 140, 141, 142, 143] =
     [131, 126, 127, 128, 150, 115, 190, 86, 155, 158, 149, 217, 247, 2, 185, 164]"
  by (simp add: gf_inv_eval gmul_eval xtime_eval)

lemma gf_inv_9:
  "map gf_inv [144, 145, 146, 147, 148, 149, 150, 151, 152, 153, 154, 155, 156, 157, 158, 159] =
     [222, 106, 50, 109, 216, 138, 132, 114, 42, 20, 159, 136, 249, 220, 137, 154]"
  by (simp add: gf_inv_eval gmul_eval xtime_eval)

lemma gf_inv_10:
  "map gf_inv [160, 161, 162, 163, 164, 165, 166, 167, 168, 169, 170, 171, 172, 173, 174, 175] =
     [251, 124, 46, 195, 143, 184, 101, 72, 38, 200, 18, 74, 206, 231, 210, 98]"
  by (simp add: gf_inv_eval gmul_eval xtime_eval)

lemma gf_inv_11:
  "map gf_inv [176, 177, 178, 179, 180, 181, 182, 183, 184, 185, 186, 187, 188, 189, 190, 191] =
     [12, 224, 31, 239, 17, 117, 120, 113, 165, 142, 118, 61, 189, 188, 134, 87]"
  by (simp add: gf_inv_eval gmul_eval xtime_eval)

lemma gf_inv_12:
  "map gf_inv [192, 193, 194, 195, 196, 197, 198, 199, 200, 201, 202, 203, 204, 205, 206, 207] =
     [11, 40, 47, 163, 218, 212, 228, 15, 169, 39, 83, 4, 27, 252, 172, 230]"
  by (simp add: gf_inv_eval gmul_eval xtime_eval)

lemma gf_inv_13:
  "map gf_inv [208, 209, 210, 211, 212, 213, 214, 215, 216, 217, 218, 219, 220, 221, 222, 223] =
     [122, 7, 174, 99, 197, 219, 226, 234, 148, 139, 196, 213, 157, 248, 144, 107]"
  by (simp add: gf_inv_eval gmul_eval xtime_eval)

lemma gf_inv_14:
  "map gf_inv [224, 225, 226, 227, 228, 229, 230, 231, 232, 233, 234, 235, 236, 237, 238, 239] =
     [177, 13, 214, 235, 198, 14, 207, 173, 8, 78, 215, 227, 93, 80, 30, 179]"
  by (simp add: gf_inv_eval gmul_eval xtime_eval)

lemma gf_inv_15:
  "map gf_inv [240, 241, 242, 243, 244, 245, 246, 247, 248, 249, 250, 251, 252, 253, 254, 255] =
     [91, 35, 56, 52, 104, 70, 3, 140, 221, 156, 125, 160, 205, 26, 65, 28]"
  by (simp add: gf_inv_eval gmul_eval xtime_eval)

lemmas gf_inv_table = gf_inv_0 [simplified] gf_inv_1 [simplified] gf_inv_2 [simplified] gf_inv_3 [simplified] gf_inv_4 [simplified] gf_inv_5 [simplified] gf_inv_6 [simplified] gf_inv_7 [simplified] gf_inv_8 [simplified] gf_inv_9 [simplified] gf_inv_10 [simplified] gf_inv_11 [simplified] gf_inv_12 [simplified] gf_inv_13 [simplified] gf_inv_14 [simplified] gf_inv_15 [simplified]

section \<open>All bytes\<close>

definition all_u8 :: "u8 list" where
  "all_u8 = map word_of_nat [0..<256]"

lemma all_u8_eq:
  "all_u8 =
     [0, 1, 2, 3, 4, 5, 6, 7, 8, 9, 10, 11, 12, 13, 14, 15,
      16, 17, 18, 19, 20, 21, 22, 23, 24, 25, 26, 27, 28, 29, 30, 31,
      32, 33, 34, 35, 36, 37, 38, 39, 40, 41, 42, 43, 44, 45, 46, 47,
      48, 49, 50, 51, 52, 53, 54, 55, 56, 57, 58, 59, 60, 61, 62, 63,
      64, 65, 66, 67, 68, 69, 70, 71, 72, 73, 74, 75, 76, 77, 78, 79,
      80, 81, 82, 83, 84, 85, 86, 87, 88, 89, 90, 91, 92, 93, 94, 95,
      96, 97, 98, 99, 100, 101, 102, 103, 104, 105, 106, 107, 108, 109, 110, 111,
      112, 113, 114, 115, 116, 117, 118, 119, 120, 121, 122, 123, 124, 125, 126, 127,
      128, 129, 130, 131, 132, 133, 134, 135, 136, 137, 138, 139, 140, 141, 142, 143,
      144, 145, 146, 147, 148, 149, 150, 151, 152, 153, 154, 155, 156, 157, 158, 159,
      160, 161, 162, 163, 164, 165, 166, 167, 168, 169, 170, 171, 172, 173, 174, 175,
      176, 177, 178, 179, 180, 181, 182, 183, 184, 185, 186, 187, 188, 189, 190, 191,
      192, 193, 194, 195, 196, 197, 198, 199, 200, 201, 202, 203, 204, 205, 206, 207,
      208, 209, 210, 211, 212, 213, 214, 215, 216, 217, 218, 219, 220, 221, 222, 223,
      224, 225, 226, 227, 228, 229, 230, 231, 232, 233, 234, 235, 236, 237, 238, 239,
      240, 241, 242, 243, 244, 245, 246, 247, 248, 249, 250, 251, 252, 253, 254, 255]"
  by (simp add: all_u8_def upt_rec_numeral upt_conv_Cons)

lemma all_u8I: "list_all P all_u8 \<Longrightarrow> P x"
proof -
  have "x = word_of_nat (unat x)" by simp
  moreover have "unat x < 256" by (rule unat_u8_less)
  ultimately have "x \<in> set all_u8" unfolding all_u8_def set_map by (intro image_eqI [of x _ "unat x"]) auto
  then show "list_all P all_u8 \<Longrightarrow> P x" by (simp add: list_all_iff)
qed

lemma gf_inv_inv: "gf_inv (gf_inv x) = x"
  by (rule all_u8I [where P = "\<lambda>x. gf_inv (gf_inv x) = x"]) (simp add: all_u8_eq gf_inv_table)

text \<open>The power is the inverse.\<close>

lemma gf_inv_gmul: "gmul x (gf_inv x) = (if x = 0 then 0 else 1)"
  by (rule all_u8I [where P = "\<lambda>x. gmul x (gf_inv x) = (if x = 0 then 0 else 1)"])
    (simp add: all_u8_eq gf_inv_table gmul_eval xtime_eval)

end
