(* ===== verification/Aes_Nohw.thy ===== *)
theory Aes_Nohw
  imports Mem
begin

text \<open>
  The bitsliced AES in portable C (\<open>crypto/fipsmodule/aes/aes_nohw.c\<close>), which the library uses when, as in
  the Xcode project of the application, it is built with \<open>OPENSSL_NO_ASM\<close>; the variant for 64-bit words without
  SSE2, that is, for batches of four blocks. An array of words is a list, a function returns the arrays it updates.
  The key schedule \<open>rd_key\<close>, which the code fills by \<open>memcpy\<close> from pairs of 64-bit words, is the list of those words.
\<close>

section \<open>Words\<close>

type_synonym aes_word = u64

definition aes_nohw_and :: "aes_word \<Rightarrow> aes_word \<Rightarrow> aes_word" where
  "aes_nohw_and a b = a AND b"

definition aes_nohw_or :: "aes_word \<Rightarrow> aes_word \<Rightarrow> aes_word" where
  "aes_nohw_or a b = a OR b"

definition aes_nohw_xor :: "aes_word \<Rightarrow> aes_word \<Rightarrow> aes_word" where
  "aes_nohw_xor a b = a XOR b"

definition aes_nohw_not :: "aes_word \<Rightarrow> aes_word" where
  "aes_nohw_not a = NOT a"

definition aes_nohw_shift_left :: "aes_word \<Rightarrow> nat \<Rightarrow> aes_word" where
  "aes_nohw_shift_left a i = push_bit (i * 4) a"

definition aes_nohw_shift_right :: "aes_word \<Rightarrow> nat \<Rightarrow> aes_word" where
  "aes_nohw_shift_right a i = drop_bit (i * 4) a"

section \<open>Representations of blocks\<close>

definition aes_nohw_batch_set :: "aes_word list \<Rightarrow> aes_word list \<Rightarrow> nat \<Rightarrow> aes_word list" where
  "aes_nohw_batch_set batch inp i = batch[i := inp ! 0, i + 4 := inp ! 1]"

definition aes_nohw_batch_get :: "aes_word list \<Rightarrow> nat \<Rightarrow> aes_word list" where
  "aes_nohw_batch_get batch i = [batch ! i, batch ! (i + 4)]"

definition aes_nohw_delta_swap :: "aes_word \<Rightarrow> aes_word \<Rightarrow> nat \<Rightarrow> aes_word" where
  "aes_nohw_delta_swap a m shift = (let b = (a XOR drop_bit shift a) AND m in a XOR b XOR push_bit shift b)"

definition aes_nohw_compact_word :: "aes_word \<Rightarrow> aes_word" where
  "aes_nohw_compact_word a =
     (let a = aes_nohw_delta_swap a 0x00f000f000f000f0 4;
          a = aes_nohw_delta_swap a 0x0000ff000000ff00 8;
          a = aes_nohw_delta_swap a 0x00000000ffff0000 16
      in a)"

definition aes_nohw_uncompact_word :: "aes_word \<Rightarrow> aes_word" where
  "aes_nohw_uncompact_word a =
     (let a = aes_nohw_delta_swap a 0x00000000ffff0000 16;
          a = aes_nohw_delta_swap a 0x0000ff000000ff00 8;
          a = aes_nohw_delta_swap a 0x00f000f000f000f0 4
      in a)"

definition aes_nohw_compact_block :: "u8 list \<Rightarrow> aes_word list" where
  "aes_nohw_compact_block inp =
     (let a0 = aes_nohw_compact_word (CRYPTO_load_word_le inp);
          a1 = aes_nohw_compact_word (CRYPTO_load_word_le (drop 8 inp))
      in [(a0 AND 0x00000000ffffffff) OR push_bit 32 a1, (a1 AND 0xffffffff00000000) OR drop_bit 32 a0])"

definition aes_nohw_uncompact_block :: "aes_word list \<Rightarrow> u8 list" where
  "aes_nohw_uncompact_block inp =
     (let a0 = inp ! 0;
          a1 = inp ! 1;
          b0 = aes_nohw_uncompact_word ((a0 AND 0x00000000ffffffff) OR push_bit 32 a1);
          b1 = aes_nohw_uncompact_word ((a1 AND 0xffffffff00000000) OR drop_bit 32 a0)
      in CRYPTO_store_word_le b0 @ CRYPTO_store_word_le b1)"

text \<open>The words \<open>a\<close> and \<open>b\<close> of a batch; the 32-bit mask is repeated.\<close>

definition aes_nohw_swap_bits :: "nat \<Rightarrow> nat \<Rightarrow> u32 \<Rightarrow> nat \<Rightarrow> aes_word list \<Rightarrow> aes_word list" where
  "aes_nohw_swap_bits a b m shift batch =
     (let mask_w = push_bit 32 (ucast m) OR ucast m;
          swap = (drop_bit shift (batch ! a) XOR batch ! b) AND mask_w
      in batch[a := batch ! a XOR push_bit shift swap, b := batch ! b XOR swap])"

definition aes_nohw_transpose :: "aes_word list \<Rightarrow> aes_word list" where
  "aes_nohw_transpose batch =
     (let batch = aes_nohw_swap_bits 0 1 0x55555555 1 batch;
          batch = aes_nohw_swap_bits 2 3 0x55555555 1 batch;
          batch = aes_nohw_swap_bits 4 5 0x55555555 1 batch;
          batch = aes_nohw_swap_bits 6 7 0x55555555 1 batch;
          batch = aes_nohw_swap_bits 0 2 0x33333333 2 batch;
          batch = aes_nohw_swap_bits 1 3 0x33333333 2 batch;
          batch = aes_nohw_swap_bits 4 6 0x33333333 2 batch;
          batch = aes_nohw_swap_bits 5 7 0x33333333 2 batch
      in batch)"

definition aes_nohw_to_batch :: "u8 list \<Rightarrow> nat \<Rightarrow> aes_word list" where
  "aes_nohw_to_batch inp num_blocks =
     aes_nohw_transpose
       (fold (\<lambda>i out. aes_nohw_batch_set out (aes_nohw_compact_block (take 16 (drop (16 * i) inp))) i)
         [0..<num_blocks] (replicate 8 0))"

definition aes_nohw_from_batch :: "nat \<Rightarrow> aes_word list \<Rightarrow> u8 list" where
  "aes_nohw_from_batch num_blocks batch =
     (let copy = aes_nohw_transpose batch
      in concat (map (\<lambda>i. aes_nohw_uncompact_block (aes_nohw_batch_get copy i)) [0..<num_blocks]))"

section \<open>Steps of a round\<close>

definition aes_nohw_add_round_key :: "aes_word list \<Rightarrow> aes_word list \<Rightarrow> aes_word list" where
  "aes_nohw_add_round_key batch key = map (\<lambda>i. aes_nohw_xor (batch ! i) (key ! i)) [0..<8]"

text \<open>The circuit of the S-box, over the operations on words.\<close>

definition sbox_circuit :: "('w \<Rightarrow> 'w \<Rightarrow> 'w) \<Rightarrow> ('w \<Rightarrow> 'w \<Rightarrow> 'w) \<Rightarrow> ('w \<Rightarrow> 'w) \<Rightarrow> 'w list \<Rightarrow> 'w list" where
  "sbox_circuit wxor wand wnot batch =
     (let x0 = batch ! 7; x1 = batch ! 6; x2 = batch ! 5; x3 = batch ! 4; x4 = batch ! 3; x5 = batch ! 2;
          x6 = batch ! 1; x7 = batch ! 0; y14 = wxor x3 x5; y13 = wxor x0 x6;
          y9 = wxor x0 x3; y8 = wxor x0 x5; t0 = wxor x1 x2; y1 = wxor t0 x7;
          y4 = wxor y1 x3; y12 = wxor y13 y14; y2 = wxor y1 x0;
          y5 = wxor y1 x6; y3 = wxor y5 y8; t1 = wxor x4 y12;
          y15 = wxor t1 x5; y20 = wxor t1 x1; y6 = wxor y15 x7;
          y10 = wxor y15 t0; y11 = wxor y20 y9; y7 = wxor x7 y11;
          y17 = wxor y10 y11; y19 = wxor y10 y8; y16 = wxor t0 y11;
          y21 = wxor y13 y16; y18 = wxor x0 y16; t2 = wand y12 y15;
          t3 = wand y3 y6; t4 = wxor t3 t2; t5 = wand y4 x7; t6 = wxor t5 t2;
          t7 = wand y13 y16; t8 = wand y5 y1; t9 = wxor t8 t7;
          t10 = wand y2 y7; t11 = wxor t10 t7; t12 = wand y9 y11;
          t13 = wand y14 y17; t14 = wxor t13 t12; t15 = wand y8 y10;
          t16 = wxor t15 t12; t17 = wxor t4 t14; t18 = wxor t6 t16;
          t19 = wxor t9 t14; t20 = wxor t11 t16; t21 = wxor t17 y20;
          t22 = wxor t18 y19; t23 = wxor t19 y21; t24 = wxor t20 y18;
          t25 = wxor t21 t22; t26 = wand t21 t23; t27 = wxor t24 t26;
          t28 = wand t25 t27; t29 = wxor t28 t22; t30 = wxor t23 t24;
          t31 = wxor t22 t26; t32 = wand t31 t30; t33 = wxor t32 t24;
          t34 = wxor t23 t33; t35 = wxor t27 t33; t36 = wand t24 t35;
          t37 = wxor t36 t34; t38 = wxor t27 t36; t39 = wand t29 t38;
          t40 = wxor t25 t39; t41 = wxor t40 t37; t42 = wxor t29 t33;
          t43 = wxor t29 t40; t44 = wxor t33 t37; t45 = wxor t42 t41;
          z0 = wand t44 y15; z1 = wand t37 y6; z2 = wand t33 x7;
          z3 = wand t43 y16; z4 = wand t40 y1; z5 = wand t29 y7;
          z6 = wand t42 y11; z7 = wand t45 y17; z8 = wand t41 y10;
          z9 = wand t44 y12; z10 = wand t37 y3; z11 = wand t33 y4;
          z12 = wand t43 y13; z13 = wand t40 y5; z14 = wand t29 y2;
          z15 = wand t42 y9; z16 = wand t45 y14; z17 = wand t41 y8;
          t46 = wxor z15 z16; t47 = wxor z10 z11; t48 = wxor z5 z13;
          t49 = wxor z9 z10; t50 = wxor z2 z12; t51 = wxor z2 z5;
          t52 = wxor z7 z8; t53 = wxor z0 z3; t54 = wxor z6 z7;
          t55 = wxor z16 z17; t56 = wxor z12 t48; t57 = wxor t50 t53;
          t58 = wxor z4 t46; t59 = wxor z3 t54; t60 = wxor t46 t57;
          t61 = wxor z14 t57; t62 = wxor t52 t58; t63 = wxor t49 t58;
          t64 = wxor z4 t59; t65 = wxor t61 t62; t66 = wxor z1 t63;
          s0 = wxor t59 t63; s6 = wxor t56 (wnot t62);
          s7 = wxor t48 (wnot t60); t67 = wxor t64 t65; s3 = wxor t53 t66;
          s4 = wxor t51 t66; s5 = wxor t47 t65; s1 = wxor t64 (wnot s3);
          s2 = wxor t55 (wnot t67)
      in [s7, s6, s5, s4, s3, s2, s1, s0])"

definition aes_nohw_sub_bytes :: "aes_word list \<Rightarrow> aes_word list" where
  "aes_nohw_sub_bytes = sbox_circuit aes_nohw_xor aes_nohw_and aes_nohw_not"

definition aes_nohw_sub_bytes_inv_affine :: "aes_word list \<Rightarrow> aes_word list" where
  "aes_nohw_sub_bytes_inv_affine batch =
     (let a0 = batch ! 0; a1 = batch ! 1; a2 = batch ! 2; a3 = batch ! 3;
          a4 = batch ! 4; a5 = batch ! 5; a6 = batch ! 6; a7 = batch ! 7;
          b0 = aes_nohw_xor a2 (aes_nohw_xor a5 a7);
          b1 = aes_nohw_xor a3 (aes_nohw_xor a6 a0);
          b2 = aes_nohw_xor a4 (aes_nohw_xor a7 a1);
          b3 = aes_nohw_xor a5 (aes_nohw_xor a0 a2);
          b4 = aes_nohw_xor a6 (aes_nohw_xor a1 a3);
          b5 = aes_nohw_xor a7 (aes_nohw_xor a2 a4);
          b6 = aes_nohw_xor a0 (aes_nohw_xor a3 a5);
          b7 = aes_nohw_xor a1 (aes_nohw_xor a4 a6)
      in [aes_nohw_not b0, b1, aes_nohw_not b2, b3, b4, b5, b6, b7])"

definition aes_nohw_inv_sub_bytes :: "aes_word list \<Rightarrow> aes_word list" where
  "aes_nohw_inv_sub_bytes batch =
     aes_nohw_sub_bytes_inv_affine (aes_nohw_sub_bytes (aes_nohw_sub_bytes_inv_affine batch))"

definition aes_nohw_rotate_cols_right :: "aes_word \<Rightarrow> nat \<Rightarrow> aes_word" where
  "aes_nohw_rotate_cols_right v n = aes_nohw_or (aes_nohw_shift_right v (n * 4)) (aes_nohw_shift_left v (16 - n * 4))"

definition aes_nohw_shift_rows :: "aes_word list \<Rightarrow> aes_word list" where
  "aes_nohw_shift_rows batch =
     map (\<lambda>i. let row0 = aes_nohw_and (batch ! i) 0x000f000f000f000f;
                  row1 = aes_nohw_and (batch ! i) 0x00f000f000f000f0;
                  row2 = aes_nohw_and (batch ! i) 0x0f000f000f000f00;
                  row3 = aes_nohw_and (batch ! i) 0xf000f000f000f000;
                  row1 = aes_nohw_rotate_cols_right row1 1;
                  row2 = aes_nohw_rotate_cols_right row2 2;
                  row3 = aes_nohw_rotate_cols_right row3 3
              in aes_nohw_or (aes_nohw_or row0 row1) (aes_nohw_or row2 row3)) [0..<8]"

definition aes_nohw_inv_shift_rows :: "aes_word list \<Rightarrow> aes_word list" where
  "aes_nohw_inv_shift_rows batch =
     map (\<lambda>i. let row0 = aes_nohw_and (batch ! i) 0x000f000f000f000f;
                  row1 = aes_nohw_and (batch ! i) 0x00f000f000f000f0;
                  row2 = aes_nohw_and (batch ! i) 0x0f000f000f000f00;
                  row3 = aes_nohw_and (batch ! i) 0xf000f000f000f000;
                  row1 = aes_nohw_rotate_cols_right row1 3;
                  row2 = aes_nohw_rotate_cols_right row2 2;
                  row3 = aes_nohw_rotate_cols_right row3 1
              in aes_nohw_or (aes_nohw_or row0 row1) (aes_nohw_or row2 row3)) [0..<8]"

definition aes_nohw_rotate_rows_down :: "aes_word \<Rightarrow> aes_word" where
  "aes_nohw_rotate_rows_down v =
     (drop_bit 4 v AND 0x0fff0fff0fff0fff) OR (push_bit 12 v AND 0xf000f000f000f000)"

definition aes_nohw_rotate_rows_twice :: "aes_word \<Rightarrow> aes_word" where
  "aes_nohw_rotate_rows_twice v =
     (drop_bit 8 v AND 0x00ff00ff00ff00ff) OR (push_bit 8 v AND 0xff00ff00ff00ff00)"

definition aes_nohw_mix_columns :: "aes_word list \<Rightarrow> aes_word list" where
  "aes_nohw_mix_columns batch =
     (let a0 = batch ! 0; a1 = batch ! 1; a2 = batch ! 2; a3 = batch ! 3;
          a4 = batch ! 4; a5 = batch ! 5; a6 = batch ! 6; a7 = batch ! 7;
          r0 = aes_nohw_rotate_rows_down a0; a0_r0 = aes_nohw_xor a0 r0;
          r1 = aes_nohw_rotate_rows_down a1; a1_r1 = aes_nohw_xor a1 r1;
          r2 = aes_nohw_rotate_rows_down a2; a2_r2 = aes_nohw_xor a2 r2;
          r3 = aes_nohw_rotate_rows_down a3; a3_r3 = aes_nohw_xor a3 r3;
          r4 = aes_nohw_rotate_rows_down a4; a4_r4 = aes_nohw_xor a4 r4;
          r5 = aes_nohw_rotate_rows_down a5; a5_r5 = aes_nohw_xor a5 r5;
          r6 = aes_nohw_rotate_rows_down a6; a6_r6 = aes_nohw_xor a6 r6;
          r7 = aes_nohw_rotate_rows_down a7; a7_r7 = aes_nohw_xor a7 r7
      in [aes_nohw_xor (aes_nohw_xor a7_r7 r0) (aes_nohw_rotate_rows_twice a0_r0),
          aes_nohw_xor (aes_nohw_xor a0_r0 a7_r7) (aes_nohw_xor r1 (aes_nohw_rotate_rows_twice a1_r1)),
          aes_nohw_xor (aes_nohw_xor a1_r1 r2) (aes_nohw_rotate_rows_twice a2_r2),
          aes_nohw_xor (aes_nohw_xor a2_r2 a7_r7) (aes_nohw_xor r3 (aes_nohw_rotate_rows_twice a3_r3)),
          aes_nohw_xor (aes_nohw_xor a3_r3 a7_r7) (aes_nohw_xor r4 (aes_nohw_rotate_rows_twice a4_r4)),
          aes_nohw_xor (aes_nohw_xor a4_r4 r5) (aes_nohw_rotate_rows_twice a5_r5),
          aes_nohw_xor (aes_nohw_xor a5_r5 r6) (aes_nohw_rotate_rows_twice a6_r6),
          aes_nohw_xor (aes_nohw_xor a6_r6 r7) (aes_nohw_rotate_rows_twice a7_r7)])"

definition aes_nohw_inv_mix_columns :: "aes_word list \<Rightarrow> aes_word list" where
  "aes_nohw_inv_mix_columns batch =
     (let a0 = batch ! 0; a1 = batch ! 1; a2 = batch ! 2; a3 = batch ! 3;
          a4 = batch ! 4; a5 = batch ! 5; a6 = batch ! 6; a7 = batch ! 7;
          a0_r0 = aes_nohw_xor a0 (aes_nohw_rotate_rows_twice a0);
          a1_r1 = aes_nohw_xor a1 (aes_nohw_rotate_rows_twice a1);
          a2_r2 = aes_nohw_xor a2 (aes_nohw_rotate_rows_twice a2);
          a3_r3 = aes_nohw_xor a3 (aes_nohw_rotate_rows_twice a3);
          a4_r4 = aes_nohw_xor a4 (aes_nohw_rotate_rows_twice a4);
          a5_r5 = aes_nohw_xor a5 (aes_nohw_rotate_rows_twice a5);
          a6_r6 = aes_nohw_xor a6 (aes_nohw_rotate_rows_twice a6);
          a7_r7 = aes_nohw_xor a7 (aes_nohw_rotate_rows_twice a7)
      in aes_nohw_mix_columns
           [aes_nohw_xor a0 a6_r6,
            aes_nohw_xor a1 (aes_nohw_xor a6_r6 a7_r7),
            aes_nohw_xor a2 (aes_nohw_xor a0_r0 a7_r7),
            aes_nohw_xor a3 (aes_nohw_xor a1_r1 a6_r6),
            aes_nohw_xor (aes_nohw_xor a4 a2_r2) (aes_nohw_xor a6_r6 a7_r7),
            aes_nohw_xor a5 (aes_nohw_xor a3_r3 a7_r7),
            aes_nohw_xor a6 a4_r4,
            aes_nohw_xor a7 a5_r5])"

text \<open>A key schedule in bitsliced form is the list of the batches \<open>keys\<close>.\<close>

definition aes_nohw_encrypt_batch :: "aes_word list list \<Rightarrow> nat \<Rightarrow> aes_word list \<Rightarrow> aes_word list" where
  "aes_nohw_encrypt_batch keys num_rounds batch =
     (let batch = aes_nohw_add_round_key batch (keys ! 0);
          batch = fold (\<lambda>i batch.
            let batch = aes_nohw_sub_bytes batch;
                batch = aes_nohw_shift_rows batch;
                batch = aes_nohw_mix_columns batch
            in aes_nohw_add_round_key batch (keys ! i)) [1..<num_rounds] batch;
          batch = aes_nohw_sub_bytes batch;
          batch = aes_nohw_shift_rows batch
      in aes_nohw_add_round_key batch (keys ! num_rounds))"

definition aes_nohw_decrypt_batch :: "aes_word list list \<Rightarrow> nat \<Rightarrow> aes_word list \<Rightarrow> aes_word list" where
  "aes_nohw_decrypt_batch keys num_rounds batch =
     (let batch = aes_nohw_add_round_key batch (keys ! num_rounds);
          batch = aes_nohw_inv_shift_rows batch;
          batch = aes_nohw_inv_sub_bytes batch;
          batch = fold (\<lambda>i batch.
            let batch = aes_nohw_add_round_key batch (keys ! i);
                batch = aes_nohw_inv_mix_columns batch;
                batch = aes_nohw_inv_shift_rows batch
            in aes_nohw_inv_sub_bytes batch) (rev [1..<num_rounds]) batch
      in aes_nohw_add_round_key batch (keys ! 0))"

end
