(* ===== verification/Aes_Sbox.thy ===== *)
theory Aes_Sbox
  imports Aes_Field Aes_Nohw
begin

text \<open>
  The circuit of the S-box: over words it is the circuit over each of their bits, and over truth values it
  is the S-box of the standard, checked for every byte.
\<close>

section \<open>Words and their bits\<close>

lemma let_hom:
  "h a = a' \<Longrightarrow> (\<And>x x'. h x = x' \<Longrightarrow> map h (f x) = g x') \<Longrightarrow> map h (Let a f) = Let a' g"
  by simp

lemma sbox_circuit_hom:
  assumes "\<And>a b. h (x a b) = x' (h a) (h b)" and "\<And>a b. h (c a b) = c' (h a) (h b)" and "\<And>a. h (n a) = n' (h a)"
    and "length batch = 8"
  shows "map h (sbox_circuit x c n batch) = sbox_circuit x' c' n' (map h batch)"
  unfolding sbox_circuit_def by (rule let_hom, simp (no_asm_simp) add: assms)+ (simp (no_asm_simp) add: assms)

section \<open>The circuit is the S-box\<close>

lemma sbox_circuit_byte: "sbox_circuit (\<noteq>) (\<and>) Not (map (bit x) [0..<8]) = map (bit (sub_byte x)) [0..<8]"
  apply (rule all_u8I [where P = "\<lambda>x. sbox_circuit (\<noteq>) (\<and>) Not (map (bit x) [0..<8]) = map (bit (sub_byte x)) [0..<8]"])
  apply (simp only: all_u8_eq list.pred_inject simp_thms upt_8)
  apply (simp add: sub_byte_def rotl8_def gf_inv_table sbox_circuit_def Let_def cong: let_weak_cong)
  done

end
