(* ===== verification/Aes_Batch.thy ===== *)
theory Aes_Batch
  imports Aes_Sbox
begin

text \<open>
  What a bitsliced batch means: bit \<open>b\<close> of byte \<open>p\<close> of block \<open>k\<close> is bit \<open>4 * p + k\<close> of word \<open>b\<close>. Each step of the
  implementation is the step of the standard on every block of the batch.
\<close>

section \<open>The blocks of a batch\<close>

definition byte_at :: "aes_word list \<Rightarrow> nat \<Rightarrow> nat \<Rightarrow> u8" where
  "byte_at batch k p = horner_sum of_bool 2 (map (\<lambda>b. bit (batch ! b) (4 * p + k)) [0..<8])"

definition block_at :: "aes_word list \<Rightarrow> nat \<Rightarrow> u8 list" where
  "block_at batch k = map (byte_at batch k) [0..<16]"

lemma bit_byte_at: "bit (byte_at batch k p) b \<longleftrightarrow> b < 8 \<and> bit (batch ! b) (4 * p + k)"
  by (auto simp: byte_at_def bit_horner_sum_bit_word_iff)

lemma length_block_at [simp]: "length (block_at batch k) = 16"
  by (simp add: block_at_def)

lemma block_at_nth [simp]: "p < 16 \<Longrightarrow> block_at batch k ! p = byte_at batch k p"
  by (simp add: block_at_def)

lemma u8_eqI: "(\<And>b. b < 8 \<Longrightarrow> bit x b = bit y b) \<Longrightarrow> x = y" for x y :: u8
  by (rule bit_word_eqI) simp

lemma block_at_eqI:
  "length bs = 16 \<Longrightarrow> (\<And>p b. p < 16 \<Longrightarrow> b < 8 \<Longrightarrow> bit (batch ! b) (4 * p + k) = bit (bs ! p) b) \<Longrightarrow> block_at batch k = bs"
  by (rule nth_equalityI) (auto intro!: u8_eqI simp: bit_byte_at)

text \<open>Bits of words, one by one.\<close>

lemma upt_64:
  "[0..<64] =
     [0, 1, 2, 3, 4, 5, 6, 7, 8, 9, 10, 11, 12, 13, 14, 15,
      16, 17, 18, 19, 20, 21, 22, 23, 24, 25, 26, 27, 28, 29, 30, 31,
      32, 33, 34, 35, 36, 37, 38, 39, 40, 41, 42, 43, 44, 45, 46, 47,
      48, 49, 50, 51, 52, 53, 54, 55, 56, 57, 58, 59, 60, 61, 62, 63]"
  by (simp add: upt_conv_Cons)

lemma all_64I:
  "list_all P
     [0, 1, 2, 3, 4, 5, 6, 7, 8, 9, 10, 11, 12, 13, 14, 15,
      16, 17, 18, 19, 20, 21, 22, 23, 24, 25, 26, 27, 28, 29, 30, 31,
      32, 33, 34, 35, 36, 37, 38, 39, 40, 41, 42, 43, 44, 45, 46, 47,
      48, 49, 50, 51, 52, 53, 54, 55, 56, 57, 58, 59, 60, 61, 62, 63] \<Longrightarrow> n < 64 \<Longrightarrow> P n" for n :: nat
  unfolding upt_64 [symmetric] list_all_iff by simp

section \<open>Substitution and keys\<close>

lemma let_length: "(\<And>x. length (f x) = n) \<Longrightarrow> length (Let a f) = n"
  by simp

lemma length_sbox_circuit [simp]: "length (sbox_circuit x c n batch) = 8"
  unfolding sbox_circuit_def by (rule let_length)+ simp

lemma word_ops_bit:
  "bit (aes_nohw_xor a b) n = (bit a n \<noteq> bit b n)" "bit (aes_nohw_and a b) n = (bit a n \<and> bit b n)"
  "bit (aes_nohw_or a b) n = (bit a n \<or> bit b n)" "n < 64 \<Longrightarrow> bit (aes_nohw_not a) n = (\<not> bit a n)"
  by (simp_all add: aes_nohw_xor_def aes_nohw_and_def aes_nohw_or_def aes_nohw_not_def bit_simps)

lemma bits_of_byte_at:
  assumes "length batch = 8"
  shows "map (\<lambda>w. bit w (4 * p + k)) batch = map (bit (byte_at batch k p)) [0..<8]"
  using assms by (intro nth_equalityI) (auto simp: bit_byte_at)

lemma byte_at_eqI: "length batch = 8 \<Longrightarrow> map (\<lambda>w. bit w (4 * p + k)) batch = map (bit x) [0..<8] \<Longrightarrow> byte_at batch k p = x"
  by (rule u8_eqI) (auto simp: bit_byte_at list_eq_iff_nth_eq)

lemma sub_bytes_byte:
  assumes "length batch = 8" and "4 * p + k < 64"
  shows "byte_at (aes_nohw_sub_bytes batch) k p = sub_byte (byte_at batch k p)"
proof (rule byte_at_eqI)
  show "length (aes_nohw_sub_bytes batch) = 8" by (simp add: aes_nohw_sub_bytes_def)
  have "map (\<lambda>w. bit w (4 * p + k)) (aes_nohw_sub_bytes batch) =
      sbox_circuit (\<noteq>) (\<and>) Not (map (\<lambda>w. bit w (4 * p + k)) batch)"
    unfolding aes_nohw_sub_bytes_def by (rule sbox_circuit_hom) (use assms in \<open>simp_all add: word_ops_bit\<close>)
  also have "\<dots> = map (bit (sub_byte (byte_at batch k p))) [0..<8]"
    unfolding bits_of_byte_at [OF assms(1)] by (rule sbox_circuit_byte)
  finally show "map (\<lambda>w. bit w (4 * p + k)) (aes_nohw_sub_bytes batch) = map (bit (sub_byte (byte_at batch k p))) [0..<8]" .
qed

lemma block_sub_bytes:
  "length batch = 8 \<Longrightarrow> k < 4 \<Longrightarrow> block_at (aes_nohw_sub_bytes batch) k = sub_bytes (block_at batch k)"
  by (rule nth_equalityI) (simp_all add: sub_bytes_def sub_bytes_byte)

lemma length_add_round_key [simp]: "length (aes_nohw_add_round_key batch key) = 8"
  by (simp add: aes_nohw_add_round_key_def)

lemma block_add_round_key:
  "block_at (aes_nohw_add_round_key batch key) k = add_round_key (block_at key k) (block_at batch k)"
  by (rule block_at_eqI) (auto simp: add_round_key_def aes_nohw_add_round_key_def word_ops_bit bit_byte_at bit_simps)

text \<open>The inverse of the affine part, and with it the inverse S-box.\<close>

definition inv_affine :: "u8 \<Rightarrow> u8" where
  "inv_affine b = rotl8 1 b XOR rotl8 3 b XOR rotl8 6 b XOR 0x05"

lemma inv_affine_sub_byte: "inv_affine (sub_byte x) = gf_inv x"
  apply (rule all_u8I [where P = "\<lambda>x. inv_affine (sub_byte x) = gf_inv x"])
  apply (simp only: all_u8_eq list.pred_inject simp_thms)
  apply (simp add: inv_affine_def sub_byte_def rotl8_def gf_inv_table)
  done

lemma inv_sub_byte_eq: "inv_sub_byte x = gf_inv (inv_affine x)"
  by (simp only: inv_sub_byte_def inv_affine_def)

lemma inv_sub_byte_sub_byte: "inv_sub_byte (sub_byte x) = x"
  by (simp only: inv_sub_byte_eq inv_affine_sub_byte gf_inv_inv)

lemma bit_rotl8:
  fixes b :: u8
  assumes "k \<le> 8" and "n < 8"
  shows "bit (rotl8 k b) n = bit b (if k \<le> n then n - k else n + 8 - k)"
  using assms by (auto simp: rotl8_def bit_simps add.commute dest: bit_imp_le_length)

lemma less_8E:
  assumes "b < 8"
  obtains "b = 0" | "b = 1" | "b = 2" | "b = 3" | "b = 4" | "b = 5" | "b = 6" | "b = (7 :: nat)"
  using assms by linarith

lemma inv_affine_byte:
  assumes "length batch = 8" and "4 * p + k < 64"
  shows "byte_at (aes_nohw_sub_bytes_inv_affine batch) k p = inv_affine (byte_at batch k p)"
proof (rule u8_eqI)
  fix b :: nat assume "b < 8"
  then show "bit (byte_at (aes_nohw_sub_bytes_inv_affine batch) k p) b = bit (inv_affine (byte_at batch k p)) b"
    by (cases rule: less_8E) (use assms in \<open>simp_all add: bit_byte_at aes_nohw_sub_bytes_inv_affine_def Let_def
      inv_affine_def word_ops_bit bit_xor_iff bit_rotl8\<close>, auto)
qed

lemma length_inv_affine [simp]: "length (aes_nohw_sub_bytes_inv_affine batch) = 8"
  by (simp add: aes_nohw_sub_bytes_inv_affine_def Let_def)

lemma length_sub_bytes [simp]: "length (aes_nohw_sub_bytes batch) = 8"
  by (simp add: aes_nohw_sub_bytes_def)

lemma block_inv_sub_bytes:
  "length batch = 8 \<Longrightarrow> k < 4 \<Longrightarrow> block_at (aes_nohw_inv_sub_bytes batch) k = inv_sub_bytes (block_at batch k)"
  by (rule nth_equalityI)
    (simp_all add: inv_sub_bytes_def aes_nohw_inv_sub_bytes_def inv_affine_byte sub_bytes_byte inv_affine_sub_byte inv_sub_byte_eq)


section \<open>Rows\<close>

lemma shift_bit:
  "bit (aes_nohw_shift_left w i) n \<longleftrightarrow> i * 4 \<le> n \<and> n < 64 \<and> bit w (n - i * 4)"
  "bit (aes_nohw_shift_right w i) n \<longleftrightarrow> bit w (n + i * 4)"
  by (auto simp: aes_nohw_shift_left_def aes_nohw_shift_right_def bit_simps add.commute dest: bit_imp_le_length)

lemma rotate_cols_bit:
  "n \<le> 3 \<Longrightarrow> j < 64 \<Longrightarrow>
    bit (aes_nohw_rotate_cols_right w n) j \<longleftrightarrow> bit w (j + 16 * n) \<or> 64 - 16 * n \<le> j \<and> bit w (j - (64 - 16 * n))"
  by (simp add: aes_nohw_rotate_cols_right_def word_ops_bit shift_bit algebra_simps)

lemma shift_rows_word:
  assumes "j < 64"
  shows "bit (let row0 = aes_nohw_and w 0x000f000f000f000f;
                  row1 = aes_nohw_and w 0x00f000f000f000f0;
                  row2 = aes_nohw_and w 0x0f000f000f000f00;
                  row3 = aes_nohw_and w 0xf000f000f000f000;
                  row1 = aes_nohw_rotate_cols_right row1 1;
                  row2 = aes_nohw_rotate_cols_right row2 2;
                  row3 = aes_nohw_rotate_cols_right row3 3
              in aes_nohw_or (aes_nohw_or row0 row1) (aes_nohw_or row2 row3)) j =
    bit w ((j + 16 * ((j div 4) mod 4)) mod 64)"
  apply (rule all_64I [OF _ assms])
  apply (simp only: list.pred_inject simp_thms)
  apply (simp add: Let_def word_ops_bit rotate_cols_bit)
  done


lemma inv_shift_rows_word:
  assumes "j < 64"
  shows "bit (let row0 = aes_nohw_and w 0x000f000f000f000f;
                  row1 = aes_nohw_and w 0x00f000f000f000f0;
                  row2 = aes_nohw_and w 0x0f000f000f000f00;
                  row3 = aes_nohw_and w 0xf000f000f000f000;
                  row1 = aes_nohw_rotate_cols_right row1 3;
                  row2 = aes_nohw_rotate_cols_right row2 2;
                  row3 = aes_nohw_rotate_cols_right row3 1
              in aes_nohw_or (aes_nohw_or row0 row1) (aes_nohw_or row2 row3)) j =
    bit w ((j + 16 * (4 - (j div 4) mod 4)) mod 64)"
  apply (rule all_64I [OF _ assms])
  apply (simp only: list.pred_inject simp_thms)
  apply (simp add: Let_def word_ops_bit rotate_cols_bit)
  done

lemma length_shift_rows [simp]:
  "length (aes_nohw_shift_rows batch) = 8" "length (aes_nohw_inv_shift_rows batch) = 8"
  by (simp_all add: aes_nohw_shift_rows_def aes_nohw_inv_shift_rows_def)

lemma mod_64: "(16 * x + y) mod 64 = 16 * (x mod 4) + y" if "y < 16" for x y :: nat
  using mod_mult2_eq [of "16 * x + y" 16 4] that by simp

lemma byte_index:
  fixes p k :: nat
  assumes "k < 4"
  shows "(4 * p + k + 16 * ((4 * p + k) div 4 mod 4)) mod 64 = 4 * (p mod 4 + 4 * ((p div 4 + p mod 4) mod 4)) + k"
    and "(4 * p + k + 16 * (4 - (4 * p + k) div 4 mod 4)) mod 64 = 4 * (p mod 4 + 4 * ((p div 4 + 4 - p mod 4) mod 4)) + k"
proof -
  define r c where "r = p mod 4" and "c = p div 4"
  have r: "r < 4" by (simp add: r_def)
  have p: "p = 4 * c + r" by (simp add: r_def c_def)
  have d: "(4 * p + k) div 4 = p" using assms by simp
  have pr: "p mod 4 = r" "p div 4 = c" by (simp_all add: r_def c_def)
  have y: "4 * r + k < 16" using r assms by simp
  have "4 * p + k + 16 * r = 16 * (c + r) + (4 * r + k)" by (simp add: p)
  then show "(4 * p + k + 16 * ((4 * p + k) div 4 mod 4)) mod 64 = 4 * (p mod 4 + 4 * ((p div 4 + p mod 4) mod 4)) + k"
    unfolding d pr by (simp only: mod_64 [OF y]) simp
  have "4 * p + k + 16 * (4 - r) = 16 * (c + 4 - r) + (4 * r + k)" using r by (simp add: p algebra_simps)
  then show "(4 * p + k + 16 * (4 - (4 * p + k) div 4 mod 4)) mod 64 = 4 * (p mod 4 + 4 * ((p div 4 + 4 - p mod 4) mod 4)) + k"
    unfolding d pr by (simp only: mod_64 [OF y]) simp
qed

lemma block_shift_rows:
  assumes "k < 4"
  shows "block_at (aes_nohw_shift_rows batch) k = shift_rows (block_at batch k)"
    and "block_at (aes_nohw_inv_shift_rows batch) k = inv_shift_rows (block_at batch k)"
proof -
  have lt: "r mod 4 + 4 * (q mod 4) < 16" for q r :: nat
    using mod_less_divisor [of 4 r] mod_less_divisor [of 4 q] by linarith
  show "block_at (aes_nohw_shift_rows batch) k = shift_rows (block_at batch k)"
  proof (rule block_at_eqI)
    fix p b :: nat assume p: "p < 16" "b < 8"
    then have "bit (aes_nohw_shift_rows batch ! b) (4 * p + k) =
        bit (batch ! b) ((4 * p + k + 16 * ((4 * p + k) div 4 mod 4)) mod 64)"
      unfolding aes_nohw_shift_rows_def using assms by (simp only: nth_map_upt) (subst shift_rows_word, auto)
    then show "bit (aes_nohw_shift_rows batch ! b) (4 * p + k) = bit (shift_rows (block_at batch k) ! p) b"
      unfolding byte_index(1) [OF assms] using p lt [of p "p div 4 + p mod 4"] by (simp add: shift_rows_def bit_byte_at)
  qed (simp add: shift_rows_def)
  show "block_at (aes_nohw_inv_shift_rows batch) k = inv_shift_rows (block_at batch k)"
  proof (rule block_at_eqI)
    fix p b :: nat assume p: "p < 16" "b < 8"
    then have "bit (aes_nohw_inv_shift_rows batch ! b) (4 * p + k) =
        bit (batch ! b) ((4 * p + k + 16 * (4 - (4 * p + k) div 4 mod 4)) mod 64)"
      unfolding aes_nohw_inv_shift_rows_def using assms by (simp only: nth_map_upt) (subst inv_shift_rows_word, auto)
    then show "bit (aes_nohw_inv_shift_rows batch ! b) (4 * p + k) = bit (inv_shift_rows (block_at batch k) ! p) b"
      unfolding byte_index(2) [OF assms] using p lt [of p "p div 4 + 4 - p mod 4"] by (simp add: inv_shift_rows_def bit_byte_at)
  qed (simp add: inv_shift_rows_def)
qed

end
