(* ===== verification/Aes_Columns.thy ===== *)
theory Aes_Columns
  imports Aes_Batch
begin

text \<open>
  The columns: multiplication by the constants of the standard as repeated doubling, the
  inverse of the mixing of columns, and the bitsliced versions of both.
\<close>

section \<open>Multiplication by constants\<close>

lemma gmul_constants:
  "gmul x 0 = 0" "gmul x 1 = x" "gmul x 2 = xtime x" "gmul x 3 = x XOR xtime x"
  "gmul x 4 = xtime (xtime x)" "gmul x 5 = x XOR xtime (xtime x)"
  "gmul x 9 = x XOR xtime (xtime (xtime x))"
  "gmul x 0xb = x XOR xtime x XOR xtime (xtime (xtime x))"
  "gmul x 0xd = x XOR xtime (xtime x) XOR xtime (xtime (xtime x))"
  "gmul x 0xe = xtime x XOR xtime (xtime x) XOR xtime (xtime (xtime x))"
  by (simp_all add: gmul_unfold xor.assoc)

lemma bit_xtime:
  "bit (xtime x) b \<longleftrightarrow> b < 8 \<and> ((0 < b \<and> bit x (b - 1)) \<noteq> (bit x 7 \<and> (b = 0 \<or> b = 1 \<or> b = 3 \<or> b = 4)))"
proof -
  have "bit (push_bit k x) b \<longleftrightarrow> k \<le> b \<and> b < 8 \<and> bit x (b - k)" for k
    by (auto simp: bit_push_bit_iff dest: bit_imp_le_length)
  from this [of 1] have "bit (push_bit 1 x) b \<longleftrightarrow> 0 < b \<and> b < 8 \<and> bit x (b - 1)" by (simp only: Suc_le_eq One_nat_def)
  moreover have "bit (0x1b :: u8) b \<longleftrightarrow> b < 8 \<and> (b = 0 \<or> b = 1 \<or> b = 3 \<or> b = 4)"
  proof (cases "b < 8")
    case True
    then show ?thesis by (cases rule: less_8E) simp_all
  qed (auto dest: bit_imp_le_length)
  moreover have "bit (xtime x) b \<longleftrightarrow> bit (push_bit 1 x) b \<noteq> (bit x 7 \<and> bit (0x1b :: u8) b)"
    by (cases "bit x 7") (simp_all only: xtime_def bit_xor_iff if_True if_False simp_thms xor.right_neutral)
  ultimately show ?thesis by blast
qed

lemma xtime_xor: "xtime (x XOR y) = xtime x XOR xtime y"
  by (rule u8_eqI) (auto simp: bit_xtime bit_xor_iff)

lemma xor_cancel: "a XOR (a XOR b) = b" for a b :: u8
  by (simp flip: xor.assoc)

section \<open>Columns of the standard\<close>

definition at_row :: "u8 list \<Rightarrow> nat \<Rightarrow> nat \<Rightarrow> u8" where
  "at_row s p k = s ! (4 * (p div 4) + (p mod 4 + k) mod 4)"

lemma at_row_index: "p < 16 \<Longrightarrow> 4 * (p div 4) + (p mod 4 + k) mod 4 < 16" for p :: nat
proof -
  assume "p < 16"
  then have "p div 4 < 4" by (simp add: less_mult_imp_div_less)
  moreover have "(p mod 4 + k) mod 4 < 4" by simp
  ultimately show ?thesis by linarith
qed

lemma length_mul_columns [simp]: "length (mul_columns a b c d s) = 16"
  by (simp add: mul_columns_def)

lemma mul_columns_nth:
  "p < 16 \<Longrightarrow> mul_columns a b c d s ! p =
    gmul (at_row s p 0) a XOR gmul (at_row s p 1) b XOR gmul (at_row s p 2) c XOR gmul (at_row s p 3) d"
  by (simp add: mul_columns_def at_row_def)

lemma at_row_mul_columns:
  assumes "p < 16"
  shows "at_row (mul_columns a b c d s) p k =
    gmul (at_row s p k) a XOR gmul (at_row s p (k + 1)) b XOR gmul (at_row s p (k + 2)) c XOR gmul (at_row s p (k + 3)) d"
proof -
  have "(p mod 4 + k) mod 4 < 4" by simp
  then have "at_row s (4 * (p div 4) + (p mod 4 + k) mod 4) j = at_row s p (k + j)" for j
    by (simp add: at_row_def mod_simps add.assoc)
  then show ?thesis
    using mul_columns_nth [OF at_row_index [OF assms, of k], of a b c d s] by (simp add: at_row_def [of "mul_columns a b c d s"])
qed

lemma at_row_4: "at_row s p (Suc (Suc (Suc (Suc k)))) = at_row s p k"
proof -
  have "(p mod 4 + Suc (Suc (Suc (Suc k)))) mod 4 = ((p mod 4 + k) + 4) mod 4" by simp
  then show ?thesis by (simp only: at_row_def mod_add_self2)
qed

lemma at_row_self: "p < 16 \<Longrightarrow> at_row s p 0 = s ! p"
  by (simp add: at_row_def)

lemma inv_mix_mix: "length s = 16 \<Longrightarrow> inv_mix_columns (mix_columns s) = s"
  by (rule nth_equalityI)
    (simp_all add: inv_mix_columns_def mix_columns_def mul_columns_nth at_row_mul_columns at_row_4 numeral_eq_Suc gmul_constants xtime_xor
      xor_cancel ac_simps at_row_self)

text \<open>The decomposition of the inverse that the implementation uses.\<close>

lemma inv_mix_decomposed: "inv_mix_columns s = mix_columns (mul_columns 5 0 4 0 s)"
  by (rule nth_equalityI)
    (simp_all add: inv_mix_columns_def mix_columns_def mul_columns_nth at_row_mul_columns at_row_4 numeral_eq_Suc gmul_constants xtime_xor
      xor_cancel ac_simps)


section \<open>Columns of a batch\<close>

lemma rotate_rows_bit:
  assumes "j < 64"
  shows "bit (aes_nohw_rotate_rows_down w) j = bit w (16 * (j div 16) + (j mod 16 + 4) mod 16)"
    and "bit (aes_nohw_rotate_rows_twice w) j = bit w (16 * (j div 16) + (j mod 16 + 8) mod 16)"
proof -
  show "bit (aes_nohw_rotate_rows_down w) j = bit w (16 * (j div 16) + (j mod 16 + 4) mod 16)"
    apply (rule all_64I [OF _ assms])
    apply (simp only: list.pred_inject simp_thms)
    apply (simp add: aes_nohw_rotate_rows_down_def bit_or_iff bit_and_iff bit_push_bit_iff bit_drop_bit_eq)
    apply (simp add: numeral_eq_Suc)
    done
  show "bit (aes_nohw_rotate_rows_twice w) j = bit w (16 * (j div 16) + (j mod 16 + 8) mod 16)"
    apply (rule all_64I [OF _ assms])
    apply (simp only: list.pred_inject simp_thms)
    apply (simp add: aes_nohw_rotate_rows_twice_def bit_or_iff bit_and_iff bit_push_bit_iff bit_drop_bit_eq)
    apply (simp add: numeral_eq_Suc)
    done
qed

text \<open>The place of byte \<open>p\<close> of block \<open>k\<close>, and that of the byte \<open>i\<close> rows below.\<close>

definition place :: "nat \<Rightarrow> nat \<Rightarrow> nat \<Rightarrow> nat" where
  "place k p i = 4 * (4 * (p div 4) + (p mod 4 + i) mod 4) + k"

lemma place_0: "place k p 0 = 4 * p + k"
  by (simp add: place_def)

lemma place_less: "p < 16 \<Longrightarrow> k < 4 \<Longrightarrow> place k p i < 64"
  using at_row_index [of p i] by (simp add: place_def)

lemma mod_16: "k < 4 \<Longrightarrow> (4 * x + k) mod 16 = 4 * (x mod 4) + k" for x k :: nat
  using mod_mult2_eq [of "4 * x + k" 4 4] by simp

lemma place_down:
  assumes "k < 4"
  shows "16 * (place k p i div 16) + (place k p i mod 16 + 4 * j) mod 16 = place k p (i + j)"
proof -
  let ?r = "(p mod 4 + i) mod 4"
  have r: "4 * ?r + k < 16" using assms mod_less_divisor [of 4 "p mod 4 + i"] by linarith
  have "place k p i = 16 * (p div 4) + (4 * ?r + k)" by (simp add: place_def)
  then have d: "place k p i div 16 = p div 4" "place k p i mod 16 = 4 * ?r + k" using r by simp_all
  have "4 * ?r + k + 4 * j = 4 * (?r + j) + k" by simp
  then have "(4 * ?r + k + 4 * j) mod 16 = 4 * ((?r + j) mod 4) + k"
    by (simp only: mod_16 [OF assms])
  moreover have "(?r + j) mod 4 = (p mod 4 + (i + j)) mod 4" by (simp add: mod_simps add.assoc)
  ultimately show ?thesis unfolding d by (simp add: place_def)
qed

lemma rotate_rows_place:
  assumes "p < 16" and "k < 4"
  shows "bit (aes_nohw_rotate_rows_down w) (place k p i) = bit w (place k p (i + 1))"
    and "bit (aes_nohw_rotate_rows_twice w) (place k p i) = bit w (place k p (i + 2))"
  using rotate_rows_bit [OF place_less [OF assms, of i]] place_down [OF assms(2), of p i 1] place_down [OF assms(2), of p i 2]
  by simp_all

lemma bit_at_row: "p < 16 \<Longrightarrow> b < 8 \<Longrightarrow> bit (at_row (block_at batch k) p i) b = bit (batch ! b) (place k p i)"
  using at_row_index [of p i] by (simp add: at_row_def bit_byte_at place_def)

lemma block_mix_columns:
  assumes "k < 4"
  shows "block_at (aes_nohw_mix_columns batch) k = mix_columns (block_at batch k)"
proof (rule block_at_eqI)
  fix p b :: nat assume p: "p < 16" and b: "b < 8"
  note rows = rotate_rows_place [OF p assms] bit_at_row [OF p]
  have "bit (aes_nohw_mix_columns batch ! b) (place k p 0) = bit (mix_columns (block_at batch k) ! p) b"
    using b by (cases rule: less_8E)
      (simp_all add: aes_nohw_mix_columns_def Let_def word_ops_bit rows mix_columns_def mul_columns_nth [OF p] gmul_constants
        bit_xor_iff bit_xtime numeral_eq_Suc, blast+)
  then show "bit (aes_nohw_mix_columns batch ! b) (4 * p + k) = bit (mix_columns (block_at batch k) ! p) b"
    by (simp only: place_0)
qed (simp add: mix_columns_def)


lemma block_inv_mix_columns:
  assumes "k < 4"
  shows "block_at (aes_nohw_inv_mix_columns batch) k = inv_mix_columns (block_at batch k)"
proof -
  let ?a = "\<lambda>i. batch ! i" and ?r = "\<lambda>i. aes_nohw_xor (batch ! i) (aes_nohw_rotate_rows_twice (batch ! i))"
  let ?mid = "[aes_nohw_xor (?a 0) (?r 6), aes_nohw_xor (?a 1) (aes_nohw_xor (?r 6) (?r 7)),
    aes_nohw_xor (?a 2) (aes_nohw_xor (?r 0) (?r 7)), aes_nohw_xor (?a 3) (aes_nohw_xor (?r 1) (?r 6)),
    aes_nohw_xor (aes_nohw_xor (?a 4) (?r 2)) (aes_nohw_xor (?r 6) (?r 7)),
    aes_nohw_xor (?a 5) (aes_nohw_xor (?r 3) (?r 7)), aes_nohw_xor (?a 6) (?r 4), aes_nohw_xor (?a 7) (?r 5)]"
  have "block_at ?mid k = mul_columns 5 0 4 0 (block_at batch k)"
  proof (rule block_at_eqI)
    fix p b :: nat assume p: "p < 16" and b: "b < 8"
    note rows = rotate_rows_place [OF p assms] bit_at_row [OF p]
    have "bit (?mid ! b) (place k p 0) = bit (mul_columns 5 0 4 0 (block_at batch k) ! p) b"
      using b by (cases rule: less_8E)
        (simp_all add: word_ops_bit rows mul_columns_nth [OF p] gmul_constants bit_xor_iff bit_xtime numeral_eq_Suc, blast+)
    then show "bit (?mid ! b) (4 * p + k) = bit (mul_columns 5 0 4 0 (block_at batch k) ! p) b"
      by (simp only: place_0)
  qed simp
  moreover have "aes_nohw_inv_mix_columns batch = aes_nohw_mix_columns ?mid"
    by (simp only: aes_nohw_inv_mix_columns_def Let_def)
  ultimately show ?thesis
    by (simp only: block_mix_columns [OF assms] inv_mix_decomposed)
qed

lemma length_mix_columns_batch [simp]:
  "length (aes_nohw_mix_columns batch) = 8" "length (aes_nohw_inv_mix_columns batch) = 8"
  by (simp_all add: aes_nohw_mix_columns_def aes_nohw_inv_mix_columns_def Let_def)

end
