(* ===== verification/Aes_Transpose.thy ===== *)
theory Aes_Transpose
  imports Aes_Columns
begin

text \<open>
  Moving blocks into and out of a batch: both are permutations of bits, made of delta swaps and of
  swaps between words. They are followed for each of the 64 places of a word.
\<close>

section \<open>Swaps\<close>

lemma delta_swap_bit:
  assumes "n < 64" and "\<not> (bit m n \<and> s \<le> n \<and> bit m (n - s))"
  shows "bit (aes_nohw_delta_swap a m s) n =
    (if bit m n then bit a (n + s) else if s \<le> n \<and> bit m (n - s) then bit a (n - s) else bit a n)"
  using assms by (auto simp: aes_nohw_delta_swap_def Let_def bit_xor_iff bit_and_iff bit_push_bit_iff bit_drop_bit_eq add.commute)

lemma compact_word_bit:
  assumes "n < 64"
  shows "bit (aes_nohw_compact_word a) n = bit a (if n < 32 then 8 * (n div 4) + n mod 4 else 8 * (n div 4 - 8) + 4 + n mod 4)"
    and "bit (aes_nohw_uncompact_word a) n = bit a (if n mod 8 < 4 then 4 * (n div 8) + n mod 8 else 32 + 4 * (n div 8) + n mod 8 - 4)"
proof -
  show "bit (aes_nohw_compact_word a) n = bit a (if n < 32 then 8 * (n div 4) + n mod 4 else 8 * (n div 4 - 8) + 4 + n mod 4)"
    apply (rule all_64I [OF _ assms])
    apply (simp only: list.pred_inject simp_thms)
    apply (simp add: aes_nohw_compact_word_def delta_swap_bit)
    apply (simp add: numeral_eq_Suc)
    done
  show "bit (aes_nohw_uncompact_word a) n = bit a (if n mod 8 < 4 then 4 * (n div 8) + n mod 8 else 32 + 4 * (n div 8) + n mod 8 - 4)"
    apply (rule all_64I [OF _ assms])
    apply (simp only: list.pred_inject simp_thms)
    apply (simp add: aes_nohw_uncompact_word_def delta_swap_bit)
    apply (simp add: numeral_eq_Suc)
    done
qed

section \<open>Transposition\<close>

lemma mask_bits:
  "n < 64 \<Longrightarrow> bit (0x5555555555555555 :: aes_word) n \<longleftrightarrow> n mod 2 = 0"
  "n < 64 \<Longrightarrow> bit (0x3333333333333333 :: aes_word) n \<longleftrightarrow> n mod 4 < 2"
proof -
  assume n: "n < 64"
  show "bit (0x5555555555555555 :: aes_word) n \<longleftrightarrow> n mod 2 = 0"
    apply (rule all_64I [OF _ n])
    apply (simp only: list.pred_inject simp_thms)
    apply simp
    done
  show "bit (0x3333333333333333 :: aes_word) n \<longleftrightarrow> n mod 4 < 2"
    apply (rule all_64I [OF _ n])
    apply (simp only: list.pred_inject simp_thms)
    apply simp
    done
qed

text \<open>The two words that a swap changes, at the bits it exchanges and at the others.\<close>

definition swapped :: "aes_word \<Rightarrow> nat \<Rightarrow> aes_word \<Rightarrow> aes_word \<Rightarrow> aes_word \<times> aes_word" where
  "swapped m s a b = (let w = (drop_bit s a XOR b) AND m in (a XOR push_bit s w, b XOR w))"

lemma swapped_bit:
  "n < 64 \<Longrightarrow> bit (fst (swapped m s a b)) n = (if s \<le> n \<and> bit m (n - s) then bit b (n - s) else bit a n)"
  "n < 64 \<Longrightarrow> bit (snd (swapped m s a b)) n = (if bit m n then bit a (n + s) else bit b n)"
  by (auto simp: swapped_def Let_def bit_xor_iff bit_and_iff bit_push_bit_iff bit_drop_bit_eq add.commute)

lemma swap_bits_swapped:
  "aes_nohw_swap_bits i j 0x55555555 s batch =
    batch[i := fst (swapped 0x5555555555555555 s (batch ! i) (batch ! j)),
      j := snd (swapped 0x5555555555555555 s (batch ! i) (batch ! j))]"
  "aes_nohw_swap_bits i j 0x33333333 s batch =
    batch[i := fst (swapped 0x3333333333333333 s (batch ! i) (batch ! j)),
      j := snd (swapped 0x3333333333333333 s (batch ! i) (batch ! j))]"
  by (simp_all add: aes_nohw_swap_bits_def swapped_def Let_def)

lemma list_8E:
  assumes "length xs = 8"
  obtains a0 a1 a2 a3 a4 a5 a6 a7 where "xs = [a0, a1, a2, a3, a4, a5, a6, a7]"
  using assms by (auto simp: length_Suc_conv eval_nat_numeral)

lemma length_swap_bits [simp]: "length (aes_nohw_swap_bits i j m s batch) = length batch"
  by (simp add: aes_nohw_swap_bits_def Let_def)

lemma length_transpose [simp]: "length (aes_nohw_transpose batch) = length batch"
  by (simp add: aes_nohw_transpose_def)

lemma transpose_swapped:
  "aes_nohw_transpose [a0, a1, a2, a3, a4, a5, a6, a7] =
    (let m = 0x5555555555555555; n = 0x3333333333333333;
         (b0, b1) = swapped m 1 a0 a1; (b2, b3) = swapped m 1 a2 a3;
         (b4, b5) = swapped m 1 a4 a5; (b6, b7) = swapped m 1 a6 a7;
         (c0, c2) = swapped n 2 b0 b2; (c1, c3) = swapped n 2 b1 b3;
         (c4, c6) = swapped n 2 b4 b6; (c5, c7) = swapped n 2 b5 b7
     in [c0, c1, c2, c3, c4, c5, c6, c7])"
  unfolding aes_nohw_transpose_def by (simp add: swap_bits_swapped split_beta)

lemma swapped_pairs:
  assumes "p < 16"
  shows "bit (fst (swapped 0x5555555555555555 1 a b)) (4 * p) = bit a (4 * p)"
    and "bit (fst (swapped 0x5555555555555555 1 a b)) (Suc (4 * p)) = bit b (4 * p)"
    and "bit (fst (swapped 0x5555555555555555 1 a b)) (4 * p + 2) = bit a (4 * p + 2)"
    and "bit (fst (swapped 0x5555555555555555 1 a b)) (4 * p + 3) = bit b (4 * p + 2)"
    and "bit (snd (swapped 0x5555555555555555 1 a b)) (4 * p) = bit a (Suc (4 * p))"
    and "bit (snd (swapped 0x5555555555555555 1 a b)) (Suc (4 * p)) = bit b (Suc (4 * p))"
    and "bit (snd (swapped 0x5555555555555555 1 a b)) (4 * p + 2) = bit a (4 * p + 3)"
    and "bit (snd (swapped 0x5555555555555555 1 a b)) (4 * p + 3) = bit b (4 * p + 3)"
proof -
  have lt: "4 * p < 64" "4 * p + 1 < 64" "4 * p + 2 < 64" "4 * p + 3 < 64" "4 * p - 1 < 64" using assms by simp_all
  have even: "(4 * p) mod 2 = 0" "((4 * p + 1) mod 2 = 0) = False" "(4 * p + 2) mod 2 = 0" "((4 * p + 3) mod 2 = 0) = False"
    "(1 \<le> 4 * p \<and> (4 * p - 1) mod 2 = 0) = False" by presburger+
  have sub: "4 * p + 1 - 1 = 4 * p" "4 * p + 2 - 1 = 4 * p + 1" "4 * p + 3 - 1 = 4 * p + 2"
    "4 * p + 1 + 1 = 4 * p + 2" "4 * p + 2 + 1 = 4 * p + 3" "1 \<le> 4 * p + 1" "1 \<le> 4 * p + 2" "1 \<le> 4 * p + 3"
    by simp_all
  show "bit (fst (swapped 0x5555555555555555 1 a b)) (4 * p) = bit a (4 * p)"
    "bit (fst (swapped 0x5555555555555555 1 a b)) (Suc (4 * p)) = bit b (4 * p)"
    "bit (fst (swapped 0x5555555555555555 1 a b)) (4 * p + 2) = bit a (4 * p + 2)"
    "bit (fst (swapped 0x5555555555555555 1 a b)) (4 * p + 3) = bit b (4 * p + 2)"
    "bit (snd (swapped 0x5555555555555555 1 a b)) (4 * p) = bit a (Suc (4 * p))"
    "bit (snd (swapped 0x5555555555555555 1 a b)) (Suc (4 * p)) = bit b (Suc (4 * p))"
    "bit (snd (swapped 0x5555555555555555 1 a b)) (4 * p + 2) = bit a (4 * p + 3)"
    "bit (snd (swapped 0x5555555555555555 1 a b)) (4 * p + 3) = bit b (4 * p + 3)"
    unfolding Suc_eq_plus1
    by (simp_all only: swapped_bit mask_bits lt even sub simp_thms if_True if_False)
qed

lemma swapped_quarters:
  assumes "p < 16"
  shows "bit (fst (swapped 0x3333333333333333 2 a b)) (4 * p) = bit a (4 * p)"
    and "bit (fst (swapped 0x3333333333333333 2 a b)) (Suc (4 * p)) = bit a (Suc (4 * p))"
    and "bit (fst (swapped 0x3333333333333333 2 a b)) (4 * p + 2) = bit b (4 * p)"
    and "bit (fst (swapped 0x3333333333333333 2 a b)) (4 * p + 3) = bit b (Suc (4 * p))"
    and "bit (snd (swapped 0x3333333333333333 2 a b)) (4 * p) = bit a (4 * p + 2)"
    and "bit (snd (swapped 0x3333333333333333 2 a b)) (Suc (4 * p)) = bit a (4 * p + 3)"
    and "bit (snd (swapped 0x3333333333333333 2 a b)) (4 * p + 2) = bit b (4 * p + 2)"
    and "bit (snd (swapped 0x3333333333333333 2 a b)) (4 * p + 3) = bit b (4 * p + 3)"
proof -
  have lt: "4 * p < 64" "4 * p + 1 < 64" "4 * p + 2 < 64" "4 * p + 3 < 64" "4 * p - 2 < 64" "4 * p + 1 - 2 < 64"
    using assms by simp_all
  have high: "((4 * q + 2) mod 4 < 2) = False" "((4 * q + 3) mod 4 < 2) = False" for q :: nat
    by (simp_all only: mod_mult_self4) simp_all
  have quarter: "(4 * p) mod 4 < 2" "(4 * p + 1) mod 4 < 2"
    by (simp_all only: mod_mult_self4) simp_all
  have low: "(2 \<le> 4 * p \<and> (4 * p - 2) mod 4 < 2) = False" "(2 \<le> 4 * p + 1 \<and> (4 * p + 1 - 2) mod 4 < 2) = False"
  proof -
    have "4 * p - 2 = 4 * (p - 1) + 2" "4 * p + 1 - 2 = 4 * (p - 1) + 3" if "p \<noteq> 0" using that by simp_all
    then show "(2 \<le> 4 * p \<and> (4 * p - 2) mod 4 < 2) = False" "(2 \<le> 4 * p + 1 \<and> (4 * p + 1 - 2) mod 4 < 2) = False"
      using high by (cases "p = 0"; simp only:; simp)+
  qed
  have sub: "4 * p + 2 - 2 = 4 * p" "4 * p + 3 - 2 = 4 * p + 1" "4 * p + 1 + 2 = 4 * p + 3" "2 \<le> 4 * p + 2" "2 \<le> 4 * p + 3"
    by simp_all
  show "bit (fst (swapped 0x3333333333333333 2 a b)) (4 * p) = bit a (4 * p)"
    "bit (fst (swapped 0x3333333333333333 2 a b)) (Suc (4 * p)) = bit a (Suc (4 * p))"
    "bit (fst (swapped 0x3333333333333333 2 a b)) (4 * p + 2) = bit b (4 * p)"
    "bit (fst (swapped 0x3333333333333333 2 a b)) (4 * p + 3) = bit b (Suc (4 * p))"
    "bit (snd (swapped 0x3333333333333333 2 a b)) (4 * p) = bit a (4 * p + 2)"
    "bit (snd (swapped 0x3333333333333333 2 a b)) (Suc (4 * p)) = bit a (4 * p + 3)"
    "bit (snd (swapped 0x3333333333333333 2 a b)) (4 * p + 2) = bit b (4 * p + 2)"
    "bit (snd (swapped 0x3333333333333333 2 a b)) (4 * p + 3) = bit b (4 * p + 3)"
    unfolding Suc_eq_plus1
    by (simp_all only: swapped_bit mask_bits lt quarter high low sub simp_thms if_True if_False)
qed

lemma transpose_nth:
  fixes a0 a1 a2 a3 a4 a5 a6 a7 :: aes_word
  defines "batch \<equiv> [a0, a1, a2, a3, a4, a5, a6, a7]"
  shows "aes_nohw_transpose batch ! 0 = fst (swapped 0x3333333333333333 2 (fst (swapped 0x5555555555555555 1 a0 a1)) (fst (swapped 0x5555555555555555 1 a2 a3)))"
    and "aes_nohw_transpose batch ! 1 = fst (swapped 0x3333333333333333 2 (snd (swapped 0x5555555555555555 1 a0 a1)) (snd (swapped 0x5555555555555555 1 a2 a3)))"
    and "aes_nohw_transpose batch ! 2 = snd (swapped 0x3333333333333333 2 (fst (swapped 0x5555555555555555 1 a0 a1)) (fst (swapped 0x5555555555555555 1 a2 a3)))"
    and "aes_nohw_transpose batch ! 3 = snd (swapped 0x3333333333333333 2 (snd (swapped 0x5555555555555555 1 a0 a1)) (snd (swapped 0x5555555555555555 1 a2 a3)))"
    and "aes_nohw_transpose batch ! 4 = fst (swapped 0x3333333333333333 2 (fst (swapped 0x5555555555555555 1 a4 a5)) (fst (swapped 0x5555555555555555 1 a6 a7)))"
    and "aes_nohw_transpose batch ! 5 = fst (swapped 0x3333333333333333 2 (snd (swapped 0x5555555555555555 1 a4 a5)) (snd (swapped 0x5555555555555555 1 a6 a7)))"
    and "aes_nohw_transpose batch ! 6 = snd (swapped 0x3333333333333333 2 (fst (swapped 0x5555555555555555 1 a4 a5)) (fst (swapped 0x5555555555555555 1 a6 a7)))"
    and "aes_nohw_transpose batch ! 7 = snd (swapped 0x3333333333333333 2 (snd (swapped 0x5555555555555555 1 a4 a5)) (snd (swapped 0x5555555555555555 1 a6 a7)))"
  unfolding batch_def transpose_swapped Let_def split_beta by simp_all

lemma transpose_bit:
  assumes "length batch = 8" and "b < 8" and "p < 16" and "k < 4"
  shows "bit (aes_nohw_transpose batch ! b) (4 * p + k) = bit (batch ! (4 * (b div 4) + k)) (4 * p + b mod 4)"
proof -
  obtain a0 a1 a2 a3 a4 a5 a6 a7 where batch: "batch = [a0, a1, a2, a3, a4, a5, a6, a7]"
    using list_8E [OF assms(1)] by blast
  have k: "k = 0 \<or> k = 1 \<or> k = 2 \<or> k = 3" using assms(4) by linarith
  note bits = swapped_pairs [OF assms(3)] swapped_quarters [OF assms(3)]
  have one: "4 * p + 1 = Suc (4 * p)" by simp
  show ?thesis
    unfolding batch using assms(2)
    by (cases rule: less_8E) (use k in \<open>elim disjE; simp only: transpose_nth add_0_right one bits; simp\<close>)+
qed

section \<open>Compact blocks\<close>

text \<open>Byte \<open>p\<close> of a block in the two words of its compact form: its low half is in the first, its high half in the second.\<close>

definition compact_byte :: "aes_word list \<Rightarrow> nat \<Rightarrow> u8" where
  "compact_byte c p = horner_sum of_bool 2 (map (\<lambda>b. bit (c ! (b div 4)) (4 * p + b mod 4)) [0..<8])"

definition block_of :: "aes_word list \<Rightarrow> u8 list" where
  "block_of c = map (compact_byte c) [0..<16]"

lemma bit_compact_byte: "bit (compact_byte c p) b \<longleftrightarrow> b < 8 \<and> bit (c ! (b div 4)) (4 * p + b mod 4)"
  by (auto simp: compact_byte_def bit_horner_sum_bit_word_iff)

lemma length_block_of [simp]: "length (block_of c) = 16"
  by (simp add: block_of_def)

lemma block_of_nth [simp]: "p < 16 \<Longrightarrow> block_of c ! p = compact_byte c p"
  by (simp add: block_of_def)

lemma block_of_eqI:
  "length bs = 16 \<Longrightarrow> (\<And>p b. p < 16 \<Longrightarrow> b < 8 \<Longrightarrow> bit (c ! (b div 4)) (4 * p + b mod 4) = bit (bs ! p) b) \<Longrightarrow> block_of c = bs"
  by (rule nth_equalityI) (auto intro!: u8_eqI simp: bit_compact_byte)

lemma store_word_bit:
  assumes "i < 8" and "b < 8"
  shows "bit (CRYPTO_store_word_le v ! i) b = bit v (8 * i + b)"
  using assms(1) by (cases rule: less_8E)
    (use assms(2) in \<open>simp_all add: CRYPTO_store_word_le_def u64_bytes_def u32_bytes_def bit_simps add.commute\<close>)

lemma load_word_bit:
  assumes "8 \<le> length p" and "n < 64"
  shows "bit (CRYPTO_load_word_le p) n = bit (p ! (n div 8)) (n mod 8)"
proof -
  have i: "n div 8 < 8" using assms(2) by (simp add: less_mult_imp_div_less)
  have "8 * (n div 8) + n mod 8 = n" by simp
  then have "bit (CRYPTO_load_word_le p) n = bit (CRYPTO_store_word_le (CRYPTO_load_word_le p) ! (n div 8)) (n mod 8)"
    using store_word_bit [OF i, of "n mod 8" "CRYPTO_load_word_le p"] by simp
  also have "\<dots> = bit (take 8 p ! (n div 8)) (n mod 8)" by (simp only: store_load_word [OF assms(1)])
  also have "\<dots> = bit (p ! (n div 8)) (n mod 8)" using i by simp
  finally show ?thesis .
qed

lemma half_masks:
  "n < 64 \<Longrightarrow> bit (0x00000000ffffffff :: aes_word) n \<longleftrightarrow> n < 32"
  "n < 64 \<Longrightarrow> bit (0xffffffff00000000 :: aes_word) n \<longleftrightarrow> 32 \<le> n"
proof -
  assume n: "n < 64"
  show "bit (0x00000000ffffffff :: aes_word) n \<longleftrightarrow> n < 32"
    apply (rule all_64I [OF _ n])
    apply (simp only: list.pred_inject simp_thms)
    apply simp
    done
  show "bit (0xffffffff00000000 :: aes_word) n \<longleftrightarrow> 32 \<le> n"
    apply (rule all_64I [OF _ n])
    apply (simp only: list.pred_inject simp_thms)
    apply simp
    done
qed

lemma halves_bit:
  fixes a b :: aes_word
  assumes "n < 64"
  shows "bit ((a AND 0x00000000ffffffff) OR push_bit 32 b) n = (if n < 32 then bit a n else bit b (n - 32))"
    and "bit ((b AND 0xffffffff00000000) OR drop_bit 32 a) n = (if n < 32 then bit a (n + 32) else bit b n)"
proof -
  have "\<not> bit a (n + 32)" if "32 \<le> n" using that by (auto dest: bit_imp_le_length)
  then show "bit ((b AND 0xffffffff00000000) OR drop_bit 32 a) n = (if n < 32 then bit a (n + 32) else bit b n)"
    by (simp only: bit_or_iff bit_and_iff bit_drop_bit_eq o_apply half_masks [OF assms] add.commute [of 32]) auto
  show "bit ((a AND 0x00000000ffffffff) OR push_bit 32 b) n = (if n < 32 then bit a n else bit b (n - 32))"
    using assms by (simp only: bit_or_iff bit_and_iff bit_push_bit_iff half_masks [OF assms]) auto
qed

lemma div_mod_place: "(8 * q + r) div 8 = q" "(8 * q + r) mod 8 = r" if "r < 8" for q r :: nat
  using that by simp_all

lemma div_mod_place4: "(4 * q + r) div 4 = q" "(4 * q + r) mod 4 = r" if "r < 4" for q r :: nat
  using that by simp_all

lemma load_word_place: "8 \<le> length p \<Longrightarrow> q < 8 \<Longrightarrow> r < 8 \<Longrightarrow> bit (CRYPTO_load_word_le p) (8 * q + r) = bit (p ! q) r"
  by (simp add: load_word_bit div_mod_place)

lemma compact_word_place:
  assumes "q < 8" and "r < 4"
  shows "bit (aes_nohw_compact_word a) (4 * q + r) = bit a (8 * q + r)"
    and "bit (aes_nohw_compact_word a) (4 * (q + 8) + r) = bit a (8 * q + (r + 4))"
    and "bit (aes_nohw_uncompact_word a) (8 * q + r) = bit a (4 * q + r)"
    and "bit (aes_nohw_uncompact_word a) (8 * q + (r + 4)) = bit a (4 * (q + 8) + r)"
proof -
  have lt: "4 * q + r < 64" "4 * (q + 8) + r < 64" "8 * q + r < 64" "8 * q + (r + 4) < 64" "4 * q + r < 32"
    "\<not> 4 * (q + 8) + r < 32" "r + 4 < 8" "r < 8" "\<not> r + 4 < 4" using assms by simp_all
  show "bit (aes_nohw_compact_word a) (4 * q + r) = bit a (8 * q + r)"
    by (simp only: compact_word_bit [OF lt(1)] lt if_True div_mod_place4 [OF assms(2)])
  show "bit (aes_nohw_compact_word a) (4 * (q + 8) + r) = bit a (8 * q + (r + 4))"
    by (simp only: compact_word_bit [OF lt(2)] lt if_False div_mod_place4 [OF assms(2)] add_diff_cancel_right') (simp only: ac_simps)
  show "bit (aes_nohw_uncompact_word a) (8 * q + r) = bit a (4 * q + r)"
    by (simp only: compact_word_bit [OF lt(3)] assms if_True div_mod_place [OF lt(8)])
  show "bit (aes_nohw_uncompact_word a) (8 * q + (r + 4)) = bit a (4 * (q + 8) + r)"
    by (simp only: compact_word_bit [OF lt(4)] lt if_False div_mod_place [OF lt(7)]) (simp add: algebra_simps)
qed

text \<open>Every place of a block, in the two halves of the block and of the byte.\<close>

lemma place_cases:
  fixes p b :: nat
  assumes "p < 16" and "b < 8"
  obtains q r where "q < 8" "r < 4" "p = q" "b = r" "b div 4 = 0" "b mod 4 = r"
    | q r where "q < 8" "r < 4" "p = q + 8" "b = r" "b div 4 = 0" "b mod 4 = r"
    | q r where "q < 8" "r < 4" "p = q" "b = r + 4" "b div 4 = 1" "b mod 4 = r"
    | q r where "q < 8" "r < 4" "p = q + 8" "b = r + 4" "b div 4 = 1" "b mod 4 = r"
proof -
  have "p < 8 \<or> p - 8 < 8 \<and> p = p - 8 + 8" using assms(1) by linarith
  moreover have "b < 4 \<and> b div 4 = 0 \<and> b mod 4 = b \<or> b - 4 < 4 \<and> b = b - 4 + 4 \<and> b div 4 = 1 \<and> b mod 4 = b - 4"
    using assms(2) by (cases rule: less_8E) simp_all
  ultimately show ?thesis using that by metis
qed

lemma halves_place:
  fixes a b :: aes_word
  assumes "q < 8" and "r < 4"
  shows "bit ((a AND 0x00000000ffffffff) OR push_bit 32 b) (4 * q + r) = bit a (4 * q + r)"
    and "bit ((a AND 0x00000000ffffffff) OR push_bit 32 b) (4 * (q + 8) + r) = bit b (4 * q + r)"
    and "bit ((b AND 0xffffffff00000000) OR drop_bit 32 a) (4 * q + r) = bit a (4 * (q + 8) + r)"
    and "bit ((b AND 0xffffffff00000000) OR drop_bit 32 a) (4 * (q + 8) + r) = bit b (4 * (q + 8) + r)"
proof -
  have lt: "4 * q + r < 64" "4 * (q + 8) + r < 64" "4 * q + r < 32" "\<not> 4 * (q + 8) + r < 32"
    and eq: "4 * (q + 8) + r - 32 = 4 * q + r" "4 * q + r + 32 = 4 * (q + 8) + r" using assms by simp_all
  note low = halves_bit [OF lt(1), where a = a and b = b] and high = halves_bit [OF lt(2), where a = a and b = b]
  show "bit ((a AND 0x00000000ffffffff) OR push_bit 32 b) (4 * q + r) = bit a (4 * q + r)"
    "bit ((b AND 0xffffffff00000000) OR drop_bit 32 a) (4 * q + r) = bit a (4 * (q + 8) + r)"
    by (simp_all only: low lt(3) if_True eq)
  show "bit ((a AND 0x00000000ffffffff) OR push_bit 32 b) (4 * (q + 8) + r) = bit b (4 * q + r)"
    "bit ((b AND 0xffffffff00000000) OR drop_bit 32 a) (4 * (q + 8) + r) = bit b (4 * (q + 8) + r)"
    by (simp_all only: high lt(4) if_False eq)
qed

lemma block_of_compact:
  assumes "16 \<le> length bs"
  shows "block_of (aes_nohw_compact_block bs) = take 16 bs"
proof (rule block_of_eqI)
  show "length (take 16 bs) = 16" using assms by simp
  let ?a = "aes_nohw_compact_word (CRYPTO_load_word_le bs)" and ?b = "aes_nohw_compact_word (CRYPTO_load_word_le (drop 8 bs))"
  have words: "aes_nohw_compact_block bs ! 0 = (?a AND 0x00000000ffffffff) OR push_bit 32 ?b"
    "aes_nohw_compact_block bs ! 1 = (?b AND 0xffffffff00000000) OR drop_bit 32 ?a"
    by (simp_all add: aes_nohw_compact_block_def Let_def)
  have len: "8 \<le> length bs" "8 \<le> length (drop 8 bs)" using assms by simp_all
  have bytes: "take 16 bs ! q = bs ! q" "take 16 bs ! (q + 8) = drop 8 bs ! q" if "q < 8" for q
    using assms that by (simp_all add: add.commute)
  have small: "r + 4 < 8" "r < 8" if "r < 4" for r :: nat using that by simp_all
  fix p b :: nat assume "p < 16" and "b < 8"
  then show "bit (aes_nohw_compact_block bs ! (b div 4)) (4 * p + b mod 4) = bit (take 16 bs ! p) b"
    by (cases rule: place_cases)
      (simp_all only: words halves_place compact_word_place load_word_place [OF len(1)] load_word_place [OF len(2)] bytes small)
qed

lemma length_uncompact_block [simp]: "length (aes_nohw_uncompact_block c) = 16"
  by (simp add: aes_nohw_uncompact_block_def Let_def)

lemma block_of_uncompact: "aes_nohw_uncompact_block c = block_of c"
proof (rule sym, rule block_of_eqI)
  let ?a = "aes_nohw_uncompact_word ((c ! 0 AND 0x00000000ffffffff) OR push_bit 32 (c ! 1))"
    and ?b = "aes_nohw_uncompact_word ((c ! 1 AND 0xffffffff00000000) OR drop_bit 32 (c ! 0))"
  have bytes: "aes_nohw_uncompact_block c ! q = CRYPTO_store_word_le ?a ! q"
    "aes_nohw_uncompact_block c ! (q + 8) = CRYPTO_store_word_le ?b ! q" if "q < 8" for q
    using that by (simp_all add: aes_nohw_uncompact_block_def Let_def nth_append)
  have small: "r + 4 < 8" "r < 8" if "r < 4" for r :: nat using that by simp_all
  fix p b :: nat assume "p < 16" and "b < 8"
  then show "bit (c ! (b div 4)) (4 * p + b mod 4) = bit (aes_nohw_uncompact_block c ! p) b"
    by (cases rule: place_cases) (simp_all only: bytes small store_word_bit halves_place compact_word_place)
qed simp

section \<open>Blocks into and out of a batch\<close>

lemma block_at_transpose:
  assumes "length batch = 8" and "k < 4"
  shows "block_at (aes_nohw_transpose batch) k = block_of (aes_nohw_batch_get batch k)"
proof (rule block_at_eqI)
  fix p b :: nat assume p: "p < 16" and b: "b < 8"
  have "batch ! (4 * (b div 4) + k) = aes_nohw_batch_get batch k ! (b div 4)"
    using b by (cases rule: less_8E) (simp_all add: aes_nohw_batch_get_def add.commute)
  then show "bit (aes_nohw_transpose batch ! b) (4 * p + k) = bit (block_of (aes_nohw_batch_get batch k) ! p) b"
    using p b by (simp add: transpose_bit [OF assms(1) b p assms(2)] bit_compact_byte)
qed simp

lemma block_of_transpose:
  assumes "length batch = 8" and "k < 4"
  shows "block_of (aes_nohw_batch_get (aes_nohw_transpose batch) k) = block_at batch k"
proof (rule block_of_eqI)
  fix p b :: nat assume p: "p < 16" and b: "b < 8"
  have "b div 4 = 0 \<or> b div 4 = 1" using b by (cases rule: less_8E) simp_all
  then have lt: "4 * (b div 4) + k < 8" "b mod 4 < 4" using assms(2) by auto
  have eq: "4 * ((4 * (b div 4) + k) div 4) + b mod 4 = b" "(4 * (b div 4) + k) mod 4 = k"
    using assms(2) by (simp_all only: div_mod_place4) (rule mult_div_mod_eq)
  have "aes_nohw_batch_get (aes_nohw_transpose batch) k ! (b div 4) = aes_nohw_transpose batch ! (4 * (b div 4) + k)"
    using b by (cases rule: less_8E) (simp_all add: aes_nohw_batch_get_def add.commute)
  then show "bit (aes_nohw_batch_get (aes_nohw_transpose batch) k ! (b div 4)) (4 * p + b mod 4) = bit (block_at batch k ! p) b"
    using p b by (simp only: transpose_bit [OF assms(1) lt(1) p lt(2)] eq bit_byte_at block_at_nth) simp
qed simp


lemma fold_batch_set:
  assumes "n \<le> 4" and "length out = 8" and "\<And>i. length (f i) = 2"
  shows "length (fold (\<lambda>i out. aes_nohw_batch_set out (f i) i) [0..<n] out) = 8 \<and>
    (\<forall>k < n. aes_nohw_batch_get (fold (\<lambda>i out. aes_nohw_batch_set out (f i) i) [0..<n] out) k = f k)"
  using assms(1)
proof (induction n)
  case (Suc n)
  let ?out = "fold (\<lambda>i out. aes_nohw_batch_set out (f i) i) [0..<n] out"
  from Suc have IH: "length ?out = 8" "\<And>k. k < n \<Longrightarrow> aes_nohw_batch_get ?out k = f k" and n: "n < 4" by simp_all
  obtain a b where ab: "f n = [a, b]" using assms(3) [of n] by (auto simp: length_Suc_conv numeral_2_eq_2)
  have "aes_nohw_batch_get (aes_nohw_batch_set ?out (f n) n) k = f k" if "k < Suc n" for k
  proof (cases "k = n")
    case False
    with that IH(2) [of k] n show ?thesis by (auto simp: aes_nohw_batch_get_def aes_nohw_batch_set_def nth_list_update)
  qed (use n IH(1) ab in \<open>simp add: aes_nohw_batch_get_def aes_nohw_batch_set_def nth_list_update\<close>)
  then show ?case using IH(1) by (simp add: aes_nohw_batch_set_def)
qed (use assms(2) in simp)

lemma length_compact_block [simp]: "length (aes_nohw_compact_block bs) = 2"
  by (simp add: aes_nohw_compact_block_def Let_def)

lemma length_to_batch: "n \<le> 4 \<Longrightarrow> length (aes_nohw_to_batch inp n) = 8"
  using fold_batch_set [of n "replicate 8 0" "\<lambda>i. aes_nohw_compact_block (take 16 (drop (16 * i) inp))"]
  by (simp add: aes_nohw_to_batch_def)

lemma to_batch_block:
  assumes "n \<le> 4" and "16 * n \<le> length inp" and "k < n"
  shows "block_at (aes_nohw_to_batch inp n) k = take 16 (drop (16 * k) inp)"
proof -
  note set = fold_batch_set [OF assms(1), of "replicate 8 0" "\<lambda>i. aes_nohw_compact_block (take 16 (drop (16 * i) inp))"]
  have "16 \<le> length (take 16 (drop (16 * k) inp))" using assms by simp
  with set assms(3) show ?thesis
    unfolding aes_nohw_to_batch_def using assms(1) by (simp add: block_at_transpose block_of_compact)
qed

lemma from_batch_blocks:
  assumes "length batch = 8" and "n \<le> 4"
  shows "aes_nohw_from_batch n batch = concat (map (block_at batch) [0..<n])"
  unfolding aes_nohw_from_batch_def Let_def block_of_uncompact
  using assms by (intro arg_cong [where f = concat] map_cong) (simp_all add: block_of_transpose)

end
