(* ===== verification/Aes_Key.thy ===== *)
theory Aes_Key
  imports Aes_Transpose
begin

text \<open>
  The key schedules of the bitsliced AES (\<open>crypto/fipsmodule/aes/aes_nohw.c\<close>): each works on whole blocks in
  compact form, that is, on four words of the schedule of the standard at a time. Their round keys are those of
  the standard for keys of 128, 192 and 256 bits.
\<close>

section \<open>The code\<close>

definition aes_nohw_rcon :: "u8 list" where
  "aes_nohw_rcon = [0x01, 0x02, 0x04, 0x08, 0x10, 0x20, 0x40, 0x80, 0x1b, 0x36]"

definition aes_nohw_rcon_slice :: "u8 \<Rightarrow> nat \<Rightarrow> aes_word" where
  "aes_nohw_rcon_slice rc i = ucast (drop_bit (i * 4) rc AND (push_bit 4 1 - 1))"

definition aes_nohw_sub_block :: "aes_word list \<Rightarrow> aes_word list" where
  "aes_nohw_sub_block inp =
     (let batch = aes_nohw_batch_set (replicate 8 0) inp 0;
          batch = aes_nohw_transpose batch;
          batch = aes_nohw_sub_bytes batch;
          batch = aes_nohw_transpose batch
      in aes_nohw_batch_get batch 0)"

definition AES_NOHW_COL01_MASK :: aes_word where "AES_NOHW_COL01_MASK = 0x00000000ffffffff"
definition AES_NOHW_COL2_MASK :: aes_word where "AES_NOHW_COL2_MASK = 0x0000ffff00000000"
definition AES_NOHW_COL3_MASK :: aes_word where "AES_NOHW_COL3_MASK = 0xffff000000000000"

record aes_key =
  rd_key :: "aes_word list"
  key_rounds :: nat

text \<open>
  The bodies of the loops over the words of a block: a whole block from the previous one, with the transformed
  word \<open>sub\<close>; the same without \<open>rcon\<close> and rotation; and the four steps for the half blocks of a key of 192 bits.
\<close>

definition aes_key_block :: "u8 \<Rightarrow> aes_word list \<Rightarrow> aes_word list \<Rightarrow> aes_word list" where
  "aes_key_block rc sub block =
     map (\<lambda>j.
       let b = aes_nohw_xor (block ! j) (aes_nohw_rcon_slice rc j);
           b = aes_nohw_xor b (aes_nohw_shift_right (aes_nohw_rotate_rows_down (sub ! j)) 12);
           v = b;
           b = aes_nohw_xor b (aes_nohw_shift_left v 4);
           b = aes_nohw_xor b (aes_nohw_shift_left v 8)
       in aes_nohw_xor b (aes_nohw_shift_left v 12)) [0..<2]"

definition aes_key_block_256 :: "aes_word list \<Rightarrow> aes_word list \<Rightarrow> aes_word list" where
  "aes_key_block_256 sub block =
     map (\<lambda>j.
       let b = aes_nohw_xor (block ! j) (aes_nohw_shift_right (sub ! j) 12);
           v = b;
           b = aes_nohw_xor b (aes_nohw_shift_left v 4);
           b = aes_nohw_xor b (aes_nohw_shift_left v 8)
       in aes_nohw_xor b (aes_nohw_shift_left v 12)) [0..<2]"

definition aes_key_first_192 :: "u8 \<Rightarrow> aes_word list \<Rightarrow> aes_word list \<Rightarrow> aes_word list \<Rightarrow> aes_word list" where
  "aes_key_first_192 rc sub block1 block2 =
     map (\<lambda>j.
       let b = aes_nohw_or (block2 ! j) (aes_nohw_shift_left (aes_nohw_xor (block1 ! j) (aes_nohw_rcon_slice rc j)) 8);
           b = aes_nohw_xor b (aes_nohw_and (aes_nohw_shift_left (aes_nohw_rotate_rows_down (sub ! j)) 4) AES_NOHW_COL2_MASK)
       in aes_nohw_xor b (aes_nohw_and (aes_nohw_shift_left b 4) AES_NOHW_COL3_MASK)) [0..<2]"

definition aes_key_second_192 :: "aes_word list \<Rightarrow> aes_word list \<Rightarrow> aes_word list" where
  "aes_key_second_192 block1 block2 =
     map (\<lambda>j.
       let b = aes_nohw_shift_right (block1 ! j) 8;
           b = aes_nohw_or b (aes_nohw_shift_left (block2 ! j) 8);
           b = aes_nohw_xor b (aes_nohw_shift_right (block2 ! j) 12);
           v = b;
           b = aes_nohw_xor b (aes_nohw_shift_left v 4);
           b = aes_nohw_xor b (aes_nohw_shift_left v 8)
       in aes_nohw_xor b (aes_nohw_shift_left v 12)) [0..<2]"

definition aes_key_third_192 :: "u8 \<Rightarrow> aes_word list \<Rightarrow> aes_word list \<Rightarrow> aes_word list \<Rightarrow> aes_word list" where
  "aes_key_third_192 rc sub block1 block2 =
     map (\<lambda>j.
       let b = aes_nohw_shift_right (block2 ! j) 8;
           b = aes_nohw_or b (aes_nohw_shift_left (block1 ! j) 8);
           b = aes_nohw_xor b (aes_nohw_rcon_slice rc j);
           b = aes_nohw_xor b (aes_nohw_shift_right (aes_nohw_rotate_rows_down (sub ! j)) 12);
           v = b;
           b = aes_nohw_xor b (aes_nohw_shift_left v 4);
           b = aes_nohw_xor b (aes_nohw_shift_left v 8)
       in aes_nohw_xor b (aes_nohw_shift_left v 12)) [0..<2]"

definition aes_key_fourth_192 :: "aes_word list \<Rightarrow> aes_word list \<Rightarrow> aes_word list" where
  "aes_key_fourth_192 block1 block2 =
     map (\<lambda>j.
       let b = aes_nohw_shift_right (block1 ! j) 8;
           b = aes_nohw_xor b (aes_nohw_shift_right (block2 ! j) 12);
           b = aes_nohw_xor b (aes_nohw_shift_left b 4)
       in aes_nohw_and b AES_NOHW_COL01_MASK) [0..<2]"

text \<open>
  The schedules; a round key is appended to \<open>rd_key\<close> when the code writes it there. In the code each loop over
  the words of a key of 192 bits computes both of its blocks, a word of the one from the same word of the other.
\<close>

definition aes_nohw_setup_key_128 :: "u8 list \<Rightarrow> aes_key" where
  "aes_nohw_setup_key_128 inp =
     (let block = aes_nohw_compact_block inp;
          (block, rd) = fold (\<lambda>i (block, rd).
            let sub = aes_nohw_sub_block block;
                block = aes_key_block (aes_nohw_rcon ! (i - 1)) sub block
            in (block, rd @ block)) [1..<11] (block, block)
      in \<lparr>rd_key = rd, key_rounds = 10\<rparr>)"

definition aes_nohw_setup_key_192 :: "u8 list \<Rightarrow> aes_key" where
  "aes_nohw_setup_key_192 inp =
     (let block1 = aes_nohw_compact_block inp;
          block2 = aes_nohw_compact_block (take 8 (drop 16 inp) @ replicate 8 0);
          (block1, block2, rd) = fold (\<lambda>i (block1, block2, rd).
            let sub = aes_nohw_sub_block block2;
                block2 = aes_key_first_192 (aes_nohw_rcon ! (2 * i)) sub block1 block2;
                block1 = aes_key_second_192 block1 block2;
                rd = rd @ block2 @ block1;
                sub = aes_nohw_sub_block block1;
                block2 = aes_key_third_192 (aes_nohw_rcon ! (2 * i + 1)) sub block1 block2;
                block1 = aes_key_fourth_192 block1 block2
            in (block2, block1, rd @ block2)) [0..<4] (block1, block2, block1)
      in \<lparr>rd_key = rd, key_rounds = 12\<rparr>)"

definition aes_nohw_setup_key_256 :: "u8 list \<Rightarrow> aes_key" where
  "aes_nohw_setup_key_256 inp =
     (let block1 = aes_nohw_compact_block inp;
          block2 = aes_nohw_compact_block (drop 16 inp);
          (block1, block2, rd) = fold (\<lambda>i (block1, block2, rd).
            let sub = aes_nohw_sub_block block2;
                block1 = aes_key_block (aes_nohw_rcon ! (i div 2 - 1)) sub block1;
                rd = rd @ block1
            in if i = 14 then (block1, block2, rd)
               else
                 let sub = aes_nohw_sub_block block1;
                     block2 = aes_key_block_256 sub block2
                 in (block1, block2, rd @ block2)) [2, 4, 6, 8, 10, 12, 14] (block1, block2, block1 @ block2)
      in \<lparr>rd_key = rd, key_rounds = 14\<rparr>)"

text \<open>The return value 1 is \<open>None\<close>, the key is then unchanged.\<close>

definition aes_nohw_set_encrypt_key :: "u8 list \<Rightarrow> nat \<Rightarrow> aes_key option" where
  "aes_nohw_set_encrypt_key key bits =
     (if bits = 128 then Some (aes_nohw_setup_key_128 key)
      else if bits = 192 then Some (aes_nohw_setup_key_192 key)
      else if bits = 256 then Some (aes_nohw_setup_key_256 key)
      else None)"

definition aes_nohw_set_decrypt_key :: "u8 list \<Rightarrow> nat \<Rightarrow> aes_key option" where
  "aes_nohw_set_decrypt_key key bits = aes_nohw_set_encrypt_key key bits"

definition aes_nohw_expand_round_keys :: "aes_key \<Rightarrow> aes_word list list" where
  "aes_nohw_expand_round_keys key =
     map (\<lambda>i. let batch = fold (\<lambda>j batch. aes_nohw_batch_set batch (take 2 (drop (2 * i) (rd_key key))) j) [0..<4] (replicate 8 0)
              in aes_nohw_transpose batch) [0..<key_rounds key + 1]"

section \<open>Words of a block\<close>

text \<open>Word \<open>c\<close> of the block with words \<open>f 0\<close> and \<open>f 1\<close> in compact form.\<close>

definition word_at :: "(nat \<Rightarrow> aes_word) \<Rightarrow> nat \<Rightarrow> u8 list" where
  "word_at f c = map (\<lambda>r. compact_byte (map f [0..<2]) (4 * c + r)) [0..<4]"

definition xor4 :: "u8 list \<Rightarrow> u8 list \<Rightarrow> u8 list" where
  "xor4 xs ys = map2 (XOR) xs ys"

definition zero4 :: "u8 list" where
  "zero4 = [0, 0, 0, 0]"

lemma length_word_at [simp]: "length (word_at f c) = 4"
  by (simp add: word_at_def)

lemma length_xor4 [simp]: "length (xor4 xs ys) = min (length xs) (length ys)"
  by (simp add: xor4_def)

lemma length_zero4 [simp]: "length zero4 = 4"
  by (simp add: zero4_def)

lemma xor4_ac: "xor4 xs ys = xor4 ys xs" "xor4 (xor4 xs ys) zs = xor4 xs (xor4 ys zs)" "xor4 xs (xor4 ys zs) = xor4 ys (xor4 xs zs)"
  by (rule nth_equalityI; simp add: xor4_def ac_simps)+

lemma less_4_cases: "r < 4 \<Longrightarrow> r = 0 \<or> r = 1 \<or> r = 2 \<or> r = (3 :: nat)"
  by linarith

lemma xor4_zero: "length xs = 4 \<Longrightarrow> xor4 xs zero4 = xs" "length xs = 4 \<Longrightarrow> xor4 zero4 xs = xs"
proof -
  assume len: "length xs = 4"
  have z: "zero4 ! r = 0" if "r < 4" for r using less_4_cases [OF that] by (auto simp: zero4_def)
  show "xor4 xs zero4 = xs" "xor4 zero4 xs = xs"
    by (rule nth_equalityI; simp add: xor4_def len z)+
qed

lemma bit_word_at:
  "r < 4 \<Longrightarrow> bit (word_at f c ! r) b \<longleftrightarrow> b < 8 \<and> bit (f (b div 4)) (4 * (4 * c + r) + b mod 4)"
proof (cases "b < 8")
  case True
  then have "b div 4 < 2" by (cases rule: less_8E) simp_all
  then show "r < 4 \<Longrightarrow> ?thesis" by (simp add: word_at_def bit_compact_byte nth_map_upt del: upt_Suc)
qed (simp add: word_at_def bit_compact_byte)

lemma word_at_eqI:
  "length w = 4 \<Longrightarrow> (\<And>r b. r < 4 \<Longrightarrow> b < 8 \<Longrightarrow> bit (f (b div 4)) (4 * (4 * c + r) + b mod 4) = bit (w ! r) b) \<Longrightarrow> word_at f c = w"
  by (rule nth_equalityI) (auto intro!: u8_eqI simp: bit_word_at)

lemma word_at_map: "word_at (\<lambda>j. map f [0..<2] ! j) c = word_at f c"
  by (rule word_at_eqI) (auto simp: bit_word_at less_mult_imp_div_less nth_map_upt)

lemma word_at_xor: "word_at (\<lambda>j. aes_nohw_xor (f j) (g j)) c = xor4 (word_at f c) (word_at g c)"
  by (rule word_at_eqI) (auto simp: word_ops_bit xor4_def bit_word_at bit_xor_iff)

definition or4 :: "u8 list \<Rightarrow> u8 list \<Rightarrow> u8 list" where
  "or4 xs ys = map2 (OR) xs ys"

lemma or4_zero: "length xs = 4 \<Longrightarrow> or4 xs zero4 = xs" "length xs = 4 \<Longrightarrow> or4 zero4 xs = xs"
proof -
  assume len: "length xs = 4"
  have z: "zero4 ! r = 0" if "r < 4" for r using less_4_cases [OF that] by (auto simp: zero4_def)
  show "or4 xs zero4 = xs" "or4 zero4 xs = xs"
    by (rule nth_equalityI; simp add: or4_def len z)+
qed

lemma word_at_or: "word_at (\<lambda>j. aes_nohw_or (f j) (g j)) c = or4 (word_at f c) (word_at g c)"
  by (rule word_at_eqI) (auto simp: word_ops_bit or4_def bit_word_at bit_or_iff)

lemma zero4_nth: "r < 4 \<Longrightarrow> zero4 ! r = 0"
  using less_4_cases [of r] by (auto simp: zero4_def)

text \<open>Shifts by whole columns.\<close>

lemma column_place:
  fixes c r k :: nat
  assumes "c < 4" and "r < 4" and "k < 4"
  shows "4 * (4 * c + r) + k < 64" and "(4 * (4 * c + r) + k) div 16 = c"
proof -
  have "c \<le> 3" "r \<le> 3" "k \<le> 3" using assms by simp_all
  then show "4 * (4 * c + r) + k < 64" by simp
  show "(4 * (4 * c + r) + k) div 16 = c" using assms by simp
qed

lemma word_at_shift_left:
  assumes "c < 4"
  shows "word_at (\<lambda>j. aes_nohw_shift_left (f j) (4 * s)) c = (if c < s then zero4 else word_at f (c - s))"
proof (rule word_at_eqI)
  fix r b :: nat assume r: "r < 4" and b: "b < 8"
  have m: "b mod 4 < 4" by simp
  note lt = column_place(1) [OF assms r m]
  show "bit (aes_nohw_shift_left (f (b div 4)) (4 * s)) (4 * (4 * c + r) + b mod 4) = bit ((if c < s then zero4 else word_at f (c - s)) ! r) b"
  proof (cases "c < s")
    case True
    then have "c + 1 \<le> s" "r \<le> 3" "b mod 4 \<le> 3" using r m by simp_all
    then have "\<not> 4 * s * 4 \<le> 4 * (4 * c + r) + b mod 4" by simp
    with True r show ?thesis by (simp add: shift_bit zero4_nth)
  next
    case False
    then have "4 * s * 4 \<le> 4 * (4 * c + r) + b mod 4"
      and "4 * (4 * c + r) + b mod 4 - 4 * s * 4 = 4 * (4 * (c - s) + r) + b mod 4" by simp_all
    with False r b lt show ?thesis by (simp only: shift_bit if_False bit_word_at simp_thms)
  qed
qed simp

lemma word_at_shift_right:
  assumes "c < 4"
  shows "word_at (\<lambda>j. aes_nohw_shift_right (f j) (4 * s)) c = (if c + s < 4 then word_at f (c + s) else zero4)"
proof (rule word_at_eqI)
  fix r b :: nat assume r: "r < 4" and b: "b < 8"
  have eq: "4 * (4 * c + r) + b mod 4 + 4 * s * 4 = 4 * (4 * (c + s) + r) + b mod 4" by simp
  show "bit (aes_nohw_shift_right (f (b div 4)) (4 * s)) (4 * (4 * c + r) + b mod 4) =
      bit ((if c + s < 4 then word_at f (c + s) else zero4) ! r) b"
  proof (cases "c + s < 4")
    case False
    then have "64 \<le> 4 * (4 * (c + s) + r) + b mod 4" by simp
    then have "\<not> bit (f (b div 4)) (4 * (4 * (c + s) + r) + b mod 4)" by (auto dest: bit_imp_le_length)
    with False r show ?thesis by (simp only: shift_bit eq if_False zero4_nth) simp
  qed (use r b in \<open>simp only: shift_bit eq if_True bit_word_at simp_thms\<close>)
qed simp

lemmas word_at_shifts =
  word_at_shift_left [where s = 1, simplified] word_at_shift_left [where s = 2, simplified] word_at_shift_left [where s = 3, simplified]
  word_at_shift_right [where s = 1, simplified] word_at_shift_right [where s = 2, simplified] word_at_shift_right [where s = 3, simplified]

lemma column_masks:
  "n < 64 \<Longrightarrow> bit AES_NOHW_COL01_MASK n \<longleftrightarrow> n div 16 < 2"
  "n < 64 \<Longrightarrow> bit AES_NOHW_COL2_MASK n \<longleftrightarrow> n div 16 = 2"
  "n < 64 \<Longrightarrow> bit AES_NOHW_COL3_MASK n \<longleftrightarrow> n div 16 = 3"
proof -
  assume n: "n < 64"
  show "bit AES_NOHW_COL01_MASK n \<longleftrightarrow> n div 16 < 2"
    unfolding AES_NOHW_COL01_MASK_def
    apply (rule all_64I [OF _ n])
    apply (simp only: list.pred_inject simp_thms)
    apply simp
    done
  show "bit AES_NOHW_COL2_MASK n \<longleftrightarrow> n div 16 = 2"
    unfolding AES_NOHW_COL2_MASK_def
    apply (rule all_64I [OF _ n])
    apply (simp only: list.pred_inject simp_thms)
    apply simp
    done
  show "bit AES_NOHW_COL3_MASK n \<longleftrightarrow> n div 16 = 3"
    unfolding AES_NOHW_COL3_MASK_def
    apply (rule all_64I [OF _ n])
    apply (simp only: list.pred_inject simp_thms)
    apply simp
    done
qed

lemma word_at_mask:
  assumes "c < 4" and "\<And>n. n < 64 \<Longrightarrow> bit m n \<longleftrightarrow> P (n div 16)"
  shows "word_at (\<lambda>j. aes_nohw_and (f j) m) c = (if P c then word_at f c else zero4)"
proof (rule word_at_eqI)
  fix r b :: nat assume r: "r < 4" and b: "b < 8"
  have m: "b mod 4 < 4" by simp
  note n = column_place [OF assms(1) r m]
  show "bit (aes_nohw_and (f (b div 4)) m) (4 * (4 * c + r) + b mod 4) = bit ((if P c then word_at f c else zero4) ! r) b"
    using r b by (cases "P c") (simp_all only: word_ops_bit assms(2) [OF n(1)] n(2) if_True if_False bit_word_at zero4_nth bit_0_eq bot_apply bot_bool_def simp_thms)
qed simp

lemmas word_at_masks = word_at_mask [OF _ column_masks(1)] word_at_mask [OF _ column_masks(2)] word_at_mask [OF _ column_masks(3)]

lemma word_at_rotate:
  assumes "c < 4"
  shows "word_at (\<lambda>j. aes_nohw_rotate_rows_down (f j)) c = rotate1 (word_at f c)"
proof (rule word_at_eqI)
  fix r b :: nat assume r: "r < 4" and b: "b < 8"
  let ?p = "4 * c + r"
  have p: "?p < 16" "?p div 4 = c" "?p mod 4 = r" using assms r by simp_all
  have m: "b mod 4 < 4" by simp
  have eq: "place (b mod 4) ?p 0 = 4 * ?p + b mod 4" "place (b mod 4) ?p 1 = 4 * (4 * c + (r + 1) mod 4) + b mod 4"
    using p by (simp_all add: place_def)
  have "rotate1 (word_at f c) ! r = word_at f c ! ((r + 1) mod 4)" using r by (simp add: nth_rotate1)
  then show "bit (aes_nohw_rotate_rows_down (f (b div 4))) (4 * ?p + b mod 4) = bit (rotate1 (word_at f c) ! r) b"
    using rotate_rows_place(1) [OF p(1) m, of "f (b div 4)" 0] b by (simp only: eq add_0_left bit_word_at mod_less_divisor) simp
qed simp

lemma word_at_rcon:
  assumes "c < 4"
  shows "word_at (aes_nohw_rcon_slice rc) c = (if c = 0 then [rc, 0, 0, 0] else zero4)"
proof (rule word_at_eqI)
  fix r b :: nat assume r: "r < 4" and b: "b < 8"
  have slice: "bit (aes_nohw_rcon_slice rc i) n \<longleftrightarrow> n < 4 \<and> bit rc (i * 4 + n)" for i n
  proof (cases "n < 4")
    case True
    have "bit (15 :: u8) n" using less_4_cases [OF True] by auto
    then show ?thesis using True by (simp add: aes_nohw_rcon_slice_def bit_simps)
  next
    case False
    then have "\<not> bit (15 :: u8) n" using bit_take_bit_iff [of 4 "15 :: u8" n] by simp
    then show ?thesis using False by (simp add: aes_nohw_rcon_slice_def bit_simps)
  qed
  show "bit (aes_nohw_rcon_slice rc (b div 4)) (4 * (4 * c + r) + b mod 4) = bit ((if c = 0 then [rc, 0, 0, 0] else zero4) ! r) b"
    using less_4_cases [OF r] by (cases "c = 0") (auto simp: slice zero4_def)
qed simp

section \<open>The steps of the schedules\<close>

definition block_words :: "aes_word list \<Rightarrow> u8 list list" where
  "block_words block = map (word_at (\<lambda>j. block ! j)) [0..<4]"

lemma block_words_list:
  "block_words block =
    [word_at (\<lambda>j. block ! j) 0, word_at (\<lambda>j. block ! j) 1, word_at (\<lambda>j. block ! j) 2, word_at (\<lambda>j. block ! j) 3]"
proof -
  have "[0..<4] = [0, 1, 2, 3 :: nat]" by (simp add: upt_rec)
  then show ?thesis by (simp only: block_words_def list.map)
qed

lemma block_words_eqI:
  "word_at (\<lambda>j. block ! j) 0 = a \<Longrightarrow> word_at (\<lambda>j. block ! j) 1 = b \<Longrightarrow> word_at (\<lambda>j. block ! j) 2 = c \<Longrightarrow>
    word_at (\<lambda>j. block ! j) 3 = d \<Longrightarrow> block_words block = [a, b, c, d]"
  by (simp add: block_words_list)

lemma block_wordsD:
  assumes "block_words block = [a, b, c, d]"
  shows "word_at (\<lambda>j. block ! j) 0 = a" "word_at (\<lambda>j. block ! j) (Suc 0) = b" "word_at (\<lambda>j. block ! j) 2 = c"
    "word_at (\<lambda>j. block ! j) 3 = d" "word_at (\<lambda>j. block ! j) (Suc (Suc 0)) = c" "word_at (\<lambda>j. block ! j) (Suc (Suc (Suc 0))) = d"
    "length a = 4" "length b = 4" "length c = 4" "length d = 4"
  using assms by (auto simp: block_words_list numeral_eq_Suc)

lemmas word_at_rules = word_at_map word_at_xor word_at_or word_at_shifts word_at_masks word_at_rotate word_at_rcon
  xor4_zero or4_zero

lemma key_block_words:
  assumes "block_words block = [a, b, c, d]" and "block_words sub = [p, q, r, s]"
    and "t = xor4 a (xor4 (rotate1 s) [rc, 0, 0, 0])"
  shows "block_words (aes_key_block rc sub block) = [t, xor4 b t, xor4 c (xor4 b t), xor4 d (xor4 c (xor4 b t))]"
  unfolding aes_key_block_def assms(3)
  by (rule block_words_eqI; simp only: word_at_map Let_def;
    simp add: word_at_rules block_wordsD [OF assms(1)] block_wordsD [OF assms(2)]; simp add: xor4_ac)

lemma key_block_256_words:
  assumes "block_words block = [a, b, c, d]" and "block_words sub = [p, q, r, s]" and "t = xor4 a s"
  shows "block_words (aes_key_block_256 sub block) = [t, xor4 b t, xor4 c (xor4 b t), xor4 d (xor4 c (xor4 b t))]"
  unfolding aes_key_block_256_def assms(3)
  by (rule block_words_eqI; simp only: word_at_map Let_def;
    simp add: word_at_rules block_wordsD [OF assms(1)] block_wordsD [OF assms(2)]; simp add: xor4_ac)

lemma key_first_192_words:
  assumes "block_words block1 = [a, b, c, d]" and "block_words block2 = [e, f, zero4, zero4]"
    and "block_words sub = [p, q, r, s]" and "t = xor4 a (xor4 (rotate1 q) [rc, 0, 0, 0])"
  shows "block_words (aes_key_first_192 rc sub block1 block2) = [e, f, t, xor4 b t]"
  unfolding aes_key_first_192_def assms(4)
  by (rule block_words_eqI; simp only: word_at_map Let_def;
    simp add: word_at_rules block_wordsD [OF assms(1)] block_wordsD [OF assms(2)] block_wordsD [OF assms(3)]; simp add: xor4_ac)

lemma key_second_192_words:
  assumes "block_words block1 = [a, b, c, d]" and "block_words block2 = [e, f, g, h]" and "t = xor4 c h"
  shows "block_words (aes_key_second_192 block1 block2) = [t, xor4 d t, xor4 e (xor4 d t), xor4 f (xor4 e (xor4 d t))]"
  unfolding aes_key_second_192_def assms(3)
  by (rule block_words_eqI; simp only: word_at_map Let_def;
    simp add: word_at_rules block_wordsD [OF assms(1)] block_wordsD [OF assms(2)]; simp add: xor4_ac)

lemma key_third_192_words:
  assumes "block_words block1 = [a, b, c, d]" and "block_words block2 = [e, f, g, h]"
    and "block_words sub = [p, q, r, s]" and "t = xor4 g (xor4 (rotate1 s) [rc, 0, 0, 0])"
  shows "block_words (aes_key_third_192 rc sub block1 block2) = [t, xor4 h t, xor4 a (xor4 h t), xor4 b (xor4 a (xor4 h t))]"
  unfolding aes_key_third_192_def assms(4)
  by (rule block_words_eqI; simp only: word_at_map Let_def;
    simp add: word_at_rules block_wordsD [OF assms(1)] block_wordsD [OF assms(2)] block_wordsD [OF assms(3)]; simp add: xor4_ac)

lemma key_fourth_192_words:
  assumes "block_words block1 = [a, b, c, d]" and "block_words block2 = [e, f, g, h]" and "t = xor4 c h"
  shows "block_words (aes_key_fourth_192 block1 block2) = [t, xor4 d t, zero4, zero4]"
  unfolding aes_key_fourth_192_def assms(3)
  by (rule block_words_eqI; simp only: word_at_map Let_def;
    simp add: word_at_rules block_wordsD [OF assms(1)] block_wordsD [OF assms(2)]; simp add: xor4_ac)

lemma sub_block_words: "block_words (aes_nohw_sub_block block) = map (map sub_byte) (block_words block)"
proof -
  let ?b = "aes_nohw_batch_set (replicate 8 0) block 0"
  have "block_of (aes_nohw_sub_block block) = block_at (aes_nohw_sub_bytes (aes_nohw_transpose ?b)) 0"
    unfolding aes_nohw_sub_block_def Let_def by (rule block_of_transpose) simp_all
  also have "\<dots> = sub_bytes (block_of (aes_nohw_batch_get ?b 0))"
    by (simp add: block_sub_bytes block_at_transpose aes_nohw_batch_set_def)
  also have "aes_nohw_batch_get ?b 0 = [block ! 0, block ! 1]"
    by (simp add: aes_nohw_batch_get_def aes_nohw_batch_set_def)
  finally have eq: "block_of (aes_nohw_sub_block block) = sub_bytes (block_of [block ! 0, block ! 1])" .
  have byte: "compact_byte (map (\<lambda>j. xs ! j) [0..<2]) p = compact_byte xs p" "compact_byte [xs ! 0, xs ! Suc 0] p = compact_byte xs p" for xs p
    by (auto simp: u8_eqI bit_compact_byte upt_rec less_Suc_eq numeral_2_eq_2 elim: less_8E intro!: u8_eqI)
  show ?thesis
  proof (rule nth_equalityI, goal_cases)
    case (2 c)
    then have c: "c < 4" by (simp add: block_words_def)
    have "word_at (\<lambda>j. aes_nohw_sub_block block ! j) c ! r = sub_byte (word_at (\<lambda>j. block ! j) c ! r)" if r: "r < 4" for r
    proof -
      have p: "4 * c + r < 16" using c r by simp
      have "block_of (aes_nohw_sub_block block) ! (4 * c + r) = sub_byte (block_of [block ! 0, block ! 1] ! (4 * c + r))"
        using p by (simp add: eq sub_bytes_def)
      then show ?thesis using p r by (simp add: word_at_def byte)
    qed
    then have "word_at (\<lambda>j. aes_nohw_sub_block block ! j) c = map sub_byte (word_at (\<lambda>j. block ! j) c)"
      by (intro nth_equalityI) simp_all
    with c show ?case by (simp add: block_words_def)
  qed (simp add: block_words_def)
qed

section \<open>The words of the standard\<close>

definition key_word :: "nat \<Rightarrow> u8 list \<Rightarrow> nat \<Rightarrow> u8 list" where
  "key_word n key i = key_words n key (Suc i) ! i"

lemma length_key_words [simp]: "length (key_words n key m) = m"
  by (induction m) (simp_all add: Let_def)

lemma key_words_nth: "i < m \<Longrightarrow> key_words n key m ! i = key_word n key i"
proof (induction m)
  case (Suc m)
  then show ?case by (cases "i = m") (simp_all add: key_word_def Let_def nth_append)
qed simp

lemma key_word_first: "i < n \<Longrightarrow> key_word n key i = take 4 (drop (4 * i) key)"
  by (simp add: key_word_def Let_def nth_append)

lemma key_word_next:
  assumes "0 < n" and "n \<le> i"
  shows "key_word n key i =
    (let temp = key_word n key (i - 1)
     in xor4 (key_word n key (i - n))
          (if i mod n = 0 then xor4 (map sub_byte (rotate1 temp)) [rcon (i div n), 0, 0, 0]
           else if 6 < n \<and> i mod n = 4 then map sub_byte temp else temp))"
  using assms unfolding key_word_def [of n key i] by (simp add: Let_def nth_append key_words_nth xor4_def)

lemma round_key_words:
  "round_key key r = concat (map (key_word (length key div 4) key) [4 * r..<4 * r + 4])"
proof -
  have "drop (4 * r) (key_words (length key div 4) key (4 * r + 4)) = map (key_word (length key div 4) key) [4 * r..<4 * r + 4]"
    by (rule nth_equalityI) (simp_all add: key_words_nth)
  then show ?thesis by (simp only: round_key_def)
qed

lemma upt_4: "[k..<k + 4] = [k, k + 1, k + 2, k + 3 :: nat]"
  by (simp add: upt_conv_Cons)

text \<open>One turn of the schedule, as the code computes it.\<close>

lemma mult_add_mod: "r < n \<Longrightarrow> (n * m + r) mod n = r" "r < n \<Longrightarrow> (n * m + r) div n = m" for r n m :: nat
  by simp_all

lemma key_word_turn:
  assumes "0 < n"
  shows "key_word n key (n * m + n) = xor4 (key_word n key (n * m))
    (xor4 (map sub_byte (rotate1 (key_word n key (n * m + n - 1)))) [rcon (m + 1), 0, 0, 0])"
proof -
  have "(n * m + n) mod n = 0" "(n * m + n) div n = m + 1" using assms by simp_all
  then show ?thesis using key_word_next [OF assms, of "n * m + n" key] by (simp add: Let_def)
qed

lemma key_word_copy:
  assumes "k mod n = 0" and "n < j" and "j mod n \<noteq> 0" and "\<not> (6 < n \<and> j mod n = 4)" and "0 < n"
  shows "key_word n key (k + j) = xor4 (key_word n key (k + (j - n))) (key_word n key (k + (j - 1)))"
proof -
  have "(k + j) mod n = j mod n" using assms(1) mod_add_left_eq [of k n j] by simp
  moreover have "k + j - n = k + (j - n)" "k + j - 1 = k + (j - 1)" using assms(2) by simp_all
  ultimately show ?thesis using key_word_next [of n "k + j" key] assms by (auto simp: Let_def)
qed

lemma key_word_sub:
  assumes "6 < n"
  shows "key_word n key (n * m + n + 4) = xor4 (key_word n key (n * m + 4)) (map sub_byte (key_word n key (n * m + n + 3)))"
proof -
  have "(n * m + n + 4) mod n = 4"
    using assms mult_add_mod(1) [of 4 n "m + 1"] by (simp only: distrib_left mult_1_right)
  then show ?thesis using key_word_next [of n "n * m + n + 4" key] assms by (simp add: Let_def numeral_eq_Suc)
qed

lemma rcon_table: "i < 10 \<Longrightarrow> aes_nohw_rcon ! i = rcon (i + 1)"
proof -
  assume "i < 10"
  then have "i \<in> set [0, 1, 2, 3, 4, 5, 6, 7, 8, 9]" unfolding set_simps insert_iff empty_iff by presburger
  then show ?thesis
    by (auto simp: aes_nohw_rcon_def rcon_def xtime_def eval_nat_numeral)
qed

section \<open>The schedules\<close>

definition round_keys :: "nat \<Rightarrow> u8 list \<Rightarrow> aes_word list \<Rightarrow> nat \<Rightarrow> bool" where
  "round_keys n key rd m \<longleftrightarrow>
     length rd = 2 * m \<and> (\<forall>r < m. block_words (take 2 (drop (2 * r) rd)) = map (key_word n key) [4 * r..<4 * r + 4])"

lemma round_keys_add:
  assumes "round_keys n key rd m" and "length block = 2" and "block_words block = map (key_word n key) [4 * m..<4 * m + 4]"
  shows "round_keys n key (rd @ block) (Suc m)"
  unfolding round_keys_def
proof (intro conjI allI impI)
  fix r assume "r < Suc m"
  then show "block_words (take 2 (drop (2 * r) (rd @ block))) = map (key_word n key) [4 * r..<4 * r + 4]"
  proof (cases "r = m")
    case False
    with \<open>r < Suc m\<close> have r: "r < m" by simp
    then have "take 2 (drop (2 * r) (rd @ block)) = take 2 (drop (2 * r) rd)"
      using assms(1) by (simp add: round_keys_def)
    with r assms(1) show ?thesis by (simp add: round_keys_def)
  qed (use assms in \<open>simp add: round_keys_def\<close>)
qed (use assms in \<open>simp add: round_keys_def\<close>)

lemma fold_upt_invariant:
  assumes "P a s" and "a \<le> b" and "\<And>i s. a \<le> i \<Longrightarrow> i < b \<Longrightarrow> P i s \<Longrightarrow> P (Suc i) (f i s)"
  shows "P b (fold f [a..<b] s)"
  using assms(2,3) by (induction b rule: dec_induct) (auto simp: assms(1))

lemma length_key_block [simp]:
  "length (aes_key_block rc sub block) = 2" "length (aes_key_block_256 sub block) = 2"
  "length (aes_key_first_192 rc sub block1 block2) = 2" "length (aes_key_second_192 block1 block2) = 2"
  "length (aes_key_third_192 rc sub block1 block2) = 2" "length (aes_key_fourth_192 block1 block2) = 2"
  by (simp_all add: aes_key_block_def aes_key_block_256_def aes_key_first_192_def aes_key_second_192_def
    aes_key_third_192_def aes_key_fourth_192_def)

lemma word_at_compact:
  assumes "16 \<le> length bs" and "c < 4"
  shows "word_at (\<lambda>j. aes_nohw_compact_block bs ! j) c = take 4 (drop (4 * c) bs)"
proof (rule nth_equalityI)
  fix r assume "r < length (word_at (\<lambda>j. aes_nohw_compact_block bs ! j) c)"
  then have r: "r < 4" "4 * c + r < 16" using assms(2) by simp_all
  have byte: "compact_byte (map (\<lambda>j. xs ! j) [0..<2]) p = compact_byte xs p" for xs p
    by (auto simp: bit_compact_byte upt_rec less_Suc_eq numeral_2_eq_2 elim: less_8E intro!: u8_eqI)
  have "word_at (\<lambda>j. aes_nohw_compact_block bs ! j) c ! r = block_of (aes_nohw_compact_block bs) ! (4 * c + r)"
    using r by (simp add: word_at_def byte)
  also have "\<dots> = bs ! (4 * c + r)" using assms(1) r by (simp add: block_of_compact del: block_of_nth)
  finally show "word_at (\<lambda>j. aes_nohw_compact_block bs ! j) c ! r = take 4 (drop (4 * c) bs) ! r"
    using r assms by simp
qed (use assms in simp)

lemma compact_words:
  "16 \<le> length bs \<Longrightarrow> block_words (aes_nohw_compact_block bs) = map (\<lambda>c. take 4 (drop (4 * c) bs)) [0..<4]"
  unfolding block_words_def by (rule map_cong) (simp_all add: word_at_compact)

lemma first_words:
  "16 \<le> length key \<Longrightarrow> 4 \<le> n \<Longrightarrow> block_words (aes_nohw_compact_block key) = map (key_word n key) [0..<4]"
  by (simp add: compact_words key_word_first)

lemma round_keys_first:
  "16 \<le> length key \<Longrightarrow> 4 \<le> n \<Longrightarrow> round_keys n key (aes_nohw_compact_block key) (Suc 0)"
  by (simp add: round_keys_def first_words)

lemma block_words_upt: "map f [k..<k + 4] = [f k, f (k + 1), f (k + 2), f (k + 3)]"
  by (simp add: upt_4)

lemma setup_key_128_block:
  assumes "block_words block = map (key_word 4 key) [4 * i..<4 * i + 4]" and "i < 10"
  shows "block_words (aes_key_block (aes_nohw_rcon ! i) (aes_nohw_sub_block block) block) =
    map (key_word 4 key) [4 * Suc i..<4 * Suc i + 4]"
proof -
  let ?w = "\<lambda>k. key_word 4 key (4 * i + k)"
  have block: "block_words block = [?w 0, ?w 1, ?w 2, ?w 3]" using assms(1) by (simp add: block_words_upt)
  have sub: "block_words (aes_nohw_sub_block block) = [map sub_byte (?w 0), map sub_byte (?w 1), map sub_byte (?w 2), map sub_byte (?w 3)]"
    by (simp add: sub_block_words block)
  have next4: "?w 4 = xor4 (?w 0) (xor4 (rotate1 (map sub_byte (?w 3))) [aes_nohw_rcon ! i, 0, 0, 0])"
    using key_word_turn [of 4 key i] by (simp add: rcon_table [OF assms(2)] rotate1_map add.commute)
  have copy: "?w 5 = xor4 (?w 1) (?w 4)" "?w 6 = xor4 (?w 2) (?w 5)" "?w 7 = xor4 (?w 3) (?w 6)"
    using key_word_copy [of "4 * i" 4 5 key] key_word_copy [of "4 * i" 4 6 key] key_word_copy [of "4 * i" 4 7 key] by simp_all
  show ?thesis
    unfolding block_words_upt key_block_words [OF block sub next4] using copy by (simp add: add.commute)
qed

lemma setup_key_128_keys:
  assumes "length key = 16"
  shows "round_keys 4 key (rd_key (aes_nohw_setup_key_128 key)) 11"
proof -
  let ?f = "\<lambda>i (block, rd). let sub = aes_nohw_sub_block block;
    block = aes_key_block (aes_nohw_rcon ! (i - 1)) sub block in (block, rd @ block)"
  let ?P = "\<lambda>i (block, rd). length block = 2 \<and> block_words block = map (key_word 4 key) [4 * (i - 1)..<4 * (i - 1) + 4] \<and>
    round_keys 4 key rd i"
  let ?b = "aes_nohw_compact_block key"
  have "?P 11 (fold ?f [1..<11] (?b, ?b))"
  proof (rule fold_upt_invariant [where P = ?P])
    show "?P 1 (?b, ?b)" using assms by (simp add: first_words round_keys_first)
    fix i :: nat and s assume "1 \<le> i" "i < 11" "?P i s"
    obtain block rd where s: "s = (block, rd)" by (cases s)
    let ?block = "aes_key_block (aes_nohw_rcon ! (i - 1)) (aes_nohw_sub_block block) block"
    have "block_words ?block = map (key_word 4 key) [4 * Suc (i - 1)..<4 * Suc (i - 1) + 4]"
      by (rule setup_key_128_block) (use \<open>?P i s\<close> \<open>i < 11\<close> \<open>1 \<le> i\<close> in \<open>simp_all add: s\<close>)
    then have "block_words ?block = map (key_word 4 key) [4 * i..<4 * i + 4]" using \<open>1 \<le> i\<close> by simp
    then show "?P (Suc i) (?f i s)" using \<open>?P i s\<close> by (simp add: s round_keys_add Let_def)
  qed simp
  then show ?thesis unfolding aes_nohw_setup_key_128_def Let_def by (simp add: split_beta)
qed

lemma setup_key_256_blocks:
  assumes "block_words block1 = map (key_word 8 key) [8 * i..<8 * i + 4]"
    and "block_words block2 = map (key_word 8 key) [8 * i + 4..<8 * i + 4 + 4]" and "i < 10"
  defines "block \<equiv> aes_key_block (aes_nohw_rcon ! i) (aes_nohw_sub_block block2) block1"
  shows "block_words block = map (key_word 8 key) [8 * Suc i..<8 * Suc i + 4]"
    and "block_words (aes_key_block_256 (aes_nohw_sub_block block) block2) =
      map (key_word 8 key) [8 * Suc i + 4..<8 * Suc i + 4 + 4]"
proof -
  let ?w = "\<lambda>k. key_word 8 key (8 * i + k)"
  have block1: "block_words block1 = [?w 0, ?w 1, ?w 2, ?w 3]" using assms(1) by (simp add: block_words_upt)
  have block2: "block_words block2 = [?w 4, ?w 5, ?w 6, ?w 7]" using assms(2) unfolding block_words_upt by (simp add: add.commute)
  have sub: "block_words (aes_nohw_sub_block block2) = [map sub_byte (?w 4), map sub_byte (?w 5), map sub_byte (?w 6), map sub_byte (?w 7)]"
    by (simp add: sub_block_words block2)
  have turn: "?w 8 = xor4 (?w 0) (xor4 (rotate1 (map sub_byte (?w 7))) [aes_nohw_rcon ! i, 0, 0, 0])"
    using key_word_turn [of 8 key i] by (simp add: rcon_table [OF assms(3)] rotate1_map add.commute)
  have copy: "?w 9 = xor4 (?w 1) (?w 8)" "?w 10 = xor4 (?w 2) (?w 9)" "?w 11 = xor4 (?w 3) (?w 10)"
    "?w 13 = xor4 (?w 5) (?w 12)" "?w 14 = xor4 (?w 6) (?w 13)" "?w 15 = xor4 (?w 7) (?w 14)"
    using key_word_copy [of "8 * i" 8 9 key] key_word_copy [of "8 * i" 8 10 key] key_word_copy [of "8 * i" 8 11 key]
      key_word_copy [of "8 * i" 8 13 key] key_word_copy [of "8 * i" 8 14 key] key_word_copy [of "8 * i" 8 15 key]
    by simp_all
  have half: "?w 12 = xor4 (?w 4) (map sub_byte (?w 11))"
    using key_word_sub [of 8 key i] by (simp add: add.commute)
  have block: "block_words block = [?w 8, ?w 9, ?w 10, ?w 11]"
    unfolding block_def key_block_words [OF block1 sub turn] using copy by simp
  then show "block_words block = map (key_word 8 key) [8 * Suc i..<8 * Suc i + 4]"
    unfolding block_words_upt by (simp add: add.commute)
  have sub': "block_words (aes_nohw_sub_block block) = [map sub_byte (?w 8), map sub_byte (?w 9), map sub_byte (?w 10), map sub_byte (?w 11)]"
    by (simp add: sub_block_words block)
  show "block_words (aes_key_block_256 (aes_nohw_sub_block block) block2) =
      map (key_word 8 key) [8 * Suc i + 4..<8 * Suc i + 4 + 4]"
    unfolding block_words_upt key_block_256_words [OF block2 sub' half] using copy by (simp add: add.commute)
qed

lemma setup_key_256_keys:
  assumes "length key = 32"
  shows "round_keys 8 key (rd_key (aes_nohw_setup_key_256 key)) 15"
proof -
  let ?f = "\<lambda>i (block1, block2, rd).
    let sub = aes_nohw_sub_block block2;
        block1 = aes_key_block (aes_nohw_rcon ! (i div 2 - 1)) sub block1;
        rd = rd @ block1
    in if i = 14 then (block1, block2, rd)
       else let sub = aes_nohw_sub_block block1; block2 = aes_key_block_256 sub block2 in (block1, block2, rd @ block2)"
  let ?P = "\<lambda>i (block1, block2, rd). length block1 = 2 \<and> length block2 = 2 \<and>
    (i < 8 \<longrightarrow> block_words block1 = map (key_word 8 key) [8 * (i - 1)..<8 * (i - 1) + 4] \<and>
      block_words block2 = map (key_word 8 key) [8 * (i - 1) + 4..<8 * (i - 1) + 4 + 4]) \<and>
    round_keys 8 key rd (if i = 8 then 15 else 2 * i)"
  let ?b1 = "aes_nohw_compact_block key" and ?b2 = "aes_nohw_compact_block (drop 16 key)"
  have second: "block_words ?b2 = map (key_word 8 key) [4..<8]"
    using assms by (simp add: compact_words key_word_first upt_rec add.commute)
  have "?P 8 (fold (\<lambda>i. ?f (2 * i)) [1..<8] (?b1, ?b2, ?b1 @ ?b2))"
  proof (rule fold_upt_invariant [where P = ?P])
    have "round_keys 8 key (?b1 @ ?b2) (Suc (Suc 0))"
      using assms second by (intro round_keys_add round_keys_first) simp_all
    then show "?P 1 (?b1, ?b2, ?b1 @ ?b2)" using assms second by (simp add: first_words numeral_2_eq_2)
    fix i :: nat and s assume i: "1 \<le> i" "i < 8" and P: "?P i s"
    obtain block1 block2 rd where s: "s = (block1, block2, rd)" by (cases s)
    let ?block1 = "aes_key_block (aes_nohw_rcon ! (i - 1)) (aes_nohw_sub_block block2) block1"
    let ?block2 = "aes_key_block_256 (aes_nohw_sub_block ?block1) block2"
    have "block_words ?block1 = map (key_word 8 key) [8 * Suc (i - 1)..<8 * Suc (i - 1) + 4]"
      "block_words ?block2 = map (key_word 8 key) [8 * Suc (i - 1) + 4..<8 * Suc (i - 1) + 4 + 4]"
      by (rule setup_key_256_blocks; use P i in \<open>simp add: s\<close>)+
    then have words: "block_words ?block1 = map (key_word 8 key) [8 * i..<8 * i + 4]"
      "block_words ?block2 = map (key_word 8 key) [8 * i + 4..<8 * i + 4 + 4]" using i by simp_all
    have rd: "round_keys 8 key rd (2 * i)" using P i by (simp add: s)
    have rd1: "round_keys 8 key (rd @ ?block1) (Suc (2 * i))" using rd words by (intro round_keys_add) simp_all
    have "4 * Suc (2 * i) = 8 * i + 4" by simp
    then have rd2: "round_keys 8 key ((rd @ ?block1) @ ?block2) (Suc (Suc (2 * i)))"
      using words by (intro round_keys_add [OF rd1]) (simp_all only: length_key_block)
    show "?P (Suc i) (?f (2 * i) s)"
    proof (cases "i = 7")
      case True
      then show ?thesis using rd1 P by (simp add: s Let_def)
    next
      case False
      then show ?thesis using rd2 words i by (simp add: s Let_def)
    qed
  qed simp
  moreover have "[2, 4, 6, 8, 10, 12, 14] = map (\<lambda>i. 2 * i) [1..<8 :: nat]" by (simp add: upt_rec)
  ultimately show ?thesis
    unfolding aes_nohw_setup_key_256_def Let_def by (simp add: split_beta fold_map comp_def)
qed

lemma setup_key_192_blocks:
  assumes "block_words block1 = map (key_word 6 key) [12 * i..<12 * i + 4]"
    and "block_words block2 = [key_word 6 key (12 * i + 4), key_word 6 key (12 * i + 5), zero4, zero4]" and "i < 4"
  defines "b2 \<equiv> aes_key_first_192 (aes_nohw_rcon ! (2 * i)) (aes_nohw_sub_block block2) block1 block2"
  defines "b1 \<equiv> aes_key_second_192 block1 b2"
  defines "c2 \<equiv> aes_key_third_192 (aes_nohw_rcon ! (2 * i + 1)) (aes_nohw_sub_block b1) b1 b2"
  defines "c1 \<equiv> aes_key_fourth_192 b1 c2"
  shows "block_words b2 = map (key_word 6 key) [12 * i + 4..<12 * i + 4 + 4]"
    and "block_words b1 = map (key_word 6 key) [12 * i + 8..<12 * i + 8 + 4]"
    and "block_words c2 = map (key_word 6 key) [12 * Suc i..<12 * Suc i + 4]"
    and "block_words c1 = [key_word 6 key (12 * Suc i + 4), key_word 6 key (12 * Suc i + 5), zero4, zero4]"
proof -
  let ?w = "\<lambda>k. key_word 6 key (12 * i + k)"
  have block1: "block_words block1 = [?w 0, ?w 1, ?w 2, ?w 3]" using assms(1) by (simp add: block_words_upt)
  have sub: "block_words (aes_nohw_sub_block block2) = [map sub_byte (?w 4), map sub_byte (?w 5), map sub_byte zero4, map sub_byte zero4]"
    by (simp add: sub_block_words assms(2))
  have rc: "aes_nohw_rcon ! (2 * i) = rcon (2 * i + 1)" "aes_nohw_rcon ! (2 * i + 1) = rcon (2 * i + 1 + 1)"
    using assms(3) by (intro rcon_table; simp)+
  have turn: "?w 6 = xor4 (?w 0) (xor4 (rotate1 (map sub_byte (?w 5))) [aes_nohw_rcon ! (2 * i), 0, 0, 0])"
    "?w 12 = xor4 (?w 6) (xor4 (rotate1 (map sub_byte (?w 11))) [aes_nohw_rcon ! (2 * i + 1), 0, 0, 0])"
    using key_word_turn [of 6 key "2 * i"] key_word_turn [of 6 key "2 * i + 1"] unfolding rc
    by (simp_all add: rotate1_map add.commute)
  have "(12 * i) mod 6 = 0" by simp
  note copied = key_word_copy [OF this, of _ key]
  have copy: "?w 7 = xor4 (?w 1) (?w 6)" "?w 8 = xor4 (?w 2) (?w 7)" "?w 9 = xor4 (?w 3) (?w 8)"
      "?w 10 = xor4 (?w 4) (?w 9)" "?w 11 = xor4 (?w 5) (?w 10)" "?w 13 = xor4 (?w 7) (?w 12)" "?w 14 = xor4 (?w 8) (?w 13)"
      "?w 15 = xor4 (?w 9) (?w 14)" "?w 16 = xor4 (?w 10) (?w 15)" "?w 17 = xor4 (?w 11) (?w 16)"
    using copied [of 7] copied [of 8] copied [of 9] copied [of 10] copied [of 11] copied [of 13] copied [of 14]
      copied [of 15] copied [of 16] copied [of 17] by simp_all
  have b2: "block_words b2 = [?w 4, ?w 5, ?w 6, ?w 7]"
    unfolding b2_def key_first_192_words [OF block1 assms(2) sub turn(1)] using copy by simp
  have b1: "block_words b1 = [?w 8, ?w 9, ?w 10, ?w 11]"
    unfolding b1_def key_second_192_words [OF block1 b2 copy(2)] using copy by simp
  have sub1: "block_words (aes_nohw_sub_block b1) = [map sub_byte (?w 8), map sub_byte (?w 9), map sub_byte (?w 10), map sub_byte (?w 11)]"
    by (simp add: sub_block_words b1)
  have c2: "block_words c2 = [?w 12, ?w 13, ?w 14, ?w 15]"
    unfolding c2_def key_third_192_words [OF b1 b2 sub1 turn(2)] using copy by simp
  have c1: "block_words c1 = [?w 16, ?w 17, zero4, zero4]"
    unfolding c1_def key_fourth_192_words [OF b1 c2 copy(9)] using copy by simp
  show "block_words b2 = map (key_word 6 key) [12 * i + 4..<12 * i + 4 + 4]"
    "block_words b1 = map (key_word 6 key) [12 * i + 8..<12 * i + 8 + 4]"
    "block_words c2 = map (key_word 6 key) [12 * Suc i..<12 * Suc i + 4]"
    "block_words c1 = [key_word 6 key (12 * Suc i + 4), key_word 6 key (12 * Suc i + 5), zero4, zero4]"
    unfolding block_words_upt b1 b2 c1 c2 by (simp_all add: add.commute)
qed

lemma setup_key_192_keys:
  assumes "length key = 24"
  shows "round_keys 6 key (rd_key (aes_nohw_setup_key_192 key)) 13"
proof -
  let ?f = "\<lambda>i (block1, block2, rd).
    let sub = aes_nohw_sub_block block2;
        block2 = aes_key_first_192 (aes_nohw_rcon ! (2 * i)) sub block1 block2;
        block1 = aes_key_second_192 block1 block2;
        rd = rd @ block2 @ block1;
        sub = aes_nohw_sub_block block1;
        block2 = aes_key_third_192 (aes_nohw_rcon ! (2 * i + 1)) sub block1 block2;
        block1 = aes_key_fourth_192 block1 block2
    in (block2, block1, rd @ block2)"
  let ?P = "\<lambda>i (block1, block2, rd). block_words block1 = map (key_word 6 key) [12 * i..<12 * i + 4] \<and>
    block_words block2 = [key_word 6 key (12 * i + 4), key_word 6 key (12 * i + 5), zero4, zero4] \<and>
    round_keys 6 key rd (3 * i + 1)"
  let ?b1 = "aes_nohw_compact_block key" and ?b2 = "aes_nohw_compact_block (take 8 (drop 16 key) @ replicate 8 0)"
  have "?P 4 (fold ?f [0..<4] (?b1, ?b2, ?b1))"
  proof (rule fold_upt_invariant [where P = ?P])
    have "block_words ?b2 = [key_word 6 key 4, key_word 6 key 5, zero4, zero4]"
      using assms by (simp add: compact_words key_word_first upt_rec zero4_def numeral_eq_Suc)
    then show "?P 0 (?b1, ?b2, ?b1)" using assms by (simp add: first_words round_keys_first)
    fix i :: nat and s assume i: "i < 4" and P: "?P i s"
    obtain block1 block2 rd where s: "s = (block1, block2, rd)" by (cases s)
    let ?b2 = "aes_key_first_192 (aes_nohw_rcon ! (2 * i)) (aes_nohw_sub_block block2) block1 block2"
    let ?b1 = "aes_key_second_192 block1 ?b2"
    let ?c2 = "aes_key_third_192 (aes_nohw_rcon ! (2 * i + 1)) (aes_nohw_sub_block ?b1) ?b1 ?b2"
    have P': "block_words block1 = map (key_word 6 key) [12 * i..<12 * i + 4]"
      "block_words block2 = [key_word 6 key (12 * i + 4), key_word 6 key (12 * i + 5), zero4, zero4]"
      "round_keys 6 key rd (3 * i + 1)" using P by (simp_all add: s)
    note words = setup_key_192_blocks [OF P'(1,2) i]
    have at: "4 * (3 * i + 1) = 12 * i + 4" "4 * Suc (3 * i + 1) = 12 * i + 8" "4 * Suc (Suc (3 * i + 1)) = 12 * Suc i" by simp_all
    have "round_keys 6 key (((rd @ ?b2) @ ?b1) @ ?c2) (Suc (Suc (Suc (3 * i + 1))))"
      using P'(3) words by (intro round_keys_add) (simp_all only: at length_key_block)
    moreover have "Suc (Suc (Suc (3 * i + 1))) = 3 * Suc i + 1" by simp
    ultimately have "round_keys 6 key (rd @ ?b2 @ ?b1 @ ?c2) (3 * Suc i + 1)" by (simp only: append_assoc)
    then show "?P (Suc i) (?f i s)" unfolding s prod.case Let_def append_assoc using words by blast
  qed simp
  then show ?thesis unfolding aes_nohw_setup_key_192_def Let_def by (simp add: split_beta)
qed

text \<open>A key as \<open>aes_nohw_set_encrypt_key\<close> leaves it.\<close>

definition aes_key_for :: "u8 list \<Rightarrow> aes_key \<Rightarrow> bool" where
  "aes_key_for key k \<longleftrightarrow> key_rounds k = aes_rounds key \<and> round_keys (length key div 4) key (rd_key k) (aes_rounds key + 1)"

lemma set_encrypt_key:
  "aes_nohw_set_encrypt_key key bits = Some k \<longleftrightarrow>
    bits = 128 \<and> k = aes_nohw_setup_key_128 key \<or> bits = 192 \<and> k = aes_nohw_setup_key_192 key \<or>
    bits = 256 \<and> k = aes_nohw_setup_key_256 key"
  by (auto simp: aes_nohw_set_encrypt_key_def)

lemma setup_key_rounds:
  "key_rounds (aes_nohw_setup_key_128 key) = 10" "key_rounds (aes_nohw_setup_key_192 key) = 12"
  "key_rounds (aes_nohw_setup_key_256 key) = 14"
  by (simp_all only: aes_nohw_setup_key_128_def aes_nohw_setup_key_192_def aes_nohw_setup_key_256_def Let_def split_beta
    aes_key.select_convs)

lemma set_encrypt_key_for:
  assumes "aes_nohw_set_encrypt_key key bits = Some k" and "8 * length key = bits"
  shows "aes_key_for key k"
proof -
  from assms consider "length key = 16" "k = aes_nohw_setup_key_128 key" | "length key = 24" "k = aes_nohw_setup_key_192 key"
    | "length key = 32" "k = aes_nohw_setup_key_256 key"
    unfolding set_encrypt_key by fastforce
  then show ?thesis
  proof cases
    case 1
    then show ?thesis using setup_key_128_keys [of key]
      by (simp add: aes_key_for_def aes_rounds_def setup_key_rounds)
  next
    case 2
    then show ?thesis using setup_key_192_keys [of key]
      by (simp add: aes_key_for_def aes_rounds_def setup_key_rounds)
  next
    case 3
    then show ?thesis using setup_key_256_keys [of key]
      by (simp add: aes_key_for_def aes_rounds_def setup_key_rounds)
  qed
qed

lemma block_of_words: "block_of block = concat (block_words block)"
proof -
  have byte: "compact_byte (map (\<lambda>j. xs ! j) [0..<2]) p = compact_byte xs p" for xs p
    by (auto simp: bit_compact_byte upt_rec less_Suc_eq numeral_2_eq_2 elim: less_8E intro!: u8_eqI)
  have "word_at (\<lambda>j. block ! j) = (\<lambda>c. map (\<lambda>r. compact_byte block (4 * c + r)) [0..<4])"
    by (rule ext) (simp only: word_at_def byte)
  moreover have "[0..<16] = concat (map (\<lambda>c. map (\<lambda>r. 4 * c + r) [0..<4]) [0..<4])" by (simp add: upt_conv_Cons)
  ultimately show ?thesis by (simp only: block_of_def block_words_def map_concat map_map comp_def)
qed

lemma length_expand_round_keys [simp]: "length (aes_nohw_expand_round_keys k) = key_rounds k + 1"
  by (simp add: aes_nohw_expand_round_keys_def)

lemma expand_round_keys_block:
  assumes "aes_key_for key k" and "r \<le> aes_rounds key" and "i < 4"
  shows "block_at (aes_nohw_expand_round_keys k ! r) i = round_key key r"
proof -
  let ?tmp = "take 2 (drop (2 * r) (rd_key k))"
  let ?batch = "fold (\<lambda>j batch. aes_nohw_batch_set batch ?tmp j) [0..<4] (replicate 8 0)"
  have keys: "length (rd_key k) = 2 * (aes_rounds key + 1)"
    "block_words ?tmp = map (key_word (length key div 4) key) [4 * r..<4 * r + 4]" "r < key_rounds k + 1"
    using assms(1,2) by (simp_all add: aes_key_for_def round_keys_def)
  have "length ?tmp = 2" using keys(1) assms(2) by simp
  then have batch: "length ?batch = 8" "aes_nohw_batch_get ?batch i = ?tmp"
    using fold_batch_set [of 4 "replicate 8 0" "\<lambda>_. ?tmp"] assms(3) by simp_all
  have "aes_nohw_expand_round_keys k ! r = aes_nohw_transpose ?batch"
    unfolding aes_nohw_expand_round_keys_def Let_def using keys(3) by (subst nth_map_upt) simp_all
  then show ?thesis
    by (simp only: block_at_transpose [OF batch(1) assms(3)] batch(2) block_of_words keys(2) round_key_words)
qed

section \<open>Properties\<close>

text \<open>
  C3: For a key of 128, 192 or 256 bits, the round keys that the bitsliced schedule leaves, expanded for a batch, are in
  each of the four blocks the round keys of FIPS 197, and their number is that of the standard.
\<close>

theorem aes_key_schedule_correct:
  assumes "aes_nohw_set_encrypt_key key bits = Some k" and "8 * length key = bits" and "r \<le> aes_rounds key" and "i < 4"
  shows "key_rounds k = aes_rounds key \<and> length (aes_nohw_expand_round_keys k) = aes_rounds key + 1 \<and>
    block_at (aes_nohw_expand_round_keys k ! r) i = round_key key r"
  using set_encrypt_key_for [OF assms(1,2)] expand_round_keys_block [OF set_encrypt_key_for [OF assms(1,2)] assms(3,4)]
  by (simp add: aes_key_for_def)

theorem aes_key_schedule_correct_witness:
  "block_at (aes_nohw_expand_round_keys (aes_nohw_setup_key_192 (replicate 24 7)) ! 12) 3 = round_key (replicate 24 7) 12"
  using aes_key_schedule_correct [of "replicate 24 7" 192 "aes_nohw_setup_key_192 (replicate 24 7)" 12 3]
  by (simp add: set_encrypt_key aes_rounds_def)

end
