(* ===== verification/Aes_Block.thy ===== *)
theory Aes_Block
  imports Aes_Key Ctr_Mode Cbc
begin

text \<open>
  The operations of the bitsliced AES (\<open>crypto/fipsmodule/aes/aes_nohw.c\<close>): one block, a run of blocks in counter
  mode, and CBC in batches of four blocks. They are the cipher of the standard and its modes of operation.
\<close>

section \<open>The code\<close>

definition aes_nohw_encrypt :: "u8 list \<Rightarrow> aes_key \<Rightarrow> u8 list" where
  "aes_nohw_encrypt inp key =
     (let sched = aes_nohw_expand_round_keys key;
          batch = aes_nohw_to_batch inp 1;
          batch = aes_nohw_encrypt_batch sched (key_rounds key) batch
      in aes_nohw_from_batch 1 batch)"

definition aes_nohw_decrypt :: "u8 list \<Rightarrow> aes_key \<Rightarrow> u8 list" where
  "aes_nohw_decrypt inp key =
     (let sched = aes_nohw_expand_round_keys key;
          batch = aes_nohw_to_batch inp 1;
          batch = aes_nohw_decrypt_batch sched (key_rounds key) batch
      in aes_nohw_from_batch 1 batch)"

definition aes_nohw_xor_block :: "u8 list \<Rightarrow> u8 list \<Rightarrow> u8 list" where
  "aes_nohw_xor_block a b =
     concat (map (\<lambda>i. let x = CRYPTO_load_word_le (drop i a);
                          y = CRYPTO_load_word_le (drop i b);
                          x = aes_nohw_xor x y
                      in CRYPTO_store_word_le x) [0, 8])"

text \<open>Block \<open>i\<close> of a buffer; the counter in the last word of each of the four blocks of \<open>ivs\<close>.\<close>

definition block_in :: "u8 list \<Rightarrow> nat \<Rightarrow> u8 list" where
  "block_in bs i = take 16 (drop (16 * i) bs)"

definition ctr32_update :: "u32 \<Rightarrow> u8 list \<Rightarrow> u8 list" where
  "ctr32_update ctr ivs =
     fold (\<lambda>i ivs. take (16 * i + 12) ivs @ u32_bytes (CRYPTO_bswap4 (ctr + word_of_nat i)) @ drop (16 * i + 16) ivs) [0..<4] ivs"

function aes_nohw_ctr32_loop :: "aes_word list list \<Rightarrow> nat \<Rightarrow> u8 list \<Rightarrow> nat \<Rightarrow> u8 list \<Rightarrow> u32 \<Rightarrow> u8 list" where
  "aes_nohw_ctr32_loop sched num_rounds inp blocks ivs ctr =
     (let ivs = ctr32_update ctr ivs;
          todo = (if blocks \<ge> 4 then 4 else blocks);
          batch = aes_nohw_to_batch ivs todo;
          batch = aes_nohw_encrypt_batch sched num_rounds batch;
          enc_ivs = aes_nohw_from_batch todo batch;
          out = concat (map (\<lambda>i. aes_nohw_xor_block (block_in inp i) (block_in enc_ivs i)) [0..<todo]);
          blocks = blocks - todo
      in if blocks = 0 then out
         else out @ aes_nohw_ctr32_loop sched num_rounds (drop (16 * 4) inp) blocks ivs (ctr + 4))"
  by pat_completeness auto
termination by (relation "measure (\<lambda>(sched, num_rounds, inp, blocks, ivs, ctr). blocks)") (auto split: if_splits)

definition aes_nohw_ctr32_encrypt_blocks :: "aes_key \<Rightarrow> u8 list \<Rightarrow> nat \<Rightarrow> u8 list \<Rightarrow> u8 list" where
  "aes_nohw_ctr32_encrypt_blocks key inp blocks ivec =
     (if blocks = 0 then []
      else
        let sched = aes_nohw_expand_round_keys key;
            ivs = concat (replicate 4 (take 16 ivec));
            ctr = CRYPTO_bswap4 (u32_of_bytes (take 4 (drop 12 ivs)))
        in aes_nohw_ctr32_loop sched (key_rounds key) inp blocks ivs ctr)"

text \<open>
  CBC over \<open>len\<close> bytes, a multiple of 16; returned are the text and the vector left in \<open>ivec\<close>. The buffers \<open>inp\<close> and
  \<open>out\<close> of the code are apart or the same: a batch is copied before it is overwritten.
\<close>

fun aes_nohw_cbc_encrypt_loop :: "aes_word list list \<Rightarrow> nat \<Rightarrow> u8 list \<Rightarrow> nat \<Rightarrow> u8 list \<Rightarrow> u8 list \<times> u8 list" where
  "aes_nohw_cbc_encrypt_loop sched num_rounds inp 0 iv = ([], iv)"
| "aes_nohw_cbc_encrypt_loop sched num_rounds inp (Suc blocks) iv =
     (let iv = aes_nohw_xor_block iv inp;
          batch = aes_nohw_to_batch iv 1;
          batch = aes_nohw_encrypt_batch sched num_rounds batch;
          out = aes_nohw_from_batch 1 batch;
          iv = out
      in case aes_nohw_cbc_encrypt_loop sched num_rounds (drop 16 inp) blocks iv of (rest, iv) \<Rightarrow> (out @ rest, iv))"

function aes_nohw_cbc_decrypt_loop :: "aes_word list list \<Rightarrow> nat \<Rightarrow> u8 list \<Rightarrow> nat \<Rightarrow> u8 list \<Rightarrow> u8 list \<times> u8 list" where
  "aes_nohw_cbc_decrypt_loop sched num_rounds inp blocks iv =
     (let todo = (if blocks \<ge> 4 then 4 else blocks);
          copy = take (todo * 16) inp;
          batch = aes_nohw_to_batch inp todo;
          batch = aes_nohw_decrypt_batch sched num_rounds batch;
          out = aes_nohw_from_batch todo batch;
          out = aes_nohw_xor_block (block_in out 0) iv @
                concat (map (\<lambda>i. aes_nohw_xor_block (block_in out i) (block_in copy (i - 1))) [1..<todo]);
          iv = block_in copy (todo - 1);
          blocks = blocks - todo
      in if blocks = 0 then (out, iv)
         else case aes_nohw_cbc_decrypt_loop sched num_rounds (drop (16 * 4) inp) blocks iv of (rest, iv) \<Rightarrow> (out @ rest, iv))"
  by pat_completeness auto
termination by (relation "measure (\<lambda>(sched, num_rounds, inp, blocks, iv). blocks)") (auto split: if_splits)

declare aes_nohw_ctr32_loop.simps [simp del] aes_nohw_cbc_decrypt_loop.simps [simp del]

definition aes_nohw_cbc_encrypt :: "aes_key \<Rightarrow> bool \<Rightarrow> u8 list \<Rightarrow> u8 list \<Rightarrow> u8 list \<times> u8 list" where
  "aes_nohw_cbc_encrypt key enc ivec inp =
     (let blocks = length inp div 16
      in if blocks = 0 then ([], ivec)
         else
           let sched = aes_nohw_expand_round_keys key;
               iv = take 16 ivec
           in if enc then aes_nohw_cbc_encrypt_loop sched (key_rounds key) inp blocks iv
              else aes_nohw_cbc_decrypt_loop sched (key_rounds key) inp blocks iv)"

section \<open>Rounds\<close>

lemma length_steps [simp]:
  "length (sub_bytes s) = length s" "length (shift_rows s) = 16" "length (mix_columns s) = 16"
  "length (add_round_key k s) = min (length s) (length k)"
  "length (inv_sub_bytes s) = length s" "length (inv_shift_rows s) = 16" "length (inv_mix_columns s) = 16"
  by (simp_all add: sub_bytes_def shift_rows_def mix_columns_def add_round_key_def inv_sub_bytes_def inv_shift_rows_def
    inv_mix_columns_def)

lemma length_round_key [simp]:
  assumes "length key \<in> {16, 24, 32}"
  shows "length (round_key key r) = 16"
proof -
  have "length (key_word n key i) = 4" if "0 < n" "4 * n = length key" for n i
  proof (induction i rule: less_induct)
    case (less i)
    show ?case
    proof (cases "i < n")
      case False
      with that less show ?thesis by (simp add: key_word_next Let_def)
    qed (use that in \<open>simp add: key_word_first\<close>)
  qed
  then have "length (key_word (length key div 4) key i) = 4" for i using assms by auto
  then show ?thesis by (simp add: round_key_words upt_4)
qed

lemma fold_blocks:
  assumes "\<And>i b. i \<in> set xs \<Longrightarrow> length b = 8 \<Longrightarrow> length (f i b) = 8 \<and> block_at (f i b) k = g i (block_at b k)" and "length b = 8"
  shows "length (fold f xs b) = 8 \<and> block_at (fold f xs b) k = fold g xs (block_at b k)"
  using assms by (induction xs arbitrary: b) auto

lemma encrypt_batch_block:
  assumes "length batch = 8" and "k < 4"
  shows "length (aes_nohw_encrypt_batch keys num_rounds batch) = 8"
    and "block_at (aes_nohw_encrypt_batch keys num_rounds batch) k =
      cipher_with num_rounds (\<lambda>i. block_at (keys ! i) k) (block_at batch k)"
proof -
  let ?f = "\<lambda>i batch. aes_nohw_add_round_key (aes_nohw_mix_columns (aes_nohw_shift_rows (aes_nohw_sub_bytes batch))) (keys ! i)"
  let ?g = "\<lambda>i s. add_round_key (block_at (keys ! i) k) (mix_columns (shift_rows (sub_bytes s)))"
  let ?b = "aes_nohw_add_round_key batch (keys ! 0)"
  have "length (fold ?f [1..<num_rounds] ?b) = 8 \<and> block_at (fold ?f [1..<num_rounds] ?b) k = fold ?g [1..<num_rounds] (block_at ?b k)"
    by (rule fold_blocks)
      (simp_all add: block_add_round_key block_mix_columns block_shift_rows block_sub_bytes assms(2))
  then show "length (aes_nohw_encrypt_batch keys num_rounds batch) = 8"
    "block_at (aes_nohw_encrypt_batch keys num_rounds batch) k =
      cipher_with num_rounds (\<lambda>i. block_at (keys ! i) k) (block_at batch k)"
    by (simp_all add: aes_nohw_encrypt_batch_def Let_def cipher_with_def block_add_round_key block_shift_rows block_sub_bytes assms(2))
qed

lemma length_inv_sub_bytes_batch [simp]: "length (aes_nohw_inv_sub_bytes batch) = 8"
  by (simp add: aes_nohw_inv_sub_bytes_def)

lemma decrypt_batch_block:
  assumes "length batch = 8" and "k < 4"
  shows "length (aes_nohw_decrypt_batch keys num_rounds batch) = 8"
    and "block_at (aes_nohw_decrypt_batch keys num_rounds batch) k =
      inv_cipher_with num_rounds (\<lambda>i. block_at (keys ! i) k) (block_at batch k)"
proof -
  let ?f = "\<lambda>i batch. aes_nohw_inv_sub_bytes (aes_nohw_inv_shift_rows (aes_nohw_inv_mix_columns (aes_nohw_add_round_key batch (keys ! i))))"
  let ?g = "\<lambda>i s. inv_sub_bytes (inv_shift_rows (inv_mix_columns (add_round_key (block_at (keys ! i) k) s)))"
  let ?b = "aes_nohw_inv_sub_bytes (aes_nohw_inv_shift_rows (aes_nohw_add_round_key batch (keys ! num_rounds)))"
  have "length (fold ?f (rev [1..<num_rounds]) ?b) = 8 \<and>
      block_at (fold ?f (rev [1..<num_rounds]) ?b) k = fold ?g (rev [1..<num_rounds]) (block_at ?b k)"
    by (rule fold_blocks)
      (simp_all add: block_add_round_key block_inv_mix_columns block_shift_rows block_inv_sub_bytes assms(2))
  then show "length (aes_nohw_decrypt_batch keys num_rounds batch) = 8"
    "block_at (aes_nohw_decrypt_batch keys num_rounds batch) k =
      inv_cipher_with num_rounds (\<lambda>i. block_at (keys ! i) k) (block_at batch k)"
    by (simp_all add: aes_nohw_decrypt_batch_def Let_def inv_cipher_with_def block_add_round_key block_shift_rows
      block_inv_sub_bytes assms(2))
qed

section \<open>The inverse cipher\<close>

lemma list_16: "length s = 16 \<Longrightarrow> s = map ((!) s) [0, 1, 2, 3, 4, 5, 6, 7, 8, 9, 10, 11, 12, 13, 14, 15]"
proof -
  have "[0..<16] = [0, 1, 2, 3, 4, 5, 6, 7, 8, 9, 10, 11, 12, 13, 14, 15 :: nat]" by (simp add: upt_conv_Cons)
  then show "length s = 16 \<Longrightarrow> ?thesis" using map_nth [of s] by simp
qed

lemma inv_shift_shift: "length s = 16 \<Longrightarrow> inv_shift_rows (shift_rows s) = s"
proof -
  assume len: "length s = 16"
  have "shift_rows s = map ((!) s) [0, 5, 10, 15, 4, 9, 14, 3, 8, 13, 2, 7, 12, 1, 6, 11]"
    by (simp add: shift_rows_def upt_conv_Cons)
  then have "inv_shift_rows (shift_rows s) = map ((!) s) [0, 1, 2, 3, 4, 5, 6, 7, 8, 9, 10, 11, 12, 13, 14, 15]"
    by (simp add: inv_shift_rows_def upt_conv_Cons)
  with list_16 [OF len] show ?thesis by simp
qed

lemma inv_sub_sub: "inv_sub_bytes (sub_bytes s) = s"
  by (simp add: inv_sub_bytes_def sub_bytes_def comp_def inv_sub_byte_sub_byte)

lemma add_round_key_twice: "length s = length k \<Longrightarrow> add_round_key k (add_round_key k s) = s"
  by (rule nth_equalityI) (simp_all add: add_round_key_def xor.assoc)

lemma fold_undo:
  assumes "\<And>i s. i \<in> set xs \<Longrightarrow> P s \<Longrightarrow> P (f i s) \<and> g i (f i s) = s" and "P s"
  shows "P (fold f xs s) \<and> fold g (rev xs) (fold f xs s) = s"
  using assms by (induction xs arbitrary: s) auto

lemma inv_cipher_cipher:
  assumes "\<And>i. length (rk i) = 16" and "length s = 16"
  shows "inv_cipher_with num_rounds rk (cipher_with num_rounds rk s) = s" and "length (cipher_with num_rounds rk s) = 16"
proof -
  let ?SB = "\<lambda>s. shift_rows (sub_bytes s)" and ?IB = "\<lambda>s. inv_sub_bytes (inv_shift_rows s)"
  let ?f = "\<lambda>i s. add_round_key (rk i) (mix_columns (?SB s))"
  let ?g = "\<lambda>i s. inv_mix_columns (add_round_key (rk i) s)"
  let ?h = "\<lambda>i s. ?IB (?g i s)"
  let ?s0 = "add_round_key (rk 0) s"
  have IB: "?IB (?SB s) = s" if "length s = 16" for s using that by (simp add: inv_shift_shift inv_sub_sub)
  have "length (fold ?f [1..<num_rounds] ?s0) = 16 \<and>
      fold ?h (rev [1..<num_rounds]) (fold ?f [1..<num_rounds] ?s0) = ?s0"
    by (rule fold_undo) (use assms in \<open>simp_all add: add_round_key_twice inv_mix_mix IB\<close>)
  then show "inv_cipher_with num_rounds rk (cipher_with num_rounds rk s) = s" "length (cipher_with num_rounds rk s) = 16"
    using assms by (simp_all add: inv_cipher_with_def cipher_with_def add_round_key_twice IB)
qed

lemma aes_inv_aes:
  assumes "length key \<in> {16, 24, 32}" and "length b = 16"
  shows "aes_inv key (aes key b) = b"
  unfolding aes_def aes_inv_def by (rule inv_cipher_cipher) (use assms in simp_all)

lemma aes_block_cipher: "length key \<in> {16, 24, 32} \<Longrightarrow> is_block_cipher (aes key)"
  unfolding is_block_cipher_def aes_def by (auto intro!: inv_cipher_cipher)

lemma length_inv_cipher:
  assumes "\<And>i. length (rk i) = 16" and "length s = 16"
  shows "length (inv_cipher_with num_rounds rk s) = 16"
proof -
  have "length (fold (\<lambda>i s. inv_sub_bytes (inv_shift_rows (inv_mix_columns (add_round_key (rk i) s)))) xs s) = 16"
    if "length s = 16" for xs s using that by (induction xs arbitrary: s) simp_all
  then show ?thesis using assms by (simp add: inv_cipher_with_def)
qed

lemma aes_inv_block_cipher: "length key \<in> {16, 24, 32} \<Longrightarrow> is_block_cipher (aes_inv key)"
  unfolding is_block_cipher_def aes_inv_def by (auto intro!: length_inv_cipher)

section \<open>Runs of blocks\<close>

lemma cipher_cong:
  assumes "\<And>i. i \<le> n \<Longrightarrow> rk i = rk' i" and "s = s'"
  shows "cipher_with n rk s = cipher_with n rk' s'" and "inv_cipher_with n rk s = inv_cipher_with n rk' s'"
proof -
  have f: "fold (\<lambda>i s. add_round_key (rk i) (mix_columns (shift_rows (sub_bytes s)))) [1..<n] x =
      fold (\<lambda>i s. add_round_key (rk' i) (mix_columns (shift_rows (sub_bytes s)))) [1..<n] x" for x
    by (rule fold_cong) (simp_all add: assms(1))
  have g: "fold (\<lambda>i s. inv_sub_bytes (inv_shift_rows (inv_mix_columns (add_round_key (rk i) s)))) (rev [1..<n]) x =
      fold (\<lambda>i s. inv_sub_bytes (inv_shift_rows (inv_mix_columns (add_round_key (rk' i) s)))) (rev [1..<n]) x" for x
    by (rule fold_cong) (simp_all add: assms(1))
  show "cipher_with n rk s = cipher_with n rk' s'" "inv_cipher_with n rk s = inv_cipher_with n rk' s'"
    by (simp_all only: cipher_with_def inv_cipher_with_def f g assms(1) [OF order.refl] assms(1) [OF le0] assms(2))
qed

lemma length_block_in [simp]: "16 * i + 16 \<le> length bs \<Longrightarrow> length (block_in bs i) = 16"
  by (simp add: block_in_def)

text \<open>A batch of \<open>n\<close> blocks through the cipher.\<close>

lemma batch_encrypt:
  assumes "aes_key_for key k" and "n \<le> 4" and "16 * n \<le> length inp"
  shows "aes_nohw_from_batch n (aes_nohw_encrypt_batch (aes_nohw_expand_round_keys k) (key_rounds k) (aes_nohw_to_batch inp n)) =
    concat (map (\<lambda>i. aes key (block_in inp i)) [0..<n])"
proof -
  let ?b = "aes_nohw_to_batch inp n"
  have rounds: "key_rounds k = aes_rounds key" using assms(1) by (simp add: aes_key_for_def)
  have len: "length ?b = 8" using assms(2) by (rule length_to_batch)
  have "block_at (aes_nohw_encrypt_batch (aes_nohw_expand_round_keys k) (key_rounds k) ?b) i = aes key (block_in inp i)"
    if i: "i < n" for i
  proof -
    have "i < 4" using i assms(2) by simp
    then show ?thesis
      using expand_round_keys_block [OF assms(1)] i
      by (simp add: encrypt_batch_block(2) [OF len] rounds aes_def to_batch_block [OF assms(2,3) i] block_in_def
        cong: cipher_cong(1))
  qed
  then have "map (block_at (aes_nohw_encrypt_batch (aes_nohw_expand_round_keys k) (key_rounds k) ?b)) [0..<n] =
      map (\<lambda>i. aes key (block_in inp i)) [0..<n]" by (intro map_cong) simp_all
  moreover have "length (aes_nohw_encrypt_batch (aes_nohw_expand_round_keys k) (key_rounds k) ?b) = 8"
    using encrypt_batch_block(1) [OF len, of 0] by simp
  ultimately show ?thesis using assms(2) by (simp only: from_batch_blocks)
qed

lemma batch_decrypt:
  assumes "aes_key_for key k" and "n \<le> 4" and "16 * n \<le> length inp"
  shows "aes_nohw_from_batch n (aes_nohw_decrypt_batch (aes_nohw_expand_round_keys k) (key_rounds k) (aes_nohw_to_batch inp n)) =
    concat (map (\<lambda>i. aes_inv key (block_in inp i)) [0..<n])"
proof -
  let ?b = "aes_nohw_to_batch inp n"
  have rounds: "key_rounds k = aes_rounds key" using assms(1) by (simp add: aes_key_for_def)
  have len: "length ?b = 8" using assms(2) by (rule length_to_batch)
  have "block_at (aes_nohw_decrypt_batch (aes_nohw_expand_round_keys k) (key_rounds k) ?b) i = aes_inv key (block_in inp i)"
    if i: "i < n" for i
  proof -
    have "i < 4" using i assms(2) by simp
    then show ?thesis
      using expand_round_keys_block [OF assms(1)] i
      by (simp add: decrypt_batch_block(2) [OF len] rounds aes_inv_def to_batch_block [OF assms(2,3) i] block_in_def
        cong: cipher_cong(2))
  qed
  then have "map (block_at (aes_nohw_decrypt_batch (aes_nohw_expand_round_keys k) (key_rounds k) ?b)) [0..<n] =
      map (\<lambda>i. aes_inv key (block_in inp i)) [0..<n]" by (intro map_cong) simp_all
  moreover have "length (aes_nohw_decrypt_batch (aes_nohw_expand_round_keys k) (key_rounds k) ?b) = 8"
    using decrypt_batch_block(1) [OF len, of 0] by simp
  ultimately show ?thesis using assms(2) by (simp only: from_batch_blocks)
qed

lemma aes_nohw_block:
  assumes "aes_key_for key k" and "length inp = 16"
  shows "aes_nohw_encrypt inp k = aes key inp" and "aes_nohw_decrypt inp k = aes_inv key inp"
  using batch_encrypt [OF assms(1), of 1 inp] batch_decrypt [OF assms(1), of 1 inp] assms(2)
  by (simp_all add: aes_nohw_encrypt_def aes_nohw_decrypt_def Let_def block_in_def)

lemma aes_xor_block:
  assumes "16 \<le> length a" and "16 \<le> length b"
  shows "aes_nohw_xor_block a b = map2 (XOR) (take 16 a) (take 16 b)"
proof -
  have split: "take 16 xs = take 8 xs @ take 8 (drop 8 xs)" for xs :: "u8 list" using take_add [of 8 8 xs] by simp
  have "length (take 8 a) = length (take 8 b)" using assms by simp
  then show ?thesis
    using assms by (simp add: aes_nohw_xor_block_def aes_nohw_xor_def Let_def store_xor_words split)
qed

section \<open>Counter mode\<close>

lemma block_in_write:
  assumes "length ivs = 64" and "n < 4" and "j < 4" and "length w = 4"
  shows "block_in (take (16 * n + 12) ivs @ w @ drop (16 * n + 16) ivs) j =
    (if j = n then take 12 (block_in ivs n) @ w else block_in ivs j)"
proof (rule nth_equalityI)
  have len: "length (block_in (take (16 * n + 12) ivs @ w @ drop (16 * n + 16) ivs) j) = 16"
    using assms by (intro length_block_in) simp
  then show "length (block_in (take (16 * n + 12) ivs @ w @ drop (16 * n + 16) ivs) j) =
      length (if j = n then take 12 (block_in ivs n) @ w else block_in ivs j)"
    using assms by (simp add: block_in_def [of ivs])
  fix i assume "i < length (block_in (take (16 * n + 12) ivs @ w @ drop (16 * n + 16) ivs) j)"
  then have i: "i < 16" by (simp only: len)
  have "j = n \<or> 16 * j + i < 16 * n + 12 \<or> 16 * n + 16 \<le> 16 * j + i" using i by linarith
  then show "block_in (take (16 * n + 12) ivs @ w @ drop (16 * n + 16) ivs) j ! i =
      (if j = n then take 12 (block_in ivs n) @ w else block_in ivs j) ! i"
    using i assms by (auto simp: block_in_def nth_append)
qed

lemma ctr32_update_blocks:
  assumes "length ivs = 64" and "\<And>j. j < 4 \<Longrightarrow> take 12 (block_in ivs j) = p"
  shows "length (ctr32_update ctr ivs) = 64"
    and "j < 4 \<Longrightarrow> block_in (ctr32_update ctr ivs) j = p @ CRYPTO_store_u32_be (ctr + word_of_nat j)"
proof -
  let ?f = "\<lambda>i ivs. take (16 * i + 12) ivs @ u32_bytes (CRYPTO_bswap4 (ctr + word_of_nat i)) @ drop (16 * i + 16) ivs"
  let ?P = "\<lambda>n ivs. length ivs = 64 \<and> (\<forall>j < 4. take 12 (block_in ivs j) = p) \<and>
    (\<forall>j < n. block_in ivs j = p @ CRYPTO_store_u32_be (ctr + word_of_nat j))"
  have p: "length p = 12" using assms(1) assms(2) [of 0] by (auto simp: block_in_def)
  have "?P 4 (fold ?f [0..<4] ivs)"
  proof (rule fold_upt_invariant [where P = ?P])
    fix i :: nat and ivs assume i: "i < 4" and P: "?P i ivs"
    have "block_in (?f i ivs) j = (if j = i then take 12 (block_in ivs i) @ u32_bytes (CRYPTO_bswap4 (ctr + word_of_nat i))
        else block_in ivs j)" if "j < 4" for j
      using P i that by (intro block_in_write) simp_all
    then show "?P (Suc i) (?f i ivs)" using P i p by (auto simp: CRYPTO_store_u32_be_def less_Suc_eq)
  qed (use assms in simp_all)
  then show "length (ctr32_update ctr ivs) = 64"
    and "j < 4 \<Longrightarrow> block_in (ctr32_update ctr ivs) j = p @ CRYPTO_store_u32_be (ctr + word_of_nat j)"
    by (simp_all add: ctr32_update_def)
qed

lemma block_in_concat:
  assumes "\<And>i. i < n \<Longrightarrow> length (f i) = 16" and "i < n"
  shows "block_in (concat (map f [0..<n])) i = f i"
  using assms
proof (induction n)
  case (Suc n)
  have "length (concat (map f [0..<n])) = 16 * n" using Suc.prems(1) by (induction n) simp_all
  with Suc show ?case by (cases "i = n") (simp_all add: block_in_def)
qed simp

lemma block_in_drop: "block_in (drop (16 * k) bs) i = block_in bs (k + i)"
  by (simp add: block_in_def algebra_simps)

lemma ctr32_loop:
  assumes "aes_key_for key k" and "length key \<in> {16, 24, 32}" and "0 < blocks" and "16 * blocks \<le> length inp"
    and "length ivs = 64" and "\<And>j. j < 4 \<Longrightarrow> take 12 (block_in ivs j) = p"
  shows "aes_nohw_ctr32_loop (aes_nohw_expand_round_keys k) (key_rounds k) inp blocks ivs ctr =
    concat (map (\<lambda>i. map2 (XOR) (block_in inp i) (aes key (p @ CRYPTO_store_u32_be (ctr + word_of_nat i)))) [0..<blocks])"
  using assms(3-6)
proof (induction blocks arbitrary: inp ivs ctr rule: less_induct)
  case (less blocks)
  define todo where "todo = (if blocks \<ge> 4 then 4 else blocks)"
  let ?ivs = "ctr32_update ctr ivs"
  let ?E = "\<lambda>i. aes key (p @ CRYPTO_store_u32_be (ctr + word_of_nat i))"
  have todo: "todo \<le> 4" "todo \<le> blocks" "0 < todo" using less.prems(1) by (simp_all add: todo_def)
  note upd = ctr32_update_blocks [OF less.prems(3,4)]
  have p: "length p = 12" using less.prems(3) less.prems(4) [of 0] by (auto simp: block_in_def)
  have E: "length (?E i) = 16" for i
    using block_length [OF aes_block_cipher [OF assms(2)]] p by (simp add: CRYPTO_store_u32_be_def)
  have "aes_nohw_from_batch todo (aes_nohw_encrypt_batch (aes_nohw_expand_round_keys k) (key_rounds k) (aes_nohw_to_batch ?ivs todo)) =
      concat (map (\<lambda>i. aes key (block_in ?ivs i)) [0..<todo])"
    by (rule batch_encrypt [OF assms(1) todo(1)]) (use todo(1) upd(1) in simp)
  also have "\<dots> = concat (map ?E [0..<todo])"
    using todo(1) upd(2) by (intro arg_cong [where f = concat] map_cong) simp_all
  finally have enc: "aes_nohw_from_batch todo (aes_nohw_encrypt_batch (aes_nohw_expand_round_keys k) (key_rounds k)
      (aes_nohw_to_batch ?ivs todo)) = concat (map ?E [0..<todo])" .
  have blk: "aes_nohw_xor_block (block_in inp i) (block_in (concat (map ?E [0..<todo])) i) = map2 (XOR) (block_in inp i) (?E i)"
    if "i < todo" for i
  proof -
    have "length (block_in inp i) = 16" using that todo(2) less.prems(2) by (intro length_block_in) linarith
    then show ?thesis using that E by (simp only: block_in_concat) (simp add: aes_xor_block)
  qed
  have out: "concat (map (\<lambda>i. aes_nohw_xor_block (block_in inp i) (block_in (concat (map ?E [0..<todo])) i)) [0..<todo]) =
      concat (map (\<lambda>i. map2 (XOR) (block_in inp i) (?E i)) [0..<todo])"
    using blk by (intro arg_cong [where f = concat] map_cong) simp_all
  have unfold: "aes_nohw_ctr32_loop (aes_nohw_expand_round_keys k) (key_rounds k) inp blocks ivs ctr =
      (let out = concat (map (\<lambda>i. map2 (XOR) (block_in inp i) (?E i)) [0..<todo])
       in if blocks - todo = 0 then out else out @ aes_nohw_ctr32_loop (aes_nohw_expand_round_keys k) (key_rounds k)
            (drop (16 * 4) inp) (blocks - todo) ?ivs (ctr + 4))"
    by (subst aes_nohw_ctr32_loop.simps) (simp only: Let_def todo_def [symmetric] enc out)
  show ?case
  proof (cases "blocks \<le> 4")
    case True
    then have "todo = blocks" by (simp add: todo_def)
    then show ?thesis unfolding unfold by simp
  next
    case False
    then have four: "todo = 4" by (simp add: todo_def)
    have "aes_nohw_ctr32_loop (aes_nohw_expand_round_keys k) (key_rounds k) (drop (16 * 4) inp) (blocks - 4) ?ivs (ctr + 4) =
        concat (map (\<lambda>i. map2 (XOR) (block_in (drop (16 * 4) inp) i) (aes key (p @ CRYPTO_store_u32_be (ctr + 4 + word_of_nat i))))
          [0..<blocks - 4])"
      by (rule less.IH) (use False less.prems upd p in \<open>simp_all\<close>)
    also have "\<dots> = concat (map (\<lambda>i. map2 (XOR) (block_in inp i) (?E i)) [4..<blocks])"
    proof -
      have "[4..<blocks] = map (\<lambda>i. i + 4) [0..<blocks - 4]" using map_add_upt [of 4 "blocks - 4"] False by simp
      then show ?thesis unfolding block_in_drop by (simp add: comp_def add.commute add.left_commute)
    qed
    finally have rest: "aes_nohw_ctr32_loop (aes_nohw_expand_round_keys k) (key_rounds k) (drop (16 * 4) inp) (blocks - 4) ?ivs (ctr + 4) =
        concat (map (\<lambda>i. map2 (XOR) (block_in inp i) (?E i)) [4..<blocks])" .
    have "[0..<blocks] = [0..<4] @ [4..<blocks]" using False upt_add_eq_append [of 0 4 "blocks - 4"] by simp
    moreover have "blocks - 4 \<noteq> 0" using False by simp
    ultimately show ?thesis unfolding unfold by (simp only: Let_def four rest if_False map_append concat_append)
  qed
qed

lemma block_in_replicate:
  assumes "length b = 16" and "j < 4"
  shows "block_in (concat (replicate 4 b)) j = b"
proof -
  have "replicate 4 b = map (\<lambda>_. b) [0..<4 :: nat]" by (simp add: map_replicate_trivial map_replicate_const)
  then show ?thesis using assms by (simp only: block_in_concat)
qed

text \<open>The run of blocks that \<open>CRYPTO_ctr128_encrypt_ctr32\<close> asks for.\<close>

lemma aes_ctr32_blocks:
  assumes "aes_key_for key k" and "length key \<in> {16, 24, 32}" and "16 * blocks \<le> length inp" and "length ivec = 16"
  shows "aes_nohw_ctr32_encrypt_blocks k inp blocks ivec = ctr32_of (aes key) inp blocks ivec"
proof (cases "blocks = 0")
  case False
  let ?ivs = "concat (replicate 4 ivec)"
  have len: "length ?ivs = 64" using assms(4) by (simp add: numeral_eq_Suc)
  have "drop 12 ?ivs = drop 12 ivec @ concat (replicate 3 ivec)" using assms(4) by (simp add: numeral_eq_Suc)
  then have ctr: "take 4 (drop 12 ?ivs) = drop 12 ivec" using assms(4) by simp
  have "aes_nohw_ctr32_encrypt_blocks k inp blocks ivec =
      aes_nohw_ctr32_loop (aes_nohw_expand_round_keys k) (key_rounds k) inp blocks ?ivs (CRYPTO_load_u32_be (drop 12 ivec))"
    using False assms(4) unfolding aes_nohw_ctr32_encrypt_blocks_def Let_def by (simp only: if_False take_all order.refl ctr)
      (simp add: CRYPTO_load_u32_be_def)
  also have "\<dots> = ctr32_of (aes key) inp blocks ivec"
    unfolding ctr32_of_def block_in_def [symmetric] using False len assms(4)
    by (subst ctr32_loop [OF assms(1,2) _ assms(3), of _ "take 12 ivec"]) (simp_all add: block_in_replicate)
  finally show ?thesis .
qed (simp add: aes_nohw_ctr32_encrypt_blocks_def ctr32_of_def)

section \<open>CBC\<close>

lemma cbc_encrypt_loop:
  assumes "aes_key_for key k" and "length key \<in> {16, 24, 32}"
  shows "length inp = 16 * blocks \<Longrightarrow> length iv = 16 \<Longrightarrow>
    aes_nohw_cbc_encrypt_loop (aes_nohw_expand_round_keys k) (key_rounds k) inp blocks iv =
      (cbc_enc (aes key) iv inp, last_block iv (cbc_enc (aes key) iv inp))"
proof (induction blocks arbitrary: inp iv)
  case 0
  then show ?case by (simp add: cbc_enc.simps last_block_def)
next
  case (Suc blocks)
  let ?c = "aes key (map2 (XOR) (take 16 inp) iv)"
  let ?rest = "cbc_enc (aes key) ?c (drop 16 inp)"
  have xor: "aes_nohw_xor_block iv inp = map2 (XOR) (take 16 inp) iv"
    using Suc.prems by (simp add: aes_xor_block) (rule nth_equalityI; simp add: xor.commute)
  have len: "length (map2 (XOR) (take 16 inp) iv) = 16" using Suc.prems by simp
  have c: "length ?c = 16" by (rule block_length [OF aes_block_cipher [OF assms(2)] len])
  have one: "aes_nohw_from_batch 1 (aes_nohw_encrypt_batch (aes_nohw_expand_round_keys k) (key_rounds k)
      (aes_nohw_to_batch (aes_nohw_xor_block iv inp) 1)) = ?c"
    unfolding xor using aes_nohw_block(1) [OF assms(1) len] by (simp add: aes_nohw_encrypt_def)
  have enc: "cbc_enc (aes key) iv inp = ?c @ ?rest"
    using Suc.prems by (subst cbc_enc.simps) (simp add: Let_def)
  have IH: "aes_nohw_cbc_encrypt_loop (aes_nohw_expand_round_keys k) (key_rounds k) (drop 16 inp) blocks ?c =
      (?rest, last_block ?c ?rest)"
    by (rule Suc.IH) (use Suc.prems c in simp_all)
  have "length ?rest = 16 * blocks"
    using Suc.prems c by (subst length_cbc_enc [OF aes_block_cipher [OF assms(2)]]) simp_all
  then have last: "last_block iv (?c @ ?rest) = last_block ?c ?rest"
    using c by (cases blocks) (auto simp: last_block_def)
  show ?case
    unfolding aes_nohw_cbc_encrypt_loop.simps Let_def one IH prod.case enc last by (rule refl)
qed

lemma cbc_dec_blocks:
  "length cs = 16 * n \<Longrightarrow> cbc_dec block iv cs =
    concat (map (\<lambda>i. map2 (XOR) (block (block_in cs i)) (if i = 0 then iv else block_in cs (i - 1))) [0..<n])"
proof (induction n arbitrary: iv cs)
  case (Suc n)
  let ?f = "\<lambda>iv cs i. map2 (XOR) (block (block_in cs i)) (if i = 0 then iv else block_in cs (i - 1))"
  have "map (?f iv cs) [1..<Suc n] = map (?f (take 16 cs) (drop 16 cs)) [0..<n]"
  proof (rule nth_equalityI)
    fix i assume "i < length (map (?f iv cs) [1..<Suc n])"
    then have "i < n" by (simp del: upt_Suc)
    then show "map (?f iv cs) [1..<Suc n] ! i = map (?f (take 16 cs) (drop 16 cs)) [0..<n] ! i"
      using block_in_drop [of 1 cs] by (cases i) (simp_all add: nth_append block_in_def add.commute del: upt_Suc)
  qed simp
  then have tail: "concat (map (?f iv cs) [1..<Suc n]) = cbc_dec block (take 16 cs) (drop 16 cs)"
    using Suc by simp
  have "[0..<Suc n] = 0 # [1..<Suc n]" by (simp add: upt_conv_Cons del: upt_Suc)
  moreover have "cbc_dec block iv cs = ?f iv cs 0 @ cbc_dec block (take 16 cs) (drop 16 cs)"
    using Suc.prems by (subst cbc_dec.simps) (simp add: block_in_def)
  ultimately show ?case by (simp only: list.map concat.simps tail)
qed (simp add: cbc_dec.simps)

lemma cbc_decrypt_loop:
  assumes "aes_key_for key k" and "length key \<in> {16, 24, 32}"
  shows "0 < blocks \<Longrightarrow> length inp = 16 * blocks \<Longrightarrow> length iv = 16 \<Longrightarrow>
    aes_nohw_cbc_decrypt_loop (aes_nohw_expand_round_keys k) (key_rounds k) inp blocks iv =
      (cbc_dec (aes_inv key) iv inp, last_block iv inp)"
proof (induction blocks arbitrary: inp iv rule: less_induct)
  case (less blocks)
  define todo where "todo = (if blocks \<ge> 4 then 4 else blocks)"
  have todo: "todo \<le> 4" "todo \<le> blocks" "0 < todo" using less.prems(1) by (simp_all add: todo_def)
  let ?D = "\<lambda>i. aes_inv key (block_in inp i)"
  let ?copy = "take (todo * 16) inp"
  have copy: "length ?copy = 16 * todo" using less.prems(2) todo(2) by simp
  have D: "length (?D i) = 16" if "i < todo" for i
    using less.prems(2) todo(2) that by (intro block_length [OF aes_inv_block_cipher [OF assms(2)]] length_block_in) linarith
  have dec: "aes_nohw_from_batch todo (aes_nohw_decrypt_batch (aes_nohw_expand_round_keys k) (key_rounds k)
      (aes_nohw_to_batch inp todo)) = concat (map ?D [0..<todo])"
    by (rule batch_decrypt [OF assms(1) todo(1)]) (use less.prems(2) todo(2) in simp)
  have blk: "block_in (concat (map ?D [0..<todo])) i = ?D i" if "i < todo" for i
    by (rule block_in_concat) (use D that in simp_all)
  have same: "block_in ?copy i = block_in inp i" if "i < todo" for i
    using that by (simp add: block_in_def drop_take min_def)
  have in16: "length (block_in inp i) = 16" if "i < todo" for i
    using that less.prems(2) todo(2) by (intro length_block_in) linarith
  let ?x = "\<lambda>i. map2 (XOR) (aes_inv key (block_in ?copy i)) (if i = 0 then iv else block_in ?copy (i - 1))"
  have first: "aes_nohw_xor_block (block_in (concat (map ?D [0..<todo])) 0) iv = ?x 0"
    unfolding blk [OF todo(3)] using D [OF todo(3)] less.prems(3) by (simp add: aes_xor_block same [OF todo(3)])
  have others: "map (\<lambda>i. aes_nohw_xor_block (block_in (concat (map ?D [0..<todo])) i) (block_in ?copy (i - 1))) [1..<todo] =
      map ?x [1..<todo]"
  proof (rule map_cong [OF refl])
    fix i assume "i \<in> set [1..<todo]"
    then have i: "i < todo" "i - 1 < todo" "i \<noteq> 0" by auto
    show "aes_nohw_xor_block (block_in (concat (map ?D [0..<todo])) i) (block_in ?copy (i - 1)) = ?x i"
      unfolding blk [OF i(1)] same [OF i(1)] same [OF i(2)] using D [OF i(1)] in16 [OF i(2)] i(3) by (simp add: aes_xor_block)
  qed
  have "[0..<todo] = 0 # [1..<todo]" using todo(3) by (simp add: upt_conv_Cons)
  then have out: "?x 0 @ concat (map ?x [1..<todo]) = cbc_dec (aes_inv key) iv ?copy"
    unfolding cbc_dec_blocks [OF copy] by (simp only: list.map concat.simps)
  have "16 * (todo - 1) = length ?copy - 16" using copy by (simp add: diff_mult_distrib2)
  then have last: "block_in ?copy (todo - 1) = last_block iv ?copy"
    using copy todo(3) by (auto simp: last_block_def block_in_def)
  have unfold: "aes_nohw_cbc_decrypt_loop (aes_nohw_expand_round_keys k) (key_rounds k) inp blocks iv =
      (if blocks - todo = 0 then (cbc_dec (aes_inv key) iv ?copy, last_block iv ?copy)
       else case aes_nohw_cbc_decrypt_loop (aes_nohw_expand_round_keys k) (key_rounds k) (drop (16 * 4) inp) (blocks - todo)
           (last_block iv ?copy) of (rest, iv') \<Rightarrow> (cbc_dec (aes_inv key) iv ?copy @ rest, iv'))"
    by (subst aes_nohw_cbc_decrypt_loop.simps) (simp only: Let_def todo_def [symmetric] dec first others out last)
  show ?case
  proof (cases "blocks \<le> 4")
    case True
    then have "todo = blocks" by (simp add: todo_def)
    then show ?thesis unfolding unfold using less.prems(2) by simp
  next
    case False
    then have four: "todo = 4" by (simp add: todo_def)
    let ?rest = "drop (16 * 4) inp"
    have inp: "?copy @ ?rest = inp" unfolding four by (simp add: mult.commute)
    have lb: "length (last_block iv ?copy) = 16" using copy todo(3) less.prems(3) by (auto simp: last_block_def)
    have IH: "aes_nohw_cbc_decrypt_loop (aes_nohw_expand_round_keys k) (key_rounds k) ?rest (blocks - 4) (last_block iv ?copy) =
        (cbc_dec (aes_inv key) (last_block iv ?copy) ?rest, last_block (last_block iv ?copy) ?rest)"
      by (rule less.IH) (use False less.prems lb in simp_all)
    have "last_block (last_block iv ?copy) ?rest = last_block iv (?copy @ ?rest)"
      using False less.prems(2) by (auto simp: last_block_def)
    moreover have "cbc_dec (aes_inv key) iv (?copy @ ?rest) = cbc_dec (aes_inv key) iv ?copy @ cbc_dec (aes_inv key) (last_block iv ?copy) ?rest"
      by (rule cbc_dec_append [OF copy])
    moreover have "blocks - 4 \<noteq> 0" using False by simp
    ultimately show ?thesis unfolding unfold unfolding four using IH unfolding four inp [unfolded four]
      by (simp only: if_False prod.case)
  qed
qed

lemma aes_cbc:
  assumes "aes_key_for key k" and "length key \<in> {16, 24, 32}" and "16 dvd length inp" and "length ivec = 16"
  shows "aes_nohw_cbc_encrypt k True ivec inp = (cbc_enc (aes key) ivec inp, last_block ivec (cbc_enc (aes key) ivec inp))"
    and "aes_nohw_cbc_encrypt k False ivec inp = (cbc_dec (aes_inv key) ivec inp, last_block ivec inp)"
proof -
  obtain n where n: "length inp = 16 * n" using assms(3) by (auto elim: dvdE)
  show "aes_nohw_cbc_encrypt k True ivec inp = (cbc_enc (aes key) ivec inp, last_block ivec (cbc_enc (aes key) ivec inp))"
    using cbc_encrypt_loop [OF assms(1,2) n assms(4)] n assms(4)
    by (cases "n = 0") (simp_all add: aes_nohw_cbc_encrypt_def Let_def cbc_enc.simps [of _ _ "[]"] last_block_def [of _ "[]"])
  show "aes_nohw_cbc_encrypt k False ivec inp = (cbc_dec (aes_inv key) ivec inp, last_block ivec inp)"
    using cbc_decrypt_loop [OF assms(1,2) _ n assms(4)] n assms(4)
    by (cases "n = 0") (simp_all add: aes_nohw_cbc_encrypt_def Let_def cbc_dec.simps [of _ _ "[]"] last_block_def [of _ "[]"])
qed

section \<open>Properties\<close>

text \<open>
  C2: On a block, the bitsliced code with a key of 128, 192 or 256 bits is the cipher of FIPS 197 and its inverse, and
  decryption gives the block back.
\<close>

theorem aes_nohw_correct:
  assumes "aes_nohw_set_encrypt_key key bits = Some k" and "8 * length key = bits" and "length b = 16"
  shows "aes_nohw_encrypt b k = aes key b \<and> aes_nohw_decrypt b k = aes_inv key b \<and>
    aes_nohw_decrypt (aes_nohw_encrypt b k) k = b"
proof -
  note key = set_encrypt_key_for [OF assms(1,2)]
  have len: "length key \<in> {16, 24, 32}" using assms(1,2) by (auto simp: set_encrypt_key)
  have "length (aes key b) = 16" by (rule block_length [OF aes_block_cipher [OF len] assms(3)])
  then show ?thesis
    using aes_nohw_block [OF key] assms(3) aes_inv_aes [OF len] by simp
qed

theorem aes_nohw_correct_witness:
  "aes_nohw_encrypt (replicate 16 1) (aes_nohw_setup_key_256 (replicate 32 7)) = aes (replicate 32 7) (replicate 16 1)"
  using aes_nohw_correct [of "replicate 32 7" 256 "aes_nohw_setup_key_256 (replicate 32 7)" "replicate 16 1"]
  by (simp add: set_encrypt_key)

text \<open>
  C4: CBC in batches of four blocks is chaining block by block over the cipher of FIPS 197, in both directions, and
  leaves the last block of the encrypted text as the vector; decryption gives the text back.
\<close>

theorem aes_nohw_cbc_correct:
  assumes "aes_nohw_set_encrypt_key key bits = Some k" and "8 * length key = bits" and "16 dvd length inp" and "length ivec = 16"
  shows "aes_nohw_cbc_encrypt k True ivec inp = (cbc_enc (aes key) ivec inp, last_block ivec (cbc_enc (aes key) ivec inp)) \<and>
    aes_nohw_cbc_encrypt k False ivec inp = (cbc_dec (aes_inv key) ivec inp, last_block ivec inp) \<and>
    fst (aes_nohw_cbc_encrypt k False ivec (fst (aes_nohw_cbc_encrypt k True ivec inp))) = inp"
proof -
  note key = set_encrypt_key_for [OF assms(1,2)]
  have len: "length key \<in> {16, 24, 32}" using assms(1,2) by (auto simp: set_encrypt_key)
  note block = aes_block_cipher [OF len]
  have "16 dvd length (cbc_enc (aes key) ivec inp)" using assms(3,4) by (simp only: length_cbc_enc [OF block])
  then show ?thesis
    using aes_cbc [OF key len assms(3,4)] aes_cbc(2) [OF key len _ assms(4)] cbc_dec_enc [OF block aes_inv_aes [OF len] assms(4,3)]
    by simp
qed

theorem aes_nohw_cbc_correct_witness:
  "fst (aes_nohw_cbc_encrypt (aes_nohw_setup_key_128 (replicate 16 7)) False (replicate 16 2)
      (fst (aes_nohw_cbc_encrypt (aes_nohw_setup_key_128 (replicate 16 7)) True (replicate 16 2) (replicate 96 5)))) = replicate 96 5"
proof -
  have "aes_nohw_set_encrypt_key (replicate 16 7) 128 = Some (aes_nohw_setup_key_128 (replicate 16 7))"
    and "8 * length (replicate 16 (7 :: u8)) = 128" and "16 dvd length (replicate 96 (5 :: u8))"
    and "length (replicate 16 (2 :: u8)) = 16" by (simp_all add: set_encrypt_key)
  from aes_nohw_cbc_correct [OF this] show ?thesis by blast
qed

end
