(* ===== verification/Evp_Ciphers.thy ===== *)
theory Evp_Ciphers
  imports Cipher Rc4 Aes_Block
begin

text \<open>
  The ciphers behind the common interface: the null cipher and RC4 (\<open>crypto/cipher_extra/e_null.c\<close>, \<open>e_rc4.c\<close>) and
  AES in the modes ECB, CBC, CTR and OFB (\<open>crypto/fipsmodule/cipher/e_aes.c\<close>), in a build without assembler, where
  \<open>hwaes_capable\<close>, \<open>bsaes_capable\<close> and \<open>vpaes_capable\<close> are constantly 0. Each has the contract \<open>cipher_method\<close>, so
  the streams of theory \<open>Cipher\<close> are those of the modes over the cipher of FIPS 197.
\<close>

section \<open>The null cipher and RC4\<close>

definition null_init_key :: "u8 list option \<Rightarrow> u8 list option \<Rightarrow> bool \<Rightarrow> ('d cipher_state, unit) op" where
  "null_init_key key iv enc s = (Some (), s)"

text \<open>A null pointer comes with the length 0.\<close>

definition input_bytes :: "u8 list option \<Rightarrow> u8 list" where
  "input_bytes inp = (case inp of None \<Rightarrow> [] | Some xs \<Rightarrow> xs)"

definition null_cipher :: "u8 list option \<Rightarrow> ('d cipher_state, u8 list) op" where
  "null_cipher inp s = (Some (input_bytes inp), s)"

definition EVP_enc_null :: "'d \<Rightarrow> 'd evp_cipher" where
  "EVP_enc_null junk =
     \<lparr>ec_nid = 0, ec_block_size = 1, ec_key_len = 0, ec_iv_len = 0, ec_ctx_size = 0, ec_flags = 0,
      ec_init = null_init_key, ec_cipher = null_cipher, ec_ctrl = None, ec_copy = Some, ec_new = junk\<rparr>"

definition rc4_init_key :: "u8 list option \<Rightarrow> u8 list option \<Rightarrow> bool \<Rightarrow> (rc4_key cipher_state, unit) op" where
  "rc4_init_key key iv enc s =
     (case key of
        None \<Rightarrow> (None, s)
      | Some key \<Rightarrow> (Some (), s\<lparr>cs_data := Some (RC4_set_key (take (cs_key_len s) key))\<rparr>))"

definition rc4_cipher :: "u8 list option \<Rightarrow> (rc4_key cipher_state, u8 list) op" where
  "rc4_cipher inp s =
     (case cs_data s of
        None \<Rightarrow> (None, s)
      | Some rc4key \<Rightarrow> case RC4 rc4key (input_bytes inp) of (out, rc4key) \<Rightarrow> (Some out, s\<lparr>cs_data := Some rc4key\<rparr>))"

text \<open>\<open>RC4_KEY\<close> is 258 words of 32 bits.\<close>

definition EVP_rc4 :: "rc4_key \<Rightarrow> rc4_key evp_cipher" where
  "EVP_rc4 junk =
     \<lparr>ec_nid = 5, ec_block_size = 1, ec_key_len = 16, ec_iv_len = 0, ec_ctx_size = 1032, ec_flags = 0x40,
      ec_init = rc4_init_key, ec_cipher = rc4_cipher, ec_ctrl = None, ec_copy = Some, ec_new = junk\<rparr>"

section \<open>AES\<close>

text \<open>The functions of a key: for one block, and the member of the union that is set, if one is.\<close>

datatype aes_stream =
  Stream_NULL
| Stream_cbc "aes_key \<Rightarrow> bool \<Rightarrow> u8 list \<Rightarrow> u8 list \<Rightarrow> u8 list \<times> u8 list"
| Stream_ctr "aes_key \<Rightarrow> u8 list \<Rightarrow> nat \<Rightarrow> u8 list \<Rightarrow> u8 list"

record evp_aes_key =
  eak_ks :: aes_key
  eak_block :: "u8 list \<Rightarrow> aes_key \<Rightarrow> u8 list"
  eak_stream :: aes_stream

text \<open>The mode is that in the flags of the cipher. A key schedule that fails returns 1, which is not below 0.\<close>

definition aes_init_key :: "u32 \<Rightarrow> u8 list option \<Rightarrow> u8 list option \<Rightarrow> bool \<Rightarrow> (evp_aes_key cipher_state, unit) op" where
  "aes_init_key mode key iv enc s =
     (case (cs_data s, key) of
        (Some dat, Some key) \<Rightarrow>
          let bits = cs_key_len s * 8 in
          if (mode = 1 \<or> mode = 2) \<and> \<not> enc then
            let ks = (case aes_nohw_set_decrypt_key key bits of None \<Rightarrow> eak_ks dat | Some ks \<Rightarrow> ks);
                dat = \<lparr>eak_ks = ks, eak_block = aes_nohw_decrypt,
                       eak_stream = (if mode = 2 then Stream_cbc aes_nohw_cbc_encrypt else Stream_NULL)\<rparr>
            in (Some (), s\<lparr>cs_data := Some dat\<rparr>)
          else
            let ks = (case aes_nohw_set_encrypt_key key bits of None \<Rightarrow> eak_ks dat | Some ks \<Rightarrow> ks);
                dat = \<lparr>eak_ks = ks, eak_block = aes_nohw_encrypt,
                       eak_stream = (if mode = 2 then Stream_cbc aes_nohw_cbc_encrypt else Stream_NULL)\<rparr>
            in (Some (), s\<lparr>cs_data := Some dat\<rparr>)
      | _ \<Rightarrow> (None, s))"

text \<open>
  Without a function for the mode, the generic ones work in a memory with the input before the output.
\<close>

definition aes_cbc_cipher :: "u8 list option \<Rightarrow> (evp_aes_key cipher_state, u8 list) op" where
  "aes_cbc_cipher inp s =
     (case cs_data s of
        None \<Rightarrow> (None, s)
      | Some dat \<Rightarrow>
          let inp = input_bytes inp; n = length inp; block = (\<lambda>b. eak_block dat b (eak_ks dat)) in
          case eak_stream dat of
            Stream_cbc cbc \<Rightarrow> (case cbc (eak_ks dat) (cs_encrypt s) (cs_iv s) inp of (out, iv) \<Rightarrow> (Some out, s\<lparr>cs_iv := iv\<rparr>))
          | Stream_ctr _ \<Rightarrow> (None, s)
          | Stream_NULL \<Rightarrow>
              let mem = mem_write (\<lambda>_. 0) 0 inp in
              case (if cs_encrypt s then CRYPTO_cbc128_encrypt block 0 n n (cs_iv s) mem
                    else CRYPTO_cbc128_decrypt block 0 n n (cs_iv s) mem) of
                (iv, mem) \<Rightarrow> (Some (mem_read mem n n), s\<lparr>cs_iv := iv\<rparr>))"

definition aes_ecb_cipher :: "nat \<Rightarrow> u8 list option \<Rightarrow> (evp_aes_key cipher_state, u8 list) op" where
  "aes_ecb_cipher bl inp s =
     (case cs_data s of
        None \<Rightarrow> (None, s)
      | Some dat \<Rightarrow>
          let inp = input_bytes inp in
          if length inp < bl then (Some [], s)
          else
            (Some (concat (map (\<lambda>i. eak_block dat (take 16 (drop (bl * i) inp)) (eak_ks dat)) [0..<(length inp - bl) div bl + 1])), s))"

definition aes_ctr_cipher :: "u8 list option \<Rightarrow> (evp_aes_key cipher_state, u8 list) op" where
  "aes_ctr_cipher inp s =
     (case cs_data s of
        None \<Rightarrow> (None, s)
      | Some dat \<Rightarrow>
          let inp = input_bytes inp; st = ((cs_iv s, take 16 (cs_buf s)), cs_num s) in
          case eak_stream dat of
            Stream_cbc _ \<Rightarrow> (None, s)
          | stream \<Rightarrow>
              case (case stream of
                      Stream_ctr ctr \<Rightarrow> CRYPTO_ctr128_encrypt_ctr32 (ctr (eak_ks dat)) st inp
                    | _ \<Rightarrow> CRYPTO_ctr128_encrypt (\<lambda>b. eak_block dat b (eak_ks dat)) st inp) of
                (out, (iv, ecount), n) \<Rightarrow> (Some out, s\<lparr>cs_iv := iv, cs_buf := overwrite 0 ecount (cs_buf s), cs_num := n\<rparr>))"

definition aes_ofb_cipher :: "u8 list option \<Rightarrow> (evp_aes_key cipher_state, u8 list) op" where
  "aes_ofb_cipher inp s =
     (case cs_data s of
        None \<Rightarrow> (None, s)
      | Some dat \<Rightarrow>
          case CRYPTO_ofb128_encrypt (\<lambda>b. eak_block dat b (eak_ks dat)) (cs_iv s, cs_num s) (input_bytes inp) of
            (out, iv, n) \<Rightarrow> (Some out, s\<lparr>cs_iv := iv, cs_num := n\<rparr>))"

text \<open>The methods; \<open>EVP_AES_KEY\<close> has 264 bytes.\<close>

definition EVP_aes_cbc :: "evp_aes_key \<Rightarrow> nat \<Rightarrow> evp_aes_key evp_cipher" where
  "EVP_aes_cbc junk key_len =
     \<lparr>ec_nid = (if key_len = 16 then 419 else if key_len = 24 then 423 else 427), ec_block_size = 16,
      ec_key_len = key_len, ec_iv_len = 16, ec_ctx_size = 264, ec_flags = 2, ec_init = aes_init_key 2,
      ec_cipher = aes_cbc_cipher, ec_ctrl = None, ec_copy = Some, ec_new = junk\<rparr>"

definition EVP_aes_ctr :: "evp_aes_key \<Rightarrow> nat \<Rightarrow> evp_aes_key evp_cipher" where
  "EVP_aes_ctr junk key_len =
     \<lparr>ec_nid = (if key_len = 16 then 904 else if key_len = 24 then 905 else 906), ec_block_size = 1,
      ec_key_len = key_len, ec_iv_len = 16, ec_ctx_size = 264, ec_flags = 5, ec_init = aes_init_key 5,
      ec_cipher = aes_ctr_cipher, ec_ctrl = None, ec_copy = Some, ec_new = junk\<rparr>"

definition EVP_aes_ecb :: "evp_aes_key \<Rightarrow> nat \<Rightarrow> evp_aes_key evp_cipher" where
  "EVP_aes_ecb junk key_len =
     \<lparr>ec_nid = (if key_len = 16 then 418 else if key_len = 24 then 422 else 426), ec_block_size = 16,
      ec_key_len = key_len, ec_iv_len = 0, ec_ctx_size = 264, ec_flags = 1, ec_init = aes_init_key 1,
      ec_cipher = aes_ecb_cipher 16, ec_ctrl = None, ec_copy = Some, ec_new = junk\<rparr>"

definition EVP_aes_ofb :: "evp_aes_key \<Rightarrow> nat \<Rightarrow> evp_aes_key evp_cipher" where
  "EVP_aes_ofb junk key_len =
     \<lparr>ec_nid = (if key_len = 16 then 420 else if key_len = 24 then 424 else 428), ec_block_size = 1,
      ec_key_len = key_len, ec_iv_len = 16, ec_ctx_size = 264, ec_flags = 4, ec_init = aes_init_key 4,
      ec_cipher = aes_ofb_cipher, ec_ctrl = None, ec_copy = Some, ec_new = junk\<rparr>"

section \<open>The contract\<close>

interpretation null_evp: cipher_method "EVP_enc_null junk" "\<lambda>s. length (cs_buf s) = 32" "\<lambda>_. ()" "\<lambda>_ xs. (xs, ())" for junk
  by unfold_locales (auto simp: EVP_enc_null_def null_cipher_def input_bytes_def)

definition rc4_state_ok :: "rc4_key cipher_state \<Rightarrow> bool" where
  "rc4_state_ok s \<longleftrightarrow> length (cs_buf s) = 32 \<and> (\<exists>k. cs_data s = Some k \<and> rc4_ok k)"

text \<open>The data of an AES context after the key is set.\<close>

definition aes_data_for :: "u8 list \<Rightarrow> (u8 list \<Rightarrow> aes_key \<Rightarrow> u8 list) \<Rightarrow> aes_stream \<Rightarrow> evp_aes_key cipher_state \<Rightarrow> bool" where
  "aes_data_for key block stream s \<longleftrightarrow>
     length key \<in> {16, 24, 32} \<and> length (cs_buf s) = 32 \<and>
     (\<exists>ks. cs_data s = Some \<lparr>eak_ks = ks, eak_block = block, eak_stream = stream\<rparr> \<and> aes_key_for key ks)"

definition aes_cbc_ok :: "u8 list \<Rightarrow> evp_aes_key cipher_state \<Rightarrow> bool" where
  "aes_cbc_ok key s \<longleftrightarrow>
     length (cs_iv s) = 16 \<and>
     aes_data_for key (if cs_encrypt s then aes_nohw_encrypt else aes_nohw_decrypt) (Stream_cbc aes_nohw_cbc_encrypt) s"

text \<open>CBC from a vector on, in the one or the other direction.\<close>

definition cbc_run :: "u8 list \<Rightarrow> bool \<times> u8 list \<Rightarrow> u8 list \<Rightarrow> u8 list \<times> bool \<times> u8 list" where
  "cbc_run key = (\<lambda>(enc, iv) xs.
     if enc then let cs = cbc_enc (aes key) iv xs in (cs, enc, last_block iv cs)
     else (cbc_dec (aes_inv key) iv xs, enc, last_block iv xs))"

lemma length_last_block: "length iv = 16 \<Longrightarrow> 16 dvd length xs \<Longrightarrow> length (last_block iv xs) = 16"
proof -
  assume iv: "length iv = 16" and "16 dvd length xs"
  then obtain k where "length xs = 16 * k" by (auto elim: dvdE)
  then show ?thesis using iv by (cases k) (auto simp: last_block_def)
qed

lemma last_block_append: "length iv = 16 \<Longrightarrow> 16 dvd length ys \<Longrightarrow> last_block iv (xs @ ys) = last_block (last_block iv xs) ys"
proof -
  assume iv: "length iv = 16" and "16 dvd length ys"
  then obtain k where "length ys = 16 * k" by (auto elim: dvdE)
  then show ?thesis using iv by (cases k) (auto simp: last_block_def)
qed

lemma cbc_enc_append:
  assumes "is_block_cipher block" and "length xs = 16 * m" and "length iv = 16"
  shows "cbc_enc block iv (xs @ ys) = cbc_enc block iv xs @ cbc_enc block (last_block iv (cbc_enc block iv xs)) ys"
  using assms(2,3)
proof (induction m arbitrary: iv xs)
  case (Suc m)
  let ?c = "block (map2 (XOR) (take 16 xs) iv)"
  have c: "length ?c = 16" using Suc.prems by (intro block_length [OF assms(1)]) simp
  have split: "cbc_enc block iv (xs @ zs) = ?c @ cbc_enc block ?c (drop 16 xs @ zs)" for zs
    using Suc.prems by (subst cbc_enc.simps) (simp add: Let_def)
  have len: "length (cbc_enc block ?c (drop 16 xs)) = 16 * m"
    using Suc.prems c by (subst length_cbc_enc [OF assms(1)]) simp_all
  have "last_block ?c (cbc_enc block ?c (drop 16 xs)) = last_block iv (cbc_enc block iv xs)"
    using split [of "[]"] c len by (cases m) (auto simp: last_block_def)
  then show ?case
    using Suc.IH [of "drop 16 xs" ?c] Suc.prems c split [of ys] split [of "[]"] by simp
qed (simp add: last_block_def cbc_enc.simps [of _ _ "[]"])

lemma ok_cases: "aes_cbc_ok key s \<Longrightarrow> is_block_cipher (aes key) \<and> is_block_cipher (aes_inv key) \<and> length (cs_iv s) = 16"
  using aes_block_cipher aes_inv_block_cipher by (auto simp: aes_cbc_ok_def aes_data_for_def)

interpretation cbc_evp: cipher_method "EVP_aes_cbc junk key_len" "aes_cbc_ok key" "\<lambda>s. (cs_encrypt s, cs_iv s)" "cbc_run key"
  for junk key_len key
proof unfold_locales
  show "ec_flags (EVP_aes_cbc junk key_len) AND 0x400 = 0" "ec_block_size (EVP_aes_cbc junk key_len) \<in> {1, 8, 16}"
    by (simp_all add: EVP_aes_cbc_def)
  fix s and xs ys b :: "u8 list" assume ok: "aes_cbc_ok key s"
  note len = ok_cases [OF ok]
  have bs: "ec_block_size (EVP_aes_cbc junk key_len) = 16" by (simp add: EVP_aes_cbc_def)
  show "length (cs_buf s) = 32" using ok by (simp add: aes_cbc_ok_def aes_data_for_def)
  show "aes_cbc_ok key (s\<lparr>cs_buf := b\<rparr>) \<and> (cs_encrypt (s\<lparr>cs_buf := b\<rparr>), cs_iv (s\<lparr>cs_buf := b\<rparr>)) = (cs_encrypt s, cs_iv s)"
    if "length b = 32" using ok that by (simp add: aes_cbc_ok_def aes_data_for_def)
  show "cbc_run key (cs_encrypt s, cs_iv s) [] = ([], cs_encrypt s, cs_iv s)"
    by (simp add: cbc_run_def cbc_enc.simps [of _ _ "[]"] cbc_dec.simps [of _ _ "[]"] last_block_def Let_def)
  assume "ec_block_size (EVP_aes_cbc junk key_len) dvd length xs"
  then have xs: "16 dvd length xs" by (simp add: bs)
  have enc: "length (cbc_enc (aes key) (cs_iv s) xs) = length xs" "length (cbc_dec (aes_inv key) (cs_iv s) xs) = length xs"
    using len xs by (simp_all add: length_cbc_enc length_cbc_dec)
  then show "length (fst (cbc_run key (cs_encrypt s, cs_iv s) xs)) = length xs"
    by (simp add: cbc_run_def Let_def)
  obtain ks where ks: "cs_data s = Some \<lparr>eak_ks = ks, eak_block = if cs_encrypt s then aes_nohw_encrypt else aes_nohw_decrypt,
      eak_stream = Stream_cbc aes_nohw_cbc_encrypt\<rparr>" "aes_key_for key ks" "length key \<in> {16, 24, 32}"
    using ok by (auto simp: aes_cbc_ok_def aes_data_for_def)
  let ?iv = "snd (snd (cbc_run key (cs_encrypt s, cs_iv s) xs))"
  have iv: "length ?iv = 16" using len xs enc by (simp add: cbc_run_def Let_def length_last_block)
  have call: "aes_cbc_cipher (Some xs) s = (Some (fst (cbc_run key (cs_encrypt s, cs_iv s) xs)), s\<lparr>cs_iv := ?iv\<rparr>)"
    using ks(1) aes_cbc [OF ks(2,3) xs, of "cs_iv s"] len
    by (cases "cs_encrypt s") (simp_all add: aes_cbc_cipher_def input_bytes_def cbc_run_def Let_def)
  have "aes_cbc_ok key (s\<lparr>cs_iv := ?iv\<rparr>)" using ok iv by (simp add: aes_cbc_ok_def aes_data_for_def)
  moreover have "(cs_encrypt s, ?iv) = snd (cbc_run key (cs_encrypt s, cs_iv s) xs)" by (simp add: cbc_run_def Let_def)
  ultimately show "\<exists>s'. ec_cipher (EVP_aes_cbc junk key_len) (Some xs) s = (Some (fst (cbc_run key (cs_encrypt s, cs_iv s) xs)), s') \<and>
      (cs_encrypt s', cs_iv s') = snd (cbc_run key (cs_encrypt s, cs_iv s) xs) \<and> aes_cbc_ok key s'"
    using call by (auto simp: EVP_aes_cbc_def)
  assume "ec_block_size (EVP_aes_cbc junk key_len) dvd length ys"
  then have ys: "16 dvd length ys" by (simp add: bs)
  obtain m where m: "length xs = 16 * m" using xs by (auto elim: dvdE)
  have "16 dvd length (cbc_enc (aes key) (last_block (cs_iv s) (cbc_enc (aes key) (cs_iv s) xs)) ys)"
    using len xs ys enc by (subst length_cbc_enc) (simp_all add: length_last_block)
  then show "cbc_run key (cs_encrypt s, cs_iv s) (xs @ ys) =
      (fst (cbc_run key (cs_encrypt s, cs_iv s) xs) @ fst (cbc_run key (snd (cbc_run key (cs_encrypt s, cs_iv s) xs)) ys),
       snd (cbc_run key (snd (cbc_run key (cs_encrypt s, cs_iv s) xs)) ys))"
    using len ys by (simp add: cbc_run_def Let_def cbc_enc_append [OF _ m] cbc_dec_append [OF m] last_block_append)
qed

interpretation rc4_evp: cipher_method "EVP_rc4 junk" rc4_state_ok "\<lambda>s. the (cs_data s)" RC4 for junk
proof unfold_locales
  show "ec_flags (EVP_rc4 junk) AND 0x400 = 0" "ec_block_size (EVP_rc4 junk) \<in> {1, 8, 16}" by (simp_all add: EVP_rc4_def)
  fix s and xs ys b :: "u8 list" assume ok: "rc4_state_ok s"
  then obtain k where k: "cs_data s = Some k" "rc4_ok k" "length (cs_buf s) = 32" by (auto simp: rc4_state_ok_def)
  then show "length (cs_buf s) = 32" by simp
  show "\<exists>s'. ec_cipher (EVP_rc4 junk) (Some xs) s = (Some (fst (RC4 (the (cs_data s)) xs)), s') \<and>
      the (cs_data s') = snd (RC4 (the (cs_data s)) xs) \<and> rc4_state_ok s'"
    using k rc4.code_good [OF k(2), of xs]
    by (auto simp: EVP_rc4_def rc4_cipher_def input_bytes_def rc4_state_ok_def split: prod.splits)
  show "RC4 (the (cs_data s)) [] = ([], the (cs_data s))" by (simp add: RC4_run)
  show "RC4 (the (cs_data s)) (xs @ ys) = (fst (RC4 (the (cs_data s)) xs) @ fst (RC4 (snd (RC4 (the (cs_data s)) xs)) ys),
      snd (RC4 (snd (RC4 (the (cs_data s)) xs)) ys))"
    by (simp add: RC4_run run_append split: prod.splits)
  show "length (fst (RC4 (the (cs_data s)) xs)) = length xs" by (simp add: RC4_run)
  show "rc4_state_ok (s\<lparr>cs_buf := b\<rparr>) \<and> the (cs_data (s\<lparr>cs_buf := b\<rparr>)) = the (cs_data s)"
    if "ec_block_size (EVP_rc4 junk) \<noteq> 1" using that by (simp add: EVP_rc4_def)
qed

text \<open>The stream modes see the cipher only on blocks.\<close>

lemma run_cong:
  assumes "\<And>s x. good s \<Longrightarrow> f s x = g s x" and "\<And>s x. good s \<Longrightarrow> good (snd (g s x))"
  shows "good s \<Longrightarrow> run f s xs = run g s xs"
proof (induction xs arbitrary: s)
  case (Cons x xs)
  with assms(1) [of s x] assms(2) [of s x] show ?case by (auto split: prod.splits)
qed simp

lemma ctr128_cong:
  assumes "\<And>b. length b = 16 \<Longrightarrow> f b = g b" and "block_state (good_ctr g) s"
  shows "CRYPTO_ctr128_encrypt f s xs = CRYPTO_ctr128_encrypt g s xs"
proof -
  have "is_block_cipher f" using assms by (simp add: is_block_cipher_def block_state_def)
  then have "block_state (good_ctr f) s" using assms(2) by (simp add: block_state_def)
  moreover have "run (ctr_step f) s xs = run (ctr_step g) s xs"
  proof (rule run_cong [where good = "block_state (good_ctr g)"])
    show "ctr_step f s x = ctr_step g s x" if "block_state (good_ctr g) s" for s x
      using that assms(1) by (auto simp: block_step_def ctr_refresh_def block_state_def split: prod.splits)
  qed (use assms(2) ctr_code.good_step in auto)
  ultimately show ?thesis using assms(2) by (simp add: ctr_code.code_run)
qed

lemma ofb128_cong:
  assumes "\<And>b. length b = 16 \<Longrightarrow> f b = g b" and "block_state (good_block g) s"
  shows "CRYPTO_ofb128_encrypt f s xs = CRYPTO_ofb128_encrypt g s xs"
proof -
  have "is_block_cipher f" using assms by (simp add: is_block_cipher_def block_state_def)
  then have "block_state (good_block f) s" using assms(2) by (simp add: block_state_def)
  moreover have "run (ofb_step f) s xs = run (ofb_step g) s xs"
  proof (rule run_cong [where good = "block_state (good_block g)"])
    show "ofb_step f s x = ofb_step g s x" if "block_state (good_block g) s" for s x
      using that assms(1) by (auto simp: block_step_def block_state_def split: prod.splits)
  qed (use assms(2) ofb_code.good_step in auto)
  ultimately show ?thesis using assms(2) by (simp add: ofb_code.code_run)
qed

definition aes_ctr_ok :: "u8 list \<Rightarrow> evp_aes_key cipher_state \<Rightarrow> bool" where
  "aes_ctr_ok key s \<longleftrightarrow> length (cs_iv s) = 16 \<and> cs_num s < 16 \<and> aes_data_for key aes_nohw_encrypt Stream_NULL s"

lemma aes_ctr_good:
  "aes_ctr_ok key s \<Longrightarrow> block_state (good_ctr (aes key)) ((cs_iv s, take 16 (cs_buf s)), cs_num s) \<and>
    block_state (good_block (aes key)) (cs_iv s, cs_num s)"
  using aes_block_cipher by (auto simp: aes_ctr_ok_def aes_data_for_def block_state_def)

interpretation ctr_evp: cipher_method "EVP_aes_ctr junk key_len" "aes_ctr_ok key"
  "\<lambda>s. ((cs_iv s, take 16 (cs_buf s)), cs_num s)" "CRYPTO_ctr128_encrypt (aes key)" for junk key_len key
proof unfold_locales
  show "ec_flags (EVP_aes_ctr junk key_len) AND 0x400 = 0" "ec_block_size (EVP_aes_ctr junk key_len) \<in> {1, 8, 16}"
    by (simp_all add: EVP_aes_ctr_def)
  fix s and xs ys b :: "u8 list" assume ok: "aes_ctr_ok key s"
  let ?st = "((cs_iv s, take 16 (cs_buf s)), cs_num s)"
  have good: "block_state (good_ctr (aes key)) ?st" using aes_ctr_good [OF ok] by blast
  show "length (cs_buf s) = 32" using ok by (simp add: aes_ctr_ok_def aes_data_for_def)
  show "CRYPTO_ctr128_encrypt (aes key) ?st [] = ([], ?st)" by (simp add: ctr_code.code_run [OF good])
  show "length (fst (CRYPTO_ctr128_encrypt (aes key) ?st xs)) = length xs" by (rule ctr_code.code_length [OF good])
  show "CRYPTO_ctr128_encrypt (aes key) ?st (xs @ ys) =
      (fst (CRYPTO_ctr128_encrypt (aes key) ?st xs) @ fst (CRYPTO_ctr128_encrypt (aes key) (snd (CRYPTO_ctr128_encrypt (aes key) ?st xs)) ys),
       snd (CRYPTO_ctr128_encrypt (aes key) (snd (CRYPTO_ctr128_encrypt (aes key) ?st xs)) ys))"
    using ctr_code.code_good [OF good, of xs] good by (simp add: ctr_code.code_run run_append split: prod.splits)
  show "aes_ctr_ok key (s\<lparr>cs_buf := b\<rparr>) \<and> ((cs_iv (s\<lparr>cs_buf := b\<rparr>), take 16 (cs_buf (s\<lparr>cs_buf := b\<rparr>))), cs_num (s\<lparr>cs_buf := b\<rparr>)) = ?st"
    if "ec_block_size (EVP_aes_ctr junk key_len) \<noteq> 1" using that by (simp add: EVP_aes_ctr_def)
  obtain ks where ks: "cs_data s = Some \<lparr>eak_ks = ks, eak_block = aes_nohw_encrypt, eak_stream = Stream_NULL\<rparr>" "aes_key_for key ks"
    using ok by (auto simp: aes_ctr_ok_def aes_data_for_def)
  have block: "CRYPTO_ctr128_encrypt (\<lambda>b. aes_nohw_encrypt b ks) ?st xs = CRYPTO_ctr128_encrypt (aes key) ?st xs"
    by (rule ctr128_cong [OF aes_nohw_block(1) [OF ks(2)] good])
  obtain out iv ec n where out: "CRYPTO_ctr128_encrypt (aes key) ?st xs = (out, (iv, ec), n)"
    by (metis surj_pair)
  then have st: "length iv = 16" "length ec = 16" "n < 16"
    using ctr_code.code_good [OF good, of xs] by (simp_all add: block_state_def)
  let ?s = "s\<lparr>cs_iv := iv, cs_buf := overwrite 0 ec (cs_buf s), cs_num := n\<rparr>"
  have "ec_cipher (EVP_aes_ctr junk key_len) (Some xs) s = (Some out, ?s)"
    by (simp add: EVP_aes_ctr_def aes_ctr_cipher_def input_bytes_def ks(1) Let_def block out)
  moreover have "take 16 (cs_buf ?s) = ec" using st(2) by (simp add: overwrite_def)
  moreover have "aes_ctr_ok key ?s" using ok st by (simp add: aes_ctr_ok_def aes_data_for_def overwrite_def)
  ultimately show "\<exists>s'. ec_cipher (EVP_aes_ctr junk key_len) (Some xs) s = (Some (fst (CRYPTO_ctr128_encrypt (aes key) ?st xs)), s') \<and>
      ((cs_iv s', take 16 (cs_buf s')), cs_num s') = snd (CRYPTO_ctr128_encrypt (aes key) ?st xs) \<and> aes_ctr_ok key s'"
    by (intro exI [of _ ?s]) (simp add: out)
qed

interpretation ofb_evp: cipher_method "EVP_aes_ofb junk key_len" "aes_ctr_ok key"
  "\<lambda>s. (cs_iv s, cs_num s)" "CRYPTO_ofb128_encrypt (aes key)" for junk key_len key
proof unfold_locales
  show "ec_flags (EVP_aes_ofb junk key_len) AND 0x400 = 0" "ec_block_size (EVP_aes_ofb junk key_len) \<in> {1, 8, 16}"
    by (simp_all add: EVP_aes_ofb_def)
  fix s and xs ys b :: "u8 list" assume ok: "aes_ctr_ok key s"
  let ?st = "(cs_iv s, cs_num s)"
  have good: "block_state (good_block (aes key)) ?st" using aes_ctr_good [OF ok] by blast
  show "length (cs_buf s) = 32" using ok by (simp add: aes_ctr_ok_def aes_data_for_def)
  show "CRYPTO_ofb128_encrypt (aes key) ?st [] = ([], ?st)" by (simp add: ofb_code.code_run [OF good])
  show "length (fst (CRYPTO_ofb128_encrypt (aes key) ?st xs)) = length xs" by (rule ofb_code.code_length [OF good])
  show "CRYPTO_ofb128_encrypt (aes key) ?st (xs @ ys) =
      (fst (CRYPTO_ofb128_encrypt (aes key) ?st xs) @ fst (CRYPTO_ofb128_encrypt (aes key) (snd (CRYPTO_ofb128_encrypt (aes key) ?st xs)) ys),
       snd (CRYPTO_ofb128_encrypt (aes key) (snd (CRYPTO_ofb128_encrypt (aes key) ?st xs)) ys))"
    using ofb_code.code_good [OF good, of xs] good by (simp add: ofb_code.code_run run_append split: prod.splits)
  show "aes_ctr_ok key (s\<lparr>cs_buf := b\<rparr>) \<and> (cs_iv (s\<lparr>cs_buf := b\<rparr>), cs_num (s\<lparr>cs_buf := b\<rparr>)) = ?st"
    if "ec_block_size (EVP_aes_ofb junk key_len) \<noteq> 1" using that by (simp add: EVP_aes_ofb_def)
  obtain ks where ks: "cs_data s = Some \<lparr>eak_ks = ks, eak_block = aes_nohw_encrypt, eak_stream = Stream_NULL\<rparr>" "aes_key_for key ks"
    using ok by (auto simp: aes_ctr_ok_def aes_data_for_def)
  have block: "CRYPTO_ofb128_encrypt (\<lambda>b. aes_nohw_encrypt b ks) ?st xs = CRYPTO_ofb128_encrypt (aes key) ?st xs"
    by (rule ofb128_cong [OF aes_nohw_block(1) [OF ks(2)] good])
  obtain out iv n where out: "CRYPTO_ofb128_encrypt (aes key) ?st xs = (out, iv, n)" by (metis surj_pair)
  then have st: "length iv = 16" "n < 16"
    using ofb_code.code_good [OF good, of xs] by (simp_all add: block_state_def)
  have "ec_cipher (EVP_aes_ofb junk key_len) (Some xs) s = (Some out, s\<lparr>cs_iv := iv, cs_num := n\<rparr>)"
    by (simp add: EVP_aes_ofb_def aes_ofb_cipher_def input_bytes_def ks(1) block out)
  moreover have "aes_ctr_ok key (s\<lparr>cs_iv := iv, cs_num := n\<rparr>)" using ok st by (simp add: aes_ctr_ok_def aes_data_for_def)
  ultimately show "\<exists>s'. ec_cipher (EVP_aes_ofb junk key_len) (Some xs) s = (Some (fst (CRYPTO_ofb128_encrypt (aes key) ?st xs)), s') \<and>
      (cs_iv s', cs_num s') = snd (CRYPTO_ofb128_encrypt (aes key) ?st xs) \<and> aes_ctr_ok key s'"
    by (intro exI [of _ "s\<lparr>cs_iv := iv, cs_num := n\<rparr>"]) (simp add: out)
qed

definition aes_ecb_ok :: "u8 list \<Rightarrow> evp_aes_key cipher_state \<Rightarrow> bool" where
  "aes_ecb_ok key s \<longleftrightarrow> aes_data_for key (if cs_encrypt s then aes_nohw_encrypt else aes_nohw_decrypt) Stream_NULL s"

definition ecb_run :: "u8 list \<Rightarrow> bool \<Rightarrow> u8 list \<Rightarrow> u8 list \<times> bool" where
  "ecb_run key enc xs = (concat (map (\<lambda>i. (if enc then aes key else aes_inv key) (block_in xs i)) [0..<length xs div 16]), enc)"

interpretation ecb_evp: cipher_method "EVP_aes_ecb junk key_len" "aes_ecb_ok key" cs_encrypt "ecb_run key" for junk key_len key
proof unfold_locales
  show "ec_flags (EVP_aes_ecb junk key_len) AND 0x400 = 0" "ec_block_size (EVP_aes_ecb junk key_len) \<in> {1, 8, 16}"
    by (simp_all add: EVP_aes_ecb_def)
  fix s and xs ys b :: "u8 list" assume ok: "aes_ecb_ok key s"
  have bs: "ec_block_size (EVP_aes_ecb junk key_len) = 16" by (simp add: EVP_aes_ecb_def)
  show "length (cs_buf s) = 32" using ok by (simp add: aes_ecb_ok_def aes_data_for_def)
  show "aes_ecb_ok key (s\<lparr>cs_buf := b\<rparr>) \<and> cs_encrypt (s\<lparr>cs_buf := b\<rparr>) = cs_encrypt s"
    if "length b = 32" using ok that by (simp add: aes_ecb_ok_def aes_data_for_def)
  show "ecb_run key (cs_encrypt s) [] = ([], cs_encrypt s)" by (simp add: ecb_run_def)
  let ?F = "if cs_encrypt s then aes key else aes_inv key" and ?N = "if cs_encrypt s then aes_nohw_encrypt else aes_nohw_decrypt"
  obtain ks where ks: "cs_data s = Some \<lparr>eak_ks = ks, eak_block = ?N, eak_stream = Stream_NULL\<rparr>" "aes_key_for key ks"
    "length key \<in> {16, 24, 32}" using ok by (auto simp: aes_ecb_ok_def aes_data_for_def)
  have F: "is_block_cipher ?F" using aes_block_cipher [OF ks(3)] aes_inv_block_cipher [OF ks(3)] by simp
  assume "ec_block_size (EVP_aes_ecb junk key_len) dvd length xs"
  then obtain m where m: "length xs = 16 * m" by (auto simp: bs elim: dvdE)
  have blk: "length (block_in xs i) = 16" if "i < m" for i using that m by (intro length_block_in) linarith
  have "length (concat (map (\<lambda>i. ?F (block_in xs i)) [0..<n])) = 16 * n" if "n \<le> m" for n
    using that block_length [OF F blk] by (induction n) (simp_all del: if_split)
  then show "length (fst (ecb_run key (cs_encrypt s) xs)) = length xs" by (simp add: ecb_run_def m)
  have "map (\<lambda>i. ?N (take 16 (drop (16 * i) xs)) ks) [0..<m] = map (\<lambda>i. ?F (block_in xs i)) [0..<m]"
    using blk aes_nohw_block [OF ks(2)] by (intro map_cong) (auto simp: block_in_def)
  then have out: "concat (map (\<lambda>i. ?N (take 16 (drop (16 * i) xs)) ks) [0..<m]) = fst (ecb_run key (cs_encrypt s) xs)"
    by (simp only: ecb_run_def fst_conv m nonzero_mult_div_cancel_left zero_neq_numeral [symmetric] simp_thms)
  have "ec_cipher (EVP_aes_ecb junk key_len) (Some xs) s = (Some (concat (map (\<lambda>i. ?N (take 16 (drop (16 * i) xs)) ks) [0..<m])), s)"
    using m by (cases m) (simp_all add: EVP_aes_ecb_def aes_ecb_cipher_def input_bytes_def ks(1) Let_def del: if_split upt_Suc)
  then have "ec_cipher (EVP_aes_ecb junk key_len) (Some xs) s = (Some (fst (ecb_run key (cs_encrypt s) xs)), s)"
    by (simp only: out)
  then show "\<exists>s'. ec_cipher (EVP_aes_ecb junk key_len) (Some xs) s = (Some (fst (ecb_run key (cs_encrypt s) xs)), s') \<and>
      cs_encrypt s' = snd (ecb_run key (cs_encrypt s) xs) \<and> aes_ecb_ok key s'"
    using ok by (auto simp: ecb_run_def)
  assume "ec_block_size (EVP_aes_ecb junk key_len) dvd length ys"
  then obtain n where n: "length ys = 16 * n" by (auto simp: bs elim: dvdE)
  have "map (\<lambda>i. ?F (block_in (xs @ ys) i)) [0..<m + n] =
      map (\<lambda>i. ?F (block_in xs i)) [0..<m] @ map (\<lambda>i. ?F (block_in ys i)) [0..<n]"
    by (rule nth_equalityI) (auto simp: nth_append block_in_def m algebra_simps)
  then show "ecb_run key (cs_encrypt s) (xs @ ys) =
      (fst (ecb_run key (cs_encrypt s) xs) @ fst (ecb_run key (snd (ecb_run key (cs_encrypt s) xs)) ys),
       snd (ecb_run key (snd (ecb_run key (cs_encrypt s) xs)) ys))"
    by (simp add: ecb_run_def m n del: if_split)
qed

section \<open>From the key to the text\<close>

text \<open>A caller that sets up a new context, gives the text in pieces and finishes.\<close>

definition evp_encrypt :: "(nat \<Rightarrow> bool) \<Rightarrow> 'd evp_cipher \<Rightarrow> u8 list \<Rightarrow> u8 list \<Rightarrow> u8 list list \<Rightarrow> u8 list option" where
  "evp_encrypt sys cipher key iv chunks =
     fst (pbind (EVP_EncryptInit_ex sys (Some cipher) (Some key) (Some iv))
       (\<lambda>_. cipher_stream EVP_EncryptUpdate EVP_EncryptFinal_ex chunks) EVP_CIPHER_CTX_init)"

definition evp_decrypt :: "(nat \<Rightarrow> bool) \<Rightarrow> 'd evp_cipher \<Rightarrow> u8 list \<Rightarrow> u8 list \<Rightarrow> u8 list list \<Rightarrow> u8 list option" where
  "evp_decrypt sys cipher key iv chunks =
     fst (pbind (EVP_DecryptInit_ex sys (Some cipher) (Some key) (Some iv))
       (\<lambda>_. cipher_stream EVP_DecryptUpdate EVP_DecryptFinal_ex chunks) EVP_CIPHER_CTX_init)"

lemma evp_encrypt_eq:
  "EVP_CipherInit_ex sys (Some cipher) (Some key) (Some iv) (Some True) EVP_CIPHER_CTX_init = (Some (), ctx) \<Longrightarrow>
    evp_encrypt sys cipher key iv chunks = fst (cipher_stream EVP_EncryptUpdate EVP_EncryptFinal_ex chunks ctx)"
  by (simp add: evp_encrypt_def EVP_EncryptInit_ex_def pbind_def)

lemma evp_decrypt_eq:
  "EVP_CipherInit_ex sys (Some cipher) (Some key) (Some iv) (Some False) EVP_CIPHER_CTX_init = (Some (), ctx) \<Longrightarrow>
    evp_decrypt sys cipher key iv chunks = fst (cipher_stream EVP_DecryptUpdate EVP_DecryptFinal_ex chunks ctx)"
  by (simp add: evp_decrypt_def EVP_DecryptInit_ex_def pbind_def)

lemma set_key_sizes:
  assumes "length key \<in> {16, 24, 32}"
  shows "\<exists>ks. aes_nohw_set_encrypt_key key (length key * 8) = Some ks \<and> aes_key_for key ks"
proof -
  have "aes_nohw_set_encrypt_key key (length key * 8) \<noteq> None" using assms by (auto simp: aes_nohw_set_encrypt_key_def)
  then obtain ks where "aes_nohw_set_encrypt_key key (length key * 8) = Some ks" by auto
  with set_encrypt_key_for [OF this] show ?thesis by auto
qed

lemma cbc_fields:
  "ec_block_size (EVP_aes_cbc junk n) = 16" "ec_key_len (EVP_aes_cbc junk n) = n" "ec_iv_len (EVP_aes_cbc junk n) = 16"
  "ec_ctx_size (EVP_aes_cbc junk n) = 264" "ec_flags (EVP_aes_cbc junk n) = 2" "ec_init (EVP_aes_cbc junk n) = aes_init_key 2"
  "ec_new (EVP_aes_cbc junk n) = junk"
  by (simp_all add: EVP_aes_cbc_def)

lemma ctr_fields:
  "ec_block_size (EVP_aes_ctr junk n) = 1" "ec_key_len (EVP_aes_ctr junk n) = n" "ec_iv_len (EVP_aes_ctr junk n) = 16"
  "ec_ctx_size (EVP_aes_ctr junk n) = 264" "ec_flags (EVP_aes_ctr junk n) = 5" "ec_init (EVP_aes_ctr junk n) = aes_init_key 5"
  "ec_new (EVP_aes_ctr junk n) = junk"
  by (simp_all add: EVP_aes_ctr_def)

lemma ecb_fields:
  "ec_block_size (EVP_aes_ecb junk n) = 16" "ec_key_len (EVP_aes_ecb junk n) = n" "ec_iv_len (EVP_aes_ecb junk n) = 0"
  "ec_ctx_size (EVP_aes_ecb junk n) = 264" "ec_flags (EVP_aes_ecb junk n) = 1" "ec_init (EVP_aes_ecb junk n) = aes_init_key 1"
  "ec_new (EVP_aes_ecb junk n) = junk"
  by (simp_all add: EVP_aes_ecb_def)

lemma ofb_fields:
  "ec_block_size (EVP_aes_ofb junk n) = 1" "ec_key_len (EVP_aes_ofb junk n) = n" "ec_iv_len (EVP_aes_ofb junk n) = 16"
  "ec_ctx_size (EVP_aes_ofb junk n) = 264" "ec_flags (EVP_aes_ofb junk n) = 4" "ec_init (EVP_aes_ofb junk n) = aes_init_key 4"
  "ec_new (EVP_aes_ofb junk n) = junk"
  by (simp_all add: EVP_aes_ofb_def)

lemmas init_rules = EVP_CipherInit_ex_def cipher_set_def EVP_CIPHER_CTX_init_def cipher_set_iv_def EVP_CIPHER_flags_def
  EVP_CIPHER_mode_def cipher_call_def aes_init_key_def aes_nohw_set_decrypt_key_def cipher_state.defs aes_data_for_def
  overwrite_def Let_def

lemma cbc_init:
  assumes "OPENSSL_malloc sys 264" and "length key \<in> {16, 24, 32}" and "length iv = 16"
  shows "\<exists>ctx. EVP_CipherInit_ex sys (Some (EVP_aes_cbc junk (length key))) (Some key) (Some iv) (Some enc) EVP_CIPHER_CTX_init =
      (Some (), ctx) \<and> cbc_evp.fresh junk (length key) key (enc, iv) ctx \<and> cc_flags ctx AND 0x800 = 0"
proof -
  obtain ks where ks: "aes_nohw_set_encrypt_key key (length key * 8) = Some ks" "aes_key_for key ks"
    using set_key_sizes [OF assms(2)] by blast
  show ?thesis
    using assms ks by (cases enc) (simp_all add: init_rules cbc_fields cbc_evp.fresh_def cbc_evp.ready_def aes_cbc_ok_def)
qed

lemma ecb_init:
  assumes "OPENSSL_malloc sys 264" and "length key \<in> {16, 24, 32}"
  shows "\<exists>ctx. EVP_CipherInit_ex sys (Some (EVP_aes_ecb junk (length key))) (Some key) (Some iv) (Some enc) EVP_CIPHER_CTX_init =
      (Some (), ctx) \<and> ecb_evp.fresh junk (length key) key enc ctx \<and> cc_flags ctx AND 0x800 = 0"
proof -
  obtain ks where ks: "aes_nohw_set_encrypt_key key (length key * 8) = Some ks" "aes_key_for key ks"
    using set_key_sizes [OF assms(2)] by blast
  show ?thesis
    using assms ks by (cases enc) (simp_all add: init_rules ecb_fields ecb_evp.fresh_def ecb_evp.ready_def aes_ecb_ok_def)
qed

lemma ctr_init:
  assumes "OPENSSL_malloc sys 264" and "length key \<in> {16, 24, 32}" and "length iv = 16"
  shows "\<exists>ctx. EVP_CipherInit_ex sys (Some (EVP_aes_ctr junk (length key))) (Some key) (Some iv) (Some enc) EVP_CIPHER_CTX_init =
      (Some (), ctx) \<and> ctr_evp.fresh junk (length key) key ((iv, replicate 16 0), 0) ctx \<and> cc_flags ctx AND 0x800 = 0"
proof -
  obtain ks where ks: "aes_nohw_set_encrypt_key key (length key * 8) = Some ks" "aes_key_for key ks"
    using set_key_sizes [OF assms(2)] by blast
  show ?thesis
    using assms ks by (cases enc) (simp_all add: init_rules ctr_fields ctr_evp.fresh_def ctr_evp.ready_def aes_ctr_ok_def)
qed

lemma ofb_init:
  assumes "OPENSSL_malloc sys 264" and "length key \<in> {16, 24, 32}" and "length iv = 16"
  shows "\<exists>ctx. EVP_CipherInit_ex sys (Some (EVP_aes_ofb junk (length key))) (Some key) (Some iv) (Some enc) EVP_CIPHER_CTX_init =
      (Some (), ctx) \<and> ofb_evp.fresh junk (length key) key (iv, 0) ctx \<and> cc_flags ctx AND 0x800 = 0"
proof -
  obtain ks where ks: "aes_nohw_set_encrypt_key key (length key * 8) = Some ks" "aes_key_for key ks"
    using set_key_sizes [OF assms(2)] by blast
  show ?thesis
    using assms ks by (cases enc) (simp_all add: init_rules ofb_fields ofb_evp.fresh_def ofb_evp.ready_def aes_ctr_ok_def)
qed

lemma cbc_stream:
  assumes "OPENSSL_malloc sys 264" and "length key \<in> {16, 24, 32}" and "length iv = 16"
    and "\<forall>xs\<in>set chunks. length xs \<le> int_max - 16"
  shows "evp_encrypt sys (EVP_aes_cbc junk (length key)) key iv chunks =
      Some (cbc_enc (aes key) iv (pkcs_pad 16 (concat chunks)))"
    and "evp_decrypt sys (EVP_aes_cbc junk (length key)) key iv chunks =
      (let ct = concat chunks in
       if ct = [] \<or> \<not> 16 dvd length ct then None else pkcs_unpad 16 (cbc_dec (aes_inv key) iv ct))"
proof -
  obtain ctx where ctx: "EVP_CipherInit_ex sys (Some (EVP_aes_cbc junk (length key))) (Some key) (Some iv) (Some True) EVP_CIPHER_CTX_init =
      (Some (), ctx)" "cbc_evp.fresh junk (length key) key (True, iv) ctx" "cc_flags ctx AND 0x800 = 0"
    using cbc_init [OF assms(1-3), of junk True] by blast
  show "evp_encrypt sys (EVP_aes_cbc junk (length key)) key iv chunks =
      Some (cbc_enc (aes key) iv (pkcs_pad 16 (concat chunks)))"
    using cbc_evp.encrypt_stream [OF ctx(2,3), of chunks] assms(4) by (simp add: evp_encrypt_eq [OF ctx(1)] cbc_fields cbc_run_def Let_def)
  obtain ctx where ctx: "EVP_CipherInit_ex sys (Some (EVP_aes_cbc junk (length key))) (Some key) (Some iv) (Some False) EVP_CIPHER_CTX_init =
      (Some (), ctx)" "cbc_evp.fresh junk (length key) key (False, iv) ctx" "cc_flags ctx AND 0x800 = 0"
    using cbc_init [OF assms(1-3), of junk False] by blast
  show "evp_decrypt sys (EVP_aes_cbc junk (length key)) key iv chunks =
      (let ct = concat chunks in
       if ct = [] \<or> \<not> 16 dvd length ct then None else pkcs_unpad 16 (cbc_dec (aes_inv key) iv ct))"
    using cbc_evp.decrypt_stream [OF ctx(2,3), of chunks] assms(4) by (simp add: evp_decrypt_eq [OF ctx(1)] cbc_fields cbc_run_def Let_def)
qed

lemma ecb_stream:
  assumes "OPENSSL_malloc sys 264" and "length key \<in> {16, 24, 32}"
    and "\<forall>xs\<in>set chunks. length xs \<le> int_max - 16"
  shows "evp_encrypt sys (EVP_aes_ecb junk (length key)) key iv chunks =
      Some (fst (ecb_run key True (pkcs_pad 16 (concat chunks))))"
    and "evp_decrypt sys (EVP_aes_ecb junk (length key)) key iv chunks =
      (let ct = concat chunks in
       if ct = [] \<or> \<not> 16 dvd length ct then None else pkcs_unpad 16 (fst (ecb_run key False ct)))"
proof -
  obtain ctx where ctx: "EVP_CipherInit_ex sys (Some (EVP_aes_ecb junk (length key))) (Some key) (Some iv) (Some True) EVP_CIPHER_CTX_init =
      (Some (), ctx)" "ecb_evp.fresh junk (length key) key True ctx" "cc_flags ctx AND 0x800 = 0"
    using ecb_init [OF assms(1,2), of junk iv True] by blast
  show "evp_encrypt sys (EVP_aes_ecb junk (length key)) key iv chunks =
      Some (fst (ecb_run key True (pkcs_pad 16 (concat chunks))))"
    using ecb_evp.encrypt_stream [OF ctx(2,3), of chunks] assms(3) by (simp add: evp_encrypt_eq [OF ctx(1)] ecb_fields)
  obtain ctx where ctx: "EVP_CipherInit_ex sys (Some (EVP_aes_ecb junk (length key))) (Some key) (Some iv) (Some False) EVP_CIPHER_CTX_init =
      (Some (), ctx)" "ecb_evp.fresh junk (length key) key False ctx" "cc_flags ctx AND 0x800 = 0"
    using ecb_init [OF assms(1,2), of junk iv False] by blast
  show "evp_decrypt sys (EVP_aes_ecb junk (length key)) key iv chunks =
      (let ct = concat chunks in
       if ct = [] \<or> \<not> 16 dvd length ct then None else pkcs_unpad 16 (fst (ecb_run key False ct)))"
    using ecb_evp.decrypt_stream [OF ctx(2,3), of chunks] assms(3) by (simp add: evp_decrypt_eq [OF ctx(1)] ecb_fields Let_def)
qed

text \<open>The stream modes treat both directions alike.\<close>

lemma ctr_ofb_stream:
  assumes "OPENSSL_malloc sys 264" and "length key \<in> {16, 24, 32}" and "length iv = 16"
  shows "evp_encrypt sys (EVP_aes_ctr junk (length key)) key iv chunks =
      Some (fst (CRYPTO_ctr128_encrypt (aes key) ((iv, replicate 16 0), 0) (concat chunks)))"
    and "evp_decrypt sys (EVP_aes_ctr junk (length key)) key iv chunks =
      Some (fst (CRYPTO_ctr128_encrypt (aes key) ((iv, replicate 16 0), 0) (concat chunks)))"
    and "evp_encrypt sys (EVP_aes_ofb junk (length key)) key iv chunks =
      Some (fst (CRYPTO_ofb128_encrypt (aes key) (iv, 0) (concat chunks)))"
    and "evp_decrypt sys (EVP_aes_ofb junk (length key)) key iv chunks =
      Some (fst (CRYPTO_ofb128_encrypt (aes key) (iv, 0) (concat chunks)))"
proof -
  have ctr: "evp_encrypt sys (EVP_aes_ctr junk (length key)) key iv chunks =
      Some (fst (CRYPTO_ctr128_encrypt (aes key) ((iv, replicate 16 0), 0) (concat chunks))) \<and>
    evp_decrypt sys (EVP_aes_ctr junk (length key)) key iv chunks =
      Some (fst (CRYPTO_ctr128_encrypt (aes key) ((iv, replicate 16 0), 0) (concat chunks)))"
    using ctr_init [OF assms, of junk True] ctr_init [OF assms, of junk False]
      ctr_evp.encrypt_stream [of junk "length key" key "((iv, replicate 16 0), 0)" _ chunks]
      ctr_evp.decrypt_stream [of junk "length key" key "((iv, replicate 16 0), 0)" _ chunks]
    by (auto simp: evp_encrypt_eq evp_decrypt_eq ctr_fields pkcs_pad_def pkcs_unpad_def Let_def)
  have ofb: "evp_encrypt sys (EVP_aes_ofb junk (length key)) key iv chunks =
      Some (fst (CRYPTO_ofb128_encrypt (aes key) (iv, 0) (concat chunks))) \<and>
    evp_decrypt sys (EVP_aes_ofb junk (length key)) key iv chunks =
      Some (fst (CRYPTO_ofb128_encrypt (aes key) (iv, 0) (concat chunks)))"
    using ofb_init [OF assms, of junk True] ofb_init [OF assms, of junk False]
      ofb_evp.encrypt_stream [of junk "length key" key "(iv, 0)" _ chunks]
      ofb_evp.decrypt_stream [of junk "length key" key "(iv, 0)" _ chunks]
    by (auto simp: evp_encrypt_eq evp_decrypt_eq ofb_fields pkcs_pad_def pkcs_unpad_def Let_def)
  from ctr ofb show "evp_encrypt sys (EVP_aes_ctr junk (length key)) key iv chunks =
      Some (fst (CRYPTO_ctr128_encrypt (aes key) ((iv, replicate 16 0), 0) (concat chunks)))"
    and "evp_decrypt sys (EVP_aes_ctr junk (length key)) key iv chunks =
      Some (fst (CRYPTO_ctr128_encrypt (aes key) ((iv, replicate 16 0), 0) (concat chunks)))"
    and "evp_encrypt sys (EVP_aes_ofb junk (length key)) key iv chunks =
      Some (fst (CRYPTO_ofb128_encrypt (aes key) (iv, 0) (concat chunks)))"
    and "evp_decrypt sys (EVP_aes_ofb junk (length key)) key iv chunks =
      Some (fst (CRYPTO_ofb128_encrypt (aes key) (iv, 0) (concat chunks)))"
    by blast+
qed

lemma ctr_bytes_stream:
  assumes "length key \<in> {16, 24, 32}" and "length iv = 16"
  shows "fst (CRYPTO_ctr128_encrypt (aes key) ((iv, replicate 16 0), 0) xs) = ctr_bytes (aes key) (be_nat iv) xs"
proof -
  have "block_state (good_ctr (aes key)) ((iv, replicate 16 0), 0)"
    using aes_block_cipher [OF assms(1)] assms(2) by (simp add: block_state_def)
  then show ?thesis
    using ctr_run_bytes [OF aes_block_cipher [OF assms(1)], of "replicate 16 0" "be_nat iv" xs]
    by (simp add: ctr_code.code_run ctr_bytes_def length_16_be_bytes [OF assms(2), symmetric])
qed

lemma pkcs_pad_16: "16 dvd length (pkcs_pad 16 xs)" "pkcs_pad 16 xs \<noteq> []"
proof -
  define q r where "q = length xs div 16" and "r = length xs mod 16"
  have "length xs = 16 * q + r" and "r < 16" by (simp_all add: q_def r_def)
  then have "length xs + (16 - r) = 16 * (q + 1)" by simp
  then have "length xs + (16 - length xs mod 16) = 16 * (q + 1)" by (simp only: r_def)
  then show "16 dvd length (pkcs_pad 16 xs)" by (simp add: pkcs_pad_def Let_def)
  show "pkcs_pad 16 xs \<noteq> []" by (simp add: pkcs_pad_def Let_def)
qed

lemma ecb_run_undo:
  assumes "length key \<in> {16, 24, 32}" and "16 dvd length xs"
  shows "fst (ecb_run key False (fst (ecb_run key True xs))) = xs" and "length (fst (ecb_run key True xs)) = length xs"
proof -
  obtain m where m: "length xs = 16 * m" using assms(2) by (auto elim: dvdE)
  let ?cs = "concat (map (\<lambda>i. aes key (block_in xs i)) [0..<m])"
  have blk: "length (block_in xs i) = 16" if "i < m" for i using that m by (intro length_block_in) linarith
  have enc: "length (aes key (block_in xs i)) = 16" if "i < m" for i
    using block_length [OF aes_block_cipher [OF assms(1)] blk [OF that]] .
  have "length (concat (map (\<lambda>i. aes key (block_in xs i)) [0..<n])) = 16 * n" if "n \<le> m" for n
    using that enc by (induction n) simp_all
  then have cs: "length ?cs = 16 * m" by simp
  then show "length (fst (ecb_run key True xs)) = length xs" by (simp add: ecb_run_def m)
  have "map (\<lambda>i. aes_inv key (block_in ?cs i)) [0..<m] = map (block_in xs) [0..<m]"
    using enc blk aes_inv_aes [OF assms(1)] by (intro map_cong) (simp_all add: block_in_concat)
  moreover have "concat (map (block_in xs) [0..<n]) = take (16 * n) xs" for n
  proof (induction n)
    case (Suc n)
    have "take (16 * Suc n) xs = take (16 * n) xs @ block_in xs n"
      using take_add [of "16 * n" 16 xs] by (simp add: block_in_def add.commute)
    with Suc show ?case by simp
  qed simp
  moreover have "length xs div 16 = m" "length ?cs div 16 = m" using m cs by simp_all
  ultimately show "fst (ecb_run key False (fst (ecb_run key True xs))) = xs"
    by (simp only: ecb_run_def fst_conv if_True if_False m [symmetric] take_all order.refl)
qed

lemma evp_roundtrip:
  assumes "OPENSSL_malloc sys 264" and "length key \<in> {16, 24, 32}" and "length iv = 16"
    and "cipher \<in> {EVP_aes_cbc junk (length key), EVP_aes_ecb junk (length key), EVP_aes_ctr junk (length key), EVP_aes_ofb junk (length key)}"
    and "\<forall>xs\<in>set chunks \<union> set chunks'. length xs \<le> int_max - 16"
    and "evp_encrypt sys cipher key iv chunks = Some (concat chunks')"
  shows "evp_decrypt sys cipher key iv chunks' = Some (concat chunks)"
proof -
  let ?msg = "concat chunks" and ?ct = "concat chunks'"
  have lens: "\<forall>xs\<in>set chunks. length xs \<le> int_max - 16" "\<forall>xs\<in>set chunks'. length xs \<le> int_max - 16" using assms(5) by auto
  note pad = pkcs_pad_16 [of ?msg]
  note block = aes_block_cipher [OF assms(2)]
  from assms(4) consider (cbc) "cipher = EVP_aes_cbc junk (length key)" | (ecb) "cipher = EVP_aes_ecb junk (length key)"
    | (ctr) "cipher = EVP_aes_ctr junk (length key)" | (ofb) "cipher = EVP_aes_ofb junk (length key)" by blast
  then show ?thesis
  proof cases
    case cbc
    then have ct: "?ct = cbc_enc (aes key) iv (pkcs_pad 16 ?msg)" using assms(6) cbc_stream(1) [OF assms(1-3) lens(1), of junk] by simp
    then have "length ?ct = length (pkcs_pad 16 ?msg)" using block assms(3) pad by (simp only: length_cbc_enc)
    then have "?ct \<noteq> []" "16 dvd length ?ct" using pad by (metis length_0_conv, metis)
    then show ?thesis
      using cbc_dec_enc [OF block, of "aes_inv key" iv "pkcs_pad 16 ?msg"] assms(3) pad aes_inv_aes [OF assms(2)]
      unfolding cbc cbc_stream(2) [OF assms(1-3) lens(2)] Let_def by (simp only: ct) (simp add: pkcs_unpad_pad)
  next
    case ecb
    then have ct: "?ct = fst (ecb_run key True (pkcs_pad 16 ?msg))" using assms(6) ecb_stream(1) [OF assms(1,2) lens(1), of junk iv] by simp
    then have "length ?ct = length (pkcs_pad 16 ?msg)" using ecb_run_undo(2) [OF assms(2) pad(1)] by (simp only:)
    then have "?ct \<noteq> []" "16 dvd length ?ct" using pad by (metis length_0_conv, metis)
    then show ?thesis
      using ecb_run_undo(1) [OF assms(2) pad(1)]
      unfolding ecb ecb_stream(2) [OF assms(1,2) lens(2)] Let_def by (simp only: ct) (simp add: pkcs_unpad_pad)
  next
    case ctr
    have good: "block_state (good_ctr (aes key)) ((iv, replicate 16 0), 0)" using block assms(3) by (simp add: block_state_def)
    have "?ct = fst (run (ctr_step (aes key)) ((iv, replicate 16 0), 0) ?msg)"
      using assms(6) ctr ctr_ofb_stream(1) [OF assms(1-3), of junk chunks] by (simp add: ctr_code.code_run [OF good])
    then have "fst (run (ctr_step (aes key)) ((iv, replicate 16 0), 0) ?ct) = ?msg"
      using ctr_undo.run_undo [OF good, of ?msg] by (metis fst_conv prod.collapse)
    then show ?thesis
      unfolding ctr ctr_ofb_stream(2) [OF assms(1-3)] by (simp add: ctr_code.code_run [OF good])
  next
    case ofb
    have good: "block_state (good_block (aes key)) (iv, 0)" using block assms(3) by (simp add: block_state_def)
    have "?ct = fst (run (ofb_step (aes key)) (iv, 0) ?msg)"
      using assms(6) ofb ctr_ofb_stream(3) [OF assms(1-3), of junk chunks] by (simp add: ofb_code.code_run [OF good])
    then have "fst (run (ofb_step (aes key)) (iv, 0) ?ct) = ?msg"
      using ofb_undo.run_undo [OF good, of ?msg] by (metis fst_conv prod.collapse)
    then show ?thesis
      unfolding ofb ctr_ofb_stream(4) [OF assms(1-3)] by (simp add: ofb_code.code_run [OF good])
  qed
qed

section \<open>Properties\<close>

lemma malloc_264: "OPENSSL_malloc (\<lambda>_. True) 264"
  by (simp add: OPENSSL_malloc_def OPENSSL_MALLOC_PREFIX_def size_add_def)

text \<open>
  C1: However a text is cut into pieces, AES-CBC through the common interface encrypts it as CBC over the cipher of
  FIPS 197 encrypts the padded text, and decryption refuses exactly the texts that are not whole blocks or whose
  padding is wrong. Encryption succeeds if the data of the cipher can be allocated.
\<close>

theorem EVP_aes_cbc_correct:
  assumes "OPENSSL_malloc sys 264" and "length key \<in> {16, 24, 32}" and "length iv = 16"
    and "\<forall>xs\<in>set chunks. length xs \<le> int_max - 16"
  shows "evp_encrypt sys (EVP_aes_cbc junk (length key)) key iv chunks =
      Some (cbc_enc (aes key) iv (pkcs_pad 16 (concat chunks))) \<and>
    evp_decrypt sys (EVP_aes_cbc junk (length key)) key iv chunks =
      (let ct = concat chunks in
       if ct = [] \<or> \<not> 16 dvd length ct then None else pkcs_unpad 16 (cbc_dec (aes_inv key) iv ct))"
  using cbc_stream [OF assms] by blast

theorem EVP_aes_cbc_correct_witness:
  "\<forall>junk. evp_encrypt (\<lambda>_. True) (EVP_aes_cbc junk 16) (replicate 16 7) (replicate 16 2) [[1, 2], replicate 20 3] =
    Some (cbc_enc (aes (replicate 16 7)) (replicate 16 2) (pkcs_pad 16 ([1, 2] @ replicate 20 3)))"
  using EVP_aes_cbc_correct [of "\<lambda>_. True" "replicate 16 7" "replicate 16 2" "[[1, 2], replicate 20 3]"] malloc_264
  by simp

text \<open>
  C5: AES-CTR through the common interface gives, for both directions and any pieces, each byte of the text added to the
  byte of the encrypted 128-bit counter that starts at the vector.
\<close>

theorem EVP_aes_ctr_correct:
  assumes "OPENSSL_malloc sys 264" and "length key \<in> {16, 24, 32}" and "length iv = 16"
  shows "evp_encrypt sys (EVP_aes_ctr junk (length key)) key iv chunks = Some (ctr_bytes (aes key) (be_nat iv) (concat chunks)) \<and>
    evp_decrypt sys (EVP_aes_ctr junk (length key)) key iv chunks = Some (ctr_bytes (aes key) (be_nat iv) (concat chunks))"
  using ctr_ofb_stream(1,2) [OF assms] ctr_bytes_stream [OF assms(2,3)] by simp

theorem EVP_aes_ctr_correct_witness:
  "\<forall>junk. evp_decrypt (\<lambda>_. True) (EVP_aes_ctr junk 32) (replicate 32 7) (replicate 16 0xff) [[1, 2], replicate 20 3] =
    Some (ctr_bytes (aes (replicate 32 7)) (be_nat (replicate 16 0xff)) ([1, 2] @ replicate 20 3))"
  using EVP_aes_ctr_correct [of "\<lambda>_. True" "replicate 32 7" "replicate 16 0xff" _ "[[1, 2], replicate 20 3]"] malloc_264
  by simp

text \<open>
  C6: What AES in the modes CBC, ECB, CTR or OFB encrypted through the common interface, it decrypts to the same text,
  whatever pieces either text is cut into.
\<close>

theorem EVP_aes_roundtrip:
  assumes "OPENSSL_malloc sys 264" and "length key \<in> {16, 24, 32}" and "length iv = 16"
    and "cipher \<in> {EVP_aes_cbc junk (length key), EVP_aes_ecb junk (length key), EVP_aes_ctr junk (length key), EVP_aes_ofb junk (length key)}"
    and "\<forall>xs\<in>set chunks \<union> set chunks'. length xs \<le> int_max - 16"
    and "evp_encrypt sys cipher key iv chunks = Some (concat chunks')"
  shows "evp_decrypt sys cipher key iv chunks' = Some (concat chunks)"
  using assms by (rule evp_roundtrip)

theorem EVP_aes_roundtrip_witness:
  "\<forall>junk. evp_decrypt (\<lambda>_. True) (EVP_aes_ctr junk 16) (replicate 16 7) (replicate 16 2)
      [ctr_bytes (aes (replicate 16 7)) (be_nat (replicate 16 2)) [1, 2, 3]] = Some [1, 2, 3]"
proof
  fix junk
  have len: "length (replicate 16 (7 :: u8)) \<in> {16, 24, 32}" "length (replicate 16 (2 :: u8)) = 16" by simp_all
  have "evp_encrypt (\<lambda>_. True) (EVP_aes_ctr junk (length (replicate 16 (7 :: u8)))) (replicate 16 7) (replicate 16 2) [[1], [2, 3]] =
      Some (concat [ctr_bytes (aes (replicate 16 7)) (be_nat (replicate 16 2)) [1, 2, 3]])"
    using ctr_ofb_stream(1) [OF malloc_264 len, of junk "[[1], [2, 3]]"] ctr_bytes_stream [OF len] by simp
  from EVP_aes_roundtrip [OF malloc_264 len _ _ this, of junk]
  show "evp_decrypt (\<lambda>_. True) (EVP_aes_ctr junk 16) (replicate 16 7) (replicate 16 2)
      [ctr_bytes (aes (replicate 16 7)) (be_nat (replicate 16 2)) [1, 2, 3]] = Some [1, 2, 3]" by simp
qed

end
