(* ===== verification/Aes_Modes.thy ===== *)
theory Aes_Modes
  imports Aes_Block
begin

text \<open>
  The interface of AES proper (\<open>crypto/fipsmodule/aes/aes.c\<close>, \<open>mode_wrappers.c\<close>). The build has no assembler code, so
  \<open>hwaes_capable\<close> and \<open>vpaes_capable\<close> return 0 and every function takes its last branch. Counter mode is the generic
  loop over the batches of \<open>aes_nohw_ctr32_encrypt_blocks\<close>, which count in 32 bits.
\<close>

section \<open>The code\<close>

definition AES_encrypt :: "u8 list \<Rightarrow> aes_key \<Rightarrow> u8 list" where
  "AES_encrypt inp key = aes_nohw_encrypt inp key"

definition AES_decrypt :: "u8 list \<Rightarrow> aes_key \<Rightarrow> u8 list" where
  "AES_decrypt inp key = aes_nohw_decrypt inp key"

text \<open>A return value other than zero is on the left.\<close>

definition AES_set_encrypt_key :: "u8 list \<Rightarrow> nat \<Rightarrow> int + aes_key" where
  "AES_set_encrypt_key key bits =
     (if bits \<noteq> 128 \<and> bits \<noteq> 192 \<and> bits \<noteq> 256 then Inl (- 2)
      else case aes_nohw_set_encrypt_key key bits of None \<Rightarrow> Inl 1 | Some k \<Rightarrow> Inr k)"

definition AES_set_decrypt_key :: "u8 list \<Rightarrow> nat \<Rightarrow> int + aes_key" where
  "AES_set_decrypt_key key bits =
     (if bits \<noteq> 128 \<and> bits \<noteq> 192 \<and> bits \<noteq> 256 then Inl (- 2)
      else case aes_nohw_set_decrypt_key key bits of None \<Rightarrow> Inl 1 | Some k \<Rightarrow> Inr k)"

definition AES_ctr128_encrypt ::
    "aes_key \<Rightarrow> (u8 list \<times> u8 list) \<times> nat \<Rightarrow> u8 list \<Rightarrow> u8 list \<times> (u8 list \<times> u8 list) \<times> nat" where
  "AES_ctr128_encrypt key = CRYPTO_ctr128_encrypt_ctr32 (aes_nohw_ctr32_encrypt_blocks key)"

definition AES_ecb_encrypt :: "u8 list \<Rightarrow> aes_key \<Rightarrow> bool \<Rightarrow> u8 list" where
  "AES_ecb_encrypt inp key enc = (if enc then AES_encrypt inp key else AES_decrypt inp key)"

definition AES_cbc_encrypt :: "aes_key \<Rightarrow> bool \<Rightarrow> u8 list \<Rightarrow> u8 list \<Rightarrow> u8 list \<times> u8 list" where
  "AES_cbc_encrypt key enc ivec inp = aes_nohw_cbc_encrypt key enc ivec inp"

text \<open>The casts of \<open>*num\<close>, a number below 16, between \<open>int\<close> and \<open>unsigned\<close> do not change it.\<close>

definition AES_ofb128_encrypt :: "aes_key \<Rightarrow> u8 list \<times> nat \<Rightarrow> u8 list \<Rightarrow> u8 list \<times> u8 list \<times> nat" where
  "AES_ofb128_encrypt key = CRYPTO_ofb128_encrypt (\<lambda>b. AES_encrypt b key)"

definition AES_cfb128_encrypt :: "aes_key \<Rightarrow> bool \<Rightarrow> u8 list \<times> nat \<Rightarrow> u8 list \<Rightarrow> u8 list \<times> u8 list \<times> nat" where
  "AES_cfb128_encrypt key enc = CRYPTO_cfb128_encrypt (\<lambda>b. AES_encrypt b key) enc"

section \<open>Keys and blocks\<close>

lemma AES_set_encrypt_key_eq:
  "AES_set_encrypt_key key bits =
     (case aes_nohw_set_encrypt_key key bits of None \<Rightarrow> Inl (- 2) | Some k \<Rightarrow> Inr k)"
  by (auto simp: AES_set_encrypt_key_def aes_nohw_set_encrypt_key_def)

lemma AES_set_decrypt_key_eq: "AES_set_decrypt_key key bits = AES_set_encrypt_key key bits"
  by (simp add: AES_set_decrypt_key_def AES_set_encrypt_key_def aes_nohw_set_decrypt_key_def)

lemma AES_set_key_for:
  assumes "AES_set_encrypt_key key bits = Inr k" and "8 * length key = bits"
  shows "aes_key_for key k" and "length key \<in> {16, 24, 32}"
proof -
  have set: "aes_nohw_set_encrypt_key key bits = Some k"
    using assms(1) by (auto simp: AES_set_encrypt_key_eq split: option.splits)
  show "aes_key_for key k" by (rule set_encrypt_key_for [OF set assms(2)])
  show "length key \<in> {16, 24, 32}" using set assms(2) by (auto simp: set_encrypt_key)
qed

lemma AES_block:
  assumes "aes_key_for key k" and "length b = 16"
  shows "AES_encrypt b k = aes key b" and "AES_decrypt b k = aes_inv key b"
  using assms by (simp_all add: AES_encrypt_def AES_decrypt_def aes_nohw_block)

text \<open>The cipher of a key is injective on a finite set, so its inverse is one on both sides.\<close>

lemma aes_aes_inv:
  assumes "length key \<in> {16, 24, 32}" and "length b = 16"
  shows "aes key (aes_inv key b) = b"
proof -
  let ?B = "{b :: u8 list. length b = 16}"
  have fin: "finite ?B" using finite_lists_length_eq [of "UNIV :: u8 set" 16] by simp
  have "inj_on (aes key) ?B"
    by (rule inj_on_inverseI [of _ "aes_inv key"]) (use assms(1) in \<open>simp add: aes_inv_aes\<close>)
  moreover have "aes key ` ?B \<subseteq> ?B" using block_length [OF aes_block_cipher [OF assms(1)]] by auto
  ultimately have "aes key ` ?B = ?B" by (intro endo_inj_surj fin)
  with assms(2) obtain c where "length c = 16" "b = aes key c" by blast
  then show ?thesis using assms(1) by (simp add: aes_inv_aes)
qed

lemma aes_counts:
  assumes "aes_key_for key k" and "length key \<in> {16, 24, 32}"
  shows "counts_in_32_bits (aes key) (aes_nohw_ctr32_encrypt_blocks k)"
  unfolding counts_in_32_bits_def using aes_ctr32_blocks [OF assms] by blast

section \<open>Counter mode\<close>

text \<open>
  \<open>AES_set_encrypt_key\<close> refuses exactly the sizes other than 128, 192 and 256 bits, and under a key it set
  \<open>AES_ctr128_encrypt\<close>, whatever buffers the text comes in, adds to byte \<open>k\<close> the byte \<open>k mod 16\<close> of the counter
  \<open>iv + k div 16\<close> encrypted as FIPS 197 says, although whole blocks are encrypted four at a time by code that counts
  in 32 bits.
\<close>

lemma AES_ctr128_correct:
  assumes "8 * length key = bits" and "length iv = 16" and "length ec = 16"
  shows "case AES_set_encrypt_key key bits of
      Inl e \<Rightarrow> e = - 2 \<and> bits \<notin> {128, 192, 256}
    | Inr k \<Rightarrow> bits \<in> {128, 192, 256} \<and>
        fst (run_chunks (AES_ctr128_encrypt k) ((iv, ec), 0) cs) =
        map (\<lambda>i. concat cs ! i XOR aes key (be_bytes 16 (be_nat iv + i div 16)) ! (i mod 16)) [0..<length (concat cs)]"
proof (cases "AES_set_encrypt_key key bits")
  case (Inl e)
  then show ?thesis by (auto simp: AES_set_encrypt_key_eq aes_nohw_set_encrypt_key_def split: if_splits)
next
  case (Inr k)
  note key = AES_set_key_for [OF Inr assms(1)]
  note block = aes_block_cipher [OF key(2)]
  show ?thesis
    using ctr32_buffers [OF block aes_counts [OF key] assms(2,3), of 0 cs] ctr128_bytes [OF block assms(2,3), of cs] key(2) assms(1)
    by (auto simp: Inr AES_ctr128_encrypt_def)
qed

lemma AES_ctr128_correct_witness:
  "\<exists>k. AES_set_encrypt_key (replicate 16 7) 128 = Inr k \<and>
    fst (run_chunks (AES_ctr128_encrypt k) ((replicate 16 0xff, replicate 16 0), 0) [[1], [2]]) =
    map (\<lambda>i. [1, 2] ! i XOR aes (replicate 16 7) (be_bytes 16 (be_nat (replicate 16 0xff) + i div 16)) ! (i mod 16)) [0..<2]"
  using AES_ctr128_correct [of "replicate 16 7" 128 "replicate 16 0xff" "replicate 16 0" "[[1], [2]]"]
  by (simp add: AES_set_encrypt_key_eq aes_nohw_set_encrypt_key_def upt_rec)

end
