(* ===== verification/Key_Wrap.thy ===== *)
theory Key_Wrap
  imports Aes_Modes Const_Time
begin

text \<open>
  Wrapping of keys with AES (\<open>crypto/fipsmodule/aes/key_wrap.c\<close>): RFC 3394, and RFC 5649 with padding. In the state
  \<open>(A, r)\<close> of the loops \<open>A\<close> holds the first eight bytes of the block \<open>A\<close> of the code, whose others are always written
  before they are read, and \<open>r\<close> the bytes from \<open>out + 8\<close> on (from \<open>out\<close> on to unwrap). The reference is the
  description of RFC 3394 as a shift register; the code leaves the blocks in place instead.
\<close>

section \<open>The code\<close>

definition kDefaultIV :: "u8 list" where
  "kDefaultIV = [0xa6, 0xa6, 0xa6, 0xa6, 0xa6, 0xa6, 0xa6, 0xa6]"

definition kBound :: nat where "kBound = 6"

text \<open>The eight bytes at index \<open>8 * i\<close>, read and written.\<close>

definition get8 :: "nat \<Rightarrow> u8 list \<Rightarrow> u8 list" where
  "get8 i r = take 8 (drop (8 * i) r)"

definition put8 :: "nat \<Rightarrow> u8 list \<Rightarrow> u8 list \<Rightarrow> u8 list" where
  "put8 i b r = take (8 * i) r @ b @ drop (8 * i + 8) r"

definition wrap_counter :: "u32 \<Rightarrow> u8 list \<Rightarrow> u8 list" where
  "wrap_counter t A =
     A[7 := A ! 7 XOR ucast (t AND 0xff), 6 := A ! 6 XOR ucast (drop_bit 8 t AND 0xff),
       5 := A ! 5 XOR ucast (drop_bit 16 t AND 0xff), 4 := A ! 4 XOR ucast (drop_bit 24 t AND 0xff)]"

definition wrap_step :: "aes_key \<Rightarrow> nat \<Rightarrow> nat \<Rightarrow> nat \<Rightarrow> u8 list \<times> u8 list \<Rightarrow> u8 list \<times> u8 list" where
  "wrap_step key n j i = (\<lambda>(A, r).
     let A = A @ get8 (i - 1) r;
         A = AES_encrypt A key;
         t = word_of_nat (n * j + i);
         A = wrap_counter t A
     in (take 8 A, put8 (i - 1) (drop 8 A) r))"

text \<open>The return value -1 is \<open>None\<close>.\<close>

definition AES_wrap_key :: "aes_key \<Rightarrow> u8 list option \<Rightarrow> u8 list \<Rightarrow> u8 list option" where
  "AES_wrap_key key iv inp =
     (if length inp > int_max - 8 \<or> length inp < 16 \<or> length inp mod 8 \<noteq> 0 then None
      else
        let iv = (case iv of None \<Rightarrow> kDefaultIV | Some iv \<Rightarrow> iv);
            n = length inp div 8
        in case fold (\<lambda>j. fold (wrap_step key n j) [1..<n + 1]) [0..<kBound] (take 8 iv, inp) of
             (A, r) \<Rightarrow> Some (A @ r))"

definition unwrap_step :: "aes_key \<Rightarrow> nat \<Rightarrow> nat \<Rightarrow> nat \<Rightarrow> u8 list \<times> u8 list \<Rightarrow> u8 list \<times> u8 list" where
  "unwrap_step key n j i = (\<lambda>(A, r).
     let t = word_of_nat (n * j + i);
         A = wrap_counter t A;
         A = AES_decrypt (A @ get8 (i - 1) r) key
     in (take 8 A, put8 (i - 1) (drop 8 A) r))"

text \<open>
  The outer loop counts an unsigned \<open>j\<close> down until it wraps around. The result is the vector and what \<open>out\<close> holds.
\<close>

definition aes_unwrap_key_inner :: "aes_key \<Rightarrow> u8 list \<Rightarrow> (u8 list \<times> u8 list) option" where
  "aes_unwrap_key_inner key inp =
     (if length inp > int_max \<or> length inp < 24 \<or> length inp mod 8 \<noteq> 0 then None
      else
        let n = length inp div 8 - 1
        in Some (fold (\<lambda>j. fold (unwrap_step key n j) (rev [1..<n + 1])) (rev [0..<kBound]) (take 8 inp, drop 8 inp)))"

text \<open>Not modelled is that \<open>out\<close> is written also when the vector turns out to be wrong.\<close>

definition AES_unwrap_key :: "aes_key \<Rightarrow> u8 list option \<Rightarrow> u8 list \<Rightarrow> u8 list option" where
  "AES_unwrap_key key iv inp =
     (case aes_unwrap_key_inner key inp of
        None \<Rightarrow> None
      | Some (calculated_iv, out) \<Rightarrow>
          let iv = (case iv of None \<Rightarrow> kDefaultIV | Some iv \<Rightarrow> iv)
          in if CRYPTO_memcmp calculated_iv iv 8 \<noteq> 0 then None else Some out)"

definition kPaddingConstant :: "u8 list" where
  "kPaddingConstant = [0xa6, 0x59, 0x59, 0xa6]"

text \<open>
  With padding. The return value 0, with which \<open>*out_len\<close> is 0, is \<open>None\<close>. Of \<open>padded_in\<close> the last eight bytes are
  cleared before the text is copied over them.
\<close>

definition AES_wrap_key_padded :: "(nat \<Rightarrow> bool) \<Rightarrow> aes_key \<Rightarrow> nat \<Rightarrow> u8 list \<Rightarrow> u8 list option" where
  "AES_wrap_key_padded sys key max_out inp =
     (let in_len = length inp;
          padded_len = size_add in_len 7 div 8 * 8
      in if in_len = 0 \<or> in_len > 0xffffffff \<or> size_add in_len 7 < in_len \<or>
            size_add padded_len 8 < padded_len \<or> max_out < size_add padded_len 8 then None
         else
           let block = kPaddingConstant @ u32_bytes (CRYPTO_bswap4 (word_of_nat in_len))
           in if in_len \<le> 8 then Some (AES_encrypt (block @ inp @ drop in_len (replicate 8 0)) key)
              else if \<not> OPENSSL_malloc sys padded_len then None
              else AES_wrap_key key (Some block) (inp @ drop (in_len - (padded_len - 8)) (replicate 8 0)))"

text \<open>The length in the vector, and the mask of the checks made without branches.\<close>

definition claimed_len :: "u8 list \<Rightarrow> crypto_word" where
  "claimed_len iv = ucast (CRYPTO_bswap4 (u32_of_bytes (drop 4 iv)))"

definition padding_ok :: "nat \<Rightarrow> u8 list \<Rightarrow> u8 list \<Rightarrow> crypto_word" where
  "padding_ok in_len iv out =
     (let ok = constant_time_eq_int (word_of_int (CRYPTO_memcmp iv kPaddingConstant (length kPaddingConstant))) 0;
          ok = ok AND NOT (constant_time_is_zero_w (claimed_len iv));
          ok = ok AND constant_time_eq_w (drop_bit 3 (claimed_len iv - 1)) (drop_bit 3 (word_of_nat in_len - 9))
      in fold (\<lambda>i ok. ok AND constant_time_is_zero_w (ucast (constant_time_ge_8 (word_of_nat i) (claimed_len iv) AND out ! i)))
           [in_len - 15..<in_len - 8] ok)"

definition AES_unwrap_key_padded :: "aes_key \<Rightarrow> nat \<Rightarrow> u8 list \<Rightarrow> u8 list option" where
  "AES_unwrap_key_padded key max_out inp =
     (let in_len = length inp in
      if in_len < 16 \<or> max_out < in_len - 8 then None
      else
        case (if in_len = 16 then let block = AES_decrypt inp key in Some (take 8 block, drop 8 block)
              else aes_unwrap_key_inner key inp) of
          None \<Rightarrow> None
        | Some (iv, out) \<Rightarrow>
            let ok = padding_ok in_len iv out;
                out_len = constant_time_select_w ok (claimed_len iv) 0
            in if ok AND 1 = 1 then Some (take (unat out_len) out) else None)"

section \<open>The shift register\<close>

definition kw_step :: "(u8 list \<Rightarrow> u8 list) \<Rightarrow> nat \<Rightarrow> u8 list \<times> u8 list list \<Rightarrow> u8 list \<times> u8 list list" where
  "kw_step enc t = (\<lambda>(A, R).
     let B = enc (A @ hd R) in (map2 (XOR) (take 8 B) (be_bytes 8 t), tl R @ [drop 8 B]))"

definition kw_blocks :: "u8 list \<Rightarrow> u8 list list" where
  "kw_blocks bs = map (\<lambda>i. get8 i bs) [0..<length bs div 8]"

definition kw_wrap :: "(u8 list \<Rightarrow> u8 list) \<Rightarrow> u8 list \<Rightarrow> u8 list \<Rightarrow> u8 list" where
  "kw_wrap enc iv p =
     (case fold (kw_step enc) [1..<6 * (length p div 8) + 1] (iv, kw_blocks p) of (A, R) \<Rightarrow> A @ concat R)"

section \<open>Blocks and counters\<close>

lemma length_get8 [simp]: "8 * i + 8 \<le> length r \<Longrightarrow> length (get8 i r) = 8"
  by (simp add: get8_def)

lemma length_put8 [simp]: "8 * i + 8 \<le> length r \<Longrightarrow> length b = 8 \<Longrightarrow> length (put8 i b r) = length r"
  by (simp add: put8_def)

lemma get8_put8:
  assumes "8 * i + 8 \<le> length r" and "length b = 8"
  shows "get8 i (put8 i b r) = b" and "put8 i (get8 i r) r = r" and "put8 i c (put8 i b r) = put8 i c r"
proof -
  show "get8 i (put8 i b r) = b" "put8 i c (put8 i b r) = put8 i c r"
    using assms by (simp_all add: get8_def put8_def)
  show "put8 i (get8 i r) r = r"
    by (simp add: get8_def put8_def add.commute flip: append_assoc take_add)
qed

lemma get8_put8_other:
  assumes "8 * i + 8 \<le> length r" and "8 * k + 8 \<le> length r" and "length b = 8" and "k \<noteq> i"
  shows "get8 k (put8 i b r) = get8 k r"
proof -
  consider "8 * k + 8 \<le> 8 * i" | "8 * i + 8 \<le> 8 * k" using assms(4) by linarith
  then show ?thesis
  proof cases
    case 1
    have "take 8 (take (8 * i - 8 * k) (drop (8 * k) r)) = take 8 (drop (8 * k) r)"
      using 1 by (simp add: min_def)
    then show ?thesis using 1 assms by (simp add: get8_def put8_def drop_take)
  next
    case 2
    then show ?thesis using assms by (simp add: get8_def put8_def)
  qed
qed

lemma length_kw_blocks [simp]: "length (kw_blocks bs) = length bs div 8"
  by (simp add: kw_blocks_def)

lemma kw_blocks_put8:
  assumes "8 * i + 8 \<le> length r" and "length b = 8"
  shows "kw_blocks (put8 i b r) = (kw_blocks r)[i := b]"
  using assms by (intro nth_equalityI) (auto simp: kw_blocks_def nth_list_update get8_put8 get8_put8_other)

lemma concat_kw_blocks: "8 dvd length bs \<Longrightarrow> concat (kw_blocks bs) = bs"
proof -
  have "concat (map (\<lambda>i. get8 i bs) [0..<n]) = take (8 * n) bs" for n
    by (induction n) (simp_all add: get8_def take_add [of "8 * _" 8, symmetric] add.commute)
  then show "8 dvd length bs \<Longrightarrow> concat (kw_blocks bs) = bs" by (simp add: kw_blocks_def)
qed

lemma length_wrap_counter [simp]: "length (wrap_counter t A) = length A"
  by (simp add: wrap_counter_def)

lemma wrap_counter_append: "length A = 8 \<Longrightarrow> wrap_counter t (A @ B) = wrap_counter t A @ B"
  by (simp add: wrap_counter_def list_update_append nth_append)

lemma wrap_counter_twice: "8 \<le> length A \<Longrightarrow> wrap_counter t (wrap_counter t A) = A"
  by (intro nth_equalityI) (simp_all add: wrap_counter_def nth_list_update xor.assoc)

lemma wrap_counter_bytes:
  assumes "length A = 8" and "t < 2 ^ 32"
  shows "wrap_counter (word_of_nat t) A = map2 (XOR) A (be_bytes 8 t)"
proof -
  obtain a b c d e f g h where A: "A = [a, b, c, d, e, f, g, h]"
    using assms(1) by (auto simp: numeral_eq_Suc length_Suc_conv)
  have ff: "(0xff :: u32) = mask 8" by (simp add: mask_eq_exp_minus_1)
  have byte: "(ucast (drop_bit k (word_of_nat t :: u32) AND 0xff) :: u8) = word_of_nat (t div 2 ^ k)" for k
  proof -
    have "(ucast (drop_bit k (word_of_nat t :: u32) AND 0xff) :: u8) = ucast (drop_bit k (word_of_nat t :: u32))"
      by (rule bit_word_eqI) (auto simp: bit_simps ff dest: bit_imp_le_length)
    also have "\<dots> = word_of_nat (t div 2 ^ k)"
      using assms(2) by (simp add: word_unat_eq_iff unsigned_ucast_eq unat_drop_bit_eq unat_of_nat take_bit_eq_mod flip: drop_bit_eq_div)
    finally show ?thesis .
  qed
  have high: "t div 2 ^ 32 = 0" "t div 2 ^ 40 = 0" "t div 2 ^ 48 = 0" "t div 2 ^ 56 = 0" using assms(2) by simp_all
  show ?thesis
    using byte [of 0] byte [of 8] byte [of 16] byte [of 24] high
    by (simp add: A wrap_counter_def be_bytes_numeral div_mult2_eq [symmetric])
qed

section \<open>Unwrapping undoes wrapping\<close>

definition kw_state :: "nat \<Rightarrow> u8 list \<times> u8 list \<Rightarrow> bool" where
  "kw_state n s \<longleftrightarrow> length (fst s) = 8 \<and> length (snd s) = 8 * n"

lemma AES_length:
  assumes "aes_key_for key k" and "length key \<in> {16, 24, 32}" and "length b = 16"
  shows "length (AES_encrypt b k) = 16" and "length (AES_decrypt b k) = 16"
    and "AES_decrypt (AES_encrypt b k) k = b" and "AES_encrypt (AES_decrypt b k) k = b"
  using assms block_length [OF aes_block_cipher [OF assms(2)] assms(3)] block_length [OF aes_inv_block_cipher [OF assms(2)] assms(3)]
  by (simp_all add: AES_block aes_inv_aes aes_aes_inv)

lemma wrap_step_eq:
  assumes "aes_key_for key k" and "length key \<in> {16, 24, 32}" and "length A = 8" and "8 * m + 8 \<le> length r"
  shows "wrap_step k n j (Suc m) (A, r) =
    (let B = AES_encrypt (A @ get8 m r) k in (wrap_counter (word_of_nat (n * j + Suc m)) (take 8 B), put8 m (drop 8 B) r))"
proof -
  define B where "B = AES_encrypt (A @ get8 m r) k"
  have "length B = 16" using AES_length(1) [OF assms(1,2), of "A @ get8 m r"] assms(3,4) by (simp add: B_def)
  then have B: "wrap_counter t B = wrap_counter t (take 8 B) @ drop 8 B" for t
    using wrap_counter_append [of "take 8 B" t "drop 8 B"] by simp
  show ?thesis using \<open>length B = 16\<close> by (simp add: wrap_step_def Let_def B flip: B_def)
qed

lemma unwrap_step_eq:
  "unwrap_step k n j (Suc m) (A, r) =
    (let B = AES_decrypt (wrap_counter (word_of_nat (n * j + Suc m)) A @ get8 m r) k in (take 8 B, put8 m (drop 8 B) r))"
  by (simp add: unwrap_step_def)

lemma steps_undo:
  assumes "aes_key_for key k" and "length key \<in> {16, 24, 32}" and "i \<in> set [1..<n + 1]" and "kw_state n s"
  shows "kw_state n (wrap_step k n j i s) \<and> unwrap_step k n j i (wrap_step k n j i s) = s"
    and "kw_state n (unwrap_step k n j i s) \<and> wrap_step k n j i (unwrap_step k n j i s) = s"
proof -
  obtain A r where s: "s = (A, r)" and len: "length A = 8" "length r = 8 * n" using assms(4) by (cases s) (auto simp: kw_state_def)
  obtain m where i: "i = Suc m" and m: "8 * m + 8 \<le> length r" using that [of "i - 1"] assms(3) len by auto
  define t :: u32 where "t = word_of_nat (n * j + i)"
  define B where "B = AES_encrypt (A @ get8 m r) k"
  have B: "length B = 16" "AES_decrypt B k = A @ get8 m r"
    using AES_length [OF assms(1,2), of "A @ get8 m r"] len m by (simp_all add: B_def)
  have wrap: "wrap_step k n j i s = (wrap_counter t (take 8 B), put8 m (drop 8 B) r)"
    using wrap_step_eq [OF assms(1,2) len(1) m] by (simp add: s i Let_def t_def B_def)
  have "unwrap_step k n j i (wrap_step k n j i s) = (A, put8 m (get8 m r) r)"
    unfolding wrap unfolding i unwrap_step_eq Let_def t_def [symmetric, unfolded i]
    using B len m by (simp add: wrap_counter_twice get8_put8)
  moreover have "kw_state n (wrap_step k n j i s)" unfolding wrap using B(1) len m by (simp add: kw_state_def)
  ultimately show "kw_state n (wrap_step k n j i s) \<and> unwrap_step k n j i (wrap_step k n j i s) = s"
    using len m by (simp add: s get8_put8)
  define D where "D = AES_decrypt (wrap_counter t A @ get8 m r) k"
  have D: "length D = 16" "AES_encrypt D k = wrap_counter t A @ get8 m r"
    using AES_length [OF assms(1,2), of "wrap_counter t A @ get8 m r"] len m by (simp_all add: D_def)
  have unwrap: "unwrap_step k n j i s = (take 8 D, put8 m (drop 8 D) r)"
    by (simp add: unwrap_step_eq s i Let_def D_def t_def)
  have "wrap_step k n j i (unwrap_step k n j i s) = (A, put8 m (get8 m r) r)"
    unfolding unwrap using wrap_step_eq [OF assms(1,2), of "take 8 D" m "put8 m (drop 8 D) r" n j] D len m
    by (simp add: i Let_def wrap_counter_twice get8_put8 t_def)
  moreover have "kw_state n (unwrap_step k n j i s)" unfolding unwrap using D(1) len m by (simp add: kw_state_def)
  ultimately show "kw_state n (unwrap_step k n j i s) \<and> wrap_step k n j i (unwrap_step k n j i s) = s"
    using len m by (simp add: s get8_put8)
qed

abbreviation wrap_rounds :: "aes_key \<Rightarrow> nat \<Rightarrow> u8 list \<times> u8 list \<Rightarrow> u8 list \<times> u8 list" where
  "wrap_rounds k n \<equiv> fold (\<lambda>j. fold (wrap_step k n j) [1..<n + 1]) [0..<kBound]"

abbreviation unwrap_rounds :: "aes_key \<Rightarrow> nat \<Rightarrow> u8 list \<times> u8 list \<Rightarrow> u8 list \<times> u8 list" where
  "unwrap_rounds k n \<equiv> fold (\<lambda>j. fold (unwrap_step k n j) (rev [1..<n + 1])) (rev [0..<kBound])"

lemma rounds_undo:
  assumes "aes_key_for key k" and "length key \<in> {16, 24, 32}" and "kw_state n s"
  shows "kw_state n (wrap_rounds k n s) \<and> unwrap_rounds k n (wrap_rounds k n s) = s"
    and "kw_state n (unwrap_rounds k n s) \<and> wrap_rounds k n (unwrap_rounds k n s) = s"
proof -
  have inner: "kw_state n (fold (wrap_step k n j) [1..<n + 1] s) \<and>
      fold (unwrap_step k n j) (rev [1..<n + 1]) (fold (wrap_step k n j) [1..<n + 1] s) = s" if "kw_state n s" for j s
    using that by (intro fold_undo steps_undo(1) [OF assms(1,2)])
  show "kw_state n (wrap_rounds k n s) \<and> unwrap_rounds k n (wrap_rounds k n s) = s"
    by (rule fold_undo [where P = "kw_state n"]) (use inner assms(3) in blast)+
  have outer: "kw_state n (fold (unwrap_step k n j) (rev [1..<n + 1]) s) \<and>
      fold (wrap_step k n j) (rev (rev [1..<n + 1])) (fold (unwrap_step k n j) (rev [1..<n + 1]) s) = s" if "kw_state n s" for j s
    using that by (intro fold_undo steps_undo(2) [OF assms(1,2)]) (simp only: set_rev)
  have "kw_state n (unwrap_rounds k n s) \<and>
      fold (\<lambda>j. fold (wrap_step k n j) [1..<n + 1]) (rev (rev [0..<kBound])) (unwrap_rounds k n s) = s"
    by (rule fold_undo [where P = "kw_state n"]) (use outer assms(3) in \<open>simp_all only: rev_rev_ident\<close>)
  then show "kw_state n (unwrap_rounds k n s) \<and> wrap_rounds k n (unwrap_rounds k n s) = s"
    by (simp only: rev_rev_ident)
qed

lemma AES_wrap_key_eq:
  assumes "length p \<le> int_max - 8" and "16 \<le> length p" and "8 dvd length p"
  shows "AES_wrap_key k (Some iv) p = Some (case wrap_rounds k (length p div 8) (take 8 iv, p) of (A, r) \<Rightarrow> A @ r)"
  using assms by (simp add: AES_wrap_key_def dvd_eq_mod_eq_0 split: prod.split)

lemma AES_wrap_key_None:
  "length p > int_max - 8 \<or> length p < 16 \<or> \<not> 8 dvd length p \<Longrightarrow> AES_wrap_key k iv p = None"
  by (auto simp: AES_wrap_key_def dvd_eq_mod_eq_0)

text \<open>What the inner function accepts are the texts that wrapping with the vector it returns gives.\<close>

lemma unwrap_inner_iff:
  assumes "aes_key_for key k" and "length key \<in> {16, 24, 32}"
  shows "aes_unwrap_key_inner k c = Some (iv, p) \<longleftrightarrow> length iv = 8 \<and> AES_wrap_key k (Some iv) p = Some c"
proof
  assume *: "aes_unwrap_key_inner k c = Some (iv, p)"
  let ?n = "length c div 8 - 1"
  have len: "length c \<le> int_max" "24 \<le> length c" "8 dvd length c"
    and r: "unwrap_rounds k ?n (take 8 c, drop 8 c) = (iv, p)"
    using * by (auto simp: aes_unwrap_key_inner_def Let_def dvd_eq_mod_eq_0 split: if_splits)
  have "kw_state ?n (take 8 c, drop 8 c)" using len by (auto simp: kw_state_def)
  from rounds_undo(2) [OF assms this] have "length iv = 8" "length p = 8 * ?n" "wrap_rounds k ?n (iv, p) = (take 8 c, drop 8 c)"
    unfolding r by (simp_all add: kw_state_def)
  moreover from this len have "length p \<le> int_max - 8" "16 \<le> length p" "8 dvd length p" by auto
  ultimately show "length iv = 8 \<and> AES_wrap_key k (Some iv) p = Some c"
    using len by (simp add: AES_wrap_key_eq)
next
  assume *: "length iv = 8 \<and> AES_wrap_key k (Some iv) p = Some c"
  let ?n = "length p div 8"
  have len: "length p \<le> int_max - 8" "16 \<le> length p" "8 dvd length p"
    using * AES_wrap_key_None [of p k "Some iv"] by (metis not_less option.distinct(1))+
  obtain A r where rounds: "wrap_rounds k ?n (iv, p) = (A, r)" by fastforce
  have "take 8 iv = iv" using * by simp
  then have c: "c = A @ r" using * by (simp only: AES_wrap_key_eq [OF len] rounds prod.case option.inject)
  have "kw_state ?n (iv, p)" using * len by (auto simp: kw_state_def)
  from rounds_undo(1) [OF assms this] have "length A = 8" "length r = 8 * ?n" "unwrap_rounds k ?n (A, r) = (iv, p)"
    unfolding rounds by (simp_all add: kw_state_def)
  moreover from this len have "length c \<le> int_max" "24 \<le> length c" "8 dvd length c" "length c div 8 - 1 = ?n" by (auto simp: c)
  ultimately show "aes_unwrap_key_inner k c = Some (iv, p)"
    by (simp add: aes_unwrap_key_inner_def dvd_eq_mod_eq_0 c)
qed

section \<open>Wrapping is the shift register\<close>

lemma kw_step_wrap:
  assumes "aes_key_for key k" and "length key \<in> {16, 24, 32}" and "kw_state n (A, r)" and "i < n"
    and "n * j + Suc i < 2 ^ 32" and "wrap_step k n j (Suc i) (A, r) = (A', r')"
  shows "kw_step (aes key) (n * j + Suc i) (A, drop i (kw_blocks r) @ take i (kw_blocks r)) =
      (A', drop (Suc i) (kw_blocks r') @ take (Suc i) (kw_blocks r'))"
    and "kw_state n (A', r')"
proof -
  have len: "length A = 8" "length r = 8 * n" "8 * i + 8 \<le> length r" using assms(3,4) by (simp_all add: kw_state_def)
  define bs where "bs = kw_blocks r"
  have bs: "length bs = n" "bs ! i = get8 i r" using len assms(4) by (simp_all add: bs_def kw_blocks_def)
  define B where "B = AES_encrypt (A @ get8 i r) k"
  have B: "length B = 16" "aes key (A @ get8 i r) = B"
    using AES_length(1) [OF assms(1,2), of "A @ get8 i r"] AES_block(1) [OF assms(1), of "A @ get8 i r"] len by (simp_all add: B_def)
  have step: "A' = map2 (XOR) (take 8 B) (be_bytes 8 (n * j + Suc i))" "r' = put8 i (drop 8 B) r"
    using wrap_step_eq [OF assms(1,2) len(1,3), of n j] wrap_counter_bytes [of "take 8 B" "n * j + Suc i"] assms(5,6) B(1)
    by (simp_all add: B_def Let_def)
  have "drop i bs = bs ! i # drop (Suc i) bs"
    using Cons_nth_drop_Suc [of i bs] bs(1) assms(4) by simp
  then have "hd (drop i bs @ take i bs) = get8 i r" "tl (drop i bs @ take i bs) = drop (Suc i) bs @ take i bs"
    using bs by simp_all
  moreover have "kw_blocks r' = bs[i := drop 8 B]" using len B by (simp add: step kw_blocks_put8 bs_def)
  moreover have "take (Suc i) (bs[i := drop 8 B]) = take i bs @ [drop 8 B]"
    using bs assms(4) by (simp add: take_Suc_conv_app_nth)
  ultimately show "kw_step (aes key) (n * j + Suc i) (A, drop i (kw_blocks r) @ take i (kw_blocks r)) =
      (A', drop (Suc i) (kw_blocks r') @ take (Suc i) (kw_blocks r'))"
    using B by (simp add: kw_step_def Let_def step(1) flip: bs_def)
  show "kw_state n (A', r')" using len B by (simp add: kw_state_def step)
qed

lemma kw_steps_wrap:
  assumes "aes_key_for key k" and "length key \<in> {16, 24, 32}" and "kw_state n (A, r)" and "n * j + n < 2 ^ 32" and "i \<le> n"
    and "fold (wrap_step k n j) [1..<i + 1] (A, r) = (A', r')"
  shows "fold (kw_step (aes key)) [n * j + 1..<n * j + i + 1] (A, kw_blocks r) =
      (A', drop i (kw_blocks r') @ take i (kw_blocks r')) \<and> kw_state n (A', r')"
  using assms(5,6)
proof (induction i arbitrary: A' r')
  case 0
  then show ?case using assms(3) by simp
next
  case (Suc i)
  obtain A1 r1 where mid: "fold (wrap_step k n j) [1..<i + 1] (A, r) = (A1, r1)" by fastforce
  have last: "wrap_step k n j (Suc i) (A1, r1) = (A', r')"
    using Suc.prems(2) mid by (simp del: upt_Suc add: upt_Suc_append)
  from Suc.IH [OF _ mid] Suc.prems have IH: "fold (kw_step (aes key)) [n * j + 1..<n * j + i + 1] (A, kw_blocks r) =
      (A1, drop i (kw_blocks r1) @ take i (kw_blocks r1))" "kw_state n (A1, r1)" by auto
  have "[n * j + 1..<n * j + Suc i + 1] = [n * j + 1..<n * j + i + 1] @ [n * j + Suc i]"
    by (simp del: upt_Suc add: upt_Suc_append)
  with IH kw_step_wrap [OF assms(1,2) IH(2) _ _ last] Suc.prems assms(4) show ?case by (simp del: upt_Suc)
qed

lemma kw_rounds_wrap:
  assumes "aes_key_for key k" and "length key \<in> {16, 24, 32}" and "kw_state n (A, r)" and "n * m < 2 ^ 32"
    and "fold (\<lambda>j. fold (wrap_step k n j) [1..<n + 1]) [0..<m] (A, r) = (A', r')"
  shows "fold (kw_step (aes key)) [1..<n * m + 1] (A, kw_blocks r) = (A', kw_blocks r') \<and> kw_state n (A', r')"
  using assms(4,5)
proof (induction m arbitrary: A' r')
  case 0
  then show ?case using assms(3) by simp
next
  case (Suc m)
  obtain A1 r1 where mid: "fold (\<lambda>j. fold (wrap_step k n j) [1..<n + 1]) [0..<m] (A, r) = (A1, r1)" by fastforce
  have last: "fold (wrap_step k n m) [1..<n + 1] (A1, r1) = (A', r')" using Suc.prems(2) mid by simp
  have IH: "fold (kw_step (aes key)) [1..<n * m + 1] (A, kw_blocks r) = (A1, kw_blocks r1)" "kw_state n (A1, r1)"
    using Suc.IH [OF _ mid] Suc.prems(1) by auto
  have "[1..<n * Suc m + 1] = [1..<n * m + 1] @ [n * m + 1..<n * m + n + 1]"
    using upt_add_eq_append [of 1 "n * m + 1" n] by (simp add: add.commute add.left_commute del: upt_Suc)
  moreover from kw_steps_wrap [OF assms(1,2) IH(2) _ order.refl last] Suc.prems(1)
  have "fold (kw_step (aes key)) [n * m + 1..<n * m + n + 1] (A1, kw_blocks r1) =
      (A', drop n (kw_blocks r') @ take n (kw_blocks r'))" "kw_state n (A', r')" by (auto simp: add.commute)
  moreover from this(2) have "length (kw_blocks r') = n" by (simp add: kw_state_def)
  ultimately show ?case using IH by (simp del: upt_Suc)
qed

lemma AES_wrap_key_is_kw:
  assumes "aes_key_for key k" and "length key \<in> {16, 24, 32}" and "length iv = 8"
    and "length p \<le> int_max - 8" and "16 \<le> length p" and "8 dvd length p"
  shows "AES_wrap_key k (Some iv) p = Some (kw_wrap (aes key) iv p)"
proof -
  let ?n = "length p div 8"
  obtain A r where rounds: "wrap_rounds k ?n (iv, p) = (A, r)" by fastforce
  have "kw_state ?n (iv, p)" using assms(3,6) by (auto simp: kw_state_def)
  moreover have "?n * 6 < 2 ^ 32" using assms(4) by simp
  ultimately have "fold (kw_step (aes key)) [1..<?n * 6 + 1] (iv, kw_blocks p) = (A, kw_blocks r) \<and> kw_state ?n (A, r)"
    using kw_rounds_wrap [OF assms(1,2), of ?n iv p 6 A r] rounds by (simp only: kBound_def)
  moreover from this have "8 dvd length r" by (simp add: kw_state_def)
  ultimately have "kw_wrap (aes key) iv p = A @ r" by (simp only: kw_wrap_def mult.commute prod.case concat_kw_blocks)
  moreover have "take 8 iv = iv" using assms(3) by simp
  ultimately show ?thesis by (simp only: AES_wrap_key_eq [OF assms(4-6)] rounds prod.case)
qed

lemma AES_unwrap_iff:
  assumes "aes_key_for key k" and "length key \<in> {16, 24, 32}" and "case iv of None \<Rightarrow> True | Some v \<Rightarrow> length v = 8"
  shows "AES_unwrap_key k iv c = Some p \<longleftrightarrow> AES_wrap_key k iv p = Some c"
proof -
  define v where "v = (case iv of None \<Rightarrow> kDefaultIV | Some iv \<Rightarrow> iv)"
  have v: "length v = 8" using assms(3) by (auto simp: v_def kDefaultIV_def split: option.splits)
  have wrap: "AES_wrap_key k iv p = AES_wrap_key k (Some v) p" by (simp add: AES_wrap_key_def v_def)
  have "AES_unwrap_key k iv c = Some p \<longleftrightarrow> aes_unwrap_key_inner k c = Some (v, p)"
  proof (cases "aes_unwrap_key_inner k c")
    case (Some x)
    then have "length (fst x) = 8" using unwrap_inner_iff [OF assms(1,2), of c "fst x" "snd x"] by simp
    then have "CRYPTO_memcmp (fst x) v 8 = 0 \<longleftrightarrow> fst x = v" using v by (simp add: CRYPTO_memcmp_eq_0)
    then show ?thesis using Some by (cases x) (auto simp: AES_unwrap_key_def Let_def simp flip: v_def)
  qed (simp add: AES_unwrap_key_def)
  with unwrap_inner_iff [OF assms(1,2)] v wrap show ?thesis by simp
qed

section \<open>Padding\<close>

text \<open>The number of bytes that fill up the last eight.\<close>

lemma padded_length:
  assumes "0 < m" and "m \<le> 0xffffffff"
  shows "size_add m 7 = m + 7" and "m \<le> (m + 7) div 8 * 8" and "(m + 7) div 8 * 8 < m + 8"
    and "size_add ((m + 7) div 8 * 8) 8 = (m + 7) div 8 * 8 + 8" and "8 \<le> (m + 7) div 8 * 8"
proof -
  obtain q where q: "(m + 7) div 8 = q" by simp
  have "8 * q \<le> m + 7" "m + 7 < 8 * q + 8" using q by (auto simp: less_mult_imp_div_less)
  then show "size_add m 7 = m + 7" "m \<le> (m + 7) div 8 * 8" "(m + 7) div 8 * 8 < m + 8"
    "size_add ((m + 7) div 8 * 8) 8 = (m + 7) div 8 * 8 + 8" "8 \<le> (m + 7) div 8 * 8"
    unfolding q using assms by (simp_all add: size_simps)
qed

definition kw_padded :: "u8 list \<Rightarrow> u8 list" where
  "kw_padded p = p @ replicate ((length p + 7) div 8 * 8 - length p) 0"

definition kw_padding_iv :: "nat \<Rightarrow> u8 list" where
  "kw_padding_iv m = kPaddingConstant @ be_bytes 4 m"

lemma padding_block:
  assumes "m \<le> 0xffffffff"
  shows "kPaddingConstant @ u32_bytes (CRYPTO_bswap4 (word_of_nat m)) = kw_padding_iv m"
proof -
  have "unat (word_of_nat m :: u32) = m" using assms by (simp add: unat_of_nat take_bit_eq_mod)
  then show ?thesis using store_u32_be [of "word_of_nat m"] by (simp add: kw_padding_iv_def CRYPTO_store_u32_be_def)
qed

abbreviation padded_len :: "u8 list \<Rightarrow> nat" where
  "padded_len p \<equiv> (length p + 7) div 8 * 8"

lemma AES_wrap_key_padded_sys:
  "AES_wrap_key_padded sys k max_out p =
    (if p = [] \<or> length p > 0xffffffff \<or> max_out < padded_len p + 8 \<or> 8 < length p \<and> \<not> OPENSSL_malloc sys (padded_len p) then None
     else if length p \<le> 8 then Some (AES_encrypt (kw_padding_iv (length p) @ kw_padded p) k)
     else AES_wrap_key k (Some (kw_padding_iv (length p))) (kw_padded p))"
proof (cases "p = [] \<or> length p > 0xffffffff")
  case True
  then show ?thesis by (auto simp: AES_wrap_key_padded_def Let_def)
next
  case False
  define L where "L = padded_len p"
  note pl = padded_length [of "length p", folded L_def]
  have p: "0 < length p" "length p \<le> 0xffffffff" using False by auto
  have "p @ drop (length p) (replicate 8 0) = kw_padded p" if "length p \<le> 8"
  proof -
    have "L = 8" using that pl(3,5) [OF p] p unfolding L_def by auto
    then show ?thesis by (simp add: kw_padded_def flip: L_def)
  qed
  moreover have "p @ drop (length p - (L - 8)) (replicate 8 0) = kw_padded p"
  proof -
    have "8 - (length p - (L - 8)) = L - length p" using pl(2,3,5) [OF p] by auto
    then show ?thesis by (simp add: kw_padded_def flip: L_def)
  qed
  ultimately show ?thesis
    using False pl [OF p] padding_block [OF p(2)]
    by (simp add: AES_wrap_key_padded_def Let_def flip: L_def append_assoc)
qed

lemma AES_wrap_key_padded_eq:
  "AES_wrap_key_padded (\<lambda>_. True) k max_out p =
    (if p = [] \<or> length p > 0xffffffff \<or> max_out < padded_len p + 8 then None
     else if length p \<le> 8 then Some (AES_encrypt (kw_padding_iv (length p) @ kw_padded p) k)
     else AES_wrap_key k (Some (kw_padding_iv (length p))) (kw_padded p))"
  by (cases "length p \<le> 0xffffffff") (simp_all add: AES_wrap_key_padded_sys)

lemma mask_and: "(mask_of a :: crypto_word) AND mask_of b = mask_of (a \<and> b)" "NOT (mask_of a :: crypto_word) = mask_of (\<not> a)"
  by simp_all

lemma ucast_u8_eq_0: "(ucast (a :: u8) = (0 :: u32)) \<longleftrightarrow> a = 0" "(ucast (a :: u8) = (0 :: crypto_word)) \<longleftrightarrow> a = 0"
  by (simp_all add: word_unat_eq_iff unat_ucast_up)

lemma zero_bytes_mask:
  "fold (\<lambda>i ok. ok AND constant_time_is_zero_w (ucast (constant_time_ge_8 (word_of_nat i) m AND out ! i))) is (mask_of ok) =
    mask_of (ok \<and> (\<forall>i\<in>set is. m \<le> word_of_nat i \<longrightarrow> out ! i = 0))"
proof (induction "is" arbitrary: ok)
  case (Cons i js)
  have "constant_time_is_zero_w (ucast (constant_time_ge_8 (word_of_nat i) m AND out ! i)) =
      mask_of (m \<le> word_of_nat i \<longrightarrow> out ! i = 0)"
  proof (cases "m \<le> word_of_nat i")
    case True
    then show ?thesis by (simp add: const_time ucast_u8_eq_0)
  qed (simp add: const_time)
  then show ?case unfolding fold_simps o_apply mask_and by (simp add: Cons.IH mask_and conj_assoc del: const_time)
qed simp

lemma claimed_blocks:
  fixes m L :: nat
  assumes "0 < m" and "8 dvd L" and "0 < L"
  shows "(m - 1) div 8 = (L - 1) div 8 \<longleftrightarrow> (m + 7) div 8 * 8 = L"
proof -
  obtain q where q: "L = 8 * q" "0 < q" using assms(2,3) by auto
  have "(m + 7) div 8 = (m - 1 + 8) div 8" using assms(1) by simp
  then have "(m + 7) div 8 = Suc ((m - 1) div 8)" by simp
  moreover have "Suc x * 8 = 8 * q \<longleftrightarrow> x = q - 1" for x using q by auto
  moreover have "(L - 1) div 8 = q - 1" using q by (cases q) auto
  ultimately show ?thesis using q by simp
qed

lemma padding_zero:
  assumes "length out = L" and "L - 7 \<le> m" and "m \<le> L" and "(m + 7) div 8 * 8 = L"
  shows "(\<forall>i\<in>set [L - 7..<L]. m \<le> i \<longrightarrow> out ! i = 0) \<longleftrightarrow> out = kw_padded (take m out)"
proof -
  have "kw_padded (take m out) = take m out @ replicate (L - m) 0" using assms by (simp add: kw_padded_def)
  then have "out = kw_padded (take m out) \<longleftrightarrow> drop m out = replicate (L - m) 0"
    by (metis append_take_drop_id same_append_eq)
  also have "\<dots> \<longleftrightarrow> (\<forall>i < L - m. out ! (m + i) = 0)" using assms(1) by (simp add: list_eq_iff_nth_eq)
  also have "\<dots> \<longleftrightarrow> (\<forall>i. m + i < L \<longrightarrow> out ! (m + i) = 0)" by (simp add: less_diff_conv add.commute)
  also have "\<dots> \<longleftrightarrow> (\<forall>i. m \<le> i \<and> i < L \<longrightarrow> out ! i = 0)" by (auto simp: le_iff_add)
  also have "\<dots> \<longleftrightarrow> (\<forall>i\<in>set [L - 7..<L]. m \<le> i \<longrightarrow> out ! i = 0)" using assms(2) by auto
  finally show ?thesis by blast
qed

lemma wrap_key_length:
  assumes "aes_key_for key k" and "length key \<in> {16, 24, 32}" and "length v = 8" and "AES_wrap_key k (Some v) p = Some c"
  shows "16 \<le> length p" and "8 dvd length p" and "length c = length p + 8" and "length p \<le> int_max - 8"
proof -
  show p: "16 \<le> length p" "8 dvd length p" "length p \<le> int_max - 8"
    using assms(4) AES_wrap_key_None [of p k "Some v"] by (metis not_less option.distinct(1))+
  obtain A r where rounds: "wrap_rounds k (length p div 8) (v, p) = (A, r)" by fastforce
  have "kw_state (length p div 8) (v, p)" using assms(3) p by (auto simp: kw_state_def)
  from rounds_undo(1) [OF assms(1,2) this] rounds have "length A = 8" "length r = length p" using p by (auto simp: kw_state_def)
  moreover have "c = A @ r" using assms(3,4) rounds by (simp add: AES_wrap_key_eq [OF p(3,1,2)])
  ultimately show "length c = length p + 8" by simp
qed

lemma padded_inner_iff:
  assumes "aes_key_for key k" and "length key \<in> {16, 24, 32}"
  shows "(if length c = 16 then Some (take 8 (AES_decrypt c k), drop 8 (AES_decrypt c k)) else aes_unwrap_key_inner k c) =
      Some (v, out) \<longleftrightarrow>
    length v = 8 \<and> (if length out \<le> 8 then length out = 8 \<and> AES_encrypt (v @ out) k = c else AES_wrap_key k (Some v) out = Some c)"
    (is "?inner \<longleftrightarrow> ?wrapped")
proof (cases "length c = 16")
  case True
  note len = AES_length [OF assms True]
  have "AES_encrypt (v @ out) k = c \<longleftrightarrow> v @ out = AES_decrypt c k" if "length v = 8" "length out = 8"
    using AES_length(3) [OF assms, of "v @ out"] len(4) that by auto
  moreover have "length c = length out + 8 \<and> 16 \<le> length out" if "AES_wrap_key k (Some v) out = Some c" "length v = 8"
    using wrap_key_length [OF assms] that by blast
  moreover have "?inner \<longleftrightarrow> length v = 8 \<and> length out = 8 \<and> v @ out = AES_decrypt c k"
    using True len(2) by (auto simp: append_eq_conv_conj)
  ultimately show ?thesis using True by auto
next
  case False
  have "\<not> (length v = 8 \<and> length out = 8 \<and> AES_encrypt (v @ out) k = c)" using AES_length(1) [OF assms, of "v @ out"] False by auto
  moreover have "\<not> length out \<le> 8" if "AES_wrap_key k (Some v) out = Some c" "length v = 8"
    using wrap_key_length(1) [OF assms] that by force
  ultimately show ?thesis using False by (auto simp: unwrap_inner_iff [OF assms])
qed

lemma claimed_len_padding_iv:
  assumes "m \<le> 0xffffffff"
  shows "unat (claimed_len (kw_padding_iv m)) = m"
proof -
  have "drop 4 (kw_padding_iv m) = u32_bytes (CRYPTO_bswap4 (word_of_nat m))"
    by (simp add: kPaddingConstant_def flip: padding_block [OF assms])
  then have "claimed_len (kw_padding_iv m) = ucast (word_of_nat m :: u32)"
    by (simp add: claimed_len_def u32_of_bytes_bytes CRYPTO_bswap4_twice)
  then show ?thesis using assms by (simp add: unat_ucast_up unat_of_nat take_bit_eq_mod)
qed

text \<open>What the branch-free checks decide.\<close>

lemma padding_checks:
  fixes iv out :: "u8 list" and L :: nat
  assumes "length iv = 8" and "length out = L" and "8 dvd L" and "8 \<le> L" and "L \<le> int_max"
  defines "m \<equiv> claimed_len iv"
  shows "padding_ok (L + 8) iv out =
    mask_of (iv = kw_padding_iv (unat m) \<and> 0 < unat m \<and> unat m \<le> L \<and> out = kw_padded (take (unat m) out))"
proof -
  define l where "l = unat m"
  define w where "w = CRYPTO_bswap4 (u32_of_bytes (drop 4 iv))"
  have m: "m = word_of_nat l" by (simp add: l_def)
  have l: "l = unat w" "l \<le> 0xffffffff" using unsigned_less [of w, where ?'a = nat] by (simp_all add: l_def m_def w_def claimed_len_def unat_ucast_up)
  have "word_of_nat l = w" using l(1) by simp
  then have "kw_padding_iv l = kPaddingConstant @ drop 4 iv"
    using padding_block [OF l(2)] assms(1) by (simp add: w_def CRYPTO_bswap4_twice u32_bytes_of_bytes)
  moreover have "take 4 iv @ drop 4 iv = iv" by simp
  ultimately have iv: "iv = kw_padding_iv l \<longleftrightarrow> take 4 iv = kPaddingConstant" by (metis same_append_eq append_same_eq)
  have pad4: "length kPaddingConstant = 4" by (simp add: kPaddingConstant_def)
  have memcmp: "constant_time_eq_int (word_of_int (CRYPTO_memcmp iv kPaddingConstant 4)) 0 = mask_of (take 4 iv = kPaddingConstant)"
  proof -
    have "word_of_int (CRYPTO_memcmp iv kPaddingConstant 4) = (0 :: 32 word) \<longleftrightarrow> CRYPTO_memcmp iv kPaddingConstant 4 = 0"
      by (simp add: CRYPTO_memcmp_def ucast_u8_eq_0 uint_0_iff)
    then show ?thesis using assms(1) pad4 by (simp add: const_time CRYPTO_memcmp_eq_0)
  qed
  have div: "constant_time_eq_w (drop_bit 3 (m - 1)) (drop_bit 3 (word_of_nat (L + 8) - 9)) = mask_of ((l + 7) div 8 * 8 = L)"
    if "0 < l"
  proof -
    have "m - 1 = word_of_nat (l - 1)" using that by (simp add: m of_nat_diff)
    moreover have "word_of_nat (L + 8) - 9 = (word_of_nat (L - 1) :: crypto_word)" using assms(4) by (simp add: of_nat_diff)
    moreover have "drop_bit 3 (word_of_nat a) = (drop_bit 3 (word_of_nat b) :: crypto_word) \<longleftrightarrow> a div 8 = b div 8"
      if "a < 2 ^ 64" "b < 2 ^ 64" for a b :: nat
      using that unfolding word_unat_eq_iff unat_drop_bit_eq by (simp add: drop_bit_eq_div unat_of_nat take_bit_eq_mod)
    moreover have "l - 1 < 2 ^ 64" "L - 1 < 2 ^ 64" using assms(5) l(2) by simp_all
    ultimately show ?thesis using claimed_blocks [OF that assms(3)] assms(4) by (simp only: constant_time_eq_w_eq)
  qed
  have loop: "(\<forall>i\<in>set [L - 7..<L]. m \<le> word_of_nat i \<longrightarrow> out ! i = 0) \<longleftrightarrow> (\<forall>i\<in>set [L - 7..<L]. l \<le> i \<longrightarrow> out ! i = 0)"
  proof -
    have "m \<le> word_of_nat i \<longleftrightarrow> l \<le> i" if "i < L" for i
      using that assms(5) l(2) by (simp add: m word_le_nat_alt unat_of_nat take_bit_eq_mod)
    then show ?thesis by auto
  qed
  have zero: "m = 0 \<longleftrightarrow> l = 0" by (simp add: l_def unat_eq_0)
  have pad: "(l + 7) div 8 * 8 = L \<and> (\<forall>i\<in>set [L - 7..<L]. l \<le> i \<longrightarrow> out ! i = 0) \<longleftrightarrow> l \<le> L \<and> out = kw_padded (take l out)"
    if "0 < l"
  proof (cases "(l + 7) div 8 * 8 = L")
    case True
    then have "L - 7 \<le> l" "l \<le> L" using padded_length(2,3) [OF that l(2)] by auto
    with True padding_zero [OF assms(2) _ _ True] show ?thesis by simp
  next
    case False
    have "length (kw_padded (take l out)) = (l + 7) div 8 * 8" if "l \<le> L"
      using that assms(2) padded_length(2) [OF \<open>0 < l\<close> l(2)] by (simp add: kw_padded_def)
    with False assms(2) show ?thesis by metis
  qed
  have start: "constant_time_eq_int (word_of_int (CRYPTO_memcmp iv kPaddingConstant 4)) 0 AND NOT (constant_time_is_zero_w m) AND
      constant_time_eq_w (drop_bit 3 (m - 1)) (drop_bit 3 (word_of_nat (L + 8) - 9)) =
      mask_of (take 4 iv = kPaddingConstant \<and> l \<noteq> 0 \<and> (l + 7) div 8 * 8 = L)"
  proof (cases "l = 0")
    case True
    then show ?thesis unfolding memcmp using zero by (simp add: const_time)
  next
    case False
    then show ?thesis unfolding memcmp using zero div by (simp add: const_time)
  qed
  have "padding_ok (L + 8) iv out =
      fold (\<lambda>i ok. ok AND constant_time_is_zero_w (ucast (constant_time_ge_8 (word_of_nat i) m AND out ! i))) [L - 7..<L]
        (mask_of (take 4 iv = kPaddingConstant \<and> l \<noteq> 0 \<and> (l + 7) div 8 * 8 = L))"
    unfolding padding_ok_def Let_def m_def [symmetric] pad4 and.assoc start by simp
  moreover have "(take 4 iv = kPaddingConstant \<and> l \<noteq> 0 \<and> (l + 7) div 8 * 8 = L) \<and> (\<forall>i\<in>set [L - 7..<L]. l \<le> i \<longrightarrow> out ! i = 0) \<longleftrightarrow>
      iv = kw_padding_iv l \<and> 0 < l \<and> l \<le> L \<and> out = kw_padded (take l out)"
    using iv pad by blast
  ultimately show ?thesis by (simp only: zero_bytes_mask loop l_def [symmetric])
qed

text \<open>With padding too, what unwraps is what wrapping gives.\<close>

lemma AES_unwrap_key_padded_iff:
  assumes "aes_key_for key k" and "length key \<in> {16, 24, 32}"
  shows "AES_unwrap_key_padded k max_out c = Some p \<longleftrightarrow>
    length c \<le> max_out + 8 \<and> AES_wrap_key_padded (\<lambda>_. True) k (length c) p = Some c"
proof -
  define wrap where "wrap v out = (if length out \<le> 8 then length out = 8 \<and> AES_encrypt (v @ out) k = c
    else AES_wrap_key k (Some v) out = Some c)" for v out
  have wrap_len: "16 \<le> length c" "length c = length out + 8" "8 dvd length out" "8 \<le> length out" "length out \<le> int_max"
    if "wrap v out" "length v = 8" for v out
    using that AES_length(1) [OF assms, of "v @ out"] wrap_key_length [OF assms that(2), of out c]
    by (auto simp: wrap_def split: if_splits)
  have iv8: "length (kw_padding_iv m) = 8" for m by (simp add: kw_padding_iv_def kPaddingConstant_def)
  have wrapped: "AES_wrap_key_padded (\<lambda>_. True) k (length c) p = Some c \<longleftrightarrow>
      0 < length p \<and> length p \<le> 0xffffffff \<and> wrap (kw_padding_iv (length p)) (kw_padded p)"
  proof (cases "0 < length p \<and> length p \<le> 0xffffffff")
    case True
    note pl = padded_length [of "length p"]
    have L: "length (kw_padded p) = (length p + 7) div 8 * 8" using pl(2) True by (simp add: kw_padded_def)
    have "length c = (length p + 7) div 8 * 8 + 8" if "wrap (kw_padding_iv (length p)) (kw_padded p)"
      using wrap_len(2) [OF that iv8] by (simp only: L)
    moreover have "(length p + 7) div 8 * 8 \<le> 8 \<longleftrightarrow> length p \<le> 8" "(length p + 7) div 8 * 8 = 8 \<longleftrightarrow> length p \<le> 8"
      using pl(2,3,5) True by (cases "(length p + 7) div 8"; force)+
    ultimately show ?thesis using True L by (auto simp: AES_wrap_key_padded_eq wrap_def)
  qed (auto simp: AES_wrap_key_padded_eq)
  have unwrapped: "AES_unwrap_key_padded k max_out c = Some p \<longleftrightarrow>
      16 \<le> length c \<and> length c \<le> max_out + 8 \<and> (\<exists>v out. length v = 8 \<and> wrap v out \<and>
        (\<exists>m. v = kw_padding_iv m \<and> 0 < m \<and> m \<le> length out \<and> out = kw_padded (take m out) \<and> p = take m out))"
  proof (cases "16 \<le> length c \<and> length c \<le> max_out + 8")
    case True
    define inner where "inner = (if length c = 16 then Some (take 8 (AES_decrypt c k), drop 8 (AES_decrypt c k))
      else aes_unwrap_key_inner k c)"
    have inner: "inner = Some (v, out) \<longleftrightarrow> length v = 8 \<and> wrap v out" for v out
      unfolding inner_def wrap_def by (rule padded_inner_iff [OF assms])
    have unwrap: "AES_unwrap_key_padded k max_out c = (case inner of None \<Rightarrow> None | Some (iv, out) \<Rightarrow>
        if padding_ok (length c) iv out AND 1 = 1
        then Some (take (unat (constant_time_select_w (padding_ok (length c) iv out) (claimed_len iv) 0)) out) else None)"
    proof -
      have guard: "\<not> (length c < 16 \<or> max_out < length c - 8)" using True by auto
      show ?thesis unfolding AES_unwrap_key_padded_def Let_def if_not_P [OF guard] inner_def ..
    qed
    show ?thesis
    proof (cases inner)
      case None
      with inner show ?thesis by (simp add: unwrap)
    next
      case (Some x)
      obtain v out where x: "x = (v, out)" by fastforce
      then have v: "length v = 8" "wrap v out" using inner Some by auto
      define m where "m = unat (claimed_len v)"
      note len = wrap_len [OF v(2,1)]
      note checks = padding_checks [OF v(1) refl len(3-5), folded m_def]
      have "AES_unwrap_key_padded k max_out c = (if v = kw_padding_iv m \<and> 0 < m \<and> m \<le> length out \<and>
          out = kw_padded (take m out) then Some (take m out) else None)"
        by (simp only: unwrap Some x option.case prod.case len(2) checks constant_time_select_w_eq) (simp add: m_def)
      then have "AES_unwrap_key_padded k max_out c = Some p \<longleftrightarrow>
          v = kw_padding_iv m \<and> 0 < m \<and> m \<le> length out \<and> out = kw_padded (take m out) \<and> p = take m out"
        by (cases "v = kw_padding_iv m \<and> 0 < m \<and> m \<le> length out \<and> out = kw_padded (take m out)") (simp_all only: if_P if_False simp_thms if_not_P, auto)
      also have "\<dots> \<longleftrightarrow> (\<exists>m. v = kw_padding_iv m \<and> 0 < m \<and> m \<le> length out \<and> out = kw_padded (take m out) \<and> p = take m out)"
      proof -
        have "m' = m" if "v = kw_padding_iv m'" "m' \<le> length out" for m'
          using claimed_len_padding_iv [of m'] that len(5) by (simp add: m_def)
        then show ?thesis by blast
      qed
      also have "\<dots> \<longleftrightarrow> (\<exists>v out. length v = 8 \<and> wrap v out \<and>
          (\<exists>m. v = kw_padding_iv m \<and> 0 < m \<and> m \<le> length out \<and> out = kw_padded (take m out) \<and> p = take m out))"
      proof -
        have "v' = v \<and> out' = out" if "length v' = 8" "wrap v' out'" for v' out'
          using that inner [of v' out'] Some x by simp
        with v show ?thesis by metis
      qed
      finally show ?thesis using True by (simp only: simp_thms)
    qed
  qed (auto simp: AES_unwrap_key_padded_def Let_def)
  show ?thesis unfolding wrapped unwrapped
  proof (intro iffI conjI; (elim conjE exE)?)
    fix v out m
    assume *: "length v = 8" "wrap v out" "v = kw_padding_iv m" "0 < m" "m \<le> length out" "out = kw_padded (take m out)" "p = take m out"
    then have "length p = m" "m \<le> 0xffffffff" using wrap_len(5) [OF *(2,1)] by auto
    with * show "0 < length p" "length p \<le> 0xffffffff" "wrap (kw_padding_iv (length p)) (kw_padded p)" by simp_all
  next
    assume *: "0 < length p" "length p \<le> 0xffffffff" "wrap (kw_padding_iv (length p)) (kw_padded p)"
    then show "16 \<le> length c" using wrap_len(1) [OF *(3) iv8] by simp
    show "\<exists>v out. length v = 8 \<and> wrap v out \<and>
        (\<exists>m. v = kw_padding_iv m \<and> 0 < m \<and> m \<le> length out \<and> out = kw_padded (take m out) \<and> p = take m out)"
      using * iv8 by (intro exI [where x = "kw_padding_iv (length p)"] exI [where x = "kw_padded p"] conjI exI [where x = "length p"])
        (simp_all add: kw_padded_def)
  qed auto
qed

text \<open>With padding: eight bytes or less are one block.\<close>

definition kw_wrap_padded :: "(u8 list \<Rightarrow> u8 list) \<Rightarrow> u8 list \<Rightarrow> u8 list" where
  "kw_wrap_padded enc p =
     (if length p \<le> 8 then enc (kw_padding_iv (length p) @ kw_padded p)
      else kw_wrap enc (kw_padding_iv (length p)) (kw_padded p))"

lemma AES_wrap_key_padded_is_kw:
  assumes "aes_key_for key k" and "length key \<in> {16, 24, 32}"
  shows "AES_wrap_key_padded sys k max_out p =
    (if 0 < length p \<and> padded_len p + 8 \<le> int_max \<and> padded_len p + 8 \<le> max_out \<and>
        (length p \<le> 8 \<or> OPENSSL_malloc sys (padded_len p))
     then Some (kw_wrap_padded (aes key) p) else None)"
proof (cases "0 < length p \<and> length p \<le> 0xffffffff")
  case True
  note pl = padded_length [of "length p"]
  have iv: "length (kw_padding_iv m) = 8" for m by (simp add: kw_padding_iv_def kPaddingConstant_def)
  have L: "length (kw_padded p) = padded_len p" using pl(2) True by (simp add: kw_padded_def)
  show ?thesis
  proof (cases "length p \<le> 8")
    case short: True
    then have "padded_len p = 8" using pl(3,5) True by (cases "(length p + 7) div 8"; force)
    then show ?thesis using short True L iv
      by (simp add: AES_wrap_key_padded_sys kw_wrap_padded_def AES_block(1) [OF assms(1)])
  next
    case False
    then have "16 \<le> padded_len p" by simp
    then show ?thesis using False True L
        AES_wrap_key_is_kw [OF assms iv, of "kw_padded p"] AES_wrap_key_None [of "kw_padded p" k]
      by (auto simp: AES_wrap_key_padded_sys kw_wrap_padded_def)
  qed
next
  case False
  then have "\<not> (0 < length p \<and> padded_len p + 8 \<le> int_max)" by auto
  with False show ?thesis by (auto simp: AES_wrap_key_padded_sys)
qed



end
