(* ===== verification/Spec2Isabelle.thy ===== *)
theory Spec2Isabelle
  imports Const_Time Mem Cbs Der Qsort Cbb Cbb_Spec Der_Build Builder Document Base64 Stack Lhash Pool Unicode Oid Ber
    Modes Ctr_Mode Cbc Rc4 Siphash Buf Pb_Stream Pb_Wire Digest Hmac Tls_Cbc Tls_Mac
    Evp_Ciphers Key_Wrap
begin

text \<open>
  The repository is a Flutter application; the C code it ships is what its iOS build vendors under
  \<open>src/ios/Pods\<close>: BoringSSL (\<open>BoringSSL-GRPC/src\<close>), gRPC and nanopb. This development models the part
  of it every byte of the application's traffic goes through: how BoringSSL reads, writes and keeps
  byte strings, its digests and MACs, AES with its modes behind the cipher interface, the records of
  TLS in CBC mode, and the wire format of nanopb. File names below are relative to
  \<open>src/ios/Pods/BoringSSL-GRPC/src\<close> and to \<open>src/ios/Pods/nanopb\<close>.

  Parts of the program, and the theories that model them (a function has the name of the C
  function; the body of a loop that the C function has inline has a name of its own):

  \<^item> \<open>Const_Time\<close>: the masks and selections of \<open>crypto/internal.h\<close>. \<open>Mem\<close>: \<open>crypto/mem.c\<close> (allocation
    with its size prefix, comparison, the FNV hash, bounded strings) and the byte order helpers
    of \<open>crypto/internal.h\<close>.
  \<^item> \<open>Cbs\<close>: the parser \<open>crypto/bytestring/cbs.c\<close>; a \<open>CBS\<close> is the list of bytes in view. \<open>Der\<close>: what
    it accepts, as exact inverses of plain encoding functions.
  \<^item> \<open>Cbb\<close>: the builder \<open>crypto/bytestring/cbb.c\<close> and \<open>asn1_compat.c\<close>; the \<open>CBB\<close>s that
    write to one buffer are a chain of frames over a shared \<open>cbb_buffer_st\<close>. \<open>Cbb_Spec\<close>: its abstract
    state, a stack of open levels, and the refinement. \<open>Builder\<close>: whole sequences of calls.
    \<open>Der_Build\<close> and \<open>Document\<close>: builder and parser composed, on elements and on trees of elements.
  \<^item> \<open>Oid\<close>, \<open>Ber\<close>, \<open>Unicode\<close>: object identifiers as text, \<open>crypto/bytestring/ber.c\<close> and
    \<open>unicode.c\<close>, each over parser and builder. \<open>Base64\<close>: \<open>crypto/base64/base64.c\<close>.
  \<^item> \<open>Qsort\<close>: what the code uses of the C library's \<open>qsort\<close>. \<open>Stack\<close>, \<open>Lhash\<close>, \<open>Pool\<close>, \<open>Buf\<close>: the containers
    \<open>crypto/stack/stack.c\<close>, \<open>crypto/lhash/lhash.c\<close>, \<open>crypto/pool/pool.c\<close> (over \<open>lhash.c\<close> and
    \<open>crypto/refcount_lock.c\<close>) and \<open>crypto/buf/buf.c\<close>.
  \<^item> \<open>Stream_Cipher\<close>: what a stream cipher is, and how a loop over blocks implements it. \<open>Modes\<close>,
    \<open>Ctr_Mode\<close>, \<open>Cbc\<close>: \<open>ofb.c\<close>, \<open>ctr.c\<close>, \<open>cfb.c\<close> and \<open>cbc.c\<close> of \<open>crypto/fipsmodule/modes\<close>. \<open>Rc4\<close>:
    \<open>crypto/rc4/rc4.c\<close>. \<open>Siphash\<close>: \<open>crypto/siphash/siphash.c\<close>.
  \<^item> \<open>Md32\<close>: the collector of \<open>crypto/fipsmodule/digest/md32_common.h\<close>. \<open>Sha1\<close>, \<open>Sha256\<close>: \<open>sha1.c\<close> and
    \<open>sha256.c\<close> of \<open>crypto/fipsmodule/sha\<close>, each with the digest of the standard. \<open>Digest\<close>: the interface
    \<open>crypto/fipsmodule/digest/digest.c\<close> and the methods of SHA-1, SHA-224 and SHA-256. \<open>Hmac\<close>:
    \<open>crypto/fipsmodule/hmac/hmac.c\<close> and \<open>crypto/hkdf/hkdf.c\<close>. \<open>Tls_Cbc\<close>, \<open>Tls_Mac\<close>:
    \<open>crypto/cipher_extra/tls_cbc.c\<close>, padding and MAC of a record in constant time.
  \<^item> \<open>Aes_Spec\<close>: AES as FIPS 197 has it. \<open>Aes_Nohw\<close>, \<open>Aes_Key\<close>, \<open>Aes_Block\<close>: the bitsliced code of
    \<open>crypto/fipsmodule/aes/aes_nohw.c\<close>, the steps of a round, the key schedules, and the operations on
    blocks, in batches of four. \<open>Aes_Field\<close>, \<open>Aes_Sbox\<close>, \<open>Aes_Batch\<close>, \<open>Aes_Columns\<close>, \<open>Aes_Transpose\<close>: the
    lemmas on the field, the circuit of the S-box, the bits of a batch, the columns, and the way in and out
    of a batch. \<open>Aes_Modes\<close>: \<open>aes.c\<close> and \<open>mode_wrappers.c\<close> of the same directory. \<open>Key_Wrap\<close>: \<open>key_wrap.c\<close>.
  \<^item> \<open>Cipher\<close>: the interface \<open>crypto/fipsmodule/cipher/cipher.c\<close>, with partial blocks and padding. \<open>Evp_Ciphers\<close>:
    its methods for the null cipher, RC4 (\<open>crypto/cipher_extra\<close>) and AES (\<open>e_aes.c\<close>).
  \<^item> \<open>Pb_Stream\<close>, \<open>Pb_Wire\<close>: the streams of nanopb and its single values (\<open>pb_encode.c\<close>, \<open>pb_decode.c\<close>).

  How the state of the code appears: a C struct is a record, the view or buffer behind a pointer is
  a list, an operation that updates its arguments in place returns them. A parser or builder
  function returns an option and the state it leaves, also when it fails (\<open>op\<close> of theory \<open>Prelude\<close>).
  Integers are words of their width; \<open>size_t\<close> has 64 bits, and a size is a number with the
  overflow checks of the code written out. A batch of AES is the eight words of bits that the code has, a
  round key in \<open>rd_key\<close> the compact block that the key schedule writes there. Pointers are not modelled
  but where they matter: \<open>Cbc\<close> works in one memory, because its buffers may overlap, and the buffers of
  \<open>Pool\<close> have addresses, because they are counted. The Pods build with \<open>OPENSSL_NO_ASM\<close>, so that AES is
  always that of \<open>aes_nohw.c\<close> and \<open>e_aes.c\<close> takes the branches for it.

  Interfaces are locales: \<open>cbs_reader\<close>, \<open>cbs_codec\<close>, \<open>cbs_canonical_codec\<close> (readers, and readers that
  invert an encoding), interpreted by the fixed-width readers, base-128 integers, tags, DER
  elements and UTF-8; \<open>cbb_implements\<close> (a call of the builder implements an operation on
  levels); \<open>comparator\<close> (the contract of a comparison function: sorting and searching);
  \<open>lhash_functions\<close> and \<open>object_table\<close> (the contract of a hash function and of a table), which the
  buffer pool interprets; \<open>invertible\<close>, \<open>stream_code\<close> and \<open>block_loops\<close>, which OFB, CTR, CFB and
  RC4 interpret; \<open>md32_block\<close> (a compression function under the collector), which SHA-1 and SHA-256
  interpret; \<open>digest_method\<close>, which the three methods interpret and HMAC and HKDF rest on; \<open>cipher_method\<close>,
  which the six methods of the cipher interface interpret; \<open>wire_codec\<close>, which the value formats of
  nanopb interpret.

  What the lemmas show: the readers accept exactly the canonical encodings and never leave more
  than a suffix of the input; the builder refines the stack of levels, is complete when memory
  suffices, and its errors stick; what is built is parsed back; BER conversion produces the DER of
  the same trees; base64 streams can be cut anywhere; the stack stays within its array, keeps its sorted flag
  truthful as long as \<open>sk_set\<close> does not break the order, and searches correctly; the hash table is a map; no
  buffer of a pool is used after it is freed, however threads interleave; a \<open>BUF_MEM\<close> is a list of bytes; the
  modes compute their definitions, are inverse to each other and respect the overlaps they allow; the
  digests are those of the standards however a message is cut, and HMAC and HKDF follow; the
  constant-time code for TLS records computes the padding, the MAC and its copy that plain code would;
  the bitsliced AES is FIPS 197, its schedules and its modes included; the cipher interface encrypts the padded text
  and accepts exactly valid padding; keys are wrapped as the RFCs say, and only what was wrapped unwraps; the
  streams of nanopb read what they write, and delimit it.
  Where the code departs from its documentation or from its purpose, a theorem says so: BER that
  \<open>cbs_find_ber\<close> overlooks, \<open>sk_set\<close>, \<open>EVP_DecodeBlock\<close>, \<open>pb_decode_varint32\<close>, the assertion of
  \<open>CRYPTO_cbc128_decrypt\<close> for texts that end within a block, and \<open>BUF_MEM_grow\<close> to zero.

  Bounds and fuel: \<open>read_all\<close> takes the length of its input, which suffices because every item
  takes a byte (\<open>cbs_item_reader\<close>). \<open>convert_ber_loop\<close> calls itself on what another call left, so
  it has fuel, \<open>Suc (length s)\<close>; \<open>cbs_convert_ber_never_runs_out\<close> shows that it is enough. The depth of
  recursion is the code's own bound (\<open>kMaxDepth\<close>, 2048). Completeness of the builder assumes sizes
  below \<open>2^62\<close>, so that doubling a capacity does not overflow. Lengths that the code keeps in an \<open>int\<close> are
  bounded by \<open>int_max\<close>. All other loops are structural or have a measure.

  What is a parameter: whether an allocation of a given size succeeds (\<open>sys\<close>), the value of
  uninitialised bytes (\<open>junk\<close>), the block cipher under its key in the modes (\<open>block\<close>, of which only the
  length of its result is assumed, and for decryption of CBC its inverse; AES instantiates it), comparison,
  hash, copy and free functions of the containers.

  Not modelled, and why: DES, ChaCha, Poly1305, GCM, MD4, MD5, SHA-512 and BLAKE2, further ciphers and
  digests of the kinds that are modelled; the SSE2 and 32-bit variants of \<open>aes_nohw.c\<close>; big numbers,
  curves and everything that computes with them, which is generated or assembly-backed limb arithmetic;
  X.509 and the ASN.1 templates, object tables and engines, which are driven by generated tables; TLS, gRPC,
  Abseil, LevelDB and Firebase, which are C++ and Objective-C; messages and fields of nanopb
  and streams over callbacks of the user; timing (constant-time code is modelled by its values), and
  the release of memory where it has no effect but that.
\<close>

section \<open>The builder\<close>

text \<open>
  C18: Whatever calls are made on a builder and its children, and however the allocator
  behaves: if they all succeed and \<open>CBB_finish\<close> returns a buffer, it holds exactly the bytes
  the calls mean on the stack of open levels, every length prefix filled in.
\<close>

theorem builder_sound:
  assumes "list_all call_ok cs" and "cap < size_modulus"
    and "CBB_init sys cap = Some st \<or> CBB_init_fixed sys cap = Some st"
    and "do_calls cs sys st = (Some u, st1)" and "CBB_finish sys d l h st1 = (Some out, st2)"
  shows "spec_build cs = Some out"
  using assms by (rule build_sound)

theorem builder_sound_witness:
  "spec_build [Add_asn1 0 0x20000010, Add_u8 1 5, Add_asn1_bool 1 1] = Some [0x30, 4, 5, 1, 1, 0xff]"
proof -
  let ?cs = "[Add_asn1 0 0x20000010, Add_u8 1 5, Add_asn1_bool 1 1]"
  let ?st = "the (CBB_init (\<lambda>_. True) 0)"
  have init: "CBB_init (\<lambda>_. True) 0 = Some ?st"
    by (simp add: cbb_eval)
  have "\<exists>st1 st2. do_calls ?cs (\<lambda>_. True) ?st = (Some (), st1) \<and>
      CBB_finish (\<lambda>_. True) True True 0 st1 = (Some [0x30, 4, 5, 1, 1, 0xff], st2)"
    by (simp add: cbb_eval)
  then obtain st1 st2 where "do_calls ?cs (\<lambda>_. True) ?st = (Some (), st1)"
    "CBB_finish (\<lambda>_. True) True True 0 st1 = (Some [0x30, 4, 5, 1, 1, 0xff], st2)"
    by blast
  with init show ?thesis
    by (intro builder_sound [of ?cs 0 "\<lambda>_. True" ?st]) auto
qed

text \<open>
  C19: With a buffer that may grow and memory to spare the builder is complete: every
  sequence of calls whose meaning is defined (no closed child is used, every contents fits
  its length prefix) succeeds, and \<open>CBB_finish\<close> returns the bytes it means.
\<close>

theorem builder_complete:
  assumes "list_all call_ok cs" and "cap < 2 ^ 62"
    and "spec_build cs = Some out" and "length out < 2 ^ 62"
  shows "\<exists>st st1 st2. CBB_init (\<lambda>_. True) cap = Some st \<and> do_calls cs (\<lambda>_. True) st = (Some (), st1) \<and>
    CBB_finish (\<lambda>_. True) True True 0 st1 = (Some out, st2)"
  using assms by (rule build_complete)

theorem builder_complete_witness:
  "\<exists>st st1 st2. CBB_init (\<lambda>_. True) 4 = Some st \<and>
    do_calls [Add_length_prefixed 0 W16, Add_bytes 1 [1, 2, 3]] (\<lambda>_. True) st = (Some (), st1) \<and>
    CBB_finish (\<lambda>_. True) True True 0 st1 = (Some [0, 3, 1, 2, 3], st2)"
  by (intro builder_complete)
    (simp_all add: spec_build_def spec_finish_def spec_open_def spec_add_def level_add_def be_bytes_numeral)

end
